(* ===== verification/Prelude.thy ===== *)
theory Prelude
  imports Main "HOL-Library.Word"
begin

text \<open>
  Shared vocabulary of the development: the machine types of the kernel sources, the error
  numbers of \<^verbatim>\<open>includes/ir0/errno.h\<close>, the outcome of code that may panic, arithmetic
  on \<^verbatim>\<open>size_t\<close> and \<^verbatim>\<open>uintptr_t\<close> with its wrap-around written out, and the
  first-match scan every fixed-size kernel table uses.
\<close>

unbundle bit_operations_syntax

named_theorems kernel_simps "unfolding rules for the operations of the kernel model"
named_theorems kernel_inv "facts read off a component invariant"

type_synonym u8 = "8 word"
type_synonym u16 = "16 word"
type_synonym u32 = "32 word"
type_synonym u64 = "64 word"

section \<open>Error numbers and outcomes\<close>

datatype errno =
    EPERM | ESRCH | EINTR | EBADF | EAGAIN | ENOMEM | EFAULT | EINVAL | EMFILE | EPIPE
  | ENOLCK | EEXIST | ENOENT | EWOULDBLOCK | ESPIPE | ENOTDIR | EISDIR | ENOTEMPTY | ENOSPC | ENAMETOOLONG | EIO | ENOSYS | EACCES | ECHILD | ELOOP | EXDEV | EROFS | EFBIG | ENODEV | EBUSY | ENOEXEC | E2BIG

text \<open>
  \<^verbatim>\<open>panicex\<close> never returns: a computation that reaches it ends in
  \<^verbatim>\<open>Panic\<close> with the message of the source. \<^verbatim>\<open>Stuck\<close> is a
  computation with no defined continuation: a pointer walk that does not end, or one that
  follows a dangling or NULL pointer. Theorems that an operation returns
  \<^verbatim>\<open>Done\<close> therefore say that it terminates and is memory safe.
\<close>

datatype 'a kresult = Done 'a | Panic string | Stuck

fun kbind :: "'a kresult \<Rightarrow> ('a \<Rightarrow> 'b kresult) \<Rightarrow> 'b kresult" where
  "kbind (Done x) f = f x"
| "kbind (Panic m) f = Panic m"
| "kbind Stuck f = Stuck"

lemma kbind_Done_iff: "kbind r f = Done y \<longleftrightarrow> (\<exists>x. r = Done x \<and> f x = Done y)"
  by (cases r) auto

section \<open>64-bit address arithmetic\<close>

abbreviation two64 :: nat where
  "two64 \<equiv> 2 ^ 64"

definition add64 :: "nat \<Rightarrow> nat \<Rightarrow> nat" where
  "add64 a b = (a + b) mod two64"

definition sub64 :: "nat \<Rightarrow> nat \<Rightarrow> nat" where
  "sub64 a b = (a + two64 - b mod two64) mod two64"

definition align_down :: "nat \<Rightarrow> nat \<Rightarrow> nat" where
  "align_down m a = a div m * m"

lemma add64_small [simp]: "a + b < two64 \<Longrightarrow> add64 a b = a + b"
  by (simp add: add64_def)

lemma sub64_small [simp]: "b \<le> a \<Longrightarrow> a < two64 \<Longrightarrow> sub64 a b = a - b"
proof -
  assume *: "b \<le> a" "a < two64"
  then have "a + two64 - b mod two64 = (a - b) + two64" by simp
  then have "sub64 a b = (a - b) mod two64" unfolding sub64_def by simp
  then show ?thesis using * by simp
qed

lemma align_down_le: "align_down m a \<le> a"
  by (simp add: align_down_def)

lemma align_down_mult [simp]: "0 < m \<Longrightarrow> align_down m (k * m) = k * m"
  by (simp add: align_down_def)

lemma align_down_dvd [simp]: "m dvd align_down m a"
  by (simp add: align_down_def)

lemma align_down_offset:
  assumes "0 < m" and "m dvd b" and "b \<le> a"
  shows "align_down m a = b + (a - b) div m * m"
proof -
  from assms(2) obtain k where b: "b = m * k" by (elim dvdE)
  have "a div m = k + (a - b) div m"
    using assms(1,3) b by (metis add.commute div_mult_self2 le_add_diff_inverse2 less_not_refl)
  then show ?thesis by (simp add: align_down_def b algebra_simps)
qed

section \<open>First match in a table\<close>

text \<open>
  \<^verbatim>\<open>for (i = 0; i < MAX; i++) if (p(tab[i])) ...\<close> with a break or a return in the body.
\<close>

fun first_index :: "('a \<Rightarrow> bool) \<Rightarrow> 'a list \<Rightarrow> nat option" where
  "first_index P [] = None"
| "first_index P (x # xs) = (if P x then Some 0 else map_option Suc (first_index P xs))"

lemma first_index_None_iff: "first_index P xs = None \<longleftrightarrow> (\<forall>x \<in> set xs. \<not> P x)"
  by (induction xs) auto

lemma first_index_SomeD:
  "first_index P xs = Some i \<Longrightarrow> i < length xs \<and> P (xs ! i) \<and> (\<forall>j < i. \<not> P (xs ! j))"
proof (induction xs arbitrary: i)
  case (Cons x xs)
  show ?case
  proof (cases "P x")
    case True
    with Cons.prems show ?thesis by simp
  next
    case False
    with Cons.prems obtain k where k: "first_index P xs = Some k" "i = Suc k" by auto
    from Cons.IH [OF k(1)] False show ?thesis
      by (auto simp: k(2) nth_Cons split: nat.splits)
  qed
qed simp

lemma first_index_bound: "first_index P xs = Some i \<Longrightarrow> i < length xs"
  and first_index_holds: "first_index P xs = Some i \<Longrightarrow> P (xs ! i)"
  by (auto dest: first_index_SomeD)

lemma first_index_NoneD: "first_index P xs = None \<Longrightarrow> i < length xs \<Longrightarrow> \<not> P (xs ! i)"
  by (simp add: first_index_None_iff)

lemma first_index_ex: "i < length xs \<Longrightarrow> P (xs ! i) \<Longrightarrow> \<exists>k. first_index P xs = Some k"
  by (cases "first_index P xs") (auto dest: first_index_NoneD)

section \<open>Bits of a byte\<close>

definition bit_mask :: "nat \<Rightarrow> 'a::len word" where
  "bit_mask k = push_bit k 1"

lemma bit_bit_mask: "bit (bit_mask k :: 'a::len word) n \<longleftrightarrow> n = k \<and> n < LENGTH('a)"
  unfolding bit_mask_def by (auto simp: bit_push_bit_iff bit_1_iff simp del: push_bit_of_1)

lemma and_bit_mask_neq_0:
  "k < LENGTH('a) \<Longrightarrow> (w :: 'a::len word) AND bit_mask k \<noteq> 0 \<longleftrightarrow> bit w k"
proof -
  assume k: "k < LENGTH('a)"
  have "bit (w AND bit_mask k) n \<longleftrightarrow> n = k \<and> bit w k" for n
    using k by (auto simp: bit_and_iff bit_bit_mask)
  then show ?thesis by (metis bit_eqI bit_0_eq bot_apply bot_bool_def)
qed

section \<open>Updating one entry of a table\<close>

lemma nth_list_update_if:
  "i < length xs \<Longrightarrow> xs[i := v] ! j = (if j = i then v else xs ! j)"
  by auto

lemma card_insert_new: "finite A \<Longrightarrow> x \<notin> A \<Longrightarrow> card (insert x A) = Suc (card A)"
  by simp

lemma card_remove_old: "finite A \<Longrightarrow> x \<in> A \<Longrightarrow> card (A - {x}) = card A - 1"
  by simp

end
