(* ===== verification/Frame_Pool.thy ===== *)
theory Frame_Pool
  imports Prelude
begin

text \<open>
  The contract between the physical memory manager and the code that holds frames
  (\<^verbatim>\<open>kernel/memfd.c\<close> and the fork path): a pool hands out frames by address, address 0
  meaning that none is left, and counts the references to each. The lemmas of the locale are
  about the two loops the clients run over a pool: taking several frames, and giving a list of
  frames back.
\<close>

section \<open>Loops over a pool\<close>

text \<open>
  \<^verbatim>\<open>for (...) pmm_free_frame(frames[i])\<close>, stopping if the pool panics.
\<close>

fun put_all :: "(nat \<Rightarrow> 's \<Rightarrow> 's kresult) \<Rightarrow> nat list \<Rightarrow> 's \<Rightarrow> 's kresult" where
  "put_all put [] s = Done s"
| "put_all put (a # as) s = kbind (put a s) (put_all put as)"

text \<open>Take up to \<open>n\<close> frames, in order, stopping at the first failure.\<close>

fun alloc_many :: "('s \<Rightarrow> nat \<times> 's) \<Rightarrow> nat \<Rightarrow> 's \<Rightarrow> nat list \<times> 's" where
  "alloc_many alloc 0 s = ([], s)"
| "alloc_many alloc (Suc n) s =
     (let (a, s1) = alloc s
      in if a = 0 then ([], s1)
         else let (as, s2) = alloc_many alloc n s1 in (a # as, s2))"

section \<open>The contract\<close>

locale frame_pool =
  fixes alloc :: "'s \<Rightarrow> nat \<times> 's"
    and get :: "nat \<Rightarrow> 's \<Rightarrow> 's kresult"
    and put :: "nat \<Rightarrow> 's \<Rightarrow> 's kresult"
    and refs :: "'s \<Rightarrow> nat \<Rightarrow> nat option"
    and invar :: "'s \<Rightarrow> bool"
  assumes alloc_invar: "invar s \<Longrightarrow> alloc s = (a, s') \<Longrightarrow> invar s'"
    and alloc_fresh: "invar s \<Longrightarrow> alloc s = (a, s') \<Longrightarrow> a \<noteq> 0 \<Longrightarrow>
          refs s a = None \<and> refs s' = (refs s)(a \<mapsto> 1)"
    and alloc_fail: "invar s \<Longrightarrow> alloc s = (0, s') \<Longrightarrow> s' = s"
    and get_ref: "invar s \<Longrightarrow> refs s a = Some n \<Longrightarrow> n < 2 ^ 32 - 1 \<Longrightarrow>
          \<exists>s'. get a s = Done s' \<and> invar s' \<and> refs s' = (refs s)(a \<mapsto> n + 1)"
    and put_ref: "invar s \<Longrightarrow> refs s a = Some n \<Longrightarrow>
          \<exists>s'. put a s = Done s' \<and> invar s' \<and>
               refs s' = (refs s)(a := if n \<le> 1 then None else Some (n - 1))"
begin

lemma put_all_release:
  "invar s \<Longrightarrow> distinct as \<Longrightarrow> (\<And>a. a \<in> set as \<Longrightarrow> refs s a = Some 1) \<Longrightarrow>
   \<exists>s'. put_all put as s = Done s' \<and> invar s' \<and> refs s' = refs s |` (- set as)"
proof (induction as arbitrary: s)
  case Nil
  then show ?case by simp
next
  case (Cons a as)
  from Cons.prems obtain s1 where s1: "put a s = Done s1" "invar s1" "refs s1 = (refs s)(a := None)"
    using put_ref [of s a 1] by auto
  have "\<And>b. b \<in> set as \<Longrightarrow> refs s1 b = Some 1"
    using Cons.prems(2,3) s1(3) by auto
  from Cons.IH [OF s1(2) _ this] Cons.prems(2) obtain s2 where
    "put_all put as s1 = Done s2" "invar s2" "refs s2 = refs s1 |` (- set as)" by auto
  with s1 show ?case by (auto simp: restrict_map_def fun_eq_iff)
qed

lemma alloc_many_fresh:
  "invar s \<Longrightarrow> alloc_many alloc n s = (as, s') \<Longrightarrow>
   invar s' \<and> distinct as \<and> 0 \<notin> set as \<and> length as \<le> n \<and> (\<forall>a \<in> set as. refs s a = None) \<and>
   refs s' = (\<lambda>a. if a \<in> set as then Some 1 else refs s a)"
proof (induction n arbitrary: s as)
  case 0
  then show ?case by simp
next
  case (Suc n)
  obtain a s1 where a: "alloc s = (a, s1)" by fastforce
  show ?case
  proof (cases "a = 0")
    case True
    with Suc.prems a have "as = []" "s' = s1" by simp_all
    moreover from True a Suc.prems(1) have "s1 = s" using alloc_fail by simp
    ultimately show ?thesis using Suc.prems(1) by simp
  next
    case False
    obtain bs where bs: "alloc_many alloc n s1 = (bs, s')" "as = a # bs"
      using Suc.prems(2) a False by (auto split: prod.splits)
    from Suc.prems(1) a False have f: "refs s a = None" "refs s1 = (refs s)(a \<mapsto> 1)" "invar s1"
      using alloc_fresh alloc_invar by blast+
    from Suc.IH [OF f(3) bs(1)] f(1,2) False show ?thesis
      by (auto simp: bs(2) fun_eq_iff split: if_splits)
  qed
qed

text \<open>Giving back what was taken, in any order, restores every count.\<close>

lemma alloc_many_rollback:
  assumes "invar s" "alloc_many alloc n s = (as, s1)" "set bs = set as" "distinct bs"
  shows "\<exists>s2. put_all put bs s1 = Done s2 \<and> invar s2 \<and> refs s2 = refs s"
proof -
  note f = alloc_many_fresh [OF assms(1,2)]
  then have one: "\<And>a. a \<in> set bs \<Longrightarrow> refs s1 a = Some 1" using assms(3) by simp
  have inv1: "invar s1" using f by blast
  from put_all_release [OF inv1 assms(4) one]
  obtain s2 where "put_all put bs s1 = Done s2" "invar s2" "refs s2 = refs s1 |` (- set bs)" by blast
  moreover have "refs s1 |` (- set bs) = refs s"
    using f assms(3) by (auto simp: restrict_map_def fun_eq_iff)
  ultimately show ?thesis by metis
qed

text \<open>\<open>k\<close> puts of one frame: it stays allocated until the last reference goes.\<close>

lemma put_all_replicate:
  "invar s \<Longrightarrow> refs s a = Some n \<Longrightarrow> k \<le> n \<Longrightarrow> 0 < n \<Longrightarrow>
   \<exists>s'. put_all put (replicate k a) s = Done s' \<and> invar s' \<and>
        refs s' = (refs s)(a := if k = n then None else Some (n - k))"
proof (induction k arbitrary: s n)
  case 0
  then show ?case by (auto simp: fun_eq_iff)
next
  case (Suc k)
  obtain s1 where s1: "put a s = Done s1" "invar s1"
    "refs s1 = (refs s)(a := if n \<le> 1 then None else Some (n - 1))"
    using put_ref [OF Suc.prems(1,2)] by blast
  show ?case
  proof (cases "n = 1")
    case True
    with Suc.prems s1 show ?thesis by (auto simp: fun_eq_iff)
  next
    case False
    with Suc.prems s1 have "refs s1 a = Some (n - 1)" "k \<le> n - 1" "0 < n - 1" by auto
    from Suc.IH [OF s1(2) this] s1 Suc.prems False show ?thesis by (auto simp: fun_eq_iff)
  qed
qed

lemma get_put_roundtrip:
  assumes "invar s" "refs s a = Some n" "0 < n" "n < 2 ^ 32 - 1"
  shows "\<exists>s1 s2. get a s = Done s1 \<and> put a s1 = Done s2 \<and> invar s2 \<and> refs s2 = refs s"
proof -
  obtain s1 where s1: "get a s = Done s1" "invar s1" "refs s1 = (refs s)(a \<mapsto> n + 1)"
    using get_ref [OF assms(1,2,4)] by blast
  then obtain s2 where "put a s1 = Done s2" "invar s2" "refs s2 = (refs s1)(a := Some n)"
    using put_ref [of s1 a "n + 1"] assms(3) by auto
  with s1 assms(2) show ?thesis by (auto simp: fun_eq_iff)
qed

end

end
