(* ===== verification/Pmm.thy ===== *)
theory Pmm
  imports Frame_Pool
begin

text \<open>
  The physical memory manager, \<^verbatim>\<open>mm/pmm.c\<close>: a bitmap of 4 KiB frames with a search
  hint, a reference count per frame and an ownership class per frame. The state is the file's
  static \<^verbatim>\<open>pmm\<close> structure together with its static tables; a table whose
  \<^verbatim>\<open>kmalloc\<close> failed is \<^verbatim>\<open>None\<close>, as the code tests the pointer before
  every use. The interrupt lock brackets each operation, so an operation is one step.
  The lemmas show that every operation keeps the well-formedness of the tables and that the
  bitmap and the counts together implement a partial map from frames to reference counts.
\<close>

section \<open>State\<close>

datatype pmm_owner_class =
    PMM_OWNER_NONE | PMM_OWNER_KERNEL | PMM_OWNER_USER | PMM_OWNER_SHARED | PMM_OWNER_PAGE_TABLE

datatype process_mode = KERNEL_MODE | USER_MODE

record pmm_state =
  mem_start :: nat
  mem_end :: nat
  total_frames :: nat
  bitmap :: "u8 list"
  used_frames :: nat
  initialized :: bool
  pmm_search_hint :: nat
  pmm_owner_class_tab :: "pmm_owner_class list option"
  pmm_frame_owner_pid :: "int list option"
  pmm_frame_refs :: "nat list option"
  pmm_diag_double_free :: nat

abbreviation PMM_FRAME_SIZE :: nat where
  "PMM_FRAME_SIZE \<equiv> 4096"

abbreviation UINT32_MAX :: nat where
  "UINT32_MAX \<equiv> 2 ^ 32 - 1"

text \<open>The zero-initialised static structure before \<^verbatim>\<open>pmm_init\<close>.\<close>

definition pmm_boot :: pmm_state where
  "pmm_boot = \<lparr>mem_start = 0, mem_end = 0, total_frames = 0, bitmap = [], used_frames = 0,
     initialized = False, pmm_search_hint = 0, pmm_owner_class_tab = None,
     pmm_frame_owner_pid = None, pmm_frame_refs = None, pmm_diag_double_free = 0\<rparr>"

section \<open>Operations\<close>

definition pmm_frame_index :: "pmm_state \<Rightarrow> nat \<Rightarrow> nat option" where
  "pmm_frame_index s phys_addr =
     (if \<not> initialized s then None
      else if phys_addr < mem_start s \<or> mem_end s \<le> phys_addr then None
      else let out_index = sub64 (align_down PMM_FRAME_SIZE phys_addr) (mem_start s) div PMM_FRAME_SIZE
           in if total_frames s \<le> out_index then None else Some out_index)"

definition bitmap_set :: "nat \<Rightarrow> pmm_state \<Rightarrow> pmm_state" where
  "bitmap_set i s =
     s\<lparr>bitmap := (bitmap s)[i div 8 := bitmap s ! (i div 8) OR bit_mask (i mod 8)]\<rparr>"

definition bitmap_clear :: "nat \<Rightarrow> pmm_state \<Rightarrow> pmm_state" where
  "bitmap_clear i s =
     s\<lparr>bitmap := (bitmap s)[i div 8 := bitmap s ! (i div 8) AND NOT (bit_mask (i mod 8))]\<rparr>"

definition bitmap_test :: "pmm_state \<Rightarrow> nat \<Rightarrow> bool" where
  "bitmap_test s i = (bitmap s ! (i div 8) AND bit_mask (i mod 8) \<noteq> 0)"

definition pmm_owner_clear_locked :: "nat \<Rightarrow> pmm_state \<Rightarrow> pmm_state" where
  "pmm_owner_clear_locked i s =
     s\<lparr>pmm_owner_class_tab := map_option (\<lambda>t. t[i := PMM_OWNER_NONE]) (pmm_owner_class_tab s),
       pmm_frame_owner_pid := map_option (\<lambda>t. t[i := -1]) (pmm_frame_owner_pid s)\<rparr>"

text \<open>
  \<open>cur\<close> is \<^verbatim>\<open>current_process\<close>: its execution mode and the pid
  \<^verbatim>\<open>process_get_pid\<close> returns, or \<^verbatim>\<open>None\<close> before the first process runs.
\<close>

type_synonym current = "(process_mode \<times> int) option"

definition pmm_alloc_owner :: "current \<Rightarrow> pmm_owner_class \<times> int" where
  "pmm_alloc_owner cur =
     (case cur of
        Some (USER_MODE, owner_pid) \<Rightarrow>
          if owner_pid > 0 then (PMM_OWNER_USER, owner_pid) else (PMM_OWNER_KERNEL, -1)
      | _ \<Rightarrow> (PMM_OWNER_KERNEL, -1))"

definition pmm_owner_on_alloc_locked :: "current \<Rightarrow> nat \<Rightarrow> pmm_state \<Rightarrow> pmm_state" where
  "pmm_owner_on_alloc_locked cur i s =
     (let (cls, pid) = pmm_alloc_owner cur in
      s\<lparr>pmm_owner_class_tab := map_option (\<lambda>t. t[i := cls]) (pmm_owner_class_tab s),
        pmm_frame_owner_pid := map_option (\<lambda>t. t[i := pid]) (pmm_frame_owner_pid s)\<rparr>)"

definition pmm_owner_on_get_locked :: "nat \<Rightarrow> pmm_state \<Rightarrow> pmm_state" where
  "pmm_owner_on_get_locked i s =
     (case (pmm_owner_class_tab s, pmm_frame_refs s) of
        (Some cls, Some refs) \<Rightarrow>
          if refs ! i \<ge> 2 \<and> cls ! i = PMM_OWNER_USER
          then s\<lparr>pmm_owner_class_tab := Some (cls[i := PMM_OWNER_SHARED]),
                 pmm_frame_owner_pid := map_option (\<lambda>t. t[i := -1]) (pmm_frame_owner_pid s)\<rparr>
          else s
      | _ \<Rightarrow> s)"

definition pmm_owner_set_locked :: "nat \<Rightarrow> pmm_owner_class \<Rightarrow> int \<Rightarrow> pmm_state \<Rightarrow> pmm_state" where
  "pmm_owner_set_locked i cls0 pid s =
     (case pmm_owner_class_tab s of
        None \<Rightarrow> s
      | Some tab \<Rightarrow>
          let refs = (case pmm_frame_refs s of None \<Rightarrow> 0 | Some r \<Rightarrow> r ! i);
              cls = (if refs \<ge> 2 \<and> cls0 = PMM_OWNER_USER then PMM_OWNER_SHARED else cls0)
          in if cls = PMM_OWNER_SHARED \<or> refs \<ge> 2
             then s\<lparr>pmm_owner_class_tab := Some (tab[i := PMM_OWNER_SHARED]),
                    pmm_frame_owner_pid := map_option (\<lambda>t. t[i := -1]) (pmm_frame_owner_pid s)\<rparr>
             else s\<lparr>pmm_owner_class_tab := Some (tab[i := cls]),
                    pmm_frame_owner_pid :=
                      map_option (\<lambda>t. t[i := if cls = PMM_OWNER_USER \<and> pid > 0 then pid else -1])
                        (pmm_frame_owner_pid s)\<rparr>)"

text \<open>
  \<^verbatim>\<open>pmm_init\<close> calls \<^verbatim>\<open>kmalloc\<close> for the bitmap and for the three tables;
  \<open>ok_bm\<close>, \<open>ok_cls\<close>, \<open>ok_pid\<close>, \<open>ok_refs\<close> say which of the calls
  returned memory.
\<close>

definition pmm_init :: "bool \<Rightarrow> bool \<Rightarrow> bool \<Rightarrow> bool \<Rightarrow> nat \<Rightarrow> nat \<Rightarrow> pmm_state \<Rightarrow> pmm_state" where
  "pmm_init ok_bm ok_cls ok_pid ok_refs start mem_size s =
     (if initialized s then s
      else let ms = align_down PMM_FRAME_SIZE (add64 start (PMM_FRAME_SIZE - 1));
               me = align_down PMM_FRAME_SIZE (add64 start mem_size);
               n = sub64 me ms div PMM_FRAME_SIZE;
               s1 = s\<lparr>mem_start := ms, mem_end := me, total_frames := n\<rparr>
           in if \<not> ok_bm then s1\<lparr>bitmap := []\<rparr>
              else s1\<lparr>bitmap := replicate ((n + 7) div 8) 0, used_frames := 0, initialized := True,
                      pmm_search_hint := 0, pmm_diag_double_free := 0,
                      pmm_owner_class_tab := (if ok_cls then Some (replicate n PMM_OWNER_NONE) else None),
                      pmm_frame_owner_pid := (if ok_pid then Some (replicate n (-1)) else None),
                      pmm_frame_refs := (if ok_refs then Some (replicate n 0) else None)\<rparr>)"

text \<open>One pass of the search loop over \<open>[lo, hi)\<close>: the address is 0 when it found nothing.\<close>

definition pmm_take_frame :: "current \<Rightarrow> nat \<Rightarrow> pmm_state \<Rightarrow> pmm_state" where
  "pmm_take_frame cur i s =
     (let s1 = bitmap_set i s;
          s2 = s1\<lparr>used_frames := add64 (used_frames s1) 1,
                  pmm_search_hint := ((i + 1) mod total_frames s1) mod 2 ^ 32,
                  pmm_frame_refs := map_option (\<lambda>t. t[i := 1]) (pmm_frame_refs s1)\<rparr>
      in pmm_owner_on_alloc_locked cur i s2)"

definition pmm_alloc_pass :: "current \<Rightarrow> nat \<Rightarrow> nat \<Rightarrow> pmm_state \<Rightarrow> nat \<times> pmm_state" where
  "pmm_alloc_pass cur lo hi s =
     (case List.find (\<lambda>i. \<not> bitmap_test s i) [lo..<hi] of
        None \<Rightarrow> (0, s)
      | Some i \<Rightarrow> (add64 (mem_start s) (i * PMM_FRAME_SIZE), pmm_take_frame cur i s))"

definition pmm_alloc_frame :: "current \<Rightarrow> pmm_state \<Rightarrow> nat \<times> pmm_state" where
  "pmm_alloc_frame cur s =
     (if \<not> initialized s then (0, s)
      else let start = (if total_frames s \<le> pmm_search_hint s then 0 else pmm_search_hint s);
               (ret, s1) = pmm_alloc_pass cur start (total_frames s) s
           in if ret = 0 then pmm_alloc_pass cur 0 start s1 else (ret, s1))"

definition pmm_frame_get :: "nat \<Rightarrow> pmm_state \<Rightarrow> pmm_state kresult" where
  "pmm_frame_get phys_addr s =
     (case pmm_frame_index s phys_addr of
        None \<Rightarrow> Done s
      | Some i \<Rightarrow>
          if \<not> bitmap_test s i then Done s
          else (case pmm_frame_refs s of
                  None \<Rightarrow> Done s
                | Some refs \<Rightarrow>
                    if refs ! i \<ge> UINT32_MAX then Panic ''PMM: refcount overflow on frame_get''
                    else Done (pmm_owner_on_get_locked i (s\<lparr>pmm_frame_refs := Some (refs[i := refs ! i + 1])\<rparr>))))"

definition pmm_release_frame :: "nat \<Rightarrow> pmm_state \<Rightarrow> pmm_state" where
  "pmm_release_frame i s =
     (let s1 = bitmap_clear i s;
          s2 = pmm_owner_clear_locked i (s1\<lparr>used_frames := sub64 (used_frames s1) 1\<rparr>)
      in if i < pmm_search_hint s2 then s2\<lparr>pmm_search_hint := 0\<rparr> else s2)"

definition pmm_frame_put :: "nat \<Rightarrow> pmm_state \<Rightarrow> pmm_state kresult" where
  "pmm_frame_put phys_addr s =
     (case pmm_frame_index s phys_addr of
        None \<Rightarrow> Done s
      | Some i \<Rightarrow>
          if \<not> bitmap_test s i then Panic ''PMM: double free detected''
          else (case pmm_frame_refs s of
                  None \<Rightarrow> Done (pmm_release_frame i s)
                | Some refs \<Rightarrow>
                    if refs ! i = 0 then Panic ''PMM: put with zero refcount on used frame''
                    else if refs ! i > 1 then Done (s\<lparr>pmm_frame_refs := Some (refs[i := refs ! i - 1])\<rparr>)
                    else Done (pmm_release_frame i (s\<lparr>pmm_frame_refs := Some (refs[i := 0])\<rparr>))))"

definition pmm_free_frame :: "nat \<Rightarrow> pmm_state \<Rightarrow> pmm_state kresult" where
  "pmm_free_frame = pmm_frame_put"

definition pmm_frame_refcount :: "pmm_state \<Rightarrow> nat \<Rightarrow> nat" where
  "pmm_frame_refcount s phys_addr =
     (case pmm_frame_index s phys_addr of
        None \<Rightarrow> 0
      | Some i \<Rightarrow> (case pmm_frame_refs s of
                     None \<Rightarrow> 0
                   | Some refs \<Rightarrow> if bitmap_test s i then refs ! i else 0))"

definition pmm_frame_set_owner_class :: "nat \<Rightarrow> pmm_owner_class \<Rightarrow> int \<Rightarrow> pmm_state \<Rightarrow> pmm_state" where
  "pmm_frame_set_owner_class phys_addr cls pid s =
     (case pmm_frame_index s phys_addr of
        None \<Rightarrow> s
      | Some i \<Rightarrow> if bitmap_test s i then pmm_owner_set_locked i cls pid s else s)"

definition pmm_frame_owner_class :: "pmm_state \<Rightarrow> nat \<Rightarrow> pmm_owner_class" where
  "pmm_frame_owner_class s phys_addr =
     (case pmm_frame_index s phys_addr of
        None \<Rightarrow> PMM_OWNER_NONE
      | Some i \<Rightarrow> (case pmm_owner_class_tab s of
                     None \<Rightarrow> PMM_OWNER_NONE
                   | Some t \<Rightarrow> if bitmap_test s i then t ! i else PMM_OWNER_NONE))"

text \<open>\<^verbatim>\<open>pmm_stats\<close>: total, used and free frames; \<^verbatim>\<open>None\<close> when it writes nothing.\<close>

definition pmm_stats :: "pmm_state \<Rightarrow> (nat \<times> nat \<times> nat) option" where
  "pmm_stats s =
     (if \<not> initialized s then None
      else Some (total_frames s, used_frames s, sub64 (total_frames s) (used_frames s)))"

text \<open>
  \<^verbatim>\<open>pmm_owner_audit\<close>: \<open>find_pid\<close> is \<^verbatim>\<open>process_find_by_pid(pid) != NULL\<close>.
  The result is the orphan count, the double-free count and the count of frames whose owner
  has gone.
\<close>

definition pmm_audit_orphan :: "pmm_state \<Rightarrow> pmm_owner_class list \<Rightarrow> nat \<Rightarrow> bool" where
  "pmm_audit_orphan s tab i = (bitmap_test s i \<and> tab ! i = PMM_OWNER_NONE)"

definition pmm_audit_missing :: "(int \<Rightarrow> bool) \<Rightarrow> pmm_state \<Rightarrow> pmm_owner_class list \<Rightarrow> nat \<Rightarrow> bool" where
  "pmm_audit_missing find_pid s tab i =
     (bitmap_test s i \<and> tab ! i = PMM_OWNER_USER \<and>
      (case pmm_frame_owner_pid s of None \<Rightarrow> False | Some p \<Rightarrow> p ! i > 0 \<and> \<not> find_pid (p ! i)))"

definition pmm_owner_audit :: "(int \<Rightarrow> bool) \<Rightarrow> pmm_state \<Rightarrow> (nat \<times> nat \<times> nat) option" where
  "pmm_owner_audit find_pid s =
     (if \<not> initialized s then None
      else case pmm_owner_class_tab s of
             None \<Rightarrow> Some (0, pmm_diag_double_free s, 0)
           | Some tab \<Rightarrow>
               Some (length (filter (pmm_audit_orphan s tab) [0..<total_frames s]),
                     pmm_diag_double_free s,
                     length (filter (pmm_audit_missing find_pid s tab) [0..<total_frames s])))"

definition pmm_fase47_frame_is_used :: "pmm_state \<Rightarrow> nat \<Rightarrow> bool" where
  "pmm_fase47_frame_is_used s i =
     (if \<not> initialized s \<or> total_frames s \<le> i then False else bitmap_test s i)"

definition pmm_fase47_frame_owner_class :: "pmm_state \<Rightarrow> nat \<Rightarrow> pmm_owner_class" where
  "pmm_fase47_frame_owner_class s i =
     (if \<not> initialized s \<or> total_frames s \<le> i then PMM_OWNER_NONE
      else case pmm_owner_class_tab s of
             None \<Rightarrow> PMM_OWNER_NONE
           | Some t \<Rightarrow> if bitmap_test s i then t ! i else PMM_OWNER_NONE)"

definition pmm_fase47_frame_owner :: "pmm_state \<Rightarrow> nat \<Rightarrow> int" where
  "pmm_fase47_frame_owner s i =
     (if \<not> initialized s \<or> total_frames s \<le> i then -1
      else case (pmm_frame_owner_pid s, pmm_owner_class_tab s) of
             (Some p, Some t) \<Rightarrow> if bitmap_test s i \<and> t ! i = PMM_OWNER_USER then p ! i else -1
           | _ \<Rightarrow> -1)"

definition pmm_fase47_frame_phys :: "pmm_state \<Rightarrow> nat \<Rightarrow> nat" where
  "pmm_fase47_frame_phys s i =
     (if \<not> initialized s \<or> total_frames s \<le> i then 0
      else add64 (mem_start s) (i * PMM_FRAME_SIZE))"

definition pmm_fase47_total_frames :: "pmm_state \<Rightarrow> nat" where
  "pmm_fase47_total_frames s = (if \<not> initialized s then 0 else total_frames s)"

definition pmm_get_start :: "pmm_state \<Rightarrow> nat" where
  "pmm_get_start s = mem_start s"

definition pmm_get_end :: "pmm_state \<Rightarrow> nat" where
  "pmm_get_end s = mem_end s"

section \<open>Well-formed states\<close>

definition pmm_geometry :: "pmm_state \<Rightarrow> bool" where
  "pmm_geometry s \<longleftrightarrow>
     0 < mem_start s \<and> PMM_FRAME_SIZE dvd mem_start s \<and>
     mem_end s = mem_start s + total_frames s * PMM_FRAME_SIZE \<and> mem_end s < two64 \<and>
     length (bitmap s) = (total_frames s + 7) div 8"

definition pmm_counts :: "pmm_state \<Rightarrow> bool" where
  "pmm_counts s \<longleftrightarrow>
     used_frames s = length (filter (bitmap_test s) [0..<total_frames s]) \<and>
     (case pmm_frame_refs s of
        None \<Rightarrow> True
      | Some r \<Rightarrow> length r = total_frames s \<and>
                  (\<forall>i < total_frames s. r ! i \<le> UINT32_MAX \<and> (bitmap_test s i \<longleftrightarrow> 0 < r ! i)))"

text \<open>
  Ownership: a free frame has no owner; a pid is recorded only for class
  \<^verbatim>\<open>PMM_OWNER_USER\<close>; and a frame of that class has exactly one reference, as the
  comment in \<^verbatim>\<open>mm/pmm.h\<close> promises.
\<close>

definition pmm_owners :: "pmm_state \<Rightarrow> bool" where
  "pmm_owners s \<longleftrightarrow>
     (case pmm_owner_class_tab s of
        None \<Rightarrow> True
      | Some t \<Rightarrow> length t = total_frames s \<and>
          (\<forall>i < total_frames s. \<not> bitmap_test s i \<longrightarrow> t ! i = PMM_OWNER_NONE) \<and>
          (case pmm_frame_refs s of
             None \<Rightarrow> True
           | Some r \<Rightarrow> \<forall>i < total_frames s. t ! i = PMM_OWNER_USER \<longrightarrow> r ! i = 1) \<and>
          (case pmm_frame_owner_pid s of
             None \<Rightarrow> True
           | Some p \<Rightarrow> \<forall>i < total_frames s. t ! i \<noteq> PMM_OWNER_USER \<longrightarrow> p ! i = -1)) \<and>
     (case pmm_frame_owner_pid s of
        None \<Rightarrow> True
      | Some p \<Rightarrow> length p = total_frames s \<and>
                  (\<forall>i < total_frames s. \<not> bitmap_test s i \<longrightarrow> p ! i = -1))"

definition pmm_inv :: "pmm_state \<Rightarrow> bool" where
  "pmm_inv s \<longleftrightarrow> (initialized s \<longrightarrow> pmm_geometry s \<and> pmm_counts s \<and> pmm_owners s)"

section \<open>The bitmap as a set of frames\<close>

lemma bitmap_test_bit: "bitmap_test s i \<longleftrightarrow> bit (bitmap s ! (i div 8)) (i mod 8)"
  unfolding bitmap_test_def by (rule and_bit_mask_neq_0) simp

lemma div_mod_8_eq: "i = j \<longleftrightarrow> i div 8 = j div 8 \<and> i mod 8 = j mod (8::nat)"
  by (metis div_mult_mod_eq)

lemma bitmap_test_set:
  "i div 8 < length (bitmap s) \<Longrightarrow> bitmap_test (bitmap_set i s) j \<longleftrightarrow> j = i \<or> bitmap_test s j"
  by (auto simp: bitmap_test_bit bitmap_set_def nth_list_update_if bit_or_iff bit_bit_mask div_mod_8_eq [of j i])

lemma bitmap_test_clear:
  "i div 8 < length (bitmap s) \<Longrightarrow> bitmap_test (bitmap_clear i s) j \<longleftrightarrow> j \<noteq> i \<and> bitmap_test s j"
  by (auto simp: bitmap_test_bit bitmap_clear_def nth_list_update_if bit_and_iff bit_not_iff bit_bit_mask
      div_mod_8_eq [of j i])

text \<open>Only the \<^verbatim>\<open>bitmap\<close> field matters to the test.\<close>

lemma bitmap_test_cong: "bitmap s = bitmap t \<Longrightarrow> bitmap_test s = bitmap_test t"
  by (simp add: bitmap_test_def fun_eq_iff)

lemma bitmap_test_frame [simp]:
  "bitmap_test (s\<lparr>pmm_frame_refs := a\<rparr>) = bitmap_test s"
  "bitmap_test (s\<lparr>pmm_owner_class_tab := b\<rparr>) = bitmap_test s"
  "bitmap_test (s\<lparr>pmm_frame_owner_pid := c\<rparr>) = bitmap_test s"
  by (simp_all add: bitmap_test_def fun_eq_iff)

lemma bitmap_set_simps [simp]:
  "mem_start (bitmap_set i s) = mem_start s" "mem_end (bitmap_set i s) = mem_end s"
  "total_frames (bitmap_set i s) = total_frames s" "used_frames (bitmap_set i s) = used_frames s"
  "initialized (bitmap_set i s) = initialized s" "pmm_frame_refs (bitmap_set i s) = pmm_frame_refs s"
  "pmm_owner_class_tab (bitmap_set i s) = pmm_owner_class_tab s"
  "pmm_frame_owner_pid (bitmap_set i s) = pmm_frame_owner_pid s"
  "length (bitmap (bitmap_set i s)) = length (bitmap s)"
  by (simp_all add: bitmap_set_def)

lemma bitmap_clear_simps [simp]:
  "mem_start (bitmap_clear i s) = mem_start s" "mem_end (bitmap_clear i s) = mem_end s"
  "total_frames (bitmap_clear i s) = total_frames s" "used_frames (bitmap_clear i s) = used_frames s"
  "initialized (bitmap_clear i s) = initialized s" "pmm_frame_refs (bitmap_clear i s) = pmm_frame_refs s"
  "pmm_owner_class_tab (bitmap_clear i s) = pmm_owner_class_tab s"
  "pmm_frame_owner_pid (bitmap_clear i s) = pmm_frame_owner_pid s"
  "pmm_search_hint (bitmap_clear i s) = pmm_search_hint s"
  "length (bitmap (bitmap_clear i s)) = length (bitmap s)"
  by (simp_all add: bitmap_clear_def)

section \<open>Effect of taking and releasing a frame\<close>

lemma pmm_take_frame_fields [simp]:
  "mem_start (pmm_take_frame cur i s) = mem_start s" "mem_end (pmm_take_frame cur i s) = mem_end s"
  "total_frames (pmm_take_frame cur i s) = total_frames s"
  "initialized (pmm_take_frame cur i s) = initialized s"
  "bitmap (pmm_take_frame cur i s) = bitmap (bitmap_set i s)"
  "used_frames (pmm_take_frame cur i s) = add64 (used_frames s) 1"
  "pmm_frame_refs (pmm_take_frame cur i s) = map_option (\<lambda>t. t[i := 1]) (pmm_frame_refs s)"
  "pmm_owner_class_tab (pmm_take_frame cur i s) =
     map_option (\<lambda>t. t[i := fst (pmm_alloc_owner cur)]) (pmm_owner_class_tab s)"
  "pmm_frame_owner_pid (pmm_take_frame cur i s) =
     map_option (\<lambda>t. t[i := snd (pmm_alloc_owner cur)]) (pmm_frame_owner_pid s)"
  by (simp_all add: pmm_take_frame_def pmm_owner_on_alloc_locked_def Let_def split: prod.splits)

lemma pmm_release_frame_fields [simp]:
  "mem_start (pmm_release_frame i s) = mem_start s" "mem_end (pmm_release_frame i s) = mem_end s"
  "total_frames (pmm_release_frame i s) = total_frames s"
  "initialized (pmm_release_frame i s) = initialized s"
  "bitmap (pmm_release_frame i s) = bitmap (bitmap_clear i s)"
  "used_frames (pmm_release_frame i s) = sub64 (used_frames s) 1"
  "pmm_frame_refs (pmm_release_frame i s) = pmm_frame_refs s"
  "pmm_owner_class_tab (pmm_release_frame i s) =
     map_option (\<lambda>t. t[i := PMM_OWNER_NONE]) (pmm_owner_class_tab s)"
  "pmm_frame_owner_pid (pmm_release_frame i s) = map_option (\<lambda>t. t[i := -1]) (pmm_frame_owner_pid s)"
  by (simp_all add: pmm_release_frame_def pmm_owner_clear_locked_def Let_def)

lemma pmm_alloc_owner_pid: "fst (pmm_alloc_owner cur) \<noteq> PMM_OWNER_USER \<Longrightarrow> snd (pmm_alloc_owner cur) = -1"
  by (auto simp: pmm_alloc_owner_def split: option.splits prod.splits process_mode.splits if_splits)

lemma geometry_byte: "pmm_geometry s \<Longrightarrow> i < total_frames s \<Longrightarrow> i div 8 < length (bitmap s)"
  by (simp add: pmm_geometry_def)

lemma take_test:
  "pmm_geometry s \<Longrightarrow> i < total_frames s \<Longrightarrow>
   bitmap_test (pmm_take_frame cur i s) j \<longleftrightarrow> j = i \<or> bitmap_test s j"
  using bitmap_test_set [OF geometry_byte] bitmap_test_cong [of "pmm_take_frame cur i s" "bitmap_set i s"]
  by simp

lemma release_test:
  "pmm_geometry s \<Longrightarrow> i < total_frames s \<Longrightarrow>
   bitmap_test (pmm_release_frame i s) j \<longleftrightarrow> j \<noteq> i \<and> bitmap_test s j"
  using bitmap_test_clear [OF geometry_byte] bitmap_test_cong [of "pmm_release_frame i s" "bitmap_clear i s"]
  by simp

lemma count_frames: "length (filter P [0..<n]) = card {i. i < n \<and> P i}"
proof -
  have "distinct (filter P [0..<n])" by simp
  from distinct_card [OF this] have "length (filter P [0..<n]) = card (set (filter P [0..<n]))" by simp
  also have "set (filter P [0..<n]) = {i. i < n \<and> P i}" by auto
  finally show ?thesis .
qed

lemma count_frames_insert:
  assumes "i < n" "\<not> P i" "\<And>j. Q j \<longleftrightarrow> j = i \<or> P j"
  shows "length (filter Q [0..<n]) = Suc (length (filter P [0..<n]))"
proof -
  have "{j. j < n \<and> Q j} = insert i {j. j < n \<and> P j}" using assms by auto
  then show ?thesis using assms(2) by (simp add: count_frames)
qed

lemma count_frames_remove:
  assumes "i < n" "P i" "\<And>j. Q j \<longleftrightarrow> j \<noteq> i \<and> P j"
  shows "Suc (length (filter Q [0..<n])) = length (filter P [0..<n])"
proof -
  have "\<not> Q i" using assms(3) by blast
  moreover have "P j \<longleftrightarrow> j = i \<or> Q j" for j using assms(2,3) by blast
  ultimately show ?thesis using count_frames_insert [of i n Q P] assms(1) by argo
qed

lemma count_frames_le: "length (filter P [0..<n]) \<le> n"
  using length_filter_le [of P "[0..<n]"] by simp

section \<open>Every operation keeps the state well formed\<close>

lemma pmm_take_counts:
  assumes g: "pmm_geometry s" and c: "pmm_counts s" and i: "i < total_frames s" "\<not> bitmap_test s i"
  shows "pmm_counts (pmm_take_frame cur i s)"
proof -
  note t = take_test [OF g i(1), of cur]
  have n: "length (filter (bitmap_test (pmm_take_frame cur i s)) [0..<total_frames s])
             = Suc (length (filter (bitmap_test s) [0..<total_frames s]))"
    by (rule count_frames_insert [OF i t])
  have "length (filter (bitmap_test s) [0..<total_frames s]) \<le> total_frames s"
    by (rule count_frames_le)
  then have "used_frames s + 1 < two64"
    using g c i(1) by (auto simp: pmm_geometry_def pmm_counts_def)
  then show ?thesis
    using n c i by (auto simp: pmm_counts_def t nth_list_update_if split: option.splits)
qed

lemma pmm_take_owners:
  assumes g: "pmm_geometry s" and o: "pmm_owners s" and i: "i < total_frames s"
    and len: "\<And>r. pmm_frame_refs s = Some r \<Longrightarrow> length r = total_frames s"
  shows "pmm_owners (pmm_take_frame cur i s)"
  using o len i pmm_alloc_owner_pid [of cur]
  by (auto simp: pmm_owners_def take_test [OF g i, of cur] nth_list_update_if split: option.splits)

lemma refs_length: "pmm_counts s \<Longrightarrow> pmm_frame_refs s = Some r \<Longrightarrow> length r = total_frames s"
  by (simp add: pmm_counts_def)

lemma pmm_take_inv:
  assumes "pmm_inv s" "initialized s" "i < total_frames s" "\<not> bitmap_test s i"
  shows "pmm_inv (pmm_take_frame cur i s)"
proof -
  from assms have p: "pmm_geometry s" "pmm_counts s" "pmm_owners s" by (simp_all add: pmm_inv_def)
  have "pmm_geometry (pmm_take_frame cur i s)" using p(1) by (simp add: pmm_geometry_def)
  with pmm_take_counts [OF p(1,2) assms(3,4)] pmm_take_owners [OF p(1,3) assms(3) refs_length [OF p(2)]]
  show ?thesis by (simp add: pmm_inv_def)
qed

text \<open>Dropping the last reference: the count is cleared, then the frame is released.\<close>

definition pmm_drop :: "nat \<Rightarrow> pmm_state \<Rightarrow> pmm_state" where
  "pmm_drop i s = pmm_release_frame i (s\<lparr>pmm_frame_refs := map_option (\<lambda>r. r[i := 0]) (pmm_frame_refs s)\<rparr>)"

lemma pmm_drop_fields:
  "mem_start (pmm_drop i s) = mem_start s" "mem_end (pmm_drop i s) = mem_end s"
  "total_frames (pmm_drop i s) = total_frames s" "initialized (pmm_drop i s) = initialized s"
  "length (bitmap (pmm_drop i s)) = length (bitmap s)"
  "used_frames (pmm_drop i s) = sub64 (used_frames s) 1"
  "pmm_frame_refs (pmm_drop i s) = map_option (\<lambda>r. r[i := 0]) (pmm_frame_refs s)"
  "pmm_owner_class_tab (pmm_drop i s) = map_option (\<lambda>t. t[i := PMM_OWNER_NONE]) (pmm_owner_class_tab s)"
  "pmm_frame_owner_pid (pmm_drop i s) = map_option (\<lambda>t. t[i := -1]) (pmm_frame_owner_pid s)"
  by (simp_all add: pmm_drop_def)

lemma pmm_drop_test:
  assumes "pmm_geometry s" "i < total_frames s"
  shows "bitmap_test (pmm_drop i s) j \<longleftrightarrow> j \<noteq> i \<and> bitmap_test s j"
proof -
  let ?s = "s\<lparr>pmm_frame_refs := map_option (\<lambda>r. r[i := 0]) (pmm_frame_refs s)\<rparr>"
  have "pmm_geometry ?s" using assms by (simp add: pmm_geometry_def)
  from release_test [OF this, of i] assms(2) show ?thesis
    using bitmap_test_cong [of ?s s] by (simp add: pmm_drop_def)
qed

lemma pmm_drop_counts:
  assumes g: "pmm_geometry s" and c: "pmm_counts s" and i: "i < total_frames s" "bitmap_test s i"
  shows "pmm_counts (pmm_drop i s)"
proof -
  note t = pmm_drop_test [OF g i(1)]
  have n: "Suc (length (filter (bitmap_test (pmm_drop i s)) [0..<total_frames s]))
             = length (filter (bitmap_test s) [0..<total_frames s])"
    by (rule count_frames_remove [OF i t])
  moreover have "length (filter (bitmap_test s) [0..<total_frames s]) \<le> total_frames s"
    by (rule count_frames_le)
  ultimately have "1 \<le> used_frames s" "used_frames s < two64"
    using g c by (auto simp: pmm_geometry_def pmm_counts_def)
  then have "used_frames (pmm_drop i s) = used_frames s - 1" by (simp add: pmm_drop_fields)
  then show ?thesis
    using n c i by (auto simp: pmm_counts_def pmm_drop_fields t nth_list_update_if split: option.splits)
qed

lemma pmm_drop_owners:
  assumes g: "pmm_geometry s" and o: "pmm_owners s" and i: "i < total_frames s"
    and len: "\<And>r. pmm_frame_refs s = Some r \<Longrightarrow> length r = total_frames s"
  shows "pmm_owners (pmm_drop i s)"
  using o len i
  by (auto simp: pmm_owners_def pmm_drop_fields pmm_drop_test [OF g i] nth_list_update_if
      split: option.splits)

lemma pmm_drop_inv:
  assumes "pmm_inv s" "initialized s" "i < total_frames s" "bitmap_test s i"
  shows "pmm_inv (pmm_drop i s)"
proof -
  from assms have p: "pmm_geometry s" "pmm_counts s" "pmm_owners s" by (simp_all add: pmm_inv_def)
  have "pmm_geometry (pmm_drop i s)" using p(1) by (simp add: pmm_geometry_def pmm_drop_fields)
  with pmm_drop_counts [OF p(1,2) assms(3,4)] pmm_drop_owners [OF p(1,3) assms(3) refs_length [OF p(2)]]
  show ?thesis by (simp add: pmm_inv_def)
qed

text \<open>Changing a positive count to another positive count.\<close>

lemma pmm_refs_update_inv:
  assumes "pmm_inv s" "initialized s" "pmm_frame_refs s = Some r" "i < total_frames s"
    "bitmap_test s i" "0 < n" "n \<le> UINT32_MAX"
    and user: "\<And>t. pmm_owner_class_tab s = Some t \<Longrightarrow> t ! i = PMM_OWNER_USER \<Longrightarrow> n = 1"
  shows "pmm_inv (s\<lparr>pmm_frame_refs := Some (r[i := n])\<rparr>)"
proof -
  let ?s = "s\<lparr>pmm_frame_refs := Some (r[i := n])\<rparr>"
  from assms have p: "pmm_geometry s" "pmm_counts s" "pmm_owners s" by (simp_all add: pmm_inv_def)
  have g: "pmm_geometry ?s" using p(1) by (simp add: pmm_geometry_def)
  have c: "pmm_counts ?s" using p(2) assms(3-7) by (auto simp: pmm_counts_def nth_list_update_if)
  have o: "pmm_owners ?s"
    using p(3) assms(3,4) user refs_length [OF p(2) assms(3)]
    by (auto simp: pmm_owners_def nth_list_update_if split: option.splits)
  from g c o show ?thesis by (simp add: pmm_inv_def)
qed

text \<open>Rewriting the owner of one allocated frame.\<close>

lemma pmm_owner_update_inv:
  assumes "pmm_inv s" "initialized s" "i < total_frames s" "bitmap_test s i"
    and tab: "pmm_owner_class_tab s = Some t"
    and pid: "cls \<noteq> PMM_OWNER_USER \<Longrightarrow> pid = -1"
    and user: "\<And>r. pmm_frame_refs s = Some r \<Longrightarrow> cls = PMM_OWNER_USER \<Longrightarrow> r ! i = 1"
  shows "pmm_inv (s\<lparr>pmm_owner_class_tab := Some (t[i := cls]),
                    pmm_frame_owner_pid := map_option (\<lambda>p. p[i := pid]) (pmm_frame_owner_pid s)\<rparr>)"
    (is "pmm_inv ?s")
proof -
  from assms have p: "pmm_geometry s" "pmm_counts s" "pmm_owners s" by (simp_all add: pmm_inv_def)
  have g: "pmm_geometry ?s" using p(1) by (simp add: pmm_geometry_def)
  have c: "pmm_counts ?s" using p(2) by (auto simp: pmm_counts_def split: option.splits)
  have o: "pmm_owners ?s"
    using p(3) assms(3,4) tab pid user
    by (auto simp: pmm_owners_def nth_list_update_if split: option.splits)
  from g c o show ?thesis by (simp add: pmm_inv_def)
qed

section \<open>Addresses and frame numbers\<close>

lemma pmm_frame_index_addr:
  assumes "pmm_geometry s" "initialized s" "i < total_frames s"
  shows "pmm_frame_index s (mem_start s + i * PMM_FRAME_SIZE) = Some i"
proof -
  from assms have b: "mem_start s + i * PMM_FRAME_SIZE < mem_end s" "mem_end s < two64"
    by (simp_all add: pmm_geometry_def)
  have "align_down PMM_FRAME_SIZE (mem_start s + i * PMM_FRAME_SIZE) = mem_start s + i * PMM_FRAME_SIZE"
    using assms(1) align_down_offset [of PMM_FRAME_SIZE "mem_start s" "mem_start s + i * PMM_FRAME_SIZE"]
    by (simp add: pmm_geometry_def)
  with b assms(2,3) show ?thesis by (simp add: pmm_frame_index_def Let_def)
qed

lemma pmm_frame_index_SomeD:
  assumes "pmm_geometry s" "pmm_frame_index s a = Some i"
  shows "initialized s" "i < total_frames s" "align_down PMM_FRAME_SIZE a = mem_start s + i * PMM_FRAME_SIZE"
proof -
  from assms(2) show "initialized s" "i < total_frames s"
    by (auto simp: pmm_frame_index_def Let_def split: if_splits)
  from assms(2) have a: "mem_start s \<le> a" "a < mem_end s"
    and i: "i = sub64 (align_down PMM_FRAME_SIZE a) (mem_start s) div PMM_FRAME_SIZE"
    by (auto simp: pmm_frame_index_def Let_def split: if_splits)
  have d: "align_down PMM_FRAME_SIZE a = mem_start s + (a - mem_start s) div PMM_FRAME_SIZE * PMM_FRAME_SIZE"
    using assms(1) a by (intro align_down_offset) (auto simp: pmm_geometry_def)
  have "align_down PMM_FRAME_SIZE a < two64"
    using align_down_le [of PMM_FRAME_SIZE a] a assms(1) by (simp add: pmm_geometry_def)
  then have "i = (a - mem_start s) div PMM_FRAME_SIZE" using i d by simp
  with d show "align_down PMM_FRAME_SIZE a = mem_start s + i * PMM_FRAME_SIZE" by simp
qed

lemma pmm_frame_index_cong:
  "mem_start s = mem_start t \<Longrightarrow> mem_end s = mem_end t \<Longrightarrow> total_frames s = total_frames t \<Longrightarrow>
   initialized s = initialized t \<Longrightarrow> pmm_frame_index s = pmm_frame_index t"
  by (simp add: pmm_frame_index_def fun_eq_iff)

section \<open>The search for a free frame\<close>

lemma pmm_alloc_pass_cases:
  obtains (none) "\<forall>i. lo \<le> i \<and> i < hi \<longrightarrow> bitmap_test s i" "pmm_alloc_pass cur lo hi s = (0, s)"
  | (found) i where "lo \<le> i" "i < hi" "\<not> bitmap_test s i"
      "pmm_alloc_pass cur lo hi s = (add64 (mem_start s) (i * PMM_FRAME_SIZE), pmm_take_frame cur i s)"
proof (cases "List.find (\<lambda>i. \<not> bitmap_test s i) [lo..<hi]")
  case None
  then have "\<forall>i. lo \<le> i \<and> i < hi \<longrightarrow> bitmap_test s i" by (auto simp: find_None_iff)
  moreover from None have "pmm_alloc_pass cur lo hi s = (0, s)" by (simp add: pmm_alloc_pass_def)
  ultimately show ?thesis by (rule none)
next
  case (Some i)
  then have "i \<in> set [lo..<hi]" "\<not> bitmap_test s i" by (auto simp: find_Some_iff)
  with Some show ?thesis by (intro found [of i]) (auto simp: pmm_alloc_pass_def)
qed

lemma pmm_frame_addr:
  "pmm_geometry s \<Longrightarrow> i < total_frames s \<Longrightarrow>
   add64 (mem_start s) (i * PMM_FRAME_SIZE) = mem_start s + i * PMM_FRAME_SIZE \<and> 0 < mem_start s"
  by (simp add: pmm_geometry_def)

lemma pmm_alloc_frame_cases:
  assumes "pmm_inv s" "initialized s"
  obtains (full) "\<forall>i < total_frames s. bitmap_test s i" "pmm_alloc_frame cur s = (0, s)"
  | (frame) i where "i < total_frames s" "\<not> bitmap_test s i"
      "pmm_alloc_frame cur s = (mem_start s + i * PMM_FRAME_SIZE, pmm_take_frame cur i s)"
proof -
  let ?st = "if total_frames s \<le> pmm_search_hint s then 0 else pmm_search_hint s"
  have g: "pmm_geometry s" using assms by (simp add: pmm_inv_def)
  show ?thesis
  proof (cases rule: pmm_alloc_pass_cases [of ?st "total_frames s" s cur])
    case 1: none
    show ?thesis
    proof (cases rule: pmm_alloc_pass_cases [of 0 ?st s cur])
      case 2: none
      have "bitmap_test s i" if "i < total_frames s" for i
        using 1(1) 2(1) that by (cases "i < ?st") auto
      then show ?thesis using 1 2 assms by (intro full) (auto simp: pmm_alloc_frame_def Let_def)
    next
      case (found i)
      then have "i < total_frames s" by (auto split: if_splits)
      with found 1 assms pmm_frame_addr [OF g this] show ?thesis
        by (intro frame [of i]) (auto simp: pmm_alloc_frame_def Let_def)
    qed
  next
    case (found i)
    with assms pmm_frame_addr [OF g found(2)] show ?thesis
      by (intro frame [of i]) (auto simp: pmm_alloc_frame_def Let_def)
  qed
qed

section \<open>Preservation, operation by operation\<close>

lemma pmm_alloc_frame_inv:
  assumes "pmm_inv s" "pmm_alloc_frame cur s = (a, s')"
  shows "pmm_inv s'"
proof (cases "initialized s")
  case False
  with assms show ?thesis by (simp add: pmm_alloc_frame_def)
next
  case True
  from assms(1) True show ?thesis
    by (cases rule: pmm_alloc_frame_cases [where cur = cur])
      (use assms pmm_take_inv [OF assms(1) True] in auto)
qed

text \<open>The two transitions a count can make, read off \<^verbatim>\<open>pmm_frame_get\<close> and \<^verbatim>\<open>pmm_frame_put\<close>.\<close>

lemma pmm_owner_on_get_inv:
  assumes "pmm_inv s" "initialized s" "pmm_frame_refs s = Some r" "i < total_frames s" "bitmap_test s i"
    "r ! i < UINT32_MAX"
  shows "pmm_inv (pmm_owner_on_get_locked i (s\<lparr>pmm_frame_refs := Some (r[i := r ! i + 1])\<rparr>))"
proof -
  let ?s = "s\<lparr>pmm_frame_refs := Some (r[i := r ! i + 1])\<rparr>"
  from assms have p: "pmm_counts s" "pmm_owners s" by (simp_all add: pmm_inv_def)
  have len: "length r = total_frames s" using refs_length [OF p(1) assms(3)] .
  have pos: "0 < r ! i" using p(1) assms(3-5) by (auto simp: pmm_counts_def)
  show ?thesis
  proof (cases "\<exists>t. pmm_owner_class_tab s = Some t \<and> t ! i = PMM_OWNER_USER")
    case True
    then obtain t where t: "pmm_owner_class_tab s = Some t" "t ! i = PMM_OWNER_USER" by blast
    let ?u = "s\<lparr>pmm_owner_class_tab := Some (t[i := PMM_OWNER_SHARED]),
                pmm_frame_owner_pid := map_option (\<lambda>p. p[i := -1]) (pmm_frame_owner_pid s)\<rparr>"
    have u: "pmm_inv ?u" using assms t by (intro pmm_owner_update_inv) auto
    have "length t = total_frames s" using p(2) t by (simp add: pmm_owners_def)
    then have "pmm_inv (?u\<lparr>pmm_frame_refs := Some (r[i := r ! i + 1])\<rparr>)"
      using assms u by (intro pmm_refs_update_inv) auto
    moreover have "pmm_owner_on_get_locked i ?s = ?u\<lparr>pmm_frame_refs := Some (r[i := r ! i + 1])\<rparr>"
      using t pos assms(4) len by (cases s) (simp add: pmm_owner_on_get_locked_def)
    ultimately show ?thesis by simp
  next
    case False
    then have "pmm_inv ?s" using assms by (intro pmm_refs_update_inv) auto
    with False show ?thesis by (auto simp: pmm_owner_on_get_locked_def split: option.splits)
  qed
qed

lemma pmm_frame_get_inv:
  assumes "pmm_inv s" "pmm_frame_get a s = Done s'"
  shows "pmm_inv s'"
proof (cases "pmm_frame_index s a")
  case None
  with assms show ?thesis by (simp add: pmm_frame_get_def)
next
  case (Some i)
  then have "initialized s" by (auto simp: pmm_frame_index_def split: if_splits)
  with assms(1) have "pmm_geometry s" by (simp add: pmm_inv_def)
  note i = pmm_frame_index_SomeD [OF this Some]
  from assms Some i(1,2) show ?thesis
    by (auto simp: pmm_frame_get_def split: if_splits option.splits intro!: pmm_owner_on_get_inv [simplified])
qed

lemma pmm_frame_put_inv:
  assumes "pmm_inv s" "pmm_frame_put a s = Done s'"
  shows "pmm_inv s'"
proof (cases "pmm_frame_index s a")
  case None
  with assms show ?thesis by (simp add: pmm_frame_put_def)
next
  case (Some i)
  then have "initialized s" by (auto simp: pmm_frame_index_def split: if_splits)
  with assms(1) have p: "pmm_geometry s" "pmm_counts s" "pmm_owners s" by (simp_all add: pmm_inv_def)
  note i = pmm_frame_index_SomeD [OF p(1) Some]
  from assms(2) Some have test: "bitmap_test s i" by (auto simp: pmm_frame_put_def split: if_splits)
  note drop = pmm_drop_inv [OF assms(1) i(1,2) test]
  show ?thesis
  proof (cases "\<exists>r. pmm_frame_refs s = Some r \<and> 1 < r ! i")
    case True
    then obtain r where r: "pmm_frame_refs s = Some r" "1 < r ! i" by blast
    have "r ! i \<le> UINT32_MAX" using p(2) r(1) i(2) by (simp add: pmm_counts_def)
    moreover have "t ! i \<noteq> PMM_OWNER_USER" if "pmm_owner_class_tab s = Some t" for t
      using p(3) that r i(2) by (auto simp: pmm_owners_def)
    ultimately have "pmm_inv (s\<lparr>pmm_frame_refs := Some (r[i := r ! i - 1])\<rparr>)"
      using assms(1) i r test by (intro pmm_refs_update_inv) auto
    with r assms(2) Some test show ?thesis by (simp add: pmm_frame_put_def)
  next
    case False
    have "pmm_frame_put a s = Done (pmm_drop i s) \<or> (\<exists>m. pmm_frame_put a s = Panic m)"
      using False Some test by (cases s) (auto simp: pmm_frame_put_def pmm_drop_def split: option.splits)
    with assms(2) drop show ?thesis by auto
  qed
qed

lemma pmm_frame_set_owner_class_inv:
  assumes "pmm_inv s"
  shows "pmm_inv (pmm_frame_set_owner_class a cls pid s)"
proof (cases "\<exists>i t. pmm_frame_index s a = Some i \<and> bitmap_test s i \<and> pmm_owner_class_tab s = Some t")
  case True
  then obtain i t where i: "pmm_frame_index s a = Some i" "bitmap_test s i" "pmm_owner_class_tab s = Some t"
    by blast
  then have init: "initialized s" by (auto simp: pmm_frame_index_def split: if_splits)
  with assms have p: "pmm_geometry s" "pmm_counts s" by (simp_all add: pmm_inv_def)
  note ix = pmm_frame_index_SomeD [OF p(1) i(1)]
  have pos: "0 < r ! i" if "pmm_frame_refs s = Some r" for r
    using p(2) that ix(2) i(2) by (auto simp: pmm_counts_def)
  note upd = pmm_owner_update_inv [OF assms init ix(2) i(2,3)]
  let ?refs = "case pmm_frame_refs s of None \<Rightarrow> 0 | Some r \<Rightarrow> r ! i"
  have "pmm_inv (pmm_owner_set_locked i cls pid s)"
  proof (cases "cls = PMM_OWNER_SHARED \<or> 2 \<le> ?refs")
    case True
    then have "pmm_owner_set_locked i cls pid s =
        s\<lparr>pmm_owner_class_tab := Some (t[i := PMM_OWNER_SHARED]),
          pmm_frame_owner_pid := map_option (\<lambda>p. p[i := -1]) (pmm_frame_owner_pid s)\<rparr>"
      by (auto simp: pmm_owner_set_locked_def Let_def i(3))
    then show ?thesis using upd [of PMM_OWNER_SHARED "-1"] by simp
  next
    case False
    let ?pid = "if cls = PMM_OWNER_USER \<and> pid > 0 then pid else -1"
    from False have "pmm_owner_set_locked i cls pid s =
        s\<lparr>pmm_owner_class_tab := Some (t[i := cls]),
          pmm_frame_owner_pid := map_option (\<lambda>p. p[i := ?pid]) (pmm_frame_owner_pid s)\<rparr>"
      by (simp add: pmm_owner_set_locked_def Let_def i(3))
    moreover have "r ! i = 1" if "pmm_frame_refs s = Some r" for r
      using False that pos [OF that] by simp
    ultimately show ?thesis using upd [of cls ?pid] by simp
  qed
  with i show ?thesis by (simp add: pmm_frame_set_owner_class_def)
next
  case False
  then show ?thesis using assms
    by (auto simp: pmm_frame_set_owner_class_def pmm_owner_set_locked_def split: option.splits)
qed

lemma pmm_init_inv:
  assumes "pmm_inv s" "0 < start" "start + mem_size < two64" "PMM_FRAME_SIZE \<le> mem_size"
  shows "pmm_inv (pmm_init ok_bm ok_cls ok_pid ok_refs start mem_size s)"
proof -
  let ?ms = "align_down PMM_FRAME_SIZE (start + 4095)" and ?me = "align_down PMM_FRAME_SIZE (start + mem_size)"
  have le: "?ms \<le> ?me" using assms(4) by (simp add: align_down_def div_le_mono)
  have lt: "?me < two64" using align_down_le [of PMM_FRAME_SIZE "start + mem_size"] assms(3) by linarith
  have pos: "0 < ?ms" using assms(2) by (auto simp: align_down_def)
  have me: "?me = ?ms + (?me - ?ms) div PMM_FRAME_SIZE * PMM_FRAME_SIZE"
    using le by (simp add: align_down_def flip: diff_mult_distrib)
  have add: "add64 start 4095 = start + 4095" "add64 start mem_size = start + mem_size"
    using assms(3,4) by simp_all
  have n: "sub64 ?me ?ms = ?me - ?ms" using le lt by simp
  define u where "u = pmm_init ok_bm ok_cls ok_pid ok_refs start mem_size s"
  have "pmm_inv u"
  proof (cases "initialized s \<or> \<not> ok_bm")
    case True
    then show ?thesis using assms(1) by (auto simp: u_def pmm_init_def Let_def pmm_inv_def)
  next
    case False
    then have f: "mem_start u = ?ms" "mem_end u = ?me" "total_frames u = (?me - ?ms) div PMM_FRAME_SIZE"
      "bitmap u = replicate ((total_frames u + 7) div 8) 0" "used_frames u = 0"
      "pmm_owner_class_tab u = (if ok_cls then Some (replicate (total_frames u) PMM_OWNER_NONE) else None)"
      "pmm_frame_owner_pid u = (if ok_pid then Some (replicate (total_frames u) (-1)) else None)"
      "pmm_frame_refs u = (if ok_refs then Some (replicate (total_frames u) 0) else None)"
      by (simp_all add: u_def pmm_init_def Let_def add n)
    have free: "\<not> bitmap_test u i" if "i < total_frames u" for i
      using that by (simp add: bitmap_test_def f(4))
    then have none: "filter (bitmap_test u) [0..<total_frames u] = []" by (simp add: filter_empty_conv)
    have "pmm_geometry u" unfolding pmm_geometry_def f(1,2)
      using me lt pos by (simp add: f(3) f(4))
    moreover have "pmm_counts u" using free by (simp add: pmm_counts_def none f(5,8))
    moreover have "pmm_owners u" by (simp add: pmm_owners_def f(6,7,8))
    ultimately show ?thesis by (simp add: pmm_inv_def)
  qed
  then show ?thesis by (simp add: u_def)
qed

section \<open>The pool as a partial map from frames to reference counts\<close>

definition pmm_frames :: "pmm_state \<Rightarrow> nat \<Rightarrow> nat option" where
  "pmm_frames s a =
     (if PMM_FRAME_SIZE dvd a
      then (case (pmm_frame_index s a, pmm_frame_refs s) of
              (Some i, Some r) \<Rightarrow> if bitmap_test s i then Some (r ! i) else None
            | _ \<Rightarrow> None)
      else None)"

definition pmm_ready :: "pmm_state \<Rightarrow> bool" where
  "pmm_ready s \<longleftrightarrow> pmm_inv s \<and> initialized s \<and> pmm_frame_refs s \<noteq> None"

lemma pmm_frames_SomeD:
  assumes "pmm_ready s" "pmm_frames s a = Some n"
  obtains i r where "pmm_frame_index s a = Some i" "pmm_frame_refs s = Some r" "i < total_frames s"
    "bitmap_test s i" "r ! i = n" "a = mem_start s + i * PMM_FRAME_SIZE" "0 < n" "n \<le> UINT32_MAX"
proof -
  from assms(1) have g: "pmm_geometry s" "pmm_counts s" by (simp_all add: pmm_ready_def pmm_inv_def)
  from assms(2) obtain i r where ir: "pmm_frame_index s a = Some i" "pmm_frame_refs s = Some r"
    "bitmap_test s i" "r ! i = n" "PMM_FRAME_SIZE dvd a"
    by (auto simp: pmm_frames_def split: if_splits option.splits)
  note i = pmm_frame_index_SomeD [OF g(1) ir(1)]
  from ir(5) have "align_down PMM_FRAME_SIZE a = a" by (auto simp: align_down_def)
  with i(3) have "a = mem_start s + i * PMM_FRAME_SIZE" by simp
  with ir i g(2) that show ?thesis by (auto simp: pmm_counts_def)
qed

text \<open>How one changed slot of the tables shows in the map.\<close>

lemma pmm_frames_update:
  assumes s: "pmm_ready s" "pmm_frame_refs s = Some r" "i < total_frames s"
    and geo: "mem_start s' = mem_start s" "mem_end s' = mem_end s" "total_frames s' = total_frames s"
      "initialized s' = initialized s"
    and r': "pmm_frame_refs s' = Some (r[i := n])"
    and test: "\<And>j. bitmap_test s' j \<longleftrightarrow> (if j = i then 0 < n else bitmap_test s j)"
  shows "pmm_frames s' = (pmm_frames s)(mem_start s + i * PMM_FRAME_SIZE := if n = 0 then None else Some n)"
proof
  fix a
  from s have g: "pmm_geometry s" "pmm_counts s" "initialized s" by (simp_all add: pmm_ready_def pmm_inv_def)
  have len: "length r = total_frames s" using refs_length [OF g(2) s(2)] .
  have ix: "pmm_frame_index s' = pmm_frame_index s" using geo by (intro pmm_frame_index_cong) auto
  let ?x = "mem_start s + i * PMM_FRAME_SIZE"
  have dvd: "PMM_FRAME_SIZE dvd ?x" using g(1) by (simp add: pmm_geometry_def)
  show "pmm_frames s' a = ((pmm_frames s)(?x := if n = 0 then None else Some n)) a"
  proof (cases "a = ?x")
    case True
    then show ?thesis
      using pmm_frame_index_addr [OF g(1,3) s(3)] dvd r' len s(3) by (auto simp: pmm_frames_def ix test)
  next
    case False
    have "j \<noteq> i" if "pmm_frame_index s a = Some j" "PMM_FRAME_SIZE dvd a" for j
    proof -
      from that(2) have "align_down PMM_FRAME_SIZE a = a" by (auto simp: align_down_def)
      with pmm_frame_index_SomeD(3) [OF g(1) that(1)] False show ?thesis by auto
    qed
    then show ?thesis using False s(2) r'
      by (auto simp: pmm_frames_def ix test split: option.splits)
  qed
qed

lemma pmm_alloc_refines:
  assumes "pmm_ready s" "pmm_alloc_frame cur s = (a, s')" "a \<noteq> 0"
  shows "pmm_frames s a = None" "pmm_frames s' = (pmm_frames s)(a \<mapsto> 1)"
proof -
  from assms(1) have p: "pmm_inv s" "initialized s" by (simp_all add: pmm_ready_def)
  from assms(1) obtain r where r: "pmm_frame_refs s = Some r" by (auto simp: pmm_ready_def)
  from p have g: "pmm_geometry s" by (simp add: pmm_inv_def)
  from p(1,2) obtain i where i: "i < total_frames s" "\<not> bitmap_test s i"
    "a = mem_start s + i * PMM_FRAME_SIZE" "s' = pmm_take_frame cur i s"
    by (cases rule: pmm_alloc_frame_cases [where cur = cur]) (use assms in auto)
  show "pmm_frames s a = None"
    using pmm_frame_index_addr [OF g p(2) i(1)] i(2,3) by (simp add: pmm_frames_def r)
  show "pmm_frames s' = (pmm_frames s)(a \<mapsto> 1)"
    using pmm_frames_update [OF assms(1) r i(1), of s' 1] i r
    by (simp add: take_test [OF g i(1)])
qed

lemma pmm_alloc_fails:
  assumes "pmm_ready s" "pmm_alloc_frame cur s = (0, s')"
  shows "s' = s \<and> (\<forall>i < total_frames s. bitmap_test s i)"
proof -
  from assms(1) have p: "pmm_inv s" "initialized s" by (simp_all add: pmm_ready_def)
  then have "0 < mem_start s" by (simp add: pmm_inv_def pmm_geometry_def)
  with p assms(2) show ?thesis
    by (cases rule: pmm_alloc_frame_cases [where cur = cur]) auto
qed

lemma pmm_alloc_ready:
  assumes "pmm_ready s" "pmm_alloc_frame cur s = (a, s')"
  shows "pmm_ready s'"
proof -
  from assms(1) have p: "pmm_inv s" "initialized s" by (simp_all add: pmm_ready_def)
  then have "initialized s' \<and> pmm_frame_refs s' \<noteq> None"
    by (cases rule: pmm_alloc_frame_cases [where cur = cur]) (use assms in \<open>auto simp: pmm_ready_def\<close>)
  with pmm_alloc_frame_inv [OF p(1) assms(2)] show ?thesis by (simp add: pmm_ready_def)
qed

lemma pmm_owner_on_get_fields [simp]:
  "mem_start (pmm_owner_on_get_locked i s) = mem_start s" "mem_end (pmm_owner_on_get_locked i s) = mem_end s"
  "total_frames (pmm_owner_on_get_locked i s) = total_frames s"
  "initialized (pmm_owner_on_get_locked i s) = initialized s"
  "pmm_frame_refs (pmm_owner_on_get_locked i s) = pmm_frame_refs s"
  "bitmap_test (pmm_owner_on_get_locked i s) = bitmap_test s"
  by (auto simp: pmm_owner_on_get_locked_def split: option.splits)

lemma pmm_get_refines:
  assumes "pmm_ready s" "pmm_frames s a = Some n" "n < UINT32_MAX"
  shows "\<exists>s'. pmm_frame_get a s = Done s' \<and> pmm_ready s' \<and> pmm_frames s' = (pmm_frames s)(a \<mapsto> n + 1)"
proof -
  from assms(1,2) obtain i r where i: "pmm_frame_index s a = Some i" "pmm_frame_refs s = Some r"
    "i < total_frames s" "bitmap_test s i" "r ! i = n" "a = mem_start s + i * PMM_FRAME_SIZE"
    by (rule pmm_frames_SomeD)
  define s' where "s' = pmm_owner_on_get_locked i (s\<lparr>pmm_frame_refs := Some (r[i := r ! i + 1])\<rparr>)"
  have get: "pmm_frame_get a s = Done s'" using i assms(3) by (simp add: pmm_frame_get_def s'_def)
  have f: "mem_start s' = mem_start s" "mem_end s' = mem_end s" "total_frames s' = total_frames s"
    "initialized s' = initialized s" "pmm_frame_refs s' = Some (r[i := n + 1])" "bitmap_test s' = bitmap_test s"
    using i(5) by (simp_all add: s'_def)
  have "pmm_ready s'" using pmm_frame_get_inv [OF _ get] assms(1) f by (simp add: pmm_ready_def)
  moreover have "pmm_frames s' = (pmm_frames s)(a \<mapsto> n + 1)"
    using pmm_frames_update [OF assms(1) i(2,3), of s' "n + 1"] i(4,6) f by simp
  ultimately show ?thesis using get by blast
qed

lemma pmm_put_refines:
  assumes "pmm_ready s" "pmm_frames s a = Some n"
  shows "\<exists>s'. pmm_frame_put a s = Done s' \<and> pmm_ready s' \<and>
              pmm_frames s' = (pmm_frames s)(a := if n \<le> 1 then None else Some (n - 1))"
proof -
  from assms obtain i r where i: "pmm_frame_index s a = Some i" "pmm_frame_refs s = Some r"
    "i < total_frames s" "bitmap_test s i" "r ! i = n" "a = mem_start s + i * PMM_FRAME_SIZE" "0 < n"
    by (rule pmm_frames_SomeD)
  from assms(1) have g: "pmm_geometry s" by (simp add: pmm_ready_def pmm_inv_def)
  define s' where "s' = (if 1 < n then s\<lparr>pmm_frame_refs := Some (r[i := n - 1])\<rparr> else pmm_drop i s)"
  have put: "pmm_frame_put a s = Done s'"
    using i by (auto simp: pmm_frame_put_def s'_def pmm_drop_def)
  have f: "mem_start s' = mem_start s" "mem_end s' = mem_end s" "total_frames s' = total_frames s"
    "initialized s' = initialized s" "pmm_frame_refs s' = Some (r[i := n - 1])"
    using i(2,7) by (auto simp: s'_def pmm_drop_fields)
  have t: "bitmap_test s' j \<longleftrightarrow> (if j = i then 0 < n - 1 else bitmap_test s j)" for j
    using i(4,7) by (auto simp: s'_def pmm_drop_test [OF g i(3)])
  have "pmm_ready s'" using pmm_frame_put_inv [OF _ put] assms(1) f by (simp add: pmm_ready_def)
  moreover have "pmm_frames s' = (pmm_frames s)(a := if n \<le> 1 then None else Some (n - 1))"
    using pmm_frames_update [OF assms(1) i(2,3) f(1-5) t] i(6) by auto
  ultimately show ?thesis using put by blast
qed

interpretation pmm: frame_pool "pmm_alloc_frame cur" pmm_frame_get pmm_frame_put pmm_frames pmm_ready
proof unfold_locales
  fix s s' :: pmm_state and a n :: nat
  show "pmm_ready s \<Longrightarrow> pmm_alloc_frame cur s = (a, s') \<Longrightarrow> pmm_ready s'"
    by (rule pmm_alloc_ready)
  show "pmm_ready s \<Longrightarrow> pmm_alloc_frame cur s = (a, s') \<Longrightarrow> a \<noteq> 0 \<Longrightarrow>
      pmm_frames s a = None \<and> pmm_frames s' = (pmm_frames s)(a \<mapsto> 1)"
    using pmm_alloc_refines by blast
  show "pmm_ready s \<Longrightarrow> pmm_alloc_frame cur s = (0, s') \<Longrightarrow> s' = s"
    using pmm_alloc_fails by blast
  show "pmm_ready s \<Longrightarrow> pmm_frames s a = Some n \<Longrightarrow> n < 2 ^ 32 - 1 \<Longrightarrow>
      \<exists>s'. pmm_frame_get a s = Done s' \<and> pmm_ready s' \<and> pmm_frames s' = (pmm_frames s)(a \<mapsto> n + 1)"
    by (rule pmm_get_refines) simp_all
  show "pmm_ready s \<Longrightarrow> pmm_frames s a = Some n \<Longrightarrow>
      \<exists>s'. pmm_frame_put a s = Done s' \<and> pmm_ready s' \<and>
        pmm_frames s' = (pmm_frames s)(a := if n \<le> 1 then None else Some (n - 1))"
    by (rule pmm_put_refines)
qed

section \<open>Reachable states\<close>

text \<open>
  The states the kernel can bring the manager to: boot, one \<^verbatim>\<open>pmm_init\<close> over a region
  that does not start at address 0 and does not wrap, then any sequence of calls. A panicking
  call has no successor.
\<close>

inductive pmm_reachable :: "pmm_state \<Rightarrow> bool" where
  boot: "pmm_reachable pmm_boot"
| init: "pmm_reachable s \<Longrightarrow> 0 < start \<Longrightarrow> start + mem_size < two64 \<Longrightarrow> PMM_FRAME_SIZE \<le> mem_size \<Longrightarrow>
    pmm_reachable (pmm_init ok_bm ok_cls ok_pid ok_refs start mem_size s)"
| alloc: "pmm_reachable s \<Longrightarrow> pmm_reachable (snd (pmm_alloc_frame cur s))"
| get: "pmm_reachable s \<Longrightarrow> pmm_frame_get a s = Done s' \<Longrightarrow> pmm_reachable s'"
| put: "pmm_reachable s \<Longrightarrow> pmm_frame_put a s = Done s' \<Longrightarrow> pmm_reachable s'"
| free: "pmm_reachable s \<Longrightarrow> pmm_free_frame a s = Done s' \<Longrightarrow> pmm_reachable s'"
| set_owner: "pmm_reachable s \<Longrightarrow> pmm_reachable (pmm_frame_set_owner_class a cls pid s)"

lemma pmm_reachable_pmm_inv: "pmm_reachable s \<Longrightarrow> pmm_inv s"
proof (induction rule: pmm_reachable.induct)
  case boot
  show ?case by (simp add: pmm_inv_def pmm_boot_def)
next
  case (alloc s cur)
  then show ?case using pmm_alloc_frame_inv [of s cur] by (cases "pmm_alloc_frame cur s") simp
next
  case (free s a s')
  then show ?case using pmm_frame_put_inv by (simp add: pmm_free_frame_def)
qed (auto intro: pmm_init_inv pmm_frame_get_inv pmm_frame_put_inv pmm_frame_set_owner_class_inv)

definition pmm_two_frames :: pmm_state where
  "pmm_two_frames = pmm_init True True True True 4096 8192 pmm_boot"

lemma replicate_2: "replicate 2 x = [x, x]"
  by (simp add: numeral_2_eq_2)

lemma pmm_two_frames_eq:
  "pmm_two_frames = \<lparr>mem_start = 4096, mem_end = 12288, total_frames = 2, bitmap = [0], used_frames = 0,
     initialized = True, pmm_search_hint = 0,
     pmm_owner_class_tab = Some [PMM_OWNER_NONE, PMM_OWNER_NONE], pmm_frame_owner_pid = Some [-1, -1],
     pmm_frame_refs = Some [0, 0], pmm_diag_double_free = 0\<rparr>"
  by (simp add: pmm_two_frames_def pmm_init_def pmm_boot_def Let_def align_down_def add64_def sub64_def
      replicate_2)

lemmas pmm_eval = pmm_alloc_frame_def pmm_alloc_pass_def pmm_take_frame_def pmm_owner_on_alloc_locked_def
  pmm_alloc_owner_def bitmap_set_def bitmap_test_def bit_mask_def pmm_frames_def pmm_frame_index_def
  align_down_def add64_def sub64_def Let_def upt_rec

lemma pmm_two_frames_alloc:
  "pmm_alloc_frame None pmm_two_frames =
     (4096, pmm_two_frames\<lparr>bitmap := [1], used_frames := 1, pmm_search_hint := 1,
        pmm_owner_class_tab := Some [PMM_OWNER_KERNEL, PMM_OWNER_NONE], pmm_frame_refs := Some [1, 0]\<rparr>)"
  by (simp add: pmm_two_frames_eq pmm_eval)

lemma pmm_two_frames_reachable: "pmm_reachable pmm_two_frames"
  unfolding pmm_two_frames_def by (intro pmm_reachable.init pmm_reachable.boot) simp_all

lemma pmm_two_frames_ready: "pmm_ready pmm_two_frames"
  using pmm_reachable_pmm_inv [OF pmm_two_frames_reachable]
  by (simp add: pmm_ready_def pmm_two_frames_def pmm_init_def pmm_boot_def Let_def)

section \<open>Properties\<close>

text \<open>
  C2: In every state reachable by the operations of \<^verbatim>\<open>mm/pmm.c\<close>, once initialised:
  the used-frame counter is the number of set bitmap bits, so \<^verbatim>\<open>pmm_stats\<close> reports
  used and free counts that add up to the total; a frame is marked used exactly when its
  reference count is positive; and a frame of class \<^verbatim>\<open>PMM_OWNER_USER\<close> has exactly one
  reference, while a frame of any other class records no owner pid.
\<close>

theorem pmm_reachable_consistent:
  assumes "pmm_reachable s" and "initialized s"
  shows "used_frames s = card {i. i < total_frames s \<and> bitmap_test s i} \<and>
    (\<exists>free. pmm_stats s = Some (total_frames s, used_frames s, free) \<and>
            used_frames s + free = total_frames s) \<and>
    (\<forall>r. pmm_frame_refs s = Some r \<longrightarrow>
        (\<forall>i < total_frames s. bitmap_test s i \<longleftrightarrow> 0 < r ! i)) \<and>
    (\<forall>r t. pmm_frame_refs s = Some r \<and> pmm_owner_class_tab s = Some t \<longrightarrow>
        (\<forall>i < total_frames s. t ! i = PMM_OWNER_USER \<longrightarrow> r ! i = 1)) \<and>
    (\<forall>t p. pmm_owner_class_tab s = Some t \<and> pmm_frame_owner_pid s = Some p \<longrightarrow>
        (\<forall>i < total_frames s. t ! i \<noteq> PMM_OWNER_USER \<longrightarrow> p ! i = -1))"
proof -
  from pmm_reachable_pmm_inv [OF assms(1)] assms(2)
  have p: "pmm_geometry s" "pmm_counts s" "pmm_owners s" by (simp_all add: pmm_inv_def)
  have u: "used_frames s = card {i. i < total_frames s \<and> bitmap_test s i}"
    using p(2) by (simp add: pmm_counts_def count_frames)
  have "used_frames s \<le> total_frames s"
    using p(2) count_frames_le [of "bitmap_test s" "total_frames s"] by (simp add: pmm_counts_def)
  moreover have "total_frames s < two64" using p(1) by (simp add: pmm_geometry_def)
  ultimately have "\<exists>free. pmm_stats s = Some (total_frames s, used_frames s, free) \<and>
                used_frames s + free = total_frames s"
    using assms(2) by (simp add: pmm_stats_def)
  moreover have "\<forall>r. pmm_frame_refs s = Some r \<longrightarrow>
      (\<forall>i < total_frames s. bitmap_test s i \<longleftrightarrow> 0 < r ! i)"
    using p(2) by (auto simp: pmm_counts_def)
  moreover have "\<forall>r t. pmm_frame_refs s = Some r \<and> pmm_owner_class_tab s = Some t \<longrightarrow>
        (\<forall>i < total_frames s. t ! i = PMM_OWNER_USER \<longrightarrow> r ! i = 1)"
    using p(3) by (auto simp: pmm_owners_def)
  moreover have "\<forall>t p. pmm_owner_class_tab s = Some t \<and> pmm_frame_owner_pid s = Some p \<longrightarrow>
        (\<forall>i < total_frames s. t ! i \<noteq> PMM_OWNER_USER \<longrightarrow> p ! i = -1)"
    using p(3) by (auto simp: pmm_owners_def)
  ultimately show ?thesis using u by blast
qed

theorem pmm_reachable_consistent_witness:
  "pmm_reachable pmm_two_frames \<and> initialized pmm_two_frames \<and>
   used_frames pmm_two_frames = card {i. i < total_frames pmm_two_frames \<and> bitmap_test pmm_two_frames i}"
proof -
  have "initialized pmm_two_frames"
    using pmm_two_frames_ready by (simp add: pmm_ready_def)
  from pmm_reachable_consistent [OF pmm_two_frames_reachable this] this show ?thesis
    using pmm_two_frames_reachable by blast
qed

text \<open>
  \<^verbatim>\<open>pmm_alloc_frame\<close> refines the abstract pool: a non-zero result is a page-aligned
  address inside the managed region that was free before and holds exactly one reference
  afterwards, no other frame changes; and the result is 0 exactly when every frame is in use,
  in which case the state is unchanged. The search hint never hides a free frame.
\<close>

theorem pmm_alloc_frame_correct:
  assumes "pmm_ready s" and "pmm_alloc_frame cur s = (a, s')"
  shows "(a = 0 \<longleftrightarrow> (\<forall>i < total_frames s. bitmap_test s i)) \<and>
    (a = 0 \<longrightarrow> s' = s) \<and>
    (a \<noteq> 0 \<longrightarrow> pmm_frames s a = None \<and> pmm_frames s' = (pmm_frames s)(a \<mapsto> 1) \<and>
               PMM_FRAME_SIZE dvd a \<and> mem_start s \<le> a \<and> a < mem_end s)"
proof -
  from assms(1) have p: "pmm_inv s" "initialized s" by (simp_all add: pmm_ready_def)
  then have g: "pmm_geometry s" by (simp add: pmm_inv_def)
  then have pos: "0 < mem_start s" by (simp add: pmm_geometry_def)
  have "(a = 0 \<and> (\<forall>i < total_frames s. bitmap_test s i)) \<or>
        (\<exists>i. i < total_frames s \<and> \<not> bitmap_test s i \<and> a = mem_start s + i * PMM_FRAME_SIZE)"
    using p by (cases rule: pmm_alloc_frame_cases [where cur = cur]) (use assms(2) in auto)
  with pos g have "a = 0 \<longleftrightarrow> (\<forall>i < total_frames s. bitmap_test s i)"
    and "a \<noteq> 0 \<Longrightarrow> PMM_FRAME_SIZE dvd a \<and> mem_start s \<le> a \<and> a < mem_end s"
    by (auto simp: pmm_geometry_def)
  moreover have "a = 0 \<Longrightarrow> s' = s" using pmm.alloc_fail assms by blast
  moreover have "a \<noteq> 0 \<Longrightarrow> pmm_frames s a = None \<and> pmm_frames s' = (pmm_frames s)(a \<mapsto> 1)"
    using pmm.alloc_fresh assms by blast
  ultimately show ?thesis by blast
qed

theorem pmm_alloc_frame_correct_witness:
  "pmm_ready pmm_two_frames \<and> fst (pmm_alloc_frame None pmm_two_frames) = 4096 \<and>
   pmm_frames (snd (pmm_alloc_frame None pmm_two_frames)) = (pmm_frames pmm_two_frames)(4096 \<mapsto> 1)"
proof -
  have a: "fst (pmm_alloc_frame None pmm_two_frames) = 4096" by (simp add: pmm_two_frames_alloc)
  then have "pmm_alloc_frame None pmm_two_frames = (4096, snd (pmm_alloc_frame None pmm_two_frames))"
    by (metis prod.collapse)
  from pmm_alloc_frame_correct [OF pmm_two_frames_ready this] a pmm_two_frames_ready show ?thesis by simp
qed

text \<open>
  \<^verbatim>\<open>pmm_frame_put\<close> on every branch: an address outside the region is ignored; a
  frame that is not allocated makes the kernel panic (double free); otherwise one reference is
  dropped, and the frame becomes free exactly when it was the last one.
\<close>

theorem pmm_frame_put_correct:
  assumes "pmm_ready s"
  shows "(pmm_frame_index s a = None \<longrightarrow> pmm_frame_put a s = Done s) \<and>
    (\<forall>i. pmm_frame_index s a = Some i \<and> \<not> bitmap_test s i \<longrightarrow>
         pmm_frame_put a s = Panic ''PMM: double free detected'') \<and>
    (\<forall>n. pmm_frames s a = Some n \<longrightarrow>
         (\<exists>s'. pmm_frame_put a s = Done s' \<and> pmm_ready s' \<and>
              pmm_frames s' = (pmm_frames s)(a := if n = 1 then None else Some (n - 1))))"
proof -
  have "\<exists>s'. pmm_frame_put a s = Done s' \<and> pmm_ready s' \<and>
              pmm_frames s' = (pmm_frames s)(a := if n = 1 then None else Some (n - 1))"
    if n: "pmm_frames s a = Some n" for n
  proof -
    from assms n have "0 < n" by (elim pmm_frames_SomeD)
    with pmm.put_ref [OF assms n] show ?thesis by (cases "n = 1") auto
  qed
  then show ?thesis by (simp add: pmm_frame_put_def)
qed

theorem pmm_frame_put_correct_witness:
  "pmm_ready pmm_two_frames \<and> pmm_frame_index pmm_two_frames 4096 = Some 0 \<and>
   pmm_frame_put 4096 pmm_two_frames = Panic ''PMM: double free detected''"
proof -
  have i: "pmm_frame_index pmm_two_frames 4096 = Some 0" "\<not> bitmap_test pmm_two_frames 0"
    by (simp_all add: pmm_two_frames_eq pmm_eval)
  from pmm_frame_put_correct [OF pmm_two_frames_ready, of 4096] i pmm_two_frames_ready show ?thesis by blast
qed

text \<open>
  A frame shared by \<open>n\<close> holders (copy-on-write after fork) survives every put but the
  last: \<open>k\<close> puts leave it allocated with \<open>n - k\<close> references while
  \<open>k < n\<close>, the \<open>n\<close>-th returns it to the free pool, none of them panics and no
  other frame changes.
\<close>

theorem pmm_shared_frame_lifetime:
  assumes "pmm_ready s" and "pmm_frames s a = Some n" and "k \<le> n"
  shows "\<exists>s'. put_all pmm_frame_put (replicate k a) s = Done s' \<and> pmm_ready s' \<and>
              pmm_frames s' = (pmm_frames s)(a := if k = n then None else Some (n - k))"
proof -
  from assms(1,2) have "0 < n" by (elim pmm_frames_SomeD)
  with pmm.put_all_replicate [OF assms] show ?thesis by blast
qed

theorem pmm_shared_frame_lifetime_witness:
  "\<exists>s'. put_all pmm_frame_put (replicate 1 4096) (snd (pmm_alloc_frame None pmm_two_frames)) = Done s' \<and>
        pmm_frames s' 4096 = None"
proof -
  let ?s = "snd (pmm_alloc_frame None pmm_two_frames)"
  have r: "pmm_ready ?s" using pmm_alloc_ready [OF pmm_two_frames_ready, of None] by (metis prod.collapse)
  have n: "pmm_frames ?s 4096 = Some 1" by (simp add: pmm_two_frames_alloc pmm_two_frames_eq pmm_eval)
  from pmm_shared_frame_lifetime [OF r n order.refl] show ?thesis by auto
qed

end
