(* ===== verification/Heap_Blocks.thy ===== *)
theory Heap_Blocks
  imports Prelude
begin

text \<open>
  Two structures the kernel heap (\<^verbatim>\<open>mm/allocator.c\<close>) is made of, apart from the code
  that keeps them: a doubly linked list given by its links, and a stretch of memory tiled by
  blocks with a tag at each end.
\<close>

section \<open>Doubly linked lists\<close>

text \<open>The links of a node: its next and its previous node.\<close>

type_synonym links = "nat \<rightharpoonup> nat option \<times> nat option"

text \<open>
  \<open>dseg L p b xs q l\<close>: following next from \<open>p\<close> visits \<open>xs\<close> and arrives at \<open>q\<close>; the first node's
  previous node is \<open>b\<close>, and \<open>l\<close> is the node visited last (\<open>b\<close> if there is none).
\<close>

fun dseg :: "links \<Rightarrow> nat option \<Rightarrow> nat option \<Rightarrow> nat list \<Rightarrow> nat option \<Rightarrow> nat option \<Rightarrow> bool" where
  "dseg L p b [] q l \<longleftrightarrow> p = q \<and> b = l"
| "dseg L p b (x # xs) q l \<longleftrightarrow> p = Some x \<and> (\<exists>n. L x = Some (n, b) \<and> dseg L n (Some x) xs q l)"

definition dlist :: "links \<Rightarrow> nat option \<Rightarrow> nat list \<Rightarrow> bool" where
  "dlist L p xs \<longleftrightarrow> (\<exists>l. dseg L p None xs None l)"

lemma dseg_append: "dseg L p b (xs @ ys) q l \<longleftrightarrow> (\<exists>r m. dseg L p b xs r m \<and> dseg L r m ys q l)"
proof (induction xs arbitrary: p b)
  case (Cons x xs)
  then show ?case by simp blast
qed simp

lemma dseg_cong: "\<forall>x \<in> set xs. L' x = L x \<Longrightarrow> dseg L' p b xs q l = dseg L p b xs q l"
proof (induction xs arbitrary: p b)
  case (Cons x xs)
  then have "dseg L' n (Some x) xs q l = dseg L n (Some x) xs q l" for n by simp
  with Cons.prems show ?case by simp
qed simp

lemma dseg_end: "dseg L p b xs q l \<Longrightarrow> l = (if xs = [] then b else Some (last xs)) \<and> (xs = [] \<longrightarrow> p = q) \<and> (xs \<noteq> [] \<longrightarrow> p = Some (hd xs))"
proof (induction xs arbitrary: p b)
  case (Cons x xs)
  then obtain n where n: "dseg L n (Some x) xs q l" "p = Some x" by auto
  from Cons.IH [OF n(1)] n(2) show ?case by auto
qed simp

lemma dlist_cong: "\<forall>x \<in> set xs. L' x = L x \<Longrightarrow> dlist L' p xs = dlist L p xs"
  using dseg_cong [of xs L' L p None None] by (simp add: dlist_def)

lemma dlist_dom: "dlist L p xs \<Longrightarrow> x \<in> set xs \<Longrightarrow> L x \<noteq> None"
proof -
  have "dseg L p b xs q l \<Longrightarrow> x \<in> set xs \<Longrightarrow> L x \<noteq> None" for b q l
    by (induction xs arbitrary: p b) auto
  then show "dlist L p xs \<Longrightarrow> x \<in> set xs \<Longrightarrow> L x \<noteq> None" by (auto simp: dlist_def)
qed

lemma dlist_head: "dlist L p xs \<Longrightarrow> p = (case xs of [] \<Rightarrow> None | x # _ \<Rightarrow> Some x)"
  by (cases xs) (auto simp: dlist_def)

definition lset_next :: "nat \<Rightarrow> nat option \<Rightarrow> links \<Rightarrow> links" where
  "lset_next a v L = L(a := map_option (\<lambda>(n, b). (v, b)) (L a))"

definition lset_prev :: "nat \<Rightarrow> nat option \<Rightarrow> links \<Rightarrow> links" where
  "lset_prev a v L = L(a := map_option (\<lambda>(n, b). (n, v)) (L a))"

text \<open>
  Redirecting the neighbours of a node (its previous node, or the head, and its next node) to
  \<open>to_next\<close> and \<open>to_prev\<close>: with the node's own links that unlinks it, with a new node on both sides
  it puts the new node in its place.
\<close>

definition redirect :: "nat option \<Rightarrow> nat option \<Rightarrow> nat option \<Rightarrow> nat option \<Rightarrow> links \<times> nat option \<Rightarrow> links \<times> nat option" where
  "redirect n b to_next to_prev Lh =
     (let (L, h) = Lh;
          (L1, h1) = (case b of Some x \<Rightarrow> (lset_next x to_next L, h) | None \<Rightarrow> (L, to_next))
      in (case n of Some y \<Rightarrow> (lset_prev y to_prev L1, h1) | None \<Rightarrow> (L1, h1)))"

lemma node_links:
  assumes "dlist L h (us @ x # vs)"
  shows "L x = Some (case vs of [] \<Rightarrow> None | v # _ \<Rightarrow> Some v, if us = [] then None else Some (last us))"
proof -
  obtain l where "dseg L h None (us @ x # vs) None l" using assms by (auto simp: dlist_def)
  then obtain r m n where "dseg L h None us r m" "L x = Some (n, m)" "dseg L n (Some x) vs None l"
    by (auto simp: dseg_append)
  with dseg_end [of L h None us r m] dseg_end [of L n "Some x" vs None l] show ?thesis by (cases vs) auto
qed

lemma redirect_dlist:
  assumes dl: "dlist L h (us @ x # vs)" and di: "distinct (us @ x # vs)" and lx: "L x = Some (n, b)"
    and r: "redirect n b tn tp (L, h) = (L', h')"
  shows "dlist L' h' (us @ vs) \<or> \<not> (tn = n \<and> tp = b)"
    "c \<notin> set (us @ vs) \<Longrightarrow> tn = Some c \<Longrightarrow> tp = Some c \<Longrightarrow> dlist (L'(c \<mapsto> (n, b))) h' (us @ c # vs)"
    "\<forall>y. y \<notin> set (us @ vs) \<longrightarrow> L' y = L y" "\<forall>y. L' y = None \<longleftrightarrow> L y = None"
proof -
  obtain l where "dseg L h None (us @ x # vs) None l" using dl by (auto simp: dlist_def)
  then have u: "dseg L h None us (Some x) b" and v: "dseg L n (Some x) vs None l"
    using lx by (auto simp: dseg_append)
  note ub = dseg_end [OF u] and vb = dseg_end [OF v]
  have n: "n = (case vs of [] \<Rightarrow> None | v # _ \<Rightarrow> Some v)" using vb by (cases vs) auto
  have b: "b = (if us = [] then None else Some (last us))" using ub by simp
  define L1 where "L1 = (case b of Some e \<Rightarrow> lset_next e tn L | None \<Rightarrow> L)"
  have L': "L' = (case n of Some y \<Rightarrow> lset_prev y tp L1 | None \<Rightarrow> L1)" and h': "h' = (if us = [] then tn else h)"
    using r b by (auto simp: redirect_def L1_def Let_def split: option.splits if_splits)
  have same: "L' y = L y" if "y \<notin> set (us @ vs)" for y
    using that n b unfolding L' L1_def
    by (cases us rule: rev_cases; cases vs) (auto simp: lset_next_def lset_prev_def)
  then show "\<forall>y. y \<notin> set (us @ vs) \<longrightarrow> L' y = L y" by blast
  show "\<forall>y. L' y = None \<longleftrightarrow> L y = None"
    unfolding L' L1_def by (auto simp: lset_next_def lset_prev_def split: option.splits)
  have U: "dseg L' h' None us tn b"
  proof (cases us rule: rev_cases)
    case Nil
    with h' b show ?thesis by simp
  next
    case (snoc ws w)
    have bw: "b = Some w" using b snoc by simp
    from u snoc obtain m where w: "dseg L h None ws (Some w) m" "L w = Some (Some x, m)" by (auto simp: dseg_append)
    have "w \<notin> set ws" "w \<notin> set vs" "set ws \<inter> set vs = {}" using di snoc by auto
    then have "L' w = Some (tn, m)" "\<forall>y \<in> set ws. L' y = L y"
      using w(2) n bw unfolding L' L1_def by (cases vs; auto simp: lset_next_def lset_prev_def)+
    with w(1) dseg_cong [of ws L' L h None "Some w" m] h' snoc bw show ?thesis by (auto simp: dseg_append)
  qed
  have V: "dseg L' n tp vs None (if vs = [] then tp else l)"
  proof (cases vs)
    case Nil
    with v show ?thesis by simp
  next
    case (Cons w ws)
    have nw: "n = Some w" using n Cons by simp
    from v Cons obtain m where w: "L w = Some (m, Some x)" "dseg L m (Some w) ws None l" by auto
    have d: "w \<notin> set ws" "set us \<inter> set vs = {}" using di Cons by auto
    have "b = Some e \<Longrightarrow> e \<in> set us" for e using b by (auto split: if_splits)
    then have "L' w = Some (m, tp)" "\<forall>y \<in> set ws. L' y = L y"
      using w(1) nw d Cons unfolding L' L1_def by (auto simp: lset_next_def lset_prev_def split: option.splits)
    with w(2) dseg_cong [of ws L' L m "Some w" None l] Cons nw show ?thesis by simp
  qed
  show "dlist L' h' (us @ vs) \<or> \<not> (tn = n \<and> tp = b)"
    using U V unfolding dlist_def dseg_append by blast
  assume c: "c \<notin> set (us @ vs)" "tn = Some c" "tp = Some c"
  let ?L = "L'(c \<mapsto> (n, b))"
  have "dseg ?L h' None us (Some c) b" using U c by (subst dseg_cong [of _ _ L']) auto
  moreover have "dseg ?L n (Some c) vs None (if vs = [] then tp else l)" using V c by (subst dseg_cong [of _ _ L']) auto
  ultimately have "dseg ?L h' None (us @ c # vs) None (if vs = [] then tp else l)" unfolding dseg_append by auto
  then show "dlist ?L h' (us @ c # vs)" by (auto simp: dlist_def)
qed

lemmas dlist_unlink = redirect_dlist(1) [where tn = n and tp = b and n = n and b = b for n b, simplified]

lemma dlist_push:
  assumes "dlist L h xs" "c \<notin> set xs" "distinct xs"
  shows "dlist ((case h of Some y \<Rightarrow> lset_prev y (Some c) L | None \<Rightarrow> L)(c \<mapsto> (h, None))) (Some c) (c # xs)"
proof (cases xs)
  case Nil
  with dlist_head [OF assms(1)] show ?thesis by (simp add: dlist_def)
next
  case (Cons y ys)
  have h: "h = Some y" using dlist_head [OF assms(1)] Cons by simp
  from assms(1) Cons obtain l n where l: "L y = Some (n, None)" "dseg L n (Some y) ys None l" by (auto simp: dlist_def)
  let ?L = "(lset_prev y (Some c) L)(c \<mapsto> (h, None))"
  have "dseg ?L n (Some y) ys None l"
    using l(2) assms(2,3) Cons by (subst dseg_cong [of _ _ L]) (auto simp: lset_prev_def)
  then show ?thesis using l(1) h Cons assms(2) by (auto simp: dlist_def lset_prev_def)
qed

section \<open>Tiled memory\<close>

text \<open>
  A block is its address, its size and whether it is free. \<open>T\<close> is the tag at the address of a block,
  \<open>F\<close> the tag 16 bytes before its end.
\<close>

type_synonym tags = "nat \<rightharpoonup> nat \<times> bool"
type_synonym block = "nat \<times> nat \<times> bool"

fun tiled :: "tags \<Rightarrow> tags \<Rightarrow> nat \<Rightarrow> block list \<Rightarrow> nat \<Rightarrow> bool" where
  "tiled T F a [] e \<longleftrightarrow> a = e"
| "tiled T F a ((b, s, f) # bs) e \<longleftrightarrow> b = a \<and> 64 \<le> s \<and> 16 dvd s \<and> T a = Some (s, f) \<and> F (a + s - 16) = Some (s, f) \<and>
     tiled T F (a + s) bs e"

lemma tiled_append: "tiled T F a (xs @ ys) e \<longleftrightarrow> (\<exists>m. tiled T F a xs m \<and> tiled T F m ys e)"
proof (induction xs arbitrary: a)
  case (Cons x xs)
  then show ?case by (cases x) auto
qed simp

lemma tiled_le: "tiled T F a bs e \<Longrightarrow> a \<le> e"
proof (induction bs arbitrary: a)
  case (Cons x bs)
  then show ?case by (cases x) (auto dest: Cons.IH)
qed simp

lemma tiled_block:
  "tiled T F a bs e \<Longrightarrow> (b, s, f) \<in> set bs \<Longrightarrow>
   a \<le> b \<and> b + s \<le> e \<and> 64 \<le> s \<and> 16 dvd s \<and> T b = Some (s, f) \<and> F (b + s - 16) = Some (s, f)"
proof (induction bs arbitrary: a)
  case (Cons x bs)
  obtain b' s' f' where x: "x = (b', s', f')" by (cases x)
  from Cons.prems(1) x have t: "tiled T F (a + s') bs e" by simp
  show ?case
  proof (cases "(b, s, f) = x")
    case True
    with Cons.prems(1) x tiled_le [OF t] show ?thesis by auto
  next
    case False
    with Cons.IH [OF t] Cons.prems(2) show ?thesis by auto
  qed
qed simp

lemma tiled_cong:
  "\<forall>x. a \<le> x \<longrightarrow> x < e \<longrightarrow> T' x = T x \<and> F' x = F x \<Longrightarrow> tiled T F a bs e \<Longrightarrow> tiled T' F' a bs e"
proof (induction bs arbitrary: a)
  case (Cons x bs)
  obtain b s f where x: "x = (b, s, f)" by (cases x)
  from Cons.prems(2) x have t: "b = a" "64 \<le> s" "16 dvd s" "T a = Some (s, f)" "F (a + s - 16) = Some (s, f)" "tiled T F (a + s) bs e"
    by auto
  have le: "a + s \<le> e" by (rule tiled_le [OF t(6)])
  have "tiled T' F' (a + s) bs e" by (rule Cons.IH) (use Cons.prems(1) t(6) in auto)
  moreover have "T' a = T a" "F' (a + s - 16) = F (a + s - 16)" using Cons.prems(1) le t(2) by auto
  ultimately show ?case using t x by simp
qed simp

lemma tiled_split:
  assumes "tiled T F a (xs @ (b, s, f) # ys) e"
  shows "tiled T F a xs b" "tiled T F (b + s) ys e" "64 \<le> s" "16 dvd s" "T b = Some (s, f)" "F (b + s - 16) = Some (s, f)"
    "a \<le> b" "b + s \<le> e"
  using assms tiled_le [of T F a xs b] tiled_le [of T F "b + s" ys e] by (auto simp: tiled_append)

lemma tiled_addrs_distinct: "tiled T F a bs e \<Longrightarrow> distinct (map fst bs)"
proof (induction bs arbitrary: a)
  case (Cons x bs)
  obtain b s f where x: "x = (b, s, f)" by (cases x)
  from Cons.prems x have t: "tiled T F (a + s) bs e" "b = a" "64 \<le> s" by auto
  have "a \<notin> fst ` set bs" using tiled_block [OF t(1)] t(3) by force
  with Cons.IH [OF t(1)] x t(2) show ?case by simp
qed simp

lemma tiled_disjoint:
  assumes "tiled T F a bs e" "(b, s, f) \<in> set bs" "(c, r, g) \<in> set bs" "b \<noteq> c"
  shows "b + s \<le> c \<or> c + r \<le> b"
proof -
  obtain xs ys where bs: "bs = xs @ (b, s, f) # ys" using assms(2) by (auto dest: split_list)
  note t = tiled_split [OF assms(1) [unfolded bs]]
  have "(c, r, g) \<in> set xs \<or> (c, r, g) \<in> set ys" using assms(3,4) bs by auto
  with tiled_block [OF t(1), of c r g] tiled_block [OF t(2), of c r g] show ?thesis by blast
qed

text \<open>Two adjacent blocks are not both free.\<close>

definition coalesced :: "block list \<Rightarrow> bool" where
  "coalesced bs \<longleftrightarrow> successively (\<lambda>(_, _, f) (_, _, g). \<not> (f \<and> g)) bs"

definition free_addrs :: "block list \<Rightarrow> nat set" where
  "free_addrs bs = {a. \<exists>s. (a, s, True) \<in> set bs}"

definition used_bytes :: "block list \<Rightarrow> nat" where
  "used_bytes bs = sum_list (map (\<lambda>(_, s, f). if f then 0 else s) bs)"

lemma free_addrs_append [simp]: "free_addrs (xs @ ys) = free_addrs xs \<union> free_addrs ys"
  and free_addrs_Cons [simp]: "free_addrs ((a, s, f) # xs) = (if f then insert a (free_addrs xs) else free_addrs xs)"
  and free_addrs_Nil [simp]: "free_addrs [] = {}"
  by (auto simp: free_addrs_def)

lemma used_bytes_simps [simp]:
  "used_bytes [] = 0" "used_bytes ((a, s, f) # xs) = (if f then 0 else s) + used_bytes xs"
  "used_bytes (xs @ ys) = used_bytes xs + used_bytes ys"
  by (simp_all add: used_bytes_def)

lemma coalesced_split:
  "coalesced (xs @ (a, s, f) # ys) \<longleftrightarrow>
     coalesced xs \<and> coalesced ys \<and> (f \<longrightarrow> (xs = [] \<or> \<not> snd (snd (last xs))) \<and> (ys = [] \<or> \<not> snd (snd (hd ys))))"
  unfolding coalesced_def
  by (cases ys) (auto simp: successively_append_iff split: prod.splits)

text \<open>Replacing a stretch of blocks by another that covers the same addresses.\<close>

lemma tiled_subst:
  assumes "tiled T F a (xs @ zs @ ys) e" "tiled T F b zs c" "tiled T F a xs b" "tiled T' F' b zs' c"
    "\<forall>x. x < b \<or> c \<le> x \<longrightarrow> T' x = T x \<and> F' x = F x" "tiled T F c ys e"
  shows "tiled T' F' a (xs @ zs' @ ys) e"
proof -
  have "tiled T' F' a xs b" by (rule tiled_cong [OF _ assms(3)]) (use assms(5) in auto)
  moreover have "tiled T' F' c ys e" by (rule tiled_cong [OF _ assms(6)]) (use assms(5) in auto)
  ultimately show ?thesis using assms(4) by (auto simp: tiled_append)
qed

lemma free_addrs_block: "x \<in> free_addrs bs \<longleftrightarrow> (\<exists>s. (x, s, True) \<in> set bs)"
  by (simp add: free_addrs_def)

lemma redirect_upd:
  assumes "n \<noteq> Some c" "b \<noteq> Some c" "redirect n b tn tp (L, h) = (L', h')"
  shows "redirect n b tn tp (L(c \<mapsto> v), h) = (L'(c \<mapsto> v), h')"
  using assms by (auto simp: redirect_def Let_def lset_next_def lset_prev_def fun_upd_twist split: option.splits)

lemma coalesced_Cons:
  "coalesced ((a, s, f) # ys) \<longleftrightarrow> coalesced ys \<and> (f \<longrightarrow> ys = [] \<or> \<not> snd (snd (hd ys)))"
  using coalesced_split [of "[]" a s f ys] by (auto simp: coalesced_def)

lemma free_addrs_fst: "free_addrs bs \<subseteq> fst ` set bs"
  by (force simp: free_addrs_def)

end
