(* ===== verification/Block_Heap.thy ===== *)
theory Block_Heap
  imports Prelude
begin

text \<open>
  The contract of a heap of blocks, as \<^verbatim>\<open>mm/allocator.c\<close> provides it and
  \<^verbatim>\<open>mm/kmem.c\<close> and every \<^verbatim>\<open>kmalloc\<close> user rely on it: which blocks are live,
  what a request and a release do to them and to the memory, and what follows for programs that
  touch only memory they own.
\<close>

section \<open>Programs over a heap\<close>

text \<open>
  A client asks for blocks, releases them and writes bytes into them, and only into blocks it owns:
  releasing or writing anything else is skipped. The run keeps the blocks owned (with the size asked
  for) and the contents the client expects.
\<close>

datatype heap_op = HAlloc nat | HFree nat | HWrite nat nat u8

fun heap_step ::
  "(nat \<Rightarrow> 's \<Rightarrow> (nat option \<times> 's) kresult) \<Rightarrow> (nat \<Rightarrow> 's \<Rightarrow> 's kresult) \<Rightarrow> (nat \<Rightarrow> u8 \<Rightarrow> 's \<Rightarrow> 's) \<Rightarrow> heap_op \<Rightarrow>
   's \<times> (nat \<rightharpoonup> nat) \<times> (nat \<Rightarrow> u8) \<Rightarrow> ('s \<times> (nat \<rightharpoonup> nat) \<times> (nat \<Rightarrow> u8)) kresult" where
  "heap_step get put poke (HAlloc n) (s, m, c) =
     kbind (get n s) (\<lambda>(r, s'). case r of
        None \<Rightarrow> Done (s', m, c)
      | Some p \<Rightarrow> Done (s', m(p \<mapsto> n), (\<lambda>x. if p \<le> x \<and> x < p + n then 0 else c x)))"
| "heap_step get put poke (HFree p) (s, m, c) =
     (if m p = None then Done (s, m, c) else kbind (put p s) (\<lambda>s'. Done (s', m(p := None), c)))"
| "heap_step get put poke (HWrite p i v) (s, m, c) =
     (case m p of
        None \<Rightarrow> Done (s, m, c)
      | Some n \<Rightarrow> if i < n then Done (poke (p + i) v s, m, c(p + i := v)) else Done (s, m, c))"

fun heap_run ::
  "(nat \<Rightarrow> 's \<Rightarrow> (nat option \<times> 's) kresult) \<Rightarrow> (nat \<Rightarrow> 's \<Rightarrow> 's kresult) \<Rightarrow> (nat \<Rightarrow> u8 \<Rightarrow> 's \<Rightarrow> 's) \<Rightarrow> heap_op list \<Rightarrow>
   's \<times> (nat \<rightharpoonup> nat) \<times> (nat \<Rightarrow> u8) \<Rightarrow> ('s \<times> (nat \<rightharpoonup> nat) \<times> (nat \<Rightarrow> u8)) kresult" where
  "heap_run get put poke [] st = Done st"
| "heap_run get put poke (op # ops) st = kbind (heap_step get put poke op st) (heap_run get put poke ops)"

definition sizes_ok :: "nat \<Rightarrow> heap_op list \<Rightarrow> bool" where
  "sizes_ok limit ops \<longleftrightarrow> (\<forall>n. HAlloc n \<in> set ops \<longrightarrow> 0 < n \<and> n \<le> limit)"

text \<open>Owned blocks have the bytes their owner expects, and no two of them overlap.\<close>

definition private_mem :: "(nat \<Rightarrow> u8) \<Rightarrow> (nat \<rightharpoonup> nat) \<Rightarrow> (nat \<Rightarrow> u8) \<Rightarrow> bool" where
  "private_mem mem m c \<longleftrightarrow>
     (\<forall>p n i. m p = Some n \<longrightarrow> i < n \<longrightarrow> mem (p + i) = c (p + i)) \<and>
     (\<forall>p n q k. m p = Some n \<longrightarrow> m q = Some k \<longrightarrow> p \<noteq> q \<longrightarrow> p + n \<le> q \<or> q + k \<le> p)"

section \<open>The contract\<close>

locale block_heap =
  fixes get :: "nat \<Rightarrow> 's \<Rightarrow> (nat option \<times> 's) kresult" and put :: "nat \<Rightarrow> 's \<Rightarrow> 's kresult"
    and poke :: "nat \<Rightarrow> u8 \<Rightarrow> 's \<Rightarrow> 's" and mem :: "'s \<Rightarrow> nat \<Rightarrow> u8"
    and live :: "'s \<Rightarrow> (nat \<rightharpoonup> nat) \<Rightarrow> bool" and limit :: nat
  assumes get_law: "live s M \<Longrightarrow> 0 < n \<Longrightarrow> n \<le> limit \<Longrightarrow>
      get n s = Done (None, s) \<or>
      (\<exists>p s' cap. get n s = Done (Some p, s') \<and> M p = None \<and> n \<le> cap \<and> live s' (M(p \<mapsto> cap)) \<and>
         (\<forall>x. mem s' x = (if p \<le> x \<and> x < p + n then 0 else mem s x)))"
    and put_law: "live s M \<Longrightarrow> M p = Some cap \<Longrightarrow>
      \<exists>s'. put p s = Done s' \<and> live s' (M(p := None)) \<and> mem s' = mem s"
    and poke_law: "live s M \<Longrightarrow> live (poke x v s) M \<and> mem (poke x v s) = (mem s)(x := v)"
    and apart_law: "live s M \<Longrightarrow> M p = Some cap \<Longrightarrow> M q = Some cap' \<Longrightarrow> p \<noteq> q \<Longrightarrow> p + cap \<le> q \<or> q + cap' \<le> p"
begin

definition owns :: "'s \<Rightarrow> (nat \<rightharpoonup> nat) \<Rightarrow> (nat \<Rightarrow> u8) \<Rightarrow> bool" where
  "owns s m c \<longleftrightarrow> (\<exists>M. live s M \<and> dom m = dom M \<and> (\<forall>p n. m p = Some n \<longrightarrow> n \<le> the (M p))) \<and>
     (\<forall>p n i. m p = Some n \<longrightarrow> i < n \<longrightarrow> mem s (p + i) = c (p + i))"

lemma ownsE:
  assumes "owns s m c"
  obtains M where "live s M" "dom m = dom M" "\<forall>p n. m p = Some n \<longrightarrow> n \<le> the (M p)"
    "\<forall>p n i. m p = Some n \<longrightarrow> i < n \<longrightarrow> mem s (p + i) = c (p + i)"
  using assms unfolding owns_def by blast

lemma owned_cap: "dom m = dom M \<Longrightarrow> m p = Some n \<Longrightarrow> \<exists>cap. M p = Some cap"
  by auto

text \<open>Two owned blocks do not overlap, because the live blocks that hold them do not.\<close>

lemma owned_apart:
  assumes "live s M" "dom m = dom M" "\<forall>p n. m p = Some n \<longrightarrow> n \<le> the (M p)" "m p = Some n" "m q = Some k" "p \<noteq> q"
  shows "p + n \<le> q \<or> q + k \<le> p"
proof -
  obtain a b where ab: "M p = Some a" "M q = Some b" using owned_cap assms(2,4,5) by metis
  then have "n \<le> a" "k \<le> b" using assms(3) [rule_format, OF assms(4)] assms(3) [rule_format, OF assms(5)] by simp_all
  with apart_law [OF assms(1) ab assms(6)] show ?thesis by auto
qed

lemma owns_private: "owns s m c \<Longrightarrow> private_mem (mem s) m c"
  using owned_apart unfolding owns_def private_mem_def by blast

lemma owns_alloc:
  assumes "owns s m c" "0 < n" "n \<le> limit"
  shows "\<exists>st. heap_step get put poke (HAlloc n) (s, m, c) = Done st \<and> (case st of (s', m', c') \<Rightarrow> owns s' m' c')"
proof -
  obtain M where M: "live s M" "dom m = dom M" "\<forall>p n. m p = Some n \<longrightarrow> n \<le> the (M p)"
    "\<forall>p n i. m p = Some n \<longrightarrow> i < n \<longrightarrow> mem s (p + i) = c (p + i)" by (rule ownsE [OF assms(1)]) blast
  from get_law [OF M(1) assms(2,3)] show ?thesis
  proof (elim disjE exE conjE)
    assume "get n s = Done (None, s)"
    with assms(1) show ?thesis by simp
  next
    fix p s' cap
    assume g: "get n s = Done (Some p, s')" "M p = None" "n \<le> cap" "live s' (M(p \<mapsto> cap))"
      "\<forall>x. mem s' x = (if p \<le> x \<and> x < p + n then 0 else mem s x)"
    let ?m = "m(p \<mapsto> n)" let ?c = "\<lambda>x. if p \<le> x \<and> x < p + n then 0 else c x"
    have dm: "dom ?m = dom (M(p \<mapsto> cap))" "\<forall>q k. ?m q = Some k \<longrightarrow> k \<le> the ((M(p \<mapsto> cap)) q)"
      using M(2,3) g(3) by auto
    have "mem s' (q + i) = ?c (q + i)" if q: "?m q = Some k" "i < k" for q k i
    proof (cases "p \<le> q + i \<and> q + i < p + n")
      case True
      with g(5) show ?thesis by simp
    next
      case False
      have "q \<noteq> p" using q False by auto
      then have "mem s (q + i) = c (q + i)" using q M(4) by simp
      with False g(5) show ?thesis by auto
    qed
    then have "owns s' ?m ?c" unfolding owns_def using g(4) dm by blast
    with g(1) show ?thesis by simp
  qed
qed

lemma owns_free:
  assumes "owns s m c"
  shows "\<exists>st. heap_step get put poke (HFree p) (s, m, c) = Done st \<and> (case st of (s', m', c') \<Rightarrow> owns s' m' c')"
proof (cases "m p")
  case (Some n)
  obtain M where M: "live s M" "dom m = dom M" "\<forall>p n. m p = Some n \<longrightarrow> n \<le> the (M p)"
    "\<forall>p n i. m p = Some n \<longrightarrow> i < n \<longrightarrow> mem s (p + i) = c (p + i)" by (rule ownsE [OF assms]) blast
  obtain cap where "M p = Some cap" using owned_cap [OF M(2) Some] by blast
  from put_law [OF M(1) this] obtain s' where s': "put p s = Done s'" "live s' (M(p := None))" "mem s' = mem s" by blast
  have "owns s' (m(p := None)) c" unfolding owns_def using s'(2,3) M(2-4)
    by (intro conjI exI [of _ "M(p := None)"]) (auto split: if_splits)
  with s'(1) Some show ?thesis by simp
qed (use assms in simp)

lemma owns_write:
  assumes "owns s m c"
  shows "\<exists>st. heap_step get put poke (HWrite p i v) (s, m, c) = Done st \<and> (case st of (s', m', c') \<Rightarrow> owns s' m' c')"
proof (cases "\<exists>n. m p = Some n \<and> i < n")
  case True
  then obtain n where n: "m p = Some n" "i < n" by blast
  obtain M where M: "live s M" "dom m = dom M" "\<forall>p n. m p = Some n \<longrightarrow> n \<le> the (M p)"
    "\<forall>p n i. m p = Some n \<longrightarrow> i < n \<longrightarrow> mem s (p + i) = c (p + i)" by (rule ownsE [OF assms]) blast
  have "owns (poke (p + i) v s) m (c(p + i := v))"
    unfolding owns_def using poke_law [OF M(1), of "p + i" v] M(2-4) by auto
  with n show ?thesis by simp
qed (use assms in \<open>auto split: option.splits\<close>)

text \<open>
  No program that keeps to its own blocks makes the heap fail, and its memory is private: every
  byte is the one it wrote last.
\<close>

lemma run_private:
  "owns s m c \<Longrightarrow> sizes_ok limit ops \<Longrightarrow>
   \<exists>s' m' c'. heap_run get put poke ops (s, m, c) = Done (s', m', c') \<and> owns s' m' c' \<and> private_mem (mem s') m' c'"
proof (induction ops arbitrary: s m c)
  case Nil
  then show ?case using owns_private by simp
next
  case (Cons op ops)
  have "\<exists>st. heap_step get put poke op (s, m, c) = Done st \<and> (case st of (s', m', c') \<Rightarrow> owns s' m' c')"
    using owns_alloc [OF Cons.prems(1)] owns_free [OF Cons.prems(1)] owns_write [OF Cons.prems(1)] Cons.prems(2)
    by (cases op) (auto simp: sizes_ok_def)
  then obtain s1 m1 c1 where 1: "heap_step get put poke op (s, m, c) = Done (s1, m1, c1)" "owns s1 m1 c1" by auto
  have "sizes_ok limit ops" using Cons.prems(2) by (simp add: sizes_ok_def)
  from Cons.IH [OF 1(2) this] 1(1) show ?case by simp
qed

end

end
