(* ===== verification/Allocator.thy ===== *)
theory Allocator
  imports Heap_Blocks Block_Heap
begin

text \<open>
  The kernel heap (\<^verbatim>\<open>mm/allocator.c\<close>): first-fit allocation from a doubly linked free
  list, with a header at the start and a footer at the end of every block so that a freed block
  merges with both neighbours in constant time. Headers and footers are stores by address; reading
  one where none was written is \<^verbatim>\<open>Stuck\<close>. Payload bytes are a memory of their own: that
  a payload never reaches a header or footer is proved, and a write that would is
  \<^verbatim>\<open>Stuck\<close>. Sizes and addresses are 64-bit and wrap. The debug output is not compiled in:
  no build defines \<^verbatim>\<open>DEBUG_MEMORY_ALLOCATOR\<close>.
\<close>

section \<open>State\<close>

record block_header =
  h_size :: nat
  h_free :: bool
  h_next :: "nat option"
  h_prev :: "nat option"

record block_footer =
  f_size :: nat
  f_free :: bool

record heap =
  hdrs :: "nat \<rightharpoonup> block_header"
  ftrs :: "nat \<rightharpoonup> block_footer"
  payload :: "nat \<Rightarrow> u8"
  heap_start :: nat
  heap_end :: nat
  heap_size :: nat
  free_list :: "nat option"
  total_allocated :: nat
  total_freed :: nat
  coalesce_forward_count :: nat
  coalesce_backward_count :: nat
  heap_initialized :: bool

abbreviation HDR :: nat where "HDR \<equiv> 32"
abbreviation FTR :: nat where "FTR \<equiv> 16"

section \<open>Blocks and links\<close>

definition get_footer :: "nat \<Rightarrow> nat \<Rightarrow> nat" where
  "get_footer header sz = sub64 (add64 header sz) FTR"

definition get_header_from_footer :: "nat \<Rightarrow> block_footer \<Rightarrow> nat" where
  "get_header_from_footer footer f = sub64 (add64 footer FTR) (f_size f)"

definition get_prev_block :: "nat \<Rightarrow> heap \<Rightarrow> nat option kresult" where
  "get_prev_block current hp =
     (if current \<le> heap_start hp then Done None
      else let prev_footer = sub64 current FTR in
           if prev_footer < heap_start hp then Done None
           else case ftrs hp prev_footer of
                  None \<Rightarrow> Stuck
                | Some f \<Rightarrow> Done (Some (get_header_from_footer prev_footer f)))"

definition get_next_block :: "nat \<Rightarrow> nat \<Rightarrow> heap \<Rightarrow> nat option" where
  "get_next_block current sz hp =
     (let nb = add64 current sz in if heap_end hp \<le> nb then None else Some nb)"

text \<open>On memory that was not a header the links are whatever is there; they are assigned before use.\<close>

definition set_block :: "nat \<Rightarrow> nat \<Rightarrow> bool \<Rightarrow> heap \<Rightarrow> heap" where
  "set_block a sz fr hp =
     hp\<lparr>hdrs := (hdrs hp)(a \<mapsto> (case hdrs hp a of
           Some h \<Rightarrow> h\<lparr>h_size := sz, h_free := fr\<rparr>
         | None \<Rightarrow> \<lparr>h_size = sz, h_free = fr, h_next = None, h_prev = None\<rparr>)),
       ftrs := (ftrs hp)(get_footer a sz \<mapsto> \<lparr>f_size = sz, f_free = fr\<rparr>)\<rparr>"

definition header_at :: "nat \<Rightarrow> heap \<Rightarrow> block_header kresult" where
  "header_at a hp = (case hdrs hp a of None \<Rightarrow> Stuck | Some h \<Rightarrow> Done h)"

definition upd_header :: "nat \<Rightarrow> (block_header \<Rightarrow> block_header) \<Rightarrow> heap \<Rightarrow> heap kresult" where
  "upd_header a f hp = kbind (header_at a hp) (\<lambda>h. Done (hp\<lparr>hdrs := (hdrs hp)(a \<mapsto> f h)\<rparr>))"

definition set_footer_free :: "nat \<Rightarrow> bool \<Rightarrow> heap \<Rightarrow> heap kresult" where
  "set_footer_free x fr hp =
     (case ftrs hp x of None \<Rightarrow> Stuck | Some f \<Rightarrow> Done (hp\<lparr>ftrs := (ftrs hp)(x \<mapsto> f\<lparr>f_free := fr\<rparr>)\<rparr>))"

text \<open>\<^verbatim>\<open>if (b->prev) b->prev->next = v; else allocator.free_list = v;\<close>\<close>

definition set_prev_next :: "block_header \<Rightarrow> nat option \<Rightarrow> heap \<Rightarrow> heap kresult" where
  "set_prev_next h v hp =
     (case h_prev h of
        Some p \<Rightarrow> upd_header p (\<lambda>x. x\<lparr>h_next := v\<rparr>) hp
      | None \<Rightarrow> Done (hp\<lparr>free_list := v\<rparr>))"

text \<open>\<^verbatim>\<open>if (b->next) b->next->prev = v;\<close>\<close>

definition set_next_prev :: "block_header \<Rightarrow> nat option \<Rightarrow> heap \<Rightarrow> heap kresult" where
  "set_next_prev h v hp =
     (case h_next h of
        Some n \<Rightarrow> upd_header n (\<lambda>x. x\<lparr>h_prev := v\<rparr>) hp
      | None \<Rightarrow> Done hp)"

section \<open>Initialisation and allocation\<close>

text \<open>
  The place and size of the heap are the functions \<^verbatim>\<open>mm_kernel_heap_start\<close> and
  \<^verbatim>\<open>mm_kernel_heap_size\<close> of the architecture, here the arguments \<open>hs\<close> and \<open>hz\<close>.
\<close>

definition alloc_init :: "nat \<Rightarrow> nat \<Rightarrow> heap \<Rightarrow> heap kresult" where
  "alloc_init hs hz hp =
     (if heap_initialized hp then Done hp
      else
        (let hp1 = hp\<lparr>heap_start := hs, heap_end := add64 hs hz, heap_size := hz, total_allocated := 0, total_freed := 0,
                      coalesce_forward_count := 0, coalesce_backward_count := 0, free_list := Some hs\<rparr>;
             hp2 = set_block hs hz True hp1
         in kbind (upd_header hs (\<lambda>h. h\<lparr>h_next := None, h_prev := None\<rparr>) hp2) (\<lambda>hp3.
              Done (hp3\<lparr>heap_initialized := True\<rparr>))))"

text \<open>The first-fit walk along the free list.\<close>

partial_function (option) first_fit :: "(nat \<rightharpoonup> block_header) \<Rightarrow> nat option \<Rightarrow> nat \<Rightarrow> nat option option" where
  "first_fit H p need =
     (case p of
        None \<Rightarrow> Some None
      | Some a \<Rightarrow> (case H a of
                     None \<Rightarrow> None
                   | Some h \<Rightarrow> if h_free h \<and> need \<le> h_size h then Some (Some a) else first_fit H (h_next h) need))"

definition total_block_size :: "nat \<Rightarrow> nat" where
  "total_block_size sz = align_down 16 (add64 sz (HDR + FTR + 15))"

text \<open>Taking the block: the remainder becomes a free block in its place, or the block is taken whole.\<close>

definition alloc_split :: "nat \<Rightarrow> block_header \<Rightarrow> nat \<Rightarrow> heap \<Rightarrow> heap kresult" where
  "alloc_split a h need hp =
     (let new_block = add64 a need; new_size = sub64 (h_size h) need;
          hp1 = set_block new_block new_size True hp in
      kbind (upd_header new_block (\<lambda>x. x\<lparr>h_next := h_next h, h_prev := h_prev h\<rparr>) hp1) (\<lambda>hp2.
        kbind (set_next_prev h (Some new_block) hp2) (\<lambda>hp3.
          kbind (set_prev_next h (Some new_block) hp3) (\<lambda>hp4.
            upd_header a (\<lambda>x. x\<lparr>h_next := None, h_prev := None\<rparr>) (set_block a need False hp4)))))"

definition alloc_whole :: "nat \<Rightarrow> block_header \<Rightarrow> heap \<Rightarrow> heap kresult" where
  "alloc_whole a h hp =
     kbind (set_prev_next h (h_next h) hp) (\<lambda>hp1.
       kbind (set_next_prev h (h_prev h) hp1) (\<lambda>hp2.
         set_footer_free (get_footer a (h_size h)) False hp2))"

text \<open>
  \<^verbatim>\<open>for (i = 0; i < size; i++) ptr[i] = 0\<close>: a payload that does not hold \<open>sz\<close> bytes is overrun.
\<close>

definition zero_payload :: "nat \<Rightarrow> nat \<Rightarrow> heap \<Rightarrow> heap kresult" where
  "zero_payload a sz hp =
     kbind (header_at a hp) (\<lambda>h.
       if sz + HDR + FTR \<le> h_size h
       then Done (hp\<lparr>payload := (\<lambda>x. if a + HDR \<le> x \<and> x < a + HDR + sz then 0 else payload hp x)\<rparr>)
       else Stuck)"

definition alloc :: "nat \<Rightarrow> nat \<Rightarrow> nat \<Rightarrow> heap \<Rightarrow> (nat option \<times> heap) kresult" where
  "alloc hs hz sz hp0 =
     kbind (alloc_init hs hz hp0) (\<lambda>hp.
       if sz = 0 then Done (None, hp)
       else
         (let need = total_block_size sz in
          case first_fit (hdrs hp) (free_list hp) need of
            None \<Rightarrow> Stuck
          | Some None \<Rightarrow> Done (None, hp)
          | Some (Some a) \<Rightarrow>
              kbind (upd_header a (\<lambda>h. h\<lparr>h_free := False\<rparr>) hp) (\<lambda>hp1.
                kbind (header_at a hp1) (\<lambda>h.
                  kbind (if add64 need (HDR + FTR + 32) < h_size h then alloc_split a h need hp1 else alloc_whole a h hp1) (\<lambda>hp2.
                    kbind (header_at a hp2) (\<lambda>h2.
                      kbind (zero_payload a sz (hp2\<lparr>total_allocated := add64 (total_allocated hp2) (h_size h2)\<rparr>)) (\<lambda>hp3.
                        Done (Some (add64 a HDR), hp3))))))))"

section \<open>Freeing and resizing\<close>

text \<open>Taking a free neighbour out of the free list.\<close>

definition unlink_block :: "block_header \<Rightarrow> heap \<Rightarrow> heap kresult" where
  "unlink_block h hp =
     kbind (set_prev_next h (h_next h) hp) (\<lambda>hp1. set_next_prev h (h_prev h) hp1)"

definition coalesce_forward :: "nat \<Rightarrow> heap \<Rightarrow> heap kresult" where
  "coalesce_forward block hp =
     kbind (header_at block hp) (\<lambda>h.
       case get_next_block block (h_size h) hp of
         None \<Rightarrow> Done hp
       | Some nb \<Rightarrow>
           kbind (header_at nb hp) (\<lambda>nh.
             if \<not> h_free nh then Done hp
             else kbind (unlink_block nh hp) (\<lambda>hp1.
                    kbind (header_at block hp1) (\<lambda>h1. kbind (header_at nb hp1) (\<lambda>nh1.
                      let hp2 = set_block block (add64 (h_size h1) (h_size nh1)) True hp1 in
                      Done (hp2\<lparr>coalesce_forward_count := add64 (coalesce_forward_count hp2) 1\<rparr>))))))"

text \<open>The block that stands for the freed one afterwards, and the heap.\<close>

definition coalesce_backward :: "nat \<Rightarrow> heap \<Rightarrow> (nat \<times> heap) kresult" where
  "coalesce_backward block hp =
     kbind (get_prev_block block hp) (\<lambda>prev.
       case prev of
         None \<Rightarrow> Done (block, hp)
       | Some pb \<Rightarrow>
           kbind (header_at pb hp) (\<lambda>ph.
             if \<not> h_free ph then Done (block, hp)
             else kbind (unlink_block ph hp) (\<lambda>hp1.
                    kbind (header_at pb hp1) (\<lambda>ph1. kbind (header_at block hp1) (\<lambda>h1.
                      let hp2 = set_block pb (add64 (h_size ph1) (h_size h1)) True hp1 in
                      Done (pb, hp2\<lparr>coalesce_backward_count := add64 (coalesce_backward_count hp2) 1\<rparr>))))))"

definition insert_free :: "nat \<Rightarrow> heap \<Rightarrow> heap kresult" where
  "insert_free block hp =
     kbind (upd_header block (\<lambda>h. h\<lparr>h_next := free_list hp, h_prev := None\<rparr>) hp) (\<lambda>hp1.
       kbind (case free_list hp1 of
                Some x \<Rightarrow> upd_header x (\<lambda>h. h\<lparr>h_prev := Some block\<rparr>) hp1
              | None \<Rightarrow> Done hp1) (\<lambda>hp2.
         Done (hp2\<lparr>free_list := Some block\<rparr>)))"

definition alloc_free :: "nat option \<Rightarrow> heap \<Rightarrow> heap kresult" where
  "alloc_free ptr hp =
     (case ptr of
        None \<Rightarrow> Done hp
      | Some p \<Rightarrow>
          if \<not> heap_initialized hp then Done hp
          else
            (let block = sub64 p HDR in
             if block < heap_start hp \<or> heap_end hp \<le> block then Panic ''Out of bounds allocation''
             else kbind (header_at block hp) (\<lambda>h.
               if h_free h then Panic ''double-free detected''
               else
                 kbind (upd_header block (\<lambda>x. x\<lparr>h_free := True\<rparr>) hp) (\<lambda>hp1.
                   kbind (set_footer_free (get_footer block (h_size h)) True hp1) (\<lambda>hp2.
                     kbind (coalesce_forward block (hp2\<lparr>total_freed := add64 (total_freed hp2) (h_size h)\<rparr>)) (\<lambda>hp3.
                       kbind (coalesce_backward block hp3) (\<lambda>(b, hp4). insert_free b hp4)))))))"

text \<open>\<^verbatim>\<open>for (i = 0; i < n; i++) dst[i] = src[i]\<close> between two blocks.\<close>

definition copy_payload :: "nat \<Rightarrow> nat \<Rightarrow> nat \<Rightarrow> heap \<Rightarrow> heap" where
  "copy_payload dst src n hp =
     hp\<lparr>payload := (\<lambda>x. if dst \<le> x \<and> x < dst + n then payload hp (src + (x - dst)) else payload hp x)\<rparr>"

definition all_realloc :: "nat \<Rightarrow> nat \<Rightarrow> nat option \<Rightarrow> nat \<Rightarrow> heap \<Rightarrow> (nat option \<times> heap) kresult" where
  "all_realloc hs hz ptr new_size hp =
     (case ptr of
        None \<Rightarrow> alloc hs hz new_size hp
      | Some p \<Rightarrow>
          if new_size = 0 then kbind (alloc_free ptr hp) (\<lambda>hp1. Done (None, hp1))
          else
            kbind (header_at (sub64 p HDR) hp) (\<lambda>h.
              let old_size = sub64 (sub64 (h_size h) HDR) FTR in
              kbind (alloc hs hz new_size hp) (\<lambda>(r, hp1).
                case r of
                  None \<Rightarrow> Done (None, hp1)
                | Some q \<Rightarrow>
                    (let n = (if old_size < new_size then old_size else new_size) in
                     kbind (alloc_free ptr (copy_payload q p n hp1)) (\<lambda>hp2. Done (Some q, hp2))))))"

text \<open>The statistics: heap size, bytes in use, bytes ever allocated.\<close>

definition alloc_stats :: "heap \<Rightarrow> nat \<times> nat \<times> nat" where
  "alloc_stats hp = (heap_size hp, sub64 (total_allocated hp) (total_freed hp), total_allocated hp)"

section \<open>What the heap stands for\<close>

definition tagH :: "heap \<Rightarrow> tags" where
  "tagH hp a = map_option (\<lambda>h. (h_size h, h_free h)) (hdrs hp a)"

definition lnkH :: "heap \<Rightarrow> links" where
  "lnkH hp a = map_option (\<lambda>h. (h_next h, h_prev h)) (hdrs hp a)"

definition ftrH :: "heap \<Rightarrow> tags" where
  "ftrH hp a = map_option (\<lambda>f. (f_size f, f_free f)) (ftrs hp a)"

text \<open>
  \<open>heap_rep hp bs fl\<close>: the blocks \<open>bs\<close> tile the heap, header and footer of each agree, the free list is
  the doubly linked list \<open>fl\<close> of exactly the free blocks, no two neighbours are both free, and the
  counters differ by the bytes in use. The heap ends at least 80 bytes below the end of the address
  space, so that no size computed from a block wraps.
\<close>

definition heap_rep :: "heap \<Rightarrow> block list \<Rightarrow> nat list \<Rightarrow> bool" where
  "heap_rep hp bs fl \<longleftrightarrow>
     heap_initialized hp \<and> HDR \<le> heap_start hp \<and> 16 dvd heap_start hp \<and> heap_end hp + 80 < two64 \<and>
     tiled (tagH hp) (ftrH hp) (heap_start hp) bs (heap_end hp) \<and>
     dlist (lnkH hp) (free_list hp) fl \<and> distinct fl \<and> set fl = free_addrs bs \<and> coalesced bs \<and>
     total_allocated hp = add64 (total_freed hp) (used_bytes bs)"

lemma heap_repD:
  assumes "heap_rep hp bs fl"
  shows "heap_initialized hp" "HDR \<le> heap_start hp" "16 dvd heap_start hp" "heap_end hp + 80 < two64"
    "tiled (tagH hp) (ftrH hp) (heap_start hp) bs (heap_end hp)" "dlist (lnkH hp) (free_list hp) fl" "distinct fl"
    "set fl = free_addrs bs" "coalesced bs" "total_allocated hp = add64 (total_freed hp) (used_bytes bs)"
  using assms by (simp_all add: heap_rep_def)

lemma tagH_Some: "tagH hp a = Some (s, f) \<longleftrightarrow> (\<exists>h. hdrs hp a = Some h \<and> h_size h = s \<and> h_free h = f)"
  by (auto simp: tagH_def)

lemma lnkH_Some: "lnkH hp a = Some (n, b) \<longleftrightarrow> (\<exists>h. hdrs hp a = Some h \<and> h_next h = n \<and> h_prev h = b)"
  by (auto simp: lnkH_def)

lemma ftrH_Some: "ftrH hp a = Some (s, f) \<longleftrightarrow> ftrs hp a = Some \<lparr>f_size = s, f_free = f\<rparr>"
  by (cases "ftrs hp a") (auto simp: ftrH_def)

lemma proj_None: "lnkH hp a = None \<longleftrightarrow> hdrs hp a = None" "tagH hp a = None \<longleftrightarrow> hdrs hp a = None"
  by (simp_all add: lnkH_def tagH_def)

text \<open>Changes of links and the free-list head only.\<close>

definition links_only :: "heap \<Rightarrow> heap \<Rightarrow> bool" where
  "links_only hp hp' \<longleftrightarrow> tagH hp' = tagH hp \<and> hp' = hp\<lparr>hdrs := hdrs hp', free_list := free_list hp'\<rparr>"

lemma links_onlyD:
  assumes "links_only hp hp'"
  shows "tagH hp' = tagH hp" "ftrH hp' = ftrH hp" "payload hp' = payload hp" "heap_start hp' = heap_start hp"
    "heap_end hp' = heap_end hp" "heap_size hp' = heap_size hp" "total_allocated hp' = total_allocated hp"
    "total_freed hp' = total_freed hp" "heap_initialized hp' = heap_initialized hp" "ftrs hp' = ftrs hp"
proof -
  have *: "tagH hp' = tagH hp" "hp' = hp\<lparr>hdrs := hdrs hp', free_list := free_list hp'\<rparr>" using assms by (simp_all add: links_only_def)
  show "tagH hp' = tagH hp" by (rule *(1))
  have fields: "payload hp' = payload hp" "heap_start hp' = heap_start hp"
    "heap_end hp' = heap_end hp" "heap_size hp' = heap_size hp" "total_allocated hp' = total_allocated hp"
    "total_freed hp' = total_freed hp" "heap_initialized hp' = heap_initialized hp" "ftrs hp' = ftrs hp"
    by (subst *(2); simp)+
  then show "payload hp' = payload hp" "heap_start hp' = heap_start hp"
    "heap_end hp' = heap_end hp" "heap_size hp' = heap_size hp" "total_allocated hp' = total_allocated hp"
    "total_freed hp' = total_freed hp" "heap_initialized hp' = heap_initialized hp" "ftrs hp' = ftrs hp" by simp_all
  show "ftrH hp' = ftrH hp" using fields(8) by (simp add: ftrH_def fun_eq_iff)
qed

lemma links_only_trans: "links_only a b \<Longrightarrow> links_only b c \<Longrightarrow> links_only a c"
  unfolding links_only_def by (cases a; cases b; cases c) simp

lemma upd_links:
  assumes "lnkH hp a = Some (n, b)" "\<And>h. (h_size (f h), h_free (f h)) = (h_size h, h_free h)"
  shows "\<exists>hp' h. hdrs hp a = Some h \<and> upd_header a f hp = Done hp' \<and> links_only hp hp' \<and> free_list hp' = free_list hp \<and>
     lnkH hp' = (lnkH hp)(a \<mapsto> (h_next (f h), h_prev (f h)))"
proof -
  obtain h where h: "hdrs hp a = Some h" using assms(1) by (auto simp: lnkH_Some)
  let ?hp = "hp\<lparr>hdrs := (hdrs hp)(a \<mapsto> f h)\<rparr>"
  have "tagH ?hp = tagH hp" using h assms(2) [of h] by (auto simp: tagH_def fun_eq_iff)
  moreover have "lnkH ?hp = (lnkH hp)(a \<mapsto> (h_next (f h), h_prev (f h)))" by (auto simp: lnkH_def fun_eq_iff)
  ultimately show ?thesis using h by (auto simp: upd_header_def header_at_def links_only_def)
qed

lemma set_prev_next_ok:
  assumes "h_prev h = b" "\<forall>x. b = Some x \<longrightarrow> lnkH hp x \<noteq> None"
  shows "\<exists>hp'. set_prev_next h v hp = Done hp' \<and> links_only hp hp' \<and>
     (lnkH hp', free_list hp') = (case b of Some x \<Rightarrow> (lset_next x v (lnkH hp), free_list hp) | None \<Rightarrow> (lnkH hp, v))"
proof (cases b)
  case None
  with assms(1) show ?thesis by (simp add: set_prev_next_def links_only_def tagH_def lnkH_def fun_eq_iff)
next
  case (Some x)
  then obtain n c where "lnkH hp x = Some (n, c)" using assms(2) by (cases "lnkH hp x") auto
  then obtain hp' ha where "hdrs hp x = Some ha" "upd_header x (\<lambda>x. x\<lparr>h_next := v\<rparr>) hp = Done hp'" "links_only hp hp'"
    "free_list hp' = free_list hp" "lnkH hp' = (lnkH hp)(x \<mapsto> (v, h_prev ha))"
    using upd_links [of hp x n c "\<lambda>x. x\<lparr>h_next := v\<rparr>"] by auto
  moreover from this(1) have "lnkH hp x = Some (h_next ha, h_prev ha)" by (simp add: lnkH_def)
  ultimately show ?thesis using Some assms(1) by (simp add: set_prev_next_def lset_next_def)
qed

lemma set_next_prev_ok:
  assumes "h_next h = n" "\<forall>x. n = Some x \<longrightarrow> lnkH hp x \<noteq> None"
  shows "\<exists>hp'. set_next_prev h v hp = Done hp' \<and> links_only hp hp' \<and> free_list hp' = free_list hp \<and>
     lnkH hp' = (case n of Some x \<Rightarrow> lset_prev x v (lnkH hp) | None \<Rightarrow> lnkH hp)"
proof (cases n)
  case None
  with assms(1) show ?thesis by (simp add: set_next_prev_def links_only_def)
next
  case (Some x)
  then obtain m c where "lnkH hp x = Some (m, c)" using assms(2) by (cases "lnkH hp x") auto
  then obtain hp' ha where "hdrs hp x = Some ha" "upd_header x (\<lambda>x. x\<lparr>h_prev := v\<rparr>) hp = Done hp'" "links_only hp hp'"
    "free_list hp' = free_list hp" "lnkH hp' = (lnkH hp)(x \<mapsto> (h_next ha, v))"
    using upd_links [of hp x m c "\<lambda>x. x\<lparr>h_prev := v\<rparr>"] by auto
  moreover from this(1) have "lnkH hp x = Some (h_next ha, h_prev ha)" by (simp add: lnkH_def)
  ultimately show ?thesis using Some assms(1) by (simp add: set_next_prev_def lset_prev_def)
qed

lemma lset_dom: "lset_next x v L y = None \<longleftrightarrow> L y = None" "lset_prev x v L y = None \<longleftrightarrow> L y = None"
  by (simp_all add: lset_next_def lset_prev_def)

lemma lset_swap: "lset_prev y w (lset_next x v L) = lset_next x v (lset_prev y w L)"
  by (cases "L x"; cases "L y") (auto simp: lset_next_def lset_prev_def fun_eq_iff)

text \<open>Both neighbours of a node are redirected, in either order.\<close>

lemma redirect_ok:
  assumes "h_next h = n" "h_prev h = b" "\<forall>x. n = Some x \<longrightarrow> lnkH hp x \<noteq> None" "\<forall>x. b = Some x \<longrightarrow> lnkH hp x \<noteq> None"
  shows "\<exists>hp'. kbind (set_prev_next h tn hp) (\<lambda>hp1. set_next_prev h tp hp1) = Done hp' \<and> links_only hp hp' \<and>
           redirect n b tn tp (lnkH hp, free_list hp) = (lnkH hp', free_list hp')"
    "\<exists>hp'. kbind (set_next_prev h tp hp) (\<lambda>hp1. set_prev_next h tn hp1) = Done hp' \<and> links_only hp hp' \<and>
           redirect n b tn tp (lnkH hp, free_list hp) = (lnkH hp', free_list hp')"
proof -
  obtain hp1 where 1: "set_prev_next h tn hp = Done hp1" "links_only hp hp1"
    "(lnkH hp1, free_list hp1) = (case b of Some x \<Rightarrow> (lset_next x tn (lnkH hp), free_list hp) | None \<Rightarrow> (lnkH hp, tn))"
    using set_prev_next_ok [OF assms(2,4)] by blast
  have "\<forall>x. n = Some x \<longrightarrow> lnkH hp1 x \<noteq> None" using assms(3) 1(3) by (cases b) (simp_all add: lset_dom del: not_None_eq)
  then obtain hp2 where 2: "set_next_prev h tp hp1 = Done hp2" "links_only hp1 hp2" "free_list hp2 = free_list hp1"
    "lnkH hp2 = (case n of Some x \<Rightarrow> lset_prev x tp (lnkH hp1) | None \<Rightarrow> lnkH hp1)"
    using set_next_prev_ok [OF assms(1)] by blast
  have r: "redirect n b tn tp (lnkH hp, free_list hp) = (lnkH hp2, free_list hp2)"
    using 1(3) 2(3,4) by (auto simp: redirect_def Let_def split: option.splits)
  with 1 2 links_only_trans [OF 1(2) 2(2)]
  show "\<exists>hp'. kbind (set_prev_next h tn hp) (\<lambda>hp1. set_next_prev h tp hp1) = Done hp' \<and> links_only hp hp' \<and>
           redirect n b tn tp (lnkH hp, free_list hp) = (lnkH hp', free_list hp')" by auto
next
  obtain hp1 where 1: "set_next_prev h tp hp = Done hp1" "links_only hp hp1" "free_list hp1 = free_list hp"
    "lnkH hp1 = (case n of Some x \<Rightarrow> lset_prev x tp (lnkH hp) | None \<Rightarrow> lnkH hp)"
    using set_next_prev_ok [OF assms(1,3)] by blast
  have "\<forall>x. b = Some x \<longrightarrow> lnkH hp1 x \<noteq> None" using assms(4) 1(4) by (cases n) (simp_all add: lset_dom del: not_None_eq)
  then obtain hp2 where 2: "set_prev_next h tn hp1 = Done hp2" "links_only hp1 hp2"
    "(lnkH hp2, free_list hp2) = (case b of Some x \<Rightarrow> (lset_next x tn (lnkH hp1), free_list hp1) | None \<Rightarrow> (lnkH hp1, tn))"
    using set_prev_next_ok [OF assms(2)] by blast
  have "redirect n b tn tp (lnkH hp, free_list hp) = (lnkH hp2, free_list hp2)"
    using 1(3,4) 2(3) lset_swap by (auto simp: redirect_def Let_def split: option.splits)
  with 1 2 links_only_trans [OF 1(2) 2(2)]
  show "\<exists>hp'. kbind (set_next_prev h tp hp) (\<lambda>hp1. set_prev_next h tn hp1) = Done hp' \<and> links_only hp hp' \<and>
           redirect n b tn tp (lnkH hp, free_list hp) = (lnkH hp', free_list hp')" by auto
qed

lemma unlink_ok:
  assumes "dlist (lnkH hp) (free_list hp) (us @ x # vs)" "distinct (us @ x # vs)" "hdrs hp x = Some h"
  shows "\<exists>hp'. unlink_block h hp = Done hp' \<and> links_only hp hp' \<and> dlist (lnkH hp') (free_list hp') (us @ vs)"
proof -
  have lx: "lnkH hp x = Some (h_next h, h_prev h)" using assms(3) by (simp add: lnkH_def)
  note nl = node_links [OF assms(1)]
  have "\<forall>y. h_next h = Some y \<longrightarrow> lnkH hp y \<noteq> None" "\<forall>y. h_prev h = Some y \<longrightarrow> lnkH hp y \<noteq> None"
    using nl lx dlist_dom [OF assms(1)] by (auto split: list.splits if_splits)
  from redirect_ok(1) [OF refl refl this, of "h_next h" "h_prev h"] obtain hp' where
    hp': "unlink_block h hp = Done hp'" "links_only hp hp'"
      "redirect (h_next h) (h_prev h) (h_next h) (h_prev h) (lnkH hp, free_list hp) = (lnkH hp', free_list hp')"
    by (auto simp: unlink_block_def)
  from redirect_dlist(1) [OF assms(1,2) lx hp'(3)] hp'(1,2) show ?thesis by blast
qed

lemma set_block_proj:
  assumes "a + sz < two64" "FTR \<le> sz"
  shows "tagH (set_block a sz fr hp) = (tagH hp)(a \<mapsto> (sz, fr))"
    "ftrH (set_block a sz fr hp) = (ftrH hp)(a + sz - 16 \<mapsto> (sz, fr))"
    "lnkH (set_block a sz fr hp) = (if hdrs hp a = None then (lnkH hp)(a \<mapsto> (None, None)) else lnkH hp)"
proof -
  have f: "get_footer a sz = a + sz - 16" using assms by (simp add: get_footer_def)
  show "tagH (set_block a sz fr hp) = (tagH hp)(a \<mapsto> (sz, fr))"
    by (auto simp: set_block_def tagH_def fun_eq_iff split: option.split)
  show "ftrH (set_block a sz fr hp) = (ftrH hp)(a + sz - 16 \<mapsto> (sz, fr))"
    unfolding set_block_def f by (auto simp: ftrH_def fun_eq_iff)
  show "lnkH (set_block a sz fr hp) = (if hdrs hp a = None then (lnkH hp)(a \<mapsto> (None, None)) else lnkH hp)"
    by (cases "hdrs hp a") (auto simp: set_block_def lnkH_def fun_eq_iff)
qed

lemma set_block_frame [simp]:
  "payload (set_block a sz fr hp) = payload hp" "heap_start (set_block a sz fr hp) = heap_start hp"
  "heap_end (set_block a sz fr hp) = heap_end hp" "heap_size (set_block a sz fr hp) = heap_size hp"
  "free_list (set_block a sz fr hp) = free_list hp"
  "total_allocated (set_block a sz fr hp) = total_allocated hp" "total_freed (set_block a sz fr hp) = total_freed hp"
  "heap_initialized (set_block a sz fr hp) = heap_initialized hp"
  by (simp_all add: set_block_def)

text \<open>First fit finds the first free block that is large enough.\<close>

definition fits :: "heap \<Rightarrow> nat \<Rightarrow> nat \<Rightarrow> bool" where
  "fits hp need a \<longleftrightarrow> (\<exists>s. tagH hp a = Some (s, True) \<and> need \<le> s)"

lemma first_fit_ok:
  assumes "dlist (lnkH hp) p fl"
  shows "first_fit (hdrs hp) p need = Some (List.find (fits hp need) fl)"
proof -
  have "dseg (lnkH hp) p b fl None l \<Longrightarrow> first_fit (hdrs hp) p need = Some (List.find (fits hp need) fl)" for b l
  proof (induction fl arbitrary: p b)
    case Nil
    then show ?case by (simp add: first_fit.simps)
  next
    case (Cons x fl)
    then obtain h where h: "hdrs hp x = Some h" "dseg (lnkH hp) (h_next h) (Some x) fl None l" "p = Some x"
      by (auto simp: lnkH_Some)
    have fx: "fits hp need x \<longleftrightarrow> h_free h \<and> need \<le> h_size h" using h(1) by (auto simp: fits_def tagH_def)
    have "first_fit (hdrs hp) p need =
        (if h_free h \<and> need \<le> h_size h then Some (Some x) else first_fit (hdrs hp) (h_next h) need)"
      using h(1,3) by (subst first_fit.simps) simp
    with Cons.IH [OF h(2)] fx show ?case by simp
  qed
  then show ?thesis using assms by (auto simp: dlist_def)
qed

lemma total_block_size_ok:
  assumes "sz + 63 < two64"
  shows "sz + HDR + FTR \<le> total_block_size sz" "16 dvd total_block_size sz" "total_block_size sz < sz + 64"
    "0 < sz \<Longrightarrow> 64 \<le> total_block_size sz"
proof -
  have "add64 sz (HDR + FTR + 15) = sz + 63" using assms by simp
  then have t: "total_block_size sz = (sz + 63) div 16 * 16" by (simp add: total_block_size_def align_down_def)
  have "(sz + 63) div 16 * 16 + (sz + 63) mod 16 = sz + 63" by simp
  moreover have "(sz + 63) mod 16 < 16" by simp
  ultimately show "sz + HDR + FTR \<le> total_block_size sz" "total_block_size sz < sz + 64" unfolding t by linarith+
  show "16 dvd total_block_size sz" by (simp add: t)
  assume "0 < sz"
  then have "4 \<le> (sz + 63) div 16" by simp
  then show "64 \<le> total_block_size sz" unfolding t by linarith
qed

section \<open>Steps on the structure\<close>

definition heap_core :: "heap \<Rightarrow> block list \<Rightarrow> nat list \<Rightarrow> bool" where
  "heap_core hp bs fl \<longleftrightarrow> heap_initialized hp \<and> HDR \<le> heap_start hp \<and> 16 dvd heap_start hp \<and> heap_end hp + 80 < two64 \<and>
     tiled (tagH hp) (ftrH hp) (heap_start hp) bs (heap_end hp) \<and> dlist (lnkH hp) (free_list hp) fl \<and> distinct fl"

lemma heap_rep_core:
  "heap_rep hp bs fl \<longleftrightarrow> heap_core hp bs fl \<and> set fl = free_addrs bs \<and> coalesced bs \<and>
     total_allocated hp = add64 (total_freed hp) (used_bytes bs)"
  by (auto simp: heap_rep_def heap_core_def)

lemma heap_coreD:
  assumes "heap_core hp bs fl"
  shows "heap_initialized hp" "HDR \<le> heap_start hp" "16 dvd heap_start hp" "heap_end hp + 80 < two64"
    "tiled (tagH hp) (ftrH hp) (heap_start hp) bs (heap_end hp)" "dlist (lnkH hp) (free_list hp) fl" "distinct fl"
  using assms by (simp_all add: heap_core_def)

text \<open>The parts of the state the structure does not depend on: nothing else changes.\<close>

definition same_rest :: "heap \<Rightarrow> heap \<Rightarrow> bool" where
  "same_rest hp hp' \<longleftrightarrow> payload hp' = payload hp \<and> heap_start hp' = heap_start hp \<and> heap_end hp' = heap_end hp \<and>
     heap_size hp' = heap_size hp \<and> heap_initialized hp' = heap_initialized hp \<and>
     total_allocated hp' = total_allocated hp \<and> total_freed hp' = total_freed hp"

lemma same_rest_trans [trans]: "same_rest a b \<Longrightarrow> same_rest b c \<Longrightarrow> same_rest a c"
  by (simp add: same_rest_def)

lemma links_only_rest: "links_only hp hp' \<Longrightarrow> same_rest hp hp'"
  by (simp add: same_rest_def links_onlyD)

lemma core_links:
  "heap_core hp bs fl \<Longrightarrow> links_only hp hp' \<Longrightarrow> dlist (lnkH hp') (free_list hp') fl' \<Longrightarrow> distinct fl' \<Longrightarrow> heap_core hp' bs fl'"
  using links_onlyD [of hp hp'] by (simp add: heap_core_def)

lemma core_unlink:
  assumes core: "heap_core hp bs (us @ x # vs)" and h: "hdrs hp x = Some h"
  shows "\<exists>hp'. unlink_block h hp = Done hp' \<and> links_only hp hp' \<and> heap_core hp' bs (us @ vs)"
proof -
  note d = heap_coreD [OF core]
  obtain hp' where hp': "unlink_block h hp = Done hp'" "links_only hp hp'" "dlist (lnkH hp') (free_list hp') (us @ vs)"
    using unlink_ok [OF d(6,7) h] by blast
  moreover have "distinct (us @ vs)" using d(7) by simp
  ultimately show ?thesis using core_links [OF core] by blast
qed

text \<open>Turning the flag of a block, in the header and in the footer.\<close>

lemma upd_free_proj:
  assumes "tagH hp a = Some (s, f)"
  shows "\<exists>hp'. upd_header a (\<lambda>h. h\<lparr>h_free := g\<rparr>) hp = Done hp' \<and> tagH hp' = (tagH hp)(a \<mapsto> (s, g)) \<and> lnkH hp' = lnkH hp \<and>
     ftrs hp' = ftrs hp \<and> free_list hp' = free_list hp \<and> same_rest hp hp'"
proof -
  obtain h where h: "hdrs hp a = Some h" "h_size h = s" using assms by (auto simp: tagH_Some)
  let ?hp = "hp\<lparr>hdrs := (hdrs hp)(a \<mapsto> h\<lparr>h_free := g\<rparr>)\<rparr>"
  have "upd_header a (\<lambda>h. h\<lparr>h_free := g\<rparr>) hp = Done ?hp" using h by (simp add: upd_header_def header_at_def)
  moreover have "tagH ?hp = (tagH hp)(a \<mapsto> (s, g))" "lnkH ?hp = lnkH hp" using h by (auto simp: tagH_def lnkH_def fun_eq_iff)
  ultimately show ?thesis by (intro exI [of _ ?hp]) (simp add: same_rest_def)
qed

lemma set_footer_proj:
  assumes "ftrH hp x = Some (s, f)"
  shows "\<exists>hp'. set_footer_free x g hp = Done hp' \<and> ftrH hp' = (ftrH hp)(x \<mapsto> (s, g)) \<and> hdrs hp' = hdrs hp \<and>
     free_list hp' = free_list hp \<and> same_rest hp hp'"
proof -
  obtain f' where f: "ftrs hp x = Some f'" "f_size f' = s" using assms by (auto simp: ftrH_def)
  let ?hp = "hp\<lparr>ftrs := (ftrs hp)(x \<mapsto> f'\<lparr>f_free := g\<rparr>)\<rparr>"
  have "set_footer_free x g hp = Done ?hp" using f by (simp add: set_footer_free_def)
  moreover have "ftrH ?hp = (ftrH hp)(x \<mapsto> (s, g))" using f by (auto simp: ftrH_def fun_eq_iff)
  ultimately show ?thesis by (intro exI [of _ ?hp]) (simp add: same_rest_def)
qed

lemma proj_cong: "hdrs hp' = hdrs hp \<Longrightarrow> tagH hp' = tagH hp" "hdrs hp' = hdrs hp \<Longrightarrow> lnkH hp' = lnkH hp"
  "ftrs hp' = ftrs hp \<Longrightarrow> ftrH hp' = ftrH hp"
  by (simp_all add: tagH_def lnkH_def ftrH_def fun_eq_iff)

lemma tiled_flag:
  assumes "tiled T F a (xs @ (b, s, f) # ys) e"
  shows "tiled (T(b \<mapsto> (s, g))) (F(b + s - 16 \<mapsto> (s, g))) a (xs @ (b, s, g) # ys) e"
proof -
  note t = tiled_split [OF assms]
  have "tiled (T(b \<mapsto> (s, g))) (F(b + s - 16 \<mapsto> (s, g))) a (xs @ [(b, s, g)] @ ys) e"
    by (rule tiled_subst [of T F _ _ "[(b, s, f)]" _ _ b "b + s"]) (use assms t in auto)
  then show ?thesis by simp
qed

text \<open>Merging a block with the one behind it.\<close>

lemma tiled_merge:
  assumes "tiled T F a (xs @ (b, s, f) # (c, r, g) # ys) e"
  shows "tiled (T(b \<mapsto> (s + r, True))) (F(b + s + r - 16 \<mapsto> (s + r, True))) a (xs @ (b, s + r, True) # ys) e" "c = b + s"
proof -
  note t = tiled_split [OF assms]
  from t(2) show c: "c = b + s" by simp
  from t(2) have u: "64 \<le> r" "16 dvd r" "tiled T F (b + s + r) ys e" "T (b + s) = Some (r, g)" "F (b + s + r - 16) = Some (r, g)" by auto
  have "tiled (T(b \<mapsto> (s + r, True))) (F(b + s + r - 16 \<mapsto> (s + r, True))) a (xs @ [(b, s + r, True)] @ ys) e"
    by (rule tiled_subst [of T F _ _ "[(b, s, f), (c, r, g)]" _ _ b "b + s + r"])
       (use assms t u c in \<open>auto simp: add.assoc\<close>)
  then show "tiled (T(b \<mapsto> (s + r, True))) (F(b + s + r - 16 \<mapsto> (s + r, True))) a (xs @ (b, s + r, True) # ys) e" by simp
qed

text \<open>Splitting a block in two.\<close>

lemma tiled_cut:
  assumes "tiled T F a (xs @ (b, s, f) # ys) e" "64 \<le> n" "16 dvd n" "n + 64 \<le> s"
    "T' = T(b + n \<mapsto> (s - n, True), b \<mapsto> (n, False))" "F' = F(b + s - 16 \<mapsto> (s - n, True), b + n - 16 \<mapsto> (n, False))"
  shows "tiled T' F' a (xs @ (b, n, False) # (b + n, s - n, True) # ys) e"
proof -
  note t = tiled_split [OF assms(1)]
  have "16 dvd s - n" using t(4) assms(3) by (rule dvd_diff_nat)
  then have new: "tiled T' F' b [(b, n, False), (b + n, s - n, True)] (b + s)" using assms(2-6) by auto
  have "tiled T' F' a (xs @ [(b, n, False), (b + n, s - n, True)] @ ys) e"
    by (rule tiled_subst [of T F _ _ "[(b, s, f)]" _ _ b "b + s"]) (use assms t new in auto)
  then show ?thesis by simp
qed

section \<open>Allocation\<close>

text \<open>Both ways of taking a block, from the state in which its header is already marked.\<close>

lemma neighbours_linked:
  assumes "dlist L h (us @ x # vs)" "L x = Some (n, b)"
  shows "\<forall>y. n = Some y \<longrightarrow> L y \<noteq> None \<and> y \<in> set vs" "\<forall>y. b = Some y \<longrightarrow> L y \<noteq> None \<and> y \<in> set us"
  using node_links [OF assms(1)] assms(2) dlist_dom [OF assms(1)] by (auto split: list.splits if_splits)

lemma alloc_split_core:
  assumes core: "heap_core hp (xs @ (a, s, True) # ys) (us @ a # vs)" and nb: "a + need \<notin> set (us @ vs)"
    and need: "64 \<le> need" "16 dvd need" "need + 64 \<le> s"
    and h1: "tagH hp1 = (tagH hp)(a \<mapsto> (s, False))" "lnkH hp1 = lnkH hp" "ftrs hp1 = ftrs hp" "free_list hp1 = free_list hp"
      "same_rest hp hp1" "hdrs hp1 a = Some h"
  shows "\<exists>hp'. alloc_split a h need hp1 = Done hp' \<and> same_rest hp1 hp' \<and>
     heap_core hp' (xs @ (a, need, False) # (a + need, s - need, True) # ys) (us @ (a + need) # vs)"
proof -
  note d = heap_coreD [OF core]
  note t = tiled_split [OF d(5)]
  let ?nb = "a + need"
  have big: "a + s < two64" using t(8) d(4) by simp
  have hs: "h_size h = s" using h1(1,6) by (auto simp: tagH_def dest: fun_cong [of _ _ a])
  have "lnkH hp1 a = Some (h_next h, h_prev h)" using h1(6) by (simp add: lnkH_def)
  then have lx: "lnkH hp a = Some (h_next h, h_prev h)" by (simp add: h1(2))
  note nbr = neighbours_linked [OF d(6) lx]
  have nba: "?nb \<noteq> a" using need(1) by simp
  have addr: "add64 a need = ?nb" "sub64 s need = s - need" using big need(3) by simp_all
  let ?hp2 = "set_block ?nb (s - need) True hp1"
  have e: "?nb + (s - need) = a + s" "?nb + (s - need) < two64" "FTR \<le> s - need" using need(3) big by simp_all
  note p2 = set_block_proj [OF e(2,3), of True hp1]
  have "lnkH ?hp2 ?nb \<noteq> None" unfolding p2(3) by (simp add: proj_None del: not_None_eq)
  then obtain n0 b0 where l2: "lnkH ?hp2 ?nb = Some (n0, b0)" by (cases "lnkH ?hp2 ?nb") auto
  obtain hp3 where 3: "upd_header ?nb (\<lambda>x. x\<lparr>h_next := h_next h, h_prev := h_prev h\<rparr>) ?hp2 = Done hp3" "links_only ?hp2 hp3"
    "free_list hp3 = free_list ?hp2" "lnkH hp3 = (lnkH ?hp2)(?nb \<mapsto> (h_next h, h_prev h))"
    using upd_links [OF l2, of "\<lambda>x. x\<lparr>h_next := h_next h, h_prev := h_prev h\<rparr>"] by auto
  have l3: "lnkH hp3 = (lnkH hp)(?nb \<mapsto> (h_next h, h_prev h))" unfolding 3(4) p2(3) h1(2) by auto
  have out: "h_next h \<noteq> Some ?nb" "h_prev h \<noteq> Some ?nb" using nbr nb by auto
  have dom3: "\<forall>y. h_next h = Some y \<longrightarrow> lnkH hp3 y \<noteq> None" "\<forall>y. h_prev h = Some y \<longrightarrow> lnkH hp3 y \<noteq> None"
    using nbr unfolding l3 by auto
  obtain hp4 where 4: "kbind (set_next_prev h (Some ?nb) hp3) (\<lambda>hp1. set_prev_next h (Some ?nb) hp1) = Done hp4" "links_only hp3 hp4"
    "redirect (h_next h) (h_prev h) (Some ?nb) (Some ?nb) (lnkH hp3, free_list hp3) = (lnkH hp4, free_list hp4)"
    using redirect_ok(2) [OF refl refl dom3] by blast
  obtain L' f' where r: "redirect (h_next h) (h_prev h) (Some ?nb) (Some ?nb) (lnkH hp, free_list hp) = (L', f')" by fastforce
  have fl3: "free_list hp3 = free_list hp" using 3(3) h1(4) by simp
  have l4: "lnkH hp4 = L'(?nb \<mapsto> (h_next h, h_prev h))" "free_list hp4 = f'"
    using redirect_upd [OF out r, of "(h_next h, h_prev h)"] 4(3) fl3 l3 by simp_all
  have dl4: "dlist (lnkH hp4) (free_list hp4) (us @ ?nb # vs)"
    using redirect_dlist(2) [OF d(6,7) lx r nb refl refl] l4 by simp
  let ?hp5 = "set_block a need False hp4"
  have "lnkH hp4 a \<noteq> None" using redirect_dlist(4) [OF d(6,7) lx r] lx nba unfolding l4 by auto
  then have ha4: "hdrs hp4 a \<noteq> None" by (simp add: proj_None)
  have a5: "a + need < two64" "FTR \<le> need" using big need by simp_all
  note p5 = set_block_proj [OF a5, of False hp4]
  have l5: "lnkH ?hp5 = lnkH hp4" using p5(3) ha4 by simp
  then obtain n1 b1 where l5a: "lnkH ?hp5 a = Some (n1, b1)" using \<open>lnkH hp4 a \<noteq> None\<close> by (cases "lnkH hp4 a") auto
  obtain hp6 where 6: "upd_header a (\<lambda>x. x\<lparr>h_next := None, h_prev := None\<rparr>) ?hp5 = Done hp6" "links_only ?hp5 hp6"
    "free_list hp6 = free_list ?hp5" "lnkH hp6 = (lnkH ?hp5)(a \<mapsto> (None, None))"
    using upd_links [OF l5a, of "\<lambda>x. x\<lparr>h_next := None, h_prev := None\<rparr>"] by auto
  have res: "alloc_split a h need hp1 = Done hp6"
    using 3(1) 4(1) 6(1) by (auto simp: alloc_split_def Let_def addr hs kbind_Done_iff)
  have rest: "same_rest hp1 hp6"
    using links_only_rest [OF 3(2)] links_only_rest [OF 4(2)] links_only_rest [OF 6(2)] by (auto simp: same_rest_def)
  have tag6: "tagH hp6 = (tagH hp)(?nb \<mapsto> (s - need, True), a \<mapsto> (need, False))"
    unfolding links_onlyD(1) [OF 6(2)] p5(1) links_onlyD(1) [OF 4(2)] links_onlyD(1) [OF 3(2)] p2(1) h1(1)
    using nba by (auto simp: fun_eq_iff)
  have ftr6: "ftrH hp6 = (ftrH hp)(a + s - 16 \<mapsto> (s - need, True), a + need - 16 \<mapsto> (need, False))"
    unfolding links_onlyD(2) [OF 6(2)] p5(2) links_onlyD(2) [OF 4(2)] links_onlyD(2) [OF 3(2)] p2(2) e(1) proj_cong(3) [OF h1(3)] ..
  have "a \<notin> set (us @ ?nb # vs)" using d(7) nba by auto
  then have "dlist (lnkH hp6) (free_list hp6) (us @ ?nb # vs)"
    using dl4 unfolding 6(3,4) l5 by (subst dlist_cong [of _ _ "lnkH hp4"]) auto
  moreover have "distinct (us @ ?nb # vs)" using d(7) nb by auto
  moreover have "tiled (tagH hp6) (ftrH hp6) (heap_start hp) (xs @ (a, need, False) # (?nb, s - need, True) # ys) (heap_end hp)"
    by (rule tiled_cut [OF d(5) need tag6 ftr6])
  ultimately have "heap_core hp6 (xs @ (a, need, False) # (?nb, s - need, True) # ys) (us @ ?nb # vs)"
    using d(1-4) rest h1(5) by (simp add: heap_core_def same_rest_def)
  with res rest show ?thesis by blast
qed

lemma alloc_whole_core:
  assumes core: "heap_core hp (xs @ (a, s, True) # ys) (us @ a # vs)"
    and h1: "tagH hp1 = (tagH hp)(a \<mapsto> (s, False))" "lnkH hp1 = lnkH hp" "ftrs hp1 = ftrs hp" "free_list hp1 = free_list hp"
      "same_rest hp hp1" "hdrs hp1 a = Some h"
  shows "\<exists>hp'. alloc_whole a h hp1 = Done hp' \<and> same_rest hp1 hp' \<and> heap_core hp' (xs @ (a, s, False) # ys) (us @ vs)"
proof -
  note d = heap_coreD [OF core]
  note t = tiled_split [OF d(5)]
  have hs: "h_size h = s" using h1(1,6) by (auto simp: tagH_def dest: fun_cong [of _ _ a])
  obtain hp2 where 2: "unlink_block h hp1 = Done hp2" "links_only hp1 hp2" "dlist (lnkH hp2) (free_list hp2) (us @ vs)"
    using unlink_ok [of hp1 us a vs h] d(6,7) h1(2,4,6) by auto
  have f: "get_footer a s = a + s - 16" using t(3,8) d(4) by (simp add: get_footer_def)
  have ftr2: "ftrH hp2 = ftrH hp" using links_onlyD(2) [OF 2(2)] proj_cong(3) [OF h1(3)] by simp
  then have "ftrH hp2 (a + s - 16) = Some (s, True)" using t(6) by simp
  then obtain hp3 where 3: "set_footer_free (a + s - 16) False hp2 = Done hp3" "ftrH hp3 = (ftrH hp2)(a + s - 16 \<mapsto> (s, False))"
    "hdrs hp3 = hdrs hp2" "free_list hp3 = free_list hp2" "same_rest hp2 hp3"
    using set_footer_proj by blast
  have "alloc_whole a h hp1 = Done hp3"
    using 2(1) 3(1) f hs by (auto simp: alloc_whole_def unlink_block_def kbind_Done_iff)
  moreover have rest: "same_rest hp1 hp3" using links_only_rest [OF 2(2)] 3(5) by (rule same_rest_trans)
  moreover have "tagH hp3 = (tagH hp)(a \<mapsto> (s, False))" "ftrH hp3 = (ftrH hp)(a + s - 16 \<mapsto> (s, False))"
    using proj_cong(1) [OF 3(3)] links_onlyD(1) [OF 2(2)] h1(1) 3(2) ftr2 by simp_all
  then have "tiled (tagH hp3) (ftrH hp3) (heap_start hp) (xs @ (a, s, False) # ys) (heap_end hp)"
    using tiled_flag [OF d(5)] by simp
  moreover have "dlist (lnkH hp3) (free_list hp3) (us @ vs)" using 2(3) proj_cong(2) [OF 3(3)] 3(4) by simp
  ultimately show ?thesis using d(1-4,7) rest h1(5) by (auto simp: heap_core_def same_rest_def)
qed

lemma add64_assoc: "add64 (add64 a b) c = add64 a (b + c)"
  by (simp add: add64_def mod_add_left_eq add.assoc)

lemma inside_not_block:
  assumes "tiled T F lo (xs @ (a, s, f) # ys) hi" "a < x" "x < a + s"
  shows "x \<notin> fst ` set (xs @ (a, s, f) # ys)"
proof
  assume "x \<in> fst ` set (xs @ (a, s, f) # ys)"
  then obtain b where "b \<in> set (xs @ (a, s, f) # ys)" "x = fst b" by blast
  then obtain r g where "(x, r, g) \<in> set (xs @ (a, s, f) # ys)" using prod.collapse by metis
  with tiled_disjoint [OF assms(1), of a s f x r g] tiled_block [OF assms(1), of x r g] assms(2,3) show False by fastforce
qed

definition cut :: "nat \<Rightarrow> nat \<Rightarrow> nat \<Rightarrow> block list" where
  "cut need a s = (if need + 80 < s then [(a, need, False), (a + need, s - need, True)] else [(a, s, False)])"

lemma alloc_take_rep:
  assumes rep: "heap_rep hp (xs @ (a, s, True) # ys) fl" and sz: "0 < sz" "sz + 63 < two64"
    and need: "need = total_block_size sz" "need \<le> s" and found: "List.find (fits hp need) fl = Some a"
  shows "\<exists>hp' fl'. alloc hs hz sz hp = Done (Some (a + HDR), hp') \<and> heap_rep hp' (xs @ cut need a s @ ys) fl' \<and>
     payload hp' = (\<lambda>x. if a + HDR \<le> x \<and> x < a + HDR + sz then 0 else payload hp x) \<and>
     heap_start hp' = heap_start hp \<and> heap_end hp' = heap_end hp \<and> heap_size hp' = heap_size hp"
proof -
  have core: "heap_core hp (xs @ (a, s, True) # ys) fl" using rep by (simp add: heap_rep_core)
  note d = heap_repD [OF rep]
  note t = tiled_split [OF d(5)]
  note n = total_block_size_ok [OF sz(2), folded need(1)]
  have n64: "64 \<le> need" using n(4) sz(1) by simp
  have "a \<in> set fl" using d(8) by simp
  then obtain us vs where fl: "fl = us @ a # vs" by (auto dest: split_list)
  have fa: "set (us @ vs) = free_addrs xs \<union> free_addrs ys"
  proof -
    have "a \<notin> free_addrs xs \<union> free_addrs ys"
      using tiled_addrs_distinct [OF d(5)] by (force simp: free_addrs_def)
    moreover have "a \<notin> set (us @ vs)" using d(7) fl by auto
    moreover have "insert a (set (us @ vs)) = insert a (free_addrs xs \<union> free_addrs ys)" using d(8) fl by auto
    ultimately show ?thesis by (metis insert_ident)
  qed
  have init: "alloc_init hs hz hp = Done hp" using d(1) by (simp add: alloc_init_def)
  have ff: "first_fit (hdrs hp) (free_list hp) need = Some (Some a)" using first_fit_ok [OF d(6), of need] found by simp
  obtain hp1 where 1: "upd_header a (\<lambda>h. h\<lparr>h_free := False\<rparr>) hp = Done hp1" "tagH hp1 = (tagH hp)(a \<mapsto> (s, False))"
    "lnkH hp1 = lnkH hp" "ftrs hp1 = ftrs hp" "free_list hp1 = free_list hp" "same_rest hp hp1"
    using upd_free_proj [OF t(5)] by blast
  have "tagH hp1 a = Some (s, False)" using 1(2) by simp
  then obtain h where h: "hdrs hp1 a = Some h" "h_size h = s" by (auto simp: tagH_Some)
  have wrap: "add64 need (HDR + FTR + 32) = need + 80" using t(8) d(4) need(2) by simp
  obtain hp2 fl' where 2: "(if need + 80 < s then alloc_split a h need hp1 else alloc_whole a h hp1) = Done hp2" "same_rest hp1 hp2"
    "heap_core hp2 (xs @ cut need a s @ ys) fl'" "set fl' = free_addrs (xs @ cut need a s @ ys)"
  proof (cases "need + 80 < s")
    case True
    have "a + need \<notin> fst ` set (xs @ (a, s, True) # ys)" by (rule inside_not_block [OF d(5)]) (use n64 True in auto)
    then have nb: "a + need \<notin> set (us @ vs)" unfolding fa by (force simp: free_addrs_def)
    have "need + 64 \<le> s" using True by simp
    from alloc_split_core [OF core [unfolded fl] nb n64 n(2) this 1(2-6) h(1)] obtain hp2 where
      "alloc_split a h need hp1 = Done hp2" "same_rest hp1 hp2"
      "heap_core hp2 (xs @ (a, need, False) # (a + need, s - need, True) # ys) (us @ (a + need) # vs)" by blast
    moreover have "set (us @ (a + need) # vs) = free_addrs (xs @ cut need a s @ ys)"
      using fa True by (auto simp: cut_def)
    ultimately show ?thesis using that True by (simp add: cut_def)
  next
    case False
    from alloc_whole_core [OF core [unfolded fl] 1(2-6) h(1)] obtain hp2 where
      "alloc_whole a h hp1 = Done hp2" "same_rest hp1 hp2" "heap_core hp2 (xs @ (a, s, False) # ys) (us @ vs)" by blast
    moreover have "set (us @ vs) = free_addrs (xs @ cut need a s @ ys)" using fa False by (auto simp: cut_def)
    ultimately show ?thesis using that False by (simp add: cut_def)
  qed
  define r where "r = (if need + 80 < s then need else s)"
  have r: "need \<le> r" "used_bytes (xs @ cut need a s @ ys) = used_bytes (xs @ (a, s, True) # ys) + r"
    using need(2) by (auto simp: r_def cut_def)
  have "(a, r, False) \<in> set (xs @ cut need a s @ ys)" by (auto simp: cut_def r_def)
  from tiled_block [OF heap_coreD(5) [OF 2(3)] this] obtain h2 where h2: "hdrs hp2 a = Some h2" "h_size h2 = r"
    by (auto simp: tagH_Some)
  let ?hp3 = "hp2\<lparr>total_allocated := add64 (total_allocated hp2) r\<rparr>"
  let ?hp4 = "?hp3\<lparr>payload := (\<lambda>x. if a + HDR \<le> x \<and> x < a + HDR + sz then 0 else payload hp2 x)\<rparr>"
  have z: "zero_payload a sz ?hp3 = Done ?hp4" using h2 n(1) r(1) by (simp add: zero_payload_def header_at_def cong: if_cong)
  have "add64 a HDR = a + HDR" using t(3,8) d(4) by simp
  then have res: "alloc hs hz sz hp = Done (Some (a + HDR), ?hp4)"
    using init sz(1) ff 1(1) h 2(1) h2 z wrap by (simp add: alloc_def Let_def need(1) [symmetric] header_at_def)
  have "tagH ?hp4 = tagH hp2" "ftrH ?hp4 = ftrH hp2" "lnkH ?hp4 = lnkH hp2" by (simp_all add: tagH_def ftrH_def lnkH_def fun_eq_iff)
  then have "heap_core ?hp4 (xs @ cut need a s @ ys) fl'" using 2(3) by (simp add: heap_core_def)
  moreover have "coalesced (xs @ cut need a s @ ys)"
    using d(9) unfolding cut_def by (auto simp: coalesced_split coalesced_Cons)
  moreover have "total_allocated ?hp4 = add64 (total_freed ?hp4) (used_bytes (xs @ cut need a s @ ys))"
    using d(10) 1(6) 2(2) unfolding r(2) by (simp add: same_rest_def add64_assoc)
  ultimately have "heap_rep ?hp4 (xs @ cut need a s @ ys) fl'" using 2(4) by (simp add: heap_rep_core)
  moreover have "payload ?hp4 = (\<lambda>x. if a + HDR \<le> x \<and> x < a + HDR + sz then 0 else payload hp x)"
    "heap_start ?hp4 = heap_start hp" "heap_end ?hp4 = heap_end hp" "heap_size ?hp4 = heap_size hp"
    using 1(6) 2(2) by (simp_all add: same_rest_def cong: if_cong)
  ultimately show ?thesis using res by blast
qed

lemma alloc_rep:
  assumes rep: "heap_rep hp bs fl" and sz: "0 < sz" "sz + 63 < two64"
  shows "((\<forall>a s. (a, s, True) \<in> set bs \<longrightarrow> s < total_block_size sz) \<and> alloc hs hz sz hp = Done (None, hp)) \<or>
     (\<exists>xs a s ys hp' fl'. bs = xs @ (a, s, True) # ys \<and> total_block_size sz \<le> s \<and>
        alloc hs hz sz hp = Done (Some (a + HDR), hp') \<and> heap_rep hp' (xs @ cut (total_block_size sz) a s @ ys) fl' \<and>
        payload hp' = (\<lambda>x. if a + HDR \<le> x \<and> x < a + HDR + sz then 0 else payload hp x) \<and>
        heap_start hp' = heap_start hp \<and> heap_end hp' = heap_end hp \<and> heap_size hp' = heap_size hp)"
proof (cases "List.find (fits hp (total_block_size sz)) fl")
  case None
  note d = heap_repD [OF rep]
  have "s < total_block_size sz" if "(a, s, True) \<in> set bs" for a s
  proof -
    have "a \<in> set fl" using that d(8) by (auto simp: free_addrs_def)
    moreover have "tagH hp a = Some (s, True)" using tiled_block [OF d(5) that] by blast
    ultimately show ?thesis using None by (force simp: find_None_iff fits_def)
  qed
  moreover have "alloc hs hz sz hp = Done (None, hp)"
    using d(1) sz(1) first_fit_ok [OF d(6), of "total_block_size sz"] None by (simp add: alloc_def alloc_init_def Let_def)
  ultimately show ?thesis by blast
next
  case (Some a)
  note d = heap_repD [OF rep]
  from Some have "a \<in> set fl" "fits hp (total_block_size sz) a" by (auto simp: find_Some_iff)
  then obtain s where s: "(a, s, True) \<in> set bs" using d(8) by (auto simp: free_addrs_def)
  then have "tagH hp a = Some (s, True)" using tiled_block [OF d(5)] by blast
  with \<open>fits hp _ a\<close> have le: "total_block_size sz \<le> s" by (auto simp: fits_def)
  obtain xs ys where bs: "bs = xs @ (a, s, True) # ys" using s by (auto dest: split_list)
  from alloc_take_rep [OF rep [unfolded bs] sz refl le Some, of hs hz] bs le show ?thesis by blast
qed

section \<open>Freeing\<close>

lemma header_tag: "tagH hp a = Some (s, f) \<Longrightarrow> \<exists>h. header_at a hp = Done h \<and> hdrs hp a = Some h \<and> h_size h = s \<and> h_free h = f"
  by (auto simp: header_at_def tagH_Some)

text \<open>Merging two neighbours of which the caller has unlinked those that were in the free list.\<close>

lemma set_block_merge:
  assumes core: "heap_core hp (xs @ (a, s, f) # (c, r, g) # ys) fl" and h: "hdrs hp a \<noteq> None"
  shows "heap_core (set_block a (s + r) True hp) (xs @ (a, s + r, True) # ys) fl \<and> same_rest hp (set_block a (s + r) True hp)"
proof -
  note d = heap_coreD [OF core]
  note t = tiled_merge [OF d(5)]
  have b: "a + (s + r) \<le> heap_end hp" "FTR \<le> s + r"
    using tiled_split(8,3) [OF t(1)] by (simp_all add: add.assoc)
  then have "a + (s + r) < two64" using d(4) by simp
  note p = set_block_proj [OF this b(2), of True hp]
  show ?thesis using d t(1) p h by (simp add: heap_core_def same_rest_def add.assoc)
qed

definition fwd_size :: "nat \<Rightarrow> block list \<Rightarrow> nat" where
  "fwd_size s ys = (case ys of (c, r, True) # zs \<Rightarrow> s + r | _ \<Rightarrow> s)"

definition fwd_rest :: "block list \<Rightarrow> block list" where
  "fwd_rest ys = (case ys of (c, r, True) # zs \<Rightarrow> zs | _ \<Rightarrow> ys)"

lemma heap_core_cong:
  "heap_core hp bs fl \<Longrightarrow> hdrs hp' = hdrs hp \<Longrightarrow> ftrs hp' = ftrs hp \<Longrightarrow> free_list hp' = free_list hp \<Longrightarrow>
   heap_start hp' = heap_start hp \<Longrightarrow> heap_end hp' = heap_end hp \<Longrightarrow> heap_initialized hp' = heap_initialized hp \<Longrightarrow> heap_core hp' bs fl"
  using proj_cong [of hp' hp] by (simp add: heap_core_def)

lemma coalesce_forward_core:
  assumes core: "heap_core hp (xs @ (a, s, True) # ys) fl" and fl: "a \<notin> set fl" "set fl = free_addrs xs \<union> free_addrs ys"
  shows "\<exists>hp' fl'. coalesce_forward a hp = Done hp' \<and> same_rest hp hp' \<and>
     heap_core hp' (xs @ (a, fwd_size s ys, True) # fwd_rest ys) fl' \<and> a \<notin> set fl' \<and> set fl' = free_addrs xs \<union> free_addrs (fwd_rest ys)"
proof -
  note d = heap_coreD [OF core]
  note t = tiled_split [OF d(5)]
  obtain h where h: "header_at a hp = Done h" "hdrs hp a = Some h" "h_size h = s" using header_tag [OF t(5)] by blast
  have nb: "add64 a s = a + s" using t(8) d(4) by simp
  show ?thesis
  proof (cases ys)
    case Nil
    then have "heap_end hp = a + s" using t(2) by simp
    then have "coalesce_forward a hp = Done hp" using h nb by (simp add: coalesce_forward_def get_next_block_def Let_def)
    with core fl Nil show ?thesis by (auto simp: fwd_size_def fwd_rest_def same_rest_def)
  next
    case (Cons y zs)
    obtain c r g where y: "y = (c, r, g)" by (cases y)
    from t(2) Cons y have u: "c = a + s" "64 \<le> r" "tagH hp (a + s) = Some (r, g)" "tiled (tagH hp) (ftrH hp) (a + s + r) zs (heap_end hp)" by auto
    have "a + s < heap_end hp" using tiled_le [OF u(4)] u(2) by simp
    then have nx: "get_next_block a s hp = Some (a + s)" by (simp add: get_next_block_def Let_def nb)
    obtain nh where nh: "header_at (a + s) hp = Done nh" "hdrs hp (a + s) = Some nh" "h_size nh = r" "h_free nh = g"
      using header_tag [OF u(3)] by blast
    show ?thesis
    proof (cases g)
      case False
      then have "coalesce_forward a hp = Done hp" using h nx nh by (simp add: coalesce_forward_def)
      with core fl Cons y False show ?thesis by (auto simp: fwd_size_def fwd_rest_def same_rest_def)
    next
      case True
      have "c \<in> set fl" using fl(2) Cons y True by simp
      then obtain us vs where f: "fl = us @ c # vs" by (auto dest: split_list)
      obtain hp1 where 1: "unlink_block nh hp = Done hp1" "links_only hp hp1" "heap_core hp1 (xs @ (a, s, True) # ys) (us @ vs)"
        using core_unlink [OF core [unfolded f], of nh] nh(2) u(1) by auto
      have tags1: "tagH hp1 = tagH hp" by (rule links_onlyD(1) [OF 1(2)])
      obtain h1 where h1: "header_at a hp1 = Done h1" "hdrs hp1 a = Some h1" "h_size h1 = s"
        using header_tag [of hp1 a s True] t(5) tags1 by auto
      obtain nh1 where nh1: "header_at (a + s) hp1 = Done nh1" "h_size nh1 = r"
        using header_tag [of hp1 "a + s" r g] u(3) tags1 by auto
      have "s + r < two64" using tiled_le [OF u(4)] d(4) by simp
      then have sum: "add64 s r = s + r" by simp
      let ?hp2 = "set_block a (s + r) True hp1"
      let ?hp3 = "?hp2\<lparr>coalesce_forward_count := add64 (coalesce_forward_count ?hp2) 1\<rparr>"
      have m: "heap_core ?hp2 (xs @ (a, s + r, True) # zs) (us @ vs)" "same_rest hp1 ?hp2"
        using set_block_merge [of hp1 xs a s True c r g zs "us @ vs"] 1(3) h1(2) Cons y by auto
      have "coalesce_forward a hp = Done ?hp3"
        using h nx nh True 1(1) h1 nh1 sum by (simp add: coalesce_forward_def Let_def)
      moreover have "heap_core ?hp3 (xs @ (a, s + r, True) # zs) (us @ vs)" by (rule heap_core_cong [OF m(1)]) simp_all
      moreover have "same_rest hp ?hp3" using links_only_rest [OF 1(2)] m(2) by (simp add: same_rest_def)
      moreover have "set (us @ vs) = free_addrs xs \<union> free_addrs zs"
      proof -
        have "c \<notin> set (us @ vs)" using d(7) f by auto
        moreover have "c \<notin> fst ` set xs \<union> fst ` set zs" using tiled_addrs_distinct [OF d(5)] Cons y by auto
        then have "c \<notin> free_addrs xs \<union> free_addrs zs" using free_addrs_fst by blast
        moreover have "insert c (set (us @ vs)) = insert c (free_addrs xs \<union> free_addrs zs)" using fl(2) f Cons y True by auto
        ultimately show ?thesis by (metis insert_ident)
      qed
      moreover have "a \<notin> set (us @ vs)" using fl(1) f by auto
      ultimately show ?thesis using Cons y True
        by (intro exI [of _ ?hp3] exI [of _ "us @ vs"]) (simp add: fwd_size_def fwd_rest_def)
    qed
  qed
qed

text \<open>The block before, its size added: the address, size and remaining blocks in front.\<close>

definition bwd :: "block list \<Rightarrow> nat \<Rightarrow> nat \<Rightarrow> block list \<times> nat \<times> nat" where
  "bwd xs a s = (if xs \<noteq> [] \<and> snd (snd (last xs)) then (butlast xs, fst (last xs), fst (snd (last xs)) + s) else (xs, a, s))"

lemma coalesce_backward_core:
  assumes core: "heap_core hp (xs @ (a, s, True) # ys) fl" and fl: "a \<notin> set fl" "set fl = free_addrs xs \<union> free_addrs ys"
    and b: "bwd xs a s = (xs', a', s')"
  shows "\<exists>hp' fl'. coalesce_backward a hp = Done (a', hp') \<and> same_rest hp hp' \<and>
     heap_core hp' (xs' @ (a', s', True) # ys) fl' \<and> a' \<notin> set fl' \<and> set fl' = free_addrs xs' \<union> free_addrs ys"
proof -
  note d = heap_coreD [OF core]
  note t = tiled_split [OF d(5)]
  show ?thesis
  proof (cases xs rule: rev_cases)
    case Nil
    then have "a = heap_start hp" using t(1) by simp
    then have "coalesce_backward a hp = Done (a, hp)" by (simp add: coalesce_backward_def get_prev_block_def)
    with core fl Nil b show ?thesis by (auto simp: bwd_def same_rest_def)
  next
    case (snoc zs z)
    obtain p r g where z: "z = (p, r, g)" by (cases z)
    have all: "xs @ (a, s, True) # ys = zs @ (p, r, g) # (a, s, True) # ys" using snoc z by simp
    have pm: "a = p + r" using tiled_merge(2) [OF d(5) [unfolded all]] .
    note u = tiled_split [OF d(5) [unfolded all]]
    have "ftrH hp (a - 16) = Some (r, g)" using u(6) pm by simp
    then have f: "ftrs hp (a - 16) = Some \<lparr>f_size = r, f_free = g\<rparr>" by (simp add: ftrH_Some)
    have lt: "heap_start hp < a" "16 \<le> a" "heap_start hp \<le> a - 16" "a < two64" using u(3,7,8) pm d(4) by auto
    have gp: "get_prev_block a hp = Done (Some p)"
      using lt f pm by (simp add: get_prev_block_def Let_def get_header_from_footer_def)
    obtain ph where ph: "header_at p hp = Done ph" "hdrs hp p = Some ph" "h_free ph = g" using header_tag [OF u(5)] by blast
    show ?thesis
    proof (cases g)
      case False
      then have "coalesce_backward a hp = Done (a, hp)" using gp ph by (simp add: coalesce_backward_def)
      with core fl b snoc z False show ?thesis by (auto simp: bwd_def same_rest_def)
    next
      case True
      have b': "xs' = zs" "a' = p" "s' = r + s" using b snoc z True by (auto simp: bwd_def)
      have "p \<in> set fl" using fl(2) snoc z True by simp
      then obtain us vs where fe: "fl = us @ p # vs" by (auto dest: split_list)
      obtain hp1 where 1: "unlink_block ph hp = Done hp1" "links_only hp hp1"
        "heap_core hp1 (zs @ (p, r, g) # (a, s, True) # ys) (us @ vs)"
        using core_unlink [OF core [unfolded fe all] ph(2)] by blast
      have tags1: "tagH hp1 = tagH hp" by (rule links_onlyD(1) [OF 1(2)])
      obtain ph1 where ph1: "header_at p hp1 = Done ph1" "hdrs hp1 p = Some ph1" "h_size ph1 = r"
        using header_tag [of hp1 p r g] u(5) tags1 by auto
      obtain h1 where h1: "header_at a hp1 = Done h1" "h_size h1 = s" using header_tag [of hp1 a s True] t(5) tags1 by auto
      have "r + s < two64" using t(8) d(4) pm by simp
      then have sum: "add64 r s = r + s" by simp
      let ?hp2 = "set_block p (r + s) True hp1"
      let ?hp3 = "?hp2\<lparr>coalesce_backward_count := add64 (coalesce_backward_count ?hp2) 1\<rparr>"
      have m: "heap_core ?hp2 (zs @ (p, r + s, True) # ys) (us @ vs)" "same_rest hp1 ?hp2"
        using set_block_merge [OF 1(3)] ph1(2) by auto
      have "coalesce_backward a hp = Done (p, ?hp3)"
        using gp ph True 1(1) ph1 h1 sum by (simp add: coalesce_backward_def Let_def)
      moreover have "heap_core ?hp3 (zs @ (p, r + s, True) # ys) (us @ vs)" by (rule heap_core_cong [OF m(1)]) simp_all
      moreover have "same_rest hp ?hp3" using links_only_rest [OF 1(2)] m(2) by (simp add: same_rest_def)
      moreover have p: "p \<notin> set (us @ vs)" using d(7) fe by auto
      moreover have "set (us @ vs) = free_addrs zs \<union> free_addrs ys"
      proof -
        have "p \<notin> fst ` set zs \<union> fst ` set ys" using tiled_addrs_distinct [OF d(5)] snoc z by auto
        then have "p \<notin> free_addrs zs \<union> free_addrs ys" using free_addrs_fst by blast
        moreover have "insert p (set (us @ vs)) = insert p (free_addrs zs \<union> free_addrs ys)" using fl(2) fe snoc z True by auto
        ultimately show ?thesis using p by (metis insert_ident)
      qed
      ultimately show ?thesis unfolding b' by blast
    qed
  qed
qed

lemma insert_free_core:
  assumes core: "heap_core hp bs fl" and a: "a \<notin> set fl" "hdrs hp a \<noteq> None"
  shows "\<exists>hp'. insert_free a hp = Done hp' \<and> same_rest hp hp' \<and> heap_core hp' bs (a # fl)"
proof -
  note d = heap_coreD [OF core]
  obtain n b where l: "lnkH hp a = Some (n, b)" using a(2) by (cases "lnkH hp a") (auto simp: proj_None)
  obtain hp1 where 1: "upd_header a (\<lambda>h. h\<lparr>h_next := free_list hp, h_prev := None\<rparr>) hp = Done hp1" "links_only hp hp1"
    "free_list hp1 = free_list hp" "lnkH hp1 = (lnkH hp)(a \<mapsto> (free_list hp, None))"
    using upd_links [OF l, of "\<lambda>h. h\<lparr>h_next := free_list hp, h_prev := None\<rparr>"] by auto
  have head: "\<forall>x. free_list hp = Some x \<longrightarrow> x \<in> set fl" using dlist_head [OF d(6)] by (auto split: list.splits)
  obtain hp2 where 2: "(case free_list hp1 of Some x \<Rightarrow> upd_header x (\<lambda>h. h\<lparr>h_prev := Some a\<rparr>) hp1 | None \<Rightarrow> Done hp1) = Done hp2"
    "links_only hp1 hp2" "lnkH hp2 = (case free_list hp of Some x \<Rightarrow> lset_prev x (Some a) (lnkH hp) | None \<Rightarrow> lnkH hp)(a \<mapsto> (free_list hp, None))"
  proof (cases "free_list hp")
    case None
    with that [of hp1] 1 show ?thesis by (simp add: links_only_def)
  next
    case (Some x)
    have xa: "x \<noteq> a" using head Some a(1) by blast
    have "lnkH hp1 x \<noteq> None" using dlist_dom [OF d(6)] head Some unfolding 1(4) by auto
    then obtain n' b' where l1: "lnkH hp1 x = Some (n', b')" by (cases "lnkH hp1 x") auto
    obtain hp2 hx where 2: "hdrs hp1 x = Some hx" "upd_header x (\<lambda>h. h\<lparr>h_prev := Some a\<rparr>) hp1 = Done hp2" "links_only hp1 hp2"
      "lnkH hp2 = (lnkH hp1)(x \<mapsto> (h_next hx, Some a))"
      using upd_links [OF l1, of "\<lambda>h. h\<lparr>h_prev := Some a\<rparr>"] by auto
    have "lnkH hp1 x = Some (h_next hx, h_prev hx)" using 2(1) by (simp add: lnkH_def)
    then have "lnkH hp x = Some (h_next hx, h_prev hx)" using 1(4) xa by simp
    then have "lnkH hp2 = (lset_prev x (Some a) (lnkH hp))(a \<mapsto> (free_list hp, None))"
      unfolding 2(4) 1(4) lset_prev_def using xa by (simp add: fun_upd_twist)
    with that [of hp2] 2(2,3) 1(3) Some show ?thesis by simp
  qed
  let ?hp3 = "hp2\<lparr>free_list := Some a\<rparr>"
  have l3: "lnkH ?hp3 = lnkH hp2" by (simp add: lnkH_def fun_eq_iff)
  have "dlist (lnkH ?hp3) (free_list ?hp3) (a # fl)"
    using dlist_push [OF d(6) a(1) d(7)] unfolding l3 2(3) by simp
  moreover have lo: "links_only hp ?hp3"
    using links_only_trans [OF 1(2) 2(2)] by (cases hp; cases hp2) (simp add: links_only_def tagH_def fun_eq_iff)
  ultimately have "heap_core ?hp3 bs (a # fl)" using core_links [OF core lo] d(7) a(1) by simp
  moreover have "insert_free a hp = Done ?hp3" using 1(1) 2(1) by (simp add: insert_free_def)
  ultimately show ?thesis using links_only_rest [OF lo] by blast
qed

lemma core_mark_free:
  assumes core: "heap_core hp (xs @ (a, s, f) # ys) fl"
  shows "\<exists>hp1 hp2. upd_header a (\<lambda>x. x\<lparr>h_free := g\<rparr>) hp = Done hp1 \<and> set_footer_free (get_footer a s) g hp1 = Done hp2 \<and>
     same_rest hp hp2 \<and> heap_core hp2 (xs @ (a, s, g) # ys) fl"
proof -
  note d = heap_coreD [OF core]
  note t = tiled_split [OF d(5)]
  obtain hp1 where 1: "upd_header a (\<lambda>h. h\<lparr>h_free := g\<rparr>) hp = Done hp1" "tagH hp1 = (tagH hp)(a \<mapsto> (s, g))"
    "lnkH hp1 = lnkH hp" "ftrs hp1 = ftrs hp" "free_list hp1 = free_list hp" "same_rest hp hp1"
    using upd_free_proj [OF t(5)] by blast
  have f: "get_footer a s = a + s - 16" using t(3,8) d(4) by (simp add: get_footer_def)
  have "ftrH hp1 (a + s - 16) = Some (s, f)" using t(6) proj_cong(3) [OF 1(4)] by simp
  then obtain hp2 where 2: "set_footer_free (a + s - 16) g hp1 = Done hp2" "ftrH hp2 = (ftrH hp1)(a + s - 16 \<mapsto> (s, g))"
    "hdrs hp2 = hdrs hp1" "free_list hp2 = free_list hp1" "same_rest hp1 hp2" using set_footer_proj by blast
  have rest: "same_rest hp hp2" using 1(6) 2(5) by (rule same_rest_trans)
  have "tiled (tagH hp2) (ftrH hp2) (heap_start hp) (xs @ (a, s, g) # ys) (heap_end hp)"
    using tiled_flag [OF d(5), of g] proj_cong(1) [OF 2(3)] 1(2) 2(2) proj_cong(3) [OF 1(4)] by simp
  moreover have "dlist (lnkH hp2) (free_list hp2) fl" using d(6) proj_cong(2) [OF 2(3)] 1(3,5) 2(4) by simp
  ultimately have "heap_core hp2 (xs @ (a, s, g) # ys) fl" using d(1-4,7) rest by (simp add: heap_core_def same_rest_def)
  with 1(1) 2(1) f rest show ?thesis by auto
qed

lemma fwd_facts:
  "used_bytes (fwd_rest ys) = used_bytes ys" "coalesced ys \<Longrightarrow> coalesced (fwd_rest ys)"
  "coalesced ys \<Longrightarrow> fwd_rest ys = [] \<or> \<not> snd (snd (hd (fwd_rest ys)))"
  "(b, r, False) \<in> set (fwd_rest ys) \<longleftrightarrow> (b, r, False) \<in> set ys"
  by (auto simp: fwd_rest_def coalesced_Cons split: list.splits bool.splits prod.splits)

lemma bwd_facts:
  assumes "bwd xs a s = (xs', a', s')" "coalesced xs"
  shows "used_bytes xs' = used_bytes xs" "coalesced xs'" "xs' = [] \<or> \<not> snd (snd (last xs'))"
    "(b, r, False) \<in> set xs' \<longleftrightarrow> (b, r, False) \<in> set xs"
proof -
  consider (Nil) "xs = []" | (Keep) zs p q where "xs = zs @ [(p, q, False)]" | (Join) zs p q where "xs = zs @ [(p, q, True)]"
  proof (cases xs rule: rev_cases)
    case (snoc zs z)
    then show ?thesis using that(2,3) by (cases z; cases "snd (snd z)") auto
  qed (rule that(1))
  then have "used_bytes xs' = used_bytes xs \<and> coalesced xs' \<and> (xs' = [] \<or> \<not> snd (snd (last xs'))) \<and>
    ((b, r, False) \<in> set xs' \<longleftrightarrow> (b, r, False) \<in> set xs)"
    using assms by cases (auto simp: bwd_def coalesced_split)
  then show "used_bytes xs' = used_bytes xs" "coalesced xs'" "xs' = [] \<or> \<not> snd (snd (last xs'))"
    "(b, r, False) \<in> set xs' \<longleftrightarrow> (b, r, False) \<in> set xs" by blast+
qed

lemma alloc_free_rep:
  assumes rep: "heap_rep hp (xs @ (a, s, False) # ys) fl" and b: "bwd xs a (fwd_size s ys) = (xs', a', s')"
  shows "\<exists>hp' fl'. alloc_free (Some (a + HDR)) hp = Done hp' \<and> heap_rep hp' (xs' @ (a', s', True) # fwd_rest ys) fl' \<and>
     payload hp' = payload hp \<and> heap_start hp' = heap_start hp \<and> heap_end hp' = heap_end hp \<and> heap_size hp' = heap_size hp"
proof -
  have core: "heap_core hp (xs @ (a, s, False) # ys) fl" using rep by (simp add: heap_rep_core)
  note d = heap_repD [OF rep]
  note t = tiled_split [OF d(5)]
  have blk: "sub64 (a + HDR) HDR = a" "\<not> a < heap_start hp" "\<not> heap_end hp \<le> a" using t(3,7,8) d(4) by auto
  obtain h where h: "header_at a hp = Done h" "h_size h = s" "\<not> h_free h" using header_tag [OF t(5)] by auto
  obtain hp1 hp2 where 2: "upd_header a (\<lambda>x. x\<lparr>h_free := True\<rparr>) hp = Done hp1" "set_footer_free (get_footer a s) True hp1 = Done hp2"
    "same_rest hp hp2" "heap_core hp2 (xs @ (a, s, True) # ys) fl" using core_mark_free [OF core, of True] by blast
  let ?hp2 = "hp2\<lparr>total_freed := add64 (total_freed hp2) s\<rparr>"
  have c2: "heap_core ?hp2 (xs @ (a, s, True) # ys) fl" by (rule heap_core_cong [OF 2(4)]) simp_all
  have "a \<notin> fst ` set xs \<union> fst ` set ys" using tiled_addrs_distinct [OF d(5)] by auto
  then have an: "a \<notin> set fl" "set fl = free_addrs xs \<union> free_addrs ys" using d(8) free_addrs_fst by auto
  obtain hp3 fl3 where 3: "coalesce_forward a ?hp2 = Done hp3" "same_rest ?hp2 hp3"
    "heap_core hp3 (xs @ (a, fwd_size s ys, True) # fwd_rest ys) fl3" "a \<notin> set fl3" "set fl3 = free_addrs xs \<union> free_addrs (fwd_rest ys)"
    using coalesce_forward_core [OF c2 an] by blast
  obtain hp4 fl4 where 4: "coalesce_backward a hp3 = Done (a', hp4)" "same_rest hp3 hp4"
    "heap_core hp4 (xs' @ (a', s', True) # fwd_rest ys) fl4" "a' \<notin> set fl4" "set fl4 = free_addrs xs' \<union> free_addrs (fwd_rest ys)"
    using coalesce_backward_core [OF 3(3-5) b] by blast
  have "tagH hp4 a' = Some (s', True)" by (rule tiled_split(5) [OF heap_coreD(5) [OF 4(3)]])
  then have "hdrs hp4 a' \<noteq> None" by (auto simp: tagH_Some)
  from insert_free_core [OF 4(3,4) this] obtain hp5 where 5: "insert_free a' hp4 = Done hp5" "same_rest hp4 hp5"
    "heap_core hp5 (xs' @ (a', s', True) # fwd_rest ys) (a' # fl4)" by blast
  have res: "alloc_free (Some (a + HDR)) hp = Done hp5"
    using d(1) blk h 2(1,2) 3(1) 4(1) 5(1) by (simp add: alloc_free_def Let_def)
  have cx: "coalesced xs" "coalesced ys" using d(9) by (simp_all add: coalesced_split)
  have "coalesced (xs' @ (a', s', True) # fwd_rest ys)"
    using bwd_facts(2,3) [OF b cx(1)] fwd_facts(2,3) [OF cx(2)] by (simp add: coalesced_split)
  moreover have "used_bytes (xs @ (a, s, False) # ys) = s + used_bytes (xs' @ (a', s', True) # fwd_rest ys)"
    using bwd_facts(1) [OF b cx(1)] fwd_facts(1) by simp
  then have "total_allocated hp5 = add64 (total_freed hp5) (used_bytes (xs' @ (a', s', True) # fwd_rest ys))"
    using d(10) 2(3) 3(2) 4(2) 5(2) by (simp add: same_rest_def add64_assoc del: used_bytes_simps)
  ultimately have "heap_rep hp5 (xs' @ (a', s', True) # fwd_rest ys) (a' # fl4)"
    using 5(3) 4(5) by (simp add: heap_rep_core)
  with res 2(3) 3(2) 4(2) 5(2) show ?thesis by (auto simp: same_rest_def)
qed

section \<open>The heap keeps the contract\<close>

text \<open>The live blocks as their users see them: the address after the header, the bytes up to the footer.\<close>

definition live_of :: "block list \<Rightarrow> nat \<rightharpoonup> nat" where
  "live_of bs = map_of (map (\<lambda>(a, s, f). (a + HDR, s - (HDR + FTR))) (filter (\<lambda>(a, s, f). \<not> f) bs))"

definition heap_live :: "heap \<Rightarrow> (nat \<rightharpoonup> nat) \<Rightarrow> bool" where
  "heap_live hp M \<longleftrightarrow> (\<exists>bs fl. heap_rep hp bs fl \<and> M = live_of bs)"

definition poke_payload :: "nat \<Rightarrow> u8 \<Rightarrow> heap \<Rightarrow> heap" where
  "poke_payload x v hp = hp\<lparr>payload := (payload hp)(x := v)\<rparr>"

lemma heap_rep_payload [simp]: "heap_rep (hp\<lparr>payload := g\<rparr>) bs fl = heap_rep hp bs fl"
proof -
  have "tagH (hp\<lparr>payload := g\<rparr>) = tagH hp" "ftrH (hp\<lparr>payload := g\<rparr>) = ftrH hp" "lnkH (hp\<lparr>payload := g\<rparr>) = lnkH hp"
    by (rule proj_cong; simp)+
  then show ?thesis by (simp add: heap_rep_def)
qed

lemma live_of_append: "live_of (xs @ ys) = live_of ys ++ live_of xs"
  by (simp add: live_of_def map_of_append)

lemma live_of_Cons: "live_of ((a, s, f) # bs) = (if f then live_of bs else (live_of bs)(a + HDR \<mapsto> s - (HDR + FTR)))"
  by (simp add: live_of_def)

lemma live_of_Nil [simp]: "live_of [] = Map.empty"
  by (simp add: live_of_def)

lemma live_of_iff:
  "distinct (map fst bs) \<Longrightarrow> live_of bs p = Some cap \<longleftrightarrow> (\<exists>a s. (a, s, False) \<in> set bs \<and> p = a + HDR \<and> cap = s - (HDR + FTR))"
proof (induction bs arbitrary: cap)
  case (Cons b bs)
  obtain a s f where b: "b = (a, s, f)" by (cases b)
  have na: "\<forall>r g. (a, r, g) \<notin> set bs" using Cons.prems b by force
  show ?case
  proof (cases "p = a + HDR")
    case True
    have "live_of bs p = None" using Cons na True b by (cases "live_of bs p") auto
    with True b na show ?thesis by (auto simp: live_of_Cons)
  next
    case False
    with Cons b show ?thesis by (auto simp: live_of_Cons)
  qed
qed simp

lemma live_block:
  assumes "heap_rep hp bs fl" "live_of bs p = Some cap"
  obtains xs a s ys where "bs = xs @ (a, s, False) # ys" "p = a + HDR" "cap = s - (HDR + FTR)"
proof -
  have "distinct (map fst bs)" using tiled_addrs_distinct heap_repD(5) [OF assms(1)] by blast
  then obtain a s where as: "(a, s, False) \<in> set bs" "p = a + HDR" "cap = s - (HDR + FTR)" using live_of_iff assms(2) by blast
  from split_list [OF as(1)] obtain xs ys where "bs = xs @ (a, s, False) # ys" by blast
  with as that show ?thesis by blast
qed

lemma cut_live:
  assumes "heap_rep hp (xs @ (a, s, True) # ys) fl" "need \<le> s"
  shows "\<exists>r. need \<le> r \<and> live_of (xs @ cut need a s @ ys) = (live_of (xs @ (a, s, True) # ys))(a + HDR \<mapsto> r - (HDR + FTR)) \<and>
     live_of (xs @ (a, s, True) # ys) (a + HDR) = None"
proof -
  have di: "distinct (map fst (xs @ (a, s, True) # ys))" using tiled_addrs_distinct heap_repD(5) [OF assms(1)] by blast
  have none: "live_of (xs @ (a, s, True) # ys) (a + HDR) = None"
  proof (rule ccontr)
    assume "live_of (xs @ (a, s, True) # ys) (a + HDR) \<noteq> None"
    then obtain cap where "live_of (xs @ (a, s, True) # ys) (a + HDR) = Some cap" by blast
    then obtain r where "(a, r, False) \<in> set (xs @ (a, s, True) # ys)" using live_of_iff [OF di] by auto
    with di show False by force
  qed
  then have nx: "live_of xs (a + HDR) = None" by (simp add: live_of_append live_of_Cons map_add_None)
  let ?r = "if need + 80 < s then need else s"
  have "live_of (cut need a s @ ys) = (live_of ys)(a + HDR \<mapsto> ?r - (HDR + FTR))" by (simp add: cut_def live_of_Cons)
  then have "live_of (xs @ cut need a s @ ys) = (live_of (xs @ (a, s, True) # ys))(a + HDR \<mapsto> ?r - (HDR + FTR))"
    unfolding live_of_append using nx by (auto simp: live_of_Cons map_add_def fun_eq_iff split: option.split)
  moreover have "need \<le> ?r" using assms(2) by simp
  ultimately show ?thesis using none by blast
qed

lemma free_live:
  assumes "heap_rep hp (xs @ (a, s, False) # ys) fl" "bwd xs a (fwd_size s ys) = (xs', a', s')" "heap_rep hp' (xs' @ (a', s', True) # fwd_rest ys) fl'"
  shows "live_of (xs' @ (a', s', True) # fwd_rest ys) = (live_of (xs @ (a, s, False) # ys))(a + HDR := None)"
proof
  fix p
  have di: "distinct (map fst (xs @ (a, s, False) # ys))" "distinct (map fst (xs' @ (a', s', True) # fwd_rest ys))"
    using tiled_addrs_distinct heap_repD(5) [OF assms(1)] heap_repD(5) [OF assms(3)] by blast+
  have cx: "coalesced xs" using heap_repD(9) [OF assms(1)] by (simp add: coalesced_split)
  have na: "\<forall>r. (a, r, False) \<notin> set xs \<and> (a, r, False) \<notin> set ys" using di(1) by force
  have "live_of (xs' @ (a', s', True) # fwd_rest ys) p = Some cap \<longleftrightarrow> ((live_of (xs @ (a, s, False) # ys))(a + HDR := None)) p = Some cap" for cap
    using na unfolding live_of_iff [OF di(2)] fun_upd_apply
    by (auto simp: live_of_iff [OF di(1)] bwd_facts(4) [OF assms(2) cx] fwd_facts(4))
  then show "live_of (xs' @ (a', s', True) # fwd_rest ys) p = ((live_of (xs @ (a, s, False) # ys))(a + HDR := None)) p"
    by (metis not_Some_eq)
qed

abbreviation ALLOC_LIMIT :: nat where "ALLOC_LIMIT \<equiv> two64 - 64"

interpretation kheap: block_heap "alloc hs hz" "\<lambda>p. alloc_free (Some p)" poke_payload payload heap_live ALLOC_LIMIT for hs hz
proof
  fix s :: heap and M n
  assume a: "heap_live s M" "0 < n" "n \<le> ALLOC_LIMIT"
  then obtain bs fl where rep: "heap_rep s bs fl" and M: "M = live_of bs" by (auto simp: heap_live_def)
  have n: "n + 63 < two64" using a(3) by simp
  from alloc_rep [OF rep a(2) n, of hs hz]
  show "alloc hs hz n s = Done (None, s) \<or>
      (\<exists>p s' cap. alloc hs hz n s = Done (Some p, s') \<and> M p = None \<and> n \<le> cap \<and> heap_live s' (M(p \<mapsto> cap)) \<and>
         (\<forall>x. payload s' x = (if p \<le> x \<and> x < p + n then 0 else payload s x)))"
  proof (elim disjE exE conjE)
    fix xs a sz ys s' fl'
    assume b: "bs = xs @ (a, sz, True) # ys" "total_block_size n \<le> sz" "alloc hs hz n s = Done (Some (a + HDR), s')"
      "heap_rep s' (xs @ cut (total_block_size n) a sz @ ys) fl'"
      "payload s' = (\<lambda>x. if a + HDR \<le> x \<and> x < a + HDR + n then 0 else payload s x)"
    obtain r where r: "total_block_size n \<le> r"
      "live_of (xs @ cut (total_block_size n) a sz @ ys) = (live_of bs)(a + HDR \<mapsto> r - (HDR + FTR))" "live_of bs (a + HDR) = None"
      using cut_live [OF rep [unfolded b(1)] b(2)] b(1) by auto
    have "n \<le> r - (HDR + FTR)" using total_block_size_ok(1) [OF n] r(1) by simp
    then show ?thesis using b(3-5) r(2,3) M unfolding heap_live_def
      by (intro disjI2 exI [of _ "a + HDR"] exI [of _ s'] exI [of _ "r - (HDR + FTR)"]) auto
  qed simp
next
  fix s :: heap and M p cap
  assume a: "heap_live s M" "M p = Some cap"
  then obtain bs fl where rep: "heap_rep s bs fl" and M: "M = live_of bs" by (auto simp: heap_live_def)
  from a(2) M obtain xs a r ys where b: "bs = xs @ (a, r, False) # ys" "p = a + HDR" using live_block [OF rep] by metis
  obtain xs' a' s' where w: "bwd xs a (fwd_size r ys) = (xs', a', s')" by (cases "bwd xs a (fwd_size r ys)")
  obtain hp' fl' where f: "alloc_free (Some (a + HDR)) s = Done hp'" "heap_rep hp' (xs' @ (a', s', True) # fwd_rest ys) fl'"
    "payload hp' = payload s" using alloc_free_rep [OF rep [unfolded b(1)] w] by blast
  have "heap_live hp' (M(p := None))"
    using free_live [OF rep [unfolded b(1)] w f(2)] f(2) M b unfolding heap_live_def by metis
  with f(1,3) b(2) show "\<exists>s'. alloc_free (Some p) s = Done s' \<and> heap_live s' (M(p := None)) \<and> payload s' = payload s" by blast
next
  fix s :: heap and M x v
  assume "heap_live s M"
  then show "heap_live (poke_payload x v s) M \<and> payload (poke_payload x v s) = (payload s)(x := v)"
    by (simp add: heap_live_def poke_payload_def)
next
  fix s :: heap and M p cap q cap'
  assume a: "heap_live s M" "M p = Some cap" "M q = Some cap'" "p \<noteq> q"
  then obtain bs fl where rep: "heap_rep s bs fl" and M: "M = live_of bs" by (auto simp: heap_live_def)
  note t = heap_repD(5) [OF rep]
  have di: "distinct (map fst bs)" by (rule tiled_addrs_distinct [OF t])
  obtain b r c k where bc: "(b, r, False) \<in> set bs" "p = b + HDR" "cap = r - (HDR + FTR)" "(c, k, False) \<in> set bs" "q = c + HDR" "cap' = k - (HDR + FTR)"
    using a(2,3) M live_of_iff [OF di] by auto
  have "b \<noteq> c" using a(4) bc by auto
  from tiled_disjoint [OF t bc(1,4) this] tiled_block [OF t bc(1)] tiled_block [OF t bc(4)] bc show "p + cap \<le> q \<or> q + cap' \<le> p" by auto
qed

section \<open>Properties\<close>

definition heap_area_ok :: "nat \<Rightarrow> nat \<Rightarrow> bool" where
  "heap_area_ok hs hz \<longleftrightarrow> HDR \<le> hs \<and> 16 dvd hs \<and> 16 dvd hz \<and> 64 \<le> hz \<and> hs + hz + 80 < two64"

lemma alloc_init_rep:
  assumes "\<not> heap_initialized hp0" "heap_area_ok hs hz"
  shows "\<exists>hp. alloc_init hs hz hp0 = Done hp \<and> heap_rep hp [(hs, hz, True)] [hs]"
proof -
  have c: "HDR \<le> hs" "16 dvd hs" "16 dvd hz" "64 \<le> hz" "hs + hz + 80 < two64" using assms(2) by (simp_all add: heap_area_ok_def)
  let ?hp1 = "hp0\<lparr>heap_start := hs, heap_end := add64 hs hz, heap_size := hz, total_allocated := 0, total_freed := 0,
                coalesce_forward_count := 0, coalesce_backward_count := 0, free_list := Some hs\<rparr>"
  let ?hp2 = "set_block hs hz True ?hp1"
  have b: "hs + hz < two64" "FTR \<le> hz" using c by simp_all
  note p = set_block_proj [OF b, of True ?hp1]
  have "lnkH ?hp2 hs \<noteq> None" unfolding p(3) by (simp add: proj_None del: not_None_eq)
  then obtain n q where l: "lnkH ?hp2 hs = Some (n, q)" by (cases "lnkH ?hp2 hs") auto
  obtain hp3 where 3: "upd_header hs (\<lambda>h. h\<lparr>h_next := None, h_prev := None\<rparr>) ?hp2 = Done hp3" "links_only ?hp2 hp3"
    "free_list hp3 = free_list ?hp2" "lnkH hp3 = (lnkH ?hp2)(hs \<mapsto> (None, None))"
    using upd_links [OF l, of "\<lambda>h. h\<lparr>h_next := None, h_prev := None\<rparr>"] by auto
  let ?hp = "hp3\<lparr>heap_initialized := True\<rparr>"
  have "tagH ?hp = tagH hp3" "ftrH ?hp = ftrH hp3" "lnkH ?hp = lnkH hp3" by (rule proj_cong; simp)+
  then have "heap_rep ?hp [(hs, hz, True)] [hs]"
    using c b 3(3,4) p links_onlyD [OF 3(2)]
    by (simp add: heap_rep_def dlist_def coalesced_def add64_def)
  moreover have "alloc_init hs hz hp0 = Done ?hp" using assms(1) 3(1) by (simp add: alloc_init_def Let_def)
  ultimately show ?thesis by blast
qed

text \<open>
  C3: Memory from the kernel heap is private, and the heap survives every program. From the first
  initialisation on, through any sequence of allocations, releases and writes in which a program
  releases and writes only what it was given, no operation fails, follows a stray pointer or runs
  forever; blocks owned at the same time never overlap; every byte of an owned block is the one
  written last (zero when none was); and at the end the blocks tile the heap again, headers and
  footers agree, the free list holds exactly the free blocks and no two of them are neighbours.
\<close>

theorem heap_private_memory:
  assumes "\<not> heap_initialized hp0" "heap_area_ok hs hz" "sizes_ok ALLOC_LIMIT ops"
  shows "\<exists>hp s m c bs fl. alloc_init hs hz hp0 = Done hp \<and>
     heap_run (alloc hs hz) (\<lambda>p. alloc_free (Some p)) poke_payload ops (hp, Map.empty, c0) = Done (s, m, c) \<and>
     private_mem (payload s) m c \<and> heap_rep s bs fl"
proof -
  obtain hp where hp: "alloc_init hs hz hp0 = Done hp" "heap_rep hp [(hs, hz, True)] [hs]"
    using alloc_init_rep [OF assms(1,2)] by blast
  then have "heap_live hp Map.empty" by (auto simp: heap_live_def live_of_Cons intro!: exI)
  then have "kheap.owns hp Map.empty c0" by (auto simp: kheap.owns_def)
  from kheap.run_private [OF this assms(3)] obtain s m c where
    r: "heap_run (alloc hs hz) (\<lambda>p. alloc_free (Some p)) poke_payload ops (hp, Map.empty, c0) = Done (s, m, c)"
    "kheap.owns s m c" "private_mem (payload s) m c" by blast
  from r(2) obtain bs fl where "heap_rep s bs fl" by (auto simp: kheap.owns_def heap_live_def)
  with hp(1) r(1,3) show ?thesis by blast
qed

text \<open>
  Allocation is first fit. A request of \<open>sz\<close> bytes takes the first free block in the free list
  that holds them with header and footer, or fails and changes nothing when no free block does. The
  pointer returned is 16-byte aligned, its \<open>sz\<close> bytes are zero and lie between the header and the
  footer of the block; what is left of the block becomes a free block when it is larger than 80 bytes;
  no byte outside the request changes.
\<close>

theorem heap_alloc_first_fit:
  assumes "heap_rep hp bs fl" "0 < sz" "sz + 63 < two64"
  shows "case List.find (fits hp (total_block_size sz)) fl of
     None \<Rightarrow> alloc hs hz sz hp = Done (None, hp) \<and> (\<forall>a s. (a, s, True) \<in> set bs \<longrightarrow> s < total_block_size sz)
   | Some a \<Rightarrow> \<exists>xs s ys hp' fl'. bs = xs @ (a, s, True) # ys \<and> alloc hs hz sz hp = Done (Some (a + HDR), hp') \<and>
       16 dvd a + HDR \<and> heap_rep hp' (xs @ cut (total_block_size sz) a s @ ys) fl' \<and>
       sz + HDR + FTR \<le> fst (snd (hd (cut (total_block_size sz) a s))) \<and>
       payload hp' = (\<lambda>x. if a + HDR \<le> x \<and> x < a + HDR + sz then 0 else payload hp x)"
proof (cases "List.find (fits hp (total_block_size sz)) fl")
  case None
  note d = heap_repD [OF assms(1)]
  have "s < total_block_size sz" if "(a, s, True) \<in> set bs" for a s
  proof -
    have "a \<in> set fl" using that d(8) by (auto simp: free_addrs_def)
    moreover have "tagH hp a = Some (s, True)" using tiled_block [OF d(5) that] by blast
    ultimately show ?thesis using None by (force simp: find_None_iff fits_def)
  qed
  with alloc_rep [OF assms, of hs hz] None show ?thesis by fastforce
next
  case (Some a)
  note d = heap_repD [OF assms(1)]
  from Some have "a \<in> set fl" "fits hp (total_block_size sz) a" by (auto simp: find_Some_iff)
  then obtain s where s: "(a, s, True) \<in> set bs" using d(8) by (auto simp: free_addrs_def)
  then have "tagH hp a = Some (s, True)" using tiled_block [OF d(5)] by blast
  with \<open>fits hp _ a\<close> have le: "total_block_size sz \<le> s" by (auto simp: fits_def)
  obtain xs ys where bs: "bs = xs @ (a, s, True) # ys" using s by (auto dest: split_list)
  have "16 dvd a"
  proof -
    have "tiled T F lo zs hi \<Longrightarrow> 16 dvd lo \<Longrightarrow> 16 dvd hi" for T F lo zs hi
      by (induction zs arbitrary: lo) auto
    with tiled_split(1) [OF d(5) [unfolded bs]] d(3) show ?thesis by blast
  qed
  moreover have "sz + HDR + FTR \<le> fst (snd (hd (cut (total_block_size sz) a s)))"
    using total_block_size_ok(1) [OF assms(3)] le by (simp add: cut_def)
  moreover have "16 dvd a + HDR" if "16 dvd a" using that by (simp add: dvd_add_left_iff)
  ultimately show ?thesis using alloc_take_rep [OF assms(1) [unfolded bs] assms(2,3) refl le Some, of hs hz] bs Some
    by (simp only: option.case) blast
qed

text \<open>
  Releasing a block on every branch. A block in use is released and merged with a free block
  behind it and a free block before it, whichever there is, and no other block and no byte of
  memory changes; a block that is already free is reported as a double free; a pointer outside the
  heap is reported as out of bounds.
\<close>

theorem heap_free_spec:
  assumes "heap_rep hp bs fl"
  shows "(\<forall>xs a s ys xs' a' s'. bs = xs @ (a, s, False) # ys \<longrightarrow> bwd xs a (fwd_size s ys) = (xs', a', s') \<longrightarrow>
       (\<exists>hp' fl'. alloc_free (Some (a + HDR)) hp = Done hp' \<and> heap_rep hp' (xs' @ (a', s', True) # fwd_rest ys) fl' \<and>
          payload hp' = payload hp)) \<and>
     (\<forall>a s. (a, s, True) \<in> set bs \<longrightarrow> alloc_free (Some (a + HDR)) hp = Panic ''double-free detected'') \<and>
     (\<forall>p. HDR \<le> p \<and> p < two64 \<and> (p - HDR < heap_start hp \<or> heap_end hp \<le> p - HDR) \<longrightarrow>
        alloc_free (Some p) hp = Panic ''Out of bounds allocation'')"
proof (intro conjI allI impI)
  fix xs a s ys xs' a' s'
  assume "bs = xs @ (a, s, False) # ys" "bwd xs a (fwd_size s ys) = (xs', a', s')"
  then show "\<exists>hp' fl'. alloc_free (Some (a + HDR)) hp = Done hp' \<and> heap_rep hp' (xs' @ (a', s', True) # fwd_rest ys) fl' \<and>
          payload hp' = payload hp" using alloc_free_rep assms by blast
next
  note d = heap_repD [OF assms]
  fix a s assume "(a, s, True) \<in> set bs"
  from tiled_block [OF d(5) this] have t: "heap_start hp \<le> a" "a + s \<le> heap_end hp" "64 \<le> s" "tagH hp a = Some (s, True)" by simp_all
  obtain h where "header_at a hp = Done h" "h_free h" using header_tag [OF t(4)] by auto
  moreover have "sub64 (a + HDR) HDR = a" using t d(4) by simp
  ultimately show "alloc_free (Some (a + HDR)) hp = Panic ''double-free detected''"
    using d(1) t(1-3) by (simp add: alloc_free_def Let_def)
next
  fix p assume "HDR \<le> p \<and> p < two64 \<and> (p - HDR < heap_start hp \<or> heap_end hp \<le> p - HDR)"
  then show "alloc_free (Some p) hp = Panic ''Out of bounds allocation''"
    using heap_repD(1) [OF assms] by (auto simp: alloc_free_def Let_def)
qed

text \<open>
  Resizing keeps the contents. Resizing an owned block to \<open>k\<close> bytes either fails and leaves the
  heap as it was, or returns a different block of at least \<open>k\<close> bytes whose first bytes, as many as both
  blocks hold, are those of the old one; the old block is released and no other block is touched.
\<close>

theorem heap_realloc_keeps:
  assumes "heap_live hp M" "M p = Some cap" "0 < k" "k \<le> ALLOC_LIMIT"
  shows "all_realloc hs hz (Some p) k hp = Done (None, hp) \<or>
     (\<exists>q hp' cap'. all_realloc hs hz (Some p) k hp = Done (Some q, hp') \<and> M q = None \<and> k \<le> cap' \<and>
        heap_live hp' ((M(q \<mapsto> cap'))(p := None)) \<and> (\<forall>i. i < min cap k \<longrightarrow> payload hp' (q + i) = payload hp (p + i)) \<and>
        (\<forall>x. x < q \<or> q + k \<le> x \<longrightarrow> payload hp' x = payload hp x))"
proof -
  obtain bs fl where rep: "heap_rep hp bs fl" and M: "M = live_of bs" using assms(1) by (auto simp: heap_live_def)
  note d = heap_repD [OF rep]
  obtain xs a s ys where b: "bs = xs @ (a, s, False) # ys" "p = a + HDR" "cap = s - (HDR + FTR)"
    using live_block [OF rep] assms(2) M by metis
  note t = tiled_split [OF d(5) [unfolded b(1)]]
  have blk: "sub64 p HDR = a" using b(2) t(3,8) d(4) by simp
  obtain h where h: "header_at a hp = Done h" "h_size h = s" using header_tag [OF t(5)] by blast
  have old: "sub64 (sub64 s HDR) FTR = cap" using b(3) t(3,8) d(4) by simp
  from kheap.get_law [OF assms(1,3,4), of hs hz] show ?thesis
  proof (elim disjE exE conjE)
    assume "alloc hs hz k hp = Done (None, hp)"
    with assms(3) blk h show ?thesis by (simp add: all_realloc_def Let_def)
  next
    fix q hp1 cap'
    assume g: "alloc hs hz k hp = Done (Some q, hp1)" "M q = None" "k \<le> cap'" "heap_live hp1 (M(q \<mapsto> cap'))"
      "\<forall>x. payload hp1 x = (if q \<le> x \<and> x < q + k then 0 else payload hp x)"
    have pq: "p \<noteq> q" using assms(2) g(2) by auto
    define n where "n = (if cap < k then cap else k)"
    let ?hp2 = "copy_payload q p n hp1"
    have live2: "heap_live ?hp2 (M(q \<mapsto> cap'))" using g(4) by (auto simp: copy_payload_def heap_live_def)
    have "(M(q \<mapsto> cap')) p = Some cap" using assms(2) pq by simp
    from kheap.put_law [OF live2 this] obtain hp3 where
      f: "alloc_free (Some p) ?hp2 = Done hp3" "heap_live hp3 ((M(q \<mapsto> cap'))(p := None))" "payload hp3 = payload ?hp2" by blast
    have res: "all_realloc hs hz (Some p) k hp = Done (Some q, hp3)"
      using assms(3) blk h old g(1) f(1) by (cases "cap < k") (simp_all add: all_realloc_def Let_def n_def)
    have apart: "p + cap \<le> q \<or> q + cap' \<le> p"
      using kheap.apart_law [OF g(4), of p cap q cap'] assms(2) pq by simp
    have n: "n = min cap k" "n \<le> cap" "n \<le> k" by (auto simp: n_def)
    have "payload hp3 (q + i) = payload hp (p + i)" if i: "i < min cap k" for i
    proof -
      have "payload hp3 (q + i) = payload hp1 (p + i)" using i n unfolding f(3) copy_payload_def by simp
      moreover have "\<not> (q \<le> p + i \<and> p + i < q + k)" using apart i g(3) by auto
      ultimately show ?thesis using g(5) by simp
    qed
    moreover have "payload hp3 x = payload hp x" if "x < q \<or> q + k \<le> x" for x
      using that n g(5) unfolding f(3) copy_payload_def by auto
    ultimately show ?thesis using res g(2,3) f(2) by blast
  qed
qed

lemma upd_header_tag:
  assumes "upd_header a f hp = Done hp'" "\<And>h. (h_size (f h), h_free (f h)) = (h_size h, h_free h)"
  shows "tagH hp' = tagH hp"
proof -
  obtain h where h: "hdrs hp a = Some h" "hp' = hp\<lparr>hdrs := (hdrs hp)(a \<mapsto> f h)\<rparr>"
    using assms(1) by (auto simp: upd_header_def header_at_def kbind_Done_iff split: option.splits)
  with assms(2) [of h] show ?thesis by (auto simp: tagH_def fun_eq_iff)
qed

lemma alloc_whole_tag: "alloc_whole a h hp = Done hp' \<Longrightarrow> tagH hp' = tagH hp"
proof -
  have 1: "tagH hp2 = tagH hp1" if "set_prev_next h v hp1 = Done hp2" for v hp1 hp2
    using that upd_header_tag by (auto simp: set_prev_next_def split: option.splits intro!: proj_cong)
  have 2: "tagH hp2 = tagH hp1" if "set_next_prev h v hp1 = Done hp2" for v hp1 hp2
    using that upd_header_tag by (auto simp: set_next_prev_def split: option.splits)
  have 3: "tagH hp2 = tagH hp1" if "set_footer_free x v hp1 = Done hp2" for x v hp1 hp2
    using that by (auto simp: set_footer_free_def split: option.splits intro!: proj_cong)
  show "alloc_whole a h hp = Done hp' \<Longrightarrow> tagH hp' = tagH hp"
    using 1 2 3 by (auto simp: alloc_whole_def kbind_Done_iff)
qed

lemma alloc_split_size: "alloc_split a h need hp = Done hp' \<Longrightarrow> hdrs hp' a = Some h2 \<Longrightarrow> h_size h2 = need"
  by (auto simp: alloc_split_def Let_def kbind_Done_iff upd_header_def header_at_def set_block_def split: option.splits)

text \<open>
  C31: The size computation wraps for the 63 largest sizes. For them the block size is at most 48 bytes
  and the zeroing loop overruns whatever block is taken: with any free block the call does not return
  normally. For every smaller size (and not 0) allocation always returns.
\<close>

theorem heap_alloc_bounds:
  assumes "heap_rep hp bs fl" "0 < sz" "sz < two64"
  shows "(two64 \<le> sz + 63 \<longrightarrow> total_block_size sz \<le> 48 \<and> (fl \<noteq> [] \<longrightarrow> (\<forall>r. alloc hs hz sz hp \<noteq> Done r))) \<and>
     (sz + 63 < two64 \<longrightarrow> (\<exists>r. alloc hs hz sz hp = Done r))"
proof (intro conjI impI)
  assume "sz + 63 < two64"
  from alloc_rep [OF assms(1,2) this, of hs hz] show "\<exists>r. alloc hs hz sz hp = Done r" by blast
next
  assume w: "two64 \<le> sz + 63"
  have "add64 sz (HDR + FTR + 15) = sz + 63 - two64"
    unfolding add64_def using w assms(3) by (subst mod_if) simp
  then have "total_block_size sz = (sz + 63 - two64) div 16 * 16" by (simp add: total_block_size_def align_down_def)
  moreover have "sz + 63 - two64 < 63" using assms(3) by simp
  then have "(sz + 63 - two64) div 16 \<le> 3" by simp
  ultimately show small: "total_block_size sz \<le> 48" by simp
  assume ne: "fl \<noteq> []"
  note d = heap_repD [OF assms(1)]
  show "\<forall>r. alloc hs hz sz hp \<noteq> Done r"
  proof (intro allI notI)
    fix r assume r: "alloc hs hz sz hp = Done r"
    obtain x xs where x: "fl = x # xs" using ne by (cases fl) auto
    then have "x \<in> free_addrs bs" using d(8) by auto
    then obtain s where s: "(x, s, True) \<in> set bs" by (auto simp: free_addrs_def)
    from tiled_block [OF d(5) s] small have "fits hp (total_block_size sz) x" by (auto simp: fits_def)
    then have "first_fit (hdrs hp) (free_list hp) (total_block_size sz) = Some (Some x)"
      using first_fit_ok [OF d(6)] x by simp
    then have "\<exists>hp1 h hp2 h2 hp3. upd_header x (\<lambda>h. h\<lparr>h_free := False\<rparr>) hp = Done hp1 \<and> header_at x hp1 = Done h \<and>
        (if add64 (total_block_size sz) (HDR + FTR + 32) < h_size h then alloc_split x h (total_block_size sz) hp1
         else alloc_whole x h hp1) = Done hp2 \<and> header_at x hp2 = Done h2 \<and>
        zero_payload x sz (hp2\<lparr>total_allocated := add64 (total_allocated hp2) (h_size h2)\<rparr>) = Done hp3"
      using r d(1) assms(2) by (simp add: alloc_def alloc_init_def Let_def kbind_Done_iff split del: if_split) blast
    then obtain hp1 h hp2 h2 hp3 where
      1: "upd_header x (\<lambda>h. h\<lparr>h_free := False\<rparr>) hp = Done hp1" "header_at x hp1 = Done h"
        "alloc_split x h (total_block_size sz) hp1 = Done hp2 \<or> alloc_whole x h hp1 = Done hp2" "header_at x hp2 = Done h2"
        "zero_payload x sz (hp2\<lparr>total_allocated := add64 (total_allocated hp2) (h_size h2)\<rparr>) = Done hp3"
      by (metis (full_types))
    have h2: "hdrs hp2 x = Some h2" using 1(4) by (simp add: header_at_def split: option.splits)
    have "tagH hp1 x = Some (s, False)" using upd_free_proj [of hp x s True False] tiled_block [OF d(5) s] 1(1) by auto
    then have "h_size h2 = total_block_size sz \<or> h_size h2 = s"
      using 1(3) alloc_split_size [of x h _ hp1 hp2 h2] alloc_whole_tag [of x h hp1 hp2] h2 by (metis option.inject prod.inject tagH_Some)
    moreover have "s + 80 < two64" using tiled_block [OF d(5) s] d(4) by simp
    ultimately have "h_size h2 + 80 < two64" using small by auto
    with 1(5) h2 w show False by (simp add: zero_payload_def header_at_def split: if_splits)
  qed
qed

section \<open>Witnesses\<close>

text \<open>The heap of the x86-64 kernel: 24 MiB at 8 MiB.\<close>

definition mm_kernel_heap_start :: nat where
  "mm_kernel_heap_start = 0x00800000"

definition mm_kernel_heap_size :: nat where
  "mm_kernel_heap_size = 0x01800000"

lemma x86_area: "heap_area_ok mm_kernel_heap_start mm_kernel_heap_size"
  by (simp add: heap_area_ok_def mm_kernel_heap_start_def mm_kernel_heap_size_def)

definition heap_blank :: heap where
  "heap_blank = \<lparr>hdrs = Map.empty, ftrs = Map.empty, payload = (\<lambda>_. 7), heap_start = 0, heap_end = 0, heap_size = 0, free_list = None,
     total_allocated = 0, total_freed = 0, coalesce_forward_count = 0, coalesce_backward_count = 0, heap_initialized = False\<rparr>"

text \<open>One block of 160 bytes in use, the rest free.\<close>

definition heap_demo :: heap where
  "heap_demo = heap_blank\<lparr>
     hdrs := [0x800000 \<mapsto> \<lparr>h_size = 160, h_free = False, h_next = None, h_prev = None\<rparr>,
              0x8000a0 \<mapsto> \<lparr>h_size = 0x17fff60, h_free = True, h_next = None, h_prev = None\<rparr>],
     ftrs := [0x800090 \<mapsto> \<lparr>f_size = 160, f_free = False\<rparr>, 0x1fffff0 \<mapsto> \<lparr>f_size = 0x17fff60, f_free = True\<rparr>],
     heap_start := 0x800000, heap_end := 0x2000000, heap_size := 0x1800000, free_list := Some 0x8000a0,
     total_allocated := 160, heap_initialized := True\<rparr>"

lemma heap_demo_rep: "heap_rep heap_demo [(0x800000, 160, False), (0x8000a0, 0x17fff60, True)] [0x8000a0]"
  by (simp add: heap_rep_def heap_demo_def heap_blank_def tagH_def ftrH_def lnkH_def dlist_def coalesced_def add64_def)

lemma heap_demo_live: "heap_live heap_demo [0x800020 \<mapsto> 112]"
  unfolding heap_live_def
  by (rule exI [of _ "[(0x800000, 160, False), (0x8000a0, 0x17fff60, True)]"], rule exI [of _ "[0x8000a0]"])
     (simp add: heap_demo_rep live_of_Cons)

theorem heap_private_memory_witness:
  "\<exists>hp s m c bs fl. alloc_init mm_kernel_heap_start mm_kernel_heap_size heap_blank = Done hp \<and>
     heap_run (alloc mm_kernel_heap_start mm_kernel_heap_size) (\<lambda>p. alloc_free (Some p)) poke_payload
       [HAlloc 100, HAlloc 24, HWrite 0x800020 3 9, HFree 0x800020, HAlloc 5] (hp, Map.empty, (\<lambda>_. 0)) = Done (s, m, c) \<and>
     private_mem (payload s) m c \<and> heap_rep s bs fl"
  by (rule heap_private_memory [OF _ x86_area]) (auto simp: heap_blank_def sizes_ok_def)

theorem heap_alloc_first_fit_witness:
  "\<exists>hp'. alloc 0x800000 0x1800000 100 heap_demo = Done (Some 0x8000c0, hp') \<and>
     payload hp' = (\<lambda>x. if 0x8000c0 \<le> x \<and> x < 0x800124 then 0 else payload heap_demo x)"
proof -
  have "total_block_size 100 = 160" by (simp add: total_block_size_def add64_def align_down_def)
  moreover have "fits heap_demo 160 0x8000a0" by (simp add: fits_def heap_demo_def tagH_def)
  ultimately have f: "List.find (fits heap_demo (total_block_size 100)) [0x8000a0] = Some 0x8000a0" by simp
  show ?thesis
    using heap_alloc_first_fit [OF heap_demo_rep, of 100 "0x800000" "0x1800000"] unfolding f by auto
qed

theorem heap_free_spec_witness:
  "(\<exists>hp' fl'. alloc_free (Some 0x800020) heap_demo = Done hp' \<and> heap_rep hp' [(0x800000, 0x1800000, True)] fl') \<and>
   alloc_free (Some 0x8000c0) heap_demo = Panic ''double-free detected'' \<and>
   alloc_free (Some 0x40) heap_demo = Panic ''Out of bounds allocation''"
proof -
  have b: "bwd [] 0x800000 (fwd_size 160 [(0x8000a0, 0x17fff60, True)]) = ([], 0x800000, 0x1800000)"
    "fwd_rest [(0x8000a0, 0x17fff60, True)] = []" by (simp_all add: bwd_def fwd_size_def fwd_rest_def)
  note s = heap_free_spec [OF heap_demo_rep]
  have 1: "\<exists>hp' fl'. alloc_free (Some 0x800020) heap_demo = Done hp' \<and> heap_rep hp' [(0x800000, 0x1800000, True)] fl'"
    using s [THEN conjunct1, rule_format, of "[]" "0x800000" 160 "[(0x8000a0, 0x17fff60, True)]" "[]" "0x800000" "0x1800000"] b by auto
  have 2: "alloc_free (Some 0x8000c0) heap_demo = Panic ''double-free detected''"
    using s [THEN conjunct2, THEN conjunct1, rule_format, of "0x8000a0" "0x17fff60"] by simp
  have 3: "alloc_free (Some 0x40) heap_demo = Panic ''Out of bounds allocation''"
    using s [THEN conjunct2, THEN conjunct2, rule_format, of "0x40"] by (simp add: heap_demo_def)
  from 1 2 3 show ?thesis by blast
qed

theorem heap_realloc_keeps_witness:
  "all_realloc 0x800000 0x1800000 (Some 0x800020) 200 heap_demo = Done (None, heap_demo) \<or>
   (\<exists>q hp' cap'. all_realloc 0x800000 0x1800000 (Some 0x800020) 200 heap_demo = Done (Some q, hp') \<and>
      [0x800020 \<mapsto> (112::nat)] q = None \<and> 200 \<le> cap' \<and> heap_live hp' (([0x800020 \<mapsto> 112](q \<mapsto> cap'))(0x800020 := None)) \<and>
      (\<forall>i. i < min 112 200 \<longrightarrow> payload hp' (q + i) = payload heap_demo (0x800020 + i)) \<and>
      (\<forall>x. x < q \<or> q + 200 \<le> x \<longrightarrow> payload hp' x = payload heap_demo x))"
  by (rule heap_realloc_keeps [OF heap_demo_live]) simp_all

theorem heap_alloc_bounds_witness:
  "(\<forall>r. alloc 0x800000 0x1800000 18446744073709551615 heap_demo \<noteq> Done r) \<and> (\<exists>r. alloc 0x800000 0x1800000 1000 heap_demo = Done r)"
  using heap_alloc_bounds [OF heap_demo_rep, of 18446744073709551615 "0x800000" "0x1800000"]
    heap_alloc_bounds [OF heap_demo_rep, of 1000 "0x800000" "0x1800000"] by simp

end
