(* ===== verification/Kmem.thy ===== *)
theory Kmem
  imports Allocator
begin

text \<open>
  The kernel's memory interface (\<^verbatim>\<open>mm/kmem.c\<close>) on top of the heap: the plain functions, the
  checked ones that panic on misuse, the ones that report failure, and aligned allocation, which
  keeps the pointer of the underlying block in the eight bytes before the aligned address. The file,
  line and caller of the checked functions only appear in the panic report. \<open>hs\<close> and \<open>hz\<close> are the
  place and size of the heap.
\<close>

section \<open>Operations\<close>

definition kmalloc_impl :: "nat \<Rightarrow> nat \<Rightarrow> nat \<Rightarrow> heap \<Rightarrow> (nat option \<times> heap) kresult" where
  "kmalloc_impl hs hz sz hp = (if sz = 0 then Done (None, hp) else alloc hs hz sz hp)"

definition kfree_impl :: "nat option \<Rightarrow> heap \<Rightarrow> heap kresult" where
  "kfree_impl ptr hp = (if ptr \<noteq> None then alloc_free ptr hp else Done hp)"

definition krealloc_impl :: "nat \<Rightarrow> nat \<Rightarrow> nat option \<Rightarrow> nat \<Rightarrow> heap \<Rightarrow> (nat option \<times> heap) kresult" where
  "krealloc_impl hs hz ptr sz hp =
     (if sz = 0 then kbind (kfree_impl ptr hp) (\<lambda>hp'. Done (None, hp')) else all_realloc hs hz ptr sz hp)"

text \<open>A pointer stored in memory, least significant byte first.\<close>

definition store64 :: "nat \<Rightarrow> nat \<Rightarrow> heap \<Rightarrow> heap" where
  "store64 a v hp =
     hp\<lparr>payload := (\<lambda>x. if a \<le> x \<and> x < a + 8 then word_of_nat (v div 256 ^ (x - a)) else payload hp x)\<rparr>"

definition load64 :: "nat \<Rightarrow> heap \<Rightarrow> nat" where
  "load64 a hp = (\<Sum>i < 8. unat (payload hp (a + i)) * 256 ^ i)"

definition align_up :: "nat \<Rightarrow> nat \<Rightarrow> nat" where
  "align_up raw_addr alignment =
     unat ((word_of_nat raw_addr + 8 + word_of_nat alignment - 1 :: u64) AND NOT (word_of_nat alignment - 1))"

definition kmalloc_aligned_impl :: "nat \<Rightarrow> nat \<Rightarrow> nat \<Rightarrow> nat \<Rightarrow> heap \<Rightarrow> (nat option \<times> heap) kresult" where
  "kmalloc_aligned_impl hs hz sz alignment hp =
     (if sz = 0 \<or> alignment = 0 then Done (None, hp)
      else if alignment AND (alignment - 1) \<noteq> 0 then Done (None, hp)
      else
        kbind (kmalloc_impl hs hz (add64 (sub64 (add64 sz alignment) 1) 8) hp) (\<lambda>(raw, hp1).
          case raw of
            None \<Rightarrow> Done (None, hp1)
          | Some raw_ptr \<Rightarrow>
              (let aligned = align_up raw_ptr alignment in
               Done (Some aligned, store64 (sub64 aligned 8) raw_ptr hp1))))"

definition kfree_aligned_impl :: "nat option \<Rightarrow> heap \<Rightarrow> heap kresult" where
  "kfree_aligned_impl ptr hp =
     (case ptr of
        None \<Rightarrow> Done hp
      | Some p \<Rightarrow>
          (let orig = load64 (sub64 p 8) hp in kfree_impl (if orig = 0 then None else Some orig) hp))"

definition kmalloc_checked :: "nat \<Rightarrow> nat \<Rightarrow> nat \<Rightarrow> heap \<Rightarrow> (nat \<times> heap) kresult" where
  "kmalloc_checked hs hz sz hp =
     (if sz = 0 then Panic ''kmalloc: size is 0''
      else if sz > hz then Panic ''kmalloc: size too large (possible overflow)''
      else kbind (kmalloc_impl hs hz sz hp) (\<lambda>(r, hp1).
        case r of None \<Rightarrow> Panic ''kmalloc: out of memory'' | Some p \<Rightarrow> Done (p, hp1)))"

text \<open>\<open>fault\<close> is \<^verbatim>\<open>KTM_FAULT_HIT("kmem.alloc")\<close>.\<close>

definition kmalloc_try :: "nat \<Rightarrow> nat \<Rightarrow> bool \<Rightarrow> nat \<Rightarrow> heap \<Rightarrow> (nat option \<times> heap) kresult" where
  "kmalloc_try hs hz fault sz hp =
     (if sz = 0 then Done (None, hp)
      else if sz > hz then Done (None, hp)
      else if fault then Done (None, hp)
      else kmalloc_impl hs hz sz hp)"

definition kmalloc_aligned_try :: "nat \<Rightarrow> nat \<Rightarrow> nat \<Rightarrow> nat \<Rightarrow> heap \<Rightarrow> (nat option \<times> heap) kresult" where
  "kmalloc_aligned_try hs hz sz alignment hp =
     (if sz = 0 then Done (None, hp)
      else if alignment = 0 then Done (None, hp)
      else if alignment AND (alignment - 1) \<noteq> 0 then Done (None, hp)
      else if sz > hz then Done (None, hp)
      else kmalloc_aligned_impl hs hz sz alignment hp)"

definition out_of_heap :: "nat \<Rightarrow> nat \<Rightarrow> nat \<Rightarrow> bool" where
  "out_of_heap hs hz p \<longleftrightarrow> p < hs \<or> p \<ge> add64 hs hz"

definition kfree_checked :: "nat \<Rightarrow> nat \<Rightarrow> nat option \<Rightarrow> heap \<Rightarrow> heap kresult" where
  "kfree_checked hs hz ptr hp =
     (case ptr of
        None \<Rightarrow> Done hp
      | Some p \<Rightarrow> if out_of_heap hs hz p then Panic ''kfree: pointer out of heap range'' else kfree_impl ptr hp)"

definition krealloc_checked :: "nat \<Rightarrow> nat \<Rightarrow> nat option \<Rightarrow> nat \<Rightarrow> heap \<Rightarrow> (nat option \<times> heap) kresult" where
  "krealloc_checked hs hz ptr new_size hp =
     (if new_size = 0 then kbind (kfree_checked hs hz ptr hp) (\<lambda>hp1. Done (None, hp1))
      else if new_size > hz then Panic ''krealloc: new_size too large''
      else if (case ptr of None \<Rightarrow> False | Some p \<Rightarrow> out_of_heap hs hz p) then Panic ''krealloc: invalid pointer''
      else kbind (krealloc_impl hs hz ptr new_size hp) (\<lambda>(r, hp1).
        case r of None \<Rightarrow> Panic ''krealloc: out of memory'' | Some p \<Rightarrow> Done (Some p, hp1)))"

definition kmalloc_aligned_checked :: "nat \<Rightarrow> nat \<Rightarrow> nat \<Rightarrow> nat \<Rightarrow> heap \<Rightarrow> (nat \<times> heap) kresult" where
  "kmalloc_aligned_checked hs hz sz alignment hp =
     (if sz = 0 then Panic ''kmalloc_aligned: size is 0''
      else if alignment = 0 then Panic ''kmalloc_aligned: alignment is 0''
      else if alignment AND (alignment - 1) \<noteq> 0 then Panic ''kmalloc_aligned: alignment not power of 2''
      else if sz > hz then Panic ''kmalloc_aligned: size too large''
      else kbind (kmalloc_aligned_impl hs hz sz alignment hp) (\<lambda>(r, hp1).
        case r of None \<Rightarrow> Panic ''kmalloc_aligned: out of memory'' | Some p \<Rightarrow> Done (p, hp1)))"

definition kfree_aligned_checked :: "nat \<Rightarrow> nat \<Rightarrow> nat option \<Rightarrow> heap \<Rightarrow> heap kresult" where
  "kfree_aligned_checked hs hz ptr hp =
     (case ptr of
        None \<Rightarrow> Done hp
      | Some p \<Rightarrow> if out_of_heap hs hz p then Panic ''kfree_aligned: pointer out of heap range'' else kfree_aligned_impl ptr hp)"

definition heap_init :: "nat \<Rightarrow> nat \<Rightarrow> heap \<Rightarrow> heap kresult" where
  "heap_init hs hz hp = alloc_init hs hz hp"

section \<open>Powers of two and stored pointers\<close>

lemma and_pred_power: "0 < n \<Longrightarrow> n AND (n - 1) = 0 \<Longrightarrow> \<exists>k. n = 2 ^ k" for n :: nat
proof (induction n rule: less_induct)
  case (less n)
  show ?case
  proof (cases "even n")
    case True
    then obtain m where m: "n = 2 * m" by (elim evenE)
    have m0: "0 < m" using less.prems(1) m by simp
    have "n - 1 = 2 * (m - 1) + 1" using m m0 by simp
    then have "n AND (n - 1) = 2 * (m AND (m - 1))" unfolding m by (simp add: and_rec [of "2 * m"] and_rec [of _ "2 * _ + 1"])
    then have "m AND (m - 1) = 0" using less.prems(2) by simp
    from less.IH [OF _ m0 this] m m0 obtain k where "m = 2 ^ k" by auto
    then have "n = 2 ^ Suc k" using m by simp
    then show ?thesis ..
  next
    case False
    then obtain m where m: "n = 2 * m + 1" by (elim oddE)
    have "n AND (n - 1) = 2 * m" unfolding m by (simp add: and_rec [of "Suc (2 * m)"])
    with less.prems(2) m have "n = 2 ^ 0" by simp
    then show ?thesis by blast
  qed
qed

lemma word_and_not_mask: "unat ((w :: 'a::len word) AND NOT (mask k)) = unat w div 2 ^ k * 2 ^ k"
proof -
  have e: "w AND NOT (mask k) = w - take_bit k w"
  proof -
    have "push_bit k (drop_bit k w) = w AND NOT (mask k)"
      by (rule bit_eqI) (auto simp: bit_push_bit_iff bit_drop_bit_eq bit_and_iff bit_not_iff bit_mask_iff not_le)
    moreover have "push_bit k (drop_bit k w) + take_bit k w = w" by (rule bits_ident)
    ultimately show ?thesis by (metis add_diff_cancel_right')
  qed
  have t: "unat (take_bit k w) = unat w mod 2 ^ k" unfolding unsigned_take_bit_eq by (rule take_bit_nat_def)
  have "unat (take_bit k w) \<le> unat w" by (simp add: t)
  then have "unat (w - take_bit k w) = unat w - unat w mod 2 ^ k" by (simp add: unat_sub word_le_nat_alt t)
  then show ?thesis unfolding e by (simp add: minus_mod_eq_div_mult)
qed

lemma unat_small: "n < two64 \<Longrightarrow> unat (word_of_nat n :: u64) = n"
  by (simp add: unsigned_of_nat take_bit_nat_eq_self)

lemma align_up_eq:
  assumes "k < 64" "raw + 8 + 2 ^ k < two64"
  shows "align_up raw (2 ^ k) = align_down (2 ^ k) (raw + 8 + 2 ^ k - 1)"
proof -
  have m: "(word_of_nat (2 ^ k) - 1 :: u64) = mask k" by (simp add: mask_eq_exp_minus_1)
  have "(word_of_nat raw + 8 + word_of_nat (2 ^ k) - 1 :: u64) = word_of_nat (raw + 8 + 2 ^ k - 1)"
    by (simp add: of_nat_diff)
  moreover have "unat (word_of_nat (raw + 8 + 2 ^ k - 1) :: u64) = raw + 8 + 2 ^ k - 1"
    by (rule unat_small) (use assms in simp)
  ultimately show ?thesis unfolding align_up_def align_down_def m word_and_not_mask by simp
qed

lemma load_store64:
  assumes "v < two64"
  shows "load64 a (store64 a v hp) = v"
proof -
  have "unat (word_of_nat (v div 256 ^ i) :: u8) = v div 256 ^ i mod 256" for i by (simp add: unat_of_nat)
  then have "load64 a (store64 a v hp) = (\<Sum>i < 8. (v div 256 ^ i mod 256) * 256 ^ i)" by (simp add: load64_def store64_def)
  also have "\<dots> = v mod 256 ^ 8"
  proof -
    have "(\<Sum>i < n. (v div 256 ^ i mod 256) * 256 ^ i) = v mod 256 ^ n" for n
    proof (induction n)
      case (Suc n)
      have "v mod 256 ^ Suc n = 256 ^ n * (v div 256 ^ n mod 256) + v mod 256 ^ n"
        by (simp add: mod_mult2_eq [of v "256 ^ n" 256] mult.commute [of 256])
      with Suc show ?case by (simp add: mult.commute)
    qed simp
    then show ?thesis .
  qed
  finally show ?thesis using assms by simp
qed


lemma align_up_ok:
  assumes "k < 64" "raw + 8 + 2 ^ k < two64"
  shows "2 ^ k dvd align_up raw (2 ^ k)" "raw + 8 \<le> align_up raw (2 ^ k)" "align_up raw (2 ^ k) < raw + 8 + 2 ^ k"
proof -
  let ?x = "raw + 8 + 2 ^ k - 1"
  have e: "align_up raw (2 ^ k) = ?x div 2 ^ k * 2 ^ k" using align_up_eq [OF assms] by (simp add: align_down_def)
  then show "2 ^ k dvd align_up raw (2 ^ k)" by simp
  have d: "?x div 2 ^ k * 2 ^ k + ?x mod 2 ^ k = ?x" by (rule div_mult_mod_eq)
  have m: "?x mod 2 ^ k < 2 ^ k" by simp
  have p: "(0::nat) < 2 ^ k" by simp
  show "raw + 8 \<le> align_up raw (2 ^ k)" "align_up raw (2 ^ k) < raw + 8 + 2 ^ k" using d m p unfolding e by linarith+
qed

lemma and_pred_exp: "(2 ^ k :: nat) AND (2 ^ k - 1) = 0"
proof -
  have "(2 ^ k :: nat) AND mask k = take_bit k (2 ^ k)" by (simp only: take_bit_eq_mask)
  also have "\<dots> = 0" by (simp add: take_bit_eq_mod)
  finally show ?thesis by (simp only: mask_eq_exp_minus_1)
qed

section \<open>Live blocks\<close>

lemma heap_live_bound:
  assumes "heap_live hp M" "M p = Some cap"
  shows "0 < p" "p + cap < two64" "heap_start hp \<le> p" "p < heap_end hp"
proof -
  obtain bs fl where rep: "heap_rep hp bs fl" and M: "M = live_of bs" using assms(1) by (auto simp: heap_live_def)
  obtain xs a s ys where b: "bs = xs @ (a, s, False) # ys" "p = a + HDR" "cap = s - (HDR + FTR)"
    using live_block [OF rep] assms(2) M by metis
  note d = heap_repD [OF rep] and t = tiled_split [OF heap_repD(5) [OF rep, unfolded b(1)]]
  show "0 < p" "p + cap < two64" "heap_start hp \<le> p" "p < heap_end hp" using b(2,3) t d by simp_all
qed

lemma heap_live_payload [simp]: "heap_live (hp\<lparr>payload := f\<rparr>) M = heap_live hp M"
  by (simp add: heap_live_def)

lemma load64_cong: "(\<And>i. i < 8 \<Longrightarrow> payload hp (a + i) = payload hp' (a + i)) \<Longrightarrow> load64 a hp = load64 a hp'"
  by (simp add: load64_def)

lemma kmalloc_impl_law:
  "heap_live hp M \<Longrightarrow> 0 < n \<Longrightarrow> n \<le> ALLOC_LIMIT \<Longrightarrow>
   kmalloc_impl hs hz n hp = Done (None, hp) \<or>
   (\<exists>p hp' cap. kmalloc_impl hs hz n hp = Done (Some p, hp') \<and> M p = None \<and> n \<le> cap \<and> heap_live hp' (M(p \<mapsto> cap)) \<and>
      (\<forall>x. payload hp' x = (if p \<le> x \<and> x < p + n then 0 else payload hp x)))"
  using kheap.get_law [of hp M n hs hz] by (simp add: kmalloc_impl_def)

section \<open>Properties\<close>

text \<open>
  Aligned allocation and its release. For a power of two \<open>2 ^ k\<close> the call either fails and leaves
  the heap as it was, or returns an address that is a multiple of \<open>2 ^ k\<close>, whose \<open>n\<close> bytes are zero and
  lie within one newly live block, eight bytes or more after its start; nothing outside that block
  changes. Releasing the address gives back exactly that block, in whatever state the heap is by
  then, as long as the block is live and the eight bytes before the address were left alone.
\<close>

theorem kmem_aligned_roundtrip:
  assumes "heap_live hp M" "0 < n" "k < 64" "n + 2 ^ k + 7 \<le> ALLOC_LIMIT"
  shows "kmalloc_aligned_impl hs hz n (2 ^ k) hp = Done (None, hp) \<or>
     (\<exists>p raw cap hp'. kmalloc_aligned_impl hs hz n (2 ^ k) hp = Done (Some p, hp') \<and>
        2 ^ k dvd p \<and> M raw = None \<and> raw + 8 \<le> p \<and> p + n \<le> raw + cap \<and> heap_live hp' (M(raw \<mapsto> cap)) \<and>
        (\<forall>x. p \<le> x \<and> x < p + n \<longrightarrow> payload hp' x = 0) \<and>
        (\<forall>x. x < raw \<or> raw + cap \<le> x \<longrightarrow> payload hp' x = payload hp x) \<and>
        (\<forall>hp2 M2. heap_live hp2 M2 \<and> M2 raw = Some cap \<and> (\<forall>x. p - 8 \<le> x \<and> x < p \<longrightarrow> payload hp2 x = payload hp' x) \<longrightarrow>
           (\<exists>hp3. kfree_aligned_impl (Some p) hp2 = Done hp3 \<and> heap_live hp3 (M2(raw := None)) \<and> payload hp3 = payload hp2)))"
proof -
  let ?n = "n + 2 ^ k + 7"
  have p2: "(1::nat) \<le> 2 ^ k" by simp
  have sz: "add64 (sub64 (add64 n (2 ^ k)) 1) 8 = ?n" using assms(2,4) p2 by simp
  have aligned: "kmalloc_aligned_impl hs hz n (2 ^ k) hp = kbind (kmalloc_impl hs hz ?n hp) (\<lambda>(raw, hp1).
          case raw of
            None \<Rightarrow> Done (None, hp1)
          | Some raw_ptr \<Rightarrow>
              (let aligned = align_up raw_ptr (2 ^ k) in
               Done (Some aligned, store64 (sub64 aligned 8) raw_ptr hp1)))"
    using assms(2) and_pred_exp [of k] unfolding kmalloc_aligned_impl_def sz by simp
  have "0 < ?n" by simp
  from kmalloc_impl_law [OF assms(1) this assms(4), of hs hz] show ?thesis
  proof (elim disjE exE conjE)
    assume "kmalloc_impl hs hz ?n hp = Done (None, hp)"
    then show ?thesis unfolding aligned by simp
  next
    fix raw hp1 cap
    assume g: "kmalloc_impl hs hz ?n hp = Done (Some raw, hp1)" "M raw = None" "?n \<le> cap" "heap_live hp1 (M(raw \<mapsto> cap))"
      "\<forall>x. payload hp1 x = (if raw \<le> x \<and> x < raw + ?n then 0 else payload hp x)"
    have b: "0 < raw" "raw + cap < two64" using heap_live_bound(1,2) [OF g(4), of raw cap] by simp_all
    define p where "p = align_up raw (2 ^ k)"
    have r: "raw + 8 + 2 ^ k < two64" using b(2) g(3) assms(2) by linarith
    note a = align_up_ok [OF assms(3) r, folded p_def]
    have pn: "p + n \<le> raw + cap" "p < two64" using a(3) g(3) b(2) by linarith+
    have p8: "sub64 p 8 = p - 8" using a(2) pn(2) by simp
    let ?hp' = "store64 (p - 8) raw hp1"
    have res: "kmalloc_aligned_impl hs hz n (2 ^ k) hp = Done (Some p, ?hp')"
      unfolding aligned g(1) using p8 by (simp add: Let_def p_def)
    have live: "heap_live ?hp' (M(raw \<mapsto> cap))" using g(4) by (simp add: store64_def)
    have pay: "x < p - 8 \<or> p \<le> x \<Longrightarrow> payload ?hp' x = payload hp1 x" for x
      using a(2) by (auto simp: store64_def)
    have zero: "payload ?hp' x = 0" if "p \<le> x \<and> x < p + n" for x
      using that a(2,3) g(5) pay [of x] by simp
    have same: "payload ?hp' x = payload hp x" if "x < raw \<or> raw + cap \<le> x" for x
    proof -
      have "x < p - 8 \<or> p \<le> x" "\<not> (raw \<le> x \<and> x < raw + ?n)" using that a(2) pn(1) g(3) assms(2) by linarith+
      with pay g(5) show ?thesis by presburger
    qed
    have free: "\<exists>hp3. kfree_aligned_impl (Some p) hp2 = Done hp3 \<and> heap_live hp3 (M2(raw := None)) \<and> payload hp3 = payload hp2"
      if h: "heap_live hp2 M2" "M2 raw = Some cap" "\<forall>x. p - 8 \<le> x \<and> x < p \<longrightarrow> payload hp2 x = payload ?hp' x" for hp2 M2
    proof -
      have "load64 (p - 8) hp2 = load64 (p - 8) ?hp'" using h(3) a(2) by (intro load64_cong) (metis add_lessD1 le_add1 le_add_diff_inverse2 nat_add_left_cancel_less add_leD2 add.commute)
      then have "load64 (p - 8) hp2 = raw" using load_store64 [of raw "p - 8" hp1] b(2) by simp
      then have "kfree_aligned_impl (Some p) hp2 = alloc_free (Some raw) hp2"
        using b(1) p8 by (simp add: kfree_aligned_impl_def kfree_impl_def Let_def)
      with kheap.put_law [OF h(1,2)] show ?thesis by simp
    qed
    show ?thesis using res a(1,2) g(2) pn(1) live zero same free by blast
  qed
qed

text \<open>
  The checked and the trying interface fail on exactly the same requests: a size of 0, a size
  larger than the heap, or no free block that holds it. The checked one then panics with the message
  that names the reason; the other returns NULL, never panics, and leaves the heap as it was. On
  every other request both return the same block.
\<close>

theorem kmalloc_checked_try:
  assumes "heap_live hp M" "hz \<le> ALLOC_LIMIT"
  shows "(case kmalloc_checked hs hz n hp of
       Done (p, hp') \<Rightarrow> kmalloc_try hs hz False n hp = Done (Some p, hp') \<and> M p = None \<and> (\<exists>cap. n \<le> cap \<and> heap_live hp' (M(p \<mapsto> cap)))
     | Panic m \<Rightarrow> kmalloc_try hs hz False n hp = Done (None, hp) \<and>
         (n = 0 \<and> m = ''kmalloc: size is 0'' \<or> n > hz \<and> m = ''kmalloc: size too large (possible overflow)'' \<or>
          0 < n \<and> n \<le> hz \<and> alloc hs hz n hp = Done (None, hp) \<and> m = ''kmalloc: out of memory'')
     | Stuck \<Rightarrow> False) \<and>
     kmalloc_try hs hz True n hp = Done (None, hp)"
proof -
  have f: "kmalloc_try hs hz True n hp = Done (None, hp)" by (simp add: kmalloc_try_def)
  consider (zero) "n = 0" | (large) "n > hz" | (fit) "0 < n" "n \<le> hz" by linarith
  then show ?thesis
  proof cases
    case fit
    then have "n \<le> ALLOC_LIMIT" using assms(2) by linarith
    from kmalloc_impl_law [OF assms(1) fit(1) this, of hs hz] fit f show ?thesis
      by (elim disjE exE conjE) (auto simp: kmalloc_checked_def kmalloc_try_def kmalloc_impl_def)
  qed (auto simp: kmalloc_checked_def kmalloc_try_def)
qed

text \<open>
  The checked release. NULL is accepted and nothing happens; an address below or beyond the heap
  is refused before the heap is touched; a live block is released. The checked resize of a live block
  to size 0 is that release.
\<close>

theorem kfree_checked_spec:
  assumes "heap_live hp M" "heap_start hp = hs" "heap_end hp = hs + hz" "hs + hz < two64"
  shows "kfree_checked hs hz None hp = Done hp \<and>
     (\<forall>p. p < hs \<or> hs + hz \<le> p \<longrightarrow> kfree_checked hs hz (Some p) hp = Panic ''kfree: pointer out of heap range'') \<and>
     (\<forall>p cap. M p = Some cap \<longrightarrow> (\<exists>hp'. kfree_checked hs hz (Some p) hp = Done hp' \<and>
        krealloc_checked hs hz (Some p) 0 hp = Done (None, hp') \<and> heap_live hp' (M(p := None)) \<and> payload hp' = payload hp))"
proof (intro conjI allI impI)
  show "kfree_checked hs hz None hp = Done hp" by (simp add: kfree_checked_def)
next
  fix p assume "p < hs \<or> hs + hz \<le> p"
  then show "kfree_checked hs hz (Some p) hp = Panic ''kfree: pointer out of heap range''"
    using assms(4) by (auto simp: kfree_checked_def out_of_heap_def)
next
  fix p cap assume p: "M p = Some cap"
  have "\<not> out_of_heap hs hz p" using heap_live_bound(3,4) [OF assms(1) p] assms(2-4) by (simp add: out_of_heap_def)
  then have "kfree_checked hs hz (Some p) hp = alloc_free (Some p) hp" by (simp add: kfree_checked_def kfree_impl_def)
  with kheap.put_law [OF assms(1) p] show "\<exists>hp'. kfree_checked hs hz (Some p) hp = Done hp' \<and>
        krealloc_checked hs hz (Some p) 0 hp = Done (None, hp') \<and> heap_live hp' (M(p := None)) \<and> payload hp' = payload hp"
    by (auto simp: krealloc_checked_def)
qed

section \<open>Witnesses\<close>

theorem kmem_aligned_roundtrip_witness:
  "kmalloc_aligned_impl 0x800000 0x1800000 100 (2 ^ 12) heap_demo = Done (None, heap_demo) \<or>
   (\<exists>p hp'. kmalloc_aligned_impl 0x800000 0x1800000 100 (2 ^ 12) heap_demo = Done (Some p, hp') \<and> 2 ^ 12 dvd p \<and>
      (\<forall>x. p \<le> x \<and> x < p + 100 \<longrightarrow> payload hp' x = 0) \<and> (\<exists>hp3. kfree_aligned_impl (Some p) hp' = Done hp3))"
  using kmem_aligned_roundtrip [OF heap_demo_live, of 100 12 "0x800000" "0x1800000"] by fastforce

theorem kmalloc_checked_try_witness:
  "kmalloc_checked 0x800000 0x1800000 0 heap_demo = Panic ''kmalloc: size is 0'' \<and> kmalloc_try 0x800000 0x1800000 False 0 heap_demo = Done (None, heap_demo)"
  using kmalloc_checked_try [OF heap_demo_live, of "0x1800000" "0x800000" 0] by (simp add: kmalloc_checked_def)

theorem kfree_checked_spec_witness:
  "(\<exists>hp'. kfree_checked 0x800000 0x1800000 (Some 0x800020) heap_demo = Done hp' \<and> heap_live hp' ([0x800020 \<mapsto> 112](0x800020 := None))) \<and>
   kfree_checked 0x800000 0x1800000 (Some 0x40) heap_demo = Panic ''kfree: pointer out of heap range''"
proof -
  have "heap_start heap_demo = 0x800000" "heap_end heap_demo = 0x800000 + 0x1800000" by (simp_all add: heap_demo_def)
  note s = kfree_checked_spec [OF heap_demo_live this]
  have "(0x800000 + 0x1800000 :: nat) < two64" by simp
  note s = s [OF this]
  have "[0x800020 \<mapsto> 112] 0x800020 = Some (112::nat)" by simp
  with s show ?thesis by force
qed
end
