(* ===== verification/Pte.thy ===== *)
theory Pte
  imports Prelude
begin

text \<open>
  The descriptors of the x86-64 page tables (\<^verbatim>\<open>arch/x86-64/sources/mm_ops.c\<close>) and their flags
  (\<^verbatim>\<open>mm/paging.h\<close>). Descriptors and flags are 64-bit words, addresses are numbers. The lemmas
  read a descriptor bit by bit: which address it holds, whether it is present, large, for user
  mode, writable, copy-on-write, executable.
\<close>

section \<open>Descriptors\<close>

abbreviation PAGE_PRESENT :: u64 where "PAGE_PRESENT \<equiv> 0x1"
abbreviation PAGE_RW :: u64 where "PAGE_RW \<equiv> 0x2"
abbreviation PAGE_USER :: u64 where "PAGE_USER \<equiv> 0x4"
abbreviation PAGE_SIZE_2MB_FLAG :: u64 where "PAGE_SIZE_2MB_FLAG \<equiv> 0x80"
abbreviation PAGE_GLOBAL :: u64 where "PAGE_GLOBAL \<equiv> 0x100"
abbreviation PAGE_COW :: u64 where "PAGE_COW \<equiv> 0x200"
abbreviation PAGE_NX :: u64 where "PAGE_NX \<equiv> 0x8000000000000000"
abbreviation PAGE_EXEC :: u64 where "PAGE_EXEC \<equiv> 0x0010000000000000"
abbreviation PAGE_PTE_PFN_MASK :: u64 where "PAGE_PTE_PFN_MASK \<equiv> 0x000FFFFFFFFFF000"
abbreviation PAGE_SIZE_4KB :: nat where "PAGE_SIZE_4KB \<equiv> 4096"
abbreviation PAGE_SIZE_2MB :: nat where "PAGE_SIZE_2MB \<equiv> 0x200000"

definition mm_va_indices :: "nat \<Rightarrow> nat \<times> nat \<times> nat \<times> nat" where
  "mm_va_indices va = (va div 2 ^ 39 mod 512, va div 2 ^ 30 mod 512, va div 2 ^ 21 mod 512, va div 2 ^ 12 mod 512)"

definition mm_pte_present :: "u64 \<Rightarrow> bool" where
  "mm_pte_present e \<longleftrightarrow> e AND PAGE_PRESENT \<noteq> 0"

definition mm_pte_large :: "u64 \<Rightarrow> bool" where
  "mm_pte_large e \<longleftrightarrow> mm_pte_present e \<and> e AND PAGE_SIZE_2MB_FLAG \<noteq> 0"

definition mm_pte_phys :: "u64 \<Rightarrow> nat" where
  "mm_pte_phys e = unat (e AND PAGE_PTE_PFN_MASK)"

definition mm_make_table_pte :: "nat \<Rightarrow> bool \<Rightarrow> u64" where
  "mm_make_table_pte phys user =
     (let e = (word_of_nat phys AND PAGE_PTE_PFN_MASK) OR PAGE_PRESENT OR PAGE_RW in
      if user then e OR PAGE_USER else e)"

definition mm_make_leaf_pte :: "nat \<Rightarrow> u64 \<Rightarrow> bool \<Rightarrow> u64" where
  "mm_make_leaf_pte phys flags12 exec =
     (let e = (word_of_nat phys AND PAGE_PTE_PFN_MASK) OR (flags12 AND 0xFFF) OR PAGE_PRESENT in
      if exec then e else e OR PAGE_NX)"

definition mm_pte_set_user :: "u64 \<Rightarrow> u64" where
  "mm_pte_set_user e = e OR PAGE_USER"

section \<open>Bits of the masks\<close>

declare bit_numeral_word_iff [simp del]

text \<open>A page-aligned address that a descriptor can hold.\<close>

definition frame_addr :: "nat \<Rightarrow> bool" where
  "frame_addr a \<longleftrightarrow> 4096 dvd a \<and> a < 2 ^ 52"

lemma and_flag: "k < 64 \<Longrightarrow> m = bit_mask k \<Longrightarrow> (e :: u64) AND m \<noteq> 0 \<longleftrightarrow> bit e k"
  using and_bit_mask_neq_0 [where ?'a = 64] by simp

lemma flag_tests:
  "e AND PAGE_PRESENT \<noteq> 0 \<longleftrightarrow> bit e 0" "e AND PAGE_RW \<noteq> 0 \<longleftrightarrow> bit e 1" "e AND PAGE_USER \<noteq> 0 \<longleftrightarrow> bit e 2"
  "e AND PAGE_SIZE_2MB_FLAG \<noteq> 0 \<longleftrightarrow> bit e 7" "e AND PAGE_GLOBAL \<noteq> 0 \<longleftrightarrow> bit e 8" "e AND PAGE_COW \<noteq> 0 \<longleftrightarrow> bit e 9"
  "e AND PAGE_EXEC \<noteq> 0 \<longleftrightarrow> bit e 52" "e AND PAGE_NX \<noteq> 0 \<longleftrightarrow> bit e 63"
  by (rule and_flag; simp add: bit_mask_def)+

lemma pfn_mask: "PAGE_PTE_PFN_MASK = push_bit 12 (mask 40)"
  by (simp add: mask_eq_exp_minus_1 push_bit_eq_mult)

lemma bit_pfn: "bit PAGE_PTE_PFN_MASK n \<longleftrightarrow> 12 \<le> n \<and> n < 52"
  unfolding pfn_mask by (auto simp: bit_push_bit_iff bit_mask_iff)

lemma bit_low: "bit (0xFFF :: u64) n \<longleftrightarrow> n < 12"
proof -
  have e: "(0xFFF :: u64) = mask 12" by (simp add: mask_eq_exp_minus_1)
  show ?thesis unfolding e by (auto simp: bit_mask_iff)
qed

lemma bit_flag: "k < 64 \<Longrightarrow> m = bit_mask k \<Longrightarrow> bit (m :: u64) n \<longleftrightarrow> n = k"
  using bit_bit_mask [where ?'a = 64, of k n] by auto

lemma bit_flags:
  "bit PAGE_PRESENT n \<longleftrightarrow> n = 0" "bit PAGE_RW n \<longleftrightarrow> n = 1" "bit PAGE_USER n \<longleftrightarrow> n = 2"
  "bit PAGE_SIZE_2MB_FLAG n \<longleftrightarrow> n = 7" "bit PAGE_GLOBAL n \<longleftrightarrow> n = 8" "bit PAGE_COW n \<longleftrightarrow> n = 9"
  "bit PAGE_EXEC n \<longleftrightarrow> n = 52" "bit PAGE_NX n \<longleftrightarrow> n = 63"
  by (rule bit_flag; simp add: bit_mask_def)+

lemma bit_frame_addr: "frame_addr a \<Longrightarrow> bit (word_of_nat a :: u64) n \<Longrightarrow> 12 \<le> n \<and> n < 52"
proof -
  assume f: "frame_addr a" and b: "bit (word_of_nat a :: u64) n"
  obtain k where k: "a = 2 ^ 12 * k" "k < 2 ^ 40" using f by (auto simp: frame_addr_def dvd_def)
  have "bit a n" using b by (simp add: bit_of_nat_iff)
  moreover have "a = push_bit 12 k" using k by (simp add: push_bit_eq_mult)
  ultimately have "12 \<le> n" "bit k (n - 12)" by (simp_all add: bit_push_bit_iff)
  moreover have "take_bit 40 k = k" using k(2) by (simp add: take_bit_nat_eq_self)
  ultimately show ?thesis using bit_take_bit_iff [of 40 k "n - 12"] by simp
qed


section \<open>Reading a descriptor\<close>

lemma pte_bits: "mm_pte_present e \<longleftrightarrow> bit e 0" "mm_pte_large e \<longleftrightarrow> bit e 0 \<and> bit e 7"
  by (simp_all only: mm_pte_present_def mm_pte_large_def flag_tests)

lemma pte_phys_eqI: "(\<And>n. 12 \<le> n \<Longrightarrow> n < 52 \<Longrightarrow> bit e n = bit e' n) \<Longrightarrow> mm_pte_phys e = mm_pte_phys e'"
  unfolding mm_pte_phys_def by (rule arg_cong [where f = unat], rule bit_eqI) (auto simp: bit_and_iff bit_pfn)

lemma pte_phys_of: "frame_addr a \<Longrightarrow> mm_pte_phys (word_of_nat a) = a"
proof -
  assume f: "frame_addr a"
  have "(word_of_nat a :: u64) AND PAGE_PTE_PFN_MASK = word_of_nat a"
    by (rule bit_eqI) (use bit_frame_addr [OF f] in \<open>auto simp: bit_and_iff bit_pfn\<close>)
  moreover have "unat (word_of_nat a :: u64) = a" using f by (simp add: frame_addr_def unsigned_of_nat take_bit_nat_eq_self)
  ultimately show ?thesis by (simp add: mm_pte_phys_def)
qed

lemma frame_addr_phys: "frame_addr (mm_pte_phys e)"
proof -
  define w where "w = e AND PAGE_PTE_PFN_MASK"
  have b: "bit w n \<Longrightarrow> 12 \<le> n \<and> n < 52" for n unfolding w_def by (simp add: bit_and_iff bit_pfn)
  have "take_bit 52 w = w" by (rule bit_eqI) (use b in \<open>auto simp: bit_take_bit_iff\<close>)
  then have "unat w = take_bit 52 (unat w)" by (metis unsigned_take_bit_eq)
  then have lt: "unat w < 2 ^ 52" by (metis take_bit_nat_less_exp)
  have "take_bit 12 w = 0" by (rule bit_eqI) (use b in \<open>fastforce simp: bit_take_bit_iff\<close>)
  then have "take_bit 12 (unat w) = 0" by (metis unsigned_take_bit_eq unsigned_0)
  with lt show ?thesis by (simp add: mm_pte_phys_def frame_addr_def take_bit_eq_mod dvd_eq_mod_eq_0 flip: w_def)
qed

lemma bit_table_pte:
  "frame_addr a \<Longrightarrow> bit (mm_make_table_pte a u) n \<longleftrightarrow> bit (word_of_nat a :: u64) n \<or> n = 0 \<or> n = 1 \<or> u \<and> n = 2"
  using bit_frame_addr [of a n] unfolding mm_make_table_pte_def Let_def if_distrib [of "\<lambda>e. bit e n"] bit_or_iff bit_and_iff bit_pfn bit_flags
  by auto

lemma bit_leaf_pte:
  "frame_addr a \<Longrightarrow> bit (mm_make_leaf_pte a f x) n \<longleftrightarrow>
     bit (word_of_nat a :: u64) n \<or> bit f n \<and> n < 12 \<or> n = 0 \<or> \<not> x \<and> n = 63"
  using bit_frame_addr [of a n] unfolding mm_make_leaf_pte_def Let_def if_distrib [of "\<lambda>e. bit e n"] bit_or_iff bit_and_iff bit_pfn bit_flags bit_low
  by auto

lemma bit_frame_addr_low: "frame_addr a \<Longrightarrow> n < 12 \<or> 52 \<le> n \<Longrightarrow> \<not> bit (word_of_nat a :: u64) n"
  using bit_frame_addr [of a n] by auto

lemma table_pte [simp]:
  assumes "frame_addr a"
  shows "mm_pte_present (mm_make_table_pte a u)" "\<not> mm_pte_large (mm_make_table_pte a u)" "mm_pte_phys (mm_make_table_pte a u) = a"
proof -
  show "mm_pte_present (mm_make_table_pte a u)" "\<not> mm_pte_large (mm_make_table_pte a u)"
    using bit_frame_addr_low [OF assms, of 7] by (simp_all add: pte_bits bit_table_pte [OF assms])
  have "mm_pte_phys (mm_make_table_pte a u) = mm_pte_phys (word_of_nat a)"
    by (rule pte_phys_eqI) (auto simp: bit_table_pte [OF assms])
  then show "mm_pte_phys (mm_make_table_pte a u) = a" using pte_phys_of [OF assms] by simp
qed

lemma leaf_pte [simp]:
  assumes "frame_addr a"
  shows "mm_pte_present (mm_make_leaf_pte a f x)" "mm_pte_phys (mm_make_leaf_pte a f x) = a"
proof -
  show "mm_pte_present (mm_make_leaf_pte a f x)" by (simp add: pte_bits bit_leaf_pte [OF assms])
  have "mm_pte_phys (mm_make_leaf_pte a f x) = mm_pte_phys (word_of_nat a)"
    by (rule pte_phys_eqI) (auto simp: bit_leaf_pte [OF assms])
  then show "mm_pte_phys (mm_make_leaf_pte a f x) = a" using pte_phys_of [OF assms] by simp
qed

lemma set_user_pte [simp]:
  "mm_pte_present (mm_pte_set_user e) = mm_pte_present e" "mm_pte_large (mm_pte_set_user e) = mm_pte_large e"
  "mm_pte_phys (mm_pte_set_user e) = mm_pte_phys e"
  by (auto simp: mm_pte_set_user_def pte_bits bit_or_iff bit_flags intro!: pte_phys_eqI)

lemma zero_pte [simp]: "\<not> mm_pte_present 0" "\<not> mm_pte_large 0"
  by (simp_all add: mm_pte_present_def mm_pte_large_def)

lemma large_present: "mm_pte_large e \<Longrightarrow> mm_pte_present e"
  by (simp add: mm_pte_large_def)

section \<open>Indices and addresses\<close>

lemma mm_va_indices_bound: "mm_va_indices va = (a, b, c, d) \<Longrightarrow> a < 512 \<and> b < 512 \<and> c < 512 \<and> d < 512"
  by (auto simp: mm_va_indices_def)

definition indices_va :: "nat \<Rightarrow> nat \<Rightarrow> nat \<Rightarrow> nat \<Rightarrow> nat" where
  "indices_va i4 i3 i2 i1 = push_bit 39 i4 OR push_bit 30 i3 OR push_bit 21 i2 OR push_bit 12 i1"

lemma nat_or_disjoint: "a < 2 ^ k \<Longrightarrow> push_bit k b OR a = b * 2 ^ k + a" for a b :: nat
proof -
  assume a: "a < 2 ^ k"
  have "push_bit k b AND a = 0"
  proof (rule bit_eqI)
    fix n
    have "bit a n \<Longrightarrow> n < k" using a by (metis bit_take_bit_iff take_bit_nat_eq_self)
    then show "bit (push_bit k b AND a) n = bit 0 n" by (auto simp: bit_and_iff bit_push_bit_iff)
  qed
  then have "push_bit k b OR a = push_bit k b + a" by (simp add: disjunctive_add_eq_or)
  then show ?thesis by (simp add: push_bit_eq_mult)
qed

lemma mm_va_indices_of:
  assumes "i4 < 512" "i3 < 512" "i2 < 512" "i1 < 512"
  shows "mm_va_indices (indices_va i4 i3 i2 i1) = (i4, i3, i2, i1)"
proof -
  have 1: "push_bit 12 i1 = i1 * 2 ^ 12" by (simp add: push_bit_eq_mult)
  have 2: "push_bit 21 i2 OR push_bit 12 i1 = i2 * 2 ^ 21 + i1 * 2 ^ 12" unfolding 1 by (rule nat_or_disjoint) (use assms in simp)
  have 3: "push_bit 30 i3 OR push_bit 21 i2 OR push_bit 12 i1 = i3 * 2 ^ 30 + (i2 * 2 ^ 21 + i1 * 2 ^ 12)"
    unfolding or.assoc 2 by (rule nat_or_disjoint) (use assms in simp)
  have 4: "indices_va i4 i3 i2 i1 = i4 * 2 ^ 39 + (i3 * 2 ^ 30 + (i2 * 2 ^ 21 + i1 * 2 ^ 12))"
    unfolding indices_va_def or.assoc 3 [unfolded or.assoc] by (rule nat_or_disjoint) (use assms in simp)
  have "(i4 * 2 ^ 39 + (i3 * 2 ^ 30 + (i2 * 2 ^ 21 + i1 * 2 ^ 12))) div 2 ^ 39 = i4" using assms by simp
  moreover have "(i4 * 2 ^ 39 + (i3 * 2 ^ 30 + (i2 * 2 ^ 21 + i1 * 2 ^ 12))) div 2 ^ 30 = i4 * 512 + i3" using assms by simp
  moreover have "(i4 * 2 ^ 39 + (i3 * 2 ^ 30 + (i2 * 2 ^ 21 + i1 * 2 ^ 12))) div 2 ^ 21 = i4 * 2 ^ 18 + i3 * 512 + i2" using assms by simp
  moreover have "(i4 * 2 ^ 39 + (i3 * 2 ^ 30 + (i2 * 2 ^ 21 + i1 * 2 ^ 12))) div 2 ^ 12 = i4 * 2 ^ 27 + i3 * 2 ^ 18 + i2 * 512 + i1" using assms by simp
  ultimately show ?thesis using assms unfolding mm_va_indices_def 4 by (simp add: mod_add_eq [symmetric])
qed
end
