(* ===== verification/Page_Walk.thy ===== *)
theory Page_Walk
  imports Pte
begin

text \<open>
  What a set of page tables means. \<open>walk\<close> follows table descriptors from a root along a list of
  indices; \<open>xl\<close> is the translation the processor computes: the physical page of the four indices of
  an address and the descriptor that maps it, which may be a large one on the way. \<open>pt_inv\<close> says that
  the tables reached from a set of roots are allocated and form trees, shared between two roots only
  in the upper (kernel) half and only as whole subtrees. The lemmas describe what writing one
  descriptor does to walks and translations.
\<close>

type_synonym table = "nat \<Rightarrow> u64"
type_synonym tables = "nat \<rightharpoonup> table"

section \<open>Walks and translations\<close>

definition ent :: "tables \<Rightarrow> nat \<Rightarrow> nat \<Rightarrow> u64" where
  "ent H t i = (case H t of None \<Rightarrow> 0 | Some T \<Rightarrow> T i)"

definition nxt_of :: "u64 \<Rightarrow> nat option" where
  "nxt_of e = (if mm_pte_present e \<and> \<not> mm_pte_large e \<and> mm_pte_phys e \<noteq> 0 then Some (mm_pte_phys e) else None)"

fun walk :: "tables \<Rightarrow> nat \<Rightarrow> nat list \<Rightarrow> nat option" where
  "walk H t [] = Some t"
| "walk H t (i # p) = (case nxt_of (ent H t i) of None \<Rightarrow> None | Some u \<Rightarrow> walk H u p)"

text \<open>The offset, in bytes, that the remaining indices select inside a large page.\<close>

fun page_off :: "nat list \<Rightarrow> nat" where
  "page_off [] = 0"
| "page_off (i # p) = i * 512 ^ length p * 4096 + page_off p"

fun xl :: "tables \<Rightarrow> nat \<Rightarrow> nat list \<Rightarrow> (nat \<times> u64) option" where
  "xl H t [] = None"
| "xl H t (i # p) =
     (let e = ent H t i in
      if \<not> mm_pte_present e then None
      else if p = [] then Some (mm_pte_phys e, e)
      else if mm_pte_large e then Some (mm_pte_phys e + page_off p, e)
      else case nxt_of e of None \<Rightarrow> None | Some u \<Rightarrow> xl H u p)"

definition valid_path :: "nat list \<Rightarrow> bool" where
  "valid_path p \<longleftrightarrow> length p \<le> 3 \<and> (\<forall>i \<in> set p. i < 512)"

definition pt_inv :: "nat set \<Rightarrow> tables \<Rightarrow> bool" where
  "pt_inv R H \<longleftrightarrow>
     (\<forall>a. H a \<noteq> None \<longrightarrow> a \<noteq> 0 \<and> frame_addr a) \<and>
     (\<forall>r \<in> R. \<forall>p t. valid_path p \<longrightarrow> walk H r p = Some t \<longrightarrow> H t \<noteq> None) \<and>
     (\<forall>r \<in> R. \<forall>s \<in> R. \<forall>p q t. valid_path p \<longrightarrow> valid_path q \<longrightarrow> walk H r p = Some t \<longrightarrow> walk H s q = Some t \<longrightarrow>
        p = q \<and> (r \<noteq> s \<longrightarrow> p \<noteq> [] \<and> 256 \<le> hd p)) \<and>
     (\<forall>r \<in> R. \<forall>s \<in> R. \<forall>p i t. valid_path (p @ [i]) \<longrightarrow> p \<noteq> [] \<longrightarrow> walk H r (p @ [i]) = Some t \<longrightarrow> walk H s (p @ [i]) = Some t \<longrightarrow>
        walk H r p = walk H s p)"

lemma pt_invD:
  assumes "pt_inv R H"
  shows "H a \<noteq> None \<Longrightarrow> a \<noteq> 0 \<and> frame_addr a"
    "r \<in> R \<Longrightarrow> valid_path p \<Longrightarrow> walk H r p = Some t \<Longrightarrow> H t \<noteq> None"
    "r \<in> R \<Longrightarrow> s \<in> R \<Longrightarrow> valid_path p \<Longrightarrow> valid_path q \<Longrightarrow> walk H r p = Some t \<Longrightarrow> walk H s q = Some t \<Longrightarrow>
       p = q \<and> (r \<noteq> s \<longrightarrow> p \<noteq> [] \<and> 256 \<le> hd p)"
    "r \<in> R \<Longrightarrow> s \<in> R \<Longrightarrow> valid_path (p @ [i]) \<Longrightarrow> p \<noteq> [] \<Longrightarrow> walk H r (p @ [i]) = Some t \<Longrightarrow> walk H s (p @ [i]) = Some t \<Longrightarrow>
       walk H r p = walk H s p"
  using assms unfolding pt_inv_def by blast+

lemma walk_append: "walk H r (p @ q) = (case walk H r p of None \<Rightarrow> None | Some t \<Rightarrow> walk H t q)"
  by (induction p arbitrary: r) (auto split: option.split)

lemma nxt_of_Some: "nxt_of e = Some u \<longleftrightarrow> mm_pte_present e \<and> \<not> mm_pte_large e \<and> mm_pte_phys e = u \<and> u \<noteq> 0"
  by (auto simp: nxt_of_def)

lemma xl_walk: "walk H r p = Some t \<Longrightarrow> q \<noteq> [] \<Longrightarrow> xl H r (p @ q) = xl H t q"
proof (induction p arbitrary: r)
  case (Cons i p)
  then obtain u where "nxt_of (ent H r i) = Some u" "walk H u p = Some t" by (auto split: option.splits)
  moreover from this(1) have "mm_pte_present (ent H r i)" "\<not> mm_pte_large (ent H r i)" by (simp_all add: nxt_of_Some)
  ultimately show ?case using Cons by (simp add: Let_def)
qed simp

text \<open>A change that a walk does not pass over does not change the walk, nor the translation.\<close>

lemma walk_same:
  "(\<And>q j s u. p = q @ j # s \<Longrightarrow> walk H r q = Some u \<Longrightarrow> nxt_of (ent H' u j) = nxt_of (ent H u j)) \<Longrightarrow> walk H' r p = walk H r p"
proof (induction p arbitrary: r)
  case (Cons i p)
  have e: "nxt_of (ent H' r i) = nxt_of (ent H r i)" using Cons.prems [of "[]" i p r] by simp
  show ?case
  proof (cases "nxt_of (ent H r i)")
    case (Some u)
    have "walk H' u p = walk H u p"
      by (rule Cons.IH) (use Cons.prems [of "i # _"] Some in auto)
    with e Some show ?thesis by simp
  qed (use e in simp)
qed simp

lemma xl_same:
  "(\<And>q j s u. p = q @ j # s \<Longrightarrow> walk H r q = Some u \<Longrightarrow> ent H' u j = ent H u j) \<Longrightarrow> xl H' r p = xl H r p"
proof (induction p arbitrary: r)
  case (Cons i p)
  have e: "ent H' r i = ent H r i" using Cons.prems [of "[]" i p r] by simp
  have "xl H' u p = xl H u p" if "nxt_of (ent H r i) = Some u" for u
    by (rule Cons.IH) (use Cons.prems [of "i # _"] that in auto)
  with e show ?case by (simp add: Let_def split: option.split)
qed simp

section \<open>Writing one descriptor\<close>

text \<open>
  \<open>t\<close> is the table at path \<open>p\<close>; only its descriptor \<open>i\<close> differs, and tables that were not allocated.
\<close>

definition writes :: "nat set \<Rightarrow> tables \<Rightarrow> tables \<Rightarrow> nat \<Rightarrow> nat list \<Rightarrow> nat \<Rightarrow> nat \<Rightarrow> bool" where
  "writes R H H' r p t i \<longleftrightarrow> pt_inv R H \<and> r \<in> R \<and> valid_path p \<and> i < 512 \<and> walk H r p = Some t \<and>
     (\<forall>u j. H u \<noteq> None \<longrightarrow> \<not> (u = t \<and> j = i) \<longrightarrow> ent H' u j = ent H u j)"

text \<open>The paths from root \<open>s\<close> that pass over the descriptor.\<close>

definition hit :: "tables \<Rightarrow> nat list \<Rightarrow> nat \<Rightarrow> nat \<Rightarrow> nat \<Rightarrow> nat list \<Rightarrow> bool" where
  "hit H p t i s q \<longleftrightarrow> walk H s p = Some t \<and> (\<exists>z. q = p @ i # z)"

lemma writes_passes:
  assumes "writes R H H' r p t i" "s \<in> R" "length q \<le> 4" "\<forall>x \<in> set q. x < 512" "\<not> hit H p t i s q" "q = a @ j # z" "walk H s a = Some u"
  shows "ent H' u j = ent H u j"
proof -
  have w: "pt_inv R H" "r \<in> R" "valid_path p" "walk H r p = Some t" using assms(1) by (simp_all add: writes_def)
  have v: "valid_path a" using assms(3,4,6) by (auto simp: valid_path_def)
  have "H u \<noteq> None" by (rule pt_invD(2) [OF w(1) assms(2) v assms(7)])
  moreover have "\<not> (u = t \<and> j = i)"
  proof
    assume u: "u = t \<and> j = i"
    then have "a = p" using pt_invD(3) [OF w(1) assms(2) w(2) v w(3), of t] assms(7) w(4) by simp
    with assms(5-7) u show False by (auto simp: hit_def)
  qed
  ultimately show ?thesis using assms(1) by (simp add: writes_def)
qed

lemma writes_walk:
  assumes "writes R H H' r p t i" "s \<in> R" "valid_path q" "\<not> hit H p t i s q"
  shows "walk H' s q = walk H s q"
proof (rule walk_same)
  fix a j z u assume "q = a @ j # z" "walk H s a = Some u"
  with writes_passes [OF assms(1,2) _ _ assms(4)] assms(3) show "nxt_of (ent H' u j) = nxt_of (ent H u j)"
    by (simp add: valid_path_def)
qed

lemma writes_xl:
  assumes "writes R H H' r p t i" "s \<in> R" "length q \<le> 4" "\<forall>x \<in> set q. x < 512" "\<not> hit H p t i s q"
  shows "xl H' s q = xl H s q"
  by (rule xl_same) (rule writes_passes [OF assms])

lemma writes_stem: "writes R H H' r p t i \<Longrightarrow> s \<in> R \<Longrightarrow> walk H' s p = walk H s p"
  using writes_walk [of R H H' r p t i s p] by (simp add: hit_def writes_def)

lemma hit_root: "writes R H H' r p t i \<Longrightarrow> s \<in> R \<Longrightarrow> hit H p t i s q \<Longrightarrow> s \<noteq> r \<Longrightarrow> p \<noteq> [] \<and> 256 \<le> hd p"
  using pt_invD(3) [of R H s r p p t] by (auto simp: hit_def writes_def)


section \<open>Linking a new table\<close>

text \<open>
  A descriptor that pointed to no table now points to a table \<open>a\<close> that was not allocated. Above the
  last level the new table is empty.
\<close>

lemma link_walk:
  assumes w: "writes R H H' r p t i" and none: "nxt_of (ent H t i) = None" and new: "nxt_of (ent H' t i) = Some a"
    and empty: "length p = 2 \<or> (\<forall>j. nxt_of (ent H' a j) = None)" and s: "s \<in> R" and q: "valid_path q"
  shows "walk H' s q = (if walk H s p = Some t \<and> q = p @ [i] then Some a else walk H s q)"
proof (cases "hit H p t i s q")
  case True
  then obtain z where z: "walk H s p = Some t" "q = p @ i # z" by (auto simp: hit_def)
  have old: "walk H s q = None" using z none by (simp add: walk_append)
  have new': "walk H' s q = walk H' a z" using z new writes_stem [OF w s] by (simp add: walk_append)
  show ?thesis
  proof (cases z)
    case Nil
    then show ?thesis using z new' by simp
  next
    case (Cons j z')
    then have "nxt_of (ent H' a j) = None" using empty q z(2) by (auto simp: valid_path_def)
    then show ?thesis using Cons z old new' by simp
  qed
next
  case False
  then have "\<not> (walk H s p = Some t \<and> q = p @ [i])" by (auto simp: hit_def)
  with writes_walk [OF w s q False] show ?thesis by metis
qed

lemma link_inv:
  assumes w: "writes R H H' r p t i" and none: "nxt_of (ent H t i) = None" and new: "nxt_of (ent H' t i) = Some a"
    and empty: "length p = 2 \<or> (\<forall>j. nxt_of (ent H' a j) = None)"
    and a: "H a = None" "frame_addr a" "dom H' = insert a (dom H)"
  shows "pt_inv R H'"
proof -
  have inv: "pt_inv R H" and t: "r \<in> R" "valid_path p" "i < 512" "walk H r p = Some t" using w by (simp_all add: writes_def)
  note W = link_walk [OF w none new empty]
  have a0: "a \<noteq> 0" using new by (simp add: nxt_of_Some)
  have na: "walk H s q \<noteq> Some a" if "s \<in> R" "valid_path q" for s q using pt_invD(2) [OF inv that] a(1) by blast
  have vt: "valid_path q \<Longrightarrow> q = p @ [i] \<Longrightarrow> valid_path p" for q by (simp add: valid_path_def)
  have up: "hd (p @ [i]) = hd p" if "p \<noteq> []" using that by simp
  show ?thesis unfolding pt_inv_def
  proof (intro conjI ballI allI impI)
    fix x assume "H' x \<noteq> None"
    then have "x = a \<or> H x \<noteq> None" using a(3) by blast
    with a0 a(2) pt_invD(1) [OF inv] show "x \<noteq> 0" "frame_addr x" by blast+
  next
    fix s q u assume s: "s \<in> R" "valid_path q" "walk H' s q = Some u"
    have "u = a \<or> H u \<noteq> None" using s W [OF s(1,2)] pt_invD(2) [OF inv s(1,2)] by (auto split: if_splits)
    then show "H' u \<noteq> None" using a(3) by blast
  next
    fix s s' q q' u assume s: "s \<in> R" "s' \<in> R" "valid_path q" "valid_path q'" "walk H' s q = Some u" "walk H' s' q' = Some u"
    note W1 = W [OF s(1,3)] and W2 = W [OF s(2,4)]
    have both: "u = a \<Longrightarrow> walk H s p = Some t \<and> q = p @ [i] \<and> walk H s' p = Some t \<and> q' = p @ [i]"
      using s(5,6) W1 W2 na [OF s(1,3)] na [OF s(2,4)] by (auto split: if_splits)
    have none': "u \<noteq> a \<Longrightarrow> walk H s q = Some u \<and> walk H s' q' = Some u"
      using s(5,6) W1 W2 by (auto split: if_splits)
    have "q = q' \<and> (s \<noteq> s' \<longrightarrow> q \<noteq> [] \<and> 256 \<le> hd q)"
    proof (cases "u = a")
      case True
      then show ?thesis using both pt_invD(3) [OF inv s(1,2) t(2) t(2), of t] up by auto
    next
      case False
      then show ?thesis using none' pt_invD(3) [OF inv s(1-4), of u] by blast
    qed
    then show "q = q'" "s \<noteq> s' \<Longrightarrow> q \<noteq> []" "s \<noteq> s' \<Longrightarrow> 256 \<le> hd q" by auto
  next
    fix s s' q j u assume s: "s \<in> R" "s' \<in> R" "valid_path (q @ [j])" "q \<noteq> []" "walk H' s (q @ [j]) = Some u" "walk H' s' (q @ [j]) = Some u"
    have vq: "valid_path q" using s(3) by (auto simp: valid_path_def)
    note W1 = W [OF s(1,3)] and W2 = W [OF s(2,3)]
    show "walk H' s q = walk H' s' q"
    proof (cases "u = a")
      case True
      have "walk H s p = Some t \<and> q = p \<and> walk H s' p = Some t"
        using s(5,6) W1 W2 na [OF s(1,3)] na [OF s(2,3)] True by (auto split: if_splits)
      then show ?thesis using writes_stem [OF w s(1)] writes_stem [OF w s(2)] by simp
    next
      case False
      then have o: "walk H s (q @ [j]) = Some u" "walk H s' (q @ [j]) = Some u"
        using s(5,6) W1 W2 by (auto split: if_splits)
      then have "walk H s q \<noteq> None" "walk H s' q \<noteq> None" by (auto simp: walk_append split: option.splits)
      moreover have "walk H x q = None" if "walk H x p = Some t" "q = p @ [i]" for x using that none by (simp add: walk_append)
      ultimately have "walk H' s q = walk H s q" "walk H' s' q = walk H s' q" using W [OF s(1) vq] W [OF s(2) vq] by metis+
      then show ?thesis using pt_invD(4) [OF inv s(1-4) o] by simp
    qed
  qed
qed

lemma link_xl:
  assumes w: "writes R H H' r p t i" and s: "s \<in> R" and q: "length q = 4" "\<forall>x \<in> set q. x < 512"
    and old: "\<not> mm_pte_present (ent H t i)" and new: "nxt_of (ent H' t i) = Some a" and empty: "\<forall>j. \<not> mm_pte_present (ent H' a j)"
    and p: "length p \<le> 2"
  shows "xl H' s q = xl H s q"
proof (cases "hit H p t i s q")
  case True
  then obtain z where z: "walk H s p = Some t" "q = p @ i # z" by (auto simp: hit_def)
  then obtain j z' where "z = j # z'" using q(1) p by (cases z) auto
  moreover have "walk H' s p = Some t" using writes_stem [OF w s] z(1) by simp
  moreover have "mm_pte_present (ent H' t i)" "\<not> mm_pte_large (ent H' t i)" using new by (simp_all add: nxt_of_Some)
  ultimately show ?thesis using z old new empty by (simp add: xl_walk Let_def)
next
  case False
  show ?thesis by (rule writes_xl [OF w s _ q(2) False]) (use q(1) in simp)
qed

section \<open>Unlinking and freeing a table\<close>

text \<open>Cutting walks short keeps the invariant.\<close>

lemma cut_inv:
  assumes inv: "pt_inv R H" and dom: "dom H' = dom H"
    and cut: "\<And>s q. s \<in> R \<Longrightarrow> valid_path q \<Longrightarrow> walk H' s q = walk H s q \<or> walk H' s q = None"
  shows "pt_inv R H'"
proof -
  have old: "walk H' s q = Some u \<Longrightarrow> s \<in> R \<Longrightarrow> valid_path q \<Longrightarrow> walk H s q = Some u" for s q u using cut [of s q] by auto
  have d: "H' x \<noteq> None \<longleftrightarrow> H x \<noteq> None" for x using dom by blast
  show ?thesis unfolding pt_inv_def
  proof (intro conjI ballI allI impI)
    fix x assume "H' x \<noteq> None"
    then show "x \<noteq> 0" "frame_addr x" using pt_invD(1) [OF inv] d by blast+
  next
    fix s q u assume "s \<in> R" "valid_path q" "walk H' s q = Some u"
    then show "H' u \<noteq> None" using pt_invD(2) [OF inv] old d by blast
  next
    fix s s' q q' u assume s: "s \<in> R" "s' \<in> R" "valid_path q" "valid_path q'" "walk H' s q = Some u" "walk H' s' q' = Some u"
    from pt_invD(3) [OF inv s(1-4) old [OF s(5,1,3)] old [OF s(6,2,4)]]
    show "q = q'" "s \<noteq> s' \<Longrightarrow> q \<noteq> []" "s \<noteq> s' \<Longrightarrow> 256 \<le> hd q" by auto
  next
    fix s s' q j u assume s: "s \<in> R" "s' \<in> R" "valid_path (q @ [j])" "q \<noteq> []" "walk H' s (q @ [j]) = Some u" "walk H' s' (q @ [j]) = Some u"
    have vq: "valid_path q" using s(3) by (auto simp: valid_path_def)
    have "walk H' s q \<noteq> None" "walk H' s' q \<noteq> None" using s(5,6) by (auto simp: walk_append split: option.splits)
    then have "walk H' s q = walk H s q" "walk H' s' q = walk H s' q" using cut [OF s(1) vq] cut [OF s(2) vq] by auto
    with pt_invD(4) [OF inv s(1-4) old [OF s(5,1,3)] old [OF s(6,2,3)]] show "walk H' s q = walk H' s' q" by simp
  qed
qed

lemma clear_walk:
  assumes w: "writes R H H' r p t i" and none: "nxt_of (ent H' t i) = None" and s: "s \<in> R" "valid_path q"
  shows "walk H' s q = (if hit H p t i s q then None else walk H s q)"
proof (cases "hit H p t i s q")
  case True
  then obtain z where "walk H s p = Some t" "q = p @ i # z" by (auto simp: hit_def)
  with True none writes_stem [OF w s(1)] show ?thesis by (simp add: walk_append)
qed (use writes_walk [OF w s] in simp)

lemma free_unreached:
  assumes inv: "pt_inv R H" and na: "\<And>s q. s \<in> R \<Longrightarrow> valid_path q \<Longrightarrow> walk H s q \<noteq> Some a"
  shows "pt_inv R (H(a := None))" "s \<in> R \<Longrightarrow> valid_path q \<Longrightarrow> walk (H(a := None)) s q = walk H s q"
    "s \<in> R \<Longrightarrow> length q \<le> 4 \<Longrightarrow> \<forall>x \<in> set q. x < 512 \<Longrightarrow> xl (H(a := None)) s q = xl H s q"
proof -
  have e: "u \<noteq> a \<Longrightarrow> ent (H(a := None)) u j = ent H u j" for u j by (simp add: ent_def)
  have W: "walk (H(a := None)) s q = walk H s q" if "s \<in> R" "valid_path q" for s q
  proof (rule walk_same)
    fix b j z u assume b: "q = b @ j # z" "walk H s b = Some u"
    have "valid_path b" using that(2) b(1) by (auto simp: valid_path_def)
    then have "u \<noteq> a" using na [OF that(1)] b(2) by metis
    then show "nxt_of (ent (H(a := None)) u j) = nxt_of (ent H u j)" by (simp add: e)
  qed
  then show "s \<in> R \<Longrightarrow> valid_path q \<Longrightarrow> walk (H(a := None)) s q = walk H s q" .
  show "xl (H(a := None)) s q = xl H s q" if q: "s \<in> R" "length q \<le> 4" "\<forall>x \<in> set q. x < 512"
  proof (rule xl_same)
    fix b j z u assume b: "q = b @ j # z" "walk H s b = Some u"
    have "valid_path b" using q(2,3) b(1) by (auto simp: valid_path_def)
    then have "u \<noteq> a" using na [OF q(1)] b(2) by metis
    then show "ent (H(a := None)) u j = ent H u j" by (rule e)
  qed
  show "pt_inv R (H(a := None))" unfolding pt_inv_def
  proof (intro conjI ballI allI impI)
    fix x assume "(H(a := None)) x \<noteq> None"
    then have "H x \<noteq> None" by (auto split: if_splits)
    then show "x \<noteq> 0" "frame_addr x" using pt_invD(1) [OF inv] by blast+
  next
    fix s q u assume s: "s \<in> R" "valid_path q" "walk (H(a := None)) s q = Some u"
    then have "walk H s q = Some u" using W by simp
    then show "(H(a := None)) u \<noteq> None" using pt_invD(2) [OF inv s(1,2)] na [OF s(1,2)] by auto
  next
    fix s s' q q' u assume s: "s \<in> R" "s' \<in> R" "valid_path q" "valid_path q'" "walk (H(a := None)) s q = Some u" "walk (H(a := None)) s' q' = Some u"
    then have "walk H s q = Some u" "walk H s' q' = Some u" using W by simp_all
    from pt_invD(3) [OF inv s(1-4) this]
    show "q = q'" "s \<noteq> s' \<Longrightarrow> q \<noteq> []" "s \<noteq> s' \<Longrightarrow> 256 \<le> hd q" by auto
  next
    fix s s' q j u assume s: "s \<in> R" "s' \<in> R" "valid_path (q @ [j])" "q \<noteq> []" "walk (H(a := None)) s (q @ [j]) = Some u" "walk (H(a := None)) s' (q @ [j]) = Some u"
    have vq: "valid_path q" using s(3) by (auto simp: valid_path_def)
    have "walk H s (q @ [j]) = Some u" "walk H s' (q @ [j]) = Some u" using s W by simp_all
    from pt_invD(4) [OF inv s(1-4) this] W [OF s(1) vq] W [OF s(2) vq]
    show "walk (H(a := None)) s q = walk (H(a := None)) s' q" by simp
  qed
qed

lemma unlink_table:
  assumes w: "writes R H H1 r p t i" and dom: "dom H1 = dom H" and p: "length p \<le> 2" "p = [] \<Longrightarrow> i < 256"
    and old: "nxt_of (ent H t i) = Some a" and empty: "\<And>j. j < 512 \<Longrightarrow> \<not> mm_pte_present (ent H a j)"
    and clear: "ent H1 t i = 0"
  shows "pt_inv R (H1(a := None))"
    "s \<in> R \<Longrightarrow> valid_path q \<Longrightarrow> \<not> hit H p t i s q \<Longrightarrow> walk (H1(a := None)) s q = walk H s q"
    "s \<in> R \<Longrightarrow> length q = 4 \<Longrightarrow> \<forall>x \<in> set q. x < 512 \<Longrightarrow> xl (H1(a := None)) s q = xl H s q"
proof -
  have inv: "pt_inv R H" and t: "r \<in> R" "valid_path p" "i < 512" "walk H r p = Some t" using w by (simp_all add: writes_def)
  have none: "nxt_of (ent H1 t i) = None" by (simp add: clear nxt_of_def)
  note W = clear_walk [OF w none]
  have inv1: "pt_inv R H1" by (rule cut_inv [OF inv dom]) (use W in auto)
  have vp: "valid_path (p @ [i])" using t p by (auto simp: valid_path_def)
  have wa: "walk H r (p @ [i]) = Some a" using t(4) old by (simp add: walk_append)
  have na: "walk H1 s q \<noteq> Some a" if s: "s \<in> R" "valid_path q" for s q
  proof
    assume a: "walk H1 s q = Some a"
    then have q: "walk H s q = Some a" "\<not> hit H p t i s q" using W [OF s] by (auto split: if_splits)
    from pt_invD(3) [OF inv s(1) t(1) s(2) vp q(1) wa] have u: "q = p @ [i]" "s \<noteq> r \<longrightarrow> 256 \<le> hd q" by auto
    have "walk H s p = Some t"
    proof (cases "p = []")
      case True
      then have "s = r" using u p(2) by auto
      then show ?thesis using t(4) by simp
    next
      case False
      from pt_invD(4) [OF inv s(1) t(1) vp False _ wa] q(1) u(1) t(4) show ?thesis by simp
    qed
    then show False using q(2) u(1) by (auto simp: hit_def)
  qed
  show "pt_inv R (H1(a := None))" by (rule free_unreached(1) [OF inv1 na])
  show "s \<in> R \<Longrightarrow> valid_path q \<Longrightarrow> \<not> hit H p t i s q \<Longrightarrow> walk (H1(a := None)) s q = walk H s q"
    using free_unreached(2) [OF inv1 na] W by simp
  show "xl (H1(a := None)) s q = xl H s q" if q: "s \<in> R" "length q = 4" "\<forall>x \<in> set q. x < 512"
  proof -
    have "xl H1 s q = xl H s q"
    proof (cases "hit H p t i s q")
      case True
      then obtain z where z: "walk H s p = Some t" "q = p @ i # z" by (auto simp: hit_def)
      then obtain j z' where j: "z = j # z'" using q(2) p(1) by (cases z) auto
      then have "j < 512" using q(3) z(2) by simp
      moreover have "mm_pte_present (ent H t i)" "\<not> mm_pte_large (ent H t i)" using old by (simp_all add: nxt_of_Some)
      ultimately have "xl H s q = None" using empty [of j] old j z by (simp add: xl_walk Let_def)
      moreover have "xl H1 s q = None" using z writes_stem [OF w q(1)] clear by (simp add: xl_walk Let_def)
      ultimately show ?thesis by simp
    next
      case False
      show ?thesis by (rule writes_xl [OF w q(1) _ q(3) False]) (use q(2) in simp)
    qed
    then show ?thesis using free_unreached(3) [OF inv1 na q(1) _ q(3)] q(2) by simp
  qed
qed

section \<open>The tables of the other roots\<close>

definition foreign_same :: "nat set \<Rightarrow> nat \<Rightarrow> tables \<Rightarrow> tables \<Rightarrow> bool" where
  "foreign_same R r H H' \<longleftrightarrow> (\<forall>s \<in> R. s \<noteq> r \<longrightarrow> (\<forall>q u. valid_path q \<longrightarrow> walk H s q = Some u \<longrightarrow> H' u = H u))"

lemma foreign_walk:
  assumes "foreign_same R r H H'" "s \<in> R" "s \<noteq> r" "valid_path q"
  shows "walk H' s q = walk H s q"
proof (rule walk_same)
  fix a j z u assume a: "q = a @ j # z" "walk H s a = Some u"
  then have "valid_path a" using assms(4) by (auto simp: valid_path_def)
  then have "H' u = H u" using assms(1-3) a(2) by (auto simp: foreign_same_def)
  then show "nxt_of (ent H' u j) = nxt_of (ent H u j)" by (simp add: ent_def)
qed

lemma foreign_refl [simp]: "foreign_same R r H H"
  by (simp add: foreign_same_def)

lemma foreign_trans:
  assumes "foreign_same R r H H'" "foreign_same R r H' H''"
  shows "foreign_same R r H H''"
  unfolding foreign_same_def
proof (intro ballI impI allI)
  fix s q u assume s: "s \<in> R" "s \<noteq> r" "valid_path q" "walk H s q = Some u"
  then have "walk H' s q = Some u" using foreign_walk [OF assms(1)] by simp
  then have "H'' u = H' u" using assms(2) s(1-3) by (auto simp: foreign_same_def)
  moreover have "H' u = H u" using assms(1) s by (auto simp: foreign_same_def)
  ultimately show "H'' u = H u" by simp
qed

text \<open>A change to one table of the lower half of a root.\<close>

lemma foreign_one:
  assumes "pt_inv R H" "r \<in> R" "walk H r p = Some t" "valid_path p" "p = [] \<or> hd p < 256" "\<And>u. H u \<noteq> None \<Longrightarrow> u \<noteq> t \<Longrightarrow> H' u = H u"
  shows "foreign_same R r H H'"
  unfolding foreign_same_def
proof (intro ballI impI allI)
  fix s q u assume s: "s \<in> R" "s \<noteq> r" "valid_path q" "walk H s q = Some u"
  have "u \<noteq> t" using pt_invD(3) [OF assms(1) s(1) assms(2) s(3) assms(4) s(4)] assms(3,5) s(2) by auto
  then show "H' u = H u" using assms(6) pt_invD(2) [OF assms(1) s(1,3,4)] by blast
qed
end
