(* ===== verification/Page_Table.thy ===== *)
theory Page_Table
  imports Page_Walk Pmm
begin

text \<open>
  Page tables (\<^verbatim>\<open>mm/paging.c\<close>): the four-level walk, mapping and unmapping of one page, the break-up
  of a 2 MiB leaf, and the accounting of frames. A table is a function from its 512 indices to
  descriptors, kept in a store by address; reading or writing where no table is allocated is
  \<^verbatim>\<open>Stuck\<close>. NULL is address 0. The memory behind the tables comes from
  \<^verbatim>\<open>kmalloc_aligned_try(4096, 4096)\<close>, whose results are an argument; invalidating the TLB has no
  effect on the tables and is left out, as are the log lines.
\<close>

section \<open>State\<close>

datatype ir0_mm_frame_type = IR0_MM_FRAME_UNKNOWN | IR0_MM_FRAME_USER | IR0_MM_FRAME_PT | IR0_MM_FRAME_KERNEL

record mm_acct =
  ir0_mm_root_created :: nat
  ir0_mm_root_freed :: nat
  ir0_mm_level1_created :: nat
  ir0_mm_level1_freed :: nat
  ir0_mm_level2_created :: nat
  ir0_mm_level2_freed :: nat
  ir0_mm_level3_created :: nat
  ir0_mm_level3_freed :: nat
  ir0_mm_leaf_created :: nat
  ir0_mm_leaf_freed :: nat
  ir0_mm_frame_user_alloc :: nat
  ir0_mm_frame_user_free :: nat
  ir0_mm_frame_pt_alloc :: nat
  ir0_mm_frame_pt_free :: nat
  ir0_mm_frame_kernel_alloc :: nat
  ir0_mm_frame_kernel_free :: nat
  ir0_mm_frame_type_map :: "ir0_mm_frame_type list option"
  fase43_oom_boot_fatal :: nat
  fase43_oom_kernel_fatal :: nat
  fase43_oom_user_recoverable :: nat

record paging =
  tabs :: "nat \<rightharpoonup> table"
  ram :: "nat \<Rightarrow> u8"
  frames :: pmm_state
  acct :: mm_acct

text \<open>
  What the file takes from elsewhere: the result of \<^verbatim>\<open>kmalloc_aligned_try(4096, 4096)\<close>, whether
  \<^verbatim>\<open>kmalloc\<close> of the frame type map panics, and \<^verbatim>\<open>current_process\<close>.
\<close>

record paging_env =
  table_page :: "paging \<Rightarrow> nat option"
  type_map_ok :: "paging \<Rightarrow> bool"
  current_process :: current

abbreviation upd_acct :: "(mm_acct \<Rightarrow> mm_acct) \<Rightarrow> paging \<Rightarrow> paging" where
  "upd_acct f pg \<equiv> pg\<lparr>acct := f (acct pg)\<rparr>"

section \<open>Accounting\<close>

datatype fase43_oom_class = FASE43_OOM_BOOT_FATAL | FASE43_OOM_KERNEL_FATAL | FASE43_OOM_USER_RECOVERABLE

definition paging_classify_oom :: "current \<Rightarrow> fase43_oom_class" where
  "paging_classify_oom cur =
     (case cur of
        Some (USER_MODE, _) \<Rightarrow> FASE43_OOM_USER_RECOVERABLE
      | None \<Rightarrow> FASE43_OOM_BOOT_FATAL
      | Some (KERNEL_MODE, _) \<Rightarrow> FASE43_OOM_KERNEL_FATAL)"

definition paging_fase43_note_oom :: "fase43_oom_class \<Rightarrow> mm_acct \<Rightarrow> mm_acct" where
  "paging_fase43_note_oom cls m =
     (case cls of
        FASE43_OOM_BOOT_FATAL \<Rightarrow> m\<lparr>fase43_oom_boot_fatal := add64 (fase43_oom_boot_fatal m) 1\<rparr>
      | FASE43_OOM_KERNEL_FATAL \<Rightarrow> m\<lparr>fase43_oom_kernel_fatal := add64 (fase43_oom_kernel_fatal m) 1\<rparr>
      | FASE43_OOM_USER_RECOVERABLE \<Rightarrow> m\<lparr>fase43_oom_user_recoverable := add64 (fase43_oom_user_recoverable m) 1\<rparr>)"

text \<open>The type map is allocated on first use; \<^verbatim>\<open>True\<close> when it is there.\<close>

definition ir0_mm_frame_type_ensure :: "paging_env \<Rightarrow> paging \<Rightarrow> (bool \<times> paging) kresult" where
  "ir0_mm_frame_type_ensure env pg =
     (if ir0_mm_frame_type_map (acct pg) \<noteq> None then Done (True, pg)
      else
        (let total_frames = (case pmm_stats (frames pg) of None \<Rightarrow> 0 | Some (t, _, _) \<Rightarrow> t) in
         if total_frames = 0 then Done (False, pg)
         else if \<not> type_map_ok env pg then Panic ''kmalloc: out of memory''
         else Done (True, upd_acct (\<lambda>m. m\<lparr>ir0_mm_frame_type_map := Some (replicate total_frames IR0_MM_FRAME_UNKNOWN)\<rparr>) pg)))"

definition ir0_mm_frame_index :: "nat \<Rightarrow> paging \<Rightarrow> nat option" where
  "ir0_mm_frame_index phys_addr pg =
     (let start = pmm_get_start (frames pg); fin = pmm_get_end (frames pg) in
      if phys_addr < start \<or> fin \<le> phys_addr then None else Some ((phys_addr - start) div PAGE_SIZE_4KB))"

definition ir0_mm_get_frame_type :: "paging_env \<Rightarrow> nat \<Rightarrow> paging \<Rightarrow> (ir0_mm_frame_type \<times> paging) kresult" where
  "ir0_mm_get_frame_type env phys_addr pg =
     kbind (ir0_mm_frame_type_ensure env pg) (\<lambda>(ok, pg1).
       if \<not> ok then Done (IR0_MM_FRAME_UNKNOWN, pg1)
       else case (ir0_mm_frame_index phys_addr pg1, ir0_mm_frame_type_map (acct pg1)) of
              (Some i, Some t) \<Rightarrow> Done (if i < length t then t ! i else IR0_MM_FRAME_UNKNOWN, pg1)
            | _ \<Rightarrow> Done (IR0_MM_FRAME_UNKNOWN, pg1))"

definition ir0_mm_set_frame_type :: "paging_env \<Rightarrow> nat \<Rightarrow> ir0_mm_frame_type \<Rightarrow> paging \<Rightarrow> paging kresult" where
  "ir0_mm_set_frame_type env phys_addr ty pg =
     kbind (ir0_mm_frame_type_ensure env pg) (\<lambda>(ok, pg1).
       if \<not> ok then Done pg1
       else case (ir0_mm_frame_index phys_addr pg1, ir0_mm_frame_type_map (acct pg1)) of
              (Some i, Some t) \<Rightarrow>
                Done (if i < length t then upd_acct (\<lambda>m. m\<lparr>ir0_mm_frame_type_map := Some (t[i := ty])\<rparr>) pg1 else pg1)
            | _ \<Rightarrow> Done pg1)"

section \<open>Tables\<close>

definition entry_at :: "nat \<Rightarrow> nat \<Rightarrow> paging \<Rightarrow> u64 kresult" where
  "entry_at t i pg = (case tabs pg t of None \<Rightarrow> Stuck | Some T \<Rightarrow> Done (T i))"

definition set_entry :: "nat \<Rightarrow> nat \<Rightarrow> u64 \<Rightarrow> paging \<Rightarrow> paging kresult" where
  "set_entry t i v pg = (case tabs pg t of None \<Rightarrow> Stuck | Some T \<Rightarrow> Done (pg\<lparr>tabs := (tabs pg)(t \<mapsto> T(i := v))\<rparr>))"

definition paging_entry_table :: "u64 \<Rightarrow> nat" where
  "paging_entry_table e = (if \<not> mm_pte_present e then 0 else if mm_pte_large e then 0 else mm_pte_phys e)"

text \<open>The table an entry points to, when there is one.\<close>

definition get_existing_table :: "nat \<Rightarrow> nat \<Rightarrow> paging \<Rightarrow> nat option kresult" where
  "get_existing_table t i pg =
     kbind (entry_at t i pg) (\<lambda>e.
       if \<not> mm_pte_present e then Done None
       else if mm_pte_large e then Done None
       else if paging_entry_table e = 0 then Done None else Done (Some (paging_entry_table e)))"

text \<open>The leaf descriptor of an address, as the table and the index that hold it.\<close>

definition paging_get_pte :: "nat \<Rightarrow> nat \<Rightarrow> paging \<Rightarrow> (nat \<times> nat) option kresult" where
  "paging_get_pte root vaddr pg =
     (if root = 0 then Done None
      else
        (let (i0, i1, i2, i3) = mm_va_indices vaddr in
         kbind (get_existing_table root i0 pg) (\<lambda>t1. case t1 of None \<Rightarrow> Done None | Some level1_table \<Rightarrow>
           kbind (get_existing_table level1_table i1 pg) (\<lambda>t2. case t2 of None \<Rightarrow> Done None | Some level2_table \<Rightarrow>
             kbind (get_existing_table level2_table i2 pg) (\<lambda>t3. case t3 of None \<Rightarrow> Done None | Some level3_table \<Rightarrow>
               Done (Some (level3_table, i3)))))))"

text \<open>
  Whether an address is mapped, by a page of any size, and with which flags; \<^verbatim>\<open>None\<close> is the error
  result -1, \<^verbatim>\<open>Some None\<close> not mapped.
\<close>

definition is_page_mapped_in_directory :: "nat \<Rightarrow> nat \<Rightarrow> paging \<Rightarrow> u64 option option kresult" where
  "is_page_mapped_in_directory root virt_addr pg =
     (if root = 0 then Done None
      else
        (let (i0, i1, i2, i3) = mm_va_indices virt_addr in
         kbind (entry_at root i0 pg) (\<lambda>e0.
           if \<not> mm_pte_present e0 then Done (Some None)
           else if mm_pte_large e0 then Done (Some (Some (e0 AND 0xFFF)))
           else if paging_entry_table e0 = 0 then Done (Some None)
           else kbind (entry_at (paging_entry_table e0) i1 pg) (\<lambda>e1.
             if \<not> mm_pte_present e1 then Done (Some None)
             else if mm_pte_large e1 then Done (Some (Some (e1 AND 0xFFF)))
             else if paging_entry_table e1 = 0 then Done (Some None)
             else kbind (entry_at (paging_entry_table e1) i2 pg) (\<lambda>e2.
               if \<not> mm_pte_present e2 then Done (Some None)
               else if mm_pte_large e2 then Done (Some (Some (e2 AND 0xFFF)))
               else if paging_entry_table e2 = 0 then Done (Some None)
               else kbind (entry_at (paging_entry_table e2) i3 pg) (\<lambda>e3.
                 if \<not> mm_pte_present e3 then Done (Some None) else Done (Some (Some (e3 AND 0xFFF)))))))))"

definition page_table_is_empty :: "nat \<Rightarrow> paging \<Rightarrow> bool kresult" where
  "page_table_is_empty t pg =
     (case tabs pg t of None \<Rightarrow> Stuck | Some T \<Rightarrow> Done (list_all (\<lambda>i. \<not> mm_pte_present (T i)) [0..<512]))"

definition ir0_mm_free_table_frame :: "paging_env \<Rightarrow> nat \<Rightarrow> nat \<Rightarrow> paging \<Rightarrow> paging kresult" where
  "ir0_mm_free_table_frame env frame level pg =
     (if frame = 0 then Done pg
      else
        (let pg1 = upd_acct (\<lambda>m.
               if level = 1 then m\<lparr>ir0_mm_level1_freed := add64 (ir0_mm_level1_freed m) 1\<rparr>
               else if level = 2 then m\<lparr>ir0_mm_level2_freed := add64 (ir0_mm_level2_freed m) 1\<rparr>
               else if level = 3 then m\<lparr>ir0_mm_level3_freed := add64 (ir0_mm_level3_freed m) 1\<rparr>
               else m) pg in
         kbind (ir0_mm_set_frame_type env frame IR0_MM_FRAME_UNKNOWN pg1) (\<lambda>pg2.
           let pg3 = upd_acct (\<lambda>m. m\<lparr>ir0_mm_frame_pt_free := add64 (ir0_mm_frame_pt_free m) 1\<rparr>) pg2 in
           if tabs pg3 frame = None then Stuck else Done (pg3\<lparr>tabs := (tabs pg3)(frame := None)\<rparr>))))"

definition alloc_page_table :: "paging_env \<Rightarrow> nat \<Rightarrow> paging \<Rightarrow> (nat \<times> paging) kresult" where
  "alloc_page_table env level pg =
     (case table_page env pg of
        None \<Rightarrow> Done (0, upd_acct (paging_fase43_note_oom (paging_classify_oom (current_process env))) pg)
      | Some page \<Rightarrow>
          (let pg1 = pg\<lparr>tabs := (tabs pg)(page \<mapsto> (\<lambda>_. 0))\<rparr>;
               pg2 = upd_acct (\<lambda>m.
                 if level = 1 then m\<lparr>ir0_mm_level1_created := add64 (ir0_mm_level1_created m) 1\<rparr>
                 else if level = 2 then m\<lparr>ir0_mm_level2_created := add64 (ir0_mm_level2_created m) 1\<rparr>
                 else if level = 3 then m\<lparr>ir0_mm_level3_created := add64 (ir0_mm_level3_created m) 1\<rparr>
                 else m) pg1 in
           kbind (ir0_mm_set_frame_type env page IR0_MM_FRAME_PT pg2) (\<lambda>pg3.
             Done (page, upd_acct (\<lambda>m. m\<lparr>ir0_mm_frame_pt_alloc := add64 (ir0_mm_frame_pt_alloc m) 1\<rparr>) pg3))))"

abbreviation PMM_PHYS_BASE :: nat where "PMM_PHYS_BASE \<equiv> 0x2000000"

text \<open>Results 0 and -1 are \<^verbatim>\<open>True\<close> and \<^verbatim>\<open>False\<close>.\<close>

definition split_leaves :: "nat \<Rightarrow> bool \<Rightarrow> table" where
  "split_leaves phys_base exec i =
     (if i < 512 then
        (let pa = add64 phys_base (i * PAGE_SIZE_4KB) in
         if PMM_PHYS_BASE \<le> pa then 0 else mm_make_leaf_pte pa PAGE_RW exec)
      else 0)"

definition paging_split_large_level2_leaf :: "paging_env \<Rightarrow> nat \<Rightarrow> nat \<Rightarrow> paging \<Rightarrow> (bool \<times> paging) kresult" where
  "paging_split_large_level2_leaf env level2_table index pg =
     (if level2_table = 0 then Done (False, pg)
      else kbind (entry_at level2_table index pg) (\<lambda>level2_entry.
        if \<not> mm_pte_present level2_entry \<or> \<not> mm_pte_large level2_entry then Done (False, pg)
        else kbind (alloc_page_table env 3 pg) (\<lambda>(pt_phys, pg1).
          if pt_phys = 0 then Done (False, pg1)
          else
            (let phys_base = mm_pte_phys level2_entry; exec = (level2_entry AND PAGE_NX = 0);
                 pg2 = pg1\<lparr>tabs := (tabs pg1)(pt_phys \<mapsto> split_leaves phys_base exec)\<rparr> in
             kbind (set_entry level2_table index (mm_make_table_pte pt_phys False) pg2) (\<lambda>pg3. Done (True, pg3))))))"

definition paging_ensure_4k_leaf :: "paging_env \<Rightarrow> nat \<Rightarrow> nat \<Rightarrow> paging \<Rightarrow> (bool \<times> paging) kresult" where
  "paging_ensure_4k_leaf env root vaddr pg =
     (if root = 0 then Done (False, pg)
      else
        (let (i0, i1, i2, i3) = mm_va_indices vaddr in
         kbind (get_existing_table root i0 pg) (\<lambda>t1. case t1 of None \<Rightarrow> Done (False, pg) | Some level1_table \<Rightarrow>
           kbind (get_existing_table level1_table i1 pg) (\<lambda>t2. case t2 of None \<Rightarrow> Done (False, pg) | Some level2_table \<Rightarrow>
             kbind (entry_at level2_table i2 pg) (\<lambda>e.
               if \<not> mm_pte_present e then Done (False, pg)
               else if mm_pte_large e then paging_split_large_level2_leaf env level2_table i2 pg
               else Done (True, pg))))))"

definition get_or_create_table :: "paging_env \<Rightarrow> nat \<Rightarrow> nat \<Rightarrow> bool \<Rightarrow> u64 \<Rightarrow> nat \<Rightarrow> paging \<Rightarrow> (nat \<times> paging) kresult" where
  "get_or_create_table env parent index create map_flags level pg =
     (let user = (map_flags AND PAGE_USER \<noteq> 0) in
      kbind (entry_at parent index pg) (\<lambda>e.
        if \<not> mm_pte_present e then
          if \<not> create then Done (0, pg)
          else kbind (alloc_page_table env level pg) (\<lambda>(phys_addr, pg1).
            if phys_addr = 0 then Done (0, pg1)
            else kbind (set_entry parent index (mm_make_table_pte phys_addr user) pg1) (\<lambda>pg2.
              Done (mm_pte_phys (word_of_nat phys_addr), pg2)))
        else kbind (if \<not> mm_pte_large e then Done (True, pg)
                    else if \<not> create \<or> level \<noteq> 3 then Done (False, pg)
                    else paging_split_large_level2_leaf env parent index pg) (\<lambda>(ok, pg1).
          if \<not> ok then Done (0, pg1)
          else kbind (entry_at parent index pg1) (\<lambda>e1.
            kbind (if user then set_entry parent index (mm_pte_set_user e1) pg1 else Done pg1) (\<lambda>pg2.
              kbind (entry_at parent index pg2) (\<lambda>e2. Done (paging_entry_table e2, pg2)))))))"

definition install_leaf :: "paging_env \<Rightarrow> nat \<Rightarrow> nat \<Rightarrow> nat \<Rightarrow> u64 \<Rightarrow> paging \<Rightarrow> paging kresult" where
  "install_leaf env level3_table i3 phys_addr flags pg =
     kbind (entry_at level3_table i3 pg) (\<lambda>old.
       kbind (set_entry level3_table i3 (mm_make_leaf_pte phys_addr (flags AND 0xFFF) (flags AND PAGE_EXEC \<noteq> 0)) pg) (\<lambda>pg1.
         let pg2 = (if mm_pte_present old then pg1
                    else upd_acct (\<lambda>m. m\<lparr>ir0_mm_leaf_created := add64 (ir0_mm_leaf_created m) 1\<rparr>) pg1) in
         if flags AND PAGE_USER \<noteq> 0 then
           kbind (ir0_mm_set_frame_type env phys_addr IR0_MM_FRAME_USER pg2) (\<lambda>pg3.
             Done (upd_acct (\<lambda>m. m\<lparr>ir0_mm_frame_user_alloc := add64 (ir0_mm_frame_user_alloc m) 1\<rparr>) pg3))
         else
           kbind (ir0_mm_set_frame_type env phys_addr IR0_MM_FRAME_KERNEL pg2) (\<lambda>pg3.
             Done (upd_acct (\<lambda>m. m\<lparr>ir0_mm_frame_kernel_alloc := add64 (ir0_mm_frame_kernel_alloc m) 1\<rparr>) pg3))))"

definition map_page_in_directory :: "paging_env \<Rightarrow> nat \<Rightarrow> nat \<Rightarrow> nat \<Rightarrow> u64 \<Rightarrow> paging \<Rightarrow> (bool \<times> paging) kresult" where
  "map_page_in_directory env root virt_addr phys_addr flags pg =
     (if root = 0 then Done (False, pg)
      else
        (let (i0, i1, i2, i3) = mm_va_indices virt_addr in
         kbind (get_or_create_table env root i0 True flags 1 pg) (\<lambda>(level1_table, pg1).
           if level1_table = 0 then Done (False, pg1)
           else kbind (get_or_create_table env level1_table i1 True flags 2 pg1) (\<lambda>(level2_table, pg2).
             if level2_table = 0 then Done (False, pg2)
             else kbind (get_or_create_table env level2_table i2 True flags 3 pg2) (\<lambda>(level3_table, pg3).
               if level3_table = 0 then Done (False, pg3)
               else kbind (install_leaf env level3_table i3 phys_addr flags pg3) (\<lambda>pg4. Done (True, pg4)))))))"

text \<open>Returning the frame of an unmapped page to the frame manager.\<close>

definition account_free :: "paging_env \<Rightarrow> nat \<Rightarrow> paging \<Rightarrow> paging kresult" where
  "account_free env phys_frame pg =
     kbind (ir0_mm_get_frame_type env phys_frame pg) (\<lambda>(ty, pg1).
       let pg2 = upd_acct (\<lambda>m. case ty of
             IR0_MM_FRAME_USER \<Rightarrow> m\<lparr>ir0_mm_frame_user_free := add64 (ir0_mm_frame_user_free m) 1\<rparr>
           | IR0_MM_FRAME_KERNEL \<Rightarrow> m\<lparr>ir0_mm_frame_kernel_free := add64 (ir0_mm_frame_kernel_free m) 1\<rparr>
           | IR0_MM_FRAME_PT \<Rightarrow> m\<lparr>ir0_mm_frame_pt_free := add64 (ir0_mm_frame_pt_free m) 1\<rparr>
           | IR0_MM_FRAME_UNKNOWN \<Rightarrow> m) pg1 in
       ir0_mm_set_frame_type env phys_frame IR0_MM_FRAME_UNKNOWN pg2)"

definition release_frame :: "paging_env \<Rightarrow> nat \<Rightarrow> paging \<Rightarrow> paging kresult" where
  "release_frame env phys_frame pg =
     (if phys_frame \<noteq> 0 \<and> pmm_get_start (frames pg) \<le> phys_frame \<and> phys_frame < pmm_get_end (frames pg) then
        kbind (if pmm_frame_refcount (frames pg) phys_frame = 1 then account_free env phys_frame pg else Done pg) (\<lambda>pg1.
          kbind (pmm_frame_put phys_frame (frames pg1)) (\<lambda>q. Done (pg1\<lparr>frames := q\<rparr>)))
      else Done pg)"

text \<open>Clearing a descriptor whose table has become empty, and freeing the table.\<close>

definition reclaim_if_empty :: "paging_env \<Rightarrow> nat \<Rightarrow> nat \<Rightarrow> nat \<Rightarrow> nat \<Rightarrow> paging \<Rightarrow> paging kresult" where
  "reclaim_if_empty env tab parent index level pg =
     kbind (page_table_is_empty tab pg) (\<lambda>empty.
       if \<not> empty then Done pg
       else kbind (entry_at parent index pg) (\<lambda>e.
         kbind (set_entry parent index 0 pg) (\<lambda>pg1. ir0_mm_free_table_frame env (mm_pte_phys e) level pg1)))"

definition unmap_page_in_directory :: "paging_env \<Rightarrow> nat \<Rightarrow> nat \<Rightarrow> paging \<Rightarrow> (bool \<times> paging) kresult" where
  "unmap_page_in_directory env root virt_addr pg =
     (if root = 0 then Done (False, pg)
      else
        (let (i0, i1, i2, i3) = mm_va_indices virt_addr in
         kbind (get_existing_table root i0 pg) (\<lambda>t1. case t1 of None \<Rightarrow> Done (False, pg) | Some level1_table \<Rightarrow>
           kbind (get_existing_table level1_table i1 pg) (\<lambda>t2. case t2 of None \<Rightarrow> Done (False, pg) | Some level2_table \<Rightarrow>
             kbind (get_existing_table level2_table i2 pg) (\<lambda>t3. case t3 of None \<Rightarrow> Done (False, pg) | Some level3_table \<Rightarrow>
               kbind (entry_at level3_table i3 pg) (\<lambda>e.
                 if \<not> mm_pte_present e then Done (False, pg)
                 else
                   kbind (set_entry level3_table i3 0 pg) (\<lambda>pg1.
                     kbind (release_frame env (mm_pte_phys e)
                              (upd_acct (\<lambda>m. m\<lparr>ir0_mm_leaf_freed := add64 (ir0_mm_leaf_freed m) 1\<rparr>) pg1)) (\<lambda>pg2.
                       kbind (reclaim_if_empty env level3_table level2_table i2 3 pg2) (\<lambda>pg3.
                         kbind (reclaim_if_empty env level2_table level1_table i1 2 pg3) (\<lambda>pg4.
                           kbind (if i0 < 256 then reclaim_if_empty env level1_table root i0 1 pg4 else Done pg4) (\<lambda>pg5.
                             Done (True, pg5)))))))))))) "


section \<open>Operations that only account\<close>

definition in_pool :: "pmm_state \<Rightarrow> nat \<Rightarrow> bool" where
  "in_pool q a \<longleftrightarrow> a \<noteq> 0 \<and> pmm_get_start q \<le> a \<and> a < pmm_get_end q"

text \<open>
  What is relied on of the heap: a page for a table is new, page aligned, not NULL, low enough for a
  descriptor to hold its address and outside the frame pool (\<^verbatim>\<open>kmalloc_aligned_try\<close>; the heap ends where the
  pool begins), and the one-time allocation of the type map succeeds (\<^verbatim>\<open>kmalloc\<close> panics otherwise).
\<close>

definition env_ok :: "paging_env \<Rightarrow> bool" where
  "env_ok env \<longleftrightarrow>
     (\<forall>pg a. table_page env pg = Some a \<longrightarrow> tabs pg a = None \<and> a \<noteq> 0 \<and> frame_addr a \<and> \<not> in_pool (frames pg) a) \<and>
     (\<forall>pg. type_map_ok env pg)"

definition quiet :: "paging \<Rightarrow> paging \<Rightarrow> bool" where
  "quiet pg pg' \<longleftrightarrow> tabs pg' = tabs pg \<and> ram pg' = ram pg \<and> frames pg' = frames pg"

lemma quiet_trans: "quiet a b \<Longrightarrow> quiet b c \<Longrightarrow> quiet a c"
  by (simp add: quiet_def)

lemma quiet_acct [simp]: "quiet pg (pg\<lparr>acct := m\<rparr>)"
  by (simp add: quiet_def)

lemma frame_type_ensure_quiet: "env_ok env \<Longrightarrow> \<exists>ok pg'. ir0_mm_frame_type_ensure env pg = Done (ok, pg') \<and> quiet pg pg'"
  by (auto simp: ir0_mm_frame_type_ensure_def Let_def env_ok_def quiet_def)

lemma set_frame_type_quiet: "env_ok env \<Longrightarrow> \<exists>pg'. ir0_mm_set_frame_type env a ty pg = Done pg' \<and> quiet pg pg'"
proof -
  assume "env_ok env"
  then obtain ok pg1 where "ir0_mm_frame_type_ensure env pg = Done (ok, pg1)" "quiet pg pg1" using frame_type_ensure_quiet by blast
  then show ?thesis by (auto simp: ir0_mm_set_frame_type_def quiet_def split: option.splits)
qed

lemma get_frame_type_quiet: "env_ok env \<Longrightarrow> \<exists>ty pg'. ir0_mm_get_frame_type env a pg = Done (ty, pg') \<and> quiet pg pg'"
proof -
  assume "env_ok env"
  then obtain ok pg1 where "ir0_mm_frame_type_ensure env pg = Done (ok, pg1)" "quiet pg pg1" using frame_type_ensure_quiet by blast
  then show ?thesis by (auto simp: ir0_mm_get_frame_type_def quiet_def split: option.splits)
qed

lemma alloc_page_table_spec:
  assumes "env_ok env"
  shows "table_page env pg = None \<and> (\<exists>pg'. alloc_page_table env level pg = Done (0, pg') \<and> quiet pg pg') \<or>
     (\<exists>a pg'. table_page env pg = Some a \<and> alloc_page_table env level pg = Done (a, pg') \<and> a \<noteq> 0 \<and> frame_addr a \<and> tabs pg a = None \<and> \<not> in_pool (frames pg) a \<and>
        quiet (pg\<lparr>tabs := (tabs pg)(a \<mapsto> (\<lambda>_. 0))\<rparr>) pg')"
proof (cases "table_page env pg")
  case None
  then show ?thesis by (simp add: alloc_page_table_def)
next
  case (Some a)
  then have a: "tabs pg a = None" "a \<noteq> 0" "frame_addr a" "\<not> in_pool (frames pg) a" using assms by (simp_all add: env_ok_def)
  define pg2 where "pg2 = upd_acct (\<lambda>m.
                 if level = 1 then m\<lparr>ir0_mm_level1_created := add64 (ir0_mm_level1_created m) 1\<rparr>
                 else if level = 2 then m\<lparr>ir0_mm_level2_created := add64 (ir0_mm_level2_created m) 1\<rparr>
                 else if level = 3 then m\<lparr>ir0_mm_level3_created := add64 (ir0_mm_level3_created m) 1\<rparr>
                 else m) (pg\<lparr>tabs := (tabs pg)(a \<mapsto> (\<lambda>_. 0))\<rparr>)"
  obtain pg3 where "ir0_mm_set_frame_type env a IR0_MM_FRAME_PT pg2 = Done pg3" "quiet pg2 pg3" using set_frame_type_quiet [OF assms] by blast
  then show ?thesis using Some a by (auto simp: alloc_page_table_def Let_def quiet_def pg2_def)
qed

lemma entry_at_ent: "tabs pg t \<noteq> None \<Longrightarrow> entry_at t i pg = Done (ent (tabs pg) t i)"
  by (auto simp: entry_at_def ent_def)

lemma set_entry_ent:
  assumes "tabs pg t \<noteq> None"
  shows "\<exists>T. tabs pg t = Some T \<and> set_entry t i v pg = Done (pg\<lparr>tabs := (tabs pg)(t \<mapsto> T(i := v))\<rparr>)"
  using assms by (auto simp: set_entry_def)

lemma get_existing_nxt: "tabs pg t \<noteq> None \<Longrightarrow> get_existing_table t i pg = Done (nxt_of (ent (tabs pg) t i))"
  by (simp add: get_existing_table_def entry_at_ent nxt_of_def paging_entry_table_def del: not_None_eq)

lemma ent_upd: "ent (H(t \<mapsto> T)) u j = (if u = t then T j else ent H u j)"
  by (simp add: ent_def)

section \<open>One table step\<close>

definition full_path :: "nat list \<Rightarrow> bool" where
  "full_path q \<longleftrightarrow> length q = 4 \<and> (\<forall>x \<in> set q. x < 512)"

definition same_xl :: "nat set \<Rightarrow> tables \<Rightarrow> tables \<Rightarrow> bool" where
  "same_xl R H H' \<longleftrightarrow> (\<forall>s \<in> R. \<forall>q. full_path q \<longrightarrow> xl H' s q = xl H s q)"

text \<open>The translation of page \<open>k\<close> of a large leaf that has been broken up.\<close>

definition broken :: "u64 \<Rightarrow> nat \<Rightarrow> (nat \<times> u64) option" where
  "broken e k =
     (let pa = mm_pte_phys e + k * 4096 in
      if PMM_PHYS_BASE \<le> pa then None else Some (pa, mm_make_leaf_pte pa PAGE_RW (e AND PAGE_NX = 0)))"

lemma same_xl_refl [simp]: "same_xl R H H"
  by (simp add: same_xl_def)

lemma same_xl_trans: "same_xl R H H' \<Longrightarrow> same_xl R H' H'' \<Longrightarrow> same_xl R H H''"
  by (simp add: same_xl_def)

lemma split_leaves_xl:
  assumes "k < 512"
  shows "(if \<not> mm_pte_present (split_leaves (mm_pte_phys e) (e AND PAGE_NX = 0) k) then None
          else Some (mm_pte_phys (split_leaves (mm_pte_phys e) (e AND PAGE_NX = 0) k), split_leaves (mm_pte_phys e) (e AND PAGE_NX = 0) k)) = broken e k"
proof -
  let ?pa = "mm_pte_phys e + k * 4096"
  have f: "frame_addr (mm_pte_phys e)" by (rule frame_addr_phys)
  then have pa: "add64 (mm_pte_phys e) (k * PAGE_SIZE_4KB) = ?pa" using assms by (simp add: frame_addr_def)
  show ?thesis
  proof (cases "PMM_PHYS_BASE \<le> ?pa")
    case True
    then show ?thesis using assms pa by (simp add: split_leaves_def Let_def broken_def)
  next
    case False
    then have "frame_addr ?pa" using f by (simp add: frame_addr_def)
    then show ?thesis using assms pa False by (simp add: split_leaves_def Let_def broken_def)
  qed
qed

text \<open>Replacing the descriptor \<open>i\<close> of the table at path \<open>p\<close> by one that points to a new table.\<close>

lemma link_step:
  assumes inv: "pt_inv R H" and r: "r \<in> R" "valid_path p" "length p \<le> 2" "i < 512" "walk H r p = Some t"
    and a: "H a = None" "frame_addr a" "a \<noteq> 0" and T: "H t = Some T" and none: "nxt_of (T i) = None"
    and H': "H' = H(a \<mapsto> A, t \<mapsto> T(i := mm_make_table_pte a u))"
    and A: "length p = 2 \<or> A = (\<lambda>_. 0)"
  shows "writes R H H' r p t i" "pt_inv R H'" "walk H' r (p @ [i]) = Some a"
    "nxt_of (ent H' t i) = Some a" "\<And>j. ent H' a j = A j"
proof -
  have at: "a \<noteq> t" using a(1) T by auto
  show w: "writes R H H' r p t i" using inv r a(1) T unfolding writes_def H' by (auto simp: ent_def)
  show e: "\<And>j. ent H' a j = A j" using at by (simp add: H' ent_def)
  show n: "nxt_of (ent H' t i) = Some a" using a(2,3) by (simp add: H' ent_def nxt_of_def)
  have old: "nxt_of (ent H t i) = None" using none T by (simp add: ent_def)
  have em: "length p = 2 \<or> (\<forall>j. nxt_of (ent H' a j) = None)" using A e by (auto simp: nxt_of_def)
  show "pt_inv R H'" by (rule link_inv [OF w old n em a(1,2)]) (auto simp: H' T)
  show "walk H' r (p @ [i]) = Some a" using link_walk [OF w old n em r(1)] r by (simp add: valid_path_def)
qed

definition step_xl :: "nat set \<Rightarrow> tables \<Rightarrow> tables \<Rightarrow> nat list \<Rightarrow> nat \<Rightarrow> nat \<Rightarrow> bool" where
  "step_xl R H H' p t i \<longleftrightarrow>
     (\<forall>s \<in> R. \<forall>q. full_path q \<longrightarrow>
        xl H' s q = (if mm_pte_large (ent H t i) \<and> walk H s p = Some t \<and> take 3 q = p @ [i] then broken (ent H t i) (q ! 3) else xl H s q))"

lemma step_xl_same: "\<not> mm_pte_large (ent H t i) \<Longrightarrow> step_xl R H H' p t i = same_xl R H H'"
  by (simp add: step_xl_def same_xl_def)

lemma full_path_split:
  assumes "full_path q" "q = p @ i # z" "length p = 2"
  shows "\<exists>k. z = [k] \<and> k < 512 \<and> q ! 3 = k \<and> take 3 q = p @ [i]"
proof -
  have "length z = 1" using assms by (simp add: full_path_def)
  then obtain k where "z = [k]" by (cases z) auto
  with assms show ?thesis by (simp add: full_path_def nth_append take_append)
qed

text \<open>Breaking up a large leaf.\<close>

lemma split_step:
  assumes inv: "pt_inv R H" and r: "r \<in> R" "valid_path p" "length p = 2" "i < 512" "walk H r p = Some t"
    and a: "H a = None" "frame_addr a" "a \<noteq> 0" and T: "H t = Some T" and large: "mm_pte_large (T i)"
    and H': "H' = H(a \<mapsto> split_leaves (mm_pte_phys (T i)) (T i AND PAGE_NX = 0), t \<mapsto> T(i := mm_make_table_pte a u))"
  shows "pt_inv R H'" "walk H' r (p @ [i]) = Some a" "step_xl R H H' p t i"
proof -
  let ?A = "split_leaves (mm_pte_phys (T i)) (T i AND PAGE_NX = 0)"
  have none: "nxt_of (T i) = None" using large by (simp add: nxt_of_def)
  have eT: "ent H t i = T i" using T by (simp add: ent_def)
  have l2: "length p \<le> 2" using r(3) by simp
  have A: "length p = 2 \<or> ?A = (\<lambda>_. 0)" using r(3) by simp
  note L = link_step [OF inv r(1,2) l2 r(4,5) a T none H' A]
  show "pt_inv R H'" "walk H' r (p @ [i]) = Some a" by (rule L)+
  have "xl H' s q = (if walk H s p = Some t \<and> take 3 q = p @ [i] then broken (T i) (q ! 3) else xl H s q)"
    if s: "s \<in> R" and q: "full_path q" for s q
  proof (cases "hit H p t i s q")
    case True
    then obtain z where z: "walk H s p = Some t" "q = p @ i # z" by (auto simp: hit_def)
    obtain k where k: "z = [k]" "k < 512" "q ! 3 = k" "take 3 q = p @ [i]" using full_path_split [OF q z(2) r(3)] by blast
    have "mm_pte_present (ent H' t i)" "\<not> mm_pte_large (ent H' t i)" using L(4) by (simp_all add: nxt_of_Some)
    moreover have "walk H' s p = Some t" using writes_stem [OF L(1) s] z(1) by simp
    ultimately have "xl H' s q = (if \<not> mm_pte_present (?A k) then None else Some (mm_pte_phys (?A k), ?A k))"
      using z(2) k(1) L(4,5) by (simp add: xl_walk Let_def)
    also have "\<dots> = broken (T i) k" by (rule split_leaves_xl [OF k(2)])
    finally show ?thesis using z(1) k(3,4) by simp
  next
    case False
    have "q = p @ i # drop 3 q" if "take 3 q = p @ [i]" using that append_take_drop_id [of 3 q] by simp
    then have "\<not> (walk H s p = Some t \<and> take 3 q = p @ [i])" using False by (auto simp: hit_def)
    moreover have "xl H' s q = xl H s q"
      by (rule writes_xl [OF L(1) s _ _ False]) (use q in \<open>auto simp: full_path_def\<close>)
    ultimately show ?thesis by metis
  qed
  then show "step_xl R H H' p t i" using large eT by (simp add: step_xl_def)
qed

text \<open>Linking an empty table.\<close>

lemma create_step:
  assumes inv: "pt_inv R H" and r: "r \<in> R" "valid_path p" "length p \<le> 2" "i < 512" "walk H r p = Some t"
    and a: "H a = None" "frame_addr a" "a \<noteq> 0" and T: "H t = Some T" and absent: "\<not> mm_pte_present (T i)"
    and H': "H' = H(a \<mapsto> (\<lambda>_. 0), t \<mapsto> T(i := mm_make_table_pte a u))"
  shows "pt_inv R H'" "walk H' r (p @ [i]) = Some a" "same_xl R H H'"
proof -
  have none: "nxt_of (T i) = None" using absent by (simp add: nxt_of_def)
  have A: "length p = 2 \<or> (\<lambda>_. 0) = (\<lambda>_. 0 :: u64)" by simp
  note L = link_step [OF inv r a T none H' A]
  show "pt_inv R H'" "walk H' r (p @ [i]) = Some a" by (rule L)+
  have o: "\<not> mm_pte_present (ent H t i)" using T absent by (simp add: ent_def)
  show "same_xl R H H'" unfolding same_xl_def full_path_def
    using link_xl [OF L(1) _ _ _ o L(4) _ r(3)] L(5) by simp
qed

text \<open>Setting the user bit of a table descriptor changes no walk and no translation.\<close>

lemma user_step:
  assumes inv: "pt_inv R H" and T: "H t = Some T" and table: "mm_pte_present (T i)" "\<not> mm_pte_large (T i)"
    and r: "r \<in> R" "valid_path p" "i < 512" "walk H r p = Some t" "length p \<le> 2"
    and H': "H' = H(t \<mapsto> T(i := mm_pte_set_user (T i)))"
  shows "pt_inv R H'" "same_xl R H H'" "\<And>s q. walk H' s q = walk H s q"
proof -
  have n: "nxt_of (ent H' u j) = nxt_of (ent H u j)" for u j using T by (simp add: H' ent_def nxt_of_def)
  show W: "\<And>s q. walk H' s q = walk H s q" by (rule walk_same) (rule n)
  show "pt_inv R H'" by (rule cut_inv [OF inv]) (use W T in \<open>auto simp: H'\<close>)
  have "xl H' s q = xl H s q" if q: "s \<in> R" "full_path q" for s q
  proof (cases "hit H p t i s q")
    case True
    then obtain z where z: "walk H s p = Some t" "q = p @ i # z" by (auto simp: hit_def)
    then have "z \<noteq> []" using q(2) r(5) by (auto simp: full_path_def)
    moreover have "xl H' u z = xl H u z" if "nxt_of (T i) = Some u" for u
    proof (rule xl_same)
      fix b j y v assume b: "z = b @ j # y" "walk H u b = Some v"
      have v: "valid_path (p @ i # b)" using q(2) z(2) b(1) by (auto simp: valid_path_def full_path_def)
      have "walk H s (p @ i # b) = Some v" using z(1) that b(2) T by (simp add: walk_append ent_def)
      then have "v \<noteq> t" using pt_invD(3) [OF inv q(1) r(1) v r(2), of t] r(4) by fastforce
      then show "ent H' v j = ent H v j" by (simp add: H' ent_def)
    qed
    ultimately show ?thesis using z table W [of s p] T
      by (cases "nxt_of (T i)") (simp_all add: xl_walk Let_def ent_upd H' nxt_of_def ent_def split: if_splits)
  next
    case False
    have "writes R H H' r p t i" using inv r T by (auto simp: writes_def H' ent_def)
    from writes_xl [OF this q(1) _ _ False] q(2) show ?thesis by (simp add: full_path_def)
  qed
  then show "same_xl R H H'" by (simp add: same_xl_def)
qed

text \<open>Of the tables that were allocated only \<open>t\<close> may differ, and new tables lie outside the frame pool.\<close>

definition only_changes :: "pmm_state \<Rightarrow> nat \<Rightarrow> tables \<Rightarrow> tables \<Rightarrow> bool" where
  "only_changes q t H H' \<longleftrightarrow>
     (\<forall>u. H u \<noteq> None \<longrightarrow> u \<noteq> t \<longrightarrow> H' u = H u) \<and> (\<forall>u. H' u \<noteq> None \<longrightarrow> H u \<noteq> None \<or> \<not> in_pool q u)"

lemma split_large_spec:
  assumes env: "env_ok env" and inv: "pt_inv R (tabs pg)" and r: "r \<in> R" "valid_path p" "length p = 2" "i < 512" "walk (tabs pg) r p = Some t"
    and large: "mm_pte_large (ent (tabs pg) t i)"
  shows "(\<exists>pg'. paging_split_large_level2_leaf env t i pg = Done (False, pg') \<and> quiet pg pg') \<or>
     (\<exists>pg' a. paging_split_large_level2_leaf env t i pg = Done (True, pg') \<and> ram pg' = ram pg \<and> frames pg' = frames pg \<and>
        pt_inv R (tabs pg') \<and> walk (tabs pg') r p = Some t \<and> walk (tabs pg') r (p @ [i]) = Some a \<and> step_xl R (tabs pg) (tabs pg') p t i \<and>
        only_changes (frames pg) t (tabs pg) (tabs pg'))"
proof -
  have Ht: "tabs pg t \<noteq> None" by (rule pt_invD(2) [OF inv r(1,2,5)])
  have t0: "t \<noteq> 0" using pt_invD(1) [OF inv Ht] by simp
  obtain T where T: "tabs pg t = Some T" using Ht by blast
  have e: "ent (tabs pg) t i = T i" using T by (simp add: ent_def)
  have p: "mm_pte_present (T i)" "mm_pte_large (T i)" using large e large_present by auto
  from alloc_page_table_spec [OF env, of pg 3] show ?thesis
  proof (elim disjE exE conjE)
    fix pg' assume "alloc_page_table env 3 pg = Done (0, pg')" "quiet pg pg'"
    then show ?thesis using t0 p T by (simp add: paging_split_large_level2_leaf_def entry_at_def)
  next
    fix a pg' assume a: "alloc_page_table env 3 pg = Done (a, pg')" "a \<noteq> 0" "frame_addr a" "tabs pg a = None" "\<not> in_pool (frames pg) a"
      "quiet (pg\<lparr>tabs := (tabs pg)(a \<mapsto> (\<lambda>_. 0))\<rparr>) pg'"
    let ?A = "split_leaves (mm_pte_phys (T i)) (T i AND PAGE_NX = 0)"
    let ?H = "(tabs pg)(a \<mapsto> ?A, t \<mapsto> T(i := mm_make_table_pte a False))"
    have at: "a \<noteq> t" using a(4) T by auto
    have "tabs pg' = (tabs pg)(a \<mapsto> (\<lambda>_. 0))" "ram pg' = ram pg" "frames pg' = frames pg" using a(6) by (simp_all add: quiet_def)
    then have "paging_split_large_level2_leaf env t i pg = Done (True, pg'\<lparr>tabs := ?H\<rparr>)"
      using t0 p T a(1,2) at by (simp add: paging_split_large_level2_leaf_def entry_at_def set_entry_def Let_def)
    moreover note S = split_step [OF inv r a(4,3,2) T p(2) refl, of False]
    moreover have "walk ?H r p = Some t"
      using S(2) r(5) p large e by (intro link_step(1) [THEN writes_stem, THEN trans, OF inv r(1,2) _ r(4,5) a(4,3,2) T _ refl _ r(1)])
        (simp_all add: r(3) nxt_of_def)
    moreover have "only_changes (frames pg) t (tabs pg) ?H" using a(4,5) T by (auto simp: only_changes_def split: if_splits)
    ultimately show ?thesis using \<open>ram pg' = ram pg\<close> \<open>frames pg' = frames pg\<close> by (intro disjI2 exI [of _ "pg'\<lparr>tabs := ?H\<rparr>"] exI [of _ a]) simp
  qed
qed

text \<open>
  \<^verbatim>\<open>get_or_create_table\<close>: it fails and changes no translation, or returns the table at the longer path;
  translations change only when a large leaf is broken up.
\<close>

lemma get_or_create_spec:
  assumes env: "env_ok env" and inv: "pt_inv R (tabs pg)" and r: "r \<in> R" "valid_path p" "length p \<le> 2" "i < 512" "walk (tabs pg) r p = Some t"
    and level: "level = Suc (length p)"
  shows "\<exists>t' pg'. get_or_create_table env t i True flags level pg = Done (t', pg') \<and> ram pg' = ram pg \<and> frames pg' = frames pg \<and>
     pt_inv R (tabs pg') \<and> only_changes (frames pg) t (tabs pg) (tabs pg') \<and> (t' = 0 \<longrightarrow> same_xl R (tabs pg) (tabs pg')) \<and>
     (t' \<noteq> 0 \<longrightarrow> walk (tabs pg') r (p @ [i]) = Some t' \<and> (level < 3 \<longrightarrow> \<not> mm_pte_large (ent (tabs pg) t i)) \<and> step_xl R (tabs pg) (tabs pg') p t i)"
proof -
  let ?u = "flags AND PAGE_USER \<noteq> 0"
  have Ht: "tabs pg t \<noteq> None" by (rule pt_invD(2) [OF inv r(1,2,5)])
  obtain T where T: "tabs pg t = Some T" using Ht by blast
  have e: "ent (tabs pg) t i = T i" using T by (simp add: ent_def)
  consider (absent) "\<not> mm_pte_present (T i)" | (large) "mm_pte_large (T i)" | (table) "mm_pte_present (T i)" "\<not> mm_pte_large (T i)"
    using large_present by blast
  then show ?thesis
  proof cases
    case absent
    then have nl: "\<not> mm_pte_large (T i)" using large_present by blast
    from alloc_page_table_spec [OF env, of pg level] show ?thesis
    proof (elim disjE exE conjE)
      fix pg' assume "alloc_page_table env level pg = Done (0, pg')" "quiet pg pg'"
      then show ?thesis using absent T inv by (simp add: get_or_create_table_def entry_at_def Let_def quiet_def only_changes_def)
    next
      fix a pg' assume a: "alloc_page_table env level pg = Done (a, pg')" "a \<noteq> 0" "frame_addr a" "tabs pg a = None" "\<not> in_pool (frames pg) a"
        "quiet (pg\<lparr>tabs := (tabs pg)(a \<mapsto> (\<lambda>_. 0))\<rparr>) pg'"
      let ?H = "(tabs pg)(a \<mapsto> (\<lambda>_. 0), t \<mapsto> T(i := mm_make_table_pte a ?u))"
      have at: "a \<noteq> t" using a(4) T by auto
      have q: "tabs pg' = (tabs pg)(a \<mapsto> (\<lambda>_. 0))" "ram pg' = ram pg" "frames pg' = frames pg" using a(6) by (simp_all add: quiet_def)
      have "get_or_create_table env t i True flags level pg = Done (a, pg'\<lparr>tabs := ?H\<rparr>)"
        using absent T a(1-3) at q(1) by (simp add: get_or_create_table_def entry_at_def set_entry_def Let_def pte_phys_of)
      moreover have "only_changes (frames pg) t (tabs pg) ?H" using a(4,5) T by (auto simp: only_changes_def split: if_splits)
      moreover note C = create_step [OF inv r a(4,3,2) T absent refl, of ?u]
      ultimately show ?thesis using a(2) nl e q(2,3) by (intro exI [of _ a] exI [of _ "pg'\<lparr>tabs := ?H\<rparr>"]) (simp add: step_xl_same)
    qed
  next
    case table
    let ?H = "(tabs pg)(t \<mapsto> T(i := mm_pte_set_user (T i)))"
    note U = user_step [OF inv T table r(1,2,4,5,3) refl]
    define pg' where "pg' = (if ?u then pg\<lparr>tabs := ?H\<rparr> else pg)"
    have g: "get_or_create_table env t i True flags level pg = Done (mm_pte_phys (T i), pg')"
      using table T by (simp add: get_or_create_table_def entry_at_def set_entry_def Let_def paging_entry_table_def pg'_def)
    have w: "walk (tabs pg') r p = Some t" "ent (tabs pg') t i = (if ?u then mm_pte_set_user (T i) else T i)"
      using r(5) U(3) T by (simp_all add: pg'_def ent_def)
    have "mm_pte_phys (T i) \<noteq> 0 \<Longrightarrow> walk (tabs pg') r (p @ [i]) = Some (mm_pte_phys (T i))"
      using table w by (simp add: walk_append nxt_of_def)
    moreover have "only_changes (frames pg) t (tabs pg) (tabs pg')" using T by (auto simp: only_changes_def pg'_def)
    ultimately show ?thesis using g U(1,2) inv table e by (simp add: step_xl_same pg'_def)
  next
    case large
    then have pr: "mm_pte_present (T i)" by (rule large_present)
    show ?thesis
    proof (cases "level = 3")
      case False
      then have "get_or_create_table env t i True flags level pg = Done (0, pg)"
        using large pr T by (simp add: get_or_create_table_def entry_at_def Let_def)
      then show ?thesis using inv by (simp add: only_changes_def)
    next
      case True
      then have l2: "length p = 2" using level by simp
      have lg: "mm_pte_large (ent (tabs pg) t i)" using large e by simp
      from split_large_spec [OF env inv r(1,2) l2 r(4,5) lg] show ?thesis
      proof (elim disjE exE conjE)
        fix pg' assume "paging_split_large_level2_leaf env t i pg = Done (False, pg')" "quiet pg pg'"
        then show ?thesis using large pr T True inv by (simp add: get_or_create_table_def entry_at_def Let_def quiet_def only_changes_def)
      next
        fix pg1 a assume s: "paging_split_large_level2_leaf env t i pg = Done (True, pg1)" "ram pg1 = ram pg" "frames pg1 = frames pg"
          "pt_inv R (tabs pg1)" "walk (tabs pg1) r p = Some t" "walk (tabs pg1) r (p @ [i]) = Some a" "step_xl R (tabs pg) (tabs pg1) p t i"
          "only_changes (frames pg) t (tabs pg) (tabs pg1)"
        have "tabs pg1 t \<noteq> None" by (rule pt_invD(2) [OF s(4) r(1,2) s(5)])
        then obtain T1 where T1: "tabs pg1 t = Some T1" by blast
        have n: "nxt_of (T1 i) = Some a" using s(5,6) T1 by (simp add: walk_append ent_def split: option.splits)
        then have t1: "mm_pte_present (T1 i)" "\<not> mm_pte_large (T1 i)" "mm_pte_phys (T1 i) = a" "a \<noteq> 0" by (simp_all add: nxt_of_Some)
        let ?H = "(tabs pg1)(t \<mapsto> T1(i := mm_pte_set_user (T1 i)))"
        note U = user_step [OF s(4) T1 t1(1,2) r(1,2,4) s(5) r(3) refl]
        define pg' where "pg' = (if ?u then pg1\<lparr>tabs := ?H\<rparr> else pg1)"
        have g: "get_or_create_table env t i True flags level pg = Done (a, pg')"
          using large pr T True s(1) T1 t1 by (simp add: get_or_create_table_def entry_at_def set_entry_def Let_def paging_entry_table_def pg'_def)
        have "step_xl R (tabs pg) (tabs pg') p t i" using s(7) U(2) by (simp add: step_xl_def same_xl_def pg'_def)
        moreover have "walk (tabs pg') r (p @ [i]) = Some a" "pt_inv R (tabs pg')" "ram pg' = ram pg" "frames pg' = frames pg"
          using s(2-6) U(1,3) by (simp_all add: pg'_def)
        moreover have "only_changes (frames pg) t (tabs pg) (tabs pg')" using s(8) T1 by (auto simp: only_changes_def pg'_def)
        ultimately show ?thesis using g t1(4) True by (intro exI [of _ a] exI [of _ pg']) simp
      qed
    qed
  qed
qed

section \<open>Mapping a page\<close>

definition va_path :: "nat \<Rightarrow> nat list" where
  "va_path va = (case mm_va_indices va of (i0, i1, i2, i3) \<Rightarrow> [i0, i1, i2, i3])"

text \<open>The physical page an address maps to and the descriptor that says so.\<close>

definition translate :: "paging \<Rightarrow> nat \<Rightarrow> nat \<Rightarrow> (nat \<times> u64) option" where
  "translate pg root va = xl (tabs pg) root (va_path va)"

lemma full_va_path: "full_path (va_path va)"
  using mm_va_indices_bound [of va] by (cases "mm_va_indices va") (auto simp: va_path_def full_path_def)

text \<open>Writing a descriptor of a last-level table.\<close>

lemma leaf_step:
  assumes inv: "pt_inv R H" and r: "r \<in> R" "valid_path p" "length p = 3" "i < 512" "walk H r p = Some t" and T: "H t = Some T"
    and H': "H' = H(t \<mapsto> T(i := e))"
  shows "pt_inv R H'" "\<And>s q. s \<in> R \<Longrightarrow> valid_path q \<Longrightarrow> walk H' s q = walk H s q"
    "\<And>s q. s \<in> R \<Longrightarrow> full_path q \<Longrightarrow> xl H' s q =
       (if walk H s p = Some t \<and> q = p @ [i] then (if mm_pte_present e then Some (mm_pte_phys e, e) else None) else xl H s q)"
proof -
  have w: "writes R H H' r p t i" using inv r T by (auto simp: writes_def H' ent_def)
  have nh: "valid_path q \<Longrightarrow> \<not> hit H p t i s q" for s q using r(3) by (auto simp: hit_def valid_path_def)
  show W: "walk H' s q = walk H s q" if "s \<in> R" "valid_path q" for s q by (rule writes_walk [OF w that nh [OF that(2)]])
  show "pt_inv R H'" by (rule cut_inv [OF inv]) (use W T in \<open>auto simp: H'\<close>)
  show "xl H' s q = (if walk H s p = Some t \<and> q = p @ [i] then (if mm_pte_present e then Some (mm_pte_phys e, e) else None) else xl H s q)"
    if s: "s \<in> R" and q: "full_path q" for s q
  proof (cases "hit H p t i s q")
    case True
    then obtain z where z: "walk H s p = Some t" "q = p @ i # z" by (auto simp: hit_def)
    then have "z = []" using q r(3) by (simp add: full_path_def)
    then show ?thesis using z W [OF s r(2)] by (simp add: xl_walk Let_def H' ent_def)
  next
    case False
    then have "\<not> (walk H s p = Some t \<and> q = p @ [i])" by (auto simp: hit_def)
    moreover have "xl H' s q = xl H s q" by (rule writes_xl [OF w s _ _ False]) (use q in \<open>auto simp: full_path_def\<close>)
    ultimately show ?thesis by metis
  qed
qed

lemma install_leaf_spec:
  assumes "env_ok env" "tabs pg t = Some T"
  shows "\<exists>pg'. install_leaf env t i phys flags pg = Done pg' \<and> ram pg' = ram pg \<and> frames pg' = frames pg \<and>
     tabs pg' = (tabs pg)(t \<mapsto> T(i := mm_make_leaf_pte phys (flags AND 0xFFF) (flags AND PAGE_EXEC \<noteq> 0)))"
proof -
  define pg1 where "pg1 = pg\<lparr>tabs := (tabs pg)(t \<mapsto> T(i := mm_make_leaf_pte phys (flags AND 0xFFF) (flags AND PAGE_EXEC \<noteq> 0)))\<rparr>"
  define pg2 where "pg2 = (if mm_pte_present (T i) then pg1 else upd_acct (\<lambda>m. m\<lparr>ir0_mm_leaf_created := add64 (ir0_mm_leaf_created m) 1\<rparr>) pg1)"
  obtain pu where "ir0_mm_set_frame_type env phys IR0_MM_FRAME_USER pg2 = Done pu" "quiet pg2 pu" using set_frame_type_quiet [OF assms(1)] by blast
  moreover obtain pk where "ir0_mm_set_frame_type env phys IR0_MM_FRAME_KERNEL pg2 = Done pk" "quiet pg2 pk" using set_frame_type_quiet [OF assms(1)] by blast
  moreover have "entry_at t i pg = Done (T i)" "set_entry t i (mm_make_leaf_pte phys (flags AND 0xFFF) (flags AND PAGE_EXEC \<noteq> 0)) pg = Done pg1"
    using assms(2) by (simp_all add: entry_at_def set_entry_def pg1_def)
  moreover have "quiet pg1 pg2" by (simp add: pg2_def quiet_def)
  ultimately show ?thesis
    by (cases "flags AND PAGE_USER \<noteq> 0") (simp_all add: install_leaf_def Let_def flip: pg2_def, simp_all add: quiet_def pg1_def)
qed

text \<open>
  The effect of a mapping on every translation: the page itself (in another root too when it is
  mapped through a shared kernel table), the other pages of a large leaf that had to be broken up,
  and nothing else.
\<close>

definition after_split :: "nat \<Rightarrow> u64 \<Rightarrow> (nat \<times> u64) option" where
  "after_split pa e = (if PMM_PHYS_BASE \<le> pa then None else Some (pa, mm_make_leaf_pte pa PAGE_RW (e AND PAGE_NX = 0)))"

definition map_effect :: "nat set \<Rightarrow> tables \<Rightarrow> tables \<Rightarrow> nat \<Rightarrow> nat list \<Rightarrow> nat \<times> u64 \<Rightarrow> bool" where
  "map_effect R H H' r path new \<longleftrightarrow>
     xl H' r path = Some new \<and>
     (\<forall>s \<in> R. \<forall>q. full_path q \<longrightarrow> (s, q) \<noteq> (r, path) \<longrightarrow>
        xl H' s q = xl H s q \<or>
        (s = r \<or> 256 \<le> hd path) \<and>
        (q = path \<and> xl H' s q = Some new \<or>
         take 3 q = take 3 path \<and> (\<forall>k < 512. xl H s (take 3 q @ [k]) \<noteq> None) \<and> (\<exists>pa e. xl H s q = Some (pa, e) \<and> mm_pte_large e \<and> xl H' s q = after_split pa e)))"

lemma map_effect_cong:
  assumes "same_xl R H0 H"
  shows "map_effect R H0 H' r path new = map_effect R H H' r path new"
proof -
  have "full_path q \<Longrightarrow> k < 512 \<Longrightarrow> full_path (take 3 q @ [k])" for q k by (auto simp: full_path_def dest: in_set_takeD)
  then have "s \<in> R \<Longrightarrow> full_path q \<Longrightarrow> (\<forall>k < 512. xl H0 s (take 3 q @ [k]) \<noteq> None) = (\<forall>k < 512. xl H s (take 3 q @ [k]) \<noteq> None)" for s q
    using assms by (simp add: same_xl_def)
  moreover have "s \<in> R \<Longrightarrow> full_path q \<Longrightarrow> xl H0 s q = xl H s q" for s q using assms by (simp add: same_xl_def)
  ultimately show ?thesis unfolding map_effect_def by (simp cong: ball_cong)
qed

lemma map_pageI:
  assumes inv: "pt_inv R H" "pt_inv R H3" and r: "r \<in> R" "full_path [i0, i1, i2, i3]"
    and st: "step_xl R H H3 [i0, i1] t2 i2" and w: "walk H r [i0, i1] = Some t2" "walk H3 r [i0, i1, i2] = Some t3"
    and T: "H3 t3 = Some T" and H4: "H4 = H3(t3 \<mapsto> T(i3 := e))" and e: "mm_pte_present e"
  shows "pt_inv R H4 \<and> map_effect R H H4 r [i0, i1, i2, i3] (mm_pte_phys e, e)"
proof -
  have v: "valid_path [i0, i1, i2]" "valid_path [i0, i1]" "i3 < 512" using r(2) by (simp_all add: valid_path_def full_path_def)
  note L = leaf_step [OF inv(2) r(1) v(1) _ v(3) w(2) T H4]
  have shared: "s = r \<or> 256 \<le> i0" if "s \<in> R" "walk H3 s [i0, i1, i2] = Some t3" for s
    using pt_invD(3) [OF inv(2) that(1) r(1) v(1) v(1) that(2) w(2)] by auto
  have shared2: "s = r \<or> 256 \<le> i0" if "s \<in> R" "walk H s [i0, i1] = Some t2" for s
    using pt_invD(3) [OF inv(1) that(1) r(1) v(2) v(2) that(2) w(1)] by auto
  have "xl H4 s q = xl H s q \<or> (s = r \<or> 256 \<le> i0) \<and>
      (q = [i0, i1, i2, i3] \<and> xl H4 s q = Some (mm_pte_phys e, e) \<or>
       take 3 q = [i0, i1, i2] \<and> (\<forall>k < 512. xl H s (take 3 q @ [k]) \<noteq> None) \<and> (\<exists>pa l. xl H s q = Some (pa, l) \<and> mm_pte_large l \<and> xl H4 s q = after_split pa l))"
    if s: "s \<in> R" and q: "full_path q" for s q
  proof (cases "walk H3 s [i0, i1, i2] = Some t3 \<and> q = [i0, i1, i2, i3]")
    case True
    then show ?thesis using L(3) [OF _ s q] e shared [OF s] by auto
  next
    case False
    then have x4: "xl H4 s q = xl H3 s q" using L(3) [OF _ s q] by auto
    show ?thesis
    proof (cases "mm_pte_large (ent H t2 i2) \<and> walk H s [i0, i1] = Some t2 \<and> take 3 q = [i0, i1] @ [i2]")
      case True
      have "q = [i0, i1] @ i2 # drop 3 q" using True append_take_drop_id [of 3 q] by simp
      from full_path_split [OF q this] obtain k where k: "drop 3 q = [k]" "q ! 3 = k" by auto
      have q': "q = [i0, i1] @ [i2, k]" using \<open>q = _\<close> k(1) by simp
      have "walk H s [i0, i1] = Some t2" using True by simp
      from xl_walk [OF this, of "[i2, k]"] True have "xl H s q = Some (mm_pte_phys (ent H t2 i2) + k * 4096, ent H t2 i2)"
        unfolding q' by (simp add: Let_def large_present)
      moreover have "xl H3 s q = broken (ent H t2 i2) k" using st s q True k(2) by (simp add: step_xl_def)
      moreover have "xl H s (take 3 q @ [j]) \<noteq> None" for j
        using xl_walk [of H s "[i0, i1]" t2 "[i2, j]"] True large_present [of "ent H t2 i2"] by (simp add: Let_def del: walk.simps)
      ultimately show ?thesis using True x4 shared2 [OF s] by (auto simp: broken_def after_split_def Let_def)
    next
      case False
      then have "xl H3 s q = xl H s q" using st [unfolded step_xl_def, rule_format, OF s q] by metis
      with x4 show ?thesis by simp
    qed
  qed
  moreover have "xl H4 r [i0, i1, i2, i3] = Some (mm_pte_phys e, e)" using L(3) [OF _ r(1,2)] w(2) e by simp
  ultimately show ?thesis using L(1) by (simp add: map_effect_def)
qed

lemma map_page_spec:
  assumes env: "env_ok env" and inv: "pt_inv R (tabs pg)" and r: "r \<in> R" and phys: "frame_addr phys"
  shows "\<exists>ok pg'. map_page_in_directory env r va phys flags pg = Done (ok, pg') \<and> ram pg' = ram pg \<and> frames pg' = frames pg \<and>
     pt_inv R (tabs pg') \<and> (hd (va_path va) < 256 \<longrightarrow> foreign_same R r (tabs pg) (tabs pg')) \<and>
     (\<forall>u. tabs pg' u \<noteq> None \<longrightarrow> tabs pg u \<noteq> None \<or> \<not> in_pool (frames pg) u) \<and> (\<not> ok \<longrightarrow> same_xl R (tabs pg) (tabs pg')) \<and>
     (ok \<longrightarrow> map_effect R (tabs pg) (tabs pg') r (va_path va) (phys, mm_make_leaf_pte phys (flags AND 0xFFF) (flags AND PAGE_EXEC \<noteq> 0)))"
proof -
  obtain i0 i1 i2 i3 where i: "mm_va_indices va = (i0, i1, i2, i3)" by (cases "mm_va_indices va")
  have path: "va_path va = [i0, i1, i2, i3]" by (simp add: va_path_def i)
  have b: "i0 < 512" "i1 < 512" "i2 < 512" "i3 < 512" using mm_va_indices_bound [OF i] by auto
  have v: "valid_path []" "valid_path [i0]" "valid_path [i0, i1]" "valid_path [i0, i1, i2]" using b by (simp_all add: valid_path_def)
  have r0: "r \<noteq> 0" using pt_invD(1,2) [OF inv] r v(1) by fastforce
  let ?e = "mm_make_leaf_pte phys (flags AND 0xFFF) (flags AND PAGE_EXEC \<noteq> 0)"
  have w0: "walk (tabs pg) r [] = Some r" by simp
  obtain t1 pg1 where 1: "get_or_create_table env r i0 True flags 1 pg = Done (t1, pg1)" "ram pg1 = ram pg" "frames pg1 = frames pg"
    "pt_inv R (tabs pg1)" "t1 = 0 \<longrightarrow> same_xl R (tabs pg) (tabs pg1)"
    "t1 \<noteq> 0 \<longrightarrow> walk (tabs pg1) r [i0] = Some t1 \<and> same_xl R (tabs pg) (tabs pg1)" "only_changes (frames pg) r (tabs pg) (tabs pg1)"
    using get_or_create_spec [OF env inv r v(1) _ b(1) w0, of 1 flags] by (auto simp: step_xl_same)
  have f1: "foreign_same R r (tabs pg) (tabs pg1)"
    by (rule foreign_one [OF inv r w0 v(1)]) (use 1(7) in \<open>auto simp: only_changes_def\<close>)
  have n1: "tabs pg1 u \<noteq> None \<Longrightarrow> tabs pg u \<noteq> None \<or> \<not> in_pool (frames pg) u" for u using 1(7) by (auto simp: only_changes_def)
  show ?thesis
  proof (cases "t1 = 0")
    case True
    then show ?thesis using 1 r0 f1 n1 by (auto simp: map_page_in_directory_def i)
  next
    case False
    then have w1: "walk (tabs pg1) r [i0] = Some t1" and s1: "same_xl R (tabs pg) (tabs pg1)" using 1(6) by auto
    obtain t2 pg2 where 2: "get_or_create_table env t1 i1 True flags 2 pg1 = Done (t2, pg2)" "ram pg2 = ram pg1" "frames pg2 = frames pg1"
      "pt_inv R (tabs pg2)" "t2 = 0 \<longrightarrow> same_xl R (tabs pg1) (tabs pg2)"
      "t2 \<noteq> 0 \<longrightarrow> walk (tabs pg2) r [i0, i1] = Some t2 \<and> same_xl R (tabs pg1) (tabs pg2)" "only_changes (frames pg1) t1 (tabs pg1) (tabs pg2)"
      using get_or_create_spec [OF env 1(4) r v(2) _ b(2) w1, of 2 flags] by (auto simp: step_xl_same)
    have f2: "i0 < 256 \<Longrightarrow> foreign_same R r (tabs pg) (tabs pg2)"
      by (rule foreign_trans [OF f1], rule foreign_one [OF 1(4) r w1 v(2)]) (use 2(7) in \<open>auto simp: only_changes_def\<close>)
    have n2: "tabs pg2 u \<noteq> None \<Longrightarrow> tabs pg u \<noteq> None \<or> \<not> in_pool (frames pg) u" for u
      using n1 [of u] 2(7) 1(3) unfolding only_changes_def by metis
    show ?thesis
    proof (cases "t2 = 0")
      case True
      then have "same_xl R (tabs pg) (tabs pg2)" using 2(5) s1 same_xl_trans by blast
      moreover have "map_page_in_directory env r va phys flags pg = Done (False, pg2)"
        using 1(1) 2(1) False True r0 by (simp add: map_page_in_directory_def i)
      ultimately show ?thesis using 1 2 f2 n2 path by (intro exI [of _ False] exI [of _ pg2]) (simp del: not_None_eq)
    next
      case t2: False
      then have w2: "walk (tabs pg2) r [i0, i1] = Some t2" and s2: "same_xl R (tabs pg) (tabs pg2)" using 2(6) s1 same_xl_trans by blast+
      obtain t3 pg3 where 3: "get_or_create_table env t2 i2 True flags 3 pg2 = Done (t3, pg3)" "ram pg3 = ram pg2" "frames pg3 = frames pg2"
        "pt_inv R (tabs pg3)" "t3 = 0 \<longrightarrow> same_xl R (tabs pg2) (tabs pg3)"
        "t3 \<noteq> 0 \<longrightarrow> walk (tabs pg3) r [i0, i1, i2] = Some t3 \<and> step_xl R (tabs pg2) (tabs pg3) [i0, i1] t2 i2" "only_changes (frames pg2) t2 (tabs pg2) (tabs pg3)"
        using get_or_create_spec [OF env 2(4) r v(3) _ b(3) w2, of 3 flags] by auto
      have f3: "i0 < 256 \<Longrightarrow> foreign_same R r (tabs pg) (tabs pg3)"
        by (rule foreign_trans [OF f2], simp, rule foreign_one [OF 2(4) r w2 v(3)]) (use 3(7) in \<open>auto simp: only_changes_def\<close>)
      have n3: "tabs pg3 u \<noteq> None \<Longrightarrow> tabs pg u \<noteq> None \<or> \<not> in_pool (frames pg) u" for u
        using n2 [of u] 3(7) 1(3) 2(3) unfolding only_changes_def by metis
      show ?thesis
      proof (cases "t3 = 0")
        case True
        then have "same_xl R (tabs pg) (tabs pg3)" using 3(5) s2 same_xl_trans by blast
        moreover have "map_page_in_directory env r va phys flags pg = Done (False, pg3)"
          using 1(1) 2(1) 3(1) False t2 True r0 by (simp add: map_page_in_directory_def i)
        ultimately show ?thesis using 1 2 3 f3 n3 path by (intro exI [of _ False] exI [of _ pg3]) (simp del: not_None_eq)
      next
        case t3: False
        then have w3: "walk (tabs pg3) r [i0, i1, i2] = Some t3" and s3: "step_xl R (tabs pg2) (tabs pg3) [i0, i1] t2 i2" using 3(6) by auto
        obtain T where T: "tabs pg3 t3 = Some T" using pt_invD(2) [OF 3(4) r v(4) w3] by blast
        obtain pg4 where 4: "install_leaf env t3 i3 phys flags pg3 = Done pg4" "ram pg4 = ram pg3" "frames pg4 = frames pg3"
          "tabs pg4 = (tabs pg3)(t3 \<mapsto> T(i3 := ?e))" using install_leaf_spec [OF env T] by blast
        have fp: "full_path [i0, i1, i2, i3]" using full_va_path [of va] path by simp
        have "pt_inv R (tabs pg4) \<and> map_effect R (tabs pg2) (tabs pg4) r [i0, i1, i2, i3] (phys, ?e)"
          using map_pageI [OF 2(4) 3(4) r fp s3 w2 w3 T 4(4)] phys by simp
        moreover have "map_effect R (tabs pg) (tabs pg4) r [i0, i1, i2, i3] (phys, ?e) = map_effect R (tabs pg2) (tabs pg4) r [i0, i1, i2, i3] (phys, ?e)"
          using s2 by (intro map_effect_cong)
        moreover have "map_page_in_directory env r va phys flags pg = Done (True, pg4)"
          using 1(1) 2(1) 3(1) 4(1) False t2 t3 r0 by (simp add: map_page_in_directory_def i)
        moreover have "ram pg4 = ram pg" "frames pg4 = frames pg" using 1 2 3 4 by simp_all
        moreover have "i0 < 256 \<Longrightarrow> foreign_same R r (tabs pg) (tabs pg4)"
          by (rule foreign_trans [OF f3], simp, rule foreign_one [OF 3(4) r w3 v(4)]) (auto simp: 4(4))
        moreover have "tabs pg4 u \<noteq> None \<Longrightarrow> tabs pg u \<noteq> None \<or> \<not> in_pool (frames pg) u" for u
          using n3 [of u] T by (cases "u = t3") (simp_all add: 4(4) del: not_None_eq)
        ultimately show ?thesis unfolding path by (intro exI [of _ True] exI [of _ pg4]) (simp del: not_None_eq)
      qed
    qed
  qed
qed


section \<open>Unmapping a page\<close>

text \<open>The reference counts after one reference to \<open>a\<close> is dropped.\<close>

definition drop_ref :: "nat \<Rightarrow> (nat \<rightharpoonup> nat) \<Rightarrow> nat \<rightharpoonup> nat" where
  "drop_ref a m = (case m a of None \<Rightarrow> m | Some n \<Rightarrow> m(a := if n \<le> 1 then None else Some (n - 1)))"

lemma account_free_quiet: "env_ok env \<Longrightarrow> \<exists>pg'. account_free env a pg = Done pg' \<and> quiet pg pg'"
proof -
  assume env: "env_ok env"
  obtain ty pg1 where g: "ir0_mm_get_frame_type env a pg = Done (ty, pg1)" "quiet pg pg1" using get_frame_type_quiet [OF env] by blast
  define pg2 where "pg2 = upd_acct (\<lambda>m. case ty of
             IR0_MM_FRAME_USER \<Rightarrow> m\<lparr>ir0_mm_frame_user_free := add64 (ir0_mm_frame_user_free m) 1\<rparr>
           | IR0_MM_FRAME_KERNEL \<Rightarrow> m\<lparr>ir0_mm_frame_kernel_free := add64 (ir0_mm_frame_kernel_free m) 1\<rparr>
           | IR0_MM_FRAME_PT \<Rightarrow> m\<lparr>ir0_mm_frame_pt_free := add64 (ir0_mm_frame_pt_free m) 1\<rparr>
           | IR0_MM_FRAME_UNKNOWN \<Rightarrow> m) pg1"
  obtain pg3 where s: "ir0_mm_set_frame_type env a IR0_MM_FRAME_UNKNOWN pg2 = Done pg3" "quiet pg2 pg3"
    using set_frame_type_quiet [OF env] by blast
  have "quiet pg1 pg2" by (simp add: pg2_def)
  then have "quiet pg pg3" using g(2) s(2) quiet_trans by blast
  moreover have "account_free env a pg = Done pg3" using g(1) s(1) unfolding account_free_def Let_def by (simp add: pg2_def)
  ultimately show ?thesis by blast
qed

lemma release_frame_spec:
  assumes "env_ok env" "pmm_ready (frames pg)" "in_pool (frames pg) a \<Longrightarrow> pmm_frames (frames pg) a \<noteq> None"
  shows "\<exists>pg'. release_frame env a pg = Done pg' \<and> tabs pg' = tabs pg \<and> ram pg' = ram pg \<and> pmm_ready (frames pg') \<and>
     pmm_frames (frames pg') = (if in_pool (frames pg) a then drop_ref a (pmm_frames (frames pg)) else pmm_frames (frames pg))"
proof (cases "in_pool (frames pg) a")
  case True
  then obtain n where n: "pmm_frames (frames pg) a = Some n" using assms(3) by blast
  obtain s' where s': "pmm_frame_put a (frames pg) = Done s'" "pmm_ready s'"
    "pmm_frames s' = (pmm_frames (frames pg))(a := if n \<le> 1 then None else Some (n - 1))"
    using pmm.put_ref [OF assms(2) n] by blast
  obtain pg1 where p: "(if pmm_frame_refcount (frames pg) a = 1 then account_free env a pg else Done pg) = Done pg1" "quiet pg pg1"
    using account_free_quiet [OF assms(1), of a pg] by (cases "pmm_frame_refcount (frames pg) a = 1") (auto simp: quiet_def)
  have "release_frame env a pg = Done (pg1\<lparr>frames := s'\<rparr>)"
    unfolding release_frame_def p(1) using True p(2) s'(1) by (simp add: in_pool_def quiet_def)
  with True p(2) s'(2,3) n show ?thesis by (simp add: quiet_def drop_ref_def)
next
  case False
  then have "release_frame env a pg = Done pg" unfolding release_frame_def in_pool_def by (simp only: if_False)
  with assms(2) False show ?thesis by simp
qed

lemma free_table_frame_spec:
  assumes "env_ok env" "tabs pg a \<noteq> None" "a \<noteq> 0"
  shows "\<exists>pg'. ir0_mm_free_table_frame env a level pg = Done pg' \<and> ram pg' = ram pg \<and> frames pg' = frames pg \<and> tabs pg' = (tabs pg)(a := None)"
proof -
  define pg1 where "pg1 = upd_acct (\<lambda>m.
               if level = 1 then m\<lparr>ir0_mm_level1_freed := add64 (ir0_mm_level1_freed m) 1\<rparr>
               else if level = 2 then m\<lparr>ir0_mm_level2_freed := add64 (ir0_mm_level2_freed m) 1\<rparr>
               else if level = 3 then m\<lparr>ir0_mm_level3_freed := add64 (ir0_mm_level3_freed m) 1\<rparr>
               else m) pg"
  obtain pg2 where "ir0_mm_set_frame_type env a IR0_MM_FRAME_UNKNOWN pg1 = Done pg2" "quiet pg1 pg2"
    using set_frame_type_quiet [OF assms(1)] by blast
  moreover have "quiet pg pg1" by (simp add: pg1_def)
  ultimately show ?thesis using assms(2,3) unfolding ir0_mm_free_table_frame_def pg1_def [symmetric]
    by (simp add: quiet_def Let_def del: not_None_eq)
qed

lemma reclaim_spec:
  assumes env: "env_ok env" and inv: "pt_inv R (tabs pg)" and r: "r \<in> R" "valid_path p" "length p \<le> 2" "i < 512" "p = [] \<Longrightarrow> i < 256"
    and w: "walk (tabs pg) r p = Some t" "walk (tabs pg) r (p @ [i]) = Some a"
  shows "\<exists>pg'. reclaim_if_empty env a t i level pg = Done pg' \<and> ram pg' = ram pg \<and> frames pg' = frames pg \<and>
     pt_inv R (tabs pg') \<and> same_xl R (tabs pg) (tabs pg') \<and> (\<forall>q. valid_path q \<longrightarrow> length q \<le> length p \<longrightarrow> walk (tabs pg') r q = walk (tabs pg) r q)"
proof -
  have vp: "valid_path (p @ [i])" using r by (auto simp: valid_path_def)
  obtain T A where T: "tabs pg t = Some T" and A: "tabs pg a = Some A"
    using pt_invD(2) [OF inv r(1,2) w(1)] pt_invD(2) [OF inv r(1) vp w(2)] by blast
  have nx: "nxt_of (T i) = Some a" using w T by (simp add: walk_append ent_def split: option.splits)
  then have ph: "mm_pte_phys (T i) = a" "a \<noteq> 0" by (simp_all add: nxt_of_Some)
  show ?thesis
  proof (cases "list_all (\<lambda>j. \<not> mm_pte_present (A j)) [0..<512]")
    case False
    then have "reclaim_if_empty env a t i level pg = Done pg" using A by (simp add: reclaim_if_empty_def page_table_is_empty_def)
    then show ?thesis using inv by simp
  next
    case True
    let ?H1 = "(tabs pg)(t \<mapsto> T(i := 0))"
    have ne: "a \<noteq> t" using pt_invD(3) [OF inv r(1) r(1) r(2) vp, of t] w by auto
    have "tabs (pg\<lparr>tabs := ?H1\<rparr>) a \<noteq> None" using A ne by simp
    from free_table_frame_spec [OF env this ph(2), of level] obtain pg' where
      f: "ir0_mm_free_table_frame env a level (pg\<lparr>tabs := ?H1\<rparr>) = Done pg'" "ram pg' = ram pg" "frames pg' = frames pg" "tabs pg' = ?H1(a := None)" by auto
    have res: "reclaim_if_empty env a t i level pg = Done pg'"
      using True A T f(1) ph(1) by (simp add: reclaim_if_empty_def page_table_is_empty_def entry_at_def set_entry_def)
    have wr: "writes R (tabs pg) ?H1 r p t i" using inv r w T by (auto simp: writes_def ent_def)
    have e: "\<not> mm_pte_present (ent (tabs pg) a j)" if "j < 512" for j using True that A by (simp add: list_all_iff ent_def)
    have o: "nxt_of (ent (tabs pg) t i) = Some a" "ent ?H1 t i = 0" using nx T by (simp_all add: ent_def)
    have d: "dom ?H1 = dom (tabs pg)" using T by auto
    have i256: "p = [] \<longrightarrow> i < 256" using r(5) by blast
    have V: "pt_inv R (?H1(a := None))"
      "s \<in> R \<Longrightarrow> valid_path q \<Longrightarrow> \<not> hit (tabs pg) p t i s q \<Longrightarrow> walk (?H1(a := None)) s q = walk (tabs pg) s q"
      "s \<in> R \<Longrightarrow> length q = 4 \<Longrightarrow> \<forall>x \<in> set q. x < 512 \<Longrightarrow> xl (?H1(a := None)) s q = xl (tabs pg) s q" for s q
      using unlink_table [OF wr d r(3) _ o(1) _ o(2)] i256 e by auto
    have "walk (tabs pg') r q = walk (tabs pg) r q" if "valid_path q" "length q \<le> length p" for q
      unfolding f(4) using that by (intro V(2) [OF r(1)]) (auto simp: hit_def)
    moreover have "same_xl R (tabs pg) (tabs pg')" unfolding same_xl_def f(4) full_path_def using V(3) by blast
    ultimately show ?thesis using res f(2,3) V(1) f(4) by auto
  qed
qed

text \<open>The 4 KiB leaf descriptor of an address, 0 when no last-level table covers it.\<close>

definition leaf :: "tables \<Rightarrow> nat \<Rightarrow> nat list \<Rightarrow> u64" where
  "leaf H r path = (case walk H r (take 3 path) of None \<Rightarrow> 0 | Some t \<Rightarrow> ent H t (path ! 3))"

definition unmap_effect :: "nat set \<Rightarrow> tables \<Rightarrow> tables \<Rightarrow> nat \<Rightarrow> nat list \<Rightarrow> bool" where
  "unmap_effect R H H' r path \<longleftrightarrow>
     xl H' r path = None \<and>
     (\<forall>s \<in> R. \<forall>q. full_path q \<longrightarrow> (s, q) \<noteq> (r, path) \<longrightarrow> xl H' s q = xl H s q \<or> 256 \<le> hd path \<and> q = path \<and> xl H' s q = None)"

lemma unmap_spec:
  assumes env: "env_ok env" and inv: "pt_inv R (tabs pg)" and r: "r \<in> R" and rdy: "pmm_ready (frames pg)"
    and cnt: "in_pool (frames pg) (mm_pte_phys (leaf (tabs pg) r (va_path va))) \<Longrightarrow> pmm_frames (frames pg) (mm_pte_phys (leaf (tabs pg) r (va_path va))) \<noteq> None"
  shows "if mm_pte_present (leaf (tabs pg) r (va_path va)) then
       (\<exists>pg'. unmap_page_in_directory env r va pg = Done (True, pg') \<and> ram pg' = ram pg \<and> pt_inv R (tabs pg') \<and> pmm_ready (frames pg') \<and>
          unmap_effect R (tabs pg) (tabs pg') r (va_path va) \<and>
          pmm_frames (frames pg') = (if in_pool (frames pg) (mm_pte_phys (leaf (tabs pg) r (va_path va)))
             then drop_ref (mm_pte_phys (leaf (tabs pg) r (va_path va))) (pmm_frames (frames pg)) else pmm_frames (frames pg)))
     else unmap_page_in_directory env r va pg = Done (False, pg)"
proof -
  obtain i0 i1 i2 i3 where i: "mm_va_indices va = (i0, i1, i2, i3)" by (cases "mm_va_indices va")
  have path: "va_path va = [i0, i1, i2, i3]" by (simp add: va_path_def i)
  have b: "i0 < 512" "i1 < 512" "i2 < 512" "i3 < 512" using mm_va_indices_bound [OF i] by auto
  have v: "valid_path []" "valid_path [i0]" "valid_path [i0, i1]" "valid_path [i0, i1, i2]" using b by (simp_all add: valid_path_def)
  have Hr: "tabs pg r \<noteq> None" using pt_invD(2) [OF inv r v(1)] by simp
  have r0: "r \<noteq> 0" using pt_invD(1) [OF inv Hr] by simp
  define L where "L = leaf (tabs pg) r (va_path va)"
  have g0: "get_existing_table r i0 pg = Done (nxt_of (ent (tabs pg) r i0))" by (rule get_existing_nxt [OF Hr])
  show ?thesis
  proof (cases "walk (tabs pg) r [i0, i1, i2]")
    case None
    then have L0: "L = 0" by (simp add: L_def leaf_def path del: walk.simps)
    have "unmap_page_in_directory env r va pg = Done (False, pg)"
    proof (cases "nxt_of (ent (tabs pg) r i0)")
      case (Some t1)
      then have w1: "walk (tabs pg) r [i0] = Some t1" by simp
      note g1 = get_existing_nxt [OF pt_invD(2) [OF inv r v(2) w1]]
      show ?thesis
      proof (cases "nxt_of (ent (tabs pg) t1 i1)")
        case s2: (Some t2)
        then have w2: "walk (tabs pg) r [i0, i1] = Some t2" using Some by simp
        note g2 = get_existing_nxt [OF pt_invD(2) [OF inv r v(3) w2]]
        have "nxt_of (ent (tabs pg) t2 i2) = None" using None Some s2 by (simp split: option.splits)
        then show ?thesis using r0 g0 Some g1 s2 g2 by (simp add: unmap_page_in_directory_def i)
      qed (use r0 g0 Some g1 in \<open>simp add: unmap_page_in_directory_def i\<close>)
    qed (use r0 g0 in \<open>simp add: unmap_page_in_directory_def i\<close>)
    then show ?thesis using L0 by (simp flip: L_def)
  next
    case (Some t3)
    then obtain t1 t2 where n: "nxt_of (ent (tabs pg) r i0) = Some t1" "nxt_of (ent (tabs pg) t1 i1) = Some t2" "nxt_of (ent (tabs pg) t2 i2) = Some t3"
      by (auto split: option.splits)
    have w: "walk (tabs pg) r [i0] = Some t1" "walk (tabs pg) r [i0, i1] = Some t2" using n by simp_all
    note g1 = get_existing_nxt [OF pt_invD(2) [OF inv r v(2) w(1)]] and g2 = get_existing_nxt [OF pt_invD(2) [OF inv r v(3) w(2)]]
    obtain T where T: "tabs pg t3 = Some T" using pt_invD(2) [OF inv r v(4) Some] by blast
    have L: "L = T i3" using Some T by (simp add: L_def leaf_def path ent_def del: walk.simps)
    show ?thesis
    proof (cases "mm_pte_present L")
      case False
      then have "unmap_page_in_directory env r va pg = Done (False, pg)"
        using r0 g0 g1 g2 n T L by (simp add: unmap_page_in_directory_def i entry_at_def)
      with False show ?thesis by (simp flip: L_def)
    next
      case True
      let ?H1 = "(tabs pg)(t3 \<mapsto> T(i3 := 0))"
      let ?pg1 = "upd_acct (\<lambda>m. m\<lparr>ir0_mm_leaf_freed := add64 (ir0_mm_leaf_freed m) 1\<rparr>) (pg\<lparr>tabs := ?H1\<rparr>)"
      note S = leaf_step [OF inv r v(4) _ b(4) Some T refl, where e = 0, simplified]
      have rdy1: "pmm_ready (frames ?pg1)" and cnt1: "in_pool (frames ?pg1) (mm_pte_phys L) \<Longrightarrow> pmm_frames (frames ?pg1) (mm_pte_phys L) \<noteq> None"
        using rdy cnt by (simp_all flip: L_def)
      obtain pg2 where 2: "release_frame env (mm_pte_phys L) ?pg1 = Done pg2" "tabs pg2 = ?H1" "ram pg2 = ram pg" "pmm_ready (frames pg2)"
        "pmm_frames (frames pg2) = (if in_pool (frames pg) (mm_pte_phys L) then drop_ref (mm_pte_phys L) (pmm_frames (frames pg)) else pmm_frames (frames pg))"
        using release_frame_spec [OF env rdy1 cnt1] by auto
      have inv2: "pt_inv R (tabs pg2)" using S(1) 2(2) by simp
      have W2: "walk (tabs pg2) r q = walk (tabs pg) r q" if "valid_path q" for q using S(2) [OF r that] 2(2) by simp
      have w2: "walk (tabs pg2) r [i0, i1] = Some t2" "walk (tabs pg2) r ([i0, i1] @ [i2]) = Some t3" 
        using W2 [OF v(3)] W2 [OF v(4)] w Some by (simp_all del: walk.simps)
      obtain pg3 where 3: "reclaim_if_empty env t3 t2 i2 3 pg2 = Done pg3" "ram pg3 = ram pg2" "frames pg3 = frames pg2" "pt_inv R (tabs pg3)"
        "same_xl R (tabs pg2) (tabs pg3)" "\<forall>q. valid_path q \<longrightarrow> length q \<le> length [i0, i1] \<longrightarrow> walk (tabs pg3) r q = walk (tabs pg2) r q"
        using reclaim_spec [OF env inv2 r v(3) _ b(3) _ w2] by auto
      have w3: "walk (tabs pg3) r [i0] = Some t1" "walk (tabs pg3) r ([i0] @ [i1]) = Some t2"
        using 3(6) [rule_format, OF v(2)] 3(6) [rule_format, OF v(3)] W2 [OF v(2)] W2 [OF v(3)] w by (simp_all del: walk.simps)
      obtain pg4 where 4: "reclaim_if_empty env t2 t1 i1 2 pg3 = Done pg4" "ram pg4 = ram pg3" "frames pg4 = frames pg3" "pt_inv R (tabs pg4)"
        "same_xl R (tabs pg3) (tabs pg4)" "\<forall>q. valid_path q \<longrightarrow> length q \<le> length [i0] \<longrightarrow> walk (tabs pg4) r q = walk (tabs pg3) r q"
        using reclaim_spec [OF env 3(4) r v(2) _ b(2) _ w3] by auto
      have w4: "walk (tabs pg4) r [] = Some r" "walk (tabs pg4) r ([] @ [i0]) = Some t1" using 4(6) [rule_format, OF v(2)] w3 by (simp, simp del: walk.simps)
      obtain pg5 where 5: "(if i0 < 256 then reclaim_if_empty env t1 r i0 1 pg4 else Done pg4) = Done pg5" "ram pg5 = ram pg4" "frames pg5 = frames pg4"
        "pt_inv R (tabs pg5)" "same_xl R (tabs pg4) (tabs pg5)"
        using reclaim_spec [OF env 4(4) r v(1) _ b(1) _ w4] 4(4) by (cases "i0 < 256") auto
      have "unmap_page_in_directory env r va pg = Done (True, pg5)"
        using r0 g0 g1 g2 n T L True 2(1) 3(1) 4(1) 5(1)
        by (simp add: unmap_page_in_directory_def i entry_at_def set_entry_def split del: if_split)
      moreover have "same_xl R ?H1 (tabs pg5)" using 3(5) 4(5) 5(5) 2(2) same_xl_trans by metis
      moreover have sh: "s = r \<or> 256 \<le> i0" if "s \<in> R" "walk (tabs pg) s [i0, i1, i2] = Some t3" for s
        using pt_invD(3) [OF inv that(1) r v(4) v(4) that(2) Some] by auto
      have "unmap_effect R (tabs pg) ?H1 r (va_path va)"
        unfolding unmap_effect_def path
      proof (intro conjI ballI allI impI)
        show "xl ?H1 r [i0, i1, i2, i3] = None" using S(3) [OF r full_va_path [of va, unfolded path]] Some by simp
      next
        fix s q assume "s \<in> R" "full_path q" "(s, q) \<noteq> (r, [i0, i1, i2, i3])"
        then show "xl ?H1 s q = xl (tabs pg) s q \<or> 256 \<le> hd [i0, i1, i2, i3] \<and> q = [i0, i1, i2, i3] \<and> xl ?H1 s q = None"
          using S(3) [of s q] sh [of s] by (auto split: if_splits)
      qed
      ultimately have "unmap_effect R (tabs pg) (tabs pg5) r (va_path va)"
        using r full_va_path [of va] by (auto simp: unmap_effect_def same_xl_def)
      then show ?thesis using True 2 3 4 5 \<open>unmap_page_in_directory env r va pg = Done (True, pg5)\<close> by (simp flip: L_def)
    qed
  qed
qed

section \<open>Leaves and translations\<close>

lemma path4: "full_path q \<Longrightarrow> \<exists>a b c d. q = [a, b, c, d] \<and> a < 512 \<and> b < 512 \<and> c < 512 \<and> d < 512"
proof -
  assume "full_path q"
  then have "length q = Suc (Suc (Suc (Suc 0)))" "\<forall>x \<in> set q. x < 512" by (simp_all add: full_path_def)
  then show ?thesis by (auto simp: length_Suc_conv)
qed

text \<open>A translation through a descriptor without the large bit is the one of the 4 KiB leaf, and conversely.\<close>

lemma xl_leaf:
  assumes "full_path q" "xl H r q = Some (pa, e)" "\<not> mm_pte_large e"
  shows "leaf H r q = e" "pa = mm_pte_phys e" "\<exists>t. walk H r (take 3 q) = Some t" "mm_pte_present e"
proof -
  obtain a b c d where q: "q = [a, b, c, d]" using path4 [OF assms(1)] by blast
  from assms(2,3) show "leaf H r q = e" "pa = mm_pte_phys e" "\<exists>t. walk H r (take 3 q) = Some t" "mm_pte_present e"
    unfolding q by (auto simp: Let_def leaf_def split: if_splits option.splits)
qed

lemma leaf_xl:
  assumes "full_path q" "mm_pte_present (leaf H r q)"
  shows "xl H r q = Some (mm_pte_phys (leaf H r q), leaf H r q)"
proof -
  obtain a b c d where q: "q = [a, b, c, d]" using path4 [OF assms(1)] by blast
  from assms(2) obtain t where t: "walk H r [a, b, c] = Some t" unfolding q leaf_def by (auto simp del: walk.simps split: option.splits)
  from xl_walk [OF t, of "[d]"] t assms(2) show ?thesis unfolding q by (simp add: leaf_def Let_def del: walk.simps)
qed

lemma leaf_pte_small: "frame_addr a \<Longrightarrow> f AND PAGE_SIZE_2MB_FLAG = 0 \<Longrightarrow> \<not> mm_pte_large (mm_make_leaf_pte a (f AND 0xFFF) x)"
proof -
  assume "frame_addr a" "f AND PAGE_SIZE_2MB_FLAG = 0"
  then show ?thesis using flag_tests(4) [of f] bit_frame_addr_low [of a 7] by (simp add: pte_bits bit_leaf_pte bit_and_iff)
qed

section \<open>Properties\<close>

text \<open>
  C23: Mapping a page. The call never fails on a pointer and keeps the tables a forest. When it
  succeeds the address translates to the given frame with the given flags; when it fails (no memory
  for a table, or a 1 GiB leaf in the way) no translation has changed. Every other address of every
  address space translates as before, except that a 2 MiB leaf covering the page is broken up: its
  other pages keep their frame below the frame pool and are unmapped inside it. Mapping in the lower
  half never changes another address space.
\<close>

theorem map_page_correct:
  assumes "env_ok env" "pt_inv R (tabs pg)" "r \<in> R" "frame_addr phys"
  shows "\<exists>ok pg'. map_page_in_directory env r va phys flags pg = Done (ok, pg') \<and> ram pg' = ram pg \<and> frames pg' = frames pg \<and>
     pt_inv R (tabs pg') \<and>
     (ok \<longrightarrow> translate pg' r va = Some (phys, mm_make_leaf_pte phys (flags AND 0xFFF) (flags AND PAGE_EXEC \<noteq> 0))) \<and>
     (\<forall>s \<in> R. \<forall>va'. (s, va_path va') \<noteq> (r, va_path va) \<longrightarrow>
        translate pg' s va' = translate pg s va' \<or>
        ok \<and> (s = r \<or> 256 \<le> hd (va_path va)) \<and>
        (va_path va' = va_path va \<and> translate pg' s va' = translate pg' r va \<or>
         take 3 (va_path va') = take 3 (va_path va) \<and>
         (\<exists>pa e. translate pg s va' = Some (pa, e) \<and> mm_pte_large e \<and> translate pg' s va' = after_split pa e))) \<and>
     (\<not> ok \<longrightarrow> (\<forall>s \<in> R. \<forall>va'. translate pg' s va' = translate pg s va'))"
proof -
  obtain ok pg' where m: "map_page_in_directory env r va phys flags pg = Done (ok, pg')" "ram pg' = ram pg" "frames pg' = frames pg" "pt_inv R (tabs pg')"
    "\<not> ok \<longrightarrow> same_xl R (tabs pg) (tabs pg')"
    "ok \<longrightarrow> map_effect R (tabs pg) (tabs pg') r (va_path va) (phys, mm_make_leaf_pte phys (flags AND 0xFFF) (flags AND PAGE_EXEC \<noteq> 0))"
    using map_page_spec [OF assms, of va flags] by blast
  have "\<not> ok \<longrightarrow> (\<forall>s \<in> R. \<forall>va'. translate pg' s va' = translate pg s va')"
    using m(5) full_va_path by (auto simp: translate_def same_xl_def)
  moreover have "ok \<longrightarrow> translate pg' r va = Some (phys, mm_make_leaf_pte phys (flags AND 0xFFF) (flags AND PAGE_EXEC \<noteq> 0))"
    using m(6) by (simp add: translate_def map_effect_def)
  moreover have "ok \<longrightarrow> (\<forall>s \<in> R. \<forall>va'. (s, va_path va') \<noteq> (r, va_path va) \<longrightarrow>
        translate pg' s va' = translate pg s va' \<or> (s = r \<or> 256 \<le> hd (va_path va)) \<and>
        (va_path va' = va_path va \<and> translate pg' s va' = translate pg' r va \<or>
         take 3 (va_path va') = take 3 (va_path va) \<and>
         (\<exists>pa e. translate pg s va' = Some (pa, e) \<and> mm_pte_large e \<and> translate pg' s va' = after_split pa e)))"
  proof (intro impI ballI allI)
    fix s va' assume ok and s: "s \<in> R" "(s, va_path va') \<noteq> (r, va_path va)"
    with m(6) have e: "map_effect R (tabs pg) (tabs pg') r (va_path va) (phys, mm_make_leaf_pte phys (flags AND 0xFFF) (flags AND PAGE_EXEC \<noteq> 0))" by simp
    show "translate pg' s va' = translate pg s va' \<or> (s = r \<or> 256 \<le> hd (va_path va)) \<and>
        (va_path va' = va_path va \<and> translate pg' s va' = translate pg' r va \<or>
         take 3 (va_path va') = take 3 (va_path va) \<and>
         (\<exists>pa e. translate pg s va' = Some (pa, e) \<and> mm_pte_large e \<and> translate pg' s va' = after_split pa e))"
      using e [unfolded map_effect_def, THEN conjunct1] e [unfolded map_effect_def, THEN conjunct2, rule_format, OF s(1) full_va_path s(2)]
      unfolding translate_def by metis
  qed
  ultimately show ?thesis using m(1-4) by (intro exI [of _ ok] exI [of _ pg']) blast
qed

text \<open>
  Mapping a free page of the lower half and unmapping it again restores every translation of every
  address space, and drops exactly one reference to the frame when it belongs to the frame pool.
\<close>

theorem map_unmap_roundtrip:
  assumes "env_ok env" "pt_inv R (tabs pg)" "r \<in> R" "frame_addr phys" "hd (va_path va) < 256" "translate pg r va = None"
    and "flags AND PAGE_SIZE_2MB_FLAG = 0" "pmm_ready (frames pg)" "in_pool (frames pg) phys \<Longrightarrow> pmm_frames (frames pg) phys \<noteq> None"
    and "map_page_in_directory env r va phys flags pg = Done (True, pg1)"
  shows "\<exists>pg2. unmap_page_in_directory env r va pg1 = Done (True, pg2) \<and> (\<forall>s \<in> R. \<forall>va'. translate pg2 s va' = translate pg s va') \<and>
     pt_inv R (tabs pg2) \<and> ram pg2 = ram pg \<and> pmm_ready (frames pg2) \<and>
     pmm_frames (frames pg2) = (if in_pool (frames pg) phys then drop_ref phys (pmm_frames (frames pg)) else pmm_frames (frames pg))"
proof -
  let ?p = "va_path va" let ?e = "mm_make_leaf_pte phys (flags AND 0xFFF) (flags AND PAGE_EXEC \<noteq> 0)"
  have m: "ram pg1 = ram pg" "frames pg1 = frames pg" "pt_inv R (tabs pg1)" "map_effect R (tabs pg) (tabs pg1) r ?p (phys, ?e)"
    using map_page_spec [OF assms(1-4), of va flags] assms(10) by auto
  have x1: "xl (tabs pg1) r ?p = Some (phys, ?e)" using m(4) by (simp add: map_effect_def)
  note L = xl_leaf [OF full_va_path x1 leaf_pte_small [OF assms(4,7)]]
  obtain a b c d where p: "?p = [a, b, c, d]" "d < 512" using path4 [OF full_va_path [of va]] by blast
  have "xl (tabs pg) r (take 3 ?p @ [d]) = None" using assms(6) p(1) by (simp add: translate_def del: xl.simps)
  then have free: "\<not> (\<forall>k < 512. xl (tabs pg) r (take 3 ?p @ [k]) \<noteq> None)" using p(2) by blast
  have others: "xl (tabs pg1) s q = xl (tabs pg) s q" if "s \<in> R" "full_path q" "(s, q) \<noteq> (r, ?p)" for s q
  proof -
    have "xl (tabs pg1) s q = xl (tabs pg) s q \<or> s = r \<and> take 3 q = take 3 ?p \<and> (\<forall>k < 512. xl (tabs pg) s (take 3 q @ [k]) \<noteq> None)"
      using m(4) that assms(5) unfolding map_effect_def by fastforce
    with free show ?thesis by metis
  qed
  have cnt: "in_pool (frames pg1) (mm_pte_phys (leaf (tabs pg1) r ?p)) \<Longrightarrow> pmm_frames (frames pg1) (mm_pte_phys (leaf (tabs pg1) r ?p)) \<noteq> None"
    using L assms(4,9) m(2) by simp
  have "pmm_ready (frames pg1)" using assms(8) m(2) by simp
  from unmap_spec [OF assms(1) m(3) assms(3) this, of va, OF cnt] L(1,4) assms(4) m(2) obtain pg2 where
    u: "unmap_page_in_directory env r va pg1 = Done (True, pg2)" "ram pg2 = ram pg1" "pt_inv R (tabs pg2)" "pmm_ready (frames pg2)"
    "unmap_effect R (tabs pg1) (tabs pg2) r ?p"
    "pmm_frames (frames pg2) = (if in_pool (frames pg) phys then drop_ref phys (pmm_frames (frames pg)) else pmm_frames (frames pg))" by auto
  have "xl (tabs pg2) s q = xl (tabs pg) s q" if "s \<in> R" "full_path q" for s q
    using u(5) others [OF that] that assms(5,6) unfolding unmap_effect_def translate_def
    by (cases "(s, q) = (r, ?p)") fastforce+
  then show ?thesis using u m(1) full_va_path by (simp add: translate_def)
qed

section \<open>Witnesses\<close>

definition env_demo :: paging_env where
  "env_demo = \<lparr>table_page = (\<lambda>pg. List.find (\<lambda>a. tabs pg a = None \<and> \<not> in_pool (frames pg) a) [0x101000, 0x102000, 0x103000, 0x104000, 0x105000, 0x106000]),
     type_map_ok = (\<lambda>_. True), current_process = None\<rparr>"

definition acct_zero :: mm_acct where
  "acct_zero = \<lparr>ir0_mm_root_created = 0, ir0_mm_root_freed = 0, ir0_mm_level1_created = 0, ir0_mm_level1_freed = 0,
     ir0_mm_level2_created = 0, ir0_mm_level2_freed = 0, ir0_mm_level3_created = 0, ir0_mm_level3_freed = 0,
     ir0_mm_leaf_created = 0, ir0_mm_leaf_freed = 0, ir0_mm_frame_user_alloc = 0, ir0_mm_frame_user_free = 0,
     ir0_mm_frame_pt_alloc = 0, ir0_mm_frame_pt_free = 0, ir0_mm_frame_kernel_alloc = 0, ir0_mm_frame_kernel_free = 0,
     ir0_mm_frame_type_map = None, fase43_oom_boot_fatal = 0, fase43_oom_kernel_fatal = 0, fase43_oom_user_recoverable = 0\<rparr>"

text \<open>Two empty address spaces and a frame pool of two frames.\<close>

definition paging_demo :: paging where
  "paging_demo = \<lparr>tabs = [0x100000 \<mapsto> (\<lambda>_. 0), 0x200000 \<mapsto> (\<lambda>_. 0)], ram = (\<lambda>_. 0), frames = pmm_two_frames, acct = acct_zero\<rparr>"

lemma demo_pool: "in_pool pmm_two_frames a \<longleftrightarrow> 4096 \<le> a \<and> a < 12288"
  by (auto simp: in_pool_def pmm_two_frames_eq pmm_get_start_def pmm_get_end_def)

lemma env_demo_ok: "env_ok env_demo"
  by (auto simp: env_ok_def env_demo_def frame_addr_def split: if_splits)

lemma empty_walk: "walk [0x100000 \<mapsto> (\<lambda>_. 0), 0x200000 \<mapsto> (\<lambda>_. 0)] r p = Some t \<longleftrightarrow> p = [] \<and> t = r"
  by (cases p) (auto simp: ent_def nxt_of_def)

lemma paging_demo_inv: "pt_inv {0x100000, 0x200000} (tabs paging_demo)"
  unfolding pt_inv_def paging_demo_def paging.simps empty_walk by (auto simp: frame_addr_def split: if_splits)

lemma paging_demo_free: "translate paging_demo 0x100000 va = None"
  by (cases "mm_va_indices va") (simp add: translate_def va_path_def paging_demo_def ent_def Let_def)

theorem map_page_correct_witness:
  "\<exists>ok pg'. map_page_in_directory env_demo 0x100000 0x400000 4096 (PAGE_USER OR PAGE_RW) paging_demo = Done (ok, pg') \<and>
     (ok \<longrightarrow> (\<exists>e. translate pg' 0x100000 0x400000 = Some (4096, e))) \<and> pt_inv {0x100000, 0x200000} (tabs pg')"
  using map_page_correct [OF env_demo_ok paging_demo_inv, of "0x100000" 4096 "0x400000" "PAGE_USER OR PAGE_RW"]
  by (auto simp: frame_addr_def)

lemma create_fresh:
  assumes "env_ok env" "tabs pg t = Some T" "\<not> mm_pte_present (T i)" "table_page env pg = Some a"
  shows "\<exists>pg'. get_or_create_table env t i True f level pg = Done (a, pg') \<and>
     tabs pg' = (tabs pg)(a \<mapsto> (\<lambda>_. 0), t \<mapsto> T(i := mm_make_table_pte a (f AND PAGE_USER \<noteq> 0))) \<and> frames pg' = frames pg"
proof -
  have a: "a \<noteq> 0" "frame_addr a" "tabs pg a = None" using assms(1,4) by (simp_all add: env_ok_def)
  then have at: "a \<noteq> t" using assms(2) by auto
  obtain pg1 where g: "alloc_page_table env level pg = Done (a, pg1)" "quiet (pg\<lparr>tabs := (tabs pg)(a \<mapsto> (\<lambda>_. 0))\<rparr>) pg1"
    using alloc_page_table_spec [OF assms(1), of pg level] assms(4) by auto
  then show ?thesis using assms(2,3) a at by (simp add: get_or_create_table_def entry_at_def set_entry_def Let_def pte_phys_of quiet_def)
qed

lemma map_fresh_root:
  assumes env: "env_ok env" and T: "tabs pg r = Some (\<lambda>_. 0)" and r: "r \<noteq> 0" and i: "mm_va_indices va = (ja, jb, jc, jd)"
    and a1: "\<And>x. frames x = frames pg \<Longrightarrow> dom (tabs x) = dom (tabs pg) \<Longrightarrow> table_page env x = Some a1"
    and a2: "\<And>x. frames x = frames pg \<Longrightarrow> dom (tabs x) = insert a1 (dom (tabs pg)) \<Longrightarrow> table_page env x = Some a2"
    and a3: "\<And>x. frames x = frames pg \<Longrightarrow> dom (tabs x) = {a1, a2} \<union> dom (tabs pg) \<Longrightarrow> table_page env x = Some a3"
  shows "\<exists>pg'. map_page_in_directory env r va phys f pg = Done (True, pg') \<and> dom (tabs pg') = {a1, a2, a3} \<union> dom (tabs pg) \<and> frames pg' = frames pg \<and>
     (\<forall>u \<in> dom (tabs pg). u \<noteq> r \<longrightarrow> tabs pg' u = tabs pg u)"
proof -
  have z: "\<not> mm_pte_present 0" by (simp add: pte_bits)
  have new: "tabs x a = None \<and> a \<noteq> 0" if "table_page env x = Some a" for x a using env that by (simp add: env_ok_def)
  note p1 = a1 [OF refl refl]
  obtain pg1 where 1: "get_or_create_table env r ja True f 1 pg = Done (a1, pg1)"
    "tabs pg1 = (tabs pg)(a1 \<mapsto> (\<lambda>_. 0), r \<mapsto> (\<lambda>_. 0)(ja := mm_make_table_pte a1 (f AND PAGE_USER \<noteq> 0)))" "frames pg1 = frames pg"
    using create_fresh [OF env T _ p1, of ja f 1] z by auto
  have d1: "dom (tabs pg1) = insert a1 (dom (tabs pg))" using T by (auto simp: 1(2))
  note p2 = a2 [OF 1(3) d1]
  have n1: "a1 \<noteq> r" "a1 \<noteq> 0" using new [OF p1] T by auto
  have t1: "tabs pg1 a1 = Some (\<lambda>_. 0)" using n1 by (simp add: 1(2))
  obtain pg2 where 2: "get_or_create_table env a1 jb True f 2 pg1 = Done (a2, pg2)"
    "tabs pg2 = (tabs pg1)(a2 \<mapsto> (\<lambda>_. 0), a1 \<mapsto> (\<lambda>_. 0)(jb := mm_make_table_pte a2 (f AND PAGE_USER \<noteq> 0)))" "frames pg2 = frames pg"
    using create_fresh [OF env t1 _ p2, of jb f 2] 1(3) z by auto
  have d2: "dom (tabs pg2) = {a1, a2} \<union> dom (tabs pg)" using d1 by (auto simp: 2(2))
  note p3 = a3 [OF 2(3) d2]
  have n2: "a2 \<noteq> a1" "a2 \<noteq> 0" "a2 \<notin> dom (tabs pg)" using new [OF p2] d1 t1 by auto
  have t2: "tabs pg2 a2 = Some (\<lambda>_. 0)" using n2 by (simp add: 2(2))
  obtain pg3 where 3: "get_or_create_table env a2 jc True f 3 pg2 = Done (a3, pg3)"
    "tabs pg3 = (tabs pg2)(a3 \<mapsto> (\<lambda>_. 0), a2 \<mapsto> (\<lambda>_. 0)(jc := mm_make_table_pte a3 (f AND PAGE_USER \<noteq> 0)))" "frames pg3 = frames pg"
    using create_fresh [OF env t2 _ p3, of jc f 3] 2(3) z by auto
  have n3: "a3 \<noteq> a2" "a3 \<noteq> 0" "a3 \<notin> dom (tabs pg)" using new [OF p3] d2 t2 by auto
  have "tabs pg3 a3 = Some (\<lambda>_. 0)" using n3 by (simp add: 3(2))
  from install_leaf_spec [OF env this, of jd phys f] obtain pg4 where 4: "install_leaf env a3 jd phys f pg3 = Done pg4" "frames pg4 = frames pg3"
    "tabs pg4 = (tabs pg3)(a3 \<mapsto> (\<lambda>_. 0)(jd := mm_make_leaf_pte phys (f AND 0xFFF) (f AND PAGE_EXEC \<noteq> 0)))" by blast
  have "map_page_in_directory env r va phys f pg = Done (True, pg4)"
    using 1(1) 2(1) 3(1) 4(1) r n1 n2 n3 by (simp add: map_page_in_directory_def i)
  moreover have "dom (tabs pg4) = {a1, a2, a3} \<union> dom (tabs pg)" using d2 by (auto simp: 4(3) 3(2))
  moreover have "tabs pg4 u = tabs pg u" if "u \<in> dom (tabs pg)" "u \<noteq> r" for u
    using that n2(3) n3(3) new [OF p1] by (auto simp: 4(3) 3(2) 2(2) 1(2))
  ultimately show ?thesis using 3(3) 4(2) by auto
qed

lemma demo_table_page:
  assumes "in_pool (frames x) = in_pool pmm_two_frames" "dom (tabs x) = D"
  shows "table_page env_demo x = List.find (\<lambda>a. a \<notin> D) [0x101000, 0x102000, 0x103000, 0x104000, 0x105000, 0x106000]"
proof -
  have "a \<in> set [0x101000, 0x102000, 0x103000, 0x104000, 0x105000, 0x106000] \<Longrightarrow> tabs x a = None \<and> \<not> in_pool (frames x) a \<longleftrightarrow> a \<notin> D" for a :: nat
    using assms demo_pool [of a] by (auto simp: domIff)
  then show ?thesis unfolding env_demo_def paging_env.simps by (intro find_cong) auto
qed

lemma demo_map_ok:
  assumes tb: "tabs pg = tabs paging_demo" and pool: "in_pool (frames pg) = in_pool pmm_two_frames"
  shows "\<exists>pg1. map_page_in_directory env_demo 0x100000 0x400000 phys f pg = Done (True, pg1) \<and>
     dom (tabs pg1) = {0x100000, 0x200000, 0x101000, 0x102000, 0x103000} \<and> frames pg1 = frames pg \<and> tabs pg1 0x200000 = Some (\<lambda>_. 0)"
proof -
  have d: "dom (tabs pg) = {0x100000, 0x200000}" using tb by (auto simp: paging_demo_def)
  have "\<exists>pg'. map_page_in_directory env_demo 0x100000 0x400000 phys f pg = Done (True, pg') \<and> dom (tabs pg') = {0x101000, 0x102000, 0x103000} \<union> dom (tabs pg) \<and>
      frames pg' = frames pg \<and> (\<forall>u \<in> dom (tabs pg). u \<noteq> 0x100000 \<longrightarrow> tabs pg' u = tabs pg u)"
    by (rule map_fresh_root [OF env_demo_ok, where ja = 0 and jb = 0 and jc = 2 and jd = 0])
      (use tb pool d in \<open>simp_all add: demo_table_page paging_demo_def mm_va_indices_def\<close>)
  moreover have "tabs pg 0x200000 = Some (\<lambda>_. 0)" using tb by (simp add: paging_demo_def)
  ultimately show ?thesis using d by auto
qed

theorem map_unmap_roundtrip_witness:
  "\<exists>pg1 pg2. map_page_in_directory env_demo 0x100000 0x400000 0x300000 (PAGE_USER OR PAGE_RW) paging_demo = Done (True, pg1) \<and>
     unmap_page_in_directory env_demo 0x100000 0x400000 pg1 = Done (True, pg2) \<and>
     (\<forall>s \<in> {0x100000, 0x200000}. \<forall>va'. translate pg2 s va' = translate paging_demo s va')"
proof -
  obtain pg1 where m: "map_page_in_directory env_demo 0x100000 0x400000 0x300000 (PAGE_USER OR PAGE_RW) paging_demo = Done (True, pg1)"
    using demo_map_ok [of paging_demo "0x300000" "PAGE_USER OR PAGE_RW"] by (auto simp: paging_demo_def)
  have "hd (va_path 0x400000) < 256" by (simp add: va_path_def mm_va_indices_def)
  moreover have "\<not> in_pool (frames paging_demo) 0x300000" "pmm_ready (frames paging_demo)"
    using pmm_two_frames_ready by (simp_all add: paging_demo_def in_pool_def pmm_two_frames_eq pmm_get_start_def pmm_get_end_def)
  ultimately show ?thesis
    using map_unmap_roundtrip [OF env_demo_ok paging_demo_inv _ _ _ paging_demo_free _ _ _ m] m
    by (auto simp: frame_addr_def simp del: not_None_eq)
qed
end
