(* ===== verification/Address_Space.thy ===== *)
theory Address_Space
  imports Page_Table
begin

text \<open>
  User memory (\<^verbatim>\<open>mm/paging.c\<close>): regions of fresh zeroed pages, copies between the kernel and a user
  address space, copy-on-write, and the duplication of an address space at fork. Physical memory
  outside the tables is the byte array \<^verbatim>\<open>ram\<close>; a copy that would touch the page of a table is
  \<^verbatim>\<open>Stuck\<close>. The switch to the boot address space around a physical access only changes which
  virtual addresses reach the same bytes and is left out, like the probe counters.
\<close>

section \<open>Physical pages\<close>

definition table_page_at :: "nat \<Rightarrow> paging \<Rightarrow> bool" where
  "table_page_at a pg \<longleftrightarrow> tabs pg (align_down 4096 a) \<noteq> None"

definition write_phys :: "nat \<Rightarrow> u8 list \<Rightarrow> paging \<Rightarrow> paging kresult" where
  "write_phys a bs pg =
     (if table_page_at a pg then Stuck
      else Done (pg\<lparr>ram := (\<lambda>x. if a \<le> x \<and> x < a + length bs then bs ! (x - a) else ram pg x)\<rparr>))"

definition read_phys :: "nat \<Rightarrow> nat \<Rightarrow> paging \<Rightarrow> u8 list kresult" where
  "read_phys a n pg = (if table_page_at a pg then Stuck else Done (map (\<lambda>k. ram pg (a + k)) [0..<n]))"

definition paging_copy_phys_page :: "nat \<Rightarrow> nat \<Rightarrow> paging \<Rightarrow> paging kresult" where
  "paging_copy_phys_page dst_phys src_phys pg = kbind (read_phys src_phys 4096 pg) (\<lambda>bs. write_phys dst_phys bs pg)"

definition paging_zero_phys_page :: "nat \<Rightarrow> paging \<Rightarrow> paging kresult" where
  "paging_zero_phys_page phys pg = write_phys phys (replicate 4096 0) pg"

definition paging_poison_phys_page :: "nat \<Rightarrow> u8 \<Rightarrow> paging \<Rightarrow> paging kresult" where
  "paging_poison_phys_page phys pattern pg = write_phys phys (replicate 4096 pattern) pg"

section \<open>Copy-on-write and copies to user memory\<close>

definition cow_flags :: "u64 \<Rightarrow> u64" where
  "cow_flags entry =
     (let map_flags = ((entry AND 0xFFF) OR PAGE_USER OR PAGE_RW) AND NOT (PAGE_COW OR PAGE_GLOBAL) in
      if entry AND PAGE_NX = 0 then map_flags OR PAGE_EXEC else map_flags)"

definition paging_cow_break_leaf :: "paging_env \<Rightarrow> nat \<Rightarrow> nat \<times> nat \<Rightarrow> nat \<Rightarrow> paging \<Rightarrow> (bool \<times> paging) kresult" where
  "paging_cow_break_leaf env root pte vaddr pg =
     kbind (entry_at (fst pte) (snd pte) pg) (\<lambda>entry.
       if entry AND PAGE_PRESENT = 0 then Done (False, pg)
       else if entry AND PAGE_RW \<noteq> 0 then Done (True, pg)
       else if entry AND PAGE_COW = 0 \<or> entry AND PAGE_USER = 0 then Done (False, pg)
       else
         (let old_phys = mm_pte_phys entry; (new_phys, q) = pmm_alloc_frame (current_process env) (frames pg) in
          if new_phys = 0 then Done (False, pg\<lparr>frames := q\<rparr>)
          else
            kbind (paging_copy_phys_page new_phys old_phys (pg\<lparr>frames := q\<rparr>)) (\<lambda>pg1.
              kbind (map_page_in_directory env root (align_down 4096 vaddr) new_phys (cow_flags entry) pg1) (\<lambda>(ok, pg2).
                if \<not> ok then kbind (pmm_free_frame new_phys (frames pg2)) (\<lambda>q2. Done (False, pg2\<lparr>frames := q2\<rparr>))
                else kbind (pmm_frame_put old_phys (frames pg2)) (\<lambda>q2. Done (True, pg2\<lparr>frames := q2\<rparr>))))))"

text \<open>
  The frame a write to \<open>page\<close> goes to: the leaf must be present, and a read-only copy-on-write leaf is
  broken first. \<^verbatim>\<open>None\<close> is the result -1.
\<close>

definition writable_frame :: "paging_env \<Rightarrow> nat \<Rightarrow> nat \<Rightarrow> paging \<Rightarrow> (nat option \<times> paging) kresult" where
  "writable_frame env root page pg =
     kbind (paging_get_pte root page pg) (\<lambda>pte.
       case pte of
         None \<Rightarrow> Done (None, pg)
       | Some (t, i) \<Rightarrow>
           kbind (entry_at t i pg) (\<lambda>e.
             if \<not> mm_pte_present e then Done (None, pg)
             else if e AND PAGE_RW = 0 \<and> e AND PAGE_COW \<noteq> 0 then
               kbind (paging_cow_break_leaf env root (t, i) page pg) (\<lambda>(ok, pg1).
                 if \<not> ok then Done (None, pg1)
                 else kbind (paging_get_pte root page pg1) (\<lambda>pte1.
                   case pte1 of
                     None \<Rightarrow> Done (None, pg1)
                   | Some (t1, j) \<Rightarrow>
                       kbind (entry_at t1 j pg1) (\<lambda>e1.
                         if \<not> mm_pte_present e1 \<or> e1 AND PAGE_RW = 0 then Done (None, pg1)
                         else Done (Some (mm_pte_phys e1), pg1))))
             else Done (Some (mm_pte_phys e), pg)))"

definition page_chunk :: "nat \<Rightarrow> nat \<Rightarrow> nat" where
  "page_chunk a n = (let chunk = 4096 - a mod 4096 in if n < chunk then n else chunk)"

lemma page_chunk_pos: "0 < n \<Longrightarrow> 0 < page_chunk a n"
  by (simp add: page_chunk_def Let_def)

lemma page_chunk_le: "page_chunk a n \<le> n"
  by (simp add: page_chunk_def Let_def)

function copy_to_region :: "paging_env \<Rightarrow> nat \<Rightarrow> nat \<Rightarrow> u8 list \<Rightarrow> paging \<Rightarrow> (bool \<times> paging) kresult" where
  "copy_to_region env root dst s pg =
     (if s = [] then Done (True, pg)
      else
        kbind (writable_frame env root (align_down 4096 dst) pg) (\<lambda>(fr, pg1).
          case fr of
            None \<Rightarrow> Done (False, pg1)
          | Some phys \<Rightarrow>
              (let chunk = page_chunk dst (length s) in
               kbind (write_phys (phys + dst mod 4096) (take chunk s) pg1) (\<lambda>pg2.
                 copy_to_region env root (add64 dst chunk) (drop chunk s) pg2))))"
  by pat_completeness auto
termination
  by (relation "measure (\<lambda>(env, root, dst, s, pg). length s)") (auto simp: page_chunk_pos)

definition copy_to_user_region_in_directory :: "paging_env \<Rightarrow> nat \<Rightarrow> nat \<Rightarrow> u8 list option \<Rightarrow> paging \<Rightarrow> (bool \<times> paging) kresult" where
  "copy_to_user_region_in_directory env root dst src pg =
     (case src of None \<Rightarrow> Done (False, pg) | Some s \<Rightarrow> if root = 0 then Done (False, pg) else copy_to_region env root dst s pg)"

definition zero_user_region_in_directory :: "paging_env \<Rightarrow> nat \<Rightarrow> nat \<Rightarrow> nat \<Rightarrow> paging \<Rightarrow> (bool \<times> paging) kresult" where
  "zero_user_region_in_directory env root dst n pg =
     (if root = 0 then Done (False, pg) else copy_to_region env root dst (replicate n 0) pg)"

text \<open>The bytes read, \<^verbatim>\<open>None\<close> for the result -1.\<close>

function copy_from_region :: "nat \<Rightarrow> nat \<Rightarrow> nat \<Rightarrow> paging \<Rightarrow> u8 list option kresult" where
  "copy_from_region root src n pg =
     (if n = 0 then Done (Some [])
      else
        kbind (paging_get_pte root (align_down 4096 src) pg) (\<lambda>pte.
          case pte of
            None \<Rightarrow> Done None
          | Some (t, i) \<Rightarrow>
              kbind (entry_at t i pg) (\<lambda>e.
                if \<not> mm_pte_present e then Done None
                else
                  (let chunk = page_chunk src n in
                   kbind (read_phys (mm_pte_phys e + src mod 4096) chunk pg) (\<lambda>bs.
                     kbind (copy_from_region root (add64 src chunk) (n - chunk) pg) (\<lambda>rest.
                       Done (map_option ((@) bs) rest)))))))"
  by pat_completeness auto
termination
  by (relation "measure (\<lambda>(root, src, n, pg). n)") (auto simp: page_chunk_pos)

definition copy_from_user_region_in_directory :: "nat \<Rightarrow> nat \<Rightarrow> nat \<Rightarrow> paging \<Rightarrow> u8 list option kresult" where
  "copy_from_user_region_in_directory root src n pg = (if root = 0 then Done None else copy_from_region root src n pg)"


declare copy_to_region.simps [simp del] copy_from_region.simps [simp del]

section \<open>Regions of fresh pages\<close>

text \<open>The rollback: what the loop mapped so far is unmapped again, and the results are ignored.\<close>

fun unmap_pages :: "paging_env \<Rightarrow> nat \<Rightarrow> nat list \<Rightarrow> paging \<Rightarrow> paging kresult" where
  "unmap_pages env root [] pg = Done pg"
| "unmap_pages env root (va # vas) pg = kbind (unmap_page_in_directory env root va pg) (\<lambda>(ok, pg1). unmap_pages env root vas pg1)"

text \<open>\<open>done\<close> are the pages mapped so far, \<open>vas\<close> those to come.\<close>

fun map_fresh_pages :: "paging_env \<Rightarrow> nat \<Rightarrow> u64 \<Rightarrow> nat list \<Rightarrow> nat list \<Rightarrow> paging \<Rightarrow> (bool \<times> paging) kresult" where
  "map_fresh_pages env root flags mapped [] pg = Done (True, pg)"
| "map_fresh_pages env root flags mapped (va # vas) pg =
     (let (phys_addr, q) = pmm_alloc_frame (current_process env) (frames pg) in
      if phys_addr = 0 then kbind (unmap_pages env root mapped (pg\<lparr>frames := q\<rparr>)) (\<lambda>pg1. Done (False, pg1))
      else
        kbind (paging_zero_phys_page phys_addr (pg\<lparr>frames := q\<rparr>)) (\<lambda>pg1.
          kbind (map_page_in_directory env root va phys_addr flags pg1) (\<lambda>(ok, pg2).
            if ok then map_fresh_pages env root flags (mapped @ [va]) vas pg2
            else
              kbind (pmm_free_frame phys_addr (frames pg2)) (\<lambda>q2.
                kbind (unmap_pages env root mapped (pg2\<lparr>frames := q2\<rparr>)) (\<lambda>pg3. Done (False, pg3))))))"

definition map_user_region_in_directory :: "paging_env \<Rightarrow> nat \<Rightarrow> nat \<Rightarrow> nat \<Rightarrow> u64 \<Rightarrow> paging \<Rightarrow> (bool \<times> paging) kresult" where
  "map_user_region_in_directory env root virtual_start sz flags pg =
     (if root = 0 then Done (False, pg)
      else
        (let start = align_down 4096 virtual_start; n = align_down 4096 (add64 sz 0xFFF) div 4096 in
         map_fresh_pages env root (flags OR PAGE_USER) [] (map (\<lambda>k. add64 start (k * 4096)) [0..<n]) pg))"

section \<open>Fork\<close>

text \<open>\<^verbatim>\<open>for (i = ...) { ... }\<close> with an early \<^verbatim>\<open>return -1\<close>.\<close>

fun kfor :: "nat list \<Rightarrow> (nat \<Rightarrow> 's \<Rightarrow> (bool \<times> 's) kresult) \<Rightarrow> 's \<Rightarrow> (bool \<times> 's) kresult" where
  "kfor [] f s = Done (True, s)"
| "kfor (i # is) f s = kbind (f i s) (\<lambda>(ok, s1). if ok then kfor is f s1 else Done (False, s1))"

definition mm_user_root_slots :: nat where
  "mm_user_root_slots = 256"

text \<open>The last-level tables of the user half, each with its three indices.\<close>

definition for_leaf_tables ::
  "nat \<Rightarrow> (nat \<Rightarrow> nat \<Rightarrow> nat \<Rightarrow> nat \<Rightarrow> paging \<Rightarrow> (bool \<times> paging) kresult) \<Rightarrow> paging \<Rightarrow> (bool \<times> paging) kresult" where
  "for_leaf_tables root body =
     kfor [0..<mm_user_root_slots] (\<lambda>i4 pg.
       kbind (get_existing_table root i4 pg) (\<lambda>t1. case t1 of None \<Rightarrow> Done (True, pg) | Some level1_table \<Rightarrow>
         kfor [0..<512] (\<lambda>i3 pg.
           kbind (get_existing_table level1_table i3 pg) (\<lambda>t2. case t2 of None \<Rightarrow> Done (True, pg) | Some level2_table \<Rightarrow>
             kfor [0..<512] (\<lambda>i2 pg.
               kbind (get_existing_table level2_table i2 pg) (\<lambda>t3. case t3 of None \<Rightarrow> Done (True, pg) | Some level3_table \<Rightarrow>
                 body level3_table i4 i3 i2 pg)) pg)) pg))"

definition share_flags :: "u64 \<Rightarrow> u64" where
  "share_flags page_entry =
     (let flags = ((page_entry AND 0xFFF) AND NOT PAGE_GLOBAL) OR PAGE_USER;
          flags1 = (if page_entry AND PAGE_RW \<noteq> 0 \<or> page_entry AND PAGE_COW \<noteq> 0 then (flags AND NOT PAGE_RW) OR PAGE_COW else flags) in
      if page_entry AND PAGE_NX = 0 then flags1 OR PAGE_EXEC else flags1)"

definition share_page :: "paging_env \<Rightarrow> nat \<Rightarrow> nat \<Rightarrow> nat \<Rightarrow> nat \<Rightarrow> nat \<Rightarrow> nat \<Rightarrow> paging \<Rightarrow> (bool \<times> paging) kresult" where
  "share_page env child_root level3_table i4 i3 i2 i1 pg =
     kbind (entry_at level3_table i1 pg) (\<lambda>page_entry.
       if \<not> mm_pte_present page_entry \<or> page_entry AND PAGE_USER = 0 then Done (True, pg)
       else
         (let parent_phys = mm_pte_phys page_entry in
          kbind (pmm_frame_get parent_phys (frames pg)) (\<lambda>q.
            kbind (map_page_in_directory env child_root (indices_va i4 i3 i2 i1) parent_phys (share_flags page_entry) (pg\<lparr>frames := q\<rparr>)) (\<lambda>(ok, pg1).
              if ok then Done (True, pg1)
              else kbind (pmm_frame_put parent_phys (frames pg1)) (\<lambda>q1. Done (False, pg1\<lparr>frames := q1\<rparr>))))))"

definition protect_page :: "nat \<Rightarrow> nat \<Rightarrow> paging \<Rightarrow> (bool \<times> paging) kresult" where
  "protect_page level3_table i1 pg =
     kbind (entry_at level3_table i1 pg) (\<lambda>page_entry.
       if \<not> mm_pte_present page_entry \<or> page_entry AND PAGE_USER = 0 \<or> page_entry AND PAGE_RW = 0 then Done (True, pg)
       else kbind (set_entry level3_table i1 ((page_entry AND NOT (PAGE_RW OR PAGE_GLOBAL)) OR PAGE_COW) pg) (\<lambda>pg1. Done (True, pg1)))"

text \<open>
  \<open>parent_root\<close> and \<open>child_root\<close> are \<^verbatim>\<open>process_pgd\<close> of the two processes, 0 when there is none. The final
  TLB flush has no effect on the tables.
\<close>

definition copy_process_memory :: "paging_env \<Rightarrow> nat \<Rightarrow> nat \<Rightarrow> paging \<Rightarrow> (bool \<times> paging) kresult" where
  "copy_process_memory env parent_root child_root pg =
     (if parent_root = 0 \<or> child_root = 0 then Done (False, pg)
      else
        kbind (for_leaf_tables parent_root (\<lambda>level3_table i4 i3 i2.
                 kfor [0..<512] (share_page env child_root level3_table i4 i3 i2)) pg) (\<lambda>(ok, pg1).
          if \<not> ok then Done (False, pg1)
          else for_leaf_tables parent_root (\<lambda>level3_table i4 i3 i2. kfor [0..<512] (protect_page level3_table)) pg1))"

section \<open>The user's view\<close>

text \<open>
  \<open>U R H (s, q)\<close> is the user descriptor of page \<open>q\<close> (its four indices) in the lower half of address
  space \<open>s\<close>. User pages are small: no user descriptor has the large bit.
\<close>

definition lower :: "nat list \<Rightarrow> bool" where
  "lower q \<longleftrightarrow> full_path q \<and> hd q < 256"

definition U :: "nat set \<Rightarrow> tables \<Rightarrow> nat \<times> nat list \<Rightarrow> u64 option" where
  "U R H = (\<lambda>(s, q). if s \<in> R \<and> lower q then
     (case xl H s q of Some (pa, e) \<Rightarrow> if bit e 2 then Some e else None | None \<Rightarrow> None) else None)"

definition user_small :: "nat set \<Rightarrow> tables \<Rightarrow> bool" where
  "user_small R H \<longleftrightarrow> (\<forall>s \<in> R. \<forall>q pa e. lower q \<longrightarrow> xl H s q = Some (pa, e) \<longrightarrow> bit e 2 \<longrightarrow> \<not> bit e 7)"

lemma U_SomeD:
  assumes "user_small R H" "U R H (s, q) = Some e"
  shows "s \<in> R" "lower q" "xl H s q = Some (mm_pte_phys e, e)" "leaf H s q = e" "mm_pte_present e" "bit e 2" "\<not> bit e 7"
    "\<exists>t. walk H s (take 3 q) = Some t"
proof -
  show 1: "s \<in> R" "lower q" using assms(2) by (auto simp: U_def split: if_splits)
  then obtain pa where x: "xl H s q = Some (pa, e)" "bit e 2" using assms(2) by (auto simp: U_def split: if_splits option.splits)
  then show "bit e 2" "\<not> bit e 7" using assms(1) 1 by (auto simp: user_small_def)
  then have "\<not> mm_pte_large e" by (simp add: pte_bits)
  moreover have "full_path q" using 1 by (simp add: lower_def)
  ultimately show "xl H s q = Some (mm_pte_phys e, e)" "leaf H s q = e" "mm_pte_present e" "\<exists>t. walk H s (take 3 q) = Some t"
    using xl_leaf [OF _ x(1)] x(1) by auto
qed

lemma U_leaf: "s \<in> R \<Longrightarrow> lower q \<Longrightarrow> mm_pte_present (leaf H s q) \<Longrightarrow> bit (leaf H s q) 2 \<Longrightarrow> U R H (s, q) = Some (leaf H s q)"
  using leaf_xl [of q H s] by (simp add: U_def lower_def)

lemma U_iff_leaf:
  "user_small R H \<Longrightarrow> s \<in> R \<Longrightarrow> lower q \<Longrightarrow> U R H (s, q) = (if mm_pte_present (leaf H s q) \<and> bit (leaf H s q) 2 then Some (leaf H s q) else None)"
  using U_leaf [of s R q H] U_SomeD [of R H s q] by (cases "U R H (s, q)") auto

lemma U_cong: "(\<And>s q. s \<in> R \<Longrightarrow> full_path q \<Longrightarrow> xl H' s q = xl H s q) \<Longrightarrow> U R H' = U R H"
  by (auto simp: U_def lower_def fun_eq_iff)

lemma U_out: "\<not> (s \<in> R \<and> lower q) \<Longrightarrow> U R H (s, q) = None"
  by (auto simp: U_def)

text \<open>Mapping one user page changes the user's view at that page only.\<close>

lemma after_split_super: "after_split pa e = Some (pa', e') \<Longrightarrow> 4096 dvd pa \<Longrightarrow> \<not> bit e' 2"
proof -
  assume a: "after_split pa e = Some (pa', e')" "4096 dvd pa"
  then have "e' = mm_make_leaf_pte pa PAGE_RW (e AND PAGE_NX = 0)" "pa < PMM_PHYS_BASE" by (auto simp: after_split_def split: if_splits)
  moreover from this(2) a(2) have "frame_addr pa" by (simp add: frame_addr_def)
  ultimately show ?thesis using bit_frame_addr_low [of pa 2] by (simp add: bit_leaf_pte bit_flags)
qed

lemma xl_aligned: "xl H s q = Some (pa, e) \<Longrightarrow> 4096 dvd pa"
proof (induction q arbitrary: s)
  case (Cons i q)
  have off: "4096 dvd page_off p" for p by (induction p) (auto simp: algebra_simps)
  have "4096 dvd mm_pte_phys e'" for e' using frame_addr_phys [of e'] by (simp add: frame_addr_def)
  with Cons off show ?case by (auto simp: Let_def split: if_splits option.splits)
qed simp

lemma map_user_page:
  assumes env: "env_ok env" and inv: "pt_inv R (tabs pg)" "user_small R (tabs pg)" and r: "r \<in> R" and phys: "frame_addr phys"
    and va: "lower (va_path va)" and fl: "bit flags 2" "\<not> bit flags 7"
  shows "\<exists>ok pg'. map_page_in_directory env r va phys flags pg = Done (ok, pg') \<and> ram pg' = ram pg \<and> frames pg' = frames pg \<and>
     pt_inv R (tabs pg') \<and> user_small R (tabs pg') \<and> foreign_same R r (tabs pg) (tabs pg') \<and>
     (\<forall>u. tabs pg' u \<noteq> None \<longrightarrow> tabs pg u \<noteq> None \<or> \<not> in_pool (frames pg) u) \<and>
     U R (tabs pg') = (if ok then (U R (tabs pg))((r, va_path va) \<mapsto> mm_make_leaf_pte phys (flags AND 0xFFF) (flags AND PAGE_EXEC \<noteq> 0)) else U R (tabs pg)) \<and>
     (\<forall>s \<in> R. \<forall>q. full_path q \<longrightarrow> (s, q) \<noteq> (r, va_path va) \<or> \<not> ok \<longrightarrow> xl (tabs pg) s q = None \<longrightarrow> xl (tabs pg') s q = None)"
proof -
  let ?e = "mm_make_leaf_pte phys (flags AND 0xFFF) (flags AND PAGE_EXEC \<noteq> 0)"
  obtain ok pg' where m: "map_page_in_directory env r va phys flags pg = Done (ok, pg')" "ram pg' = ram pg" "frames pg' = frames pg" "pt_inv R (tabs pg')"
    "foreign_same R r (tabs pg) (tabs pg')" "\<forall>u. tabs pg' u \<noteq> None \<longrightarrow> tabs pg u \<noteq> None \<or> \<not> in_pool (frames pg) u"
    "\<not> ok \<longrightarrow> same_xl R (tabs pg) (tabs pg')" "ok \<longrightarrow> map_effect R (tabs pg) (tabs pg') r (va_path va) (phys, ?e)"
    using map_page_spec [OF env inv(1) r phys, of va flags] va unfolding lower_def by blast
  have e: "bit ?e 2" "\<not> bit ?e 7" using fl phys bit_frame_addr_low [of phys 7] by (simp_all add: bit_leaf_pte bit_and_iff bit_low)
  show ?thesis
  proof (cases ok)
    case False
    then have same: "xl (tabs pg') s q = xl (tabs pg) s q" if "s \<in> R" "full_path q" for s q using m(7) that by (simp add: same_xl_def)
    then have "user_small R (tabs pg')" using inv(2) by (auto simp: user_small_def lower_def)
    moreover have "U R (tabs pg') = U R (tabs pg)" by (rule U_cong) (rule same)
    ultimately show ?thesis using m False same by (intro exI [of _ False] exI [of _ pg']) (simp del: not_None_eq)
  next
    case True
    then have x: "xl (tabs pg') r (va_path va) = Some (phys, ?e)" using m(8) by (simp add: map_effect_def)
    have o: "xl (tabs pg') s q = xl (tabs pg) s q \<or>
        (\<exists>pa l. xl (tabs pg) s q = Some (pa, l) \<and> \<not> bit l 2 \<and> (\<forall>pa' l'. xl (tabs pg') s q = Some (pa', l') \<longrightarrow> \<not> bit l' 2))"
      if q: "s \<in> R" "lower q" "(s, q) \<noteq> (r, va_path va)" for s q
    proof -
      have fq: "full_path q" using q(2) by (simp add: lower_def)
      have "xl (tabs pg') s q = xl (tabs pg) s q \<or> s = r \<and> (\<exists>pa l. xl (tabs pg) s q = Some (pa, l) \<and> mm_pte_large l \<and> xl (tabs pg') s q = after_split pa l)"
        using m(8) True va q fq unfolding map_effect_def lower_def by fastforce
      then show ?thesis
      proof (elim disjE conjE exE)
        fix pa l assume a: "xl (tabs pg) s q = Some (pa, l)" "mm_pte_large l" "xl (tabs pg') s q = after_split pa l"
        then have "\<not> bit l 2" using inv(2) q(1,2) by (auto simp: user_small_def pte_bits)
        moreover have "\<not> bit l' 2" if "xl (tabs pg') s q = Some (pa', l')" for pa' l'
          using after_split_super [of pa l pa' l'] xl_aligned [OF a(1)] a(3) that by simp
        ultimately show ?thesis using a(1) by blast
      qed simp
    qed
    have "user_small R (tabs pg')" unfolding user_small_def
    proof (intro ballI allI impI)
      fix s q pa l assume q: "s \<in> R" "lower q" "xl (tabs pg') s q = Some (pa, l)" "bit l 2"
      show "\<not> bit l 7"
      proof (cases "(s, q) = (r, va_path va)")
        case True
        then show ?thesis using x q(3) e(2) by auto
      next
        case False
        then show ?thesis using o [OF q(1,2)] q inv(2) unfolding user_small_def by metis
      qed
    qed
    moreover have "U R (tabs pg') = (U R (tabs pg))((r, va_path va) \<mapsto> ?e)"
    proof
      fix z show "U R (tabs pg') z = ((U R (tabs pg))((r, va_path va) \<mapsto> ?e)) z"
      proof (cases z)
        case (Pair s q)
        show ?thesis
        proof (cases "(s, q) = (r, va_path va)")
          case True
          then show ?thesis using x e(1) r va Pair by (simp add: U_def)
        next
          case False
          then have "U R (tabs pg') (s, q) = U R (tabs pg) (s, q)"
          proof (cases "s \<in> R \<and> lower q")
            case sq: True
            then consider "xl (tabs pg') s q = xl (tabs pg) s q"
              | pa l where "xl (tabs pg) s q = Some (pa, l)" "\<not> bit l 2" "\<forall>pa' l'. xl (tabs pg') s q = Some (pa', l') \<longrightarrow> \<not> bit l' 2"
              using o [OF _ _ False] by blast
            then show ?thesis
            proof cases
              case 2
              then show ?thesis by (cases "xl (tabs pg') s q") (auto simp: U_def)
            qed (simp add: U_def)
          qed (auto simp: U_def)
          with False Pair show ?thesis by auto
        qed
      qed
    qed
    moreover have "xl (tabs pg') s q = None" if "s \<in> R" "full_path q" "(s, q) \<noteq> (r, va_path va)" "xl (tabs pg) s q = None" for s q
      using m(8) True that va unfolding map_effect_def lower_def by fastforce
    ultimately show ?thesis using m True by (intro exI [of _ True] exI [of _ pg']) (simp del: not_None_eq)
  qed
qed

section \<open>Frames and users\<close>

lemma pmm_put_place: "pmm_frame_put a s = Done s' \<Longrightarrow> mem_start s' = mem_start s \<and> mem_end s' = mem_end s"
  by (auto simp: pmm_frame_put_def split: option.splits if_splits)

lemma pmm_get_place: "pmm_frame_get a s = Done s' \<Longrightarrow> mem_start s' = mem_start s \<and> mem_end s' = mem_end s"
  by (auto simp: pmm_frame_get_def split: option.splits if_splits)

lemma pmm_alloc_place: "pmm_alloc_frame cur s = (a, s') \<Longrightarrow> mem_start s' = mem_start s \<and> mem_end s' = mem_end s"
  by (auto simp: pmm_alloc_frame_def pmm_alloc_pass_def Let_def split: option.splits if_splits prod.splits)

lemma in_pool_cong: "mem_start s' = mem_start s \<and> mem_end s' = mem_end s \<Longrightarrow> in_pool s' = in_pool s"
  by (simp add: in_pool_def pmm_get_start_def pmm_get_end_def fun_eq_iff)

lemma pmm_frames_in_pool:
  assumes "pmm_ready s" "pmm_frames s a = Some n"
  shows "in_pool s a" "0 < n" "4096 dvd a"
proof -
  have g: "pmm_geometry s" using assms(1) by (simp add: pmm_ready_def pmm_inv_def)
  obtain i where i: "i < total_frames s" "a = mem_start s + i * PMM_FRAME_SIZE" "0 < n" using assms by (rule pmm_frames_SomeD) blast
  then show "in_pool s a" "0 < n" "4096 dvd a" using g by (auto simp: in_pool_def pmm_get_start_def pmm_get_end_def pmm_geometry_def)
qed

definition refs_of :: "pmm_state \<Rightarrow> nat \<Rightarrow> nat" where
  "refs_of q f = (case pmm_frames q f of None \<Rightarrow> 0 | Some n \<Rightarrow> n)"

definition users :: "(nat \<times> nat list \<Rightarrow> u64 option) \<Rightarrow> nat \<Rightarrow> (nat \<times> nat list) set" where
  "users V f = {x. \<exists>e. V x = Some e \<and> mm_pte_phys e = f}"

lemma finite_lower: "finite {q. lower q}"
proof (rule finite_subset)
  show "{q. lower q} \<subseteq> {q. set q \<subseteq> {..<512} \<and> length q = 4}" by (auto simp: lower_def full_path_def)
  show "finite {q. set q \<subseteq> {..<512::nat} \<and> length q = 4}" by (rule finite_lists_length_eq) simp
qed

lemma finite_users: "finite R \<Longrightarrow> finite (users (U R H) f)"
proof (rule finite_subset)
  show "users (U R H) f \<subseteq> R \<times> {q. lower q}" by (auto simp: users_def U_def split: if_splits)
  show "finite R \<Longrightarrow> finite (R \<times> {q. lower q})" using finite_lower by simp
qed

lemma users_upd: "users (V(x := v)) f = (users V f - {x}) \<union> (if \<exists>e. v = Some e \<and> mm_pte_phys e = f then {x} else {})"
  by (auto simp: users_def)

text \<open>
  \<open>as_inv R pg\<close>: the tables are well formed, tables and user pages are kept apart (tables outside the
  frame pool, user pages inside), and every frame has at least as many references as user mappings.
\<close>

definition as_inv :: "nat set \<Rightarrow> paging \<Rightarrow> bool" where
  "as_inv R pg \<longleftrightarrow> finite R \<and> pt_inv R (tabs pg) \<and> user_small R (tabs pg) \<and> pmm_ready (frames pg) \<and>
     mem_end (frames pg) \<le> 2 ^ 52 \<and> (\<forall>t. tabs pg t \<noteq> None \<longrightarrow> \<not> in_pool (frames pg) t) \<and>
     (\<forall>x e. U R (tabs pg) x = Some e \<longrightarrow> in_pool (frames pg) (mm_pte_phys e)) \<and>
     (\<forall>f. card (users (U R (tabs pg)) f) \<le> refs_of (frames pg) f)"

lemma as_invD:
  assumes "as_inv R pg"
  shows "finite R" "pt_inv R (tabs pg)" "user_small R (tabs pg)" "pmm_ready (frames pg)" "tabs pg t \<noteq> None \<Longrightarrow> \<not> in_pool (frames pg) t"
    "U R (tabs pg) x = Some e \<Longrightarrow> in_pool (frames pg) (mm_pte_phys e)" "card (users (U R (tabs pg)) f) \<le> refs_of (frames pg) f"
    "mem_end (frames pg) \<le> 2 ^ 52"
  using assms unfolding as_inv_def by blast+

lemma mapped_frame:
  assumes "as_inv R pg" "U R (tabs pg) x = Some e"
  shows "\<exists>n. pmm_frames (frames pg) (mm_pte_phys e) = Some n \<and> card (users (U R (tabs pg)) (mm_pte_phys e)) \<le> n"
proof -
  have "x \<in> users (U R (tabs pg)) (mm_pte_phys e)" using assms(2) by (auto simp: users_def)
  then have "0 < card (users (U R (tabs pg)) (mm_pte_phys e))" using finite_users [OF as_invD(1) [OF assms(1)]] by (auto simp: card_gt_0_iff)
  then show ?thesis using as_invD(7) [OF assms(1), of "mm_pte_phys e"] by (auto simp: refs_of_def split: option.splits)
qed

text \<open>A frame without references is mapped nowhere.\<close>

lemma unused_frame: "as_inv R pg \<Longrightarrow> pmm_frames (frames pg) f = None \<Longrightarrow> U R (tabs pg) x = Some e \<Longrightarrow> mm_pte_phys e \<noteq> f"
  using mapped_frame by fastforce

lemma fresh_frame:
  assumes "as_inv R pg" "pmm_alloc_frame cur (frames pg) = (a, q)"
  shows "a = 0 \<Longrightarrow> q = frames pg" "pmm_ready q" "in_pool q = in_pool (frames pg)"
    "a \<noteq> 0 \<Longrightarrow> pmm_frames (frames pg) a = None \<and> pmm_frames q = (pmm_frames (frames pg))(a \<mapsto> 1) \<and> in_pool (frames pg) a \<and> frame_addr a"
proof -
  have rdy: "pmm_ready (frames pg)" by (rule as_invD(4) [OF assms(1)])
  show "a = 0 \<Longrightarrow> q = frames pg" using pmm.alloc_fail [OF rdy] assms(2) by blast
  show q: "pmm_ready q" using pmm.alloc_invar [OF rdy assms(2)] .
  show p: "in_pool q = in_pool (frames pg)" by (rule in_pool_cong [OF pmm_alloc_place [OF assms(2)]])
  show "a \<noteq> 0 \<Longrightarrow> pmm_frames (frames pg) a = None \<and> pmm_frames q = (pmm_frames (frames pg))(a \<mapsto> 1) \<and> in_pool (frames pg) a \<and> frame_addr a"
    using pmm.alloc_fresh [OF rdy assms(2)] pmm_frames_in_pool [OF q, of a 1] p as_invD(8) [OF assms(1)]
    by (auto simp: frame_addr_def in_pool_def pmm_get_end_def)
qed

section \<open>Look-ups\<close>

lemma va_path_align: "va_path (align_down 4096 va) = va_path va"
proof -
  have "align_down 4096 va div 2 ^ (12 + k) = va div 2 ^ (12 + k)" for k
    by (simp add: align_down_def power_add div_mult2_eq)
  from this [of 27] this [of 18] this [of 9] this [of 0] show ?thesis by (simp add: va_path_def mm_va_indices_def)
qed

lemma get_pte_walk:
  assumes inv: "pt_inv R (tabs pg)" and r: "r \<in> R"
  shows "paging_get_pte r va pg = Done (map_option (\<lambda>t. (t, va_path va ! 3)) (walk (tabs pg) r (take 3 (va_path va))))"
proof -
  obtain i0 i1 i2 i3 where i: "mm_va_indices va = (i0, i1, i2, i3)" by (cases "mm_va_indices va")
  have b: "i0 < 512" "i1 < 512" "i2 < 512" using mm_va_indices_bound [OF i] by auto
  have v: "valid_path []" "valid_path [i0]" "valid_path [i0, i1]" using b by (simp_all add: valid_path_def)
  have Hr: "tabs pg r \<noteq> None" using pt_invD(2) [OF inv r v(1)] by simp
  have r0: "r \<noteq> 0" using pt_invD(1) [OF inv Hr] by simp
  have path: "va_path va = [i0, i1, i2, i3]" by (simp add: va_path_def i)
  note g0 = get_existing_nxt [OF Hr]
  show ?thesis
  proof (cases "nxt_of (ent (tabs pg) r i0)")
    case (Some t1)
    note g1 = get_existing_nxt [OF pt_invD(2) [OF inv r v(2)], of t1]
    show ?thesis
    proof (cases "nxt_of (ent (tabs pg) t1 i1)")
      case s2: (Some t2)
      note g2 = get_existing_nxt [OF pt_invD(2) [OF inv r v(3)], of t2]
      show ?thesis using r0 g0 Some g1 s2 g2 by (simp add: paging_get_pte_def i path split: option.split)
    qed (use r0 g0 Some g1 in \<open>simp add: paging_get_pte_def i path\<close>)
  qed (use r0 g0 in \<open>simp add: paging_get_pte_def i path\<close>)
qed

lemma leaf_entry:
  assumes "pt_inv R (tabs pg)" "r \<in> R" "full_path q" "walk (tabs pg) r (take 3 q) = Some t"
  shows "entry_at t (q ! 3) pg = Done (leaf (tabs pg) r q)"
proof -
  have "valid_path (take 3 q)" using assms(3) by (auto simp: valid_path_def full_path_def dest: in_set_takeD)
  from pt_invD(2) [OF assms(1,2) this assms(4)] show ?thesis using assms(4) by (simp add: entry_at_ent leaf_def del: not_None_eq)
qed

section \<open>What a process sees\<close>

definition page_bytes :: "(nat \<Rightarrow> u8) \<Rightarrow> nat \<Rightarrow> u8 list" where
  "page_bytes m f = map (\<lambda>k. m (f + k)) [0..<4096]"

definition view :: "nat set \<Rightarrow> paging \<Rightarrow> nat \<times> nat list \<Rightarrow> u8 list option" where
  "view R pg x = map_option (\<lambda>e. page_bytes (ram pg) (mm_pte_phys e)) (U R (tabs pg) x)"

declare upt_rec_numeral [simp del]

lemma page_bytes_nth [simp]: "k < 4096 \<Longrightarrow> page_bytes m f ! k = m (f + k)" "length (page_bytes m f) = 4096"
  by (simp_all add: page_bytes_def)

lemma page_bytes_cong: "(\<And>k. k < 4096 \<Longrightarrow> m (f + k) = m' (f' + k)) \<Longrightarrow> page_bytes m f = page_bytes m' f'"
  by (simp add: page_bytes_def)

lemma view_eqI:
  assumes "U R (tabs pg') = U R (tabs pg)" "\<And>x l. U R (tabs pg) x = Some l \<Longrightarrow> page_bytes (ram pg') (mm_pte_phys l) = page_bytes (ram pg) (mm_pte_phys l)"
  shows "view R pg' = view R pg"
proof
  fix x show "view R pg' x = view R pg x" using assms by (cases "U R (tabs pg) x") (simp_all add: view_def)
qed

lemma frames_apart: "4096 dvd a \<Longrightarrow> 4096 dvd b \<Longrightarrow> a \<noteq> b \<Longrightarrow> k < 4096 \<Longrightarrow> \<not> (a \<le> b + k \<and> b + k < a + 4096)" for a b k :: nat
proof
  assume a: "4096 dvd a" "4096 dvd b" "a \<noteq> b" "k < 4096" "a \<le> b + k \<and> b + k < a + 4096"
  then obtain c d where e: "a = 4096 * c" "b = 4096 * d" unfolding dvd_def by blast
  have "c < d + 1" "d < c + 1" using a(4,5) unfolding e by linarith+
  then show False using a(3) e by simp
qed

lemma phys_aligned: "4096 dvd mm_pte_phys e"
  using frame_addr_phys [of e] by (simp add: frame_addr_def)

lemma align_frame: "4096 dvd f \<Longrightarrow> k < 4096 \<Longrightarrow> align_down 4096 (f + k) = f"
  by (auto simp: align_down_def elim!: dvdE)

lemma write_phys_ok:
  assumes "tabs pg f = None" "4096 dvd f" "k < 4096"
  shows "write_phys (f + k) bs pg = Done (pg\<lparr>ram := (\<lambda>x. if f + k \<le> x \<and> x < f + k + length bs then bs ! (x - (f + k)) else ram pg x)\<rparr>)"
  using assms by (simp add: write_phys_def table_page_at_def align_frame)

lemma copy_page_ok:
  assumes "tabs pg f = None" "tabs pg g = None" "4096 dvd f" "4096 dvd g"
  shows "\<exists>pg'. paging_copy_phys_page f g pg = Done pg' \<and> tabs pg' = tabs pg \<and> frames pg' = frames pg \<and>
     page_bytes (ram pg') f = page_bytes (ram pg) g \<and> (\<forall>x. \<not> (f \<le> x \<and> x < f + 4096) \<longrightarrow> ram pg' x = ram pg x)"
proof -
  have r: "read_phys g 4096 pg = Done (page_bytes (ram pg) g)"
    using assms(2,4) align_frame [OF assms(4), of 0] by (simp add: read_phys_def table_page_at_def page_bytes_def)
  let ?m = "\<lambda>x. if f \<le> x \<and> x < f + 4096 then page_bytes (ram pg) g ! (x - f) else ram pg x"
  have "paging_copy_phys_page f g pg = Done (pg\<lparr>ram := ?m\<rparr>)"
    using write_phys_ok [OF assms(1,3), of 0 "page_bytes (ram pg) g"] r by (simp add: paging_copy_phys_page_def cong: if_cong)
  moreover have "page_bytes ?m f = page_bytes (ram pg) g" by (rule page_bytes_cong) simp
  ultimately show ?thesis by auto
qed


section \<open>Breaking copy-on-write\<close>

lemma bit_cow_flags:
  "n < 12 \<Longrightarrow> bit (cow_flags e) n \<longleftrightarrow> (bit e n \<or> n = 1 \<or> n = 2) \<and> n \<noteq> 8 \<and> n \<noteq> 9"
  "cow_flags e AND PAGE_EXEC \<noteq> 0 \<longleftrightarrow> \<not> bit e 63"
proof -
  have x: "e AND PAGE_NX = 0 \<longleftrightarrow> \<not> bit e 63" using flag_tests(8) [of e] by blast
  have b: "bit (cow_flags e) n \<longleftrightarrow> n < 64 \<and> ((bit e n \<and> n < 12 \<or> n = 2 \<or> n = 1) \<and> n \<noteq> 9 \<and> n \<noteq> 8 \<or> \<not> bit e 63 \<and> n = 52)" for n
    unfolding cow_flags_def Let_def x if_distrib [of "\<lambda>w. bit w n"] bit_or_iff bit_and_iff bit_not_iff bit_flags bit_low
    by (auto simp: possible_bit_def)
  show "n < 12 \<Longrightarrow> bit (cow_flags e) n \<longleftrightarrow> (bit e n \<or> n = 1 \<or> n = 2) \<and> n \<noteq> 8 \<and> n \<noteq> 9" using b [of n] by auto
  show "cow_flags e AND PAGE_EXEC \<noteq> 0 \<longleftrightarrow> \<not> bit e 63" using flag_tests(7) [of "cow_flags e"] b [of 52] by simp
qed

text \<open>Dropping a reference together with a mapping, or taking both.\<close>

lemma refs_drop:
  assumes "pmm_ready s" "pmm_frames s f = Some n"
  shows "\<exists>s'. pmm_frame_put f s = Done s' \<and> pmm_ready s' \<and> in_pool s' = in_pool s \<and> mem_end s' = mem_end s \<and>
     (\<forall>g. refs_of s' g = (if g = f then n - 1 else refs_of s g))"
proof -
  obtain s' where s': "pmm_frame_put f s = Done s'" "pmm_ready s'" "pmm_frames s' = (pmm_frames s)(f := if n \<le> 1 then None else Some (n - 1))"
    using pmm.put_ref [OF assms] by blast
  have "refs_of s' g = (if g = f then n - 1 else refs_of s g)" for g using s'(3) by (simp add: refs_of_def)
  then show ?thesis using s' in_pool_cong [OF pmm_put_place [OF s'(1)]] pmm_put_place [OF s'(1)] by blast
qed

lemma refs_take:
  assumes "pmm_ready s" "pmm_frames s f = Some n" "n < 2 ^ 32 - 1"
  shows "\<exists>s'. pmm_frame_get f s = Done s' \<and> pmm_ready s' \<and> in_pool s' = in_pool s \<and> mem_end s' = mem_end s \<and> pmm_frames s' = (pmm_frames s)(f \<mapsto> n + 1)"
proof -
  obtain s' where s': "pmm_frame_get f s = Done s'" "pmm_ready s'" "pmm_frames s' = (pmm_frames s)(f \<mapsto> n + 1)"
    using pmm.get_ref [OF assms] by blast
  then show ?thesis using in_pool_cong [OF pmm_get_place [OF s'(1)]] pmm_get_place [OF s'(1)] by blast
qed

lemma cow_break_spec:
  assumes env: "env_ok env" and inv: "as_inv R pg" and u: "U R (tabs pg) (r, va_path va) = Some e" and ro: "\<not> bit e 1" "bit e 9"
    and w: "walk (tabs pg) r (take 3 (va_path va)) = Some t"
  shows "\<exists>ok pg'. paging_cow_break_leaf env r (t, va_path va ! 3) va pg = Done (ok, pg') \<and> as_inv R pg' \<and> view R pg' = view R pg \<and>
     (\<forall>s \<in> R. \<forall>q. full_path q \<longrightarrow> (s, q) \<noteq> (r, va_path va) \<longrightarrow> xl (tabs pg) s q = None \<longrightarrow> xl (tabs pg') s q = None) \<and>
     (\<not> ok \<longrightarrow> U R (tabs pg') = U R (tabs pg)) \<and>
     (ok \<longrightarrow> (\<exists>e'. U R (tabs pg') = (U R (tabs pg))((r, va_path va) \<mapsto> e') \<and> bit e' 1 \<and> (\<forall>x l. U R (tabs pg) x = Some l \<longrightarrow> mm_pte_phys l \<noteq> mm_pte_phys e')))"
proof -
  let ?x = "(r, va_path va)"
  note I = as_invD [OF inv]
  note D = U_SomeD [OF I(3) u]
  have ent: "entry_at t (va_path va ! 3) pg = Done e" using leaf_entry [OF I(2) D(1) full_va_path w] D(4) by simp
  have flags: "e AND PAGE_PRESENT \<noteq> 0" "e AND PAGE_RW = 0" "e AND PAGE_COW \<noteq> 0" "e AND PAGE_USER \<noteq> 0"
    using flag_tests [of e] D(5,6) ro by (auto simp: pte_bits)
  obtain n where n: "pmm_frames (frames pg) (mm_pte_phys e) = Some n" "card (users (U R (tabs pg)) (mm_pte_phys e)) \<le> n"
    using mapped_frame [OF inv u] by blast
  obtain a q where a: "pmm_alloc_frame (current_process env) (frames pg) = (a, q)" by fastforce
  note F = fresh_frame [OF inv a]
  show ?thesis
  proof (cases "a = 0")
    case True
    then have "q = frames pg" using F(1) by simp
    then have "paging_cow_break_leaf env r (t, va_path va ! 3) va pg = Done (False, pg)"
      using ent flags a True by (simp add: paging_cow_break_leaf_def)
    then show ?thesis using inv by blast
  next
    case False
    then have fa: "pmm_frames (frames pg) a = None" "pmm_frames q = (pmm_frames (frames pg))(a \<mapsto> 1)" "in_pool (frames pg) a" "frame_addr a"
      using F(4) by auto
    have ao: "a \<noteq> mm_pte_phys e" using fa(1) n(1) by auto
    have notab: "tabs pg a = None" "tabs pg (mm_pte_phys e) = None" using I(5) fa(3) I(6) [OF u] by blast+
    let ?pg0 = "pg\<lparr>frames := q\<rparr>"
    obtain pg1 where 1: "paging_copy_phys_page a (mm_pte_phys e) ?pg0 = Done pg1" "tabs pg1 = tabs pg" "frames pg1 = q"
      "page_bytes (ram pg1) a = page_bytes (ram pg) (mm_pte_phys e)" "\<forall>x. \<not> (a \<le> x \<and> x < a + 4096) \<longrightarrow> ram pg1 x = ram pg x"
      using copy_page_ok [of ?pg0 a "mm_pte_phys e"] notab fa(4) phys_aligned by (auto simp: frame_addr_def)
    have bytes: "page_bytes (ram pg1) (mm_pte_phys l) = page_bytes (ram pg) (mm_pte_phys l)" if "U R (tabs pg) x = Some l" for x l
    proof (rule page_bytes_cong)
      fix k :: nat assume "k < 4096"
      have "a \<noteq> mm_pte_phys l" using unused_frame [OF inv fa(1) that] by simp
      with frames_apart [of a "mm_pte_phys l" k] fa(4) phys_aligned \<open>k < 4096\<close> 1(5) show "ram pg1 (mm_pte_phys l + k) = ram pg (mm_pte_phys l + k)"
        by (simp add: frame_addr_def)
    qed
    have low: "lower (va_path (align_down 4096 va))" using D(2) by (simp add: va_path_align)
    have cf: "bit (cow_flags e) 2" "\<not> bit (cow_flags e) 7" using bit_cow_flags(1) [of 2 e] bit_cow_flags(1) [of 7 e] D(7) by simp_all
    have i1: "pt_inv R (tabs pg1)" "user_small R (tabs pg1)" using I(2,3) 1(2) by simp_all
    let ?e = "mm_make_leaf_pte a (cow_flags e AND 0xFFF) (cow_flags e AND PAGE_EXEC \<noteq> 0)"
    obtain ok pg2 where 2: "map_page_in_directory env r (align_down 4096 va) a (cow_flags e) pg1 = Done (ok, pg2)" "ram pg2 = ram pg1" "frames pg2 = q"
      "pt_inv R (tabs pg2)" "user_small R (tabs pg2)" "\<forall>u. tabs pg2 u \<noteq> None \<longrightarrow> tabs pg u \<noteq> None \<or> \<not> in_pool q u"
      "U R (tabs pg2) = (if ok then (U R (tabs pg))(?x \<mapsto> ?e) else U R (tabs pg))"
      "\<forall>s \<in> R. \<forall>q. full_path q \<longrightarrow> (s, q) \<noteq> ?x \<longrightarrow> xl (tabs pg) s q = None \<longrightarrow> xl (tabs pg2) s q = None"
      using map_user_page [OF env i1 D(1) fa(4) low cf] 1(2,3) by (auto simp: va_path_align)
    have tab2: "tabs pg2 u \<noteq> None \<Longrightarrow> \<not> in_pool (frames pg) u" for u using 2(6) I(5) F(3) by metis
    have me: "mem_end q = mem_end (frames pg)" using pmm_alloc_place [OF a] by simp
    have pe: "mm_pte_phys ?e = a" using fa(4) by simp
    have refs_q: "refs_of q f = (if f = a then 1 else refs_of (frames pg) f)" for f using fa(2) by (simp add: refs_of_def)
    show ?thesis
    proof (cases ok)
      case False
      have "pmm_frames q a = Some 1" using fa(2) by simp
      from refs_drop [OF F(2) this] obtain q2 where q2: "pmm_frame_put a q = Done q2" "pmm_ready q2" "in_pool q2 = in_pool q" "mem_end q2 = mem_end q"
        "\<forall>g. refs_of q2 g = (if g = a then 0 else refs_of q g)" by auto
      let ?pg' = "pg2\<lparr>frames := q2\<rparr>"
      have res: "paging_cow_break_leaf env r (t, va_path va ! 3) va pg = Done (False, ?pg')"
        using ent flags a \<open>a \<noteq> 0\<close> 1(1) 2(1,3) False q2(1) by (simp add: paging_cow_break_leaf_def pmm_free_frame_def)
      have U2: "U R (tabs pg2) = U R (tabs pg)" using 2(7) False by simp
      have "refs_of (frames pg) a = 0" using fa(1) by (simp add: refs_of_def)
      then have r2: "refs_of q2 = refs_of (frames pg)" using q2(5) refs_q by (auto simp: fun_eq_iff)
      have "as_inv R ?pg'" unfolding as_inv_def using I 2(4,5) q2 F(3) tab2 U2 me r2 by (simp del: not_None_eq)
      moreover have "view R ?pg' = view R pg" by (rule view_eqI) (use U2 bytes 2(2) in auto)
      ultimately show ?thesis using res U2 2(8) by (intro exI [of _ False] exI [of _ ?pg']) simp
    next
      case True
      then have U2: "U R (tabs pg2) = (U R (tabs pg))(?x \<mapsto> ?e)" using 2(7) by simp
      have "pmm_frames q (mm_pte_phys e) = Some n" using fa(2) ao n(1) by simp
      from refs_drop [OF F(2) this] obtain q2 where q2: "pmm_frame_put (mm_pte_phys e) q = Done q2" "pmm_ready q2" "in_pool q2 = in_pool q" "mem_end q2 = mem_end q"
        "\<forall>g. refs_of q2 g = (if g = mm_pte_phys e then n - 1 else refs_of q g)" by auto
      let ?pg' = "pg2\<lparr>frames := q2\<rparr>"
      have res: "paging_cow_break_leaf env r (t, va_path va ! 3) va pg = Done (True, ?pg')"
        using ent flags a \<open>a \<noteq> 0\<close> 1(1) 2(1,3) True q2(1) by (simp add: paging_cow_break_leaf_def)
      have ua: "users (U R (tabs pg)) a = {}" using unused_frame [OF inv fa(1)] by (auto simp: users_def)
      have card: "card (users (U R (tabs pg2)) f) \<le> refs_of q2 f" for f
      proof -
        have s: "users (U R (tabs pg2)) f = (users (U R (tabs pg)) f - {?x}) \<union> (if a = f then {?x} else {})"
          unfolding U2 users_upd using pe by auto
        consider "f = a" | "f = mm_pte_phys e" "f \<noteq> a" | "f \<noteq> a" "f \<noteq> mm_pte_phys e" by blast
        then show ?thesis
        proof cases
          case 1
          then show ?thesis using s ua q2(5) refs_q ao by simp
        next
          case 2
          have "?x \<in> users (U R (tabs pg)) f" using u 2 by (auto simp: users_def)
          then have "card (users (U R (tabs pg)) f - {?x}) = card (users (U R (tabs pg)) f) - 1" using finite_users [OF I(1)] by (simp add: card_remove_old)
          then show ?thesis using s 2 q2(5) n(2) by simp
        next
          case 3
          have "card (users (U R (tabs pg)) f - {?x}) \<le> card (users (U R (tabs pg)) f)" using finite_users [OF I(1)] by (simp add: card_mono)
          then show ?thesis using s 3 q2(5) refs_q I(7) [of f] by simp
        qed
      qed
      have "as_inv R ?pg'" unfolding as_inv_def using I 2(4,5) q2 F(3) tab2 me card fa(3) pe by (auto simp: U2 simp del: not_None_eq)
      moreover have "view R ?pg' x = view R pg x" for x
        using bytes [of x] u 2(2) 1(4) pe by (cases "x = ?x"; cases "U R (tabs pg) x") (simp_all add: view_def U2)
      then have "view R ?pg' = view R pg" ..
      moreover have "bit ?e 1" using bit_cow_flags(1) [of 1 e] fa(4) by (simp add: bit_leaf_pte bit_and_iff bit_low)
      moreover have "\<exists>e'. U R (tabs pg2) = (U R (tabs pg))(?x \<mapsto> e') \<and> bit e' 1 \<and> (\<forall>x l. U R (tabs pg) x = Some l \<longrightarrow> mm_pte_phys l \<noteq> mm_pte_phys e')"
        using \<open>bit ?e 1\<close> U2 unused_frame [OF inv fa(1)] pe by (intro exI [of _ ?e]) simp
      ultimately show ?thesis using res 2(8) by (intro exI [of _ True] exI [of _ ?pg']) simp
    qed
  qed
qed

section \<open>Writing to user memory\<close>

text \<open>A frame that is writable through one mapping is not mapped anywhere else.\<close>

definition sole_writer :: "(nat \<times> nat list \<Rightarrow> u64 option) \<Rightarrow> bool" where
  "sole_writer V \<longleftrightarrow> (\<forall>x y e l. V x = Some e \<longrightarrow> V y = Some l \<longrightarrow> x \<noteq> y \<longrightarrow> mm_pte_phys e = mm_pte_phys l \<longrightarrow> \<not> bit e 1 \<and> \<not> bit l 1)"

text \<open>A page that is not mapped at all, or is user memory that may be written.\<close>

definition page_ok :: "nat set \<Rightarrow> paging \<Rightarrow> nat \<Rightarrow> nat list \<Rightarrow> bool" where
  "page_ok R pg r q \<longleftrightarrow> xl (tabs pg) r q = None \<or> (\<exists>e. U R (tabs pg) (r, q) = Some e \<and> (bit e 1 \<or> bit e 9))"

lemma sole_writer_upd:
  assumes "sole_writer V" "\<And>x l. V x = Some l \<Longrightarrow> mm_pte_phys l \<noteq> mm_pte_phys e"
  shows "sole_writer (V(z \<mapsto> e))"
  unfolding sole_writer_def
proof (intro allI impI)
  fix x y a b assume h: "(V(z \<mapsto> e)) x = Some a" "(V(z \<mapsto> e)) y = Some b" "x \<noteq> y" "mm_pte_phys a = mm_pte_phys b"
  have "x \<noteq> z" "y \<noteq> z" using h assms(2) [of x a] assms(2) [of y b] by (auto split: if_splits)
  then show "\<not> bit a 1 \<and> \<not> bit b 1" using assms(1) [unfolded sole_writer_def, rule_format, of x a y b] h by simp
qed

lemma writable_frame_spec:
  assumes env: "env_ok env" and inv: "as_inv R pg" "sole_writer (U R (tabs pg))" and r: "r \<in> R" and ok: "page_ok R pg r (va_path va)"
  shows "\<exists>fr pg'. writable_frame env r va pg = Done (fr, pg') \<and> as_inv R pg' \<and> sole_writer (U R (tabs pg')) \<and> view R pg' = view R pg \<and>
     (\<forall>q. full_path q \<longrightarrow> page_ok R pg r q \<longrightarrow> page_ok R pg' r q) \<and>
     (\<forall>f. fr = Some f \<longrightarrow> (\<exists>e. U R (tabs pg') (r, va_path va) = Some e \<and> mm_pte_phys e = f \<and> bit e 1))"
proof -
  note I = as_invD [OF inv(1)]
  note g = get_pte_walk [OF I(2) r, of va]
  show ?thesis
  proof (cases "walk (tabs pg) r (take 3 (va_path va))")
    case None
    then have "writable_frame env r va pg = Done (None, pg)" using g by (simp add: writable_frame_def)
    then show ?thesis using inv by auto
  next
    case (Some t)
    let ?e = "leaf (tabs pg) r (va_path va)"
    have ent: "entry_at t (va_path va ! 3) pg = Done ?e" by (rule leaf_entry [OF I(2) r full_va_path Some])
    show ?thesis
    proof (cases "mm_pte_present ?e")
      case False
      then have "writable_frame env r va pg = Done (None, pg)" using g Some ent by (simp add: writable_frame_def)
      then show ?thesis using inv by auto
    next
      case True
      then obtain e where e: "U R (tabs pg) (r, va_path va) = Some e" "bit e 1 \<or> bit e 9"
        using ok leaf_xl [OF full_va_path True] by (auto simp: page_ok_def)
      note D = U_SomeD [OF I(3) e(1)]
      have tests: "e AND PAGE_RW = 0 \<longleftrightarrow> \<not> bit e 1" "e AND PAGE_COW \<noteq> 0 \<longleftrightarrow> bit e 9" using flag_tests [of e] by blast+
      show ?thesis
      proof (cases "bit e 1")
        case rw: True
        then have "writable_frame env r va pg = Done (Some (mm_pte_phys e), pg)"
          using g Some ent D(4,5) tests by (simp add: writable_frame_def)
        then show ?thesis using inv e(1) rw by auto
      next
        case ro: False
        then have c: "bit e 9" using e(2) by simp
        from cow_break_spec [OF env inv(1) e(1) ro c Some] obtain b pg1 where
          1: "paging_cow_break_leaf env r (t, va_path va ! 3) va pg = Done (b, pg1)" "as_inv R pg1" "view R pg1 = view R pg"
          "\<forall>s \<in> R. \<forall>q. full_path q \<longrightarrow> (s, q) \<noteq> (r, va_path va) \<longrightarrow> xl (tabs pg) s q = None \<longrightarrow> xl (tabs pg1) s q = None"
          "\<not> b \<longrightarrow> U R (tabs pg1) = U R (tabs pg)"
          "b \<longrightarrow> (\<exists>e'. U R (tabs pg1) = (U R (tabs pg))((r, va_path va) \<mapsto> e') \<and> bit e' 1 \<and> (\<forall>x l. U R (tabs pg) x = Some l \<longrightarrow> mm_pte_phys l \<noteq> mm_pte_phys e'))"
          by blast
        show ?thesis
        proof (cases b)
          case False
          then have U1: "U R (tabs pg1) = U R (tabs pg)" using 1(5) by simp
          have "writable_frame env r va pg = Done (None, pg1)"
            using g Some ent D(4,5) tests ro c 1(1) False by (simp add: writable_frame_def)
          moreover have "page_ok R pg1 r q" if "full_path q" "page_ok R pg r q" for q
            using that 1(4) r e(1) c U1 unfolding page_ok_def by (cases "q = va_path va") auto
          ultimately show ?thesis using 1(2,3) U1 inv(2) by auto
        next
          case True
          then obtain e' where e': "U R (tabs pg1) = (U R (tabs pg))((r, va_path va) \<mapsto> e')" "bit e' 1"
            "\<forall>x l. U R (tabs pg) x = Some l \<longrightarrow> mm_pte_phys l \<noteq> mm_pte_phys e'" using 1(6) by blast
          have u1: "U R (tabs pg1) (r, va_path va) = Some e'" using e'(1) by simp
          note D1 = U_SomeD [OF as_invD(3) [OF 1(2)] u1]
          obtain t1 where t1: "walk (tabs pg1) r (take 3 (va_path va)) = Some t1" using D1(8) by blast
          have "paging_get_pte r va pg1 = Done (Some (t1, va_path va ! 3))" using get_pte_walk [OF as_invD(2) [OF 1(2)] r] t1 by simp
          moreover have "entry_at t1 (va_path va ! 3) pg1 = Done e'" using leaf_entry [OF as_invD(2) [OF 1(2)] r full_va_path t1] D1(4) by simp
          moreover have "e' AND PAGE_RW \<noteq> 0" using flag_tests(2) [of e'] e'(2) by simp
          ultimately have "writable_frame env r va pg = Done (Some (mm_pte_phys e'), pg1)"
            using g Some ent D(4,5) tests ro c 1(1) True D1(5) by (simp add: writable_frame_def)
          moreover have "page_ok R pg1 r q" if "full_path q" "page_ok R pg r q" for q
            using that 1(4) r e'(1,2) unfolding page_ok_def by (cases "q = va_path va") auto
          moreover have "sole_writer (U R (tabs pg1))" unfolding e'(1) by (rule sole_writer_upd [OF inv(2)]) (use e'(3) in blast)
          ultimately show ?thesis using 1(2,3) u1 e'(2) by auto
        qed
      qed
    qed
  qed
qed

text \<open>One byte of user memory.\<close>

definition peek :: "nat set \<Rightarrow> paging \<Rightarrow> nat \<Rightarrow> nat \<Rightarrow> u8 option" where
  "peek R pg s va = map_option (\<lambda>bs. bs ! (va mod 4096)) (view R pg (s, va_path va))"

lemma va_path_page: "va div 4096 = va' div 4096 \<Longrightarrow> va_path va = va_path va'"
  using va_path_align [of va] va_path_align [of va'] by (simp add: align_down_def)

lemma va_path_inj:
  assumes "va_path va = va_path va'" "va < 2 ^ 47" "va' < 2 ^ 47"
  shows "va div 4096 = va' div 4096"
proof -
  have e: "va div 2 ^ 39 mod 512 = va' div 2 ^ 39 mod 512" "va div 2 ^ 30 mod 512 = va' div 2 ^ 30 mod 512"
    "va div 2 ^ 21 mod 512 = va' div 2 ^ 21 mod 512" "va div 2 ^ 12 mod 512 = va' div 2 ^ 12 mod 512"
    using assms(1) by (simp_all add: va_path_def mm_va_indices_def)
  have s: "x div 2 ^ k = x div 2 ^ (k + 9) * 512 + x div 2 ^ k mod 512" for x k :: nat
    using div_mult_mod_eq [of "x div 2 ^ k" 512] by (simp add: power_add div_mult2_eq)
  have "va div 2 ^ 39 = va' div 2 ^ 39" using e(1) assms(2,3) by simp
  then have "va div 2 ^ 30 = va' div 2 ^ 30" using s [of va 30] s [of va' 30] e(2) by simp
  then have "va div 2 ^ 21 = va' div 2 ^ 21" using s [of va 21] s [of va' 21] e(3) by simp
  then show ?thesis using s [of va 12] s [of va' 12] e(4) by simp
qed

lemma lower_va: "va < 2 ^ 47 \<Longrightarrow> lower (va_path va)"
  using full_va_path [of va] by (simp add: lower_def va_path_def mm_va_indices_def)
end
