(* ===== verification/User_Region.thy ===== *)
theory User_Region
  imports Address_Space
begin

text \<open>
  Regions of fresh user pages (\<^verbatim>\<open>map_user_region_in_directory\<close> of \<^verbatim>\<open>mm/paging.c\<close>): one page after the other,
  with a rollback when the frames or the tables run out.
\<close>

section \<open>Where the pool and the tables are\<close>

text \<open>Unmapping neither moves the frame pool nor adds a table.\<close>

definition kept :: "paging \<Rightarrow> paging \<Rightarrow> bool" where
  "kept pg pg' \<longleftrightarrow> mem_start (frames pg') = mem_start (frames pg) \<and> mem_end (frames pg') = mem_end (frames pg) \<and> dom (tabs pg') \<subseteq> dom (tabs pg)"

lemma kept_refl [simp]: "kept pg pg"
  by (simp add: kept_def)

lemma kept_trans [trans]: "kept a b \<Longrightarrow> kept b c \<Longrightarrow> kept a c"
  unfolding kept_def by (metis subset_trans)

lemma quiet_kept: "quiet pg pg' \<Longrightarrow> kept pg pg'"
  by (simp add: quiet_def kept_def)

lemma kept_acct [simp]: "kept pg (pg\<lparr>acct := m\<rparr>)" "kept (pg\<lparr>acct := m\<rparr>) pg' = kept pg pg'"
  by (simp_all add: kept_def)

lemma set_entry_kept: "set_entry t i v pg = Done pg' \<Longrightarrow> kept pg pg'"
  by (auto simp: set_entry_def kept_def split: option.splits if_splits)

lemma release_kept:
  assumes "env_ok env" "release_frame env a pg = Done pg'"
  shows "kept pg pg'"
proof -
  have q: "account_free env a pg = Done x \<Longrightarrow> quiet pg x" for x using account_free_quiet [OF assms(1), of a pg] by auto
  show ?thesis using assms(2) unfolding release_frame_def kbind_Done_iff
    by (auto simp: kbind_Done_iff kept_def quiet_def dest!: q pmm_put_place split: if_splits)
qed

lemma reclaim_kept:
  assumes "env_ok env" "reclaim_if_empty env t p i l pg = Done pg'"
  shows "kept pg pg'"
proof -
  have q: "ir0_mm_set_frame_type env a ty x = Done y \<Longrightarrow> quiet x y" for a ty x y using set_frame_type_quiet [OF assms(1), of a ty x] by auto
  have f: "ir0_mm_free_table_frame env a l x = Done y \<Longrightarrow> kept x y" for a x y
    unfolding ir0_mm_free_table_frame_def by (auto simp: kbind_Done_iff Let_def kept_def quiet_def dest!: q split: if_splits)
  have "kept pg y" if "set_entry p i 0 pg = Done x" "ir0_mm_free_table_frame env a l x = Done y" for a x y
    using that set_entry_kept f kept_trans by blast
  then show ?thesis using assms(2) by (auto simp: reclaim_if_empty_def kbind_Done_iff split: if_splits)
qed

lemma unmap_kept:
  assumes "env_ok env" "unmap_page_in_directory env r va pg = Done (b, pg')"
  shows "kept pg pg'"
  using assms(2)
  by (auto simp: unmap_page_in_directory_def kbind_Done_iff split: prod.splits if_splits option.splits
        dest!: set_entry_kept release_kept [OF assms(1)] reclaim_kept [OF assms(1)])
    (meson kept_trans)+

section \<open>Adding and removing one user page\<close>

text \<open>Mapping a frame that has a reference to spare.\<close>

lemma map_counted:
  assumes env: "env_ok env" and inv: "as_inv R pg" and r: "r \<in> R" and f: "frame_addr f" "in_pool (frames pg) f"
    and va: "lower (va_path va)" and fl: "bit flags 2" "\<not> bit flags 7"
    and spare: "\<And>g. card (users (U R (tabs pg)) g) + (if g = f then 1 else 0) \<le> refs_of (frames pg) g"
  shows "\<exists>ok pg'. map_page_in_directory env r va f flags pg = Done (ok, pg') \<and> ram pg' = ram pg \<and> frames pg' = frames pg \<and> as_inv R pg' \<and>
     foreign_same R r (tabs pg) (tabs pg') \<and>
     U R (tabs pg') = (if ok then (U R (tabs pg))((r, va_path va) \<mapsto> mm_make_leaf_pte f (flags AND 0xFFF) (flags AND PAGE_EXEC \<noteq> 0)) else U R (tabs pg)) \<and>
     (\<forall>s \<in> R. \<forall>q. full_path q \<longrightarrow> (s, q) \<noteq> (r, va_path va) \<or> \<not> ok \<longrightarrow> xl (tabs pg) s q = None \<longrightarrow> xl (tabs pg') s q = None)"
proof -
  note I = as_invD [OF inv]
  let ?x = "(r, va_path va)" and ?e = "mm_make_leaf_pte f (flags AND 0xFFF) (flags AND PAGE_EXEC \<noteq> 0)"
  obtain ok pg' where m: "map_page_in_directory env r va f flags pg = Done (ok, pg')" "ram pg' = ram pg" "frames pg' = frames pg"
     "pt_inv R (tabs pg')" "user_small R (tabs pg')" "foreign_same R r (tabs pg) (tabs pg')"
     "\<forall>u. tabs pg' u \<noteq> None \<longrightarrow> tabs pg u \<noteq> None \<or> \<not> in_pool (frames pg) u"
     "U R (tabs pg') = (if ok then (U R (tabs pg))(?x \<mapsto> ?e) else U R (tabs pg))"
     "\<forall>s \<in> R. \<forall>q. full_path q \<longrightarrow> (s, q) \<noteq> ?x \<or> \<not> ok \<longrightarrow> xl (tabs pg) s q = None \<longrightarrow> xl (tabs pg') s q = None"
    using map_user_page [OF env I(2,3) r f(1) va fl] by blast
  have pe: "mm_pte_phys ?e = f" using f(1) by simp
  have "card (users (U R (tabs pg')) g) \<le> refs_of (frames pg) g" for g
  proof (cases ok)
    case True
    have fin: "finite (users (U R (tabs pg)) g)" by (rule finite_users [OF I(1)])
    have s: "users (U R (tabs pg')) g \<subseteq> users (U R (tabs pg)) g \<union> (if f = g then {?x} else {})"
      using m(8) True pe users_upd [of "U R (tabs pg)" ?x "Some ?e" g] by auto
    have "card (users (U R (tabs pg')) g) \<le> card (users (U R (tabs pg)) g \<union> (if f = g then {?x} else {}))"
      using fin s by (intro card_mono) auto
    also have "\<dots> \<le> card (users (U R (tabs pg)) g) + (if g = f then 1 else 0)"
      using card_Un_le [of "users (U R (tabs pg)) g" "if f = g then {?x} else {}"] by (auto split: if_splits)
    finally show ?thesis using spare [of g] by simp
  qed (use m(8) I(7) in simp)
  moreover have "\<not> in_pool (frames pg) u" if "tabs pg' u \<noteq> None" for u using m(7) I(5) that by blast
  moreover have "in_pool (frames pg) (mm_pte_phys l)" if "U R (tabs pg') x = Some l" for x l
    using that m(8) I(6) f(2) pe by (auto split: if_splits simp del: not_None_eq)
  ultimately have "as_inv R pg'" unfolding as_inv_def using I(1,4,8) m(3-5) by (simp del: not_None_eq)
  then show ?thesis using m by blast
qed

lemma drop_ref_refs: "m f = Some n \<Longrightarrow> (case drop_ref f m g of None \<Rightarrow> 0 | Some k \<Rightarrow> k) = (if g = f then n - 1 else (case m g of None \<Rightarrow> 0 | Some k \<Rightarrow> k))"
  by (simp add: drop_ref_def)

lemma unmap_user:
  assumes env: "env_ok env" and inv: "as_inv R pg" and u: "U R (tabs pg) (r, va_path va) = Some e"
  shows "\<exists>pg'. unmap_page_in_directory env r va pg = Done (True, pg') \<and> ram pg' = ram pg \<and> as_inv R pg' \<and>
     U R (tabs pg') = (U R (tabs pg))((r, va_path va) := None) \<and> pmm_frames (frames pg') = drop_ref (mm_pte_phys e) (pmm_frames (frames pg)) \<and>
     (\<forall>s \<in> R. \<forall>q. full_path q \<longrightarrow> xl (tabs pg') s q = (if (s, q) = (r, va_path va) then None else xl (tabs pg) s q))"
proof -
  note I = as_invD [OF inv]
  note D = U_SomeD [OF I(3) u]
  let ?x = "(r, va_path va)"
  have h: "hd (va_path va) < 256" using D(2) by (simp add: lower_def)
  obtain n where n: "pmm_frames (frames pg) (mm_pte_phys e) = Some n" "card (users (U R (tabs pg)) (mm_pte_phys e)) \<le> n" using mapped_frame [OF inv u] by blast
  have p: "in_pool (frames pg) (mm_pte_phys e)" by (rule I(6) [OF u])
  obtain pg' where m: "unmap_page_in_directory env r va pg = Done (True, pg')" "ram pg' = ram pg" "pt_inv R (tabs pg')" "pmm_ready (frames pg')"
     "unmap_effect R (tabs pg) (tabs pg') r (va_path va)" "pmm_frames (frames pg') = drop_ref (mm_pte_phys e) (pmm_frames (frames pg))"
    using unmap_spec [OF env I(2) D(1) I(4), of va] n(1) p D(4,5) by auto
  have pl: "mem_start (frames pg') = mem_start (frames pg)" "mem_end (frames pg') = mem_end (frames pg)" "\<And>t. tabs pg' t \<noteq> None \<Longrightarrow> tabs pg t \<noteq> None"
    using unmap_kept [OF env m(1)] unfolding kept_def by auto
  have x: "xl (tabs pg') s q = (if (s, q) = ?x then None else xl (tabs pg) s q)" if "s \<in> R" "full_path q" for s q
    using m(5) that h unfolding unmap_effect_def by fastforce
  have U': "U R (tabs pg') = (U R (tabs pg))(?x := None)"
  proof
    fix z show "U R (tabs pg') z = ((U R (tabs pg))(?x := None)) z" using x by (cases z) (auto simp: U_def lower_def)
  qed
  have "user_small R (tabs pg')" using I(3) x unfolding user_small_def lower_def by (metis option.distinct(1))
  moreover have "card (users (U R (tabs pg')) g) \<le> refs_of (frames pg') g" for g
  proof -
    have s: "users (U R (tabs pg')) g = users (U R (tabs pg)) g - {?x}" unfolding U' users_upd by simp
    have rf: "refs_of (frames pg') g = (if g = mm_pte_phys e then n - 1 else refs_of (frames pg) g)"
      unfolding refs_of_def m(6) using drop_ref_refs [of "pmm_frames (frames pg)", OF n(1), of g] by simp
    have fin: "finite (users (U R (tabs pg)) g)" by (rule finite_users [OF I(1)])
    show ?thesis
    proof (cases "g = mm_pte_phys e")
      case True
      then have "?x \<in> users (U R (tabs pg)) g" using u by (auto simp: users_def)
      then have "card (users (U R (tabs pg)) g - {?x}) = card (users (U R (tabs pg)) g) - 1" using fin by simp
      then show ?thesis using s rf True n(2) by simp
    next
      case False
      have "card (users (U R (tabs pg)) g - {?x}) \<le> card (users (U R (tabs pg)) g)" using fin by (simp add: card_mono)
      then show ?thesis using s rf False I(7) [of g] by simp
    qed
  qed
  moreover have "in_pool (frames pg') = in_pool (frames pg)" by (rule in_pool_cong) (use pl in simp)
  ultimately have "as_inv R pg'" unfolding as_inv_def using I(1,5,8) m(3,4) pl I(6) by (auto simp: U' simp del: not_None_eq)
  then show ?thesis using m x U' by auto
qed

section \<open>A region in progress\<close>

text \<open>
  \<open>added R d pg0 pg r M\<close>: \<open>pg\<close> is \<open>pg0\<close> with the pages of \<open>M\<close> (indices to descriptor) added to address
  space \<open>r\<close>, each on a zeroed frame of its own that was free in \<open>pg0\<close>; \<open>d f\<close> is the descriptor for frame \<open>f\<close>.
\<close>

definition added :: "nat set \<Rightarrow> (nat \<Rightarrow> u64) \<Rightarrow> paging \<Rightarrow> paging \<Rightarrow> nat \<Rightarrow> (nat list \<rightharpoonup> u64) \<Rightarrow> bool" where
  "added R d pg0 pg r M \<longleftrightarrow> as_inv R pg0 \<and> as_inv R pg \<and>
     U R (tabs pg) = (\<lambda>x. if fst x = r \<and> M (snd x) \<noteq> None then M (snd x) else U R (tabs pg0) x) \<and>
     (\<forall>p e p' e'. M p = Some e \<longrightarrow> M p' = Some e' \<longrightarrow> mm_pte_phys e = mm_pte_phys e' \<longrightarrow> p = p') \<and>
     (\<forall>p e. M p = Some e \<longrightarrow> pmm_frames (frames pg0) (mm_pte_phys e) = None \<and> e = d (mm_pte_phys e) \<and> page_bytes (ram pg) (mm_pte_phys e) = replicate 4096 0) \<and>
     pmm_frames (frames pg) = (\<lambda>f. if \<exists>p e. M p = Some e \<and> mm_pte_phys e = f then Some 1 else pmm_frames (frames pg0) f) \<and>
     (\<forall>x e. U R (tabs pg0) x = Some e \<longrightarrow> page_bytes (ram pg) (mm_pte_phys e) = page_bytes (ram pg0) (mm_pte_phys e)) \<and>
     (\<forall>s \<in> R. \<forall>q. full_path q \<longrightarrow> \<not> (s = r \<and> M q \<noteq> None) \<longrightarrow> xl (tabs pg0) s q = None \<longrightarrow> xl (tabs pg) s q = None)"

lemma addedD:
  assumes "added R d pg0 pg r M"
  shows "as_inv R pg" "U R (tabs pg) x = (if fst x = r \<and> M (snd x) \<noteq> None then M (snd x) else U R (tabs pg0) x)"
    "M p = Some e \<Longrightarrow> M p' = Some e' \<Longrightarrow> mm_pte_phys e = mm_pte_phys e' \<Longrightarrow> p = p'" "M p = Some e \<Longrightarrow> pmm_frames (frames pg0) (mm_pte_phys e) = None \<and> e = d (mm_pte_phys e) \<and> page_bytes (ram pg) (mm_pte_phys e) = replicate 4096 0"
    "pmm_frames (frames pg) f = (if \<exists>p e. M p = Some e \<and> mm_pte_phys e = f then Some 1 else pmm_frames (frames pg0) f)"
    "U R (tabs pg0) x = Some e \<Longrightarrow> page_bytes (ram pg) (mm_pte_phys e) = page_bytes (ram pg0) (mm_pte_phys e)"
    "s \<in> R \<Longrightarrow> full_path q \<Longrightarrow> \<not> (s = r \<and> M q \<noteq> None) \<Longrightarrow> xl (tabs pg0) s q = None \<Longrightarrow> xl (tabs pg) s q = None" "as_inv R pg0"
  using assms unfolding added_def by (blast | metis)+

lemma addedI:
  assumes "as_inv R pg0" "as_inv R pg" "\<And>s q. U R (tabs pg) (s, q) = (if s = r \<and> M q \<noteq> None then M q else U R (tabs pg0) (s, q))"
    "\<And>p e p' e'. M p = Some e \<Longrightarrow> M p' = Some e' \<Longrightarrow> mm_pte_phys e = mm_pte_phys e' \<Longrightarrow> p = p'"
    "\<And>p e. M p = Some e \<Longrightarrow> pmm_frames (frames pg0) (mm_pte_phys e) = None \<and> e = d (mm_pte_phys e) \<and> page_bytes (ram pg) (mm_pte_phys e) = replicate 4096 0"
    "\<And>f. pmm_frames (frames pg) f = (if \<exists>p e. M p = Some e \<and> mm_pte_phys e = f then Some 1 else pmm_frames (frames pg0) f)"
    "\<And>x e. U R (tabs pg0) x = Some e \<Longrightarrow> page_bytes (ram pg) (mm_pte_phys e) = page_bytes (ram pg0) (mm_pte_phys e)"
    "\<And>s q. s \<in> R \<Longrightarrow> full_path q \<Longrightarrow> \<not> (s = r \<and> M q \<noteq> None) \<Longrightarrow> xl (tabs pg0) s q = None \<Longrightarrow> xl (tabs pg) s q = None"
  shows "added R d pg0 pg r M"
  unfolding added_def
proof (intro conjI)
  show "U R (tabs pg) = (\<lambda>x. if fst x = r \<and> M (snd x) \<noteq> None then M (snd x) else U R (tabs pg0) x)"
  proof
    fix x show "U R (tabs pg) x = (if fst x = r \<and> M (snd x) \<noteq> None then M (snd x) else U R (tabs pg0) x)" using assms(3) [of "fst x" "snd x"] by (simp del: not_None_eq)
  qed
  show "pmm_frames (frames pg) = (\<lambda>f. if \<exists>p e. M p = Some e \<and> mm_pte_phys e = f then Some 1 else pmm_frames (frames pg0) f)" using assms(6) by blast
qed (use assms in blast)+

lemma added_refl: "as_inv R pg \<Longrightarrow> added R d pg pg r Map.empty"
  by (simp add: added_def)

lemma added_unmap:
  assumes env: "env_ok env" and a: "added R d pg0 pg r M" and m: "M (va_path va) = Some e" and r: "r \<in> R" and new: "xl (tabs pg0) r (va_path va) = None"
  shows "\<exists>pg'. unmap_page_in_directory env r va pg = Done (True, pg') \<and> added R d pg0 pg' r (M(va_path va := None))"
proof -
  note A = addedD [OF a]
  have u: "U R (tabs pg) (r, va_path va) = Some e" using A(2) m by simp
  obtain pg' where p: "unmap_page_in_directory env r va pg = Done (True, pg')" "ram pg' = ram pg" "as_inv R pg'"
     "U R (tabs pg') = (U R (tabs pg))((r, va_path va) := None)" "pmm_frames (frames pg') = drop_ref (mm_pte_phys e) (pmm_frames (frames pg))"
     "\<forall>s \<in> R. \<forall>q. full_path q \<longrightarrow> xl (tabs pg') s q = (if (s, q) = (r, va_path va) then None else xl (tabs pg) s q)"
    using unmap_user [OF env A(1) u] by blast
  have U0: "U R (tabs pg0) (r, va_path va) = None" using new by (simp add: U_def)
  let ?N = "M(va_path va := None)"
  have "U R (tabs pg') (s, q) = (if s = r \<and> ?N q \<noteq> None then ?N q else U R (tabs pg0) (s, q))" for s q
    unfolding p(4) using A(2) [of "(s, q)"] U0 by (auto simp del: not_None_eq)
  moreover have "pmm_frames (frames pg') f = (if \<exists>p e. ?N p = Some e \<and> mm_pte_phys e = f then Some 1 else pmm_frames (frames pg0) f)" for f
  proof (cases "f = mm_pte_phys e")
    case True
    have "\<not> (\<exists>p l. ?N p = Some l \<and> mm_pte_phys l = f)" using A(3) [OF m] True by (auto split: if_splits)
    moreover have "pmm_frames (frames pg) f = Some 1" using A(5) m True by auto
    ultimately show ?thesis using A(4) [OF m] True unfolding p(5) drop_ref_def by simp
  next
    case False
    then have "(\<exists>p l. ?N p = Some l \<and> mm_pte_phys l = f) \<longleftrightarrow> (\<exists>p l. M p = Some l \<and> mm_pte_phys l = f)" unfolding fun_upd_apply using m by (metis option.inject option.distinct(1))
    moreover have "pmm_frames (frames pg') f = pmm_frames (frames pg) f" using False unfolding p(5) drop_ref_def by (simp split: option.split)
    ultimately show ?thesis using A(5) by simp
  qed
  moreover have "xl (tabs pg') s q = None" if "s \<in> R" "full_path q" "\<not> (s = r \<and> ?N q \<noteq> None)" "xl (tabs pg0) s q = None" for s q
    using that A(7) p(6) by (auto split: if_splits simp del: not_None_eq)
  ultimately have "added R d pg0 pg' r ?N" using p(2,3) A(3,4,6,8) by (intro addedI) (auto split: if_splits)
  then show ?thesis using p(1) by blast
qed

lemma zero_page_ok:
  assumes "tabs pg f = None" "4096 dvd f"
  shows "\<exists>pg'. paging_zero_phys_page f pg = Done pg' \<and> tabs pg' = tabs pg \<and> frames pg' = frames pg \<and>
     page_bytes (ram pg') f = replicate 4096 0 \<and> (\<forall>g. 4096 dvd g \<longrightarrow> g \<noteq> f \<longrightarrow> page_bytes (ram pg') g = page_bytes (ram pg) g)"
proof -
  let ?m = "\<lambda>x. if f \<le> x \<and> x < f + 4096 then replicate 4096 (0 :: u8) ! (x - f) else ram pg x"
  have w: "paging_zero_phys_page f pg = Done (pg\<lparr>ram := ?m\<rparr>)"
    using write_phys_ok [OF assms, of 0 "replicate 4096 0"] by (simp add: paging_zero_phys_page_def cong: if_cong)
  have "page_bytes ?m f = replicate 4096 0" by (rule nth_equalityI) simp_all
  moreover have "page_bytes ?m g = page_bytes (ram pg) g" if "4096 dvd g" "g \<noteq> f" for g
    using frames_apart [OF assms(2) that(1)] that(2) by (intro page_bytes_cong) (simp only: if_False not_False_eq_True)
  ultimately show ?thesis using w by auto
qed

lemma added_map:
  assumes env: "env_ok env" and a: "added R d pg0 pg r M" and r: "r \<in> R" and new: "xl (tabs pg0) r (va_path va) = None" "M (va_path va) = None"
    and va: "lower (va_path va)" and fl: "bit flags 2" "\<not> bit flags 7" and d: "d = (\<lambda>f. mm_make_leaf_pte f (flags AND 0xFFF) (flags AND PAGE_EXEC \<noteq> 0))"
    and al: "pmm_alloc_frame (current_process env) (frames pg) = (f, q)" "f \<noteq> 0"
  shows "\<exists>pg1 ok pg2. paging_zero_phys_page f (pg\<lparr>frames := q\<rparr>) = Done pg1 \<and> map_page_in_directory env r va f flags pg1 = Done (ok, pg2) \<and>
     (if ok then \<exists>e. added R d pg0 pg2 r (M(va_path va \<mapsto> e))
      else \<exists>q2. pmm_free_frame f (frames pg2) = Done q2 \<and> added R d pg0 (pg2\<lparr>frames := q2\<rparr>) r M)"
proof -
  note A = addedD [OF a]
  note I = as_invD [OF A(1)]
  note F = fresh_frame [OF A(1) al(1)]
  have fa: "pmm_frames (frames pg) f = None" "pmm_frames q = (pmm_frames (frames pg))(f \<mapsto> 1)" "in_pool (frames pg) f" "frame_addr f" using F(4) al(2) by auto
  have me: "mem_end q = mem_end (frames pg)" using pmm_alloc_place [OF al(1)] by simp
  have f0: "pmm_frames (frames pg0) f = None" "\<And>p e. M p = Some e \<Longrightarrow> mm_pte_phys e \<noteq> f" using A(5) [of f] fa(1) by (auto split: if_splits)
  have tb: "tabs pg f = None" using I(5) [of f] fa(3) by blast
  let ?pg = "pg\<lparr>frames := q\<rparr>"
  have f4: "4096 dvd f" using fa(4) by (simp add: frame_addr_def)
  obtain pg1 where z: "paging_zero_phys_page f ?pg = Done pg1" "tabs pg1 = tabs pg" "frames pg1 = q" "page_bytes (ram pg1) f = replicate 4096 0"
    "\<And>g. 4096 dvd g \<Longrightarrow> g \<noteq> f \<Longrightarrow> page_bytes (ram pg1) g = page_bytes (ram pg) g" using zero_page_ok [of ?pg f] tb f4 by auto
  have rq: "refs_of q g = (if g = f then 1 else refs_of (frames pg) g)" for g using fa(2) by (simp add: refs_of_def)
  have uf: "users (U R (tabs pg)) f = {}" using unused_frame [OF A(1) fa(1)] by (auto simp: users_def)
  have spare: "card (users (U R (tabs pg1)) g) + (if g = f then 1 else 0) \<le> refs_of (frames pg1) g" for g
    using I(7) [of g] rq uf z(2,3) by simp
  have i1: "as_inv R pg1" unfolding as_inv_def using I F(2,3) me z(2,3) add_leD1 [OF spare] by (auto simp del: not_None_eq)
  let ?e = "mm_make_leaf_pte f (flags AND 0xFFF) (flags AND PAGE_EXEC \<noteq> 0)"
  have pe: "mm_pte_phys ?e = f" using fa(4) by simp
  obtain ok pg2 where m: "map_page_in_directory env r va f flags pg1 = Done (ok, pg2)" "ram pg2 = ram pg1" "frames pg2 = q" "as_inv R pg2"
     "U R (tabs pg2) = (if ok then (U R (tabs pg))((r, va_path va) \<mapsto> ?e) else U R (tabs pg))"
     "\<forall>s \<in> R. \<forall>q. full_path q \<longrightarrow> (s, q) \<noteq> (r, va_path va) \<or> \<not> ok \<longrightarrow> xl (tabs pg) s q = None \<longrightarrow> xl (tabs pg2) s q = None"
    using map_counted [OF env i1 r fa(4) _ va fl spare] fa(3) F(3) z(2,3) by auto
  have old: "page_bytes (ram pg1) (mm_pte_phys e) = page_bytes (ram pg0) (mm_pte_phys e)" if "U R (tabs pg0) x = Some e" for x e
  proof -
    have "mm_pte_phys e \<noteq> f" using unused_frame [OF A(8) f0(1) that] .
    then show ?thesis using A(6) [OF that] z(5) [OF phys_aligned] by simp
  qed
  have mold: "page_bytes (ram pg1) (mm_pte_phys e) = replicate 4096 0" if "M p = Some e" for p e
    using A(4) [OF that] f0(2) [OF that] z(5) [OF phys_aligned] by simp
  show ?thesis
  proof (cases ok)
    case True
    have "added R d pg0 pg2 r (M(va_path va \<mapsto> ?e))"
    proof (rule addedI)
      show "U R (tabs pg2) (s, p) = (if s = r \<and> (M(va_path va \<mapsto> ?e)) p \<noteq> None then (M(va_path va \<mapsto> ?e)) p else U R (tabs pg0) (s, p))" for s p
        using m(5) True A(2) [of "(s, p)"] by (auto simp del: not_None_eq)
      show "pmm_frames (frames pg2) g = (if \<exists>p e. (M(va_path va \<mapsto> ?e)) p = Some e \<and> mm_pte_phys e = g then Some 1 else pmm_frames (frames pg0) g)" for g
      proof -
        have "(\<exists>p e. (M(va_path va \<mapsto> ?e)) p = Some e \<and> mm_pte_phys e = g) \<longleftrightarrow> g = f \<or> (\<exists>p e. M p = Some e \<and> mm_pte_phys e = g)"
          unfolding fun_upd_apply using new(2) pe by (metis option.inject option.distinct(1))
        then show ?thesis using A(5) [of g] unfolding m(3) fa(2) by auto
      qed
      show "xl (tabs pg2) s p = None" if "s \<in> R" "full_path p" "\<not> (s = r \<and> (M(va_path va \<mapsto> ?e)) p \<noteq> None)" "xl (tabs pg0) s p = None" for s p
        using that m(6) A(7) [of s p] by (auto split: if_splits simp del: not_None_eq)
      show "p = p'" if "(M(va_path va \<mapsto> ?e)) p = Some e" "(M(va_path va \<mapsto> ?e)) p' = Some e'" "mm_pte_phys e = mm_pte_phys e'" for p p' e e'
        using that A(3) [of p e p' e'] f0(2) pe by (auto split: if_splits)
    qed (use A(4,8) m(2,4) mold old z(4) f0(1) pe d in \<open>auto split: if_splits\<close>)
    then show ?thesis using z(1) m(1) True by auto
  next
    case False
    have "pmm_frames q f = Some 1" using fa(2) by simp
    from pmm.put_ref [OF F(2) this] obtain q2 where q2: "pmm_frame_put f q = Done q2" "pmm_ready q2" "pmm_frames q2 = pmm_frames (frames pg)" using fa(1,2) fun_upd_idem [of "pmm_frames (frames pg)" f None] by auto
    have pl: "in_pool q2 = in_pool q" "mem_end q2 = mem_end q" using in_pool_cong [OF pmm_put_place [OF q2(1)]] pmm_put_place [OF q2(1)] by simp_all
    have U2: "U R (tabs pg2) = U R (tabs pg)" using m(5) False by simp
    have "refs_of q2 = refs_of (frames pg)" using q2(3) by (simp add: refs_of_def fun_eq_iff)
    then have "as_inv R (pg2\<lparr>frames := q2\<rparr>)" using as_invD [OF m(4)] q2(2) pl m(3) U2 I(7) unfolding as_inv_def by (simp del: not_None_eq)
    then have "added R d pg0 (pg2\<lparr>frames := q2\<rparr>) r M"
    proof (intro addedI)
      show "xl (tabs (pg2\<lparr>frames := q2\<rparr>)) s p = None" if "s \<in> R" "full_path p" "\<not> (s = r \<and> M p \<noteq> None)" "xl (tabs pg0) s p = None" for s p
        using A(7) [OF that] m(6) that(1,2) False by simp
    qed (use A(2,3,4,5,8) m(2) U2 q2(3) mold old in auto)
    then show ?thesis using z(1) m(1,3) False q2(1) by (intro exI [of _ pg1] exI [of _ ok] exI [of _ pg2]) (simp add: pmm_free_frame_def)
  qed
qed

lemma added_rollback:
  assumes env: "env_ok env" and r: "r \<in> R"
  shows "added R d pg0 pg r M \<Longrightarrow> distinct (map va_path vas) \<Longrightarrow> dom M = va_path ` set vas \<Longrightarrow> \<forall>va \<in> set vas. xl (tabs pg0) r (va_path va) = None \<Longrightarrow>
     \<exists>pg'. unmap_pages env r vas pg = Done pg' \<and> added R d pg0 pg' r Map.empty"
proof (induction vas arbitrary: pg M)
  case (Cons va vas)
  have "va_path va \<in> dom M" using Cons.prems(3) by simp
  then obtain e where e: "M (va_path va) = Some e" by blast
  have "xl (tabs pg0) r (va_path va) = None" using Cons.prems(4) by simp
  from added_unmap [OF env Cons.prems(1) e r this] obtain pg1 where
    1: "unmap_page_in_directory env r va pg = Done (True, pg1)" "added R d pg0 pg1 r (M(va_path va := None))" by blast
  have "dom (M(va_path va := None)) = va_path ` set vas" using Cons.prems(2,3) by auto
  from Cons.IH [OF 1(2) _ this] Cons.prems(2,4) 1(1) show ?case by auto
qed auto

lemma added_loop:
  assumes env: "env_ok env" and r: "r \<in> R" and fl: "bit flags 2" "\<not> bit flags 7"
    and d: "d = (\<lambda>f. mm_make_leaf_pte f (flags AND 0xFFF) (flags AND PAGE_EXEC \<noteq> 0))"
  shows "added R d pg0 pg r M \<Longrightarrow> distinct (map va_path (mapped @ vas)) \<Longrightarrow> dom M = va_path ` set mapped \<Longrightarrow>
     \<forall>va \<in> set (mapped @ vas). xl (tabs pg0) r (va_path va) = None \<and> lower (va_path va) \<Longrightarrow>
     \<exists>ok pg' M'. map_fresh_pages env r flags mapped vas pg = Done (ok, pg') \<and> added R d pg0 pg' r M' \<and> dom M' = (if ok then va_path ` set (mapped @ vas) else {})"
proof (induction vas arbitrary: pg M mapped)
  case Nil
  then show ?case by (auto intro!: exI [of _ True])
next
  case (Cons va vas)
  have roll: "\<exists>pg'. unmap_pages env r mapped x = Done pg' \<and> added R d pg0 pg' r Map.empty" if "added R d pg0 x r M" for x
    using added_rollback [OF env r that _ Cons.prems(3)] Cons.prems(2,4) by auto
  obtain f q where al: "pmm_alloc_frame (current_process env) (frames pg) = (f, q)" by fastforce
  note A = addedD [OF Cons.prems(1)]
  show ?case
  proof (cases "f = 0")
    case True
    then have "q = frames pg" using fresh_frame(1) [OF A(1) al] by simp
    then show ?thesis using roll [OF Cons.prems(1)] al True by (auto intro!: exI [of _ False])
  next
    case False
    have new: "xl (tabs pg0) r (va_path va) = None" "lower (va_path va)" "M (va_path va) = None" using Cons.prems(2-4) by auto
    obtain pg1 ok pg2 where s: "paging_zero_phys_page f (pg\<lparr>frames := q\<rparr>) = Done pg1" "map_page_in_directory env r va f flags pg1 = Done (ok, pg2)"
      "if ok then \<exists>e. added R d pg0 pg2 r (M(va_path va \<mapsto> e)) else \<exists>q2. pmm_free_frame f (frames pg2) = Done q2 \<and> added R d pg0 (pg2\<lparr>frames := q2\<rparr>) r M"
      using added_map [OF env Cons.prems(1) r new(1,3,2) fl d al False] by blast
    show ?thesis
    proof (cases ok)
      case True
      then obtain e where e: "added R d pg0 pg2 r (M(va_path va \<mapsto> e))" using s(3) by auto
      have "dom (M(va_path va \<mapsto> e)) = va_path ` set (mapped @ [va])" using Cons.prems(3) by auto
      from Cons.IH [OF e _ this] Cons.prems(2,4) obtain b pg' M' where
        "map_fresh_pages env r flags (mapped @ [va]) vas pg2 = Done (b, pg')" "added R d pg0 pg' r M'" "dom M' = (if b then va_path ` set ((mapped @ [va]) @ vas) else {})"
        by auto
      then show ?thesis using True s(1,2) al False by (intro exI [of _ b] exI [of _ pg'] exI [of _ M']) (simp add: Let_def)
    next
      case no: False
      then obtain q2 where q2: "pmm_free_frame f (frames pg2) = Done q2" "added R d pg0 (pg2\<lparr>frames := q2\<rparr>) r M" using s(3) by auto
      from roll [OF q2(2)] show ?thesis using no s(1,2) q2(1) al False by (auto intro!: exI [of _ False])
    qed
  qed
qed

lemma added_sole_writer:
  assumes "added R d pg0 pg r M" "sole_writer (U R (tabs pg0))"
  shows "sole_writer (U R (tabs pg))"
  unfolding sole_writer_def
proof (intro allI impI)
  note A = addedD [OF assms(1)]
  fix x y a b assume h: "U R (tabs pg) x = Some a" "U R (tabs pg) y = Some b" "x \<noteq> y" "mm_pte_phys a = mm_pte_phys b"
  have new: "U R (tabs pg0) z = Some l \<Longrightarrow> M p = Some e \<Longrightarrow> mm_pte_phys l \<noteq> mm_pte_phys e" for z l p e
    using unused_frame [OF A(8), of "mm_pte_phys e" z l] A(4) [of p e] by simp
  have c: "fst x = r \<and> M (snd x) = Some a \<or> U R (tabs pg0) x = Some a" "fst y = r \<and> M (snd y) = Some b \<or> U R (tabs pg0) y = Some b"
    using h(1,2) A(2) [of x] A(2) [of y] by (auto split: if_splits)
  consider "fst x = r" "M (snd x) = Some a" "fst y = r" "M (snd y) = Some b" | "U R (tabs pg0) x = Some a" "M (snd y) = Some b"
    | "M (snd x) = Some a" "U R (tabs pg0) y = Some b" | "U R (tabs pg0) x = Some a" "U R (tabs pg0) y = Some b" using c by blast
  then show "\<not> bit a 1 \<and> \<not> bit b 1"
  proof cases
    case 1
    then have "x = y" using A(3) [of "snd x" a "snd y" b] h(4) by (simp add: prod_eq_iff)
    then show ?thesis using h(3) by simp
  next
    case 4
    then show ?thesis using assms(2) [unfolded sole_writer_def, rule_format, of x a y b] h(3,4) by simp
  qed (use new [of x a "snd y" b] new [of y b "snd x" a] h(4) in auto)
qed

section \<open>Properties\<close>

lemma region_paths:
  assumes "4096 dvd start" "start + n * 4096 \<le> 2 ^ 47"
  shows "distinct (map va_path (map (\<lambda>k. start + k * 4096) [0..<n]))"
    "va < 2 ^ 47 \<Longrightarrow> va_path va \<in> va_path ` set (map (\<lambda>k. start + k * 4096) [0..<n]) \<longleftrightarrow> start \<le> va \<and> va < start + n * 4096"
proof -
  obtain s where s: "start = 4096 * s" using assms(1) by blast
  have lt: "start + k * 4096 < 2 ^ 47" if "k < n" for k using assms(2) that by linarith
  have dv: "(start + k * 4096) div 4096 = s + k" for k unfolding s by simp
  have "k = k'" if "va_path (start + k * 4096) = va_path (start + k' * 4096)" "k < n" "k' < n" for k k'
    using va_path_inj [OF that(1) lt lt] that(2,3) dv by simp
  then show "distinct (map va_path (map (\<lambda>k. start + k * 4096) [0..<n]))" by (simp add: distinct_map inj_on_def)
  assume va: "va < 2 ^ 47"
  show "va_path va \<in> va_path ` set (map (\<lambda>k. start + k * 4096) [0..<n]) \<longleftrightarrow> start \<le> va \<and> va < start + n * 4096"
  proof
    assume "va_path va \<in> va_path ` set (map (\<lambda>k. start + k * 4096) [0..<n])"
    then obtain k where k: "k < n" "va_path va = va_path (start + k * 4096)" by auto
    then have "va div 4096 = s + k" using va_path_inj [OF k(2) va lt] dv by simp
    then show "start \<le> va \<and> va < start + n * 4096" using k(1) mult_div_mod_eq [of 4096 va] mod_less_divisor [of 4096 va] unfolding s by linarith
  next
    assume h: "start \<le> va \<and> va < start + n * 4096"
    then have "s \<le> va div 4096" "va div 4096 < s + n" unfolding s by (simp_all add: less_eq_div_iff_mult_less_eq div_less_iff_less_mult)
    then have "va_path va = va_path (start + (va div 4096 - s) * 4096)" "va div 4096 - s < n" using va_path_page [of va "start + (va div 4096 - s) * 4096"] dv by auto
    then show "va_path va \<in> va_path ` set (map (\<lambda>k. start + k * 4096) [0..<n])" by auto
  qed
qed

text \<open>The pages a call of \<^verbatim>\<open>map_user_region_in_directory\<close> adds: all of the region, or none.\<close>

lemma map_region_added:
  assumes "env_ok env" "as_inv R pg" "r \<in> R" "\<not> bit flags 7" "start = align_down 4096 vs" "n = (sz + 0xFFF) div 4096"
    and "sz + 0xFFF < 2 ^ 64" "start + n * 4096 \<le> 2 ^ 47" "\<forall>k < n. translate pg r (start + k * 4096) = None"
    and "d = (\<lambda>f. mm_make_leaf_pte f ((flags OR PAGE_USER) AND 0xFFF) (flags AND PAGE_EXEC \<noteq> 0))"
  shows "\<exists>ok pg' M. map_user_region_in_directory env r vs sz flags pg = Done (ok, pg') \<and> added R d pg pg' r M \<and>
     dom M = (if ok then va_path ` set (map (\<lambda>k. start + k * 4096) [0..<n]) else {})"
proof -
  let ?fl = "flags OR PAGE_USER"
  define vas where "vas = map (\<lambda>k. start + k * 4096) [0..<n]"
  have fl: "bit ?fl 2" "\<not> bit ?fl 7" "?fl AND PAGE_EXEC \<noteq> 0 \<longleftrightarrow> flags AND PAGE_EXEC \<noteq> 0"
    using assms(4) flag_tests(7) [of flags] flag_tests(7) [of ?fl] by (simp_all add: bit_or_iff bit_flags)
  have d: "d = (\<lambda>f. mm_make_leaf_pte f (?fl AND 0xFFF) (?fl AND PAGE_EXEC \<noteq> 0))" unfolding assms(10) fl(3) ..
  have al: "4096 dvd start" unfolding assms(5) by (simp add: align_down_def)
  note P = region_paths(1) [OF al assms(8), folded vas_def]
  have r0: "r \<noteq> 0" using pt_invD(1) [OF as_invD(2) [OF assms(2)]] pt_invD(2) [OF as_invD(2) [OF assms(2)] assms(3), of "[]"] by (auto simp: valid_path_def)
  have "map (\<lambda>k. add64 start (k * 4096)) [0..<n] = vas" unfolding vas_def using assms(8) by (intro map_cong) (auto intro!: add64_small)
  moreover have "align_down 4096 (add64 sz 0xFFF) div 4096 = n" using assms(7) by (simp add: assms(6) align_down_def)
  ultimately have run: "map_user_region_in_directory env r vs sz flags pg = map_fresh_pages env r ?fl [] vas pg"
    using r0 by (simp add: map_user_region_in_directory_def assms(5) [symmetric] Let_def)
  have pre: "\<forall>va \<in> set ([] @ vas). xl (tabs pg) r (va_path va) = None \<and> lower (va_path va)"
    using assms(8,9) unfolding vas_def translate_def by (auto intro!: lower_va)
  have "\<exists>ok pg' M. map_fresh_pages env r ?fl [] vas pg = Done (ok, pg') \<and> added R d pg pg' r M \<and> dom M = (if ok then va_path ` set ([] @ vas) else {})"
    by (rule added_loop [OF assms(1,3) fl(1,2) d added_refl [OF assms(2)]]) (use P pre in simp_all)
  then show ?thesis unfolding run vas_def append_Nil .
qed

text \<open>
  Mapping a region of user memory. Over pages of the lower half that are not mapped, the call
  either maps every page of the region, zero filled, on frames that no address space used and with
  the given flags, or fails and leaves what every process sees and every reference count as they were.
  Nothing outside the region changes, and the invariants of the address spaces are kept.
\<close>

theorem map_user_region_correct:
  assumes "env_ok env" "as_inv R pg" "sole_writer (U R (tabs pg))" "r \<in> R" "\<not> bit flags 7" "start = align_down 4096 vs" "n = (sz + 0xFFF) div 4096"
    and "sz + 0xFFF < 2 ^ 64" "start + n * 4096 \<le> 2 ^ 47" "\<forall>k < n. translate pg r (start + k * 4096) = None"
  shows "\<exists>ok pg'. map_user_region_in_directory env r vs sz flags pg = Done (ok, pg') \<and> as_inv R pg' \<and> sole_writer (U R (tabs pg')) \<and>
     (\<not> ok \<longrightarrow> view R pg' = view R pg \<and> pmm_frames (frames pg') = pmm_frames (frames pg)) \<and>
     (ok \<longrightarrow> (\<forall>s. \<forall>va < 2 ^ 47. if s = r \<and> start \<le> va \<and> va < start + n * 4096 then
        peek R pg' s va = Some 0 \<and> (\<exists>f. pmm_frames (frames pg) f = None \<and> pmm_frames (frames pg') f = Some 1 \<and>
           U R (tabs pg') (r, va_path va) = Some (mm_make_leaf_pte f ((flags OR PAGE_USER) AND 0xFFF) (flags AND PAGE_EXEC \<noteq> 0)))
        else peek R pg' s va = peek R pg s va))"
proof -
  let ?fl = "flags OR PAGE_USER"
  define vas where "vas = map (\<lambda>k. start + k * 4096) [0..<n]"
  define d where "d = (\<lambda>f. mm_make_leaf_pte f (?fl AND 0xFFF) (flags AND PAGE_EXEC \<noteq> 0))"
  have al: "4096 dvd start" unfolding assms(6) by (simp add: align_down_def)
  note P = region_paths [OF al assms(9), folded vas_def]
  obtain ok pg' M where m: "map_user_region_in_directory env r vs sz flags pg = Done (ok, pg')" "added R d pg pg' r M" "dom M = (if ok then va_path ` set vas else {})"
    using map_region_added [OF assms(1,2,4-10) d_def, folded vas_def] by blast
  note A = addedD [OF m(2)]
  have "view R pg' = view R pg \<and> pmm_frames (frames pg') = pmm_frames (frames pg)" if "\<not> ok"
  proof -
    have M: "M = Map.empty" using m(3) that by simp
    then have "U R (tabs pg') = U R (tabs pg)" using A(2) by (simp add: fun_eq_iff)
    then show ?thesis using A(5,6) M by (auto simp: fun_eq_iff intro!: view_eqI [THEN fun_cong])
  qed
  moreover have "if s = r \<and> start \<le> va \<and> va < start + n * 4096 then
        peek R pg' s va = Some 0 \<and> (\<exists>f. pmm_frames (frames pg) f = None \<and> pmm_frames (frames pg') f = Some 1 \<and>
           U R (tabs pg') (r, va_path va) = Some (mm_make_leaf_pte f (?fl AND 0xFFF) (flags AND PAGE_EXEC \<noteq> 0)))
        else peek R pg' s va = peek R pg s va" if ok "va < 2 ^ 47" for s va
  proof (cases "s = r \<and> start \<le> va \<and> va < start + n * 4096")
    case True
    then have "va_path va \<in> dom M" using P(2) [OF that(2)] m(3) that(1) by simp
    then obtain e where e: "M (va_path va) = Some e" by blast
    have u: "U R (tabs pg') (r, va_path va) = Some e" using A(2) e by simp
    have "peek R pg' s va = Some 0" using True u A(4) [OF e] by (simp add: peek_def view_def)
    moreover have "pmm_frames (frames pg) (mm_pte_phys e) = None" "pmm_frames (frames pg') (mm_pte_phys e) = Some 1" "U R (tabs pg') (r, va_path va) = Some (d (mm_pte_phys e))"
      using A(4) [OF e] A(5) e u by auto
    ultimately show ?thesis unfolding d_def if_P [OF True] by blast
  next
    case False
    then have "\<not> (s = r \<and> M (va_path va) \<noteq> None)" using P(2) [OF that(2)] m(3) that(1) by auto
    then have U': "U R (tabs pg') (s, va_path va) = U R (tabs pg) (s, va_path va)" using A(2) [of "(s, va_path va)"] by (auto simp del: not_None_eq)
    have "peek R pg' s va = peek R pg s va"
      using U' A(6) [of "(s, va_path va)"] by (cases "U R (tabs pg) (s, va_path va)") (simp_all add: peek_def view_def)
    then show ?thesis unfolding if_not_P [OF False] .
  qed
  ultimately show ?thesis unfolding m(1) using A(1) added_sole_writer [OF m(2) assms(3)] by (intro exI [of _ ok] exI [of _ pg']) blast
qed

section \<open>Witnesses\<close>

lemma demo_empty: "U {0x100000, 0x200000} (tabs paging_demo) x = None"
  using paging_demo_free by (cases x) (auto simp: U_def paging_demo_def ent_def lower_def Let_def dest!: path4)

lemma demo_as_inv: "as_inv {0x100000, 0x200000} paging_demo" "sole_writer (U {0x100000, 0x200000} (tabs paging_demo))"
proof -
  have x: "xl (tabs paging_demo) s q = None" if "lower q" for s q
    using that by (auto simp: lower_def paging_demo_def ent_def Let_def dest!: path4)
  then have "user_small {0x100000, 0x200000} (tabs paging_demo)" by (simp add: user_small_def)
  moreover have "\<not> in_pool (frames paging_demo) t" if "tabs paging_demo t \<noteq> None" for t
    using that by (auto simp: paging_demo_def demo_pool split: if_splits)
  moreover have "mem_end (frames paging_demo) \<le> 2 ^ 52" by (simp add: paging_demo_def pmm_two_frames_eq)
  ultimately show "as_inv {0x100000, 0x200000} paging_demo"
    using paging_demo_inv pmm_two_frames_ready demo_empty by (simp add: as_inv_def users_def paging_demo_def del: not_None_eq)
qed (simp add: sole_writer_def demo_empty)

theorem map_user_region_correct_witness:
  "\<exists>ok pg'. map_user_region_in_directory env_demo 0x100000 0x400800 0x1800 PAGE_RW paging_demo = Done (ok, pg') \<and> as_inv {0x100000, 0x200000} pg' \<and>
     (\<not> ok \<longrightarrow> pmm_frames (frames pg') = pmm_frames (frames paging_demo)) \<and> (ok \<longrightarrow> peek {0x100000, 0x200000} pg' 0x100000 0x401234 = Some 0)"
proof -
  have h: "(0x100000 :: nat) \<in> {0x100000, 0x200000}" "\<not> bit PAGE_RW 7" "0x400000 = align_down 4096 0x400800" "2 = (0x1800 + 0xFFF) div (4096 :: nat)"
    "0x1800 + 0xFFF < (2 :: nat) ^ 64" "0x400000 + 2 * 4096 \<le> (2 :: nat) ^ 47" "\<forall>k < 2. translate paging_demo 0x100000 (0x400000 + k * 4096) = None"
    using paging_demo_free by (simp_all add: align_down_def bit_flags)
  obtain ok pg' where m: "map_user_region_in_directory env_demo 0x100000 0x400800 0x1800 PAGE_RW paging_demo = Done (ok, pg')" "as_inv {0x100000, 0x200000} pg'"
    "\<not> ok \<longrightarrow> view {0x100000, 0x200000} pg' = view {0x100000, 0x200000} paging_demo \<and> pmm_frames (frames pg') = pmm_frames (frames paging_demo)"
    "ok \<longrightarrow> (\<forall>s. \<forall>va < 2 ^ 47. if s = 0x100000 \<and> 0x400000 \<le> va \<and> va < 0x400000 + 2 * 4096 then
        peek {0x100000, 0x200000} pg' s va = Some 0 \<and> (\<exists>f. pmm_frames (frames paging_demo) f = None \<and> pmm_frames (frames pg') f = Some 1 \<and>
           U {0x100000, 0x200000} (tabs pg') (0x100000, va_path va) = Some (mm_make_leaf_pte f ((PAGE_RW OR PAGE_USER) AND 0xFFF) (PAGE_RW AND PAGE_EXEC \<noteq> 0)))
        else peek {0x100000, 0x200000} pg' s va = peek {0x100000, 0x200000} paging_demo s va)"
    using map_user_region_correct [OF env_demo_ok demo_as_inv h] by blast
  have "ok \<longrightarrow> peek {0x100000, 0x200000} pg' 0x100000 0x401234 = Some 0" using m(4) [THEN mp, THEN spec, THEN spec, of "0x401234" "0x100000"] by simp
  then show ?thesis using m(1-3) by blast
qed

text \<open>An address space with one writable page, the other empty.\<close>

definition rw_leaf :: "nat \<Rightarrow> u64" where
  "rw_leaf f = mm_make_leaf_pte f ((PAGE_USER OR PAGE_RW) AND 0xFFF) ((PAGE_USER OR PAGE_RW) AND PAGE_EXEC \<noteq> 0)"

lemma demo_page:
  "\<exists>pg e. added {0x100000, 0x200000} rw_leaf paging_demo pg 0x100000 [va_path 0x400000 \<mapsto> e] \<and>
     dom (tabs pg) = {0x100000, 0x200000, 0x101000, 0x102000, 0x103000} \<and> in_pool (frames pg) = in_pool pmm_two_frames \<and> tabs pg 0x200000 = Some (\<lambda>_. 0)"
proof -
  let ?fl = "PAGE_USER OR PAGE_RW"
  have fl: "bit ?fl 2" "\<not> bit ?fl 7" by (simp_all add: bit_or_iff bit_flags)
  obtain f q where al: "pmm_alloc_frame (current_process env_demo) (frames paging_demo) = (f, q)" "f \<noteq> 0"
    using pmm_two_frames_alloc by (simp add: env_demo_def paging_demo_def)
  have va: "lower (va_path 0x400000)" by (rule lower_va) simp
  have d: "rw_leaf = (\<lambda>f. mm_make_leaf_pte f (?fl AND 0xFFF) (?fl AND PAGE_EXEC \<noteq> 0))" by (simp add: rw_leaf_def fun_eq_iff)
  have free: "xl (tabs paging_demo) 0x100000 (va_path 0x400000) = None" using paging_demo_free [of "0x400000"] by (simp add: translate_def)
  obtain pg1 ok pg2 where m: "paging_zero_phys_page f (paging_demo\<lparr>frames := q\<rparr>) = Done pg1" "map_page_in_directory env_demo 0x100000 0x400000 f ?fl pg1 = Done (ok, pg2)"
    "ok \<Longrightarrow> \<exists>e. added {0x100000, 0x200000} rw_leaf paging_demo pg2 0x100000 [va_path 0x400000 \<mapsto> e]"
    using added_map [OF env_demo_ok added_refl [OF demo_as_inv(1)] _ free _ va fl d al] by auto
  have "tabs pg1 = tabs paging_demo" "frames pg1 = q" using m(1) by (auto simp: paging_zero_phys_page_def write_phys_def split: if_splits)
  moreover have "in_pool q = in_pool pmm_two_frames" using in_pool_cong [OF pmm_alloc_place [OF al(1)]] by (simp add: paging_demo_def)
  ultimately have ok "dom (tabs pg2) = {0x100000, 0x200000, 0x101000, 0x102000, 0x103000}" "in_pool (frames pg2) = in_pool pmm_two_frames" "tabs pg2 0x200000 = Some (\<lambda>_. 0)"
    using demo_map_ok [of pg1 f ?fl] m(2) by auto
  then show ?thesis using m(3) by blast
qed

end
