(* ===== verification/User_Copy.thy ===== *)
theory User_Copy
  imports User_Region
begin

text \<open>
  Copies between the kernel and user memory: \<^verbatim>\<open>copy_to_user_region_in_directory\<close> and
  \<^verbatim>\<open>copy_from_user_region_in_directory\<close> (\<^verbatim>\<open>mm/paging.c\<close>), and their callers for system calls
  (\<^verbatim>\<open>kernel/lib/copy_user.c\<close>): what one process sees after bytes are written to another, or to itself.
\<close>

section \<open>The system-call interface\<close>

definition user_lo :: nat where "user_lo = 0x00400000"

definition user_hi :: nat where "user_hi = 0x00007FFFFFFFFFFF"

definition mm_user_va_ok :: "nat \<Rightarrow> nat \<Rightarrow> bool" where
  "mm_user_va_ok addr sz =
     (if addr = 0 then False
      else let fin = add64 addr sz in
        if fin < addr then False
        else if addr < user_lo \<or> user_hi < fin then False else True)"

text \<open>
  The current process: whether its mode is \<^verbatim>\<open>KERNEL_MODE\<close>, and its \<^verbatim>\<open>process_pgd\<close> (0 when it has none). In
  kernel mode the functions are plain \<^verbatim>\<open>memcpy\<close> and \<^verbatim>\<open>memset\<close> on the address the machine sees:
  \<open>raw_read\<close> and \<open>raw_write\<close> stand for those accesses.
\<close>

record proc_ctx =
  kernel_mode :: bool
  pgd :: nat

record raw_mem =
  raw_read :: "nat \<Rightarrow> nat \<Rightarrow> paging \<Rightarrow> u8 list kresult"
  raw_write :: "nat \<Rightarrow> u8 list \<Rightarrow> paging \<Rightarrow> paging kresult"

text \<open>Whether every page from \<open>a\<close> up to \<open>fin\<close> is mapped.\<close>

function pages_mapped :: "nat \<Rightarrow> nat \<Rightarrow> nat \<Rightarrow> paging \<Rightarrow> bool kresult" where
  "pages_mapped root a fin pg =
     (if a < fin then
        kbind (is_page_mapped_in_directory root a pg) (\<lambda>m.
          case m of Some (Some _) \<Rightarrow> pages_mapped root (a + 0x1000) fin pg | _ \<Rightarrow> Done False)
      else Done True)"
  by pat_completeness auto
termination
  by (relation "measure (\<lambda>(root, a, fin, pg). fin - a)") auto

definition is_user_address_checked :: "proc_ctx option \<Rightarrow> nat \<Rightarrow> nat \<Rightarrow> bool \<Rightarrow> paging \<Rightarrow> bool kresult" where
  "is_user_address_checked cur addr sz check_mapped pg =
     (let start = addr; fin = add64 start sz in
      if addr = 0 then Done False
      else if fin < start then Done False
      else if \<not> mm_user_va_ok start sz then Done False
      else if check_mapped then
        (case cur of
           None \<Rightarrow> Done False
         | Some c \<Rightarrow> if pgd c = 0 then Done False else pages_mapped (pgd c) (align_down 4096 start) fin pg)
      else Done True)"

definition is_user_address :: "proc_ctx option \<Rightarrow> nat \<Rightarrow> nat \<Rightarrow> paging \<Rightarrow> bool kresult" where
  "is_user_address cur addr sz pg = is_user_address_checked cur addr sz False pg"

text \<open>\<^verbatim>\<open>False\<close> is the result \<^verbatim>\<open>-EFAULT\<close>.\<close>

definition copy_to_user :: "raw_mem \<Rightarrow> paging_env \<Rightarrow> proc_ctx option \<Rightarrow> nat \<Rightarrow> u8 list \<Rightarrow> paging \<Rightarrow> (bool \<times> paging) kresult" where
  "copy_to_user rm env cur dst src pg =
     (if src = [] then Done (True, pg)
      else if (case cur of Some c \<Rightarrow> kernel_mode c | None \<Rightarrow> False) then kbind (raw_write rm dst src pg) (\<lambda>pg1. Done (True, pg1))
      else kbind (is_user_address cur dst (length src) pg) (\<lambda>ok.
        if \<not> ok then Done (False, pg)
        else case cur of
               None \<Rightarrow> Done (False, pg)
             | Some c \<Rightarrow> if pgd c = 0 then Done (False, pg) else copy_to_user_region_in_directory env (pgd c) dst (Some src) pg))"

definition copy_from_user :: "raw_mem \<Rightarrow> proc_ctx option \<Rightarrow> nat \<Rightarrow> nat \<Rightarrow> paging \<Rightarrow> u8 list option kresult" where
  "copy_from_user rm cur src n pg =
     (if n = 0 then Done (Some [])
      else if (case cur of Some c \<Rightarrow> kernel_mode c | None \<Rightarrow> False) then kbind (raw_read rm src n pg) (\<lambda>bs. Done (Some bs))
      else kbind (is_user_address cur src n pg) (\<lambda>ok.
        if \<not> ok then Done None
        else case cur of
               None \<Rightarrow> Done None
             | Some c \<Rightarrow> if pgd c = 0 then Done None else copy_from_user_region_in_directory (pgd c) src n pg))"

definition clear_user :: "raw_mem \<Rightarrow> paging_env \<Rightarrow> proc_ctx option \<Rightarrow> nat \<Rightarrow> nat \<Rightarrow> paging \<Rightarrow> (bool \<times> paging) kresult" where
  "clear_user rm env cur dst n pg =
     (if n = 0 then Done (True, pg)
      else if (case cur of Some c \<Rightarrow> kernel_mode c | None \<Rightarrow> False) then kbind (raw_write rm dst (replicate n 0) pg) (\<lambda>pg1. Done (True, pg1))
      else kbind (is_user_address cur dst n pg) (\<lambda>ok.
        if \<not> ok then Done (False, pg)
        else case cur of
               None \<Rightarrow> Done (False, pg)
             | Some c \<Rightarrow> if pgd c = 0 then Done (False, pg) else zero_user_region_in_directory env (pgd c) dst n pg))"

text \<open>
  The loop of \<^verbatim>\<open>copy_from_user_cstring\<close> with \<open>room = dst_sz - 1 - i\<close> bytes left before the final NUL: the
  bytes stored in \<open>dst\<close>, the NUL included.
\<close>

fun cstring_loop :: "(nat \<Rightarrow> u8 option kresult) \<Rightarrow> nat \<Rightarrow> nat \<Rightarrow> u8 list option kresult" where
  "cstring_loop get i 0 = Done (Some [0])"
| "cstring_loop get i (Suc room) =
     kbind (get i) (\<lambda>r. case r of
       None \<Rightarrow> Done None
     | Some c \<Rightarrow> if c = 0 then Done (Some [0]) else kbind (cstring_loop get (i + 1) room) (\<lambda>rest. Done (map_option (Cons c) rest)))"

definition copy_from_user_cstring :: "raw_mem \<Rightarrow> proc_ctx option \<Rightarrow> bool \<Rightarrow> nat \<Rightarrow> nat \<Rightarrow> paging \<Rightarrow> u8 list option kresult" where
  "copy_from_user_cstring rm cur dst_null dst_sz src pg =
     (if dst_null \<or> dst_sz = 0 \<or> src = 0 then Done None
      else if (case cur of Some c \<Rightarrow> kernel_mode c | None \<Rightarrow> False) then
        cstring_loop (\<lambda>i. kbind (raw_read rm (add64 src i) 1 pg) (\<lambda>bs. Done (Some (bs ! 0)))) 0 (dst_sz - 1)
      else kbind (is_user_address cur src 1 pg) (\<lambda>ok.
        if \<not> ok then Done None
        else case cur of
               None \<Rightarrow> Done None
             | Some c \<Rightarrow>
                 if pgd c = 0 then Done None
                 else cstring_loop (\<lambda>i. kbind (copy_from_user_region_in_directory (pgd c) (add64 src i) 1 pg) (\<lambda>bs. Done (map_option (\<lambda>b. b ! 0) bs)))
                        0 (dst_sz - 1)))"

section \<open>One chunk\<close>

lemma page_chunk_fits: "0 < n \<Longrightarrow> dst mod 4096 + page_chunk dst n \<le> 4096"
  using mod_less_divisor [of 4096 dst] by (auto simp: page_chunk_def Let_def)

lemma same_page: "dst \<le> va \<Longrightarrow> va < dst + page_chunk dst n \<Longrightarrow> va div 4096 = dst div 4096 \<and> va mod 4096 = dst mod 4096 + (va - dst)"
proof -
  assume a: "dst \<le> va" "va < dst + page_chunk dst n"
  then have lt: "dst mod 4096 + (va - dst) < 4096" by (auto simp: page_chunk_def Let_def split: if_splits)
  have g: "(c + 4096 * b) div 4096 = b \<and> (c + 4096 * b) mod 4096 = c" if "c < 4096" for b c :: nat using that by simp
  have "dst mod 4096 + (va - dst) + 4096 * (dst div 4096) = va" using a(1) mult_div_mod_eq [of 4096 dst] by linarith
  with g [OF lt, of "dst div 4096"] show ?thesis by (simp only:)
qed

text \<open>No other user page lies on the frame of the page at \<open>x\<close>; so it is with a page that is writable.\<close>

definition sole_user :: "(nat \<times> nat list \<Rightarrow> u64 option) \<Rightarrow> nat \<times> nat list \<Rightarrow> u64 \<Rightarrow> bool" where
  "sole_user V x e \<longleftrightarrow> V x = Some e \<and> (\<forall>y l. V y = Some l \<longrightarrow> y \<noteq> x \<longrightarrow> mm_pte_phys l \<noteq> mm_pte_phys e)"

lemma writable_sole: "sole_writer V \<Longrightarrow> V x = Some e \<Longrightarrow> bit e 1 \<Longrightarrow> sole_user V x e"
  unfolding sole_writer_def sole_user_def by metis

text \<open>Bytes written to such a page change the view of that page only.\<close>

lemma write_view:
  assumes inv: "as_inv R pg" and u: "sole_user (U R (tabs pg)) (r, q) e" and o: "off + length bs \<le> 4096" "bs \<noteq> []"
  shows "\<exists>pg'. write_phys (mm_pte_phys e + off) bs pg = Done pg' \<and> tabs pg' = tabs pg \<and> frames pg' = frames pg \<and> as_inv R pg' \<and>
     (\<forall>x. x \<noteq> (r, q) \<longrightarrow> view R pg' x = view R pg x) \<and>
     view R pg' (r, q) = Some (map (\<lambda>k. if off \<le> k \<and> k < off + length bs then bs ! (k - off) else ram pg (mm_pte_phys e + k)) [0..<4096])"
proof -
  let ?f = "mm_pte_phys e"
  have ue: "U R (tabs pg) (r, q) = Some e" using u by (simp add: sole_user_def)
  have t: "tabs pg ?f = None" using as_invD(5) [OF inv, of ?f] as_invD(6) [OF inv ue] by blast
  let ?m = "\<lambda>x. if ?f + off \<le> x \<and> x < ?f + off + length bs then bs ! (x - (?f + off)) else ram pg x"
  have off: "off < 4096" using o by (cases bs) auto
  have w: "write_phys (?f + off) bs pg = Done (pg\<lparr>ram := ?m\<rparr>)" by (rule write_phys_ok [OF t phys_aligned off])
  have i: "as_inv R (pg\<lparr>ram := ?m\<rparr>)" using inv by (simp add: as_inv_def)
  have v: "view R (pg\<lparr>ram := ?m\<rparr>) x = view R pg x" if "x \<noteq> (r, q)" for x
  proof (cases "U R (tabs pg) x")
    case (Some l)
    then have "mm_pte_phys l \<noteq> ?f" using u that unfolding sole_user_def by metis
    then have "\<not> (?f + off \<le> mm_pte_phys l + k \<and> mm_pte_phys l + k < ?f + off + length bs)" if "k < 4096" for k
      using frames_apart [OF phys_aligned [of e] phys_aligned [of l] _ that] o(1) by fastforce
    then have "page_bytes ?m (mm_pte_phys l) = page_bytes (ram pg) (mm_pte_phys l)" by (intro page_bytes_cong) (simp only: if_False)
    then show ?thesis using Some by (simp add: view_def)
  qed (simp add: view_def)
  have "view R (pg\<lparr>ram := ?m\<rparr>) (r, q) = Some (map (\<lambda>k. if off \<le> k \<and> k < off + length bs then bs ! (k - off) else ram pg (?f + k)) [0..<4096])"
    using ue by (auto simp: view_def page_bytes_def intro!: map_cong)
  then show ?thesis using w i v by (intro exI [of _ "pg\<lparr>ram := ?m\<rparr>"]) simp
qed

lemma peek_Some: "view R pg (s, va_path va) = Some bs \<Longrightarrow> peek R pg s va = Some (bs ! (va mod 4096))"
  by (simp add: peek_def)

lemma peek_view: "(\<And>x. x \<noteq> (r, q) \<Longrightarrow> view R pg' x = view R pg x) \<Longrightarrow> (s, va_path va) \<noteq> (r, q) \<Longrightarrow> peek R pg' s va = peek R pg s va"
  by (simp add: peek_def)

text \<open>What a copy of \<open>bs\<close> to \<open>dst\<close> leaves in user memory.\<close>

definition copied :: "nat set \<Rightarrow> paging \<Rightarrow> paging \<Rightarrow> nat \<Rightarrow> nat \<Rightarrow> u8 list \<Rightarrow> bool" where
  "copied R pg pg' r dst bs \<longleftrightarrow> (\<forall>va < 2 ^ 47. \<forall>s. peek R pg' s va =
     (if s = r \<and> dst \<le> va \<and> va < dst + length bs then Some (bs ! (va - dst)) else peek R pg s va))"

text \<open>The chunk of \<open>bs\<close> that fits the page of \<open>dst\<close>, written to the frame of that page.\<close>

lemma chunk_copied:
  assumes inv: "as_inv R pg1" and e: "sole_user (U R (tabs pg1)) (r, va_path dst) e" and v: "view R pg1 = view R pg"
    and n: "0 < length bs" "dst + length bs \<le> 2 ^ 47"
  shows "\<exists>pg2. write_phys (mm_pte_phys e + dst mod 4096) (take (page_chunk dst (length bs)) bs) pg1 = Done pg2 \<and> as_inv R pg2 \<and> tabs pg2 = tabs pg1 \<and>
     frames pg2 = frames pg1 \<and> copied R pg pg2 r dst (take (page_chunk dst (length bs)) bs)"
proof -
  let ?c = "page_chunk dst (length bs)"
  let ?f = "mm_pte_phys e"
  have ue: "U R (tabs pg1) (r, va_path dst) = Some e" using e by (simp add: sole_user_def)
  have len: "length (take ?c bs) = ?c" using page_chunk_le [of dst "length bs"] by simp
  have fits: "dst mod 4096 + length (take ?c bs) \<le> 4096" using page_chunk_fits [OF n(1), of dst] len by simp
  have ne: "take ?c bs \<noteq> []" using page_chunk_pos [OF n(1), of dst] n(1) by auto
  obtain pg2 where p: "write_phys (?f + dst mod 4096) (take ?c bs) pg1 = Done pg2" "tabs pg2 = tabs pg1" "as_inv R pg2" "frames pg2 = frames pg1"
    "\<And>x. x \<noteq> (r, va_path dst) \<Longrightarrow> view R pg2 x = view R pg1 x"
    "view R pg2 (r, va_path dst) = Some (map (\<lambda>k. if dst mod 4096 \<le> k \<and> k < dst mod 4096 + length (take ?c bs) then take ?c bs ! (k - dst mod 4096) else ram pg1 (?f + k)) [0..<4096])"
    using write_view [OF inv e fits ne] by blast
  have "copied R pg pg2 r dst (take ?c bs)" unfolding copied_def len
  proof (intro allI impI)
    fix va s :: nat assume va: "va < 2 ^ 47"
    have d: "dst < 2 ^ 47" using n by linarith
    show "peek R pg2 s va = (if s = r \<and> dst \<le> va \<and> va < dst + ?c then Some (take ?c bs ! (va - dst)) else peek R pg s va)"
    proof (cases "s = r \<and> va_path va = va_path dst")
      case False
      then have "\<not> (s = r \<and> dst \<le> va \<and> va < dst + ?c)" using same_page [of dst va "length bs"] va_path_page [of va dst] by auto
      moreover have "(s, va_path va) \<noteq> (r, va_path dst)" using False by simp
      ultimately show ?thesis using p(5) v unfolding peek_def by (simp only: if_False not_False_eq_True)
    next
      case True
      then have dv: "va div 4096 = dst div 4096" using va_path_inj [OF _ va d] by simp
      have m: "va mod 4096 < 4096" by simp
      have "peek R pg s va = Some (ram pg1 (?f + va mod 4096))"
        unfolding peek_def v [symmetric] using True ue m by (simp add: view_def)
      moreover have "peek R pg2 s va = Some (if dst mod 4096 \<le> va mod 4096 \<and> va mod 4096 < dst mod 4096 + ?c then take ?c bs ! (va mod 4096 - dst mod 4096) else ram pg1 (?f + va mod 4096))"
        using True p(6) len m by (simp add: peek_def)
      moreover have "dst \<le> va \<longleftrightarrow> dst mod 4096 \<le> va mod 4096" "va < dst + ?c \<longleftrightarrow> va mod 4096 < dst mod 4096 + ?c" "va - dst = va mod 4096 - dst mod 4096"
        using dv mult_div_mod_eq [of 4096 va] mult_div_mod_eq [of 4096 dst] by linarith+
      ultimately show ?thesis using True by simp
    qed
  qed
  then show ?thesis using p by blast
qed

lemma chunk_step:
  assumes env: "env_ok env" and inv: "as_inv R pg" "sole_writer (U R (tabs pg))" and r: "r \<in> R"
    and n: "0 < length bs" "dst + length bs \<le> 2 ^ 47" and ok: "page_ok R pg r (va_path dst)"
  shows "\<exists>fr pg1. writable_frame env r (align_down 4096 dst) pg = Done (fr, pg1) \<and> as_inv R pg1 \<and> sole_writer (U R (tabs pg1)) \<and> view R pg1 = view R pg \<and>
     (\<forall>q. full_path q \<longrightarrow> page_ok R pg r q \<longrightarrow> page_ok R pg1 r q) \<and>
     (\<forall>f. fr = Some f \<longrightarrow> (\<exists>pg2. write_phys (f + dst mod 4096) (take (page_chunk dst (length bs)) bs) pg1 = Done pg2 \<and>
        as_inv R pg2 \<and> tabs pg2 = tabs pg1 \<and> copied R pg pg2 r dst (take (page_chunk dst (length bs)) bs)))"
proof -
  let ?c = "page_chunk dst (length bs)"
  obtain fr pg1 where w: "writable_frame env r (align_down 4096 dst) pg = Done (fr, pg1)" "as_inv R pg1" "sole_writer (U R (tabs pg1))" "view R pg1 = view R pg"
     "\<forall>q. full_path q \<longrightarrow> page_ok R pg r q \<longrightarrow> page_ok R pg1 r q"
     "\<forall>f. fr = Some f \<longrightarrow> (\<exists>e. U R (tabs pg1) (r, va_path dst) = Some e \<and> mm_pte_phys e = f \<and> bit e 1)"
    using writable_frame_spec [OF env inv r, of "align_down 4096 dst"] ok unfolding va_path_align by blast
  have "\<exists>pg2. write_phys (f + dst mod 4096) (take ?c bs) pg1 = Done pg2 \<and> as_inv R pg2 \<and> tabs pg2 = tabs pg1 \<and> copied R pg pg2 r dst (take ?c bs)"
    if f: "fr = Some f" for f
  proof -
    obtain e where e: "U R (tabs pg1) (r, va_path dst) = Some e" "mm_pte_phys e = f" "bit e 1" using w(6) f by blast
    show ?thesis using chunk_copied [OF w(2) writable_sole [OF w(3) e(1,3)] w(4) n] unfolding e(2) by blast
  qed
  then show ?thesis using w by blast
qed


section \<open>The loop\<close>

lemma copied_refl: "copied R pg pg r dst []"
  by (auto simp: copied_def)

lemma copied_view: "view R pg1 = view R pg \<Longrightarrow> copied R pg pg1 r dst []"
  by (auto simp: copied_def peek_def)

lemma copied_trans:
  assumes "copied R pg pg1 r dst xs" "copied R pg1 pg2 r (dst + length xs) ys"
  shows "copied R pg pg2 r dst (xs @ ys)"
  unfolding copied_def
proof (intro allI impI)
  fix va s :: nat assume va: "va < 2 ^ 47"
  have 1: "peek R pg1 s va = (if s = r \<and> dst \<le> va \<and> va < dst + length xs then Some (xs ! (va - dst)) else peek R pg s va)"
    and 2: "peek R pg2 s va = (if s = r \<and> dst + length xs \<le> va \<and> va < dst + length xs + length ys then Some (ys ! (va - (dst + length xs))) else peek R pg1 s va)"
    using assms va unfolding copied_def by blast+
  show "peek R pg2 s va = (if s = r \<and> dst \<le> va \<and> va < dst + length (xs @ ys) then Some ((xs @ ys) ! (va - dst)) else peek R pg s va)"
    unfolding 2 1 by (auto simp: nth_append)
qed

text \<open>A writable page is written in place.\<close>

definition page_rw :: "nat set \<Rightarrow> paging \<Rightarrow> nat \<Rightarrow> nat list \<Rightarrow> bool" where
  "page_rw R pg r q \<longleftrightarrow> (\<exists>e. U R (tabs pg) (r, q) = Some e \<and> bit e 1)"

lemma page_rw_ok: "page_rw R pg r q \<Longrightarrow> page_ok R pg r q"
  by (auto simp: page_rw_def page_ok_def)

lemma writable_frame_rw:
  assumes inv: "as_inv R pg" and rw: "page_rw R pg r (va_path va)"
  shows "\<exists>f. writable_frame env r (align_down 4096 va) pg = Done (Some f, pg)"
proof -
  obtain e where e: "U R (tabs pg) (r, va_path va) = Some e" "bit e 1" using rw by (auto simp: page_rw_def)
  note D = U_SomeD [OF as_invD(3) [OF inv] e(1)]
  obtain t where t: "walk (tabs pg) r (take 3 (va_path va)) = Some t" using D(8) by blast
  have "e AND PAGE_RW \<noteq> 0" using flag_tests(2) [of e] e(2) by simp
  then show ?thesis using get_pte_walk [OF as_invD(2) [OF inv] D(1), of "align_down 4096 va"] leaf_entry [OF as_invD(2) [OF inv] D(1) full_va_path t] t D(4,5)
    by (simp add: writable_frame_def va_path_align)
qed

lemma copy_to_region_spec:
  assumes env: "env_ok env" and r: "r \<in> R"
  shows "as_inv R pg \<Longrightarrow> sole_writer (U R (tabs pg)) \<Longrightarrow> dst + length bs \<le> 2 ^ 47 \<Longrightarrow> \<forall>k < length bs. page_ok R pg r (va_path (dst + k)) \<Longrightarrow>
     \<exists>ok m pg'. copy_to_region env r dst bs pg = Done (ok, pg') \<and> as_inv R pg' \<and> sole_writer (U R (tabs pg')) \<and> m \<le> length bs \<and> (ok \<longleftrightarrow> m = length bs) \<and>
       copied R pg pg' r dst (take m bs) \<and> ((\<forall>k < length bs. page_rw R pg r (va_path (dst + k))) \<longrightarrow> ok)"
proof (induction "length bs" arbitrary: bs dst pg rule: less_induct)
  case less
  show ?case
  proof (cases "bs = []")
    case True
    then show ?thesis using less.prems copied_refl [of R pg r dst]
      by (intro exI [of _ True] exI [of _ 0] exI [of _ pg]) (simp add: copy_to_region.simps [of env r dst "[]"])
  next
    case False
    let ?c = "page_chunk dst (length bs)"
    have n: "0 < length bs" using False by simp
    have ok0: "page_ok R pg r (va_path dst)" using less.prems(4) n by (metis add.right_neutral)
    obtain fr pg1 where w: "writable_frame env r (align_down 4096 dst) pg = Done (fr, pg1)" "as_inv R pg1" "sole_writer (U R (tabs pg1))" "view R pg1 = view R pg"
      "\<And>q. full_path q \<Longrightarrow> page_ok R pg r q \<Longrightarrow> page_ok R pg1 r q"
      "\<And>f. fr = Some f \<Longrightarrow> \<exists>pg2. write_phys (f + dst mod 4096) (take ?c bs) pg1 = Done pg2 \<and> as_inv R pg2 \<and> tabs pg2 = tabs pg1 \<and> copied R pg pg2 r dst (take ?c bs)"
      using chunk_step [OF env less.prems(1,2) r n less.prems(3) ok0] by blast
    show ?thesis
    proof (cases fr)
      case None
      have "\<not> (\<forall>k < length bs. page_rw R pg r (va_path (dst + k)))"
        using writable_frame_rw [OF less.prems(1), of r dst env] w(1) None n by (auto intro!: exI [of _ 0])
      moreover have "copy_to_region env r dst bs pg = Done (False, pg1)" using w(1) None False by (simp add: copy_to_region.simps [of env r dst bs])
      ultimately show ?thesis using w(2,3) copied_view [OF w(4), of r dst] n by (intro exI [of _ False] exI [of _ 0] exI [of _ pg1]) simp
    next
      case (Some f)
      obtain pg2 where p: "write_phys (f + dst mod 4096) (take ?c bs) pg1 = Done pg2" "as_inv R pg2" "tabs pg2 = tabs pg1" "copied R pg pg2 r dst (take ?c bs)"
        using w(6) [OF Some] by blast
      have c: "0 < ?c" "?c \<le> length bs" using page_chunk_pos [OF n] page_chunk_le by auto
      have lt: "length (drop ?c bs) < length bs" using c n by simp
      have sh: "dst + ?c + k = dst + (?c + k)" "k < length (drop ?c bs) \<Longrightarrow> ?c + k < length bs" for k by auto
      have po: "\<forall>k < length (drop ?c bs). page_ok R pg2 r (va_path (dst + ?c + k))"
      proof (intro allI impI)
        fix k assume "k < length (drop ?c bs)"
        then have "page_ok R pg1 r (va_path (dst + (?c + k)))" using less.prems(4) sh(2) w(5) [OF full_va_path] by blast
        then show "page_ok R pg2 r (va_path (dst + ?c + k))" using p(3) unfolding page_ok_def sh(1) by simp
      qed
      have bd: "dst + ?c + length (drop ?c bs) \<le> 2 ^ 47" using less.prems(3) c by simp
      have sw: "sole_writer (U R (tabs pg2))" using w(3) p(3) by simp
      obtain ok m pg' where IH: "copy_to_region env r (dst + ?c) (drop ?c bs) pg2 = Done (ok, pg')" "as_inv R pg'" "sole_writer (U R (tabs pg'))"
        "m \<le> length (drop ?c bs)" "ok \<longleftrightarrow> m = length (drop ?c bs)" "copied R pg2 pg' r (dst + ?c) (take m (drop ?c bs))"
        "(\<forall>k < length (drop ?c bs). page_rw R pg2 r (va_path (dst + ?c + k))) \<longrightarrow> ok"
        using less.hyps [OF lt p(2) sw bd po] by blast
      have "add64 dst ?c = dst + ?c" using less.prems(3) c(2) by (intro add64_small) simp
      then have run: "copy_to_region env r dst bs pg = Done (ok, pg')"
        using w(1) Some p(1) IH(1) False by (simp add: copy_to_region.simps [of env r dst bs] Let_def)
      have "take (?c + m) bs = take ?c bs @ take m (drop ?c bs)" by (rule take_add)
      then have cp: "copied R pg pg' r dst (take (?c + m) bs)" using copied_trans [OF p(4)] IH(6) c(2) by simp
      have "ok" if rw: "\<forall>k < length bs. page_rw R pg r (va_path (dst + k))"
      proof -
        have "page_rw R pg r (va_path dst)" using rw n by (metis add.right_neutral)
        then have "pg1 = pg" using writable_frame_rw [OF less.prems(1), of r dst env] w(1) by auto
        then have "\<forall>k < length (drop ?c bs). page_rw R pg2 r (va_path (dst + ?c + k))"
          using rw sh(2) p(3) unfolding page_rw_def by (simp add: add.assoc)
        then show ?thesis using IH(7) by blast
      qed
      then show ?thesis using run IH(2-5) cp c(2) by (intro exI [of _ ok] exI [of _ "?c + m"] exI [of _ pg']) auto
    qed
  qed
qed


section \<open>Private pages\<close>

text \<open>
  A page of its own frame that is not read-only for the sake of copy-on-write: the copies write to it in place, whatever its protection.
\<close>

definition own_page :: "nat set \<Rightarrow> paging \<Rightarrow> nat \<Rightarrow> nat list \<Rightarrow> bool" where
  "own_page R pg r q \<longleftrightarrow> (\<exists>e. sole_user (U R (tabs pg)) (r, q) e \<and> (bit e 1 \<or> \<not> bit e 9))"

lemma writable_frame_own:
  assumes inv: "as_inv R pg" and own: "own_page R pg r (va_path va)"
  shows "\<exists>e. writable_frame env r (align_down 4096 va) pg = Done (Some (mm_pte_phys e), pg) \<and> sole_user (U R (tabs pg)) (r, va_path va) e"
proof -
  obtain e where e: "sole_user (U R (tabs pg)) (r, va_path va) e" "bit e 1 \<or> \<not> bit e 9" using own by (auto simp: own_page_def)
  then have ue: "U R (tabs pg) (r, va_path va) = Some e" by (simp add: sole_user_def)
  note D = U_SomeD [OF as_invD(3) [OF inv] ue]
  obtain t where t: "walk (tabs pg) r (take 3 (va_path va)) = Some t" using D(8) by blast
  have "\<not> (e AND PAGE_RW = 0 \<and> e AND PAGE_COW \<noteq> 0)" using flag_tests(2,6) [of e] e(2) by blast
  then show ?thesis using get_pte_walk [OF as_invD(2) [OF inv] D(1), of "align_down 4096 va"] leaf_entry [OF as_invD(2) [OF inv] D(1) full_va_path t] t D(4,5) e(1)
    by (intro exI [of _ e]) (simp add: writable_frame_def va_path_align del: de_Morgan_conj not_imp cong: if_cong)
qed

lemma copy_to_own:
  assumes "r \<in> R"
  shows "as_inv R pg \<Longrightarrow> dst + length bs \<le> 2 ^ 47 \<Longrightarrow> \<forall>k < length bs. own_page R pg r (va_path (dst + k)) \<Longrightarrow>
     \<exists>pg'. copy_to_region env r dst bs pg = Done (True, pg') \<and> as_inv R pg' \<and> tabs pg' = tabs pg \<and> frames pg' = frames pg \<and> copied R pg pg' r dst bs"
proof (induction "length bs" arbitrary: bs dst pg rule: less_induct)
  case less
  show ?case
  proof (cases "bs = []")
    case True
    then show ?thesis using less.prems copied_refl [of R pg r dst] by (simp add: copy_to_region.simps [of env r dst "[]"])
  next
    case False
    let ?c = "page_chunk dst (length bs)"
    have n: "0 < length bs" using False by simp
    have "own_page R pg r (va_path dst)" using less.prems(3) n by (metis add.right_neutral)
    then obtain e where w: "writable_frame env r (align_down 4096 dst) pg = Done (Some (mm_pte_phys e), pg)" "sole_user (U R (tabs pg)) (r, va_path dst) e"
      using writable_frame_own [OF less.prems(1)] by blast
    obtain pg2 where p: "write_phys (mm_pte_phys e + dst mod 4096) (take ?c bs) pg = Done pg2" "as_inv R pg2" "tabs pg2 = tabs pg" "frames pg2 = frames pg"
      "copied R pg pg2 r dst (take ?c bs)"
      using chunk_copied [OF less.prems(1) w(2) refl n less.prems(2)] by blast
    have c: "0 < ?c" "?c \<le> length bs" using page_chunk_pos [OF n] page_chunk_le by auto
    have lt: "length (drop ?c bs) < length bs" using c n by simp
    have po: "\<forall>k < length (drop ?c bs). own_page R pg2 r (va_path (dst + ?c + k))"
      using less.prems(3) p(3) unfolding own_page_def by (simp add: add.assoc)
    have bd: "dst + ?c + length (drop ?c bs) \<le> 2 ^ 47" using less.prems(2) c by simp
    obtain pg' where IH: "copy_to_region env r (dst + ?c) (drop ?c bs) pg2 = Done (True, pg')" "as_inv R pg'" "tabs pg' = tabs pg2" "frames pg' = frames pg2"
      "copied R pg2 pg' r (dst + ?c) (drop ?c bs)"
      using less.hyps [OF lt p(2) bd po] by blast
    have "add64 dst ?c = dst + ?c" using less.prems(2) c(2) by (intro add64_small) simp
    then have run: "copy_to_region env r dst bs pg = Done (True, pg')"
      using w(1) p(1) IH(1) False by (simp add: copy_to_region.simps [of env r dst bs] Let_def)
    have "copied R pg pg' r dst (take ?c bs @ drop ?c bs)" by (rule copied_trans [OF p(5)]) (use IH(5) c(2) in simp)
    then show ?thesis using run IH(2-4) p(3,4) by auto
  qed
qed

section \<open>Reading back\<close>

lemma peek_SomeD:
  assumes "as_inv R pg" "peek R pg r va = Some b"
  shows "\<exists>e t. U R (tabs pg) (r, va_path va) = Some e \<and> walk (tabs pg) r (take 3 (va_path va)) = Some t \<and> b = ram pg (mm_pte_phys e + va mod 4096)"
proof -
  obtain e where e: "U R (tabs pg) (r, va_path va) = Some e" using assms(2) by (cases "U R (tabs pg) (r, va_path va)") (auto simp: peek_def view_def)
  then have "b = ram pg (mm_pte_phys e + va mod 4096)" using assms(2) by (simp add: peek_def view_def)
  then show ?thesis using U_SomeD(8) [OF as_invD(3) [OF assms(1)] e] e by blast
qed

lemma copy_from_region_spec:
  assumes inv: "as_inv R pg" and r: "r \<in> R"
  shows "src + n \<le> 2 ^ 47 \<Longrightarrow> \<forall>k < n. peek R pg r (src + k) = Some (f k) \<Longrightarrow> copy_from_region r src n pg = Done (Some (map f [0..<n]))"
proof (induction n arbitrary: src f rule: less_induct)
  case (less n)
  show ?case
  proof (cases "n = 0")
    case False
    then have n: "0 < n" by simp
    let ?c = "page_chunk src n"
    have c: "0 < ?c" "?c \<le> n" using page_chunk_pos [OF n] page_chunk_le by auto
    have "peek R pg r src = Some (f 0)" using less.prems(2) n by (metis add.right_neutral)
    then obtain e t where e: "U R (tabs pg) (r, va_path src) = Some e" "walk (tabs pg) r (take 3 (va_path src)) = Some t" using peek_SomeD [OF inv] by blast
    note D = U_SomeD [OF as_invD(3) [OF inv] e(1)]
    have b: "ram pg (mm_pte_phys e + src mod 4096 + k) = f k" if "k < ?c" for k
    proof -
      have s: "(src + k) div 4096 = src div 4096" "(src + k) mod 4096 = src mod 4096 + k" using same_page [of src "src + k" n] that by simp_all
      have "peek R pg r (src + k) = Some (f k)" using less.prems(2) that c(2) by simp
      then show ?thesis using e(1) va_path_page [OF s(1)] s(2) by (auto simp: peek_def view_def page_bytes_def add.assoc simp del: mod_add_left_eq mod_add_right_eq)
    qed
    have tn: "tabs pg (mm_pte_phys e) = None" using as_invD(5) [OF inv, of "mm_pte_phys e"] as_invD(6) [OF inv e(1)] by blast
    have rd: "read_phys (mm_pte_phys e + src mod 4096) ?c pg = Done (map f [0..<?c])"
      using tn b align_frame [OF phys_aligned, of "src mod 4096" e] by (simp add: read_phys_def table_page_at_def)
    have step: "copy_from_region r (src + ?c) (n - ?c) pg = Done (Some (map (\<lambda>k. f (?c + k)) [0..<n - ?c]))"
      by (rule less.IH) (use c n less.prems in \<open>auto simp: add.assoc\<close>)
    have "add64 src ?c = src + ?c" using less.prems(1) c(2) by (intro add64_small) simp
    then have "copy_from_region r src n pg = Done (Some (map f [0..<?c] @ map (\<lambda>k. f (?c + k)) [0..<n - ?c]))"
      using n get_pte_walk [OF as_invD(2) [OF inv] r, of "align_down 4096 src"] e(2) leaf_entry [OF as_invD(2) [OF inv] r full_va_path e(2)] D(4,5) rd step
      by (simp add: copy_from_region.simps [of r src n] va_path_align Let_def)
    moreover have "map f [0..<n] = map f [0..<?c] @ map (\<lambda>k. f (?c + k)) [0..<n - ?c]"
      using c(2) by (intro nth_equalityI) (auto simp: nth_append)
    ultimately show ?thesis by simp
  qed (simp add: copy_from_region.simps [of r src 0])
qed


section \<open>Properties\<close>

lemma user_va_ok_iff: "addr < 2 ^ 64 \<Longrightarrow> n < 2 ^ 64 \<Longrightarrow> mm_user_va_ok addr n \<longleftrightarrow> user_lo \<le> addr \<and> addr + n \<le> user_hi"
proof -
  assume a: "addr < 2 ^ 64" "n < 2 ^ 64"
  show ?thesis
  proof (cases "addr + n < 2 ^ 64")
    case True
    then have "add64 addr n = addr + n" by (intro add64_small) simp
    then show ?thesis by (auto simp: mm_user_va_ok_def user_lo_def user_hi_def Let_def)
  next
    case False
    then have "add64 addr n = addr + n - 2 ^ 64" using a by (simp add: add64_def mod_if)
    then have "add64 addr n < addr" using a False by linarith
    then have "\<not> mm_user_va_ok addr n" by (simp add: mm_user_va_ok_def)
    moreover have "user_hi < 2 ^ 64" by (simp add: user_hi_def)
    ultimately show ?thesis using False by linarith
  qed
qed

lemma user_address_ok: "addr < 2 ^ 64 \<Longrightarrow> n < 2 ^ 64 \<Longrightarrow> is_user_address cur addr n pg = Done (user_lo \<le> addr \<and> addr + n \<le> user_hi)"
  using user_va_ok_iff [of addr n]
  by (auto simp: is_user_address_def is_user_address_checked_def Let_def mm_user_va_ok_def user_lo_def)

lemma root_nonzero: "pt_inv R H \<Longrightarrow> r \<in> R \<Longrightarrow> r \<noteq> 0"
  using pt_invD(1) [of R H] pt_invD(2) [of R H r "[]"] by (auto simp: valid_path_def)

text \<open>
  The range check of the copy functions. Outside \<^verbatim>\<open>[user_lo, user_hi]\<close>, with the end of the range
  computed without wrap-around, every copy to, from or clearing of user memory by a process in user
  mode returns \<^verbatim>\<open>-EFAULT\<close> and changes nothing.
\<close>

theorem copy_user_range:
  assumes "dst < 2 ^ 64" "length bs < 2 ^ 64" "\<not> kernel_mode c" "bs \<noteq> []" "\<not> (user_lo \<le> dst \<and> dst + length bs \<le> user_hi)"
  shows "copy_to_user rm env (Some c) dst bs pg = Done (False, pg) \<and> copy_from_user rm (Some c) dst (length bs) pg = Done None \<and>
     clear_user rm env (Some c) dst (length bs) pg = Done (False, pg)"
  using assms user_address_ok [OF assms(1,2), of "Some c" pg] by (auto simp: copy_to_user_def copy_from_user_def clear_user_def)

lemma copy_to_user_spec:
  assumes "env_ok env" "as_inv R pg" "sole_writer (U R (tabs pg))" "pgd c \<in> R" "\<not> kernel_mode c" "user_lo \<le> dst" "dst + length bs \<le> user_hi"
    and "\<forall>k < length bs. page_ok R pg (pgd c) (va_path (dst + k))"
  shows "\<exists>ok m pg'. copy_to_user rm env (Some c) dst bs pg = Done (ok, pg') \<and> as_inv R pg' \<and> sole_writer (U R (tabs pg')) \<and>
     m \<le> length bs \<and> (ok \<longleftrightarrow> m = length bs) \<and> copied R pg pg' (pgd c) dst (take m bs) \<and> ((\<forall>k < length bs. page_rw R pg (pgd c) (va_path (dst + k))) \<longrightarrow> ok)"
proof (cases "bs = []")
  case True
  then show ?thesis using assms(2,3) copied_refl by (intro exI [of _ True] exI [of _ 0] exI [of _ pg]) (auto simp: copy_to_user_def)
next
  case False
  have b: "dst < 2 ^ 64" "length bs < 2 ^ 64" "dst + length bs \<le> 2 ^ 47" using assms(7) by (simp_all add: user_hi_def)
  have "copy_to_user rm env (Some c) dst bs pg = copy_to_region env (pgd c) dst bs pg"
    using False assms(5-7) user_address_ok [OF b(1,2)] root_nonzero [OF as_invD(2) [OF assms(2)] assms(4)]
    by (simp add: copy_to_user_def copy_to_user_region_in_directory_def)
  then show ?thesis using copy_to_region_spec [OF assms(1,4,2,3) b(3) assms(8)] by simp
qed

text \<open>
  C4: Writing to user memory. A process in user mode writes \<open>bs\<close> to pages that are not mapped, writable
  or copy-on-write. The bytes of a prefix arrive (all of them exactly when the call succeeds, which it
  does when every page is writable); every other byte of the process and every byte of every other
  process is what it was, also where the pages were shared copy-on-write, and no writable frame becomes
  shared.
\<close>

theorem copy_to_user_correct:
  assumes "env_ok env" "as_inv R pg" "sole_writer (U R (tabs pg))" "pgd c \<in> R" "\<not> kernel_mode c" "user_lo \<le> dst" "dst + length bs \<le> user_hi"
    and "\<forall>k < length bs. page_ok R pg (pgd c) (va_path (dst + k))"
  shows "\<exists>ok m pg'. copy_to_user rm env (Some c) dst bs pg = Done (ok, pg') \<and> as_inv R pg' \<and> sole_writer (U R (tabs pg')) \<and>
     m \<le> length bs \<and> (ok \<longleftrightarrow> m = length bs) \<and> ((\<forall>k < length bs. page_rw R pg (pgd c) (va_path (dst + k))) \<longrightarrow> ok) \<and>
     (\<forall>s. \<forall>va < 2 ^ 47. peek R pg' s va = (if s = pgd c \<and> dst \<le> va \<and> va < dst + m then Some (bs ! (va - dst)) else peek R pg s va))"
proof -
  obtain ok m pg' where m: "copy_to_user rm env (Some c) dst bs pg = Done (ok, pg')" "as_inv R pg'" "sole_writer (U R (tabs pg'))" "m \<le> length bs"
    "ok \<longleftrightarrow> m = length bs" "copied R pg pg' (pgd c) dst (take m bs)" "(\<forall>k < length bs. page_rw R pg (pgd c) (va_path (dst + k))) \<longrightarrow> ok"
    using copy_to_user_spec [OF assms] by blast
  moreover have "peek R pg' s va = (if s = pgd c \<and> dst \<le> va \<and> va < dst + m then Some (bs ! (va - dst)) else peek R pg s va)" if "va < 2 ^ 47" for s va
  proof -
    have "va - dst < m \<Longrightarrow> take m bs ! (va - dst) = bs ! (va - dst)" by simp
    moreover have "peek R pg' s va = (if s = pgd c \<and> dst \<le> va \<and> va < dst + m then Some (take m bs ! (va - dst)) else peek R pg s va)"
      using m(4,6) that unfolding copied_def by (simp add: min_absorb2)
    ultimately show ?thesis by auto
  qed
  ultimately show ?thesis by (intro exI [of _ ok] exI [of _ m] exI [of _ pg']) simp
qed

lemma cstring_loop_spec:
  "\<forall>k \<le> n. get (i + k) = Done (Some (f k)) \<Longrightarrow> \<forall>k < n. f k \<noteq> 0 \<Longrightarrow> f n = 0 \<Longrightarrow> n \<le> room \<Longrightarrow> cstring_loop get i room = Done (Some (map f [0..<n] @ [0]))"
proof (induction n arbitrary: i f room)
  case 0
  then show ?case by (cases room) auto
next
  case (Suc n)
  then obtain r where r: "room = Suc r" by (cases room) auto
  have g: "get i = Done (Some (f 0))" "f 0 \<noteq> 0" using Suc.prems(1,2) by (metis add.right_neutral le0, simp)
  have "cstring_loop get (i + 1) r = Done (Some (map (\<lambda>k. f (Suc k)) [0..<n] @ [0]))"
    by (rule Suc.IH) (use Suc.prems r in \<open>auto dest: spec [of _ "Suc _"]\<close>)
  then show ?case using g by (simp add: r upt_conv_Cons map_Suc_upt [symmetric] o_def del: upt_Suc)
qed

text \<open>
  What the kernel reads back. After a successful \<^verbatim>\<open>copy_to_user\<close> the same range reads as the bytes
  written, and when they are a string with its NUL that fits the buffer, \<^verbatim>\<open>copy_from_user_cstring\<close>
  returns exactly the string.
\<close>

theorem copy_user_roundtrip:
  assumes "env_ok env" "as_inv R pg" "sole_writer (U R (tabs pg))" "pgd c \<in> R" "\<not> kernel_mode c" "user_lo \<le> dst" "dst + length bs \<le> user_hi"
    and "\<forall>k < length bs. page_ok R pg (pgd c) (va_path (dst + k))" "copy_to_user rm env (Some c) dst bs pg = Done (True, pg')"
  shows "copy_from_user rm (Some c) dst (length bs) pg' = Done (Some bs) \<and>
     (\<forall>s. bs = s @ [0] \<longrightarrow> 0 \<notin> set s \<longrightarrow> length s < dst_sz \<longrightarrow> copy_from_user_cstring rm (Some c) False dst_sz dst pg' = Done (Some bs))"
proof -
  have b: "dst < 2 ^ 64" "length bs < 2 ^ 64" "dst + length bs \<le> 2 ^ 47" "dst \<noteq> 0" "1 < (2 :: nat) ^ 64" using assms(6,7) by (simp_all add: user_hi_def user_lo_def)
  have c: "as_inv R pg'" "copied R pg pg' (pgd c) dst bs" using copy_to_user_spec [OF assms(1-8), of rm] assms(9) by auto
  have r0: "pgd c \<noteq> 0" by (rule root_nonzero [OF as_invD(2) [OF c(1)] assms(4)])
  have pk: "peek R pg' (pgd c) (dst + k) = Some (bs ! k)" if "k < length bs" for k
    using c(2) that b(3) unfolding copied_def by simp
  have "copy_from_region (pgd c) dst (length bs) pg' = Done (Some (map ((!) bs) [0..<length bs]))"
    by (rule copy_from_region_spec [OF c(1) assms(4) b(3)]) (use pk in simp)
  then have "copy_from_user rm (Some c) dst (length bs) pg' = Done (Some bs)"
    using assms(5-7) r0 user_address_ok [OF b(1,2)] by (simp add: copy_from_user_def copy_from_user_region_in_directory_def map_nth)
  moreover have "copy_from_user_cstring rm (Some c) False dst_sz dst pg' = Done (Some bs)" if s: "bs = s @ [0]" "0 \<notin> set s" "length s < dst_sz" for s
  proof -
    let ?get = "\<lambda>i. kbind (copy_from_user_region_in_directory (pgd c) (add64 dst i) 1 pg') (\<lambda>bs. Done (map_option (\<lambda>b. b ! 0) bs))"
    have g: "?get (0 + k) = Done (Some (bs ! k))" if "k \<le> length s" for k
    proof -
      have k: "k < length bs" "dst + k + 1 \<le> 2 ^ 47" "add64 dst k = dst + k" using that s(1) b(3) by auto
      have "copy_from_region (pgd c) (dst + k) 1 pg' = Done (Some (map (\<lambda>_. bs ! k) [0..<1]))"
        by (rule copy_from_region_spec [OF c(1) assms(4) k(2)]) (use pk [OF k(1)] in simp)
      then show ?thesis using k(3) r0 by (simp add: copy_from_user_region_in_directory_def)
    qed
    have "cstring_loop ?get 0 (dst_sz - 1) = Done (Some (map ((!) bs) [0..<length s] @ [0]))"
      by (rule cstring_loop_spec) (use g s in \<open>auto simp: nth_append in_set_conv_nth\<close>)
    moreover have "map ((!) bs) [0..<length s] @ [0] = bs" unfolding s(1) by (auto simp: nth_append intro!: nth_equalityI)
    moreover have "dst + 1 \<le> user_hi" using assms(7) s(1) by simp
    ultimately show ?thesis using r0 b s(3) assms(5,6) user_address_ok [OF b(1,5), of "Some c" pg'] by (simp add: copy_from_user_cstring_def)
  qed
  ultimately show ?thesis by blast
qed

lemma copy_unprotected:
  assumes "pt_inv R (tabs pg)" "r \<in> R" "dst mod 4096 + length bs \<le> 4096" "bs \<noteq> []"
    and "leaf (tabs pg) r (va_path dst) = e" "mm_pte_present e" "bit e 1 \<or> \<not> bit e 9" "tabs pg (mm_pte_phys e) = None"
  shows "copy_to_region env r dst bs pg =
     Done (True, pg\<lparr>ram := (\<lambda>x. if mm_pte_phys e + dst mod 4096 \<le> x \<and> x < mm_pte_phys e + dst mod 4096 + length bs then bs ! (x - (mm_pte_phys e + dst mod 4096)) else ram pg x)\<rparr>)"
proof -
  obtain t where t: "walk (tabs pg) r (take 3 (va_path dst)) = Some t"
    using assms(5,6) by (cases "walk (tabs pg) r (take 3 (va_path dst))") (auto simp: leaf_def pte_bits)
  have "paging_get_pte r (align_down 4096 dst) pg = Done (Some (t, va_path dst ! 3))"
    using get_pte_walk [OF assms(1,2), of "align_down 4096 dst"] t by (simp add: va_path_align)
  moreover have "entry_at t (va_path dst ! 3) pg = Done e" using leaf_entry [OF assms(1,2) full_va_path t] assms(5) by simp
  moreover have "\<not> (e AND PAGE_RW = 0 \<and> e AND PAGE_COW \<noteq> 0)" using flag_tests(2,6) [of e] assms(7) by blast
  ultimately have w: "writable_frame env r (align_down 4096 dst) pg = Done (Some (mm_pte_phys e), pg)"
    using assms(6) by (simp add: writable_frame_def del: de_Morgan_conj not_imp cong: if_cong)
  have ch: "page_chunk dst (length bs) = length bs" using assms(3) by (auto simp: page_chunk_def Let_def)
  have lt: "dst mod 4096 < 4096" by simp
  show ?thesis using assms(4) w ch write_phys_ok [OF assms(8) phys_aligned lt, of bs]
    by (simp add: copy_to_region.simps [of env _ dst bs] copy_to_region.simps [of env _ _ "[]"])
qed

lemma copy_unmapped:
  assumes "pt_inv R (tabs pg)" "r \<in> R" "bs \<noteq> []" "\<not> mm_pte_present (leaf (tabs pg) r (va_path dst))"
  shows "copy_to_region env r dst bs pg = Done (False, pg)"
proof -
  have "writable_frame env r (align_down 4096 dst) pg = Done (None, pg)"
  proof (cases "walk (tabs pg) r (take 3 (va_path dst))")
    case None
    then show ?thesis using get_pte_walk [OF assms(1,2), of "align_down 4096 dst"] by (simp add: writable_frame_def va_path_align)
  next
    case (Some t)
    then show ?thesis using get_pte_walk [OF assms(1,2), of "align_down 4096 dst"] leaf_entry [OF assms(1,2) full_va_path Some] assms(4)
      by (simp add: writable_frame_def va_path_align)
  qed
  then show ?thesis using assms(3) by (simp add: copy_to_region.simps [of env r dst bs])
qed

text \<open>
  C32: The write looks at neither the user bit nor, unless the page is copy-on-write, the write bit of
  the descriptor: any present small page in the range is written, be it a supervisor page or a page
  the process itself may only read.
\<close>

theorem copy_to_user_unprotected:
  assumes "pt_inv R (tabs pg)" "pgd c \<in> R" "\<not> kernel_mode c" "user_lo \<le> dst" "dst + length bs \<le> user_hi" "dst mod 4096 + length bs \<le> 4096"
    and "leaf (tabs pg) (pgd c) (va_path dst) = e" "mm_pte_present e" "bit e 1 \<or> \<not> bit e 9" "tabs pg (mm_pte_phys e) = None"
  shows "\<exists>pg'. copy_to_user rm env (Some c) dst bs pg = Done (True, pg') \<and> (\<forall>k < length bs. ram pg' (mm_pte_phys e + dst mod 4096 + k) = bs ! k)"
proof (cases "bs = []")
  case False
  have b: "dst < 2 ^ 64" "length bs < 2 ^ 64" using assms(5) by (simp_all add: user_hi_def)
  let ?pg = "pg\<lparr>ram := (\<lambda>x. if mm_pte_phys e + dst mod 4096 \<le> x \<and> x < mm_pte_phys e + dst mod 4096 + length bs then bs ! (x - (mm_pte_phys e + dst mod 4096)) else ram pg x)\<rparr>"
  have "copy_to_region env (pgd c) dst bs pg = Done (True, ?pg)" by (rule copy_unprotected [OF assms(1,2,6) False assms(7-10)])
  then have "copy_to_user rm env (Some c) dst bs pg = Done (True, ?pg)"
    using False assms(3-5) user_address_ok [OF b] root_nonzero [OF assms(1,2)] by (simp add: copy_to_user_def copy_to_user_region_in_directory_def)
  then show ?thesis by auto
qed (simp add: copy_to_user_def)

section \<open>Witnesses\<close>

definition raw_none :: raw_mem where
  "raw_none = \<lparr>raw_read = (\<lambda>_ _ _. Stuck), raw_write = (\<lambda>_ _ _. Stuck)\<rparr>"

definition proc_demo :: proc_ctx where
  "proc_demo = \<lparr>kernel_mode = False, pgd = 0x100000\<rparr>"

theorem copy_user_range_witness:
  "copy_to_user raw_none env_demo (Some proc_demo) 0xFFFFFFFFFFFFFFFF [1] paging_demo = Done (False, paging_demo) \<and>
   copy_from_user raw_none (Some proc_demo) 0xFFFFFFFFFFFFFFFF 1 paging_demo = Done None"
  using copy_user_range [of "0xFFFFFFFFFFFFFFFF" "[1]" proc_demo raw_none env_demo paging_demo] by (simp add: proc_demo_def user_hi_def)

lemma demo_rw:
  "\<exists>pg. as_inv {0x100000, 0x200000} pg \<and> sole_writer (U {0x100000, 0x200000} (tabs pg)) \<and>
     page_rw {0x100000, 0x200000} pg 0x100000 (va_path 0x400010) \<and> page_rw {0x100000, 0x200000} pg 0x100000 (va_path 0x400011)"
proof -
  obtain pg e where a: "added {0x100000, 0x200000} rw_leaf paging_demo pg 0x100000 [va_path 0x400000 \<mapsto> e]" using demo_page by blast
  note A = addedD [OF a]
  have p: "va_path 0x400010 = va_path 0x400000" "va_path 0x400011 = va_path 0x400000" by (rule va_path_page; simp)+
  have "e = rw_leaf (mm_pte_phys e)" using A(4) [of "va_path 0x400000" e] by simp
  then have "bit e 1" using bit_leaf_pte [of "mm_pte_phys e"] frame_addr_phys [of e] unfolding rw_leaf_def
    by (metis (no_types, lifting) bit_and_iff bit_flags(2) bit_leaf_pte bit_low bit_or_iff one_less_numeral_iff semiring_norm(76))
  then have "page_rw {0x100000, 0x200000} pg 0x100000 (va_path 0x400000)" using A(2) [of "(0x100000, va_path 0x400000)"] by (auto simp: page_rw_def)
  then show ?thesis using p A(1) added_sole_writer [OF a demo_as_inv(2)] by auto
qed

theorem copy_to_user_correct_witness:
  "\<exists>pg pg'. copy_to_user raw_none env_demo (Some proc_demo) 0x400010 [7, 0] pg = Done (True, pg') \<and>
     peek {0x100000, 0x200000} pg' 0x100000 0x400010 = Some 7 \<and> peek {0x100000, 0x200000} pg' 0x200000 0x400010 = peek {0x100000, 0x200000} pg 0x200000 0x400010"
proof -
  obtain pg where d: "as_inv {0x100000, 0x200000} pg" "sole_writer (U {0x100000, 0x200000} (tabs pg))"
    "page_rw {0x100000, 0x200000} pg 0x100000 (va_path 0x400010)" "page_rw {0x100000, 0x200000} pg 0x100000 (va_path 0x400011)" using demo_rw by blast
  have rw: "\<forall>k < length [7, 0 :: u8]. page_rw {0x100000, 0x200000} pg (pgd proc_demo) (va_path (0x400010 + k))" using d(3,4) by (auto simp: proc_demo_def less_Suc_eq)
  have h: "pgd proc_demo \<in> {0x100000, 0x200000}" "\<not> kernel_mode proc_demo" "user_lo \<le> 0x400010" "0x400010 + length [7, 0 :: u8] \<le> user_hi"
    "\<forall>k < length [7, 0 :: u8]. page_ok {0x100000, 0x200000} pg (pgd proc_demo) (va_path (0x400010 + k))"
    using rw page_rw_ok by (simp_all add: proc_demo_def user_lo_def user_hi_def)
  obtain ok m pg' where m: "copy_to_user raw_none env_demo (Some proc_demo) 0x400010 [7, 0] pg = Done (ok, pg')" "ok" "m = length [7, 0 :: u8]"
     "\<forall>s. \<forall>va < 2 ^ 47. peek {0x100000, 0x200000} pg' s va = (if s = pgd proc_demo \<and> 0x400010 \<le> va \<and> va < 0x400010 + m then Some ([7, 0] ! (va - 0x400010)) else peek {0x100000, 0x200000} pg s va)"
    using copy_to_user_correct [OF env_demo_ok d(1,2) h, of raw_none] rw by blast
  have "peek {0x100000, 0x200000} pg' 0x100000 0x400010 = Some 7" "peek {0x100000, 0x200000} pg' 0x200000 0x400010 = peek {0x100000, 0x200000} pg 0x200000 0x400010"
    using m(3,4) by (simp_all add: proc_demo_def)
  then show ?thesis using m(1,2) by auto
qed

theorem copy_user_roundtrip_witness:
  "\<exists>pg pg'. copy_to_user raw_none env_demo (Some proc_demo) 0x400010 [7, 0] pg = Done (True, pg') \<and>
     copy_from_user raw_none (Some proc_demo) 0x400010 2 pg' = Done (Some [7, 0]) \<and>
     copy_from_user_cstring raw_none (Some proc_demo) False 64 0x400010 pg' = Done (Some [7, 0])"
proof -
  obtain pg where d: "as_inv {0x100000, 0x200000} pg" "sole_writer (U {0x100000, 0x200000} (tabs pg))"
    "page_rw {0x100000, 0x200000} pg 0x100000 (va_path 0x400010)" "page_rw {0x100000, 0x200000} pg 0x100000 (va_path 0x400011)" using demo_rw by blast
  have rw: "\<forall>k < length [7, 0 :: u8]. page_rw {0x100000, 0x200000} pg (pgd proc_demo) (va_path (0x400010 + k))" using d(3,4) by (auto simp: proc_demo_def less_Suc_eq)
  have h: "pgd proc_demo \<in> {0x100000, 0x200000}" "\<not> kernel_mode proc_demo" "user_lo \<le> 0x400010" "0x400010 + length [7, 0 :: u8] \<le> user_hi"
    "\<forall>k < length [7, 0 :: u8]. page_ok {0x100000, 0x200000} pg (pgd proc_demo) (va_path (0x400010 + k))"
    using rw page_rw_ok by (simp_all add: proc_demo_def user_lo_def user_hi_def)
  obtain pg' where m: "copy_to_user raw_none env_demo (Some proc_demo) 0x400010 [7, 0] pg = Done (True, pg')"
    using copy_to_user_spec [OF env_demo_ok d(1,2) h, of raw_none] rw by auto
  have "copy_from_user raw_none (Some proc_demo) 0x400010 (length [7, 0 :: u8]) pg' = Done (Some [7, 0])"
    "copy_from_user_cstring raw_none (Some proc_demo) False 64 0x400010 pg' = Done (Some [7, 0])"
    using copy_user_roundtrip [OF env_demo_ok d(1,2) h m, of 64] by (blast, auto dest!: conjunct2 spec [of _ "[7]"])
  then show ?thesis using m by (auto simp: numeral_2_eq_2)
qed

theorem copy_to_user_unprotected_witness:
  "\<exists>pg pg' e. leaf (tabs pg) 0x100000 (va_path 0x400000) = e \<and> \<not> bit e 1 \<and> \<not> bit e 2 \<and>
     copy_to_user raw_none env_demo (Some proc_demo) 0x400000 [7] pg = Done (True, pg') \<and> ram pg' (mm_pte_phys e) = 7"
proof -
  obtain pg where m: "map_page_in_directory env_demo 0x100000 0x400000 4096 0 paging_demo = Done (True, pg)"
    using demo_map_ok [of paging_demo 4096 0] by (auto simp: paging_demo_def)
  let ?e = "mm_make_leaf_pte 4096 (0 AND 0xFFF) ((0 :: u64) AND PAGE_EXEC \<noteq> 0)"
  have fa: "frame_addr 4096" by (simp add: frame_addr_def)
  have s: "pt_inv {0x100000, 0x200000} (tabs pg)" "xl (tabs pg) 0x100000 (va_path 0x400000) = Some (4096, ?e)"
    "\<forall>u. tabs pg u \<noteq> None \<longrightarrow> tabs paging_demo u \<noteq> None \<or> \<not> in_pool (frames paging_demo) u"
    using map_page_spec [OF env_demo_ok paging_demo_inv _ fa, of "0x100000" "0x400000" 0] m by (auto simp: map_effect_def)
  have b: "\<not> bit ?e 1" "\<not> bit ?e 2" "\<not> bit ?e 9" using fa bit_frame_addr_low [OF fa] by (simp_all add: bit_leaf_pte)
  have pe: "mm_pte_phys ?e = 4096" using fa by simp
  have "\<not> mm_pte_large ?e" using leaf_pte_small [OF fa, of 0] by simp
  note L = xl_leaf [OF full_va_path s(2) this]
  have tn: "tabs pg (mm_pte_phys ?e) = None" unfolding pe using s(3) by (auto simp: paging_demo_def demo_pool)
  have h: "pgd proc_demo \<in> {0x100000, 0x200000}" "\<not> kernel_mode proc_demo" "user_lo \<le> 0x400000" "0x400000 + length [7 :: u8] \<le> user_hi"
    "0x400000 mod 4096 + length [7 :: u8] \<le> 4096" "leaf (tabs pg) (pgd proc_demo) (va_path 0x400000) = ?e" "bit ?e 1 \<or> \<not> bit ?e 9"
    using L(1) b(3) by (simp_all add: proc_demo_def user_lo_def user_hi_def)
  obtain pg' where "copy_to_user raw_none env_demo (Some proc_demo) 0x400000 [7] pg = Done (True, pg')" "ram pg' (mm_pte_phys ?e) = 7"
    using copy_to_user_unprotected [OF s(1) h(1-6) L(4) h(7) tn, of raw_none env_demo] by auto
  then show ?thesis using L(1) b by blast
qed
end
