(* ===== verification/Fork_Memory.thy ===== *)
theory Fork_Memory
  imports User_Copy
begin

text \<open>
  The address space of a forked process (\<^verbatim>\<open>copy_process_memory\<close> of \<^verbatim>\<open>mm/paging.c\<close>): the first pass maps
  every user page of the parent into the child, read-only and copy-on-write where it could be written,
  the second takes the write permission from the parent. Both passes are four nested loops over the
  indices, which the rules below turn into statements about sets of pages.
\<close>

section \<open>Loops over pages\<close>

text \<open>\<open>J D s\<close>: the pages in \<open>D\<close> are done; \<open>E s\<close>: an iteration has failed.\<close>

lemma kfor_rule:
  assumes "distinct xs" "J D s" "D \<inter> (\<Union>i \<in> set xs. S i) = {}"
    and "\<And>i j. i \<in> set xs \<Longrightarrow> j \<in> set xs \<Longrightarrow> i \<noteq> j \<Longrightarrow> S i \<inter> S j = {}"
    and "\<And>i D s. i \<in> set xs \<Longrightarrow> J D s \<Longrightarrow> D \<inter> S i = {} \<Longrightarrow> \<exists>ok s'. f i s = Done (ok, s') \<and> (if ok then J (D \<union> S i) s' else E s')"
  shows "\<exists>ok s'. kfor xs f s = Done (ok, s') \<and> (if ok then J (D \<union> (\<Union>i \<in> set xs. S i)) s' else E s')"
  using assms
proof (induction xs arbitrary: D s)
  case Nil
  then show ?case by (intro exI [of _ True]) simp
next
  case (Cons i xs)
  have "D \<inter> S i = {}" using Cons.prems(3) by auto
  with Cons.prems(2,5) obtain ok s1 where 1: "f i s = Done (ok, s1)" "if ok then J (D \<union> S i) s1 else E s1" by (meson list.set_intros(1))
  show ?case
  proof (cases ok)
    case True
    have "S j \<inter> S i = {}" if "j \<in> set xs" for j using Cons.prems(1,4) that by (metis distinct.simps(2) list.set_intros)
    then have "(D \<union> S i) \<inter> (\<Union>j \<in> set xs. S j) = {}" using Cons.prems(3) by auto
    then have "\<exists>ok s'. kfor xs f s1 = Done (ok, s') \<and> (if ok then J (D \<union> S i \<union> (\<Union>i \<in> set xs. S i)) s' else E s')"
      using Cons.prems 1(2) True by (intro Cons.IH) auto
    moreover have "D \<union> (\<Union>j \<in> set (i # xs). S j) = D \<union> S i \<union> (\<Union>j \<in> set xs. S j)" by auto
    moreover have "kfor (i # xs) f s = kfor xs f s1" using 1(1) True by simp
    ultimately show ?thesis by (simp only:)
  next
    case False
    then show ?thesis using 1 by (intro exI [of _ False]) simp
  qed
qed

definition leaves :: "nat \<Rightarrow> nat \<Rightarrow> nat \<Rightarrow> nat list set" where
  "leaves a b c = (\<lambda>d. [a, b, c, d]) ` {..<512}"

lemma all_leaves: "(\<Union>a \<in> {..<256}. \<Union>b \<in> {..<512}. \<Union>c \<in> {..<512}. leaves a b c) = {q. lower q}"
proof
  show "{q. lower q} \<subseteq> (\<Union>a \<in> {..<256}. \<Union>b \<in> {..<512}. \<Union>c \<in> {..<512}. leaves a b c)"
  proof
    fix q assume "q \<in> {q. lower q}"
    then obtain a b c d where "q = [a, b, c, d]" "a < 256" "b < 512" "c < 512" "d < 512" using path4 [of q] by (auto simp: lower_def)
    then show "q \<in> (\<Union>a \<in> {..<256}. \<Union>b \<in> {..<512}. \<Union>c \<in> {..<512}. leaves a b c)" unfolding leaves_def by blast
  qed
qed (auto simp: lower_def leaves_def full_path_def)

text \<open>
  The traversal, for an operation on the pages of one last-level table. \<open>W\<close> are the walks of the root,
  which the operation must not change.
\<close>

lemma for_leaf_tables_rule:
  assumes r: "r \<in> R" and start: "J {} pg"
    and walks: "\<And>D pg q. J D pg \<Longrightarrow> pt_inv R (tabs pg) \<and> (valid_path q \<longrightarrow> walk (tabs pg) r q = W q)"
    and skip: "\<And>D S pg. J D pg \<Longrightarrow> (\<And>q. q \<in> S \<Longrightarrow> full_path q \<and> W (take 3 q) = None) \<Longrightarrow> J (D \<union> S) pg"
    and body: "\<And>D pg t a b c. J D pg \<Longrightarrow> a < 256 \<Longrightarrow> b < 512 \<Longrightarrow> c < 512 \<Longrightarrow> W [a, b, c] = Some t \<Longrightarrow> D \<inter> leaves a b c = {} \<Longrightarrow>
       \<exists>ok pg'. body t a b c pg = Done (ok, pg') \<and> (if ok then J (D \<union> leaves a b c) pg' else E pg')"
  shows "\<exists>ok pg'. for_leaf_tables r body pg = Done (ok, pg') \<and> (if ok then J {q. lower q} pg' else E pg')"
proof -
  have tab: "get_existing_table t i pg = Done (W (q @ [i]))" if "J D pg" "W q = Some t" "valid_path (q @ [i])" for D pg q t i
  proof -
    have v: "valid_path q" using that(3) by (simp add: valid_path_def)
    have w: "walk (tabs pg) r q = Some t" "walk (tabs pg) r (q @ [i]) = W (q @ [i])" and inv: "pt_inv R (tabs pg)" using walks [OF that(1)] that v by metis+
    have "tabs pg t \<noteq> None" by (rule pt_invD(2) [OF inv r v w(1)])
    from get_existing_nxt [OF this] show ?thesis using w by (auto simp: walk_append split: option.splits)
  qed
  have W0: "W [] = Some r" using walks [OF start, of "[]"] by (simp add: valid_path_def)
  have pre: "W (q @ z) = None" if "W q = None" "valid_path (q @ z)" "valid_path q" for q z
    using walks [OF start] that by (metis option.simps(4) walk_append)
  have l2: "\<exists>ok pg'. (kbind (get_existing_table t2 i pg) (\<lambda>t3. case t3 of None \<Rightarrow> Done (True, pg) | Some l3 \<Rightarrow> body l3 a b i pg)) = Done (ok, pg') \<and>
      (if ok then J (D \<union> leaves a b i) pg' else E pg')"
    if "J D pg" "a < 256" "b < 512" "i < 512" "W [a, b] = Some t2" "D \<inter> leaves a b i = {}" for D pg t2 a b i
  proof -
    have g: "get_existing_table t2 i pg = Done (W [a, b, i])" using tab [OF that(1,5), of i] that(2-4) by (simp add: valid_path_def)
    show ?thesis
    proof (cases "W [a, b, i]")
      case None
      then have "J (D \<union> leaves a b i) pg" using that(2-4) by (intro skip [OF that(1)]) (auto simp: leaves_def full_path_def)
      then show ?thesis using g None by (intro exI [of _ True]) simp
    next
      case (Some t)
      then show ?thesis using g body [OF that(1-4) Some that(6)] by simp
    qed
  qed
  have l1: "\<exists>ok pg'. (kbind (get_existing_table t1 i pg) (\<lambda>t2. case t2 of None \<Rightarrow> Done (True, pg) | Some l2 \<Rightarrow>
         kfor [0..<512] (\<lambda>i2 pg. kbind (get_existing_table l2 i2 pg) (\<lambda>t3. case t3 of None \<Rightarrow> Done (True, pg) | Some l3 \<Rightarrow> body l3 a i i2 pg)) pg)) = Done (ok, pg') \<and>
      (if ok then J (D \<union> (\<Union>c \<in> {..<512}. leaves a i c)) pg' else E pg')"
    if "J D pg" "a < 256" "i < 512" "W [a] = Some t1" "D \<inter> (\<Union>c \<in> {..<512}. leaves a i c) = {}" for D pg t1 a i
  proof -
    have g: "get_existing_table t1 i pg = Done (W [a, i])" using tab [OF that(1,4), of i] that(2,3) by (simp add: valid_path_def)
    show ?thesis
    proof (cases "W [a, i]")
      case None
      then have "W [a, i, c] = None" if "c < 512" for c using pre [of "[a, i]" "[c]"] that \<open>a < 256\<close> \<open>i < 512\<close> by (simp add: valid_path_def)
      then have "J (D \<union> (\<Union>c \<in> {..<512}. leaves a i c)) pg" using that(2,3) by (intro skip [OF that(1)]) (auto simp: leaves_def full_path_def)
      then show ?thesis using g None by (intro exI [of _ True]) simp
    next
      case (Some t)
      have s: "set [0..<512] = {..<512 :: nat}" by auto
      show ?thesis unfolding g kbind.simps Some option.case
        by (rule kfor_rule [where xs = "[0..<512]" and S = "leaves a i" and J = J and E = E, unfolded s])
          (use that l2 [OF _ that(2,3) _ Some] in \<open>auto simp: leaves_def\<close>)
    qed
  qed
  have l0: "\<exists>ok pg'. (kbind (get_existing_table r i pg) (\<lambda>t1. case t1 of None \<Rightarrow> Done (True, pg) | Some l1 \<Rightarrow>
         kfor [0..<512] (\<lambda>i3 pg. kbind (get_existing_table l1 i3 pg) (\<lambda>t2. case t2 of None \<Rightarrow> Done (True, pg) | Some l2 \<Rightarrow>
           kfor [0..<512] (\<lambda>i2 pg. kbind (get_existing_table l2 i2 pg) (\<lambda>t3. case t3 of None \<Rightarrow> Done (True, pg) | Some l3 \<Rightarrow> body l3 i i3 i2 pg)) pg)) pg)) = Done (ok, pg') \<and>
      (if ok then J (D \<union> (\<Union>b \<in> {..<512}. \<Union>c \<in> {..<512}. leaves i b c)) pg' else E pg')"
    if "J D pg" "i < 256" "D \<inter> (\<Union>b \<in> {..<512}. \<Union>c \<in> {..<512}. leaves i b c) = {}" for D pg i
  proof -
    have g: "get_existing_table r i pg = Done (W [i])" using tab [OF that(1) W0, of i] that(2) by (simp add: valid_path_def)
    show ?thesis
    proof (cases "W [i]")
      case None
      then have "W [i, b, c] = None" if "b < 512" "c < 512" for b c using pre [of "[i]" "[b, c]"] that \<open>i < 256\<close> by (simp add: valid_path_def)
      then have "J (D \<union> (\<Union>b \<in> {..<512}. \<Union>c \<in> {..<512}. leaves i b c)) pg" using that(2) by (intro skip [OF that(1)]) (auto simp: leaves_def full_path_def)
      then show ?thesis using g None by (intro exI [of _ True]) simp
    next
      case (Some t)
      have s: "set [0..<512] = {..<512 :: nat}" by auto
      show ?thesis unfolding g kbind.simps Some option.case
        by (rule kfor_rule [where xs = "[0..<512]" and S = "\<lambda>b. \<Union>c \<in> {..<512}. leaves i b c" and J = J and E = E, unfolded s])
          (use that l1 [OF _ that(2) _ Some] in \<open>auto simp: leaves_def\<close>)
    qed
  qed
  have s: "set [0..<mm_user_root_slots] = {..<256 :: nat}" by (auto simp: mm_user_root_slots_def)
  have "\<exists>ok pg'. for_leaf_tables r body pg = Done (ok, pg') \<and> (if ok then J ({} \<union> (\<Union>a \<in> {..<256}. \<Union>b \<in> {..<512}. \<Union>c \<in> {..<512}. leaves a b c)) pg' else E pg')"
    unfolding for_leaf_tables_def
    by (rule kfor_rule [where xs = "[0..<mm_user_root_slots]" and S = "\<lambda>a. \<Union>b \<in> {..<512}. \<Union>c \<in> {..<512}. leaves a b c" and J = J and E = E, unfolded s])
      (use start l0 in \<open>auto simp: leaves_def\<close>)
  then show ?thesis unfolding all_leaves Un_empty_left .
qed

section \<open>Sharing\<close>

text \<open>The child's descriptor for a page of the parent, and the parent's after the fork.\<close>

definition kid :: "u64 \<Rightarrow> u64" where
  "kid e = mm_make_leaf_pte (mm_pte_phys e) (share_flags e AND 0xFFF) (share_flags e AND PAGE_EXEC \<noteq> 0)"

definition prot :: "u64 \<Rightarrow> u64" where
  "prot e = (if bit e 1 then (e AND NOT (PAGE_RW OR PAGE_GLOBAL)) OR PAGE_COW else e)"

lemma bit_share_flags: "n < 12 \<Longrightarrow> bit (share_flags e) n \<longleftrightarrow>
   (if bit e 1 \<or> bit e 9 then n = 9 \<or> n \<noteq> 1 \<and> (bit e n \<and> n \<noteq> 8 \<or> n = 2) else bit e n \<and> n \<noteq> 8 \<or> n = 2)"
proof -
  assume n: "n < 12"
  have t: "e AND PAGE_RW \<noteq> 0 \<longleftrightarrow> bit e 1" "e AND PAGE_COW \<noteq> 0 \<longleftrightarrow> bit e 9" using flag_tests [of e] by blast+
  show ?thesis using n unfolding share_flags_def Let_def t if_distrib [of "\<lambda>w. bit w n"] bit_or_iff bit_and_iff bit_not_iff bit_flags bit_low
    by (auto simp: possible_bit_def)
qed

lemma kid_phys [simp]: "mm_pte_phys (kid e) = mm_pte_phys e"
  using frame_addr_phys [of e] by (simp add: kid_def)

lemma kid_bits: "\<not> bit (kid e) 1" "bit (kid e) 2" "bit (kid e) 9 \<longleftrightarrow> bit e 1 \<or> bit e 9" "\<not> bit e 7 \<Longrightarrow> \<not> bit (share_flags e) 7" "bit (share_flags e) 2"
  using bit_share_flags [of 1 e] bit_share_flags [of 2 e] bit_share_flags [of 9 e] bit_share_flags [of 7 e]
    frame_addr_phys [of e] bit_frame_addr_low [OF frame_addr_phys [of e]]
  by (simp_all add: kid_def bit_leaf_pte bit_and_iff bit_low)

lemma bit_prot: "bit (prot e) n \<longleftrightarrow> (if bit e 1 then bit e n \<and> n \<noteq> 1 \<and> n \<noteq> 8 \<or> n = 9 else bit e n)"
  unfolding prot_def if_distrib [of "\<lambda>w. bit w n"] bit_or_iff bit_and_iff bit_not_iff bit_flags
  using bit_imp_possible_bit [of e n] by auto

lemma prot_phys [simp]: "mm_pte_phys (prot e) = mm_pte_phys e"
  by (rule pte_phys_eqI) (auto simp: bit_prot)

text \<open>
  \<open>sharing R p c pg0 D pg\<close>: the pages \<open>D\<close> of \<open>p\<close> have been mapped into \<open>c\<close>, each with a reference of its own.
\<close>

definition mapping :: "nat set \<Rightarrow> tables \<Rightarrow> nat \<Rightarrow> nat \<Rightarrow> nat list set" where
  "mapping R H p f = {q. \<exists>e. U R H (p, q) = Some e \<and> mm_pte_phys e = f}"

definition sharing :: "nat set \<Rightarrow> nat \<Rightarrow> nat \<Rightarrow> paging \<Rightarrow> nat list set \<Rightarrow> paging \<Rightarrow> bool" where
  "sharing R p c pg0 D pg \<longleftrightarrow> as_inv R pg \<and> ram pg = ram pg0 \<and> foreign_same R c (tabs pg0) (tabs pg) \<and>
     U R (tabs pg) = (\<lambda>x. if fst x = c \<and> snd x \<in> D then map_option kid (U R (tabs pg0) (p, snd x)) else U R (tabs pg0) x) \<and>
     (\<forall>f. refs_of (frames pg) f = refs_of (frames pg0) f + card (mapping R (tabs pg0) p f \<inter> D))"

lemma sharingD:
  assumes "sharing R p c pg0 D pg"
  shows "as_inv R pg" "ram pg = ram pg0" "foreign_same R c (tabs pg0) (tabs pg)"
    "U R (tabs pg) (s, q) = (if s = c \<and> q \<in> D then map_option kid (U R (tabs pg0) (p, q)) else U R (tabs pg0) (s, q))"
    "refs_of (frames pg) f = refs_of (frames pg0) f + card (mapping R (tabs pg0) p f \<inter> D)"
  using assms unfolding sharing_def by simp_all

lemma finite_mapping: "finite (mapping R H p f)"
proof (rule finite_subset)
  show "mapping R H p f \<subseteq> {q. lower q}" by (auto simp: mapping_def U_def split: if_splits)
qed (rule finite_lower)

text \<open>Pages that are not mapped in the parent need nothing.\<close>

lemma sharing_skip:
  assumes "sharing R p c pg0 D pg" "\<And>q. U R (tabs pg0) (c, q) = None" "\<And>q. q \<in> S \<Longrightarrow> U R (tabs pg0) (p, q) = None"
  shows "sharing R p c pg0 (D \<union> S) pg"
proof -
  have "mapping R (tabs pg0) p f \<inter> (D \<union> S) = mapping R (tabs pg0) p f \<inter> D" for f using assms(3) by (auto simp: mapping_def)
  then show ?thesis using assms(1,2,3) unfolding sharing_def by (auto simp: fun_eq_iff)
qed

lemma share_page_none:
  assumes inv: "as_inv R pg" and p: "p \<in> R" and u: "U R (tabs pg) (p, [i4, i3, i2, i1]) = None" and t: "walk (tabs pg) p [i4, i3, i2] = Some t"
    and i: "i4 < 256" "i3 < 512" "i2 < 512" "i1 < 512"
  shows "share_page env c t i4 i3 i2 i1 pg = Done (True, pg)"
proof -
  let ?q = "[i4, i3, i2, i1]"
  have fq: "full_path ?q" "lower ?q" "take 3 ?q = [i4, i3, i2]" "?q ! 3 = i1" using i by (simp_all add: full_path_def lower_def)
  have e: "entry_at t i1 pg = Done (leaf (tabs pg) p ?q)" using leaf_entry [OF as_invD(2) [OF inv] p fq(1), of t] t unfolding fq(3,4) by blast
  have "\<not> (mm_pte_present (leaf (tabs pg) p ?q) \<and> bit (leaf (tabs pg) p ?q) 2)" using U_iff_leaf [OF as_invD(3) [OF inv] p fq(2)] u by (auto split: if_splits)
  then show ?thesis using e flag_tests(3) [of "leaf (tabs pg) p ?q"] by (auto simp: share_page_def)
qed

lemma share_page_step:
  assumes env: "env_ok env" and sh: "sharing R p c pg0 D pg" and roots: "p \<in> R" "c \<in> R" "p \<noteq> c"
    and child: "\<And>q. U R (tabs pg0) (c, q) = None" and room: "\<And>f. refs_of (frames pg0) f + card (mapping R (tabs pg0) p f) < 2 ^ 32"
    and i: "i4 < 256" "i3 < 512" "i2 < 512" "i1 < 512" and t: "walk (tabs pg0) p [i4, i3, i2] = Some t" and new: "[i4, i3, i2, i1] \<notin> D"
  shows "\<exists>ok pg'. share_page env c t i4 i3 i2 i1 pg = Done (ok, pg') \<and> sharing R p c pg0 (if ok then insert [i4, i3, i2, i1] D else D) pg'"
proof -
  let ?q = "[i4, i3, i2, i1]"
  note S = sharingD [OF sh]
  note I = as_invD [OF S(1)]
  have fq: "full_path ?q" "lower ?q" "take 3 ?q = [i4, i3, i2]" "?q ! 3 = i1" using i by (simp_all add: full_path_def lower_def)
  have v: "valid_path [i4, i3, i2]" using i by (simp add: valid_path_def)
  have w: "walk (tabs pg) p (take 3 ?q) = Some t" unfolding fq(3) using foreign_walk [OF S(3) roots(1,3) v] t by (simp only:)
  have e: "entry_at t i1 pg = Done (leaf (tabs pg) p ?q)" using leaf_entry [OF I(2) roots(1) fq(1) w] unfolding fq(4) .
  have Up: "U R (tabs pg) (p, ?q) = U R (tabs pg0) (p, ?q)" using S(4) roots(3) by simp
  let ?e = "leaf (tabs pg) p ?q"
  have usr: "?e AND PAGE_USER = 0 \<longleftrightarrow> \<not> bit ?e 2" using flag_tests(3) [of ?e] by blast
  show ?thesis
  proof (cases "mm_pte_present ?e \<and> bit ?e 2")
    case False
    then have n: "U R (tabs pg) (p, ?q) = None" using U_iff_leaf [OF I(3) roots(1) fq(2)] by (simp only: if_False)
    then have "share_page env c t i4 i3 i2 i1 pg = Done (True, pg)" using share_page_none [OF S(1) roots(1) _ _ i] w unfolding fq(3) by blast
    moreover have "U R (tabs pg0) (p, ?q) = None" using n Up by simp
    then have "sharing R p c pg0 (D \<union> {?q}) pg" using sharing_skip [OF sh child, of "{?q}"] by simp
    ultimately show ?thesis by (intro exI [of _ True] exI [of _ pg]) simp
  next
    case True
    then have u: "U R (tabs pg) (p, ?q) = Some ?e" using U_leaf [OF roots(1) fq(2)] by simp
    then have u0: "U R (tabs pg0) (p, ?q) = Some ?e" using Up by simp
    note D = U_SomeD [OF I(3) u]
    let ?f = "mm_pte_phys ?e"
    obtain n where n: "pmm_frames (frames pg) ?f = Some n" using mapped_frame [OF S(1) u] by blast
    have "?q \<in> mapping R (tabs pg0) p ?f" using u0 by (simp add: mapping_def)
    then have "card (mapping R (tabs pg0) p ?f \<inter> D) < card (mapping R (tabs pg0) p ?f)"
      using new finite_mapping by (intro psubset_card_mono) auto
    then have "n < 2 ^ 32 - 1" using S(5) [of ?f] room [of ?f] n by (simp add: refs_of_def)
    from refs_take [OF I(4) n this] obtain q where q: "pmm_frame_get ?f (frames pg) = Done q" "pmm_ready q" "in_pool q = in_pool (frames pg)" "mem_end q = mem_end (frames pg)"
      "pmm_frames q = (pmm_frames (frames pg))(?f \<mapsto> n + 1)" by blast
    have rq: "refs_of q g = refs_of (frames pg) g + (if g = ?f then 1 else 0)" for g using q(5) n by (simp add: refs_of_def)
    let ?pg = "pg\<lparr>frames := q\<rparr>"
    have spare: "card (users (U R (tabs ?pg)) g) + (if g = ?f then 1 else 0) \<le> refs_of (frames ?pg) g" for g using I(7) [of g] rq by simp
    have inv: "as_inv R ?pg" unfolding as_inv_def using I q(2-4) add_leD1 [OF spare] by (auto simp del: not_None_eq)
    have va: "va_path (indices_va i4 i3 i2 i1) = ?q" using mm_va_indices_of [of i4 i3 i2 i1] i by (simp add: va_path_def)
    have pool: "in_pool (frames ?pg) ?f" using I(6) [OF u] q(3) by simp
    have low: "lower (va_path (indices_va i4 i3 i2 i1))" using va fq(2) by simp
    obtain ok pg' where m: "map_page_in_directory env c (indices_va i4 i3 i2 i1) ?f (share_flags ?e) ?pg = Done (ok, pg')" "ram pg' = ram pg" "frames pg' = q" "as_inv R pg'"
      "foreign_same R c (tabs pg) (tabs pg')" "U R (tabs pg') = (if ok then (U R (tabs pg))((c, ?q) \<mapsto> kid ?e) else U R (tabs pg))"
      using map_counted [OF env inv roots(2) frame_addr_phys pool low kid_bits(5) kid_bits(4) [OF D(7)] spare] unfolding va kid_def [symmetric] by auto
    have fs: "foreign_same R c (tabs pg0) (tabs pg')" by (rule foreign_trans [OF S(3) m(5)])
    show ?thesis
    proof (cases ok)
      case ok: True
      then have run: "share_page env c t i4 i3 i2 i1 pg = Done (True, pg')" using e usr True q(1) m(1) by (simp add: share_page_def Let_def)
      have "card (mapping R (tabs pg0) p g \<inter> insert ?q D) = card (mapping R (tabs pg0) p g \<inter> D) + (if g = ?f then 1 else 0)" for g
      proof (cases "g = ?f")
        case True
        then have "mapping R (tabs pg0) p g \<inter> insert ?q D = insert ?q (mapping R (tabs pg0) p g \<inter> D)" using u0 by (auto simp: mapping_def)
        then show ?thesis using new finite_mapping True by simp
      next
        case False
        then have "mapping R (tabs pg0) p g \<inter> insert ?q D = mapping R (tabs pg0) p g \<inter> D" using u0 by (auto simp: mapping_def)
        then show ?thesis using False by simp
      qed
      then have "sharing R p c pg0 (insert ?q D) pg'" unfolding sharing_def
        using m(2,3,4) fs S(2) S(5) rq m(6) ok S(4) u0 by (auto simp: fun_eq_iff)
      then show ?thesis using run by (intro exI [of _ True] exI [of _ pg']) simp
    next
      case no: False
      have "pmm_frames q ?f = Some (n + 1)" using q(5) by simp
      from refs_drop [OF q(2) this] obtain q2 where q2: "pmm_frame_put ?f q = Done q2" "pmm_ready q2" "in_pool q2 = in_pool q" "mem_end q2 = mem_end q"
        "\<forall>g. refs_of q2 g = (if g = ?f then n else refs_of q g)" by auto
      have r2: "refs_of q2 = refs_of (frames pg)" using q2(5) rq n by (auto simp: fun_eq_iff refs_of_def)
      have run: "share_page env c t i4 i3 i2 i1 pg = Done (False, pg'\<lparr>frames := q2\<rparr>)"
        using e usr True q(1) m(1,3) no q2(1) by (simp add: share_page_def Let_def)
      have U': "U R (tabs pg') = U R (tabs pg)" using m(6) no by simp
      have "as_inv R (pg'\<lparr>frames := q2\<rparr>)" unfolding as_inv_def using as_invD [OF m(4)] q2(2-4) m(3) r2 I(7) U' by (auto simp del: not_None_eq)
      then have "sharing R p c pg0 D (pg'\<lparr>frames := q2\<rparr>)" using sh m(2) fs r2 unfolding sharing_def U' [symmetric] by simp
      then show ?thesis using run by (intro exI [of _ False]) simp
    qed
  qed
qed

lemma tableless: "pt_inv R H \<Longrightarrow> user_small R H \<Longrightarrow> walk H r (take 3 q) = None \<Longrightarrow> U R H (r, q) = None"
  using U_SomeD(8) [of R H r q] by (cases "U R H (r, q)") auto

lemma leaf_set: "leaves a b c = (\<Union>i \<in> set [0..<512]. {[a, b, c, i]})"
  by (auto simp: leaves_def)

lemma share_pass:
  assumes env: "env_ok env" and inv: "as_inv R pg0" and roots: "p \<in> R" "c \<in> R" "p \<noteq> c"
    and child: "\<And>q. U R (tabs pg0) (c, q) = None" and room: "\<And>f. refs_of (frames pg0) f + card (mapping R (tabs pg0) p f) < 2 ^ 32"
  shows "\<exists>ok pg'. for_leaf_tables p (\<lambda>t i4 i3 i2. kfor [0..<512] (share_page env c t i4 i3 i2)) pg0 = Done (ok, pg') \<and>
     (if ok then sharing R p c pg0 {q. lower q} pg' else \<exists>D. sharing R p c pg0 D pg')"
proof (rule for_leaf_tables_rule [OF roots(1), where W = "walk (tabs pg0) p"])
  show "sharing R p c pg0 {} pg0" using inv by (simp add: sharing_def)
  show "pt_inv R (tabs pg) \<and> (valid_path q \<longrightarrow> walk (tabs pg) p q = walk (tabs pg0) p q)" if "sharing R p c pg0 D pg" for D pg q
    using sharingD(1,3) [OF that] as_invD(2) foreign_walk roots by blast
  show "sharing R p c pg0 (D \<union> S) pg" if "sharing R p c pg0 D pg" "\<And>q. q \<in> S \<Longrightarrow> full_path q \<and> walk (tabs pg0) p (take 3 q) = None" for D S pg
    using that(2) tableless [OF as_invD(2,3) [OF inv]] by (intro sharing_skip [OF that(1) child]) blast
  show "\<exists>ok pg'. kfor [0..<512] (share_page env c t i4 i3 i2) pg = Done (ok, pg') \<and>
       (if ok then sharing R p c pg0 (D \<union> leaves i4 i3 i2) pg' else \<exists>D. sharing R p c pg0 D pg')"
    if h: "sharing R p c pg0 D pg" "i4 < 256" "i3 < 512" "i2 < 512" "walk (tabs pg0) p [i4, i3, i2] = Some t" "D \<inter> leaves i4 i3 i2 = {}" for D pg t i4 i3 i2
    unfolding leaf_set
  proof (rule kfor_rule [where J = "sharing R p c pg0"])
    fix i1 D s assume j: "i1 \<in> set [0..<512]" "sharing R p c pg0 D s" "D \<inter> {[i4, i3, i2, i1]} = {}"
    then have "i1 < 512" "[i4, i3, i2, i1] \<notin> D" by auto
    from share_page_step [OF env j(2) roots child room h(2-4) this(1) h(5) this(2)] obtain ok pg' where
      "share_page env c t i4 i3 i2 i1 s = Done (ok, pg')" "sharing R p c pg0 (if ok then insert [i4, i3, i2, i1] D else D) pg'" by blast
    then show "\<exists>ok s'. share_page env c t i4 i3 i2 i1 s = Done (ok, s') \<and> (if ok then sharing R p c pg0 (D \<union> {[i4, i3, i2, i1]}) s' else \<exists>D. sharing R p c pg0 D s')"
      by (intro exI [of _ ok] exI [of _ pg']) (auto split: if_splits)
  qed (use h(1,6) in \<open>auto simp: leaf_set\<close>)
qed

section \<open>Protecting the parent\<close>

definition protecting :: "nat set \<Rightarrow> nat \<Rightarrow> paging \<Rightarrow> nat list set \<Rightarrow> paging \<Rightarrow> bool" where
  "protecting R p pg0 D pg \<longleftrightarrow> as_inv R pg \<and> ram pg = ram pg0 \<and> frames pg = frames pg0 \<and>
     (\<forall>s \<in> R. \<forall>q. valid_path q \<longrightarrow> walk (tabs pg) s q = walk (tabs pg0) s q) \<and>
     U R (tabs pg) = (\<lambda>x. if fst x = p \<and> snd x \<in> D then map_option prot (U R (tabs pg0) x) else U R (tabs pg0) x)"

lemma protectingD:
  assumes "protecting R p pg0 D pg"
  shows "as_inv R pg" "ram pg = ram pg0" "frames pg = frames pg0" "s \<in> R \<Longrightarrow> valid_path q \<Longrightarrow> walk (tabs pg) s q = walk (tabs pg0) s q"
    "U R (tabs pg) x = (if fst x = p \<and> snd x \<in> D then map_option prot (U R (tabs pg0) x) else U R (tabs pg0) x)"
  using assms unfolding protecting_def by simp_all

lemma protecting_skip:
  assumes "protecting R p pg0 D pg" "\<And>q. q \<in> S \<Longrightarrow> map_option prot (U R (tabs pg0) (p, q)) = U R (tabs pg0) (p, q)"
  shows "protecting R p pg0 (D \<union> S) pg"
  using assms unfolding protecting_def by (auto simp: fun_eq_iff)

text \<open>Changing the flags of one leaf, keeping its frame.\<close>

lemma reflag_leaf:
  assumes inv: "as_inv R pg" and u: "U R (tabs pg) (p, q) = Some e" and t: "walk (tabs pg) p (take 3 q) = Some t"
    and e': "mm_pte_phys e' = mm_pte_phys e" "bit e' 0" "bit e' 2" "\<not> bit e' 7"
  shows "\<exists>pg'. set_entry t (q ! 3) e' pg = Done pg' \<and> as_inv R pg' \<and> ram pg' = ram pg \<and> frames pg' = frames pg \<and>
     (\<forall>s \<in> R. \<forall>q. valid_path q \<longrightarrow> walk (tabs pg') s q = walk (tabs pg) s q) \<and> U R (tabs pg') = (U R (tabs pg))((p, q) \<mapsto> e')"
proof -
  note I = as_invD [OF inv]
  note D = U_SomeD [OF I(3) u]
  have fq: "full_path q" "hd q < 256" using D(2) by (simp_all add: lower_def)
  obtain a b c d where q: "q = [a, b, c, d]" "a < 512" "b < 512" "c < 512" "d < 512" using path4 [OF fq(1)] by blast
  have v: "valid_path (take 3 q)" "length (take 3 q) = 3" "d < 512" "q = take 3 q @ [d]" "q ! 3 = d" using q by (auto simp: valid_path_def)
  obtain T where T: "tabs pg t = Some T" using pt_invD(2) [OF I(2) D(1) v(1) t] by blast
  let ?H = "(tabs pg)(t \<mapsto> T(d := e'))"
  note L = leaf_step [where e = e' and H' = ?H, OF I(2) D(1) v(1,2,3) t T refl]
  have own: "walk (tabs pg) s (take 3 q) = Some t \<Longrightarrow> s = p" if "s \<in> R" for s
    using pt_invD(3) [OF I(2) that D(1) v(1) v(1) _ t] fq(2) q(1) by fastforce
  have pres: "mm_pte_present e'" using e'(2) by (simp add: pte_bits)
  have x: "xl ?H s z = (if (s, z) = (p, q) then Some (mm_pte_phys e', e') else xl (tabs pg) s z)" if "s \<in> R" "full_path z" for s z
  proof -
    have "walk (tabs pg) s (take 3 q) = Some t \<and> z = take 3 q @ [d] \<longleftrightarrow> (s, z) = (p, q)" using own [OF that(1)] t v(4) by (metis Pair_inject)
    then show ?thesis unfolding L(3) [OF that] using pres by (simp only: if_True)
  qed
  have us: "user_small R ?H" using I(3) x e'(4) unfolding user_small_def lower_def by (metis (no_types, lifting) Pair_inject option.inject)
  have UU: "U R ?H = (U R (tabs pg))((p, q) \<mapsto> e')"
  proof
    fix z show "U R ?H z = ((U R (tabs pg))((p, q) \<mapsto> e')) z" using x D(1,2) e'(3) by (cases z) (auto simp: U_def lower_def)
  qed
  have "users (U R ?H) f = users (U R (tabs pg)) f" for f unfolding UU using u e'(1) by (auto simp: users_def split: if_splits)
  then have "as_inv R (pg\<lparr>tabs := ?H\<rparr>)" unfolding as_inv_def using I L(1) us T I(6) [OF u] e'(1) by (auto simp: UU simp del: not_None_eq split: if_splits)
  moreover have "set_entry t (q ! 3) e' pg = Done (pg\<lparr>tabs := ?H\<rparr>)" using T v(5) by (simp add: set_entry_def)
  ultimately show ?thesis using L(2) UU by (intro exI [of _ "pg\<lparr>tabs := ?H\<rparr>"]) simp
qed

lemma protect_page_step:
  assumes pr: "protecting R p pg0 D pg" and p: "p \<in> R" and i: "i4 < 256" "i3 < 512" "i2 < 512" "i1 < 512"
    and t: "walk (tabs pg0) p [i4, i3, i2] = Some t" and new: "[i4, i3, i2, i1] \<notin> D"
  shows "\<exists>pg'. protect_page t i1 pg = Done (True, pg') \<and> protecting R p pg0 (D \<union> {[i4, i3, i2, i1]}) pg'"
proof -
  let ?q = "[i4, i3, i2, i1]"
  note S = protectingD [OF pr]
  note I = as_invD [OF S(1)]
  have fq: "full_path ?q" "lower ?q" "take 3 ?q = [i4, i3, i2]" "?q ! 3 = i1" using i by (simp_all add: full_path_def lower_def)
  have v: "valid_path [i4, i3, i2]" using i by (simp add: valid_path_def)
  have w: "walk (tabs pg) p (take 3 ?q) = Some t" unfolding fq(3) using S(4) [OF p v] t by (simp only:)
  let ?e = "leaf (tabs pg) p ?q"
  have e: "entry_at t i1 pg = Done ?e" using leaf_entry [OF I(2) p fq(1) w] unfolding fq(4) .
  have Up: "U R (tabs pg) (p, ?q) = U R (tabs pg0) (p, ?q)" using S(5) new by simp
  have tests: "?e AND PAGE_USER = 0 \<longleftrightarrow> \<not> bit ?e 2" "?e AND PAGE_RW = 0 \<longleftrightarrow> \<not> bit ?e 1" using flag_tests(2,3) [of ?e] by blast+
  show ?thesis
  proof (cases "mm_pte_present ?e \<and> bit ?e 2 \<and> bit ?e 1")
    case False
    then have "protect_page t i1 pg = Done (True, pg)" using e tests by (auto simp: protect_page_def)
    moreover have "map_option prot (U R (tabs pg0) (p, ?q)) = U R (tabs pg0) (p, ?q)"
      using U_iff_leaf [OF I(3) p fq(2)] False Up by (auto simp: prot_def split: if_splits)
    ultimately show ?thesis using protecting_skip [OF pr, of "{?q}"] by simp
  next
    case True
    then have u: "U R (tabs pg) (p, ?q) = Some ?e" using U_leaf [OF p fq(2)] by simp
    note D = U_SomeD [OF I(3) u]
    have pe: "(?e AND NOT (PAGE_RW OR PAGE_GLOBAL)) OR PAGE_COW = prot ?e" using True by (simp add: prot_def)
    have b: "mm_pte_phys (prot ?e) = mm_pte_phys ?e" "bit (prot ?e) 0" "bit (prot ?e) 2" "\<not> bit (prot ?e) 7"
      using D(5-7) by (simp_all add: bit_prot pte_bits)
    obtain pg' where m: "set_entry t i1 (prot ?e) pg = Done pg'" "as_inv R pg'" "ram pg' = ram pg" "frames pg' = frames pg"
      "\<forall>s \<in> R. \<forall>q. valid_path q \<longrightarrow> walk (tabs pg') s q = walk (tabs pg) s q" "U R (tabs pg') = (U R (tabs pg))((p, ?q) \<mapsto> prot ?e)"
      using reflag_leaf [OF S(1) u w b] unfolding fq(4) by blast
    have "protect_page t i1 pg = Done (True, pg')" using e tests True m(1) pe by (simp add: protect_page_def)
    moreover have "protecting R p pg0 (D \<union> {?q}) pg'"
    proof -
      have "U R (tabs pg0) (p, ?q) = Some ?e" using u Up by simp
      then have "U R (tabs pg') x = (if fst x = p \<and> snd x \<in> D \<union> {?q} then map_option prot (U R (tabs pg0) x) else U R (tabs pg0) x)" for x
        unfolding m(6) using S(5) [of x] new by (cases x) auto
      then show ?thesis unfolding protecting_def using m(2-5) S(2-4) by auto
    qed
    ultimately show ?thesis by blast
  qed
qed

lemma protect_pass:
  assumes inv: "as_inv R pg0" and p: "p \<in> R"
  shows "\<exists>pg'. for_leaf_tables p (\<lambda>t i4 i3 i2. kfor [0..<512] (protect_page t)) pg0 = Done (True, pg') \<and> protecting R p pg0 {q. lower q} pg'"
proof -
  have "\<exists>ok pg'. for_leaf_tables p (\<lambda>t i4 i3 i2. kfor [0..<512] (protect_page t)) pg0 = Done (ok, pg') \<and> (if ok then protecting R p pg0 {q. lower q} pg' else False)"
  proof (rule for_leaf_tables_rule [OF p, where W = "walk (tabs pg0) p"])
    show "protecting R p pg0 {} pg0" using inv by (simp add: protecting_def)
    show "pt_inv R (tabs pg) \<and> (valid_path q \<longrightarrow> walk (tabs pg) p q = walk (tabs pg0) p q)" if "protecting R p pg0 D pg" for D pg q
      using protectingD(1,4) [OF that] as_invD(2) p by blast
    show "protecting R p pg0 (D \<union> S) pg" if "protecting R p pg0 D pg" "\<And>q. q \<in> S \<Longrightarrow> full_path q \<and> walk (tabs pg0) p (take 3 q) = None" for D S pg
      using that(2) tableless [OF as_invD(2,3) [OF inv]] by (intro protecting_skip [OF that(1)]) simp
    show "\<exists>ok pg'. kfor [0..<512] (protect_page t) pg = Done (ok, pg') \<and> (if ok then protecting R p pg0 (D \<union> leaves i4 i3 i2) pg' else False)"
      if h: "protecting R p pg0 D pg" "i4 < 256" "i3 < 512" "i2 < 512" "walk (tabs pg0) p [i4, i3, i2] = Some t" "D \<inter> leaves i4 i3 i2 = {}" for D pg t i4 i3 i2
      unfolding leaf_set
    proof (rule kfor_rule [where J = "protecting R p pg0"])
      fix i1 D s assume j: "i1 \<in> set [0..<512]" "protecting R p pg0 D s" "D \<inter> {[i4, i3, i2, i1]} = {}"
      then have "i1 < 512" "[i4, i3, i2, i1] \<notin> D" by auto
      from protect_page_step [OF j(2) p h(2-4) this(1) h(5) this(2)]
      show "\<exists>ok s'. protect_page t i1 s = Done (ok, s') \<and> (if ok then protecting R p pg0 (D \<union> {[i4, i3, i2, i1]}) s' else False)"
        by (metis (full_types))
    qed (use h(1,6) in \<open>auto simp: leaf_set\<close>)
  qed
  then show ?thesis by (metis (full_types))
qed

lemma fork_sole_writer:
  assumes sw: "sole_writer V" and c: "\<And>q. V' (c, q) = map_option kid (V (p, q))" and p: "\<And>q. V' (p, q) = map_option prot (V (p, q))"
    and o: "\<And>s q. s \<noteq> c \<Longrightarrow> s \<noteq> p \<Longrightarrow> V' (s, q) = V (s, q)"
  shows "sole_writer V'"
proof -
  text \<open>Behind every new mapping is an old one of the same frame; a writable one is old and belongs to another process.\<close>
  have old: "\<exists>s' l. V (s', q) = Some l \<and> mm_pte_phys l = mm_pte_phys e \<and> s' = (if s = c then p else s) \<and> (bit e 1 \<longrightarrow> s \<noteq> c \<and> s \<noteq> p \<and> l = e)"
    if "V' (s, q) = Some e" for s q e
  proof (cases "s = c \<or> s = p")
    case True
    then show ?thesis using that c p kid_bits(1) by (auto simp: bit_prot)
  next
    case False
    then show ?thesis using that o by auto
  qed
  have one: "\<not> bit a 1" if h: "V' x = Some a" "V' y = Some b" "x \<noteq> y" "mm_pte_phys a = mm_pte_phys b" for x y a b
  proof
    assume w: "bit a 1"
    obtain s q s' q' where xy: "x = (s, q)" "y = (s', q')" by (cases x; cases y)
    have l: "V (s, q) = Some a" "s \<noteq> c" "s \<noteq> p" using old [of s q a] h(1) w xy by auto
    obtain z l' where l': "V (z, q') = Some l'" "mm_pte_phys l' = mm_pte_phys b" "z = (if s' = c then p else s')" using old [of s' q' b] h(2) xy by auto
    have "(s, q) \<noteq> (z, q')" using l'(3) l(2,3) h(3) xy by auto
    then show False using sw [unfolded sole_writer_def, rule_format, OF l(1) l'(1)] l'(2) h(4) w by simp
  qed
  show ?thesis unfolding sole_writer_def using one by metis
qed

text \<open>Both passes together.\<close>

lemma fork_spec:
  assumes "env_ok env" "as_inv R pg" "p \<in> R" "c \<in> R" "p \<noteq> c"
    and "\<forall>q. U R (tabs pg) (c, q) = None" "\<forall>f. refs_of (frames pg) f + card (mapping R (tabs pg) p f) < 2 ^ 32"
  shows "\<exists>ok pg'. copy_process_memory env p c pg = Done (ok, pg') \<and> as_inv R pg' \<and> ram pg' = ram pg \<and>
     (\<forall>s q. s \<noteq> c \<longrightarrow> U R (tabs pg') (s, q) = (if ok \<and> s = p then map_option prot (U R (tabs pg) (s, q)) else U R (tabs pg) (s, q))) \<and>
     (ok \<longrightarrow> (\<forall>q. U R (tabs pg') (c, q) = map_option kid (U R (tabs pg) (p, q))))"
proof -
  have r0: "p \<noteq> 0" "c \<noteq> 0" using root_nonzero [OF as_invD(2) [OF assms(2)]] assms(3,4) by blast+
  have h: "U R (tabs pg) (c, q) = None" "refs_of (frames pg) f + card (mapping R (tabs pg) p f) < 2 ^ 32" for q f using assms(6,7) by blast+
  obtain ok1 pg1 where 1: "for_leaf_tables p (\<lambda>t i4 i3 i2. kfor [0..<512] (share_page env c t i4 i3 i2)) pg = Done (ok1, pg1)"
    "if ok1 then sharing R p c pg {q. lower q} pg1 else \<exists>D. sharing R p c pg D pg1"
    using share_pass [OF assms(1-5) h] by blast
  obtain D where S: "sharing R p c pg D pg1" using 1(2) by (cases ok1) auto
  show ?thesis
  proof (cases ok1)
    case False
    then have "copy_process_memory env p c pg = Done (False, pg1)" using r0 1(1) by (simp add: copy_process_memory_def)
    then show ?thesis using sharingD(1,2,4) [OF S] by (intro exI [of _ False] exI [of _ pg1]) simp
  next
    case True
    then have S: "sharing R p c pg {q. lower q} pg1" using 1(2) by simp
    obtain pg2 where 2: "for_leaf_tables p (\<lambda>t i4 i3 i2. kfor [0..<512] (protect_page t)) pg1 = Done (True, pg2)" "protecting R p pg1 {q. lower q} pg2"
      using protect_pass [OF sharingD(1) [OF S] assms(3)] by blast
    have run: "copy_process_memory env p c pg = Done (True, pg2)" using r0 1(1) 2(1) True by (simp add: copy_process_memory_def)
    have Uc: "U R (tabs pg2) (c, q) = map_option kid (U R (tabs pg) (p, q))" for q
      using protectingD(5) [OF 2(2), of "(c, q)"] sharingD(4) [OF S, of c q] assms(5) h(1) U_out [of p R q "tabs pg"] by (cases "lower q") simp_all
    have "U R (tabs pg2) (s, q) = (if s = p then map_option prot (U R (tabs pg) (s, q)) else U R (tabs pg) (s, q))" if "s \<noteq> c" for s q
      using protectingD(5) [OF 2(2), of "(s, q)"] sharingD(4) [OF S, of s q] that U_out [of s R q "tabs pg"] by (cases "lower q") auto
    then show ?thesis using run Uc protectingD(1,2) [OF 2(2)] sharingD(2) [OF S] by (intro exI [of _ True] exI [of _ pg2]) simp
  qed
qed

text \<open>What a successful fork leaves: the child sees the parent's memory, and nobody else notices.\<close>

lemma fork_ok:
  assumes "env_ok env" "as_inv R pg" "sole_writer (U R (tabs pg))" "p \<in> R" "c \<in> R" "p \<noteq> c"
    and "\<forall>q. U R (tabs pg) (c, q) = None" "\<forall>f. refs_of (frames pg) f + card (mapping R (tabs pg) p f) < 2 ^ 32"
    and run: "copy_process_memory env p c pg = Done (True, pg')"
  shows "as_inv R pg'" "sole_writer (U R (tabs pg'))" "peek R pg' s va = peek R pg (if s = c then p else s) va"
    "U R (tabs pg) (p, q) = Some e \<Longrightarrow> U R (tabs pg') (p, q) = Some (prot e) \<and> U R (tabs pg') (c, q) = Some (kid e)"
proof -
  have f: "as_inv R pg'" "ram pg' = ram pg" "\<And>q. U R (tabs pg') (c, q) = map_option kid (U R (tabs pg) (p, q))"
    "\<And>s q. s \<noteq> c \<Longrightarrow> U R (tabs pg') (s, q) = (if s = p then map_option prot (U R (tabs pg) (s, q)) else U R (tabs pg) (s, q))"
    using fork_spec [OF assms(1,2,4-8)] run by auto
  show "as_inv R pg'" by (rule f(1))
  show "sole_writer (U R (tabs pg'))" by (rule fork_sole_writer [OF assms(3), of _ c p]) (use f(3,4) assms(6) in auto)
  show "peek R pg' s va = peek R pg (if s = c then p else s) va"
    using f(2,3) f(4) [of s "va_path va"] by (simp add: peek_def view_def option.map_comp o_def)
  show "U R (tabs pg) (p, q) = Some e \<Longrightarrow> U R (tabs pg') (p, q) = Some (prot e) \<and> U R (tabs pg') (c, q) = Some (kid e)"
    using f(3) f(4) [of p q] assms(6) by simp
qed

section \<open>Properties\<close>

text \<open>
  C5: Fork. Duplicating an address space into an empty one, with room in the reference counts, either
  fails without changing a mapping of any process but the child, or gives the child the memory of the
  parent. All other processes, the parent included, see what they saw; no frame that is writable
  somewhere is mapped elsewhere; and the pages that the parent could write are read-only and
  copy-on-write in both.
\<close>

theorem copy_process_memory_correct:
  assumes "env_ok env" "as_inv R pg" "sole_writer (U R (tabs pg))" "p \<in> R" "c \<in> R" "p \<noteq> c"
    and "\<forall>q. U R (tabs pg) (c, q) = None" "\<forall>f. refs_of (frames pg) f + card (mapping R (tabs pg) p f) < 2 ^ 32"
  shows "\<exists>ok pg'. copy_process_memory env p c pg = Done (ok, pg') \<and> as_inv R pg' \<and>
     (\<not> ok \<longrightarrow> (\<forall>s q. s \<noteq> c \<longrightarrow> U R (tabs pg') (s, q) = U R (tabs pg) (s, q)) \<and> ram pg' = ram pg) \<and>
     (ok \<longrightarrow> sole_writer (U R (tabs pg')) \<and> (\<forall>s va. peek R pg' s va = peek R pg (if s = c then p else s) va) \<and>
        (\<forall>q e. U R (tabs pg) (p, q) = Some e \<longrightarrow> (\<exists>e1 e2. U R (tabs pg') (p, q) = Some e1 \<and> U R (tabs pg') (c, q) = Some e2 \<and>
           \<not> bit e1 1 \<and> \<not> bit e2 1 \<and> (bit e 1 \<or> bit e 9 \<longrightarrow> bit e1 9 \<and> bit e2 9))))"
proof -
  obtain ok pg' where f: "copy_process_memory env p c pg = Done (ok, pg')" "as_inv R pg'" "ram pg' = ram pg"
     "\<And>s q. s \<noteq> c \<Longrightarrow> U R (tabs pg') (s, q) = (if ok \<and> s = p then map_option prot (U R (tabs pg) (s, q)) else U R (tabs pg) (s, q))"
    using fork_spec [OF assms(1,2,4-8)] by blast
  show ?thesis
  proof (cases ok)
    case False
    then show ?thesis using f by (intro exI [of _ ok] exI [of _ pg']) simp
  next
    case True
    then have run: "copy_process_memory env p c pg = Done (True, pg')" using f(1) by simp
    note F = fork_ok [OF assms run]
    have "\<exists>e1 e2. U R (tabs pg') (p, q) = Some e1 \<and> U R (tabs pg') (c, q) = Some e2 \<and> \<not> bit e1 1 \<and> \<not> bit e2 1 \<and> (bit e 1 \<or> bit e 9 \<longrightarrow> bit e1 9 \<and> bit e2 9)"
      if "U R (tabs pg) (p, q) = Some e" for q e using F(4) [OF that] kid_bits(1,3) [of e] by (auto simp: bit_prot)
    then show ?thesis using run F(1,2,3) by (intro exI [of _ True] exI [of _ pg']) simp
  qed
qed

text \<open>
  C1: Fork and writes. After a successful fork, a write by the parent or by the child to pages that the
  parent could write before is seen by the writer alone: every other process, and the other of the two,
  still reads what the parent had in memory at the time of the fork.
\<close>

theorem fork_isolates:
  assumes "env_ok env" "as_inv R pg" "sole_writer (U R (tabs pg))" "p \<in> R" "c \<in> R" "p \<noteq> c"
    and "\<forall>q. U R (tabs pg) (c, q) = None" "\<forall>f. refs_of (frames pg) f + card (mapping R (tabs pg) p f) < 2 ^ 32"
    and "copy_process_memory env p c pg = Done (True, pg1)" "pgd x = p \<or> pgd x = c" "\<not> kernel_mode x" "user_lo \<le> dst" "dst + length bs \<le> user_hi"
    and "\<forall>k < length bs. \<exists>e. U R (tabs pg) (p, va_path (dst + k)) = Some e \<and> (bit e 1 \<or> bit e 9)"
  shows "\<exists>ok pg2. copy_to_user rm env (Some x) dst bs pg1 = Done (ok, pg2) \<and>
     (\<forall>s. \<forall>va < 2 ^ 47. s \<noteq> pgd x \<longrightarrow> peek R pg2 s va = peek R pg (if s = c then p else s) va) \<and>
     (ok \<longrightarrow> (\<forall>k < length bs. peek R pg2 (pgd x) (dst + k) = Some (bs ! k)))"
proof -
  note F = fork_ok [OF assms(1-9)]
  have x: "pgd x \<in> R" using assms(4,5,10) by auto
  have pok: "\<forall>k < length bs. page_ok R pg1 (pgd x) (va_path (dst + k))"
  proof (intro allI impI)
    fix k assume "k < length bs"
    then obtain e where e: "U R (tabs pg) (p, va_path (dst + k)) = Some e" "bit e 1 \<or> bit e 9" using assms(14) by blast
    have "bit (prot e) 9" "bit (kid e) 9" using e(2) kid_bits(3) [of e] by (auto simp: bit_prot)
    then show "page_ok R pg1 (pgd x) (va_path (dst + k))" using F(4) [OF e(1)] assms(10) unfolding page_ok_def by metis
  qed
  obtain ok m pg2 where w: "copy_to_user rm env (Some x) dst bs pg1 = Done (ok, pg2)" "ok \<longleftrightarrow> m = length bs" "copied R pg1 pg2 (pgd x) dst (take m bs)"
    using copy_to_user_spec [OF assms(1) F(1,2) x assms(11-13) pok, of rm] by blast
  have b: "dst + length bs \<le> 2 ^ 47" using assms(13) by (simp add: user_hi_def)
  have "peek R pg2 s va = peek R pg (if s = c then p else s) va" if "va < 2 ^ 47" "s \<noteq> pgd x" for s va
    using w(3) that F(3) [of s va] unfolding copied_def by simp
  moreover have "peek R pg2 (pgd x) (dst + k) = Some (bs ! k)" if ok "k < length bs" for k
    using w(2,3) that b unfolding copied_def by simp
  ultimately show ?thesis using w(1) by blast
qed

section \<open>Witnesses\<close>

lemma share_page_some:
  assumes inv: "as_inv R pg" and p: "p \<in> R" and u: "U R (tabs pg) (p, [i4, i3, i2, i1]) = Some e" and t: "walk (tabs pg) p [i4, i3, i2] = Some t"
    and g: "pmm_frame_get (mm_pte_phys e) (frames pg) = Done q"
    and m: "map_page_in_directory env c (indices_va i4 i3 i2 i1) (mm_pte_phys e) (share_flags e) (pg\<lparr>frames := q\<rparr>) = Done (True, pg')"
  shows "share_page env c t i4 i3 i2 i1 pg = Done (True, pg')"
proof -
  note D = U_SomeD [OF as_invD(3) [OF inv] u]
  have fp: "full_path [i4, i3, i2, i1]" using D(2) by (simp add: lower_def)
  have "entry_at t i1 pg = Done e"
    using leaf_entry [OF as_invD(2) [OF inv] p fp, of t] t D(4) by (simp add: numeral_3_eq_3 del: walk.simps)
  moreover have "e AND PAGE_USER \<noteq> 0" using flag_tests(3) [of e] D(6) by simp
  ultimately show ?thesis using D(5) g m by (simp add: share_page_def Let_def)
qed

text \<open>Forking the address space with one page into the empty one.\<close>

lemma fork_demo:
  "\<exists>pg pg' e. as_inv {0x100000, 0x200000} pg \<and> sole_writer (U {0x100000, 0x200000} (tabs pg)) \<and> (\<forall>q. U {0x100000, 0x200000} (tabs pg) (0x200000, q) = None) \<and>
     (\<forall>f. refs_of (frames pg) f + card (mapping {0x100000, 0x200000} (tabs pg) 0x100000 f) < 2 ^ 32) \<and>
     U {0x100000, 0x200000} (tabs pg) (0x100000, va_path 0x400000) = Some e \<and> bit e 1 \<and>
     copy_process_memory env_demo 0x100000 0x200000 pg = Done (True, pg')"
proof -
  let ?R = "{0x100000, 0x200000 :: nat}"
  obtain pg e where a: "added ?R rw_leaf paging_demo pg 0x100000 [va_path 0x400000 \<mapsto> e]" "dom (tabs pg) = {0x100000, 0x200000, 0x101000, 0x102000, 0x103000}"
    "in_pool (frames pg) = in_pool pmm_two_frames" "tabs pg 0x200000 = Some (\<lambda>_. 0)" using demo_page by blast
  note A = addedD [OF a(1)]
  have Up: "U ?R (tabs pg) (0x100000, q) = (if q = va_path 0x400000 then Some e else None)" "U ?R (tabs pg) (0x200000, q) = None" for q
    using A(2) [of "(0x100000, q)"] A(2) [of "(0x200000, q)"] demo_empty by auto
  have el: "e = rw_leaf (mm_pte_phys e)" using A(4) [of "va_path 0x400000" e] by simp
  have "frame_addr (mm_pte_phys e)" by (rule frame_addr_phys)
  then have b1: "bit e 1" by (subst el) (simp add: rw_leaf_def bit_leaf_pte bit_and_iff bit_or_iff bit_flags bit_low)
  have "i < 2" if "pmm_frame_index pmm_two_frames f = Some i" for i f using that by (auto simp: pmm_frame_index_def pmm_two_frames_eq Let_def split: if_splits)
  then have pf: "pmm_frames pmm_two_frames f = None" for f by (fastforce simp: pmm_frames_def bitmap_test_def pmm_two_frames_eq split: option.split)
  have "mapping ?R (tabs pg) 0x100000 f \<subseteq> {va_path 0x400000}" for f using Up(1) by (auto simp: mapping_def split: if_splits)
  then have "card (mapping ?R (tabs pg) 0x100000 f) \<le> 1" for f using card_mono [of "{va_path 0x400000}" "mapping ?R (tabs pg) 0x100000 f"] by simp
  moreover have "refs_of (frames pg) f \<le> 1" for f using A(5) [of f] pf by (simp add: refs_of_def paging_demo_def)
  ultimately have room: "refs_of (frames pg) f + card (mapping ?R (tabs pg) 0x100000 f) < 2 ^ 32" for f
    using le_less_trans [OF add_mono, of "refs_of (frames pg) f" 1 _ 1 "2 ^ 32"] by simp
  let ?q = "[0, 0, 2, 0] :: nat list"
  have q0: "va_path 0x400000 = ?q" by (simp add: va_path_def mm_va_indices_def)
  have u: "U ?R (tabs pg) (0x100000, ?q) = Some e" using Up(1) q0 by simp
  let ?J = "\<lambda>D x. sharing ?R 0x100000 0x200000 pg D x \<and> (?q \<notin> D \<longrightarrow> x = pg)"
  have one: "\<exists>pg'. share_page env_demo 0x200000 t 0 0 2 0 pg = Done (True, pg')" if t: "walk (tabs pg) 0x100000 [0, 0, 2] = Some t" for t
  proof -
    have n: "pmm_frames (frames pg) (mm_pte_phys e) = Some 1" using A(5) [of "mm_pte_phys e"] by auto
    obtain q where q: "pmm_frame_get (mm_pte_phys e) (frames pg) = Done q" "in_pool q = in_pool (frames pg)" using refs_take [OF as_invD(4) [OF A(1)] n] by auto
    have pool: "in_pool (frames x) = in_pool pmm_two_frames" if "frames x = q" for x :: paging using that q(2) a(3) by simp
    have "\<exists>pg'. map_page_in_directory env_demo 0x200000 (indices_va 0 0 2 0) (mm_pte_phys e) (share_flags e) (pg\<lparr>frames := q\<rparr>) = Done (True, pg') \<and>
        dom (tabs pg') = {0x104000, 0x105000, 0x106000} \<union> dom (tabs (pg\<lparr>frames := q\<rparr>)) \<and> frames pg' = frames (pg\<lparr>frames := q\<rparr>) \<and>
        (\<forall>u \<in> dom (tabs (pg\<lparr>frames := q\<rparr>)). u \<noteq> 0x200000 \<longrightarrow> tabs pg' u = tabs (pg\<lparr>frames := q\<rparr>) u)"
      by (rule map_fresh_root [OF env_demo_ok, where ja = 0 and jb = 0 and jc = 2 and jd = 0])
        (use a(2,4) pool mm_va_indices_of [of 0 0 2 0] in \<open>simp_all add: demo_table_page\<close>)
    then show ?thesis using share_page_some [OF A(1) _ u t q(1)] by blast
  qed
  have "\<exists>ok pg'. for_leaf_tables 0x100000 (\<lambda>t i4 i3 i2. kfor [0..<512] (share_page env_demo 0x200000 t i4 i3 i2)) pg = Done (ok, pg') \<and> (if ok then ?J {q. lower q} pg' else False)"
  proof (rule for_leaf_tables_rule [where R = ?R and W = "walk (tabs pg) 0x100000"])
    show "?J {} pg" using A(1) by (simp add: sharing_def)
    show "pt_inv ?R (tabs x) \<and> (valid_path z \<longrightarrow> walk (tabs x) 0x100000 z = walk (tabs pg) 0x100000 z)" if "?J D x" for D x z
      using that sharingD(1,3) as_invD(2) foreign_walk [of ?R "0x200000" "tabs pg" "tabs x" "0x100000" z] by auto
    show "?J (D \<union> S) x" if "?J D x" "\<And>z. z \<in> S \<Longrightarrow> full_path z \<and> walk (tabs pg) 0x100000 (take 3 z) = None" for D S x
      using that(1) that(2) tableless [OF as_invD(2,3) [OF A(1)]] by (auto intro!: sharing_skip simp: Up(2))
    show "\<exists>ok pg'. kfor [0..<512] (share_page env_demo 0x200000 t i4 i3 i2) x = Done (ok, pg') \<and> (if ok then ?J (D \<union> leaves i4 i3 i2) pg' else False)"
      if h: "?J D x" "i4 < 256" "i3 < 512" "i2 < 512" "walk (tabs pg) 0x100000 [i4, i3, i2] = Some t" "D \<inter> leaves i4 i3 i2 = {}" for D x t i4 i3 i2
      unfolding leaf_set
    proof (rule kfor_rule [where J = ?J])
      fix i1 D s assume j: "i1 \<in> set [0..<512]" "?J D s" "D \<inter> {[i4, i3, i2, i1]} = {}"
      then have n: "i1 < 512" "[i4, i3, i2, i1] \<notin> D" by auto
      obtain ok pg' where m: "share_page env_demo 0x200000 t i4 i3 i2 i1 s = Done (ok, pg')" "sharing ?R 0x100000 0x200000 pg (if ok then insert [i4, i3, i2, i1] D else D) pg'"
        using share_page_step [OF env_demo_ok conjunct1 [OF j(2)] _ _ _ Up(2) room h(2-4) n(1) h(5) n(2)] by auto
      show "\<exists>ok s'. share_page env_demo 0x200000 t i4 i3 i2 i1 s = Done (ok, s') \<and> (if ok then ?J (D \<union> {[i4, i3, i2, i1]}) s' else False)"
      proof (cases "[i4, i3, i2, i1] = ?q")
        case True
        then have "s = pg" using j(2) n(2) by simp
        then have ok using one [of t] h(5) m(1) True by auto
        then show ?thesis using m True by (intro exI [of _ True] exI [of _ pg']) simp
      next
        case False
        note S = sharingD [OF conjunct1 [OF j(2)]]
        have v: "valid_path [i4, i3, i2]" using h(2-4) by (simp add: valid_path_def)
        have "walk (tabs s) 0x100000 [i4, i3, i2] = Some t" using foreign_walk [OF S(3) _ _ v, of "0x100000"] h(5) by simp
        moreover have "U ?R (tabs s) (0x100000, [i4, i3, i2, i1]) = None" using S(4) [of "0x100000"] Up(1) q0 False by simp
        ultimately have "share_page env_demo 0x200000 t i4 i3 i2 i1 s = Done (True, s)" using share_page_none [OF S(1) _ _ _ h(2-4) n(1)] by blast
        then show ?thesis using m j(2) False by (intro exI [of _ True] exI [of _ s]) auto
      qed
    qed (use h(1,6) in \<open>auto simp: leaf_set\<close>)
  qed simp
  then obtain pg1 where "for_leaf_tables 0x100000 (\<lambda>t i4 i3 i2. kfor [0..<512] (share_page env_demo 0x200000 t i4 i3 i2)) pg = Done (True, pg1)" "sharing ?R 0x100000 0x200000 pg {q. lower q} pg1"
    by (auto split: if_splits)
  moreover from protect_pass [OF sharingD(1) [OF this(2)], of "0x100000"] obtain pg2 where
    "for_leaf_tables 0x100000 (\<lambda>t i4 i3 i2. kfor [0..<512] (protect_page t)) pg1 = Done (True, pg2)" by auto
  ultimately have "copy_process_memory env_demo 0x100000 0x200000 pg = Done (True, pg2)" by (simp add: copy_process_memory_def)
  then show ?thesis using A(1) added_sole_writer [OF a(1) demo_as_inv(2)] Up(2) room u q0 b1 by auto
qed

theorem copy_process_memory_correct_witness:
  "\<exists>pg pg'. copy_process_memory env_demo 0x100000 0x200000 pg = Done (True, pg') \<and> sole_writer (U {0x100000, 0x200000} (tabs pg')) \<and>
     peek {0x100000, 0x200000} pg' 0x200000 0x400000 = peek {0x100000, 0x200000} pg 0x100000 0x400000 \<and> peek {0x100000, 0x200000} pg 0x100000 0x400000 \<noteq> None"
proof -
  let ?R = "{0x100000, 0x200000 :: nat}"
  obtain pg pg' e where d: "as_inv ?R pg" "sole_writer (U ?R (tabs pg))" "\<forall>q. U ?R (tabs pg) (0x200000, q) = None"
    "\<forall>f. refs_of (frames pg) f + card (mapping ?R (tabs pg) 0x100000 f) < 2 ^ 32" "U ?R (tabs pg) (0x100000, va_path 0x400000) = Some e" "bit e 1"
    "copy_process_memory env_demo 0x100000 0x200000 pg = Done (True, pg')" using fork_demo by blast
  have "sole_writer (U ?R (tabs pg')) \<and> (\<forall>s va. peek ?R pg' s va = peek ?R pg (if s = 0x200000 then 0x100000 else s) va)"
    using copy_process_memory_correct [OF env_demo_ok d(1,2) _ _ _ d(3,4)] d(7) by auto
  moreover have "peek ?R pg 0x100000 0x400000 \<noteq> None" using d(5) by (simp add: peek_def view_def)
  ultimately show ?thesis using d(7) by (intro exI [of _ pg] exI [of _ pg']) simp
qed

theorem fork_isolates_witness:
  "\<exists>pg pg1 ok pg2. copy_process_memory env_demo 0x100000 0x200000 pg = Done (True, pg1) \<and>
     copy_to_user raw_none env_demo (Some proc_demo) 0x400000 [7] pg1 = Done (ok, pg2) \<and>
     peek {0x100000, 0x200000} pg2 0x200000 0x400000 = peek {0x100000, 0x200000} pg 0x100000 0x400000"
proof -
  let ?R = "{0x100000, 0x200000 :: nat}"
  obtain pg pg1 e where d: "as_inv ?R pg" "sole_writer (U ?R (tabs pg))" "\<forall>q. U ?R (tabs pg) (0x200000, q) = None"
    "\<forall>f. refs_of (frames pg) f + card (mapping ?R (tabs pg) 0x100000 f) < 2 ^ 32" "U ?R (tabs pg) (0x100000, va_path 0x400000) = Some e" "bit e 1"
    "copy_process_memory env_demo 0x100000 0x200000 pg = Done (True, pg1)" using fork_demo by blast
  have h: "0x100000 \<in> ?R" "0x200000 \<in> ?R" "0x100000 \<noteq> (0x200000 :: nat)" "pgd proc_demo = 0x100000 \<or> pgd proc_demo = 0x200000" "\<not> kernel_mode proc_demo"
    "user_lo \<le> 0x400000" "0x400000 + length [7 :: u8] \<le> user_hi" "\<forall>k < length [7 :: u8]. \<exists>e. U ?R (tabs pg) (0x100000, va_path (0x400000 + k)) = Some e \<and> (bit e 1 \<or> bit e 9)"
    using d(5,6) by (simp_all add: proc_demo_def user_lo_def user_hi_def)
  obtain ok pg2 where w: "copy_to_user raw_none env_demo (Some proc_demo) 0x400000 [7] pg1 = Done (ok, pg2)"
    "\<forall>s. \<forall>va < 2 ^ 47. s \<noteq> pgd proc_demo \<longrightarrow> peek ?R pg2 s va = peek ?R pg (if s = 0x200000 then 0x100000 else s) va"
    using fork_isolates [OF env_demo_ok d(1,2) h(1-3) d(3,4,7) h(4-8), of raw_none] by blast
  have "peek ?R pg2 0x200000 0x400000 = peek ?R pg 0x100000 0x400000" using w(2) by (simp add: proc_demo_def)
  then show ?thesis using d(7) w(1) by blast
qed
end
