(* ===== verification/Byte_Ring.thy ===== *)
theory Byte_Ring
  imports Prelude
begin

text \<open>
  The circular byte buffer the pipes (\<^verbatim>\<open>kernel/lib/pipe.c\<close>) and the IPC channels
  (\<^verbatim>\<open>kernel/ipc.c\<close>) share: the two copy loops, and what they do to the queue of bytes
  the buffer stands for. The locale \<open>byte_queue\<close> is the contract of such a buffer; its
  lemmas are about whole sequences of reads and writes.
\<close>

section \<open>The copy loops\<close>

text \<open>\<^verbatim>\<open>buf[w] = src[i]; w = (w + 1) % n;\<close> for each byte of the source.\<close>

fun ring_put :: "nat \<Rightarrow> 'b list \<Rightarrow> nat \<Rightarrow> 'b list \<Rightarrow> 'b list \<times> nat" where
  "ring_put n buf w [] = (buf, w)"
| "ring_put n buf w (b # bs) = ring_put n (buf[w := b]) ((w + 1) mod n) bs"

text \<open>\<^verbatim>\<open>dest[i] = buf[r]; r = (r + 1) % n;\<close> for \<open>k\<close> bytes.\<close>

fun ring_get :: "nat \<Rightarrow> 'b list \<Rightarrow> nat \<Rightarrow> nat \<Rightarrow> 'b list \<times> nat" where
  "ring_get n buf r 0 = ([], r)"
| "ring_get n buf r (Suc k) =
     (let (bs, r') = ring_get n buf ((r + 1) mod n) k in (buf ! r # bs, r'))"

section \<open>The queue a ring stands for\<close>

definition ring_contents :: "nat \<Rightarrow> 'b list \<Rightarrow> nat \<Rightarrow> nat \<Rightarrow> 'b list" where
  "ring_contents n buf r c = map (\<lambda>k. buf ! ((r + k) mod n)) [0..<c]"

definition ring_ok :: "nat \<Rightarrow> 'b list \<Rightarrow> nat \<Rightarrow> nat \<Rightarrow> nat \<Rightarrow> bool" where
  "ring_ok n buf r w c \<longleftrightarrow> length buf = n \<and> r < n \<and> c \<le> n \<and> w = (r + c) mod n"

lemma length_ring_contents [simp]: "length (ring_contents n buf r c) = c"
  by (simp add: ring_contents_def)

lemma ring_get_eq:
  "r < n \<Longrightarrow> ring_get n buf r k = (ring_contents n buf r k, (r + k) mod n)"
proof (induction k arbitrary: r)
  case (Suc k)
  have lt: "(r + 1) mod n < n" using Suc.prems by simp
  have "ring_contents n buf r (Suc k) = buf ! r # ring_contents n buf ((r + 1) mod n) k"
    using Suc.prems
    by (simp add: ring_contents_def map_upt_Suc mod_add_left_eq add.assoc del: upt_Suc)
  then show ?case
    using Suc.IH [OF lt] by (simp add: mod_add_left_eq add.assoc)
qed (simp add: ring_contents_def)

lemma length_fst_ring_put [simp]: "length (fst (ring_put n buf w bs)) = length buf"
  by (induction bs arbitrary: buf w) simp_all

lemma snd_ring_put: "w < n \<Longrightarrow> snd (ring_put n buf w bs) = (w + length bs) mod n"
proof (induction bs arbitrary: buf w)
  case (Cons b bs)
  then have "(w + 1) mod n < n" by simp
  from Cons.IH [OF this] show ?case by (simp add: mod_add_left_eq add.assoc)
qed simp

lemma mod_wrap_once: "x < 2 * n \<Longrightarrow> x mod n = (if x < n then x else x - (n::nat))"
  by (simp add: mod_if)

lemma ring_slots_distinct:
  assumes "k < c" "c < n" "r < n"
  shows "(r + k) mod n \<noteq> (r + c) mod (n::nat)"
  using assms by (auto simp: mod_wrap_once [of "r + k"] mod_wrap_once [of "r + c"])

lemma ring_contents_update_outside:
  "c < n \<Longrightarrow> r < n \<Longrightarrow> ring_contents n (buf[(r + c) mod n := b]) r c = ring_contents n buf r c"
  by (simp add: ring_contents_def ring_slots_distinct [THEN not_sym])

lemma ring_contents_snoc:
  assumes "length buf = n" "c < n" "r < n"
  shows "ring_contents n (buf[(r + c) mod n := b]) r (Suc c) = ring_contents n buf r c @ [b]"
proof -
  have "ring_contents n (buf[(r + c) mod n := b]) r (Suc c)
          = ring_contents n (buf[(r + c) mod n := b]) r c @ [buf[(r + c) mod n := b] ! ((r + c) mod n)]"
    by (simp add: ring_contents_def)
  moreover have "(r + c) mod n < length buf" using assms by simp
  ultimately show ?thesis using ring_contents_update_outside [OF assms(2,3)] by simp
qed

text \<open>Writing what fits appends to the queue.\<close>

lemma ring_put_contents:
  "length buf = n \<Longrightarrow> r < n \<Longrightarrow> c + length bs \<le> n \<Longrightarrow>
   ring_contents n (fst (ring_put n buf ((r + c) mod n) bs)) r (c + length bs) = ring_contents n buf r c @ bs"
proof (induction bs arbitrary: buf c)
  case (Cons b bs)
  let ?buf = "buf[(r + c) mod n := b]"
  have "ring_contents n (fst (ring_put n ?buf ((r + Suc c) mod n) bs)) r (Suc c + length bs)
          = ring_contents n ?buf r (Suc c) @ bs"
    using Cons.prems by (intro Cons.IH) auto
  with ring_contents_snoc [of buf n c r b] Cons.prems show ?case by (simp add: mod_Suc_eq)
qed simp

text \<open>Reading from the front drops what was read.\<close>

lemma ring_contents_take: "k \<le> c \<Longrightarrow> ring_contents n buf r k = take k (ring_contents n buf r c)"
  by (simp add: ring_contents_def take_map)

lemma ring_contents_drop:
  "k \<le> c \<Longrightarrow> ring_contents n buf ((r + k) mod n) (c - k) = drop k (ring_contents n buf r c)"
  by (rule nth_equalityI) (auto simp: ring_contents_def mod_add_left_eq add.assoc)

lemma ring_ok_put:
  assumes "ring_ok n buf r w c" "c + length bs \<le> n" "ring_put n buf w bs = (buf', w')"
  shows "ring_ok n buf' r w' (c + length bs) \<and>
         ring_contents n buf' r (c + length bs) = ring_contents n buf r c @ bs"
proof -
  from assms(1) have o: "length buf = n" "r < n" "w = (r + c) mod n" by (simp_all add: ring_ok_def)
  have "w < n" using o by simp
  from snd_ring_put [OF this, of buf bs] have w': "w' = (r + (c + length bs)) mod n"
    using assms(3) o(3) by (simp add: mod_add_left_eq add.assoc)
  have "length buf' = n" using length_fst_ring_put [of n buf w bs] assms(3) o(1) by simp
  with w' o(2) assms(2) have "ring_ok n buf' r w' (c + length bs)" by (simp add: ring_ok_def)
  moreover have "buf' = fst (ring_put n buf ((r + c) mod n) bs)" using assms(3) o(3) by simp
  ultimately show ?thesis using ring_put_contents [OF o(1,2) assms(2)] by simp
qed

lemma ring_ok_get:
  assumes "ring_ok n buf r w c" "k \<le> c" "ring_get n buf r k = (bs, r')"
  shows "ring_ok n buf r' w (c - k) \<and> bs = take k (ring_contents n buf r c) \<and>
         ring_contents n buf r' (c - k) = drop k (ring_contents n buf r c)"
proof -
  from assms(1) have o: "length buf = n" "r < n" "w = (r + c) mod n" "c \<le> n" by (simp_all add: ring_ok_def)
  from ring_get_eq [OF o(2), of buf k] assms(3)
  have g: "bs = ring_contents n buf r k" "r' = (r + k) mod n" by simp_all
  have "(r' + (c - k)) mod n = (r + k + (c - k)) mod n" unfolding g(2) by (rule mod_add_left_eq)
  then have "w = (r' + (c - k)) mod n" using o(3) assms(2) by simp
  with o g(2) assms(2) have "ring_ok n buf r' w (c - k)" by (auto simp: ring_ok_def)
  moreover have "bs = take k (ring_contents n buf r c)"
    using g(1) ring_contents_take [OF assms(2), of n buf r] by metis
  moreover have "ring_contents n buf r' (c - k) = drop k (ring_contents n buf r c)"
    using g(2) ring_contents_drop [OF assms(2), of n buf r] by metis
  ultimately show ?thesis by blast
qed

section \<open>The contract of a byte queue\<close>

datatype 'b queue_op = QWrite "'b list" | QRead nat

text \<open>
  A run of operations: the bytes accepted by the writes and the bytes returned by the reads,
  each in order, and the final state.
\<close>

fun queue_run ::
  "('b list \<Rightarrow> 's \<Rightarrow> nat \<times> 's) \<Rightarrow> (nat \<Rightarrow> 's \<Rightarrow> 'b list \<times> 's) \<Rightarrow> 'b queue_op list \<Rightarrow> 's \<Rightarrow> 'b list \<times> 'b list \<times> 's"
where
  "queue_run wr rd [] s = ([], [], s)"
| "queue_run wr rd (QWrite bs # ops) s =
     (let (n, s1) = wr bs s; (ws, rs, s2) = queue_run wr rd ops s1 in (take n bs @ ws, rs, s2))"
| "queue_run wr rd (QRead k # ops) s =
     (let (bs, s1) = rd k s; (ws, rs, s2) = queue_run wr rd ops s1 in (ws, bs @ rs, s2))"

locale byte_queue =
  fixes wr :: "'b list \<Rightarrow> 's \<Rightarrow> nat \<times> 's"
    and rd :: "nat \<Rightarrow> 's \<Rightarrow> 'b list \<times> 's"
    and contents :: "'s \<Rightarrow> 'b list"
    and invar :: "'s \<Rightarrow> bool"
    and capacity :: nat
  assumes write_law: "invar s \<Longrightarrow> wr bs s = (n, s') \<Longrightarrow>
      invar s' \<and> n \<le> length bs \<and> contents s' = contents s @ take n bs"
    and read_law: "invar s \<Longrightarrow> rd k s = (bs, s') \<Longrightarrow>
      invar s' \<and> length bs \<le> k \<and> contents s = bs @ contents s'"
    and bounded: "invar s \<Longrightarrow> length (contents s) \<le> capacity"
begin

text \<open>First in, first out: nothing is lost, duplicated or reordered by any run.\<close>

lemma run_fifo:
  "invar s \<Longrightarrow> queue_run wr rd ops s = (ws, rs, s') \<Longrightarrow>
   invar s' \<and> contents s @ ws = rs @ contents s'"
proof (induction ops arbitrary: s ws rs)
  case Nil
  then show ?case by simp
next
  case (Cons op ops)
  show ?case
  proof (cases op)
    case (QWrite bs)
    obtain n s1 where w: "wr bs s = (n, s1)" by fastforce
    obtain ws1 where r: "queue_run wr rd ops s1 = (ws1, rs, s')" "ws = take n bs @ ws1"
      using Cons.prems(2) QWrite w by (auto split: prod.splits)
    from write_law [OF Cons.prems(1) w] Cons.IH [OF _ r(1)] show ?thesis by (auto simp: r(2))
  next
    case (QRead k)
    obtain bs s1 where w: "rd k s = (bs, s1)" by fastforce
    obtain rs1 where r: "queue_run wr rd ops s1 = (ws, rs1, s')" "rs = bs @ rs1"
      using Cons.prems(2) QRead w by (auto split: prod.splits)
    from read_law [OF Cons.prems(1) w] Cons.IH [OF _ r(1)] show ?thesis by (auto simp: r(2))
  qed
qed

lemma run_bounded:
  "invar s \<Longrightarrow> queue_run wr rd ops s = (ws, rs, s') \<Longrightarrow> length (contents s') \<le> capacity"
  using run_fifo bounded by blast

end

end
