(* ===== verification/Pipe.thy ===== *)
theory Pipe
  imports Byte_Ring
begin

text \<open>
  Pipes, \<^verbatim>\<open>kernel/lib/pipe.c\<close>: the 4 KiB ring with its end-of-file, broken-pipe and
  atomic-write rules, and the life of a \<^verbatim>\<open>pipe_t\<close> object from creation to the last
  close. Each operation runs under the interrupt-saving spinlock and is one step. The event
  trace calls (\<^verbatim>\<open>ktm_event_emit4\<close>) and the wake-up of sleeping tasks
  (\<^verbatim>\<open>pipe_wake_all\<close>, defined in the system-call layer) change no pipe state and are left
  out.
\<close>

section \<open>State\<close>

record pipe_t =
  buffer :: "u8 list"
  read_pos :: nat
  write_pos :: nat
  count :: nat
  pipe_id :: nat
  fd_refs :: int
  readers :: int
  writers :: int
  closed_read :: bool
  closed_write :: bool
  named :: bool

abbreviation PIPE_SIZE :: nat where
  "PIPE_SIZE \<equiv> 4096"

abbreviation PIPE_BUF :: nat where
  "PIPE_BUF \<equiv> PIPE_SIZE"

text \<open>
  The file's static counters and the objects that \<^verbatim>\<open>kmalloc_try\<close> has handed out and
  \<^verbatim>\<open>kfree\<close> has not taken back, by address.
\<close>

record pipe_sys =
  pipes :: "nat \<rightharpoonup> pipe_t"
  pipe_stats_created :: nat
  pipe_stats_destroyed :: nat
  pipe_next_id :: nat

definition pipe_sys_boot :: pipe_sys where
  "pipe_sys_boot = \<lparr>pipes = Map.empty, pipe_stats_created = 0, pipe_stats_destroyed = 0, pipe_next_id = 1\<rparr>"

section \<open>Operations on one pipe\<close>

text \<open>The object after \<^verbatim>\<open>memset(pipe, 0, sizeof(*pipe))\<close> and the assignment of its id.\<close>

definition pipe_zeroed :: "nat \<Rightarrow> pipe_t" where
  "pipe_zeroed ident = \<lparr>buffer = replicate PIPE_SIZE 0, read_pos = 0, write_pos = 0, count = 0,
     pipe_id = ident, fd_refs = 0, readers = 0, writers = 0, closed_read = False,
     closed_write = False, named = False\<rparr>"

definition pipe_end_open :: "int \<Rightarrow> pipe_t \<Rightarrow> pipe_t" where
  "pipe_end_open e p =
     (let p1 = p\<lparr>fd_refs := fd_refs p + 1\<rparr> in
      if e = 0
      then p1\<lparr>readers := readers p1 + 1, closed_read := (if named p1 then False else closed_read p1)\<rparr>
      else p1\<lparr>writers := writers p1 + 1, closed_write := (if named p1 then False else closed_write p1)\<rparr>)"

definition pipe_read_locked :: "nat \<Rightarrow> pipe_t \<Rightarrow> (errno + u8 list) \<times> pipe_t" where
  "pipe_read_locked n p =
     (if count p = 0
      then (if writers p \<le> 0 then (Inr [], p) else (Inl EAGAIN, p))
      else let to_read = (if n < count p then n else count p);
               (bs, r) = ring_get PIPE_SIZE (buffer p) (read_pos p) to_read
           in (Inr bs, p\<lparr>read_pos := r, count := sub64 (count p) to_read\<rparr>))"

definition pipe_write_locked :: "u8 list \<Rightarrow> pipe_t \<Rightarrow> (errno + nat) \<times> pipe_t" where
  "pipe_write_locked src p =
     (if readers p \<le> 0 then (Inl EPIPE, p)
      else let space = sub64 PIPE_SIZE (count p) in
        if space = 0 then (Inl EAGAIN, p)
        else if length src \<le> PIPE_BUF \<and> space < length src then (Inl EAGAIN, p)
        else let to_write = (if length src < space then length src else space);
                 (buf, w) = ring_put PIPE_SIZE (buffer p) (write_pos p) (take to_write src)
             in (Inr to_write, p\<lparr>buffer := buf, write_pos := w, count := count p + to_write\<rparr>))"

text \<open>
  The whole calls: the pipe pointer and the user buffer may be NULL (\<^verbatim>\<open>None\<close>, and
  \<open>buf_ok = False\<close> for the destination of a read).
\<close>

definition pipe_read :: "pipe_t option \<Rightarrow> bool \<Rightarrow> nat \<Rightarrow> (errno + u8 list) \<times> pipe_t option" where
  "pipe_read pipe buf_ok n =
     (case pipe of
        None \<Rightarrow> (Inl EINVAL, None)
      | Some p \<Rightarrow> if \<not> buf_ok then (Inl EINVAL, Some p)
                  else let (r, p') = pipe_read_locked n p in (r, Some p'))"

definition pipe_write :: "pipe_t option \<Rightarrow> u8 list option \<Rightarrow> (errno + nat) \<times> pipe_t option" where
  "pipe_write pipe buf =
     (case (pipe, buf) of
        (Some p, Some src) \<Rightarrow> let (r, p') = pipe_write_locked src p in (r, Some p')
      | _ \<Rightarrow> (Inl EINVAL, pipe))"

text \<open>The locked part of \<^verbatim>\<open>pipe_close_end\<close>: the object and whether this was the last fd.\<close>

definition pipe_end_close :: "int \<Rightarrow> pipe_t \<Rightarrow> pipe_t \<times> bool" where
  "pipe_end_close e p =
     (let p1 = (if e = 0
                then p\<lparr>readers := (if readers p > 0 then readers p - 1 else readers p), closed_read := True\<rparr>
                else p\<lparr>writers := (if writers p > 0 then writers p - 1 else writers p), closed_write := True\<rparr>)
      in if fd_refs p1 > 0
         then (p1\<lparr>fd_refs := fd_refs p1 - 1\<rparr>, fd_refs p1 - 1 = 0)
         else (p1, False))"

section \<open>Operations on the set of pipes\<close>

text \<open>
  \<open>fault\<close> is \<^verbatim>\<open>KTM_FAULT_HIT("pipe.create")\<close>, \<open>mem\<close> the result of
  \<^verbatim>\<open>kmalloc_try\<close>.
\<close>

definition pipe_create :: "bool \<Rightarrow> nat option \<Rightarrow> pipe_sys \<Rightarrow> nat option \<times> pipe_sys" where
  "pipe_create fault mem s =
     (if fault then (None, s)
      else case mem of
             None \<Rightarrow> (None, s)
           | Some a \<Rightarrow> (Some a, s\<lparr>pipes := (pipes s)(a \<mapsto> pipe_zeroed (pipe_next_id s)),
                                   pipe_next_id := pipe_next_id s + 1,
                                   pipe_stats_created := pipe_stats_created s + 1\<rparr>))"

definition pipe_stats_get :: "pipe_sys \<Rightarrow> nat \<times> nat" where
  "pipe_stats_get s = (pipe_stats_created s, pipe_stats_destroyed s)"

definition pipe_acquire_end :: "nat option \<Rightarrow> int \<Rightarrow> pipe_sys \<Rightarrow> pipe_sys" where
  "pipe_acquire_end ptr e s =
     (case ptr of
        None \<Rightarrow> s
      | Some a \<Rightarrow> if e \<noteq> 0 \<and> e \<noteq> 1 then s
                  else s\<lparr>pipes := (pipes s)(a := map_option (pipe_end_open e) (pipes s a))\<rparr>)"

definition pipe_acquire :: "nat option \<Rightarrow> pipe_sys \<Rightarrow> pipe_sys" where
  "pipe_acquire ptr s =
     (case ptr of
        None \<Rightarrow> s
      | Some a \<Rightarrow> s\<lparr>pipes := (pipes s)(a := map_option (\<lambda>p. p\<lparr>fd_refs := fd_refs p + 1\<rparr>) (pipes s a))\<rparr>)"

definition pipe_close_end :: "nat option \<Rightarrow> int \<Rightarrow> pipe_sys \<Rightarrow> pipe_sys" where
  "pipe_close_end ptr e s =
     (case ptr of
        None \<Rightarrow> s
      | Some a \<Rightarrow>
          if e \<noteq> 0 \<and> e \<noteq> 1 then s
          else case pipes s a of
                 None \<Rightarrow> s
               | Some p \<Rightarrow>
                   let (p', final) = pipe_end_close e p in
                   if final \<and> \<not> named p'
                   then s\<lparr>pipes := (pipes s)(a := None), pipe_stats_destroyed := pipe_stats_destroyed s + 1\<rparr>
                   else s\<lparr>pipes := (pipes s)(a \<mapsto> p')\<rparr>)"

definition pipe_abort_unopened :: "nat option \<Rightarrow> pipe_sys \<Rightarrow> pipe_sys" where
  "pipe_abort_unopened ptr s =
     (case ptr of
        None \<Rightarrow> s
      | Some a \<Rightarrow> s\<lparr>pipes := (pipes s)(a := None), pipe_stats_destroyed := pipe_stats_destroyed s + 1\<rparr>)"

text \<open>\<^verbatim>\<open>pipe_ipc_lifecycle_audit\<close>: the two flags it reports, given the fd-slot statistics.\<close>

definition pipe_ipc_lifecycle_audit :: "nat \<Rightarrow> nat \<Rightarrow> pipe_sys \<Rightarrow> bool \<times> bool" where
  "pipe_ipc_lifecycle_audit fd_created fd_destroyed s =
     (pipe_stats_created s = pipe_stats_destroyed s, fd_created = fd_destroyed)"

section \<open>The ring of a pipe is a queue of bytes\<close>

definition pipe_bytes :: "pipe_t \<Rightarrow> u8 list" where
  "pipe_bytes p = ring_contents PIPE_SIZE (buffer p) (read_pos p) (count p)"

definition pipe_ok :: "pipe_t \<Rightarrow> bool" where
  "pipe_ok p \<longleftrightarrow> ring_ok PIPE_SIZE (buffer p) (read_pos p) (write_pos p) (count p)"

lemma length_pipe_bytes [simp]: "length (pipe_bytes p) = count p"
  by (simp add: pipe_bytes_def)

lemma pipe_ok_count: "pipe_ok p \<Longrightarrow> count p \<le> PIPE_SIZE"
  by (simp add: pipe_ok_def ring_ok_def)

lemma pipe_zeroed_ok: "pipe_ok (pipe_zeroed i)"
  by (simp add: pipe_ok_def pipe_zeroed_def ring_ok_def)

lemma pipe_space: "pipe_ok p \<Longrightarrow> sub64 PIPE_SIZE (count p) = PIPE_SIZE - count p"
  using pipe_ok_count [of p] by simp

lemma pipe_write_locked_ok:
  assumes "pipe_ok p" "pipe_write_locked src p = (r, p')"
  shows "pipe_ok p' \<and> (case r of Inl _ \<Rightarrow> p' = p
                        | Inr n \<Rightarrow> n \<le> length src \<and> pipe_bytes p' = pipe_bytes p @ take n src)"
proof (cases r)
  case (Inl e)
  then have "p' = p" using assms(2)
    by (auto simp: pipe_write_locked_def Let_def split: if_splits prod.splits)
  then show ?thesis using assms(1) Inl by simp
next
  case (Inr n)
  let ?bs = "take n src"
  obtain buf w where put: "ring_put PIPE_SIZE (buffer p) (write_pos p) ?bs = (buf, w)" by fastforce
  from assms(2) Inr have n: "n = (if length src < PIPE_SIZE - count p then length src else PIPE_SIZE - count p)"
    by (auto simp: pipe_write_locked_def Let_def pipe_space [OF assms(1)] split: if_splits prod.splits)
  with assms(2) Inr put have p': "p' = p\<lparr>buffer := buf, write_pos := w, count := count p + n\<rparr>"
    by (auto simp: pipe_write_locked_def Let_def pipe_space [OF assms(1)] split: if_splits prod.splits)
  from n pipe_ok_count [OF assms(1)] have len: "length ?bs = n" "count p + length ?bs \<le> PIPE_SIZE" by auto
  from ring_ok_put [OF assms(1) [unfolded pipe_ok_def] len(2) put] len(1) n p' Inr show ?thesis
    by (auto simp: pipe_ok_def pipe_bytes_def)
qed

lemma pipe_read_locked_ok:
  assumes "pipe_ok p" "pipe_read_locked n p = (r, p')"
  shows "pipe_ok p' \<and> (case r of Inl _ \<Rightarrow> p' = p
                        | Inr bs \<Rightarrow> bs = take n (pipe_bytes p) \<and> pipe_bytes p' = drop n (pipe_bytes p))"
proof (cases "count p = 0")
  case True
  then have "pipe_bytes p = []" by (simp add: pipe_bytes_def ring_contents_def)
  with True assms show ?thesis by (auto simp: pipe_read_locked_def split: if_splits)
next
  case False
  define k where "k = (if n < count p then n else count p)"
  obtain bs r' where get: "ring_get PIPE_SIZE (buffer p) (read_pos p) k = (bs, r')" by fastforce
  have k: "k \<le> count p" by (simp add: k_def)
  then have sub: "sub64 (count p) k = count p - k" using pipe_ok_count [OF assms(1)] by simp
  from assms(2) False get sub have p': "r = Inr bs" "p' = p\<lparr>read_pos := r', count := count p - k\<rparr>"
    by (auto simp: pipe_read_locked_def Let_def k_def)
  from ring_ok_get [OF assms(1) [unfolded pipe_ok_def] k get]
  have g: "ring_ok PIPE_SIZE (buffer p) r' (write_pos p) (count p - k)" "bs = take k (pipe_bytes p)"
    "ring_contents PIPE_SIZE (buffer p) r' (count p - k) = drop k (pipe_bytes p)"
    by (simp_all add: pipe_bytes_def)
  have n: "take k (pipe_bytes p) = take n (pipe_bytes p)" "drop k (pipe_bytes p) = drop n (pipe_bytes p)"
    by (simp_all add: k_def)
  have "pipe_bytes p' = drop k (pipe_bytes p)" unfolding g(3) [symmetric] by (simp add: pipe_bytes_def p'(2))
  moreover have "pipe_ok p'" using g(1) by (simp add: pipe_ok_def p'(2))
  ultimately show ?thesis using g(2) p'(1) n by simp
qed

text \<open>
  A pipe as a byte queue: a refused write accepts no byte, a refused read returns none.
\<close>

definition pipe_wr :: "u8 list \<Rightarrow> pipe_t \<Rightarrow> nat \<times> pipe_t" where
  "pipe_wr src p = (case pipe_write_locked src p of (Inl _, p') \<Rightarrow> (0, p') | (Inr n, p') \<Rightarrow> (n, p'))"

definition pipe_rd :: "nat \<Rightarrow> pipe_t \<Rightarrow> u8 list \<times> pipe_t" where
  "pipe_rd n p = (case pipe_read_locked n p of (Inl _, p') \<Rightarrow> ([], p') | (Inr bs, p') \<Rightarrow> (bs, p'))"

lemma pipe_wr_law:
  assumes "pipe_ok p" "pipe_wr src p = (n, p')"
  shows "pipe_ok p' \<and> n \<le> length src \<and> pipe_bytes p' = pipe_bytes p @ take n src"
proof -
  obtain r q where w: "pipe_write_locked src p = (r, q)" by fastforce
  show ?thesis
    using pipe_write_locked_ok [OF assms(1) w] assms w by (cases r) (auto simp: pipe_wr_def)
qed

lemma pipe_rd_law:
  assumes "pipe_ok p" "pipe_rd k p = (bs, p')"
  shows "pipe_ok p' \<and> length bs \<le> k \<and> pipe_bytes p = bs @ pipe_bytes p'"
proof -
  obtain r q where w: "pipe_read_locked k p = (r, q)" by fastforce
  show ?thesis
    using pipe_read_locked_ok [OF assms(1) w] assms w
    by (cases r) (auto simp: pipe_rd_def)
qed

interpretation pipe: byte_queue pipe_wr pipe_rd pipe_bytes pipe_ok PIPE_SIZE
proof
  show "\<And>s bs n s'. pipe_ok s \<Longrightarrow> pipe_wr bs s = (n, s') \<Longrightarrow>
      pipe_ok s' \<and> n \<le> length bs \<and> pipe_bytes s' = pipe_bytes s @ take n bs"
    by (rule pipe_wr_law)
  show "\<And>s k bs s'. pipe_ok s \<Longrightarrow> pipe_rd k s = (bs, s') \<Longrightarrow>
      pipe_ok s' \<and> length bs \<le> k \<and> pipe_bytes s = bs @ pipe_bytes s'"
    by (rule pipe_rd_law)
  show "\<And>s. pipe_ok s \<Longrightarrow> length (pipe_bytes s) \<le> PIPE_SIZE"
    by (simp add: pipe_ok_count)
qed

section \<open>The life of a pipe\<close>

text \<open>
  Ends and descriptors agree: every open descriptor is a reader or a writer. This is the
  discipline of \<^verbatim>\<open>pipe_acquire_end\<close>/\<^verbatim>\<open>pipe_close_end\<close> pairs; the
  unpaired \<^verbatim>\<open>pipe_acquire\<close> has no caller in the tree.
\<close>

definition pipe_ends_ok :: "pipe_t \<Rightarrow> bool" where
  "pipe_ends_ok p \<longleftrightarrow> 0 \<le> readers p \<and> 0 \<le> writers p \<and> fd_refs p = readers p + writers p"

definition pipe_has_end :: "int \<Rightarrow> pipe_t \<Rightarrow> bool" where
  "pipe_has_end e p \<longleftrightarrow> (e = 0 \<and> 0 < readers p) \<or> (e = 1 \<and> 0 < writers p)"

text \<open>
  The calls the kernel makes: a descriptor closes an end it holds, an object that was never
  opened is aborted, the FIFO table marks and unmarks a pipe as named, and data flows.
\<close>

inductive pipe_reachable :: "pipe_sys \<Rightarrow> bool" where
  boot: "pipe_reachable pipe_sys_boot"
| create: "pipe_reachable s \<Longrightarrow> (\<And>a. mem = Some a \<Longrightarrow> pipes s a = None) \<Longrightarrow>
    pipe_reachable (snd (pipe_create fault mem s))"
| acquire: "pipe_reachable s \<Longrightarrow> pipe_reachable (pipe_acquire_end ptr e s)"
| close: "pipe_reachable s \<Longrightarrow> pipes s a = Some p \<Longrightarrow> pipe_has_end e p \<Longrightarrow>
    pipe_reachable (pipe_close_end (Some a) e s)"
| abort: "pipe_reachable s \<Longrightarrow> pipes s a = Some p \<Longrightarrow> fd_refs p = 0 \<Longrightarrow>
    pipe_reachable (pipe_abort_unopened (Some a) s)"
| name: "pipe_reachable s \<Longrightarrow> pipes s a = Some p \<Longrightarrow>
    pipe_reachable (s\<lparr>pipes := (pipes s)(a \<mapsto> p\<lparr>named := b\<rparr>)\<rparr>)"
| data_read: "pipe_reachable s \<Longrightarrow> pipes s a = Some p \<Longrightarrow>
    pipe_reachable (s\<lparr>pipes := (pipes s)(a := snd (pipe_read (Some p) ok n))\<rparr>)"
| data_write: "pipe_reachable s \<Longrightarrow> pipes s a = Some p \<Longrightarrow>
    pipe_reachable (s\<lparr>pipes := (pipes s)(a := snd (pipe_write (Some p) buf))\<rparr>)"

definition pipe_sys_ok :: "pipe_sys \<Rightarrow> bool" where
  "pipe_sys_ok s \<longleftrightarrow> finite (dom (pipes s)) \<and>
     pipe_stats_created s = pipe_stats_destroyed s + card (dom (pipes s)) \<and>
     (\<forall>a p. pipes s a = Some p \<longrightarrow> pipe_ok p \<and> pipe_ends_ok p)"

lemma pipe_zeroed_ends: "pipe_ends_ok (pipe_zeroed i)"
  by (simp add: pipe_zeroed_def pipe_ends_ok_def)

lemma pipe_end_open_ok: "pipe_ok p \<Longrightarrow> pipe_ends_ok p \<Longrightarrow> pipe_ok (pipe_end_open e p) \<and> pipe_ends_ok (pipe_end_open e p)"
  by (simp add: pipe_end_open_def pipe_ok_def pipe_ends_ok_def Let_def)

lemma pipe_end_close_ok:
  assumes "pipe_ok p" "pipe_ends_ok p" "pipe_has_end e p" "pipe_end_close e p = (p', final)"
  shows "pipe_ok p' \<and> pipe_ends_ok p' \<and> (final \<longleftrightarrow> readers p' = 0 \<and> writers p' = 0) \<and> named p' = named p \<and>
         fd_refs p' = fd_refs p - 1"
  using assms by (auto simp: pipe_end_close_def pipe_ok_def pipe_ends_ok_def pipe_has_end_def Let_def)

lemma pipe_data_ends:
  "pipe_read_locked n p = (r, p') \<Longrightarrow> readers p' = readers p \<and> writers p' = writers p \<and> fd_refs p' = fd_refs p"
  "pipe_write_locked src p = (q, p') \<Longrightarrow> readers p' = readers p \<and> writers p' = writers p \<and> fd_refs p' = fd_refs p"
  by (auto simp: pipe_read_locked_def pipe_write_locked_def Let_def split: if_splits prod.splits)

lemma pipe_read_keeps:
  assumes "pipe_ok p" "pipe_ends_ok p"
  obtains p' where "snd (pipe_read (Some p) ok n) = Some p'" "pipe_ok p'" "pipe_ends_ok p'"
proof (cases ok)
  case True
  obtain r p' where r: "pipe_read_locked n p = (r, p')" by fastforce
  with pipe_read_locked_ok [OF assms(1) r] pipe_data_ends(1) [OF r] assms True that show ?thesis
    by (simp add: pipe_read_def pipe_ends_ok_def)
next
  case False
  with assms that show ?thesis by (simp add: pipe_read_def)
qed

lemma pipe_write_keeps:
  assumes "pipe_ok p" "pipe_ends_ok p"
  obtains p' where "snd (pipe_write (Some p) buf) = Some p'" "pipe_ok p'" "pipe_ends_ok p'"
proof (cases buf)
  case (Some src)
  obtain r p' where r: "pipe_write_locked src p = (r, p')" by fastforce
  with pipe_write_locked_ok [OF assms(1) r] pipe_data_ends(2) [OF r] assms Some that show ?thesis
    by (simp add: pipe_write_def pipe_ends_ok_def)
next
  case None
  with assms that show ?thesis by (simp add: pipe_write_def)
qed

text \<open>Replacing a live object by a well-formed one, or freeing it.\<close>

lemma pipe_sys_ok_update:
  assumes "pipe_sys_ok s" "pipes s a = Some p" "pipe_ok p'" "pipe_ends_ok p'"
  shows "pipe_sys_ok (s\<lparr>pipes := (pipes s)(a \<mapsto> p')\<rparr>)"
proof -
  have "insert a (dom (pipes s)) = dom (pipes s)" using assms(2) by auto
  then show ?thesis using assms by (auto simp: pipe_sys_ok_def)
qed

lemma pipe_sys_ok_free:
  assumes "pipe_sys_ok s" "pipes s a = Some p"
  shows "pipe_sys_ok (s\<lparr>pipes := (pipes s)(a := None), pipe_stats_destroyed := pipe_stats_destroyed s + 1\<rparr>)"
proof -
  have fin: "finite (dom (pipes s))" and mem: "a \<in> dom (pipes s)"
    using assms by (auto simp: pipe_sys_ok_def)
  then have "card (dom (pipes s)) = Suc (card (dom (pipes s) - {a}))" by (rule card.remove)
  then show ?thesis using assms by (auto simp: pipe_sys_ok_def)
qed

lemma pipe_sys_ok_add:
  assumes "pipe_sys_ok s" "pipes s a = None" "pipe_ok p" "pipe_ends_ok p"
  shows "pipe_sys_ok (s\<lparr>pipes := (pipes s)(a \<mapsto> p), pipe_next_id := i,
                        pipe_stats_created := pipe_stats_created s + 1\<rparr>)"
proof -
  have "finite (dom (pipes s))" "a \<notin> dom (pipes s)" using assms by (auto simp: pipe_sys_ok_def)
  then have "card (insert a (dom (pipes s))) = Suc (card (dom (pipes s)))" by simp
  then show ?thesis using assms by (simp add: pipe_sys_ok_def)
qed

lemma pipe_reachable_ok: "pipe_reachable s \<Longrightarrow> pipe_sys_ok s"
proof (induction rule: pipe_reachable.induct)
  case boot
  show ?case by (simp add: pipe_sys_ok_def pipe_sys_boot_def)
next
  case (create s mem fault)
  show ?case
  proof (cases "fault \<or> mem = None")
    case True
    then show ?thesis using create.IH by (auto simp: pipe_create_def)
  next
    case False
    then obtain a where a: "mem = Some a" "\<not> fault" by blast
    from pipe_sys_ok_add [OF create.IH create.hyps(2) [OF a(1)] pipe_zeroed_ok pipe_zeroed_ends]
    show ?thesis using a by (simp add: pipe_create_def)
  qed
next
  case (acquire s ptr e)
  show ?case
  proof (cases "\<exists>a p. ptr = Some a \<and> pipes s a = Some p \<and> (e = 0 \<or> e = 1)")
    case True
    then obtain a p where a: "ptr = Some a" "pipes s a = Some p" "e = 0 \<or> e = 1" by blast
    then have "pipe_ok p" "pipe_ends_ok p" using acquire.IH by (auto simp: pipe_sys_ok_def)
    with pipe_end_open_ok pipe_sys_ok_update [OF acquire.IH a(2)] a show ?thesis
      by (auto simp: pipe_acquire_end_def)
  next
    case False
    then have "pipe_acquire_end ptr e s = s"
      by (cases s) (auto simp: pipe_acquire_end_def fun_upd_idem split: option.splits)
    with acquire.IH show ?thesis by simp
  qed
next
  case (close s a p e)
  obtain p' final where c: "pipe_end_close e p = (p', final)" by fastforce
  have p: "pipe_ok p" "pipe_ends_ok p" using close by (auto simp: pipe_sys_ok_def)
  note k = pipe_end_close_ok [OF p close.hyps(3) c]
  have "pipe_close_end (Some a) e s =
     (if final \<and> \<not> named p'
      then s\<lparr>pipes := (pipes s)(a := None), pipe_stats_destroyed := pipe_stats_destroyed s + 1\<rparr>
      else s\<lparr>pipes := (pipes s)(a \<mapsto> p')\<rparr>)"
    using close.hyps(2,3) c by (auto simp: pipe_close_end_def pipe_has_end_def)
  then show ?case
    using pipe_sys_ok_free [OF close.IH close.hyps(2)] pipe_sys_ok_update [OF close.IH close.hyps(2)] k by simp
next
  case (abort s a p)
  then show ?case using pipe_sys_ok_free by (simp add: pipe_abort_unopened_def)
next
  case (name s a p b)
  then have "pipe_ok (p\<lparr>named := b\<rparr>) \<and> pipe_ends_ok (p\<lparr>named := b\<rparr>)"
    by (auto simp: pipe_sys_ok_def pipe_ok_def pipe_ends_ok_def)
  with name show ?case by (simp add: pipe_sys_ok_update)
next
  case (data_read s a p ok n)
  then have "pipe_ok p" "pipe_ends_ok p" by (auto simp: pipe_sys_ok_def)
  then obtain p' where "snd (pipe_read (Some p) ok n) = Some p'" "pipe_ok p'" "pipe_ends_ok p'"
    by (rule pipe_read_keeps)
  with pipe_sys_ok_update [OF data_read.IH data_read.hyps(2)] show ?case by simp
next
  case (data_write s a p buf)
  then have "pipe_ok p" "pipe_ends_ok p" by (auto simp: pipe_sys_ok_def)
  then obtain p' where "snd (pipe_write (Some p) buf) = Some p'" "pipe_ok p'" "pipe_ends_ok p'"
    by (rule pipe_write_keeps)
  with pipe_sys_ok_update [OF data_write.IH data_write.hyps(2)] show ?case by simp
qed

section \<open>Properties\<close>

text \<open>A freshly created pipe with one reader and one writer.\<close>

definition pipe_both_ends :: pipe_t where
  "pipe_both_ends = pipe_end_open 1 (pipe_end_open 0 (pipe_zeroed 1))"

lemma pipe_both_ends_eq:
  "pipe_both_ends = \<lparr>buffer = replicate PIPE_SIZE 0, read_pos = 0, write_pos = 0, count = 0,
     pipe_id = 1, fd_refs = 2, readers = 1, writers = 1, closed_read = False,
     closed_write = False, named = False\<rparr>"
  by (simp add: pipe_both_ends_def pipe_end_open_def pipe_zeroed_def Let_def)

lemma pipe_both_ends_ok: "pipe_ok pipe_both_ends"
  by (simp add: pipe_both_ends_eq pipe_ok_def ring_ok_def)

text \<open>
  C20: A pipe is a FIFO byte stream. For every interleaving of \<^verbatim>\<open>pipe_write\<close> and
  \<^verbatim>\<open>pipe_read\<close> calls, the bytes queued before followed by the bytes the writes
  accepted are exactly the bytes the reads returned followed by the bytes still queued: nothing
  is lost, duplicated, reordered or invented (no stale ring content), and never more than
  4096 bytes are queued.
\<close>

theorem pipe_stream_fifo:
  assumes "pipe_ok p" and "queue_run pipe_wr pipe_rd ops p = (ws, rs, p')"
  shows "pipe_bytes p @ ws = rs @ pipe_bytes p' \<and> length (pipe_bytes p') \<le> PIPE_SIZE \<and> pipe_ok p'"
  using pipe.run_fifo [OF assms] pipe.run_bounded [OF assms] by blast

theorem pipe_stream_fifo_witness:
  "\<exists>p'. queue_run pipe_wr pipe_rd [QWrite [7, 9], QRead 1] pipe_both_ends = ([7, 9], [7], p') \<and>
        pipe_bytes p' = [9]"
proof -
  have e: "pipe_bytes pipe_both_ends = []" by (simp add: pipe_both_ends_eq pipe_bytes_def ring_contents_def)
  obtain p' where r: "queue_run pipe_wr pipe_rd [QWrite [7, 9], QRead 1] pipe_both_ends = ([7, 9], [7], p')"
    by (simp add: pipe_wr_def pipe_rd_def pipe_write_locked_def pipe_read_locked_def pipe_both_ends_eq Let_def)
  from pipe_stream_fifo [OF pipe_both_ends_ok r] e r show ?thesis by auto
qed

text \<open>
  Write atomicity (\<^verbatim>\<open>pipe(7)\<close>). A write of at most \<^verbatim>\<open>PIPE_BUF\<close>
  bytes is all or nothing: \<^verbatim>\<open>-EPIPE\<close> exactly when there is no reader,
  \<^verbatim>\<open>-EAGAIN\<close> with the pipe unchanged when it does not fit or the pipe is full, and
  otherwise every byte is queued. A larger write accepts exactly the free space.
\<close>

theorem pipe_write_atomic:
  assumes "pipe_ok p" and "pipe_write (Some p) (Some src) = (r, Some p')"
  shows "(r = Inl EPIPE \<longleftrightarrow> readers p \<le> 0) \<and>
    (readers p > 0 \<and> length src \<le> PIPE_BUF \<longrightarrow>
       (if count p = PIPE_SIZE \<or> PIPE_SIZE - count p < length src
        then r = Inl EAGAIN \<and> p' = p
        else r = Inr (length src) \<and> pipe_bytes p' = pipe_bytes p @ src)) \<and>
    (readers p > 0 \<and> length src > PIPE_BUF \<and> count p < PIPE_SIZE \<longrightarrow>
       r = Inr (PIPE_SIZE - count p) \<and> pipe_bytes p' = pipe_bytes p @ take (PIPE_SIZE - count p) src)"
proof -
  have w: "pipe_write_locked src p = (r, p')"
    using assms(2) by (simp add: pipe_write_def split: prod.splits)
  note c = pipe_ok_count [OF assms(1)] and sp = pipe_space [OF assms(1)]
  have b: "r = Inr n \<Longrightarrow> pipe_bytes p' = pipe_bytes p @ take n src" for n
    using pipe_write_locked_ok [OF assms(1) w] by simp
  have keep: "r = Inl e \<Longrightarrow> p' = p" for e
    using pipe_write_locked_ok [OF assms(1) w] by simp
  have r: "r = (if readers p \<le> 0 then Inl EPIPE
               else if PIPE_SIZE - count p = 0 then Inl EAGAIN
               else if length src \<le> PIPE_BUF \<and> PIPE_SIZE - count p < length src then Inl EAGAIN
               else Inr (if length src < PIPE_SIZE - count p then length src else PIPE_SIZE - count p))"
    using w by (auto simp: pipe_write_locked_def Let_def sp split: if_splits prod.splits)
  show ?thesis
    using c b keep r by (auto split: if_splits)
qed

theorem pipe_write_atomic_witness:
  "\<exists>p'. pipe_write (Some pipe_both_ends) (Some [7, 9]) = (Inr 2, Some p') \<and> pipe_bytes p' = [7, 9]"
proof -
  have e: "pipe_bytes pipe_both_ends = []" "readers pipe_both_ends = 1" "count pipe_both_ends = 0"
    by (simp_all add: pipe_both_ends_eq pipe_bytes_def ring_contents_def)
  obtain p' where r: "pipe_write (Some pipe_both_ends) (Some [7, 9]) = (Inr 2, Some p')"
    by (simp add: pipe_write_def pipe_write_locked_def pipe_both_ends_eq Let_def)
  from pipe_write_atomic [OF pipe_both_ends_ok r] e r show ?thesis by auto
qed

text \<open>
  What a reader sees. On an empty pipe, end of file (0 bytes) exactly when no writer is
  left and \<^verbatim>\<open>-EAGAIN\<close> exactly when one is; on a non-empty pipe the first
  \<open>min n count\<close> queued bytes, whether or not writers remain.
\<close>

theorem pipe_read_eof:
  assumes "pipe_ok p" and "pipe_read (Some p) True n = (r, Some p')"
  shows "(pipe_bytes p = [] \<and> writers p \<le> 0 \<longrightarrow> r = Inr [] \<and> p' = p) \<and>
    (pipe_bytes p = [] \<and> writers p > 0 \<longrightarrow> r = Inl EAGAIN \<and> p' = p) \<and>
    (pipe_bytes p \<noteq> [] \<longrightarrow> r = Inr (take n (pipe_bytes p)) \<and> pipe_bytes p' = drop n (pipe_bytes p))"
proof -
  have w: "pipe_read_locked n p = (r, p')"
    using assms(2) by (simp add: pipe_read_def split: prod.splits)
  have "pipe_bytes p = [] \<longleftrightarrow> count p = 0"
    using length_pipe_bytes [of p] by (metis length_0_conv)
  moreover have "count p \<noteq> 0 \<Longrightarrow> \<exists>bs. r = Inr bs"
    using w by (auto simp: pipe_read_locked_def Let_def split: prod.splits)
  ultimately show ?thesis
    using w pipe_read_locked_ok [OF assms(1) w]
    by (cases "count p = 0") (auto simp: pipe_read_locked_def split: if_splits)
qed

theorem pipe_read_eof_witness:
  "pipe_read (Some pipe_both_ends) True 10 = (Inl EAGAIN, Some pipe_both_ends)"
proof -
  have e: "pipe_bytes pipe_both_ends = []" "writers pipe_both_ends = 1"
    by (simp_all add: pipe_both_ends_eq pipe_bytes_def ring_contents_def)
  obtain r p' where r: "pipe_read (Some pipe_both_ends) True 10 = (r, Some p')"
    by (simp add: pipe_read_def pipe_read_locked_def pipe_both_ends_eq)
  from pipe_read_eof [OF pipe_both_ends_ok r] e r show ?thesis by auto
qed

text \<open>
  Life cycle. In every reachable state the pipes created are those destroyed plus those
  alive, so \<^verbatim>\<open>pipe_ipc_lifecycle_audit\<close> reports balance exactly when none is alive;
  every live pipe has as many descriptors as open ends; and closing a held end frees the object
  exactly when it was the last end and the pipe is not a named FIFO.
\<close>

theorem pipe_lifecycle:
  assumes "pipe_reachable s"
  shows "pipe_stats_created s = pipe_stats_destroyed s + card (dom (pipes s)) \<and>
    (fst (pipe_ipc_lifecycle_audit fc fd s) \<longleftrightarrow> pipes s = Map.empty) \<and>
    (\<forall>a p. pipes s a = Some p \<longrightarrow> fd_refs p = readers p + writers p \<and> 0 \<le> readers p \<and> 0 \<le> writers p) \<and>
    (\<forall>a p e. pipes s a = Some p \<and> pipe_has_end e p \<longrightarrow>
       (pipes (pipe_close_end (Some a) e s) a = None \<longleftrightarrow> readers p + writers p = 1 \<and> \<not> named p))"
proof -
  note ok = pipe_reachable_ok [OF assms]
  have fin: "finite (dom (pipes s))" and
    n: "pipe_stats_created s = pipe_stats_destroyed s + card (dom (pipes s))"
    using ok by (simp_all add: pipe_sys_ok_def)
  have "card (dom (pipes s)) = 0 \<longleftrightarrow> pipes s = Map.empty" using fin by simp
  then have a: "fst (pipe_ipc_lifecycle_audit fc fd s) \<longleftrightarrow> pipes s = Map.empty"
    using n by (simp add: pipe_ipc_lifecycle_audit_def)
  have p: "pipe_ok p" "pipe_ends_ok p" if "pipes s a = Some p" for a p
    using ok that by (auto simp: pipe_sys_ok_def)
  have "pipes (pipe_close_end (Some a) e s) a = None \<longleftrightarrow> readers p + writers p = 1 \<and> \<not> named p"
    if h: "pipes s a = Some p" "pipe_has_end e p" for a p e
  proof -
    obtain p' final where c: "pipe_end_close e p = (p', final)" by fastforce
    from pipe_end_close_ok [OF p [OF h(1)] h(2) c] p(2) [OF h(1)]
    have "final \<longleftrightarrow> readers p + writers p = 1" "named p' = named p"
      by (auto simp: pipe_ends_ok_def)
    moreover have "e = 0 \<or> e = 1" using h(2) by (auto simp: pipe_has_end_def)
    ultimately show ?thesis using h(1) c by (auto simp: pipe_close_end_def)
  qed
  with a n p show ?thesis by (auto simp: pipe_ends_ok_def)
qed

theorem pipe_lifecycle_witness:
  "pipe_reachable (snd (pipe_create False (Some 64) pipe_sys_boot)) \<and>
   pipe_stats_created (snd (pipe_create False (Some 64) pipe_sys_boot)) = 1"
proof -
  have r: "pipe_reachable (snd (pipe_create False (Some 64) pipe_sys_boot))"
    by (intro pipe_reachable.create pipe_reachable.boot) (simp add: pipe_sys_boot_def)
  from pipe_lifecycle [OF r] r show ?thesis by (simp add: pipe_create_def pipe_sys_boot_def)
qed

end
