(* ===== verification/Linked_Queue.thy ===== *)
theory Linked_Queue
  imports Prelude
begin

text \<open>
  Singly linked queues of processes, as \<^verbatim>\<open>sched/rr_sched.c\<close>,
  \<^verbatim>\<open>sched/priority_sched.c\<close> and the wait queues of \<^verbatim>\<open>kernel/ipc.c\<close>
  keep them: nodes \<^verbatim>\<open>{process, next}\<close> in the kernel heap, reached from a head
  pointer. The heap is an explicit store from addresses to nodes. \<open>chain st p xs\<close> says
  that following \<^verbatim>\<open>next\<close> from \<open>p\<close> visits exactly the addresses and
  processes of \<open>xs\<close> and ends in NULL.
\<close>

section \<open>Nodes and walks\<close>

record qnode =
  process :: nat
  nxt :: "nat option"

type_synonym qstore = "nat \<rightharpoonup> qnode"

text \<open>
  \<^verbatim>\<open>for (scan = head; scan; scan = scan->next) if (scan->process == proc) ...\<close>:
  \<^verbatim>\<open>None\<close> when the walk does not end or meets a dangling pointer.
\<close>

partial_function (option) scan_for :: "qstore \<Rightarrow> nat option \<Rightarrow> nat \<Rightarrow> nat option option" where
  "scan_for st p proc =
     (case p of
        None \<Rightarrow> Some None
      | Some a \<Rightarrow> (case st a of
                     None \<Rightarrow> None
                   | Some n \<Rightarrow> if process n = proc then Some (Some a) else scan_for st (nxt n) proc))"

text \<open>The same walk with a trailing \<^verbatim>\<open>prev\<close> pointer, as the removals use it.\<close>

partial_function (option) scan_prev ::
  "qstore \<Rightarrow> nat option \<Rightarrow> nat option \<Rightarrow> nat \<Rightarrow> (nat option \<times> nat) option option" where
  "scan_prev st prev p proc =
     (case p of
        None \<Rightarrow> Some None
      | Some a \<Rightarrow> (case st a of
                     None \<Rightarrow> None
                   | Some n \<Rightarrow> if process n = proc then Some (Some (prev, a))
                               else scan_prev st (Some a) (nxt n) proc))"

text \<open>Counting the nodes whose process satisfies a test.\<close>

partial_function (option) scan_count :: "qstore \<Rightarrow> nat option \<Rightarrow> (nat \<Rightarrow> bool) \<Rightarrow> nat \<Rightarrow> nat option" where
  "scan_count st p test c =
     (case p of
        None \<Rightarrow> Some c
      | Some a \<Rightarrow> (case st a of
                     None \<Rightarrow> None
                   | Some n \<Rightarrow> scan_count st (nxt n) test (if test (process n) then c + 1 else c)))"

definition set_nxt :: "qstore \<Rightarrow> nat \<Rightarrow> nat option \<Rightarrow> qstore" where
  "set_nxt st a q = st(a := map_option (\<lambda>n. n\<lparr>nxt := q\<rparr>) (st a))"

section \<open>Chains\<close>

fun chain :: "qstore \<Rightarrow> nat option \<Rightarrow> (nat \<times> nat) list \<Rightarrow> bool" where
  "chain st p [] \<longleftrightarrow> p = None"
| "chain st p ((a, v) # xs) \<longleftrightarrow> p = Some a \<and> (\<exists>q. st a = Some \<lparr>process = v, nxt = q\<rparr> \<and> chain st q xs)"

text \<open>A chain segment that ends at an arbitrary pointer.\<close>

fun segment :: "qstore \<Rightarrow> nat option \<Rightarrow> (nat \<times> nat) list \<Rightarrow> nat option \<Rightarrow> bool" where
  "segment st p [] q \<longleftrightarrow> p = q"
| "segment st p ((a, v) # xs) q \<longleftrightarrow> p = Some a \<and> (\<exists>r. st a = Some \<lparr>process = v, nxt = r\<rparr> \<and> segment st r xs q)"

definition addrs :: "(nat \<times> nat) list \<Rightarrow> nat list" where
  "addrs xs = map fst xs"

definition procs :: "(nat \<times> nat) list \<Rightarrow> nat list" where
  "procs xs = map snd xs"

lemma addrs_simps [simp]:
  "addrs [] = []" "addrs ((a, v) # xs) = a # addrs xs" "addrs (xs @ ys) = addrs xs @ addrs ys"
  by (simp_all add: addrs_def)

lemma procs_simps [simp]:
  "procs [] = []" "procs ((a, v) # xs) = v # procs xs" "procs (xs @ ys) = procs xs @ procs ys"
  by (simp_all add: procs_def)

lemma length_addrs [simp]: "length (addrs xs) = length xs"
  and length_procs [simp]: "length (procs xs) = length xs"
  by (simp_all add: addrs_def procs_def)

lemma chain_segment: "chain st p xs \<longleftrightarrow> segment st p xs None"
  by (induction st p xs rule: chain.induct) auto

lemma segment_append: "segment st p (xs @ ys) q \<longleftrightarrow> (\<exists>r. segment st p xs r \<and> segment st r ys q)"
proof (induction xs arbitrary: p)
  case (Cons x xs)
  obtain a v where "x = (a, v)" by fastforce
  with Cons show ?case by simp blast
qed simp

lemma chain_append: "chain st p (xs @ ys) \<longleftrightarrow> (\<exists>r. segment st p xs r \<and> chain st r ys)"
  by (simp add: chain_segment segment_append)

lemma chain_None_iff [simp]: "chain st None xs \<longleftrightarrow> xs = []"
  by (cases xs) auto

lemma chain_Nil_iff: "chain st p xs \<Longrightarrow> xs = [] \<longleftrightarrow> p = None"
  by (cases xs) auto

lemma chain_unique: "chain st p xs \<Longrightarrow> chain st p ys \<Longrightarrow> xs = ys"
proof (induction xs arbitrary: p ys)
  case (Cons x xs)
  then show ?case by (cases x; cases ys) auto
qed simp

lemma chain_distinct: "chain st p xs \<Longrightarrow> distinct (addrs xs)"
proof (induction xs arbitrary: p)
  case (Cons x xs)
  obtain a v where x: "x = (a, v)" by fastforce
  from Cons.prems x obtain q where q: "p = Some a" "chain st q xs" by auto
  have "a \<notin> set (addrs xs)"
  proof
    assume "a \<in> set (addrs xs)"
    then obtain us w vs where xs: "xs = us @ (a, w) # vs"
      by (auto simp: addrs_def dest!: split_list)
    with q(2) have "chain st (Some a) ((a, w) # vs)" by (auto simp: chain_append)
    from chain_unique [OF Cons.prems(1) [unfolded q(1)] this] show False by (simp add: xs)
  qed
  with Cons.IH [OF q(2)] show ?case by (simp add: x)
qed simp

lemma segment_cong:
  "(\<And>a. a \<in> set (addrs xs) \<Longrightarrow> st' a = st a) \<Longrightarrow> segment st' p xs q = segment st p xs q"
proof (induction xs arbitrary: p)
  case (Cons x xs)
  obtain a v where x: "x = (a, v)" by fastforce
  have "segment st' r xs q = segment st r xs q" for r
    by (rule Cons.IH) (use Cons.prems x in auto)
  with Cons.prems [of a] show ?case by (simp add: x)
qed simp

lemma chain_cong:
  "(\<And>a. a \<in> set (addrs xs) \<Longrightarrow> st' a = st a) \<Longrightarrow> chain st' p xs = chain st p xs"
  unfolding chain_segment by (rule segment_cong)

lemma chain_lookup:
  "chain st p xs \<Longrightarrow> (a, v) \<in> set xs \<Longrightarrow> \<exists>q. st a = Some \<lparr>process = v, nxt = q\<rparr>"
proof (induction xs arbitrary: p)
  case (Cons x xs)
  obtain b w where x: "x = (b, w)" by fastforce
  with Cons.prems obtain q where q: "st b = Some \<lparr>process = w, nxt = q\<rparr>" "chain st q xs" by auto
  show ?case
  proof (cases "(a, v) = (b, w)")
    case False
    with Cons.prems(2) x have "(a, v) \<in> set xs" by auto
    from Cons.IH [OF q(2) this] show ?thesis .
  qed (use q in simp)
qed simp

lemma chain_dom: "chain st p xs \<Longrightarrow> set (addrs xs) \<subseteq> dom st"
  by (auto simp: addrs_def dest: chain_lookup)

lemma segment_snoc:
  "segment st p (xs @ [(a, v)]) q \<longleftrightarrow> segment st p xs (Some a) \<and> st a = Some \<lparr>process = v, nxt = q\<rparr>"
  by (auto simp: segment_append)

section \<open>The walks on a chain\<close>

lemma scan_for_chain:
  "chain st p xs \<Longrightarrow>
   scan_for st p proc = Some (map_option fst (List.find (\<lambda>(a, v). v = proc) xs))"
proof (induction xs arbitrary: p)
  case Nil
  then show ?case by (simp add: scan_for.simps)
next
  case (Cons x xs)
  obtain a v where x: "x = (a, v)" by fastforce
  with Cons show ?case by (auto simp: scan_for.simps [of st "Some a"])
qed

lemma scan_prev_chain_none:
  "chain st p xs \<Longrightarrow> proc \<notin> set (procs xs) \<Longrightarrow> scan_prev st prev p proc = Some None"
proof (induction xs arbitrary: p prev)
  case Nil
  then show ?case by (simp add: scan_prev.simps)
next
  case (Cons x xs)
  obtain a v where x: "x = (a, v)" by fastforce
  with Cons show ?case by (auto simp: scan_prev.simps [of st prev "Some a"])
qed

definition last_addr :: "nat option \<Rightarrow> (nat \<times> nat) list \<Rightarrow> nat option" where
  "last_addr d xs = (if xs = [] then d else Some (fst (last xs)))"

lemma last_addr_simps [simp]:
  "last_addr d [] = d" "last_addr d (xs @ [(a, v)]) = Some a"
  "last_addr d ((a, v) # xs) = last_addr (Some a) xs"
  by (simp_all add: last_addr_def)

lemma last_addr_append: "last_addr d (xs @ ys) = last_addr (last_addr d xs) ys"
  by (simp add: last_addr_def)

lemma scan_prev_chain_some:
  "chain st p (xs @ (a, proc) # ys) \<Longrightarrow> proc \<notin> set (procs xs) \<Longrightarrow>
   scan_prev st prev p proc = Some (Some (last_addr prev xs, a))"
proof (induction xs arbitrary: p prev)
  case Nil
  then show ?case by (auto simp: scan_prev.simps [of st prev "Some a"])
next
  case (Cons x xs)
  obtain b v where x: "x = (b, v)" by fastforce
  with Cons show ?case by (auto simp: scan_prev.simps [of st prev "Some b"])
qed

lemma scan_count_chain:
  "chain st p xs \<Longrightarrow> scan_count st p test c = Some (c + length (filter test (procs xs)))"
proof (induction xs arbitrary: p c)
  case Nil
  then show ?case by (simp add: scan_count.simps)
next
  case (Cons x xs)
  obtain a v where x: "x = (a, v)" by fastforce
  with Cons show ?case by (auto simp: scan_count.simps [of st "Some a"])
qed

lemma split_at_proc:
  assumes "proc \<in> set (procs xs)"
  obtains us a vs where "xs = us @ (a, proc) # vs" "proc \<notin> set (procs us)"
  using assms
proof (induction xs arbitrary: thesis)
  case (Cons x xs)
  obtain b v where x: "x = (b, v)" by fastforce
  show ?case
  proof (cases "v = proc")
    case True
    with Cons.prems(1) [of "[]" b xs] x show ?thesis by simp
  next
    case False
    with Cons.prems(2) x have "proc \<in> set (procs xs)" by auto
    then obtain us a vs where "xs = us @ (a, proc) # vs" "proc \<notin> set (procs us)"
      using Cons.IH by blast
    with False x Cons.prems(1) [of "(b, v) # us" a vs] show ?thesis by simp
  qed
qed simp

section \<open>Linking a node in and out\<close>

text \<open>Linking a new node after the last one.\<close>

lemma chain_link_last:
  assumes "chain st h (xs @ [(t, w)])" "a \<notin> set (addrs (xs @ [(t, w)]))"
  shows "chain (set_nxt (st(a \<mapsto> \<lparr>process = v, nxt = None\<rparr>)) t (Some a)) h (xs @ [(t, w), (a, v)])"
proof -
  let ?st = "set_nxt (st(a \<mapsto> \<lparr>process = v, nxt = None\<rparr>)) t (Some a)"
  from assms(1) have s: "segment st h xs (Some t)" "st t = Some \<lparr>process = w, nxt = None\<rparr>"
    by (auto simp: chain_segment segment_snoc)
  have d: "t \<notin> set (addrs xs)" using chain_distinct [OF assms(1)] by simp
  have "segment ?st h xs (Some t)"
    using s(1) d assms(2) by (subst segment_cong [of _ _ st]) (auto simp: set_nxt_def)
  moreover have "?st t = Some \<lparr>process = w, nxt = Some a\<rparr>" "?st a = Some \<lparr>process = v, nxt = None\<rparr>"
    using assms(2) s(2) by (auto simp: set_nxt_def)
  ultimately show ?thesis by (auto simp: chain_append)
qed

text \<open>Unlinking the head, and unlinking a later node.\<close>

lemma chain_unlink_head:
  assumes "chain st h ((a, v) # xs)"
  shows "\<exists>q. st a = Some \<lparr>process = v, nxt = q\<rparr> \<and> chain (st(a := None)) q xs"
proof -
  from assms obtain q where q: "st a = Some \<lparr>process = v, nxt = q\<rparr>" "chain st q xs" by auto
  have "a \<notin> set (addrs xs)" using chain_distinct [OF assms] by simp
  then have "chain (st(a := None)) q xs" using q(2) by (subst chain_cong [of _ _ st]) auto
  with q(1) show ?thesis by blast
qed

lemma chain_unlink_inner:
  assumes "chain st h (xs @ [(b, w)] @ (a, v) # ys)"
  shows "\<exists>q. st a = Some \<lparr>process = v, nxt = q\<rparr> \<and>
             chain ((set_nxt st b q)(a := None)) h (xs @ [(b, w)] @ ys) \<and> a \<noteq> b"
proof -
  from assms obtain q where q: "segment st h xs (Some b)" "st b = Some \<lparr>process = w, nxt = Some a\<rparr>"
    "st a = Some \<lparr>process = v, nxt = q\<rparr>" "chain st q ys"
    by (auto simp: chain_append)
  let ?st = "(set_nxt st b q)(a := None)"
  have d: "a \<noteq> b" "a \<notin> set (addrs xs)" "b \<notin> set (addrs xs)" "a \<notin> set (addrs ys)" "b \<notin> set (addrs ys)"
    using chain_distinct [OF assms] by auto
  have "segment ?st h xs (Some b)" using q(1) d by (subst segment_cong [of _ _ st]) (auto simp: set_nxt_def)
  moreover have "chain ?st q ys" using q(4) d by (subst chain_cong [of _ _ st]) (auto simp: set_nxt_def)
  moreover have "?st b = Some \<lparr>process = w, nxt = q\<rparr>" using q(2) d by (simp add: set_nxt_def)
  ultimately have "chain ?st h (xs @ [(b, w)] @ ys)" by (auto simp: chain_append)
  with q(3) d(1) show ?thesis by blast
qed

lemma dom_set_nxt [simp]: "dom (set_nxt st a q) = dom st"
  by (auto simp: set_nxt_def split: if_splits)

section \<open>Walking a chain in a cycle\<close>

text \<open>
  Both schedulers advance with \<^verbatim>\<open>next ? next : head\<close>. On a chain that is the step
  to the next position modulo the length; \<open>cyc_find\<close> is the first position from \<open>i\<close> on
  whose entry satisfies a test, within \<open>k\<close> steps.
\<close>

lemma chain_head_nth: "chain st h xs \<Longrightarrow> xs \<noteq> [] \<Longrightarrow> h = Some (addrs xs ! 0)"
  by (cases xs) auto

lemma chain_nth:
  "chain st h xs \<Longrightarrow> i < length xs \<Longrightarrow>
   st (addrs xs ! i) = Some \<lparr>process = procs xs ! i,
                             nxt = (if Suc i < length xs then Some (addrs xs ! Suc i) else None)\<rparr>"
proof (induction xs arbitrary: h i)
  case (Cons x xs)
  obtain a v where x: "x = (a, v)" by fastforce
  from Cons.prems(1) x obtain q where q: "st a = Some \<lparr>process = v, nxt = q\<rparr>" "chain st q xs" by auto
  show ?case
  proof (cases i)
    case 0
    have "q = (if xs = [] then None else Some (addrs xs ! 0))"
      using q(2) chain_head_nth [OF q(2)] by (cases xs) auto
    with 0 x q show ?thesis by simp
  next
    case (Suc j)
    with Cons.IH [OF q(2), of j] Cons.prems(2) x show ?thesis by simp
  qed
qed simp

lemma cyclic_next:
  assumes "chain st h xs" "i < length xs"
  shows "(case (if Suc i < length xs then Some (addrs xs ! Suc i) else None) of Some b \<Rightarrow> Some b | None \<Rightarrow> h) =
         Some (addrs xs ! (Suc i mod length xs))"
proof (cases "Suc i < length xs")
  case False
  with assms(2) have l: "Suc i = length xs" by simp
  then have "xs \<noteq> []" by auto
  from chain_head_nth [OF assms(1) this] l show ?thesis by auto
qed simp

fun cyc_find :: "(nat \<Rightarrow> bool) \<Rightarrow> nat list \<Rightarrow> nat \<Rightarrow> nat \<Rightarrow> nat option" where
  "cyc_find P ps i 0 = None"
| "cyc_find P ps i (Suc k) = (if P (ps ! i) then Some i else cyc_find P ps (Suc i mod length ps) k)"

lemma cyc_find_Some:
  "cyc_find P ps i k = Some j \<Longrightarrow> i < length ps \<Longrightarrow>
   j < length ps \<and> P (ps ! j) \<and>
   (\<exists>d < k. j = (i + d) mod length ps \<and> (\<forall>e < d. \<not> P (ps ! ((i + e) mod length ps))))"
proof (induction k arbitrary: i)
  case (Suc k)
  show ?case
  proof (cases "P (ps ! i)")
    case True
    with Suc.prems show ?thesis by (intro conjI exI [of _ 0]) auto
  next
    case False
    let ?i = "Suc i mod length ps"
    have "?i < length ps" using Suc.prems(2) by (cases ps) auto
    from False Suc.prems(1) Suc.IH [OF _ this] obtain d where
      d: "j < length ps" "P (ps ! j)" "d < k" "j = (?i + d) mod length ps"
         "\<forall>e < d. \<not> P (ps ! ((?i + e) mod length ps))" by auto
    have shift: "(?i + e) mod length ps = (i + Suc e) mod length ps" for e
      by (simp add: mod_simps)
    have "\<not> P (ps ! ((i + e) mod length ps))" if "e < Suc d" for e
      using that False d(5) Suc.prems(2) unfolding shift by (cases e) auto
    with d shift show ?thesis by (intro conjI exI [of _ "Suc d"]) auto
  qed
qed simp

lemma cyc_find_None:
  "cyc_find P ps i k = None \<Longrightarrow> i < length ps \<Longrightarrow> d < k \<Longrightarrow> \<not> P (ps ! ((i + d) mod length ps))"
proof (induction k arbitrary: i d)
  case (Suc k)
  have i': "Suc i mod length ps < length ps" using Suc.prems(2) by (cases ps) auto
  from Suc.prems(1) have *: "\<not> P (ps ! i)" "cyc_find P ps (Suc i mod length ps) k = None"
    by (auto split: if_splits)
  show ?case
  proof (cases d)
    case 0
    with * Suc.prems(2) show ?thesis by simp
  next
    case (Suc e)
    with Suc.IH [OF *(2) i', of e] Suc.prems(3) show ?thesis by (simp add: mod_simps)
  qed
qed simp

text \<open>Every position of the cycle is reached within one turn.\<close>

lemma cyclic_reach: "i < n \<Longrightarrow> j < n \<Longrightarrow> \<exists>d < n. (i + d) mod n = (j::nat)"
proof (cases "i \<le> j")
  case True
  assume "i < n" "j < n"
  with True show ?thesis by (intro exI [of _ "j - i"]) auto
next
  case False
  assume a: "i < n" "j < n"
  have "(i + (n + j - i)) mod n = j" using a by simp
  with a False show ?thesis by (intro exI [of _ "n + j - i"]) auto
qed

lemma cyc_find_None_iff:
  assumes "i < length ps" "length ps \<le> k"
  shows "cyc_find P ps i k = None \<longleftrightarrow> (\<forall>p \<in> set ps. \<not> P p)"
proof
  assume n: "cyc_find P ps i k = None"
  have "\<not> P (ps ! j)" if j: "j < length ps" for j
  proof -
    obtain d where d: "d < length ps" "(i + d) mod length ps = j"
      using cyclic_reach [OF assms(1) j] by blast
    with cyc_find_None [OF n assms(1), of d] assms(2) show ?thesis by simp
  qed
  then show "\<forall>p \<in> set ps. \<not> P p" by (auto simp: in_set_conv_nth)
next
  assume a: "\<forall>p \<in> set ps. \<not> P p"
  show "cyc_find P ps i k = None"
    using cyc_find_Some [of P ps i k] a assms(1) by (cases "cyc_find P ps i k") auto
qed

lemma cyc_find_mono: "cyc_find P ps i k = Some j \<Longrightarrow> k \<le> m \<Longrightarrow> cyc_find P ps i m = Some j"
proof (induction k arbitrary: i m)
  case (Suc k)
  then obtain m' where m: "m = Suc m'" "k \<le> m'" by (cases m) auto
  with Suc show ?case by (auto split: if_splits)
qed simp

lemma cyc_find_turn:
  assumes "i < length ps" "length ps \<le> k"
  shows "cyc_find P ps i k = cyc_find P ps i (length ps)"
proof (cases "cyc_find P ps i (length ps)")
  case None
  with cyc_find_None_iff [OF assms(1), of _ P] assms(2) show ?thesis by simp
next
  case (Some j)
  from cyc_find_mono [OF this assms(2)] Some show ?thesis by simp
qed

text \<open>The position of a node in the list.\<close>

fun index_of :: "nat \<Rightarrow> nat list \<Rightarrow> nat" where
  "index_of a [] = 0"
| "index_of a (b # bs) = (if a = b then 0 else Suc (index_of a bs))"

lemma index_of_less: "a \<in> set bs \<Longrightarrow> index_of a bs < length bs"
  and index_of_nth: "a \<in> set bs \<Longrightarrow> bs ! index_of a bs = a"
  by (induction bs) auto

lemma index_of_eq: "distinct bs \<Longrightarrow> i < length bs \<Longrightarrow> index_of (bs ! i) bs = i"
  by (metis index_of_less index_of_nth nth_eq_iff_index_eq nth_mem)

end
