(* ===== verification/Process_State.thy ===== *)
theory Process_State
  imports Prelude
begin

text \<open>
  What the schedulers see of a process (\<^verbatim>\<open>kernel/process.h\<close>): the scheduling state
  with its mirror in \<^verbatim>\<open>task.state\<close>, the life-cycle state and the priority; and the
  context switch of \<^verbatim>\<open>sched/sched_switch.c\<close>. The register and stack switch itself
  (\<^verbatim>\<open>switch_to\<close>, assembly) is not modelled: it changes none of these fields.
\<close>

datatype process_state = PROCESS_READY | PROCESS_RUNNING | PROCESS_BLOCKED | PROCESS_ZOMBIE

datatype process_lifecycle =
  PROCESS_LIFECYCLE_ALIVE | PROCESS_LIFECYCLE_ZOMBIE | PROCESS_LIFECYCLE_DEAD

datatype task_sched_state =
    TASK_SCHED_RUNNABLE | TASK_SCHED_RUNNING | TASK_SCHED_SLEEPING | TASK_SCHED_TERMINATED
  | TASK_SCHED_STOPPED

record proc =
  state :: process_state
  task_state :: task_sched_state
  lifecycle :: process_lifecycle
  sched_prio :: int

text \<open>
  The processes by address, \<^verbatim>\<open>current_process\<close>, and the static flag
  \<^verbatim>\<open>first\<close> of \<^verbatim>\<open>sched_context_switch_to\<close>.
\<close>

record world =
  proc_at :: "nat \<Rightarrow> proc"
  current_process :: "nat option"
  first_switch :: bool

definition set_state :: "process_state \<Rightarrow> proc \<Rightarrow> proc" where
  "set_state st p =
     (let p1 = p\<lparr>state := st\<rparr> in
      case st of
        PROCESS_READY \<Rightarrow> p1\<lparr>task_state := TASK_SCHED_RUNNABLE\<rparr>
      | PROCESS_RUNNING \<Rightarrow> p1\<lparr>task_state := TASK_SCHED_RUNNING\<rparr>
      | PROCESS_BLOCKED \<Rightarrow> p1\<lparr>task_state := TASK_SCHED_SLEEPING\<rparr>
      | PROCESS_ZOMBIE \<Rightarrow> p1)"

definition process_set_sched_state :: "nat option \<Rightarrow> process_state \<Rightarrow> world \<Rightarrow> world" where
  "process_set_sched_state p st w =
     (case p of
        None \<Rightarrow> w
      | Some a \<Rightarrow> if st = PROCESS_ZOMBIE then w
                  else w\<lparr>proc_at := (proc_at w)(a := set_state st (proc_at w a))\<rparr>)"

definition process_mark_zombie :: "nat option \<Rightarrow> world \<Rightarrow> world" where
  "process_mark_zombie p w =
     (case p of
        None \<Rightarrow> w
      | Some a \<Rightarrow> w\<lparr>proc_at := (proc_at w)(a := (proc_at w a)\<lparr>lifecycle := PROCESS_LIFECYCLE_ZOMBIE,
                       state := PROCESS_ZOMBIE, task_state := TASK_SCHED_TERMINATED\<rparr>)\<rparr>)"

definition process_mark_dead :: "nat option \<Rightarrow> world \<Rightarrow> world" where
  "process_mark_dead p w =
     (case p of
        None \<Rightarrow> w
      | Some a \<Rightarrow> w\<lparr>proc_at := (proc_at w)(a := (proc_at w a)\<lparr>lifecycle := PROCESS_LIFECYCLE_DEAD,
                       state := PROCESS_ZOMBIE, task_state := TASK_SCHED_TERMINATED\<rparr>)\<rparr>)"

definition process_is_zombie :: "nat option \<Rightarrow> world \<Rightarrow> bool" where
  "process_is_zombie p w =
     (case p of None \<Rightarrow> False
      | Some a \<Rightarrow> lifecycle (proc_at w a) = PROCESS_LIFECYCLE_ZOMBIE \<or> state (proc_at w a) = PROCESS_ZOMBIE)"

definition process_is_alive :: "nat option \<Rightarrow> world \<Rightarrow> bool" where
  "process_is_alive p w =
     (case p of None \<Rightarrow> False
      | Some a \<Rightarrow> lifecycle (proc_at w a) = PROCESS_LIFECYCLE_ALIVE \<and> state (proc_at w a) \<noteq> PROCESS_ZOMBIE)"

text \<open>
  The first switch enters user space through \<^verbatim>\<open>first_switch_to\<close> and does not come
  back; the state below is the one it leaves behind.
\<close>

definition sched_context_switch_to :: "nat option \<Rightarrow> world \<Rightarrow> world" where
  "sched_context_switch_to nx w =
     (case nx of
        None \<Rightarrow> w
      | Some n \<Rightarrow>
          if \<not> first_switch w \<and> current_process w = Some n then w
          else let w1 = (case current_process w of
                           Some p \<Rightarrow> if state (proc_at w p) = PROCESS_RUNNING
                                     then process_set_sched_state (Some p) PROCESS_READY w else w
                         | None \<Rightarrow> w);
                   w2 = process_set_sched_state (Some n) PROCESS_RUNNING w1
               in w2\<lparr>current_process := Some n, first_switch := False\<rparr>)"

section \<open>Facts shared by the schedulers\<close>

text \<open>The test both schedulers apply to a candidate.\<close>

definition runnable :: "world \<Rightarrow> nat \<Rightarrow> bool" where
  "runnable w p \<longleftrightarrow> state (proc_at w p) \<noteq> PROCESS_ZOMBIE \<and> state (proc_at w p) \<noteq> PROCESS_BLOCKED"

lemma runnable_cases: "runnable w p \<longleftrightarrow> state (proc_at w p) = PROCESS_READY \<or> state (proc_at w p) = PROCESS_RUNNING"
  by (cases "state (proc_at w p)") (simp_all add: runnable_def)

lemma set_state_fields [simp]:
  "state (set_state st p) = st" "lifecycle (set_state st p) = lifecycle p" "sched_prio (set_state st p) = sched_prio p"
  by (simp_all add: set_state_def Let_def split: process_state.split)

lemma state_after_set:
  "st \<noteq> PROCESS_ZOMBIE \<Longrightarrow>
   state (proc_at (process_set_sched_state (Some p) st w) q) = (if q = p then st else state (proc_at w q))"
  by (simp add: process_set_sched_state_def)

lemma set_sched_state_frame [simp]:
  "current_process (process_set_sched_state p st w) = current_process w"
  "first_switch (process_set_sched_state p st w) = first_switch w"
  "sched_prio (proc_at (process_set_sched_state p st w) q) = sched_prio (proc_at w q)"
  "lifecycle (proc_at (process_set_sched_state p st w) q) = lifecycle (proc_at w q)"
  by (simp_all add: process_set_sched_state_def split: option.split)

text \<open>
  The switch makes \<open>n\<close> the current process, changes no process from runnable to
  not runnable or back except \<open>n\<close> itself, and leaves priorities alone.
\<close>

lemma switch_current:
  "current_process (sched_context_switch_to (Some n) w) = Some n"
  by (simp add: sched_context_switch_to_def Let_def)

lemma switch_runnable:
  "runnable w n \<Longrightarrow> runnable (sched_context_switch_to (Some n) w) q = runnable w q"
  by (simp add: sched_context_switch_to_def Let_def runnable_def state_after_set split: option.split)

lemma switch_prio [simp]:
  "sched_prio (proc_at (sched_context_switch_to nx w) q) = sched_prio (proc_at w q)"
  by (simp add: sched_context_switch_to_def Let_def split: option.split)

text \<open>
  The two views of the scheduling state agree, and so do the scheduling state and the life
  cycle of a process that has exited.
\<close>

fun mirror :: "process_state \<Rightarrow> task_sched_state" where
  "mirror PROCESS_READY = TASK_SCHED_RUNNABLE"
| "mirror PROCESS_RUNNING = TASK_SCHED_RUNNING"
| "mirror PROCESS_BLOCKED = TASK_SCHED_SLEEPING"
| "mirror PROCESS_ZOMBIE = TASK_SCHED_TERMINATED"

definition mirrored :: "world \<Rightarrow> bool" where
  "mirrored w \<longleftrightarrow> (\<forall>p. task_state (proc_at w p) = mirror (state (proc_at w p)))"

lemma set_state_mirror: "st \<noteq> PROCESS_ZOMBIE \<Longrightarrow> task_state (set_state st p) = mirror st"
  by (cases st) (simp_all add: set_state_def Let_def)

lemma set_sched_state_mirrored: "mirrored w \<Longrightarrow> mirrored (process_set_sched_state p st w)"
  by (auto simp: mirrored_def process_set_sched_state_def set_state_mirror split: option.split)

lemma mirrored_frame [simp]:
  "mirrored (w\<lparr>current_process := c\<rparr>) = mirrored w"
  "mirrored (w\<lparr>first_switch := b\<rparr>) = mirrored w"
  by (simp_all add: mirrored_def)

lemma switch_mirrored: "mirrored w \<Longrightarrow> mirrored (sched_context_switch_to nx w)"
  by (simp add: sched_context_switch_to_def Let_def set_sched_state_mirrored split: option.split)

text \<open>Whom the switch leaves RUNNING.\<close>

lemma state_after_switch:
  assumes "first_switch w \<or> current_process w \<noteq> Some n"
  shows "state (proc_at (sched_context_switch_to (Some n) w) q) =
           (if q = n then PROCESS_RUNNING
            else if current_process w = Some q \<and> state (proc_at w q) = PROCESS_RUNNING then PROCESS_READY
            else state (proc_at w q))"
  using assms by (auto simp: sched_context_switch_to_def Let_def state_after_set split: option.split)

text \<open>
  At most one process is RUNNING, and it is \<^verbatim>\<open>current_process\<close>: the switch keeps it so.
\<close>

definition one_running :: "world \<Rightarrow> bool" where
  "one_running w \<longleftrightarrow> (\<forall>p. state (proc_at w p) = PROCESS_RUNNING \<longrightarrow> current_process w = Some p)"

lemma switch_one_running: "one_running w \<Longrightarrow> one_running (sched_context_switch_to (Some n) w)"
proof (cases "first_switch w \<or> current_process w \<noteq> Some n")
  case True
  assume "one_running w"
  then show ?thesis
    unfolding one_running_def switch_current state_after_switch [OF True] by auto
next
  case False
  assume "one_running w"
  moreover from False have "sched_context_switch_to (Some n) w = w"
    by (simp add: sched_context_switch_to_def)
  ultimately show ?thesis by simp
qed

lemma set_ready_one_running: "one_running w \<Longrightarrow> one_running (process_set_sched_state p PROCESS_READY w)"
  by (auto simp: one_running_def process_set_sched_state_def split: option.split)

end
