(* ===== verification/Sched_Ops.thy ===== *)
theory Sched_Ops
  imports Process_State
begin

text \<open>
  The backend table \<^verbatim>\<open>struct ir0_sched_ops\<close> (\<^verbatim>\<open>sched/sched_ops.h\<close>), the
  facade that dispatches through it (\<^verbatim>\<open>sched/sched.c\<close>), the reschedule helpers that
  use the facade (\<^verbatim>\<open>sched/sched_resched.c\<close>), and the contract of a backend as a
  locale. The facade and the helpers are functions of the table; what they guarantee is
  proved once in the locale and holds for every backend that interprets it.
\<close>

section \<open>The table, the facade and the reschedule helpers\<close>

text \<open>\<open>op_add\<close> takes the address \<^verbatim>\<open>kmalloc\<close> returns for its node as an argument.\<close>

record 's sched_ops =
  op_add :: "nat option \<Rightarrow> nat option \<Rightarrow> 's \<Rightarrow> 's kresult"
  op_remove :: "nat option \<Rightarrow> 's \<Rightarrow> 's kresult"
  op_schedule_next :: "'s \<Rightarrow> 's kresult"
  op_count_runnable :: "'s \<Rightarrow> nat kresult"
  op_promote :: "nat option \<Rightarrow> 's \<Rightarrow> 's kresult"

definition sched_add_process :: "'s sched_ops \<Rightarrow> nat option \<Rightarrow> nat option \<Rightarrow> 's \<Rightarrow> 's kresult" where
  "sched_add_process g mem p s = op_add g mem p s"

definition sched_remove_process :: "'s sched_ops \<Rightarrow> nat option \<Rightarrow> 's \<Rightarrow> 's kresult" where
  "sched_remove_process g p s = op_remove g p s"

definition sched_schedule_next :: "'s sched_ops \<Rightarrow> 's \<Rightarrow> 's kresult" where
  "sched_schedule_next g s = op_schedule_next g s"

definition sched_count_runnable :: "'s sched_ops \<Rightarrow> 's \<Rightarrow> nat kresult" where
  "sched_count_runnable g s = op_count_runnable g s"

definition sched_promote_process :: "'s sched_ops \<Rightarrow> nat option \<Rightarrow> 's \<Rightarrow> 's kresult" where
  "sched_promote_process g p s = op_promote g p s"

text \<open>
  \<open>wof\<close> reads the processes and \<^verbatim>\<open>current_process\<close> off the backend state; the flag
  is \<^verbatim>\<open>clock_state.sched_resched_pending\<close>.
\<close>

definition clock_take_sched_resched_pending :: "bool \<Rightarrow> bool \<times> bool" where
  "clock_take_sched_resched_pending pending = (pending, False)"

definition sched_try_preempt_blocked :: "'s sched_ops \<Rightarrow> ('s \<Rightarrow> world) \<Rightarrow> 's \<Rightarrow> 's kresult" where
  "sched_try_preempt_blocked g wof s =
     (case current_process (wof s) of
        None \<Rightarrow> Done s
      | Some p \<Rightarrow>
          if state (proc_at (wof s) p) \<noteq> PROCESS_BLOCKED then Done s
          else kbind (sched_count_runnable g s) (\<lambda>n.
                 if n = 0 then Done s else sched_schedule_next g s))"

definition sched_user_return_take_switch ::
  "'s sched_ops \<Rightarrow> ('s \<Rightarrow> world) \<Rightarrow> 's \<Rightarrow> bool \<Rightarrow> (bool \<times> bool) kresult" where
  "sched_user_return_take_switch g wof s pending =
     (case current_process (wof s) of
        None \<Rightarrow> Done (False, pending)
      | Some p \<Rightarrow>
          if state (proc_at (wof s) p) = PROCESS_BLOCKED then Done (False, pending)
          else kbind (sched_count_runnable g s) (\<lambda>n.
                 if n \<le> 1 then Done (False, pending)
                 else let (taken, pending') = clock_take_sched_resched_pending pending in
                      if \<not> taken then Done (False, pending') else Done (True, pending')))"

definition sched_need_resched_user_return ::
  "'s sched_ops \<Rightarrow> ('s \<Rightarrow> world) \<Rightarrow> 's \<Rightarrow> bool \<Rightarrow> ('s \<times> bool) kresult" where
  "sched_need_resched_user_return g wof s pending =
     kbind (sched_user_return_take_switch g wof s pending) (\<lambda>(sw, pending').
       if sw then kbind (sched_schedule_next g s) (\<lambda>s'. Done (s', pending')) else Done (s, pending'))"

section \<open>The contract of a backend\<close>

text \<open>
  \<open>rep s Q\<close>: the state \<open>s\<close> is well formed and queues exactly the processes \<open>Q\<close>.
  \<open>fresh s a\<close>: the address \<open>a\<close> is not in use by a node of \<open>s\<close>. \<open>limit\<close> is the number of
  candidates one pick examines.
\<close>

definition runnable_in :: "world \<Rightarrow> nat set \<Rightarrow> nat set" where
  "runnable_in w Q = {p \<in> Q. runnable w p}"

lemma runnable_in_simps:
  "runnable_in w {} = {}" "runnable_in w Q \<subseteq> Q" "p \<in> runnable_in w Q \<longleftrightarrow> p \<in> Q \<and> runnable w p"
  by (auto simp: runnable_in_def)

locale sched_backend =
  fixes ops :: "'s sched_ops" and wof :: "'s \<Rightarrow> world" and rep :: "'s \<Rightarrow> nat set \<Rightarrow> bool"
    and fresh :: "'s \<Rightarrow> nat \<Rightarrow> bool" and limit :: nat
  assumes rep_finite: "rep s Q \<Longrightarrow> finite Q"
    and add_law: "rep s Q \<Longrightarrow> fresh s a \<Longrightarrow>
          \<exists>s'. op_add ops (Some a) (Some p) s = Done s' \<and> rep s' (insert p Q) \<and>
               wof s' = process_set_sched_state (Some p) PROCESS_READY (wof s)"
    and remove_law: "rep s Q \<Longrightarrow>
          \<exists>s'. op_remove ops (Some p) s = Done s' \<and> rep s' (Q - {p}) \<and> wof s' = wof s"
    and count_law: "rep s Q \<Longrightarrow> op_count_runnable ops s = Done (card (runnable_in (wof s) Q))"
    and next_some_law: "rep s Q \<Longrightarrow> card Q \<le> limit \<Longrightarrow> runnable_in (wof s) Q \<noteq> {} \<Longrightarrow>
          \<exists>s'. \<exists>p \<in> runnable_in (wof s) Q.
               op_schedule_next ops s = Done s' \<and> rep s' Q \<and> wof s' = sched_context_switch_to (Some p) (wof s)"
    and next_none_law: "rep s Q \<Longrightarrow> runnable_in (wof s) Q = {} \<Longrightarrow>
          \<exists>s'. op_schedule_next ops s = Done s' \<and> rep s' Q \<and> wof s' = wof s"
    and promote_law: "rep s Q \<Longrightarrow>
          \<exists>s'. op_promote ops (Some p) s = Done s' \<and> rep s' Q \<and>
               (wof s' = wof s \<or> p \<in> Q \<and> wof s' = process_set_sched_state (Some p) PROCESS_READY (wof s))"
begin

lemma queued_after_add:
  "rep s Q \<Longrightarrow> fresh s a \<Longrightarrow>
   \<exists>s'. sched_add_process ops (Some a) (Some p) s = Done s' \<and> rep s' (insert p Q) \<and>
        p \<in> runnable_in (wof s') (insert p Q)"
  using add_law [of s Q a p] by (auto simp: sched_add_process_def runnable_in_simps runnable_def state_after_set)

text \<open>
  A blocked current process gives the processor up whenever some queued process can run;
  with none it keeps it and nothing changes.
\<close>

lemma preempt_blocked:
  assumes "rep s Q" "card Q \<le> limit" "current_process (wof s) = Some c"
    "state (proc_at (wof s) c) = PROCESS_BLOCKED" "runnable_in (wof s) Q \<noteq> {}"
  shows "\<exists>s'. \<exists>p \<in> runnable_in (wof s) Q. sched_try_preempt_blocked ops wof s = Done s' \<and> rep s' Q \<and>
           current_process (wof s') = Some p \<and> state (proc_at (wof s') p) = PROCESS_RUNNING \<and>
           state (proc_at (wof s') c) = PROCESS_BLOCKED"
proof -
  obtain s' p where *: "p \<in> runnable_in (wof s) Q" "op_schedule_next ops s = Done s'" "rep s' Q"
    "wof s' = sched_context_switch_to (Some p) (wof s)"
    using next_some_law [OF assms(1,2,5)] by blast
  have "p \<noteq> c" using *(1) assms(4) by (auto simp: runnable_in_simps runnable_def)
  then have sw: "first_switch (wof s) \<or> current_process (wof s) \<noteq> Some p" using assms(3) by simp
  have n: "card (runnable_in (wof s) Q) \<noteq> 0"
    using assms(5) rep_finite [OF assms(1)] runnable_in_simps(2) finite_subset by fastforce
  have "sched_try_preempt_blocked ops wof s = Done s'"
    using assms(3,4) count_law [OF assms(1)] n *(2)
    by (simp add: sched_try_preempt_blocked_def sched_count_runnable_def sched_schedule_next_def)
  with * \<open>p \<noteq> c\<close> assms(4) state_after_switch [OF sw] show ?thesis by (auto simp: switch_current)
qed

lemma preempt_blocked_idle:
  assumes "rep s Q" "runnable_in (wof s) Q = {}"
  shows "sched_try_preempt_blocked ops wof s = Done s"
  using count_law [OF assms(1)] assms(2)
  by (simp add: sched_try_preempt_blocked_def sched_count_runnable_def split: option.split)

text \<open>
  On the way back to user space a switch happens exactly when a tick asked for one, the
  current process is not blocked and at least two queued processes can run; only then is the
  request consumed.
\<close>

lemma user_return:
  assumes "rep s Q" "card Q \<le> limit"
  shows "\<exists>s' pending'. sched_need_resched_user_return ops wof s pending = Done (s', pending') \<and> rep s' Q \<and>
     (if pending \<and> 2 \<le> card (runnable_in (wof s) Q) \<and>
         (\<exists>c. current_process (wof s) = Some c \<and> state (proc_at (wof s) c) \<noteq> PROCESS_BLOCKED)
      then \<not> pending' \<and> (\<exists>p \<in> runnable_in (wof s) Q. wof s' = sched_context_switch_to (Some p) (wof s))
      else s' = s \<and> pending' = pending)"
proof -
  note c = count_law [OF assms(1)]
  note defs = sched_need_resched_user_return_def sched_user_return_take_switch_def
    clock_take_sched_resched_pending_def sched_count_runnable_def sched_schedule_next_def
  let ?go = "pending \<and> 2 \<le> card (runnable_in (wof s) Q) \<and>
         (\<exists>c. current_process (wof s) = Some c \<and> state (proc_at (wof s) c) \<noteq> PROCESS_BLOCKED)"
  show ?thesis
  proof (cases ?go)
    case True
    then have "runnable_in (wof s) Q \<noteq> {}" by auto
    from next_some_law [OF assms this] obtain s' p where
      *: "p \<in> runnable_in (wof s) Q" "op_schedule_next ops s = Done s'" "rep s' Q"
         "wof s' = sched_context_switch_to (Some p) (wof s)" by blast
    from True have "sched_need_resched_user_return ops wof s pending = Done (s', False)"
      using c *(2) by (auto simp: defs)
    with * show ?thesis unfolding if_P [OF True] by blast
  next
    case False
    then have "sched_need_resched_user_return ops wof s pending = Done (s, pending)"
      using c by (auto simp: defs split: option.split)
    with assms(1) show ?thesis unfolding if_not_P [OF False] by blast
  qed
qed

end

end
