(* ===== verification/Rr_Sched.thy ===== *)
theory Rr_Sched
  imports Linked_Queue Sched_Ops
begin

text \<open>
  The round-robin scheduler (\<^verbatim>\<open>sched/rr_sched.c\<close>): a singly linked ready list with
  head, tail and cursor. The list nodes live in an explicit store, \<^verbatim>\<open>kmalloc\<close> is the
  parameter \<open>mem\<close> (the address it returns, or NULL) and \<^verbatim>\<open>kfree\<close> removes the
  node from the store; following a pointer to a freed node is \<^verbatim>\<open>Stuck\<close>. The queue
  functions run with interrupts off, so each is one atomic step.
\<close>

section \<open>State and operations\<close>

record rr_state =
  rr_nodes :: qstore
  rr_head :: "nat option"
  rr_tail :: "nat option"
  rr_current :: "nat option"
  rr_world :: world

abbreviation RR_MAX_PICK_ATTEMPTS :: nat where
  "RR_MAX_PICK_ATTEMPTS \<equiv> 100"

definition rr_set_ready :: "nat \<Rightarrow> rr_state \<Rightarrow> rr_state" where
  "rr_set_ready proc s = s\<lparr>rr_world := process_set_sched_state (Some proc) PROCESS_READY (rr_world s)\<rparr>"

definition rr_add_process :: "nat option \<Rightarrow> nat option \<Rightarrow> rr_state \<Rightarrow> rr_state kresult" where
  "rr_add_process mem p s =
     (case p of
        None \<Rightarrow> Done s
      | Some proc \<Rightarrow>
          (case mem of
             None \<Rightarrow> Panic ''BUG_ON''
           | Some a \<Rightarrow>
               (let s1 = s\<lparr>rr_nodes := (rr_nodes s)(a \<mapsto> \<lparr>process = proc, nxt = None\<rparr>)\<rparr> in
                case scan_for (rr_nodes s1) (rr_head s1) proc of
                  None \<Rightarrow> Stuck
                | Some (Some found) \<Rightarrow>
                    (let s2 = rr_set_ready proc s1 in Done (s2\<lparr>rr_nodes := (rr_nodes s2)(a := None)\<rparr>))
                | Some None \<Rightarrow>
                    (case rr_head s1 of
                       None \<Rightarrow> Done (rr_set_ready proc (s1\<lparr>rr_head := Some a, rr_tail := Some a\<rparr>))
                     | Some h \<Rightarrow>
                         (case rr_tail s1 of
                            None \<Rightarrow> Stuck
                          | Some t \<Rightarrow>
                              if rr_nodes s1 t = None then Stuck
                              else Done (rr_set_ready proc
                                     (s1\<lparr>rr_nodes := set_nxt (rr_nodes s1) t (Some a), rr_tail := Some a\<rparr>)))))))"

text \<open>
  The walk of the removal and of the promotion: it stops at the process, at the end, or when
  the next node is the head again. The result is the previous node and the node found.
\<close>

partial_function (option) rr_walk ::
  "qstore \<Rightarrow> nat option \<Rightarrow> nat option \<Rightarrow> nat option \<Rightarrow> nat \<Rightarrow> (nat option \<times> nat) option option" where
  "rr_walk st hp prev p proc =
     (case p of
        None \<Rightarrow> Some None
      | Some a \<Rightarrow> (case st a of
                     None \<Rightarrow> None
                   | Some n \<Rightarrow> if process n = proc then Some (Some (prev, a))
                               else if nxt n = hp then Some None
                               else rr_walk st hp (Some a) (nxt n) proc))"

definition rr_unlink :: "nat option \<Rightarrow> nat \<Rightarrow> qnode \<Rightarrow> rr_state \<Rightarrow> rr_state" where
  "rr_unlink prev a n s =
     (let s1 = (case prev of
                  Some b \<Rightarrow> s\<lparr>rr_nodes := set_nxt (rr_nodes s) b (nxt n),
                              rr_tail := (if Some a = rr_tail s then Some b else rr_tail s)\<rparr>
                | None \<Rightarrow> s\<lparr>rr_head := nxt n, rr_tail := (if nxt n = None then None else rr_tail s)\<rparr>);
          s2 = (if rr_current s1 = Some a
                then s1\<lparr>rr_current := (if nxt n = None \<and> rr_head s1 \<noteq> None then rr_head s1 else nxt n)\<rparr>
                else s1)
      in s2\<lparr>rr_nodes := (rr_nodes s2)(a := None)\<rparr>)"

definition rr_remove_process :: "nat option \<Rightarrow> rr_state \<Rightarrow> rr_state kresult" where
  "rr_remove_process p s =
     (case p of
        None \<Rightarrow> Done s
      | Some proc \<Rightarrow>
          (case rr_walk (rr_nodes s) (rr_head s) None (rr_head s) proc of
             None \<Rightarrow> Stuck
           | Some None \<Rightarrow> Done s
           | Some (Some (prev, a)) \<Rightarrow>
               (case rr_nodes s a of None \<Rightarrow> Stuck | Some n \<Rightarrow> Done (rr_unlink prev a n s))))"

text \<open>The pick loop; its first argument is the number of attempts left.\<close>

fun rr_pick_loop ::
  "nat \<Rightarrow> qstore \<Rightarrow> nat option \<Rightarrow> world \<Rightarrow> nat option \<Rightarrow> nat option \<Rightarrow> (nat option \<times> nat option) kresult" where
  "rr_pick_loop 0 st hp w cur nx = Done (cur, nx)"
| "rr_pick_loop (Suc k) st hp w cur nx =
     (case cur of
        None \<Rightarrow> Done (cur, nx)
      | Some a \<Rightarrow>
          (case st a of
             None \<Rightarrow> Stuck
           | Some n \<Rightarrow>
               if state (proc_at w (process n)) \<noteq> PROCESS_ZOMBIE \<and> state (proc_at w (process n)) \<noteq> PROCESS_BLOCKED
               then Done (cur, Some (process n))
               else rr_pick_loop k st hp w (case nxt n of Some b \<Rightarrow> Some b | None \<Rightarrow> hp) (Some (process n))))"

definition rr_advance :: "rr_state \<Rightarrow> nat option kresult" where
  "rr_advance s =
     (case rr_current s of
        None \<Rightarrow> Done (rr_head s)
      | Some c \<Rightarrow> (case rr_nodes s c of
                     None \<Rightarrow> Stuck
                   | Some n \<Rightarrow> Done (case nxt n of Some b \<Rightarrow> Some b | None \<Rightarrow> rr_head s)))"

definition rr_schedule_next :: "rr_state \<Rightarrow> rr_state kresult" where
  "rr_schedule_next s =
     (if rr_head s = None then Done s
      else kbind (rr_advance s) (\<lambda>start.
           kbind (rr_pick_loop RR_MAX_PICK_ATTEMPTS (rr_nodes s) (rr_head s) (rr_world s) start None) (\<lambda>(cur, nx).
             let s1 = s\<lparr>rr_current := cur\<rparr> in
             case (cur, nx) of
               (Some c, Some p) \<Rightarrow>
                 if state (proc_at (rr_world s) p) = PROCESS_ZOMBIE \<or> state (proc_at (rr_world s) p) = PROCESS_BLOCKED
                 then Done s1
                 else Done (s1\<lparr>rr_world := sched_context_switch_to (Some p) (rr_world s1)\<rparr>)
             | _ \<Rightarrow> Done s1)))"

partial_function (option) rr_count_walk :: "qstore \<Rightarrow> nat option \<Rightarrow> world \<Rightarrow> nat \<Rightarrow> nat \<Rightarrow> nat option" where
  "rr_count_walk st hp w a c =
     (case st a of
        None \<Rightarrow> None
      | Some n \<Rightarrow>
          (let c' = (if state (proc_at w (process n)) = PROCESS_READY \<or>
                        state (proc_at w (process n)) = PROCESS_RUNNING then c + 1 else c) in
           case nxt n of
             None \<Rightarrow> Some c'
           | Some b \<Rightarrow> if Some b = hp then Some c' else rr_count_walk st hp w b c'))"

definition rr_count_runnable :: "rr_state \<Rightarrow> nat kresult" where
  "rr_count_runnable s =
     (case rr_head s of
        None \<Rightarrow> Done 0
      | Some h \<Rightarrow> (case rr_count_walk (rr_nodes s) (rr_head s) (rr_world s) h 0 of
                     None \<Rightarrow> Stuck | Some c \<Rightarrow> Done c))"

definition rr_promote_process :: "nat option \<Rightarrow> rr_state \<Rightarrow> rr_state kresult" where
  "rr_promote_process p s =
     (case p of
        None \<Rightarrow> Done s
      | Some proc \<Rightarrow>
          if rr_head s = None then Done s
          else (case rr_walk (rr_nodes s) (rr_head s) None (rr_head s) proc of
                  None \<Rightarrow> Stuck
                | Some None \<Rightarrow> Done s
                | Some (Some (prev, a)) \<Rightarrow> Done (rr_set_ready proc (s\<lparr>rr_current := Some a\<rparr>))))"

section \<open>The representation invariant\<close>

text \<open>
  \<open>rr_rep s xs\<close>: the list from the head is \<open>xs\<close> (address and process of each node, no
  process twice), the tail is its last node, the cursor is NULL or one of its nodes, and the
  scheduler holds no other node (so that none is leaked).
\<close>

definition rr_rep :: "rr_state \<Rightarrow> (nat \<times> nat) list \<Rightarrow> bool" where
  "rr_rep s xs \<longleftrightarrow>
     chain (rr_nodes s) (rr_head s) xs \<and> rr_tail s = last_addr None xs \<and>
     dom (rr_nodes s) = set (addrs xs) \<and> distinct (procs xs) \<and>
     (\<forall>c. rr_current s = Some c \<longrightarrow> c \<in> set (addrs xs))"

lemma rr_repD [kernel_inv]:
  assumes "rr_rep s xs"
  shows "chain (rr_nodes s) (rr_head s) xs" "rr_tail s = last_addr None xs"
    "dom (rr_nodes s) = set (addrs xs)" "distinct (procs xs)"
    "rr_current s = Some c \<Longrightarrow> c \<in> set (addrs xs)"
  using assms by (simp_all add: rr_rep_def)

lemma rr_set_ready_fields [simp]:
  "rr_nodes (rr_set_ready p s) = rr_nodes s" "rr_head (rr_set_ready p s) = rr_head s"
  "rr_tail (rr_set_ready p s) = rr_tail s" "rr_current (rr_set_ready p s) = rr_current s"
  "rr_world (rr_set_ready p s) = process_set_sched_state (Some p) PROCESS_READY (rr_world s)"
  by (simp_all add: rr_set_ready_def)

lemma rr_rep_set_ready [simp]: "rr_rep (rr_set_ready p s) xs = rr_rep s xs"
  by (simp add: rr_rep_def)

lemma find_proc_None: "List.find (\<lambda>(a, v). v = p) xs = None \<longleftrightarrow> p \<notin> set (procs xs)"
  by (induction xs) auto

lemma rr_walk_scan_prev:
  "chain st p xs \<Longrightarrow> hp \<noteq> None \<Longrightarrow> hp \<notin> Some ` set (addrs (tl xs)) \<Longrightarrow>
   rr_walk st hp prev p proc = scan_prev st prev p proc"
proof (induction xs arbitrary: p prev)
  case Nil
  then show ?case by (simp add: rr_walk.simps [of st hp prev] scan_prev.simps)
next
  case (Cons x xs)
  obtain a v where x: "x = (a, v)" by fastforce
  with Cons.prems obtain q where q: "p = Some a" "st a = Some \<lparr>process = v, nxt = q\<rparr>" "chain st q xs" by auto
  have "b \<in> set (addrs xs)" if "q = Some b" for b using q(3) that by (cases xs) auto
  then have "q \<noteq> hp" using Cons.prems(2,3) x by (cases q) auto
  moreover have "rr_walk st hp (Some a) q proc = scan_prev st (Some a) q proc"
    by (rule Cons.IH [OF q(3) Cons.prems(2)]) (use Cons.prems(3) x in \<open>cases xs; auto simp: image_iff\<close>)
  ultimately show ?case
    using q by (simp add: rr_walk.simps [of st hp prev] scan_prev.simps [of st prev])
qed

lemma rr_walk_rep:
  assumes "rr_rep s xs"
  shows "rr_walk (rr_nodes s) (rr_head s) None (rr_head s) proc = scan_prev (rr_nodes s) None (rr_head s) proc"
proof (cases xs)
  case Nil
  with rr_repD(1) [OF assms] show ?thesis by (simp add: rr_walk.simps scan_prev.simps)
next
  case (Cons x ys)
  note c = rr_repD(1) [OF assms]
  show ?thesis
  proof (rule rr_walk_scan_prev [OF c])
    show "rr_head s \<noteq> None" using c Cons by (cases x) auto
    show "rr_head s \<notin> Some ` set (addrs (tl xs))"
      using chain_distinct [OF c] c Cons by (cases x) auto
  qed
qed

section \<open>Adding\<close>

lemma rr_add_rep:
  assumes rep: "rr_rep s xs" and fresh: "a \<notin> dom (rr_nodes s)"
  shows "\<exists>s'. rr_add_process (Some a) (Some p) s = Done s' \<and>
              rr_rep s' (if p \<in> set (procs xs) then xs else xs @ [(a, p)]) \<and>
              rr_current s' = rr_current s \<and>
              rr_world s' = process_set_sched_state (Some p) PROCESS_READY (rr_world s)"
proof -
  note d = rr_repD [OF rep]
  let ?st = "(rr_nodes s)(a \<mapsto> \<lparr>process = p, nxt = None\<rparr>)"
  have a: "a \<notin> set (addrs xs)" using fresh d(3) by simp
  have c: "chain ?st (rr_head s) xs" using d(1) a by (subst chain_cong [of _ _ "rr_nodes s"]) auto
  note scan = scan_for_chain [OF c, of p]
  show ?thesis
  proof (cases "p \<in> set (procs xs)")
    case True
    then obtain y where y: "List.find (\<lambda>(a, v). v = p) xs = Some y"
      using find_proc_None [of p xs] by (cases "List.find (\<lambda>(a, v). v = p) xs") auto
    have un: "?st(a := None) = rr_nodes s" using fresh by (auto simp: fun_eq_iff)
    have "rr_rep (s\<lparr>rr_world := w\<rparr>) xs" for w using rep by (simp add: rr_rep_def)
    then show ?thesis
      using True scan y rep un by (simp add: rr_add_process_def Let_def rr_set_ready_def rr_rep_def)
  next
    case False
    have f: "List.find (\<lambda>(a, v). v = p) xs = None" using False find_proc_None [of p xs] by simp
    show ?thesis
    proof (cases xs rule: rev_cases)
      case Nil
      with d f scan show ?thesis
        by (auto simp: rr_add_process_def Let_def rr_rep_def)
    next
      case (snoc ys y)
      obtain t w where y: "y = (t, w)" by fastforce
      have tl: "rr_tail s = Some t" using d(2) snoc y by simp
      have hd: "rr_head s \<noteq> None" using d(1) snoc y by (cases ys) auto
      have st: "?st t \<noteq> None" using d(3) snoc y by (auto simp: dom_def)
      have link: "chain (set_nxt ?st t (Some a)) (rr_head s) (xs @ [(a, p)])"
        using chain_link_last [of "rr_nodes s" "rr_head s" ys t w a p] d(1) a snoc y by simp
      have dom: "dom (set_nxt ?st t (Some a)) = set (addrs (xs @ [(a, p)]))" using d(3) by simp
      let ?s' = "rr_set_ready p (s\<lparr>rr_nodes := set_nxt ?st t (Some a), rr_tail := Some a\<rparr>)"
      have "rr_add_process (Some a) (Some p) s = Done ?s'"
        using f scan tl hd st by (auto simp: rr_add_process_def Let_def)
      moreover have "rr_rep ?s' (xs @ [(a, p)])"
        unfolding rr_rep_def using link dom d(4,5) False by auto
      ultimately show ?thesis using False by simp
    qed
  qed
qed

section \<open>Removing\<close>

text \<open>Where the cursor goes when its own node is removed: to the next node, or round to the head.\<close>

definition cursor_after :: "(nat \<times> nat) list \<Rightarrow> (nat \<times> nat) list \<Rightarrow> nat option" where
  "cursor_after us vs = (case vs @ us of [] \<Rightarrow> None | x # _ \<Rightarrow> Some (fst x))"

lemma cursor_after_in: "cursor_after us vs = Some c \<Longrightarrow> c \<in> set (addrs (us @ vs))"
  by (cases vs; cases us) (auto simp: cursor_after_def addrs_def)

lemma rr_remove_absent:
  assumes "rr_rep s xs" "p \<notin> set (procs xs)"
  shows "rr_remove_process (Some p) s = Done s"
  using scan_prev_chain_none [OF rr_repD(1) [OF assms(1)] assms(2)]
  by (simp add: rr_remove_process_def rr_walk_rep [OF assms(1)])

lemma chain_first: "chain st h xs \<Longrightarrow> h = (case xs of [] \<Rightarrow> None | x # _ \<Rightarrow> Some (fst x))"
  by (cases xs) auto

lemma rr_remove_head:
  assumes rep: "rr_rep s ((a, p) # vs)"
  shows "\<exists>s'. rr_remove_process (Some p) s = Done s' \<and> rr_rep s' vs \<and> rr_world s' = rr_world s \<and>
              rr_current s' = (if rr_current s = Some a then cursor_after [] vs else rr_current s)"
proof -
  note d = rr_repD [OF rep]
  from chain_unlink_head [OF d(1)] obtain q where
    q: "rr_nodes s a = Some \<lparr>process = p, nxt = q\<rparr>" "chain ((rr_nodes s)(a := None)) q vs" by blast
  have w: "rr_walk (rr_nodes s) (rr_head s) None (rr_head s) p = Some (Some (None, a))"
    unfolding rr_walk_rep [OF rep]
    using scan_prev_chain_some [of "rr_nodes s" "rr_head s" "[]" a p vs None] d(1) by simp
  have qv: "q = (case vs of [] \<Rightarrow> None | x # _ \<Rightarrow> Some (fst x))" by (rule chain_first [OF q(2)])
  have tl: "(if q = None then None else rr_tail s) = last_addr None vs"
    using d(2) qv by (cases vs) (auto simp: last_addr_def)
  have nin: "a \<notin> set (addrs vs)" using chain_distinct [OF d(1)] by simp
  let ?s' = "rr_unlink None a \<lparr>process = p, nxt = q\<rparr> s"
  have "rr_remove_process (Some p) s = Done ?s'" using w q(1) by (simp add: rr_remove_process_def)
  moreover have cur: "rr_current ?s' = (if rr_current s = Some a then cursor_after [] vs else rr_current s)"
    using qv by (auto simp: rr_unlink_def Let_def cursor_after_def split: list.splits)
  moreover have "rr_rep ?s' vs"
    unfolding rr_rep_def
  proof (intro conjI allI impI)
    show "chain (rr_nodes ?s') (rr_head ?s') vs" using q(2) by (simp add: rr_unlink_def Let_def)
    show "rr_tail ?s' = last_addr None vs" using tl by (simp add: rr_unlink_def Let_def)
    show "dom (rr_nodes ?s') = set (addrs vs)" using d(3) nin by (auto simp: rr_unlink_def Let_def)
    show "distinct (procs vs)" using d(4) by simp
    show "c \<in> set (addrs vs)" if "rr_current ?s' = Some c" for c
      using that cur cursor_after_in [of "[]" vs c] d(5) by (auto split: if_splits)
  qed
  moreover have "rr_world ?s' = rr_world s" by (simp add: rr_unlink_def Let_def)
  ultimately show ?thesis by blast
qed

lemma rr_remove_inner:
  assumes rep: "rr_rep s (us @ [(b, v)] @ (a, p) # vs)"
  shows "\<exists>s'. rr_remove_process (Some p) s = Done s' \<and> rr_rep s' (us @ [(b, v)] @ vs) \<and>
              rr_world s' = rr_world s \<and>
              rr_current s' = (if rr_current s = Some a then cursor_after (us @ [(b, v)]) vs else rr_current s)"
proof -
  note d = rr_repD [OF rep]
  from chain_unlink_inner [OF d(1)] obtain q where
    q: "rr_nodes s a = Some \<lparr>process = p, nxt = q\<rparr>" "a \<noteq> b"
       "chain ((set_nxt (rr_nodes s) b q)(a := None)) (rr_head s) (us @ [(b, v)] @ vs)" by blast
  have w: "rr_walk (rr_nodes s) (rr_head s) None (rr_head s) p = Some (Some (Some b, a))"
    using scan_prev_chain_some [of "rr_nodes s" "rr_head s" "us @ [(b, v)]" a p vs None] d(1,4)
    by (simp add: rr_walk_rep [OF rep])
  have "chain (rr_nodes s) q vs" using d(1) q(1) by (auto simp: chain_append)
  then have qv: "q = (case vs of [] \<Rightarrow> None | x # _ \<Rightarrow> Some (fst x))" by (metis chain_first)
  have h: "rr_head s = Some (fst ((us @ [(b, v)]) ! 0))"
    using chain_first [OF d(1)] by (cases us) auto
  have nin: "a \<notin> set (addrs us)" "a \<notin> set (addrs vs)" using chain_distinct [OF d(1)] by auto
  let ?s' = "rr_unlink (Some b) a \<lparr>process = p, nxt = q\<rparr> s"
  have "rr_remove_process (Some p) s = Done ?s'" using w q(1) by (simp add: rr_remove_process_def)
  moreover have cur: "rr_current ?s' = (if rr_current s = Some a then cursor_after (us @ [(b, v)]) vs else rr_current s)"
    using qv h by (cases us) (auto simp: rr_unlink_def Let_def cursor_after_def split: list.splits)
  moreover have "rr_rep ?s' (us @ [(b, v)] @ vs)"
    unfolding rr_rep_def
  proof (intro conjI allI impI)
    show "chain (rr_nodes ?s') (rr_head ?s') (us @ [(b, v)] @ vs)" using q(3) by (simp add: rr_unlink_def Let_def)
    have "last_addr (Some a) vs = Some a \<longleftrightarrow> vs = []"
      using nin by (cases vs rule: rev_cases) (auto simp: last_addr_def)
    then show "rr_tail ?s' = last_addr None (us @ [(b, v)] @ vs)"
      using d(2) nin by (cases vs rule: rev_cases) (auto simp: rr_unlink_def Let_def last_addr_append last_addr_def)
    show "dom (rr_nodes ?s') = set (addrs (us @ [(b, v)] @ vs))"
      using d(3) nin q(2) by (auto simp: rr_unlink_def Let_def)
    show "distinct (procs (us @ [(b, v)] @ vs))" using d(4) by simp
    show "c \<in> set (addrs (us @ [(b, v)] @ vs))" if "rr_current ?s' = Some c" for c
      using that cur cursor_after_in [of "us @ [(b, v)]" vs c] d(5) by (auto split: if_splits)
  qed
  moreover have "rr_world ?s' = rr_world s" by (simp add: rr_unlink_def Let_def)
  ultimately show ?thesis by blast
qed

lemma rr_remove_rep:
  assumes "rr_rep s (us @ (a, p) # vs)"
  shows "\<exists>s'. rr_remove_process (Some p) s = Done s' \<and> rr_rep s' (us @ vs) \<and> rr_world s' = rr_world s \<and>
              rr_current s' = (if rr_current s = Some a then cursor_after us vs else rr_current s)"
proof (cases us rule: rev_cases)
  case Nil
  have "rr_rep s ((a, p) # vs)" using assms Nil by simp
  from rr_remove_head [OF this] Nil show ?thesis by (simp only: append_Nil)
next
  case (snoc ts y)
  have "rr_rep s (ts @ [(fst y, snd y)] @ (a, p) # vs)" using assms snoc by simp
  from rr_remove_inner [OF this] snoc show ?thesis by (simp only: prod.collapse append_assoc)
qed

section \<open>Counting and promoting\<close>

lemma rr_count_walk_chain:
  "chain st (Some a) xs \<Longrightarrow> hp \<notin> Some ` set (addrs (tl xs)) \<Longrightarrow>
   rr_count_walk st hp w a c = Some (c + length (filter (runnable w) (procs xs)))"
proof (induction xs arbitrary: a c)
  case (Cons x xs)
  obtain v where x: "x = (a, v)" using Cons.prems(1) by (cases x) auto
  with Cons.prems obtain q where q: "st a = Some \<lparr>process = v, nxt = q\<rparr>" "chain st q xs" by auto
  show ?case
  proof (cases q)
    case None
    with q x show ?thesis by (auto simp: rr_count_walk.simps [of st hp w a] runnable_cases [symmetric])
  next
    case (Some b)
    have b: "b \<in> set (addrs xs)" using q(2) Some by (cases xs) auto
    have "rr_count_walk st hp w b c' = Some (c' + length (filter (runnable w) (procs xs)))" for c'
      by (rule Cons.IH) (use q(2) Some Cons.prems(2) x in \<open>cases xs; auto\<close>)+
    with q(1) Some x b Cons.prems(2) show ?thesis
      by (auto simp: rr_count_walk.simps [of st hp w a] runnable_cases [symmetric])
  qed
qed simp

lemma rr_count_rep:
  assumes "rr_rep s xs"
  shows "rr_count_runnable s = Done (length (filter (runnable (rr_world s)) (procs xs)))"
proof (cases xs)
  case Nil
  with rr_repD(1) [OF assms] show ?thesis by (simp add: rr_count_runnable_def)
next
  case (Cons x ys)
  note c = rr_repD(1) [OF assms]
  have h: "rr_head s = Some (fst x)" using c Cons by (cases x) auto
  have "rr_count_walk (rr_nodes s) (rr_head s) (rr_world s) (fst x) 0 =
        Some (0 + length (filter (runnable (rr_world s)) (procs xs)))"
    by (rule rr_count_walk_chain) (use c h chain_distinct [OF c] Cons in \<open>cases x; auto\<close>)+
  with h show ?thesis by (simp add: rr_count_runnable_def)
qed

lemma rr_promote_rep:
  assumes rep: "rr_rep s (us @ (a, p) # vs)"
  shows "\<exists>s'. rr_promote_process (Some p) s = Done s' \<and> rr_rep s' (us @ (a, p) # vs) \<and>
              rr_current s' = Some a \<and>
              rr_world s' = process_set_sched_state (Some p) PROCESS_READY (rr_world s)"
proof -
  note d = rr_repD [OF rep]
  have w: "rr_walk (rr_nodes s) (rr_head s) None (rr_head s) p = Some (Some (last_addr None us, a))"
    unfolding rr_walk_rep [OF rep] by (rule scan_prev_chain_some [OF d(1)]) (use d(4) in auto)
  obtain h where h: "rr_head s = Some h" using d(1) by (cases "rr_head s") auto
  have "rr_rep (rr_set_ready p (s\<lparr>rr_current := Some a\<rparr>)) (us @ (a, p) # vs)"
    using rep by (simp add: rr_rep_def)
  with w show ?thesis unfolding rr_promote_process_def h by simp
qed

lemma rr_promote_absent:
  assumes "rr_rep s xs" "p \<notin> set (procs xs)"
  shows "rr_promote_process (Some p) s = Done s"
  using scan_prev_chain_none [OF rr_repD(1) [OF assms(1)] assms(2)]
  by (simp add: rr_promote_process_def rr_walk_rep [OF assms(1)])

section \<open>Picking\<close>

text \<open>The position from which the next pick starts, as an index into the list.\<close>

definition rr_start :: "rr_state \<Rightarrow> (nat \<times> nat) list \<Rightarrow> nat" where
  "rr_start s xs = (case rr_current s of
                      None \<Rightarrow> 0
                    | Some c \<Rightarrow> Suc (index_of c (addrs xs)) mod length xs)"

lemma rr_start_less: "xs \<noteq> [] \<Longrightarrow> rr_start s xs < length xs"
  by (auto simp: rr_start_def split: option.split)

lemma rr_advance_rep:
  assumes "rr_rep s xs" "xs \<noteq> []"
  shows "rr_advance s = Done (Some (addrs xs ! rr_start s xs))"
proof (cases "rr_current s")
  case None
  with chain_head_nth [OF rr_repD(1) [OF assms(1)] assms(2)] show ?thesis
    by (simp add: rr_advance_def rr_start_def)
next
  case (Some c)
  let ?i = "index_of c (addrs xs)"
  from rr_repD(5) [OF assms(1) Some] have i: "?i < length xs" "addrs xs ! ?i = c"
    using index_of_less [of c "addrs xs"] index_of_nth [of c "addrs xs"] by auto
  note c = rr_repD(1) [OF assms(1)]
  show ?thesis
    using chain_nth [OF c i(1)] cyclic_next [OF c i(1)] i(2) Some
    by (simp add: rr_advance_def rr_start_def)
qed

text \<open>The loop finds the first runnable process from the start position on.\<close>

lemma rr_pick_loop_chain:
  assumes "chain st h xs"
  shows "i < length xs \<Longrightarrow>
    (case cyc_find (runnable w) (procs xs) i k of
       Some j \<Rightarrow> rr_pick_loop k st h w (Some (addrs xs ! i)) nx = Done (Some (addrs xs ! j), Some (procs xs ! j))
     | None \<Rightarrow> (\<exists>j < length xs. \<exists>m. rr_pick_loop k st h w (Some (addrs xs ! i)) nx = Done (Some (addrs xs ! j), m) \<and>
                    (m = nx \<or> (\<exists>q. m = Some q \<and> \<not> runnable w q))))"
proof (induction k arbitrary: i nx)
  case (Suc k)
  have i': "Suc i mod length xs < length xs" using Suc.prems by (cases xs) auto
  have step: "rr_pick_loop (Suc k) st h w (Some (addrs xs ! i)) nx =
      (if runnable w (procs xs ! i) then Done (Some (addrs xs ! i), Some (procs xs ! i))
       else rr_pick_loop k st h w (Some (addrs xs ! (Suc i mod length xs))) (Some (procs xs ! i)))"
    using chain_nth [OF assms Suc.prems] cyclic_next [OF assms Suc.prems] by (simp add: runnable_def)
  show ?case
  proof (cases "runnable w (procs xs ! i)")
    case True
    then show ?thesis by (simp only: step cyc_find.simps if_True option.simps)
  next
    case False
    show ?thesis
    proof (cases "cyc_find (runnable w) (procs xs) (Suc i mod length xs) k")
      case None
      with Suc.IH [OF i', of "Some (procs xs ! i)"] False show ?thesis
        by (fastforce simp only: step cyc_find.simps length_procs if_False option.simps)
    next
      case (Some j)
      with Suc.IH [OF i', of "Some (procs xs ! i)"] False show ?thesis
        by (simp only: step cyc_find.simps length_procs if_False option.simps)
    qed
  qed
qed auto

text \<open>
  \<^verbatim>\<open>rr_schedule_next\<close> switches to the first runnable process after the cursor
  that 100 attempts meet, and only moves the cursor when they meet none.
\<close>

lemma rr_schedule_next_rep:
  assumes rep: "rr_rep s xs" and ne: "xs \<noteq> []"
  shows "\<exists>s'. rr_schedule_next s = Done s' \<and> rr_rep s' xs \<and>
     (case cyc_find (runnable (rr_world s)) (procs xs) (rr_start s xs) RR_MAX_PICK_ATTEMPTS of
        Some j \<Rightarrow> rr_current s' = Some (addrs xs ! j) \<and>
                  rr_world s' = sched_context_switch_to (Some (procs xs ! j)) (rr_world s)
      | None \<Rightarrow> rr_world s' = rr_world s)"
proof -
  note c = rr_repD(1) [OF rep]
  let ?i = "rr_start s xs" and ?w = "rr_world s"
  have i: "?i < length xs" by (rule rr_start_less [OF ne])
  have h: "rr_head s \<noteq> None" using c ne by (cases "rr_head s") auto
  note loop = rr_pick_loop_chain [OF c i, where w = ?w and k = RR_MAX_PICK_ATTEMPTS and nx = None]
  have keep: "rr_rep (s\<lparr>rr_current := Some (addrs xs ! j), rr_world := w\<rparr>) xs" if "j < length xs" for j w
    using rep that by (simp add: rr_rep_def)
  show ?thesis
  proof (cases "cyc_find (runnable ?w) (procs xs) ?i RR_MAX_PICK_ATTEMPTS")
    case (Some j)
    have j: "j < length xs" "runnable ?w (procs xs ! j)" using cyc_find_Some [OF Some] i by auto
    with loop Some h rr_advance_rep [OF rep ne] keep [OF j(1)] show ?thesis
      by (auto simp: rr_schedule_next_def Let_def runnable_def simp del: rr_pick_loop.simps)
  next
    case None
    with loop obtain j m where jm: "j < length xs"
      "rr_pick_loop RR_MAX_PICK_ATTEMPTS (rr_nodes s) (rr_head s) ?w (Some (addrs xs ! ?i)) None = Done (Some (addrs xs ! j), m)"
      "m = None \<or> (\<exists>q. m = Some q \<and> \<not> runnable ?w q)" by auto
    have "rr_schedule_next s = Done (s\<lparr>rr_current := Some (addrs xs ! j)\<rparr>)"
      using jm(2,3) h rr_advance_rep [OF rep ne]
      by (auto simp: rr_schedule_next_def Let_def runnable_def simp del: rr_pick_loop.simps)
    with None keep [OF jm(1), of ?w] show ?thesis by simp
  qed
qed

lemma rr_schedule_next_empty: "rr_rep s [] \<Longrightarrow> rr_schedule_next s = Done s"
  by (simp add: rr_rep_def rr_schedule_next_def)

lemma rr_schedule_next_world:
  assumes "rr_rep s xs"
  shows "\<exists>s'. rr_schedule_next s = Done s' \<and> rr_rep s' xs"
  using rr_schedule_next_empty [of s] rr_schedule_next_rep [OF assms] assms by (cases "xs = []") auto

section \<open>The backend contract\<close>

definition ir0_rr_sched_ops :: "rr_state sched_ops" where
  "ir0_rr_sched_ops = \<lparr>op_add = rr_add_process, op_remove = rr_remove_process,
     op_schedule_next = rr_schedule_next, op_count_runnable = rr_count_runnable,
     op_promote = rr_promote_process\<rparr>"

definition rr_queues :: "rr_state \<Rightarrow> nat set \<Rightarrow> bool" where
  "rr_queues s Q \<longleftrightarrow> (\<exists>xs. rr_rep s xs \<and> Q = set (procs xs))"

definition rr_fresh :: "rr_state \<Rightarrow> nat \<Rightarrow> bool" where
  "rr_fresh s a \<longleftrightarrow> a \<notin> dom (rr_nodes s)"

lemma runnable_in_set: "runnable_in w (set ps) = set (filter (runnable w) ps)"
  by (auto simp: runnable_in_def)

lemma rr_next_some:
  assumes "rr_rep s xs" "length xs \<le> RR_MAX_PICK_ATTEMPTS" "\<exists>p \<in> set (procs xs). runnable (rr_world s) p"
  obtains s' j where "rr_schedule_next s = Done s'" "rr_rep s' xs" "j < length xs"
    "runnable (rr_world s) (procs xs ! j)" "rr_current s' = Some (addrs xs ! j)"
    "rr_world s' = sched_context_switch_to (Some (procs xs ! j)) (rr_world s)"
    "cyc_find (runnable (rr_world s)) (procs xs) (rr_start s xs) (length xs) = Some j"
proof -
  have ne: "xs \<noteq> []" using assms(3) by auto
  have i: "rr_start s xs < length xs" by (rule rr_start_less [OF ne])
  have turn: "cyc_find (runnable (rr_world s)) (procs xs) (rr_start s xs) RR_MAX_PICK_ATTEMPTS =
              cyc_find (runnable (rr_world s)) (procs xs) (rr_start s xs) (length xs)"
    using cyc_find_turn [of "rr_start s xs" "procs xs" RR_MAX_PICK_ATTEMPTS] i assms(2) by simp
  obtain j where j: "cyc_find (runnable (rr_world s)) (procs xs) (rr_start s xs) (length xs) = Some j"
    using cyc_find_None_iff [of "rr_start s xs" "procs xs" "length xs" "runnable (rr_world s)"] i assms(3) by auto
  have "j < length xs" "runnable (rr_world s) (procs xs ! j)" using cyc_find_Some [OF j] i by auto
  with rr_schedule_next_rep [OF assms(1) ne] j turn that show thesis by auto
qed

interpretation rr: sched_backend ir0_rr_sched_ops rr_world rr_queues rr_fresh RR_MAX_PICK_ATTEMPTS
proof (unfold_locales, goal_cases)
  case (1 s Q)
  then show ?case by (auto simp: rr_queues_def)
next
  case (2 s Q a p)
  then obtain xs where xs: "rr_rep s xs" "Q = set (procs xs)" by (auto simp: rr_queues_def)
  let ?ys = "if p \<in> set (procs xs) then xs else xs @ [(a, p)]"
  obtain s' where s': "rr_add_process (Some a) (Some p) s = Done s'" "rr_rep s' ?ys"
      "rr_world s' = process_set_sched_state (Some p) PROCESS_READY (rr_world s)"
    using rr_add_rep [OF xs(1), of a p] 2(2) by (auto simp: rr_fresh_def simp del: if_split)
  have "insert p Q = set (procs ?ys)" using xs(2) by auto
  with s' show ?case unfolding rr_queues_def ir0_rr_sched_ops_def by auto
next
  case (3 s Q p)
  then obtain xs where xs: "rr_rep s xs" "Q = set (procs xs)" by (auto simp: rr_queues_def)
  show ?case
  proof (cases "p \<in> set (procs xs)")
    case True
    then obtain us a vs where sp: "xs = us @ (a, p) # vs" by (rule split_at_proc)
    have "Q - {p} = set (procs (us @ vs))" using rr_repD(4) [OF xs(1)] xs(2) sp by auto
    moreover from rr_remove_rep [of s us a p vs] xs(1) sp obtain s' where
      "rr_remove_process (Some p) s = Done s'" "rr_rep s' (us @ vs)" "rr_world s' = rr_world s" by blast
    ultimately show ?thesis unfolding ir0_rr_sched_ops_def rr_queues_def by auto
  next
    case False
    with rr_remove_absent [OF xs(1)] xs show ?thesis
      by (auto simp: ir0_rr_sched_ops_def rr_queues_def)
  qed
next
  case (4 s Q)
  then obtain xs where xs: "rr_rep s xs" "Q = set (procs xs)" by (auto simp: rr_queues_def)
  have "distinct (filter (runnable (rr_world s)) (procs xs))" using rr_repD(4) [OF xs(1)] by simp
  with rr_count_rep [OF xs(1)] xs(2) show ?case
    by (simp add: ir0_rr_sched_ops_def runnable_in_set distinct_card [symmetric])
next
  case (5 s Q)
  then obtain xs where xs: "rr_rep s xs" "Q = set (procs xs)" by (auto simp: rr_queues_def)
  have "length xs \<le> RR_MAX_PICK_ATTEMPTS"
    using 5(2) xs distinct_card [OF rr_repD(4) [OF xs(1)]] by simp
  moreover have "\<exists>p \<in> set (procs xs). runnable (rr_world s) p" using 5(3) xs(2) by (auto simp: runnable_in_def)
  ultimately obtain s' j where sj: "rr_schedule_next s = Done s'" "rr_rep s' xs" "j < length xs"
    "runnable (rr_world s) (procs xs ! j)"
    "rr_world s' = sched_context_switch_to (Some (procs xs ! j)) (rr_world s)"
    by (rule rr_next_some [OF xs(1)])
  then show ?case
    using xs(2) by (auto simp: ir0_rr_sched_ops_def rr_queues_def runnable_in_def intro!: bexI [of _ "procs xs ! j"])
next
  case (6 s Q)
  then obtain xs where xs: "rr_rep s xs" "Q = set (procs xs)" by (auto simp: rr_queues_def)
  show ?case
  proof (cases "xs = []")
    case True
    with rr_schedule_next_empty xs show ?thesis by (auto simp: ir0_rr_sched_ops_def rr_queues_def)
  next
    case False
    from 6(2) xs(2) have none: "\<forall>p \<in> set (procs xs). \<not> runnable (rr_world s) p" by (auto simp: runnable_in_def)
    have "cyc_find (runnable (rr_world s)) (procs xs) (rr_start s xs) RR_MAX_PICK_ATTEMPTS = None"
    proof (rule ccontr)
      assume "cyc_find (runnable (rr_world s)) (procs xs) (rr_start s xs) RR_MAX_PICK_ATTEMPTS \<noteq> None"
      then obtain j where "cyc_find (runnable (rr_world s)) (procs xs) (rr_start s xs) RR_MAX_PICK_ATTEMPTS = Some j"
        by blast
      from cyc_find_Some [OF this] rr_start_less [OF False] none show False by auto
    qed
    with rr_schedule_next_rep [OF xs(1) False] xs show ?thesis by (auto simp: ir0_rr_sched_ops_def rr_queues_def)
  qed
next
  case (7 s Q p)
  then obtain xs where xs: "rr_rep s xs" "Q = set (procs xs)" by (auto simp: rr_queues_def)
  show ?case
  proof (cases "p \<in> set (procs xs)")
    case True
    then obtain us a vs where sp: "xs = us @ (a, p) # vs" by (rule split_at_proc)
    with rr_promote_rep [of s us a p vs] xs(1) obtain s' where "rr_promote_process (Some p) s = Done s'"
      "rr_rep s' xs" "rr_world s' = process_set_sched_state (Some p) PROCESS_READY (rr_world s)" by blast
    with True xs(2) show ?thesis unfolding ir0_rr_sched_ops_def rr_queues_def by auto
  next
    case False
    with rr_promote_absent [OF xs(1)] xs show ?thesis
      by (auto simp: ir0_rr_sched_ops_def rr_queues_def)
  qed
qed

section \<open>No starvation\<close>

fun rr_ticks :: "nat \<Rightarrow> rr_state \<Rightarrow> rr_state kresult" where
  "rr_ticks 0 s = Done s"
| "rr_ticks (Suc n) s = kbind (rr_schedule_next s) (rr_ticks n)"

lemma rr_start_after:
  assumes "rr_rep s xs" "rr_current s = Some (addrs xs ! j)" "j < length xs"
  shows "rr_start s xs = Suc j mod length xs"
  using assms index_of_eq [OF chain_distinct [OF rr_repD(1) [OF assms(1)]], of j] by (simp add: rr_start_def)

text \<open>The position of \<open>p\<close> is \<open>d\<close> steps from the next start: it is reached in at most \<open>d + 1\<close> calls.\<close>

lemma rr_reaches:
  assumes "length xs \<le> RR_MAX_PICK_ATTEMPTS"
  shows "rr_rep s xs \<Longrightarrow> d < length xs \<Longrightarrow>
     runnable (rr_world s) (procs xs ! ((rr_start s xs + d) mod length xs)) \<Longrightarrow>
     \<exists>m s'. 0 < m \<and> m \<le> Suc d \<and> rr_ticks m s = Done s' \<and>
            current_process (rr_world s') = Some (procs xs ! ((rr_start s xs + d) mod length xs))"
proof (induction d arbitrary: s rule: less_induct)
  case (less d)
  let ?n = "length xs" and ?i = "rr_start s xs"
  let ?j = "(?i + d) mod ?n"
  have ne: "xs \<noteq> []" using less.prems(2) by auto
  have i: "?i < ?n" by (rule rr_start_less [OF ne])
  have "?j < ?n" using ne by simp
  then have "\<exists>p \<in> set (procs xs). runnable (rr_world s) p" using less.prems(3) by (metis length_procs nth_mem)
  from rr_next_some [OF less.prems(1) assms this] obtain s' k where
    k: "rr_schedule_next s = Done s'" "rr_rep s' xs" "k < ?n" "runnable (rr_world s) (procs xs ! k)"
       "rr_current s' = Some (addrs xs ! k)" "rr_world s' = sched_context_switch_to (Some (procs xs ! k)) (rr_world s)"
       "cyc_find (runnable (rr_world s)) (procs xs) ?i ?n = Some k" .
  from cyc_find_Some [OF k(7)] i obtain e where
    e: "k = (?i + e) mod ?n" "\<forall>f < e. \<not> runnable (rr_world s) (procs xs ! ((?i + f) mod ?n))" by auto
  have "e \<le> d" using e(2) less.prems(3) by (metis not_less)
  show ?case
  proof (cases "e = d")
    case True
    with k e(1) show ?thesis by (intro exI [of _ 1] exI [of _ s']) (auto simp: switch_current)
  next
    case False
    with \<open>e \<le> d\<close> have ed: "d - Suc e < d" "d - Suc e < ?n" "Suc e + (d - Suc e) = d" using less.prems(2) by auto
    have st: "rr_start s' xs = (?i + Suc e) mod ?n"
      using rr_start_after [OF k(2,5,3)] e(1) by (simp add: mod_simps)
    have j: "(rr_start s' xs + (d - Suc e)) mod ?n = ?j"
      unfolding st using ed(3) by (metis add.assoc mod_add_left_eq)
    have "runnable (rr_world s') (procs xs ! ((rr_start s' xs + (d - Suc e)) mod ?n))"
      unfolding j k(6) using switch_runnable [OF k(4)] less.prems(3) by simp
    from less.IH [OF ed(1) k(2) ed(2) this] obtain m t where
      m: "0 < m" "m \<le> Suc (d - Suc e)" "rr_ticks m s' = Done t" "current_process (rr_world t) = Some (procs xs ! ?j)"
      unfolding j by blast
    with k(1) ed(1) show ?thesis by (intro exI [of _ "Suc m"] exI [of _ t]) auto
  qed
qed

text \<open>
  C21: No starvation under round robin. In a well-formed queue of at most 100 processes
  (the bound of the pick loop), every runnable queued process becomes
  \<^verbatim>\<open>current_process\<close> within as many calls of \<^verbatim>\<open>rr_schedule_next\<close> as the queue
  has entries, wherever the cursor stands.
\<close>

theorem rr_no_starvation:
  assumes "rr_rep s xs" "length xs \<le> RR_MAX_PICK_ATTEMPTS" "p \<in> set (procs xs)" "runnable (rr_world s) p"
  shows "\<exists>m s'. 0 < m \<and> m \<le> length xs \<and> rr_ticks m s = Done s' \<and> current_process (rr_world s') = Some p"
proof -
  obtain j where j: "j < length xs" "procs xs ! j = p" using assms(3) by (metis in_set_conv_nth length_procs)
  then have "xs \<noteq> []" by auto
  from cyclic_reach [OF rr_start_less [OF this] j(1)] obtain d where
    d: "d < length xs" "(rr_start s xs + d) mod length xs = j" by blast
  from rr_reaches [OF assms(2,1) d(1), unfolded d(2) j(2), OF assms(4)] d(1) show ?thesis
    by (meson Suc_leI le_trans)
qed

text \<open>Where no attempt meets a runnable process, the cursor stops behind the last one tried, on a process that was not looked at.\<close>

lemma rr_pick_loop_miss:
  assumes "chain st h xs"
  shows "i < length xs \<Longrightarrow> (\<And>f. f < k \<Longrightarrow> \<not> runnable w (procs xs ! ((i + f) mod length xs))) \<Longrightarrow>
    \<exists>m. rr_pick_loop k st h w (Some (addrs xs ! i)) nx = Done (Some (addrs xs ! ((i + k) mod length xs)), m) \<and> (m = nx \<or> (\<exists>q. m = Some q \<and> \<not> runnable w q))"
proof (induction k arbitrary: i nx)
  case (Suc k)
  have i': "Suc i mod length xs < length xs" using Suc.prems(1) by (cases xs) auto
  have no: "\<not> runnable w (procs xs ! i)" using Suc.prems(2) [of 0] Suc.prems(1) by simp
  have "\<not> runnable w (procs xs ! ((Suc i mod length xs + f) mod length xs))" if "f < k" for f
    using Suc.prems(2) [of "Suc f"] that by (simp add: mod_simps)
  from Suc.IH [OF i' this, of "Some (procs xs ! i)"] obtain m where
    m: "rr_pick_loop k st h w (Some (addrs xs ! (Suc i mod length xs))) (Some (procs xs ! i)) = Done (Some (addrs xs ! ((Suc i mod length xs + k) mod length xs)), m)"
      "m = Some (procs xs ! i) \<or> (\<exists>q. m = Some q \<and> \<not> runnable w q)" by blast
  have "rr_pick_loop (Suc k) st h w (Some (addrs xs ! i)) nx = rr_pick_loop k st h w (Some (addrs xs ! (Suc i mod length xs))) (Some (procs xs ! i))"
    using chain_nth [OF assms Suc.prems(1)] cyclic_next [OF assms Suc.prems(1)] no by (auto simp: runnable_def)
  then show ?case using m no by (auto simp: mod_simps)
qed simp

lemma rr_next_miss:
  assumes rep: "rr_rep s xs" and len: "length xs = Suc RR_MAX_PICK_ATTEMPTS"
    and no: "\<And>f. f < RR_MAX_PICK_ATTEMPTS \<Longrightarrow> \<not> runnable (rr_world s) (procs xs ! ((rr_start s xs + f) mod length xs))"
  shows "\<exists>s'. rr_schedule_next s = Done s' \<and> rr_rep s' xs \<and> rr_world s' = rr_world s \<and> rr_start s' xs = rr_start s xs"
proof -
  note c = rr_repD(1) [OF rep]
  let ?i = "rr_start s xs" and ?w = "rr_world s"
  let ?j = "(?i + RR_MAX_PICK_ATTEMPTS) mod length xs"
  have ne: "xs \<noteq> []" using len by auto
  have i: "?i < length xs" by (rule rr_start_less [OF ne])
  have h: "rr_head s \<noteq> None" using c ne by (cases "rr_head s") auto
  obtain m where m: "rr_pick_loop RR_MAX_PICK_ATTEMPTS (rr_nodes s) (rr_head s) ?w (Some (addrs xs ! ?i)) None = Done (Some (addrs xs ! ?j), m)"
      "m = None \<or> (\<exists>q. m = Some q \<and> \<not> runnable ?w q)"
    using rr_pick_loop_miss [OF c i, where k = RR_MAX_PICK_ATTEMPTS and w = ?w and nx = None] no by blast
  define s' where "s' = s\<lparr>rr_current := Some (addrs xs ! ?j)\<rparr>"
  have j: "?j < length xs" using ne by simp
  have rep': "rr_rep s' xs" using rep j by (simp add: rr_rep_def s'_def)
  have "rr_schedule_next s = Done s'"
    using m h rr_advance_rep [OF rep ne] by (auto simp: rr_schedule_next_def Let_def runnable_def s'_def simp del: rr_pick_loop.simps)
  moreover have "rr_start s' xs = ?i"
  proof -
    have "rr_start s' xs = Suc ?j mod length xs" by (rule rr_start_after [OF rep' _ j]) (simp add: s'_def)
    also have "\<dots> = (?i + length xs) mod length xs" unfolding len by (simp add: mod_Suc_eq)
    finally show ?thesis using i by simp
  qed
  ultimately show ?thesis using rep' by (auto simp: s'_def)
qed

text \<open>
  C28: Beyond the bound a runnable process can starve for ever. In a queue of 101 entries whose cursor is such that the next 100
  cannot run, no number of scheduling calls ever switches to the remaining process, runnable or not: a failed search leaves the
  cursor on it without having looked at it, and the next search starts behind it.
\<close>

theorem rr_starves_beyond_bound:
  assumes rep: "rr_rep s xs" and len: "length xs = Suc RR_MAX_PICK_ATTEMPTS"
    and no: "\<And>f. f < RR_MAX_PICK_ATTEMPTS \<Longrightarrow> \<not> runnable (rr_world s) (procs xs ! ((rr_start s xs + f) mod length xs))"
  shows "\<exists>s'. rr_ticks m s = Done s' \<and> rr_rep s' xs \<and> rr_world s' = rr_world s"
  using rep no
proof (induction m arbitrary: s)
  case (Suc m)
  obtain s1 where s1: "rr_schedule_next s = Done s1" "rr_rep s1 xs" "rr_world s1 = rr_world s" "rr_start s1 xs = rr_start s xs"
    using rr_next_miss [OF Suc.prems(1) len Suc.prems(2)] by blast
  have "\<exists>s'. rr_ticks m s1 = Done s' \<and> rr_rep s' xs \<and> rr_world s' = rr_world s1"
    by (rule Suc.IH [OF s1(2)]) (use s1(3,4) Suc.prems(2) in simp)
  then show ?case using s1(1,3) by simp
qed simp

section \<open>Sequences of operations\<close>

datatype rr_op = RrAdd nat | RrRemove nat | RrNext | RrPromote nat

text \<open>\<open>alloc\<close> stands for \<^verbatim>\<open>kmalloc\<close>: the address it gives in a store.\<close>

fun rr_exec :: "(qstore \<Rightarrow> nat) \<Rightarrow> rr_op \<Rightarrow> rr_state \<Rightarrow> rr_state kresult" where
  "rr_exec alloc (RrAdd p) s = rr_add_process (Some (alloc (rr_nodes s))) (Some p) s"
| "rr_exec alloc (RrRemove p) s = rr_remove_process (Some p) s"
| "rr_exec alloc RrNext s = rr_schedule_next s"
| "rr_exec alloc (RrPromote p) s = rr_promote_process (Some p) s"

fun rr_run :: "(qstore \<Rightarrow> nat) \<Rightarrow> rr_op list \<Rightarrow> rr_state \<Rightarrow> rr_state kresult" where
  "rr_run alloc [] s = Done s"
| "rr_run alloc (c # cs) s = kbind (rr_exec alloc c s) (rr_run alloc cs)"

text \<open>The abstract queue: a list of processes.\<close>

fun queue_step :: "rr_op \<Rightarrow> nat list \<Rightarrow> nat list" where
  "queue_step (RrAdd p) ps = (if p \<in> set ps then ps else ps @ [p])"
| "queue_step (RrRemove p) ps = filter (\<lambda>q. q \<noteq> p) ps"
| "queue_step RrNext ps = ps"
| "queue_step (RrPromote p) ps = ps"

lemma filter_absent: "p \<notin> set ps \<Longrightarrow> filter (\<lambda>q. q \<noteq> p) ps = ps"
  by (induction ps) auto

lemma rr_exec_refines:
  assumes "rr_rep s xs" "\<forall>st. finite (dom st) \<longrightarrow> alloc st \<notin> dom st"
  shows "\<exists>s' xs'. rr_exec alloc c s = Done s' \<and> rr_rep s' xs' \<and> procs xs' = queue_step c (procs xs)"
proof (cases c)
  case (RrAdd p)
  have "finite (dom (rr_nodes s))" using rr_repD(3) [OF assms(1)] by simp
  with assms(2) have "alloc (rr_nodes s) \<notin> dom (rr_nodes s)" by blast
  from rr_add_rep [OF assms(1) this, of p] obtain s' where
    s': "rr_add_process (Some (alloc (rr_nodes s))) (Some p) s = Done s'"
        "rr_rep s' (if p \<in> set (procs xs) then xs else xs @ [(alloc (rr_nodes s), p)])" by blast
  show ?thesis unfolding RrAdd
    by (intro exI [of _ s'] exI [of _ "if p \<in> set (procs xs) then xs else xs @ [(alloc (rr_nodes s), p)]"])
       (use s' in auto)
next
  case (RrRemove p)
  show ?thesis
  proof (cases "p \<in> set (procs xs)")
    case True
    then obtain us a vs where sp: "xs = us @ (a, p) # vs" by (rule split_at_proc)
    have "queue_step c (procs xs) = procs (us @ vs)"
      using rr_repD(4) [OF assms(1)] by (simp add: RrRemove sp filter_absent)
    with rr_remove_rep [of s us a p vs] assms(1) sp RrRemove show ?thesis by (metis rr_exec.simps(2))
  next
    case False
    with rr_remove_absent [OF assms(1) False] assms(1) RrRemove show ?thesis by (auto simp: filter_absent)
  qed
next
  case RrNext
  with rr_schedule_next_world [OF assms(1)] show ?thesis by auto
next
  case (RrPromote p)
  show ?thesis
  proof (cases "p \<in> set (procs xs)")
    case True
    then obtain us a vs where "xs = us @ (a, p) # vs" by (rule split_at_proc)
    with rr_promote_rep [of s us a p vs] assms(1) RrPromote show ?thesis by (metis queue_step.simps(4) rr_exec.simps(4))
  next
    case False
    with rr_promote_absent [OF assms(1)] assms(1) RrPromote show ?thesis by auto
  qed
qed

text \<open>
  C22: The ready list is memory safe and is a FIFO list of distinct processes. From any
  well-formed state, every sequence of add, remove, promote and schedule calls returns (it
  follows no dangling pointer and no walk loops), keeps the representation invariant (tail is
  the last node, the cursor is NULL or a live node, no node is leaked, no process is queued
  twice), and changes the queue as the abstract list does: add appends unless present, remove
  deletes, scheduling and promotion leave it alone.
\<close>

theorem rr_run_refines:
  assumes "rr_rep s xs" "\<forall>st. finite (dom st) \<longrightarrow> alloc st \<notin> dom st"
  shows "\<exists>s' xs'. rr_run alloc cs s = Done s' \<and> rr_rep s' xs' \<and> procs xs' = fold queue_step cs (procs xs)"
  using assms(1)
proof (induction cs arbitrary: s xs)
  case (Cons c cs)
  from rr_exec_refines [OF Cons.prems assms(2), of c] obtain s' xs' where
    "rr_exec alloc c s = Done s'" "rr_rep s' xs'" "procs xs' = queue_step c (procs xs)" by blast
  with Cons.IH [of s' xs'] show ?case by simp
qed auto

section \<open>Witnesses\<close>

definition rr_boot :: "world \<Rightarrow> rr_state" where
  "rr_boot w = \<lparr>rr_nodes = Map.empty, rr_head = None, rr_tail = None, rr_current = None, rr_world = w\<rparr>"

lemma rr_boot_rep: "rr_rep (rr_boot w) []"
  by (simp add: rr_rep_def rr_boot_def)

definition demo_world :: world where
  "demo_world = \<lparr>proc_at = (\<lambda>p. \<lparr>state = PROCESS_READY, task_state = TASK_SCHED_RUNNABLE,
      lifecycle = PROCESS_LIFECYCLE_ALIVE, sched_prio = int p\<rparr>), current_process = None, first_switch = True\<rparr>"

definition next_free :: "qstore \<Rightarrow> nat" where
  "next_free st = Suc (Max (insert 0 (dom st)))"

lemma next_free_fresh: "finite (dom st) \<Longrightarrow> next_free st \<notin> dom st"
proof
  assume "finite (dom st)" "next_free st \<in> dom st"
  then have "next_free st \<le> Max (insert 0 (dom st))" by simp
  then show False by (simp add: next_free_def)
qed

lemma rr_queue_exists: "distinct ps \<Longrightarrow> \<exists>s xs. rr_rep s xs \<and> procs xs = ps \<and> rr_current s = None"
proof (induction ps rule: rev_induct)
  case Nil
  then show ?case using rr_boot_rep by (fastforce simp: rr_boot_def)
next
  case (snoc p ps)
  then obtain s xs where s: "rr_rep s xs" "procs xs = ps" "rr_current s = None" by auto
  have "next_free (rr_nodes s) \<notin> dom (rr_nodes s)" by (rule next_free_fresh) (use rr_repD(3) [OF s(1)] in simp)
  from rr_add_rep [OF s(1) this, of p] obtain s' where "rr_rep s' (xs @ [(next_free (rr_nodes s), p)])" "rr_current s' = None"
    using s(2,3) snoc.prems by auto
  then show ?case using s(2) by (intro exI [of _ s'] exI [of _ "xs @ [(next_free (rr_nodes s), p)]"]) simp
qed

text \<open>Witness of the starvation: the processes 0 to 100, of which only 100 can run.\<close>

definition starving_world :: world where
  "starving_world = demo_world\<lparr>proc_at := (\<lambda>p. (proc_at demo_world p)\<lparr>state := (if p = 100 then PROCESS_READY else PROCESS_BLOCKED)\<rparr>)\<rparr>"

theorem rr_starves_beyond_bound_witness:
  "\<exists>s xs. rr_rep s xs \<and> 100 \<in> set (procs xs) \<and> runnable (rr_world s) 100 \<and> (\<forall>m. \<exists>s'. rr_ticks m s = Done s' \<and> current_process (rr_world s') = None)"
proof -
  obtain s0 xs where s0: "rr_rep s0 xs" "procs xs = [0..<101]" "rr_current s0 = None" using rr_queue_exists [of "[0..<101]"] by auto
  define s where "s = s0\<lparr>rr_world := starving_world\<rparr>"
  have rep: "rr_rep s xs" using s0(1) by (simp add: rr_rep_def s_def)
  have len: "length xs = Suc RR_MAX_PICK_ATTEMPTS" using arg_cong [OF s0(2), of length] by simp
  have st: "rr_start s xs = 0" using s0(3) by (simp add: rr_start_def s_def)
  have no: "\<not> runnable (rr_world s) (procs xs ! ((rr_start s xs + f) mod length xs))" if "f < RR_MAX_PICK_ATTEMPTS" for f
    using that len s0(2) st by (simp add: runnable_def s_def starving_world_def)
  have "\<exists>s'. rr_ticks m s = Done s' \<and> current_process (rr_world s') = None" for m
    using rr_starves_beyond_bound [OF rep len no, of m] by (auto simp: s_def starving_world_def demo_world_def)
  then show ?thesis using rep s0(2) by (intro exI [of _ s] exI [of _ xs]) (auto simp: runnable_def s_def starving_world_def)
qed

definition rr_demo :: rr_state where
  "rr_demo = \<lparr>rr_nodes = [16 \<mapsto> \<lparr>process = 7, nxt = Some 32\<rparr>, 32 \<mapsto> \<lparr>process = 5, nxt = None\<rparr>],
     rr_head = Some 16, rr_tail = Some 32, rr_current = Some 16, rr_world = demo_world\<rparr>"

lemma rr_demo_rep: "rr_rep rr_demo [(16, 7), (32, 5)]"
  by (auto simp: rr_rep_def rr_demo_def)

lemma rr_no_starvation_witness:
  "runnable (rr_world rr_demo) 7 \<and>
   (\<exists>m s'. 0 < m \<and> m \<le> 2 \<and> rr_ticks m rr_demo = Done s' \<and> current_process (rr_world s') = Some 7)"
proof -
  have r: "runnable (rr_world rr_demo) 7" by (simp add: rr_demo_def demo_world_def runnable_def)
  from rr_no_starvation [OF rr_demo_rep, of 7] r show ?thesis by (auto simp: numeral_2_eq_2)
qed

lemma rr_run_refines_witness:
  "\<exists>s' xs'. rr_run next_free [RrAdd 7, RrAdd 5, RrNext, RrAdd 7, RrRemove 7, RrAdd 9, RrPromote 9] (rr_boot demo_world) = Done s' \<and>
     rr_rep s' xs' \<and> procs xs' = [5, 9]"
  using rr_run_refines [OF rr_boot_rep, of next_free
      "[RrAdd 7, RrAdd 5, RrNext, RrAdd 7, RrRemove 7, RrAdd 9, RrPromote 9]" demo_world] next_free_fresh
  by (simp del: rr_run.simps)

end
