(* ===== verification/Priority_Sched.thy ===== *)
theory Priority_Sched
  imports Linked_Queue Sched_Ops
begin

text \<open>
  The priority-band scheduler (\<^verbatim>\<open>sched/priority_sched.c\<close>): eight singly linked run
  queues with head, tail and cursor, round robin inside a band, the highest band with a
  runnable process first. Nodes, \<^verbatim>\<open>kmalloc\<close> and \<^verbatim>\<open>kfree\<close> are modelled as in
  the round-robin scheduler. The loops over the bands are recursions over the list of bands.
\<close>

section \<open>State and operations\<close>

record prio_band =
  band_head :: "nat option"
  band_tail :: "nat option"
  band_curr :: "nat option"

record prio_state =
  prio_nodes :: qstore
  prio_bands :: "prio_band list"
  prio_world :: world

abbreviation IR0_SCHED_PRIO_BANDS :: nat where "IR0_SCHED_PRIO_BANDS \<equiv> 8"
abbreviation IR0_SCHED_PRIO_MAX :: int where "IR0_SCHED_PRIO_MAX \<equiv> 7"
abbreviation IR0_SCHED_PRIO_DEFAULT :: nat where "IR0_SCHED_PRIO_DEFAULT \<equiv> 4"
abbreviation PRIO_PICK_ATTEMPTS :: nat where "PRIO_PICK_ATTEMPTS \<equiv> 64"

definition prio_clamp :: "int \<Rightarrow> int" where
  "prio_clamp prio = (if prio < 0 then 0 else if prio > IR0_SCHED_PRIO_MAX then IR0_SCHED_PRIO_MAX else prio)"

definition prio_band_of :: "world \<Rightarrow> nat option \<Rightarrow> nat" where
  "prio_band_of w proc =
     (case proc of
        None \<Rightarrow> IR0_SCHED_PRIO_DEFAULT
      | Some p \<Rightarrow> nat (prio_clamp (sched_prio (proc_at w p))))"

fun prio_scan_bands :: "qstore \<Rightarrow> prio_band list \<Rightarrow> nat \<Rightarrow> bool option" where
  "prio_scan_bands st [] proc = Some False"
| "prio_scan_bands st (bd # bds) proc =
     (case scan_for st (band_head bd) proc of
        None \<Rightarrow> None
      | Some (Some a) \<Rightarrow> Some True
      | Some None \<Rightarrow> prio_scan_bands st bds proc)"

definition prio_already_queued :: "nat \<Rightarrow> prio_state \<Rightarrow> bool option" where
  "prio_already_queued proc s = prio_scan_bands (prio_nodes s) (prio_bands s) proc"

definition prio_set_ready :: "nat \<Rightarrow> prio_state \<Rightarrow> prio_state" where
  "prio_set_ready proc s = s\<lparr>prio_world := process_set_sched_state (Some proc) PROCESS_READY (prio_world s)\<rparr>"

definition priority_add_process :: "nat option \<Rightarrow> nat option \<Rightarrow> prio_state \<Rightarrow> prio_state kresult" where
  "priority_add_process mem p s =
     (case p of
        None \<Rightarrow> Done s
      | Some proc \<Rightarrow>
          (case mem of
             None \<Rightarrow> Panic ''BUG_ON''
           | Some a \<Rightarrow>
               (let s1 = s\<lparr>prio_nodes := (prio_nodes s)(a \<mapsto> \<lparr>process = proc, nxt = None\<rparr>)\<rparr>;
                    b = prio_band_of (prio_world s) (Some proc) in
                case prio_already_queued proc s1 of
                  None \<Rightarrow> Stuck
                | Some True \<Rightarrow>
                    (let s2 = prio_set_ready proc s1 in Done (s2\<lparr>prio_nodes := (prio_nodes s2)(a := None)\<rparr>))
                | Some False \<Rightarrow>
                    (let band = prio_bands s1 ! b in
                     case band_head band of
                       None \<Rightarrow>
                         Done (prio_set_ready proc (s1\<lparr>prio_bands :=
                           (prio_bands s1)[b := band\<lparr>band_head := Some a, band_tail := Some a\<rparr>]\<rparr>))
                     | Some h \<Rightarrow>
                         (case band_tail band of
                            None \<Rightarrow> Stuck
                          | Some t \<Rightarrow>
                              if prio_nodes s1 t = None then Stuck
                              else Done (prio_set_ready proc
                                     (s1\<lparr>prio_nodes := set_nxt (prio_nodes s1) t (Some a),
                                         prio_bands := (prio_bands s1)[b := band\<lparr>band_tail := Some a\<rparr>]\<rparr>)))))))"

definition band_unlink :: "nat option \<Rightarrow> nat \<Rightarrow> qnode \<Rightarrow> prio_band \<Rightarrow> prio_band" where
  "band_unlink prev a n band =
     (let b1 = (if prev = None then band\<lparr>band_head := nxt n\<rparr> else band);
          b2 = (if band_tail b1 = Some a then b1\<lparr>band_tail := prev\<rparr> else b1)
      in if band_curr b2 = Some a then b2\<lparr>band_curr := nxt n\<rparr> else b2)"

text \<open>The outer loop of the removal; \<open>bs\<close> are the bands still to visit.\<close>

fun prio_remove_loop :: "nat list \<Rightarrow> nat \<Rightarrow> prio_state \<Rightarrow> prio_state kresult" where
  "prio_remove_loop [] proc s = Done s"
| "prio_remove_loop (b # bs) proc s =
     (case scan_prev (prio_nodes s) None (band_head (prio_bands s ! b)) proc of
        None \<Rightarrow> Stuck
      | Some None \<Rightarrow> prio_remove_loop bs proc s
      | Some (Some (prev, a)) \<Rightarrow>
          (case prio_nodes s a of
             None \<Rightarrow> Stuck
           | Some n \<Rightarrow>
               (let st1 = (case prev of Some b' \<Rightarrow> set_nxt (prio_nodes s) b' (nxt n) | None \<Rightarrow> prio_nodes s) in
                Done (s\<lparr>prio_nodes := st1(a := None),
                        prio_bands := (prio_bands s)[b := band_unlink prev a n (prio_bands s ! b)]\<rparr>))))"

definition priority_remove_process :: "nat option \<Rightarrow> prio_state \<Rightarrow> prio_state kresult" where
  "priority_remove_process p s =
     (case p of None \<Rightarrow> Done s | Some proc \<Rightarrow> prio_remove_loop [0..<IR0_SCHED_PRIO_BANDS] proc s)"

text \<open>
  The inner loop of the pick (a do-while): the number of attempts left, the walk and where it
  started. The result is the node and the process picked.
\<close>

fun prio_pick_loop ::
  "nat \<Rightarrow> qstore \<Rightarrow> nat option \<Rightarrow> world \<Rightarrow> nat \<Rightarrow> nat \<Rightarrow> (nat \<times> nat) option kresult" where
  "prio_pick_loop 0 st hp w start walk = Done None"
| "prio_pick_loop (Suc k) st hp w start walk =
     (case st walk of
        None \<Rightarrow> Stuck
      | Some n \<Rightarrow>
          if state (proc_at w (process n)) \<noteq> PROCESS_ZOMBIE \<and> state (proc_at w (process n)) \<noteq> PROCESS_BLOCKED
          then Done (Some (walk, process n))
          else (case (case nxt n of Some b \<Rightarrow> Some b | None \<Rightarrow> hp) of
                  None \<Rightarrow> Done None
                | Some b \<Rightarrow> if b = start then Done None else prio_pick_loop k st hp w start b))"

definition band_advance :: "qstore \<Rightarrow> prio_band \<Rightarrow> nat option kresult" where
  "band_advance st band =
     (case band_curr band of
        None \<Rightarrow> Done (band_head band)
      | Some c \<Rightarrow> (case st c of
                     None \<Rightarrow> Stuck
                   | Some n \<Rightarrow> Done (case nxt n of Some b \<Rightarrow> Some b | None \<Rightarrow> band_head band)))"

definition set_curr :: "nat \<Rightarrow> nat \<Rightarrow> prio_state \<Rightarrow> prio_state" where
  "set_curr b a s = s\<lparr>prio_bands := (prio_bands s)[b := (prio_bands s ! b)\<lparr>band_curr := Some a\<rparr>]\<rparr>"

text \<open>The outer loop of the pick, from the highest band down.\<close>

fun prio_pick_bands :: "nat list \<Rightarrow> prio_state \<Rightarrow> (prio_state \<times> nat option) kresult" where
  "prio_pick_bands [] s = Done (s, None)"
| "prio_pick_bands (b # bs) s =
     (let band = prio_bands s ! b in
      if band_head band = None then prio_pick_bands bs s
      else kbind (band_advance (prio_nodes s) band) (\<lambda>st.
             case st of
               None \<Rightarrow> Stuck
             | Some start \<Rightarrow>
                 (let s1 = set_curr b start s in
                  kbind (prio_pick_loop PRIO_PICK_ATTEMPTS (prio_nodes s) (band_head band) (prio_world s) start start) (\<lambda>r.
                    case r of
                      Some (a, cand) \<Rightarrow> Done (set_curr b a s1, Some cand)
                    | None \<Rightarrow> prio_pick_bands bs s1))))"

definition priority_pick_next :: "prio_state \<Rightarrow> (prio_state \<times> nat option) kresult" where
  "priority_pick_next s = prio_pick_bands (rev [0..<IR0_SCHED_PRIO_BANDS]) s"

definition priority_schedule_next :: "prio_state \<Rightarrow> prio_state kresult" where
  "priority_schedule_next s =
     kbind (priority_pick_next s) (\<lambda>(s1, nx).
       case nx of
         None \<Rightarrow> Done s1
       | Some p \<Rightarrow> Done (s1\<lparr>prio_world := sched_context_switch_to (Some p) (prio_world s1)\<rparr>))"

fun prio_count_bands :: "qstore \<Rightarrow> world \<Rightarrow> prio_band list \<Rightarrow> nat \<Rightarrow> nat kresult" where
  "prio_count_bands st w [] c = Done c"
| "prio_count_bands st w (bd # bds) c =
     (case scan_count st (band_head bd)
             (\<lambda>p. state (proc_at w p) = PROCESS_READY \<or> state (proc_at w p) = PROCESS_RUNNING) c of
        None \<Rightarrow> Stuck
      | Some c' \<Rightarrow> prio_count_bands st w bds c')"

definition priority_count_runnable :: "prio_state \<Rightarrow> nat kresult" where
  "priority_count_runnable s = prio_count_bands (prio_nodes s) (prio_world s) (prio_bands s) 0"

definition priority_promote_process :: "nat option \<Rightarrow> prio_state \<Rightarrow> prio_state kresult" where
  "priority_promote_process p s =
     (case p of
        None \<Rightarrow> Done s
      | Some proc \<Rightarrow>
          (let b = prio_band_of (prio_world s) (Some proc) in
           case scan_for (prio_nodes s) (band_head (prio_bands s ! b)) proc of
             None \<Rightarrow> Stuck
           | Some None \<Rightarrow> Done s
           | Some (Some a) \<Rightarrow> Done (prio_set_ready proc (set_curr b a s))))"

text \<open>
  The boot self-test: \<open>lo\<close> and \<open>hi\<close> are the addresses of its two stack processes, \<open>m1\<close> and
  \<open>m2\<close> the nodes \<^verbatim>\<open>kmalloc\<close> gives.
\<close>

definition prio_selftest_world :: "nat \<Rightarrow> nat \<Rightarrow> world \<Rightarrow> world" where
  "prio_selftest_world lo hi w =
     w\<lparr>proc_at := (proc_at w)
        (lo := \<lparr>state = PROCESS_READY, task_state = TASK_SCHED_RUNNABLE, lifecycle = PROCESS_LIFECYCLE_ALIVE, sched_prio = 1\<rparr>,
         hi := \<lparr>state = PROCESS_READY, task_state = TASK_SCHED_RUNNABLE, lifecycle = PROCESS_LIFECYCLE_ALIVE, sched_prio = 6\<rparr>)\<rparr>"

definition priority_sched_selftest ::
  "nat \<Rightarrow> nat \<Rightarrow> nat option \<Rightarrow> nat option \<Rightarrow> prio_state \<Rightarrow> (prio_state \<times> int) kresult" where
  "priority_sched_selftest lo hi m1 m2 s =
     kbind (priority_add_process m1 (Some lo) (s\<lparr>prio_world := prio_selftest_world lo hi (prio_world s)\<rparr>)) (\<lambda>s1.
     kbind (priority_add_process m2 (Some hi) s1) (\<lambda>s2.
     kbind (priority_pick_next s2) (\<lambda>(s3, pick).
     kbind (priority_remove_process (Some lo) s3) (\<lambda>s4.
     kbind (priority_remove_process (Some hi) s4) (\<lambda>s5.
       if pick \<noteq> Some hi then Done (s5, -1)
       else kbind (priority_count_runnable s5) (\<lambda>n. if n \<noteq> 0 then Done (s5, -1) else Done (s5, 0)))))))"

section \<open>The representation invariant\<close>

definition band_ok :: "qstore \<Rightarrow> prio_band \<Rightarrow> (nat \<times> nat) list \<Rightarrow> bool" where
  "band_ok st band xs \<longleftrightarrow>
     chain st (band_head band) xs \<and> band_tail band = last_addr None xs \<and>
     (\<forall>c. band_curr band = Some c \<longrightarrow> c \<in> set (addrs xs))"

text \<open>
  \<open>prio_rep s xss\<close>: band \<open>b\<close> is the list \<open>xss b\<close>; no process and no node is in two places, and
  the scheduler holds no other node.
\<close>

definition prio_rep :: "prio_state \<Rightarrow> (nat \<Rightarrow> (nat \<times> nat) list) \<Rightarrow> bool" where
  "prio_rep s xss \<longleftrightarrow>
     length (prio_bands s) = IR0_SCHED_PRIO_BANDS \<and>
     (\<forall>b < IR0_SCHED_PRIO_BANDS. band_ok (prio_nodes s) (prio_bands s ! b) (xss b) \<and> distinct (procs (xss b))) \<and>
     (\<forall>b < IR0_SCHED_PRIO_BANDS. \<forall>c < IR0_SCHED_PRIO_BANDS. b \<noteq> c \<longrightarrow>
        set (addrs (xss b)) \<inter> set (addrs (xss c)) = {} \<and> set (procs (xss b)) \<inter> set (procs (xss c)) = {}) \<and>
     dom (prio_nodes s) = (\<Union>b < IR0_SCHED_PRIO_BANDS. set (addrs (xss b)))"

definition prio_queued :: "(nat \<Rightarrow> (nat \<times> nat) list) \<Rightarrow> nat set" where
  "prio_queued xss = (\<Union>b < IR0_SCHED_PRIO_BANDS. set (procs (xss b)))"

lemma prio_repD [kernel_inv]:
  assumes "prio_rep s xss"
  shows "length (prio_bands s) = IR0_SCHED_PRIO_BANDS"
    "b < IR0_SCHED_PRIO_BANDS \<Longrightarrow> band_ok (prio_nodes s) (prio_bands s ! b) (xss b)"
    "b < IR0_SCHED_PRIO_BANDS \<Longrightarrow> distinct (procs (xss b))"
    "b < IR0_SCHED_PRIO_BANDS \<Longrightarrow> c < IR0_SCHED_PRIO_BANDS \<Longrightarrow> b \<noteq> c \<Longrightarrow> set (addrs (xss b)) \<inter> set (addrs (xss c)) = {}"
    "b < IR0_SCHED_PRIO_BANDS \<Longrightarrow> c < IR0_SCHED_PRIO_BANDS \<Longrightarrow> b \<noteq> c \<Longrightarrow> set (procs (xss b)) \<inter> set (procs (xss c)) = {}"
    "dom (prio_nodes s) = (\<Union>b < IR0_SCHED_PRIO_BANDS. set (addrs (xss b)))"
  using assms by (auto simp: prio_rep_def)

lemma band_okD:
  assumes "band_ok st band xs"
  shows "chain st (band_head band) xs" "band_tail band = last_addr None xs"
    "band_curr band = Some c \<Longrightarrow> c \<in> set (addrs xs)"
  using assms by (auto simp: band_ok_def)

lemma band_ok_cong: "(\<And>a. a \<in> set (addrs xs) \<Longrightarrow> st' a = st a) \<Longrightarrow> band_ok st' band xs = band_ok st band xs"
  unfolding band_ok_def using chain_cong [of xs st' st] by simp

lemma prio_band_of_less: "prio_band_of w p < IR0_SCHED_PRIO_BANDS"
  by (auto simp: prio_band_of_def prio_clamp_def split: option.split)

lemma prio_set_ready_fields [simp]:
  "prio_nodes (prio_set_ready p s) = prio_nodes s" "prio_bands (prio_set_ready p s) = prio_bands s"
  "prio_world (prio_set_ready p s) = process_set_sched_state (Some p) PROCESS_READY (prio_world s)"
  by (simp_all add: prio_set_ready_def)

lemma prio_rep_set_ready [simp]: "prio_rep (prio_set_ready p s) xss = prio_rep s xss"
  by (simp add: prio_rep_def)

lemma prio_rep_world [simp]: "prio_rep (s\<lparr>prio_world := w\<rparr>) xss = prio_rep s xss"
  by (simp add: prio_rep_def)

text \<open>
  Replacing one band: the new store agrees with the old one on the nodes of the other bands,
  and the new list is disjoint from theirs.
\<close>

lemma prio_rep_update:
  assumes rep: "prio_rep s xss" and b: "b < IR0_SCHED_PRIO_BANDS"
    and ok: "band_ok st band ys" and dist: "distinct (procs ys)"
    and frame: "\<And>c a. c < IR0_SCHED_PRIO_BANDS \<Longrightarrow> c \<noteq> b \<Longrightarrow> a \<in> set (addrs (xss c)) \<Longrightarrow>
                  st a = prio_nodes s a \<and> a \<notin> set (addrs ys)"
    and pdisj: "\<And>c. c < IR0_SCHED_PRIO_BANDS \<Longrightarrow> c \<noteq> b \<Longrightarrow> set (procs (xss c)) \<inter> set (procs ys) = {}"
    and dom: "dom st = (dom (prio_nodes s) - set (addrs (xss b))) \<union> set (addrs ys)"
  shows "prio_rep (s\<lparr>prio_nodes := st, prio_bands := (prio_bands s)[b := band]\<rparr>) (xss(b := ys))"
proof -
  note d = prio_repD [OF rep]
  have "band_ok st (prio_bands s ! c) (xss c)" if "c < IR0_SCHED_PRIO_BANDS" "c \<noteq> b" for c
    using band_ok_cong [of "xss c" st "prio_nodes s"] frame that d(2) by metis
  moreover have "dom st = (\<Union>c < IR0_SCHED_PRIO_BANDS. set (addrs ((xss(b := ys)) c)))"
    unfolding dom d(6) using b d(4) [OF b] by (auto split: if_splits) blast
  moreover have "set (addrs ((xss(b := ys)) c)) \<inter> set (addrs ((xss(b := ys)) c')) = {}"
    if "c < IR0_SCHED_PRIO_BANDS" "c' < IR0_SCHED_PRIO_BANDS" "c \<noteq> c'" for c c'
    using that frame d(4) by (auto split: if_splits)
  moreover have "set (procs ((xss(b := ys)) c)) \<inter> set (procs ((xss(b := ys)) c')) = {}"
    if "c < IR0_SCHED_PRIO_BANDS" "c' < IR0_SCHED_PRIO_BANDS" "c \<noteq> c'" for c c'
    using that pdisj d(5) by (auto split: if_splits)
  ultimately show ?thesis
    unfolding prio_rep_def using d(1,3) b ok dist by (auto simp: nth_list_update_if)
qed

section \<open>Looking a process up\<close>

lemma find_proc_cases:
  "chain st h xs \<Longrightarrow> p \<notin> set (procs xs) \<Longrightarrow> scan_for st h p = Some None"
  "chain st h (us @ (a, p) # vs) \<Longrightarrow> p \<notin> set (procs us) \<Longrightarrow> scan_for st h p = Some (Some a)"
proof -
  have none: "List.find (\<lambda>(a, v). v = p) ys = None" if "p \<notin> set (procs ys)" for ys :: "(nat \<times> nat) list"
    using that by (induction ys) auto
  have some: "List.find (\<lambda>(a, v). v = p) (ys @ (a, p) # vs) = Some (a, p)" if "p \<notin> set (procs ys)" for ys
    using that by (induction ys) auto
  show "chain st h xs \<Longrightarrow> p \<notin> set (procs xs) \<Longrightarrow> scan_for st h p = Some None"
    using scan_for_chain [of st h xs p] none by simp
  show "chain st h (us @ (a, p) # vs) \<Longrightarrow> p \<notin> set (procs us) \<Longrightarrow> scan_for st h p = Some (Some a)"
    using scan_for_chain [of st h "us @ (a, p) # vs" p] some by simp
qed

lemma prio_scan_bands_ok:
  "(\<And>i. i < length bds \<Longrightarrow> chain st (band_head (bds ! i)) (yss i)) \<Longrightarrow>
   prio_scan_bands st bds p = Some (\<exists>i < length bds. p \<in> set (procs (yss i)))"
proof (induction bds arbitrary: yss)
  case (Cons bd bds)
  have c: "chain st (band_head bd) (yss 0)" using Cons.prems [of 0] by simp
  have IH: "prio_scan_bands st bds p = Some (\<exists>i < length bds. p \<in> set (procs (yss (Suc i))))"
    by (rule Cons.IH) (use Cons.prems in force)
  have split: "(\<exists>i < length (bd # bds). p \<in> set (procs (yss i))) \<longleftrightarrow>
      p \<in> set (procs (yss 0)) \<or> (\<exists>i < length bds. p \<in> set (procs (yss (Suc i))))"
    by (auto simp: less_Suc_eq_0_disj)
  show ?case
  proof (cases "p \<in> set (procs (yss 0))")
    case True
    then obtain us a vs where "yss 0 = us @ (a, p) # vs" "p \<notin> set (procs us)" by (rule split_at_proc)
    with find_proc_cases(2) c split show ?thesis by simp
  next
    case False
    with find_proc_cases(1) [OF c] IH split show ?thesis by simp
  qed
qed simp

lemma prio_already_queued_ok:
  assumes "length (prio_bands s) = IR0_SCHED_PRIO_BANDS"
    "\<And>b. b < IR0_SCHED_PRIO_BANDS \<Longrightarrow> band_ok (prio_nodes s) (prio_bands s ! b) (xss b)"
  shows "prio_already_queued p s = Some (p \<in> prio_queued xss)"
  using prio_scan_bands_ok [of "prio_bands s" "prio_nodes s" xss p] assms band_okD(1)
  by (auto simp: prio_already_queued_def prio_queued_def)

section \<open>Adding\<close>

lemma prio_add_rep:
  assumes rep: "prio_rep s xss" and fresh: "a \<notin> dom (prio_nodes s)"
  shows "\<exists>s'. priority_add_process (Some a) (Some p) s = Done s' \<and>
     prio_rep s' (if p \<in> prio_queued xss then xss
                  else xss(prio_band_of (prio_world s) (Some p) := xss (prio_band_of (prio_world s) (Some p)) @ [(a, p)])) \<and>
     prio_world s' = process_set_sched_state (Some p) PROCESS_READY (prio_world s)"
proof -
  note d = prio_repD [OF rep]
  let ?b = "prio_band_of (prio_world s) (Some p)"
  let ?st = "(prio_nodes s)(a \<mapsto> \<lparr>process = p, nxt = None\<rparr>)"
  let ?s1 = "s\<lparr>prio_nodes := ?st\<rparr>"
  let ?band = "prio_bands s ! ?b" and ?xs = "xss ?b"
  have b: "?b < IR0_SCHED_PRIO_BANDS" by (rule prio_band_of_less)
  have a: "c < IR0_SCHED_PRIO_BANDS \<Longrightarrow> a \<notin> set (addrs (xss c))" for c using fresh d(6) by auto
  have ok: "c < IR0_SCHED_PRIO_BANDS \<Longrightarrow> band_ok ?st (prio_bands s ! c) (xss c)" for c
    by (subst band_ok_cong [of _ _ "prio_nodes s"]) (use a d(2) in auto)
  have q: "prio_already_queued p ?s1 = Some (p \<in> prio_queued xss)"
    by (rule prio_already_queued_ok) (use d(1) ok in auto)
  show ?thesis
  proof (cases "p \<in> prio_queued xss")
    case True
    have "?st(a := None) = prio_nodes s" using fresh by (auto simp: fun_eq_iff)
    then have "priority_add_process (Some a) (Some p) s = Done (prio_set_ready p s)"
      using q True by (simp add: priority_add_process_def Let_def prio_set_ready_def)
    with rep True show ?thesis by simp
  next
    case False
    then have new: "c < IR0_SCHED_PRIO_BANDS \<Longrightarrow> p \<notin> set (procs (xss c))" for c by (auto simp: prio_queued_def)
    note okb = band_okD [OF ok [OF b]]
    have "\<exists>st band. priority_add_process (Some a) (Some p) s =
            Done (prio_set_ready p (s\<lparr>prio_nodes := st, prio_bands := (prio_bands s)[?b := band]\<rparr>)) \<and>
          band_ok st band (?xs @ [(a, p)]) \<and> dom st = insert a (dom (prio_nodes s)) \<and>
          (\<forall>x. x \<notin> set (addrs ?xs) \<longrightarrow> x \<noteq> a \<longrightarrow> st x = prio_nodes s x)"
    proof (cases ?xs rule: rev_cases)
      case Nil
      have h: "band_head ?band = None" "band_tail ?band = None" using okb(1,2) Nil by simp_all
      have "priority_add_process (Some a) (Some p) s =
         Done (prio_set_ready p (s\<lparr>prio_nodes := ?st, prio_bands := (prio_bands s)[?b := ?band\<lparr>band_head := Some a, band_tail := Some a\<rparr>]\<rparr>))"
        using q False h by (simp add: priority_add_process_def Let_def)
      moreover have "band_ok ?st (?band\<lparr>band_head := Some a, band_tail := Some a\<rparr>) (?xs @ [(a, p)])"
        using Nil okb(3) by (auto simp: band_ok_def)
      ultimately show ?thesis by (intro exI [of _ ?st] exI conjI) (assumption | auto)+
    next
      case (snoc ys y)
      obtain t w where y: "y = (t, w)" by fastforce
      let ?st' = "set_nxt ?st t (Some a)"
      obtain h where h: "band_head ?band = Some h" using okb(1) snoc y by (cases "band_head ?band") auto
      have t: "band_tail ?band = Some t" "?st t \<noteq> None"
        using okb(2) chain_dom [OF okb(1)] snoc y by auto
      have "priority_add_process (Some a) (Some p) s =
         Done (prio_set_ready p (s\<lparr>prio_nodes := ?st', prio_bands := (prio_bands s)[?b := ?band\<lparr>band_tail := Some a\<rparr>]\<rparr>))"
        using q False h t by (simp add: priority_add_process_def Let_def)
      moreover have "band_ok ?st' (?band\<lparr>band_tail := Some a\<rparr>) (?xs @ [(a, p)])"
        using chain_link_last [of "prio_nodes s" "band_head ?band" ys t w a p] band_okD(1) [OF d(2) [OF b]] a [OF b] snoc y okb(3)
        by (auto simp: band_ok_def last_addr_append)
      moreover have "?st' x = prio_nodes s x" if "x \<notin> set (addrs ?xs)" "x \<noteq> a" for x
        using that snoc y by (auto simp: set_nxt_def)
      moreover have "dom ?st' = insert a (dom (prio_nodes s))" by simp
      ultimately show ?thesis by blast
    qed
    then obtain st band where
      r: "priority_add_process (Some a) (Some p) s =
            Done (prio_set_ready p (s\<lparr>prio_nodes := st, prio_bands := (prio_bands s)[?b := band]\<rparr>))"
         "band_ok st band (?xs @ [(a, p)])" "dom st = insert a (dom (prio_nodes s))"
         "\<forall>x. x \<notin> set (addrs ?xs) \<longrightarrow> x \<noteq> a \<longrightarrow> st x = prio_nodes s x" by blast
    have "prio_rep (s\<lparr>prio_nodes := st, prio_bands := (prio_bands s)[?b := band]\<rparr>) (xss(?b := ?xs @ [(a, p)]))"
    proof (rule prio_rep_update [OF rep b r(2)])
      show "distinct (procs (?xs @ [(a, p)]))" using d(3) [OF b] new [OF b] by simp
      show "st x = prio_nodes s x \<and> x \<notin> set (addrs (?xs @ [(a, p)]))"
        if "c < IR0_SCHED_PRIO_BANDS" "c \<noteq> ?b" "x \<in> set (addrs (xss c))" for c x
        using that d(4) [OF b that(1)] a [OF that(1)] r(4) by auto
      show "set (procs (xss c)) \<inter> set (procs (?xs @ [(a, p)])) = {}" if "c < IR0_SCHED_PRIO_BANDS" "c \<noteq> ?b" for c
        using d(5) [OF b that(1)] new [OF that(1)] that(2) by auto
      show "dom st = dom (prio_nodes s) - set (addrs ?xs) \<union> set (addrs (?xs @ [(a, p)]))"
        using r(3) d(6) b by auto
    qed
    with r(1) False show ?thesis by simp
  qed
qed

section \<open>Removing\<close>

lemma band_unlink_ok:
  assumes ok: "band_ok st band (us @ (a, p) # vs)" and n: "st a = Some n"
    and st': "st' = (case last_addr None us of Some b' \<Rightarrow> set_nxt st b' (nxt n) | None \<Rightarrow> st)(a := None)"
  shows "band_ok st' (band_unlink (last_addr None us) a n band) (us @ vs)"
proof -
  note d = band_okD [OF ok]
  have dist: "distinct (addrs (us @ (a, p) # vs))" by (rule chain_distinct [OF d(1)])
  obtain q where q: "n = \<lparr>process = p, nxt = q\<rparr>" "chain st q vs" using d(1) n by (auto simp: chain_append)
  have qv: "q = (case vs of [] \<Rightarrow> None | x # _ \<Rightarrow> Some (fst x))" using q(2) by (cases vs) auto
  have curr: "c \<in> set (addrs (us @ vs))" if "band_curr (band_unlink prev a n band) = Some c" for prev c
    using that d(3) q(1) qv by (cases vs) (auto simp: band_unlink_def Let_def split: if_splits)
  show ?thesis
  proof (cases us rule: rev_cases)
    case Nil
    have "chain (st(a := None)) q vs" using chain_unlink_head [of st "band_head band" a p vs] d(1) Nil n q(1) by simp
    moreover have "band_tail (band_unlink None a n band) = last_addr None vs"
      using d(2) dist Nil by (cases vs rule: rev_cases) (auto simp: band_unlink_def Let_def last_addr_def)
    moreover have "band_head (band_unlink None a n band) = q" using q(1) by (simp add: band_unlink_def Let_def)
    ultimately show ?thesis using curr Nil st' by (simp add: band_ok_def)
  next
    case (snoc ts y)
    obtain b v where y: "y = (b, v)" by fastforce
    from chain_unlink_inner [of st "band_head band" ts b v a p vs] d(1) snoc y n q(1)
    have "chain ((set_nxt st b q)(a := None)) (band_head band) (us @ vs)" by simp
    moreover have "band_tail (band_unlink (Some b) a n band) = last_addr None (us @ vs)"
      using d(2) dist snoc y by (cases vs rule: rev_cases) (auto simp: band_unlink_def Let_def last_addr_append last_addr_def)
    moreover have "band_head (band_unlink (Some b) a n band) = band_head band" by (simp add: band_unlink_def Let_def)
    ultimately show ?thesis using curr snoc y st' q(1) by (simp add: band_ok_def)
  qed
qed

lemma prio_remove_loop_skip:
  "prio_rep s xss \<Longrightarrow> (\<And>b. b \<in> set bs \<Longrightarrow> b < IR0_SCHED_PRIO_BANDS \<and> p \<notin> set (procs (xss b))) \<Longrightarrow>
   prio_remove_loop (bs @ cs) p s = prio_remove_loop cs p s"
proof (induction bs)
  case (Cons b bs)
  have "scan_prev (prio_nodes s) None (band_head (prio_bands s ! b)) p = Some None"
    using Cons.prems band_okD(1) [OF prio_repD(2) [OF Cons.prems(1)]] by (intro scan_prev_chain_none) auto
  with Cons show ?case by simp
qed simp

lemma prio_remove_absent:
  assumes "prio_rep s xss" "p \<notin> prio_queued xss"
  shows "priority_remove_process (Some p) s = Done s"
  using prio_remove_loop_skip [OF assms(1), of "[0..<IR0_SCHED_PRIO_BANDS]" p "[]"] assms(2)
  by (simp add: priority_remove_process_def prio_queued_def del: upt_Suc prio_remove_loop.simps(2))

lemma prio_remove_rep:
  assumes rep: "prio_rep s xss" and b: "b < IR0_SCHED_PRIO_BANDS" and xs: "xss b = us @ (a, p) # vs"
  shows "\<exists>s'. priority_remove_process (Some p) s = Done s' \<and> prio_rep s' (xss(b := us @ vs)) \<and>
              prio_world s' = prio_world s"
proof -
  note d = prio_repD [OF rep]
  note ok = d(2) [OF b, unfolded xs]
  let ?prev = "last_addr None us"
  have skip: "priority_remove_process (Some p) s = prio_remove_loop (b # [Suc b..<IR0_SCHED_PRIO_BANDS]) p s"
  proof -
    have "[0..<IR0_SCHED_PRIO_BANDS] = [0..<b] @ b # [Suc b..<IR0_SCHED_PRIO_BANDS]"
      using upt_add_eq_append [of 0 b "IR0_SCHED_PRIO_BANDS - b"] upt_conv_Cons [OF b] b by simp
    moreover have "p \<notin> set (procs (xss c))" if "c < b" for c using d(5) [of b c] b that xs by auto
    ultimately show ?thesis
      unfolding priority_remove_process_def using prio_remove_loop_skip [OF rep, of "[0..<b]" p] b
      by (simp del: prio_remove_loop.simps upt_Suc upt.simps)
  qed
  have scan: "scan_prev (prio_nodes s) None (band_head (prio_bands s ! b)) p = Some (Some (?prev, a))"
    by (rule scan_prev_chain_some [OF band_okD(1) [OF ok]]) (use d(3) [OF b] xs in auto)
  obtain n where n: "prio_nodes s a = Some n" using chain_dom [OF band_okD(1) [OF ok]] by auto
  let ?st1 = "case ?prev of Some b' \<Rightarrow> set_nxt (prio_nodes s) b' (nxt n) | None \<Rightarrow> prio_nodes s"
  let ?s' = "s\<lparr>prio_nodes := ?st1(a := None), prio_bands := (prio_bands s)[b := band_unlink ?prev a n (prio_bands s ! b)]\<rparr>"
  have "priority_remove_process (Some p) s = Done ?s'" using skip scan n by (simp add: Let_def)
  moreover have "prio_rep ?s' (xss(b := us @ vs))"
  proof (rule prio_rep_update [OF rep b band_unlink_ok [OF ok n refl]])
    have dist: "distinct (addrs (xss b))" using chain_distinct [OF band_okD(1) [OF d(2) [OF b]]] .
    show "distinct (procs (us @ vs))" using d(3) [OF b] xs by simp
    have prev_in: "b' \<in> set (addrs us)" if "?prev = Some b'" for b'
      using that by (cases us rule: rev_cases) (auto simp: last_addr_def)
    show "(?st1(a := None)) x = prio_nodes s x \<and> x \<notin> set (addrs (us @ vs))"
      if "c < IR0_SCHED_PRIO_BANDS" "c \<noteq> b" "x \<in> set (addrs (xss c))" for c x
      using that d(4) [OF b that(1)] xs prev_in by (auto simp: set_nxt_def split: option.split)
    show "set (procs (xss c)) \<inter> set (procs (us @ vs)) = {}" if "c < IR0_SCHED_PRIO_BANDS" "c \<noteq> b" for c
      using d(5) [OF b that(1)] that(2) xs by auto
    have "dom ?st1 = dom (prio_nodes s)" by (simp split: option.split)
    moreover have "set (addrs (xss b)) \<subseteq> dom (prio_nodes s)" using d(6) b by auto
    ultimately show "dom (?st1(a := None)) = dom (prio_nodes s) - set (addrs (xss b)) \<union> set (addrs (us @ vs))"
      using dist xs by auto
  qed
  ultimately show ?thesis by (intro exI [of _ ?s']) simp
qed

section \<open>Picking\<close>

text \<open>The inner loop: the first runnable entry of the cycle from the start, within the attempts.\<close>

lemma prio_pick_loop_chain:
  assumes "chain st h xs" "i < length xs"
  shows "e < length xs \<Longrightarrow>
     prio_pick_loop k st h w (addrs xs ! i) (addrs xs ! ((i + e) mod length xs)) =
     Done (map_option (\<lambda>j. (addrs xs ! j, procs xs ! j))
            (cyc_find (runnable w) (procs xs) ((i + e) mod length xs) (min k (length xs - e))))"
proof (induction k arbitrary: e)
  case (Suc k)
  let ?n = "length xs"
  let ?c = "(i + e) mod ?n"
  have c: "?c < ?n" using assms(2) by (cases xs) auto
  have nx: "Suc ?c mod ?n = (i + Suc e) mod ?n" by (simp add: mod_Suc_eq)
  have le: "min (Suc k) (?n - e) = Suc (min k (?n - Suc e))" using Suc.prems by auto
  have start: "(i + Suc e) mod ?n = i \<longleftrightarrow> Suc e = ?n"
  proof (cases "i + Suc e < ?n")
    case False
    then have "(i + Suc e) mod ?n = i + Suc e - ?n"
      using assms(2) Suc.prems by (subst le_mod_geq) auto
    with False Suc.prems show ?thesis by auto
  qed (use Suc.prems in auto)
  have "(i + Suc e) mod ?n < ?n" using assms(2) by (cases xs) auto
  then have eq: "addrs xs ! ((i + Suc e) mod ?n) = addrs xs ! i \<longleftrightarrow> Suc e = ?n"
    using nth_eq_iff_index_eq [OF chain_distinct [OF assms(1)]] assms(2) start by simp
  have step: "prio_pick_loop (Suc k) st h w (addrs xs ! i) (addrs xs ! ?c) =
      (if runnable w (procs xs ! ?c) then Done (Some (addrs xs ! ?c, procs xs ! ?c))
       else if Suc e = ?n then Done None
       else prio_pick_loop k st h w (addrs xs ! i) (addrs xs ! ((i + Suc e) mod ?n)))"
    using chain_nth [OF assms(1) c] cyclic_next [OF assms(1) c] eq unfolding nx by (simp add: runnable_def)
  show ?case
  proof (cases "Suc e = ?n")
    case True
    show ?thesis unfolding step le using True by simp
  next
    case False
    with Suc.prems Suc.IH [of "Suc e"] show ?thesis
      unfolding step le by (simp del: prio_pick_loop.simps add: nx [simplified])
  qed
qed simp

definition band_start :: "prio_band \<Rightarrow> (nat \<times> nat) list \<Rightarrow> nat" where
  "band_start band xs = (case band_curr band of
                           None \<Rightarrow> 0
                         | Some c \<Rightarrow> Suc (index_of c (addrs xs)) mod length xs)"

lemma band_start_less: "xs \<noteq> [] \<Longrightarrow> band_start band xs < length xs"
  by (auto simp: band_start_def split: option.split)

lemma band_advance_ok:
  assumes "band_ok st band xs" "xs \<noteq> []"
  shows "band_advance st band = Done (Some (addrs xs ! band_start band xs))"
proof (cases "band_curr band")
  case None
  with chain_head_nth [OF band_okD(1) [OF assms(1)] assms(2)] show ?thesis
    by (simp add: band_advance_def band_start_def)
next
  case (Some c)
  let ?i = "index_of c (addrs xs)"
  from band_okD(3) [OF assms(1) Some] have i: "?i < length xs" "addrs xs ! ?i = c"
    using index_of_less [of c "addrs xs"] index_of_nth [of c "addrs xs"] by auto
  note c = band_okD(1) [OF assms(1)]
  show ?thesis
    using chain_nth [OF c i(1)] cyclic_next [OF c i(1)] i(2) Some
    by (simp add: band_advance_def band_start_def)
qed

lemma set_curr_rep:
  assumes "prio_rep s xss" "b < IR0_SCHED_PRIO_BANDS" "a \<in> set (addrs (xss b))"
  shows "prio_rep (set_curr b a s) xss"
proof -
  note d = prio_repD [OF assms(1)]
  have "prio_rep (s\<lparr>prio_nodes := prio_nodes s, prio_bands := (prio_bands s)[b := (prio_bands s ! b)\<lparr>band_curr := Some a\<rparr>]\<rparr>)
          (xss(b := xss b))"
  proof (rule prio_rep_update [OF assms(1,2)])
    show "band_ok (prio_nodes s) ((prio_bands s ! b)\<lparr>band_curr := Some a\<rparr>) (xss b)"
      using d(2) [OF assms(2)] assms(3) by (simp add: band_ok_def)
    show "distinct (procs (xss b))" by (rule d(3) [OF assms(2)])
    show "prio_nodes s x = prio_nodes s x \<and> x \<notin> set (addrs (xss b))"
      if "c < IR0_SCHED_PRIO_BANDS" "c \<noteq> b" "x \<in> set (addrs (xss c))" for c x
      using d(4) [OF that(1) assms(2) that(2)] that(3) by auto
    show "set (procs (xss c)) \<inter> set (procs (xss b)) = {}" if "c < IR0_SCHED_PRIO_BANDS" "c \<noteq> b" for c
      by (rule d(5) [OF that(1) assms(2) that(2)])
    show "dom (prio_nodes s) = dom (prio_nodes s) - set (addrs (xss b)) \<union> set (addrs (xss b))"
      using d(6) assms(2) by auto
  qed
  then show ?thesis by (simp add: set_curr_def)
qed

lemma set_curr_fields [simp]:
  "prio_nodes (set_curr b a s) = prio_nodes s" "prio_world (set_curr b a s) = prio_world s"
  by (simp_all add: set_curr_def)

text \<open>
  The pick over a list of bands: the first band with a runnable process among the candidates
  examined decides. With at most 64 processes queued in every band, all are examined.
\<close>

definition band_pick :: "prio_state \<Rightarrow> (nat \<Rightarrow> (nat \<times> nat) list) \<Rightarrow> nat \<Rightarrow> nat option" where
  "band_pick s xss b =
     cyc_find (runnable (prio_world s)) (procs (xss b)) (band_start (prio_bands s ! b) (xss b))
       (min PRIO_PICK_ATTEMPTS (length (xss b)))"

lemma prio_pick_one:
  assumes rep: "prio_rep s xss" and b: "b < IR0_SCHED_PRIO_BANDS" and ne: "xss b \<noteq> []"
  shows "\<exists>s1. prio_rep s1 xss \<and> prio_world s1 = prio_world s \<and>
     (\<forall>c. c \<noteq> b \<longrightarrow> prio_bands s1 ! c = prio_bands s ! c) \<and>
     prio_pick_bands (b # bs) s =
       (case band_pick s xss b of
          Some j \<Rightarrow> Done (set_curr b (addrs (xss b) ! j) s1, Some (procs (xss b) ! j))
        | None \<Rightarrow> prio_pick_bands bs s1)"
proof -
  let ?i = "band_start (prio_bands s ! b) (xss b)" and ?xs = "xss b"
  let ?s1 = "set_curr b (addrs ?xs ! ?i) s"
  note ok = prio_repD(2) [OF rep b]
  have i: "?i < length ?xs" by (rule band_start_less [OF ne])
  then have ai: "addrs ?xs ! ?i \<in> set (addrs ?xs)" by (simp add: nth_mem)
  have h: "band_head (prio_bands s ! b) \<noteq> None" using band_okD(1) [OF ok] ne by (cases "band_head (prio_bands s ! b)") auto
  have "prio_pick_loop PRIO_PICK_ATTEMPTS (prio_nodes s) (band_head (prio_bands s ! b)) (prio_world s) (addrs ?xs ! ?i) (addrs ?xs ! ?i) =
        Done (map_option (\<lambda>j. (addrs ?xs ! j, procs ?xs ! j)) (band_pick s xss b))"
    using prio_pick_loop_chain [OF band_okD(1) [OF ok] i, of 0 PRIO_PICK_ATTEMPTS "prio_world s"] i ne
    by (simp add: band_pick_def del: prio_pick_loop.simps)
  then have "prio_pick_bands (b # bs) s =
       (case band_pick s xss b of
          Some j \<Rightarrow> Done (set_curr b (addrs ?xs ! j) ?s1, Some (procs ?xs ! j))
        | None \<Rightarrow> prio_pick_bands bs ?s1)"
    using band_advance_ok [OF ok ne] h by (auto simp: Let_def simp del: prio_pick_loop.simps split: option.split)
  moreover have "prio_rep ?s1 xss" by (rule set_curr_rep [OF rep b ai])
  ultimately show ?thesis by (intro exI [of _ ?s1]) (auto simp: set_curr_def)
qed

lemma band_pick_Some:
  assumes "band_pick s xss b = Some j" "xss b \<noteq> []"
  shows "j < length (xss b)" "runnable (prio_world s) (procs (xss b) ! j)"
  using cyc_find_Some [OF assms(1) [unfolded band_pick_def]] band_start_less [OF assms(2)] by auto

lemma band_pick_None:
  assumes "band_pick s xss b = None" "xss b \<noteq> []" "length (xss b) \<le> PRIO_PICK_ATTEMPTS"
  shows "\<forall>p \<in> set (procs (xss b)). \<not> runnable (prio_world s) p"
  using assms cyc_find_None_iff [of "band_start (prio_bands s ! b) (xss b)" "procs (xss b)" "length (xss b)"]
    band_start_less [OF assms(2)] by (simp add: band_pick_def min_absorb2)

fun first_pick :: "prio_state \<Rightarrow> (nat \<Rightarrow> (nat \<times> nat) list) \<Rightarrow> nat list \<Rightarrow> (nat \<times> nat) option" where
  "first_pick s xss [] = None"
| "first_pick s xss (b # bs) =
     (if xss b = [] then first_pick s xss bs
      else case band_pick s xss b of Some j \<Rightarrow> Some (b, j) | None \<Rightarrow> first_pick s xss bs)"

lemma first_pick_cong:
  "(\<And>b. b \<in> set bs \<Longrightarrow> band_pick s xss b = band_pick s' xss b) \<Longrightarrow> first_pick s xss bs = first_pick s' xss bs"
  by (induction bs) (auto split: option.split)

lemma prio_pick_bands_rep:
  "prio_rep s xss \<Longrightarrow> distinct bs \<Longrightarrow> set bs \<subseteq> {..<IR0_SCHED_PRIO_BANDS} \<Longrightarrow>
   \<exists>s'. prio_pick_bands bs s = Done (s', map_option (\<lambda>(b, j). procs (xss b) ! j) (first_pick s xss bs)) \<and>
        prio_rep s' xss \<and> prio_world s' = prio_world s \<and>
        (\<forall>b j. first_pick s xss bs = Some (b, j) \<longrightarrow> band_curr (prio_bands s' ! b) = Some (addrs (xss b) ! j))"
proof (induction bs arbitrary: s)
  case (Cons b bs)
  have b: "b < IR0_SCHED_PRIO_BANDS" and bs: "distinct bs" "set bs \<subseteq> {..<IR0_SCHED_PRIO_BANDS}"
    using Cons.prems(2,3) by auto
  show ?case
  proof (cases "xss b = []")
    case True
    then have "band_head (prio_bands s ! b) = None" using band_okD(1) [OF prio_repD(2) [OF Cons.prems(1) b]] by simp
    with Cons.IH [OF Cons.prems(1) bs] True show ?thesis by simp
  next
    case False
    from prio_pick_one [OF Cons.prems(1) b False, of bs] obtain s1 where
      s1: "prio_rep s1 xss" "prio_world s1 = prio_world s" "\<forall>c. c \<noteq> b \<longrightarrow> prio_bands s1 ! c = prio_bands s ! c"
          "prio_pick_bands (b # bs) s =
             (case band_pick s xss b of
                Some j \<Rightarrow> Done (set_curr b (addrs (xss b) ! j) s1, Some (procs (xss b) ! j))
              | None \<Rightarrow> prio_pick_bands bs s1)" by blast
    have same: "first_pick s1 xss bs = first_pick s xss bs"
      by (rule first_pick_cong) (use s1(2,3) Cons.prems(2) in \<open>auto simp: band_pick_def\<close>)
    show ?thesis
    proof (cases "band_pick s xss b")
      case (Some j)
      have "j < length (xss b)" using band_pick_Some [OF Some False] by simp
      then have "prio_rep (set_curr b (addrs (xss b) ! j) s1) xss"
        by (intro set_curr_rep [OF s1(1) b]) (simp add: nth_mem)
      then show ?thesis
        using s1(2,4) Some False prio_repD(1) [OF s1(1)] b
        by (intro exI [of _ "set_curr b (addrs (xss b) ! j) s1"]) (simp add: set_curr_def)
    next
      case None
      with s1(2,4) Cons.IH [OF s1(1) bs] same False show ?thesis by simp
    qed
  qed
qed simp

lemma first_pick_Some:
  "first_pick s xss bs = Some (b, j) \<Longrightarrow>
   \<exists>us vs. bs = us @ b # vs \<and> xss b \<noteq> [] \<and> band_pick s xss b = Some j \<and>
           (\<forall>c \<in> set us. xss c \<noteq> [] \<longrightarrow> band_pick s xss c = None)"
proof (induction bs)
  case (Cons d bs)
  show ?case
  proof (cases "xss d \<noteq> [] \<and> band_pick s xss d \<noteq> None")
    case True
    with Cons.prems show ?thesis by (intro exI [of _ "[]"] exI [of _ bs]) auto
  next
    case False
    with Cons.prems have "first_pick s xss bs = Some (b, j)" by (auto split: if_splits)
    from Cons.IH [OF this] obtain us vs where "bs = us @ b # vs" "xss b \<noteq> []" "band_pick s xss b = Some j"
      "\<forall>c \<in> set us. xss c \<noteq> [] \<longrightarrow> band_pick s xss c = None" by blast
    with False show ?thesis by (intro exI [of _ "d # us"] exI [of _ vs]) auto
  qed
qed simp

lemma first_pick_None: "first_pick s xss bs = None \<Longrightarrow> b \<in> set bs \<Longrightarrow> xss b \<noteq> [] \<Longrightarrow> band_pick s xss b = None"
  by (induction bs) (auto split: if_splits option.splits)

lemma higher_bands:
  assumes "rev [0..<n] = us @ b # vs"
  shows "b < n" "set us = {c. b < c \<and> c < n}"
proof -
  have "[0..<n] = rev (us @ b # vs)" using arg_cong [OF assms, of rev] by (simp only: rev_rev_ident)
  then have e: "[0..<n] = rev vs @ b # rev us" by (simp only: rev_append rev.simps append_assoc append.simps)
  have l: "n = length vs + Suc (length us)" using arg_cong [OF e, of length] by simp
  have "b = [0..<n] ! length vs" unfolding e by (simp add: nth_append)
  then have b: "b = length vs" using l by (simp del: upt_Suc)
  then show "b < n" using l by simp
  have "drop (Suc b) [0..<n] = rev us" unfolding e b by simp
  moreover have "drop (Suc b) [0..<n] = [Suc b..<n]" by (simp add: drop_upt)
  ultimately have "set (rev us) = set [Suc b..<n]" by simp
  then have "set us = {Suc b..<n}" by (simp only: set_rev set_upt)
  moreover have "{Suc b..<n} = {c. b < c \<and> c < n}" by auto
  ultimately show "set us = {c. b < c \<and> c < n}" by (rule trans)
qed

lemma prio_pick_next_rep:
  assumes rep: "prio_rep s xss"
  shows "\<exists>s' r. priority_pick_next s = Done (s', r) \<and> prio_rep s' xss \<and> prio_world s' = prio_world s \<and>
     (\<forall>p. r = Some p \<longrightarrow> (\<exists>b < IR0_SCHED_PRIO_BANDS. p \<in> set (procs (xss b)) \<and> runnable (prio_world s) p \<and>
        (\<forall>c. b < c \<and> c < IR0_SCHED_PRIO_BANDS \<and> length (xss c) \<le> PRIO_PICK_ATTEMPTS \<longrightarrow>
             (\<forall>q \<in> set (procs (xss c)). \<not> runnable (prio_world s) q)))) \<and>
     (r = None \<longrightarrow> (\<forall>b < IR0_SCHED_PRIO_BANDS. length (xss b) \<le> PRIO_PICK_ATTEMPTS \<longrightarrow>
             (\<forall>q \<in> set (procs (xss b)). \<not> runnable (prio_world s) q)))"
proof -
  let ?bs = "rev [0..<IR0_SCHED_PRIO_BANDS]"
  obtain s' where s': "priority_pick_next s = Done (s', map_option (\<lambda>(b, j). procs (xss b) ! j) (first_pick s xss ?bs))"
    "prio_rep s' xss" "prio_world s' = prio_world s"
    using prio_pick_bands_rep [OF rep, of ?bs] unfolding priority_pick_next_def
    by (auto simp: lessThan_atLeast0 simp del: upt.simps upt_Suc)
  have idle: "\<forall>q \<in> set (procs (xss c)). \<not> runnable (prio_world s) q"
    if "xss c \<noteq> [] \<longrightarrow> band_pick s xss c = None" "length (xss c) \<le> PRIO_PICK_ATTEMPTS" for c
    using that band_pick_None by (cases "xss c = []") auto
  show ?thesis
  proof (cases "first_pick s xss ?bs")
    case None
    then have "\<forall>q \<in> set (procs (xss b)). \<not> runnable (prio_world s) q"
      if "b < IR0_SCHED_PRIO_BANDS" "length (xss b) \<le> PRIO_PICK_ATTEMPTS" for b
      using that first_pick_None [OF None, of b] idle [of b] by (simp del: upt.simps upt_Suc)
    with s' None show ?thesis by (intro exI [of _ s'] exI [of _ None]) (simp del: upt.simps upt_Suc)
  next
    case (Some bj)
    obtain b j where bj: "bj = (b, j)" by fastforce
    from first_pick_Some [OF Some [unfolded bj]] obtain us vs where
      u: "?bs = us @ b # vs" "xss b \<noteq> []" "band_pick s xss b = Some j" "\<forall>c \<in> set us. xss c \<noteq> [] \<longrightarrow> band_pick s xss c = None" by blast
    note hb = higher_bands [OF u(1)]
    have j: "procs (xss b) ! j \<in> set (procs (xss b))" "runnable (prio_world s) (procs (xss b) ! j)"
      using band_pick_Some [OF u(3,2)] by (simp_all add: nth_mem)
    have "\<forall>q \<in> set (procs (xss c)). \<not> runnable (prio_world s) q"
      if "b < c \<and> c < IR0_SCHED_PRIO_BANDS \<and> length (xss c) \<le> PRIO_PICK_ATTEMPTS" for c
    proof (rule idle)
      show "xss c \<noteq> [] \<longrightarrow> band_pick s xss c = None" using u(4) hb(2) that by blast
    qed (use that in simp)
    with s' Some bj j hb(1) show ?thesis
      by (intro exI [of _ s'] exI [of _ "Some (procs (xss b) ! j)"]) (simp del: upt.simps upt_Suc, blast)
  qed
qed

section \<open>Counting and promoting\<close>

lemma prio_count_bands_ok:
  "(\<And>i. i < length bds \<Longrightarrow> chain st (band_head (bds ! i)) (yss i)) \<Longrightarrow>
   prio_count_bands st w bds c = Done (c + (\<Sum>i < length bds. length (filter (runnable w) (procs (yss i)))))"
proof (induction bds arbitrary: yss c)
  case (Cons bd bds)
  have "chain st (band_head bd) (yss 0)" using Cons.prems [of 0] by simp
  note sc = scan_count_chain [OF this, of "runnable w" c]
  have IH: "prio_count_bands st w bds c' =
      Done (c' + (\<Sum>i < length bds. length (filter (runnable w) (procs (yss (Suc i))))))" for c'
    by (rule Cons.IH) (use Cons.prems in force)
  have test: "(\<lambda>p. state (proc_at w p) = PROCESS_READY \<or> state (proc_at w p) = PROCESS_RUNNING) = runnable w"
    by (rule ext) (simp add: runnable_cases)
  show ?case by (simp add: test sc IH lessThan_Suc_eq_insert_0 sum.reindex del: sum.lessThan_Suc)
qed simp

lemma prio_count_rep:
  assumes rep: "prio_rep s xss"
  shows "priority_count_runnable s = Done (card (runnable_in (prio_world s) (prio_queued xss)))"
proof -
  note d = prio_repD [OF rep]
  let ?f = "\<lambda>b. set (filter (runnable (prio_world s)) (procs (xss b)))"
  have "priority_count_runnable s =
      Done (\<Sum>b < IR0_SCHED_PRIO_BANDS. length (filter (runnable (prio_world s)) (procs (xss b))))"
    using prio_count_bands_ok [of "prio_bands s" "prio_nodes s" xss "prio_world s" 0] d(1) band_okD(1) [OF d(2)]
    by (simp add: priority_count_runnable_def)
  also have "(\<Sum>b < IR0_SCHED_PRIO_BANDS. length (filter (runnable (prio_world s)) (procs (xss b)))) =
             (\<Sum>b < IR0_SCHED_PRIO_BANDS. card (?f b))"
    by (rule sum.cong) (use d(3) in \<open>auto simp: distinct_card simp del: set_filter\<close>)
  also have "\<dots> = card (\<Union>b < IR0_SCHED_PRIO_BANDS. ?f b)"
  proof (rule card_UN_disjoint [symmetric])
    show "\<forall>b \<in> {..<IR0_SCHED_PRIO_BANDS}. \<forall>c \<in> {..<IR0_SCHED_PRIO_BANDS}. b \<noteq> c \<longrightarrow> ?f b \<inter> ?f c = {}"
      using d(5) by fastforce
  qed simp_all
  also have "(\<Union>b < IR0_SCHED_PRIO_BANDS. ?f b) = runnable_in (prio_world s) (prio_queued xss)"
    by (auto simp: runnable_in_def prio_queued_def)
  finally show ?thesis .
qed

lemma prio_promote_rep:
  assumes rep: "prio_rep s xss"
  shows "\<exists>s'. priority_promote_process (Some p) s = Done s' \<and> prio_rep s' xss \<and>
     (if p \<in> set (procs (xss (prio_band_of (prio_world s) (Some p))))
      then prio_world s' = process_set_sched_state (Some p) PROCESS_READY (prio_world s) else s' = s)"
proof -
  let ?b = "prio_band_of (prio_world s) (Some p)"
  have b: "?b < IR0_SCHED_PRIO_BANDS" by (rule prio_band_of_less)
  note c = band_okD(1) [OF prio_repD(2) [OF rep b]]
  show ?thesis
  proof (cases "p \<in> set (procs (xss ?b))")
    case True
    then obtain us a vs where u: "xss ?b = us @ (a, p) # vs" "p \<notin> set (procs us)" by (rule split_at_proc)
    have "prio_rep (prio_set_ready p (set_curr ?b a s)) xss" using set_curr_rep [OF rep b, of a] u(1) by simp
    then show ?thesis
      using True find_proc_cases(2) [OF c [unfolded u(1)] u(2)] by (simp add: priority_promote_process_def Let_def)
  next
    case False
    with find_proc_cases(1) [OF c False] rep show ?thesis by (simp add: priority_promote_process_def Let_def)
  qed
qed

section \<open>The backend contract\<close>

definition ir0_priority_sched_ops :: "prio_state sched_ops" where
  "ir0_priority_sched_ops = \<lparr>op_add = priority_add_process, op_remove = priority_remove_process,
     op_schedule_next = priority_schedule_next, op_count_runnable = priority_count_runnable,
     op_promote = priority_promote_process\<rparr>"

definition prio_queues :: "prio_state \<Rightarrow> nat set \<Rightarrow> bool" where
  "prio_queues s Q \<longleftrightarrow> (\<exists>xss. prio_rep s xss \<and> Q = prio_queued xss)"

definition prio_fresh :: "prio_state \<Rightarrow> nat \<Rightarrow> bool" where
  "prio_fresh s a \<longleftrightarrow> a \<notin> dom (prio_nodes s)"

lemma prio_queued_update:
  "b < IR0_SCHED_PRIO_BANDS \<Longrightarrow> prio_queued (xss(b := xss b @ [(a, p)])) = insert p (prio_queued xss)"
  by (auto simp: prio_queued_def split: if_splits)

lemma prio_queued_unlink:
  assumes "prio_rep s xss" "b < IR0_SCHED_PRIO_BANDS" "xss b = us @ (a, p) # vs"
  shows "prio_queued (xss(b := us @ vs)) = prio_queued xss - {p}"
proof -
  have "p \<notin> set (procs us)" "p \<notin> set (procs vs)" using prio_repD(3) [OF assms(1,2)] assms(3) by auto
  moreover have "p \<notin> set (procs (xss c))" if "c < IR0_SCHED_PRIO_BANDS" "c \<noteq> b" for c
    using prio_repD(5) [OF assms(1) that(1) assms(2) that(2)] assms(3) by auto
  moreover have "set (procs (xss b)) = insert p (set (procs us) \<union> set (procs vs))" using assms(3) by simp
  moreover have "prio_queued xss = set (procs (xss b)) \<union> (\<Union>c \<in> {..<IR0_SCHED_PRIO_BANDS} - {b}. set (procs (xss c)))"
    using assms(2) by (auto simp: prio_queued_def)
  moreover have "prio_queued (xss(b := us @ vs)) =
      set (procs us) \<union> set (procs vs) \<union> (\<Union>c \<in> {..<IR0_SCHED_PRIO_BANDS} - {b}. set (procs (xss c)))"
    using assms(2) by (auto simp: prio_queued_def split: if_splits)
  ultimately show ?thesis by auto
qed

lemma band_le_queued:
  assumes "prio_rep s xss" "b < IR0_SCHED_PRIO_BANDS"
  shows "length (xss b) \<le> card (prio_queued xss)"
proof -
  have "card (set (procs (xss b))) \<le> card (prio_queued xss)"
    by (rule card_mono) (use assms(2) in \<open>auto simp: prio_queued_def\<close>)
  with distinct_card [OF prio_repD(3) [OF assms]] show ?thesis by simp
qed

interpretation prio: sched_backend ir0_priority_sched_ops prio_world prio_queues prio_fresh PRIO_PICK_ATTEMPTS
proof (unfold_locales, goal_cases)
  case (1 s Q)
  then show ?case by (auto simp: prio_queues_def prio_queued_def)
next
  case (2 s Q a p)
  then obtain xss where x: "prio_rep s xss" "Q = prio_queued xss" by (auto simp: prio_queues_def)
  let ?b = "prio_band_of (prio_world s) (Some p)"
  let ?yss = "if p \<in> prio_queued xss then xss else xss(?b := xss ?b @ [(a, p)])"
  obtain s' where "priority_add_process (Some a) (Some p) s = Done s'" "prio_rep s' ?yss"
      "prio_world s' = process_set_sched_state (Some p) PROCESS_READY (prio_world s)"
    using prio_add_rep [OF x(1), of a p] 2(2) unfolding prio_fresh_def by blast
  moreover have "insert p Q = prio_queued ?yss" using x(2) prio_queued_update [OF prio_band_of_less] by auto
  ultimately show ?case unfolding prio_queues_def ir0_priority_sched_ops_def by auto
next
  case (3 s Q p)
  then obtain xss where x: "prio_rep s xss" "Q = prio_queued xss" by (auto simp: prio_queues_def)
  show ?case
  proof (cases "p \<in> prio_queued xss")
    case True
    then obtain b where b: "b < IR0_SCHED_PRIO_BANDS" "p \<in> set (procs (xss b))" by (auto simp: prio_queued_def)
    from b(2) obtain us a vs where u: "xss b = us @ (a, p) # vs" by (rule split_at_proc)
    from prio_remove_rep [OF x(1) b(1) u] obtain s' where "priority_remove_process (Some p) s = Done s'"
      "prio_rep s' (xss(b := us @ vs))" "prio_world s' = prio_world s" by blast
    with prio_queued_unlink [OF x(1) b(1) u] x(2) show ?thesis
      unfolding prio_queues_def ir0_priority_sched_ops_def by auto
  next
    case False
    with prio_remove_absent [OF x(1)] x show ?thesis by (auto simp: ir0_priority_sched_ops_def prio_queues_def)
  qed
next
  case (4 s Q)
  then show ?case using prio_count_rep by (auto simp: ir0_priority_sched_ops_def prio_queues_def)
next
  case (5 s Q)
  then obtain xss where x: "prio_rep s xss" "Q = prio_queued xss" by (auto simp: prio_queues_def)
  have len: "length (xss b) \<le> PRIO_PICK_ATTEMPTS" if "b < IR0_SCHED_PRIO_BANDS" for b
    using band_le_queued [OF x(1) that] 5(2) x(2) by simp
  from prio_pick_next_rep [OF x(1)] obtain s' r where
    r: "priority_pick_next s = Done (s', r)" "prio_rep s' xss" "prio_world s' = prio_world s"
       "\<forall>p. r = Some p \<longrightarrow> (\<exists>b < IR0_SCHED_PRIO_BANDS. p \<in> set (procs (xss b)) \<and> runnable (prio_world s) p)"
       "r = None \<longrightarrow> (\<forall>b < IR0_SCHED_PRIO_BANDS. length (xss b) \<le> PRIO_PICK_ATTEMPTS \<longrightarrow>
             (\<forall>q \<in> set (procs (xss b)). \<not> runnable (prio_world s) q))" by blast
  have "r \<noteq> None" using r(5) len 5(3) x(2) by (auto simp: runnable_in_def prio_queued_def)
  then obtain p where p: "r = Some p" by blast
  with r(4) x(2) have "p \<in> runnable_in (prio_world s) Q" by (auto simp: runnable_in_def prio_queued_def)
  moreover have "prio_queues (s'\<lparr>prio_world := sched_context_switch_to (Some p) (prio_world s)\<rparr>) Q"
    using r(2) x(2) by (auto simp: prio_queues_def)
  ultimately show ?case
    using r(1,3) p by (auto simp: ir0_priority_sched_ops_def priority_schedule_next_def)
next
  case (6 s Q)
  then obtain xss where x: "prio_rep s xss" "Q = prio_queued xss" by (auto simp: prio_queues_def)
  from prio_pick_next_rep [OF x(1)] obtain s' r where
    r: "priority_pick_next s = Done (s', r)" "prio_rep s' xss" "prio_world s' = prio_world s"
       "\<forall>p. r = Some p \<longrightarrow> (\<exists>b < IR0_SCHED_PRIO_BANDS. p \<in> set (procs (xss b)) \<and> runnable (prio_world s) p)" by blast
  have "r = None"
  proof (rule ccontr)
    assume "r \<noteq> None"
    then obtain p where "r = Some p" by blast
    with r(4) 6(2) x(2) show False by (auto simp: runnable_in_def prio_queued_def)
  qed
  with r x(2) show ?case by (auto simp: ir0_priority_sched_ops_def priority_schedule_next_def prio_queues_def)
next
  case (7 s Q p)
  then obtain xss where x: "prio_rep s xss" "Q = prio_queued xss" by (auto simp: prio_queues_def)
  from prio_promote_rep [OF x(1), of p] obtain s' where
    s': "priority_promote_process (Some p) s = Done s'" "prio_rep s' xss"
        "if p \<in> set (procs (xss (prio_band_of (prio_world s) (Some p))))
         then prio_world s' = process_set_sched_state (Some p) PROCESS_READY (prio_world s) else s' = s" by blast
  have "p \<in> Q" if "p \<in> set (procs (xss (prio_band_of (prio_world s) (Some p))))"
    using that x(2) prio_band_of_less [of "prio_world s" "Some p"] by (auto simp: prio_queued_def)
  with s' x(2) show ?case by (auto simp: ir0_priority_sched_ops_def prio_queues_def split: if_splits)
qed

section \<open>Properties\<close>

text \<open>
  Strict priority. In a well-formed state with at most 64 processes in every band (the
  bound of the pick loop), \<^verbatim>\<open>priority_schedule_next\<close> returns, keeps the queues, and
  switches to a runnable process of the highest band that has one; when no queued process is
  runnable it changes no process.
\<close>

theorem priority_schedule_next_highest:
  assumes "prio_rep s xss" "\<forall>b < IR0_SCHED_PRIO_BANDS. length (xss b) \<le> PRIO_PICK_ATTEMPTS"
  shows "\<exists>s'. priority_schedule_next s = Done s' \<and> prio_rep s' xss \<and>
     (if runnable_in (prio_world s) (prio_queued xss) = {} then prio_world s' = prio_world s
      else \<exists>b p. b < IR0_SCHED_PRIO_BANDS \<and> p \<in> set (procs (xss b)) \<and> runnable (prio_world s) p \<and>
             (\<forall>c q. b < c \<and> c < IR0_SCHED_PRIO_BANDS \<and> q \<in> set (procs (xss c)) \<longrightarrow> \<not> runnable (prio_world s) q) \<and>
             prio_world s' = sched_context_switch_to (Some p) (prio_world s))"
proof -
  from prio_pick_next_rep [OF assms(1)] obtain s' r where
    r: "priority_pick_next s = Done (s', r)" "prio_rep s' xss" "prio_world s' = prio_world s"
       "\<forall>p. r = Some p \<longrightarrow> (\<exists>b < IR0_SCHED_PRIO_BANDS. p \<in> set (procs (xss b)) \<and> runnable (prio_world s) p \<and>
          (\<forall>c. b < c \<and> c < IR0_SCHED_PRIO_BANDS \<and> length (xss c) \<le> PRIO_PICK_ATTEMPTS \<longrightarrow>
             (\<forall>q \<in> set (procs (xss c)). \<not> runnable (prio_world s) q)))"
       "r = None \<longrightarrow> (\<forall>b < IR0_SCHED_PRIO_BANDS. length (xss b) \<le> PRIO_PICK_ATTEMPTS \<longrightarrow>
             (\<forall>q \<in> set (procs (xss b)). \<not> runnable (prio_world s) q))" by blast
  show ?thesis
  proof (cases r)
    case None
    with r(5) assms(2) have "runnable_in (prio_world s) (prio_queued xss) = {}"
      by (auto simp: runnable_in_def prio_queued_def)
    with r None show ?thesis by (simp add: priority_schedule_next_def)
  next
    case (Some p)
    with r(4) assms(2) obtain b where
      b: "b < IR0_SCHED_PRIO_BANDS" "p \<in> set (procs (xss b))" "runnable (prio_world s) p"
         "\<forall>c q. b < c \<and> c < IR0_SCHED_PRIO_BANDS \<and> q \<in> set (procs (xss c)) \<longrightarrow> \<not> runnable (prio_world s) q" by blast
    then have ne: "runnable_in (prio_world s) (prio_queued xss) \<noteq> {}" by (auto simp: runnable_in_def prio_queued_def)
    from r(1-3) Some b show ?thesis
      unfolding if_not_P [OF ne] by (auto simp: priority_schedule_next_def)
  qed
qed

definition prio_boot :: "world \<Rightarrow> prio_state" where
  "prio_boot w = \<lparr>prio_nodes = Map.empty,
     prio_bands = replicate 8 \<lparr>band_head = None, band_tail = None, band_curr = None\<rparr>, prio_world = w\<rparr>"

lemma prio_boot_rep: "prio_rep (prio_boot w) (\<lambda>_. [])"
  by (simp add: prio_rep_def prio_boot_def band_ok_def)

lemma prio_rep_empty_nodes:
  assumes "prio_rep s (\<lambda>_. [])"
  shows "prio_nodes s = Map.empty"
  using prio_repD(6) [OF assms] by auto

text \<open>
  The boot self-test passes. From empty run queues, with two distinct stack processes and
  two distinct nodes from \<^verbatim>\<open>kmalloc\<close>, \<^verbatim>\<open>priority_sched_selftest\<close> returns 0
  and leaves the run queues empty again.
\<close>

theorem priority_selftest_passes:
  assumes "prio_rep s (\<lambda>_. [])" "lo \<noteq> hi" "m1 \<noteq> m2"
  shows "\<exists>s'. priority_sched_selftest lo hi (Some m1) (Some m2) s = Done (s', 0) \<and> prio_rep s' (\<lambda>_. [])"
proof -
  let ?w = "prio_selftest_world lo hi (prio_world s)"
  let ?s0 = "s\<lparr>prio_world := ?w\<rparr>"
  have w: "sched_prio (proc_at ?w lo) = 1" "sched_prio (proc_at ?w hi) = 6"
    "runnable ?w lo" "runnable ?w hi"
    using assms(2) by (simp_all add: prio_selftest_world_def runnable_def)
  have e: "prio_queued (\<lambda>_. []) = {}" by (simp add: prio_queued_def)
  from prio_add_rep [of ?s0 "\<lambda>_. []" m1 lo] assms(1) prio_rep_empty_nodes [OF assms(1)] obtain s1 where
    s1: "priority_add_process (Some m1) (Some lo) ?s0 = Done s1" "prio_rep s1 ((\<lambda>_. [])(1 := [(m1, lo)]))"
        "prio_world s1 = process_set_sched_state (Some lo) PROCESS_READY ?w"
    by (auto simp: e prio_band_of_def prio_clamp_def w)
  have b1: "prio_band_of (prio_world s1) (Some hi) = 6" using w(2) s1(3) by (simp add: prio_band_of_def prio_clamp_def)
  have d1: "dom (prio_nodes s1) = {m1}" using prio_repD(6) [OF s1(2)] by (auto split: if_splits)
  have q1: "prio_queued ((\<lambda>_. [])(1 := [(m1, lo)])) = {lo}" by (auto simp: prio_queued_def split: if_splits)
  let ?xss = "(\<lambda>_. [])(1 := [(m1, lo)], 6 := [(m2, hi)]) :: nat \<Rightarrow> (nat \<times> nat) list"
  have new: "m2 \<notin> dom (prio_nodes s1)" "hi \<notin> {lo}" using d1 assms(2,3) by auto
  from prio_add_rep [OF s1(2) new(1), of hi, unfolded q1 b1 if_not_P [OF new(2)]] obtain s2 where
    s2: "priority_add_process (Some m2) (Some hi) s1 = Done s2" "prio_rep s2 ?xss"
        "prio_world s2 = process_set_sched_state (Some hi) PROCESS_READY (prio_world s1)" by auto
  have run: "runnable (prio_world s2) hi" by (simp add: s2(3) runnable_def state_after_set)
  from prio_pick_next_rep [OF s2(2)] obtain s3 r where
    s3: "priority_pick_next s2 = Done (s3, r)" "prio_rep s3 ?xss" 
      "\<forall>p. r = Some p \<longrightarrow> (\<exists>b < IR0_SCHED_PRIO_BANDS. p \<in> set (procs (?xss b)) \<and>
          (\<forall>c. b < c \<and> c < IR0_SCHED_PRIO_BANDS \<and> length (?xss c) \<le> PRIO_PICK_ATTEMPTS \<longrightarrow>
             (\<forall>q \<in> set (procs (?xss c)). \<not> runnable (prio_world s2) q)))"
      "r = None \<longrightarrow> (\<forall>b < IR0_SCHED_PRIO_BANDS. length (?xss b) \<le> PRIO_PICK_ATTEMPTS \<longrightarrow>
             (\<forall>q \<in> set (procs (?xss b)). \<not> runnable (prio_world s2) q))" by blast
  have "r \<noteq> None" using s3(4) run by (auto dest: spec [of _ 6])
  then obtain p where p: "r = Some p" by blast
  with s3(3) obtain b where b: "p \<in> set (procs (?xss b))" "b < IR0_SCHED_PRIO_BANDS"
      "\<forall>c. b < c \<and> c < IR0_SCHED_PRIO_BANDS \<and> length (?xss c) \<le> PRIO_PICK_ATTEMPTS \<longrightarrow>
             (\<forall>q \<in> set (procs (?xss c)). \<not> runnable (prio_world s2) q)" by blast
  have "\<not> b < 6" using b(3) [rule_format, of 6 hi] run by auto
  with b(1) have "p = hi" by (cases "b = 6") auto
  then have "r = Some hi" using p by simp
  moreover from prio_remove_rep [OF s3(2), of 1 "[]" m1 lo "[]"] obtain s4 where
    s4: "priority_remove_process (Some lo) s3 = Done s4" "prio_rep s4 (?xss(1 := []))" by auto
  moreover from prio_remove_rep [OF s4(2), of 6 "[]" m2 hi "[]"] obtain s5 where
    s5: "priority_remove_process (Some hi) s4 = Done s5" "prio_rep s5 (?xss(1 := [], 6 := []))" by auto
  moreover have emp: "prio_rep s5 (\<lambda>_. [])"
  proof -
    have "?xss(1 := [], 6 := []) = (\<lambda>_. [])" by (rule ext) simp
    with s5(2) show ?thesis by (simp only:)
  qed
  ultimately show ?thesis
    using s1(1) s2(1) s3(1) prio_count_rep [OF emp]
    by (simp add: priority_sched_selftest_def e runnable_in_def)
qed

section \<open>Witnesses\<close>

definition prio_demo_world :: world where
  "prio_demo_world = \<lparr>proc_at = (\<lambda>p. \<lparr>state = (if p = 5 then PROCESS_BLOCKED else PROCESS_READY),
      task_state = TASK_SCHED_RUNNABLE, lifecycle = PROCESS_LIFECYCLE_ALIVE, sched_prio = int p\<rparr>),
      current_process = None, first_switch = True\<rparr>"

definition prio_demo :: prio_state where
  "prio_demo = \<lparr>prio_nodes = [16 \<mapsto> \<lparr>process = 3, nxt = None\<rparr>, 32 \<mapsto> \<lparr>process = 5, nxt = None\<rparr>],
     prio_bands = (replicate 8 \<lparr>band_head = None, band_tail = None, band_curr = None\<rparr>)
       [3 := \<lparr>band_head = Some 16, band_tail = Some 16, band_curr = None\<rparr>,
        5 := \<lparr>band_head = Some 32, band_tail = Some 32, band_curr = Some 32\<rparr>],
     prio_world = prio_demo_world\<rparr>"

lemma all_bands: "{..<8} = {0, 1, 2, 3, 4, 5, 6, 7 :: nat}"
  by auto

lemma prio_demo_rep: "prio_rep prio_demo ((\<lambda>_. [])(3 := [(16, 3)], 5 := [(32, 5)]))"
proof -
  have "band_ok (prio_nodes prio_demo) (prio_bands prio_demo ! b) (((\<lambda>_. [])(3 := [(16, 3)], 5 := [(32, 5)])) b)"
    if "b < 8" for b
    using that by (auto simp: prio_demo_def band_ok_def nth_list_update)
  moreover have "dom (prio_nodes prio_demo) =
      (\<Union>b < IR0_SCHED_PRIO_BANDS. set (addrs (((\<lambda>_. [])(3 := [(16, 3)], 5 := [(32, 5::nat)])) b)))"
    by (auto simp: prio_demo_def all_bands)
  ultimately show ?thesis unfolding prio_rep_def by (simp add: prio_demo_def)
qed

lemma priority_schedule_next_highest_witness:
  "\<exists>s'. priority_schedule_next prio_demo = Done s' \<and> current_process (prio_world s') = Some 3"
proof -
  let ?xss = "(\<lambda>_. [])(3 := [(16, 3)], 5 := [(32, 5::nat)]) :: nat \<Rightarrow> (nat \<times> nat) list"
  have q: "prio_queued ?xss = {3, 5}" by (simp add: prio_queued_def all_bands insert_commute)
  have w: "runnable (prio_world prio_demo) 3" "\<not> runnable (prio_world prio_demo) 5"
    by (simp_all add: prio_demo_def prio_demo_world_def runnable_def)
  have ne: "runnable_in (prio_world prio_demo) (prio_queued ?xss) \<noteq> {}" using w q by (auto simp: runnable_in_def)
  have len: "\<forall>b < IR0_SCHED_PRIO_BANDS. length (?xss b) \<le> PRIO_PICK_ATTEMPTS" by simp
  from priority_schedule_next_highest [OF prio_demo_rep len] obtain s' b p where
    "priority_schedule_next prio_demo = Done s'" "p \<in> set (procs (?xss b))" "runnable (prio_world prio_demo) p"
    "prio_world s' = sched_context_switch_to (Some p) (prio_world prio_demo)"
    unfolding if_not_P [OF ne] by blast
  with w show ?thesis by (auto simp: switch_current split: if_splits)
qed

lemma priority_selftest_passes_witness:
  "\<exists>s'. priority_sched_selftest 9001 9002 (Some 16) (Some 32) (prio_boot prio_demo_world) = Done (s', 0) \<and>
        prio_rep s' (\<lambda>_. [])"
  using priority_selftest_passes [OF prio_boot_rep, of 9001 9002 16 32] by simp

end
