(* ===== verification/Sched.thy ===== *)
theory Sched
  imports Rr_Sched Priority_Sched
begin

text \<open>
  What the scheduler facade guarantees whichever backend the build selects
  (\<^verbatim>\<open>CONFIG_SCHEDULER_POLICY\<close>), from the two interpretations of the backend contract;
  and what the schedulers keep of the process states.
\<close>

datatype sched_backend_id = Backend_rr | Backend_priority

definition g_sched_ops :: "int \<Rightarrow> sched_backend_id" where
  "g_sched_ops policy = (if policy = 2 then Backend_priority else Backend_rr)"

definition sched_active_policy_name :: "int \<Rightarrow> string" where
  "sched_active_policy_name policy =
     (if policy = 1 then ''cfs'' else if policy = 2 then ''priority'' else ''round_robin'')"

text \<open>
  A blocked process gives up the processor. Under both backends: when the current process
  is blocked and some queued process is runnable (with no more processes queued than one pick
  examines), \<^verbatim>\<open>sched_try_preempt_blocked\<close> returns with a runnable queued process as
  the current one, in state RUNNING, the queue unchanged and the blocked process still
  blocked.
\<close>

theorem sched_preempt_blocked:
  "(rr_queues s Q \<and> card Q \<le> RR_MAX_PICK_ATTEMPTS \<and> current_process (rr_world s) = Some c \<and>
    state (proc_at (rr_world s) c) = PROCESS_BLOCKED \<and> runnable_in (rr_world s) Q \<noteq> {} \<longrightarrow>
      (\<exists>s'. \<exists>p \<in> runnable_in (rr_world s) Q. sched_try_preempt_blocked ir0_rr_sched_ops rr_world s = Done s' \<and>
         rr_queues s' Q \<and> current_process (rr_world s') = Some p \<and> state (proc_at (rr_world s') p) = PROCESS_RUNNING \<and>
         state (proc_at (rr_world s') c) = PROCESS_BLOCKED)) \<and>
   (prio_queues t Q \<and> card Q \<le> PRIO_PICK_ATTEMPTS \<and> current_process (prio_world t) = Some c \<and>
    state (proc_at (prio_world t) c) = PROCESS_BLOCKED \<and> runnable_in (prio_world t) Q \<noteq> {} \<longrightarrow>
      (\<exists>t'. \<exists>p \<in> runnable_in (prio_world t) Q. sched_try_preempt_blocked ir0_priority_sched_ops prio_world t = Done t' \<and>
         prio_queues t' Q \<and> current_process (prio_world t') = Some p \<and> state (proc_at (prio_world t') p) = PROCESS_RUNNING \<and>
         state (proc_at (prio_world t') c) = PROCESS_BLOCKED))"
  using rr.preempt_blocked prio.preempt_blocked by blast

text \<open>
  Returning to user space switches exactly when it should. Under both backends (with no
  more processes queued than one pick examines), \<^verbatim>\<open>sched_need_resched_user_return\<close>
  switches to a runnable queued process, and consumes the tick's request, exactly when a
  request is pending, the current process exists and is not blocked, and at least two queued
  processes are runnable; otherwise it changes nothing and the request stays pending.
\<close>

theorem sched_user_return_switch:
  "(rr_queues s Q \<and> card Q \<le> RR_MAX_PICK_ATTEMPTS \<longrightarrow>
     (\<exists>s' pending'. sched_need_resched_user_return ir0_rr_sched_ops rr_world s pending = Done (s', pending') \<and>
        rr_queues s' Q \<and>
        (if pending \<and> 2 \<le> card (runnable_in (rr_world s) Q) \<and>
            (\<exists>c. current_process (rr_world s) = Some c \<and> state (proc_at (rr_world s) c) \<noteq> PROCESS_BLOCKED)
         then \<not> pending' \<and> (\<exists>p \<in> runnable_in (rr_world s) Q. rr_world s' = sched_context_switch_to (Some p) (rr_world s))
         else s' = s \<and> pending' = pending))) \<and>
   (prio_queues t Q \<and> card Q \<le> PRIO_PICK_ATTEMPTS \<longrightarrow>
     (\<exists>t' pending'. sched_need_resched_user_return ir0_priority_sched_ops prio_world t pending = Done (t', pending') \<and>
        prio_queues t' Q \<and>
        (if pending \<and> 2 \<le> card (runnable_in (prio_world t) Q) \<and>
            (\<exists>c. current_process (prio_world t) = Some c \<and> state (proc_at (prio_world t) c) \<noteq> PROCESS_BLOCKED)
         then \<not> pending' \<and> (\<exists>p \<in> runnable_in (prio_world t) Q. prio_world t' = sched_context_switch_to (Some p) (prio_world t))
         else t' = t \<and> pending' = pending)))"
  using rr.user_return [of s Q pending] prio.user_return [of t Q pending]
  by (intro conjI impI) (elim conjE, assumption)+

section \<open>Process states under scheduling\<close>

lemma rr_exec_world:
  "rr_exec alloc c s = Done s' \<Longrightarrow>
   rr_world s' = rr_world s \<or> (\<exists>p. rr_world s' = process_set_sched_state (Some p) PROCESS_READY (rr_world s)) \<or>
   (\<exists>p. rr_world s' = sched_context_switch_to (Some p) (rr_world s))"
proof (cases c)
  case (RrAdd p)
  assume "rr_exec alloc c s = Done s'"
  with RrAdd show ?thesis by (auto simp: rr_add_process_def Let_def rr_set_ready_def split: option.splits if_splits)
next
  case (RrRemove p)
  assume "rr_exec alloc c s = Done s'"
  with RrRemove show ?thesis by (auto simp: rr_remove_process_def rr_unlink_def Let_def split: option.splits if_splits)
next
  case RrNext
  assume "rr_exec alloc c s = Done s'"
  with RrNext show ?thesis
    by (auto simp: rr_schedule_next_def kbind_Done_iff Let_def simp del: rr_pick_loop.simps split: option.splits if_splits)
next
  case (RrPromote p)
  assume "rr_exec alloc c s = Done s'"
  with RrPromote show ?thesis by (auto simp: rr_promote_process_def rr_set_ready_def split: option.splits if_splits)
qed

text \<open>
  One running process. Through every sequence of round-robin operations that returns, a
  process is RUNNING only if it is \<^verbatim>\<open>current_process\<close>, and
  \<^verbatim>\<open>task.state\<close> keeps mirroring the scheduling state of every process, if both held
  before.
\<close>

theorem rr_run_one_running:
  assumes "rr_run alloc cs s = Done s'" "one_running (rr_world s)" "mirrored (rr_world s)"
  shows "one_running (rr_world s') \<and> mirrored (rr_world s')"
  using assms
proof (induction cs arbitrary: s)
  case (Cons c cs)
  from Cons.prems(1) obtain s1 where s1: "rr_exec alloc c s = Done s1" "rr_run alloc cs s1 = Done s'"
    by (auto simp: kbind_Done_iff)
  have "one_running (rr_world s1)" "mirrored (rr_world s1)"
    using rr_exec_world [OF s1(1)] Cons.prems(2,3) switch_one_running set_ready_one_running switch_mirrored
      set_sched_state_mirrored by auto
  with Cons.IH [OF s1(2)] show ?case by blast
qed simp

section \<open>Witnesses\<close>

definition blocked_world :: world where
  "blocked_world = demo_world\<lparr>proc_at := (proc_at demo_world)(7 := set_state PROCESS_BLOCKED (proc_at demo_world 7)),
     current_process := Some 7, first_switch := False\<rparr>"

lemma rr_demo_queues: "rr_queues (rr_demo\<lparr>rr_world := w\<rparr>) {5, 7}"
proof -
  have "rr_rep (rr_demo\<lparr>rr_world := w\<rparr>) [(16, 7), (32, 5)]" using rr_demo_rep by (simp add: rr_rep_def)
  then show ?thesis unfolding rr_queues_def by (intro exI [of _ "[(16, 7), (32, 5)]"]) auto
qed

lemma sched_preempt_blocked_witness:
  "\<exists>s'. sched_try_preempt_blocked ir0_rr_sched_ops rr_world (rr_demo\<lparr>rr_world := blocked_world\<rparr>) = Done s' \<and>
        current_process (rr_world s') = Some 5"
proof -
  have r: "runnable_in blocked_world {5, 7} = {5}"
    by (auto simp: runnable_in_def blocked_world_def demo_world_def runnable_def)
  have b: "current_process blocked_world = Some 7" "state (proc_at blocked_world 7) = PROCESS_BLOCKED"
    by (simp_all add: blocked_world_def)
  show ?thesis
    using sched_preempt_blocked [of "rr_demo\<lparr>rr_world := blocked_world\<rparr>" "{5, 7}" 7, THEN conjunct1] rr_demo_queues [of blocked_world] r b
    by auto
qed

lemma sched_user_return_switch_witness:
  "\<exists>s'. sched_need_resched_user_return ir0_rr_sched_ops rr_world
          (rr_demo\<lparr>rr_world := demo_world\<lparr>current_process := Some 7\<rparr>\<rparr>) True = Done (s', False)"
proof -
  let ?w = "demo_world\<lparr>current_process := Some 7\<rparr>"
  have r: "runnable_in ?w {5, 7} = {5, 7}" by (auto simp: runnable_in_def demo_world_def runnable_def)
  have c: "current_process ?w = Some 7" "state (proc_at ?w 7) \<noteq> PROCESS_BLOCKED" by (simp_all add: demo_world_def)
  show ?thesis
    using sched_user_return_switch [of "rr_demo\<lparr>rr_world := ?w\<rparr>" "{5, 7}" True, THEN conjunct1] rr_demo_queues [of ?w] r c
    by auto
qed

lemma rr_run_one_running_witness:
  "\<exists>s'. rr_run next_free [RrAdd 7, RrNext] (rr_boot demo_world) = Done s' \<and> one_running (rr_world s') \<and> mirrored (rr_world s')"
proof -
  have w: "one_running demo_world" "mirrored demo_world"
    by (simp_all add: one_running_def mirrored_def demo_world_def)
  have alloc: "\<forall>st. finite (dom st) \<longrightarrow> next_free st \<notin> dom st" using next_free_fresh by blast
  from rr_exec_refines [OF rr_boot_rep alloc, of "RrAdd 7" demo_world] obtain s1 xs1 where
    s1: "rr_exec next_free (RrAdd 7) (rr_boot demo_world) = Done s1" "rr_rep s1 xs1" by blast
  from rr_exec_refines [OF s1(2) alloc, of RrNext] obtain s2 where
    s2: "rr_exec next_free RrNext s1 = Done s2" by blast
  have "rr_run next_free [RrAdd 7, RrNext] (rr_boot demo_world) = Done s2" using s1(1) s2 by simp
  moreover from rr_run_one_running [OF this] w have "one_running (rr_world s2) \<and> mirrored (rr_world s2)"
    by (simp add: rr_boot_def)
  ultimately show ?thesis by blast
qed

end
