(* ===== verification/Access.thy ===== *)
theory Access
  imports Prelude
begin

text \<open>
  Discretionary access control: \<^verbatim>\<open>fs/permissions.c\<close> (the decision from a file's mode
  and owner), \<^verbatim>\<open>kernel/credentials.c\<close> (the credentials of the current task and the
  check on a path) and the mode parser of \<^verbatim>\<open>fs/chmod.c\<close>. The lookup of a path
  (\<^verbatim>\<open>ir0_stat_path_routed\<close>, the VFS) is the parameter \<open>statf\<close>.
\<close>

section \<open>Access from a stat record\<close>

record stat_t =
  st_mode :: u32
  st_uid :: u32
  st_gid :: u32

abbreviation ROOT_UID :: u32 where "ROOT_UID \<equiv> 0"
abbreviation ROOT_GID :: u32 where "ROOT_GID \<equiv> 0"
abbreviation ACCESS_READ :: u32 where "ACCESS_READ \<equiv> 1"
abbreviation ACCESS_WRITE :: u32 where "ACCESS_WRITE \<equiv> 2"
abbreviation ACCESS_EXEC :: u32 where "ACCESS_EXEC \<equiv> 4"
abbreviation S_IRUSR :: u16 where "S_IRUSR \<equiv> 256"
abbreviation S_IWUSR :: u16 where "S_IWUSR \<equiv> 128"
abbreviation S_IXUSR :: u16 where "S_IXUSR \<equiv> 64"
abbreviation S_IRGRP :: u16 where "S_IRGRP \<equiv> 32"
abbreviation S_IWGRP :: u16 where "S_IWGRP \<equiv> 16"
abbreviation S_IXGRP :: u16 where "S_IXGRP \<equiv> 8"
abbreviation S_IROTH :: u16 where "S_IROTH \<equiv> 4"
abbreviation S_IWOTH :: u16 where "S_IWOTH \<equiv> 2"
abbreviation S_IXOTH :: u16 where "S_IXOTH \<equiv> 1"

definition ir0_access_from_stat :: "stat_t option \<Rightarrow> u32 \<Rightarrow> u32 \<Rightarrow> u32 \<Rightarrow> bool" where
  "ir0_access_from_stat st mode euid egid =
     (case st of
        None \<Rightarrow> False
      | Some f \<Rightarrow>
          if euid = ROOT_UID then True
          else
            (let file_mode = (ucast (st_mode f) :: u16) in
             if euid = st_uid f then
               (if mode AND ACCESS_READ \<noteq> 0 \<and> file_mode AND S_IRUSR = 0 then False
                else if mode AND ACCESS_WRITE \<noteq> 0 \<and> file_mode AND S_IWUSR = 0 then False
                else if mode AND ACCESS_EXEC \<noteq> 0 \<and> file_mode AND S_IXUSR = 0 then False
                else True)
             else if egid = st_gid f then
               (if mode AND ACCESS_READ \<noteq> 0 \<and> file_mode AND S_IRGRP = 0 then False
                else if mode AND ACCESS_WRITE \<noteq> 0 \<and> file_mode AND S_IWGRP = 0 then False
                else if mode AND ACCESS_EXEC \<noteq> 0 \<and> file_mode AND S_IXGRP = 0 then False
                else True)
             else if mode AND ACCESS_READ \<noteq> 0 \<and> file_mode AND S_IROTH = 0 then False
             else if mode AND ACCESS_WRITE \<noteq> 0 \<and> file_mode AND S_IWOTH = 0 then False
             else if mode AND ACCESS_EXEC \<noteq> 0 \<and> file_mode AND S_IXOTH = 0 then False
             else True))"

text \<open>
  \<open>groups\<close> is the array of supplementary groups (NULL as \<^verbatim>\<open>None\<close>); the loop visits
  its first \<open>ngroups\<close> entries.
\<close>

fun access_groups_loop :: "stat_t option \<Rightarrow> u32 \<Rightarrow> u32 \<Rightarrow> u32 \<Rightarrow> u32 list \<Rightarrow> bool" where
  "access_groups_loop st mode euid egid [] = False"
| "access_groups_loop st mode euid egid (g # gs) =
     (if g = egid then access_groups_loop st mode euid egid gs
      else if ir0_access_from_stat st mode euid g then True
      else access_groups_loop st mode euid egid gs)"

definition ir0_access_from_stat_groups ::
  "stat_t option \<Rightarrow> u32 \<Rightarrow> u32 \<Rightarrow> u32 \<Rightarrow> u32 list option \<Rightarrow> int \<Rightarrow> bool" where
  "ir0_access_from_stat_groups st mode euid egid groups ngroups =
     (if ir0_access_from_stat st mode euid egid then True
      else case groups of
             None \<Rightarrow> False
           | Some gs \<Rightarrow> if ngroups \<le> 0 then False
                        else access_groups_loop st mode euid egid (take (nat ngroups) gs))"

section \<open>Credentials of the current task\<close>

record task_cred =
  cred_uid :: u32
  cred_gid :: u32
  cred_euid :: u32
  cred_egid :: u32
  cred_umask :: u32
  cred_pid :: int
  cred_cwd :: string

text \<open>The identity fields of \<^verbatim>\<open>process_t\<close>.\<close>

record cred_process =
  p_uid :: u32
  p_gid :: u32
  p_euid :: u32
  p_egid :: u32
  p_umask :: u32
  p_groups :: "u32 list"
  p_ngroups :: nat
  p_pid :: int
  p_cwd :: string

definition ir0_current_cred :: "cred_process option \<Rightarrow> task_cred" where
  "ir0_current_cred current =
     (case current of
        None \<Rightarrow> \<lparr>cred_uid = 0, cred_gid = 0, cred_euid = 0, cred_egid = 0, cred_umask = 18, cred_pid = 0, cred_cwd = ''/''\<rparr>
      | Some p \<Rightarrow> \<lparr>cred_uid = p_uid p, cred_gid = p_gid p, cred_euid = p_euid p, cred_egid = p_egid p,
                  cred_umask = p_umask p, cred_pid = p_pid p, cred_cwd = p_cwd p\<rparr>)"

definition get_current_uid :: "cred_process option \<Rightarrow> u32" where
  "get_current_uid current = cred_euid (ir0_current_cred current)"

definition get_current_gid :: "cred_process option \<Rightarrow> u32" where
  "get_current_gid current = cred_egid (ir0_current_cred current)"

definition ir0_current_pid :: "cred_process option \<Rightarrow> int" where
  "ir0_current_pid current = cred_pid (ir0_current_cred current)"

definition ir0_current_umask :: "cred_process option \<Rightarrow> u32" where
  "ir0_current_umask current = cred_umask (ir0_current_cred current)"

definition ir0_cred_is_root :: "cred_process option \<Rightarrow> int" where
  "ir0_cred_is_root current = (if cred_euid (ir0_current_cred current) = ROOT_UID then 1 else 0)"

definition ir0_check_file_access ::
  "(string \<Rightarrow> stat_t option) \<Rightarrow> cred_process option \<Rightarrow> string option \<Rightarrow> u32 \<Rightarrow> bool" where
  "ir0_check_file_access statf current path mode =
     (let c = ir0_current_cred current in
      case path of
        None \<Rightarrow> False
      | Some pa \<Rightarrow>
          (case statf pa of
             None \<Rightarrow> False
           | Some st \<Rightarrow>
               (case current of
                  None \<Rightarrow> ir0_access_from_stat (Some st) mode (cred_euid c) (cred_egid c)
                | Some p \<Rightarrow> ir0_access_from_stat_groups (Some st) mode (cred_euid c) (cred_egid c)
                             (Some (p_groups p)) (int (p_ngroups p)))))"

definition check_file_access ::
  "(string \<Rightarrow> stat_t option) \<Rightarrow> string option \<Rightarrow> u32 \<Rightarrow> cred_process option \<Rightarrow> bool" where
  "check_file_access statf path mode process =
     (case (path, process) of
        (Some pa, Some p) \<Rightarrow>
          (case statf pa of
             None \<Rightarrow> False
           | Some st \<Rightarrow> ir0_access_from_stat (Some st) mode (p_euid p) (p_egid p))
      | _ \<Rightarrow> False)"

definition is_root :: "cred_process option \<Rightarrow> bool" where
  "is_root process = (case process of None \<Rightarrow> False | Some p \<Rightarrow> p_euid p = ROOT_UID)"

section \<open>The octal mode parser\<close>

fun parse_mode_loop :: "string \<Rightarrow> int \<Rightarrow> errno + int" where
  "parse_mode_loop [] mode = Inr mode"
| "parse_mode_loop (c # cs) mode =
     (if of_char c < (48::int) \<or> of_char c > (55::int) then Inl EINVAL
      else let mode' = mode * 8 + (of_char c - 48) in
           if mode' > 4095 then Inl EINVAL else parse_mode_loop cs mode')"

definition parse_mode :: "string option \<Rightarrow> errno + int" where
  "parse_mode mode_str =
     (case mode_str of
        None \<Rightarrow> Inl EINVAL
      | Some [] \<Rightarrow> Inl EINVAL
      | Some (c # cs) \<Rightarrow>
          if (48::int) \<le> of_char c \<and> of_char c \<le> (57::int) then
            (if of_char c > (55::int) then Inl EINVAL else parse_mode_loop (c # cs) 0)
          else Inl EINVAL)"

definition chmod :: "(string \<Rightarrow> u32 \<Rightarrow> errno + unit) \<Rightarrow> string option \<Rightarrow> u32 \<Rightarrow> errno + unit" where
  "chmod vfs_chmod path mode = (case path of None \<Rightarrow> Inl EINVAL | Some p \<Rightarrow> vfs_chmod p mode)"

section \<open>The access decision\<close>

text \<open>
  The specification: one class of bits decides, the owner's, else the group's, else the
  others'. \<open>class_grants mode fm k\<close> says that the class whose execute bit is bit \<open>k\<close> grants
  everything requested.
\<close>

definition class_grants :: "u32 \<Rightarrow> u32 \<Rightarrow> nat \<Rightarrow> bool" where
  "class_grants mode fm k \<longleftrightarrow>
     (bit mode 0 \<longrightarrow> bit fm (k + 2)) \<and> (bit mode 1 \<longrightarrow> bit fm (k + 1)) \<and> (bit mode 2 \<longrightarrow> bit fm k)"

definition file_class :: "stat_t \<Rightarrow> u32 \<Rightarrow> u32 set \<Rightarrow> nat" where
  "file_class f euid gids = (if euid = st_uid f then 6 else if st_gid f \<in> gids then 3 else 0)"

lemma and_power_eq_0:
  "n < LENGTH('a) \<Longrightarrow> (w :: 'a::len word) AND push_bit n 1 = 0 \<longleftrightarrow> \<not> bit w n"
  using and_bit_mask_neq_0 [of n w] by (auto simp: bit_mask_def)

lemma access_masks [simp]:
  "mode AND ACCESS_READ = 0 \<longleftrightarrow> \<not> bit mode 0"
  "mode AND ACCESS_WRITE = 0 \<longleftrightarrow> \<not> bit mode 1"
  "mode AND ACCESS_EXEC = 0 \<longleftrightarrow> \<not> bit mode 2"
  using and_power_eq_0 [of 0 mode] and_power_eq_0 [of 1 mode] and_power_eq_0 [of 2 mode]
  by (simp_all add: push_bit_eq_mult)

lemma mode_masks [simp]:
  "(w :: u16) AND S_IRUSR = 0 \<longleftrightarrow> \<not> bit w 8" "w AND S_IWUSR = 0 \<longleftrightarrow> \<not> bit w 7" "w AND S_IXUSR = 0 \<longleftrightarrow> \<not> bit w 6"
  "w AND S_IRGRP = 0 \<longleftrightarrow> \<not> bit w 5" "w AND S_IWGRP = 0 \<longleftrightarrow> \<not> bit w 4" "w AND S_IXGRP = 0 \<longleftrightarrow> \<not> bit w 3"
  "w AND S_IROTH = 0 \<longleftrightarrow> \<not> bit w 2" "w AND S_IWOTH = 0 \<longleftrightarrow> \<not> bit w 1" "w AND S_IXOTH = 0 \<longleftrightarrow> \<not> bit w 0"
  using and_power_eq_0 [of 8 w] and_power_eq_0 [of 7 w] and_power_eq_0 [of 6 w] and_power_eq_0 [of 5 w]
    and_power_eq_0 [of 4 w] and_power_eq_0 [of 3 w] and_power_eq_0 [of 2 w] and_power_eq_0 [of 1 w] and_power_eq_0 [of 0 w]
  by (simp_all add: push_bit_eq_mult)

lemma bit_mode16: "n < 16 \<Longrightarrow> bit (ucast (m :: u32) :: u16) n \<longleftrightarrow> bit m n"
  by (simp add: bit_ucast_iff)

lemma access_from_stat_class:
  "ir0_access_from_stat (Some f) mode euid egid \<longleftrightarrow>
     euid = ROOT_UID \<or> class_grants mode (st_mode f) (file_class f euid {egid})"
  by (simp add: ir0_access_from_stat_def Let_def class_grants_def file_class_def bit_mode16 eval_nat_numeral)

lemma access_groups_loop_iff:
  "access_groups_loop st mode euid egid gs \<longleftrightarrow> (\<exists>g \<in> set gs. g \<noteq> egid \<and> ir0_access_from_stat st mode euid g)"
  by (induction gs) auto

lemma access_groups_iff:
  "ir0_access_from_stat_groups (Some f) mode euid egid (Some gs) n \<longleftrightarrow>
   (\<exists>g \<in> insert egid (set (take (nat n) gs)). ir0_access_from_stat (Some f) mode euid g)"
  by (auto simp: ir0_access_from_stat_groups_def access_groups_loop_iff)

lemma group_rule:
  "x \<in> G \<Longrightarrow>
   (\<exists>g \<in> G. P \<or> c (if Q then 6 else if fg \<in> {g} then 3 else (0::nat))) \<longleftrightarrow>
   P \<or> c (if Q then 6 else if fg \<in> G then 3 else 0) \<or> (\<not> Q \<and> (\<exists>g \<in> G. g \<noteq> fg) \<and> c 0)"
  by (cases Q; cases "fg \<in> G") auto

text \<open>
  The access decision. \<^verbatim>\<open>ir0_access_from_stat\<close> denies without a stat record and
  otherwise grants exactly to root and to callers whose class (owner if the effective user
  owns the file, else group if the effective group matches, else others) has a permission bit
  for every access requested.
\<close>

theorem access_from_stat_spec:
  "ir0_access_from_stat st mode euid egid \<longleftrightarrow>
     (\<exists>f. st = Some f \<and> (euid = ROOT_UID \<or> class_grants mode (st_mode f) (file_class f euid {egid})))"
proof (cases st)
  case None
  then show ?thesis by (simp add: ir0_access_from_stat_def)
next
  case (Some f)
  then show ?thesis by (simp add: access_from_stat_class)
qed

text \<open>
  Supplementary groups, exactly. With supplementary groups the check grants what the
  class rule over all groups of the caller grants, and beyond it exactly this: a caller that is
  neither root nor owner and has some group other than the file's is also granted whatever the
  bits for others grant, even when one of its groups is the file's group and the group bits
  deny it. The first part says that no access the class rule grants is refused.
\<close>

theorem access_groups_spec:
  "ir0_access_from_stat_groups (Some f) mode euid egid (Some gs) n \<longleftrightarrow>
     (let G = insert egid (set (take (nat n) gs)) in
      euid = ROOT_UID \<or> class_grants mode (st_mode f) (file_class f euid G) \<or>
      (euid \<noteq> st_uid f \<and> (\<exists>g \<in> G. g \<noteq> st_gid f) \<and> class_grants mode (st_mode f) 0))"
  unfolding access_groups_iff access_from_stat_class Let_def file_class_def
  by (rule group_rule [OF insertI1])

text \<open>
  C29: Group denial is bypassed. For a caller that is neither root nor the owner and that has the file's group and any other
  group, effective or supplementary, \<^verbatim>\<open>ir0_check_file_access\<close> grants exactly what the group bits or the bits for others grant;
  the class rule, by which the file's group decides for every member of it as in Linux, looks at the group bits alone. So what the group bits of a file
  deny to its group, every member with another group gets through the bits for others, contrary to the comment there.
\<close>

theorem access_group_denial_bypassed:
  assumes f: "statf pa = Some f" and p: "p_euid p \<noteq> ROOT_UID" "p_euid p \<noteq> st_uid f"
    and G: "G = insert (p_egid p) (set (take (p_ngroups p) (p_groups p)))" "st_gid f \<in> G" "g \<in> G" "g \<noteq> st_gid f"
  shows "file_class f (p_euid p) G = 3 \<and>
    (ir0_check_file_access statf (Some p) (Some pa) mode \<longleftrightarrow> class_grants mode (st_mode f) 3 \<or> class_grants mode (st_mode f) 0)"
proof -
  have "ir0_check_file_access statf (Some p) (Some pa) mode \<longleftrightarrow> (\<exists>h \<in> G. ir0_access_from_stat (Some f) mode (p_euid p) h)"
    using f by (simp add: ir0_check_file_access_def ir0_current_cred_def access_groups_iff G(1))
  also have "\<dots> \<longleftrightarrow> class_grants mode (st_mode f) 3 \<or> class_grants mode (st_mode f) 0"
    using p G(2-4) by (auto simp: access_from_stat_class file_class_def intro: bexI [of _ "st_gid f"] bexI [of _ g] split: if_splits)
  finally show ?thesis using p G(2) by (simp add: file_class_def)
qed

text \<open>Witness: a file of mode 0604 and group 100 and a reader with the groups 100 and 50.\<close>

theorem access_group_denial_bypassed_witness:
  "let f = \<lparr>st_mode = 0x184, st_uid = 1, st_gid = 100\<rparr>;
       p = \<lparr>p_uid = 7, p_gid = 100, p_euid = 7, p_egid = 100, p_umask = 18, p_groups = [50], p_ngroups = 1, p_pid = 3, p_cwd = ''/''\<rparr>
   in \<not> class_grants ACCESS_READ (st_mode f) (file_class f (p_euid p) {100, 50}) \<and> ir0_check_file_access (\<lambda>_. Some f) (Some p) (Some ''/f'') ACCESS_READ"
  using access_group_denial_bypassed [of "\<lambda>_. Some \<lparr>st_mode = 0x184, st_uid = 1, st_gid = 100\<rparr>" "''/f''" "\<lparr>st_mode = 0x184, st_uid = 1, st_gid = 100\<rparr>"
      "\<lparr>p_uid = 7, p_gid = 100, p_euid = 7, p_egid = 100, p_umask = 18, p_groups = [50], p_ngroups = 1, p_pid = 3, p_cwd = ''/''\<rparr>" "{100, 50}" 50 ACCESS_READ]
  by (simp add: class_grants_def insert_commute)

text \<open>
  The two path checks agree up to supplementary groups. What \<^verbatim>\<open>check_file_access\<close>
  grants a process \<^verbatim>\<open>ir0_check_file_access\<close> grants it too when it is current, and the
  two are equal for a process without supplementary groups; both deny a path that has no stat
  record.
\<close>

theorem check_file_access_agree:
  "(check_file_access statf path mode (Some p) \<longrightarrow> ir0_check_file_access statf (Some p) path mode) \<and>
   (p_ngroups p = 0 \<longrightarrow> ir0_check_file_access statf (Some p) path mode = check_file_access statf path mode (Some p)) \<and>
   (\<forall>pa cur. path = Some pa \<and> statf pa = None \<longrightarrow>
      \<not> check_file_access statf path mode cur \<and> \<not> ir0_check_file_access statf cur path mode)"
  by (auto simp: check_file_access_def ir0_check_file_access_def ir0_current_cred_def Let_def access_groups_iff
      split: option.splits)

definition demo_process :: cred_process where
  "demo_process = \<lparr>p_uid = 7, p_gid = 100, p_euid = 7, p_egid = 100, p_umask = 18, p_groups = [], p_ngroups = 0,
     p_pid = 3, p_cwd = ''/''\<rparr>"

lemma check_file_access_agree_witness:
  "ir0_check_file_access (\<lambda>_. Some \<lparr>st_mode = 0x1A4, st_uid = 7, st_gid = 1\<rparr>) (Some demo_process) (Some ''/f'') ACCESS_READ"
  using check_file_access_agree [of "\<lambda>_. Some \<lparr>st_mode = 0x1A4, st_uid = 7, st_gid = 1\<rparr>" "Some ''/f''" ACCESS_READ demo_process]
  by (simp add: check_file_access_def demo_process_def access_from_stat_class class_grants_def file_class_def)

section \<open>Parsing modes\<close>

definition octal_digit :: "char \<Rightarrow> bool" where
  "octal_digit c \<longleftrightarrow> c \<in> set ''01234567''"

definition octal_value :: "string \<Rightarrow> int" where
  "octal_value s = foldl (\<lambda>v c. v * 8 + (of_char c - 48)) 0 s"

lemma octal_digit_code: "octal_digit c \<longleftrightarrow> 48 \<le> (of_char c :: int) \<and> (of_char c :: int) \<le> 55"
proof
  show "octal_digit c \<Longrightarrow> 48 \<le> (of_char c :: int) \<and> (of_char c :: int) \<le> 55"
    by (auto simp: octal_digit_def)
next
  assume a: "48 \<le> (of_char c :: int) \<and> (of_char c :: int) \<le> 55"
  have "(of_char c :: int) \<in> set [48, 49, 50, 51, 52, 53, 54, 55]" using a by auto
  then have "(of_char c :: int) \<in> set (map of_char ''01234567'')" by simp
  then show "octal_digit c" unfolding octal_digit_def by (auto simp only: list.set_map of_char_eq_iff)
qed

lemma octal_fold_mono:
  "0 \<le> (v :: int) \<Longrightarrow> \<forall>c \<in> set s. octal_digit c \<Longrightarrow> v \<le> foldl (\<lambda>v c. v * 8 + (of_char c - 48)) v (s :: string)"
proof (induction s arbitrary: v)
  case (Cons c s)
  have "0 \<le> v * 8 + (of_char c - 48)" "v \<le> v * 8 + (of_char c - 48)"
    using Cons.prems by (auto simp: octal_digit_code)
  with Cons.IH [of "v * 8 + (of_char c - 48)"] Cons.prems(2) show ?case by simp
qed simp

lemma parse_mode_loop_iff:
  "0 \<le> v \<Longrightarrow> v \<le> 4095 \<Longrightarrow>
   parse_mode_loop s v = Inr m \<longleftrightarrow>
     (\<forall>c \<in> set s. octal_digit c) \<and> foldl (\<lambda>v c. v * 8 + (of_char c - 48)) v s = m \<and> m \<le> 4095"
proof (induction s arbitrary: v)
  case (Cons c s)
  let ?v = "v * 8 + (of_char c - 48)"
  show ?case
  proof (cases "octal_digit c \<and> ?v \<le> 4095")
    case True
    then have "0 \<le> ?v" using Cons.prems by (auto simp: octal_digit_code)
    with True Cons.IH [of ?v] show ?thesis by (auto simp: octal_digit_code Let_def)
  next
    case False
    show ?thesis
    proof (cases "octal_digit c")
      case True
      then have "0 \<le> ?v" using Cons.prems by (auto simp: octal_digit_code)
      with True False octal_fold_mono [of ?v s] show ?thesis by (auto simp: octal_digit_code Let_def)
    qed (auto simp: octal_digit_code)
  qed
qed auto

text \<open>
  Octal modes. \<^verbatim>\<open>parse_mode\<close> accepts exactly the nonempty strings of octal digits
  whose value is at most 07777, and returns that value; every other input is
  \<^verbatim>\<open>EINVAL\<close>.
\<close>

theorem parse_mode_spec:
  "parse_mode s =
     (case s of
        None \<Rightarrow> Inl EINVAL
      | Some t \<Rightarrow> if t \<noteq> [] \<and> (\<forall>c \<in> set t. octal_digit c) \<and> octal_value t \<le> 4095
                  then Inr (octal_value t) else Inl EINVAL)"
proof (cases s)
  case None
  then show ?thesis by (simp add: parse_mode_def)
next
  case (Some t)
  have err: "parse_mode (Some t) = Inl EINVAL \<or> (\<exists>m. parse_mode (Some t) = Inr m)"
  proof (cases "parse_mode (Some t)")
    case (Inl e)
    have "parse_mode_loop u v = Inl e \<Longrightarrow> e = EINVAL" for u v
      by (induction u arbitrary: v) (auto simp: Let_def split: if_splits)
    with Inl show ?thesis by (auto simp: parse_mode_def split: list.splits if_splits)
  qed auto
  have iff: "parse_mode (Some t) = Inr m \<longleftrightarrow> t \<noteq> [] \<and> (\<forall>c \<in> set t. octal_digit c) \<and> octal_value t = m \<and> m \<le> 4095" for m
    using parse_mode_loop_iff [of 0 t m]
    by (cases t) (auto simp: parse_mode_def octal_value_def octal_digit_code simp del: parse_mode_loop.simps)
  show ?thesis using err iff Some by auto
qed

lemma parse_mode_spec_witness: "parse_mode (Some ''755'') = Inr 493 \<and> parse_mode (Some ''17777'') = Inl EINVAL"
  unfolding parse_mode_spec by (simp add: octal_value_def octal_digit_def)

end
