(* ===== verification/Flock.thy ===== *)
theory Flock
  imports Prelude
begin

text \<open>
  Advisory whole-file locks (\<^verbatim>\<open>fs/flock.c\<close>): a table of 64 records, one per holding
  open file description. A description is its address; \<open>fpath\<close> gives the path stored in it
  (\<^verbatim>\<open>file->path\<close>, a \<^verbatim>\<open>char[256]\<close>, so at most 255 characters).
\<close>

section \<open>Table and operations\<close>

record flock_holder =
  holder_file :: "nat option"
  holder_path :: string
  exclusive :: bool

type_synonym flock_table = "flock_holder list"

abbreviation IR0_FLOCK_MAX :: nat where "IR0_FLOCK_MAX \<equiv> 64"
abbreviation VFS_PATH_MAX :: nat where "VFS_PATH_MAX \<equiv> 256"
abbreviation LOCK_SH :: u32 where "LOCK_SH \<equiv> 1"
abbreviation LOCK_EX :: u32 where "LOCK_EX \<equiv> 2"
abbreviation LOCK_NB :: u32 where "LOCK_NB \<equiv> 4"
abbreviation LOCK_UN :: u32 where "LOCK_UN \<equiv> 8"

definition flock_find :: "flock_table \<Rightarrow> nat \<Rightarrow> nat option" where
  "flock_find tab f = first_index (\<lambda>h. holder_file h = Some f) tab"

definition flock_alloc :: "flock_table \<Rightarrow> nat option" where
  "flock_alloc tab = first_index (\<lambda>h. holder_file h = None) tab"

fun flock_conflicts :: "flock_table \<Rightarrow> nat \<Rightarrow> string \<Rightarrow> bool \<Rightarrow> bool" where
  "flock_conflicts [] f path want = False"
| "flock_conflicts (h # hs) f path want =
     (if holder_file h = None \<or> holder_file h = Some f then flock_conflicts hs f path want
      else if holder_path h \<noteq> path then flock_conflicts hs f path want
      else if want \<or> exclusive h then True
      else flock_conflicts hs f path want)"

definition ir0_flock_release_file :: "nat option \<Rightarrow> flock_table \<Rightarrow> flock_table" where
  "ir0_flock_release_file file tab =
     (case file of
        None \<Rightarrow> tab
      | Some f \<Rightarrow>
          (case flock_find tab f of
             None \<Rightarrow> tab
           | Some i \<Rightarrow> tab[i := \<lparr>holder_file = None, holder_path = '''', exclusive = False\<rparr>]))"

definition ir0_flock_apply ::
  "(nat \<Rightarrow> string) \<Rightarrow> nat option \<Rightarrow> u32 \<Rightarrow> flock_table \<Rightarrow> flock_table \<times> (errno + unit)" where
  "ir0_flock_apply fpath file operation tab =
     (case file of
        None \<Rightarrow> (tab, Inl EBADF)
      | Some f \<Rightarrow>
          if operation AND LOCK_UN \<noteq> 0 then
            (if operation AND (LOCK_SH OR LOCK_EX) \<noteq> 0 then (tab, Inl EINVAL)
             else (ir0_flock_release_file file tab, Inr ()))
          else if operation AND (LOCK_SH OR LOCK_EX) = 0 then (tab, Inl EINVAL)
          else if operation AND LOCK_SH \<noteq> 0 \<and> operation AND LOCK_EX \<noteq> 0 then (tab, Inl EINVAL)
          else
            (let want_exclusive = (operation AND LOCK_EX \<noteq> 0) in
             if flock_conflicts tab f (fpath f) want_exclusive then
               (tab, Inl (if operation AND LOCK_NB \<noteq> 0 then EWOULDBLOCK else ENOLCK))
             else
               (case flock_find tab f of
                  Some i \<Rightarrow> (tab[i := (tab ! i)\<lparr>exclusive := want_exclusive\<rparr>], Inr ())
                | None \<Rightarrow>
                    (case flock_alloc tab of
                       None \<Rightarrow> (tab, Inl ENOLCK)
                     | Some i \<Rightarrow>
                         (tab[i := \<lparr>holder_file = Some f, holder_path = take (VFS_PATH_MAX - 1) (fpath f),
                                    exclusive = want_exclusive\<rparr>], Inr ())))))"

section \<open>Who holds what\<close>

text \<open>
  \<open>holds tab f x\<close>: the description \<open>f\<close> holds a lock, exclusive if \<open>x\<close>. The invariant: a
  description has at most one record, with its own path.
\<close>

definition holds :: "flock_table \<Rightarrow> nat \<Rightarrow> bool \<Rightarrow> bool" where
  "holds tab f x \<longleftrightarrow> (\<exists>h \<in> set tab. holder_file h = Some f \<and> exclusive h = x)"

definition flock_ok :: "(nat \<Rightarrow> string) \<Rightarrow> flock_table \<Rightarrow> bool" where
  "flock_ok fpath tab \<longleftrightarrow>
     length tab = IR0_FLOCK_MAX \<and>
     (\<forall>h \<in> set tab. \<forall>f. holder_file h = Some f \<longrightarrow> holder_path h = fpath f) \<and>
     (\<forall>i < length tab. \<forall>j < length tab. i \<noteq> j \<longrightarrow> holder_file (tab ! i) \<noteq> None \<longrightarrow>
        holder_file (tab ! i) \<noteq> holder_file (tab ! j))"

text \<open>The locks on one path are compatible: an exclusive one is alone.\<close>

definition flock_compatible :: "(nat \<Rightarrow> string) \<Rightarrow> flock_table \<Rightarrow> bool" where
  "flock_compatible fpath tab \<longleftrightarrow>
     (\<forall>f g x y. holds tab f x \<and> holds tab g y \<and> f \<noteq> g \<and> fpath f = fpath g \<longrightarrow> \<not> x \<and> \<not> y)"

lemma conflicts_ex:
  "flock_conflicts tab f path want \<longleftrightarrow>
     (\<exists>h \<in> set tab. holder_file h \<noteq> None \<and> holder_file h \<noteq> Some f \<and> holder_path h = path \<and> (want \<or> exclusive h))"
  by (induction tab) auto

lemma conflicts_iff:
  assumes "flock_ok fpath tab"
  shows "flock_conflicts tab f (fpath f) want \<longleftrightarrow>
     (\<exists>g x. g \<noteq> f \<and> fpath g = fpath f \<and> holds tab g x \<and> (want \<or> x))"
proof -
  have path: "holder_path h = fpath g" if "h \<in> set tab" "holder_file h = Some g" for h g
    using assms that by (simp add: flock_ok_def)
  show ?thesis unfolding conflicts_ex holds_def
  proof (intro iffI; elim bexE exE conjE)
    fix h assume h: "h \<in> set tab" "holder_file h \<noteq> None" "holder_file h \<noteq> Some f" "holder_path h = fpath f" "want \<or> exclusive h"
    then obtain g where "holder_file h = Some g" by blast
    with h path show "\<exists>g x. g \<noteq> f \<and> fpath g = fpath f \<and> (\<exists>h \<in> set tab. holder_file h = Some g \<and> exclusive h = x) \<and> (want \<or> x)"
      by (intro exI [of _ g] exI [of _ "exclusive h"]) auto
  next
    fix g x h assume "g \<noteq> f" "fpath g = fpath f" "want \<or> x" "h \<in> set tab" "holder_file h = Some g" "exclusive h = x"
    with path show "\<exists>h \<in> set tab. holder_file h \<noteq> None \<and> holder_file h \<noteq> Some f \<and> holder_path h = fpath f \<and> (want \<or> exclusive h)"
      by (intro bexI [of _ h]) auto
  qed
qed

text \<open>A description has one record only.\<close>

lemma one_record:
  assumes "flock_ok fpath tab" "i < length tab" "j < length tab" "holder_file (tab ! i) = Some f" "holder_file (tab ! j) = Some f"
  shows "j = i"
  using assms unfolding flock_ok_def by (metis option.distinct(1))

lemma only_slot:
  assumes "flock_ok fpath tab" "i < length tab"
    and own: "holder_file (tab ! i) = Some f \<or> holder_file (tab ! i) = None \<and> flock_find tab f = None"
    and j: "j < length tab" "holder_file (tab ! j) = Some f"
  shows "j = i"
  using own
proof
  assume "holder_file (tab ! i) = Some f"
  from one_record [OF assms(1,2) j(1) this j(2)] show ?thesis .
next
  assume "holder_file (tab ! i) = None \<and> flock_find tab f = None"
  with j show ?thesis by (auto simp: flock_find_def dest: first_index_NoneD)
qed

lemma flock_ok_update:
  assumes ok: "flock_ok fpath tab" and i: "i < length tab"
    and path: "\<And>g. holder_file h = Some g \<Longrightarrow> holder_path h = fpath g"
    and only: "\<And>g j. holder_file h = Some g \<Longrightarrow> j < length tab \<Longrightarrow> holder_file (tab ! j) = Some g \<Longrightarrow> j = i"
  shows "flock_ok fpath (tab[i := h])"
  unfolding flock_ok_def
proof (intro conjI ballI allI impI)
  show "length (tab[i := h]) = IR0_FLOCK_MAX" using ok by (simp add: flock_ok_def)
  show "holder_path k = fpath g" if "k \<in> set (tab[i := h])" "holder_file k = Some g" for k g
    using ok path that set_update_subset_insert [of tab i h] by (auto simp: flock_ok_def)
  show "holder_file (tab[i := h] ! k) \<noteq> holder_file (tab[i := h] ! j)"
    if "k < length (tab[i := h])" "j < length (tab[i := h])" "k \<noteq> j" "holder_file (tab[i := h] ! k) \<noteq> None" for k j
  proof
    assume e: "holder_file (tab[i := h] ! k) = holder_file (tab[i := h] ! j)"
    from that(4) obtain g where g: "holder_file (tab[i := h] ! k) = Some g" by blast
    have at: "holder_file (tab ! m) = Some g" if "m = k \<or> m = j" "m \<noteq> i" for m
      using that g e by auto
    show False
    proof (cases "k = i \<or> j = i")
      case True
      then have "holder_file h = Some g" using g e i by auto
      from only [OF this] have o: "\<forall>m < length tab. holder_file (tab ! m) = Some g \<longrightarrow> m = i" by blast
      from at o that(1-3) True show False by (metis length_list_update)
    next
      case False
      from one_record [OF ok, of k j g] at that(1-3) False show False by (metis length_list_update)
    qed
  qed
qed

lemma holds_update:
  assumes "i < length tab"
  shows "holds (tab[i := h]) g x \<longleftrightarrow>
     holder_file h = Some g \<and> exclusive h = x \<or>
     (\<exists>j < length tab. j \<noteq> i \<and> holder_file (tab ! j) = Some g \<and> exclusive (tab ! j) = x)"
proof -
  have "holds (tab[i := h]) g x \<longleftrightarrow>
    (\<exists>j < length tab. holder_file (tab[i := h] ! j) = Some g \<and> exclusive (tab[i := h] ! j) = x)"
    unfolding holds_def by (metis in_set_conv_nth length_list_update)
  then show ?thesis using assms by (auto simp: nth_list_update_if)
qed

lemma holds_nth: "holds tab g x \<longleftrightarrow> (\<exists>j < length tab. holder_file (tab ! j) = Some g \<and> exclusive (tab ! j) = x)"
  unfolding holds_def by (metis in_set_conv_nth)

text \<open>Replacing the record of \<open>f\<close>, or a free record, changes only what \<open>f\<close> holds.\<close>

lemma holds_set:
  assumes ok: "flock_ok fpath tab" and i: "i < length tab"
    and own: "holder_file (tab ! i) = Some f \<or> holder_file (tab ! i) = None \<and> flock_find tab f = None"
    and h: "holder_file h = Some f"
  shows "holds (tab[i := h]) g x \<longleftrightarrow> (if g = f then x = exclusive h else holds tab g x)"
proof (cases "g = f")
  case True
  have "\<forall>j < length tab. holder_file (tab ! j) = Some f \<longrightarrow> j = i" using only_slot [OF ok i own] by blast
  with True h show ?thesis unfolding holds_update [OF i] by auto
next
  case False
  with own h show ?thesis unfolding holds_update [OF i] holds_nth [of tab] by auto
qed

lemma flock_ok_set:
  assumes ok: "flock_ok fpath tab" and i: "i < length tab"
    and own: "holder_file (tab ! i) = Some f \<or> holder_file (tab ! i) = None \<and> flock_find tab f = None"
    and h: "holder_file h = Some f" "holder_path h = fpath f"
  shows "flock_ok fpath (tab[i := h])"
  by (rule flock_ok_update [OF ok i]) (use h only_slot [OF ok i own] in auto)

lemma flock_release_ok:
  assumes ok: "flock_ok fpath tab"
  shows "flock_ok fpath (ir0_flock_release_file (Some f) tab) \<and>
    (holds (ir0_flock_release_file (Some f) tab) g x \<longleftrightarrow> g \<noteq> f \<and> holds tab g x)"
proof (cases "flock_find tab f")
  case None
  then have "\<not> holds tab f y" for y by (auto simp: flock_find_def first_index_None_iff holds_def)
  with None ok show ?thesis by (auto simp: ir0_flock_release_file_def)
next
  case (Some i)
  let ?h = "\<lparr>holder_file = None, holder_path = '''', exclusive = False\<rparr>"
  have i: "i < length tab" "holder_file (tab ! i) = Some f"
    using Some by (auto simp: flock_find_def dest: first_index_bound first_index_holds)
  have "flock_ok fpath (tab[i := ?h])" by (rule flock_ok_update [OF ok i(1)]) auto
  moreover have "holds (tab[i := ?h]) g x \<longleftrightarrow> g \<noteq> f \<and> holds tab g x"
  proof (cases "g = f")
    case True
    have "\<forall>j < length tab. holder_file (tab ! j) = Some f \<longrightarrow> j = i" using one_record [OF ok i(1) _ i(2)] by blast
    with True show ?thesis unfolding holds_update [OF i(1)] by auto
  next
    case False
    with i show ?thesis unfolding holds_update [OF i(1)] holds_nth [of tab] by auto
  qed
  ultimately show ?thesis using Some by (simp add: ir0_flock_release_file_def)
qed

section \<open>What apply does\<close>

text \<open>The three kinds of request.\<close>

definition lock_request :: "u32 \<Rightarrow> bool option" where
  "lock_request operation =
     (if operation AND LOCK_UN \<noteq> 0 \<or> operation AND (LOCK_SH OR LOCK_EX) = 0 \<or>
         operation AND LOCK_SH \<noteq> 0 \<and> operation AND LOCK_EX \<noteq> 0 then None
      else Some (operation AND LOCK_EX \<noteq> 0))"

lemma apply_lock:
  assumes ok: "flock_ok fpath tab" and len: "length (fpath f) < VFS_PATH_MAX" and req: "lock_request operation = Some want"
  shows "case ir0_flock_apply fpath (Some f) operation tab of
      (tab', Inr _) \<Rightarrow> flock_ok fpath tab' \<and> (\<forall>g x. holds tab' g x \<longleftrightarrow> (if g = f then x = want else holds tab g x)) \<and>
                      \<not> flock_conflicts tab f (fpath f) want
    | (tab', Inl e) \<Rightarrow> tab' = tab \<and> (if flock_conflicts tab f (fpath f) want
                        then e = (if operation AND LOCK_NB \<noteq> 0 then EWOULDBLOCK else ENOLCK)
                        else e = ENOLCK \<and> flock_find tab f = None \<and> flock_alloc tab = None)"
proof -
  have r: "operation AND LOCK_UN = 0" "operation AND (LOCK_SH OR LOCK_EX) \<noteq> 0"
    "\<not> (operation AND LOCK_SH \<noteq> 0 \<and> operation AND LOCK_EX \<noteq> 0)" "want = (operation AND LOCK_EX \<noteq> 0)"
    using req unfolding lock_request_def by (simp_all only: split: if_splits) blast+
  let ?c = "flock_conflicts tab f (fpath f) want"
  have eq: "ir0_flock_apply fpath (Some f) operation tab =
     (if ?c then (tab, Inl (if operation AND LOCK_NB \<noteq> 0 then EWOULDBLOCK else ENOLCK))
      else (case flock_find tab f of
              Some i \<Rightarrow> (tab[i := (tab ! i)\<lparr>exclusive := want\<rparr>], Inr ())
            | None \<Rightarrow>
                (case flock_alloc tab of
                   None \<Rightarrow> (tab, Inl ENOLCK)
                 | Some i \<Rightarrow>
                     (tab[i := \<lparr>holder_file = Some f, holder_path = take (VFS_PATH_MAX - 1) (fpath f), exclusive = want\<rparr>], Inr ()))))"
    unfolding ir0_flock_apply_def Let_def r(4) using r(1,2,3) by (simp only: option.simps if_False if_True simp_thms)
  have tk: "take (VFS_PATH_MAX - 1) (fpath f) = fpath f" using len by simp
  show ?thesis
  proof (cases ?c)
    case True
    then show ?thesis unfolding eq by simp
  next
    case False
    show ?thesis
    proof (cases "flock_find tab f")
      case (Some i)
      then have i: "i < length tab" "holder_file (tab ! i) = Some f"
        by (auto simp: flock_find_def dest: first_index_bound first_index_holds)
      have p: "holder_path (tab ! i) = fpath f" using ok i by (simp add: flock_ok_def)
      from False Some show ?thesis
        unfolding eq using flock_ok_set [OF ok i(1), of f] holds_set [OF ok i(1), of f] i p by simp
    next
      case None
      show ?thesis
      proof (cases "flock_alloc tab")
        case n: None
        with None False show ?thesis unfolding eq by simp
      next
        case (Some i)
        then have i: "i < length tab" "holder_file (tab ! i) = None"
          by (auto simp: flock_alloc_def dest: first_index_bound first_index_holds)
        from False None Some show ?thesis
          unfolding eq tk using flock_ok_set [OF ok i(1), of f] holds_set [OF ok i(1), of f] i None by simp
      qed
    qed
  qed
qed

section \<open>Properties\<close>

text \<open>
  What a lock request does. On a well-formed table, a request for a shared or an exclusive
  lock succeeds exactly when no other description holds a conflicting lock on the same path and
  a record is available; then the description holds the lock in the requested mode (a second
  request converts it in place), and nobody else's lock changes. A conflict is
  \<^verbatim>\<open>EWOULDBLOCK\<close> for a non-blocking request and \<^verbatim>\<open>ENOLCK\<close> otherwise, a full
  table is \<^verbatim>\<open>ENOLCK\<close>, and a failed request changes nothing.
\<close>

theorem flock_apply_spec:
  assumes "flock_ok fpath tab" "length (fpath f) < VFS_PATH_MAX" "lock_request operation = Some want"
  shows "case ir0_flock_apply fpath (Some f) operation tab of
      (tab', Inr _) \<Rightarrow>
        flock_ok fpath tab' \<and> (\<forall>g x. holds tab' g x \<longleftrightarrow> (if g = f then x = want else holds tab g x)) \<and>
        \<not> (\<exists>g x. g \<noteq> f \<and> fpath g = fpath f \<and> holds tab g x \<and> (want \<or> x))
    | (tab', Inl e) \<Rightarrow>
        tab' = tab \<and>
        (if \<exists>g x. g \<noteq> f \<and> fpath g = fpath f \<and> holds tab g x \<and> (want \<or> x)
         then e = (if operation AND LOCK_NB \<noteq> 0 then EWOULDBLOCK else ENOLCK)
         else e = ENOLCK \<and> flock_find tab f = None \<and> flock_alloc tab = None)"
  using apply_lock [OF assms] unfolding conflicts_iff [OF assms(1)] .

datatype flock_op = FlockApply "nat option" u32 | FlockRelease "nat option"

fun flock_step :: "(nat \<Rightarrow> string) \<Rightarrow> flock_op \<Rightarrow> flock_table \<Rightarrow> flock_table" where
  "flock_step fpath (FlockApply file operation) tab = fst (ir0_flock_apply fpath file operation tab)"
| "flock_step fpath (FlockRelease file) tab = ir0_flock_release_file file tab"

lemma release_compatible:
  assumes "flock_ok fpath tab" "flock_compatible fpath tab"
  shows "flock_ok fpath (ir0_flock_release_file file tab) \<and> flock_compatible fpath (ir0_flock_release_file file tab)"
proof (cases "file")
  case None
  with assms show ?thesis by (simp add: ir0_flock_release_file_def)
next
  case (Some f)
  have h: "\<And>g x. holds (ir0_flock_release_file (Some f) tab) g x \<longleftrightarrow> g \<noteq> f \<and> holds tab g x"
    using flock_release_ok [OF assms(1)] by blast
  have "flock_compatible fpath (ir0_flock_release_file (Some f) tab)"
    using assms(2) unfolding flock_compatible_def h by metis
  with flock_release_ok [OF assms(1), of f] Some show ?thesis by simp
qed

lemma apply_compatible:
  assumes ok: "flock_ok fpath tab" "flock_compatible fpath tab" and len: "\<forall>f. length (fpath f) < VFS_PATH_MAX"
  shows "flock_ok fpath (fst (ir0_flock_apply fpath file operation tab)) \<and>
         flock_compatible fpath (fst (ir0_flock_apply fpath file operation tab))"
proof (cases "\<exists>f want. file = Some f \<and> lock_request operation = Some want")
  case True
  then obtain f want where f: "file = Some f" "lock_request operation = Some want" by blast
  note a = apply_lock [OF ok(1) len [rule_format] f(2), unfolded conflicts_iff [OF ok(1)], of f]
  obtain tab' r where t: "ir0_flock_apply fpath (Some f) operation tab = (tab', r)" by fastforce
  show ?thesis
  proof (cases r)
    case (Inl e)
    with a t f ok show ?thesis by simp
  next
    case (Inr u)
    with a t have h: "flock_ok fpath tab'" "\<And>g x. holds tab' g x \<longleftrightarrow> (if g = f then x = want else holds tab g x)"
      "\<not> (\<exists>g x. g \<noteq> f \<and> fpath g = fpath f \<and> holds tab g x \<and> (want \<or> x))" by auto
    have "flock_compatible fpath tab'"
      unfolding flock_compatible_def h(2)
    proof (intro allI impI)
      fix g k x y
      assume c: "(if g = f then x = want else holds tab g x) \<and> (if k = f then y = want else holds tab k y) \<and> g \<noteq> k \<and> fpath g = fpath k"
      show "\<not> x \<and> \<not> y"
      proof (cases "g = f \<or> k = f")
        case True
        with c h(3) show ?thesis by (metis (full_types))
      next
        case False
        with c ok(2) show ?thesis unfolding flock_compatible_def by metis
      qed
    qed
    with h(1) t f show ?thesis by simp
  qed
next
  case False
  have "fst (ir0_flock_apply fpath file operation tab) = tab \<or>
        fst (ir0_flock_apply fpath file operation tab) = ir0_flock_release_file file tab"
  proof (cases "file")
    case None
    then show ?thesis by (simp add: ir0_flock_apply_def)
  next
    case (Some f)
    with False have "lock_request operation = None" by (cases "lock_request operation") auto
    then have "operation AND LOCK_UN \<noteq> 0 \<or> operation AND (LOCK_SH OR LOCK_EX) = 0 \<or>
         operation AND LOCK_SH \<noteq> 0 \<and> operation AND LOCK_EX \<noteq> 0"
      unfolding lock_request_def by (simp only: option.distinct split: if_splits)
    with Some show ?thesis unfolding ir0_flock_apply_def by (simp only: option.simps fst_conv split: if_splits) blast
  qed
  with ok release_compatible [OF ok, of "file"] show ?thesis by auto
qed

text \<open>
  C27: Mutual exclusion. Through every sequence of lock and release calls from the empty table,
  two different descriptions of the same path never both hold a lock unless both locks are
  shared, and every description has at most one record, carrying its own path.
\<close>

theorem flock_exclusion:
  assumes "\<forall>f. length (fpath f) < VFS_PATH_MAX"
  shows "flock_ok fpath (fold (flock_step fpath) cs (replicate IR0_FLOCK_MAX \<lparr>holder_file = None, holder_path = '''', exclusive = False\<rparr>)) \<and>
         flock_compatible fpath (fold (flock_step fpath) cs (replicate IR0_FLOCK_MAX \<lparr>holder_file = None, holder_path = '''', exclusive = False\<rparr>))"
proof -
  let ?t0 = "replicate IR0_FLOCK_MAX \<lparr>holder_file = None, holder_path = '''', exclusive = False\<rparr>"
  have init: "flock_ok fpath ?t0" "flock_compatible fpath ?t0"
    by (simp_all add: flock_ok_def flock_compatible_def holds_def)
  have "flock_ok fpath (flock_step fpath c t) \<and> flock_compatible fpath (flock_step fpath c t)"
    if "flock_ok fpath t \<and> flock_compatible fpath t" for c t
    using that assms apply_compatible release_compatible by (cases c) auto
  then have "flock_ok fpath (fold (flock_step fpath) cs t) \<and> flock_compatible fpath (fold (flock_step fpath) cs t)"
    if "flock_ok fpath t \<and> flock_compatible fpath t" for t
    using that by (induction cs arbitrary: t) simp_all
  with init show ?thesis by blast
qed

section \<open>Witnesses\<close>

definition two_holders :: flock_table where
  "two_holders = [\<lparr>holder_file = Some 1, holder_path = ''/a'', exclusive = False\<rparr>] @
     replicate 63 \<lparr>holder_file = None, holder_path = '''', exclusive = False\<rparr>"

lemma two_holders_ok: "flock_ok (\<lambda>_. ''/a'') two_holders"
  by (auto simp: flock_ok_def two_holders_def nth_Cons split: nat.splits)

lemma flock_apply_spec_witness: "\<exists>tab'. ir0_flock_apply (\<lambda>_. ''/a'') (Some 2) 6 two_holders = (tab', Inl EWOULDBLOCK)"
proof -
  have r: "lock_request 6 = Some True" by (simp add: lock_request_def)
  have h: "\<exists>g x. g \<noteq> (2::nat) \<and> ''/a'' = ''/a'' \<and> holds two_holders g x \<and> (True \<or> x)"
    by (intro exI [of _ 1] exI [of _ False]) (simp add: holds_def two_holders_def)
  obtain tab' e where t: "ir0_flock_apply (\<lambda>_. ''/a'') (Some 2) 6 two_holders = (tab', e)" by fastforce
  from flock_apply_spec [OF two_holders_ok _ r, of 2] h t show ?thesis by (cases e) auto
qed

lemma flock_exclusion_witness:
  "flock_compatible (\<lambda>_. ''/a'') (fold (flock_step (\<lambda>_. ''/a'')) [FlockApply (Some 1) 2, FlockApply (Some 2) 5, FlockRelease (Some 1)]
     (replicate IR0_FLOCK_MAX \<lparr>holder_file = None, holder_path = '''', exclusive = False\<rparr>))"
  using flock_exclusion [of "\<lambda>_. ''/a''" "[FlockApply (Some 1) 2, FlockApply (Some 2) 5, FlockRelease (Some 1)]"] by simp

end
