(* ===== verification/Futex.thy ===== *)
theory Futex
  imports Process_State
begin

text \<open>
  Futex wait queues (\<^verbatim>\<open>kernel/futex.c\<close>): a table of 64 waiter slots. A waiter sleeps in
  a loop that runs other processes (\<^verbatim>\<open>sched_schedule_next\<close>) and the idle poll until
  its state is no longer BLOCKED; both are parameters of the wait, functions on the whole state,
  since any other process may run there. The loop may not end, so the wait returns an option.
\<close>

section \<open>Slots and operations\<close>

record futex_slot =
  slot_proc :: "nat option"
  slot_uaddr :: "nat option"
  slot_val :: int
  slot_in_use :: bool

record futex_sys =
  futex_waiters :: "futex_slot list"
  futex_world :: world
  syscall_interrupted :: "nat \<Rightarrow> bool"

abbreviation IR0_FUTEX_MAX_WAITERS :: nat where "IR0_FUTEX_MAX_WAITERS \<equiv> 64"

partial_function (option) futex_block_loop ::
  "(futex_sys \<Rightarrow> futex_sys) \<Rightarrow> (futex_sys \<Rightarrow> futex_sys) \<Rightarrow> nat \<Rightarrow> futex_sys \<Rightarrow> futex_sys option" where
  "futex_block_loop sched idle p s =
     (if state (proc_at (futex_world s) p) \<noteq> PROCESS_BLOCKED then Some s
      else let s1 = sched s in
           if state (proc_at (futex_world s1) p) \<noteq> PROCESS_BLOCKED then Some s1
           else futex_block_loop sched idle p (idle s1))"

definition futex_enqueue :: "nat \<Rightarrow> nat \<Rightarrow> int \<Rightarrow> nat \<Rightarrow> futex_sys \<Rightarrow> futex_sys" where
  "futex_enqueue p u val i s =
     s\<lparr>futex_waiters := (futex_waiters s)[i := \<lparr>slot_proc = Some p, slot_uaddr = Some u, slot_val = val, slot_in_use = True\<rparr>],
       futex_world := process_set_sched_state (Some p) PROCESS_BLOCKED (futex_world s)\<rparr>"

definition ir0_futex_wait ::
  "(futex_sys \<Rightarrow> futex_sys) \<Rightarrow> (futex_sys \<Rightarrow> futex_sys) \<Rightarrow> nat option \<Rightarrow> nat option \<Rightarrow> int \<Rightarrow> futex_sys \<Rightarrow>
   (futex_sys \<times> (errno + int)) option" where
  "ir0_futex_wait sched idle proc uaddr val s =
     (case (proc, uaddr) of
        (Some p, Some u) \<Rightarrow>
          (case first_index (\<lambda>sl. \<not> slot_in_use sl) (futex_waiters s) of
             None \<Rightarrow> Some (s, Inl EAGAIN)
           | Some i \<Rightarrow>
               (case futex_block_loop sched idle p (futex_enqueue p u val i s) of
                  None \<Rightarrow> None
                | Some s1 \<Rightarrow>
                    if syscall_interrupted s1 p
                    then Some (s1\<lparr>syscall_interrupted := (syscall_interrupted s1)(p := False)\<rparr>, Inl EINTR)
                    else Some (s1, Inr 0)))
      | _ \<Rightarrow> Some (s, Inl EINVAL))"

text \<open>The wake loop: slots left, number woken so far, the processes.\<close>

fun futex_wake_loop :: "futex_slot list \<Rightarrow> nat \<Rightarrow> int \<Rightarrow> int \<Rightarrow> world \<Rightarrow> futex_slot list \<times> int \<times> world" where
  "futex_wake_loop [] u count woke w = ([], woke, w)"
| "futex_wake_loop (sl # sls) u count woke w =
     (if \<not> woke < count then (sl # sls, woke, w)
      else if \<not> slot_in_use sl \<or> slot_uaddr sl \<noteq> Some u then
        (let (sls', woke', w') = futex_wake_loop sls u count woke w in (sl # sls', woke', w'))
      else
        (let w1 = process_set_sched_state (slot_proc sl) PROCESS_READY w;
             (sls', woke', w') = futex_wake_loop sls u count (woke + 1) w1
         in (sl\<lparr>slot_in_use := False, slot_proc := None\<rparr> # sls', woke', w')))"

definition ir0_futex_wake :: "nat option \<Rightarrow> int \<Rightarrow> futex_sys \<Rightarrow> futex_sys \<times> int" where
  "ir0_futex_wake uaddr count s =
     (case uaddr of
        None \<Rightarrow> (s, 0)
      | Some u \<Rightarrow>
          if count \<le> 0 then (s, 0)
          else let (sls, woke, w) = futex_wake_loop (futex_waiters s) u count 0 (futex_world s)
               in (s\<lparr>futex_waiters := sls, futex_world := w\<rparr>, woke))"

definition ir0_futex_drop_process :: "nat option \<Rightarrow> futex_sys \<Rightarrow> futex_sys" where
  "ir0_futex_drop_process proc s =
     (case proc of
        None \<Rightarrow> s
      | Some p \<Rightarrow>
          s\<lparr>futex_waiters := map (\<lambda>sl. if slot_in_use sl \<and> slot_proc sl = Some p
                                       then sl\<lparr>slot_in_use := False, slot_proc := None\<rparr> else sl) (futex_waiters s)\<rparr>)"

section \<open>Waking\<close>

definition waits_on :: "nat \<Rightarrow> futex_slot \<Rightarrow> bool" where
  "waits_on u sl \<longleftrightarrow> slot_in_use sl \<and> slot_uaddr sl = Some u"

definition freed :: "futex_slot \<Rightarrow> futex_slot" where
  "freed sl = sl\<lparr>slot_in_use := False, slot_proc := None\<rparr>"

text \<open>The slots a wake of at most \<open>k\<close> waiters reaches: the first \<open>k\<close> that wait on the address.\<close>

definition woken :: "nat \<Rightarrow> nat \<Rightarrow> futex_slot list \<Rightarrow> nat \<Rightarrow> bool" where
  "woken u k tab i \<longleftrightarrow> i < length tab \<and> waits_on u (tab ! i) \<and> length (filter (waits_on u) (take i tab)) < k"

lemma woken_Cons:
  "woken u k (sl # sls) i \<longleftrightarrow>
     (case i of 0 \<Rightarrow> waits_on u sl \<and> 0 < k
      | Suc j \<Rightarrow> if waits_on u sl then 0 < k \<and> woken u (k - 1) sls j else woken u k sls j)"
  by (auto simp: woken_def split: nat.split)

lemma set_ready_world:
  "process_set_sched_state q PROCESS_READY w =
     w\<lparr>proc_at := (\<lambda>p. if q = Some p then set_state PROCESS_READY (proc_at w p) else proc_at w p)\<rparr>"
  by (cases w) (auto simp: process_set_sched_state_def fun_eq_iff split: option.split)

lemma set_ready_idem: "set_state PROCESS_READY (set_state PROCESS_READY p) = set_state PROCESS_READY p"
  by (cases p) (simp add: set_state_def Let_def)

lemma ex_nat_cases: "(\<exists>i::nat. P i) \<longleftrightarrow> P 0 \<or> (\<exists>j. P (Suc j))"
  by (metis not0_implies_Suc)

definition woken_slots :: "nat \<Rightarrow> nat \<Rightarrow> futex_slot list \<Rightarrow> futex_slot list" where
  "woken_slots u k tab = map (\<lambda>i. if woken u k tab i then freed (tab ! i) else tab ! i) [0..<length tab]"

definition woken_world :: "nat \<Rightarrow> nat \<Rightarrow> futex_slot list \<Rightarrow> world \<Rightarrow> world" where
  "woken_world u k tab w =
     w\<lparr>proc_at := (\<lambda>p. if \<exists>i. woken u k tab i \<and> slot_proc (tab ! i) = Some p
                      then set_state PROCESS_READY (proc_at w p) else proc_at w p)\<rparr>"

lemma woken_slots_Cons:
  "woken_slots u k (sl # sls) =
     (if waits_on u sl \<and> 0 < k then freed sl # woken_slots u (k - 1) sls else sl # woken_slots u k sls)"
proof -
  have idx: "map f [0..<length (sl # sls)] = f 0 # map (\<lambda>i. f (Suc i)) [0..<length sls]" for f :: "nat \<Rightarrow> futex_slot"
    by (simp add: upt_conv_Cons map_Suc_upt [symmetric] del: upt_Suc)
  show ?thesis unfolding woken_slots_def idx by (cases "k = 0") (auto simp: woken_Cons woken_def)
qed

lemma woken_world_Cons:
  "woken_world u k (sl # sls) w =
     (if waits_on u sl \<and> 0 < k then woken_world u (k - 1) sls (process_set_sched_state (slot_proc sl) PROCESS_READY w)
      else woken_world u k sls w)"
proof -
  have "(\<exists>i. woken u k (sl # sls) i \<and> slot_proc ((sl # sls) ! i) = Some p) \<longleftrightarrow>
     (if waits_on u sl \<and> 0 < k then slot_proc sl = Some p \<or> (\<exists>j. woken u (k - 1) sls j \<and> slot_proc (sls ! j) = Some p)
      else \<exists>j. woken u k sls j \<and> slot_proc (sls ! j) = Some p)" for p
    by (subst ex_nat_cases) (cases "k = 0"; auto simp: woken_Cons woken_def)
  then show ?thesis
    by (cases w) (auto simp: woken_world_def set_ready_world set_ready_idem fun_eq_iff)
qed

lemma wake_loop_spec:
  "futex_wake_loop tab u (woke + int k) woke w =
     (woken_slots u k tab, woke + int (min k (length (filter (waits_on u) tab))), woken_world u k tab w)"
proof (induction tab arbitrary: woke k w)
  case Nil
  then show ?case by (cases w) (simp add: woken_slots_def woken_world_def woken_def)
next
  case (Cons sl sls)
  show ?case
  proof (cases k)
    case 0
    have none: "\<not> woken u 0 xs i" for xs i by (simp add: woken_def)
    have "woken_slots u 0 xs = xs" for xs by (simp add: woken_slots_def none map_nth)
    moreover have "woken_world u 0 xs w = w" for xs by (cases w) (simp add: woken_world_def none)
    ultimately show ?thesis using 0 by simp
  next
    case (Suc j)
    show ?thesis
    proof (cases "waits_on u sl")
      case True
      have e: "woke + 1 + int j = woke + int k" using Suc by simp
      have m: "slot_in_use sl" "slot_uaddr sl = Some u" using True by (auto simp: waits_on_def)
      show ?thesis
        using True Suc m Cons.IH [of "woke + 1" j] unfolding e
        by (simp add: woken_slots_Cons woken_world_Cons freed_def)
    next
      case False
      then have "\<not> slot_in_use sl \<or> slot_uaddr sl \<noteq> Some u" by (auto simp: waits_on_def)
      then show ?thesis
        using Suc False Cons.IH [of woke k w] by (simp add: woken_slots_Cons woken_world_Cons)
    qed
  qed
qed

section \<open>Properties\<close>

text \<open>
  Wake. \<^verbatim>\<open>ir0_futex_wake\<close> on an address with a positive count frees exactly the
  first \<open>count\<close> slots waiting on that address (or all of them when there are fewer), makes
  exactly their processes READY, returns their number, and changes no other slot or process.
\<close>

theorem futex_wake_spec:
  assumes "0 < count"
  shows "ir0_futex_wake (Some u) count s =
     (s\<lparr>futex_waiters := woken_slots u (nat count) (futex_waiters s),
        futex_world := woken_world u (nat count) (futex_waiters s) (futex_world s)\<rparr>,
      min count (int (length (filter (waits_on u) (futex_waiters s)))))"
proof -
  have "int (min (nat count) n) = min count (int n)" for n using assms by auto
  with wake_loop_spec [of "futex_waiters s" u 0 "nat count" "futex_world s"] assms show ?thesis
    by (simp add: ir0_futex_wake_def)
qed

text \<open>
  Wait. With a free slot, \<^verbatim>\<open>ir0_futex_wait\<close> records the waiter in the first one
  and sleeps from a state in which the process is BLOCKED; if the scheduler, within its first
  turn, brings the process back runnable, the call returns in the state it left: 0, or
  \<^verbatim>\<open>EINTR\<close> with the flag cleared when the sleep was interrupted. A full table is
  \<^verbatim>\<open>EAGAIN\<close> and changes nothing.
\<close>

theorem futex_wait_spec:
  "(first_index (\<lambda>sl. \<not> slot_in_use sl) (futex_waiters s) = None \<longrightarrow>
      ir0_futex_wait sched idle (Some p) (Some u) val s = Some (s, Inl EAGAIN)) \<and>
   (\<forall>i. first_index (\<lambda>sl. \<not> slot_in_use sl) (futex_waiters s) = Some i \<and>
        state (proc_at (futex_world (sched (futex_enqueue p u val i s))) p) \<noteq> PROCESS_BLOCKED \<longrightarrow>
      waits_on u (futex_waiters (futex_enqueue p u val i s) ! i) \<and>
      slot_proc (futex_waiters (futex_enqueue p u val i s) ! i) = Some p \<and>
      state (proc_at (futex_world (futex_enqueue p u val i s)) p) = PROCESS_BLOCKED \<and>
      ir0_futex_wait sched idle (Some p) (Some u) val s =
        (let s1 = sched (futex_enqueue p u val i s) in
         if syscall_interrupted s1 p
         then Some (s1\<lparr>syscall_interrupted := (syscall_interrupted s1)(p := False)\<rparr>, Inl EINTR)
         else Some (s1, Inr 0)))"
proof (intro conjI impI allI)
  assume "first_index (\<lambda>sl. \<not> slot_in_use sl) (futex_waiters s) = None"
  then show "ir0_futex_wait sched idle (Some p) (Some u) val s = Some (s, Inl EAGAIN)"
    by (simp add: ir0_futex_wait_def)
next
  fix i
  let ?e = "futex_enqueue p u val i s"
  assume a: "first_index (\<lambda>sl. \<not> slot_in_use sl) (futex_waiters s) = Some i \<and>
        state (proc_at (futex_world (sched ?e)) p) \<noteq> PROCESS_BLOCKED"
  then have i: "i < length (futex_waiters s)" by (auto dest: first_index_bound)
  show "waits_on u (futex_waiters ?e ! i)" "slot_proc (futex_waiters ?e ! i) = Some p"
    using i by (simp_all add: futex_enqueue_def waits_on_def)
  show b: "state (proc_at (futex_world ?e) p) = PROCESS_BLOCKED"
    by (simp add: futex_enqueue_def state_after_set)
  have "futex_block_loop sched idle p ?e = Some (sched ?e)"
    using a b by (subst futex_block_loop.simps) (simp add: Let_def)
  with a show "ir0_futex_wait sched idle (Some p) (Some u) val s =
        (let s1 = sched ?e in
         if syscall_interrupted s1 p
         then Some (s1\<lparr>syscall_interrupted := (syscall_interrupted s1)(p := False)\<rparr>, Inl EINTR)
         else Some (s1, Inr 0))"
    by (simp add: ir0_futex_wait_def Let_def)
qed

definition futex_demo :: futex_sys where
  "futex_demo = \<lparr>futex_waiters = replicate 64 \<lparr>slot_proc = None, slot_uaddr = None, slot_val = 0, slot_in_use = False\<rparr>,
     futex_world = \<lparr>proc_at = (\<lambda>_. \<lparr>state = PROCESS_RUNNING, task_state = TASK_SCHED_RUNNING,
       lifecycle = PROCESS_LIFECYCLE_ALIVE, sched_prio = 4\<rparr>), current_process = Some 1, first_switch = False\<rparr>,
     syscall_interrupted = (\<lambda>_. False)\<rparr>"

lemma futex_wake_spec_witness:
  "snd (ir0_futex_wake (Some 4096) 3 (futex_enqueue 1 4096 0 0 futex_demo)) = 1"
proof -
  have r: "replicate 64 x = x # replicate 63 x" for x :: futex_slot by (simp add: numeral_eq_Suc)
  have "length (filter (waits_on 4096) (futex_waiters (futex_enqueue 1 4096 0 0 futex_demo))) = 1"
    by (simp add: futex_enqueue_def futex_demo_def r waits_on_def)
  with futex_wake_spec [of 3 4096 "futex_enqueue 1 4096 0 0 futex_demo"] show ?thesis by simp
qed

text \<open>Another process wakes process 1 while it sleeps.\<close>

definition waker :: "futex_sys \<Rightarrow> futex_sys" where
  "waker s = fst (ir0_futex_wake (Some 4096) 1 s)"

lemma futex_wait_spec_witness:
  "\<exists>s'. ir0_futex_wait waker id (Some 1) (Some 4096) 0 futex_demo = Some (s', Inr 0)"
proof -
  have r: "replicate 64 x = x # x # replicate 62 x" for x :: futex_slot by (simp add: numeral_eq_Suc)
  have fi: "first_index (\<lambda>sl. \<not> slot_in_use sl) (futex_waiters futex_demo) = Some 0" by (simp add: futex_demo_def r)
  have run: "state (proc_at (futex_world (waker (futex_enqueue 1 4096 0 0 futex_demo))) 1) \<noteq> PROCESS_BLOCKED"
    "\<not> syscall_interrupted (waker (futex_enqueue 1 4096 0 0 futex_demo)) 1"
    by (simp_all add: waker_def ir0_futex_wake_def futex_enqueue_def futex_demo_def r state_after_set)
  from futex_wait_spec [of futex_demo waker id 1 4096 0, THEN conjunct2, rule_format, of 0] fi run
  show ?thesis by (simp add: Let_def)
qed

end
