(* ===== verification/Fd_Objects.thy ===== *)
theory Fd_Objects
  imports Prelude
begin

text \<open>
  What \<^verbatim>\<open>eventfd.c\<close>, \<^verbatim>\<open>timerfd.c\<close> and \<^verbatim>\<open>memfd.c\<close> share: a static table of
  reference-counted objects recognised by address range, magic number and use flag, and the
  descriptor table of the calling process (\<^verbatim>\<open>includes/ir0/fd_types.h\<close>) into which a new
  object is installed. Objects carry a component-specific body. A pointer is an address; the
  table starts at \<open>base\<close> and its elements are \<open>esz\<close> bytes apart.
\<close>

section \<open>Objects\<close>

record 'a kobj =
  obj_magic :: u32
  obj_in_use :: bool
  obj_refs :: int
  obj_body :: 'a

text \<open>\<^verbatim>\<open>memset(e, 0, sizeof(*e))\<close>, for the body's zero value.\<close>

definition obj_zero :: "'a \<Rightarrow> 'a kobj" where
  "obj_zero z = \<lparr>obj_magic = 0, obj_in_use = False, obj_refs = 0, obj_body = z\<rparr>"

text \<open>The recognition test; on success the index of the object.\<close>

definition obj_is :: "u32 \<Rightarrow> nat \<Rightarrow> nat \<Rightarrow> 'a kobj list \<Rightarrow> nat \<Rightarrow> nat option" where
  "obj_is mg base esz tab p =
     (if p < base \<or> p \<ge> base + length tab * esz then None
      else if (p - base) mod esz \<noteq> 0 then None
      else let i = (p - base) div esz in
           if obj_magic (tab ! i) = mg \<and> obj_in_use (tab ! i) then Some i else None)"

definition obj_acquire :: "u32 \<Rightarrow> nat \<Rightarrow> nat \<Rightarrow> nat option \<Rightarrow> 'a kobj list \<Rightarrow> 'a kobj list" where
  "obj_acquire mg base esz e tab =
     (case Option.bind e (obj_is mg base esz tab) of
        None \<Rightarrow> tab
      | Some i \<Rightarrow> tab[i := (tab ! i)\<lparr>obj_refs := obj_refs (tab ! i) + 1\<rparr>])"

text \<open>
  Dropping a reference: the new table with the count lowered, and the index of the object when
  the last reference went (its owner then clears it).
\<close>

definition obj_drop :: "u32 \<Rightarrow> nat \<Rightarrow> nat \<Rightarrow> nat option \<Rightarrow> 'a kobj list \<Rightarrow> 'a kobj list \<times> nat option" where
  "obj_drop mg base esz e tab =
     (case Option.bind e (obj_is mg base esz tab) of
        None \<Rightarrow> (tab, None)
      | Some i \<Rightarrow>
          (let r = (if obj_refs (tab ! i) > 0 then obj_refs (tab ! i) - 1 else obj_refs (tab ! i));
               tab' = tab[i := (tab ! i)\<lparr>obj_refs := r\<rparr>]
           in (tab', if r = 0 then Some i else None)))"

definition obj_release :: "'a \<Rightarrow> u32 \<Rightarrow> nat \<Rightarrow> nat \<Rightarrow> nat option \<Rightarrow> 'a kobj list \<Rightarrow> 'a kobj list" where
  "obj_release z mg base esz e tab =
     (case obj_drop mg base esz e tab of
        (tab', None) \<Rightarrow> tab'
      | (tab', Some i) \<Rightarrow> tab'[i := obj_zero z])"

section \<open>Descriptors\<close>

record kobj_fd_entry =
  fd_in_use :: bool
  fd_path :: string
  fd_oflags :: u32
  fd_fd_flags :: u8
  fd_vfs_file :: "nat option"
  fd_offset :: u64
  is_pipe :: bool
  pipe_end :: int
  is_devfs :: bool
  dev_device_id :: u32
  is_socket :: bool
  is_pseudo :: bool
  is_epoll :: bool
  is_memfd :: bool
  is_eventfd :: bool
  is_timerfd :: bool

abbreviation MAX_FDS_PER_PROCESS :: nat where "MAX_FDS_PER_PROCESS \<equiv> 64"
abbreviation O_RDWR :: u32 where "O_RDWR \<equiv> 2"
abbreviation O_NONBLOCK :: u32 where "O_NONBLOCK \<equiv> 0x800"
abbreviation FD_CLOEXEC :: u8 where "FD_CLOEXEC \<equiv> 1"

definition fd_zero :: kobj_fd_entry where
  "fd_zero = \<lparr>fd_in_use = False, fd_path = '''', fd_oflags = 0, fd_fd_flags = 0, fd_vfs_file = None, fd_offset = 0,
     is_pipe = False, pipe_end = 0, is_devfs = False, dev_device_id = 0, is_socket = False, is_pseudo = False,
     is_epoll = False, is_memfd = False, is_eventfd = False, is_timerfd = False\<rparr>"

text \<open>\<^verbatim>\<open>for (fd = 3; fd < MAX_FDS_PER_PROCESS; fd++) if (!tab[fd].in_use) break;\<close>\<close>

definition fd_scan :: "kobj_fd_entry list \<Rightarrow> nat option" where
  "fd_scan tab = map_option (\<lambda>i. i + 3) (first_index (\<lambda>e. \<not> fd_in_use e) (drop 3 tab))"

text \<open>
  The state a call sees: the objects, the descriptor table of the current process (NULL as
  \<^verbatim>\<open>None\<close>), whether there is a current process, and the numbers of calls of
  \<^verbatim>\<open>fd_slot_note_created\<close> and \<^verbatim>\<open>poll_wake_check\<close>.
\<close>

record 'a fd_sys =
  objs :: "'a kobj list"
  fd_tab :: "kobj_fd_entry list option"
  has_current :: bool
  fds_created :: nat
  poll_wakes :: nat

section \<open>Shared facts\<close>

lemma fd_scan_Some:
  assumes "fd_scan tab = Some fd" "length tab = MAX_FDS_PER_PROCESS"
  shows "3 \<le> fd" "fd < MAX_FDS_PER_PROCESS" "\<not> fd_in_use (tab ! fd)" "3 \<le> k \<Longrightarrow> k < fd \<Longrightarrow> fd_in_use (tab ! k)"
proof -
  from assms(1) obtain i where i: "first_index (\<lambda>e. \<not> fd_in_use e) (drop 3 tab) = Some i" "fd = i + 3"
    by (auto simp: fd_scan_def)
  from first_index_SomeD [OF i(1)] have *: "i < length (drop 3 tab)" "\<not> fd_in_use (drop 3 tab ! i)"
    "\<forall>j < i. fd_in_use (drop 3 tab ! j)" by auto
  show "3 \<le> fd" "fd < MAX_FDS_PER_PROCESS" using * assms(2) i(2) by auto
  show "\<not> fd_in_use (tab ! fd)" using * i(2) by (simp add: nth_drop add.commute)
  show "3 \<le> k \<Longrightarrow> k < fd \<Longrightarrow> fd_in_use (tab ! k)"
    using *(3) i(2) * assms(2) by (auto simp: dest!: spec [of _ "k - 3"])
qed

lemma fd_scan_None:
  assumes "fd_scan tab = None" "3 \<le> k" "k < length tab"
  shows "fd_in_use (tab ! k)"
proof -
  have "first_index (\<lambda>e. \<not> fd_in_use e) (drop 3 tab) = None" using assms(1) by (simp add: fd_scan_def)
  from first_index_NoneD [OF this, of "k - 3"] assms(2,3) show ?thesis by simp
qed

text \<open>Every object in use has the component's magic number and a positive reference count.\<close>

definition objs_ok :: "u32 \<Rightarrow> 'a kobj list \<Rightarrow> bool" where
  "objs_ok mg tab \<longleftrightarrow> (\<forall>ob \<in> set tab. obj_in_use ob \<longrightarrow> obj_magic ob = mg \<and> 0 < obj_refs ob)"

lemma objs_ok_update: "objs_ok mg tab \<Longrightarrow> (obj_in_use ob \<Longrightarrow> obj_magic ob = mg \<and> 0 < obj_refs ob) \<Longrightarrow> objs_ok mg (tab[i := ob])"
  using set_update_subset_insert [of tab i ob] by (auto simp: objs_ok_def)

definition obj_count :: "'a kobj list \<Rightarrow> nat \<Rightarrow> int" where
  "obj_count tab i = (if i < length tab \<and> obj_in_use (tab ! i) then obj_refs (tab ! i) else 0)"

section \<open>The life cycle of an object\<close>

locale obj_table =
  fixes mg :: u32 and base esz :: nat
  assumes esz: "0 < esz"
begin

lemma is_iff:
  "obj_is mg base esz tab p = Some i \<longleftrightarrow>
   p = base + i * esz \<and> i < length tab \<and> obj_magic (tab ! i) = mg \<and> obj_in_use (tab ! i)"
proof
  assume "obj_is mg base esz tab p = Some i"
  then have a: "base \<le> p" "p < base + length tab * esz" "(p - base) mod esz = 0" "i = (p - base) div esz"
    "obj_magic (tab ! i) = mg" "obj_in_use (tab ! i)"
    by (auto simp: obj_is_def Let_def split: if_splits)
  then have "p - base = i * esz" using esz by (metis add.right_neutral div_mult_mod_eq)
  moreover from this a(1,2) have "i * esz < length tab * esz" by linarith
  ultimately show "p = base + i * esz \<and> i < length tab \<and> obj_magic (tab ! i) = mg \<and> obj_in_use (tab ! i)"
    using a by auto
next
  assume "p = base + i * esz \<and> i < length tab \<and> obj_magic (tab ! i) = mg \<and> obj_in_use (tab ! i)"
  with esz show "obj_is mg base esz tab p = Some i" by (simp add: obj_is_def)
qed

lemma is_live:
  "objs_ok mg tab \<Longrightarrow> i < length tab \<Longrightarrow> obj_in_use (tab ! i) \<Longrightarrow> obj_is mg base esz tab (base + i * esz) = Some i"
  unfolding is_iff objs_ok_def by auto

lemma acquire_ok:
  assumes "objs_ok mg tab"
  shows "objs_ok mg (obj_acquire mg base esz e tab)"
proof (cases "Option.bind e (obj_is mg base esz tab)")
  case (Some i)
  then obtain p where "obj_is mg base esz tab p = Some i" by (auto simp: bind_eq_Some_conv)
  then have "tab ! i \<in> set tab" "obj_in_use (tab ! i)" by (auto simp: is_iff)
  then have m: "obj_magic (tab ! i) = mg" "0 < obj_refs (tab ! i)" using assms by (auto simp: objs_ok_def)
  have "objs_ok mg (tab[i := (tab ! i)\<lparr>obj_refs := obj_refs (tab ! i) + 1\<rparr>])"
    by (rule objs_ok_update [OF assms]) (use m in simp)
  with Some show ?thesis by (simp add: obj_acquire_def)
qed (use assms in \<open>simp add: obj_acquire_def\<close>)

lemma acquire_count:
  "objs_ok mg tab \<Longrightarrow> i < length tab \<Longrightarrow> obj_in_use (tab ! i) \<Longrightarrow>
   obj_count (obj_acquire mg base esz (Some (base + i * esz)) tab) j = obj_count tab j + (if j = i then 1 else 0)"
  by (simp add: obj_acquire_def is_live obj_count_def nth_list_update_if)

lemma release_ok:
  assumes "objs_ok mg tab"
  shows "objs_ok mg (obj_release z mg base esz e tab)"
proof (cases "Option.bind e (obj_is mg base esz tab)")
  case (Some i)
  then obtain p where "obj_is mg base esz tab p = Some i" by (auto simp: bind_eq_Some_conv)
  then have i: "i < length tab" "obj_in_use (tab ! i)" by (auto simp: is_iff)
  then have m: "obj_magic (tab ! i) = mg" "0 < obj_refs (tab ! i)" using assms by (auto simp: objs_ok_def)
  have "objs_ok mg (tab[i := obj_zero z])" by (rule objs_ok_update [OF assms]) (simp add: obj_zero_def)
  moreover have "objs_ok mg (tab[i := (tab ! i)\<lparr>obj_refs := obj_refs (tab ! i) - 1\<rparr>])" if "obj_refs (tab ! i) \<noteq> 1"
    by (rule objs_ok_update [OF assms]) (use m that in simp)
  ultimately show ?thesis using Some m(2) by (simp add: obj_release_def obj_drop_def Let_def)
qed (use assms in \<open>simp add: obj_release_def obj_drop_def\<close>)

text \<open>Releasing a live object lowers its count; the last release takes it out of use.\<close>

lemma release_count:
  assumes "objs_ok mg tab" "i < length tab" "obj_in_use (tab ! i)"
  shows "obj_count (obj_release z mg base esz (Some (base + i * esz)) tab) j = obj_count tab j - (if j = i then 1 else 0)"
    "obj_in_use (obj_release z mg base esz (Some (base + i * esz)) tab ! i) \<longleftrightarrow> 1 < obj_refs (tab ! i)"
proof -
  have m: "0 < obj_refs (tab ! i)" using assms by (auto simp: objs_ok_def)
  have "obj_release z mg base esz (Some (base + i * esz)) tab =
      (if obj_refs (tab ! i) = 1 then tab[i := obj_zero z] else tab[i := (tab ! i)\<lparr>obj_refs := obj_refs (tab ! i) - 1\<rparr>])"
    using m by (auto simp: obj_release_def obj_drop_def is_live [OF assms] Let_def)
  with m assms(2,3)
  show "obj_count (obj_release z mg base esz (Some (base + i * esz)) tab) j = obj_count tab j - (if j = i then 1 else 0)"
    "obj_in_use (obj_release z mg base esz (Some (base + i * esz)) tab ! i) \<longleftrightarrow> 1 < obj_refs (tab ! i)"
    by (auto simp: obj_count_def obj_zero_def nth_list_update_if)
qed

text \<open>A pointer that is not a live object of the table changes nothing.\<close>

lemma stray_pointer:
  "obj_is mg base esz tab p = None \<Longrightarrow> obj_acquire mg base esz (Some p) tab = tab \<and> obj_release z mg base esz (Some p) tab = tab"
  by (simp add: obj_acquire_def obj_release_def obj_drop_def)

lemma objs_ok_zero: "objs_ok mg (replicate n (obj_zero z))"
  by (simp add: objs_ok_def obj_zero_def)

end

end
