(* ===== verification/Eventfd.thy ===== *)
theory Eventfd
  imports Fd_Objects
begin

text \<open>
  The eventfd counter (\<^verbatim>\<open>kernel/eventfd.c\<close>): a table of 32 counters of 64 bits. User
  memory is a parameter: a write takes what \<^verbatim>\<open>copy_from_user\<close> yields (None for a fault),
  a read whether \<^verbatim>\<open>copy_to_user\<close> succeeds. \<open>base\<close> is the address of \<^verbatim>\<open>g_efd\<close>.
\<close>

section \<open>Operations\<close>

type_synonym efd_sys = "u64 fd_sys"

abbreviation EFD_MAX :: nat where "EFD_MAX \<equiv> 32"
abbreviation EFD_MAGIC :: u32 where "EFD_MAGIC \<equiv> 0x45464421"
abbreviation EFD_SIZE :: nat where "EFD_SIZE \<equiv> 24"
abbreviation IR0_EFD_CLOEXEC :: u32 where "IR0_EFD_CLOEXEC \<equiv> 0x80000"
abbreviation IR0_EFD_NONBLOCK :: u32 where "IR0_EFD_NONBLOCK \<equiv> 0x800"
abbreviation UINT64_MAX :: u64 where "UINT64_MAX \<equiv> - 1"

definition ir0_eventfd_is :: "nat \<Rightarrow> u64 kobj list \<Rightarrow> nat option \<Rightarrow> nat option" where
  "ir0_eventfd_is base tab e = Option.bind e (obj_is EFD_MAGIC base EFD_SIZE tab)"

definition ir0_eventfd_acquire :: "nat \<Rightarrow> nat option \<Rightarrow> efd_sys \<Rightarrow> efd_sys" where
  "ir0_eventfd_acquire base e s = s\<lparr>objs := obj_acquire EFD_MAGIC base EFD_SIZE e (objs s)\<rparr>"

definition ir0_eventfd_release :: "nat \<Rightarrow> nat option \<Rightarrow> efd_sys \<Rightarrow> efd_sys" where
  "ir0_eventfd_release base e s = s\<lparr>objs := obj_release 0 EFD_MAGIC base EFD_SIZE e (objs s)\<rparr>"

definition ir0_eventfd_poll_readable :: "nat \<Rightarrow> efd_sys \<Rightarrow> nat option \<Rightarrow> bool" where
  "ir0_eventfd_poll_readable base s e =
     (case ir0_eventfd_is base (objs s) e of None \<Rightarrow> False | Some i \<Rightarrow> 0 < obj_body (objs s ! i))"

definition ir0_eventfd_poll_writable :: "nat \<Rightarrow> efd_sys \<Rightarrow> nat option \<Rightarrow> bool" where
  "ir0_eventfd_poll_writable base s e =
     (case ir0_eventfd_is base (objs s) e of None \<Rightarrow> False | Some i \<Rightarrow> obj_body (objs s ! i) \<noteq> UINT64_MAX)"

definition set_count :: "nat \<Rightarrow> u64 \<Rightarrow> efd_sys \<Rightarrow> efd_sys" where
  "set_count i v s = s\<lparr>objs := (objs s)[i := (objs s ! i)\<lparr>obj_body := v\<rparr>]\<rparr>"

text \<open>The result of a read is the errno, or the value copied to the caller.\<close>

definition ir0_eventfd_read ::
  "nat \<Rightarrow> nat option \<Rightarrow> bool \<Rightarrow> bool \<Rightarrow> nat \<Rightarrow> efd_sys \<Rightarrow> efd_sys \<times> (errno + u64)" where
  "ir0_eventfd_read base e buf_given copy_ok count s =
     (case ir0_eventfd_is base (objs s) e of
        None \<Rightarrow> (s, Inl EINVAL)
      | Some i \<Rightarrow>
          if \<not> buf_given then (s, Inl EINVAL)
          else if count < 8 then (s, Inl EINVAL)
          else if obj_body (objs s ! i) = 0 then (s, Inl EAGAIN)
          else let v = obj_body (objs s ! i);
                   s1 = set_count i 0 s;
                   s2 = s1\<lparr>poll_wakes := poll_wakes s1 + 1\<rparr>
               in if \<not> copy_ok then (s2, Inl EFAULT) else (s2, Inr v))"

definition ir0_eventfd_write ::
  "nat \<Rightarrow> nat option \<Rightarrow> bool \<Rightarrow> u64 option \<Rightarrow> nat \<Rightarrow> efd_sys \<Rightarrow> efd_sys \<times> (errno + nat)" where
  "ir0_eventfd_write base e buf_given ubuf count s =
     (case ir0_eventfd_is base (objs s) e of
        None \<Rightarrow> (s, Inl EINVAL)
      | Some i \<Rightarrow>
          if \<not> buf_given then (s, Inl EINVAL)
          else if count < 8 then (s, Inl EINVAL)
          else (case ubuf of
                  None \<Rightarrow> (s, Inl EFAULT)
                | Some add \<Rightarrow>
                    if add = UINT64_MAX then (s, Inl EINVAL)
                    else if obj_body (objs s ! i) > UINT64_MAX - add then (s, Inl EAGAIN)
                    else let s1 = set_count i (obj_body (objs s ! i) + add) s
                         in (s1\<lparr>poll_wakes := poll_wakes s1 + 1\<rparr>, Inr 8)))"

definition efd_entry :: "nat \<Rightarrow> u32 \<Rightarrow> kobj_fd_entry" where
  "efd_entry ptr flags =
     fd_zero\<lparr>fd_in_use := True, is_eventfd := True, fd_vfs_file := Some ptr,
       fd_oflags := (if flags AND IR0_EFD_NONBLOCK \<noteq> 0 then O_RDWR OR O_NONBLOCK else O_RDWR),
       fd_fd_flags := (if flags AND IR0_EFD_CLOEXEC \<noteq> 0 then FD_CLOEXEC else 0)\<rparr>"

definition sys_eventfd2 :: "nat \<Rightarrow> u32 \<Rightarrow> u32 \<Rightarrow> efd_sys \<Rightarrow> efd_sys \<times> (errno + nat)" where
  "sys_eventfd2 base count flags s =
     (if \<not> has_current s then (s, Inl ESRCH)
      else if flags AND NOT (IR0_EFD_CLOEXEC OR IR0_EFD_NONBLOCK) \<noteq> 0 then (s, Inl EINVAL)
      else (case first_index (\<lambda>ob. \<not> obj_in_use ob) (objs s) of
              None \<Rightarrow> (s, Inl ENOMEM)
            | Some i \<Rightarrow>
                (let s1 = s\<lparr>objs := (objs s)[i := \<lparr>obj_magic = EFD_MAGIC, obj_in_use = True, obj_refs = 1, obj_body = ucast count\<rparr>]\<rparr>;
                     undo = s1\<lparr>objs := (objs s1)[i := obj_zero 0]\<rparr> in
                 case fd_tab s1 of
                   None \<Rightarrow> (undo, Inl ESRCH)
                 | Some tab \<Rightarrow>
                     (case fd_scan tab of
                        None \<Rightarrow> (undo, Inl EMFILE)
                      | Some fd \<Rightarrow>
                          (s1\<lparr>fd_tab := Some (tab[fd := efd_entry (base + i * EFD_SIZE) flags]),
                              fds_created := fds_created s1 + 1\<rparr>, Inr fd)))))"

section \<open>The counter\<close>

interpretation efd: obj_table EFD_MAGIC base EFD_SIZE for base :: nat
  by unfold_locales simp

lemma eventfd_is_live:
  "objs_ok EFD_MAGIC (objs s) \<Longrightarrow> i < length (objs s) \<Longrightarrow> obj_in_use (objs s ! i) \<Longrightarrow>
   ir0_eventfd_is base (objs s) (Some (base + i * EFD_SIZE)) = Some i"
  by (simp add: ir0_eventfd_is_def efd.is_live)

lemma no_overflow: "\<not> (c :: u64) > UINT64_MAX - add \<Longrightarrow> unat (c + add) = unat c + unat add"
proof -
  assume "\<not> c > UINT64_MAX - add"
  then have le: "unat c \<le> unat (UINT64_MAX - add)" by (simp add: word_le_nat_alt linorder_not_less)
  have "unat (UINT64_MAX - add) = unat UINT64_MAX - unat add" by (rule unat_sub) simp
  moreover have "unat UINT64_MAX = 2 ^ 64 - 1" by (simp add: unsigned_minus_1_eq_mask mask_eq_exp_minus_1)
  moreover have "unat add < 2 ^ 64" using unsigned_less [of add] by simp
  ultimately have "unat c + unat add < 2 ^ 64" using le by linarith
  then show ?thesis by (simp add: unat_word_ariths)
qed

datatype efd_op = EfdRead | EfdWrite u64

text \<open>One call by a process with a valid buffer: the state, the value written, the value read.\<close>

fun efd_step :: "nat \<Rightarrow> nat \<Rightarrow> efd_op \<Rightarrow> efd_sys \<Rightarrow> efd_sys \<times> nat \<times> nat" where
  "efd_step base p EfdRead s =
     (let (s1, r) = ir0_eventfd_read base (Some p) True True 8 s
      in (s1, 0, case r of Inr v \<Rightarrow> unat v | Inl _ \<Rightarrow> 0))"
| "efd_step base p (EfdWrite v) s =
     (let (s1, r) = ir0_eventfd_write base (Some p) True (Some v) 8 s
      in (s1, case r of Inr _ \<Rightarrow> unat v | Inl _ \<Rightarrow> 0, 0))"

fun efd_run :: "nat \<Rightarrow> nat \<Rightarrow> efd_op list \<Rightarrow> efd_sys \<Rightarrow> efd_sys \<times> nat \<times> nat" where
  "efd_run base p [] s = (s, 0, 0)"
| "efd_run base p (c # cs) s =
     (let (s1, i, j) = efd_step base p c s; (s2, ins, outs) = efd_run base p cs s1 in (s2, i + ins, j + outs))"

definition efd_live :: "nat \<Rightarrow> efd_sys \<Rightarrow> bool" where
  "efd_live i s \<longleftrightarrow> objs_ok EFD_MAGIC (objs s) \<and> i < length (objs s) \<and> obj_in_use (objs s ! i)"

lemma set_count_live:
  assumes "efd_live i s"
  shows "efd_live i (set_count i v s)" "obj_body (objs (set_count i v s) ! i) = v"
proof -
  have "tab ! i \<in> set tab" if "tab = objs s" for tab using assms that by (simp add: efd_live_def)
  then have "obj_magic (objs s ! i) = EFD_MAGIC \<and> 0 < obj_refs (objs s ! i)"
    using assms by (auto simp: efd_live_def objs_ok_def)
  with assms show "efd_live i (set_count i v s)"
    by (simp add: efd_live_def set_count_def objs_ok_update)
  show "obj_body (objs (set_count i v s) ! i) = v" using assms by (simp add: efd_live_def set_count_def)
qed

lemma efd_live_wakes [simp]: "efd_live i (s\<lparr>poll_wakes := n\<rparr>) = efd_live i s"
  by (simp add: efd_live_def)

lemma efd_step_conserves:
  assumes "efd_live i s" "efd_step base (base + i * EFD_SIZE) c s = (s', a, b)"
  shows "efd_live i s' \<and> unat (obj_body (objs s ! i)) + a = unat (obj_body (objs s' ! i)) + b"
proof -
  have ix: "ir0_eventfd_is base (objs s) (Some (base + i * EFD_SIZE)) = Some i"
    by (rule eventfd_is_live) (use assms(1) in \<open>simp_all add: efd_live_def\<close>)
  show ?thesis
  proof (cases c)
    case EfdRead
    with assms ix set_count_live [OF assms(1), of 0] show ?thesis
      by (auto simp: ir0_eventfd_read_def Let_def split: if_splits)
  next
    case (EfdWrite v)
    let ?c = "obj_body (objs s ! i)"
    show ?thesis
    proof (cases "v = UINT64_MAX \<or> ?c > UINT64_MAX - v")
      case True
      with assms ix EfdWrite show ?thesis by (auto simp: ir0_eventfd_write_def Let_def split: if_splits)
    next
      case False
      with assms ix EfdWrite set_count_live [OF assms(1), of "?c + v"] no_overflow [of v ?c] show ?thesis
        by (auto simp: ir0_eventfd_write_def Let_def)
    qed
  qed
qed

section \<open>Properties\<close>

text \<open>
  The counter conserves events. Through every sequence of reads and writes on a live
  eventfd, the counter never wraps: its value before plus everything successfully written equals
  its value after plus everything read.
\<close>

theorem eventfd_conservation:
  assumes "efd_live i s" "efd_run base (base + i * EFD_SIZE) cs s = (s', ins, outs)"
  shows "efd_live i s' \<and> unat (obj_body (objs s ! i)) + ins = unat (obj_body (objs s' ! i)) + outs"
  using assms
proof (induction cs arbitrary: s s' ins outs)
  case (Cons c cs)
  obtain s1 a b where 1: "efd_step base (base + i * EFD_SIZE) c s = (s1, a, b)" by (metis prod_cases3)
  obtain t j k where 2: "efd_run base (base + i * EFD_SIZE) cs s1 = (t, j, k)" by (metis prod_cases3)
  note step = efd_step_conserves [OF Cons.prems(1) 1]
  with Cons.IH [OF _ 2] have "efd_live i t \<and> unat (obj_body (objs s1 ! i)) + j = unat (obj_body (objs t ! i)) + k" by blast
  moreover have "s' = t" "ins = a + j" "outs = b + k" using Cons.prems(2) 1 2 by auto
  ultimately show ?case using step by auto
qed simp

text \<open>
  C30: Reads, writes and readiness. On a live eventfd with a valid buffer of at least 8 bytes:
  polling reports it readable exactly when a read returns a value (the whole counter, which is
  then 0) rather than \<^verbatim>\<open>EAGAIN\<close>, and writable exactly when writing 1 succeeds; the
  all-ones value is refused as \<^verbatim>\<open>EINVAL\<close>.
\<close>

theorem eventfd_poll_agrees:
  assumes "efd_live i s" "p = base + i * EFD_SIZE" "8 \<le> n"
  shows "(ir0_eventfd_poll_readable base s (Some p) \<longleftrightarrow>
            snd (ir0_eventfd_read base (Some p) True True n s) = Inr (obj_body (objs s ! i))) \<and>
         (\<not> ir0_eventfd_poll_readable base s (Some p) \<longleftrightarrow>
            ir0_eventfd_read base (Some p) True True n s = (s, Inl EAGAIN)) \<and>
         (ir0_eventfd_poll_writable base s (Some p) \<longleftrightarrow>
            snd (ir0_eventfd_write base (Some p) True (Some 1) n s) = Inr 8) \<and>
         ir0_eventfd_write base (Some p) True (Some UINT64_MAX) n s = (s, Inl EINVAL)"
proof -
  have ix: "ir0_eventfd_is base (objs s) (Some p) = Some i"
    unfolding assms(2) by (rule eventfd_is_live) (use assms(1) in \<open>simp_all add: efd_live_def\<close>)
  let ?c = "obj_body (objs s ! i)"
  have pos: "0 < ?c \<longleftrightarrow> ?c \<noteq> 0" by (simp add: word_gt_0)
  have max: "?c > UINT64_MAX - 1 \<longleftrightarrow> ?c = UINT64_MAX"
  proof -
    have "?c > UINT64_MAX - 1 \<longleftrightarrow> unat ?c > 2 ^ 64 - 2" by (simp add: word_less_nat_alt unat_sub unsigned_minus_1_eq_mask mask_eq_exp_minus_1)
    also have "\<dots> \<longleftrightarrow> unat ?c = unat UINT64_MAX" using unsigned_less [of ?c, where ?'a = nat] by (auto simp: unsigned_minus_1_eq_mask mask_eq_exp_minus_1)
    finally show ?thesis by (simp add: word_unat_eq_iff)
  qed
  show ?thesis
    using ix assms(3) pos max
    by (auto simp: ir0_eventfd_poll_readable_def ir0_eventfd_poll_writable_def ir0_eventfd_read_def
        ir0_eventfd_write_def Let_def)
qed

text \<open>
  Creating an eventfd. \<^verbatim>\<open>sys_eventfd2\<close> either fails and leaves every descriptor
  and every object in use as it was, or installs the lowest free descriptor from 3 up, bound to
  a new object with one reference and the requested count, and changes no other descriptor; the
  object table stays well formed.
\<close>

theorem eventfd2_spec:
  assumes "objs_ok EFD_MAGIC (objs s)" "fd_tab s = Some tab" "length tab = MAX_FDS_PER_PROCESS"
  shows "case sys_eventfd2 base count flags s of
      (s', Inl e) \<Rightarrow> fd_tab s' = fd_tab s \<and> (\<forall>k. obj_in_use (objs s ! k) \<longrightarrow> objs s' ! k = objs s ! k) \<and>
                     objs_ok EFD_MAGIC (objs s')
    | (s', Inr fd) \<Rightarrow>
        3 \<le> fd \<and> fd < MAX_FDS_PER_PROCESS \<and> \<not> fd_in_use (tab ! fd) \<and> (\<forall>k. 3 \<le> k \<and> k < fd \<longrightarrow> fd_in_use (tab ! k)) \<and>
        (\<exists>tab' i. fd_tab s' = Some tab' \<and> (\<forall>k. k \<noteq> fd \<longrightarrow> tab' ! k = tab ! k) \<and>
           fd_in_use (tab' ! fd) \<and> is_eventfd (tab' ! fd) \<and> fd_vfs_file (tab' ! fd) = Some (base + i * EFD_SIZE) \<and>
           ir0_eventfd_is base (objs s') (Some (base + i * EFD_SIZE)) = Some i \<and> \<not> obj_in_use (objs s ! i) \<and>
           obj_refs (objs s' ! i) = 1 \<and> obj_body (objs s' ! i) = ucast count \<and> efd_live i s')"
proof -
  let ?bad = "flags AND NOT (IR0_EFD_CLOEXEC OR IR0_EFD_NONBLOCK) \<noteq> 0"
  show ?thesis
  proof (cases "has_current s \<and> \<not> ?bad \<and> first_index (\<lambda>ob. \<not> obj_in_use ob) (objs s) \<noteq> None")
    case False
    then have "sys_eventfd2 base count flags s =
        (s, Inl (if \<not> has_current s then ESRCH else if ?bad then EINVAL else ENOMEM))"
      unfolding sys_eventfd2_def by (simp only: split: if_splits) (auto)
    with assms(1) show ?thesis by simp
  next
    case True
    then obtain i where i: "first_index (\<lambda>ob. \<not> obj_in_use ob) (objs s) = Some i" by blast
    then have il: "i < length (objs s)" "\<not> obj_in_use (objs s ! i)"
      by (auto dest: first_index_bound first_index_holds)
    let ?new = "\<lparr>obj_magic = EFD_MAGIC, obj_in_use = True, obj_refs = 1, obj_body = ucast count\<rparr>"
    have ok1: "objs_ok EFD_MAGIC ((objs s)[i := ?new])" by (rule objs_ok_update [OF assms(1)]) simp
    have ok0: "objs_ok EFD_MAGIC ((objs s)[i := ?new, i := obj_zero 0])"
      by (rule objs_ok_update [OF ok1]) (simp add: obj_zero_def)
    have keep: "(objs s)[i := x] ! k = objs s ! k" if "obj_in_use (objs s ! k)" for k x
      using that il by (cases "k = i") auto
    show ?thesis
    proof (cases "fd_scan tab")
      case None
      with True i assms(2) have "sys_eventfd2 base count flags s = (s\<lparr>objs := (objs s)[i := ?new, i := obj_zero 0]\<rparr>, Inl EMFILE)"
        by (simp add: sys_eventfd2_def Let_def)
      with ok0 keep show ?thesis by simp
    next
      case (Some fd)
      note sc = fd_scan_Some [OF Some assms(3)]
      let ?s' = "s\<lparr>objs := (objs s)[i := ?new], fd_tab := Some (tab[fd := efd_entry (base + i * EFD_SIZE) flags]),
                    fds_created := fds_created s + 1\<rparr>"
      have r: "sys_eventfd2 base count flags s = (?s', Inr fd)"
        using True i assms(2) Some by (simp add: sys_eventfd2_def Let_def)
      have live: "efd_live i ?s'" using ok1 il by (simp add: efd_live_def)
      have ix: "ir0_eventfd_is base (objs ?s') (Some (base + i * EFD_SIZE)) = Some i"
        by (rule eventfd_is_live) (use live in \<open>simp_all add: efd_live_def\<close>)
      have "(\<exists>tab' i. fd_tab ?s' = Some tab' \<and> (\<forall>k. k \<noteq> fd \<longrightarrow> tab' ! k = tab ! k) \<and>
           fd_in_use (tab' ! fd) \<and> is_eventfd (tab' ! fd) \<and> fd_vfs_file (tab' ! fd) = Some (base + i * EFD_SIZE) \<and>
           ir0_eventfd_is base (objs ?s') (Some (base + i * EFD_SIZE)) = Some i \<and> \<not> obj_in_use (objs s ! i) \<and>
           obj_refs (objs ?s' ! i) = 1 \<and> obj_body (objs ?s' ! i) = ucast count \<and> efd_live i ?s')"
        using ix live il sc(2) assms(3)
        by (intro exI [of _ "tab[fd := efd_entry (base + i * EFD_SIZE) flags]"] exI [of _ i]) (simp add: efd_entry_def fd_zero_def)
      with sc show ?thesis unfolding r by simp
    qed
  qed
qed

section \<open>Witnesses\<close>

definition efd_demo :: efd_sys where
  "efd_demo = \<lparr>objs = [\<lparr>obj_magic = EFD_MAGIC, obj_in_use = True, obj_refs = 1, obj_body = 5\<rparr>, obj_zero 0],
     fd_tab = Some (replicate 64 fd_zero), has_current = True, fds_created = 0, poll_wakes = 0\<rparr>"

lemma efd_demo_live: "efd_live 0 efd_demo" "objs_ok EFD_MAGIC (objs efd_demo)"
  by (simp_all add: efd_live_def efd_demo_def objs_ok_def obj_zero_def)

lemma eventfd_conservation_witness:
  "\<exists>s' ins outs. efd_run 4096 4096 [EfdWrite 3, EfdRead] efd_demo = (s', ins, outs) \<and>
     5 + ins = unat (obj_body (objs s' ! 0)) + outs"
proof -
  obtain s' ins outs where r: "efd_run 4096 (4096 + 0 * EFD_SIZE) [EfdWrite 3, EfdRead] efd_demo = (s', ins, outs)"
    by (metis prod_cases3)
  have "unat (obj_body (objs efd_demo ! 0)) = 5" by (simp add: efd_demo_def)
  with eventfd_conservation [OF efd_demo_live(1) r] r show ?thesis
    by (intro exI [of _ s'] exI [of _ ins] exI [of _ outs]) simp
qed

lemma eventfd_poll_agrees_witness:
  "snd (ir0_eventfd_read 4096 (Some 4096) True True 8 efd_demo) = Inr 5"
proof -
  have "ir0_eventfd_poll_readable 4096 efd_demo (Some 4096)"
    using eventfd_is_live [of efd_demo 0 4096] efd_demo_live
    by (simp add: ir0_eventfd_poll_readable_def efd_live_def) (simp add: efd_demo_def)
  with eventfd_poll_agrees [OF efd_demo_live(1), of 4096 4096 8] show ?thesis by (simp add: efd_demo_def)
qed

lemma eventfd2_spec_witness: "\<exists>s' e. sys_eventfd2 4096 7 0 efd_demo = (s', e) \<and> objs_ok EFD_MAGIC (objs s')"
proof -
  obtain s' e where r: "sys_eventfd2 4096 7 0 efd_demo = (s', e)" by fastforce
  from eventfd2_spec [OF efd_demo_live(2), of "replicate 64 fd_zero" 4096 7 0] r show ?thesis
    by (cases e) (auto simp: efd_demo_def efd_live_def)
qed

end
