(* ===== verification/Timerfd.thy ===== *)
theory Timerfd
  imports Fd_Objects
begin

text \<open>
  Timer descriptors on the monotonic clock (\<^verbatim>\<open>kernel/timerfd.c\<close>): a table of 16 timers
  with an expiry time, an interval and a tick count, all 64-bit milliseconds with C's wrap-around
  (\<open>add64\<close>). The clock is a parameter: \<open>clk k\<close> is its \<open>k\<close>-th reading in a call. The catch-up
  loop of the tick may not end for times near the end of the 64-bit range, so the operations
  return an option.
\<close>

section \<open>Operations\<close>

record tfd =
  expire_ms :: nat
  interval_ms :: nat
  ticks :: nat

type_synonym tfd_sys = "tfd fd_sys"

abbreviation TFD_MAX :: nat where "TFD_MAX \<equiv> 16"
abbreviation TFD_MAGIC :: u32 where "TFD_MAGIC \<equiv> 0x54464421"
abbreviation TFD_SIZE :: nat where "TFD_SIZE \<equiv> 40"
abbreviation IR0_CLOCK_MONOTONIC :: int where "IR0_CLOCK_MONOTONIC \<equiv> 1"
abbreviation IR0_TFD_CLOEXEC :: u32 where "IR0_TFD_CLOEXEC \<equiv> 0x80000"
abbreviation IR0_TFD_NONBLOCK :: u32 where "IR0_TFD_NONBLOCK \<equiv> 0x800"

definition tfd_zero :: tfd where
  "tfd_zero = \<lparr>expire_ms = 0, interval_ms = 0, ticks = 0\<rparr>"

partial_function (option) tick_loop :: "nat \<Rightarrow> tfd \<Rightarrow> tfd option" where
  "tick_loop now t =
     (if expire_ms t \<noteq> 0 \<and> expire_ms t \<le> now then
        (let t1 = t\<lparr>ticks := add64 (ticks t) 1\<rparr> in
         if interval_ms t1 = 0 then Some (t1\<lparr>expire_ms := 0\<rparr>)
         else let t2 = t1\<lparr>expire_ms := add64 (expire_ms t1) (interval_ms t1)\<rparr> in
              if expire_ms t2 \<le> now \<and> 0 < interval_ms t2 then tick_loop now t2 else Some t2)
      else Some t)"

text \<open>\<^verbatim>\<open>timerfd_tick\<close> on object \<open>i\<close>; polls are woken when a tick is outstanding.\<close>

definition set_tfd :: "nat \<Rightarrow> tfd \<Rightarrow> tfd_sys \<Rightarrow> tfd_sys" where
  "set_tfd i t s = s\<lparr>objs := (objs s)[i := (objs s ! i)\<lparr>obj_body := t\<rparr>]\<rparr>"

definition timerfd_tick :: "nat \<Rightarrow> nat \<Rightarrow> tfd_sys \<Rightarrow> tfd_sys option" where
  "timerfd_tick now i s =
     (let t = obj_body (objs s ! i) in
      if \<not> obj_in_use (objs s ! i) \<or> expire_ms t = 0 then Some s
      else case tick_loop now t of
             None \<Rightarrow> None
           | Some t' \<Rightarrow> (let s1 = set_tfd i t' s in
                          Some (if ticks t' \<noteq> 0 then s1\<lparr>poll_wakes := poll_wakes s1 + 1\<rparr> else s1)))"

definition ir0_timerfd_is :: "nat \<Rightarrow> tfd kobj list \<Rightarrow> nat option \<Rightarrow> nat option" where
  "ir0_timerfd_is base tab t = Option.bind t (obj_is TFD_MAGIC base TFD_SIZE tab)"

definition ir0_timerfd_acquire :: "nat \<Rightarrow> nat option \<Rightarrow> tfd_sys \<Rightarrow> tfd_sys" where
  "ir0_timerfd_acquire base t s = s\<lparr>objs := obj_acquire TFD_MAGIC base TFD_SIZE t (objs s)\<rparr>"

definition ir0_timerfd_release :: "nat \<Rightarrow> nat option \<Rightarrow> tfd_sys \<Rightarrow> tfd_sys" where
  "ir0_timerfd_release base t s = s\<lparr>objs := obj_release tfd_zero TFD_MAGIC base TFD_SIZE t (objs s)\<rparr>"

definition ir0_timerfd_poll_readable :: "nat \<Rightarrow> nat \<Rightarrow> nat option \<Rightarrow> tfd_sys \<Rightarrow> (tfd_sys \<times> bool) option" where
  "ir0_timerfd_poll_readable base now t s =
     (case ir0_timerfd_is base (objs s) t of
        None \<Rightarrow> Some (s, False)
      | Some i \<Rightarrow> (case timerfd_tick now i s of
                     None \<Rightarrow> None
                   | Some s1 \<Rightarrow> Some (s1, 0 < ticks (obj_body (objs s1 ! i)))))"

definition ir0_timerfd_read ::
  "nat \<Rightarrow> nat \<Rightarrow> nat option \<Rightarrow> bool \<Rightarrow> bool \<Rightarrow> nat \<Rightarrow> tfd_sys \<Rightarrow> (tfd_sys \<times> (errno + nat)) option" where
  "ir0_timerfd_read base now t buf_given copy_ok count s =
     (case ir0_timerfd_is base (objs s) t of
        None \<Rightarrow> Some (s, Inl EINVAL)
      | Some i \<Rightarrow>
          if \<not> buf_given then Some (s, Inl EINVAL)
          else if count < 8 then Some (s, Inl EINVAL)
          else (case timerfd_tick now i s of
                  None \<Rightarrow> None
                | Some s1 \<Rightarrow>
                    (let v = ticks (obj_body (objs s1 ! i)) in
                     if v = 0 then Some (s1, Inl EAGAIN)
                     else let s2 = set_tfd i ((obj_body (objs s1 ! i))\<lparr>ticks := 0\<rparr>) s1 in
                          if \<not> copy_ok then Some (s2, Inl EFAULT) else Some (s2, Inr v))))"

definition tfd_entry :: "nat \<Rightarrow> u32 \<Rightarrow> kobj_fd_entry" where
  "tfd_entry ptr flags =
     fd_zero\<lparr>fd_in_use := True, is_timerfd := True, fd_vfs_file := Some ptr,
       fd_oflags := (if flags AND IR0_TFD_NONBLOCK \<noteq> 0 then O_RDWR OR O_NONBLOCK else O_RDWR),
       fd_fd_flags := (if flags AND IR0_TFD_CLOEXEC \<noteq> 0 then FD_CLOEXEC else 0)\<rparr>"

definition sys_timerfd_create :: "nat \<Rightarrow> int \<Rightarrow> u32 \<Rightarrow> tfd_sys \<Rightarrow> tfd_sys \<times> (errno + nat)" where
  "sys_timerfd_create base clockid flags s =
     (if \<not> has_current s then (s, Inl ESRCH)
      else if clockid \<noteq> IR0_CLOCK_MONOTONIC then (s, Inl EINVAL)
      else if flags AND NOT (IR0_TFD_CLOEXEC OR IR0_TFD_NONBLOCK) \<noteq> 0 then (s, Inl EINVAL)
      else (case first_index (\<lambda>ob. \<not> obj_in_use ob) (objs s) of
              None \<Rightarrow> (s, Inl ENOMEM)
            | Some i \<Rightarrow>
                (let s1 = s\<lparr>objs := (objs s)[i := \<lparr>obj_magic = TFD_MAGIC, obj_in_use = True, obj_refs = 1, obj_body = tfd_zero\<rparr>]\<rparr>;
                     undo = s1\<lparr>objs := (objs s1)[i := obj_zero tfd_zero]\<rparr> in
                 case fd_tab s1 of
                   None \<Rightarrow> (undo, Inl ESRCH)
                 | Some tab \<Rightarrow>
                     (case fd_scan tab of
                        None \<Rightarrow> (undo, Inl EMFILE)
                      | Some fd \<Rightarrow>
                          (s1\<lparr>fd_tab := Some (tab[fd := tfd_entry (base + i * TFD_SIZE) flags]),
                              fds_created := fds_created s1 + 1\<rparr>, Inr fd)))))"

text \<open>Seconds and nanoseconds are signed 64-bit in C and cast to \<^verbatim>\<open>uint64_t\<close>.\<close>

record timespec =
  tv_sec :: int
  tv_nsec :: int

record itimerspec =
  it_interval :: timespec
  it_value :: timespec

definition u64_of :: "int \<Rightarrow> nat" where
  "u64_of z = nat (z mod 2 ^ 64)"

definition timespec_to_ms :: "timespec option \<Rightarrow> nat" where
  "timespec_to_ms ts =
     (case ts of
        None \<Rightarrow> 0
      | Some ts \<Rightarrow> add64 ((u64_of (tv_sec ts) * 1000) mod two64) (u64_of (tv_nsec ts) div 1000000))"

definition ms_to_timespec :: "nat \<Rightarrow> timespec" where
  "ms_to_timespec ms = \<lparr>tv_sec = int (ms div 1000), tv_nsec = int (ms mod 1000 * 1000000)\<rparr>"

text \<open>The lookup both system calls start with.\<close>

definition timerfd_lookup :: "nat \<Rightarrow> int \<Rightarrow> tfd_sys \<Rightarrow> nat option" where
  "timerfd_lookup base fd s =
     (if fd < 0 \<or> fd \<ge> int MAX_FDS_PER_PROCESS then None
      else case fd_tab s of
             None \<Rightarrow> None
           | Some tab \<Rightarrow>
               (let en = tab ! nat fd in
                if \<not> fd_in_use en \<or> \<not> is_timerfd en \<or> fd_vfs_file en = None then None
                else ir0_timerfd_is base (objs s) (fd_vfs_file en)))"

definition remaining :: "nat \<Rightarrow> tfd \<Rightarrow> itimerspec" where
  "remaining now t =
     \<lparr>it_interval = ms_to_timespec (interval_ms t),
      it_value = (if expire_ms t > now then ms_to_timespec (expire_ms t - now) else \<lparr>tv_sec = 0, tv_nsec = 0\<rparr>)\<rparr>"

text \<open>
  \<open>nv\<close> is what \<^verbatim>\<open>copy_from_user\<close> yields for \<^verbatim>\<open>new_value\<close>; \<open>old\<close> is None
  for a NULL \<^verbatim>\<open>old_value\<close>, else whether the copy out succeeds. The result carries the
  old setting when it was asked for.
\<close>

definition arm :: "nat \<Rightarrow> itimerspec \<Rightarrow> tfd \<Rightarrow> tfd" where
  "arm now nv t =
     (let value_ms = timespec_to_ms (Some (it_value nv)) in
      \<lparr>expire_ms = (if value_ms = 0 then 0 else add64 now value_ms),
       interval_ms = timespec_to_ms (Some (it_interval nv)), ticks = 0\<rparr>)"

definition sys_timerfd_settime ::
  "nat \<Rightarrow> (nat \<Rightarrow> nat) \<Rightarrow> int \<Rightarrow> bool \<Rightarrow> itimerspec option \<Rightarrow> bool option \<Rightarrow> tfd_sys \<Rightarrow>
   (tfd_sys \<times> (errno + itimerspec option)) option" where
  "sys_timerfd_settime base clk fd new_given nv old s =
     (if \<not> has_current s then Some (s, Inl ESRCH)
      else if \<not> new_given then Some (s, Inl EFAULT)
      else (case timerfd_lookup base fd s of
              None \<Rightarrow> Some (s, Inl EBADF)
            | Some i \<Rightarrow>
                (case nv of
                   None \<Rightarrow> Some (s, Inl EFAULT)
                 | Some v \<Rightarrow>
                     (case timerfd_tick (clk 0) i s of
                        None \<Rightarrow> None
                      | Some s1 \<Rightarrow>
                          (let ov = remaining (clk 1) (obj_body (objs s1 ! i)) in
                           if old = Some False then Some (s1, Inl EFAULT)
                           else (case timerfd_tick (clk 3) i (set_tfd i (arm (clk 2) v (obj_body (objs s1 ! i))) s1) of
                                   None \<Rightarrow> None
                                 | Some s2 \<Rightarrow> Some (s2, Inr (if old = None then None else Some ov))))))))"

definition sys_timerfd_gettime ::
  "nat \<Rightarrow> (nat \<Rightarrow> nat) \<Rightarrow> int \<Rightarrow> bool \<Rightarrow> bool \<Rightarrow> tfd_sys \<Rightarrow> (tfd_sys \<times> (errno + itimerspec)) option" where
  "sys_timerfd_gettime base clk fd cur_given copy_ok s =
     (if \<not> has_current s \<or> \<not> cur_given then Some (s, Inl EFAULT)
      else (case timerfd_lookup base fd s of
              None \<Rightarrow> Some (s, Inl EBADF)
            | Some i \<Rightarrow>
                (case timerfd_tick (clk 0) i s of
                   None \<Rightarrow> None
                 | Some s1 \<Rightarrow>
                     (if \<not> copy_ok then Some (s1, Inl EFAULT)
                      else Some (s1, Inr (remaining (clk 1) (obj_body (objs s1 ! i))))))))"

section \<open>The catch-up loop\<close>

interpretation tfdt: obj_table TFD_MAGIC base TFD_SIZE for base :: nat
  by unfold_locales simp

lemma tick_loop_idle: "expire_ms t = 0 \<or> now < expire_ms t \<Longrightarrow> tick_loop now t = Some t"
  by (subst tick_loop.simps) auto

lemma tick_loop_oneshot:
  "0 < expire_ms t \<Longrightarrow> expire_ms t \<le> now \<Longrightarrow> interval_ms t = 0 \<Longrightarrow>
   tick_loop now t = Some (t\<lparr>ticks := add64 (ticks t) 1, expire_ms := 0\<rparr>)"
  by (subst tick_loop.simps) (simp add: Let_def)

text \<open>
  With no wrap-around within one interval of now, the loop counts every expiry up to now and
  leaves the next one in the future.
\<close>

lemma tick_loop_periodic:
  assumes "0 < interval_ms t" "0 < expire_ms t" "expire_ms t \<le> now" "now + interval_ms t < two64"
    "ticks t + k + 1 < two64" "(now - expire_ms t) div interval_ms t = k"
  shows "tick_loop now t = Some (t\<lparr>ticks := ticks t + k + 1, expire_ms := expire_ms t + (k + 1) * interval_ms t\<rparr>)"
  using assms
proof (induction k arbitrary: t)
  case 0
  then have lt: "now < expire_ms t + interval_ms t" by (auto simp: div_eq_0_iff)
  have a: "add64 (expire_ms t) (interval_ms t) = expire_ms t + interval_ms t" "add64 (ticks t) 1 = ticks t + 1"
    using 0 by (simp_all add: add64_small)
  show ?case using 0 lt a by (subst tick_loop.simps) (simp add: Let_def)
next
  case (Suc k)
  have ge: "expire_ms t + interval_ms t \<le> now"
  proof (rule ccontr)
    assume "\<not> expire_ms t + interval_ms t \<le> now"
    then have "(now - expire_ms t) div interval_ms t = 0" using Suc.prems(1,3) by (simp add: div_eq_0_iff)
    with Suc.prems(6) show False by simp
  qed
  have a: "add64 (expire_ms t) (interval_ms t) = expire_ms t + interval_ms t" "add64 (ticks t) 1 = ticks t + 1"
    using Suc.prems ge by (simp_all add: add64_small)
  let ?t = "t\<lparr>ticks := ticks t + 1, expire_ms := expire_ms t + interval_ms t\<rparr>"
  have "now - expire_ms t = (now - (expire_ms t + interval_ms t)) + interval_ms t" using ge by simp
  then have "(now - expire_ms t) div interval_ms t = (now - (expire_ms t + interval_ms t)) div interval_ms t + 1"
    using Suc.prems(1) by (metis div_add_self2 less_not_refl2 Suc_eq_plus1)
  then have k: "(now - expire_ms ?t) div interval_ms ?t = k" using Suc.prems(6) by simp
  have "tick_loop now t = tick_loop now ?t"
    using Suc.prems ge a by (subst tick_loop.simps) (simp add: Let_def)
  also have "\<dots> = Some (?t\<lparr>ticks := ticks ?t + k + 1, expire_ms := expire_ms ?t + (k + 1) * interval_ms ?t\<rparr>)"
    by (rule Suc.IH) (use Suc.prems ge k in auto)
  also have "\<dots> = Some (t\<lparr>ticks := ticks t + Suc k + 1, expire_ms := expire_ms t + (Suc k + 1) * interval_ms t\<rparr>)"
    by (simp add: algebra_simps)
  finally show ?case .
qed

lemma set_tfd_simps:
  assumes "i < length (objs s)"
  shows "obj_body (objs (set_tfd i t s) ! i) = t" "obj_in_use (objs (set_tfd i t s) ! i) = obj_in_use (objs s ! i)"
    "obj_magic (objs (set_tfd i t s) ! i) = obj_magic (objs s ! i)" "length (objs (set_tfd i t s)) = length (objs s)"
  using assms by (simp_all add: set_tfd_def)

lemma timerfd_is_iff:
  "ir0_timerfd_is base tab (Some p) = Some i \<longleftrightarrow>
   p = base + i * TFD_SIZE \<and> i < length tab \<and> obj_magic (tab ! i) = TFD_MAGIC \<and> obj_in_use (tab ! i)"
  by (simp add: ir0_timerfd_is_def tfdt.is_iff)

lemma tick_keeps_object:
  assumes "timerfd_tick now i s = Some s1" "ir0_timerfd_is base (objs s) (Some p) = Some i"
  shows "ir0_timerfd_is base (objs s1) (Some p) = Some i"
  using assms unfolding timerfd_is_iff
  by (auto simp: timerfd_tick_def Let_def set_tfd_def split: if_splits option.splits)

lemma tick_periodic:
  assumes obj: "ir0_timerfd_is base (objs s) (Some p) = Some i" and t: "obj_body (objs s ! i) = t"
    and "0 < interval_ms t" "0 < expire_ms t" "expire_ms t \<le> now" "now + interval_ms t < two64"
    and k: "k = (now - expire_ms t) div interval_ms t" "ticks t + k + 1 < two64"
  shows "\<exists>s'. timerfd_tick now i s = Some s' \<and>
     obj_body (objs s' ! i) = t\<lparr>ticks := ticks t + k + 1, expire_ms := expire_ms t + (k + 1) * interval_ms t\<rparr> \<and>
     ir0_timerfd_is base (objs s') (Some p) = Some i \<and> poll_wakes s' = poll_wakes s + 1"
proof -
  have i: "i < length (objs s)" "obj_in_use (objs s ! i)" using obj by (auto simp: timerfd_is_iff)
  let ?t = "t\<lparr>ticks := ticks t + k + 1, expire_ms := expire_ms t + (k + 1) * interval_ms t\<rparr>"
  have "timerfd_tick now i s = Some ((set_tfd i ?t s)\<lparr>poll_wakes := poll_wakes (set_tfd i ?t s) + 1\<rparr>)"
    using i t assms(3-6) tick_loop_periodic [OF assms(3-6) k(2) k(1) [symmetric]] by (simp add: timerfd_tick_def Let_def)
  with obj i show ?thesis by (auto simp: set_tfd_def timerfd_is_iff)
qed

section \<open>Properties\<close>

text \<open>
  Ticking counts every expiry once. For a live armed timer that has expired by now, with
  no 64-bit wrap within one interval of now: the tick terminates; a periodic timer gains one
  tick for its first expiry and one for each whole interval since, and its next expiry is the
  first one after now; a one-shot timer gains one tick and is disarmed; a timer not yet due (or
  disarmed) is left alone.
\<close>

theorem timerfd_tick_exact:
  assumes "ir0_timerfd_is base (objs s) (Some p) = Some i" "obj_body (objs s ! i) = t"
    "now + interval_ms t < two64" "ticks t + (now - expire_ms t) div interval_ms t + 1 < two64"
  shows "\<exists>s'. timerfd_tick now i s = Some s' \<and> ir0_timerfd_is base (objs s') (Some p) = Some i \<and>
     (let t' = obj_body (objs s' ! i) in
      if expire_ms t = 0 \<or> now < expire_ms t then t' = t
      else if interval_ms t = 0 then t' = t\<lparr>ticks := ticks t + 1, expire_ms := 0\<rparr>
      else ticks t' = ticks t + (now - expire_ms t) div interval_ms t + 1 \<and>
           now < expire_ms t' \<and> expire_ms t' \<le> now + interval_ms t \<and> interval_ms t' = interval_ms t \<and>
           interval_ms t dvd expire_ms t' - expire_ms t)"
proof -
  have i: "i < length (objs s)" "obj_in_use (objs s ! i)" using assms(1) by (auto simp: timerfd_is_iff)
  consider (idle) "expire_ms t = 0 \<or> now < expire_ms t" | (once) "expire_ms t \<noteq> 0" "expire_ms t \<le> now" "interval_ms t = 0"
    | (periodic) "0 < expire_ms t" "expire_ms t \<le> now" "0 < interval_ms t" by linarith
  then show ?thesis
  proof cases
    case idle
    then have "\<exists>n. timerfd_tick now i s = Some (s\<lparr>poll_wakes := n\<rparr>)"
      using tick_loop_idle [OF idle] assms(2) i
      by (auto simp: timerfd_tick_def Let_def set_tfd_def intro: exI [of _ "poll_wakes s"])
    with idle assms(1,2) show ?thesis by auto
  next
    case once
    let ?t = "t\<lparr>ticks := ticks t + 1, expire_ms := 0\<rparr>"
    have a: "add64 (ticks t) 1 = ticks t + 1" using assms(4) once(3) by (simp add: add64_small)
    have "timerfd_tick now i s = Some ((set_tfd i ?t s)\<lparr>poll_wakes := poll_wakes (set_tfd i ?t s) + 1\<rparr>)"
      using once i assms(2) tick_loop_oneshot [of t now] a by (simp add: timerfd_tick_def Let_def)
    with once assms(1) i show ?thesis by (auto simp: set_tfd_def timerfd_is_iff)
  next
    case periodic
    let ?k = "(now - expire_ms t) div interval_ms t"
    from tick_periodic [OF assms(1,2) periodic(3,1,2) assms(3) refl assms(4)] obtain s' where
      s': "timerfd_tick now i s = Some s'" "ir0_timerfd_is base (objs s') (Some p) = Some i"
          "obj_body (objs s' ! i) = t\<lparr>ticks := ticks t + ?k + 1, expire_ms := expire_ms t + (?k + 1) * interval_ms t\<rparr>" by blast
    define q r where "q = ?k" and "r = (now - expire_ms t) mod interval_ms t"
    have "r < interval_ms t" "now - expire_ms t = q * interval_ms t + r"
      using periodic(3) unfolding q_def r_def by simp_all
    then have "now < expire_ms t + (q + 1) * interval_ms t" "expire_ms t + (q + 1) * interval_ms t \<le> now + interval_ms t"
      using periodic(2) by (simp_all add: algebra_simps)
    then have "now < expire_ms t + (?k + 1) * interval_ms t" "expire_ms t + (?k + 1) * interval_ms t \<le> now + interval_ms t"
      unfolding q_def by blast+
    with s' periodic show ?thesis by (simp add: Let_def)
  qed
qed

text \<open>
  A timer set is a timer read. After \<^verbatim>\<open>sys_timerfd_settime\<close> arms a live timer with
  a first expiry and an interval of at least one millisecond, a read with a valid buffer at any
  later time from that expiry on returns the number of expiries so far: one, plus the whole
  intervals elapsed since the first (no time within one interval of 64-bit wrap).
\<close>

theorem timerfd_settime_read:
  assumes "has_current s" "timerfd_lookup base fd s = Some i" "p = base + i * TFD_SIZE"
    "m = timespec_to_ms (Some (it_value v))" "n = timespec_to_ms (Some (it_interval v))" "0 < m" "0 < n"
    "timerfd_tick (clk 0) i s = Some s0" "clk 2 \<le> clk 3" "clk 3 < clk 2 + m"
    "clk 2 + m \<le> now" "now + n < two64" "8 \<le> cnt"
  shows "\<exists>s1 s2. sys_timerfd_settime base clk fd True (Some v) None s = Some (s1, Inr None) \<and>
           ir0_timerfd_read base now (Some p) True True cnt s1 = Some (s2, Inr (1 + (now - (clk 2 + m)) div n))"
proof -
  have obj: "ir0_timerfd_is base (objs s) (Some p) = Some i"
    using assms(2,3) timerfd_is_iff [of base "objs s" _ i]
    by (auto simp: timerfd_lookup_def Let_def split: if_splits option.splits)
  note obj0 = tick_keeps_object [OF assms(8) obj]
  then have i0: "i < length (objs s0)" "obj_in_use (objs s0 ! i)" by (auto simp: timerfd_is_iff)
  let ?t = "arm (clk 2) v (obj_body (objs s0 ! i))"
  have a: "add64 (clk 2) m = clk 2 + m" using assms(11,12) by (simp add: add64_small)
  have t: "?t = \<lparr>expire_ms = clk 2 + m, interval_ms = n, ticks = 0\<rparr>"
    using assms(4,5,6) a by (simp add: arm_def Let_def)
  let ?s1 = "set_tfd i ?t s0"
  have obj1: "ir0_timerfd_is base (objs ?s1) (Some p) = Some i"
    using obj0 i0 set_tfd_simps [OF i0(1), of ?t] by (simp add: timerfd_is_iff)
  have b1: "obj_body (objs ?s1 ! i) = ?t" using set_tfd_simps [OF i0(1)] by simp
  have "tick_loop (clk 3) ?t = Some ?t" by (rule tick_loop_idle) (use t assms(10) in simp)
  then have "timerfd_tick (clk 3) i ?s1 = Some ?s1"
    using b1 t i0 by (auto simp: timerfd_tick_def Let_def set_tfd_def)
  then have set: "sys_timerfd_settime base clk fd True (Some v) None s = Some (?s1, Inr None)"
    using assms(1,2,8) by (simp add: sys_timerfd_settime_def Let_def)
  let ?k = "(now - (clk 2 + m)) div n"
  have "?k \<le> now - (clk 2 + m)" by simp
  then have "?k + 1 < two64" using assms(7,12) by linarith
  then have bound: "ticks ?t + ?k + 1 < two64" using t by simp
  from tick_periodic [OF obj1 b1, of now ?k] t assms(6,7,11,12) bound obtain s2 where
    s2: "timerfd_tick now i ?s1 = Some s2" "ticks (obj_body (objs s2 ! i)) = ?k + 1" by auto
  have "ir0_timerfd_read base now (Some p) True True cnt ?s1 =
      Some (set_tfd i ((obj_body (objs s2 ! i))\<lparr>ticks := 0\<rparr>) s2, Inr (1 + ?k))"
    using obj1 assms(13) s2 by (simp add: ir0_timerfd_read_def Let_def)
  with set show ?thesis by blast
qed

text \<open>
  The remaining time reported is exact. Converting a millisecond count to a
  \<^verbatim>\<open>timespec\<close> and back gives the same count, for every count in the 64-bit range: what
  \<^verbatim>\<open>timerfd_gettime\<close> reports can be passed to \<^verbatim>\<open>timerfd_settime\<close> unchanged.
\<close>

theorem timespec_ms_roundtrip:
  assumes "ms < two64"
  shows "timespec_to_ms (Some (ms_to_timespec ms)) = ms"
proof -
  have s: "u64_of (int (ms div 1000)) = ms div 1000" "ms div 1000 * 1000 < two64"
    using assms by (simp_all add: u64_of_def nat_mod_as_int [symmetric])
  have "ms mod 1000 * 1000000 < two64" by (rule less_trans [of _ "1000 * 1000000"]) simp_all
  then have n: "u64_of (int (ms mod 1000 * 1000000)) = ms mod 1000 * 1000000"
    by (simp add: u64_of_def)
  have "add64 (ms div 1000 * 1000) (ms mod 1000) = ms" using assms by (simp add: add64_def)
  with s n show ?thesis by (simp add: timespec_to_ms_def ms_to_timespec_def)
qed

section \<open>Witnesses\<close>

definition tfd_demo_at :: "tfd \<Rightarrow> tfd_sys" where
  "tfd_demo_at t = \<lparr>objs = [\<lparr>obj_magic = TFD_MAGIC, obj_in_use = True, obj_refs = 1, obj_body = t\<rparr>],
     fd_tab = Some ((replicate 64 fd_zero)[3 := tfd_entry 4096 0]), has_current = True, fds_created = 1, poll_wakes = 0\<rparr>"

lemma tfd_demo_is: "ir0_timerfd_is 4096 (objs (tfd_demo_at t)) (Some 4096) = Some 0"
  by (simp add: timerfd_is_iff tfd_demo_at_def)

lemma timerfd_tick_exact_witness:
  "\<exists>s'. timerfd_tick 1000 0 (tfd_demo_at \<lparr>expire_ms = 100, interval_ms = 200, ticks = 0\<rparr>) = Some s' \<and>
        ticks (obj_body (objs s' ! 0)) = 5"
proof -
  let ?t = "\<lparr>expire_ms = 100, interval_ms = 200, ticks = 0\<rparr>"
  have "obj_body (objs (tfd_demo_at ?t) ! 0) = ?t" by (simp add: tfd_demo_at_def)
  from timerfd_tick_exact [OF tfd_demo_is this, of 1000] show ?thesis by (auto simp: Let_def)
qed

definition demo_clk :: "nat \<Rightarrow> nat" where
  "demo_clk k = 50 + k"

definition demo_spec :: itimerspec where
  "demo_spec = \<lparr>it_interval = \<lparr>tv_sec = 0, tv_nsec = 200000000\<rparr>, it_value = \<lparr>tv_sec = 1, tv_nsec = 0\<rparr>\<rparr>"

lemma timerfd_settime_read_witness:
  "\<exists>s1 s2. sys_timerfd_settime 4096 demo_clk 3 True (Some demo_spec) None (tfd_demo_at tfd_zero) = Some (s1, Inr None) \<and>
           ir0_timerfd_read 4096 2000 (Some 4096) True True 8 s1 = Some (s2, Inr 5)"
proof -
  have look: "timerfd_lookup 4096 3 (tfd_demo_at tfd_zero) = Some 0"
    using tfd_demo_is [of tfd_zero]
    by (simp add: timerfd_lookup_def Let_def tfd_demo_at_def tfd_entry_def fd_zero_def)
  have ms: "timespec_to_ms (Some (it_value demo_spec)) = 1000" "timespec_to_ms (Some (it_interval demo_spec)) = 200"
    by (simp_all add: timespec_to_ms_def demo_spec_def u64_of_def add64_def)
  have tick: "timerfd_tick (demo_clk 0) 0 (tfd_demo_at tfd_zero) = Some (tfd_demo_at tfd_zero)"
    by (simp add: timerfd_tick_def Let_def tfd_demo_at_def tfd_zero_def)
  have hc: "has_current (tfd_demo_at tfd_zero)" by (simp add: tfd_demo_at_def)
  from timerfd_settime_read [where clk = demo_clk and v = demo_spec and m = 1000 and n = 200 and p = 4096 and now = 2000
      and cnt = 8, OF hc look _ ms [symmetric] _ _ tick] show ?thesis
    by (simp add: demo_clk_def)
qed

lemma timespec_ms_roundtrip_witness: "timespec_to_ms (Some (ms_to_timespec 90061)) = 90061"
  using timespec_ms_roundtrip [of 90061] by simp

end
