(* ===== verification/Memfd.thy ===== *)
theory Memfd
  imports Fd_Objects Pmm
begin

text \<open>
  Memory files (\<^verbatim>\<open>kernel/memfd.c\<close>): a table of 16 objects, each an array of physical
  frames taken from the frame allocator of \<^verbatim>\<open>mm/pmm.c\<close>. The object table and the
  descriptor table are those of the eventfd; the frame pool is the modelled allocator itself.
  \<^verbatim>\<open>kmalloc\<close> of the frame array is a parameter (it succeeds or not), as is the task on
  whose behalf frames are taken. The contents of the pages are not modelled, nor is
  \<^verbatim>\<open>ir0_memfd_mmap\<close>, which works on page tables.
\<close>

section \<open>State\<close>

record mfd =
  mfd_size :: nat
  npages :: nat
  frames :: "nat list option"
  mfd_name :: string

record memfd_sys = "mfd fd_sys" +
  pool :: pmm_state

abbreviation MEMFD_MAX :: nat where "MEMFD_MAX \<equiv> 16"
abbreviation MEMFD_MAX_PAGES :: nat where "MEMFD_MAX_PAGES \<equiv> 1024"
abbreviation PAGE_SZ :: nat where "PAGE_SZ \<equiv> 4096"
abbreviation MEMFD_MAGIC :: u32 where "MEMFD_MAGIC \<equiv> 0x4D464421"
abbreviation MEMFD_SIZE :: nat where "MEMFD_SIZE \<equiv> 104"
abbreviation IR0_MFD_CLOEXEC :: u32 where "IR0_MFD_CLOEXEC \<equiv> 1"

definition mfd_zero :: mfd where
  "mfd_zero = \<lparr>mfd_size = 0, npages = 0, frames = None, mfd_name = ''''\<rparr>"

section \<open>Operations\<close>

definition ir0_memfd_is :: "nat \<Rightarrow> mfd kobj list \<Rightarrow> nat option \<Rightarrow> nat option" where
  "ir0_memfd_is base tab m = Option.bind m (obj_is MEMFD_MAGIC base MEMFD_SIZE tab)"

definition ir0_memfd_acquire :: "nat \<Rightarrow> nat option \<Rightarrow> memfd_sys \<Rightarrow> memfd_sys" where
  "ir0_memfd_acquire base m s = s\<lparr>objs := obj_acquire MEMFD_MAGIC base MEMFD_SIZE m (objs s)\<rparr>"

text \<open>The frames of the array that are not 0, in order.\<close>

definition held :: "nat list \<Rightarrow> nat list" where
  "held fs = filter (\<lambda>f. f \<noteq> 0) fs"

definition memfd_free_frames :: "mfd \<Rightarrow> pmm_state \<Rightarrow> (mfd \<times> pmm_state) kresult" where
  "memfd_free_frames m q =
     (case frames m of
        None \<Rightarrow> Done (m, q)
      | Some fs \<Rightarrow>
          kbind (put_all pmm_free_frame (held (take (npages m) fs)) q) (\<lambda>q'.
            Done (m\<lparr>frames := None, npages := 0, mfd_size := 0\<rparr>, q')))"

definition ir0_memfd_release :: "nat \<Rightarrow> nat option \<Rightarrow> memfd_sys \<Rightarrow> memfd_sys kresult" where
  "ir0_memfd_release base m s =
     (case obj_drop MEMFD_MAGIC base MEMFD_SIZE m (objs s) of
        (tab, None) \<Rightarrow> Done (s\<lparr>objs := tab\<rparr>)
      | (tab, Some i) \<Rightarrow>
          kbind (memfd_free_frames (obj_body (tab ! i)) (pool s)) (\<lambda>(b, q).
            Done (s\<lparr>objs := tab[i := obj_zero mfd_zero], pool := q\<rparr>)))"

definition ir0_memfd_size :: "nat \<Rightarrow> memfd_sys \<Rightarrow> nat option \<Rightarrow> nat" where
  "ir0_memfd_size base s m =
     (case ir0_memfd_is base (objs s) m of None \<Rightarrow> 0 | Some i \<Rightarrow> mfd_size (obj_body (objs s ! i)))"

text \<open>The body of \<^verbatim>\<open>ir0_memfd_ftruncate\<close> on one object and the frame pool.\<close>

definition ftruncate_body :: "current \<Rightarrow> bool \<Rightarrow> nat \<Rightarrow> mfd \<Rightarrow> pmm_state \<Rightarrow> (mfd \<times> pmm_state \<times> (errno + unit)) kresult" where
  "ftruncate_body cur kmalloc_ok len m q =
     (if len > MEMFD_MAX_PAGES * PAGE_SZ then Done (m, q, Inl EINVAL)
      else
        (let need = (len + PAGE_SZ - 1) div PAGE_SZ; old = (case frames m of Some fs \<Rightarrow> fs | None \<Rightarrow> []) in
         if need = npages m then Done (m\<lparr>mfd_size := len\<rparr>, q, Inr ())
         else if need < npages m then
           kbind (put_all pmm_free_frame (held (drop need (take (npages m) old))) q) (\<lambda>q'.
             Done (m\<lparr>frames := Some (take need old @ replicate (npages m - need) 0 @ drop (npages m) old),
                     npages := need, mfd_size := len\<rparr>, q', Inr ()))
         else if \<not> kmalloc_ok then Done (m, q, Inl ENOMEM)
         else
           (let (got, q1) = alloc_many (pmm_alloc_frame cur) (need - npages m) q in
            if length got < need - npages m then
              kbind (put_all pmm_free_frame (rev got) q1) (\<lambda>q2. Done (m, q2, Inl ENOMEM))
            else
              Done (m\<lparr>frames := Some (take (npages m) old @ got), npages := need, mfd_size := len\<rparr>, q1, Inr ()))))"

definition ir0_memfd_ftruncate ::
  "current \<Rightarrow> bool \<Rightarrow> nat \<Rightarrow> nat option \<Rightarrow> nat \<Rightarrow> memfd_sys \<Rightarrow> (memfd_sys \<times> (errno + unit)) kresult" where
  "ir0_memfd_ftruncate cur kmalloc_ok base m len s =
     (case ir0_memfd_is base (objs s) m of
        None \<Rightarrow> Done (s, Inl EINVAL)
      | Some i \<Rightarrow>
          kbind (ftruncate_body cur kmalloc_ok len (obj_body (objs s ! i)) (pool s)) (\<lambda>(b, q, r).
            Done (s\<lparr>objs := (objs s)[i := (objs s ! i)\<lparr>obj_body := b\<rparr>], pool := q\<rparr>, r)))"

definition ir0_memfd_alloc :: "memfd_sys \<Rightarrow> memfd_sys \<times> nat option" where
  "ir0_memfd_alloc s =
     (case first_index (\<lambda>ob. \<not> obj_in_use ob) (objs s) of
        None \<Rightarrow> (s, None)
      | Some i \<Rightarrow> (s\<lparr>objs := (objs s)[i := \<lparr>obj_magic = MEMFD_MAGIC, obj_in_use = True, obj_refs = 1, obj_body = mfd_zero\<rparr>]\<rparr>, Some i))"

definition ir0_memfd_install_fd :: "nat \<Rightarrow> nat option \<Rightarrow> u32 \<Rightarrow> bool \<Rightarrow> memfd_sys \<Rightarrow> memfd_sys \<times> (errno + nat)" where
  "ir0_memfd_install_fd base m open_flags cloexec s =
     (if ir0_memfd_is base (objs s) m = None \<or> \<not> has_current s then (s, Inl EINVAL)
      else (case fd_tab s of
              None \<Rightarrow> (s, Inl ESRCH)
            | Some tab \<Rightarrow>
                (case fd_scan tab of
                   None \<Rightarrow> (s, Inl EMFILE)
                 | Some fd \<Rightarrow>
                     (s\<lparr>fd_tab := Some (tab[fd := fd_zero\<lparr>fd_in_use := True, is_memfd := True, fd_vfs_file := m,
                           fd_oflags := open_flags, fd_fd_flags := (if cloexec then FD_CLOEXEC else 0)\<rparr>]),
                        fds_created := fds_created s + 1\<rparr>, Inr fd))))"

text \<open>
  \<open>uname\<close> is None for a NULL name, else what \<^verbatim>\<open>copy_from_user\<close> yields.
\<close>

definition sys_memfd_create ::
  "nat \<Rightarrow> string option option \<Rightarrow> u32 \<Rightarrow> memfd_sys \<Rightarrow> (memfd_sys \<times> (errno + nat)) kresult" where
  "sys_memfd_create base uname flags s =
     (if \<not> has_current s then Done (s, Inl ESRCH)
      else if flags AND NOT IR0_MFD_CLOEXEC \<noteq> 0 then Done (s, Inl EINVAL)
      else if uname = Some None then Done (s, Inl EFAULT)
      else
        (let name = (case uname of Some (Some nm) \<Rightarrow> take 63 nm | _ \<Rightarrow> '''') in
         case ir0_memfd_alloc s of
           (s1, None) \<Rightarrow> Done (s1, Inl ENOMEM)
         | (s1, Some i) \<Rightarrow>
             (let ob = objs s1 ! i;
                  s2 = s1\<lparr>objs := (objs s1)[i := ob\<lparr>obj_body := (obj_body ob)\<lparr>mfd_name := name\<rparr>\<rparr>]\<rparr>;
                  m = Some (base + i * MEMFD_SIZE) in
              case ir0_memfd_install_fd base m O_RDWR (flags AND IR0_MFD_CLOEXEC \<noteq> 0) s2 of
                (s3, Inr fd) \<Rightarrow> Done (s3, Inr fd)
              | (s3, Inl e) \<Rightarrow> kbind (ir0_memfd_release base m s3) (\<lambda>s4. Done (s4, Inl e)))))"

section \<open>Frames of a memory file\<close>

interpretation mfdt: obj_table MEMFD_MAGIC base MEMFD_SIZE for base :: nat
  by unfold_locales simp

text \<open>
  A memory file that is well formed and not mapped anywhere: it has as many pages as its size
  needs, each a different allocated frame on which it holds the only reference.
\<close>

definition pages_of :: "mfd \<Rightarrow> nat list" where
  "pages_of m = take (npages m) (case frames m of Some fs \<Rightarrow> fs | None \<Rightarrow> [])"

definition mfd_ok :: "mfd \<Rightarrow> pmm_state \<Rightarrow> bool" where
  "mfd_ok m q \<longleftrightarrow>
     pmm_ready q \<and> length (pages_of m) = npages m \<and> npages m = (mfd_size m + PAGE_SZ - 1) div PAGE_SZ \<and>
     distinct (pages_of m) \<and> 0 \<notin> set (pages_of m) \<and> (\<forall>f \<in> set (pages_of m). pmm_frames q f = Some 1)"

lemma held_id: "0 \<notin> set fs \<Longrightarrow> held fs = fs"
  by (induction fs) (auto simp: held_def)

lemma free_frame_put: "pmm_free_frame = pmm_frame_put"
  by (rule ext)+ (simp add: pmm_free_frame_def)

lemma put_pages:
  assumes "pmm_ready q" "distinct fs" "0 \<notin> set fs" "\<forall>f \<in> set fs. pmm_frames q f = Some 1"
  shows "\<exists>q'. put_all pmm_free_frame (held fs) q = Done q' \<and> pmm_ready q' \<and> pmm_frames q' = pmm_frames q |` (- set fs)"
  using pmm.put_all_release [OF assms(1,2)] assms(3,4) by (simp add: held_id free_frame_put)

text \<open>What a resize does to the pages and to the pool.\<close>

definition resized :: "mfd \<Rightarrow> pmm_state \<Rightarrow> nat \<Rightarrow> mfd \<Rightarrow> pmm_state \<Rightarrow> bool" where
  "resized m q len m' q' \<longleftrightarrow>
     mfd_ok m' q' \<and> mfd_size m' = len \<and>
     (let n = min (npages m) (npages m') in take n (pages_of m') = take n (pages_of m)) \<and>
     (\<forall>f \<in> set (pages_of m') - set (pages_of m). pmm_frames q f = None) \<and>
     pmm_frames q' = (\<lambda>f. if f \<in> set (pages_of m') then Some 1
                          else if f \<in> set (pages_of m) then None else pmm_frames q f)"

lemma pages_update:
  "pages_of (m\<lparr>frames := Some fs, npages := n, mfd_size := l\<rparr>) = take n fs"
  "pages_of (m\<lparr>mfd_size := l\<rparr>) = pages_of m"
  by (simp_all add: pages_of_def)

lemma shrink_resized:
  assumes ok: "mfd_ok m q" and need: "need = (len + PAGE_SZ - 1) div PAGE_SZ" "need < npages m"
    and old: "old = (case frames m of Some fs \<Rightarrow> fs | None \<Rightarrow> [])"
  shows "\<exists>q'. put_all pmm_free_frame (held (drop need (take (npages m) old))) q = Done q' \<and>
     resized m q len (m\<lparr>frames := Some (take need old @ replicate (npages m - need) 0 @ drop (npages m) old),
                       npages := need, mfd_size := len\<rparr>) q'"
proof -
  let ?p = "pages_of m"
  let ?m' = "m\<lparr>frames := Some (take need old @ replicate (npages m - need) 0 @ drop (npages m) old), npages := need, mfd_size := len\<rparr>"
  have p: "?p = take (npages m) old" by (simp add: pages_of_def old)
  have len: "length ?p = npages m" "pmm_ready q" "distinct ?p" "0 \<notin> set ?p" "\<forall>f \<in> set ?p. pmm_frames q f = Some 1"
    using ok by (auto simp: mfd_ok_def)
  have sub: "set (drop need ?p) \<subseteq> set ?p" "set (take need ?p) \<subseteq> set ?p" by (rule set_drop_subset, rule set_take_subset)
  from len(3) have disj: "set (take need ?p) \<inter> set (drop need ?p) = {}" "distinct (drop need ?p)" "distinct (take need ?p)"
    by (metis append_take_drop_id distinct_append)+
  have un: "set ?p = set (take need ?p) \<union> set (drop need ?p)" by (metis append_take_drop_id set_append)
  obtain q' where q': "put_all pmm_free_frame (held (drop need ?p)) q = Done q'" "pmm_ready q'"
      "pmm_frames q' = pmm_frames q |` (- set (drop need ?p))"
    using put_pages [OF len(2) disj(2)] len(4,5) sub(1) by blast
  have l: "need \<le> length old" using len(1) need(2) by (simp add: p)
  have pm': "pages_of ?m' = take need ?p" using l need(2) by (simp add: pages_of_def old min_def)
  have "mfd_ok ?m' q'"
    unfolding mfd_ok_def pm' using q' len need disj sub by (auto simp: restrict_map_def)
  moreover have "pmm_frames q' = (\<lambda>f. if f \<in> set (pages_of ?m') then Some 1
                          else if f \<in> set ?p then None else pmm_frames q f)"
    unfolding pm' q'(3) using un disj(1) len(5) by (auto simp: restrict_map_def fun_eq_iff)
  ultimately have "resized m q len ?m' q'"
    unfolding resized_def Let_def using pm' sub(2) need(2) by (auto simp: min_def)
  with q'(1) show ?thesis unfolding p by blast
qed

lemma grow_resized:
  assumes ok: "mfd_ok m q" and need: "need = (len + PAGE_SZ - 1) div PAGE_SZ" "npages m < need"
    and old: "old = (case frames m of Some fs \<Rightarrow> fs | None \<Rightarrow> [])"
    and got: "alloc_many (pmm_alloc_frame cur) (need - npages m) q = (got, q1)" "length got = need - npages m"
  shows "resized m q len (m\<lparr>frames := Some (take (npages m) old @ got), npages := need, mfd_size := len\<rparr>) q1"
proof -
  let ?p = "pages_of m" and ?m' = "m\<lparr>frames := Some (take (npages m) old @ got), npages := need, mfd_size := len\<rparr>"
  have p: "?p = take (npages m) old" by (simp add: pages_of_def old)
  have o: "length ?p = npages m" "pmm_ready q" "distinct ?p" "0 \<notin> set ?p" "\<forall>f \<in> set ?p. pmm_frames q f = Some 1"
    using ok by (auto simp: mfd_ok_def)
  note f = pmm.alloc_many_fresh [OF o(2) got(1)]
  have pm': "pages_of ?m' = ?p @ got" using o(1) got(2) need(2) by (simp add: pages_of_def old)
  have dis: "set ?p \<inter> set got = {}" using f o(5) by fastforce
  have "mfd_ok ?m' q1" unfolding mfd_ok_def pm' using f o dis got(2) need by auto
  moreover have "pmm_frames q1 = (\<lambda>f. if f \<in> set (pages_of ?m') then Some 1
                          else if f \<in> set ?p then None else pmm_frames q f)"
    unfolding pm' using f o(5) by (auto simp: fun_eq_iff)
  ultimately show ?thesis
    unfolding resized_def Let_def using pm' f o(1) need(2) by (auto simp: min_def)
qed

lemma ftruncate_body_spec:
  assumes ok: "mfd_ok m q"
  shows "\<exists>m' q' r. ftruncate_body cur kok len m q = Done (m', q', r) \<and>
     (r = Inr () \<longrightarrow> resized m q len m' q') \<and>
     (\<forall>e. r = Inl e \<longrightarrow> m' = m \<and> mfd_ok m q' \<and> pmm_frames q' = pmm_frames q)"
proof -
  let ?need = "(len + PAGE_SZ - 1) div PAGE_SZ" and ?old = "case frames m of Some fs \<Rightarrow> fs | None \<Rightarrow> []"
  consider (big) "len > MEMFD_MAX_PAGES * PAGE_SZ" | (same) "len \<le> MEMFD_MAX_PAGES * PAGE_SZ" "?need = npages m"
    | (shrink) "len \<le> MEMFD_MAX_PAGES * PAGE_SZ" "?need < npages m" | (grow) "len \<le> MEMFD_MAX_PAGES * PAGE_SZ" "npages m < ?need"
    by linarith
  then show ?thesis
  proof cases
    case big
    with ok show ?thesis by (simp add: ftruncate_body_def)
  next
    case same
    have "resized m q len (m\<lparr>mfd_size := len\<rparr>) q"
      using ok same(2) by (auto simp: resized_def mfd_ok_def pages_update fun_eq_iff)
    with same show ?thesis by (simp add: ftruncate_body_def Let_def)
  next
    case shrink
    from shrink_resized [OF ok refl shrink(2) refl] obtain q' where
      "put_all pmm_free_frame (held (drop ?need (take (npages m) ?old))) q = Done q'"
      "resized m q len (m\<lparr>frames := Some (take ?need ?old @ replicate (npages m - ?need) 0 @ drop (npages m) ?old),
                       npages := ?need, mfd_size := len\<rparr>) q'" by blast
    with shrink show ?thesis by (simp add: ftruncate_body_def Let_def)
  next
    case grow
    show ?thesis
    proof (cases kok)
      case False
      with grow ok show ?thesis by (simp add: ftruncate_body_def Let_def)
    next
      case True
      obtain got q1 where got: "alloc_many (pmm_alloc_frame cur) (?need - npages m) q = (got, q1)" by fastforce
      have rd: "pmm_ready q" using ok by (simp add: mfd_ok_def)
      note f = pmm.alloc_many_fresh [OF rd got]
      show ?thesis
      proof (cases "length got < ?need - npages m")
        case short: True
        from pmm.alloc_many_rollback [OF rd got, of "rev got"] f obtain q2 where
          q2: "put_all pmm_free_frame (rev got) q1 = Done q2" "pmm_ready q2" "pmm_frames q2 = pmm_frames q"
          by (auto simp: free_frame_put)
        have "mfd_ok m q2" using ok q2 by (simp add: mfd_ok_def)
        with grow True got short q2 show ?thesis by (simp add: ftruncate_body_def Let_def)
      next
        case False
        then have "length got = ?need - npages m" using f by simp
        from grow_resized [OF ok refl grow(2) refl got this] grow True got False show ?thesis
          by (simp add: ftruncate_body_def Let_def)
      qed
    qed
  qed
qed

section \<open>Properties\<close>

text \<open>
  Resizing a memory file is exact and leaks nothing. For a live, unmapped memory file,
  \<^verbatim>\<open>ir0_memfd_ftruncate\<close> returns (no panic of the frame allocator). On success the file
  has the requested size and exactly the pages it needs; it keeps its first pages, the pages
  added were free frames, the pages dropped are free again and no other frame of the pool
  changes. On failure (too long, or out of memory half-way) the file is unchanged and every
  frame has the reference count it had.
\<close>

theorem memfd_ftruncate_exact:
  assumes "ir0_memfd_is base (objs s) m = Some i" "mfd_ok (obj_body (objs s ! i)) (pool s)"
  shows "\<exists>s' r. ir0_memfd_ftruncate cur kok base m len s = Done (s', r) \<and>
     (r = Inr () \<longrightarrow> resized (obj_body (objs s ! i)) (pool s) len (obj_body (objs s' ! i)) (pool s')) \<and>
     (\<forall>e. r = Inl e \<longrightarrow> objs s' = objs s \<and> pmm_frames (pool s') = pmm_frames (pool s))"
proof -
  have i: "i < length (objs s)"
    using assms(1) by (cases m) (auto simp: ir0_memfd_is_def mfdt.is_iff)
  from ftruncate_body_spec [OF assms(2), of cur kok len] obtain b q r where
    b: "ftruncate_body cur kok len (obj_body (objs s ! i)) (pool s) = Done (b, q, r)"
       "r = Inr () \<longrightarrow> resized (obj_body (objs s ! i)) (pool s) len b q"
       "\<forall>e. r = Inl e \<longrightarrow> b = obj_body (objs s ! i) \<and> pmm_frames q = pmm_frames (pool s)" by blast
  show ?thesis
    using b i assms(1) by (simp add: ir0_memfd_ftruncate_def)
qed

text \<open>
  Closing a memory file returns its memory. Releasing the last reference of an unmapped
  memory file returns without a panic, takes the object out of use, gives every one of its
  frames back to the pool and changes no other frame; releasing an earlier reference only lowers
  the count.
\<close>

theorem memfd_release_returns_memory:
  assumes "objs_ok MEMFD_MAGIC (objs s)" "i < length (objs s)" "obj_in_use (objs s ! i)"
    "mfd_ok (obj_body (objs s ! i)) (pool s)"
  shows "\<exists>s'. ir0_memfd_release base (Some (base + i * MEMFD_SIZE)) s = Done s' \<and>
     (if obj_refs (objs s ! i) = 1
      then \<not> obj_in_use (objs s' ! i) \<and>
           pmm_frames (pool s') = pmm_frames (pool s) |` (- set (pages_of (obj_body (objs s ! i))))
      else pool s' = pool s \<and> obj_in_use (objs s' ! i) \<and> obj_body (objs s' ! i) = obj_body (objs s ! i) \<and>
           obj_refs (objs s' ! i) = obj_refs (objs s ! i) - 1)"
proof -
  note ix = mfdt.is_live [OF assms(1-3), of base]
  have pos: "0 < obj_refs (objs s ! i)" using assms(1-3) by (auto simp: objs_ok_def)
  let ?m = "obj_body (objs s ! i)"
  show ?thesis
  proof (cases "obj_refs (objs s ! i) = 1")
    case False
    with ix pos assms(2,3) show ?thesis by (simp add: ir0_memfd_release_def obj_drop_def Let_def)
  next
    case True
    have m: "pmm_ready (pool s)" "distinct (pages_of ?m)" "0 \<notin> set (pages_of ?m)" "\<forall>f \<in> set (pages_of ?m). pmm_frames (pool s) f = Some 1"
      using assms(4) by (auto simp: mfd_ok_def)
    have free: "\<exists>b q. memfd_free_frames ?m (pool s) = Done (b, q) \<and> pmm_frames q = pmm_frames (pool s) |` (- set (pages_of ?m))"
    proof (cases "frames ?m")
      case None
      then have "pages_of ?m = []" by (simp add: pages_of_def)
      with None show ?thesis by (simp add: memfd_free_frames_def restrict_map_def)
    next
      case (Some fs)
      then have "pages_of ?m = take (npages ?m) fs" by (simp add: pages_of_def)
      with put_pages [OF m] Some show ?thesis by (auto simp: memfd_free_frames_def)
    qed
    then obtain b q where "memfd_free_frames ?m (pool s) = Done (b, q)"
      "pmm_frames q = pmm_frames (pool s) |` (- set (pages_of ?m))" by blast
    with True ix assms(2,3) show ?thesis
      by (simp add: ir0_memfd_release_def obj_drop_def Let_def obj_zero_def)
  qed
qed

section \<open>Witnesses\<close>

definition memfd_demo :: memfd_sys where
  "memfd_demo = \<lparr>objs = [\<lparr>obj_magic = MEMFD_MAGIC, obj_in_use = True, obj_refs = 1, obj_body = mfd_zero\<rparr>],
     fd_tab = None, has_current = True, fds_created = 0, poll_wakes = 0, pool = pmm_two_frames\<rparr>"

lemma memfd_demo_ok:
  "objs_ok MEMFD_MAGIC (objs memfd_demo)" "obj_in_use (objs memfd_demo ! 0)"
  "mfd_ok (obj_body (objs memfd_demo ! 0)) (pool memfd_demo)"
  "ir0_memfd_is 8192 (objs memfd_demo) (Some 8192) = Some 0"
  using pmm_two_frames_ready
  by (simp_all add: memfd_demo_def objs_ok_def mfd_ok_def mfd_zero_def pages_of_def ir0_memfd_is_def mfdt.is_iff)

lemma memfd_ftruncate_exact_witness:
  "\<exists>s' r. ir0_memfd_ftruncate None True 8192 (Some 8192) 5000 memfd_demo = Done (s', r) \<and>
     (r = Inr () \<longrightarrow> resized mfd_zero pmm_two_frames 5000 (obj_body (objs s' ! 0)) (pool s'))"
  using memfd_ftruncate_exact [OF memfd_demo_ok(4,3), of None True 5000] by (auto simp: memfd_demo_def)

lemma memfd_release_returns_memory_witness:
  "\<exists>s'. ir0_memfd_release 8192 (Some 8192) memfd_demo = Done s' \<and> \<not> obj_in_use (objs s' ! 0)"
  using memfd_release_returns_memory [OF memfd_demo_ok(1) _ memfd_demo_ok(2,3), of 8192]
  by (auto simp: memfd_demo_def)

end
