(* ===== verification/Path.thy ===== *)
theory Path
  imports Prelude
begin

text \<open>
  Path strings (\<^verbatim>\<open>fs/path.c\<close>): normalisation into a caller's buffer, joining, parents,
  and the path arithmetic of chroot jails. A C string is the list of its characters before the
  terminator. The destination buffer is the list of the characters written so far; its size is a
  parameter, every write beyond it is \<^verbatim>\<open>Stuck\<close> (undefined behaviour), the return value
  -1 is \<open>Done None\<close> and success is \<open>Done (Some dest)\<close>.
\<close>

section \<open>Normalisation\<close>

abbreviation slash :: char where "slash \<equiv> CHR ''/''"

text \<open>
  The next component: at most 255 characters (the array \<^verbatim>\<open>comp\<close> has 256), up to a slash.
\<close>

definition next_comp :: "string \<Rightarrow> string" where
  "next_comp s = take 255 (takeWhile (\<lambda>c. c \<noteq> slash) s)"

text \<open>
  Going up one level: \<^verbatim>\<open>pos--\<close>, then back to just behind a slash, never below 1.
  The argument is the buffer reversed, so that the position moves along the list.
\<close>

fun back_to_slash :: "string \<Rightarrow> string" where
  "back_to_slash [] = []"
| "back_to_slash [c] = [c]"
| "back_to_slash (c # d # cs) = (if c = slash then c # d # cs else back_to_slash (d # cs))"

definition go_up :: "string \<Rightarrow> string" where
  "go_up dest = (if length dest > 1 then rev (back_to_slash (tl (rev dest))) else dest)"

lemma next_comp_shrinks: "s \<noteq> [] \<Longrightarrow> hd s \<noteq> slash \<Longrightarrow> next_comp s \<noteq> []"
  by (cases s) (simp_all add: next_comp_def)

lemma rest_shorter:
  assumes "dropWhile (\<lambda>c. c = slash) src \<noteq> []"
  shows "length (drop (length (next_comp (dropWhile (\<lambda>c. c = slash) src))) (dropWhile (\<lambda>c. c = slash) src)) < length src"
proof -
  let ?s = "dropWhile (\<lambda>c. c = slash) src"
  have "hd ?s \<noteq> slash" using hd_dropWhile [OF assms] by simp
  then have "0 < length (next_comp ?s)" using next_comp_shrinks [OF assms] by simp
  moreover have "length ?s \<le> length src" by (rule length_dropWhile_le)
  moreover have "length (drop n ?s) < length ?s" if "0 < n" for n using that assms by (simp del: dropWhile_eq_Nil_conv)
  ultimately show ?thesis by (meson less_le_trans)
qed

function normalize_loop :: "nat \<Rightarrow> string \<Rightarrow> string \<Rightarrow> string option" where
  "normalize_loop sz src dest =
     (let s = dropWhile (\<lambda>c. c = slash) src in
      if s = [] then Some dest
      else
        (let cmp = next_comp s; rest = drop (length cmp) s in
         if cmp = ''.'' then normalize_loop sz rest dest
         else if cmp = ''..'' then normalize_loop sz rest (go_up dest)
         else if length dest > 1 \<or> (length dest = 1 \<and> hd dest \<noteq> slash) then
           (if length dest + 1 \<ge> sz then None
            else if length dest + 1 + length cmp \<ge> sz then None
            else normalize_loop sz rest (dest @ [slash] @ cmp))
         else if length dest + length cmp \<ge> sz then None
         else normalize_loop sz rest (dest @ cmp)))"
  by pat_completeness auto
termination
  by (relation "measure (\<lambda>(sz, src, dest). length src)") (simp_all add: rest_shorter del: length_drop)

declare normalize_loop.simps [simp del]

definition normalize_path :: "string option \<Rightarrow> nat \<Rightarrow> string option kresult" where
  "normalize_path src sz =
     (case src of
        None \<Rightarrow> Done None
      | Some src \<Rightarrow>
          if sz = 0 then Done None
          else if src = '''' then (if sz < 2 then Done None else Done (Some ''/''))
          else
            (let dest = (if hd src = slash then ''/'' else '''');
                 rest = (if hd src = slash then tl src else src) in
             if length dest \<ge> sz then Stuck
             else (case normalize_loop sz rest dest of
                     None \<Rightarrow> Done None
                   | Some out \<Rightarrow>
                       if out = '''' then (if sz < 2 then Done None else Done (Some ''/''))
                       else Done (Some out))))"

section \<open>Joining, parents, jails\<close>

definition is_absolute_path :: "string option \<Rightarrow> bool" where
  "is_absolute_path path = (case path of None \<Rightarrow> False | Some p \<Rightarrow> p \<noteq> [] \<and> hd p = slash)"

definition join_paths :: "string option \<Rightarrow> string option \<Rightarrow> nat \<Rightarrow> string option kresult" where
  "join_paths base rel sz =
     (case (base, rel) of
        (Some b, Some r) \<Rightarrow>
          if sz = 0 then Done None
          else if is_absolute_path rel then normalize_path rel sz
          else if length b + 1 + length r \<ge> 512 then Done None
          else normalize_path (Some ((if b \<noteq> [] \<and> last b \<noteq> slash then b @ [slash] else b) @ r)) sz
      | _ \<Rightarrow> Done None)"

fun strip_slashes :: "string \<Rightarrow> string" where
  "strip_slashes [] = []"
| "strip_slashes [c] = [c]"
| "strip_slashes (c # d # cs) = (if c = slash then strip_slashes (d # cs) else c # d # cs)"

text \<open>\<^verbatim>\<open>strrchr(temp, '/')\<close>: the part before the last slash, if there is one.\<close>

definition before_last_slash :: "string \<Rightarrow> string option" where
  "before_last_slash s =
     (if slash \<in> set s then Some (rev (tl (dropWhile (\<lambda>c. c \<noteq> slash) (rev s)))) else None)"

definition get_parent_path :: "string option \<Rightarrow> nat \<Rightarrow> string option" where
  "get_parent_path path sz =
     (case path of
        None \<Rightarrow> None
      | Some p \<Rightarrow>
          if sz = 0 then None
          else if p = ''/'' then (if sz < 2 then None else Some ''/'')
          else
            (let temp = rev (strip_slashes (rev (take 255 p))) in
             case before_last_slash temp of
               None \<Rightarrow> if sz < 2 then None else Some ''.''
             | Some par \<Rightarrow>
                 if par = [] then (if sz < 2 then None else Some ''/'')
                 else if length par \<ge> sz then None
                 else Some par))"

definition no_root :: "string option \<Rightarrow> bool" where
  "no_root root = (case root of None \<Rightarrow> True | Some r \<Rightarrow> r = [] \<or> r = ''/'')"

definition ir0_path_apply_root :: "string option \<Rightarrow> string option \<Rightarrow> nat \<Rightarrow> string option kresult" where
  "ir0_path_apply_root root abs_user sz =
     (if abs_user = None \<or> sz = 0 then Done None
      else kbind (normalize_path abs_user 256) (\<lambda>nu.
        case nu of
          None \<Rightarrow> Done None
        | Some norm_user \<Rightarrow>
            if no_root root then normalize_path (Some norm_user) sz
            else kbind (normalize_path root 256) (\<lambda>nr.
              case nr of
                None \<Rightarrow> Done None
              | Some norm_root \<Rightarrow>
                  if norm_user = ''/'' then normalize_path (Some norm_root) sz
                  else join_paths (Some norm_root) (Some (tl norm_user)) sz)))"

definition ir0_path_under_root :: "string option \<Rightarrow> string option \<Rightarrow> bool kresult" where
  "ir0_path_under_root root cwd =
     (case cwd of
        None \<Rightarrow> Done False
      | Some c \<Rightarrow>
          if c = [] \<or> hd c \<noteq> slash then Done False
          else if no_root root then Done True
          else kbind (normalize_path root 256) (\<lambda>nr.
            case nr of
              None \<Rightarrow> Done False
            | Some norm_root \<Rightarrow>
                kbind (normalize_path cwd 256) (\<lambda>nc.
                  case nc of
                    None \<Rightarrow> Done False
                  | Some norm_cwd \<Rightarrow>
                      if norm_cwd = norm_root then Done True
                      else if take (length norm_root) norm_cwd \<noteq> norm_root then Done False
                      else Done (length norm_root < length norm_cwd \<and> norm_cwd ! length norm_root = slash))))"

definition copy_out :: "string \<Rightarrow> nat \<Rightarrow> string option" where
  "copy_out s sz = (if length s \<ge> sz then None else Some s)"

definition ir0_path_getcwd_visible :: "string option \<Rightarrow> string option \<Rightarrow> nat \<Rightarrow> string option kresult" where
  "ir0_path_getcwd_visible root cwd sz =
     (if cwd = None \<or> sz = 0 then Done None
      else kbind (normalize_path cwd 256) (\<lambda>nc.
        case nc of
          None \<Rightarrow> Done None
        | Some norm_cwd \<Rightarrow>
            if no_root root then Done (copy_out norm_cwd sz)
            else kbind (normalize_path root 256) (\<lambda>nr.
              case nr of
                None \<Rightarrow> Done None
              | Some norm_root \<Rightarrow>
                  kbind (ir0_path_under_root (Some norm_root) (Some norm_cwd)) (\<lambda>under.
                    if \<not> under then Done (copy_out norm_cwd sz)
                    else Done (copy_out (if norm_cwd = norm_root then ''/'' else drop (length norm_root) norm_cwd) sz)))))"

section \<open>Components\<close>

text \<open>
  What a path string names: the list of its components, empty pieces between slashes left out.
\<close>

fun pieces :: "string \<Rightarrow> string list" where
  "pieces [] = [[]]"
| "pieces (c # cs) = (if c = slash then [] # pieces cs else (c # hd (pieces cs)) # tl (pieces cs))"

definition comps :: "string \<Rightarrow> string list" where
  "comps s = filter (\<lambda>x. x \<noteq> []) (pieces s)"

lemma pieces_ne [simp]: "pieces s \<noteq> []"
  by (cases s) auto

lemma pieces_append_slash: "pieces (s @ slash # t) = pieces s @ pieces t"
  by (induction s) auto

lemma comps_append_slash: "comps (s @ slash # t) = comps s @ comps t"
  by (simp add: comps_def pieces_append_slash)

lemma comps_Nil [simp]: "comps [] = []"
  by (simp add: comps_def)

lemma comps_slash [simp]: "comps (slash # t) = comps t"
  using comps_append_slash [of "[]" t] by simp

lemma comps_snoc_slash [simp]: "comps (s @ [slash]) = comps s"
  using comps_append_slash [of s "[]"] by simp

lemma pieces_plain: "slash \<notin> set s \<Longrightarrow> pieces s = [s]"
  by (induction s) auto

lemma comps_plain: "slash \<notin> set s \<Longrightarrow> s \<noteq> [] \<Longrightarrow> comps s = [s]"
  by (simp add: comps_def pieces_plain)

lemma pieces_no_slash: "x \<in> set (pieces s) \<Longrightarrow> slash \<notin> set x"
proof (induction s arbitrary: x)
  case (Cons c s)
  then show ?case by (cases "pieces s") (auto split: if_splits)
qed simp

lemma comps_parts: "x \<in> set (comps s) \<Longrightarrow> x \<noteq> [] \<and> slash \<notin> set x"
  by (auto simp: comps_def dest: pieces_no_slash)

text \<open>The components the loop reads: pieces of at most 255 characters.\<close>

function chunks :: "string \<Rightarrow> string list" where
  "chunks src =
     (let s = dropWhile (\<lambda>c. c = slash) src in
      if s = [] then [] else next_comp s # chunks (drop (length (next_comp s)) s))"
  by pat_completeness auto
termination
  by (relation "measure length") (simp_all add: rest_shorter del: length_drop)

declare chunks.simps [simp del]

lemma next_comp_parts: "slash \<notin> set (next_comp s)"
  by (auto simp: next_comp_def dest!: in_set_takeD dest: set_takeWhileD)

lemma chunks_Nil: "dropWhile (\<lambda>c. c = slash) src = [] \<Longrightarrow> chunks src = []"
  by (subst chunks.simps) (simp add: Let_def del: dropWhile_eq_Nil_conv)

lemma chunks_Cons:
  "s = dropWhile (\<lambda>c. c = slash) src \<Longrightarrow> s \<noteq> [] \<Longrightarrow>
   chunks src = next_comp s # chunks (drop (length (next_comp s)) s)"
  by (subst chunks.simps) (simp only: Let_def if_False)

lemma chunks_parts: "x \<in> set (chunks s) \<Longrightarrow> x \<noteq> [] \<and> slash \<notin> set x"
proof (induction s rule: chunks.induct)
  case (1 src)
  let ?s = "dropWhile (\<lambda>c. c = slash) src"
  show ?case
  proof (cases "?s = []")
    case True
    with 1(2) show ?thesis by (simp add: chunks_Nil del: dropWhile_eq_Nil_conv)
  next
    case False
    then have "x = next_comp ?s \<or> x \<in> set (chunks (drop (length (next_comp ?s)) ?s))"
      using 1(2) chunks_Cons [OF refl False] by simp
    moreover have "next_comp ?s \<noteq> []" by (rule next_comp_shrinks) (use False hd_dropWhile [OF False] in auto)
    ultimately show ?thesis using 1(1) [OF refl False] by (elim disjE) (simp_all add: next_comp_parts)
  qed
qed

text \<open>One step of the loop on the buffer, and the loop as a fold over the chunks.\<close>

definition push :: "nat \<Rightarrow> string \<Rightarrow> string \<Rightarrow> string option" where
  "push sz cmp dest =
     (if cmp = ''.'' then Some dest
      else if cmp = ''..'' then Some (go_up dest)
      else if length dest > 1 \<or> (length dest = 1 \<and> hd dest \<noteq> slash) then
        (if length dest + 1 + length cmp \<ge> sz then None else Some (dest @ [slash] @ cmp))
      else if length dest + length cmp \<ge> sz then None else Some (dest @ cmp))"

fun push_all :: "nat \<Rightarrow> string list \<Rightarrow> string \<Rightarrow> string option" where
  "push_all sz [] dest = Some dest"
| "push_all sz (c # cs) dest = Option.bind (push sz c dest) (push_all sz cs)"

lemma normalize_loop_push: "normalize_loop sz src dest = push_all sz (chunks src) dest"
proof (induction sz src dest rule: normalize_loop.induct)
  case (1 sz src dest)
  let ?s = "dropWhile (\<lambda>c. c = slash) src"
  show ?case
  proof (cases "?s = []")
    case True
    then show ?thesis by (simp add: normalize_loop.simps [of sz src] chunks_Nil del: dropWhile_eq_Nil_conv)
  next
    case False
    note IH = 1 [OF refl False refl refl]
    have c: "chunks src = next_comp ?s # chunks (drop (length (next_comp ?s)) ?s)"
      by (rule chunks_Cons [OF refl False])
    show ?thesis
      unfolding c normalize_loop.simps [of sz src dest] Let_def using False IH
      by (auto simp: push_def simp del: dropWhile_eq_Nil_conv)
  qed
qed

lemma push_all_append: "push_all sz (cs @ ds) dest = Option.bind (push_all sz cs dest) (push_all sz ds)"
  by (induction cs arbitrary: dest) (auto simp: bind_eq_Some_conv split: Option.bind_splits)

section \<open>Going up\<close>

lemma back_to_slash_suffix: "\<exists>p. s = p @ back_to_slash s"
  by (induction s rule: back_to_slash.induct) (auto, metis append_Cons)

lemma back_to_slash_shape: "s \<noteq> [] \<Longrightarrow> back_to_slash s \<noteq> [] \<and> (hd (back_to_slash s) = slash \<or> back_to_slash s = [last s])"
  by (induction s rule: back_to_slash.induct) auto

text \<open>In an absolute path, going up leaves a shorter absolute path that ends in a slash.\<close>

lemma go_up_absolute:
  assumes "dest \<noteq> []" "hd dest = slash" "1 < length dest"
  obtains p q where "dest = (p @ [slash]) @ q" "go_up dest = p @ [slash]" "q \<noteq> []"
proof -
  let ?t = "tl (rev dest)"
  have t: "?t \<noteq> []" using assms(3) by (metis length_greater_0_conv length_rev length_tl zero_less_diff)
  have lst: "last ?t = slash" using assms t by (metis last_rev last_tl hd_rev rev_rev_ident list.size(3))
  obtain q where q: "?t = q @ back_to_slash ?t" using back_to_slash_suffix by blast
  have b: "back_to_slash ?t \<noteq> []" "hd (back_to_slash ?t) = slash" using back_to_slash_shape [OF t] lst by auto
  have "rev dest = hd (rev dest) # ?t" using assms(1) by simp
  then have "rev dest = (hd (rev dest) # q) @ back_to_slash ?t" using q by simp
  then have d: "dest = rev (back_to_slash ?t) @ rev (hd (rev dest) # q)" by (metis rev_append rev_rev_ident)
  have r: "rev (back_to_slash ?t) = rev (tl (back_to_slash ?t)) @ [slash]" using b by (metis list.collapse rev.simps(2))
  have g: "go_up dest = rev (back_to_slash ?t)" using assms(3) by (simp add: go_up_def)
  show thesis by (rule that [of "rev (tl (back_to_slash ?t))" "rev (hd (rev dest) # q)"]) (use d r g in auto)
qed

lemma back_to_slash_plain: "slash \<notin> set x \<Longrightarrow> back_to_slash (x @ slash # r) = slash # r"
proof (induction x)
  case Nil
  then show ?case by (cases r) simp_all
next
  case (Cons c x)
  then show ?case by (cases x) auto
qed

lemma go_up_plain: "slash \<notin> set c \<Longrightarrow> c \<noteq> [] \<Longrightarrow> go_up (p @ slash # c) = p @ [slash]"
proof -
  assume c: "slash \<notin> set c" "c \<noteq> []"
  have "tl (rev (p @ slash # c)) = tl (rev c) @ slash # rev p" using c(2) by simp
  moreover have "slash \<notin> set (tl (rev c))" using c by (metis list.set_sel(2) rev_is_Nil_conv set_rev)
  ultimately have "back_to_slash (tl (rev (p @ slash # c))) = slash # rev p" by (simp add: back_to_slash_plain)
  with c(2) show ?thesis by (simp add: go_up_def)
qed

lemma go_up_trailing: "slash \<notin> set c \<Longrightarrow> c \<noteq> [] \<Longrightarrow> go_up (p @ slash # c @ [slash]) = p @ [slash]"
proof -
  assume c: "slash \<notin> set c" "c \<noteq> []"
  have "tl (rev (p @ slash # c @ [slash])) = rev c @ slash # rev p" by simp
  with c have "back_to_slash (tl (rev (p @ slash # c @ [slash]))) = slash # rev p" by (simp add: back_to_slash_plain)
  with c(2) show ?thesis by (simp add: go_up_def)
qed

section \<open>What normalisation keeps\<close>

text \<open>
  An absolute buffer: it starts with one slash, not two, and names no \<open>.\<close> and no \<open>..\<close>.
\<close>

definition abs_ok :: "string \<Rightarrow> bool" where
  "abs_ok d \<longleftrightarrow> d \<noteq> [] \<and> hd d = slash \<and> (1 < length d \<longrightarrow> d ! 1 \<noteq> slash) \<and> ''.'' \<notin> set (comps d) \<and> ''..'' \<notin> set (comps d)"

lemma abs_ok_root: "abs_ok ''/''"
  by (simp add: abs_ok_def comps_def)

lemma go_up_ok:
  assumes "abs_ok d"
  shows "abs_ok (go_up d)" "length (go_up d) \<le> length d"
proof -
  have "abs_ok (go_up d) \<and> length (go_up d) \<le> length d"
  proof (cases "1 < length d")
    case False
    with assms show ?thesis by (simp add: go_up_def)
  next
    case True
    have hd: "d \<noteq> []" "hd d = slash" using assms by (auto simp: abs_ok_def)
    from go_up_absolute [OF hd True] obtain p q where g: "d = (p @ [slash]) @ q" "go_up d = p @ [slash]" .
    have "comps d = comps p @ comps q" using g(1) comps_append_slash [of p q] by simp
    moreover have "hd (p @ [slash]) = hd d" using g(1) by (cases p) auto
    moreover have "(p @ [slash]) ! 1 = d ! 1" if "1 < length (p @ [slash])" using g(1) that by (simp only: nth_append if_True)
    ultimately show ?thesis using assms g by (auto simp: abs_ok_def)
  qed
  then show "abs_ok (go_up d)" "length (go_up d) \<le> length d" by auto
qed

lemma push_ok:
  assumes d: "abs_ok d" and c: "cmp \<noteq> []" "slash \<notin> set cmp" and p: "push sz cmp d = Some d'"
  shows "abs_ok d' \<and> (length d < sz \<longrightarrow> length d' < sz) \<and>
         (cmp \<noteq> ''.'' \<and> cmp \<noteq> ''..'' \<longrightarrow> comps d' = comps d @ [cmp])"
proof -
  consider (dot) "cmp = ''.''" | (up) "cmp = ''..''" | (add) "cmp \<noteq> ''.''" "cmp \<noteq> ''..''" by blast
  then show ?thesis
  proof cases
    case dot
    with p d show ?thesis by (simp add: push_def)
  next
    case up
    then have "d' = go_up d" using p by (simp add: push_def)
    with up go_up_ok [OF d] show ?thesis by auto
  next
    case add
    have hd: "d \<noteq> []" "hd d = slash" using d by (auto simp: abs_ok_def)
    have cc: "comps cmp = [cmp]" by (rule comps_plain [OF c(2,1)])
    show ?thesis
    proof (cases "1 < length d")
      case True
      then have d': "d' = d @ [slash] @ cmp" "length d + 1 + length cmp < sz"
        using p add by (auto simp: push_def split: if_splits)
      have "comps d' = comps d @ [cmp]" using d' cc comps_append_slash [of d cmp] by simp
      moreover have "d' ! 1 = d ! 1" using d' True by (simp add: nth_append)
      ultimately show ?thesis using d d' hd True add by (auto simp: abs_ok_def)
    next
      case False
      then have d1: "d = [slash]" using hd by (cases d; cases "tl d") auto
      then have d': "d' = slash # cmp" "1 + length cmp < sz"
        using p add by (auto simp: push_def split: if_splits)
      have "d' ! 1 \<noteq> slash" using d' c by (cases cmp) auto
      then show ?thesis using d' cc d1 add by (auto simp: abs_ok_def)
    qed
  qed
qed

lemma push_all_ok:
  assumes "abs_ok d" "\<forall>x \<in> set cs. x \<noteq> [] \<and> slash \<notin> set x" "push_all sz cs d = Some d'"
  shows "abs_ok d' \<and> (length d < sz \<longrightarrow> length d' < sz) \<and>
         (''.'' \<notin> set cs \<and> ''..'' \<notin> set cs \<longrightarrow> comps d' = comps d @ cs)"
  using assms
proof (induction cs arbitrary: d)
  case (Cons c cs)
  from Cons.prems(3) obtain e where e: "push sz c d = Some e" "push_all sz cs e = Some d'" by (auto simp: bind_eq_Some_conv)
  have c: "c \<noteq> []" "slash \<notin> set c" using Cons.prems(2) by auto
  note p = push_ok [OF Cons.prems(1) c e(1)]
  with Cons.IH [of e] Cons.prems(2) e(2) show ?case by auto
qed simp

lemma push_length: "push sz cmp d = Some d' \<Longrightarrow> length d < sz \<Longrightarrow> length d' < sz"
proof -
  assume a: "push sz cmp d = Some d'" "length d < sz"
  obtain p where "tl (rev d) = p @ back_to_slash (tl (rev d))" using back_to_slash_suffix by blast
  then have "length (back_to_slash (tl (rev d))) \<le> length (tl (rev d))" by (metis le_add2 length_append)
  then have "length (go_up d) \<le> length d" by (auto simp: go_up_def)
  with a show ?thesis by (auto simp: push_def split: if_splits)
qed

lemma push_all_length: "push_all sz cs d = Some d' \<Longrightarrow> length d < sz \<Longrightarrow> length d' < sz"
  by (induction cs arbitrary: d) (auto simp: bind_eq_Some_conv dest: push_length)

text \<open>Normalisation of an absolute path, in terms of its chunks.\<close>

lemma normalize_absolute:
  assumes "2 \<le> sz"
  shows "normalize_path (Some (slash # t)) sz = Done (push_all sz (chunks t) ''/'')"
proof -
  have "out \<noteq> []" if "push_all sz (chunks t) ''/'' = Some out" for out
    using push_all_ok [OF abs_ok_root _ that] chunks_parts by (auto simp: abs_ok_def)
  with assms show ?thesis by (auto simp: normalize_path_def normalize_loop_push Let_def split: option.split)
qed

lemma normalize_abs_ok:
  assumes "2 \<le> sz" "normalize_path (Some (slash # t)) sz = Done (Some out)"
  shows "abs_ok out \<and> length out < sz \<and> (''.'' \<notin> set (chunks t) \<and> ''..'' \<notin> set (chunks t) \<longrightarrow> comps out = chunks t)"
proof -
  have "push_all sz (chunks t) ''/'' = Some out" using assms normalize_absolute by simp
  from push_all_ok [OF abs_ok_root _ this] chunks_parts assms(1) show ?thesis
    by (auto simp: comps_def)
qed

section \<open>Chunks and components\<close>

lemma comps_dropWhile: "comps (dropWhile (\<lambda>c. c = slash) s) = comps s"
  by (induction s) auto

lemma comps_length: "x \<in> set (comps s) \<Longrightarrow> length x \<le> length s"
proof (induction s arbitrary: x)
  case (Cons c s)
  obtain w ws where w: "pieces s = w # ws" by (cases "pieces s") auto
  have IH: "length y \<le> length s" if "y \<in> set (pieces s)" for y
    using Cons.IH [of y] that by (cases "y = []") (auto simp: comps_def)
  show ?case using Cons.prems IH w by (auto simp: comps_def le_SucI split: if_splits)
qed (simp add: comps_def)

lemma chunks_comps: "\<forall>x \<in> set (comps s). length x \<le> 255 \<Longrightarrow> chunks s = comps s"
proof (induction s rule: chunks.induct)
  case (1 src)
  let ?s = "dropWhile (\<lambda>c. c = slash) src"
  show ?case
  proof (cases "?s = []")
    case True
    then show ?thesis using comps_dropWhile [of src] by (simp add: chunks_Nil del: dropWhile_eq_Nil_conv)
  next
    case False
    let ?w = "takeWhile (\<lambda>c. c \<noteq> slash) ?s" and ?r = "dropWhile (\<lambda>c. c \<noteq> slash) ?s"
    have s: "?s = ?w @ ?r" by simp
    have w: "?w \<noteq> []" "slash \<notin> set ?w" using False hd_dropWhile [OF False] by (cases ?s, auto dest: set_takeWhileD)
    have comps: "comps ?s = ?w # comps ?r"
    proof (cases ?r)
      case Nil
      then have "?s = ?w" using s by (simp only: append_Nil2)
      with Nil comps_plain [OF w(2,1)] show ?thesis by (simp only: comps_Nil)
    next
      case (Cons x r)
      have ne: "?r \<noteq> []" unfolding Cons by simp
      have "hd ?r = slash" using hd_dropWhile [OF ne] by blast
      then have "x = slash" unfolding Cons by simp
      with Cons have r: "?r = slash # r" by (simp only:)
      have "comps (?w @ ?r) = comps ?w @ comps r" unfolding r by (rule comps_append_slash)
      then have "comps ?s = comps ?w @ comps r" by (simp only: takeWhile_dropWhile_id)
      then show ?thesis unfolding comps_plain [OF w(2,1)] r by (simp only: comps_slash append_Cons append_Nil)
    qed
    then have cs: "comps src = ?w # comps ?r" by (simp add: comps_dropWhile)
    then have nc: "next_comp ?s = ?w" using 1(2) by (simp add: next_comp_def)
    have "drop (length (next_comp ?s)) ?s = ?r" unfolding nc by (metis append_eq_conv_conj s)
    with 1(1) [OF refl False] 1(2) chunks_Cons [OF refl False] nc cs show ?thesis by simp
  qed
qed

section \<open>Exact results\<close>

definition canon :: "string list \<Rightarrow> string" where
  "canon cs = (if cs = [] then ''/'' else concat (map (\<lambda>c. slash # c) cs))"

definition trail :: "string list \<Rightarrow> string" where
  "trail cs = (if cs = [] then ''/'' else canon cs @ [slash])"

lemma canon_snoc: "canon (cs @ [c]) = (if cs = [] then slash # c else canon cs @ slash # c)"
  by (simp add: canon_def)

lemma canon_ne [simp]: "canon cs \<noteq> []"
  by (cases cs) (simp_all add: canon_def)

lemma canon_hd: "hd (canon cs) = slash"
  by (cases cs) (simp_all add: canon_def)

lemma comps_canon: "\<forall>c \<in> set cs. c \<noteq> [] \<and> slash \<notin> set c \<Longrightarrow> comps (canon cs) = cs"
proof (induction cs rule: rev_induct)
  case (snoc c cs)
  then have "comps (canon cs) = cs" "comps c = [c]" by (simp_all add: comps_plain)
  with snoc.prems comps_append_slash [of "canon cs" c] show ?case by (simp add: canon_snoc)
qed (simp add: canon_def)

lemma push_all_canon:
  assumes "\<forall>c \<in> set (cs @ ds). c \<noteq> [] \<and> slash \<notin> set c" "''.'' \<notin> set ds" "''..'' \<notin> set ds" "length (canon (cs @ ds)) < sz"
  shows "push_all sz ds (canon cs) = Some (canon (cs @ ds))"
  using assms
proof (induction ds arbitrary: cs)
  case (Cons d ds)
  have grow: "length (canon (cs @ [d])) \<le> length (canon ((cs @ [d]) @ ds))"
    by (simp add: canon_def)
  have "push sz d (canon cs) = Some (canon (cs @ [d]))"
  proof (cases "cs = []")
    case True
    with Cons.prems grow show ?thesis by (auto simp: push_def canon_def)
  next
    case False
    moreover have "1 < length (canon cs)" using False Cons.prems(1) by (cases cs) (auto simp: canon_def neq_Nil_conv)
    ultimately show ?thesis using Cons.prems grow by (auto simp: push_def canon_snoc)
  qed
  with Cons.IH [of "cs @ [d]"] Cons.prems show ?case by simp
qed simp

lemma push_up_canon:
  assumes "c \<noteq> []" "slash \<notin> set c"
  shows "push sz ''..'' (canon (cs @ [c])) = Some (trail cs)" "push sz ''..'' (trail (cs @ [c])) = Some (trail cs)"
  using go_up_plain [OF assms(2,1), of "canon cs"] go_up_plain [OF assms(2,1), of "[]"]
    go_up_trailing [OF assms(2,1), of "canon cs"] go_up_trailing [OF assms(2,1), of "[]"]
  by (auto simp: push_def trail_def canon_snoc)

lemma push_ups_trail:
  assumes "\<forall>c \<in> set cs. c \<noteq> [] \<and> slash \<notin> set c"
  shows "push_all sz (replicate k ''..'') (trail cs) = Some (trail (take (length cs - k) cs))"
  using assms
proof (induction k arbitrary: cs)
  case (Suc k)
  show ?case
  proof (cases cs rule: rev_cases)
    case Nil
    then have "push sz ''..'' (trail cs) = Some (trail cs)" by (simp add: push_def trail_def go_up_def)
    with Suc.IH [of cs] Nil show ?thesis by simp
  next
    case (snoc ds d)
    then have "push sz ''..'' (trail cs) = Some (trail ds)" using push_up_canon(2) [of d] Suc.prems by simp
    with Suc.IH [of ds] Suc.prems snoc show ?thesis by simp
  qed
qed simp

lemma push_all_dots: "push_all sz cs d = push_all sz (filter (\<lambda>c. c \<noteq> ''.'') cs) d"
proof (induction cs arbitrary: d)
  case (Cons c cs)
  show ?case
  proof (cases "c = ''.''")
    case True
    then have "push sz c d = Some d" by (simp add: push_def)
    with True Cons show ?thesis by simp
  next
    case False
    have "push_all sz cs = push_all sz (filter (\<lambda>c. c \<noteq> ''.'') cs)" by (rule ext) (rule Cons)
    with False show ?thesis by simp
  qed
qed simp

lemma comps_trail: "\<forall>c \<in> set cs. c \<noteq> [] \<and> slash \<notin> set c \<Longrightarrow> comps (trail cs) = cs"
  by (simp add: trail_def comps_canon comps_def [of "[]"])

section \<open>Properties\<close>

text \<open>
  Normalisation is memory safe and its result is clean. With a buffer of at least two bytes
  \<^verbatim>\<open>normalize_path\<close> writes only inside it, for every input; a result fits with its
  terminator; and the result of an absolute path is absolute, does not start with two slashes,
  and has no component \<open>.\<close> or \<open>..\<close> left.
\<close>

theorem normalize_path_safe:
  assumes "2 \<le> sz"
  shows "\<exists>r. normalize_path src sz = Done r \<and>
     (\<forall>out. r = Some out \<longrightarrow> out \<noteq> [] \<and> length out < sz \<and>
        (\<forall>t. src = Some (slash # t) \<longrightarrow> hd out = slash \<and> (1 < length out \<longrightarrow> out ! 1 \<noteq> slash) \<and>
           ''.'' \<notin> set (comps out) \<and> ''..'' \<notin> set (comps out)))"
proof (cases "\<exists>t. src = Some (slash # t)")
  case True
  then obtain t where t: "src = Some (slash # t)" by blast
  with normalize_absolute [OF assms, of t] normalize_abs_ok [OF assms, of t] show ?thesis
    by (auto simp: abs_ok_def)
next
  case False
  have "length out < sz" if "push_all sz cs '''' = Some out" for cs out
    by (rule push_all_length [OF that]) (use assms in simp)
  with False assms show ?thesis
    by (cases src; cases "the src") (auto simp: normalize_path_def Let_def normalize_loop_push split: option.split)
qed

text \<open>
  Normalisation is exact for a path that goes up only at its end. If, \<open>.\<close> aside, the
  components of an absolute path are \<open>cs\<close> followed by \<open>k\<close> times \<open>..\<close>, and \<open>cs\<close> fits the
  buffer, normalisation succeeds and the result names \<open>cs\<close> without its last \<open>k\<close> components (the
  root if there are no more); without \<open>..\<close> it is the canonical string of \<open>cs\<close>.
\<close>

theorem normalize_path_exact:
  assumes "2 \<le> sz" "filter (\<lambda>c. c \<noteq> ''.'') (chunks t) = cs @ replicate k ''..''" "''..'' \<notin> set cs" "length (canon cs) < sz"
  shows "\<exists>out. normalize_path (Some (slash # t)) sz = Done (Some out) \<and> comps out = take (length cs - k) cs \<and>
               (k = 0 \<longrightarrow> out = canon cs)"
proof -
  have mem: "set cs \<subseteq> set (filter (\<lambda>c. c \<noteq> ''.'') (chunks t))" unfolding assms(2) by simp
  then have parts: "\<forall>c \<in> set cs. c \<noteq> [] \<and> slash \<notin> set c" "''.'' \<notin> set cs" using chunks_parts by auto
  have 1: "push_all sz cs ''/'' = Some (canon cs)"
    using push_all_canon [of "[]" cs sz] parts assms(3,4) by (simp add: canon_def)
  have norm: "normalize_path (Some (slash # t)) sz = Done (push_all sz (replicate k ''..'') (canon cs))"
    unfolding normalize_absolute [OF assms(1)] push_all_dots [of sz "chunks t"] assms(2) push_all_append 1 by simp
  show ?thesis
  proof (cases k)
    case 0
    with norm comps_canon [OF parts(1)] show ?thesis by simp
  next
    case (Suc j)
    have "push_all sz (replicate k ''..'') (canon cs) = Some (trail (take (length cs - k) cs))"
    proof (cases cs rule: rev_cases)
      case Nil
      then have "canon cs = trail cs" by (simp add: canon_def trail_def)
      with push_ups_trail [of cs sz k] parts(1) show ?thesis by simp
    next
      case (snoc ds d)
      then have "push sz ''..'' (canon cs) = Some (trail ds)" using push_up_canon(1) [of d] parts(1) by simp
      with push_ups_trail [of ds sz j] parts(1) snoc Suc show ?thesis by simp
    qed
    moreover have "comps (trail (take (length cs - k) cs)) = take (length cs - k) cs"
      by (rule comps_trail) (use parts(1) in \<open>auto dest: in_set_takeD\<close>)
    ultimately show ?thesis using norm Suc by simp
  qed
qed

lemma renormalize:
  assumes "abs_ok s" "\<forall>x \<in> set (comps s). length x \<le> 255" "2 \<le> sz" "normalize_path (Some s) sz = Done (Some out)"
  shows "abs_ok out \<and> comps out = comps s"
proof -
  obtain t where t: "s = slash # t" using assms(1) by (cases s) (auto simp: abs_ok_def)
  have "chunks t = comps s" using chunks_comps [of t] assms(2) by (simp add: t)
  with normalize_abs_ok [OF assms(3) assms(4) [unfolded t]] assms(1) show ?thesis by (auto simp: abs_ok_def)
qed

lemma short_comps: "length s < 256 \<Longrightarrow> \<forall>x \<in> set (comps s). length x \<le> 255"
  using comps_length [of _ s] by fastforce

text \<open>
  C26: A chroot jail holds. When \<^verbatim>\<open>ir0_path_apply_root\<close> maps an absolute user path
  through an absolute root other than the system root, whatever \<open>.\<close>, \<open>..\<close> and repeated slashes
  either contains, the result is an absolute path whose components are those of the normalised
  root followed by those of the normalised user path, none of them \<open>.\<close> or \<open>..\<close>: it never leaves
  the jail.
\<close>

theorem chroot_jail:
  assumes "ir0_path_apply_root (Some (slash # r)) (Some (slash # u)) sz = Done (Some out)" "r \<noteq> []" "2 \<le> sz"
  shows "\<exists>nr nu. normalize_path (Some (slash # r)) 256 = Done (Some nr) \<and>
           normalize_path (Some (slash # u)) 256 = Done (Some nu) \<and>
           comps out = comps nr @ comps nu \<and> hd out = slash \<and> ''.'' \<notin> set (comps out) \<and> ''..'' \<notin> set (comps out)"
proof -
  have nr0: "\<not> no_root (Some (slash # r))" using assms(2) by (simp add: no_root_def)
  obtain nu nr where n: "normalize_path (Some (slash # u)) 256 = Done (Some nu)" "normalize_path (Some (slash # r)) 256 = Done (Some nr)"
    and res: "(if nu = ''/'' then normalize_path (Some nr) sz else join_paths (Some nr) (Some (tl nu)) sz) = Done (Some out)"
    using assms(1,3) nr0 by (auto simp: ir0_path_apply_root_def kbind_Done_iff split: option.splits)
  have u: "abs_ok nu" "length nu < 256" and rr: "abs_ok nr" "length nr < 256"
    using normalize_abs_ok [OF _ n(1)] normalize_abs_ok [OF _ n(2)] by auto
  have "abs_ok out \<and> comps out = comps nr @ comps nu"
  proof (cases "nu = ''/''")
    case True
    with res renormalize [OF rr(1) short_comps [OF rr(2)] assms(3), of out] show ?thesis by (simp add: comps_def)
  next
    case False
    obtain v where v: "nu = slash # v" "v \<noteq> []" using u(1) False by (cases nu) (auto simp: abs_ok_def)
    have rel: "\<not> is_absolute_path (Some v)"
      using u(1) v by (cases v) (auto simp: is_absolute_path_def abs_ok_def)
    let ?b = "if nr \<noteq> [] \<and> last nr \<noteq> slash then nr @ [slash] else nr"
    obtain p where p: "?b = p @ [slash]" "comps nr = comps p"
    proof (cases "last nr = slash")
      case True
      then have "nr = butlast nr @ [slash]" using rr(1) by (metis abs_ok_def append_butlast_last_id)
      with True that [of "butlast nr"] show ?thesis by (metis comps_snoc_slash)
    next
      case False
      with that [of nr] rr(1) show ?thesis by (simp add: abs_ok_def)
    qed
    have "join_paths (Some nr) (Some v) sz = normalize_path (Some (?b @ v)) sz"
      using res False v rel assms(3) by (auto simp: join_paths_def split: if_splits)
    then have norm: "normalize_path (Some (?b @ v)) sz = Done (Some out)" using res False v by simp
    have cb: "comps (?b @ v) = comps nr @ comps nu" using p comps_append_slash [of p v] v by simp
    have hdb: "?b @ v \<noteq> []" "hd (?b @ v) = slash" using rr(1) by (auto simp: abs_ok_def)
    have second: "(?b @ v) ! 1 \<noteq> slash" if "1 < length (?b @ v)"
    proof (cases "1 < length nr")
      case True
      with rr(1) show ?thesis by (simp add: abs_ok_def nth_append)
    next
      case False
      then have "nr = [slash]" using rr(1) by (cases nr; cases "tl nr") (auto simp: abs_ok_def)
      with rel v show ?thesis by (simp add: is_absolute_path_def hd_conv_nth)
    qed
    have "abs_ok (?b @ v)" unfolding abs_ok_def using cb hdb second u(1) rr(1) by (auto simp: abs_ok_def)
    moreover have "\<forall>x \<in> set (comps (?b @ v)). length x \<le> 255"
      unfolding cb using short_comps [OF u(2)] short_comps [OF rr(2)] by auto
    ultimately show ?thesis using renormalize [OF _ _ assms(3) norm] cb by simp
  qed
  with n show ?thesis by (auto simp: abs_ok_def)
qed

theorem normalize_path_safe_witness:
  "\<exists>r. normalize_path (Some ''/a/../b'') 256 = Done r \<and>
     (\<forall>out. r = Some out \<longrightarrow> out \<noteq> [] \<and> length out < 256 \<and>
        (\<forall>t. Some ''/a/../b'' = Some (slash # t) \<longrightarrow> hd out = slash \<and> (1 < length out \<longrightarrow> out ! 1 \<noteq> slash) \<and>
           ''.'' \<notin> set (comps out) \<and> ''..'' \<notin> set (comps out)))"
  by (rule normalize_path_safe) simp

theorem normalize_path_exact_witness:
  "\<exists>out. normalize_path (Some ''/ab//./c/d/../..'') 64 = Done (Some out) \<and> comps out = take (3 - 2) [''ab'', ''c'', ''d''] \<and>
         ((2::nat) = 0 \<longrightarrow> out = canon [''ab'', ''c'', ''d''])"
proof -
  have "filter (\<lambda>c. c \<noteq> ''.'') (chunks ''ab//./c/d/../..'') = [''ab'', ''c'', ''d''] @ replicate 2 ''..''"
    by code_simp
  with normalize_path_exact [of 64 "''ab//./c/d/../..''" "[''ab'', ''c'', ''d'']" 2] show ?thesis
    by (simp add: canon_def)
qed

theorem chroot_jail_witness:
  "\<exists>nr nu. normalize_path (Some ''/srv/./jail'') 256 = Done (Some nr) \<and>
     normalize_path (Some ''/../../etc/x'') 256 = Done (Some nu) \<and>
     comps ''/srv/jail/etc/x'' = comps nr @ comps nu \<and> hd ''/srv/jail/etc/x'' = slash \<and>
     ''.'' \<notin> set (comps ''/srv/jail/etc/x'') \<and> ''..'' \<notin> set (comps ''/srv/jail/etc/x'')"
proof -
  have "ir0_path_apply_root (Some ''/srv/./jail'') (Some ''/../../etc/x'') 256 = Done (Some ''/srv/jail/etc/x'')"
    by code_simp
  from chroot_jail [OF this] show ?thesis by simp
qed

text \<open>
  Three inputs on which \<^verbatim>\<open>fs/path.c\<close> does not normalise. After \<open>..\<close> the buffer keeps
  its trailing slash, so the next component is preceded by two and a later \<open>..\<close> only removes one
  of them; a chroot root that ends in \<open>..\<close> therefore has a normal form with a trailing slash and
  directories inside the jail are judged to be outside; and a buffer of one byte is overrun.
\<close>

theorem normalize_path_slips:
  "normalize_path (Some ''/a/b/../c/..'') 256 = Done (Some ''/a//'') \<and>
   normalize_path (Some ''/a/b/../c/../..'') 256 = Done (Some ''/a/'') \<and>
   ir0_path_under_root (Some ''/a/b/..'') (Some ''/a/x'') = Done False \<and>
   normalize_path (Some ''/x'') 1 = Stuck"
  by code_simp

end
