(* ===== verification/Wait_Queue.thy ===== *)
theory Wait_Queue
  imports Rr_Sched
begin

text \<open>
  The wait queues and semaphores of \<^verbatim>\<open>kernel/ipc.c\<close>: first-in first-out lists of
  blocked processes. A wake-up puts the process into the run queue, here that of the round-robin
  scheduler. Queues are members of channels and semaphores, so their addresses are never NULL;
  their nodes live in a store of their own. The spinlocks of the source switch interrupts off on
  the one processor, so each function is one step.
\<close>

section \<open>State and operations\<close>

record wait_queue =
  wq_head :: "nat option"
  wq_tail :: "nat option"

record wq_sys =
  wq_nodes :: qstore
  wq_rr :: rr_state

definition wait_queue_contains :: "qstore \<Rightarrow> wait_queue \<Rightarrow> nat option \<Rightarrow> bool kresult" where
  "wait_queue_contains st wq p =
     (case p of
        None \<Rightarrow> Done False
      | Some proc \<Rightarrow> (case scan_for st (wq_head wq) proc of
                        None \<Rightarrow> Stuck
                      | Some found \<Rightarrow> Done (found \<noteq> None)))"

definition wait_queue_init :: "wait_queue" where
  "wait_queue_init = \<lparr>wq_head = None, wq_tail = None\<rparr>"

definition wq_set_state :: "nat \<Rightarrow> process_state \<Rightarrow> wq_sys \<Rightarrow> wq_sys" where
  "wq_set_state p st s =
     s\<lparr>wq_rr := (wq_rr s)\<lparr>rr_world := process_set_sched_state (Some p) st (rr_world (wq_rr s))\<rparr>\<rparr>"

text \<open>\<open>mem\<close> is the result of \<^verbatim>\<open>kmalloc\<close>.\<close>

definition wait_queue_add :: "nat option \<Rightarrow> nat option \<Rightarrow> wait_queue \<Rightarrow> wq_sys \<Rightarrow> (wait_queue \<times> wq_sys) kresult" where
  "wait_queue_add mem p wq s =
     (case (p, mem) of
        (Some proc, Some a) \<Rightarrow>
          (let s1 = s\<lparr>wq_nodes := (wq_nodes s)(a \<mapsto> \<lparr>process = proc, nxt = None\<rparr>)\<rparr> in
           kbind (wait_queue_contains (wq_nodes s1) wq p) (\<lambda>present.
             if present then Done (wq, s1\<lparr>wq_nodes := (wq_nodes s1)(a := None)\<rparr>)
             else case wq_head wq of
               None \<Rightarrow> Done (\<lparr>wq_head = Some a, wq_tail = Some a\<rparr>, wq_set_state proc PROCESS_BLOCKED s1)
             | Some h \<Rightarrow>
                 (case wq_tail wq of
                    None \<Rightarrow> Stuck
                  | Some t \<Rightarrow>
                      if wq_nodes s1 t = None then Stuck
                      else Done (wq\<lparr>wq_tail := Some a\<rparr>,
                             wq_set_state proc PROCESS_BLOCKED
                               (s1\<lparr>wq_nodes := set_nxt (wq_nodes s1) t (Some a)\<rparr>)))))
      | _ \<Rightarrow> Done (wq, s))"

text \<open>
  A woken process is marked READY and handed to \<^verbatim>\<open>sched_add_process\<close>, which allocates
  a node of its own: \<open>alloc\<close> is the address \<^verbatim>\<open>kmalloc\<close> gives it.
\<close>

definition wq_ready :: "(qstore \<Rightarrow> nat option) \<Rightarrow> nat \<Rightarrow> rr_state \<Rightarrow> rr_state kresult" where
  "wq_ready alloc proc r =
     (let r1 = r\<lparr>rr_world := process_set_sched_state (Some proc) PROCESS_READY (rr_world r)\<rparr> in
      sched_add_process ir0_rr_sched_ops (alloc (rr_nodes r1)) (Some proc) r1)"

definition wait_queue_wake_one ::
  "(qstore \<Rightarrow> nat option) \<Rightarrow> wait_queue \<Rightarrow> wq_sys \<Rightarrow> (nat option \<times> wait_queue \<times> wq_sys) kresult" where
  "wait_queue_wake_one alloc wq s =
     (case wq_head wq of
        None \<Rightarrow> Done (None, wq, s)
      | Some a \<Rightarrow>
          (case wq_nodes s a of
             None \<Rightarrow> Stuck
           | Some node \<Rightarrow>
               kbind (wq_ready alloc (process node) (wq_rr s)) (\<lambda>r.
                 Done (Some (process node),
                       \<lparr>wq_head = nxt node, wq_tail = (if nxt node = None then None else wq_tail wq)\<rparr>,
                       s\<lparr>wq_nodes := (wq_nodes s)(a := None), wq_rr := r\<rparr>))))"

partial_function (option) wake_walk ::
  "(qstore \<Rightarrow> nat option) \<Rightarrow> nat option \<Rightarrow> wq_sys \<Rightarrow> wq_sys kresult option" where
  "wake_walk alloc p s =
     (case p of
        None \<Rightarrow> Some (Done s)
      | Some a \<Rightarrow>
          (case wq_nodes s a of
             None \<Rightarrow> Some Stuck
           | Some node \<Rightarrow>
               (case wq_ready alloc (process node) (wq_rr s) of
                  Done r \<Rightarrow> wake_walk alloc (nxt node) (s\<lparr>wq_nodes := (wq_nodes s)(a := None), wq_rr := r\<rparr>)
                | Panic m \<Rightarrow> Some (Panic m)
                | Stuck \<Rightarrow> Some Stuck)))"

definition wait_queue_wake_all ::
  "(qstore \<Rightarrow> nat option) \<Rightarrow> wait_queue \<Rightarrow> wq_sys \<Rightarrow> (wait_queue \<times> wq_sys) kresult" where
  "wait_queue_wake_all alloc wq s =
     (case wake_walk alloc (wq_head wq) s of
        None \<Rightarrow> Stuck
      | Some res \<Rightarrow> kbind res (\<lambda>s'. Done (\<lparr>wq_head = None, wq_tail = None\<rparr>, s')))"

record semaphore =
  sem_count :: "32 word"
  sem_wait_queue :: wait_queue

definition semaphore_init :: "32 word \<Rightarrow> semaphore" where
  "semaphore_init initial_count = \<lparr>sem_count = initial_count, sem_wait_queue = wait_queue_init\<rparr>"

definition semaphore_up :: "(qstore \<Rightarrow> nat option) \<Rightarrow> semaphore \<Rightarrow> wq_sys \<Rightarrow> (semaphore \<times> wq_sys) kresult" where
  "semaphore_up alloc sem s =
     kbind (wait_queue_wake_one alloc (sem_wait_queue sem) s) (\<lambda>(woken, wq, s').
       Done (\<lparr>sem_count = sem_count sem + 1, sem_wait_queue = wq\<rparr>, s'))"

section \<open>A wait queue is a list of processes\<close>

definition wq_rep :: "qstore \<Rightarrow> wait_queue \<Rightarrow> (nat \<times> nat) list \<Rightarrow> bool" where
  "wq_rep st wq xs \<longleftrightarrow> chain st (wq_head wq) xs \<and> wq_tail wq = last_addr None xs \<and> distinct (procs xs)"

lemma wq_rep_init: "wq_rep st wait_queue_init []"
  by (simp add: wq_rep_def wait_queue_init_def)

lemma wq_rep_cong: "(\<And>a. a \<in> set (addrs xs) \<Longrightarrow> st' a = st a) \<Longrightarrow> wq_rep st wq xs \<Longrightarrow> wq_rep st' wq xs"
  using chain_cong [of xs st' st "wq_head wq"] by (simp add: wq_rep_def)

text \<open>The parameter \<open>alloc\<close> returns the address of a block that is not in use.\<close>

definition alloc_ok :: "(qstore \<Rightarrow> nat option) \<Rightarrow> bool" where
  "alloc_ok alloc \<longleftrightarrow> (\<forall>st. finite (dom st) \<longrightarrow> (\<exists>a. alloc st = Some a \<and> a \<notin> dom st))"

text \<open>What adding does: the process goes to the back and sleeps, unless it waits already.\<close>

lemma wait_queue_add_rep:
  assumes rep: "wq_rep (wq_nodes s) wq xs" and fresh: "a \<notin> dom (wq_nodes s)"
  shows "\<exists>wq' s'. wait_queue_add (Some a) (Some p) wq s = Done (wq', s') \<and>
     (if p \<in> set (procs xs) then wq' = wq \<and> s' = s
      else wq_rep (wq_nodes s') wq' (xs @ [(a, p)]) \<and> dom (wq_nodes s') = insert a (dom (wq_nodes s)) \<and>
           (\<forall>b. b \<notin> set (addrs xs) \<longrightarrow> b \<noteq> a \<longrightarrow> wq_nodes s' b = wq_nodes s b) \<and>
           wq_rr s' = wq_rr (wq_set_state p PROCESS_BLOCKED s))"
proof -
  let ?st = "(wq_nodes s)(a \<mapsto> \<lparr>process = p, nxt = None\<rparr>)"
  have c: "chain (wq_nodes s) (wq_head wq) xs" and t: "wq_tail wq = last_addr None xs" and d: "distinct (procs xs)"
    using rep by (simp_all add: wq_rep_def)
  have a: "a \<notin> set (addrs xs)" using fresh chain_dom [OF c] by auto
  have c': "chain ?st (wq_head wq) xs" using c a by (subst chain_cong [of _ _ "wq_nodes s"]) auto
  have scan: "wait_queue_contains ?st wq (Some p) = Done (p \<in> set (procs xs))"
    using scan_for_chain [OF c', of p] find_proc_None [of p xs] by (simp add: wait_queue_contains_def)
  show ?thesis
  proof (cases "p \<in> set (procs xs)")
    case True
    have "?st(a := None) = wq_nodes s" using fresh by (auto simp: fun_eq_iff domIff)
    with True scan show ?thesis by (simp add: wait_queue_add_def Let_def)
  next
    case False
    show ?thesis
    proof (cases xs rule: rev_cases)
      case Nil
      with False scan c show ?thesis
        by (auto simp: wait_queue_add_def Let_def wq_rep_def wq_set_state_def)
    next
      case (snoc ys y)
      obtain b v where y: "y = (b, v)" by fastforce
      have h: "wq_head wq \<noteq> None" using c snoc chain_Nil_iff by fastforce
      have tl: "wq_tail wq = Some b" using t snoc y by simp
      have bn: "b \<in> dom (wq_nodes s)" "b \<noteq> a" using chain_dom [OF c] a snoc y by auto
      have link: "chain (set_nxt ?st b (Some a)) (wq_head wq) (xs @ [(a, p)])"
        using chain_link_last [of "wq_nodes s" "wq_head wq" ys b v a p] c a snoc y by simp
      then have "wq_rep (set_nxt ?st b (Some a)) (wq\<lparr>wq_tail := Some a\<rparr>) (xs @ [(a, p)])"
        using d False by (simp add: wq_rep_def)
      moreover have "\<forall>e. e \<notin> set (addrs xs) \<longrightarrow> e \<noteq> a \<longrightarrow> set_nxt ?st b (Some a) e = wq_nodes s e"
        using snoc y by (auto simp: set_nxt_def)
      ultimately show ?thesis using False scan h tl bn
        by (auto simp: wait_queue_add_def Let_def wq_set_state_def domIff simp del: dom_fun_upd)
    qed
  qed
qed

text \<open>Waking one: the longest waiting process leaves, becomes READY and enters the run queue.\<close>

lemma wq_ready_queues:
  assumes "rr_queues r Q" "alloc_ok alloc"
  shows "\<exists>r'. wq_ready alloc p r = Done r' \<and> rr_queues r' (insert p Q) \<and>
              rr_world r' = process_set_sched_state (Some p) PROCESS_READY (rr_world r)"
proof -
  let ?r = "r\<lparr>rr_world := process_set_sched_state (Some p) PROCESS_READY (rr_world r)\<rparr>"
  have q: "rr_queues ?r Q" using assms(1) by (simp add: rr_queues_def rr_rep_def)
  obtain xs where "rr_rep r xs" using assms(1) by (auto simp: rr_queues_def)
  then have "finite (dom (rr_nodes r))" by (simp add: rr_rep_def)
  then obtain a where a: "alloc (rr_nodes r) = Some a" "a \<notin> dom (rr_nodes r)"
    using assms(2) by (auto simp: alloc_ok_def)
  have "rr_fresh ?r a" using a(2) by (simp add: rr_fresh_def)
  from rr.add_law [OF q this, of p] a(1) show ?thesis
    by (auto simp: wq_ready_def Let_def sched_add_process_def process_set_sched_state_def set_state_def)
qed

lemma wake_one_rep:
  assumes rep: "wq_rep (wq_nodes s) wq ((a, p) # xs)" and "rr_queues (wq_rr s) Q" "alloc_ok alloc"
  shows "\<exists>wq' s'. wait_queue_wake_one alloc wq s = Done (Some p, wq', s') \<and> wq_rep (wq_nodes s') wq' xs \<and>
     wq_nodes s' = (wq_nodes s)(a := None) \<and> rr_queues (wq_rr s') (insert p Q) \<and>
     rr_world (wq_rr s') = process_set_sched_state (Some p) PROCESS_READY (rr_world (wq_rr s))"
proof -
  have c: "chain (wq_nodes s) (wq_head wq) ((a, p) # xs)" "wq_tail wq = last_addr (Some a) xs" "distinct (procs xs)"
    using rep by (simp_all add: wq_rep_def)
  from chain_unlink_head [OF c(1)] obtain q where q: "wq_nodes s a = Some \<lparr>process = p, nxt = q\<rparr>"
    "chain ((wq_nodes s)(a := None)) q xs" by blast
  obtain r where r: "wq_ready alloc p (wq_rr s) = Done r" "rr_queues r (insert p Q)"
    "rr_world r = process_set_sched_state (Some p) PROCESS_READY (rr_world (wq_rr s))"
    using wq_ready_queues [OF assms(2,3)] by blast
  have "(if q = None then None else wq_tail wq) = last_addr None xs"
    using c(2) chain_Nil_iff [OF q(2)] by (auto simp: last_addr_def)
  then have "wq_rep ((wq_nodes s)(a := None)) \<lparr>wq_head = q, wq_tail = (if q = None then None else wq_tail wq)\<rparr> xs"
    using q(2) c(3) by (simp add: wq_rep_def)
  with c(1) q(1) r show ?thesis by (auto simp: wait_queue_wake_one_def)
qed

lemma wake_one_empty: "wq_rep st wq [] \<Longrightarrow> wait_queue_wake_one alloc wq s = Done (None, wq, s)"
  by (simp add: wait_queue_wake_one_def wq_rep_def)

text \<open>Waking all: everybody leaves, in order, and no node is left behind.\<close>

definition ready_all :: "nat list \<Rightarrow> world \<Rightarrow> world" where
  "ready_all ps = fold (\<lambda>p. process_set_sched_state (Some p) PROCESS_READY) ps"

lemma ready_all_simps [simp]:
  "ready_all [] w = w" "ready_all (p # ps) w = ready_all ps (process_set_sched_state (Some p) PROCESS_READY w)"
  by (simp_all add: ready_all_def)

lemma wake_walk_chain:
  assumes "alloc_ok alloc"
  shows "chain (wq_nodes s) h xs \<Longrightarrow> rr_queues (wq_rr s) Q \<Longrightarrow>
   \<exists>s'. wake_walk alloc h s = Some (Done s') \<and> wq_nodes s' = wq_nodes s |` (- set (addrs xs)) \<and>
        rr_queues (wq_rr s') (Q \<union> set (procs xs)) \<and> rr_world (wq_rr s') = ready_all (procs xs) (rr_world (wq_rr s))"
proof (induction xs arbitrary: h s Q)
  case Nil
  then show ?case by (simp add: wake_walk.simps)
next
  case (Cons x xs)
  obtain a p where x: "x = (a, p)" by fastforce
  from chain_unlink_head [OF Cons.prems(1) [unfolded x]] obtain q
    where q: "wq_nodes s a = Some \<lparr>process = p, nxt = q\<rparr>" "chain ((wq_nodes s)(a := None)) q xs" by blast
  obtain r where r: "wq_ready alloc p (wq_rr s) = Done r" "rr_queues r (insert p Q)"
    "rr_world r = process_set_sched_state (Some p) PROCESS_READY (rr_world (wq_rr s))"
    using wq_ready_queues [OF Cons.prems(2) assms] by blast
  let ?s = "s\<lparr>wq_nodes := (wq_nodes s)(a := None), wq_rr := r\<rparr>"
  have h: "h = Some a" using Cons.prems(1) x by simp
  have step: "wake_walk alloc h s = wake_walk alloc q ?s"
    using h q(1) r(1) by (subst wake_walk.simps) simp
  have eq: "((wq_nodes s)(a := None)) |` (- set (addrs xs)) = wq_nodes s |` (- set (addrs (x # xs)))"
    by (auto simp: x restrict_map_def)
  have s: "wq_nodes ?s = (wq_nodes s)(a := None)" "wq_rr ?s = r" by simp_all
  have "\<exists>s'. wake_walk alloc q ?s = Some (Done s') \<and> wq_nodes s' = wq_nodes ?s |` (- set (addrs xs)) \<and>
     rr_queues (wq_rr s') (insert p Q \<union> set (procs xs)) \<and> rr_world (wq_rr s') = ready_all (procs xs) (rr_world (wq_rr ?s))"
    by (rule Cons.IH; unfold s) (rule q(2), rule r(2))
  then show ?case unfolding step s eq r(3) by (simp add: x)
qed

lemma wake_all_rep:
  assumes "wq_rep (wq_nodes s) wq xs" "rr_queues (wq_rr s) Q" "alloc_ok alloc"
  shows "\<exists>wq' s'. wait_queue_wake_all alloc wq s = Done (wq', s') \<and> wq_rep (wq_nodes s') wq' [] \<and>
     wq_nodes s' = wq_nodes s |` (- set (addrs xs)) \<and> rr_queues (wq_rr s') (Q \<union> set (procs xs)) \<and>
     rr_world (wq_rr s') = ready_all (procs xs) (rr_world (wq_rr s))"
  using wake_walk_chain [OF assms(3) _ assms(2), of "wq_head wq" xs] assms(1)
  by (auto simp: wait_queue_wake_all_def wq_rep_def)

lemma state_ready_all:
  "state (proc_at (ready_all ps w) p) = (if p \<in> set ps then PROCESS_READY else state (proc_at w p))"
  by (induction ps arbitrary: w) (auto simp: state_after_set)

section \<open>Sequences of operations\<close>

datatype wq_op = WAdd nat | WWakeOne | WWakeAll

text \<open>A run, with the processes woken in order; nodes for sleepers come from \<open>alloc\<close> too.\<close>

fun wq_run ::
  "(qstore \<Rightarrow> nat option) \<Rightarrow> wq_op list \<Rightarrow> wait_queue \<Rightarrow> wq_sys \<Rightarrow> (nat list \<times> wait_queue \<times> wq_sys) kresult" where
  "wq_run alloc [] wq s = Done ([], wq, s)"
| "wq_run alloc (WAdd p # ops) wq s =
     kbind (wait_queue_add (alloc (wq_nodes s)) (Some p) wq s) (\<lambda>(wq', s'). wq_run alloc ops wq' s')"
| "wq_run alloc (WWakeOne # ops) wq s =
     kbind (wait_queue_wake_one alloc wq s) (\<lambda>(woken, wq', s').
       kbind (wq_run alloc ops wq' s') (\<lambda>(ps, r).
         Done ((case woken of None \<Rightarrow> [] | Some p \<Rightarrow> [p]) @ ps, r)))"
| "wq_run alloc (WWakeAll # ops) wq s =
     kbind (wait_queue_wake_all alloc wq s) (\<lambda>(wq', s'). wq_run alloc ops wq' s')"

text \<open>The specification: a list of waiting processes, first in, first out.\<close>

fun waiters_run :: "wq_op list \<Rightarrow> nat list \<Rightarrow> nat list \<times> nat list \<times> nat list" where
  "waiters_run [] ws = ([], [], ws)"
| "waiters_run (WAdd p # ops) ws = waiters_run ops (if p \<in> set ws then ws else ws @ [p])"
| "waiters_run (WWakeOne # ops) ws =
     (let (one, rdy, ws') = waiters_run ops (tl ws) in (take 1 ws @ one, take 1 ws @ rdy, ws'))"
| "waiters_run (WWakeAll # ops) ws =
     (let (one, rdy, ws') = waiters_run ops [] in (one, ws @ rdy, ws'))"

lemma waiters_run_keeps:
  "waiters_run ops ws = (one, rdy, ws') \<Longrightarrow> set ws \<subseteq> set ws' \<union> set rdy"
proof (induction ops arbitrary: ws one rdy)
  case (Cons op ops)
  show ?case
  proof (cases op)
    case (WAdd p)
    with Cons.IH [of "if p \<in> set ws then ws else ws @ [p]"] Cons.prems show ?thesis by (auto split: if_splits)
  next
    case WWakeOne
    obtain o1 r1 where 1: "waiters_run ops (tl ws) = (o1, r1, ws')" "rdy = take 1 ws @ r1"
      using Cons.prems WWakeOne by (auto split: prod.splits)
    from Cons.IH [OF 1(1)] show ?thesis by (cases ws) (auto simp: 1(2))
  next
    case WWakeAll
    with Cons.prems show ?thesis by (auto split: prod.splits)
  qed
qed simp

definition sleeping :: "wq_sys \<Rightarrow> nat list \<Rightarrow> bool" where
  "sleeping s ws \<longleftrightarrow> (\<forall>p \<in> set ws. state (proc_at (rr_world (wq_rr s)) p) = PROCESS_BLOCKED)"

definition wq_inv :: "nat set \<Rightarrow> nat set \<Rightarrow> wait_queue \<Rightarrow> wq_sys \<Rightarrow> (nat \<times> nat) list \<Rightarrow> bool" where
  "wq_inv D Q wq s xs \<longleftrightarrow> wq_rep (wq_nodes s) wq xs \<and> finite D \<and> dom (wq_nodes s) = D \<union> set (addrs xs) \<and>
     D \<inter> set (addrs xs) = {} \<and> rr_queues (wq_rr s) Q \<and> sleeping s (procs xs)"

abbreviation pstate :: "wq_sys \<Rightarrow> nat \<Rightarrow> process_state" where
  "pstate s p \<equiv> state (proc_at (rr_world (wq_rr s)) p)"

lemma wq_inv_add:
  assumes "wq_inv D Q wq s xs" "alloc_ok alloc"
  shows "\<exists>wq' s' xs'. wait_queue_add (alloc (wq_nodes s)) (Some p) wq s = Done (wq', s') \<and> wq_inv D Q wq' s' xs' \<and>
     procs xs' = (if p \<in> set (procs xs) then procs xs else procs xs @ [p]) \<and>
     (\<forall>d \<in> D. wq_nodes s' d = wq_nodes s d) \<and> (\<forall>q. pstate s' q = (if q = p then PROCESS_BLOCKED else pstate s q))"
proof -
  have i: "wq_rep (wq_nodes s) wq xs" "finite D" "dom (wq_nodes s) = D \<union> set (addrs xs)" "D \<inter> set (addrs xs) = {}"
    "rr_queues (wq_rr s) Q" "sleeping s (procs xs)" using assms(1) by (simp_all add: wq_inv_def)
  have "finite (dom (wq_nodes s))" using i(2,3) by simp
  then obtain a where a: "alloc (wq_nodes s) = Some a" "a \<notin> dom (wq_nodes s)" using assms(2) by (auto simp: alloc_ok_def)
  obtain wq' s' where w: "wait_queue_add (Some a) (Some p) wq s = Done (wq', s')"
    "if p \<in> set (procs xs) then wq' = wq \<and> s' = s
      else wq_rep (wq_nodes s') wq' (xs @ [(a, p)]) \<and> dom (wq_nodes s') = insert a (dom (wq_nodes s)) \<and>
           (\<forall>b. b \<notin> set (addrs xs) \<longrightarrow> b \<noteq> a \<longrightarrow> wq_nodes s' b = wq_nodes s b) \<and>
           wq_rr s' = wq_rr (wq_set_state p PROCESS_BLOCKED s)"
    using wait_queue_add_rep [OF i(1) a(2)] by blast
  show ?thesis
  proof (cases "p \<in> set (procs xs)")
    case True
    then have "pstate s p = PROCESS_BLOCKED" using i(6) by (simp add: sleeping_def)
    with True w a(1) assms(1) show ?thesis by auto
  next
    case False
    then have w': "wq_rep (wq_nodes s') wq' (xs @ [(a, p)])" "dom (wq_nodes s') = insert a (dom (wq_nodes s))"
      "\<forall>b. b \<notin> set (addrs xs) \<longrightarrow> b \<noteq> a \<longrightarrow> wq_nodes s' b = wq_nodes s b"
      "wq_rr s' = wq_rr (wq_set_state p PROCESS_BLOCKED s)" using w(2) by simp_all
    have st: "\<forall>q. pstate s' q = (if q = p then PROCESS_BLOCKED else pstate s q)"
      unfolding w'(4) by (simp add: wq_set_state_def state_after_set)
    have "rr_queues (wq_rr s') Q" using i(5) unfolding w'(4) by (simp add: wq_set_state_def rr_queues_def rr_rep_def)
    moreover have "sleeping s' (procs (xs @ [(a, p)]))" using i(6) st by (auto simp: sleeping_def)
    ultimately have "wq_inv D Q wq' s' (xs @ [(a, p)])"
      using w'(1,2) i a(2) by (auto simp: wq_inv_def)
    moreover have "\<forall>d \<in> D. wq_nodes s' d = wq_nodes s d" using w'(3) i(3,4) a(2) by blast
    ultimately show ?thesis using w(1) a(1) st False by (intro exI [of _ wq'] exI [of _ s'] exI [of _ "xs @ [(a, p)]"]) simp
  qed
qed

lemma wq_inv_wake_one:
  assumes "wq_inv D Q wq s xs" "alloc_ok alloc"
  shows "\<exists>wq' s' xs'. wait_queue_wake_one alloc wq s = Done (if xs = [] then None else Some (hd (procs xs)), wq', s') \<and>
     wq_inv D (Q \<union> set (take 1 (procs xs))) wq' s' xs' \<and> procs xs' = tl (procs xs) \<and>
     (\<forall>d \<in> D. wq_nodes s' d = wq_nodes s d) \<and>
     (\<forall>q. pstate s' q = (if q \<in> set (take 1 (procs xs)) then PROCESS_READY else pstate s q))"
proof (cases xs)
  case Nil
  with assms wake_one_empty [of "wq_nodes s" wq alloc s] show ?thesis by (auto simp: wq_inv_def)
next
  case (Cons x ys)
  obtain a p where x: "x = (a, p)" by fastforce
  have i: "wq_rep (wq_nodes s) wq ((a, p) # ys)" "finite D" "dom (wq_nodes s) = D \<union> set (addrs xs)" "D \<inter> set (addrs xs) = {}"
    "rr_queues (wq_rr s) Q" "sleeping s (procs xs)" using assms(1) Cons x by (simp_all add: wq_inv_def)
  have d: "p \<notin> set (procs ys)" "a \<notin> set (addrs ys)"
    using i(1) chain_distinct [of "wq_nodes s" "wq_head wq" "(a, p) # ys"] by (auto simp: wq_rep_def)
  obtain wq' s' where w: "wait_queue_wake_one alloc wq s = Done (Some p, wq', s')" "wq_rep (wq_nodes s') wq' ys"
    "wq_nodes s' = (wq_nodes s)(a := None)" "rr_queues (wq_rr s') (insert p Q)"
    "rr_world (wq_rr s') = process_set_sched_state (Some p) PROCESS_READY (rr_world (wq_rr s))"
    using wake_one_rep [OF i(1,5) assms(2)] by blast
  have st: "\<forall>q. pstate s' q = (if q = p then PROCESS_READY else pstate s q)"
    unfolding w(5) by (simp add: state_after_set)
  have "sleeping s' (procs ys)" using i(6) st d Cons x by (auto simp: sleeping_def)
  then have "wq_inv D (insert p Q) wq' s' ys" using w(2-4) i(2-4) d Cons x by (auto simp: wq_inv_def)
  moreover have "\<forall>b \<in> D. wq_nodes s' b = wq_nodes s b" using w(3) i(4) Cons x by auto
  ultimately show ?thesis using w(1) st Cons x by (intro exI [of _ wq'] exI [of _ s'] exI [of _ ys]) simp
qed

lemma wq_inv_wake_all:
  assumes "wq_inv D Q wq s xs" "alloc_ok alloc"
  shows "\<exists>wq' s'. wait_queue_wake_all alloc wq s = Done (wq', s') \<and> wq_inv D (Q \<union> set (procs xs)) wq' s' [] \<and>
     (\<forall>d \<in> D. wq_nodes s' d = wq_nodes s d) \<and>
     (\<forall>q. pstate s' q = (if q \<in> set (procs xs) then PROCESS_READY else pstate s q))"
proof -
  have i: "wq_rep (wq_nodes s) wq xs" "rr_queues (wq_rr s) Q" "dom (wq_nodes s) = D \<union> set (addrs xs)" "D \<inter> set (addrs xs) = {}"
    "finite D" using assms(1) by (simp_all add: wq_inv_def)
  obtain wq' s' where w: "wait_queue_wake_all alloc wq s = Done (wq', s')" "wq_rep (wq_nodes s') wq' []"
    "wq_nodes s' = wq_nodes s |` (- set (addrs xs))" "rr_queues (wq_rr s') (Q \<union> set (procs xs))"
    "rr_world (wq_rr s') = ready_all (procs xs) (rr_world (wq_rr s))"
    using wake_all_rep [OF i(1,2) assms(2)] by blast
  have "dom (wq_nodes s') = D" using w(3) i(3,4) by auto
  then have "wq_inv D (Q \<union> set (procs xs)) wq' s' []" using w(2,4) i(5) by (simp add: wq_inv_def sleeping_def)
  moreover have "\<forall>b \<in> D. wq_nodes s' b = wq_nodes s b" using w(3) i(4) by (auto simp: restrict_map_def)
  moreover have "\<forall>q. pstate s' q = (if q \<in> set (procs xs) then PROCESS_READY else pstate s q)"
    using state_ready_all by (simp add: w(5))
  ultimately show ?thesis using w(1) by blast
qed

definition wq_settled :: "wq_sys \<Rightarrow> wq_sys \<Rightarrow> nat list \<Rightarrow> nat list \<Rightarrow> bool" where
  "wq_settled s s' rdy ws \<longleftrightarrow>
     (\<forall>p. pstate s' p = (if p \<in> set ws then PROCESS_BLOCKED else if p \<in> set rdy then PROCESS_READY else pstate s p))"

lemma wq_run_inv:
  assumes "alloc_ok alloc"
  shows "wq_inv D Q wq s xs \<Longrightarrow> waiters_run ops (procs xs) = (one, rdy, ws) \<Longrightarrow>
   \<exists>wq' s' xs'. wq_run alloc ops wq s = Done (one, wq', s') \<and> wq_inv D (Q \<union> set rdy) wq' s' xs' \<and> procs xs' = ws \<and>
     (\<forall>d \<in> D. wq_nodes s' d = wq_nodes s d) \<and> wq_settled s s' rdy ws"
proof (induction ops arbitrary: wq s xs Q one rdy)
  case Nil
  then show ?case by (auto simp: wq_settled_def wq_inv_def sleeping_def)
next
  case (Cons op ops)
  show ?case
  proof (cases op)
    case (WAdd p)
    obtain wq1 s1 xs1 where 1: "wait_queue_add (alloc (wq_nodes s)) (Some p) wq s = Done (wq1, s1)" "wq_inv D Q wq1 s1 xs1"
      "procs xs1 = (if p \<in> set (procs xs) then procs xs else procs xs @ [p])" "\<forall>d \<in> D. wq_nodes s1 d = wq_nodes s d"
      "\<forall>q. pstate s1 q = (if q = p then PROCESS_BLOCKED else pstate s q)"
      using wq_inv_add [OF Cons.prems(1) assms, of p] by blast
    have run: "waiters_run ops (procs xs1) = (one, rdy, ws)" using Cons.prems(2) WAdd 1(3) by simp
    obtain wq' s' xs' where 2: "wq_run alloc ops wq1 s1 = Done (one, wq', s')" "wq_inv D (Q \<union> set rdy) wq' s' xs'" "procs xs' = ws"
      "\<forall>d \<in> D. wq_nodes s' d = wq_nodes s1 d" "wq_settled s1 s' rdy ws"
      using Cons.IH [OF 1(2) run] by blast
    have "p \<in> set ws \<union> set rdy" using waiters_run_keeps [OF run] 1(3) by (auto split: if_splits)
    then have "wq_settled s s' rdy ws" using 2(5) 1(5) by (auto simp: wq_settled_def)
    then show ?thesis using 1 2 WAdd by (intro exI [of _ wq'] exI [of _ s'] exI [of _ xs']) simp
  next
    case WWakeOne
    let ?w = "take 1 (procs xs)"
    obtain wq1 s1 xs1 where 1: "wait_queue_wake_one alloc wq s = Done (if xs = [] then None else Some (hd (procs xs)), wq1, s1)"
      "wq_inv D (Q \<union> set ?w) wq1 s1 xs1" "procs xs1 = tl (procs xs)" "\<forall>d \<in> D. wq_nodes s1 d = wq_nodes s d"
      "\<forall>q. pstate s1 q = (if q \<in> set ?w then PROCESS_READY else pstate s q)"
      using wq_inv_wake_one [OF Cons.prems(1) assms] by blast
    obtain one1 rdy1 where run: "waiters_run ops (procs xs1) = (one1, rdy1, ws)" "one = ?w @ one1" "rdy = ?w @ rdy1"
      using Cons.prems(2) WWakeOne 1(3) by (auto split: prod.splits)
    obtain wq' s' xs' where 2: "wq_run alloc ops wq1 s1 = Done (one1, wq', s')" "wq_inv D (Q \<union> set ?w \<union> set rdy1) wq' s' xs'" "procs xs' = ws"
      "\<forall>d \<in> D. wq_nodes s' d = wq_nodes s1 d" "wq_settled s1 s' rdy1 ws"
      using Cons.IH [OF 1(2) run(1)] by blast
    have "wq_settled s s' rdy ws" using 2(5) 1(5) run(3) by (auto simp: wq_settled_def)
    moreover have "wq_run alloc (op # ops) wq s = Done (one, wq', s')"
      using WWakeOne 1(1) 2(1) run(2) by (cases xs) (auto simp: procs_def)
    ultimately show ?thesis using 1(4) 2 run(3) by (intro exI [of _ wq'] exI [of _ s'] exI [of _ xs']) (simp add: Un_assoc)
  next
    case WWakeAll
    obtain wq1 s1 where 1: "wait_queue_wake_all alloc wq s = Done (wq1, s1)" "wq_inv D (Q \<union> set (procs xs)) wq1 s1 []"
      "\<forall>d \<in> D. wq_nodes s1 d = wq_nodes s d" "\<forall>q. pstate s1 q = (if q \<in> set (procs xs) then PROCESS_READY else pstate s q)"
      using wq_inv_wake_all [OF Cons.prems(1) assms] by blast
    obtain rdy1 where run: "waiters_run ops (procs []) = (one, rdy1, ws)" "rdy = procs xs @ rdy1"
      using Cons.prems(2) WWakeAll by (auto split: prod.splits)
    obtain wq' s' xs' where 2: "wq_run alloc ops wq1 s1 = Done (one, wq', s')" "wq_inv D (Q \<union> set (procs xs) \<union> set rdy1) wq' s' xs'" "procs xs' = ws"
      "\<forall>d \<in> D. wq_nodes s' d = wq_nodes s1 d" "wq_settled s1 s' rdy1 ws"
      using Cons.IH [OF 1(2) run(1)] by blast
    have "wq_settled s s' rdy ws" using 2(5) 1(4) run(2) by (auto simp: wq_settled_def)
    then show ?thesis using 1 2 run(2) WWakeAll by (intro exI [of _ wq'] exI [of _ s'] exI [of _ xs']) (simp add: Un_assoc)
  qed
qed

section \<open>Properties\<close>

text \<open>
  A wait queue is a fair queue of sleepers. Through every sequence of additions and wake-ups
  of one or all, starting from any queue of blocked processes and any other queues \<open>D\<close> in the same
  heap, no pointer is lost or dangles and no node leaks; the processes \<^verbatim>\<open>wake_one\<close>
  returns are those of the first-in first-out specification, in its order; exactly the processes
  the specification still has waiting are in the list and BLOCKED; and every process woken (and
  not asleep again) is READY and in the run queue, all others keeping their state.
\<close>

theorem wait_queue_fair:
  assumes "alloc_ok alloc" "wq_inv D Q wq s xs" "waiters_run ops (procs xs) = (one, rdy, ws)"
  shows "\<exists>wq' s' xs'. wq_run alloc ops wq s = Done (one, wq', s') \<and> wq_rep (wq_nodes s') wq' xs' \<and> procs xs' = ws \<and>
     dom (wq_nodes s') = D \<union> set (addrs xs') \<and> (\<forall>d \<in> D. wq_nodes s' d = wq_nodes s d) \<and>
     rr_queues (wq_rr s') (Q \<union> set rdy) \<and> wq_settled s s' rdy ws"
  using wq_run_inv [OF assms] by (auto simp: wq_inv_def)

definition wq_demo :: wq_sys where
  "wq_demo = \<lparr>wq_nodes = Map.empty, wq_rr = rr_boot demo_world\<rparr>"

lemma wq_demo_inv: "wq_inv {} {} wait_queue_init wq_demo []"
  using rr_boot_rep [of demo_world]
  by (auto simp: wq_inv_def wq_rep_init wq_demo_def sleeping_def rr_queues_def)

lemma next_free_alloc: "alloc_ok (\<lambda>st. Some (next_free st))"
  using next_free_fresh by (simp add: alloc_ok_def)

theorem wait_queue_fair_witness:
  "\<exists>wq' s' xs'. wq_run (\<lambda>st. Some (next_free st)) [WAdd 7, WAdd 5, WAdd 7, WWakeOne, WAdd 9, WWakeOne] wait_queue_init wq_demo =
       Done ([7, 5], wq', s') \<and> wq_rep (wq_nodes s') wq' xs' \<and> procs xs' = [9] \<and>
     dom (wq_nodes s') = {} \<union> set (addrs xs') \<and> (\<forall>d \<in> {}. wq_nodes s' d = wq_nodes wq_demo d) \<and>
     rr_queues (wq_rr s') ({} \<union> set [7, 5]) \<and> wq_settled wq_demo s' [7, 5] [9]"
  by (rule wait_queue_fair [OF next_free_alloc wq_demo_inv]) simp

end
