(* ===== verification/Ipc.thy ===== *)
theory Ipc
  imports Wait_Queue Byte_Ring
begin

text \<open>
  IPC channels (\<^verbatim>\<open>kernel/ipc.c\<close>): a ring buffer with a queue of sleeping readers and one
  of sleeping writers, kept in a linked list of reference-counted channels. Channels live in an
  explicit store; using a freed one is \<^verbatim>\<open>Stuck\<close>. The spinlocks switch interrupts off on
  the one processor, so every locked region is one step; a caller that sleeps calls
  \<^verbatim>\<open>sched_schedule_next\<close>, and everything that runs until it returns there is the
  parameter \<open>sched\<close>. The semaphores of a channel are initialised and not used otherwise.
\<close>

section \<open>Ring buffers\<close>

record ring_buffer =
  rb_buffer :: "u8 list option"
  rb_size :: nat
  rb_read_pos :: nat
  rb_write_pos :: nat
  rb_count :: nat

text \<open>\<open>mem\<close> is the block \<^verbatim>\<open>kmalloc(size)\<close> returns; \<^verbatim>\<open>None\<close> stands for the result -1.\<close>

definition ring_buffer_init :: "u8 list option \<Rightarrow> nat \<Rightarrow> ring_buffer option" where
  "ring_buffer_init mem n =
     (if n = 0 then None
      else case mem of
             None \<Rightarrow> None
           | Some buf \<Rightarrow> Some \<lparr>rb_buffer = Some buf, rb_size = n, rb_read_pos = 0, rb_write_pos = 0, rb_count = 0\<rparr>)"

definition ring_buffer_destroy :: "ring_buffer \<Rightarrow> ring_buffer" where
  "ring_buffer_destroy rb = rb\<lparr>rb_buffer := None\<rparr>"

definition ring_buffer_available_write :: "ring_buffer \<Rightarrow> nat" where
  "ring_buffer_available_write rb = sub64 (rb_size rb) (rb_count rb)"

definition ring_buffer_available_read :: "ring_buffer \<Rightarrow> nat" where
  "ring_buffer_available_read rb = rb_count rb"

definition ring_buffer_empty :: "ring_buffer \<Rightarrow> bool" where
  "ring_buffer_empty rb \<longleftrightarrow> rb_count rb = 0"

definition ring_buffer_full :: "ring_buffer \<Rightarrow> bool" where
  "ring_buffer_full rb \<longleftrightarrow> rb_count rb \<ge> rb_size rb"

definition ring_buffer_write :: "u8 list option \<Rightarrow> ring_buffer \<Rightarrow> (nat \<times> ring_buffer) kresult" where
  "ring_buffer_write data rb =
     (case data of
        None \<Rightarrow> Done (0, rb)
      | Some src \<Rightarrow>
          if src = [] then Done (0, rb)
          else
            (let available = ring_buffer_available_write rb;
                 to_write = (if length src < available then length src else available) in
             case rb_buffer rb of
               None \<Rightarrow> if to_write = 0 then Done (0, rb) else Stuck
             | Some buf \<Rightarrow>
                 (let (buf', w) = ring_put (rb_size rb) buf (rb_write_pos rb) (take to_write src) in
                  Done (to_write, rb\<lparr>rb_buffer := Some buf', rb_write_pos := w, rb_count := add64 (rb_count rb) to_write\<rparr>))))"

text \<open>\<open>buf_ok\<close> says that the destination is not NULL.\<close>

definition ring_buffer_read :: "bool \<Rightarrow> nat \<Rightarrow> ring_buffer \<Rightarrow> (u8 list \<times> ring_buffer) kresult" where
  "ring_buffer_read buf_ok len rb =
     (if \<not> buf_ok \<or> len = 0 then Done ([], rb)
      else
        (let available = ring_buffer_available_read rb;
             to_read = (if len < available then len else available) in
         case rb_buffer rb of
           None \<Rightarrow> if to_read = 0 then Done ([], rb) else Stuck
         | Some buf \<Rightarrow>
             (let (bs, r) = ring_get (rb_size rb) buf (rb_read_pos rb) to_read in
              Done (bs, rb\<lparr>rb_read_pos := r, rb_count := sub64 (rb_count rb) to_read\<rparr>))))"

section \<open>Channels\<close>

record ipc_channel =
  ch_id :: u32
  ch_rb :: ring_buffer
  ch_readers :: int
  ch_writers :: int
  sem_read :: semaphore
  sem_write :: semaphore
  read_queue :: wait_queue
  write_queue :: wait_queue
  ch_lock :: u8
  ref_count :: int
  ch_next :: "nat option"

record ipc_sys =
  channels :: "nat \<rightharpoonup> ipc_channel"
  ipc_channels :: "nat option"
  next_channel_id :: u32
  ipc_wq :: wq_sys

abbreviation IPC_CHANNEL_BUFFER_SIZE :: nat where
  "IPC_CHANNEL_BUFFER_SIZE \<equiv> 4096"

partial_function (option) ipc_channel_find_locked :: "(nat \<rightharpoonup> ipc_channel) \<Rightarrow> nat option \<Rightarrow> u32 \<Rightarrow> nat option option" where
  "ipc_channel_find_locked st p ident =
     (case p of
        None \<Rightarrow> Some None
      | Some a \<Rightarrow> (case st a of
                     None \<Rightarrow> None
                   | Some c \<Rightarrow> if ch_id c = ident then Some (Some a) else ipc_channel_find_locked st (ch_next c) ident))"

definition ipc_channel_find :: "u32 \<Rightarrow> ipc_sys \<Rightarrow> nat option kresult" where
  "ipc_channel_find ident s =
     (case ipc_channel_find_locked (channels s) (ipc_channels s) ident of None \<Rightarrow> Stuck | Some r \<Rightarrow> Done r)"

text \<open>
  \<open>mem\<close> and \<open>buf\<close> are the results of the two \<^verbatim>\<open>kmalloc\<close> calls; when the second fails the
  first block is freed again.
\<close>

definition new_channel :: "u32 \<Rightarrow> ring_buffer \<Rightarrow> ipc_channel" where
  "new_channel ident rb =
     \<lparr>ch_id = ident, ch_rb = rb, ch_readers = 0, ch_writers = 0, sem_read = semaphore_init 0,
      sem_write = semaphore_init 4096, read_queue = wait_queue_init, write_queue = wait_queue_init,
      ch_lock = 0, ref_count = 0, ch_next = None\<rparr>"

definition ipc_channel_create :: "nat option \<Rightarrow> u8 list option \<Rightarrow> u32 \<Rightarrow> ipc_sys \<Rightarrow> nat option \<times> ipc_sys" where
  "ipc_channel_create mem buf ident s =
     (case mem of
        None \<Rightarrow> (None, s)
      | Some a \<Rightarrow>
          (case ring_buffer_init buf IPC_CHANNEL_BUFFER_SIZE of
             None \<Rightarrow> (None, s\<lparr>channels := (channels s)(a := None)\<rparr>)
           | Some rb \<Rightarrow> (Some a, s\<lparr>channels := (channels s)(a \<mapsto> new_channel ident rb)\<rparr>)))"

definition ipc_channel_destroy :: "(qstore \<Rightarrow> nat option) \<Rightarrow> nat option \<Rightarrow> ipc_sys \<Rightarrow> ipc_sys kresult" where
  "ipc_channel_destroy alloc channel s =
     (case channel of
        None \<Rightarrow> Done s
      | Some a \<Rightarrow>
          (case channels s a of
             None \<Rightarrow> Stuck
           | Some c \<Rightarrow>
               kbind (wait_queue_wake_all alloc (read_queue c) (ipc_wq s)) (\<lambda>(rq, w1).
                 kbind (wait_queue_wake_all alloc (write_queue c) w1) (\<lambda>(wq, w2).
                   let c1 = c\<lparr>read_queue := rq, write_queue := wq, ch_rb := ring_buffer_destroy (ch_rb c)\<rparr> in
                   Done (s\<lparr>channels := ((channels s)(a \<mapsto> c1))(a := None), ipc_wq := w2\<rparr>)))))"

fun id_search :: "nat \<Rightarrow> u32 \<Rightarrow> ipc_sys \<Rightarrow> u32 option kresult" where
  "id_search attempts candidate s =
     (if attempts = 0 then Done None
      else kbind (ipc_channel_find candidate s) (\<lambda>found.
        case found of
          None \<Rightarrow> Done (Some candidate)
        | Some _ \<Rightarrow> id_search (attempts - 1) (candidate + 1) s))"

declare id_search.simps [simp del]

definition ipc_get_next_available_id :: "ipc_sys \<Rightarrow> (u32 \<times> ipc_sys) kresult" where
  "ipc_get_next_available_id s =
     kbind (id_search 65536 (next_channel_id s) s) (\<lambda>r.
       case r of
         Some candidate \<Rightarrow>
           Done (candidate, if next_channel_id s \<le> candidate then s\<lparr>next_channel_id := candidate + 1\<rparr> else s)
       | None \<Rightarrow> Done (next_channel_id s, s\<lparr>next_channel_id := next_channel_id s + 1\<rparr>))"

definition ipc_allocate_channel_id :: "ipc_sys \<Rightarrow> (u32 \<times> ipc_sys) kresult" where
  "ipc_allocate_channel_id s = ipc_get_next_available_id s"

text \<open>
  Between the first look-up and the insertion nothing else runs on the one processor, but the
  source looks the identifier up again.
\<close>

definition ipc_channel_get_or_create ::
  "(qstore \<Rightarrow> nat option) \<Rightarrow> nat option \<Rightarrow> u8 list option \<Rightarrow> u32 \<Rightarrow> ipc_sys \<Rightarrow> (nat option \<times> ipc_sys) kresult" where
  "ipc_channel_get_or_create alloc mem buf ident s =
     kbind (ipc_channel_find ident s) (\<lambda>found.
       case found of
         Some a \<Rightarrow> Done (Some a, s)
       | None \<Rightarrow>
           (case ipc_channel_create mem buf ident s of
              (None, s1) \<Rightarrow> Done (None, s1)
            | (Some a, s1) \<Rightarrow>
                kbind (ipc_channel_find ident s1) (\<lambda>existing.
                  case existing of
                    Some b \<Rightarrow> kbind (ipc_channel_destroy alloc (Some a) s1) (\<lambda>s2. Done (Some b, s2))
                  | None \<Rightarrow>
                      Done (Some a,
                        s1\<lparr>channels := (channels s1)(a := map_option (\<lambda>c. c\<lparr>ch_next := ipc_channels s1\<rparr>) (channels s1 a)),
                           ipc_channels := Some a,
                           next_channel_id := (if next_channel_id s1 \<le> ident then ident + 1 else next_channel_id s1)\<rparr>))))"

definition upd_chan :: "nat \<Rightarrow> (ipc_channel \<Rightarrow> ipc_channel) \<Rightarrow> ipc_sys \<Rightarrow> ipc_sys" where
  "upd_chan a f s = s\<lparr>channels := (channels s)(a := map_option f (channels s a))\<rparr>"

definition ipc_channel_ref :: "nat option \<Rightarrow> ipc_sys \<Rightarrow> ipc_sys kresult" where
  "ipc_channel_ref channel s =
     (case channel of
        None \<Rightarrow> Done s
      | Some a \<Rightarrow> if channels s a = None then Stuck else Done (upd_chan a (\<lambda>c. c\<lparr>ref_count := ref_count c + 1\<rparr>) s))"

text \<open>\<^verbatim>\<open>while (prev && prev->next != channel) prev = prev->next;\<close>\<close>

partial_function (option) find_prev :: "(nat \<rightharpoonup> ipc_channel) \<Rightarrow> nat option \<Rightarrow> nat \<Rightarrow> nat option option" where
  "find_prev st p a =
     (case p of
        None \<Rightarrow> Some None
      | Some b \<Rightarrow> (case st b of
                     None \<Rightarrow> None
                   | Some c \<Rightarrow> if ch_next c = Some a then Some (Some b) else find_prev st (ch_next c) a))"

definition ipc_unlink :: "nat \<Rightarrow> ipc_channel \<Rightarrow> ipc_sys \<Rightarrow> ipc_sys kresult" where
  "ipc_unlink a c s =
     (if ipc_channels s = Some a then Done (s\<lparr>ipc_channels := ch_next c\<rparr>)
      else case find_prev (channels s) (ipc_channels s) a of
             None \<Rightarrow> Stuck
           | Some None \<Rightarrow> Done s
           | Some (Some b) \<Rightarrow> Done (upd_chan b (\<lambda>d. d\<lparr>ch_next := ch_next c\<rparr>) s))"

definition ipc_channel_unref :: "(qstore \<Rightarrow> nat option) \<Rightarrow> nat option \<Rightarrow> ipc_sys \<Rightarrow> ipc_sys kresult" where
  "ipc_channel_unref alloc channel s =
     (case channel of
        None \<Rightarrow> Done s
      | Some a \<Rightarrow>
          (case channels s a of
             None \<Rightarrow> Stuck
           | Some c \<Rightarrow>
               (let c1 = c\<lparr>ref_count := ref_count c - 1\<rparr>; s1 = s\<lparr>channels := (channels s)(a \<mapsto> c1)\<rparr> in
                if ref_count c1 \<le> 0
                then kbind (ipc_unlink a c1 s1) (\<lambda>s2. ipc_channel_destroy alloc (Some a) s2)
                else Done s1)))"

section \<open>Reading and writing\<close>

text \<open>
  One turn of the loop of \<^verbatim>\<open>ipc_channel_read\<close>: the bytes read and the end of the loop, or
  \<^verbatim>\<open>None\<close> when the caller has been put to sleep.
\<close>

definition ipc_read_turn :: "(qstore \<Rightarrow> nat option) \<Rightarrow> nat \<Rightarrow> nat \<Rightarrow> ipc_sys \<Rightarrow> (u8 list option \<times> ipc_sys) kresult" where
  "ipc_read_turn alloc a n s =
     (case channels s a of
        None \<Rightarrow> Stuck
      | Some c \<Rightarrow>
          if \<not> ring_buffer_empty (ch_rb c) then
            kbind (ring_buffer_read True n (ch_rb c)) (\<lambda>(bs, rb).
              let c1 = c\<lparr>ch_rb := rb\<rparr> in
              if bs \<noteq> [] then
                kbind (wait_queue_wake_one alloc (write_queue c1) (ipc_wq s)) (\<lambda>(woken, q, w).
                  Done (Some bs, s\<lparr>channels := (channels s)(a \<mapsto> c1\<lparr>write_queue := q\<rparr>), ipc_wq := w\<rparr>))
              else Done (Some bs, s\<lparr>channels := (channels s)(a \<mapsto> c1)\<rparr>))
          else if ch_writers c \<le> 0 then Done (Some [], s)
          else
            kbind (wait_queue_add (alloc (wq_nodes (ipc_wq s))) (current_process (rr_world (wq_rr (ipc_wq s))))
                     (read_queue c) (ipc_wq s)) (\<lambda>(q, w).
              Done (None, s\<lparr>channels := (channels s)(a \<mapsto> c\<lparr>read_queue := q\<rparr>), ipc_wq := w\<rparr>)))"

definition ipc_write_turn :: "(qstore \<Rightarrow> nat option) \<Rightarrow> nat \<Rightarrow> u8 list \<Rightarrow> ipc_sys \<Rightarrow> (nat option \<times> ipc_sys) kresult" where
  "ipc_write_turn alloc a src s =
     (case channels s a of
        None \<Rightarrow> Stuck
      | Some c \<Rightarrow>
          if \<not> ring_buffer_full (ch_rb c) then
            kbind (ring_buffer_write (Some src) (ch_rb c)) (\<lambda>(n, rb).
              let c1 = c\<lparr>ch_rb := rb\<rparr> in
              if n > 0 then
                kbind (wait_queue_wake_one alloc (read_queue c1) (ipc_wq s)) (\<lambda>(woken, q, w).
                  Done (Some n, s\<lparr>channels := (channels s)(a \<mapsto> c1\<lparr>read_queue := q\<rparr>), ipc_wq := w\<rparr>))
              else Done (Some n, s\<lparr>channels := (channels s)(a \<mapsto> c1)\<rparr>))
          else if ch_readers c \<le> 0 then Done (Some 0, s)
          else
            kbind (wait_queue_add (alloc (wq_nodes (ipc_wq s))) (current_process (rr_world (wq_rr (ipc_wq s))))
                     (write_queue c) (ipc_wq s)) (\<lambda>(q, w).
              Done (None, s\<lparr>channels := (channels s)(a \<mapsto> c\<lparr>write_queue := q\<rparr>), ipc_wq := w\<rparr>)))"

text \<open>A loop of turns, sleeping between them; it may not end.\<close>

partial_function (option) ipc_turns ::
  "(ipc_sys \<Rightarrow> ('r option \<times> ipc_sys) kresult) \<Rightarrow> (ipc_sys \<Rightarrow> ipc_sys) \<Rightarrow> ipc_sys \<Rightarrow> ('r \<times> ipc_sys) kresult option" where
  "ipc_turns turn sched s =
     (case turn s of
        Stuck \<Rightarrow> Some Stuck
      | Panic m \<Rightarrow> Some (Panic m)
      | Done (Some r, s') \<Rightarrow> Some (Done (r, s'))
      | Done (None, s') \<Rightarrow> ipc_turns turn sched (sched s'))"

text \<open>The calls; \<open>Done None\<close> inside the option is the result -1.\<close>

definition ipc_channel_read ::
  "(qstore \<Rightarrow> nat option) \<Rightarrow> (ipc_sys \<Rightarrow> ipc_sys) \<Rightarrow> nat option \<Rightarrow> bool \<Rightarrow> nat \<Rightarrow> ipc_sys \<Rightarrow>
   (u8 list option \<times> ipc_sys) kresult option" where
  "ipc_channel_read alloc sched channel buf_ok n s =
     (case channel of
        None \<Rightarrow> Some (Done (None, s))
      | Some a \<Rightarrow>
          if \<not> buf_ok \<or> n = 0 then Some (Done (None, s))
          else if current_process (rr_world (wq_rr (ipc_wq s))) = None then Some (Done (None, s))
          else if channels s a = None then Some Stuck
          else map_option (\<lambda>res. kbind res (\<lambda>(bs, s').
                 if channels s' a = None then Stuck
                 else Done (Some bs, upd_chan a (\<lambda>c. c\<lparr>ch_readers := ch_readers c - 1\<rparr>) s')))
               (ipc_turns (ipc_read_turn alloc a n) sched (upd_chan a (\<lambda>c. c\<lparr>ch_readers := ch_readers c + 1\<rparr>) s)))"

definition ipc_channel_write ::
  "(qstore \<Rightarrow> nat option) \<Rightarrow> (ipc_sys \<Rightarrow> ipc_sys) \<Rightarrow> nat option \<Rightarrow> u8 list option \<Rightarrow> ipc_sys \<Rightarrow>
   (nat option \<times> ipc_sys) kresult option" where
  "ipc_channel_write alloc sched channel data s =
     (case (channel, data) of
        (Some a, Some src) \<Rightarrow>
          if src = [] then Some (Done (None, s))
          else if current_process (rr_world (wq_rr (ipc_wq s))) = None then Some (Done (None, s))
          else if channels s a = None then Some Stuck
          else map_option (\<lambda>res. kbind res (\<lambda>(n, s').
                 if channels s' a = None then Stuck
                 else Done (Some n, upd_chan a (\<lambda>c. c\<lparr>ch_writers := ch_writers c - 1\<rparr>) s')))
               (ipc_turns (ipc_write_turn alloc a src) sched (upd_chan a (\<lambda>c. c\<lparr>ch_writers := ch_writers c + 1\<rparr>) s))
      | _ \<Rightarrow> Some (Done (None, s)))"

definition ipc_init :: "ipc_sys \<Rightarrow> ipc_sys" where
  "ipc_init s = s\<lparr>ipc_channels := None, next_channel_id := 1\<rparr>"

section \<open>The ring is a byte queue\<close>

definition rb_bytes :: "ring_buffer \<Rightarrow> u8 list" where
  "rb_bytes rb = ring_contents (rb_size rb) (the (rb_buffer rb)) (rb_read_pos rb) (rb_count rb)"

definition rb_ok :: "nat \<Rightarrow> ring_buffer \<Rightarrow> bool" where
  "rb_ok n rb \<longleftrightarrow> rb_buffer rb \<noteq> None \<and> rb_size rb = n \<and> n < two64 \<and>
     ring_ok n (the (rb_buffer rb)) (rb_read_pos rb) (rb_write_pos rb) (rb_count rb)"

lemma length_rb_bytes [simp]: "length (rb_bytes rb) = rb_count rb"
  by (simp add: rb_bytes_def)

lemma rb_ok_count: "rb_ok n rb \<Longrightarrow> rb_count rb \<le> n \<and> rb_size rb = n \<and> n < two64"
  by (simp add: rb_ok_def ring_ok_def)

lemma ring_buffer_init_ok:
  "ring_buffer_init (Some buf) n = Some rb \<Longrightarrow> length buf = n \<Longrightarrow> n < two64 \<Longrightarrow> rb_ok n rb \<and> rb_bytes rb = []"
  by (auto simp: ring_buffer_init_def rb_ok_def ring_ok_def rb_bytes_def ring_contents_def split: if_splits)

text \<open>A write accepts what fits, a read returns what is there, and neither goes wrong.\<close>

lemma ring_buffer_write_ok:
  assumes "rb_ok n rb"
  shows "\<exists>rb'. ring_buffer_write (Some src) rb = Done (min (length src) (n - rb_count rb), rb') \<and> rb_ok n rb' \<and>
     rb_bytes rb' = rb_bytes rb @ take (n - rb_count rb) src"
proof (cases "src = []")
  case True
  with assms show ?thesis by (simp add: ring_buffer_write_def)
next
  case False
  define k where "k = min (length src) (n - rb_count rb)"
  obtain buf where buf: "rb_buffer rb = Some buf" using assms by (auto simp: rb_ok_def)
  obtain buf' w where put: "ring_put n buf (rb_write_pos rb) (take k src) = (buf', w)" by fastforce
  note c = rb_ok_count [OF assms]
  have avail: "ring_buffer_available_write rb = n - rb_count rb" using c by (simp add: ring_buffer_available_write_def)
  have k: "length (take k src) = k" "rb_count rb + length (take k src) \<le> n" using c by (auto simp: k_def)
  have add: "add64 (rb_count rb) k = rb_count rb + k" using c k by (intro add64_small) simp
  have r: "ring_ok n buf (rb_read_pos rb) (rb_write_pos rb) (rb_count rb)" using assms buf by (simp add: rb_ok_def)
  let ?rb = "rb\<lparr>rb_buffer := Some buf', rb_write_pos := w, rb_count := rb_count rb + k\<rparr>"
  have "(if length src < n - rb_count rb then length src else n - rb_count rb) = k" by (simp add: k_def)
  then have "ring_buffer_write (Some src) rb = Done (k, ?rb)"
    using False buf put c by (simp add: ring_buffer_write_def avail Let_def add)
  moreover have "rb_ok n ?rb" "rb_bytes ?rb = rb_bytes rb @ take k src"
    using ring_ok_put [OF r k(2) put] k(1) c buf by (auto simp: rb_ok_def rb_bytes_def)
  moreover have "take k src = take (n - rb_count rb) src" by (simp add: k_def min_def)
  ultimately show ?thesis unfolding k_def [symmetric] by (intro exI [of _ ?rb]) simp
qed

lemma ring_buffer_read_ok:
  assumes "rb_ok n rb"
  shows "\<exists>rb'. ring_buffer_read True k rb = Done (take k (rb_bytes rb), rb') \<and> rb_ok n rb' \<and>
     rb_bytes rb' = drop k (rb_bytes rb)"
proof (cases "k = 0")
  case True
  with assms show ?thesis by (simp add: ring_buffer_read_def)
next
  case False
  define j where "j = (if k < rb_count rb then k else rb_count rb)"
  obtain buf where buf: "rb_buffer rb = Some buf" using assms by (auto simp: rb_ok_def)
  obtain bs r where get: "ring_get n buf (rb_read_pos rb) j = (bs, r)" by fastforce
  note c = rb_ok_count [OF assms]
  have j: "j \<le> rb_count rb" by (simp add: j_def)
  have sub: "sub64 (rb_count rb) j = rb_count rb - j" using c j by (intro sub64_small) simp_all
  have o: "ring_ok n buf (rb_read_pos rb) (rb_write_pos rb) (rb_count rb)" using assms buf by (simp add: rb_ok_def)
  let ?rb = "rb\<lparr>rb_read_pos := r, rb_count := rb_count rb - j\<rparr>"
  have "ring_buffer_read True k rb = Done (bs, ?rb)"
    using False buf get c by (simp add: ring_buffer_read_def ring_buffer_available_read_def Let_def sub j_def [symmetric])
  moreover have "take j (rb_bytes rb) = take k (rb_bytes rb)" "drop j (rb_bytes rb) = drop k (rb_bytes rb)"
    by (simp_all add: j_def)
  moreover have "rb_ok n ?rb" "rb_bytes ?rb = drop j (rb_bytes rb)" "bs = take j (rb_bytes rb)"
    using ring_ok_get [OF o j get] c buf by (simp_all add: rb_ok_def rb_bytes_def)
  ultimately show ?thesis by simp
qed

definition rb_wr :: "u8 list \<Rightarrow> ring_buffer \<Rightarrow> nat \<times> ring_buffer" where
  "rb_wr src rb = (case ring_buffer_write (Some src) rb of Done r \<Rightarrow> r | _ \<Rightarrow> (0, rb))"

definition rb_rd :: "nat \<Rightarrow> ring_buffer \<Rightarrow> u8 list \<times> ring_buffer" where
  "rb_rd k rb = (case ring_buffer_read True k rb of Done r \<Rightarrow> r | _ \<Rightarrow> ([], rb))"

interpretation chan_ring: byte_queue rb_wr rb_rd rb_bytes "rb_ok IPC_CHANNEL_BUFFER_SIZE" IPC_CHANNEL_BUFFER_SIZE
proof
  fix s :: ring_buffer and bs n s'
  assume "rb_ok IPC_CHANNEL_BUFFER_SIZE s" "rb_wr bs s = (n, s')"
  then show "rb_ok IPC_CHANNEL_BUFFER_SIZE s' \<and> n \<le> length bs \<and> rb_bytes s' = rb_bytes s @ take n bs"
    using ring_buffer_write_ok [of IPC_CHANNEL_BUFFER_SIZE s bs] by (auto simp: rb_wr_def min_def)
next
  fix s :: ring_buffer and k bs s'
  assume "rb_ok IPC_CHANNEL_BUFFER_SIZE s" "rb_rd k s = (bs, s')"
  then show "rb_ok IPC_CHANNEL_BUFFER_SIZE s' \<and> length bs \<le> k \<and> rb_bytes s = bs @ rb_bytes s'"
    using ring_buffer_read_ok [of IPC_CHANNEL_BUFFER_SIZE s k] by (auto simp: rb_rd_def)
next
  show "\<And>s. rb_ok IPC_CHANNEL_BUFFER_SIZE s \<Longrightarrow> length (rb_bytes s) \<le> IPC_CHANNEL_BUFFER_SIZE"
    using rb_ok_count by simp
qed

section \<open>The list of channels\<close>

text \<open>The channel list seen as a linked queue of identifiers.\<close>

definition chan_nodes :: "(nat \<rightharpoonup> ipc_channel) \<Rightarrow> qstore" where
  "chan_nodes st a = map_option (\<lambda>c. \<lparr>process = unat (ch_id c), nxt = ch_next c\<rparr>) (st a)"

definition ipc_list :: "ipc_sys \<Rightarrow> (nat \<times> nat) list \<Rightarrow> bool" where
  "ipc_list s cs \<longleftrightarrow> chain (chan_nodes (channels s)) (ipc_channels s) cs \<and> dom (channels s) = set (addrs cs) \<and>
     distinct (procs cs)"

lemma chan_nodes_Some:
  "chan_nodes st a = Some n \<longleftrightarrow> (\<exists>c. st a = Some c \<and> n = \<lparr>process = unat (ch_id c), nxt = ch_next c\<rparr>)"
  by (cases "st a") (auto simp: chan_nodes_def)

lemma chan_nodes_upd:
  "chan_nodes (st(a := v)) = (chan_nodes st)(a := map_option (\<lambda>c. \<lparr>process = unat (ch_id c), nxt = ch_next c\<rparr>) v)"
  by (auto simp: chan_nodes_def)

lemma chan_nodes_same:
  "st a = Some c \<Longrightarrow> ch_id c' = ch_id c \<Longrightarrow> ch_next c' = ch_next c \<Longrightarrow> chan_nodes (st(a \<mapsto> c')) = chan_nodes st"
  by (auto simp: chan_nodes_def)

lemma find_locked_chain:
  "chain (chan_nodes st) p cs \<Longrightarrow>
   ipc_channel_find_locked st p ident = Some (map_option fst (List.find (\<lambda>(a, v). v = unat ident) cs))"
proof (induction cs arbitrary: p)
  case Nil
  then show ?case by (simp add: ipc_channel_find_locked.simps)
next
  case (Cons x cs)
  obtain a v where x: "x = (a, v)" by fastforce
  from Cons.prems x obtain c where c: "st a = Some c" "unat (ch_id c) = v" "chain (chan_nodes st) (ch_next c) cs" "p = Some a"
    by (auto simp: chan_nodes_Some)
  show ?case
  proof (cases "v = unat ident")
    case True
    then have "ch_id c = ident" using c(2) by (simp add: word_unat_eq_iff)
    with True c x show ?thesis by (simp add: ipc_channel_find_locked.simps)
  next
    case False
    then have "ch_id c \<noteq> ident" using c(2) by auto
    then have "ipc_channel_find_locked st p ident = ipc_channel_find_locked st (ch_next c) ident"
      using c(1,4) by (subst ipc_channel_find_locked.simps) simp
    with False Cons.IH [OF c(3)] x show ?thesis by simp
  qed
qed

lemma ipc_find_list:
  "ipc_list s cs \<Longrightarrow> ipc_channel_find ident s = Done (map_option fst (List.find (\<lambda>(a, v). v = unat ident) cs))"
  using find_locked_chain [of "channels s" "ipc_channels s" cs ident] by (simp add: ipc_channel_find_def ipc_list_def)

lemma find_prev_chain:
  "chain (chan_nodes st) p (us @ (b, w) # (a, v) # vs) \<Longrightarrow> find_prev st p a = Some (Some b)"
proof (induction us arbitrary: p)
  case Nil
  then show ?case by (auto simp: chan_nodes_Some find_prev.simps)
next
  case (Cons x us)
  obtain e u where x: "x = (e, u)" by fastforce
  from Cons.prems x obtain c where c: "st e = Some c" "chain (chan_nodes st) (ch_next c) (us @ (b, w) # (a, v) # vs)" "p = Some e"
    by (auto simp: chan_nodes_Some)
  have "a \<notin> set (addrs (us @ [(b, w)]))" using chain_distinct [OF Cons.prems] by (cases x) auto
  then have "ch_next c \<noteq> Some a" using c(2) by (cases us) auto
  then have "find_prev st p a = find_prev st (ch_next c) a"
    using c(1,3) by (subst find_prev.simps) simp
  with Cons.IH [OF c(2)] show ?case by simp
qed

section \<open>The wait queues of all channels\<close>

definition chan_queue :: "bool \<Rightarrow> ipc_channel \<Rightarrow> wait_queue" where
  "chan_queue side c = (if side then read_queue c else write_queue c)"

text \<open>
  \<open>q (a, True)\<close> is the list of sleeping readers of the channel at \<open>a\<close>, \<open>q (a, False)\<close> that of its
  writers. The lists share no node and together are all the nodes there are.
\<close>

type_synonym sleepers = "nat \<times> bool \<Rightarrow> (nat \<times> nat) list"

definition queues_ok :: "(nat \<rightharpoonup> ipc_channel) \<Rightarrow> qstore \<Rightarrow> sleepers \<Rightarrow> bool" where
  "queues_ok st nodes q \<longleftrightarrow>
     (\<forall>a c side. st a = Some c \<longrightarrow> wq_rep nodes (chan_queue side c) (q (a, side))) \<and>
     (\<forall>a side. st a = None \<longrightarrow> q (a, side) = []) \<and>
     (\<forall>k k'. k \<noteq> k' \<longrightarrow> set (addrs (q k)) \<inter> set (addrs (q k')) = {}) \<and>
     dom nodes = (\<Union>k. set (addrs (q k))) \<and> finite (dom nodes)"

lemma queues_okD:
  assumes "queues_ok st nodes q"
  shows "st a = Some c \<Longrightarrow> wq_rep nodes (chan_queue side c) (q (a, side))" "st a = None \<Longrightarrow> q (a, side) = []"
    "k \<noteq> k' \<Longrightarrow> set (addrs (q k)) \<inter> set (addrs (q k')) = {}" "dom nodes = (\<Union>k. set (addrs (q k)))" "finite (dom nodes)"
  using assms unfolding queues_ok_def by (simp, simp, blast, simp, metis)

lemma queues_ok_change:
  assumes ok: "queues_ok st nodes q" and c: "st a = Some c"
    and rep: "wq_rep nodes' (chan_queue side c') ys" and other: "chan_queue (\<not> side) c' = chan_queue (\<not> side) c"
    and frame: "\<forall>b. b \<notin> set (addrs (q (a, side))) \<longrightarrow> b \<notin> set (addrs ys) \<longrightarrow> nodes' b = nodes b"
    and dom: "dom nodes' = (dom nodes - set (addrs (q (a, side)))) \<union> set (addrs ys)"
    and new: "set (addrs ys) \<subseteq> set (addrs (q (a, side))) \<union> - dom nodes"
  shows "queues_ok (st(a \<mapsto> c')) nodes' (q((a, side) := ys))"
proof -
  let ?q = "q((a, side) := ys)"
  note d = queues_okD [OF ok]
  have away: "set (addrs (q k)) \<inter> (set (addrs (q (a, side))) \<union> set (addrs ys)) = {}" if "k \<noteq> (a, side)" for k
    using new d(3) [OF that] d(4) by blast
  have rest: "wq_rep nodes' w (q k)" if "wq_rep nodes w (q k)" "k \<noteq> (a, side)" for k w
    by (rule wq_rep_cong [OF _ that(1)]) (use frame away [OF that(2)] in blast)
  have 1: "wq_rep nodes' (chan_queue sd e) (?q (b, sd))" if b: "(st(a \<mapsto> c')) b = Some e" for b e sd
  proof (cases "b = a")
    case True
    then have e: "e = c'" using b by simp
    show ?thesis
    proof (cases "sd = side")
      case False
      then have "chan_queue sd e = chan_queue sd c" using other e by (cases sd; cases side) simp_all
      with rest [OF d(1) [OF c]] False True show ?thesis by auto
    qed (use rep e True in simp)
  next
    case False
    with b rest [OF d(1) [of b e sd]] show ?thesis by auto
  qed
  have 2: "(st(a \<mapsto> c')) b = None \<longrightarrow> ?q (b, sd) = []" for b sd using d(2) by auto
  have 3: "set (addrs (?q k)) \<inter> set (addrs (?q k')) = {}" if "k \<noteq> k'" for k k'
    using that d(3) [OF that] away [of k] away [of k'] by (auto simp: fun_upd_apply)
  have 4: "dom nodes' = (\<Union>k. set (addrs (?q k)))"
  proof -
    have "(\<Union>k. set (addrs (q k))) - set (addrs (q (a, side))) = (\<Union>k \<in> - {(a, side)}. set (addrs (q k)))"
      using away by blast
    moreover have "(\<Union>k. set (addrs (?q k))) = (\<Union>k \<in> - {(a, side)}. set (addrs (q k))) \<union> set (addrs ys)"
    proof -
      have "(\<Union>k \<in> UNIV. f k) = (\<Union>k \<in> - {k0}. f k) \<union> f k0" for f :: "'k \<Rightarrow> 'v set" and k0 by blast
      from this [of "\<lambda>k. set (addrs (?q k))" "(a, side)"] show ?thesis by simp
    qed
    ultimately show ?thesis unfolding dom d(4) by simp
  qed
  have 5: "finite (dom nodes')" unfolding dom using d(5) by simp
  show ?thesis unfolding queues_ok_def using 1 2 3 4 5 by blast
qed

text \<open>A change of a channel that keeps its queues.\<close>

lemma queues_ok_same:
  "queues_ok st nodes q \<Longrightarrow> st a = Some c \<Longrightarrow> read_queue c' = read_queue c \<Longrightarrow> write_queue c' = write_queue c \<Longrightarrow>
   queues_ok (st(a \<mapsto> c')) nodes q"
  unfolding queues_ok_def
proof (elim conjE, intro conjI)
  assume *: "st a = Some c" "read_queue c' = read_queue c" "write_queue c' = write_queue c"
    "\<forall>a c side. st a = Some c \<longrightarrow> wq_rep nodes (chan_queue side c) (q (a, side))"
  have "chan_queue sd c' = chan_queue sd c" for sd using *(2,3) by (simp add: chan_queue_def)
  with *(1,4) show "\<forall>b e sd. (st(a \<mapsto> c')) b = Some e \<longrightarrow> wq_rep nodes (chan_queue sd e) (q (b, sd))" by simp
qed auto

definition ipc_rep :: "ipc_sys \<Rightarrow> (nat \<times> nat) list \<Rightarrow> sleepers \<Rightarrow> nat set \<Rightarrow> bool" where
  "ipc_rep s cs q Q \<longleftrightarrow> ipc_list s cs \<and> queues_ok (channels s) (wq_nodes (ipc_wq s)) q \<and> rr_queues (wq_rr (ipc_wq s)) Q \<and>
     (\<forall>a c. channels s a = Some c \<longrightarrow> rb_ok IPC_CHANNEL_BUFFER_SIZE (ch_rb c))"

lemma ipc_repD:
  assumes "ipc_rep s cs q Q"
  shows "ipc_list s cs" "queues_ok (channels s) (wq_nodes (ipc_wq s)) q" "rr_queues (wq_rr (ipc_wq s)) Q"
    "channels s a = Some c \<Longrightarrow> rb_ok IPC_CHANNEL_BUFFER_SIZE (ch_rb c)"
  using assms by (auto simp: ipc_rep_def)

lemma ipc_list_same:
  assumes "ipc_list s cs" "channels s a = Some c" "ch_id c' = ch_id c" "ch_next c' = ch_next c"
  shows "ipc_list (s\<lparr>channels := (channels s)(a \<mapsto> c')\<rparr>) cs"
  using assms chan_nodes_same [of "channels s" a c c'] by (auto simp: ipc_list_def)

text \<open>The same for the whole state: a channel keeps its identity, one of its queues changes.\<close>

lemma ipc_rep_queue:
  assumes "ipc_rep s cs q Q" "channels s a = Some c" "ch_id c' = ch_id c" "ch_next c' = ch_next c"
    "rb_ok IPC_CHANNEL_BUFFER_SIZE (ch_rb c')" "queues_ok ((channels s)(a \<mapsto> c')) (wq_nodes w) q'" "rr_queues (wq_rr w) Q'"
  shows "ipc_rep (s\<lparr>channels := (channels s)(a \<mapsto> c'), ipc_wq := w\<rparr>) cs q' Q'"
proof -
  have "ipc_list (s\<lparr>channels := (channels s)(a \<mapsto> c'), ipc_wq := w\<rparr>) cs"
    using ipc_list_same [OF ipc_repD(1) [OF assms(1)] assms(2-4)] by (simp add: ipc_list_def)
  then show ?thesis using ipc_repD(4) [OF assms(1)] assms(5-7) by (auto simp: ipc_rep_def)
qed

text \<open>Waking the longest sleeper of a queue, and falling asleep in one.\<close>

lemma chan_wake_one:
  assumes rep: "ipc_rep s cs q Q" and c: "channels s a = Some c" and al: "alloc_ok alloc"
  shows "\<exists>wq w. wait_queue_wake_one alloc (chan_queue side c) (ipc_wq s) =
           Done (if q (a, side) = [] then None else Some (hd (procs (q (a, side)))), wq, w) \<and>
         rr_queues (wq_rr w) (Q \<union> set (take 1 (procs (q (a, side))))) \<and>
         rr_world (wq_rr w) = ready_all (take 1 (procs (q (a, side)))) (rr_world (wq_rr (ipc_wq s))) \<and>
         (\<forall>c'. chan_queue side c' = wq \<longrightarrow> chan_queue (\<not> side) c' = chan_queue (\<not> side) c \<longrightarrow>
            queues_ok ((channels s)(a \<mapsto> c')) (wq_nodes w) (q((a, side) := tl (q (a, side)))))"
proof -
  note d = ipc_repD [OF rep]
  have r: "wq_rep (wq_nodes (ipc_wq s)) (chan_queue side c) (q (a, side))" by (rule queues_okD(1) [OF d(2) c])
  show ?thesis
  proof (cases "q (a, side)")
    case Nil
    have same: "queues_ok ((channels s)(a \<mapsto> c')) (wq_nodes (ipc_wq s)) q"
      if "chan_queue side c' = chan_queue side c" "chan_queue (\<not> side) c' = chan_queue (\<not> side) c" for c'
      by (rule queues_ok_same [OF d(2) c]) (use that in \<open>cases side; simp add: chan_queue_def\<close>)+
    have "q((a, side) := []) = q" using Nil by (simp add: fun_upd_idem)
    with wake_one_empty [of _ _ alloc "ipc_wq s"] r Nil d(3) same show ?thesis by (simp add: fun_upd_idem)
  next
    case (Cons x ys)
    obtain e p where x: "x = (e, p)" by fastforce
    obtain wq w where w: "wait_queue_wake_one alloc (chan_queue side c) (ipc_wq s) = Done (Some p, wq, w)"
      "wq_rep (wq_nodes w) wq ys" "wq_nodes w = (wq_nodes (ipc_wq s))(e := None)" "rr_queues (wq_rr w) (insert p Q)"
      "rr_world (wq_rr w) = process_set_sched_state (Some p) PROCESS_READY (rr_world (wq_rr (ipc_wq s)))"
      using wake_one_rep [OF r [unfolded Cons x] d(3) al] by blast
    have di: "e \<notin> set (addrs ys)" using r chain_distinct unfolding Cons x wq_rep_def by fastforce
    have "queues_ok ((channels s)(a \<mapsto> c')) (wq_nodes w) (q((a, side) := ys))"
      if "chan_queue side c' = wq" "chan_queue (\<not> side) c' = chan_queue (\<not> side) c" for c'
    proof (rule queues_ok_change [OF d(2) c _ that(2)])
      have "set (addrs (q (a, side))) \<subseteq> dom (wq_nodes (ipc_wq s))" using queues_okD(4) [OF d(2)] by blast
      then show "dom (wq_nodes w) = dom (wq_nodes (ipc_wq s)) - set (addrs (q (a, side))) \<union> set (addrs ys)"
        using di unfolding w(3) Cons x by auto
    qed (use w(2,3) that(1) Cons x in auto)
    with w Cons x show ?thesis by (simp add: insert_commute)
  qed
qed

lemma chan_sleep:
  assumes rep: "ipc_rep s cs q Q" and c: "channels s a = Some c" and al: "alloc_ok alloc"
  shows "\<exists>wq w ys. wait_queue_add (alloc (wq_nodes (ipc_wq s))) (Some p) (chan_queue side c) (ipc_wq s) = Done (wq, w) \<and>
         procs ys = (if p \<in> set (procs (q (a, side))) then procs (q (a, side)) else procs (q (a, side)) @ [p]) \<and>
         rr_queues (wq_rr w) Q \<and>
         rr_world (wq_rr w) = (if p \<in> set (procs (q (a, side))) then rr_world (wq_rr (ipc_wq s))
           else process_set_sched_state (Some p) PROCESS_BLOCKED (rr_world (wq_rr (ipc_wq s)))) \<and>
         (\<forall>c'. chan_queue side c' = wq \<longrightarrow> chan_queue (\<not> side) c' = chan_queue (\<not> side) c \<longrightarrow>
            queues_ok ((channels s)(a \<mapsto> c')) (wq_nodes w) (q((a, side) := ys)))"
proof -
  note d = ipc_repD [OF rep]
  let ?xs = "q (a, side)"
  have r: "wq_rep (wq_nodes (ipc_wq s)) (chan_queue side c) ?xs" by (rule queues_okD(1) [OF d(2) c])
  obtain e where e: "alloc (wq_nodes (ipc_wq s)) = Some e" "e \<notin> dom (wq_nodes (ipc_wq s))"
    using al queues_okD(5) [OF d(2)] by (auto simp: alloc_ok_def)
  obtain wq w where w: "wait_queue_add (Some e) (Some p) (chan_queue side c) (ipc_wq s) = Done (wq, w)"
    "if p \<in> set (procs ?xs) then wq = chan_queue side c \<and> w = ipc_wq s
      else wq_rep (wq_nodes w) wq (?xs @ [(e, p)]) \<and> dom (wq_nodes w) = insert e (dom (wq_nodes (ipc_wq s))) \<and>
           (\<forall>b. b \<notin> set (addrs ?xs) \<longrightarrow> b \<noteq> e \<longrightarrow> wq_nodes w b = wq_nodes (ipc_wq s) b) \<and>
           wq_rr w = wq_rr (wq_set_state p PROCESS_BLOCKED (ipc_wq s))"
    using wait_queue_add_rep [OF r e(2)] by blast
  show ?thesis
  proof (cases "p \<in> set (procs ?xs)")
    case True
    have "queues_ok ((channels s)(a \<mapsto> c')) (wq_nodes (ipc_wq s)) q"
      if "chan_queue side c' = chan_queue side c" "chan_queue (\<not> side) c' = chan_queue (\<not> side) c" for c'
      by (rule queues_ok_same [OF d(2) c]) (use that in \<open>cases side; simp add: chan_queue_def\<close>)+
    with True w e(1) d(3) show ?thesis by (intro exI [of _ wq] exI [of _ w] exI [of _ ?xs]) simp
  next
    case False
    then have w': "wq_rep (wq_nodes w) wq (?xs @ [(e, p)])" "dom (wq_nodes w) = insert e (dom (wq_nodes (ipc_wq s)))"
      "\<forall>b. b \<notin> set (addrs ?xs) \<longrightarrow> b \<noteq> e \<longrightarrow> wq_nodes w b = wq_nodes (ipc_wq s) b"
      "wq_rr w = wq_rr (wq_set_state p PROCESS_BLOCKED (ipc_wq s))" using w(2) by simp_all
    have "queues_ok ((channels s)(a \<mapsto> c')) (wq_nodes w) (q((a, side) := ?xs @ [(e, p)]))"
      if "chan_queue side c' = wq" "chan_queue (\<not> side) c' = chan_queue (\<not> side) c" for c'
    proof (rule queues_ok_change [OF d(2) c _ that(2)])
      have "set (addrs ?xs) \<subseteq> dom (wq_nodes (ipc_wq s))" using queues_okD(4) [OF d(2)] by blast
      then show "dom (wq_nodes w) = dom (wq_nodes (ipc_wq s)) - set (addrs ?xs) \<union> set (addrs (?xs @ [(e, p)]))"
        using w'(2) by auto
    qed (use w'(1,3) that(1) e(2) in auto)
    moreover have "rr_queues (wq_rr w) Q" using d(3) unfolding w'(4) by (simp add: wq_set_state_def rr_queues_def rr_rep_def)
    ultimately show ?thesis using False w(1) e(1) w'(4)
      by (intro exI [of _ wq] exI [of _ w] exI [of _ "?xs @ [(e, p)]"]) (simp add: wq_set_state_def)
  qed
qed

section \<open>Turns of the read and write loops\<close>

abbreviation ipc_world :: "ipc_sys \<Rightarrow> world" where
  "ipc_world s \<equiv> rr_world (wq_rr (ipc_wq s))"

definition chan_bytes :: "nat \<Rightarrow> ipc_sys \<Rightarrow> u8 list" where
  "chan_bytes a s = (case channels s a of None \<Rightarrow> [] | Some c \<Rightarrow> rb_bytes (ch_rb c))"

text \<open>The channels other than \<open>a\<close>, the list head, the identifiers and the counters are untouched.\<close>

definition ipc_frame :: "nat \<Rightarrow> ipc_sys \<Rightarrow> ipc_sys \<Rightarrow> bool" where
  "ipc_frame a s s' \<longleftrightarrow> ipc_channels s' = ipc_channels s \<and> next_channel_id s' = next_channel_id s \<and>
     (\<forall>b. b \<noteq> a \<longrightarrow> channels s' b = channels s b) \<and>
     (\<forall>c. channels s a = Some c \<longrightarrow> (\<exists>c'. channels s' a = Some c' \<and> ch_id c' = ch_id c \<and> ref_count c' = ref_count c \<and>
            ch_readers c' = ch_readers c \<and> ch_writers c' = ch_writers c))"

lemma read_turn_transfer:
  assumes rep: "ipc_rep s cs q Q" and c: "channels s a = Some c" and al: "alloc_ok alloc"
    and ne: "chan_bytes a s \<noteq> []" and n: "0 < n"
  shows "\<exists>s'. ipc_read_turn alloc a n s = Done (Some (take n (chan_bytes a s)), s') \<and>
     ipc_rep s' cs (q((a, False) := tl (q (a, False)))) (Q \<union> set (take 1 (procs (q (a, False))))) \<and>
     chan_bytes a s' = drop n (chan_bytes a s) \<and> ipc_frame a s s' \<and>
     ipc_world s' = ready_all (take 1 (procs (q (a, False)))) (ipc_world s)"
proof -
  have bytes: "chan_bytes a s = rb_bytes (ch_rb c)" using c by (simp add: chan_bytes_def)
  have cnt: "rb_count (ch_rb c) \<noteq> 0" using ne bytes by (metis length_0_conv length_rb_bytes)
  obtain rb where rb: "ring_buffer_read True n (ch_rb c) = Done (take n (rb_bytes (ch_rb c)), rb)"
    "rb_ok IPC_CHANNEL_BUFFER_SIZE rb" "rb_bytes rb = drop n (rb_bytes (ch_rb c))"
    using ring_buffer_read_ok [OF ipc_repD(4) [OF rep c]] by blast
  have ne': "take n (rb_bytes (ch_rb c)) \<noteq> []" using ne bytes n by simp
  obtain wq w where w: "wait_queue_wake_one alloc (chan_queue False c) (ipc_wq s) =
      Done (if q (a, False) = [] then None else Some (hd (procs (q (a, False)))), wq, w)"
    "rr_queues (wq_rr w) (Q \<union> set (take 1 (procs (q (a, False)))))"
    "rr_world (wq_rr w) = ready_all (take 1 (procs (q (a, False)))) (ipc_world s)"
    "\<forall>c'. chan_queue False c' = wq \<longrightarrow> chan_queue (\<not> False) c' = chan_queue (\<not> False) c \<longrightarrow>
       queues_ok ((channels s)(a \<mapsto> c')) (wq_nodes w) (q((a, False) := tl (q (a, False))))"
    using chan_wake_one [OF rep c al, of False] by blast
  let ?c = "c\<lparr>ch_rb := rb, write_queue := wq\<rparr>"
  let ?s = "s\<lparr>channels := (channels s)(a \<mapsto> ?c), ipc_wq := w\<rparr>"
  have "ipc_read_turn alloc a n s = Done (Some (take n (chan_bytes a s)), ?s)"
    using c cnt rb(1) ne' w(1) bytes by (simp add: ipc_read_turn_def ring_buffer_empty_def chan_queue_def Let_def)
  moreover have "ipc_rep ?s cs (q((a, False) := tl (q (a, False)))) (Q \<union> set (take 1 (procs (q (a, False)))))"
    by (rule ipc_rep_queue [OF rep c]) (use w(2,4) rb(2) in \<open>simp_all add: chan_queue_def\<close>)
  ultimately show ?thesis using rb(3) bytes c w(3) by (intro exI [of _ ?s]) (simp add: chan_bytes_def ipc_frame_def)
qed

lemma read_turn_end:
  assumes "channels s a = Some c" "chan_bytes a s = []" "ch_writers c \<le> 0"
  shows "ipc_read_turn alloc a n s = Done (Some [], s)"
proof -
  have "length (rb_bytes (ch_rb c)) = 0" using assms(1,2) by (simp add: chan_bytes_def)
  then show ?thesis using assms(1,3) by (simp add: ipc_read_turn_def ring_buffer_empty_def)
qed

lemma read_turn_sleep:
  assumes rep: "ipc_rep s cs q Q" and c: "channels s a = Some c" and al: "alloc_ok alloc"
    and e: "chan_bytes a s = []" and wr: "0 < ch_writers c" and p: "current_process (ipc_world s) = Some p"
  shows "\<exists>s' ys. ipc_read_turn alloc a n s = Done (None, s') \<and> ipc_rep s' cs (q((a, True) := ys)) Q \<and>
     procs ys = (if p \<in> set (procs (q (a, True))) then procs (q (a, True)) else procs (q (a, True)) @ [p]) \<and>
     chan_bytes a s' = [] \<and> ipc_frame a s s' \<and>
     ipc_world s' = (if p \<in> set (procs (q (a, True))) then ipc_world s
                     else process_set_sched_state (Some p) PROCESS_BLOCKED (ipc_world s))"
proof -
  have b: "rb_bytes (ch_rb c) = []" using c e by (simp add: chan_bytes_def)
  then have cnt: "rb_count (ch_rb c) = 0" by (metis length_rb_bytes list.size(3))
  obtain wq w ys where w: "wait_queue_add (alloc (wq_nodes (ipc_wq s))) (Some p) (chan_queue True c) (ipc_wq s) = Done (wq, w)"
    "procs ys = (if p \<in> set (procs (q (a, True))) then procs (q (a, True)) else procs (q (a, True)) @ [p])"
    "rr_queues (wq_rr w) Q"
    "rr_world (wq_rr w) = (if p \<in> set (procs (q (a, True))) then ipc_world s
       else process_set_sched_state (Some p) PROCESS_BLOCKED (ipc_world s))"
    "\<forall>c'. chan_queue True c' = wq \<longrightarrow> chan_queue (\<not> True) c' = chan_queue (\<not> True) c \<longrightarrow>
       queues_ok ((channels s)(a \<mapsto> c')) (wq_nodes w) (q((a, True) := ys))"
    using chan_sleep [OF rep c al, of p True] by blast
  let ?c = "c\<lparr>read_queue := wq\<rparr>"
  let ?s = "s\<lparr>channels := (channels s)(a \<mapsto> ?c), ipc_wq := w\<rparr>"
  have "ipc_read_turn alloc a n s = Done (None, ?s)"
    using c cnt wr p w(1) by (simp add: ipc_read_turn_def ring_buffer_empty_def chan_queue_def)
  moreover have "ipc_rep ?s cs (q((a, True) := ys)) Q"
    by (rule ipc_rep_queue [OF rep c]) (use w(3,5) ipc_repD(4) [OF rep c] in \<open>simp_all add: chan_queue_def\<close>)
  ultimately show ?thesis using b c w(2,4) by (intro exI [of _ ?s] exI [of _ ys]) (simp add: chan_bytes_def ipc_frame_def)
qed

lemma write_turn_transfer:
  assumes rep: "ipc_rep s cs q Q" and c: "channels s a = Some c" and al: "alloc_ok alloc"
    and room: "length (chan_bytes a s) < IPC_CHANNEL_BUFFER_SIZE" and src: "src \<noteq> []"
  shows "\<exists>s'. ipc_write_turn alloc a src s = Done (Some (min (length src) (IPC_CHANNEL_BUFFER_SIZE - length (chan_bytes a s))), s') \<and>
     ipc_rep s' cs (q((a, True) := tl (q (a, True)))) (Q \<union> set (take 1 (procs (q (a, True))))) \<and>
     chan_bytes a s' = chan_bytes a s @ take (IPC_CHANNEL_BUFFER_SIZE - length (chan_bytes a s)) src \<and> ipc_frame a s s' \<and>
     ipc_world s' = ready_all (take 1 (procs (q (a, True)))) (ipc_world s)"
proof -
  have bytes: "chan_bytes a s = rb_bytes (ch_rb c)" using c by (simp add: chan_bytes_def)
  have cnt: "rb_count (ch_rb c) = length (chan_bytes a s)" by (simp add: bytes)
  obtain rb where rb: "ring_buffer_write (Some src) (ch_rb c) =
      Done (min (length src) (IPC_CHANNEL_BUFFER_SIZE - rb_count (ch_rb c)), rb)"
    "rb_ok IPC_CHANNEL_BUFFER_SIZE rb" "rb_bytes rb = rb_bytes (ch_rb c) @ take (IPC_CHANNEL_BUFFER_SIZE - rb_count (ch_rb c)) src"
    using ring_buffer_write_ok [OF ipc_repD(4) [OF rep c]] by blast
  have pos: "0 < min (length src) (IPC_CHANNEL_BUFFER_SIZE - rb_count (ch_rb c))" using room src cnt by simp
  have notfull: "\<not> ring_buffer_full (ch_rb c)"
    using room cnt rb_ok_count [OF ipc_repD(4) [OF rep c]] by (simp add: ring_buffer_full_def)
  obtain wq w where w: "wait_queue_wake_one alloc (chan_queue True c) (ipc_wq s) =
      Done (if q (a, True) = [] then None else Some (hd (procs (q (a, True)))), wq, w)"
    "rr_queues (wq_rr w) (Q \<union> set (take 1 (procs (q (a, True)))))"
    "rr_world (wq_rr w) = ready_all (take 1 (procs (q (a, True)))) (ipc_world s)"
    "\<forall>c'. chan_queue True c' = wq \<longrightarrow> chan_queue (\<not> True) c' = chan_queue (\<not> True) c \<longrightarrow>
       queues_ok ((channels s)(a \<mapsto> c')) (wq_nodes w) (q((a, True) := tl (q (a, True))))"
    using chan_wake_one [OF rep c al, of True] by blast
  let ?c = "c\<lparr>ch_rb := rb, read_queue := wq\<rparr>"
  let ?s = "s\<lparr>channels := (channels s)(a \<mapsto> ?c), ipc_wq := w\<rparr>"
  have "ipc_write_turn alloc a src s = Done (Some (min (length src) (IPC_CHANNEL_BUFFER_SIZE - length (chan_bytes a s))), ?s)"
    using c notfull rb(1) pos w(1) unfolding cnt [symmetric] by (simp add: ipc_write_turn_def chan_queue_def Let_def)
  moreover have "ipc_rep ?s cs (q((a, True) := tl (q (a, True)))) (Q \<union> set (take 1 (procs (q (a, True)))))"
    by (rule ipc_rep_queue [OF rep c]) (use w(2,4) rb(2) in \<open>simp_all add: chan_queue_def\<close>)
  ultimately show ?thesis using rb(3) bytes c w(3) by (intro exI [of _ ?s]) (simp add: chan_bytes_def ipc_frame_def)
qed

lemma write_turn_end:
  assumes "ipc_rep s cs q Q" "channels s a = Some c" "length (chan_bytes a s) = IPC_CHANNEL_BUFFER_SIZE" "ch_readers c \<le> 0"
  shows "ipc_write_turn alloc a src s = Done (Some 0, s)"
  using assms rb_ok_count [OF ipc_repD(4) [OF assms(1,2)]]
  by (simp add: ipc_write_turn_def ring_buffer_full_def chan_bytes_def)

lemma write_turn_sleep:
  assumes rep: "ipc_rep s cs q Q" and c: "channels s a = Some c" and al: "alloc_ok alloc"
    and full: "length (chan_bytes a s) = IPC_CHANNEL_BUFFER_SIZE" and rd: "0 < ch_readers c"
    and p: "current_process (ipc_world s) = Some p"
  shows "\<exists>s' ys. ipc_write_turn alloc a src s = Done (None, s') \<and> ipc_rep s' cs (q((a, False) := ys)) Q \<and>
     procs ys = (if p \<in> set (procs (q (a, False))) then procs (q (a, False)) else procs (q (a, False)) @ [p]) \<and>
     chan_bytes a s' = chan_bytes a s \<and> ipc_frame a s s' \<and>
     ipc_world s' = (if p \<in> set (procs (q (a, False))) then ipc_world s
                     else process_set_sched_state (Some p) PROCESS_BLOCKED (ipc_world s))"
proof -
  have isfull: "ring_buffer_full (ch_rb c)"
    using full c rb_ok_count [OF ipc_repD(4) [OF rep c]] by (simp add: ring_buffer_full_def chan_bytes_def)
  obtain wq w ys where w: "wait_queue_add (alloc (wq_nodes (ipc_wq s))) (Some p) (chan_queue False c) (ipc_wq s) = Done (wq, w)"
    "procs ys = (if p \<in> set (procs (q (a, False))) then procs (q (a, False)) else procs (q (a, False)) @ [p])"
    "rr_queues (wq_rr w) Q"
    "rr_world (wq_rr w) = (if p \<in> set (procs (q (a, False))) then ipc_world s
       else process_set_sched_state (Some p) PROCESS_BLOCKED (ipc_world s))"
    "\<forall>c'. chan_queue False c' = wq \<longrightarrow> chan_queue (\<not> False) c' = chan_queue (\<not> False) c \<longrightarrow>
       queues_ok ((channels s)(a \<mapsto> c')) (wq_nodes w) (q((a, False) := ys))"
    using chan_sleep [OF rep c al, of p False] by blast
  let ?c = "c\<lparr>write_queue := wq\<rparr>"
  let ?s = "s\<lparr>channels := (channels s)(a \<mapsto> ?c), ipc_wq := w\<rparr>"
  have "ipc_write_turn alloc a src s = Done (None, ?s)"
    using c isfull rd p w(1) by (simp add: ipc_write_turn_def chan_queue_def)
  moreover have "ipc_rep ?s cs (q((a, False) := ys)) Q"
    by (rule ipc_rep_queue [OF rep c]) (use w(3,5) ipc_repD(4) [OF rep c] in \<open>simp_all add: chan_queue_def\<close>)
  ultimately show ?thesis using c w(2,4) by (intro exI [of _ ?s] exI [of _ ys]) (simp add: chan_bytes_def ipc_frame_def)
qed

section \<open>Finding, creating and dropping channels\<close>

lemma ipc_find_iff:
  assumes "ipc_list s cs"
  shows "\<exists>r. ipc_channel_find ident s = Done r \<and>
     (\<forall>a. r = Some a \<longleftrightarrow> (\<exists>c. channels s a = Some c \<and> ch_id c = ident))"
proof -
  have ch: "chain (chan_nodes (channels s)) (ipc_channels s) cs" and dm: "dom (channels s) = set (addrs cs)"
    and di: "distinct (procs cs)" using assms by (simp_all add: ipc_list_def)
  have mem: "(a, unat ident) \<in> set cs \<longleftrightarrow> (\<exists>c. channels s a = Some c \<and> ch_id c = ident)" for a
  proof
    assume "(a, unat ident) \<in> set cs"
    from chain_lookup [OF ch this] show "\<exists>c. channels s a = Some c \<and> ch_id c = ident"
      by (auto simp: chan_nodes_Some word_unat_eq_iff)
  next
    assume "\<exists>c. channels s a = Some c \<and> ch_id c = ident"
    then obtain c where c: "channels s a = Some c" "ch_id c = ident" by blast
    then have "a \<in> set (addrs cs)" using dm by blast
    then obtain v where v: "(a, v) \<in> set cs" by (auto simp: addrs_def)
    from chain_lookup [OF ch v] c show "(a, unat ident) \<in> set cs" using v by (auto simp: chan_nodes_Some)
  qed
  have "map_option fst (List.find (\<lambda>(b, v). v = unat ident) cs) = Some a \<longleftrightarrow> (a, unat ident) \<in> set cs" for a
    using di
  proof (induction cs)
    case (Cons x cs)
    obtain b v where x: "x = (b, v)" by fastforce
    have "(a, unat ident) \<notin> set cs" if "v = unat ident" using Cons.prems x that by (force simp: procs_def)
    with Cons x show ?case by auto
  qed simp
  with mem ipc_find_list [OF assms] show ?thesis by blast
qed

text \<open>An unused identifier is found while fewer than 65536 channels exist.\<close>

lemma id_search_chain:
  assumes "ipc_list s cs"
  shows "\<exists>r. id_search k cand s = Done r \<and>
     (case r of Some i \<Rightarrow> (\<forall>a c. channels s a = Some c \<longrightarrow> ch_id c \<noteq> i)
      | None \<Rightarrow> (\<forall>j < k. \<exists>a c. channels s a = Some c \<and> ch_id c = cand + of_nat j))"
proof (induction k arbitrary: cand)
  case 0
  then show ?case by (simp add: id_search.simps)
next
  case (Suc k)
  obtain f where f: "ipc_channel_find cand s = Done f"
    "\<forall>a. f = Some a \<longleftrightarrow> (\<exists>c. channels s a = Some c \<and> ch_id c = cand)" using ipc_find_iff [OF assms] by blast
  show ?case
  proof (cases f)
    case None
    with f show ?thesis by (subst id_search.simps) auto
  next
    case (Some a)
    then obtain c where c: "channels s a = Some c" "ch_id c = cand" using f(2) by blast
    obtain r where r: "id_search k (cand + 1) s = Done r"
      "case r of Some i \<Rightarrow> (\<forall>a c. channels s a = Some c \<longrightarrow> ch_id c \<noteq> i)
        | None \<Rightarrow> (\<forall>j < k. \<exists>a c. channels s a = Some c \<and> ch_id c = cand + 1 + of_nat j)" using Suc by blast
    have "id_search (Suc k) cand s = Done r" using f(1) r(1) Some by (subst id_search.simps) simp
    moreover have "\<exists>a c. channels s a = Some c \<and> ch_id c = cand + of_nat j" if "r = None" "j < Suc k" for j
    proof (cases j)
      case 0
      with c show ?thesis by auto
    next
      case (Suc i)
      with r(2) that have "\<exists>a c. channels s a = Some c \<and> ch_id c = cand + 1 + of_nat i" by simp
      then show ?thesis by (simp add: Suc add.assoc)
    qed
    ultimately show ?thesis using r(2) by (cases r) auto
  qed
qed

lemma id_search_enough:
  assumes "ipc_list s cs" "length cs < k" "k \<le> 2 ^ 32"
  shows "\<exists>i. id_search k cand s = Done (Some i) \<and> (\<forall>a c. channels s a = Some c \<longrightarrow> ch_id c \<noteq> i)"
proof -
  obtain r where r: "id_search k cand s = Done r"
    "case r of Some i \<Rightarrow> (\<forall>a c. channels s a = Some c \<longrightarrow> ch_id c \<noteq> i)
      | None \<Rightarrow> (\<forall>j < k. \<exists>a c. channels s a = Some c \<and> ch_id c = cand + of_nat j)"
    using id_search_chain [OF assms(1)] by blast
  show ?thesis
  proof (cases r)
    case None
    let ?f = "\<lambda>j. cand + (of_nat j :: u32)"
    have "inj_on ?f {..<k}"
      using assms(3) by (auto simp: inj_on_def intro: of_nat_inverse [of _ _, symmetric] dest!: arg_cong [of _ _ unat] simp: unat_of_nat)
    moreover have "?f ` {..<k} \<subseteq> (\<lambda>a. ch_id (the (channels s a))) ` dom (channels s)"
      using r(2) None by (force simp: dom_def)
    moreover have "finite (dom (channels s))" "card (dom (channels s)) \<le> length cs"
      using assms(1) card_length [of "addrs cs"] by (auto simp: ipc_list_def)
    ultimately have "k \<le> length cs" by (metis card_image card_lessThan card_mono card_image_le finite_imageI order_trans)
    then show ?thesis using assms(2) by simp
  next
    case (Some i)
    with r show ?thesis by auto
  qed
qed

lemma queues_ok_remove:
  assumes "queues_ok st nodes q" "q (a, True) = []" "q (a, False) = []"
  shows "queues_ok (st(a := None)) nodes q"
proof -
  have "q (a, side) = []" for side using assms(2,3) by (cases side) simp_all
  with assms(1) show ?thesis unfolding queues_ok_def by auto
qed

lemma queues_ok_insert:
  assumes "queues_ok st nodes q" "st a = None" "read_queue c = wait_queue_init" "write_queue c = wait_queue_init"
  shows "queues_ok (st(a \<mapsto> c)) nodes q"
proof -
  have "q (a, side) = []" "chan_queue side c = wait_queue_init" for side
    using assms queues_okD(2) by (auto simp: chan_queue_def)
  with assms(1) show ?thesis unfolding queues_ok_def by (auto simp: wq_rep_init)
qed

text \<open>Destroying an unlinked channel wakes both queues and frees every node of them.\<close>

lemma chan_wake_all:
  assumes ok: "queues_ok st (wq_nodes w) q" and c: "st a = Some c" and rr: "rr_queues (wq_rr w) Q" and al: "alloc_ok alloc"
  shows "\<exists>wq' w'. wait_queue_wake_all alloc (chan_queue side c) w = Done (wq', w') \<and>
     rr_queues (wq_rr w') (Q \<union> set (procs (q (a, side)))) \<and>
     rr_world (wq_rr w') = ready_all (procs (q (a, side))) (rr_world (wq_rr w)) \<and>
     (\<forall>c'. chan_queue side c' = wq' \<longrightarrow> chan_queue (\<not> side) c' = chan_queue (\<not> side) c \<longrightarrow>
        queues_ok (st(a \<mapsto> c')) (wq_nodes w') (q((a, side) := [])))"
proof -
  let ?xs = "q (a, side)"
  obtain wq' w' where w: "wait_queue_wake_all alloc (chan_queue side c) w = Done (wq', w')" "wq_rep (wq_nodes w') wq' []"
    "wq_nodes w' = wq_nodes w |` (- set (addrs ?xs))" "rr_queues (wq_rr w') (Q \<union> set (procs ?xs))"
    "rr_world (wq_rr w') = ready_all (procs ?xs) (rr_world (wq_rr w))"
    using wake_all_rep [OF queues_okD(1) [OF ok c] rr al] by blast
  have "queues_ok (st(a \<mapsto> c')) (wq_nodes w') (q((a, side) := []))"
    if "chan_queue side c' = wq'" "chan_queue (\<not> side) c' = chan_queue (\<not> side) c" for c'
  proof (rule queues_ok_change [OF ok c _ that(2)])
    show "dom (wq_nodes w') = dom (wq_nodes w) - set (addrs ?xs) \<union> set (addrs [])" unfolding w(3) by auto
  qed (use w(2,3) that(1) in auto)
  with w show ?thesis by blast
qed

lemma destroy_rep:
  assumes ok: "queues_ok (channels s) (wq_nodes (ipc_wq s)) q" and c: "channels s a = Some c"
    and rr: "rr_queues (wq_rr (ipc_wq s)) Q" and al: "alloc_ok alloc"
  shows "\<exists>w. ipc_channel_destroy alloc (Some a) s = Done (s\<lparr>channels := (channels s)(a := None), ipc_wq := w\<rparr>) \<and>
     queues_ok ((channels s)(a := None)) (wq_nodes w) (q((a, True) := [], (a, False) := [])) \<and>
     rr_queues (wq_rr w) (Q \<union> set (procs (q (a, True))) \<union> set (procs (q (a, False)))) \<and>
     rr_world (wq_rr w) = ready_all (procs (q (a, True)) @ procs (q (a, False))) (ipc_world s)"
proof -
  obtain rq w1 where 1: "wait_queue_wake_all alloc (read_queue c) (ipc_wq s) = Done (rq, w1)"
    "rr_queues (wq_rr w1) (Q \<union> set (procs (q (a, True))))"
    "rr_world (wq_rr w1) = ready_all (procs (q (a, True))) (ipc_world s)"
    "\<forall>c'. read_queue c' = rq \<longrightarrow> write_queue c' = write_queue c \<longrightarrow>
        queues_ok ((channels s)(a \<mapsto> c')) (wq_nodes w1) (q((a, True) := []))"
    using chan_wake_all [OF ok c rr al, of True] by (auto simp: chan_queue_def)
  let ?c1 = "c\<lparr>read_queue := rq\<rparr>"
  have ok1: "queues_ok ((channels s)(a \<mapsto> ?c1)) (wq_nodes w1) (q((a, True) := []))" using 1(4) by simp
  obtain wq w2 where 2: "wait_queue_wake_all alloc (write_queue ?c1) w1 = Done (wq, w2)"
    "rr_queues (wq_rr w2) (Q \<union> set (procs (q (a, True))) \<union> set (procs ((q((a, True) := [])) (a, False))))"
    "rr_world (wq_rr w2) = ready_all (procs ((q((a, True) := [])) (a, False))) (rr_world (wq_rr w1))"
    "\<forall>c'. write_queue c' = wq \<longrightarrow> read_queue c' = read_queue ?c1 \<longrightarrow>
        queues_ok (((channels s)(a \<mapsto> ?c1))(a \<mapsto> c')) (wq_nodes w2) ((q((a, True) := []))((a, False) := []))"
    using chan_wake_all [OF ok1 _ 1(2) al, of a ?c1 False] by (auto simp: chan_queue_def)
  let ?c2 = "?c1\<lparr>write_queue := wq\<rparr>"
  have "queues_ok ((channels s)(a \<mapsto> ?c2)) (wq_nodes w2) (q((a, True) := [], (a, False) := []))" using 2(4) by simp
  from queues_ok_remove [OF this, of a]
  have "queues_ok ((channels s)(a := None)) (wq_nodes w2) (q((a, True) := [], (a, False) := []))" by simp
  moreover have "ipc_channel_destroy alloc (Some a) s = Done (s\<lparr>channels := (channels s)(a := None), ipc_wq := w2\<rparr>)"
    using c 1(1) 2(1) by (simp add: ipc_channel_destroy_def Let_def)
  moreover have "rr_world (wq_rr w2) = ready_all (procs (q (a, True)) @ procs (q (a, False))) (ipc_world s)"
    using 1(3) 2(3) by (simp add: ready_all_def)
  ultimately show ?thesis using 2(2) by (intro exI [of _ w2]) simp
qed

text \<open>Getting an existing channel, or a new one at the head of the list.\<close>

lemma get_or_create_rep:
  assumes rep: "ipc_rep s cs q Q" and fresh: "\<forall>a. mem = Some a \<longrightarrow> channels s a = None"
    and blk: "\<forall>b. buf = Some b \<longrightarrow> length b = IPC_CHANNEL_BUFFER_SIZE"
  shows "\<exists>r s' cs'. ipc_channel_get_or_create alloc mem buf ident s = Done (r, s') \<and> ipc_rep s' cs' q Q \<and>
     (case r of
        None \<Rightarrow> s' = s \<and> (mem = None \<or> buf = None) \<and> ident \<notin> (\<lambda>c. ch_id c) ` ran (channels s)
      | Some a \<Rightarrow> (\<exists>c. channels s' a = Some c \<and> ch_id c = ident) \<and>
          (s' = s \<or> mem = Some a \<and> (\<forall>b. b \<noteq> a \<longrightarrow> channels s' b = channels s b) \<and> chan_bytes a s' = [] \<and>
                     (\<forall>c. channels s' a = Some c \<longrightarrow> ref_count c = 0)))"
proof -
  note d = ipc_repD [OF rep]
  obtain f where f: "ipc_channel_find ident s = Done f"
    "\<forall>a. f = Some a \<longleftrightarrow> (\<exists>c. channels s a = Some c \<and> ch_id c = ident)" using ipc_find_iff [OF d(1)] by blast
  show ?thesis
  proof (cases f)
    case (Some a)
    then have "\<exists>c. channels s a = Some c \<and> ch_id c = ident" using f(2) by blast
    moreover have "ipc_channel_get_or_create alloc mem buf ident s = Done (Some a, s)"
      using f(1) Some by (simp add: ipc_channel_get_or_create_def)
    ultimately show ?thesis using rep by (intro exI [of _ "Some a"] exI [of _ s] exI [of _ cs]) simp
  next
    case None
    then have unused: "ident \<notin> (\<lambda>c. ch_id c) ` ran (channels s)" using f(2) by (auto simp: ran_def)
    show ?thesis
    proof (cases "mem = None \<or> buf = None")
      case True
      have "s\<lparr>channels := (channels s)(a := None)\<rparr> = s" if "mem = Some a" for a
        using fresh that by (simp add: fun_upd_idem)
      then have "ipc_channel_create mem buf ident s = (None, s)"
        using True by (auto simp: ipc_channel_create_def ring_buffer_init_def split: option.split)
      then have "ipc_channel_get_or_create alloc mem buf ident s = Done (None, s)"
        using f(1) None by (simp add: ipc_channel_get_or_create_def)
      with unused True rep show ?thesis by (intro exI [of _ None] exI [of _ s] exI [of _ cs]) simp
    next
      case False
      then obtain a b where ab: "mem = Some a" "buf = Some b" by auto
      have a: "channels s a = None" and b: "length b = IPC_CHANNEL_BUFFER_SIZE" using fresh blk ab by auto
      obtain rb where rb: "ring_buffer_init (Some b) IPC_CHANNEL_BUFFER_SIZE = Some rb"
        by (simp add: ring_buffer_init_def)
      then have rbok: "rb_ok IPC_CHANNEL_BUFFER_SIZE rb" "rb_bytes rb = []" using ring_buffer_init_ok b by auto
      let ?c = "new_channel ident rb"
      let ?s1 = "s\<lparr>channels := (channels s)(a \<mapsto> ?c)\<rparr>"
      let ?c' = "?c\<lparr>ch_next := ipc_channels s\<rparr>"
      let ?s = "s\<lparr>channels := (channels s)(a \<mapsto> ?c'), ipc_channels := Some a,
                  next_channel_id := (if next_channel_id s \<le> ident then ident + 1 else next_channel_id s)\<rparr>"
      have ch: "chain (chan_nodes (channels s)) (ipc_channels s) cs" "dom (channels s) = set (addrs cs)" "distinct (procs cs)"
        using d(1) by (simp_all add: ipc_list_def)
      have an: "a \<notin> set (addrs cs)" using a ch(2) by blast
      have ch': "chain (chan_nodes ((channels s)(a := v))) (ipc_channels s) cs" for v
        using ch(1) an by (subst chain_cong [of _ _ "chan_nodes (channels s)"]) (auto simp: chan_nodes_def)
      have "List.find (\<lambda>(b, v). v = unat ident) cs = None"
        using ipc_find_list [OF d(1), of ident] f(1) None by simp
      then have find1: "ipc_channel_find ident ?s1 = Done None" and nid: "unat ident \<notin> set (procs cs)"
        using find_locked_chain [OF ch', of _ ident] find_proc_None [of "unat ident" cs]
        by (auto simp: ipc_channel_find_def)
      have res: "ipc_channel_get_or_create alloc mem buf ident s = Done (Some a, ?s)"
        using f(1) None ab rb find1 by (simp add: ipc_channel_get_or_create_def ipc_channel_create_def)
      have "chain (chan_nodes (channels ?s)) (ipc_channels ?s) ((a, unat ident) # cs)"
        using ch' [of "Some ?c'"] by (simp add: chan_nodes_Some new_channel_def)
      then have "ipc_list ?s ((a, unat ident) # cs)" using ch(2,3) nid by (simp add: ipc_list_def)
      moreover have "queues_ok (channels ?s) (wq_nodes (ipc_wq ?s)) q"
        using queues_ok_insert [OF d(2) a, of ?c'] by (simp add: new_channel_def)
      ultimately have "ipc_rep ?s ((a, unat ident) # cs) q Q"
        using d(3,4) rbok(1) by (auto simp: ipc_rep_def new_channel_def)
      with res rbok(2) ab show ?thesis
        by (intro exI [of _ "Some a"] exI [of _ ?s] exI [of _ "(a, unat ident) # cs"]) (simp add: new_channel_def chan_bytes_def)
    qed
  qed
qed

text \<open>Dropping a reference.\<close>

lemma queues_ok_cong:
  assumes "queues_ok st nodes q" "\<forall>b. map_option (\<lambda>c. (read_queue c, write_queue c)) (st' b) = map_option (\<lambda>c. (read_queue c, write_queue c)) (st b)"
  shows "queues_ok st' nodes q"
proof -
  have 1: "\<exists>d. st b = Some d \<and> (\<forall>side. chan_queue side d = chan_queue side c)" if "st' b = Some c" for b c
    using assms(2) [rule_format, of b] that by (cases "st b") (auto simp: chan_queue_def)
  have 2: "st b = None" if "st' b = None" for b using assms(2) [rule_format, of b] that by simp
  show ?thesis unfolding queues_ok_def
  proof (intro conjI allI impI)
    fix b c side assume "st' b = Some c"
    from 1 [OF this] obtain d where "st b = Some d" "\<forall>side. chan_queue side d = chan_queue side c" by blast
    with queues_okD(1) [OF assms(1), of b d side] show "wq_rep nodes (chan_queue side c) (q (b, side))" by simp
  next
    fix k k' :: "nat \<times> bool" assume "k \<noteq> k'"
    then show "set (addrs (q k)) \<inter> set (addrs (q k')) = {}" by (rule queues_okD(3) [OF assms(1)])
  qed (simp_all add: 2 queues_okD(2,4) [OF assms(1)] queues_okD(5) [OF assms(1), unfolded queues_okD(4) [OF assms(1)]])
qed

definition same_but_next :: "(nat \<rightharpoonup> ipc_channel) \<Rightarrow> (nat \<rightharpoonup> ipc_channel) \<Rightarrow> bool" where
  "same_but_next st st' \<longleftrightarrow> (\<forall>b. map_option (\<lambda>c. c\<lparr>ch_next := None\<rparr>) (st' b) = map_option (\<lambda>c. c\<lparr>ch_next := None\<rparr>) (st b))"

lemma same_but_next_fields:
  assumes "same_but_next st st'" "st' b = Some c"
  shows "\<exists>d. st b = Some d \<and> read_queue c = read_queue d \<and> write_queue c = write_queue d \<and> ch_rb c = ch_rb d \<and> ch_id c = ch_id d \<and>
     ref_count c = ref_count d"
proof -
  have "map_option (\<lambda>c. c\<lparr>ch_next := None\<rparr>) (st' b) = map_option (\<lambda>c. c\<lparr>ch_next := None\<rparr>) (st b)"
    using assms(1) by (simp add: same_but_next_def)
  with assms(2) obtain d where d: "st b = Some d" "c\<lparr>ch_next := None\<rparr> = d\<lparr>ch_next := None\<rparr>" by (cases "st b") auto
  then show ?thesis by (cases c; cases d) simp
qed

lemma same_but_next_dom: "same_but_next st st' \<Longrightarrow> dom st' = dom st"
  unfolding same_but_next_def dom_def by (metis option.map_disc_iff)

lemma same_but_next_queues:
  assumes "same_but_next st st'"
  shows "map_option (\<lambda>c. (read_queue c, write_queue c)) (st' b) = map_option (\<lambda>c. (read_queue c, write_queue c)) (st b)"
proof (cases "st' b")
  case None
  then have "st b = None" using same_but_next_dom [OF assms] by (metis domIff)
  with None show ?thesis by simp
next
  case (Some c)
  with same_but_next_fields [OF assms Some] show ?thesis by auto
qed

lemma unlink_rep:
  assumes "chain (chan_nodes (channels s)) (ipc_channels s) (us @ (a, v) # vs)" "channels s a = Some c"
  shows "\<exists>st h. ipc_unlink a c s = Done (s\<lparr>channels := st, ipc_channels := h\<rparr>) \<and> st a = Some c \<and>
     same_but_next (channels s) st \<and> chain (chan_nodes (st(a := None))) h (us @ vs)"
proof (cases us rule: rev_cases)
  case Nil
  then have "ipc_channels s = Some a" using assms(1) by simp
  moreover have "\<exists>q. chan_nodes (channels s) a = Some \<lparr>process = v, nxt = q\<rparr> \<and> chain ((chan_nodes (channels s))(a := None)) q vs"
    using chain_unlink_head [of "chan_nodes (channels s)"] assms(1) Nil by simp
  ultimately show ?thesis using assms(2) Nil
    by (intro exI [of _ "channels s"] exI [of _ "ch_next c"])
       (auto simp: ipc_unlink_def chan_nodes_Some chan_nodes_upd same_but_next_def)
next
  case (snoc ws x)
  obtain b w where x: "x = (b, w)" by fastforce
  have cs: "us @ (a, v) # vs = ws @ [(b, w)] @ (a, v) # vs" using snoc x by simp
  obtain q where q: "chan_nodes (channels s) a = Some \<lparr>process = v, nxt = q\<rparr>" "a \<noteq> b"
    "chain ((set_nxt (chan_nodes (channels s)) b q)(a := None)) (ipc_channels s) (ws @ [(b, w)] @ vs)"
    using chain_unlink_inner [OF assms(1) [unfolded cs]] by blast
  have qc: "q = ch_next c" using q(1) assms(2) by (auto simp: chan_nodes_Some)
  have head: "ipc_channels s \<noteq> Some a" using assms(1) q(2) chain_distinct [OF assms(1)] unfolding cs by (cases ws) auto
  have prev: "find_prev (channels s) (ipc_channels s) a = Some (Some b)"
    using find_prev_chain [of "channels s" "ipc_channels s" ws b w a v vs] assms(1) cs by simp
  let ?st = "(channels s)(b := map_option (\<lambda>d. d\<lparr>ch_next := ch_next c\<rparr>) (channels s b))"
  have "chan_nodes (?st(a := None)) = (set_nxt (chan_nodes (channels s)) b q)(a := None)"
    unfolding chan_nodes_upd by (auto simp: set_nxt_def qc chan_nodes_def option.map_comp comp_def)
  with q(3) have "chain (chan_nodes (?st(a := None))) (ipc_channels s) (us @ vs)" using snoc x by simp
  moreover have "same_but_next (channels s) ?st" by (simp add: same_but_next_def option.map_comp comp_def)
  moreover have "ipc_unlink a c s = Done (s\<lparr>channels := ?st, ipc_channels := ipc_channels s\<rparr>)"
    using head prev by (simp add: ipc_unlink_def upd_chan_def)
  ultimately show ?thesis using assms(2) q(2) by (intro exI [of _ ?st] exI [of _ "ipc_channels s"]) simp
qed

lemma unref_rep:
  assumes rep: "ipc_rep s cs q Q" and c: "channels s a = Some c" and al: "alloc_ok alloc"
  shows "\<exists>s' cs' q' Q'. ipc_channel_unref alloc (Some a) s = Done s' \<and> ipc_rep s' cs' q' Q' \<and>
     (if 1 < ref_count c
      then channels s' = (channels s)(a \<mapsto> c\<lparr>ref_count := ref_count c - 1\<rparr>) \<and> cs' = cs \<and> q' = q \<and> Q' = Q \<and> ipc_world s' = ipc_world s
      else channels s' a = None \<and> same_but_next ((channels s)(a := None)) (channels s') \<and>
           q' = q((a, True) := [], (a, False) := []) \<and>
           Q' = Q \<union> set (procs (q (a, True))) \<union> set (procs (q (a, False))) \<and>
           ipc_world s' = ready_all (procs (q (a, True)) @ procs (q (a, False))) (ipc_world s))"
proof -
  note d = ipc_repD [OF rep]
  let ?c = "c\<lparr>ref_count := ref_count c - 1\<rparr>"
  let ?s = "s\<lparr>channels := (channels s)(a \<mapsto> ?c)\<rparr>"
  have ch: "chain (chan_nodes (channels s)) (ipc_channels s) cs" "dom (channels s) = set (addrs cs)" "distinct (procs cs)"
    using d(1) by (simp_all add: ipc_list_def)
  have nodes: "chan_nodes ((channels s)(a \<mapsto> ?c)) = chan_nodes (channels s)" using chan_nodes_same [of "channels s" a c ?c] c by simp
  have qs: "queues_ok ((channels s)(a \<mapsto> ?c)) (wq_nodes (ipc_wq s)) q" using queues_ok_same [OF d(2) c, of ?c] by simp
  show ?thesis
  proof (cases "1 < ref_count c")
    case True
    then have "ipc_channel_unref alloc (Some a) s = Done ?s" using c by (simp add: ipc_channel_unref_def Let_def)
    moreover have "ipc_rep ?s cs q Q"
      using ipc_list_same [OF d(1) c, of ?c] qs d(3,4) c by (auto simp: ipc_rep_def)
    ultimately show ?thesis using True by (intro exI [of _ ?s] exI [of _ cs] exI [of _ q] exI [of _ Q]) simp
  next
    case False
    have "a \<in> set (addrs cs)" using c ch(2) by blast
    then obtain us v vs where cs: "cs = us @ (a, v) # vs" by (auto simp: addrs_def dest!: split_list)
    obtain st h where u: "ipc_unlink a ?c ?s = Done (?s\<lparr>channels := st, ipc_channels := h\<rparr>)" "st a = Some ?c"
      "same_but_next ((channels s)(a \<mapsto> ?c)) st" "chain (chan_nodes (st(a := None))) h (us @ vs)"
      using unlink_rep [of ?s us a v vs ?c] ch(1) nodes cs by auto
    let ?s2 = "?s\<lparr>channels := st, ipc_channels := h\<rparr>"
    have qst: "queues_ok st (wq_nodes (ipc_wq s)) q"
      by (rule queues_ok_cong [OF qs]) (intro allI same_but_next_queues [OF u(3)])
    obtain w where w: "ipc_channel_destroy alloc (Some a) ?s2 = Done (?s2\<lparr>channels := st(a := None), ipc_wq := w\<rparr>)"
      "queues_ok (st(a := None)) (wq_nodes w) (q((a, True) := [], (a, False) := []))"
      "rr_queues (wq_rr w) (Q \<union> set (procs (q (a, True))) \<union> set (procs (q (a, False))))"
      "rr_world (wq_rr w) = ready_all (procs (q (a, True)) @ procs (q (a, False))) (ipc_world s)"
      using destroy_rep [of ?s2 q a ?c Q alloc] qst u(2) d(3) al by auto
    let ?s3 = "?s2\<lparr>channels := st(a := None), ipc_wq := w\<rparr>"
    have res: "ipc_channel_unref alloc (Some a) s = Done ?s3"
      using c False u(1) w(1) by (simp add: ipc_channel_unref_def Let_def)
    have "dom st = set (addrs cs)" using same_but_next_dom [OF u(3)] ch(2) c by auto
    moreover have "a \<notin> set (addrs (us @ vs))" using chain_distinct [OF ch(1)] cs by auto
    ultimately have "dom (st(a := None)) = set (addrs (us @ vs))" using cs by auto
    then have "ipc_list ?s3 (us @ vs)" using u(4) ch(3) cs by (simp add: ipc_list_def)
    moreover have "rb_ok IPC_CHANNEL_BUFFER_SIZE (ch_rb e)" if "(st(a := None)) b = Some e" for b e
    proof -
      have "b \<noteq> a" "st b = Some e" using that by (auto split: if_splits)
      with same_but_next_fields [OF u(3), of b e] d(4) [of b] show ?thesis by auto
    qed
    ultimately have "ipc_rep ?s3 (us @ vs) (q((a, True) := [], (a, False) := [])) (Q \<union> set (procs (q (a, True))) \<union> set (procs (q (a, False))))"
      using w(2,3) by (simp add: ipc_rep_def)
    moreover have "same_but_next ((channels s)(a := None)) (st(a := None))" using u(3) by (auto simp: same_but_next_def)
    ultimately show ?thesis using res False w(4)
      by (intro exI [of _ ?s3] exI [of _ "us @ vs"] exI [of _ "q((a, True) := [], (a, False) := [])"]
          exI [of _ "Q \<union> set (procs (q (a, True))) \<union> set (procs (q (a, False)))"]) simp
  qed
qed

section \<open>Properties\<close>

lemma ipc_rep_field:
  assumes "ipc_rep s cs q Q" "channels s a = Some c" "ch_id (f c) = ch_id c" "ch_next (f c) = ch_next c" "ch_rb (f c) = ch_rb c"
    "read_queue (f c) = read_queue c" "write_queue (f c) = write_queue c"
  shows "ipc_rep (upd_chan a f s) cs q Q"
proof -
  have "ipc_rep (s\<lparr>channels := (channels s)(a \<mapsto> f c), ipc_wq := ipc_wq s\<rparr>) cs q Q"
    by (rule ipc_rep_queue [OF assms(1,2)])
       (use assms ipc_repD [OF assms(1)] queues_ok_same [of "channels s" _ q a c "f c"] in auto)
  then show ?thesis using assms(2) by (simp add: upd_chan_def)
qed

lemma upd_chan_simps [simp]:
  "channels (upd_chan a f s) = (channels s)(a := map_option f (channels s a))" "ipc_wq (upd_chan a f s) = ipc_wq s"
  by (simp_all add: upd_chan_def)

lemma chan_bytes_upd [simp]:
  "(\<And>c. ch_rb (f c) = ch_rb c) \<Longrightarrow> chan_bytes b (upd_chan a f s) = chan_bytes b s"
  by (auto simp: chan_bytes_def split: option.split)

lemma ipc_turns_done: "turn s = Done (Some r, s') \<Longrightarrow> ipc_turns turn sched s = Some (Done (r, s'))"
  by (simp add: ipc_turns.simps)

text \<open>
  Channel input and output. On a channel with data a read returns at once with the oldest
  \<open>n\<close> bytes, which leave the channel; on a channel with room a write returns at once having
  appended the longest prefix of its data that fits. Each wakes the process that waits longest at
  the other end, which becomes READY and enters the run queue, and no other process, and all
  lists stay well formed. Neither depends on what other processes do meanwhile.
\<close>

theorem ipc_channel_io:
  assumes "ipc_rep s cs q Q" "channels s a = Some c" "alloc_ok alloc" "current_process (ipc_world s) \<noteq> None"
  shows "(chan_bytes a s \<noteq> [] \<and> 0 < n \<longrightarrow>
      (\<exists>s'. ipc_channel_read alloc sched (Some a) True n s = Some (Done (Some (take n (chan_bytes a s)), s')) \<and>
        chan_bytes a s' = drop n (chan_bytes a s) \<and>
        ipc_rep s' cs (q((a, False) := tl (q (a, False)))) (Q \<union> set (take 1 (procs (q (a, False))))) \<and>
        ipc_world s' = ready_all (take 1 (procs (q (a, False)))) (ipc_world s))) \<and>
    (src \<noteq> [] \<and> length (chan_bytes a s) < IPC_CHANNEL_BUFFER_SIZE \<longrightarrow>
      (\<exists>s'. ipc_channel_write alloc sched (Some a) (Some src) s =
          Some (Done (Some (min (length src) (IPC_CHANNEL_BUFFER_SIZE - length (chan_bytes a s))), s')) \<and>
        chan_bytes a s' = chan_bytes a s @ take (IPC_CHANNEL_BUFFER_SIZE - length (chan_bytes a s)) src \<and>
        ipc_rep s' cs (q((a, True) := tl (q (a, True)))) (Q \<union> set (take 1 (procs (q (a, True))))) \<and>
        ipc_world s' = ready_all (take 1 (procs (q (a, True)))) (ipc_world s)))"
proof (intro conjI impI)
  assume n: "chan_bytes a s \<noteq> [] \<and> 0 < n"
  let ?s = "upd_chan a (\<lambda>c. c\<lparr>ch_readers := ch_readers c + 1\<rparr>) s"
  have rep: "ipc_rep ?s cs q Q" by (rule ipc_rep_field [OF assms(1,2)]) simp_all
  have b: "chan_bytes a ?s = chan_bytes a s" by simp
  have ch: "channels ?s a = Some (c\<lparr>ch_readers := ch_readers c + 1\<rparr>)" using assms(2) by simp
  obtain s1 where t: "ipc_read_turn alloc a n ?s = Done (Some (take n (chan_bytes a s)), s1)"
    "ipc_rep s1 cs (q((a, False) := tl (q (a, False)))) (Q \<union> set (take 1 (procs (q (a, False)))))"
    "chan_bytes a s1 = drop n (chan_bytes a s)" "ipc_frame a ?s s1" "ipc_world s1 = ready_all (take 1 (procs (q (a, False)))) (ipc_world s)"
    using read_turn_transfer [OF rep ch assms(3), of n] n b by auto
  obtain c1 where c1: "channels s1 a = Some c1" using t(4) ch unfolding ipc_frame_def by blast
  let ?s' = "upd_chan a (\<lambda>c. c\<lparr>ch_readers := ch_readers c - 1\<rparr>) s1"
  have "ipc_channel_read alloc sched (Some a) True n s = Some (Done (Some (take n (chan_bytes a s)), ?s'))"
    using n assms(2,4) c1 by (simp add: ipc_channel_read_def ipc_turns_done [of "ipc_read_turn alloc a n", OF t(1)] del: upd_chan_simps)
  moreover have "ipc_rep ?s' cs (q((a, False) := tl (q (a, False)))) (Q \<union> set (take 1 (procs (q (a, False)))))"
    by (rule ipc_rep_field [OF t(2) c1]) simp_all
  ultimately show "\<exists>s'. ipc_channel_read alloc sched (Some a) True n s = Some (Done (Some (take n (chan_bytes a s)), s')) \<and>
        chan_bytes a s' = drop n (chan_bytes a s) \<and>
        ipc_rep s' cs (q((a, False) := tl (q (a, False)))) (Q \<union> set (take 1 (procs (q (a, False))))) \<and>
        ipc_world s' = ready_all (take 1 (procs (q (a, False)))) (ipc_world s)"
    using t(3,5) by (intro exI [of _ ?s']) simp
next
  assume n: "src \<noteq> [] \<and> length (chan_bytes a s) < IPC_CHANNEL_BUFFER_SIZE"
  let ?k = "min (length src) (IPC_CHANNEL_BUFFER_SIZE - length (chan_bytes a s))"
  let ?s = "upd_chan a (\<lambda>c. c\<lparr>ch_writers := ch_writers c + 1\<rparr>) s"
  have rep: "ipc_rep ?s cs q Q" by (rule ipc_rep_field [OF assms(1,2)]) simp_all
  have b: "chan_bytes a ?s = chan_bytes a s" by simp
  have ch: "channels ?s a = Some (c\<lparr>ch_writers := ch_writers c + 1\<rparr>)" using assms(2) by simp
  obtain s1 where t: "ipc_write_turn alloc a src ?s = Done (Some ?k, s1)"
    "ipc_rep s1 cs (q((a, True) := tl (q (a, True)))) (Q \<union> set (take 1 (procs (q (a, True)))))"
    "chan_bytes a s1 = chan_bytes a s @ take (IPC_CHANNEL_BUFFER_SIZE - length (chan_bytes a s)) src" "ipc_frame a ?s s1"
    "ipc_world s1 = ready_all (take 1 (procs (q (a, True)))) (ipc_world s)"
    using write_turn_transfer [OF rep ch assms(3), of src] n b by auto
  obtain c1 where c1: "channels s1 a = Some c1" using t(4) ch unfolding ipc_frame_def by blast
  let ?s' = "upd_chan a (\<lambda>c. c\<lparr>ch_writers := ch_writers c - 1\<rparr>) s1"
  have "ipc_channel_write alloc sched (Some a) (Some src) s = Some (Done (Some ?k, ?s'))"
    using n assms(2,4) c1 by (simp add: ipc_channel_write_def ipc_turns_done [of "ipc_write_turn alloc a src", OF t(1)] del: upd_chan_simps)
  moreover have "ipc_rep ?s' cs (q((a, True) := tl (q (a, True)))) (Q \<union> set (take 1 (procs (q (a, True)))))"
    by (rule ipc_rep_field [OF t(2) c1]) simp_all
  ultimately show "\<exists>s'. ipc_channel_write alloc sched (Some a) (Some src) s = Some (Done (Some ?k, s')) \<and>
        chan_bytes a s' = chan_bytes a s @ take (IPC_CHANNEL_BUFFER_SIZE - length (chan_bytes a s)) src \<and>
        ipc_rep s' cs (q((a, True) := tl (q (a, True)))) (Q \<union> set (take 1 (procs (q (a, True))))) \<and>
        ipc_world s' = ready_all (take 1 (procs (q (a, True)))) (ipc_world s)"
    using t(3,5) by (intro exI [of _ ?s']) simp
qed

text \<open>
  A reader that sleeps is woken by the data it waits for. A reader that finds the channel
  empty while a writer is active goes to sleep, BLOCKED and alone in the queue of readers; the
  next write makes it READY and puts it into the run queue; and its next turn, after the
  processor came back to it, returns the oldest bytes of what was written.
\<close>

theorem ipc_reader_woken:
  assumes "ipc_rep s cs q Q" "channels s a = Some c" "alloc_ok alloc" "current_process (ipc_world s) = Some p"
    "chan_bytes a s = []" "0 < ch_writers c" "q (a, True) = []" "src \<noteq> []" "0 < n"
  shows "\<exists>s1 s2 s3 k. ipc_read_turn alloc a n s = Done (None, s1) \<and> state (proc_at (ipc_world s1) p) = PROCESS_BLOCKED \<and>
     ipc_write_turn alloc a src s1 = Done (Some k, s2) \<and> 0 < k \<and> state (proc_at (ipc_world s2) p) = PROCESS_READY \<and>
     rr_queues (wq_rr (ipc_wq s2)) (insert p Q) \<and>
     ipc_read_turn alloc a n s2 = Done (Some (take n (take k src)), s3)"
proof -
  obtain s1 ys where 1: "ipc_read_turn alloc a n s = Done (None, s1)" "ipc_rep s1 cs (q((a, True) := ys)) Q" "procs ys = [p]"
    "chan_bytes a s1 = []" "ipc_frame a s s1" "ipc_world s1 = process_set_sched_state (Some p) PROCESS_BLOCKED (ipc_world s)"
    using read_turn_sleep [OF assms(1-3,5,6,4), of n] assms(7) by auto
  obtain c1 where c1: "channels s1 a = Some c1" using 1(5) assms(2) unfolding ipc_frame_def by blast
  let ?k = "min (length src) IPC_CHANNEL_BUFFER_SIZE"
  let ?q = "q((a, True) := ys)"
  obtain s2 where 2: "ipc_write_turn alloc a src s1 = Done (Some ?k, s2)"
    "ipc_rep s2 cs (?q((a, True) := tl (?q (a, True)))) (Q \<union> set (take 1 (procs (?q (a, True)))))"
    "chan_bytes a s2 = take IPC_CHANNEL_BUFFER_SIZE src" "ipc_frame a s1 s2"
    "ipc_world s2 = ready_all (take 1 (procs (?q (a, True)))) (ipc_world s1)"
    using write_turn_transfer [OF 1(2) c1 assms(3) _ assms(8)] 1(4) by auto
  obtain c2 where c2: "channels s2 a = Some c2" using 2(4) c1 unfolding ipc_frame_def by blast
  have ne: "chan_bytes a s2 \<noteq> []" using 2(3) assms(8) by simp
  obtain s3 where 3: "ipc_read_turn alloc a n s2 = Done (Some (take n (take IPC_CHANNEL_BUFFER_SIZE src)), s3)"
    using read_turn_transfer [OF 2(2) c2 assms(3) ne assms(9)] 2(3) by auto
  have "take ?k src = take IPC_CHANNEL_BUFFER_SIZE src" by (simp add: min_def)
  then have 3: "ipc_read_turn alloc a n s2 = Done (Some (take n (take ?k src)), s3)" using 3 by simp
  have "rr_queues (wq_rr (ipc_wq s2)) (insert p Q)" using ipc_repD(3) [OF 2(2)] 1(3) by simp
  moreover have "state (proc_at (ipc_world s2) p) = PROCESS_READY" using 2(5) 1(3) by (simp add: state_after_set)
  moreover have "state (proc_at (ipc_world s1) p) = PROCESS_BLOCKED" using 1(6) by (simp add: state_after_set)
  moreover have "0 < ?k" using assms(8) by simp
  ultimately show ?thesis using 1(1) 2(1) 3 by blast
qed

text \<open>
  Dropping a reference. While others remain only the count changes. The last one unlinks the
  channel and frees it: every other channel is unchanged (but for the link of its predecessor),
  every process that slept in one of its two queues is READY and in the run queue, no other
  process changes state, no node of the queues is left behind, and all lists stay well formed.
\<close>

theorem ipc_unref_spec:
  assumes "ipc_rep s cs q Q" "channels s a = Some c" "alloc_ok alloc"
  shows "\<exists>s' cs' q' Q'. ipc_channel_unref alloc (Some a) s = Done s' \<and> ipc_rep s' cs' q' Q' \<and>
     (if 1 < ref_count c
      then channels s' = (channels s)(a \<mapsto> c\<lparr>ref_count := ref_count c - 1\<rparr>) \<and> q' = q \<and> Q' = Q \<and> ipc_world s' = ipc_world s
      else channels s' a = None \<and> same_but_next ((channels s)(a := None)) (channels s') \<and>
           q' = q((a, True) := [], (a, False) := []) \<and>
           Q' = Q \<union> set (procs (q (a, True))) \<union> set (procs (q (a, False))) \<and>
           ipc_world s' = ready_all (procs (q (a, True)) @ procs (q (a, False))) (ipc_world s))"
  using unref_rep [OF assms] by (cases "1 < ref_count c") auto

text \<open>The states the kernel reaches: every caller holds the channel it uses.\<close>

inductive ipc_reachable :: "(qstore \<Rightarrow> nat option) \<Rightarrow> ipc_sys \<Rightarrow> bool" for alloc where
  boot: "channels s = Map.empty \<Longrightarrow> wq_nodes (ipc_wq s) = Map.empty \<Longrightarrow> rr_queues (wq_rr (ipc_wq s)) Q \<Longrightarrow>
    ipc_reachable alloc (ipc_init s)"
| create: "ipc_reachable alloc s \<Longrightarrow> \<forall>a. mem = Some a \<longrightarrow> channels s a = None \<Longrightarrow>
    \<forall>b. buf = Some b \<longrightarrow> length b = IPC_CHANNEL_BUFFER_SIZE \<Longrightarrow>
    ipc_channel_get_or_create alloc mem buf ident s = Done (r, s') \<Longrightarrow> ipc_reachable alloc s'"
| alloc_id: "ipc_reachable alloc s \<Longrightarrow> ipc_allocate_channel_id s = Done (i, s') \<Longrightarrow> ipc_reachable alloc s'"
| take_ref: "ipc_reachable alloc s \<Longrightarrow> ipc_channel_ref channel s = Done s' \<Longrightarrow> ipc_reachable alloc s'"
| drop_ref: "ipc_reachable alloc s \<Longrightarrow> channels s a = Some c \<Longrightarrow> ipc_channel_unref alloc (Some a) s = Done s' \<Longrightarrow>
    ipc_reachable alloc s'"
| enter: "ipc_reachable alloc s \<Longrightarrow> channels s a = Some c \<Longrightarrow>
    ipc_reachable alloc (upd_chan a (\<lambda>c. c\<lparr>ch_readers := ch_readers c + i, ch_writers := ch_writers c + j\<rparr>) s)"
| read_turn: "ipc_reachable alloc s \<Longrightarrow> channels s a = Some c \<Longrightarrow> 0 < n \<Longrightarrow> current_process (ipc_world s) = Some p \<Longrightarrow>
    ipc_read_turn alloc a n s = Done (r, s') \<Longrightarrow> ipc_reachable alloc s'"
| write_turn: "ipc_reachable alloc s \<Longrightarrow> channels s a = Some c \<Longrightarrow> src \<noteq> [] \<Longrightarrow> current_process (ipc_world s) = Some p \<Longrightarrow>
    ipc_write_turn alloc a src s = Done (r', s') \<Longrightarrow> ipc_reachable alloc s'"
| schedule: "ipc_reachable alloc s \<Longrightarrow> rr_queues r Q \<Longrightarrow> ipc_reachable alloc (s\<lparr>ipc_wq := (ipc_wq s)\<lparr>wq_rr := r\<rparr>\<rparr>)"

definition ipc_inv :: "ipc_sys \<Rightarrow> bool" where
  "ipc_inv s \<longleftrightarrow> (\<exists>cs q Q. ipc_rep s cs q Q)"

lemma ipc_turn_inv:
  assumes "ipc_inv s" "channels s a = Some c" "alloc_ok alloc" "current_process (ipc_world s) = Some p" "0 < n" "src \<noteq> []"
  shows "\<exists>r s'. ipc_read_turn alloc a n s = Done (r, s') \<and> ipc_inv s'"
    "\<exists>r s'. ipc_write_turn alloc a src s = Done (r, s') \<and> ipc_inv s'"
proof -
  obtain cs q Q where rep: "ipc_rep s cs q Q" using assms(1) by (auto simp: ipc_inv_def)
  show "\<exists>r s'. ipc_read_turn alloc a n s = Done (r, s') \<and> ipc_inv s'"
  proof (cases "chan_bytes a s = []")
    case False
    from read_turn_transfer [OF rep assms(2,3) False assms(5)] show ?thesis unfolding ipc_inv_def by blast
  next
    case True
    show ?thesis
    proof (cases "0 < ch_writers c")
      case w: True
      from read_turn_sleep [OF rep assms(2,3) True w assms(4), of n] show ?thesis unfolding ipc_inv_def by blast
    next
      case False
      with read_turn_end [OF assms(2) True] assms(1) show ?thesis by simp
    qed
  qed
  have le: "length (chan_bytes a s) \<le> IPC_CHANNEL_BUFFER_SIZE"
    using rb_ok_count [OF ipc_repD(4) [OF rep assms(2)]] assms(2) by (simp add: chan_bytes_def)
  show "\<exists>r s'. ipc_write_turn alloc a src s = Done (r, s') \<and> ipc_inv s'"
  proof (cases "length (chan_bytes a s) = IPC_CHANNEL_BUFFER_SIZE")
    case False
    then have "length (chan_bytes a s) < IPC_CHANNEL_BUFFER_SIZE" using le by simp
    from write_turn_transfer [OF rep assms(2,3) this assms(6)] show ?thesis unfolding ipc_inv_def by blast
  next
    case True
    show ?thesis
    proof (cases "0 < ch_readers c")
      case w: True
      from write_turn_sleep [OF rep assms(2,3) True w assms(4), of src] show ?thesis unfolding ipc_inv_def by blast
    next
      case False
      with write_turn_end [OF rep assms(2) True] assms(1) show ?thesis by simp
    qed
  qed
qed

lemma ipc_next_id_inv: "ipc_inv s \<Longrightarrow> ipc_inv (s\<lparr>next_channel_id := i\<rparr>)"
  by (simp add: ipc_inv_def ipc_rep_def ipc_list_def)

lemma ipc_reachable_inv: "ipc_reachable alloc s \<Longrightarrow> alloc_ok alloc \<Longrightarrow> ipc_inv s"
proof (induction rule: ipc_reachable.induct)
  case (boot s Q)
  have "ipc_rep (ipc_init s) [] (\<lambda>_. []) Q"
    using boot by (simp add: ipc_rep_def ipc_list_def ipc_init_def queues_ok_def)
  then show ?case by (auto simp: ipc_inv_def)
next
  case (create s mem buf ident r s')
  then obtain cs q Q where "ipc_rep s cs q Q" by (auto simp: ipc_inv_def)
  from get_or_create_rep [OF this create(2,3), of alloc ident] create(4) show ?case unfolding ipc_inv_def by auto
next
  case (alloc_id s i s')
  then have "\<exists>j. s' = s \<or> s' = s\<lparr>next_channel_id := j\<rparr>"
    by (auto simp: ipc_allocate_channel_id_def ipc_get_next_available_id_def kbind_Done_iff split: option.splits if_splits)
  with alloc_id ipc_next_id_inv show ?case by blast
next
  case (take_ref s channel s')
  then obtain cs q Q where rep: "ipc_rep s cs q Q" by (auto simp: ipc_inv_def)
  show ?case
  proof (cases channel)
    case None
    with take_ref show ?thesis by (simp add: ipc_channel_ref_def)
  next
    case (Some a)
    then obtain c where c: "channels s a = Some c" and s': "s' = upd_chan a (\<lambda>c. c\<lparr>ref_count := ref_count c + 1\<rparr>) s"
      using take_ref(2) by (auto simp: ipc_channel_ref_def split: if_splits)
    have "ipc_rep s' cs q Q" unfolding s' by (rule ipc_rep_field [OF rep c]) simp_all
    then show ?thesis by (auto simp: ipc_inv_def)
  qed
next
  case (drop_ref s a c s')
  then obtain cs q Q where rep: "ipc_rep s cs q Q" by (auto simp: ipc_inv_def)
  from unref_rep [OF rep drop_ref(2) drop_ref.prems] drop_ref(3) show ?case unfolding ipc_inv_def by auto
next
  case (enter s a c j i)
  then obtain cs q Q where rep: "ipc_rep s cs q Q" by (auto simp: ipc_inv_def)
  have "ipc_rep (upd_chan a (\<lambda>c. c\<lparr>ch_readers := ch_readers c + i, ch_writers := ch_writers c + j\<rparr>) s) cs q Q"
    by (rule ipc_rep_field [OF rep enter(2)]) simp_all
  then show ?case by (auto simp: ipc_inv_def)
next
  case (read_turn s a c n p r s')
  from ipc_turn_inv(1) [OF read_turn(6) [OF read_turn.prems] read_turn(2) read_turn.prems read_turn(4,3), of "[0]"] read_turn(5)
  show ?case by auto
next
  case (write_turn s a c src p r' s')
  from ipc_turn_inv(2) [OF write_turn(6) [OF write_turn.prems] write_turn(2) write_turn.prems write_turn(4) _ write_turn(3), of 1] write_turn(5)
  show ?case by auto
next
  case (schedule s r Q)
  then obtain cs q Q' where "ipc_rep s cs q Q'" by (auto simp: ipc_inv_def)
  then have "ipc_rep (s\<lparr>ipc_wq := (ipc_wq s)\<lparr>wq_rr := r\<rparr>\<rparr>) cs q Q"
    using schedule(2) by (simp add: ipc_rep_def ipc_list_def)
  then show ?case by (auto simp: ipc_inv_def)
qed

text \<open>
  The channel table is sound in every reachable state, whatever the order of creations,
  references, reads, writes, sleeps and wake-ups. No operation on a live channel follows a
  dangling pointer or runs forever; looking an identifier up finds the channel that has it, and
  at most one has it; and with fewer than 65536 channels the identifier that is handed out is
  one that no channel has.
\<close>

theorem ipc_table_sound:
  assumes "ipc_reachable alloc s" "alloc_ok alloc"
  shows "(\<exists>r. ipc_channel_find ident s = Done r \<and> (\<forall>a. r = Some a \<longleftrightarrow> (\<exists>c. channels s a = Some c \<and> ch_id c = ident))) \<and>
     (card (dom (channels s)) < 65536 \<longrightarrow>
        (\<exists>i s'. ipc_allocate_channel_id s = Done (i, s') \<and> (\<forall>a c. channels s a = Some c \<longrightarrow> ch_id c \<noteq> i))) \<and>
     (\<forall>a c p. channels s a = Some c \<longrightarrow> current_process (ipc_world s) = Some p \<longrightarrow> 0 < n \<longrightarrow> src \<noteq> [] \<longrightarrow>
        (\<exists>r s'. ipc_read_turn alloc a n s = Done (r, s')) \<and> (\<exists>r s'. ipc_write_turn alloc a src s = Done (r, s')) \<and>
        (\<exists>s'. ipc_channel_unref alloc (Some a) s = Done s'))"
proof -
  have inv: "ipc_inv s" by (rule ipc_reachable_inv [OF assms])
  then obtain cs q Q where rep: "ipc_rep s cs q Q" by (auto simp: ipc_inv_def)
  note l = ipc_repD(1) [OF rep]
  have "length cs = card (dom (channels s))"
    using l chain_distinct [of "chan_nodes (channels s)" "ipc_channels s" cs] distinct_card [of "addrs cs"] by (simp add: ipc_list_def)
  then have id: "\<exists>i s'. ipc_allocate_channel_id s = Done (i, s') \<and> (\<forall>a c. channels s a = Some c \<longrightarrow> ch_id c \<noteq> i)"
    if "card (dom (channels s)) < 65536"
    using id_search_enough [OF l, of 65536 "next_channel_id s"] that
    by (auto simp: ipc_allocate_channel_id_def ipc_get_next_available_id_def)
  have ops: "(\<exists>r s'. ipc_read_turn alloc a n s = Done (r, s')) \<and> (\<exists>r s'. ipc_write_turn alloc a src s = Done (r, s')) \<and>
      (\<exists>s'. ipc_channel_unref alloc (Some a) s = Done s')"
    if "channels s a = Some c" "current_process (ipc_world s) = Some p" "0 < n" "src \<noteq> []" for a c p
    using ipc_turn_inv [OF inv that(1) assms(2) that(2-4)] unref_rep [OF rep that(1) assms(2)] by blast
  from ipc_find_iff [OF l] id ops show ?thesis by blast
qed

section \<open>Witnesses\<close>

definition ipc_demo_chan :: "nat \<Rightarrow> int \<Rightarrow> ipc_channel" where
  "ipc_demo_chan k wr = (new_channel 1 \<lparr>rb_buffer = Some ([7, 8] @ replicate 4094 0), rb_size = 4096, rb_read_pos = 0,
     rb_write_pos = k, rb_count = k\<rparr>)\<lparr>ch_writers := wr, ref_count := 1\<rparr>"

definition ipc_demo :: "nat \<Rightarrow> int \<Rightarrow> ipc_sys" where
  "ipc_demo k wr = \<lparr>channels = [100 \<mapsto> ipc_demo_chan k wr], ipc_channels = Some 100, next_channel_id = 2,
     ipc_wq = \<lparr>wq_nodes = Map.empty, wq_rr = rr_boot (demo_world\<lparr>current_process := Some 5\<rparr>)\<rparr>\<rparr>"

lemma rr_boot_queues: "rr_queues (rr_boot w) {}"
  unfolding rr_queues_def by (rule exI [of _ "[]"]) (simp add: rr_boot_rep)

lemma ipc_demo_rep: "k \<le> 2 \<Longrightarrow> ipc_rep (ipc_demo k wr) [(100, 1)] (\<lambda>_. []) {}"
proof -
  assume k: "k \<le> 2"
  show ?thesis using k
    by (auto simp: rr_boot_queues ipc_rep_def ipc_list_def ipc_demo_def ipc_demo_chan_def new_channel_def chan_nodes_Some queues_ok_def chan_queue_def
        wq_rep_init rb_ok_def ring_ok_def)
qed

lemma ipc_demo_bytes: "chan_bytes 100 (ipc_demo 2 wr) = [7, 8]" "chan_bytes 100 (ipc_demo 0 wr) = []"
  by (simp_all add: chan_bytes_def ipc_demo_def ipc_demo_chan_def new_channel_def rb_bytes_def ring_contents_def upt_rec)

theorem ipc_channel_io_witness:
  "(\<exists>s'. ipc_channel_read (\<lambda>st. Some (next_free st)) id (Some 100) True 1 (ipc_demo 2 0) = Some (Done (Some [7], s')) \<and>
        chan_bytes 100 s' = [8]) \<and>
   (\<exists>s'. ipc_channel_write (\<lambda>st. Some (next_free st)) id (Some 100) (Some [9]) (ipc_demo 2 0) = Some (Done (Some 1, s')) \<and>
        chan_bytes 100 s' = [7, 8, 9])"
proof -
  have "channels (ipc_demo 2 0) 100 = Some (ipc_demo_chan 2 0)" "current_process (ipc_world (ipc_demo 2 0)) \<noteq> None"
    by (simp_all add: ipc_demo_def rr_boot_def)
  from ipc_channel_io [OF ipc_demo_rep [OF order_refl] this(1) next_free_alloc this(2), of 1 id "[9]"] show ?thesis
    unfolding ipc_demo_bytes by auto
qed

theorem ipc_reader_woken_witness:
  "\<exists>s1 s2 s3 k. ipc_read_turn (\<lambda>st. Some (next_free st)) 100 4 (ipc_demo 0 1) = Done (None, s1) \<and>
     state (proc_at (ipc_world s1) 5) = PROCESS_BLOCKED \<and>
     ipc_write_turn (\<lambda>st. Some (next_free st)) 100 [9] s1 = Done (Some k, s2) \<and> 0 < k \<and> state (proc_at (ipc_world s2) 5) = PROCESS_READY \<and>
     rr_queues (wq_rr (ipc_wq s2)) (insert 5 {}) \<and>
     ipc_read_turn (\<lambda>st. Some (next_free st)) 100 4 s2 = Done (Some (take 4 (take k [9])), s3)"
proof -
  have "channels (ipc_demo 0 1) 100 = Some (ipc_demo_chan 0 1)" "current_process (ipc_world (ipc_demo 0 1)) = Some 5"
    by (simp_all add: ipc_demo_def rr_boot_def)
  moreover have "0 < ch_writers (ipc_demo_chan 0 1)" by (simp add: ipc_demo_chan_def)
  ultimately show ?thesis
    using ipc_reader_woken [OF ipc_demo_rep [of 0 1] _ next_free_alloc _ ipc_demo_bytes(2), of "ipc_demo_chan 0 1" 5 "[9]" 4] by simp
qed

theorem ipc_unref_spec_witness:
  "\<exists>s' cs' q' Q'. ipc_channel_unref (\<lambda>st. Some (next_free st)) (Some 100) (ipc_demo 2 0) = Done s' \<and> ipc_rep s' cs' q' Q' \<and>
     channels s' 100 = None"
proof -
  have c: "channels (ipc_demo 2 0) 100 = Some (ipc_demo_chan 2 0)" by (simp add: ipc_demo_def)
  have "\<not> 1 < ref_count (ipc_demo_chan 2 0)" by (simp add: ipc_demo_chan_def)
  with ipc_unref_spec [OF ipc_demo_rep [OF order_refl] c next_free_alloc] show ?thesis by auto
qed

lemma ipc_boot_reachable: "ipc_reachable (\<lambda>st. Some (next_free st)) (ipc_init ((ipc_demo 0 0)\<lparr>channels := Map.empty\<rparr>))"
proof (rule ipc_reachable.boot)
  show "rr_queues (wq_rr (ipc_wq ((ipc_demo 0 0)\<lparr>channels := Map.empty\<rparr>))) {}"
    by (simp add: rr_boot_queues ipc_demo_def)
qed (simp_all add: ipc_demo_def)

lemma ipc_created_reachable:
  "\<exists>s. ipc_reachable (\<lambda>st. Some (next_free st)) s \<and> card (dom (channels s)) < 65536 \<and> (\<exists>c. channels s 100 = Some c \<and> ch_id c = 3)"
proof -
  let ?s = "ipc_init ((ipc_demo 0 0)\<lparr>channels := Map.empty\<rparr>)"
  let ?r = "ipc_channel_get_or_create (\<lambda>st. Some (next_free st)) (Some 100) (Some (replicate 4096 0)) 3 ?s"
  obtain s' where s': "?r = Done (Some 100, s')" "dom (channels s') = {100}" "\<exists>c. channels s' 100 = Some c \<and> ch_id c = 3"
    by (auto simp: ipc_channel_get_or_create_def ipc_channel_find_def ipc_channel_find_locked.simps ipc_init_def ipc_demo_def
        ipc_channel_create_def ring_buffer_init_def new_channel_def)
  have "ipc_reachable (\<lambda>st. Some (next_free st)) s'"
    by (rule ipc_reachable.create [OF ipc_boot_reachable _ _ s'(1)]) (simp_all add: ipc_init_def)
  with s' show ?thesis by auto
qed

theorem ipc_table_sound_witness:
  "\<exists>s. ipc_channel_find 3 s = Done (Some 100) \<and>
     (\<exists>i s'. ipc_allocate_channel_id s = Done (i, s') \<and> (\<forall>a c. channels s a = Some c \<longrightarrow> ch_id c \<noteq> i))"
proof -
  obtain s where s: "ipc_reachable (\<lambda>st. Some (next_free st)) s" "card (dom (channels s)) < 65536"
    "\<exists>c. channels s 100 = Some c \<and> ch_id c = 3" using ipc_created_reachable by blast
  from ipc_table_sound [OF s(1) next_free_alloc, of 3] s(2,3) show ?thesis by metis
qed

end
