(* ===== verification/Fd_Table.thy ===== *)
theory Fd_Table
  imports Allocator "HOL-Library.Multiset"
begin

text \<open>
  File descriptors (\<^verbatim>\<open>kernel/process/files_struct.c\<close>, \<^verbatim>\<open>kernel/process/fdtable.c\<close> and the descriptor
  calls of \<^verbatim>\<open>kernel/syscalls/io_syscalls.c\<close>). A process points to a \<^verbatim>\<open>files_struct\<close>, a counted table of
  64 slots; a slot says by its flags what kind of kernel object \<^verbatim>\<open>vfs_file\<close> points to. Of the objects
  themselves only the kind and the reference counts are kept here: what a pipe, an eventfd or a memfd
  does with its data is in their own theories. An access to an object that is gone, or through the wrong
  kind, is \<^verbatim>\<open>Stuck\<close>: such a pointer is dangling or misinterpreted in the source.
\<close>

section \<open>State\<close>

datatype obj_kind = OPipe | OStream | OIcmp | OUdp | OSnap | OBind | OMemfd | OEventfd | OTimerfd | OVfs

text \<open>A pipe counts its two ends apart; for the other kinds only \<open>r0\<close> is used. \<open>opos\<close> is \<^verbatim>\<open>pos\<close> of a \<^verbatim>\<open>vfs_file\<close>.\<close>

record fobj =
  okind :: obj_kind
  r0 :: nat
  r1 :: nat
  opos :: int

record fd_entry =
  in_use :: bool
  fd_path :: string
  fflags :: int
  fd_flags :: nat
  vfs_file :: nat
  offset :: int
  is_pipe :: bool
  pipe_end :: int
  is_devfs :: bool
  dev_device_id :: nat
  is_socket :: bool
  is_pseudo :: bool
  is_epoll :: bool
  is_memfd :: bool
  is_eventfd :: bool
  is_timerfd :: bool

record files_struct =
  magic :: nat
  refcount :: int
  fd_table :: "fd_entry list"

text \<open>
  \<open>dev_nodes\<close> are the reference counts of the registered device nodes by identifier, \<open>proc_files\<close> the field
  \<^verbatim>\<open>files\<close> of every process (0 is NULL). \<open>epolls\<close> is the static table \<^verbatim>\<open>g_epoll\<close> of epoll sets: by the address of a
  set whether it is in use. The sets have no reference count and are none of the counted objects \<open>objs\<close>.
\<close>

record fdk =
  objs :: "nat \<rightharpoonup> fobj"
  dev_nodes :: "nat \<rightharpoonup> nat"
  fstore :: "nat \<rightharpoonup> files_struct"
  proc_files :: "nat \<rightharpoonup> nat"
  epolls :: "nat \<rightharpoonup> bool"

definition MAX_FDS_PER_PROCESS :: nat where "MAX_FDS_PER_PROCESS = 64"
definition IR0_FILES_MAGIC :: nat where "IR0_FILES_MAGIC = 0x46494C45"
definition IR0_FILES_MAGIC_DEAD :: nat where "IR0_FILES_MAGIC_DEAD = 0xDEADF11E"
definition DEVFS_ID_NET :: nat where "DEVFS_ID_NET = 8"
definition DEVFS_ID_KMSG :: nat where "DEVFS_ID_KMSG = 5"

definition entry_blank :: fd_entry where
  "entry_blank = \<lparr>in_use = False, fd_path = '''', fflags = 0, fd_flags = 0, vfs_file = 0, offset = 0, is_pipe = False, pipe_end = 0,
     is_devfs = False, dev_device_id = 0, is_socket = False, is_pseudo = False, is_epoll = False, is_memfd = False, is_eventfd = False, is_timerfd = False\<rparr>"

section \<open>References to objects\<close>

definition bump :: "(nat \<Rightarrow> nat) \<Rightarrow> int \<Rightarrow> fobj \<Rightarrow> fobj" where
  "bump f end ob = (if end = 1 then ob\<lparr>r1 := f (r1 ob)\<rparr> else ob\<lparr>r0 := f (r0 ob)\<rparr>)"

definition file_obj_acquire :: "obj_kind \<Rightarrow> int \<Rightarrow> nat \<Rightarrow> fdk \<Rightarrow> fdk kresult" where
  "file_obj_acquire k end a st =
     (if a = 0 then Done st
      else case objs st a of
             None \<Rightarrow> Stuck
           | Some ob \<Rightarrow> if okind ob \<noteq> k then Stuck else Done (st\<lparr>objs := (objs st)(a \<mapsto> bump Suc end ob)\<rparr>))"

text \<open>The last release frees the object.\<close>

definition file_obj_release :: "obj_kind \<Rightarrow> int \<Rightarrow> nat \<Rightarrow> fdk \<Rightarrow> fdk kresult" where
  "file_obj_release k end a st =
     (if a = 0 then Done st
      else case objs st a of
             None \<Rightarrow> Stuck
           | Some ob \<Rightarrow>
               if okind ob \<noteq> k then Stuck
               else let ob1 = bump (\<lambda>n. n - 1) end ob in
                 Done (st\<lparr>objs := (objs st)(a := if r0 ob1 + r1 ob1 = 0 then None else Some ob1)\<rparr>))"

text \<open>The pipe operations ignore an end that is neither the read end 0 nor the write end 1.\<close>

definition fd_pipe_acquire_end :: "nat \<Rightarrow> int \<Rightarrow> fdk \<Rightarrow> fdk kresult" where
  "fd_pipe_acquire_end a end st = (if a = 0 \<or> end \<noteq> 0 \<and> end \<noteq> 1 then Done st else file_obj_acquire OPipe end a st)"

definition fd_pipe_close_end :: "nat \<Rightarrow> int \<Rightarrow> fdk \<Rightarrow> fdk kresult" where
  "fd_pipe_close_end a end st = (if a = 0 \<or> end \<noteq> 0 \<and> end \<noteq> 1 then Done st else file_obj_release OPipe end a st)"

text \<open>
  Sockets are told apart by their object. \<open>slot a\<close> says that \<open>a\<close> is an entry of the static table of stream
  sockets (\<^verbatim>\<open>sock_stream_is_slot\<close>): a dead one is ignored.
\<close>

definition sock_op :: "(obj_kind \<Rightarrow> int \<Rightarrow> nat \<Rightarrow> fdk \<Rightarrow> fdk kresult) \<Rightarrow> (nat \<Rightarrow> bool) \<Rightarrow> nat \<Rightarrow> fdk \<Rightarrow> fdk kresult" where
  "sock_op f slot a st =
     (case objs st a of
        Some ob \<Rightarrow> if okind ob = OStream then f OStream 0 a st else if okind ob = OIcmp then f OIcmp 0 a st else f OUdp 0 a st
      | None \<Rightarrow> if slot a then Done st else Stuck)"

definition devfs_node_wants_text_snap :: "nat \<Rightarrow> bool" where
  "devfs_node_wants_text_snap device_id \<longleftrightarrow> device_id = DEVFS_ID_NET \<or> device_id = DEVFS_ID_KMSG"

definition devfs_node_get :: "nat \<Rightarrow> fdk \<Rightarrow> fdk" where
  "devfs_node_get i st = (case dev_nodes st i of None \<Rightarrow> st | Some n \<Rightarrow> st\<lparr>dev_nodes := (dev_nodes st)(i \<mapsto> n + 1)\<rparr>)"

definition devfs_close_node :: "nat \<Rightarrow> fdk \<Rightarrow> fdk" where
  "devfs_close_node i st = (case dev_nodes st i of None \<Rightarrow> st | Some n \<Rightarrow> if n = 0 then st else st\<lparr>dev_nodes := (dev_nodes st)(i \<mapsto> n - 1)\<rparr>)"

text \<open>Releasing an epoll set zeroes it, whoever else uses it. Anything but a set of the table would be overwritten.\<close>

definition epoll_release_fd :: "nat \<Rightarrow> fdk \<Rightarrow> fdk kresult" where
  "epoll_release_fd a st =
     (if a = 0 then Done st
      else case epolls st a of
             None \<Rightarrow> Stuck
           | Some _ \<Rightarrow> Done (st\<lparr>epolls := (epolls st)(a \<mapsto> False)\<rparr>))"

section \<open>Tables\<close>

text \<open>\<^verbatim>\<open>sizeof(files_struct_t)\<close>.\<close>

definition files_size :: nat where "files_size = 8 + 64 * 312"

definition files_struct_live :: "nat \<Rightarrow> fdk \<Rightarrow> bool kresult" where
  "files_struct_live f st =
     (if f = 0 then Done False
      else if f < mm_kernel_heap_start then Done False
      else let fin = add64 f files_size in
        if fin < f \<or> add64 mm_kernel_heap_start mm_kernel_heap_size < fin then Done False
        else case fstore st f of
               None \<Rightarrow> Stuck
             | Some s \<Rightarrow> Done (magic s = IR0_FILES_MAGIC \<and> refcount s > 0))"

text \<open>\<open>a\<close> is the address that \<^verbatim>\<open>kmalloc_try\<close> returns, 0 when it fails.\<close>

definition files_create :: "nat \<Rightarrow> fdk \<Rightarrow> nat \<times> fdk" where
  "files_create a st =
     (if a = 0 then (0, st)
      else (a, st\<lparr>fstore := (fstore st)(a \<mapsto> \<lparr>magic = IR0_FILES_MAGIC, refcount = 1, fd_table = replicate MAX_FDS_PER_PROCESS entry_blank\<rparr>)\<rparr>))"

definition files_get :: "nat \<Rightarrow> fdk \<Rightarrow> (nat \<times> fdk) kresult" where
  "files_get f st =
     kbind (files_struct_live f st) (\<lambda>live.
       if \<not> live then Done (0, st)
       else case fstore st f of None \<Rightarrow> Stuck | Some s \<Rightarrow> Done (f, st\<lparr>fstore := (fstore st)(f \<mapsto> s\<lparr>refcount := refcount s + 1\<rparr>)\<rparr>))"

text \<open>The table is poisoned and freed with the last reference.\<close>

definition files_put :: "nat \<Rightarrow> fdk \<Rightarrow> fdk kresult" where
  "files_put f st =
     (if f = 0 then Done st
      else kbind (files_struct_live f st) (\<lambda>live.
        if \<not> live then Done st
        else case fstore st f of
               None \<Rightarrow> Stuck
             | Some s \<Rightarrow>
                 if refcount s \<le> 0 then Panic ''files_put: refcount underflow''
                 else let s1 = s\<lparr>refcount := refcount s - 1\<rparr> in
                   if refcount s1 \<noteq> 0 then Done (st\<lparr>fstore := (fstore st)(f \<mapsto> s1)\<rparr>)
                   else Done (st\<lparr>fstore := (fstore st)(f := None)\<rparr>)))"

definition process_files_bind :: "nat \<Rightarrow> nat \<Rightarrow> fdk \<Rightarrow> fdk" where
  "process_files_bind p f st = (if proc_files st p = None then st else st\<lparr>proc_files := (proc_files st)(p \<mapsto> f)\<rparr>)"

text \<open>One iteration of the loop that takes a reference for every copied slot.\<close>

definition acquire_entry :: "(nat \<Rightarrow> bool) \<Rightarrow> fd_entry \<Rightarrow> fdk \<Rightarrow> fdk kresult" where
  "acquire_entry slot e st =
     (if \<not> in_use e then Done st
      else if is_pipe e \<and> vfs_file e \<noteq> 0 then fd_pipe_acquire_end (vfs_file e) (pipe_end e) st
      else if is_socket e \<and> vfs_file e \<noteq> 0 then sock_op file_obj_acquire slot (vfs_file e) st
      else if is_devfs e then
        (let st1 = devfs_node_get (dev_device_id e) st in
         if vfs_file e \<noteq> 0 \<and> devfs_node_wants_text_snap (dev_device_id e) then file_obj_acquire OSnap 0 (vfs_file e) st1 else Done st1)
      else if is_pseudo e \<and> vfs_file e \<noteq> 0 then file_obj_acquire OBind 0 (vfs_file e) st
      else if is_epoll e then Done st
      else if is_memfd e \<and> vfs_file e \<noteq> 0 then file_obj_acquire OMemfd 0 (vfs_file e) st
      else if is_eventfd e \<and> vfs_file e \<noteq> 0 then file_obj_acquire OEventfd 0 (vfs_file e) st
      else if is_timerfd e \<and> vfs_file e \<noteq> 0 then file_obj_acquire OTimerfd 0 (vfs_file e) st
      else if vfs_file e \<noteq> 0 then file_obj_acquire OVfs 0 (vfs_file e) st
      else Done st)"

fun acquire_entries :: "(nat \<Rightarrow> bool) \<Rightarrow> fd_entry list \<Rightarrow> fdk \<Rightarrow> fdk kresult" where
  "acquire_entries slot [] st = Done st"
| "acquire_entries slot (e # es) st = kbind (acquire_entry slot e st) (acquire_entries slot es)"

definition process_files_acquire_entries :: "(nat \<Rightarrow> bool) \<Rightarrow> nat \<Rightarrow> fdk \<Rightarrow> (bool \<times> fdk) kresult" where
  "process_files_acquire_entries slot f st =
     (if f = 0 then Done (False, st)
      else case fstore st f of None \<Rightarrow> Stuck | Some s \<Rightarrow> kbind (acquire_entries slot (fd_table s) st) (\<lambda>st1. Done (True, st1)))"

text \<open>\<open>None\<close> as a process is a NULL pointer.\<close>

definition process_files_share :: "nat option \<Rightarrow> nat option \<Rightarrow> fdk \<Rightarrow> ((errno + unit) \<times> fdk) kresult" where
  "process_files_share child parent st =
     (case (child, parent) of
        (Some c, Some p) \<Rightarrow>
          (case proc_files st p of
             None \<Rightarrow> Stuck
           | Some f \<Rightarrow>
               kbind (files_struct_live f st) (\<lambda>live.
                 if \<not> live then Done (Inl EINVAL, st)
                 else kbind (files_get f st) (\<lambda>(g, st1).
                   if g = 0 then Done (Inl EINVAL, st1) else Done (Inr (), process_files_bind c f st1))))
      | _ \<Rightarrow> Done (Inl EINVAL, st))"

definition process_files_clone :: "(nat \<Rightarrow> bool) \<Rightarrow> nat \<Rightarrow> nat option \<Rightarrow> nat option \<Rightarrow> fdk \<Rightarrow> ((errno + unit) \<times> fdk) kresult" where
  "process_files_clone slot a child parent st =
     (case (child, parent) of
        (Some c, Some p) \<Rightarrow>
          (case proc_files st p of
             None \<Rightarrow> Stuck
           | Some f \<Rightarrow>
               kbind (files_struct_live f st) (\<lambda>live.
                 if \<not> live then Done (Inl EINVAL, st)
                 else let (nf, st1) = files_create a st in
                   if nf = 0 then Done (Inl ENOMEM, st1)
                   else case (fstore st1 nf, fstore st1 f) of
                          (Some n, Some s) \<Rightarrow>
                            kbind (process_files_acquire_entries slot nf (st1\<lparr>fstore := (fstore st1)(nf \<mapsto> n\<lparr>fd_table := fd_table s\<rparr>)\<rparr>)) (\<lambda>(ok, st2).
                              if \<not> ok then kbind (files_put nf st2) (\<lambda>st3. Done (Inl ENOMEM, st3))
                              else Done (Inr (), process_files_bind c nf st2))
                        | _ \<Rightarrow> Stuck))
      | _ \<Rightarrow> Done (Inl EINVAL, st))"


section \<open>Holding and releasing descriptors\<close>

definition slot_at :: "nat \<Rightarrow> nat \<Rightarrow> fdk \<Rightarrow> fd_entry kresult" where
  "slot_at f i st = (case fstore st f of None \<Rightarrow> Stuck | Some s \<Rightarrow> if i < length (fd_table s) then Done (fd_table s ! i) else Stuck)"

definition set_slot :: "nat \<Rightarrow> nat \<Rightarrow> fd_entry \<Rightarrow> fdk \<Rightarrow> fdk kresult" where
  "set_slot f i e st =
     (case fstore st f of
        None \<Rightarrow> Stuck
      | Some s \<Rightarrow> if i < length (fd_table s) then Done (st\<lparr>fstore := (fstore st)(f \<mapsto> s\<lparr>fd_table := (fd_table s)[i := e]\<rparr>)\<rparr>) else Stuck)"

text \<open>A successful call pins the table and returns its address.\<close>

definition ir0_fd_get :: "nat option \<Rightarrow> int \<Rightarrow> fdk \<Rightarrow> ((errno + nat) \<times> fdk) kresult" where
  "ir0_fd_get proc fd st =
     (case proc of
        None \<Rightarrow> Done (Inl ESRCH, st)
      | Some p \<Rightarrow>
          if fd < 0 \<or> fd \<ge> int MAX_FDS_PER_PROCESS then Done (Inl EBADF, st)
          else case proc_files st p of
                 None \<Rightarrow> Stuck
               | Some f \<Rightarrow>
                   kbind (files_struct_live f st) (\<lambda>live.
                     if \<not> live then Done (Inl EBADF, st)
                     else kbind (files_get f st) (\<lambda>(g, st1).
                       if g = 0 then Done (Inl EBADF, st1)
                       else kbind (slot_at f (nat fd) st1) (\<lambda>e.
                         if \<not> in_use e then kbind (files_put f st1) (\<lambda>st2. Done (Inl EBADF, st2))
                         else Done (Inr f, st1)))))"

definition ir0_fd_put :: "nat \<Rightarrow> fdk \<Rightarrow> fdk kresult" where
  "ir0_fd_put h st = (if h = 0 then Done st else files_put h st)"

text \<open>One slot of \<^verbatim>\<open>process_release_fds\<close>: the object is released and the slot cleared.\<close>

definition release_entry :: "(nat \<Rightarrow> bool) \<Rightarrow> fd_entry \<Rightarrow> fdk \<Rightarrow> fdk kresult" where
  "release_entry slot e st =
     (if is_pipe e \<and> vfs_file e \<noteq> 0 then fd_pipe_close_end (vfs_file e) (pipe_end e) st
      else if is_socket e \<and> vfs_file e \<noteq> 0 then sock_op file_obj_release slot (vfs_file e) st
      else if is_devfs e then
        kbind (if vfs_file e \<noteq> 0 \<and> devfs_node_wants_text_snap (dev_device_id e) then file_obj_release OSnap 0 (vfs_file e) st else Done st)
          (\<lambda>st1. Done (devfs_close_node (dev_device_id e) st1))
      else if is_pseudo e \<and> vfs_file e \<noteq> 0 then file_obj_release OBind 0 (vfs_file e) st
      else if is_epoll e \<and> vfs_file e \<noteq> 0 then epoll_release_fd (vfs_file e) st
      else if is_memfd e \<and> vfs_file e \<noteq> 0 then file_obj_release OMemfd 0 (vfs_file e) st
      else if is_eventfd e \<and> vfs_file e \<noteq> 0 then file_obj_release OEventfd 0 (vfs_file e) st
      else if is_timerfd e \<and> vfs_file e \<noteq> 0 then file_obj_release OTimerfd 0 (vfs_file e) st
      else if vfs_file e \<noteq> 0 then file_obj_release OVfs 0 (vfs_file e) st
      else Done st)"

text \<open>Whether the release sets \<^verbatim>\<open>vfs_file\<close> to NULL: always but for a device without a text snapshot.\<close>

definition vfs_after :: "fd_entry \<Rightarrow> nat" where
  "vfs_after e =
     (if is_pipe e \<and> vfs_file e \<noteq> 0 \<or> is_socket e \<and> vfs_file e \<noteq> 0 then 0
      else if is_devfs e then (if vfs_file e \<noteq> 0 \<and> devfs_node_wants_text_snap (dev_device_id e) then 0 else vfs_file e)
      else 0)"

definition cleared :: "fd_entry \<Rightarrow> fd_entry" where
  "cleared e = e\<lparr>in_use := False, fd_path := '''', fflags := 0, fd_flags := 0, vfs_file := vfs_after e, offset := 0, is_pipe := False, pipe_end := -1,
     is_devfs := False, dev_device_id := 0, is_socket := False, is_pseudo := False, is_epoll := False, is_memfd := False, is_eventfd := False, is_timerfd := False\<rparr>"

fun release_slots :: "(nat \<Rightarrow> bool) \<Rightarrow> nat \<Rightarrow> nat list \<Rightarrow> fdk \<Rightarrow> fdk kresult" where
  "release_slots slot f [] st = Done st"
| "release_slots slot f (i # is) st =
     kbind (slot_at f i st) (\<lambda>e.
       if \<not> in_use e then release_slots slot f is st
       else kbind (release_entry slot e st) (\<lambda>st1. kbind (set_slot f i (cleared e) st1) (release_slots slot f is)))"

definition process_release_fds :: "(nat \<Rightarrow> bool) \<Rightarrow> nat option \<Rightarrow> fdk \<Rightarrow> fdk kresult" where
  "process_release_fds slot proc st =
     (case proc of
        None \<Rightarrow> Done st
      | Some p \<Rightarrow>
          (case proc_files st p of
             None \<Rightarrow> Stuck
           | Some f \<Rightarrow>
               kbind (files_struct_live f st) (\<lambda>live.
                 if \<not> live then Done st
                 else case fstore st f of
                        None \<Rightarrow> Stuck
                      | Some s \<Rightarrow> if refcount s \<noteq> 1 then Done st else release_slots slot f [0..<MAX_FDS_PER_PROCESS] st)))"

definition process_duplicate_fd_table :: "(nat \<Rightarrow> bool) \<Rightarrow> nat \<Rightarrow> nat option \<Rightarrow> nat option \<Rightarrow> fdk \<Rightarrow> ((errno + unit) \<times> fdk) kresult" where
  "process_duplicate_fd_table slot a parent child st = process_files_clone slot a child parent st"

text \<open>The three standard streams have a name and no object.\<close>

definition init_entry :: "nat \<Rightarrow> fd_entry \<Rightarrow> fd_entry" where
  "init_entry i e =
     (let e1 = e\<lparr>in_use := False, fd_path := '''', fflags := 0, fd_flags := 0, offset := 0, vfs_file := 0, is_pipe := False, is_socket := False,
        is_devfs := False, is_pseudo := False, is_epoll := False, is_memfd := False, is_eventfd := False, is_timerfd := False, dev_device_id := 0\<rparr> in
      if i = 0 then e1\<lparr>in_use := True, fd_path := ''/dev/stdin''\<rparr>
      else if i = 1 then e1\<lparr>in_use := True, fd_path := ''/dev/stdout''\<rparr>
      else if i = 2 then e1\<lparr>in_use := True, fd_path := ''/dev/stderr''\<rparr> else e1)"

definition process_init_fd_table :: "nat \<Rightarrow> nat option \<Rightarrow> fdk \<Rightarrow> fdk kresult" where
  "process_init_fd_table a proc st =
     (case proc of
        None \<Rightarrow> Done st
      | Some p \<Rightarrow>
          (case proc_files st p of
             None \<Rightarrow> Stuck
           | Some f0 \<Rightarrow>
               let (f, st1) = (if f0 = 0 then files_create a st else (f0, st));
                   st2 = (if f0 = 0 then process_files_bind p f st1 else st1) in
               if f = 0 then Done st2
               else case fstore st2 f of
                      None \<Rightarrow> Stuck
                    | Some s \<Rightarrow> Done (st2\<lparr>fstore := (fstore st2)(f \<mapsto> s\<lparr>fd_table := map (\<lambda>i. init_entry i (fd_table s ! i)) [0..<length (fd_table s)]\<rparr>)\<rparr>)))"

section \<open>System calls on descriptors\<close>

text \<open>What \<^verbatim>\<open>sys_close\<close> does with the object; the order of the tests differs from the release at exit.\<close>

definition close_entry :: "(nat \<Rightarrow> bool) \<Rightarrow> fd_entry \<Rightarrow> fdk \<Rightarrow> fdk kresult" where
  "close_entry slot e st =
     (if is_devfs e then
        kbind (if vfs_file e \<noteq> 0 \<and> devfs_node_wants_text_snap (dev_device_id e) then file_obj_release OSnap 0 (vfs_file e) st else Done st)
          (\<lambda>st1. Done (devfs_close_node (dev_device_id e) st1))
      else if is_pipe e \<and> vfs_file e \<noteq> 0 then fd_pipe_close_end (vfs_file e) (pipe_end e) st
      else if is_socket e \<and> vfs_file e \<noteq> 0 then sock_op file_obj_release slot (vfs_file e) st
      else if is_epoll e \<and> vfs_file e \<noteq> 0 then epoll_release_fd (vfs_file e) st
      else if is_memfd e \<and> vfs_file e \<noteq> 0 then file_obj_release OMemfd 0 (vfs_file e) st
      else if is_eventfd e \<and> vfs_file e \<noteq> 0 then file_obj_release OEventfd 0 (vfs_file e) st
      else if is_timerfd e \<and> vfs_file e \<noteq> 0 then file_obj_release OTimerfd 0 (vfs_file e) st
      else if vfs_file e \<noteq> 0 then file_obj_release OVfs 0 (vfs_file e) st
      else Done st)"

definition close_vfs_after :: "fd_entry \<Rightarrow> nat" where
  "close_vfs_after e = (if is_devfs e then (if vfs_file e \<noteq> 0 \<and> devfs_node_wants_text_snap (dev_device_id e) then 0 else vfs_file e) else 0)"

text \<open>
  \<open>legacy fd\<close> is the result of \<^verbatim>\<open>pseudo_fs_close_fd\<close> when the number belongs to a registered virtual
  descriptor; these are not in any table.
\<close>

definition sys_close :: "(nat \<Rightarrow> bool) \<Rightarrow> (int \<Rightarrow> int option) \<Rightarrow> nat option \<Rightarrow> int \<Rightarrow> fdk \<Rightarrow> ((errno + int) \<times> fdk) kresult" where
  "sys_close slot legacy cur fd st =
     (if cur = None then Done (Inl ESRCH, st)
      else kbind (ir0_fd_get cur fd st) (\<lambda>(h, st1).
        case h of
          Inl er \<Rightarrow> (case legacy fd of Some v \<Rightarrow> Done (Inr v, st1) | None \<Rightarrow> Done (Inl er, st1))
        | Inr f \<Rightarrow>
            kbind (slot_at f (nat fd) st1) (\<lambda>e.
              if is_pseudo e \<and> vfs_file e \<noteq> 0 then
                kbind (file_obj_release OBind 0 (vfs_file e) st1) (\<lambda>st2.
                  kbind (set_slot f (nat fd) (e\<lparr>vfs_file := 0, in_use := False, is_pseudo := False, fd_path := ''''\<rparr>) st2) (\<lambda>st3.
                    kbind (ir0_fd_put f st3) (\<lambda>st4. Done (Inr 0, st4))))
              else if fd \<le> 2 \<and> \<not> is_pipe e \<and> \<not> is_devfs e \<and> vfs_file e = 0 then
                kbind (set_slot f (nat fd) (e\<lparr>in_use := False, fflags := 0\<rparr>) st1) (\<lambda>st2.
                  kbind (ir0_fd_put f st2) (\<lambda>st3. Done (Inr 0, st3)))
              else
                kbind (close_entry slot e st1) (\<lambda>st2.
                  kbind (set_slot f (nat fd) (cleared e\<lparr>vfs_file := close_vfs_after e\<rparr>) st2) (\<lambda>st3.
                    kbind (ir0_fd_put f st3) (\<lambda>st4. Done (Inr 0, st4)))))))"

definition process_close_fd :: "(nat \<Rightarrow> bool) \<Rightarrow> (int \<Rightarrow> int option) \<Rightarrow> nat option \<Rightarrow> int \<Rightarrow> fdk \<Rightarrow> ((errno + int) \<times> fdk) kresult" where
  "process_close_fd slot legacy proc fd st = (if proc = None then Done (Inl ESRCH, st) else sys_close slot legacy proc fd st)"

fun close_cloexec_slots :: "(nat \<Rightarrow> bool) \<Rightarrow> (int \<Rightarrow> int option) \<Rightarrow> nat \<Rightarrow> nat \<Rightarrow> nat list \<Rightarrow> fdk \<Rightarrow> fdk kresult" where
  "close_cloexec_slots slot legacy p f [] st = Done st"
| "close_cloexec_slots slot legacy p f (i # is) st =
     kbind (slot_at f i st) (\<lambda>e.
       if \<not> in_use e then close_cloexec_slots slot legacy p f is st
       else if fd_flags e AND 1 = 0 then close_cloexec_slots slot legacy p f is st
       else kbind (process_close_fd slot legacy (Some p) (int i) st) (\<lambda>(r, st1). close_cloexec_slots slot legacy p f is st1))"

definition process_exec_close_cloexec :: "(nat \<Rightarrow> bool) \<Rightarrow> (int \<Rightarrow> int option) \<Rightarrow> nat option \<Rightarrow> fdk \<Rightarrow> fdk kresult" where
  "process_exec_close_cloexec slot legacy proc st =
     (case proc of
        None \<Rightarrow> Done st
      | Some p \<Rightarrow>
          (case proc_files st p of
             None \<Rightarrow> Stuck
           | Some f \<Rightarrow>
               kbind (files_struct_live f st) (\<lambda>live.
                 if \<not> live then Done st else close_cloexec_slots slot legacy p f [3..<MAX_FDS_PER_PROCESS] st)))"

text \<open>The end of a process: its descriptors are closed and its reference to the table is dropped (\<^verbatim>\<open>process_destroy\<close>).\<close>

definition process_destroy_files :: "(nat \<Rightarrow> bool) \<Rightarrow> nat \<Rightarrow> fdk \<Rightarrow> fdk kresult" where
  "process_destroy_files slot p st =
     kbind (process_release_fds slot (Some p) st) (\<lambda>st1.
       case proc_files st1 p of
         None \<Rightarrow> Stuck
       | Some f \<Rightarrow> if f = 0 then Done st1 else kbind (files_put f st1) (\<lambda>st2. Done (st2\<lparr>proc_files := (proc_files st2)(p \<mapsto> 0)\<rparr>)))"

text \<open>The address of the table of the running process, 0 for NULL.\<close>

definition get_process_fd_table :: "nat option \<Rightarrow> fdk \<Rightarrow> nat kresult" where
  "get_process_fd_table cur st =
     (case cur of
        None \<Rightarrow> Done 0
      | Some p \<Rightarrow>
          (case proc_files st p of
             None \<Rightarrow> Stuck
           | Some f \<Rightarrow> kbind (files_struct_live f st) (\<lambda>live. Done (if live then f else 0))))"

text \<open>The first free slot at or above a number, -1 when there is none or no table.\<close>

definition fd_alloc_lowest :: "fd_entry list option \<Rightarrow> int \<Rightarrow> int" where
  "fd_alloc_lowest tab from =
     (case tab of
        None \<Rightarrow> -1
      | Some t \<Rightarrow>
          (case find (\<lambda>i. \<not> in_use (t ! i)) [nat (if from < 0 then 0 else from)..<MAX_FDS_PER_PROCESS] of
             None \<Rightarrow> -1
           | Some i \<Rightarrow> int i))"

definition table_of :: "nat \<Rightarrow> fdk \<Rightarrow> fd_entry list option kresult" where
  "table_of f st = (if f = 0 then Done None else case fstore st f of None \<Rightarrow> Stuck | Some s \<Rightarrow> Done (Some (fd_table s)))"

text \<open>\<^verbatim>\<open>sys_dup2\<close> in its three parts: release what the target slot held, copy the slot, take the reference.\<close>

definition dup2_release :: "(nat \<Rightarrow> bool) \<Rightarrow> fd_entry \<Rightarrow> fdk \<Rightarrow> fdk kresult" where
  "dup2_release slot e st =
     (if is_pipe e \<and> vfs_file e \<noteq> 0 then fd_pipe_close_end (vfs_file e) (pipe_end e) st
      else if is_devfs e then
        kbind (if vfs_file e \<noteq> 0 \<and> devfs_node_wants_text_snap (dev_device_id e) then file_obj_release OSnap 0 (vfs_file e) st else Done st)
          (\<lambda>st1. Done (devfs_close_node (dev_device_id e) st1))
      else if is_pseudo e \<and> vfs_file e \<noteq> 0 then file_obj_release OBind 0 (vfs_file e) st
      else if is_memfd e \<and> vfs_file e \<noteq> 0 then file_obj_release OMemfd 0 (vfs_file e) st
      else if is_eventfd e \<and> vfs_file e \<noteq> 0 then file_obj_release OEventfd 0 (vfs_file e) st
      else if is_timerfd e \<and> vfs_file e \<noteq> 0 then file_obj_release OTimerfd 0 (vfs_file e) st
      else if is_socket e \<and> vfs_file e \<noteq> 0 then sock_op file_obj_release slot (vfs_file e) st
      else if vfs_file e \<noteq> 0 then file_obj_release OVfs 0 (vfs_file e) st
      else Done st)"

definition dup2_acquire :: "(nat \<Rightarrow> bool) \<Rightarrow> fd_entry \<Rightarrow> fdk \<Rightarrow> fdk kresult" where
  "dup2_acquire slot e st =
     (if is_devfs e then
        (let st1 = devfs_node_get (dev_device_id e) st in
         if vfs_file e \<noteq> 0 \<and> devfs_node_wants_text_snap (dev_device_id e) then file_obj_acquire OSnap 0 (vfs_file e) st1 else Done st1)
      else if is_pipe e then fd_pipe_acquire_end (vfs_file e) (pipe_end e) st
      else if is_pseudo e \<and> vfs_file e \<noteq> 0 then file_obj_acquire OBind 0 (vfs_file e) st
      else if is_memfd e \<and> vfs_file e \<noteq> 0 then file_obj_acquire OMemfd 0 (vfs_file e) st
      else if is_eventfd e \<and> vfs_file e \<noteq> 0 then file_obj_acquire OEventfd 0 (vfs_file e) st
      else if is_timerfd e \<and> vfs_file e \<noteq> 0 then file_obj_acquire OTimerfd 0 (vfs_file e) st
      else if is_socket e \<and> vfs_file e \<noteq> 0 then sock_op file_obj_acquire slot (vfs_file e) st
      else if vfs_file e \<noteq> 0 then file_obj_acquire OVfs 0 (vfs_file e) st
      else Done st)"

text \<open>\<^verbatim>\<open>is_epoll\<close> is neither cleared nor copied.\<close>

definition dup2_copy :: "fd_entry \<Rightarrow> fd_entry \<Rightarrow> fd_entry" where
  "dup2_copy e n = n\<lparr>in_use := True, fd_path := take 255 (fd_path e), fflags := fflags e, fd_flags := 0, offset := offset e,
     is_pipe := is_pipe e, pipe_end := pipe_end e, is_devfs := is_devfs e, dev_device_id := dev_device_id e, is_pseudo := is_pseudo e,
     is_socket := is_socket e, is_memfd := is_memfd e, is_eventfd := is_eventfd e, is_timerfd := is_timerfd e,
     vfs_file := (if is_devfs e \<and> \<not> (vfs_file e \<noteq> 0 \<and> devfs_node_wants_text_snap (dev_device_id e)) then 0 else vfs_file e)\<rparr>"

definition sys_dup2 :: "(nat \<Rightarrow> bool) \<Rightarrow> nat option \<Rightarrow> int \<Rightarrow> int \<Rightarrow> fdk \<Rightarrow> ((errno + int) \<times> fdk) kresult" where
  "sys_dup2 slot cur oldfd newfd st =
     (if cur = None then Done (Inl ESRCH, st)
      else if oldfd < 0 \<or> oldfd \<ge> int MAX_FDS_PER_PROCESS then Done (Inl EBADF, st)
      else if newfd < 0 \<or> newfd \<ge> int MAX_FDS_PER_PROCESS then Done (Inl EBADF, st)
      else if oldfd = newfd then Done (Inr newfd, st)
      else kbind (get_process_fd_table cur st) (\<lambda>f.
        if f = 0 then Done (Inl EBADF, st)
        else kbind (slot_at f (nat oldfd) st) (\<lambda>e.
          if \<not> in_use e then Done (Inl EBADF, st)
          else kbind (slot_at f (nat newfd) st) (\<lambda>n.
            kbind (if in_use n then dup2_release slot n st else Done st) (\<lambda>st1.
              let n1 = (if in_use n then cleared n\<lparr>is_epoll := is_epoll n\<rparr> else n) in
              kbind (dup2_acquire slot e st1) (\<lambda>st2.
                kbind (set_slot f (nat newfd) (dup2_copy e n1) st2) (\<lambda>st3. Done (Inr newfd, st3))))))))"

definition sys_dup :: "(nat \<Rightarrow> bool) \<Rightarrow> nat option \<Rightarrow> int \<Rightarrow> fdk \<Rightarrow> ((errno + int) \<times> fdk) kresult" where
  "sys_dup slot cur oldfd st =
     (if cur = None then Done (Inl ESRCH, st)
      else if oldfd < 0 \<or> oldfd \<ge> int MAX_FDS_PER_PROCESS then Done (Inl EBADF, st)
      else kbind (get_process_fd_table cur st) (\<lambda>f.
        if f = 0 then Done (Inl EBADF, st)
        else kbind (slot_at f (nat oldfd) st) (\<lambda>e.
          if \<not> in_use e then Done (Inl EBADF, st)
          else kbind (table_of f st) (\<lambda>t.
            let i = fd_alloc_lowest t 0 in
            if i < 0 then Done (Inl EMFILE, st) else sys_dup2 slot cur oldfd i st))))"

definition F_DUPFD :: int where "F_DUPFD = 0"
definition F_GETFD :: int where "F_GETFD = 1"
definition F_SETFD :: int where "F_SETFD = 2"
definition F_GETFL :: int where "F_GETFL = 3"
definition F_SETFL :: int where "F_SETFL = 4"
definition F_GETOWN :: int where "F_GETOWN = 5"
definition F_SETOWN :: int where "F_SETOWN = 8"
definition FD_CLOEXEC :: nat where "FD_CLOEXEC = 1"
definition O_ACCMODE :: int where "O_ACCMODE = 3"
definition O_APPEND :: int where "O_APPEND = 8"
definition O_NONBLOCK :: int where "O_NONBLOCK = 0x800"
definition O_CLOEXEC :: int where "O_CLOEXEC = 0x80000"
definition O_RDONLY :: int where "O_RDONLY = 0"
definition O_WRONLY :: int where "O_WRONLY = 1"

text \<open>\<open>arg\<close> is an \<^verbatim>\<open>unsigned long\<close>; the start of a duplication is its low half as a signed number.\<close>

definition sys_fcntl :: "(nat \<Rightarrow> bool) \<Rightarrow> nat option \<Rightarrow> int \<Rightarrow> int \<Rightarrow> nat \<Rightarrow> fdk \<Rightarrow> ((errno + int) \<times> fdk) kresult" where
  "sys_fcntl slot cur fd cmd arg st =
     (case cur of
        None \<Rightarrow> Done (Inl ESRCH, st)
      | Some p \<Rightarrow>
        kbind (ir0_fd_get cur fd st) (\<lambda>(h, st1).
          case h of
            Inl er \<Rightarrow> Done (Inl er, st1)
          | Inr f \<Rightarrow>
              kbind (slot_at f (nat fd) st1) (\<lambda>e.
                if cmd = F_SETFD \<or> cmd = F_SETFL then
                  (let e1 = (if cmd = F_SETFD then e\<lparr>fd_flags := arg AND FD_CLOEXEC\<rparr>
                             else e\<lparr>fflags := (fflags e AND O_ACCMODE) OR (int arg AND (O_APPEND OR O_NONBLOCK))\<rparr>) in
                   kbind (set_slot f (nat fd) e1 st1) (\<lambda>st2. kbind (ir0_fd_put f st2) (\<lambda>st3. Done (Inr 0, st3))))
                else if cmd = F_DUPFD then
                  (let start = sint (of_nat arg :: 32 word) in
                   if start < 0 \<or> start \<ge> int MAX_FDS_PER_PROCESS then kbind (ir0_fd_put f st1) (\<lambda>st2. Done (Inl EINVAL, st2))
                   else kbind (table_of f st1) (\<lambda>t.
                     let i = fd_alloc_lowest t start in
                     kbind (ir0_fd_put f st1) (\<lambda>st2.
                       if i < 0 then Done (Inl EMFILE, st2) else sys_dup2 slot cur fd i st2)))
                else
                  kbind (ir0_fd_put f st1) (\<lambda>st2.
                    if cmd = F_GETFD then Done (Inr (if fd_flags e AND FD_CLOEXEC \<noteq> 0 then int FD_CLOEXEC else 0), st2)
                    else if cmd = F_GETFL then Done (Inr (fflags e), st2)
                    else if cmd = F_GETOWN then Done (Inr (int p), st2)
                    else if cmd = F_SETOWN then Done (Inr 0, st2)
                    else Done (Inl EINVAL, st2)))))"

text \<open>
  \<open>ok\<close> is the answer of \<^verbatim>\<open>validate_userspace_buffer\<close>, \<open>a\<close> the address that \<^verbatim>\<open>pipe_create\<close> returns (0 when it
  fails) and \<open>copied\<close> says whether \<^verbatim>\<open>copy_to_user\<close> succeeds. The two numbers are what it writes.
\<close>

definition pipe_slot :: "int \<Rightarrow> int \<Rightarrow> nat \<Rightarrow> nat \<Rightarrow> fd_entry \<Rightarrow> fd_entry" where
  "pipe_slot end fl cloexec a e = e\<lparr>in_use := True, fd_path := ''/dev/pipe'', offset := 0, fflags := fl, fd_flags := cloexec, vfs_file := a, is_pipe := True, pipe_end := end\<rparr>"

definition pipe_slot_undo :: "fd_entry \<Rightarrow> fd_entry" where
  "pipe_slot_undo e = e\<lparr>in_use := False, vfs_file := 0, is_pipe := False, pipe_end := -1\<rparr>"

definition sys_pipe_install :: "bool \<Rightarrow> nat \<Rightarrow> bool \<Rightarrow> nat option \<Rightarrow> nat \<Rightarrow> int \<Rightarrow> fdk \<Rightarrow> ((errno + int \<times> int) \<times> fdk) kresult" where
  "sys_pipe_install ok a copied cur pipefd flags st =
     (if cur = None then Done (Inl ESRCH, st)
      else if pipefd = 0 then Done (Inl EFAULT, st)
      else if \<not> ok then Done (Inl EFAULT, st)
      else if flags AND NOT (O_NONBLOCK OR O_CLOEXEC) \<noteq> 0 then Done (Inl EINVAL, st)
      else let nb = (if flags AND O_NONBLOCK \<noteq> 0 then O_NONBLOCK else 0);
               cloexec = (if flags AND O_CLOEXEC \<noteq> 0 then FD_CLOEXEC else 0) in
        if a = 0 then Done (Inl ENOMEM, st)
        else let st1 = st\<lparr>objs := (objs st)(a \<mapsto> \<lparr>okind = OPipe, r0 = 0, r1 = 0, opos = 0\<rparr>)\<rparr> in
          kbind (get_process_fd_table cur st1) (\<lambda>f.
            kbind (table_of f st1) (\<lambda>t.
              let rfd = fd_alloc_lowest t 3;
                  wfd = (if rfd \<ge> 0 then fd_alloc_lowest (map_option (\<lambda>u. u[nat rfd := (u ! nat rfd)\<lparr>in_use := True\<rparr>]) t) (rfd + 1) else -1) in
              if rfd = -1 \<or> wfd = -1 then Done (Inl EMFILE, st1\<lparr>objs := (objs st1)(a := None)\<rparr>)
              else
                kbind (slot_at f (nat rfd) st1) (\<lambda>er. kbind (set_slot f (nat rfd) (pipe_slot 0 (O_RDONLY OR nb) cloexec a er) st1) (\<lambda>st2.
                kbind (slot_at f (nat wfd) st2) (\<lambda>ew. kbind (set_slot f (nat wfd) (pipe_slot 1 (O_WRONLY OR nb) cloexec a ew) st2) (\<lambda>st3.
                kbind (fd_pipe_acquire_end a 0 st3) (\<lambda>st4. kbind (fd_pipe_acquire_end a 1 st4) (\<lambda>st5.
                if copied then Done (Inr (rfd, wfd), st5)
                else
                  kbind (slot_at f (nat rfd) st5) (\<lambda>er1. kbind (set_slot f (nat rfd) (pipe_slot_undo er1) st5) (\<lambda>st6.
                  kbind (slot_at f (nat wfd) st6) (\<lambda>ew1. kbind (set_slot f (nat wfd) (pipe_slot_undo ew1) st6) (\<lambda>st7.
                  kbind (fd_pipe_close_end a 0 st7) (\<lambda>st8. kbind (fd_pipe_close_end a 1 st8) (\<lambda>st9. Done (Inl EFAULT, st9))))))))))))))))"

text \<open>
  \<open>g\<close> is the address of \<^verbatim>\<open>g_epoll[0]\<close>; a set takes 776 bytes. \<^verbatim>\<open>epoll_create1\<close> hands out the first set that is not in
  use and overwrites the whole slot.
\<close>

definition EPOLL_MAX_SLOTS :: nat where "EPOLL_MAX_SLOTS = 16"

definition epoll_addr :: "nat \<Rightarrow> nat \<Rightarrow> nat" where "epoll_addr g i = g + 776 * i"

definition epoll_slot :: "nat \<Rightarrow> fd_entry" where
  "epoll_slot a = entry_blank\<lparr>in_use := True, is_epoll := True, vfs_file := a, fflags := 0\<rparr>"

definition sys_epoll_create1 :: "nat \<Rightarrow> nat option \<Rightarrow> int \<Rightarrow> fdk \<Rightarrow> ((errno + int) \<times> fdk) kresult" where
  "sys_epoll_create1 g cur flags st =
     (if cur = None then Done (Inl ESRCH, st)
      else case find (\<lambda>i. epolls st (epoll_addr g i) = Some False) [0..<EPOLL_MAX_SLOTS] of
             None \<Rightarrow> Done (Inl EMFILE, st)
           | Some k \<Rightarrow>
               kbind (get_process_fd_table cur st) (\<lambda>f.
                 if f = 0 then Done (Inl ESRCH, st)
                 else kbind (table_of f st) (\<lambda>t.
                   let fd = fd_alloc_lowest t 3; a = epoll_addr g k in
                   if fd < 0 then Done (Inl EMFILE, st)
                   else kbind (set_slot f (nat fd) (epoll_slot a) (st\<lparr>epolls := (epolls st)(a \<mapsto> True)\<rparr>)) (\<lambda>st1. Done (Inr fd, st1)))))"

text \<open>
  Opening a device. \<open>opened\<close> is what the driver's own \<^verbatim>\<open>open\<close> answers, \<open>snap\<close> the address of the text that
  \<^verbatim>\<open>devfs_text_snap_capture\<close> builds for a device with a text snapshot (0 when it fails), \<open>node\<close> the node that the path names.
\<close>

definition devfs_open_node :: "(errno + unit) \<Rightarrow> nat \<Rightarrow> fdk \<Rightarrow> (errno + unit) \<times> fdk" where
  "devfs_open_node opened i st = (case opened of Inl er \<Rightarrow> (Inl er, st) | Inr _ \<Rightarrow> (Inr (), devfs_node_get i st))"

definition dev_slot :: "string \<Rightarrow> nat \<Rightarrow> int \<Rightarrow> nat \<Rightarrow> fd_entry \<Rightarrow> fd_entry" where
  "dev_slot path i flags snap e =
     e\<lparr>in_use := True, is_devfs := True, dev_device_id := i, is_pipe := False, pipe_end := -1, offset := 0, fflags := flags, fd_flags := 0,
       fd_path := take 255 path, vfs_file := (if devfs_node_wants_text_snap i then snap else 0)\<rparr>"

definition devfs_text_snap_capture :: "nat \<Rightarrow> nat \<Rightarrow> fdk \<Rightarrow> fdk" where
  "devfs_text_snap_capture i snap st =
     (if devfs_node_wants_text_snap i \<and> snap \<noteq> 0 then st\<lparr>objs := (objs st)(snap \<mapsto> \<lparr>okind = OSnap, r0 = 1, r1 = 0, opos = 0\<rparr>)\<rparr> else st)"

definition devfs_bind_fd_slot :: "nat \<Rightarrow> nat option \<Rightarrow> string \<Rightarrow> nat \<Rightarrow> int \<Rightarrow> fdk \<Rightarrow> ((errno + int) \<times> fdk) kresult" where
  "devfs_bind_fd_slot snap cur path i flags st =
     kbind (get_process_fd_table cur st) (\<lambda>f.
       if f = 0 then Done (Inl EINVAL, st)
       else kbind (table_of f st) (\<lambda>t.
         let fd = fd_alloc_lowest t 0 in
         if fd < 0 then Done (Inl EMFILE, st)
         else kbind (slot_at f (nat fd) st) (\<lambda>e.
           kbind (set_slot f (nat fd) (dev_slot path i flags snap e) (devfs_text_snap_capture i snap st)) (\<lambda>st1. Done (Inr fd, st1)))))"

definition devfs_open_resolved_node :: "(errno + unit) \<Rightarrow> nat \<Rightarrow> nat option \<Rightarrow> nat option \<Rightarrow> string \<Rightarrow> int \<Rightarrow> fdk \<Rightarrow> ((errno + int) \<times> fdk) kresult" where
  "devfs_open_resolved_node opened snap node cur path flags st =
     (case node of
        None \<Rightarrow> Done (Inl ENOENT, st)
      | Some i \<Rightarrow>
          (case devfs_open_node opened i st of
             (Inl er, st1) \<Rightarrow> Done (Inl er, st1)
           | (Inr _, st1) \<Rightarrow>
               kbind (devfs_bind_fd_slot snap cur path i flags st1) (\<lambda>(r, st2).
                 case r of Inl er \<Rightarrow> Done (Inl er, devfs_close_node i st2) | Inr fd \<Rightarrow> Done (Inr fd, st2))))"

text \<open>
  Positions are 64-bit signed numbers. \<open>fsize\<close> is what \<^verbatim>\<open>vfs_lseek\<close> learns of the size of the file when it is asked for
  the end (\<^verbatim>\<open>ENOSYS\<close> or \<^verbatim>\<open>EIO\<close> when it learns nothing), \<open>psize\<close> what \<^verbatim>\<open>vfs_stat\<close> says of a slot without an object.
\<close>

definition off_add :: "int \<Rightarrow> int \<Rightarrow> int" where "off_add x y = signed_take_bit 63 (x + y)"

definition SEEK_SET :: int where "SEEK_SET = 0"
definition SEEK_CUR :: int where "SEEK_CUR = 1"
definition SEEK_END :: int where "SEEK_END = 2"

text \<open>
  The pointer is taken for a \<^verbatim>\<open>struct vfs_file\<close> only where a field of it is used: to read \<^verbatim>\<open>pos\<close> or \<^verbatim>\<open>path\<close>, and to
  store the new position. Without a live object of that kind there, such a use is \<^verbatim>\<open>Stuck\<close>.
\<close>

definition vfs_file_at :: "nat \<Rightarrow> fdk \<Rightarrow> fobj kresult" where
  "vfs_file_at a st = (case objs st a of None \<Rightarrow> Stuck | Some ob \<Rightarrow> if okind ob = OVfs then Done ob else Stuck)"

definition vfs_lseek :: "(errno + int) \<Rightarrow> nat \<Rightarrow> int \<Rightarrow> int \<Rightarrow> fdk \<Rightarrow> ((errno + int) \<times> fdk) kresult" where
  "vfs_lseek fsize a off whence st =
     (if a = 0 then Done (Inl EBADF, st)
      else kbind (if whence = SEEK_SET then Done (Inr off)
                  else if whence = SEEK_CUR then kbind (vfs_file_at a st) (\<lambda>ob. Done (Inr (off_add (opos ob) off)))
                  else if whence = SEEK_END then
                    kbind (vfs_file_at a st) (\<lambda>ob. Done (case fsize of Inl er \<Rightarrow> Inl er | Inr n \<Rightarrow> Inr (off_add n off)))
                  else Done (Inl EINVAL)) (\<lambda>r.
        case r of
          Inl er \<Rightarrow> Done (Inl er, st)
        | Inr np \<Rightarrow>
            if np < 0 then Done (Inl EINVAL, st)
            else kbind (vfs_file_at a st) (\<lambda>ob. Done (Inr np, st\<lparr>objs := (objs st)(a \<mapsto> ob\<lparr>opos := np\<rparr>)\<rparr>))))"

definition seek_slot :: "nat \<Rightarrow> nat \<Rightarrow> fd_entry \<Rightarrow> (errno + int) \<Rightarrow> fdk \<Rightarrow> ((errno + int) \<times> fdk) kresult" where
  "seek_slot f i e pos st =
     (case pos of
        Inl er \<Rightarrow> kbind (ir0_fd_put f st) (\<lambda>st1. Done (Inl er, st1))
      | Inr np \<Rightarrow>
          if np < 0 then kbind (ir0_fd_put f st) (\<lambda>st1. Done (Inl EINVAL, st1))
          else kbind (set_slot f i (e\<lparr>offset := np\<rparr>) st) (\<lambda>st1. kbind (ir0_fd_put f st1) (\<lambda>st2. Done (Inr np, st2))))"

definition sys_lseek :: "(errno + int) \<Rightarrow> int option \<Rightarrow> nat option \<Rightarrow> int \<Rightarrow> int \<Rightarrow> int \<Rightarrow> fdk \<Rightarrow> ((errno + int) \<times> fdk) kresult" where
  "sys_lseek fsize psize cur fd off whence st =
     (if cur = None then Done (Inl ESRCH, st)
      else kbind (ir0_fd_get cur fd st) (\<lambda>(h, st1).
        case h of
          Inl er \<Rightarrow> Done (Inl er, st1)
        | Inr f \<Rightarrow>
            kbind (slot_at f (nat fd) st1) (\<lambda>e.
              if is_pseudo e \<or> fd \<le> 2 then
                seek_slot f (nat fd) e
                  (if whence = SEEK_SET then Inr off else if whence = SEEK_CUR then Inr (off_add (offset e) off) else Inl ESPIPE) st1
              else if vfs_file e \<noteq> 0 then
                kbind (vfs_lseek fsize (vfs_file e) off whence st1) (\<lambda>(r, st2). seek_slot f (nat fd) e r st2)
              else (case psize of
                      None \<Rightarrow> seek_slot f (nat fd) e (Inl EBADF) st1
                    | Some n \<Rightarrow>
                        seek_slot f (nat fd) e
                          (if whence = SEEK_SET then Inr off else if whence = SEEK_CUR then Inr (off_add (offset e) off)
                           else if whence = SEEK_END then Inr (off_add n off) else Inl EINVAL) st1))))"

end
