(* ===== verification/Fd_Refs.thy ===== *)
theory Fd_Refs
  imports Fd_Table
begin

text \<open>
  Correctness of the descriptor table. Every slot in use holds references: one on the object it points to
  and, for a device, one on the node. The invariant says that the counts kept in the objects are the numbers
  of references held by all tables together, that an object is live exactly while it is referred to, that
  every pointer points to an object of the kind its slot claims, and that the count of a table is the number
  of processes that use it plus the calls that pin it. All calls preserve it. Epoll sets
  are not counted: an epoll slot holds no reference and only points into the static table of sets. \<^verbatim>\<open>dup2\<close> and
  \<^verbatim>\<open>lseek\<close> are the calls that take such a set, or another object, for a \<^verbatim>\<open>struct vfs_file\<close>.
\<close>

section \<open>References\<close>

datatype ref = RObj nat int | RNode nat

definition ref_end :: "fd_entry \<Rightarrow> int" where
  "ref_end e = (if is_pipe e then pipe_end e else 0)"

definition entry_refs :: "fd_entry \<Rightarrow> ref multiset" where
  "entry_refs e =
     (if \<not> in_use e then {#}
      else (if is_devfs e then {#RNode (dev_device_id e)#} else {#}) + (if vfs_file e = 0 \<or> is_epoll e then {#} else {#RObj (vfs_file e) (ref_end e)#}))"

definition entry_kinds :: "fd_entry \<Rightarrow> obj_kind list" where
  "entry_kinds e =
     (if is_pipe e then [OPipe] else if is_socket e then [OStream, OIcmp, OUdp] else if is_devfs e then [OSnap]
      else if is_pseudo e then [OBind] else if is_epoll e then [] else if is_memfd e then [OMemfd] else if is_eventfd e then [OEventfd]
      else if is_timerfd e then [OTimerfd] else [OVfs])"

text \<open>At most one flag is set, the end of a pipe is valid, only a device with a text snapshot has an object, every other flag comes with one, and a free slot is clear.\<close>

definition entry_wf :: "fd_entry \<Rightarrow> bool" where
  "entry_wf e \<longleftrightarrow>
     length (filter id [is_pipe e, is_socket e, is_devfs e, is_pseudo e, is_epoll e, is_memfd e, is_eventfd e, is_timerfd e]) \<le> 1 \<and>
     (is_pipe e \<longrightarrow> pipe_end e = 0 \<or> pipe_end e = 1) \<and>
     (is_devfs e \<longrightarrow> vfs_file e \<noteq> 0 \<longrightarrow> devfs_node_wants_text_snap (dev_device_id e)) \<and>
     (vfs_file e = 0 \<longrightarrow> \<not> is_pipe e \<and> \<not> is_socket e \<and> \<not> is_pseudo e \<and> \<not> is_epoll e \<and> \<not> is_memfd e \<and> \<not> is_eventfd e \<and> \<not> is_timerfd e) \<and>
     (\<not> in_use e \<longrightarrow> vfs_file e = 0 \<and> \<not> is_devfs e)"

definition kind_ok :: "fdk \<Rightarrow> fd_entry \<Rightarrow> bool" where
  "kind_ok st e \<longleftrightarrow>
     (in_use e \<and> vfs_file e \<noteq> 0 \<longrightarrow>
        (if is_epoll e then epolls st (vfs_file e) \<noteq> None else \<forall>ob. objs st (vfs_file e) = Some ob \<longrightarrow> okind ob \<in> set (entry_kinds e)))"

definition obj_at :: "nat \<Rightarrow> nat \<Rightarrow> fobj option \<Rightarrow> bool" where
  "obj_at n m x \<longleftrightarrow> (case x of None \<Rightarrow> n = 0 \<and> m = 0 | Some ob \<Rightarrow> r0 ob = n \<and> r1 ob = m \<and> 0 < n + m)"

text \<open>No counted object lies where an epoll set is.\<close>

definition obj_inv :: "(nat \<Rightarrow> nat) \<Rightarrow> ref multiset \<Rightarrow> fdk \<Rightarrow> bool" where
  "obj_inv base M st \<longleftrightarrow>
     (\<forall>a. epolls st a \<noteq> None \<longrightarrow> objs st a = None) \<and>
     (\<forall>a. obj_at (count M (RObj a 0)) (count M (RObj a 1)) (objs st a)) \<and>
     (\<forall>i n. dev_nodes st i = Some n \<longrightarrow> n = base i + count M (RNode i))"

section \<open>Taking and dropping the references of a slot\<close>

definition ref_get :: "fd_entry \<Rightarrow> fdk \<Rightarrow> fdk" where
  "ref_get e st =
     (let st1 = (if is_devfs e then devfs_node_get (dev_device_id e) st else st) in
      if vfs_file e = 0 \<or> is_epoll e then st1 else st1\<lparr>objs := (objs st1)(vfs_file e \<mapsto> bump Suc (ref_end e) (the (objs st1 (vfs_file e))))\<rparr>)"

definition ref_put :: "fd_entry \<Rightarrow> fdk \<Rightarrow> fdk" where
  "ref_put e st =
     (let ob1 = bump (\<lambda>n. n - 1) (ref_end e) (the (objs st (vfs_file e)));
          st1 = (if vfs_file e = 0 then st
                 else if is_epoll e then st\<lparr>epolls := (epolls st)(vfs_file e \<mapsto> False)\<rparr>
                 else st\<lparr>objs := (objs st)(vfs_file e := if r0 ob1 + r1 ob1 = 0 then None else Some ob1)\<rparr>) in
      if is_devfs e then devfs_close_node (dev_device_id e) st1 else st1)"

lemma node_ops_simps [simp]:
  "epolls (devfs_node_get i st) = epolls st" "epolls (devfs_close_node i st) = epolls st"
  "objs (devfs_node_get i st) = objs st" "fstore (devfs_node_get i st) = fstore st" "proc_files (devfs_node_get i st) = proc_files st"
  "objs (devfs_close_node i st) = objs st" "fstore (devfs_close_node i st) = fstore st" "proc_files (devfs_close_node i st) = proc_files st"
  by (simp_all add: devfs_node_get_def devfs_close_node_def split: option.split)

lemma ref_ops_simps [simp]:
  "fstore (ref_get e st) = fstore st" "proc_files (ref_get e st) = proc_files st"
  "fstore (ref_put e st) = fstore st" "proc_files (ref_put e st) = proc_files st"
  "epolls (ref_get e st) = epolls st"
  "epolls (ref_put e st) = (if vfs_file e \<noteq> 0 \<and> is_epoll e then (epolls st)(vfs_file e \<mapsto> False) else epolls st)"
  by (simp_all add: ref_get_def ref_put_def Let_def)

text \<open>In the object the slot points to, its kind decides which function the calls reach.\<close>

definition typed :: "fdk \<Rightarrow> fd_entry \<Rightarrow> bool" where
  "typed st e \<longleftrightarrow>
     in_use e \<and> entry_wf e \<and>
     (vfs_file e \<noteq> 0 \<longrightarrow>
        (if is_epoll e then epolls st (vfs_file e) \<noteq> None else \<exists>ob. objs st (vfs_file e) = Some ob \<and> okind ob \<in> set (entry_kinds e)))"

lemma typedE:
  assumes "typed st e"
  obtains "vfs_file e = 0" "\<not> is_epoll e" | u where "vfs_file e \<noteq> 0" "is_epoll e" "epolls st (vfs_file e) = Some u"
  | ob where "vfs_file e \<noteq> 0" "\<not> is_epoll e" "objs st (vfs_file e) = Some ob" "okind ob \<in> set (entry_kinds e)"
proof (cases "is_epoll e")
  case True
  then have "vfs_file e \<noteq> 0" using assms by (auto simp: typed_def entry_wf_def)
  then show ?thesis using True assms that(2) by (auto simp: typed_def)
next
  case False
  then show ?thesis using assms that(1,3) by (cases "vfs_file e = 0") (auto simp: typed_def)
qed

lemmas entry_ops_defs = acquire_entry_def dup2_acquire_def release_entry_def close_entry_def dup2_release_def fd_pipe_acquire_end_def fd_pipe_close_end_def
  file_obj_acquire_def file_obj_release_def sock_op_def ref_get_def ref_put_def ref_end_def entry_kinds_def epoll_release_fd_def

lemma entry_flags:
  assumes "entry_wf e"
  shows "is_epoll e \<longrightarrow> vfs_file e \<noteq> 0 \<and> in_use e \<and> \<not> is_pipe e \<and> \<not> is_socket e \<and> \<not> is_devfs e \<and> \<not> is_pseudo e \<and> \<not> is_memfd e \<and> \<not> is_eventfd e \<and> \<not> is_timerfd e"
    "is_pipe e \<longrightarrow> pipe_end e = 0 \<or> pipe_end e = 1"
    "is_devfs e \<longrightarrow> vfs_file e \<noteq> 0 \<longrightarrow> devfs_node_wants_text_snap (dev_device_id e)"
    "is_pipe e \<longrightarrow> \<not> is_socket e \<and> \<not> is_devfs e \<and> \<not> is_pseudo e \<and> \<not> is_memfd e \<and> \<not> is_eventfd e \<and> \<not> is_timerfd e"
    "is_socket e \<longrightarrow> \<not> is_devfs e \<and> \<not> is_pseudo e \<and> \<not> is_memfd e \<and> \<not> is_eventfd e \<and> \<not> is_timerfd e"
    "is_devfs e \<longrightarrow> \<not> is_pseudo e \<and> \<not> is_memfd e \<and> \<not> is_eventfd e \<and> \<not> is_timerfd e"
    "is_pseudo e \<longrightarrow> \<not> is_memfd e \<and> \<not> is_eventfd e \<and> \<not> is_timerfd e"
    "is_memfd e \<longrightarrow> \<not> is_eventfd e \<and> \<not> is_timerfd e"
    "is_eventfd e \<longrightarrow> \<not> is_timerfd e"
  using assms by (auto simp: entry_wf_def split: if_splits)

lemma entry_cases:
  assumes "entry_wf e"
  obtains "is_pipe e" | "\<not> is_pipe e" "is_socket e" | "\<not> is_pipe e" "\<not> is_socket e" "is_devfs e"
  | "\<not> is_pipe e" "\<not> is_socket e" "\<not> is_devfs e" "is_pseudo e" | "\<not> is_pipe e" "\<not> is_socket e" "\<not> is_devfs e" "\<not> is_pseudo e" "is_memfd e"
  | "\<not> is_pipe e" "\<not> is_socket e" "\<not> is_devfs e" "\<not> is_pseudo e" "\<not> is_memfd e" "is_eventfd e"
  | "\<not> is_pipe e" "\<not> is_socket e" "\<not> is_devfs e" "\<not> is_pseudo e" "\<not> is_memfd e" "\<not> is_eventfd e" "is_timerfd e"
  | "\<not> is_pipe e" "\<not> is_socket e" "\<not> is_devfs e" "\<not> is_pseudo e" "\<not> is_memfd e" "\<not> is_eventfd e" "\<not> is_timerfd e"
  by blast

text \<open>The five dispatches over the flags agree on a typed slot; \<^verbatim>\<open>dup2\<close> knows nothing of epoll sets.\<close>

lemma entry_dispatch:
  assumes t: "typed st e"
  shows acquire_entry_typed: "acquire_entry slot e st = Done (ref_get e st)"
    and dup2_acquire_typed: "\<not> is_epoll e \<Longrightarrow> dup2_acquire slot e st = Done (ref_get e st)"
    and release_entry_typed: "release_entry slot e st = Done (ref_put e st)"
    and dup2_release_typed: "\<not> is_epoll e \<Longrightarrow> dup2_release slot e st = Done (ref_put e st)"
    and close_entry_typed: "\<not> (is_pseudo e \<and> vfs_file e \<noteq> 0) \<Longrightarrow> close_entry slot e st = Done (ref_put e st)"
proof -
  have w: "entry_wf e" and u: "in_use e" using t by (simp_all add: typed_def)
  note fl = entry_flags [OF w]
  have "acquire_entry slot e st = Done (ref_get e st) \<and> (\<not> is_epoll e \<longrightarrow> dup2_acquire slot e st = Done (ref_get e st)) \<and> release_entry slot e st = Done (ref_put e st)
     \<and> (\<not> is_epoll e \<longrightarrow> dup2_release slot e st = Done (ref_put e st)) \<and> (\<not> (is_pseudo e \<and> vfs_file e \<noteq> 0) \<longrightarrow> close_entry slot e st = Done (ref_put e st))"
    using t
  proof (cases rule: typedE)
    case 1
    from w show ?thesis
      by (cases rule: entry_cases) (use fl u 1 in \<open>simp_all add: entry_ops_defs Let_def\<close>)
  next
    case (2 k)
    then show ?thesis using fl u by (simp add: entry_ops_defs Let_def)
  next
    case (3 ob)
    from w show ?thesis
      by (cases rule: entry_cases) (use fl u 3 in \<open>auto simp: entry_ops_defs Let_def\<close>)
  qed
  then show "acquire_entry slot e st = Done (ref_get e st)" "\<not> is_epoll e \<Longrightarrow> dup2_acquire slot e st = Done (ref_get e st)" "release_entry slot e st = Done (ref_put e st)"
    "\<not> is_epoll e \<Longrightarrow> dup2_release slot e st = Done (ref_put e st)" "\<not> (is_pseudo e \<and> vfs_file e \<noteq> 0) \<Longrightarrow> close_entry slot e st = Done (ref_put e st)"
    by blast+
qed

section \<open>The counts stay exact\<close>

lemma count_obj_end [simp]:
  "count {#RObj a i#} (RObj b j) = (if a = b \<and> i = j then 1 else 0)"
  "count {#RNode a#} (RObj b j) = 0" "count {#RObj a i#} (RNode b) = 0"
  "count {#RNode a#} (RNode b) = (if a = b then 1 else 0)"
  by simp_all

lemma ref_end_01: "entry_wf e \<Longrightarrow> ref_end e = 0 \<or> ref_end e = 1"
  by (simp add: ref_end_def entry_wf_def)

lemma obj_inv_node_get: "obj_inv base M st \<Longrightarrow> obj_inv base (add_mset (RNode i) M) (devfs_node_get i st)"
  by (auto simp: obj_inv_def devfs_node_get_def split: option.splits if_splits)

lemma obj_inv_node_close:
  assumes inv: "obj_inv base (add_mset (RNode i) M) st"
  shows "obj_inv base M (devfs_close_node i st)"
proof -
  have o: "obj_at (count M (RObj a 0)) (count M (RObj a 1)) (objs st a)" for a using inv by (simp add: obj_inv_def)
  have n: "dev_nodes st j = Some n \<Longrightarrow> n = base j + count M (RNode j) + (if j = i then 1 else 0)" for j n
  proof -
    assume h: "dev_nodes st j = Some n"
    have "n = base j + count (add_mset (RNode i) M) (RNode j)" using inv h unfolding obj_inv_def by blast
    then show ?thesis by simp
  qed
  have "dev_nodes (devfs_close_node i st) j = Some n \<Longrightarrow> n = base j + count M (RNode j)" for j n
    using n [of j] n [of i] by (auto simp: devfs_close_node_def split: option.splits if_splits)
  moreover have "\<forall>a. epolls st a \<noteq> None \<longrightarrow> objs st a = None" using inv by (simp add: obj_inv_def)
  ultimately show ?thesis using o by (simp add: obj_inv_def)
qed

lemma obj_inv_at: "obj_inv base M st \<Longrightarrow> obj_at (count M (RObj a 0)) (count M (RObj a 1)) (objs st a)"
  by (simp add: obj_inv_def)

lemma obj_inv_bump:
  assumes inv: "obj_inv base M st" and a: "objs st a = Some ob" and ei: "end = 0 \<or> end = 1"
  shows "obj_inv base (add_mset (RObj a end) M) (st\<lparr>objs := (objs st)(a \<mapsto> bump Suc end ob)\<rparr>)"
  using obj_inv_at [OF inv, of a] a ei inv by (auto simp: obj_inv_def bump_def obj_at_def [of _ _ "Some _"])

lemma obj_inv_drop:
  assumes inv: "obj_inv base (add_mset (RObj a end) M) st" and a: "objs st a = Some ob" and ei: "end = 0 \<or> end = 1"
    and ob1: "ob1 = bump (\<lambda>n. n - 1) end ob"
  shows "obj_inv base M (st\<lparr>objs := (objs st)(a := if r0 ob1 + r1 ob1 = 0 then None else Some ob1)\<rparr>)"
proof -
  have o: "r0 ob = count (add_mset (RObj a end) M) (RObj a 0)" "r1 ob = count (add_mset (RObj a end) M) (RObj a 1)"
    using obj_inv_at [OF inv, of a] a by (simp_all add: obj_at_def)
  have c: "r0 ob1 = count M (RObj a 0)" "r1 ob1 = count M (RObj a 1)"
    using o ei by (auto simp: ob1 bump_def)
  have "obj_at (count M (RObj b 0)) (count M (RObj b 1)) (((objs st)(a := if r0 ob1 + r1 ob1 = 0 then None else Some ob1)) b)" for b
    using obj_inv_at [OF inv, of b] c by (cases "b = a") (auto simp: obj_at_def)
  moreover have "epolls st a = None" using inv a by (auto simp: obj_inv_def)
  ultimately show ?thesis using inv by (simp add: obj_inv_def)
qed

lemma ref_get_inv:
  assumes inv: "obj_inv base M st" and t: "typed st e"
  shows "obj_inv base (M + entry_refs e) (ref_get e st)"
proof -
  have e: "in_use e" "entry_wf e" using t by (auto simp: typed_def)
  let ?s = "if is_devfs e then devfs_node_get (dev_device_id e) st else st"
  let ?N = "if is_devfs e then add_mset (RNode (dev_device_id e)) M else M"
  have 1: "obj_inv base ?N ?s" using inv by (simp add: obj_inv_node_get)
  show ?thesis
  proof (cases "vfs_file e = 0 \<or> is_epoll e")
    case True
    then show ?thesis using 1 e by (auto simp: ref_get_def entry_refs_def)
  next
    case False
    then obtain ob where ob: "objs ?s (vfs_file e) = Some ob" using t by (auto simp: typed_def)
    have "obj_inv base (add_mset (RObj (vfs_file e) (ref_end e)) ?N) (ref_get e st)"
      using obj_inv_bump [OF 1 ob ref_end_01 [OF e(2)]] False ob by (simp add: ref_get_def Let_def)
    then show ?thesis using False e by (simp add: entry_refs_def split: if_splits)
  qed
qed

lemma ref_put_inv:
  assumes inv: "obj_inv base (M + entry_refs e) st" and t: "typed st e"
  shows "obj_inv base M (ref_put e st)"
proof -
  have e: "in_use e" "entry_wf e" using t by (auto simp: typed_def)
  let ?N = "if is_devfs e then add_mset (RNode (dev_device_id e)) M else M"
  define ob1 where "ob1 = bump (\<lambda>n. n - 1) (ref_end e) (the (objs st (vfs_file e)))"
  define s1 where "s1 = (if vfs_file e = 0 then st
                 else if is_epoll e then st\<lparr>epolls := (epolls st)(vfs_file e \<mapsto> False)\<rparr>
                 else st\<lparr>objs := (objs st)(vfs_file e := if r0 ob1 + r1 ob1 = 0 then None else Some ob1)\<rparr>)"
  have 1: "obj_inv base ?N s1"
  proof (cases "vfs_file e = 0 \<or> is_epoll e")
    case True
    then have "obj_inv base ?N st" using inv e by (auto simp: entry_refs_def)
    then show ?thesis using True t by (auto simp: s1_def typed_def obj_inv_def)
  next
    case False
    then obtain ob where ob: "objs st (vfs_file e) = Some ob" using t by (auto simp: typed_def)
    have i: "obj_inv base (add_mset (RObj (vfs_file e) (ref_end e)) ?N) st" using inv False e by (simp add: entry_refs_def split: if_splits)
    show ?thesis using obj_inv_drop [OF i ob ref_end_01 [OF e(2)], of ob1] False ob unfolding s1_def by (simp add: ob1_def)
  qed
  have "ref_put e st = (if is_devfs e then devfs_close_node (dev_device_id e) s1 else s1)"
    by (simp add: ref_put_def s1_def ob1_def Let_def)
  then show ?thesis using 1 by (simp add: obj_inv_node_close split: if_splits)
qed

text \<open>Objects never change their kind, so a slot stays well typed whatever happens to the others.\<close>

definition objs_le :: "fdk \<Rightarrow> fdk \<Rightarrow> bool" where
  "objs_le st st' \<longleftrightarrow> dom (epolls st') = dom (epolls st) \<and> (\<forall>a ob'. objs st' a = Some ob' \<longrightarrow> (\<exists>ob. objs st a = Some ob \<and> okind ob = okind ob'))"

lemma objs_le_refl [simp]: "objs_le st st"
  by (simp add: objs_le_def)

lemma objs_le_trans: "objs_le a b \<Longrightarrow> objs_le b c \<Longrightarrow> objs_le a c"
  by (fastforce simp: objs_le_def)

lemma kind_ok_le:
  assumes le: "objs_le st st'" and k: "kind_ok st e"
  shows "kind_ok st' e"
proof -
  have "epolls st' a \<noteq> None \<longleftrightarrow> epolls st a \<noteq> None" for a using le unfolding objs_le_def by (metis domIff)
  then show ?thesis using le k unfolding objs_le_def kind_ok_def by fastforce
qed

lemma okind_bump [simp]: "okind (bump f end ob) = okind ob"
  by (simp add: bump_def)

lemma ref_get_le: "typed st e \<Longrightarrow> objs_le st (ref_get e st)"
  by (auto simp: objs_le_def ref_get_def Let_def typed_def split: if_splits)

lemma ref_put_le: "typed st e \<Longrightarrow> objs_le st (ref_put e st)"
  by (auto simp: objs_le_def ref_put_def Let_def typed_def devfs_close_node_def split: if_splits option.splits)

lemma typedI:
  assumes inv: "obj_inv base M st" and sub: "entry_refs e \<subseteq># M" and k: "kind_ok st e" and w: "entry_wf e" and u: "in_use e"
  shows "typed st e"
proof -
  have "\<exists>ob. objs st (vfs_file e) = Some ob \<and> okind ob \<in> set (entry_kinds e)" if v: "vfs_file e \<noteq> 0" "\<not> is_epoll e"
  proof -
    have "RObj (vfs_file e) (ref_end e) \<in># M" using sub u v by (auto simp: entry_refs_def intro: mset_subset_eqD)
    then have "objs st (vfs_file e) \<noteq> None" using obj_inv_at [OF inv, of "vfs_file e"] ref_end_01 [OF w] by (auto simp: obj_at_def count_eq_zero_iff split: option.splits)
    then show ?thesis using k u v by (auto simp: kind_ok_def)
  qed
  then show ?thesis using w u k by (simp add: typed_def kind_ok_def)
qed

section \<open>The invariant of all tables\<close>

definition table_refs :: "fd_entry list \<Rightarrow> ref multiset" where
  "table_refs t = sum_list (map entry_refs t)"

definition store_refs :: "(nat \<rightharpoonup> files_struct) \<Rightarrow> ref multiset" where
  "store_refs m = (\<Sum>f\<in>dom m. table_refs (fd_table (the (m f))))"

lemma table_refs_update: "i < length t \<Longrightarrow> table_refs (t[i := e]) + entry_refs (t ! i) = table_refs t + entry_refs e"
proof (induction t arbitrary: i)
  case (Cons x t)
  show ?case
  proof (cases i)
    case 0
    then show ?thesis by (simp add: table_refs_def ac_simps)
  next
    case (Suc j)
    then have "table_refs (t[j := e]) + entry_refs (t ! j) = table_refs t + entry_refs e" using Cons by simp
    then show ?thesis using Suc by (simp add: table_refs_def add.assoc)
  qed
qed simp

lemma table_refs_nth: "i < length t \<Longrightarrow> entry_refs (t ! i) \<subseteq># table_refs t"
proof (induction t arbitrary: i)
  case (Cons x t)
  then show ?case by (cases i) (auto simp: table_refs_def intro: subset_mset.add_increasing)
qed simp

lemma store_refs_new: "finite (dom m) \<Longrightarrow> m f = None \<Longrightarrow> store_refs (m(f \<mapsto> s)) = store_refs m + table_refs (fd_table s)"
proof -
  assume a: "finite (dom m)" "m f = None"
  have "(\<Sum>g\<in>dom m. table_refs (fd_table (the ((m(f \<mapsto> s)) g)))) = store_refs m"
    unfolding store_refs_def by (rule sum.cong) (use a in auto)
  then show ?thesis using a by (simp add: store_refs_def domIff add.commute)
qed

lemma store_refs_del: "finite (dom m) \<Longrightarrow> m f = Some s \<Longrightarrow> store_refs m = store_refs (m(f := None)) + table_refs (fd_table s)"
  using store_refs_new [of "m(f := None)" f s] by (simp add: map_upd_triv)

lemma store_refs_upd:
  assumes "finite (dom m)" "m f = Some s"
  shows "store_refs (m(f \<mapsto> s')) + table_refs (fd_table s) = store_refs m + table_refs (fd_table s')"
  using store_refs_del [OF assms] store_refs_new [of "m(f := None)" f s'] assms(1) by (simp add: ac_simps)

lemma store_refs_sub: "finite (dom m) \<Longrightarrow> m f = Some s \<Longrightarrow> table_refs (fd_table s) \<subseteq># store_refs m"
  using store_refs_del [of m f s] by simp

definition users :: "nat \<Rightarrow> fdk \<Rightarrow> nat" where
  "users f st = card {p. proc_files st p = Some f}"

text \<open>\<open>pins f\<close> is the number of calls that hold the table \<open>f\<close> by \<^verbatim>\<open>ir0_fd_get\<close>.\<close>

definition heap_place :: "nat \<Rightarrow> bool" where
  "heap_place f \<longleftrightarrow> mm_kernel_heap_start \<le> f \<and> f + files_size \<le> mm_kernel_heap_start + mm_kernel_heap_size"

definition files_ok :: "files_struct \<Rightarrow> bool" where
  "files_ok s \<longleftrightarrow> magic s = IR0_FILES_MAGIC \<and> 0 < refcount s \<and> length (fd_table s) = MAX_FDS_PER_PROCESS \<and> list_all entry_wf (fd_table s)"

definition fd_inv :: "(nat \<Rightarrow> nat) \<Rightarrow> (nat \<Rightarrow> nat) \<Rightarrow> fdk \<Rightarrow> bool" where
  "fd_inv base pins st \<longleftrightarrow>
     finite (dom (fstore st)) \<and> finite (dom (proc_files st)) \<and>
     (\<forall>f s. fstore st f = Some s \<longrightarrow> heap_place f \<and> files_ok s \<and> refcount s = int (users f st) + int (pins f) \<and> list_all (kind_ok st) (fd_table s)) \<and>
     (\<forall>p f. proc_files st p = Some f \<longrightarrow> f \<noteq> 0 \<longrightarrow> fstore st f \<noteq> None) \<and>
     obj_inv base (store_refs (fstore st)) st"

lemma fd_invD:
  assumes "fd_inv base pins st" "fstore st f = Some s"
  shows "heap_place f" "files_ok s" "refcount s = int (users f st) + int (pins f)" "list_all (kind_ok st) (fd_table s)"
    "finite (dom (fstore st))" "obj_inv base (store_refs (fstore st)) st"
  using assms unfolding fd_inv_def by blast+

lemma heap_place_nz: "heap_place f \<Longrightarrow> f \<noteq> 0"
  by (simp add: heap_place_def mm_kernel_heap_start_def)

lemma files_live:
  assumes inv: "fd_inv base pins st" and f: "fstore st f = Some s"
  shows "files_struct_live f st = Done True"
proof -
  note d = fd_invD [OF inv f]
  have h: "mm_kernel_heap_start \<le> f" "f + files_size \<le> mm_kernel_heap_start + mm_kernel_heap_size" "f \<noteq> 0"
    using d(1) heap_place_nz by (simp_all add: heap_place_def)
  have s: "mm_kernel_heap_start + mm_kernel_heap_size < two64"
    by (simp add: mm_kernel_heap_start_def mm_kernel_heap_size_def)
  then have "add64 f files_size = f + files_size" "add64 mm_kernel_heap_start mm_kernel_heap_size = mm_kernel_heap_start + mm_kernel_heap_size"
    using h by simp_all
  then show ?thesis using h d(2) f by (simp add: files_struct_live_def Let_def files_ok_def)
qed

lemma files_live_0 [simp]: "files_struct_live 0 st = Done False"
  by (simp add: files_struct_live_def)

lemma slot_typed:
  assumes inv: "fd_inv base pins st" and f: "fstore st f = Some s" and i: "i < MAX_FDS_PER_PROCESS" and u: "in_use (fd_table s ! i)"
  shows "typed st (fd_table s ! i)"
proof (rule typedI)
  note d = fd_invD [OF inv f]
  have len: "i < length (fd_table s)" using d(2) i by (simp add: files_ok_def)
  show "obj_inv base (store_refs (fstore st)) st" by (rule d(6))
  show "entry_refs (fd_table s ! i) \<subseteq># store_refs (fstore st)"
    using table_refs_nth [OF len] store_refs_sub [OF d(5) f] by (rule subset_mset.order_trans)
  show "kind_ok st (fd_table s ! i)" "entry_wf (fd_table s ! i)"
    using d(2,4) len by (simp_all add: files_ok_def list_all_length)
qed (rule u)

text \<open>One table changes.\<close>

lemma fd_inv_change:
  assumes inv: "fd_inv base pins st" and f: "fstore st f = Some s" and fs: "fstore st' = (fstore st)(f \<mapsto> s')" and p: "proc_files st' = proc_files st"
    and kp: "\<And>g x. fstore st g = Some x \<Longrightarrow> list_all (kind_ok st') (fd_table x)"
    and ok: "files_ok s'" "refcount s' = int (users f st) + int n" "list_all (kind_ok st') (fd_table s')"
    and M: "obj_inv base (store_refs (fstore st')) st'"
  shows "fd_inv base (pins(f := n)) st'"
proof -
  have 1: "heap_place g \<and> files_ok x \<and> refcount x = int (users g st') + int ((pins(f := n)) g) \<and> list_all (kind_ok st') (fd_table x)"
    if g: "fstore st' g = Some x" for g x
  proof (cases "g = f")
    case True
    then show ?thesis using g fs ok fd_invD(1) [OF inv f] p by (simp add: users_def)
  next
    case False
    then have old: "fstore st g = Some x" using g fs by simp
    from fd_invD [OF inv old] kp [OF old] show ?thesis using False p by (simp add: users_def)
  qed
  have 2: "finite (dom (fstore st'))" "finite (dom (proc_files st'))" "proc_files st' q = Some g \<longrightarrow> g \<noteq> 0 \<longrightarrow> fstore st' g \<noteq> None" for q g
    using inv fs p unfolding fd_inv_def by auto
  show ?thesis unfolding fd_inv_def using 1 2 M by blast
qed

text \<open>One slot changes and the references of all tables change with it.\<close>

lemma fd_inv_slot:
  assumes inv: "fd_inv base pins st" and f: "fstore st f = Some s" and i: "i < MAX_FDS_PER_PROCESS" and w: "entry_wf e" and k: "kind_ok st' e"
    and fs: "fstore st' = (fstore st)(f \<mapsto> s\<lparr>fd_table := (fd_table s)[i := e]\<rparr>)" and p: "proc_files st' = proc_files st" and le: "objs_le st st'"
    and M: "obj_inv base M st'" "M + entry_refs (fd_table s ! i) = store_refs (fstore st) + entry_refs e"
  shows "fd_inv base pins st'"
proof -
  note d = fd_invD [OF inv f]
  have len: "i < length (fd_table s)" using d(2) i by (simp add: files_ok_def)
  have "store_refs (fstore st') + table_refs (fd_table s) + entry_refs (fd_table s ! i)
      = store_refs (fstore st) + entry_refs e + table_refs (fd_table s)"
    using store_refs_upd [OF d(5) f, of "s\<lparr>fd_table := (fd_table s)[i := e]\<rparr>"] table_refs_update [OF len, of e] fs
    by (simp add: ac_simps)
  then have "store_refs (fstore st') + entry_refs (fd_table s ! i) = M + entry_refs (fd_table s ! i)" using M(2) by (simp add: ac_simps)
  then have M': "store_refs (fstore st') = M" by simp
  have ok: "files_ok (s\<lparr>fd_table := (fd_table s)[i := e]\<rparr>)"
    using d(2) w len by (auto simp: files_ok_def list_all_iff dest: set_update_subset_insert [THEN subsetD])
  have kd: "list_all (kind_ok st') (fd_table s')" if "fstore st g = Some s'" for g s'
    using fd_invD(4) [OF inv that] kind_ok_le [OF le] by (auto simp: list_all_iff)
  have kl: "list_all (kind_ok st') ((fd_table s)[i := e])" using kd [OF f] k by (auto simp: list_all_iff dest: set_update_subset_insert [THEN subsetD])
  have "fd_inv base (pins(f := pins f)) st'"
    by (rule fd_inv_change [OF inv f fs p kd ok]) (use d(3) kl M(1) M' in simp_all)
  then show ?thesis by simp
qed

section \<open>Pinning a table\<close>

lemma finite_bound_procs: "fd_inv base pins st \<Longrightarrow> finite {p. proc_files st p = Some f}"
  by (rule finite_subset [of _ "dom (proc_files st)"]) (auto simp: fd_inv_def)

lemma users_pos: "fd_inv base pins st \<Longrightarrow> proc_files st p = Some f \<Longrightarrow> 0 < users f st"
  using finite_bound_procs [of base pins st f] by (auto simp: users_def card_gt_0_iff)

lemma proc_table:
  assumes "fd_inv base pins st" "proc_files st p = Some f" "f \<noteq> 0"
  obtains s where "fstore st f = Some s"
  using assms unfolding fd_inv_def by blast

definition set_refcount :: "nat \<Rightarrow> int \<Rightarrow> fdk \<Rightarrow> fdk" where
  "set_refcount f n st = (case fstore st f of None \<Rightarrow> st | Some s \<Rightarrow> st\<lparr>fstore := (fstore st)(f \<mapsto> s\<lparr>refcount := n\<rparr>)\<rparr>)"

lemma set_refcount_simps [simp]:
  "objs (set_refcount f n st) = objs st" "epolls (set_refcount f n st) = epolls st" "dev_nodes (set_refcount f n st) = dev_nodes st" "proc_files (set_refcount f n st) = proc_files st"
  "users g (set_refcount f n st) = users g st"
  by (simp_all add: set_refcount_def users_def split: option.split)

lemma fstore_set_refcount [simp]: "fstore st f = Some s \<Longrightarrow> fstore (set_refcount f n st) = (fstore st)(f \<mapsto> s\<lparr>refcount := n\<rparr>)"
  by (simp add: set_refcount_def)

lemma kind_ok_objs: "objs st' = objs st \<Longrightarrow> epolls st' = epolls st \<Longrightarrow> kind_ok st' e = kind_ok st e"
  by (simp add: kind_ok_def)

lemma obj_inv_objs: "objs st' = objs st \<Longrightarrow> epolls st' = epolls st \<Longrightarrow> dev_nodes st' = dev_nodes st \<Longrightarrow> obj_inv base M st' = obj_inv base M st"
  by (simp add: obj_inv_def)

lemma fd_inv_refcount:
  assumes inv: "fd_inv base pins st" and f: "fstore st f = Some s" and pos: "0 < users f st + n"
  shows "fd_inv base (pins(f := n)) (set_refcount f (int (users f st) + int n) st)" (is "fd_inv _ _ ?st")
proof -
  note d = fd_invD [OF inv f]
  have M: "store_refs (fstore ?st) = store_refs (fstore st)"
    using store_refs_upd [OF d(5) f, of "s\<lparr>refcount := int (users f st) + int n\<rparr>"] f by simp
  have k: "kind_ok ?st = kind_ok st" by (rule ext, rule kind_ok_objs) simp_all
  have o: "obj_inv base (store_refs (fstore ?st)) ?st" using d(6) unfolding M by (simp add: obj_inv_objs [of ?st st])
  have kp: "list_all (kind_ok ?st) (fd_table x)" if "fstore st g = Some x" for g x using fd_invD(4) [OF inv that] k by simp
  have "0 < int (users f st) + int n" using pos by linarith
  then show ?thesis
    by (intro fd_inv_change [OF inv f fstore_set_refcount [OF f] _ kp _ _ _ o]) (use d(2,4) k in \<open>simp_all add: files_ok_def\<close>)
qed

lemma files_get_pin:
  assumes inv: "fd_inv base pins st" and f: "fstore st f = Some s"
  shows "files_get f st = Done (f, set_refcount f (refcount s + 1) st)" "fd_inv base (pins(f := Suc (pins f))) (set_refcount f (refcount s + 1) st)"
proof -
  show "files_get f st = Done (f, set_refcount f (refcount s + 1) st)"
    by (simp add: files_get_def files_live [OF inv f] f set_refcount_def)
  show "fd_inv base (pins(f := Suc (pins f))) (set_refcount f (refcount s + 1) st)"
    using fd_inv_refcount [OF inv f, of "Suc (pins f)"] fd_invD(3) [OF inv f] by (simp add: algebra_simps)
qed

lemma files_put_shared:
  assumes inv: "fd_inv base pins st" and f: "fstore st f = Some s" and two: "1 < refcount s"
  shows "files_put f st = Done (set_refcount f (refcount s - 1) st)"
  using two f by (simp add: files_put_def files_live [OF inv f] set_refcount_def heap_place_nz [OF fd_invD(1) [OF inv f]])

lemma fd_put_unpin:
  assumes inv: "fd_inv base (pins(f := Suc (pins f))) st" and f: "fstore st f = Some s" and u: "0 < users f st"
  shows "ir0_fd_put f st = Done (set_refcount f (refcount s - 1) st)" "fd_inv base pins (set_refcount f (refcount s - 1) st)"
proof -
  have r: "refcount s = int (users f st) + int (Suc (pins f))" using fd_invD(3) [OF inv f] by simp
  then show "ir0_fd_put f st = Done (set_refcount f (refcount s - 1) st)"
    using files_put_shared [OF inv f] u heap_place_nz [OF fd_invD(1) [OF inv f]] by (simp add: ir0_fd_put_def)
  show "fd_inv base pins (set_refcount f (refcount s - 1) st)"
    using fd_inv_refcount [OF inv f, of "pins f"] u r by (simp add: fun_upd_idem_iff)
qed

lemma unpin_pin [simp]: "fstore st f = Some s \<Longrightarrow> n = refcount s \<Longrightarrow> set_refcount f n (set_refcount f m st) = st"
  by (simp add: set_refcount_def fun_upd_idem)

text \<open>The four outcomes of \<^verbatim>\<open>ir0_fd_get\<close> on a state that satisfies the invariant.\<close>

lemma fd_get_cases:
  assumes inv: "fd_inv base pins st" and p: "proc_files st p = Some f"
  obtains (bad) er where "ir0_fd_get (Some p) fd st = Done (Inl er, st)"
  | (ok) s where "0 \<le> fd" "nat fd < MAX_FDS_PER_PROCESS" "fstore st f = Some s" "in_use (fd_table s ! nat fd)"
      "ir0_fd_get (Some p) fd st = Done (Inr f, set_refcount f (refcount s + 1) st)"
      "fd_inv base (pins(f := Suc (pins f))) (set_refcount f (refcount s + 1) st)"
proof (cases "fd < 0 \<or> fd \<ge> int MAX_FDS_PER_PROCESS \<or> f = 0")
  case True
  then have "ir0_fd_get (Some p) fd st = Done (Inl EBADF, st)" using p by (auto simp: ir0_fd_get_def)
  then show ?thesis by (rule bad)
next
  case False
  then obtain s where f: "fstore st f = Some s" using proc_table [OF inv p] by blast
  let ?st = "set_refcount f (refcount s + 1) st"
  note g = files_get_pin [OF inv f]
  have len: "length (fd_table s) = MAX_FDS_PER_PROCESS" using fd_invD(2) [OF inv f] by (simp add: files_ok_def)
  have f1: "fstore ?st f = Some (s\<lparr>refcount := refcount s + 1\<rparr>)" using f by simp
  have e: "slot_at f (nat fd) ?st = Done (fd_table s ! nat fd)" using f len False by (simp add: slot_at_def nat_less_iff)
  have u: "0 < users f ?st" using users_pos [OF inv p] by simp
  have put: "files_put f ?st = Done st" using fd_put_unpin(1) [OF g(2) f1 u] f False by (simp add: ir0_fd_put_def)
  show ?thesis
  proof (cases "in_use (fd_table s ! nat fd)")
    case True
    then have "ir0_fd_get (Some p) fd st = Done (Inr f, ?st)"
      using False p g(1) e by (simp add: ir0_fd_get_def files_live [OF inv f])
    then show ?thesis using ok [OF _ _ f True] g(2) False by (simp add: nat_less_iff)
  next
    case nu: False
    then have "ir0_fd_get (Some p) fd st = Done (Inl EBADF, st)"
      using False p g(1) e put by (simp add: ir0_fd_get_def files_live [OF inv f])
    then show ?thesis by (rule bad)
  qed
qed

section \<open>Closing and duplicating\<close>

definition with_slot :: "nat \<Rightarrow> files_struct \<Rightarrow> nat \<Rightarrow> fd_entry \<Rightarrow> fdk \<Rightarrow> fdk" where
  "with_slot f s i e st = st\<lparr>fstore := (fstore st)(f \<mapsto> s\<lparr>fd_table := (fd_table s)[i := e]\<rparr>)\<rparr>"

lemma with_slot_simps [simp]:
  "objs (with_slot f s i e st) = objs st" "epolls (with_slot f s i e st) = epolls st" "dev_nodes (with_slot f s i e st) = dev_nodes st" "proc_files (with_slot f s i e st) = proc_files st"
  "fstore (with_slot f s i e st) = (fstore st)(f \<mapsto> s\<lparr>fd_table := (fd_table s)[i := e]\<rparr>)" "users g (with_slot f s i e st) = users g st"
  by (simp_all add: with_slot_def users_def)

lemma with_slot_inv [simp]:
  "obj_inv base M (with_slot f s i e st) = obj_inv base M st" "objs_le st1 (with_slot f s i e st) = objs_le st1 st"
  "kind_ok (with_slot f s i e st) e' = kind_ok st e'" "typed (with_slot f s i e st) e' = typed st e'"
  by (simp_all add: obj_inv_def objs_le_def kind_ok_def typed_def)

lemma with_slot_again [simp]: "with_slot f (s\<lparr>fd_table := (fd_table s)[i := e]\<rparr>) i e' (with_slot f s i e st) = with_slot f s i e' st"
  by (simp add: with_slot_def)

lemma set_slot_ok: "fstore st f = Some s \<Longrightarrow> i < length (fd_table s) \<Longrightarrow> set_slot f i e st = Done (with_slot f s i e st)"
  by (simp add: set_slot_def with_slot_def)

lemma table_len: "fd_inv base pins st \<Longrightarrow> fstore st f = Some s \<Longrightarrow> length (fd_table s) = MAX_FDS_PER_PROCESS"
  using fd_invD(2) by (fastforce simp: files_ok_def)

lemma slot_wf: "fd_inv base pins st \<Longrightarrow> fstore st f = Some s \<Longrightarrow> i < MAX_FDS_PER_PROCESS \<Longrightarrow> entry_wf (fd_table s ! i)"
  using fd_invD(2) [of base pins st f s] by (simp add: files_ok_def list_all_length)

lemma free_refs [simp]: "\<not> in_use e \<Longrightarrow> entry_refs e = {#}" "\<not> in_use e \<Longrightarrow> kind_ok st e"
  by (simp_all add: entry_refs_def kind_ok_def)

lemma release_slot_inv:
  assumes inv: "fd_inv base pins st" and f: "fstore st f = Some s" and i: "i < MAX_FDS_PER_PROCESS" and u: "in_use (fd_table s ! i)"
    and e: "entry_wf e" "\<not> in_use e"
  shows "fd_inv base pins (with_slot f s i e (ref_put (fd_table s ! i) st))"
proof -
  note t = slot_typed [OF inv f i u] and d = fd_invD [OF inv f]
  have "entry_refs (fd_table s ! i) \<subseteq># store_refs (fstore st)"
    using table_refs_nth [of i "fd_table s"] i table_len [OF inv f] store_refs_sub [OF d(5) f] by (metis subset_mset.order_trans)
  then obtain M where M: "store_refs (fstore st) = M + entry_refs (fd_table s ! i)" by (metis subset_mset.diff_add)
  have o: "obj_inv base M (ref_put (fd_table s ! i) st)" using ref_put_inv [OF _ t] d(6) M by metis
  show ?thesis
    by (rule fd_inv_slot [OF inv f i e(1), where M = M])
      (use e o M ref_put_le [OF t] in simp_all)
qed

lemma acquire_slot_inv:
  assumes inv: "fd_inv base pins st" and f: "fstore st f = Some s" and i: "i < MAX_FDS_PER_PROCESS" and u: "\<not> in_use (fd_table s ! i)"
    and e: "entry_wf e" "typed st e'" "entry_refs e = entry_refs e'" "kind_ok st e' \<longrightarrow> kind_ok st e"
  shows "fd_inv base pins (with_slot f s i e (ref_get e' st))"
proof -
  note d = fd_invD [OF inv f]
  have o: "obj_inv base (store_refs (fstore st) + entry_refs e') (ref_get e' st)" by (rule ref_get_inv [OF d(6) e(2)])
  have "kind_ok st e'" using e(2) unfolding typed_def kind_ok_def by force
  then have k: "kind_ok (ref_get e' st) e" using kind_ok_le [OF ref_get_le [OF e(2)]] e(4) by blast
  show ?thesis
    by (rule fd_inv_slot [OF inv f i e(1), where M = "store_refs (fstore st) + entry_refs e'"])
      (use e o k u ref_get_le [OF e(2)] in simp_all)
qed

lemma cleared_free [simp]: "\<not> in_use (cleared e)"
  by (simp add: cleared_def)

lemma vfs_after_0 [simp]: "entry_wf e \<Longrightarrow> vfs_after e = 0" "entry_wf e \<Longrightarrow> close_vfs_after e = 0"
  using entry_flags(3) [of e] by (auto simp: vfs_after_def close_vfs_after_def)

lemma cleared_wf [simp]: "entry_wf e \<Longrightarrow> entry_wf (cleared e)"
  by (simp add: cleared_def entry_wf_def [of "_ \<lparr>in_use := _\<rparr>"]) (simp add: entry_wf_def cleared_def)

lemma pseudo_release:
  assumes "typed st e" "is_pseudo e" "vfs_file e \<noteq> 0"
  shows "file_obj_release OBind 0 (vfs_file e) st = Done (ref_put e st)"
  using release_entry_typed [OF assms(1)] entry_flags [of e] assms by (simp add: release_entry_def typed_def)

lemma sys_close_run:
  assumes inv: "fd_inv base pins st" and p: "proc_files st p = Some f" and f: "fstore st f = Some s" and i: "i < MAX_FDS_PER_PROCESS" and u: "in_use (fd_table s ! i)"
  shows "\<exists>st' e'. sys_close slot legacy (Some p) (int i) st = Done (Inr 0, st') \<and> fd_inv base pins st' \<and> proc_files st' = proc_files st \<and>
    fstore st' = (fstore st)(f \<mapsto> s\<lparr>fd_table := (fd_table s)[i := e']\<rparr>) \<and> \<not> in_use e' \<and>
    epolls st' = (if is_epoll (fd_table s ! i) then (epolls st)(vfs_file (fd_table s ! i) \<mapsto> False) else epolls st)"
proof -
  let ?st = "set_refcount f (refcount s + 1) st"
  define s1 where "s1 = s\<lparr>refcount := refcount s + 1\<rparr>"
  define e where "e = fd_table s ! i"
  have get: "ir0_fd_get (Some p) (int i) st = Done (Inr f, ?st)"
    using f u i table_len [OF inv f] p files_live [OF inv f] files_get_pin(1) [OF inv f] heap_place_nz [OF fd_invD(1) [OF inv f]]
    by (simp add: ir0_fd_get_def slot_at_def)
  have f1: "fstore ?st f = Some s1" and e1: "fd_table s1 ! i = e" using f by (simp_all add: s1_def e_def)
  note inv1 = files_get_pin(2) [OF inv f]
  have len: "i < length (fd_table s1)" using table_len [OF inv1 f1] i by simp
  have w: "entry_wf e" using slot_wf [OF inv1 f1 i] e1 by simp
  have u: "in_use e" using u by (simp add: e_def)
  have t: "typed ?st e" using slot_typed [OF inv1 f1 i] e1 u by simp
  have sl: "slot_at f i ?st = Done e" using f1 e1 len by (simp add: slot_at_def)
  have put: "\<exists>st4. ir0_fd_put f (with_slot f s1 i e' (ref_put e ?st)) = Done st4 \<and> fd_inv base pins st4 \<and> proc_files st4 = proc_files st \<and>
      fstore st4 = (fstore st)(f \<mapsto> s\<lparr>fd_table := (fd_table s)[i := e']\<rparr>) \<and>
      epolls st4 = (if is_epoll (fd_table s ! i) then (epolls st)(vfs_file (fd_table s ! i) \<mapsto> False) else epolls st)"
    if e': "entry_wf e'" "\<not> in_use e'" for e'
  proof -
    let ?sta = "with_slot f s1 i e' (ref_put e ?st)"
    have i3: "fd_inv base (pins(f := Suc (pins f))) ?sta"
      using release_slot_inv [OF inv1 f1 i _ e'] e1 u by simp
    have us: "0 < users f ?sta" using users_pos [OF inv p] by (simp add: users_def)
    have f3: "fstore ?sta f = Some (s1\<lparr>fd_table := (fd_table s1)[i := e']\<rparr>)" by simp
    show ?thesis using fd_put_unpin [OF i3 f3 us] f entry_flags(1) [OF w] by (auto simp: set_refcount_def s1_def e_def)
  qed
  have set: "set_slot f i e' (ref_put e ?st) = Done (with_slot f s1 i e' (ref_put e ?st))" for e'
    using f1 len by (intro set_slot_ok) simp_all
  show ?thesis
  proof (cases "is_pseudo e \<and> vfs_file e \<noteq> 0")
    case True
    let ?e' = "e\<lparr>vfs_file := 0, in_use := False, is_pseudo := False, fd_path := ''''\<rparr>"
    have "entry_wf ?e'" using entry_flags [OF w] True by (simp add: entry_wf_def)
    then obtain st4 where "ir0_fd_put f (with_slot f s1 i ?e' (ref_put e ?st)) = Done st4" "fd_inv base pins st4" "proc_files st4 = proc_files st"
      "fstore st4 = (fstore st)(f \<mapsto> s\<lparr>fd_table := (fd_table s)[i := ?e']\<rparr>)"
        "epolls st4 = (if is_epoll (fd_table s ! i) then (epolls st)(vfs_file (fd_table s ! i) \<mapsto> False) else epolls st)" using put [of ?e'] by auto
    then show ?thesis using True get sl set pseudo_release [OF t]
      by (intro exI [of _ st4] exI [of _ ?e']) (simp add: sys_close_def)
  next
    case np: False
    show ?thesis
    proof (cases "int i \<le> 2 \<and> \<not> is_pipe e \<and> \<not> is_devfs e \<and> vfs_file e = 0")
      case True
      let ?e' = "e\<lparr>in_use := False, fflags := 0\<rparr>"
      have r: "entry_wf ?e'" "ref_put e ?st = ?st" using True w by (simp_all add: entry_wf_def ref_put_def Let_def)
      then obtain st4 where "ir0_fd_put f (with_slot f s1 i ?e' (ref_put e ?st)) = Done st4" "fd_inv base pins st4" "proc_files st4 = proc_files st"
        "fstore st4 = (fstore st)(f \<mapsto> s\<lparr>fd_table := (fd_table s)[i := ?e']\<rparr>)"
        "epolls st4 = (if is_epoll (fd_table s ! i) then (epolls st)(vfs_file (fd_table s ! i) \<mapsto> False) else epolls st)" using put [of ?e'] by auto
      then show ?thesis using True np get sl set [of ?e'] r(2)
        by (intro exI [of _ st4] exI [of _ ?e']) (simp add: sys_close_def)
    next
      case False
      let ?e' = "cleared e\<lparr>vfs_file := close_vfs_after e\<rparr>"
      have "entry_wf ?e'" "\<not> in_use ?e'" using w by (simp_all add: cleared_def entry_wf_def)
      then obtain st4 where "ir0_fd_put f (with_slot f s1 i ?e' (ref_put e ?st)) = Done st4" "fd_inv base pins st4" "proc_files st4 = proc_files st"
        "fstore st4 = (fstore st)(f \<mapsto> s\<lparr>fd_table := (fd_table s)[i := ?e']\<rparr>)"
        "epolls st4 = (if is_epoll (fd_table s ! i) then (epolls st)(vfs_file (fd_table s ! i) \<mapsto> False) else epolls st)" using put [of ?e'] by blast
      then show ?thesis using False np get sl set [of ?e'] close_entry_typed [OF t np] \<open>\<not> in_use ?e'\<close>
        by (intro exI [of _ st4] exI [of _ ?e']) (auto simp: sys_close_def)
    qed
  qed
qed

lemma sys_close_inv:
  assumes inv: "fd_inv base pins st" and p: "proc_files st p = Some f"
  shows "\<exists>r st'. sys_close slot legacy (Some p) fd st = Done (r, st') \<and> fd_inv base pins st' \<and> proc_files st' = proc_files st"
  using inv p
proof (cases rule: fd_get_cases [where fd = fd])
  case (bad er)
  then show ?thesis using inv by (cases "legacy fd") (simp_all add: sys_close_def)
next
  case (ok s)
  then show ?thesis using sys_close_run [OF inv p ok(3,2,4), of slot legacy] by auto
qed

lemma dup2_copy_vfs: "entry_wf e \<Longrightarrow> vfs_file (dup2_copy e n) = vfs_file e"
  using entry_flags(3) [of e] by (auto simp: dup2_copy_def)

lemma dup2_copy_flags:
  "in_use (dup2_copy e n)" "is_pipe (dup2_copy e n) = is_pipe e" "pipe_end (dup2_copy e n) = pipe_end e" "is_socket (dup2_copy e n) = is_socket e"
  "is_devfs (dup2_copy e n) = is_devfs e" "dev_device_id (dup2_copy e n) = dev_device_id e" "is_pseudo (dup2_copy e n) = is_pseudo e"
  "is_memfd (dup2_copy e n) = is_memfd e" "is_eventfd (dup2_copy e n) = is_eventfd e" "is_timerfd (dup2_copy e n) = is_timerfd e"
  "is_epoll (dup2_copy e n) = is_epoll n"
  by (simp_all add: dup2_copy_def)

lemma dup2_copy_wf:
  assumes e: "entry_wf e" "\<not> is_epoll e" and n: "\<not> is_epoll n"
  shows "entry_wf (dup2_copy e n)"
  using e n unfolding entry_wf_def dup2_copy_flags(2-) dup2_copy_vfs [OF e(1)] by (simp add: dup2_copy_flags(1))

lemma dup2_copy_kinds: "is_epoll n = is_epoll e \<Longrightarrow> entry_kinds (dup2_copy e n) = entry_kinds e"
  by (simp add: entry_kinds_def dup2_copy_flags)

lemma dup2_copy_refs: "entry_wf e \<Longrightarrow> in_use e \<Longrightarrow> is_epoll n = is_epoll e \<Longrightarrow> entry_refs (dup2_copy e n) = entry_refs e"
  by (simp add: entry_refs_def dup2_copy_vfs dup2_copy_flags ref_end_def)

lemma dup2_copy_kind: "entry_wf e \<Longrightarrow> in_use e \<Longrightarrow> is_epoll n = is_epoll e \<Longrightarrow> kind_ok st e \<Longrightarrow> kind_ok st (dup2_copy e n)"
  by (simp add: kind_ok_def dup2_copy_vfs dup2_copy_flags(1,11) dup2_copy_kinds)

lemma live_table:
  assumes inv: "fd_inv base pins st" and p: "proc_files st p = Some f"
  shows "get_process_fd_table (Some p) st = Done f"
proof (cases "f = 0")
  case False
  then obtain s where "fstore st f = Some s" using proc_table [OF inv p] by blast
  then show ?thesis using files_live [OF inv] p by (simp add: get_process_fd_table_def)
qed (use p in \<open>simp add: get_process_fd_table_def\<close>)

text \<open>The slot that \<^verbatim>\<open>dup2\<close> writes to: what it held is released and the copy takes a reference.\<close>

definition dup2_target :: "fd_entry \<Rightarrow> fd_entry" where
  "dup2_target n = (if in_use n then cleared n\<lparr>is_epoll := is_epoll n\<rparr> else n)"

definition dup2_result :: "nat \<Rightarrow> files_struct \<Rightarrow> nat \<Rightarrow> nat \<Rightarrow> fdk \<Rightarrow> fdk" where
  "dup2_result f s i j st =
     (let e = fd_table s ! i; n = fd_table s ! j in
      with_slot f s j (dup2_copy e (dup2_target n)) (ref_get e (if in_use n then ref_put n st else st)))"

lemma dup2_target_ok:
  "entry_wf n \<Longrightarrow> \<not> is_epoll n \<Longrightarrow> entry_wf (dup2_target n)" "\<not> is_epoll n \<Longrightarrow> \<not> is_epoll (dup2_target n)" "\<not> in_use (dup2_target n)"
  by (simp_all add: dup2_target_def entry_wf_def cleared_def)

lemma dup2_run:
  assumes inv: "fd_inv base pins st" and p: "proc_files st p = Some f" and f: "fstore st f = Some s"
    and i: "i < MAX_FDS_PER_PROCESS" and j: "j < MAX_FDS_PER_PROCESS" and ij: "i \<noteq> j" and u: "in_use (fd_table s ! i)"
    and ne: "\<not> is_epoll (fd_table s ! i)" "\<not> is_epoll (fd_table s ! j)"
  shows "sys_dup2 slot (Some p) (int i) (int j) st = Done (Inr (int j), dup2_result f s i j st)" "fd_inv base pins (dup2_result f s i j st)"
proof -
  let ?e = "fd_table s ! i" and ?n = "fd_table s ! j"
  let ?st1 = "if in_use ?n then ref_put ?n st else st"
  have len: "length (fd_table s) = MAX_FDS_PER_PROCESS" by (rule table_len [OF inv f])
  have w: "entry_wf ?e" "entry_wf ?n" using slot_wf [OF inv f] i j by simp_all
  define s1 where "s1 = s\<lparr>fd_table := (fd_table s)[j := dup2_target ?n]\<rparr>"
  define sta where "sta = with_slot f s j (dup2_target ?n) ?st1"
  have inva: "fd_inv base pins sta"
  proof (cases "in_use ?n")
    case True
    then show ?thesis using release_slot_inv [OF inv f j True] dup2_target_ok [of ?n] w ne by (simp add: sta_def)
  next
    case False
    then have "sta = st" using f by (simp add: sta_def with_slot_def dup2_target_def fun_upd_idem)
    then show ?thesis using inv by simp
  qed
  have fa: "fstore sta f = Some s1" by (simp add: sta_def s1_def)
  have sa: "fd_table s1 ! i = ?e" "fd_table s1 ! j = dup2_target ?n" using ij j len by (simp_all add: s1_def)
  have t: "typed sta ?e" using slot_typed [OF inva fa i] sa u by simp
  have fin: "dup2_result f s i j st = with_slot f s1 j (dup2_copy ?e (dup2_target ?n)) (ref_get ?e sta)"
  proof -
    have c: "ref_get ?e (with_slot f s j x y) = with_slot f s j x (ref_get ?e y)" for x y
      by (simp add: ref_get_def with_slot_def devfs_node_get_def Let_def split: option.split)
    show ?thesis by (simp add: dup2_result_def Let_def sta_def s1_def c)
  qed
  show "fd_inv base pins (dup2_result f s i j st)"
    unfolding fin
    by (rule acquire_slot_inv [OF inva fa j _ _ t])
      (use sa w u ne dup2_target_ok [of ?n] dup2_copy_wf dup2_copy_refs dup2_copy_kind in simp_all)
  have t1: "typed ?st1 ?e" using t by (simp add: sta_def)
  have r: "(if in_use ?n then dup2_release slot ?n st else Done st) = Done ?st1"
    using dup2_release_typed [OF slot_typed [OF inv f j]] ne by simp
  have nz: "f \<noteq> 0" using fd_invD(1) [OF inv f] heap_place_nz by simp
  have sl: "slot_at f i st = Done ?e" "slot_at f j st = Done ?n" using f i j len by (simp_all add: slot_at_def)
  have ij': "int i \<noteq> int j" using ij by simp
  have set: "set_slot f j e' (ref_get ?e ?st1) = Done (with_slot f s j e' (ref_get ?e ?st1))" for e'
    by (rule set_slot_ok) (use f j len in simp_all)
  show "sys_dup2 slot (Some p) (int i) (int j) st = Done (Inr (int j), dup2_result f s i j st)"
    using i j ij' live_table [OF inv p] nz sl u r dup2_acquire_typed [OF t1 ne(1)] set
    by (simp add: sys_dup2_def dup2_result_def Let_def dup2_target_def)
qed

lemma ref_ops_users [simp]: "users g (ref_get e st) = users g st" "users g (ref_put e st) = users g st"
  by (simp_all add: users_def)

lemma dup2_result_procs [simp]: "proc_files (dup2_result f s i j st) = proc_files st"
  by (simp add: dup2_result_def Let_def)

text \<open>The descriptors of a table that are epoll sets.\<close>

definition epoll_at :: "nat \<Rightarrow> int \<Rightarrow> fdk \<Rightarrow> bool" where
  "epoll_at f fd st \<longleftrightarrow> (\<exists>s. fstore st f = Some s \<and> 0 \<le> fd \<and> nat fd < MAX_FDS_PER_PROCESS \<and> is_epoll (fd_table s ! nat fd))"

lemma free_not_epoll: "entry_wf e \<Longrightarrow> \<not> in_use e \<Longrightarrow> \<not> is_epoll e"
  using entry_flags(1) [of e] by blast

lemma epoll_slot_at:
  assumes inv: "fd_inv base pins st" and f: "fstore st f = Some s" and i: "i < MAX_FDS_PER_PROCESS" and ep: "is_epoll (fd_table s ! i)"
  shows "in_use (fd_table s ! i)" "vfs_file (fd_table s ! i) \<noteq> 0" "epolls st (vfs_file (fd_table s ! i)) \<noteq> None" "objs st (vfs_file (fd_table s ! i)) = None"
proof -
  note w = slot_wf [OF inv f i]
  show u: "in_use (fd_table s ! i)" and v: "vfs_file (fd_table s ! i) \<noteq> 0" using entry_flags(1) [OF w] ep by blast+
  show e: "epolls st (vfs_file (fd_table s ! i)) \<noteq> None" using slot_typed [OF inv f i u] v ep by (simp add: typed_def)
  show "objs st (vfs_file (fd_table s ! i)) = None" using fd_invD(6) [OF inv f] e unfolding obj_inv_def by blast
qed

text \<open>\<^verbatim>\<open>dup2\<close> from or onto an epoll descriptor takes the set for a \<^verbatim>\<open>struct vfs_file\<close>.\<close>

lemma dup2_epoll_stuck:
  assumes inv: "fd_inv base pins st" and p: "proc_files st p = Some f" and f: "fstore st f = Some s"
    and ij: "i < MAX_FDS_PER_PROCESS" "j < MAX_FDS_PER_PROCESS" "i \<noteq> j" and u: "in_use (fd_table s ! i)"
    and ep: "is_epoll (fd_table s ! i) \<or> is_epoll (fd_table s ! j)"
  shows "sys_dup2 slot (Some p) (int i) (int j) st = Stuck"
proof -
  let ?e = "fd_table s ! i" and ?n = "fd_table s ! j"
  have len: "length (fd_table s) = MAX_FDS_PER_PROCESS" by (rule table_len [OF inv f])
  have w: "entry_wf ?e" "entry_wf ?n" using slot_wf [OF inv f] ij by simp_all
  have nz: "f \<noteq> 0" using fd_invD(1) [OF inv f] heap_place_nz by simp
  have sl: "slot_at f i st = Done ?e" "slot_at f j st = Done ?n" using f ij len by (simp_all add: slot_at_def)
  have ij': "int i \<noteq> int j" using ij by simp
  show ?thesis
  proof (cases "is_epoll ?n")
    case True
    have "dup2_release slot ?n st = Stuck"
      using entry_flags(1) [OF w(2)] True epoll_slot_at [OF inv f ij(2) True] by (simp add: dup2_release_def file_obj_release_def)
    then show ?thesis using ij(1,2) ij' live_table [OF inv p] nz sl u epoll_slot_at(1) [OF inv f ij(2) True] by (simp add: sys_dup2_def)
  next
    case False
    then have ei: "is_epoll ?e" using ep by blast
    let ?st1 = "if in_use ?n then ref_put ?n st else st"
    have r: "(if in_use ?n then dup2_release slot ?n st else Done st) = Done ?st1"
      using dup2_release_typed [OF slot_typed [OF inv f ij(2)]] False by simp
    have "objs_le st ?st1" using ref_put_le [OF slot_typed [OF inv f ij(2)]] by simp
    then have "objs ?st1 (vfs_file ?e) = None"
      using epoll_slot_at(4) [OF inv f ij(1) ei] unfolding objs_le_def by (metis not_None_eq)
    then have "dup2_acquire slot ?e ?st1 = Stuck"
      using entry_flags(1) [OF w(1)] ei by (simp add: dup2_acquire_def file_obj_acquire_def)
    then show ?thesis using ij(1,2) ij' live_table [OF inv p] nz sl u r by (simp add: sys_dup2_def Let_def)
  qed
qed

lemma sys_dup2_inv:
  assumes inv: "fd_inv base pins st" and p: "proc_files st p = Some f" and ne: "\<not> epoll_at f oldfd st" "\<not> epoll_at f newfd st"
  shows "\<exists>r st'. sys_dup2 slot (Some p) oldfd newfd st = Done (r, st') \<and> fd_inv base pins st' \<and> proc_files st' = proc_files st"
proof (cases "oldfd < 0 \<or> oldfd \<ge> int MAX_FDS_PER_PROCESS \<or> newfd < 0 \<or> newfd \<ge> int MAX_FDS_PER_PROCESS \<or> oldfd = newfd \<or> f = 0")
  case True
  then show ?thesis using inv live_table [OF inv p] by (auto simp: sys_dup2_def)
next
  case False
  define i j where "i = nat oldfd" and "j = nat newfd"
  have ij: "oldfd = int i" "newfd = int j" "i < MAX_FDS_PER_PROCESS" "j < MAX_FDS_PER_PROCESS" "i \<noteq> j"
    using False by (auto simp: i_def j_def nat_less_iff)
  obtain s where f: "fstore st f = Some s" using proc_table [OF inv p] False by blast
  show ?thesis
  proof (cases "in_use (fd_table s ! i)")
    case True
    have "\<not> is_epoll (fd_table s ! i)" "\<not> is_epoll (fd_table s ! j)" using ne f ij by (auto simp: epoll_at_def)
    from dup2_run [OF inv p f ij(3,4,5) True this] show ?thesis unfolding ij by auto
  next
    case nu: False
    have "slot_at f i st = Done (fd_table s ! i)" using f ij(3) table_len [OF inv f] by (simp add: slot_at_def)
    then have "sys_dup2 slot (Some p) (int i) (int j) st = Done (Inl EBADF, st)"
      using ij(3-5) nu live_table [OF inv p] False by (simp add: sys_dup2_def)
    then show ?thesis unfolding ij(1,2) using inv by blast
  qed
qed

lemma fd_alloc_lowest_cases:
  obtains "fd_alloc_lowest (Some t) from = -1"
  | i where "fd_alloc_lowest (Some t) from = int i" "i < MAX_FDS_PER_PROCESS" "nat from \<le> i" "\<not> in_use (t ! i)" "\<forall>j. nat from \<le> j \<longrightarrow> j < i \<longrightarrow> in_use (t ! j)"
proof (cases "find (\<lambda>i. \<not> in_use (t ! i)) [nat (if from < 0 then 0 else from)..<MAX_FDS_PER_PROCESS]")
  case None
  then show ?thesis using that(1) by (simp add: fd_alloc_lowest_def)
next
  case (Some i)
  have n: "nat (if from < 0 then 0 else from) = nat from" by simp
  from Some obtain k where k: "k < length [nat from..<MAX_FDS_PER_PROCESS]" "i = [nat from..<MAX_FDS_PER_PROCESS] ! k" "\<not> in_use (t ! i)"
      "\<forall>j<k. in_use (t ! ([nat from..<MAX_FDS_PER_PROCESS] ! j))"
    unfolding n find_Some_iff by auto
  have i: "i = nat from + k" using k(1,2) by simp
  have "in_use (t ! j)" if "nat from \<le> j" "j < i" for j
    using k(1,4) that i by (auto dest!: spec [of _ "j - nat from"])
  then show ?thesis using that(2) [of i] Some k i by (simp add: fd_alloc_lowest_def)
qed

text \<open>When it returns, one of the two is no epoll descriptor or nothing was duplicated.\<close>

lemma sys_dup2_done:
  assumes inv: "fd_inv base pins st" and p: "proc_files st p = Some f" and run: "sys_dup2 slot (Some p) oldfd newfd st = Done (r, st')"
  shows "fd_inv base pins st' \<and> proc_files st' = proc_files st"
proof (cases "epoll_at f oldfd st \<or> epoll_at f newfd st")
  case False
  then show ?thesis using sys_dup2_inv [OF inv p, of oldfd newfd slot] run by auto
next
  case True
  have "st' = st"
  proof (cases "oldfd < 0 \<or> oldfd \<ge> int MAX_FDS_PER_PROCESS \<or> newfd < 0 \<or> newfd \<ge> int MAX_FDS_PER_PROCESS \<or> oldfd = newfd")
    case bad: True
    then show ?thesis using run by (auto simp: sys_dup2_def split: if_splits)
  next
    case False
    then have r: "oldfd = int (nat oldfd)" "newfd = int (nat newfd)" "nat oldfd < MAX_FDS_PER_PROCESS" "nat newfd < MAX_FDS_PER_PROCESS" "nat oldfd \<noteq> nat newfd" by auto
    obtain s where f: "fstore st f = Some s" and ep: "is_epoll (fd_table s ! nat oldfd) \<or> is_epoll (fd_table s ! nat newfd)" using True by (auto simp: epoll_at_def)
    have "\<not> in_use (fd_table s ! nat oldfd)" using dup2_epoll_stuck [OF inv p f r(3-5) _ ep, of slot] run r(1,2) by auto
    moreover have "slot_at f (nat oldfd) st = Done (fd_table s ! nat oldfd)" using f r(3) table_len [OF inv f] by (simp add: slot_at_def)
    ultimately show ?thesis using run live_table [OF inv p] by (auto simp: sys_dup2_def split: if_splits)
  qed
  then show ?thesis using inv by simp
qed

lemma alloc_not_epoll:
  assumes inv: "fd_inv base pins st" and f: "fstore st f = Some s"
  shows "\<not> epoll_at f (fd_alloc_lowest (Some (fd_table s)) from) st"
proof (cases rule: fd_alloc_lowest_cases [of "fd_table s" "from"])
  case (2 i)
  then show ?thesis using free_not_epoll [OF slot_wf [OF inv f 2(2)]] f by (simp add: epoll_at_def)
qed (simp add: epoll_at_def)

lemma sys_dup_inv:
  assumes inv: "fd_inv base pins st" and p: "proc_files st p = Some f" and ne: "\<not> epoll_at f oldfd st"
  shows "\<exists>r st'. sys_dup slot (Some p) oldfd st = Done (r, st') \<and> fd_inv base pins st' \<and> proc_files st' = proc_files st"
proof (cases "oldfd < 0 \<or> oldfd \<ge> int MAX_FDS_PER_PROCESS \<or> f = 0")
  case True
  then show ?thesis using inv live_table [OF inv p] by (auto simp: sys_dup_def)
next
  case False
  then obtain s where f: "fstore st f = Some s" using proc_table [OF inv p] by blast
  have sl: "slot_at f (nat oldfd) st = Done (fd_table s ! nat oldfd)" "table_of f st = Done (Some (fd_table s))"
    using f False table_len [OF inv f] by (simp_all add: slot_at_def table_of_def nat_less_iff)
  show ?thesis
    using False live_table [OF inv p] sl inv sys_dup2_inv [OF inv p ne alloc_not_epoll [OF inv f]]
    by (simp add: sys_dup_def Let_def)
qed

lemma sys_dup_done:
  assumes inv: "fd_inv base pins st" and p: "proc_files st p = Some f" and run: "sys_dup slot (Some p) oldfd st = Done (r, st')"
  shows "fd_inv base pins st' \<and> proc_files st' = proc_files st"
proof (cases "oldfd < 0 \<or> oldfd \<ge> int MAX_FDS_PER_PROCESS \<or> f = 0")
  case True
  then show ?thesis using inv run live_table [OF inv p] by (auto simp: sys_dup_def split: if_splits)
next
  case False
  then obtain s where f: "fstore st f = Some s" using proc_table [OF inv p] by blast
  have sl: "slot_at f (nat oldfd) st = Done (fd_table s ! nat oldfd)" "table_of f st = Done (Some (fd_table s))"
    using f False table_len [OF inv f] by (simp_all add: slot_at_def table_of_def nat_less_iff)
  show ?thesis
    using False live_table [OF inv p] sl inv run sys_dup2_done [OF inv p] by (auto simp: sys_dup_def Let_def split: if_splits)
qed

section \<open>Status calls\<close>

lemma pinned_put:
  assumes inv: "fd_inv base pins st" and p: "proc_files st p = Some f" and f: "fstore st f = Some s"
  shows "ir0_fd_put f (set_refcount f (refcount s + 1) st) = Done st"
proof -
  have f1: "fstore (set_refcount f (refcount s + 1) st) f = Some (s\<lparr>refcount := refcount s + 1\<rparr>)" using f by simp
  show ?thesis using fd_put_unpin(1) [OF files_get_pin(2) [OF inv f] f1] users_pos [OF inv p] f by simp
qed

lemma unpin_slot:
  assumes inv: "fd_inv base (pins(f := Suc (pins f))) st" and p: "proc_files st p = Some f" and f: "fstore st f = Some s"
  shows "\<exists>st'. ir0_fd_put f st = Done st' \<and> fd_inv base pins st' \<and> proc_files st' = proc_files st"
  using fd_put_unpin [OF inv f] users_pos [OF inv p] by simp

text \<open>A change of the flags or the offset of a slot leaves the references alone.\<close>

lemma same_refs_inv:
  assumes inv: "fd_inv base pins st" and f: "fstore st f = Some s" and i: "i < MAX_FDS_PER_PROCESS" and w: "entry_wf e"
    and r: "entry_refs e = entry_refs (fd_table s ! i)" and k: "kind_ok st (fd_table s ! i) \<longrightarrow> kind_ok st e"
  shows "fd_inv base pins (with_slot f s i e st)"
proof -
  note d = fd_invD [OF inv f]
  have k': "kind_ok st e" using d(4) k i table_len [OF inv f] by (simp add: list_all_length)
  show ?thesis
    by (rule fd_inv_slot [OF inv f i w, where M = "store_refs (fstore st)"]) (use d(6) k' r in simp_all)
qed

lemma flag_change_wf [simp]:
  "entry_wf (e\<lparr>fd_flags := x\<rparr>) = entry_wf e" "entry_wf (e\<lparr>fflags := y\<rparr>) = entry_wf e" "entry_wf (e\<lparr>offset := z\<rparr>) = entry_wf e"
  "entry_refs (e\<lparr>fd_flags := x\<rparr>) = entry_refs e" "entry_refs (e\<lparr>fflags := y\<rparr>) = entry_refs e" "entry_refs (e\<lparr>offset := z\<rparr>) = entry_refs e"
  "kind_ok st (e\<lparr>fd_flags := x\<rparr>) = kind_ok st e" "kind_ok st (e\<lparr>fflags := y\<rparr>) = kind_ok st e" "kind_ok st (e\<lparr>offset := z\<rparr>) = kind_ok st e"
  by (simp_all add: entry_wf_def entry_refs_def kind_ok_def entry_kinds_def ref_end_def)

lemma pinned_update:
  assumes inv: "fd_inv base pins st" and p: "proc_files st p = Some f" and f: "fstore st f = Some s" and i: "i < MAX_FDS_PER_PROCESS" and w: "entry_wf e"
    and r: "entry_refs e = entry_refs (fd_table s ! i)" and k: "kind_ok st (fd_table s ! i) \<longrightarrow> kind_ok st e"
  shows "\<exists>st2 st3. set_slot f i e (set_refcount f (refcount s + 1) st) = Done st2 \<and> ir0_fd_put f st2 = Done st3 \<and> fd_inv base pins st3 \<and> proc_files st3 = proc_files st"
proof -
  let ?st = "set_refcount f (refcount s + 1) st" and ?s = "s\<lparr>refcount := refcount s + 1\<rparr>"
  have f1: "fstore ?st f = Some ?s" using f by simp
  note inv1 = files_get_pin(2) [OF inv f]
  have k1: "kind_ok ?st x = kind_ok st x" for x by (rule kind_ok_objs) simp_all
  have i2: "fd_inv base (pins(f := Suc (pins f))) (with_slot f ?s i e ?st)"
    by (rule same_refs_inv [OF inv1 f1 i w]) (use r k k1 in simp_all)
  have "\<exists>st'. ir0_fd_put f (with_slot f ?s i e ?st) = Done st' \<and> fd_inv base pins st' \<and> proc_files st' = proc_files (with_slot f ?s i e ?st)"
    by (rule unpin_slot [OF i2]) (use p in simp_all)
  then show ?thesis using set_slot_ok [OF f1, of i e] i table_len [OF inv f] by auto
qed

lemma pinned_slot:
  "fd_inv base pins st \<Longrightarrow> fstore st f = Some s \<Longrightarrow> i < MAX_FDS_PER_PROCESS \<Longrightarrow> slot_at f i (set_refcount f n st) = Done (fd_table s ! i)"
  using table_len [of base pins st f s] by (simp add: slot_at_def)

lemma sys_fcntl_inv:
  assumes inv: "fd_inv base pins st" and p: "proc_files st p = Some f" and ne: "cmd = F_DUPFD \<Longrightarrow> \<not> epoll_at f fd st"
  shows "\<exists>r st'. sys_fcntl slot (Some p) fd cmd arg st = Done (r, st') \<and> fd_inv base pins st' \<and> proc_files st' = proc_files st"
  using inv p
proof (cases rule: fd_get_cases [where fd = fd])
  case (bad er)
  then show ?thesis using inv by (simp add: sys_fcntl_def)
next
  case (ok s)
  let ?e = "fd_table s ! nat fd" and ?st = "set_refcount f (refcount s + 1) st"
  have w: "entry_wf ?e" by (rule slot_wf [OF inv ok(3,2)])
  note sl = pinned_slot [OF inv ok(3,2)] and put = pinned_put [OF inv p ok(3)]
  have t: "table_of f ?st = Done (Some (fd_table s))"
    using ok(3) heap_place_nz [OF fd_invD(1) [OF inv ok(3)]] by (simp add: table_of_def)
  consider "cmd = F_SETFD" | "cmd = F_SETFL" "cmd \<noteq> F_SETFD" | "cmd = F_DUPFD" "cmd \<noteq> F_SETFL" "cmd \<noteq> F_SETFD" | "cmd \<noteq> F_SETFD" "cmd \<noteq> F_SETFL" "cmd \<noteq> F_DUPFD"
    by blast
  then show ?thesis
  proof cases
    case 1
    have u: "\<exists>st2 st3. set_slot f (nat fd) (?e\<lparr>fd_flags := arg AND FD_CLOEXEC\<rparr>) ?st = Done st2 \<and> ir0_fd_put f st2 = Done st3 \<and> fd_inv base pins st3 \<and> proc_files st3 = proc_files st"
      by (rule pinned_update [OF inv p ok(3,2)]) (use w in simp_all)
    then show ?thesis using 1 ok(5) sl by (auto simp: sys_fcntl_def)
  next
    case 2
    have u: "\<exists>st2 st3. set_slot f (nat fd) (?e\<lparr>fflags := (fflags ?e AND O_ACCMODE) OR (int arg AND (O_APPEND OR O_NONBLOCK))\<rparr>) ?st = Done st2 \<and> ir0_fd_put f st2 = Done st3 \<and> fd_inv base pins st3 \<and> proc_files st3 = proc_files st"
      by (rule pinned_update [OF inv p ok(3,2)]) (use w in simp_all)
    then show ?thesis using 2 ok(5) sl by (auto simp: sys_fcntl_def)
  next
    case 3
    then show ?thesis using ok(5) sl put t inv sys_dup2_inv [OF inv p ne alloc_not_epoll [OF inv ok(3)]] by (simp add: sys_fcntl_def Let_def)
  next
    case 4
    then show ?thesis using ok(5) sl put inv by (simp add: sys_fcntl_def)
  qed
qed

lemma sys_fcntl_done:
  assumes inv: "fd_inv base pins st" and p: "proc_files st p = Some f" and run: "sys_fcntl slot (Some p) fd cmd arg st = Done (r, st')"
  shows "fd_inv base pins st' \<and> proc_files st' = proc_files st"
proof (cases "cmd = F_DUPFD")
  case False
  then show ?thesis using sys_fcntl_inv [OF inv p, of cmd fd slot arg] run by auto
next
  case cmd: True
  then have c: "cmd \<noteq> F_SETFD" "cmd \<noteq> F_SETFL" by (simp_all add: F_DUPFD_def F_SETFD_def F_SETFL_def)
  from inv p show ?thesis
  proof (cases rule: fd_get_cases [where fd = fd])
    case (bad er)
    then show ?thesis using inv run by (simp add: sys_fcntl_def)
  next
    case (ok s)
    have t: "table_of f (set_refcount f (refcount s + 1) st) = Done (Some (fd_table s))"
      using ok(3) heap_place_nz [OF fd_invD(1) [OF inv ok(3)]] by (simp add: table_of_def)
    show ?thesis
      using cmd c ok(5) pinned_slot [OF inv ok(3,2)] pinned_put [OF inv p ok(3)] t inv run sys_dup2_done [OF inv p]
      by (auto simp: sys_fcntl_def Let_def split: if_splits)
  qed
qed

section \<open>New tables\<close>

lemma acquire_entry_any:
  assumes "obj_inv base M st" "entry_refs e \<subseteq># M" "kind_ok st e" "entry_wf e"
  shows "\<exists>st'. acquire_entry slot e st = Done st' \<and> obj_inv base (M + entry_refs e) st' \<and> objs_le st st' \<and> fstore st' = fstore st \<and> proc_files st' = proc_files st \<and> epolls st' = epolls st"
proof (cases "in_use e")
  case True
  note t = typedI [OF assms(1-4) True]
  show ?thesis using acquire_entry_typed [OF t] ref_get_inv [OF assms(1) t] ref_get_le [OF t] by simp
next
  case False
  then show ?thesis using assms(1) by (simp add: acquire_entry_def)
qed

lemma acquire_entries_inv:
  assumes "obj_inv base M st" "table_refs t \<subseteq># N" "N \<subseteq># M" "list_all (kind_ok st) t" "list_all entry_wf t"
  shows "\<exists>st'. acquire_entries slot t st = Done st' \<and> obj_inv base (M + table_refs t) st' \<and> objs_le st st' \<and> fstore st' = fstore st \<and> proc_files st' = proc_files st \<and> epolls st' = epolls st"
  using assms
proof (induction t arbitrary: st M)
  case Nil
  then show ?case by (simp add: table_refs_def)
next
  case (Cons e t)
  have sub: "entry_refs e \<subseteq># N" "table_refs t \<subseteq># N"
    using Cons.prems(2) subset_mset.order_trans [OF mset_subset_eq_add_left [of "entry_refs e" "table_refs t"], of N]
      subset_mset.order_trans [OF mset_subset_eq_add_right [of "table_refs t" "entry_refs e"], of N]
    by (simp_all add: table_refs_def)
  then have eM: "entry_refs e \<subseteq># M" using Cons.prems(3) subset_mset.order_trans by blast
  have e: "kind_ok st e" "entry_wf e" using Cons.prems(4,5) by simp_all
  obtain st1 where st1: "acquire_entry slot e st = Done st1" "obj_inv base (M + entry_refs e) st1" "objs_le st st1" "fstore st1 = fstore st" "proc_files st1 = proc_files st" "epolls st1 = epolls st"
    using acquire_entry_any [OF Cons.prems(1) eM e] by blast
  have 1: "N \<subseteq># M + entry_refs e" using Cons.prems(3) by (simp add: subset_mset.add_increasing2)
  have 2: "list_all (kind_ok st1) t" "list_all entry_wf t" using Cons.prems(4,5) kind_ok_le [OF st1(3)] by (auto simp: list_all_iff)
  obtain st2 where st2: "acquire_entries slot t st1 = Done st2" "obj_inv base (M + entry_refs e + table_refs t) st2" "objs_le st1 st2" "fstore st2 = fstore st1" "proc_files st2 = proc_files st1" "epolls st2 = epolls st1"
    using Cons.IH [OF st1(2) sub(2) 1 2] by blast
  have "M + table_refs (e # t) = M + entry_refs e + table_refs t" by (simp add: table_refs_def add.assoc)
  then show ?case using st1 st2 objs_le_trans [OF st1(3) st2(3)] by (auto simp: add.assoc)
qed

lemma fd_inv_new:
  assumes inv: "fd_inv base pins st" and f: "fstore st f = None" "heap_place f" "pins f = 0" and ok: "files_ok s" "refcount s = 1" "list_all (kind_ok st') (fd_table s)"
    and c: "proc_files st c = None \<or> proc_files st c = Some 0" and le: "objs_le st st'"
    and fs: "fstore st' = (fstore st)(f \<mapsto> s)" and p: "proc_files st' = (proc_files st)(c \<mapsto> f)"
    and M: "obj_inv base (store_refs (fstore st) + table_refs (fd_table s)) st'"
  shows "fd_inv base pins st'"
proof -
  have fin: "finite (dom (fstore st))" "finite (dom (proc_files st))" using inv by (simp_all add: fd_inv_def)
  have nz: "f \<noteq> 0" using f(2) heap_place_nz by simp
  have "{q. proc_files st' q = Some f} = {c}"
    using proc_table [OF inv _ nz] f(1) unfolding p by fastforce
  then have uf: "users f st' = 1" by (simp add: users_def)
  have ug: "users g st' = users g st" if "g \<noteq> f" "g \<noteq> 0" for g
  proof -
    have "{q. proc_files st' q = Some g} = {q. proc_files st q = Some g}" using that c unfolding p by auto
    then show ?thesis by (simp add: users_def)
  qed
  have 1: "heap_place g \<and> files_ok x \<and> refcount x = int (users g st') + int (pins g) \<and> list_all (kind_ok st') (fd_table x)"
    if g: "fstore st' g = Some x" for g x
  proof (cases "g = f")
    case True
    then show ?thesis using g fs ok f uf by simp
  next
    case False
    then have old: "fstore st g = Some x" using g fs by simp
    note d = fd_invD [OF inv this]
    show ?thesis using d ug [OF False heap_place_nz [OF d(1)]] kind_ok_le [OF le] by (auto simp: list_all_iff)
  qed
  have 2: "finite (dom (fstore st'))" "finite (dom (proc_files st'))" using fin fs p by simp_all
  have 3: "fstore st' g \<noteq> None" if "proc_files st' q = Some g" "g \<noteq> 0" for q g
    using that inv unfolding fs p fd_inv_def by (auto split: if_splits)
  have 4: "obj_inv base (store_refs (fstore st')) st'" using M store_refs_new [OF fin(1) f(1)] fs by simp
  show ?thesis unfolding fd_inv_def using 1 2 3 4 by blast
qed

lemma list_all_kind_le: "objs_le st st' \<Longrightarrow> list_all (kind_ok st) t \<Longrightarrow> list_all (kind_ok st') t"
  using kind_ok_le by (auto simp: list_all_iff)

lemma bind_simps [simp]:
  "kind_ok (process_files_bind c f st) = kind_ok st" "obj_inv base M (process_files_bind c f st) = obj_inv base M st"
  "objs_le st1 (process_files_bind c f st) = objs_le st1 st" "epolls (process_files_bind c f st) = epolls st" "fstore (process_files_bind c f st) = fstore st"
  by (simp_all add: process_files_bind_def fun_eq_iff kind_ok_def obj_inv_def objs_le_def)

lemma bind_procs: "proc_files st c = Some g \<Longrightarrow> proc_files (process_files_bind c f st) = (proc_files st)(c \<mapsto> f)"
  by (simp add: process_files_bind_def)

text \<open>\<open>a\<close> is where the allocator puts a new table: nowhere (0), or at a fresh place in the heap.\<close>

definition fresh_table :: "(nat \<Rightarrow> nat) \<Rightarrow> nat \<Rightarrow> fdk \<Rightarrow> bool" where
  "fresh_table pins a st \<longleftrightarrow> a = 0 \<or> fstore st a = None \<and> heap_place a \<and> pins a = 0"

lemma process_files_clone_run:
  assumes inv: "fd_inv base pins st" and p: "proc_files st p = Some f" and f: "fstore st f = Some s" and c: "proc_files st c = Some 0"
    and a: "a \<noteq> 0" "fresh_table pins a st"
  shows "\<exists>st'. process_files_clone slot a (Some c) (Some p) st = Done (Inr (), st') \<and> fd_inv base pins st' \<and> proc_files st' = (proc_files st)(c \<mapsto> a) \<and>
    fstore st' = (fstore st)(a \<mapsto> \<lparr>magic = IR0_FILES_MAGIC, refcount = 1, fd_table = fd_table s\<rparr>) \<and> epolls st' = epolls st"
proof -
  note d = fd_invD [OF inv f]
  have a': "fstore st a = None" "heap_place a" "pins a = 0" using a by (simp_all add: fresh_table_def)
  define n where "n = \<lparr>magic = IR0_FILES_MAGIC, refcount = 1, fd_table = fd_table s\<rparr>"
  define st1 where "st1 = st\<lparr>fstore := (fstore st)(a \<mapsto> n)\<rparr>"
  have o1: "obj_inv base (store_refs (fstore st)) st1" using d(6) unfolding st1_def obj_inv_def by simp
  have k1: "list_all (kind_ok st1) (fd_table s)" using d(4) unfolding st1_def list_all_iff kind_ok_def by simp
  have w: "list_all entry_wf (fd_table s)" using d(2) by (simp add: files_ok_def)
  obtain st2 where st2: "acquire_entries slot (fd_table s) st1 = Done st2" "obj_inv base (store_refs (fstore st) + table_refs (fd_table s)) st2"
      "objs_le st1 st2" "fstore st2 = fstore st1" "proc_files st2 = proc_files st1" "epolls st2 = epolls st1"
    using acquire_entries_inv [OF o1 subset_mset.order_refl store_refs_sub [OF d(5) f] k1 w] by blast
  have le: "objs_le st st2" using st2(3) by (simp add: objs_le_def st1_def)
  have pf: "proc_files st2 c = Some 0" using st2(5) c by (simp add: st1_def)
  have fin: "fd_inv base pins (process_files_bind c a st2)"
    by (rule fd_inv_new [where s = n, OF inv a' _ _ _ disjI2 [OF c]])
      (use d(2) le list_all_kind_le [OF st2(3) k1] pf st2(2,4,5) in
        \<open>simp_all add: bind_procs [OF pf] n_def files_ok_def st1_def\<close>)
  have ne: "f \<noteq> a" using f a' by auto
  have nz: "f \<noteq> 0" using heap_place_nz [OF d(1)] .
  have cr: "process_files_acquire_entries slot a st1 = Done (True, st2)" using a st2(1) by (simp add: process_files_acquire_entries_def st1_def n_def)
  have "process_files_clone slot a (Some c) (Some p) st = Done (Inr (), process_files_bind c a st2)"
    using p files_live [OF inv f] a(1) nz f ne cr by (simp add: process_files_clone_def files_create_def st1_def n_def)
  then show ?thesis using fin st2(4,5,6) bind_procs [OF pf] by (simp add: st1_def n_def)
qed

lemma process_files_clone_inv:
  assumes inv: "fd_inv base pins st" and p: "proc_files st p = Some f" and c: "proc_files st c = Some 0" and a: "fresh_table pins a st"
  shows "\<exists>r st'. process_files_clone slot a (Some c) (Some p) st = Done (r, st') \<and> fd_inv base pins st' \<and> dom (proc_files st') = dom (proc_files st)"
proof (cases "f = 0 \<or> a = 0")
  case True
  moreover have "f \<noteq> 0 \<Longrightarrow> files_struct_live f st = Done True" using files_live [OF inv] proc_table [OF inv p] by metis
  ultimately show ?thesis using inv p by (cases "f = 0") (auto simp: process_files_clone_def files_create_def)
next
  case False
  then obtain s where f: "fstore st f = Some s" using proc_table [OF inv p] by blast
  then obtain st' where st': "process_files_clone slot a (Some c) (Some p) st = Done (Inr (), st')" "fd_inv base pins st'" "proc_files st' = (proc_files st)(c \<mapsto> a)"
    using process_files_clone_run [OF inv p f c _ a, of slot] False by blast
  then show ?thesis using c by auto
qed

text \<open>A pinned table keeps its count when the pin turns into a user.\<close>

lemma bind_pinned:
  assumes inv: "fd_inv base (pins(f := Suc (pins f))) st" and f: "fstore st f = Some s" and c: "proc_files st c = Some 0"
  shows "fd_inv base pins (process_files_bind c f st)" (is "fd_inv _ _ ?st")
proof -
  have p: "proc_files ?st = (proc_files st)(c \<mapsto> f)" by (rule bind_procs [OF c])
  have nz: "f \<noteq> 0" using heap_place_nz [OF fd_invD(1) [OF inv f]] .
  have "{q. proc_files ?st q = Some f} = insert c {q. proc_files st q = Some f}" using p by auto
  then have uf: "users f ?st = Suc (users f st)" using finite_bound_procs [OF inv, of f] c nz by (simp add: users_def card_insert_if)
  have ug: "users g ?st = users g st" if "g \<noteq> f" "g \<noteq> 0" for g
  proof -
    have "{q. proc_files ?st q = Some g} = {q. proc_files st q = Some g}" using that c p by auto
    then show ?thesis by (simp add: users_def)
  qed
  have 1: "heap_place g \<and> files_ok x \<and> refcount x = int (users g ?st) + int (pins g) \<and> list_all (kind_ok ?st) (fd_table x)"
    if g: "fstore ?st g = Some x" for g x
  proof -
    have "fstore st g = Some x" using g by simp
    note d = fd_invD [OF inv this]
    show ?thesis using d uf ug [of g] heap_place_nz [OF d(1)] by (cases "g = f") simp_all
  qed
  have 2: "finite (dom (fstore ?st))" "finite (dom (proc_files ?st))" "obj_inv base (store_refs (fstore ?st)) ?st" using inv p by (simp_all add: fd_inv_def)
  have 3: "fstore ?st g \<noteq> None" if "proc_files ?st q = Some g" "g \<noteq> 0" for q g
    using that f inv unfolding p fd_inv_def by (auto split: if_splits)
  show ?thesis unfolding fd_inv_def using 1 2 3 by blast
qed

lemma process_files_share_inv:
  assumes inv: "fd_inv base pins st" and p: "proc_files st p = Some f" and c: "proc_files st c = Some 0"
  shows "\<exists>r st'. process_files_share (Some c) (Some p) st = Done (r, st') \<and> fd_inv base pins st' \<and> dom (proc_files st') = dom (proc_files st)"
proof (cases "f = 0")
  case True
  then show ?thesis using inv p by (simp add: process_files_share_def)
next
  case False
  then obtain s where f: "fstore st f = Some s" using proc_table [OF inv p] by blast
  let ?st = "set_refcount f (refcount s + 1) st"
  have "fstore ?st f = Some (s\<lparr>refcount := refcount s + 1\<rparr>)" using f by simp
  then have "fd_inv base pins (process_files_bind c f ?st)"
    by (rule bind_pinned [OF files_get_pin(2) [OF inv f]]) (use c in simp)
  then show ?thesis
    using p c False files_live [OF inv f] files_get_pin(1) [OF inv f] bind_procs [of ?st c 0 f] by (auto simp: process_files_share_def)
qed

definition blank_slot :: "fd_entry \<Rightarrow> bool" where
  "blank_slot e \<longleftrightarrow> entry_wf e \<and> entry_refs e = {#} \<and> \<not> is_epoll e"

lemma init_entry_blank: "blank_slot (init_entry i e)"
  by (simp add: blank_slot_def init_entry_def entry_wf_def entry_refs_def Let_def)

lemma table_refs_blank: "list_all blank_slot t \<Longrightarrow> table_refs t = {#}"
  by (induction t) (simp_all add: table_refs_def blank_slot_def)

lemma kind_ok_blank: "blank_slot e \<Longrightarrow> kind_ok st e"
  by (auto simp: blank_slot_def entry_refs_def kind_ok_def split: if_splits)

lemma new_process_inv:
  assumes inv: "fd_inv base pins st" and p: "proc_files st p = None"
  shows "fd_inv base pins (st\<lparr>proc_files := (proc_files st)(p \<mapsto> 0)\<rparr>)" (is "fd_inv _ _ ?st")
proof -
  have u: "users g ?st = users g st" if "g \<noteq> 0" for g
  proof -
    have "{q. ((proc_files st)(p \<mapsto> 0)) q = Some g} = {q. proc_files st q = Some g}" using that p by auto
    then show ?thesis by (simp add: users_def)
  qed
  have k: "kind_ok ?st = kind_ok st" by (simp add: fun_eq_iff kind_ok_def)
  have 1: "heap_place g \<and> files_ok x \<and> refcount x = int (users g ?st) + int (pins g) \<and> list_all (kind_ok ?st) (fd_table x)" if "fstore st g = Some x" for g x
    using fd_invD [OF inv that] u [OF heap_place_nz [OF fd_invD(1) [OF inv that]]] k by simp
  have "obj_inv base (store_refs (fstore st)) ?st" using inv unfolding fd_inv_def obj_inv_def by simp
  then show ?thesis using inv 1 unfolding fd_inv_def by auto
qed

text \<open>A new process, whose field is NULL, gets a table with the three standard streams.\<close>

lemma process_init_fd_table_inv:
  assumes inv: "fd_inv base pins st" and p: "proc_files st p = None" and a: "fresh_table pins a st"
  shows "\<exists>st'. process_init_fd_table a (Some p) (st\<lparr>proc_files := (proc_files st)(p \<mapsto> 0)\<rparr>) = Done st' \<and> fd_inv base pins st' \<and> dom (proc_files st') = insert p (dom (proc_files st))"
proof (cases "a = 0")
  case True
  then show ?thesis using new_process_inv [OF inv p] by (auto simp: process_init_fd_table_def files_create_def process_files_bind_def)
next
  case False
  then have a': "fstore st a = None" "heap_place a" "pins a = 0" using a by (simp_all add: fresh_table_def)
  define t where "t = map (\<lambda>i. init_entry i (replicate MAX_FDS_PER_PROCESS entry_blank ! i)) [0..<MAX_FDS_PER_PROCESS]"
  define s where "s = \<lparr>magic = IR0_FILES_MAGIC, refcount = 1, fd_table = t\<rparr>"
  let ?st = "st\<lparr>proc_files := (proc_files st)(p \<mapsto> a), fstore := (fstore st)(a \<mapsto> s)\<rparr>"
  have t: "list_all blank_slot t" by (simp add: t_def list_all_iff init_entry_blank)
  have run: "process_init_fd_table a (Some p) (st\<lparr>proc_files := (proc_files st)(p \<mapsto> 0)\<rparr>) = Done ?st"
    using False by (simp add: process_init_fd_table_def files_create_def process_files_bind_def s_def t_def)
  have "fd_inv base pins ?st"
  proof (rule fd_inv_new [where s = s, OF inv a' _ _ _ disjI1 [OF p]])
    show "files_ok s" using t by (simp add: files_ok_def s_def list_all_iff blank_slot_def) (simp add: t_def)
    show "list_all (kind_ok ?st) (fd_table s)" using t by (auto simp: s_def list_all_iff kind_ok_blank)
    show "obj_inv base (store_refs (fstore st) + table_refs (fd_table s)) ?st"
      using inv table_refs_blank [OF t] unfolding fd_inv_def obj_inv_def s_def by simp
  qed (simp_all add: s_def objs_le_def)
  then show ?thesis using run by auto
qed

section \<open>The end of a process\<close>

lemma release_slots_inv:
  assumes "fd_inv base pins st" "fstore st f = Some s" "set is \<subseteq> {..<MAX_FDS_PER_PROCESS}"
  shows "\<exists>st' s'. release_slots slot f is st = Done st' \<and> fd_inv base pins st' \<and> proc_files st' = proc_files st \<and> fstore st' = (fstore st)(f \<mapsto> s') \<and>
    refcount s' = refcount s \<and> (\<forall>j. j \<in> set is \<or> \<not> in_use (fd_table s ! j) \<longrightarrow> \<not> in_use (fd_table s' ! j))"
  using assms
proof (induction "is" arbitrary: st s)
  case Nil
  then show ?case by (intro exI [of _ st] exI [of _ s]) (simp add: fun_upd_idem)
next
  case (Cons i "is")
  note inv = Cons.prems(1) and f = Cons.prems(2)
  have i: "i < MAX_FDS_PER_PROCESS" "set is \<subseteq> {..<MAX_FDS_PER_PROCESS}" using Cons.prems(3) by simp_all
  have len: "i < length (fd_table s)" using table_len [OF inv f] i by simp
  have sl: "slot_at f i st = Done (fd_table s ! i)" using f len by (simp add: slot_at_def)
  show ?case
  proof (cases "in_use (fd_table s ! i)")
    case False
    then show ?thesis using Cons.IH [OF inv f i(2)] sl by auto
  next
    case True
    let ?e = "fd_table s ! i"
    let ?st = "with_slot f s i (cleared ?e) (ref_put ?e st)" and ?s = "s\<lparr>fd_table := (fd_table s)[i := cleared ?e]\<rparr>"
    note t = slot_typed [OF inv f i(1) True]
    have w: "entry_wf (cleared ?e)" using slot_wf [OF inv f i(1)] by simp
    have inv1: "fd_inv base pins ?st" by (rule release_slot_inv [OF inv f i(1) True w]) simp
    have run: "release_slots slot f (i # is) st = release_slots slot f is ?st"
      using True sl release_entry_typed [OF t] set_slot_ok [of "ref_put ?e st" f s i "cleared ?e"] f len by simp
    have f1: "fstore ?st f = Some ?s" by simp
    obtain st' s' where r: "release_slots slot f is ?st = Done st'" "fd_inv base pins st'" "proc_files st' = proc_files ?st" "fstore st' = (fstore ?st)(f \<mapsto> s')"
        "refcount s' = refcount ?s" and z: "\<And>j. j \<in> set is \<or> \<not> in_use (fd_table ?s ! j) \<Longrightarrow> \<not> in_use (fd_table s' ! j)"
      using Cons.IH [OF inv1 f1 i(2)] by blast
    have "\<not> in_use (fd_table s' ! j)" if "j \<in> set (i # is) \<or> \<not> in_use (fd_table s ! j)" for j
      using z [of j] that len by (cases "j = i") auto
    moreover have "fstore st' = (fstore st)(f \<mapsto> s')" using r(4) by simp
    ultimately show ?thesis unfolding run using r(1-3,5) by (intro exI [of _ st'] exI [of _ s']) simp
  qed
qed

lemma fd_inv_unbind:
  assumes inv: "fd_inv base pins st" and p: "proc_files st p = Some f" and f: "fstore st f = Some s" and z: "refcount s = 1 \<Longrightarrow> table_refs (fd_table s) = {#}"
  shows "fd_inv base pins (st\<lparr>proc_files := (proc_files st)(p \<mapsto> 0), fstore := (fstore st)(f := if refcount s = 1 then None else Some (s\<lparr>refcount := refcount s - 1\<rparr>))\<rparr>)"
    (is "fd_inv _ _ ?st")
proof -
  note d = fd_invD [OF inv f]
  have nz: "f \<noteq> 0" using heap_place_nz [OF d(1)] .
  have "{q. proc_files ?st q = Some f} = {q. proc_files st q = Some f} - {p}" using nz by auto
  then have uf: "users f ?st = users f st - 1" using p finite_bound_procs [OF inv, of f] by (simp add: users_def)
  have us: "0 < users f st" by (rule users_pos [OF inv p])
  have ug: "users g ?st = users g st" if "g \<noteq> f" "g \<noteq> 0" for g
  proof -
    have "{q. proc_files ?st q = Some g} = {q. proc_files st q = Some g}" using that p by auto
    then show ?thesis by (simp add: users_def)
  qed
  have k: "kind_ok ?st = kind_ok st" by (simp add: fun_eq_iff kind_ok_def)
  have 1: "heap_place g \<and> files_ok x \<and> refcount x = int (users g ?st) + int (pins g) \<and> list_all (kind_ok ?st) (fd_table x)"
    if g: "fstore ?st g = Some x" for g x
  proof (cases "g = f")
    case True
    then have x: "refcount s \<noteq> 1" "x = s\<lparr>refcount := refcount s - 1\<rparr>" using g by (auto split: if_splits)
    then show ?thesis using True d(1-4) uf us k by (auto simp: files_ok_def)
  next
    case False
    then have "fstore st g = Some x" using g by simp
    note dg = fd_invD [OF inv this]
    show ?thesis using dg ug [OF False heap_place_nz [OF dg(1)]] k by simp
  qed
  have 2: "finite (dom (fstore ?st))" "finite (dom (proc_files ?st))" using inv by (auto simp: fd_inv_def)
  have 3: "fstore ?st g \<noteq> None" if g: "proc_files ?st q = Some g" "g \<noteq> 0" for q g
  proof -
    have old: "proc_files st q = Some g" "q \<noteq> p" using g by (auto split: if_splits)
    have "refcount s \<noteq> 1" if gf: "g = f"
    proof
      assume r: "refcount s = 1"
      have "{p, q} \<subseteq> {q. proc_files st q = Some f}" using old gf p by auto
      then have "card {p, q} \<le> users f st" using card_mono [OF finite_bound_procs [OF inv]] by (simp add: users_def)
      then show False using r d(3) old(2) by auto
    qed
    then show ?thesis using proc_table [OF inv old(1) g(2)] by auto
  qed
  have "store_refs (fstore ?st) = store_refs (fstore st)"
    using z store_refs_del [OF d(5) f] store_refs_upd [OF d(5) f, of "s\<lparr>refcount := refcount s - 1\<rparr>"] by auto
  then have 4: "obj_inv base (store_refs (fstore ?st)) ?st" using d(6) unfolding obj_inv_def by simp
  show ?thesis unfolding fd_inv_def using 1 2 3 4 by blast
qed

lemma files_put_run:
  assumes inv: "fd_inv base pins st" and f: "fstore st f = Some s"
  shows "files_put f st = Done (st\<lparr>fstore := (fstore st)(f := if refcount s = 1 then None else Some (s\<lparr>refcount := refcount s - 1\<rparr>))\<rparr>)"
  using fd_invD(1,2) [OF inv f] heap_place_nz [of f] f by (simp add: files_put_def files_live [OF inv f] files_ok_def Let_def)

lemma process_destroy_files_inv:
  assumes inv: "fd_inv base pins st" and p: "proc_files st p = Some f"
  shows "\<exists>st'. process_destroy_files slot p st = Done st' \<and> fd_inv base pins st' \<and> proc_files st' = (proc_files st)(p \<mapsto> 0)"
proof (cases "f = 0")
  case True
  then show ?thesis using inv p by (auto simp: process_destroy_files_def process_release_fds_def fun_upd_idem)
next
  case False
  then obtain s where f: "fstore st f = Some s" using proc_table [OF inv p] by blast
  obtain st1 s1 where st1: "process_release_fds slot (Some p) st = Done st1" "fd_inv base pins st1" "proc_files st1 = proc_files st" "fstore st1 f = Some s1"
      "refcount s1 = 1 \<Longrightarrow> table_refs (fd_table s1) = {#}"
  proof (cases "refcount s = 1")
    case one: True
    obtain st' s' where r: "release_slots slot f [0..<MAX_FDS_PER_PROCESS] st = Done st'" "fd_inv base pins st'" "proc_files st' = proc_files st"
        "fstore st' = (fstore st)(f \<mapsto> s')" and z: "\<And>j. j < MAX_FDS_PER_PROCESS \<Longrightarrow> \<not> in_use (fd_table s' ! j)"
      using release_slots_inv [OF inv f, of "[0..<MAX_FDS_PER_PROCESS]" slot] by (simp add: atLeast0LessThan) blast
    have "fstore st' f = Some s'" using r(4) by simp
    then have "length (fd_table s') = MAX_FDS_PER_PROCESS" "list_all entry_wf (fd_table s')"
      using fd_invD(2) [OF r(2)] by (simp_all add: files_ok_def)
    then have "list_all blank_slot (fd_table s')" using z free_not_epoll by (simp add: list_all_length blank_slot_def)
    then have "table_refs (fd_table s') = {#}" by (rule table_refs_blank)
    then show ?thesis using that [of st' s'] r p files_live [OF inv f] f one by (simp add: process_release_fds_def)
  next
    case no: False
    then show ?thesis using that [of st s] inv f p files_live [OF inv f] by (simp add: process_release_fds_def)
  qed
  have p1: "proc_files st1 p = Some f" using st1(3) p by simp
  have eq: "process_destroy_files slot p st =
      Done (st1\<lparr>proc_files := (proc_files st1)(p \<mapsto> 0), fstore := (fstore st1)(f := if refcount s1 = 1 then None else Some (s1\<lparr>refcount := refcount s1 - 1\<rparr>))\<rparr>)"
    using st1(1) p1 False files_put_run [OF st1(2,4)] by (simp add: process_destroy_files_def)
  show ?thesis using fd_inv_unbind [OF st1(2) p1 st1(4,5)] st1(3) unfolding eq by simp
qed

lemma close_cloexec_slots_inv:
  assumes "fd_inv base pins st" "proc_files st p = Some f" "f \<noteq> 0" "set is \<subseteq> {..<MAX_FDS_PER_PROCESS}"
  shows "\<exists>st'. close_cloexec_slots slot legacy p f is st = Done st' \<and> fd_inv base pins st' \<and> proc_files st' = proc_files st"
  using assms
proof (induction "is" arbitrary: st)
  case (Cons i "is")
  note inv = Cons.prems(1) and p = Cons.prems(2)
  obtain s where f: "fstore st f = Some s" using proc_table [OF inv p Cons.prems(3)] by blast
  have sl: "slot_at f i st = Done (fd_table s ! i)" using f table_len [OF inv f] Cons.prems(4) by (simp add: slot_at_def)
  have sub: "set is \<subseteq> {..<MAX_FDS_PER_PROCESS}" using Cons.prems(4) by simp
  obtain r st1 where st1: "sys_close slot legacy (Some p) (int i) st = Done (r, st1)" "fd_inv base pins st1" "proc_files st1 = proc_files st"
    using sys_close_inv [OF inv p] by blast
  have p1: "proc_files st1 p = Some f" using st1(3) p by simp
  show ?case
    using Cons.IH [OF inv p Cons.prems(3) sub] Cons.IH [OF st1(2) p1 Cons.prems(3) sub] st1 sl by (simp add: process_close_fd_def)
qed simp

lemma process_exec_close_cloexec_inv:
  assumes inv: "fd_inv base pins st" and p: "proc_files st p = Some f"
  shows "\<exists>st'. process_exec_close_cloexec slot legacy (Some p) st = Done st' \<and> fd_inv base pins st' \<and> proc_files st' = proc_files st"
proof (cases "f = 0")
  case True
  then show ?thesis using inv p by (simp add: process_exec_close_cloexec_def)
next
  case False
  then obtain s where f: "fstore st f = Some s" using proc_table [OF inv p] by blast
  show ?thesis
    using close_cloexec_slots_inv [OF inv p False, of "[3..<MAX_FDS_PER_PROCESS]" slot legacy] p files_live [OF inv f]
    by (simp add: process_exec_close_cloexec_def atLeastLessThan_subset_iff subset_iff)
qed

section \<open>New objects\<close>

lemma fresh_obj_kind:
  assumes inv: "fd_inv base pins st" and f: "fstore st f = Some s" and a: "objs st a = None" "epolls st a = None"
  shows "list_all (kind_ok (st\<lparr>objs := (objs st)(a \<mapsto> ob)\<rparr>)) (fd_table s)"
  unfolding list_all_length
proof (intro allI impI)
  fix i assume i: "i < length (fd_table s)"
  let ?e = "fd_table s ! i"
  show "kind_ok (st\<lparr>objs := (objs st)(a \<mapsto> ob)\<rparr>) ?e"
  proof (cases "in_use ?e \<and> vfs_file ?e = a \<and> a \<noteq> 0")
    case True
    then have "typed st ?e" using slot_typed [OF inv f] i table_len [OF inv f] by simp
    then show ?thesis using True a by (auto simp: typed_def split: if_splits)
  next
    case False
    then show ?thesis using fd_invD(4) [OF inv f] i by (auto simp: list_all_length kind_ok_def)
  qed
qed

lemma obj_inv_new:
  assumes inv: "obj_inv base M st" and a: "objs st a = None" "epolls st a = None" and ei: "end = 0 \<or> end = 1"
    and ob: "r0 ob + r1 ob = 1" "r1 ob = (if end = 1 then 1 else 0)"
  shows "obj_inv base (add_mset (RObj a end) M) (st\<lparr>objs := (objs st)(a \<mapsto> ob)\<rparr>)"
proof -
  have c: "count M (RObj a 0) = 0" "count M (RObj a 1) = 0" using obj_inv_at [OF inv, of a] a by (simp_all add: obj_at_def)
  have "obj_at (count (add_mset (RObj a end) M) (RObj b 0)) (count (add_mset (RObj a end) M) (RObj b 1)) (((objs st)(a \<mapsto> ob)) b)" for b
    using obj_inv_at [OF inv, of b] c ob ei by (cases "b = a") (auto simp: obj_at_def)
  moreover have "\<forall>b. epolls st b \<noteq> None \<longrightarrow> ((objs st)(a \<mapsto> ob)) b = None" using inv a by (auto simp: obj_inv_def)
  ultimately show ?thesis using inv by (simp add: obj_inv_def)
qed

text \<open>A slot with a new object; a device slot takes a reference of its node too.\<close>

lemma fd_inv_install:
  assumes inv: "fd_inv base pins st" and f: "fstore st f = Some s" and i: "i < MAX_FDS_PER_PROCESS" and u: "\<not> in_use (fd_table s ! i)"
    and a: "objs st a = None" "epolls st a = None" "vfs_file e = a" "a \<noteq> 0"
    and e: "entry_wf e" "in_use e" "\<not> is_epoll e" and ob: "okind ob \<in> set (entry_kinds e)" "r0 ob + r1 ob = 1" "r1 ob = (if ref_end e = 1 then 1 else 0)"
    and st0: "st0 = (if is_devfs e then devfs_node_get (dev_device_id e) st else st)"
  shows "fd_inv base pins (with_slot f s i e (st0\<lparr>objs := (objs st)(a \<mapsto> ob)\<rparr>))" (is "fd_inv _ _ ?st")
proof -
  note d = fd_invD [OF inv f]
  let ?s = "s\<lparr>fd_table := (fd_table s)[i := e]\<rparr>"
  let ?N = "if is_devfs e then add_mset (RNode (dev_device_id e)) (store_refs (fstore st)) else store_refs (fstore st)"
  have len: "i < length (fd_table s)" using table_len [OF inv f] i by simp
  have s0: "objs st0 = objs st" "epolls st0 = epolls st" "fstore st0 = fstore st" "proc_files st0 = proc_files st" by (simp_all add: st0)
  have fs: "fstore ?st = (fstore st)(f \<mapsto> ?s)" using s0 by simp
  have kd: "list_all (kind_ok ?st) (fd_table x)" if "fstore st g = Some x" for g x
    using fresh_obj_kind [OF inv that a(1,2)] kind_ok_objs [of ?st "st\<lparr>objs := (objs st)(a \<mapsto> ob)\<rparr>"] s0 by (simp add: list_all_iff)
  have ke: "kind_ok ?st e" using a ob e by (simp add: kind_ok_def)
  have k: "list_all (kind_ok ?st) (fd_table ?s)" using kd [OF f] ke by (auto simp: list_all_iff dest: set_update_subset_insert [THEN subsetD])
  have ok: "files_ok ?s" using d(2) e(1) len by (auto simp: files_ok_def list_all_iff dest: set_update_subset_insert [THEN subsetD])
  have refs: "entry_refs e = (if is_devfs e then {#RNode (dev_device_id e)#} else {#}) + {#RObj a (ref_end e)#}" using a e by (simp add: entry_refs_def)
  have "store_refs (fstore ?st) + table_refs (fd_table s) = add_mset (RObj a (ref_end e)) ?N + table_refs (fd_table s)"
    using store_refs_upd [OF d(5) f, of ?s] table_refs_update [OF len, of e] u refs fs by (simp add: ac_simps)
  then have M: "store_refs (fstore ?st) = add_mset (RObj a (ref_end e)) ?N" by simp
  have n: "obj_inv base ?N st0" using d(6) obj_inv_node_get by (simp add: st0)
  have "obj_inv base (store_refs (fstore ?st)) ?st"
    unfolding M using obj_inv_new [OF n _ _ ref_end_01 [OF e(1)] ob(2,3), of a] a s0 by simp
  then have "fd_inv base (pins(f := pins f)) ?st"
    by (intro fd_inv_change [OF inv f fs _ kd ok _ k]) (use d(3) s0 in simp_all)
  then show ?thesis by simp
qed

section \<open>Epoll sets, devices and positions\<close>

text \<open>Neither the use of an epoll set nor the position of a file matters to the references.\<close>

lemma fd_inv_same_refs:
  assumes inv: "fd_inv base pins st" and same: "fstore st' = fstore st" "proc_files st' = proc_files st" "dev_nodes st' = dev_nodes st"
    and ep: "dom (epolls st') = dom (epolls st)" and ob: "\<And>a. map_option (\<lambda>ob. (okind ob, r0 ob, r1 ob)) (objs st' a) = map_option (\<lambda>ob. (okind ob, r0 ob, r1 ob)) (objs st a)"
  shows "fd_inv base pins st'"
proof -
  have e: "epolls st' a = None \<longleftrightarrow> epolls st a = None" for a using ep by (metis domIff)
  have o: "objs st' a = None \<longleftrightarrow> objs st a = None" "obj_at n m (objs st' a) = obj_at n m (objs st a)"
    "(\<forall>x. objs st' a = Some x \<longrightarrow> okind x \<in> K) \<longleftrightarrow> (\<forall>x. objs st a = Some x \<longrightarrow> okind x \<in> K)" for a n m K
    using ob [of a] by (cases "objs st' a"; cases "objs st a"; simp add: obj_at_def)+
  have k: "kind_ok st' = kind_ok st" by (simp add: fun_eq_iff kind_ok_def e o)
  have u: "users g st' = users g st" for g by (simp add: users_def same)
  have "obj_inv base M st' = obj_inv base M st" for M by (simp add: obj_inv_def same o e)
  then show ?thesis using inv by (simp add: fd_inv_def same k u)
qed

lemma fd_inv_pos:
  "fd_inv base pins st \<Longrightarrow> objs st a = Some ob \<Longrightarrow> fd_inv base pins (st\<lparr>objs := (objs st)(a \<mapsto> ob\<lparr>opos := np\<rparr>)\<rparr>)"
  by (rule fd_inv_same_refs) auto

lemma epoll_slot_wf: "a \<noteq> 0 \<Longrightarrow> entry_wf (epoll_slot a)" "entry_refs (epoll_slot a) = {#}"
  by (simp_all add: epoll_slot_def entry_blank_def entry_wf_def entry_refs_def)

lemma sys_epoll_create1_inv:
  assumes inv: "fd_inv base pins st" and p: "proc_files st p = Some f" and g: "0 < g"
  shows "\<exists>r st'. sys_epoll_create1 g (Some p) flags st = Done (r, st') \<and> fd_inv base pins st' \<and> proc_files st' = proc_files st \<and> dom (epolls st') = dom (epolls st)"
proof (cases "find (\<lambda>i. epolls st (epoll_addr g i) = Some False) [0..<EPOLL_MAX_SLOTS]")
  case None
  then show ?thesis using inv by (simp add: sys_epoll_create1_def)
next
  case (Some k)
  let ?a = "epoll_addr g k" and ?st = "st\<lparr>epolls := (epolls st)(epoll_addr g k \<mapsto> True)\<rparr>"
  have a: "epolls st ?a = Some False" "?a \<noteq> 0" using Some g by (auto simp: find_Some_iff epoll_addr_def)
  then have dm: "dom (epolls ?st) = dom (epolls st)" by auto
  have inv1: "fd_inv base pins ?st" by (rule fd_inv_same_refs [OF inv]) (use dm in simp_all)
  show ?thesis
  proof (cases "f = 0")
    case True
    then show ?thesis using Some live_table [OF inv p] inv by (simp add: sys_epoll_create1_def)
  next
    case False
    then obtain s where f: "fstore st f = Some s" using proc_table [OF inv p] by blast
    have tab: "table_of f st = Done (Some (fd_table s))" using f False by (simp add: table_of_def)
    show ?thesis
    proof (cases rule: fd_alloc_lowest_cases [of "fd_table s" 3])
      case 1
      then show ?thesis using Some live_table [OF inv p] inv False tab by (simp add: sys_epoll_create1_def)
    next
      case i: (2 i)
      have f1: "fstore ?st f = Some s" using f by simp
      have t: "typed ?st (epoll_slot ?a)" using epoll_slot_wf a by (simp add: typed_def) (auto simp: epoll_slot_def entry_blank_def)
      have r: "ref_get (epoll_slot ?a) ?st = ?st" by (simp add: ref_get_def epoll_slot_def entry_blank_def)
      have "fd_inv base pins (with_slot f s i (epoll_slot ?a) ?st)"
        using acquire_slot_inv [OF inv1 f1 i(2,4) epoll_slot_wf(1) [OF a(2)] t] r by simp
      moreover have "sys_epoll_create1 g (Some p) flags st = Done (Inr (int i), with_slot f s i (epoll_slot ?a) ?st)"
        using Some live_table [OF inv p] False tab i(1,2) set_slot_ok [OF f1, of i] table_len [OF inv f] by (simp add: sys_epoll_create1_def Let_def)
      ultimately show ?thesis using dm by simp
    qed
  qed
qed

lemma dev_slot_wf: "entry_wf e \<Longrightarrow> \<not> in_use e \<Longrightarrow> entry_wf (dev_slot path i flags snap e)"
  by (simp add: entry_wf_def dev_slot_def)

lemma dev_slot_flags [simp]:
  "in_use (dev_slot path i flags snap e)" "is_devfs (dev_slot path i flags snap e)" "dev_device_id (dev_slot path i flags snap e) = i" "\<not> is_pipe (dev_slot path i flags snap e)"
  "is_epoll (dev_slot path i flags snap e) = is_epoll e" "is_socket (dev_slot path i flags snap e) = is_socket e"
  "vfs_file (dev_slot path i flags snap e) = (if devfs_node_wants_text_snap i then snap else 0)"
  by (simp_all add: dev_slot_def)

lemma dev_node_undo:
  "dev_nodes (devfs_close_node i (devfs_node_get i st)) = dev_nodes st" "devfs_close_node i (devfs_node_get i st) = st"
proof -
  show d: "dev_nodes (devfs_close_node i (devfs_node_get i st)) = dev_nodes st"
    by (auto simp: devfs_close_node_def devfs_node_get_def fun_upd_idem split: option.split)
  show "devfs_close_node i (devfs_node_get i st) = st"
    by (rule fdk.equality) (use d in simp_all)
qed

lemma devfs_open_inv:
  assumes inv: "fd_inv base pins st" and p: "proc_files st p = Some f" and a: "objs st snap = None" "epolls st snap = None"
  shows "\<exists>r st'. devfs_open_resolved_node opened snap node (Some p) path flags st = Done (r, st') \<and> fd_inv base pins st' \<and> proc_files st' = proc_files st"
proof (cases "node = None \<or> (\<exists>er. opened = Inl er)")
  case True
  then show ?thesis using inv by (auto simp: devfs_open_resolved_node_def devfs_open_node_def split: option.split sum.split)
next
  case False
  then obtain n x where n: "node = Some n" "opened = Inr x" by (cases opened) auto
  let ?st = "devfs_node_get n st"
  have live: "files_struct_live f ?st = files_struct_live f st" by (simp add: files_struct_live_def Let_def)
  have lt: "get_process_fd_table (Some p) ?st = Done f" using live_table [OF inv p] p live by (simp add: get_process_fd_table_def)
  show ?thesis
  proof (cases "f = 0")
    case True
    then show ?thesis using n lt inv by (simp add: devfs_open_resolved_node_def devfs_open_node_def devfs_bind_fd_slot_def dev_node_undo)
  next
    case nz: False
    then obtain s where f: "fstore st f = Some s" using proc_table [OF inv p] by blast
    have tab: "table_of f ?st = Done (Some (fd_table s))" using f nz by (simp add: table_of_def)
    show ?thesis
    proof (cases rule: fd_alloc_lowest_cases [of "fd_table s" 0])
      case 1
      then show ?thesis using n lt inv nz tab by (simp add: devfs_open_resolved_node_def devfs_open_node_def devfs_bind_fd_slot_def dev_node_undo)
    next
      case i: (2 i)
      let ?e = "dev_slot path n flags snap (fd_table s ! i)" and ?st2 = "devfs_text_snap_capture n snap ?st"
      have w: "entry_wf ?e" by (rule dev_slot_wf [OF slot_wf [OF inv f i(2)] i(4)])
      have ne: "\<not> is_epoll (fd_table s ! i)" "\<not> is_socket (fd_table s ! i)" using free_not_epoll [OF slot_wf [OF inv f i(2)] i(4)] entry_flags [OF w] by auto
      have f2: "fstore ?st2 f = Some s" using f by (simp add: devfs_text_snap_capture_def)
      have sl: "slot_at f i ?st = Done (fd_table s ! i)" using f i(2) table_len [OF inv f] by (simp add: slot_at_def)
      have run: "devfs_open_resolved_node opened snap node (Some p) path flags st = Done (Inr (int i), with_slot f s i ?e ?st2)"
        using n lt nz tab i(1,2) sl set_slot_ok [OF f2, of i ?e] table_len [OF inv f]
        by (simp add: devfs_open_resolved_node_def devfs_open_node_def devfs_bind_fd_slot_def)
      have "fd_inv base pins (with_slot f s i ?e ?st2)"
      proof (cases "vfs_file ?e = 0")
        case True
        have t: "typed st ?e" using w True ne by (simp add: typed_def)
        have "ref_get ?e st = ?st2" using True by (auto simp: ref_get_def Let_def devfs_text_snap_capture_def split: if_splits)
        then show ?thesis using acquire_slot_inv [OF inv f i(2,4) w t] by simp
      next
        case False
        then have sn: "devfs_node_wants_text_snap n" "snap \<noteq> 0" by (auto split: if_splits)
        have "fd_inv base pins (with_slot f s i ?e (?st\<lparr>objs := (objs st)(snap \<mapsto> \<lparr>okind = OSnap, r0 = 1, r1 = 0, opos = 0\<rparr>)\<rparr>))"
          by (rule fd_inv_install [OF inv f i(2,4) a]) (use w sn ne in \<open>simp_all add: entry_kinds_def ref_end_def\<close>)
        then show ?thesis using sn by (simp add: devfs_text_snap_capture_def)
      qed
      moreover have "proc_files ?st2 = proc_files st" by (simp add: devfs_text_snap_capture_def)
      ultimately show ?thesis using run by simp
    qed
  qed
qed

text \<open>Seeking.\<close>

lemma seek_slot_inv:
  assumes inv: "fd_inv base pins st" and p: "proc_files st p = Some f" and f: "fstore st f = Some s" and i: "i < MAX_FDS_PER_PROCESS"
  shows "\<exists>r st'. seek_slot f i (fd_table s ! i) pos (set_refcount f (refcount s + 1) st) = Done (r, st') \<and> fd_inv base pins st' \<and> proc_files st' = proc_files st"
proof (cases "\<exists>np. pos = Inr np \<and> 0 \<le> np")
  case False
  then show ?thesis using pinned_put [OF inv p f] inv by (auto simp: seek_slot_def split: sum.split)
next
  case True
  then obtain np where np: "pos = Inr np" "0 \<le> np" by blast
  have "\<exists>st2 st3. set_slot f i ((fd_table s ! i)\<lparr>offset := np\<rparr>) (set_refcount f (refcount s + 1) st) = Done st2 \<and> ir0_fd_put f st2 = Done st3 \<and> fd_inv base pins st3 \<and> proc_files st3 = proc_files st"
    by (rule pinned_update [OF inv p f i]) (use slot_wf [OF inv f i] in simp_all)
  then show ?thesis using np by (auto simp: seek_slot_def)
qed

lemma vfs_lseek_pinned:
  assumes "vfs_lseek fsize a off whence (set_refcount f n st) = Done (r, st')"
  obtains "st' = set_refcount f n st"
  | ob np where "objs st a = Some ob" "st' = set_refcount f n (st\<lparr>objs := (objs st)(a \<mapsto> ob\<lparr>opos := np\<rparr>)\<rparr>)"
proof -
  have c: "set_refcount f n st\<lparr>objs := x\<rparr> = set_refcount f n (st\<lparr>objs := x\<rparr>)" for x by (simp add: set_refcount_def split: option.split)
  show ?thesis using assms that
    by (auto simp: vfs_lseek_def vfs_file_at_def c split: if_splits option.splits sum.splits)
qed

lemma vfs_lseek_returns: "objs st a = Some ob \<Longrightarrow> okind ob = OVfs \<Longrightarrow> \<exists>r st'. vfs_lseek fsize a off whence st = Done (r, st')"
  by (simp add: vfs_lseek_def vfs_file_at_def split: sum.split)

text \<open>What \<^verbatim>\<open>lseek\<close> may safely be called on: a standard stream, a bind of a pseudo file system, a slot without an object, a file.\<close>

definition seekable :: "nat \<Rightarrow> int \<Rightarrow> fdk \<Rightarrow> bool" where
  "seekable f fd st \<longleftrightarrow>
     (\<forall>s. fstore st f = Some s \<longrightarrow> 2 < fd \<longrightarrow> nat fd < MAX_FDS_PER_PROCESS \<longrightarrow>
        \<not> in_use (fd_table s ! nat fd) \<or> is_pseudo (fd_table s ! nat fd) \<or> vfs_file (fd_table s ! nat fd) = 0 \<or> entry_kinds (fd_table s ! nat fd) = [OVfs])"

lemma seek_vfs:
  assumes ok: "ir0_fd_get (Some p) fd st = Done (Inr f, st1)" "slot_at f (nat fd) st1 = Done e" "2 < fd" "\<not> is_pseudo e" "vfs_file e \<noteq> 0"
  shows "sys_lseek fsize psize (Some p) fd off whence st = kbind (vfs_lseek fsize (vfs_file e) off whence st1) (\<lambda>(r, st2). seek_slot f (nat fd) e r st2)"
  using assms by (simp add: sys_lseek_def)

lemma sys_lseek_inv:
  assumes inv: "fd_inv base pins st" and p: "proc_files st p = Some f" and run: "sys_lseek fsize psize (Some p) fd off whence st = Done (r, st')"
  shows "fd_inv base pins st' \<and> proc_files st' = proc_files st"
  using inv p
proof (cases rule: fd_get_cases [where fd = fd])
  case (bad er)
  then show ?thesis using inv run by (simp add: sys_lseek_def)
next
  case (ok s)
  let ?e = "fd_table s ! nat fd" and ?st = "set_refcount f (refcount s + 1) st"
  have sl: "slot_at f (nat fd) ?st = Done ?e" by (rule pinned_slot [OF inv ok(3,2)])
  have sk: "seek_slot f (nat fd) ?e pos (set_refcount f (refcount s + 1) st0) = Done (r, st') \<Longrightarrow> fd_inv base pins st' \<and> proc_files st' = proc_files st"
    if "fd_inv base pins st0" "proc_files st0 = proc_files st" "fstore st0 = fstore st" for pos st0
    using seek_slot_inv [OF that(1) _ _ ok(2), of p f s pos] that p ok(3) by auto
  show ?thesis
  proof (cases "is_pseudo ?e \<or> fd \<le> 2 \<or> vfs_file ?e = 0")
    case True
    then show ?thesis using run ok(5) sl sk [OF inv refl refl] by (auto simp: sys_lseek_def split: if_splits option.splits)
  next
    case False
    have eq: "sys_lseek fsize psize (Some p) fd off whence st = kbind (vfs_lseek fsize (vfs_file ?e) off whence ?st) (\<lambda>(r, st2). seek_slot f (nat fd) ?e r st2)"
      by (rule seek_vfs [OF ok(5) sl]) (use False in simp_all)
    obtain r2 st2 where v: "vfs_lseek fsize (vfs_file ?e) off whence ?st = Done (r2, st2)" "seek_slot f (nat fd) ?e r2 st2 = Done (r, st')"
      using run unfolding eq by (cases "vfs_lseek fsize (vfs_file ?e) off whence ?st") auto
    from v(1) show ?thesis
    proof (cases rule: vfs_lseek_pinned)
      case 1
      then show ?thesis using sk [OF inv refl refl] v(2) by simp
    next
      case (2 ob np)
      then show ?thesis using sk [OF fd_inv_pos [OF inv 2(1)]] v(2) by simp
    qed
  qed
qed

lemma sys_lseek_returns:
  assumes inv: "fd_inv base pins st" and p: "proc_files st p = Some f" and sk: "seekable f fd st"
  shows "\<exists>r st'. sys_lseek fsize psize (Some p) fd off whence st = Done (r, st')"
  using inv p
proof (cases rule: fd_get_cases [where fd = fd])
  case (bad er)
  then show ?thesis by (simp add: sys_lseek_def)
next
  case (ok s)
  let ?e = "fd_table s ! nat fd" and ?st = "set_refcount f (refcount s + 1) st"
  have sl: "slot_at f (nat fd) ?st = Done ?e" by (rule pinned_slot [OF inv ok(3,2)])
  have ss: "\<exists>r st'. seek_slot f (nat fd) ?e pos (set_refcount f (refcount s + 1) st0) = Done (r, st')"
    if "fd_inv base pins st0" "proc_files st0 = proc_files st" "fstore st0 = fstore st" for pos st0
    using seek_slot_inv [OF that(1) _ _ ok(2), of p f s pos] that p ok(3) by auto
  show ?thesis
  proof (cases "is_pseudo ?e \<or> fd \<le> 2 \<or> vfs_file ?e = 0")
    case True
    then show ?thesis using ok(5) sl ss [OF inv refl refl] by (auto simp: sys_lseek_def split: option.split)
  next
    case False
    then have k: "entry_kinds ?e = [OVfs]" using sk ok by (auto simp: seekable_def)
    then have "\<not> is_epoll ?e" using entry_flags(1) [OF slot_wf [OF inv ok(3,2)]] by (auto simp: entry_kinds_def)
    then obtain ob where ob: "objs st (vfs_file ?e) = Some ob" "okind ob = OVfs"
      using slot_typed [OF inv ok(3,2,4)] False k by (auto simp: typed_def)
    have eq: "sys_lseek fsize psize (Some p) fd off whence st = kbind (vfs_lseek fsize (vfs_file ?e) off whence ?st) (\<lambda>(r, st2). seek_slot f (nat fd) ?e r st2)"
      by (rule seek_vfs [OF ok(5) sl]) (use False in simp_all)
    obtain r2 st2 where v: "vfs_lseek fsize (vfs_file ?e) off whence ?st = Done (r2, st2)"
      using vfs_lseek_returns [of ?st "vfs_file ?e" ob fsize off whence] ob by auto
    then show ?thesis
    proof (cases rule: vfs_lseek_pinned)
      case 1
      then show ?thesis unfolding eq v using ss [OF inv refl refl] by simp
    next
      case (2 ob np)
      then show ?thesis unfolding eq v using ss [OF fd_inv_pos [OF inv 2(1)]] by simp
    qed
  qed
qed

end
