(* ===== verification/Fd_Calls.thy ===== *)
theory Fd_Calls
  imports Fd_Refs
begin

text \<open>
  What the descriptor calls do as a whole: the transition system of processes that create, share, duplicate,
  close and inherit descriptors, the safety of every call on its reachable states, what \<^verbatim>\<open>dup2\<close>, \<^verbatim>\<open>close\<close>, \<^verbatim>\<open>fork\<close>,
  \<^verbatim>\<open>exec\<close> and \<^verbatim>\<open>pipe\<close> do to the table, and the cases the code gets wrong.
\<close>

section \<open>Pipes\<close>

lemma pipe_slot_wf: "entry_wf e \<Longrightarrow> \<not> in_use e \<Longrightarrow> a \<noteq> 0 \<Longrightarrow> end = 0 \<or> end = 1 \<Longrightarrow> entry_wf (pipe_slot end fl cl a e)"
  by (simp add: pipe_slot_def entry_wf_def)

lemma pipe_slot_facts [simp]:
  "in_use (pipe_slot end fl cl a e)" "vfs_file (pipe_slot end fl cl a e) = a" "is_pipe (pipe_slot end fl cl a e)"
  "pipe_end (pipe_slot end fl cl a e) = end" "is_devfs (pipe_slot end fl cl a e) = is_devfs e" "is_epoll (pipe_slot end fl cl a e) = is_epoll e" "ref_end (pipe_slot end fl cl a e) = end"
  by (simp_all add: pipe_slot_def ref_end_def)

lemma pipe_undo_wf: "entry_wf e \<Longrightarrow> \<not> in_use e \<Longrightarrow> entry_wf (pipe_slot_undo (pipe_slot end fl cl a e)) \<and> \<not> in_use (pipe_slot_undo (pipe_slot end fl cl a e))"
  by (simp add: pipe_slot_def pipe_slot_undo_def entry_wf_def)

definition pipe_state :: "nat \<Rightarrow> files_struct \<Rightarrow> nat \<Rightarrow> nat \<Rightarrow> fd_entry \<Rightarrow> fd_entry \<Rightarrow> fdk \<Rightarrow> fdk" where
  "pipe_state f s i j x y st = st\<lparr>fstore := (fstore st)(f \<mapsto> s\<lparr>fd_table := (fd_table s)[i := x, j := y]\<rparr>)\<rparr>"

lemma pipe_installed_inv:
  assumes inv: "fd_inv base pins st" and f: "fstore st f = Some s" and ij: "i < MAX_FDS_PER_PROCESS" "j < MAX_FDS_PER_PROCESS" "i \<noteq> j"
    and u: "\<not> in_use (fd_table s ! i)" "\<not> in_use (fd_table s ! j)" and a: "objs st a = None" "epolls st a = None" "a \<noteq> 0"
  shows "fd_inv base pins (pipe_state f s i j (pipe_slot 0 fr cl a (fd_table s ! i)) (pipe_slot 1 fw cl a (fd_table s ! j))
           (st\<lparr>objs := (objs st)(a \<mapsto> \<lparr>okind = OPipe, r0 = 1, r1 = 1, opos = 0\<rparr>)\<rparr>))"
proof -
  let ?x = "pipe_slot 0 fr cl a (fd_table s ! i)" and ?y = "pipe_slot 1 fw cl a (fd_table s ! j)"
  have len: "length (fd_table s) = MAX_FDS_PER_PROCESS" by (rule table_len [OF inv f])
  have w: "entry_wf ?x" "entry_wf ?y" "\<not> is_devfs (fd_table s ! i)" "\<not> is_devfs (fd_table s ! j)"
    "\<not> is_epoll (fd_table s ! i)" "\<not> is_epoll (fd_table s ! j)"
    using slot_wf [OF inv f ij(1)] slot_wf [OF inv f ij(2)] u a pipe_slot_wf by (auto simp: entry_wf_def)
  define sta where "sta = with_slot f s i ?x (st\<lparr>objs := (objs st)(a \<mapsto> \<lparr>okind = OPipe, r0 = 1, r1 = 0, opos = 0\<rparr>)\<rparr>)"
  define s1 where "s1 = s\<lparr>fd_table := (fd_table s)[i := ?x]\<rparr>"
  have inva: "fd_inv base pins sta"
    unfolding sta_def by (rule fd_inv_install [OF inv f ij(1) u(1) a(1,2)]) (use w a in \<open>simp_all add: entry_kinds_def\<close>)
  have fa: "fstore sta f = Some s1" by (simp add: sta_def s1_def)
  have uj: "\<not> in_use (fd_table s1 ! j)" using u(2) ij by (simp add: s1_def)
  have t: "typed sta ?y" using w by (simp add: typed_def sta_def entry_kinds_def)
  have "fd_inv base pins (with_slot f s1 j ?y (ref_get ?y sta))"
    by (rule acquire_slot_inv [OF inva fa ij(2) uj w(2) t]) simp_all
  moreover have "with_slot f s1 j ?y (ref_get ?y sta) = pipe_state f s i j ?x ?y (st\<lparr>objs := (objs st)(a \<mapsto> \<lparr>okind = OPipe, r0 = 1, r1 = 1, opos = 0\<rparr>)\<rparr>)"
    using w a by (simp add: ref_get_def Let_def sta_def s1_def with_slot_def pipe_state_def bump_def)
  ultimately show ?thesis by simp
qed

lemma pipe_undone_inv:
  assumes inv: "fd_inv base pins st" and f: "fstore st f = Some s" and ij: "i < MAX_FDS_PER_PROCESS" "j < MAX_FDS_PER_PROCESS" "i \<noteq> j"
    and u: "\<not> in_use (fd_table s ! i)" "\<not> in_use (fd_table s ! j)"
    and x: "entry_wf x" "\<not> in_use x" and y: "entry_wf y" "\<not> in_use y"
  shows "fd_inv base pins (pipe_state f s i j x y st)"
proof -
  have 1: "fd_inv base pins (with_slot f s i x st)" by (rule same_refs_inv [OF inv f ij(1) x(1)]) (use u x in simp_all)
  have "fd_inv base pins (with_slot f (s\<lparr>fd_table := (fd_table s)[i := x]\<rparr>) j y (with_slot f s i x st))"
    by (rule same_refs_inv [OF 1 _ ij(2) y(1)]) (use u y ij in simp_all)
  then show ?thesis by (simp add: pipe_state_def with_slot_def)
qed

lemma sys_pipe_install_run:
  assumes inv: "fd_inv base pins st" and p: "proc_files st p = Some f" and f: "fstore st f = Some s" and a: "objs st a = None" "a \<noteq> 0"
    and i: "fd_alloc_lowest (Some (fd_table s)) 3 = int i" "i < MAX_FDS_PER_PROCESS" "\<not> in_use (fd_table s ! i)"
    and j: "fd_alloc_lowest (Some ((fd_table s)[i := (fd_table s ! i)\<lparr>in_use := True\<rparr>])) (int i + 1) = int j" "j < MAX_FDS_PER_PROCESS" "i < j" "\<not> in_use (fd_table s ! j)"
    and ok: "pipefd \<noteq> 0" "flags AND NOT (O_NONBLOCK OR O_CLOEXEC) = 0"
  defines "nb \<equiv> if flags AND O_NONBLOCK \<noteq> 0 then O_NONBLOCK else 0" and "cl \<equiv> if flags AND O_CLOEXEC \<noteq> 0 then FD_CLOEXEC else 0"
  defines "x \<equiv> pipe_slot 0 (O_RDONLY OR nb) cl a (fd_table s ! i)" and "y \<equiv> pipe_slot 1 (O_WRONLY OR nb) cl a (fd_table s ! j)"
  shows "sys_pipe_install True a copied (Some p) pipefd flags st =
    (if copied then Done (Inr (int i, int j), pipe_state f s i j x y (st\<lparr>objs := (objs st)(a \<mapsto> \<lparr>okind = OPipe, r0 = 1, r1 = 1, opos = 0\<rparr>)\<rparr>))
     else Done (Inl EFAULT, pipe_state f s i j (pipe_slot_undo x) (pipe_slot_undo y) st))"
proof -
  let ?st1 = "st\<lparr>objs := (objs st)(a \<mapsto> \<lparr>okind = OPipe, r0 = 0, r1 = 0, opos = 0\<rparr>)\<rparr>"
  have len: "length (fd_table s) = MAX_FDS_PER_PROCESS" by (rule table_len [OF inv f])
  have nz: "f \<noteq> 0" using heap_place_nz [OF fd_invD(1) [OF inv f]] .
  have "files_struct_live f ?st1 = files_struct_live f st" by (simp add: files_struct_live_def Let_def)
  then have lt: "get_process_fd_table (Some p) ?st1 = Done f" using live_table [OF inv p] p by (simp add: get_process_fd_table_def)
  have tab: "table_of f ?st1 = Done (Some (fd_table s))" using f nz by (simp add: table_of_def)
  have undo: "(objs st)(a := None) = objs st" using a(1) by (simp add: fun_upd_idem)
  show ?thesis
    unfolding sys_pipe_install_def
    using ok a i j len f nz lt tab undo
    by (simp add: Let_def slot_at_def set_slot_def fd_pipe_acquire_end_def fd_pipe_close_end_def file_obj_acquire_def file_obj_release_def bump_def
        pipe_state_def x_def y_def nb_def cl_def list_update_swap cong: if_cong)
qed


lemma sys_pipe_install_inv:
  assumes inv: "fd_inv base pins st" and p: "proc_files st p = Some f" and a: "objs st a = None" "epolls st a = None"
  shows "\<exists>r st'. sys_pipe_install ok a copied (Some p) pipefd flags st = Done (r, st') \<and> fd_inv base pins st' \<and> proc_files st' = proc_files st"
proof (cases "pipefd = 0 \<or> \<not> ok \<or> flags AND NOT (O_NONBLOCK OR O_CLOEXEC) \<noteq> 0 \<or> a = 0")
  case True
  then show ?thesis using inv by (auto simp: sys_pipe_install_def)
next
  case g: False
  let ?st1 = "st\<lparr>objs := (objs st)(a \<mapsto> \<lparr>okind = OPipe, r0 = 0, r1 = 0, opos = 0\<rparr>)\<rparr>"
  have "files_struct_live f ?st1 = files_struct_live f st" by (simp add: files_struct_live_def Let_def)
  then have lt: "get_process_fd_table (Some p) ?st1 = Done f" using live_table [OF inv p] p by (simp add: get_process_fd_table_def)
  have undo: "(objs st)(a := None) = objs st" using a(1) by (simp add: fun_upd_idem)
  show ?thesis
  proof (cases "f = 0")
    case True
    then show ?thesis using g lt undo inv by (simp add: sys_pipe_install_def table_of_def fd_alloc_lowest_def)
  next
    case False
    then obtain s where f: "fstore st f = Some s" using proc_table [OF inv p] by blast
    have tab: "table_of f ?st1 = Done (Some (fd_table s))" using f False by (simp add: table_of_def)
    show ?thesis
    proof (cases rule: fd_alloc_lowest_cases [of "fd_table s" 3])
      case 1
      then show ?thesis using g lt tab undo inv by (simp add: sys_pipe_install_def)
    next
      case i: (2 i)
      let ?t = "(fd_table s)[i := (fd_table s ! i)\<lparr>in_use := True\<rparr>]"
      show ?thesis
      proof (cases rule: fd_alloc_lowest_cases [of ?t "int i + 1"])
        case 1
        then show ?thesis using g lt tab undo inv i(1) by (simp add: sys_pipe_install_def)
      next
        case j: (2 j)
        have ij: "i < j" using j(3) by simp
        have uj: "\<not> in_use (fd_table s ! j)" using j(4) ij by simp
        have w: "entry_wf (fd_table s ! i)" "entry_wf (fd_table s ! j)" using slot_wf [OF inv f] i(2) j(2) by simp_all
        note run = sys_pipe_install_run [OF inv p f a(1) _ i(1,2,4) j(1,2) ij uj, of pipefd flags copied]
        note ok1 = pipe_installed_inv [OF inv f i(2) j(2) _ i(4) uj a] and ok2 = pipe_undone_inv [OF inv f i(2) j(2) _ i(4) uj]
        show ?thesis using g run ok1 ok2 ij pipe_undo_wf [OF w(1) i(4)] pipe_undo_wf [OF w(2) uj]
          by (cases copied) (simp_all add: pipe_state_def)
      qed
    qed
  qed
qed

section \<open>Close on exec\<close>

definition cloexec :: "fd_entry \<Rightarrow> bool" where
  "cloexec e \<longleftrightarrow> in_use e \<and> fd_flags e AND 1 \<noteq> 0"

lemma close_cloexec_slots_run:
  assumes "fd_inv base pins st" "proc_files st p = Some f" "fstore st f = Some s" "set is \<subseteq> {..<MAX_FDS_PER_PROCESS}" "distinct is"
  shows "\<exists>st' s'. close_cloexec_slots slot legacy p f is st = Done st' \<and> fd_inv base pins st' \<and> proc_files st' = proc_files st \<and> fstore st' = (fstore st)(f \<mapsto> s') \<and>
    (\<forall>j. if j \<in> set is \<and> cloexec (fd_table s ! j) then \<not> in_use (fd_table s' ! j) else fd_table s' ! j = fd_table s ! j)"
  using assms
proof (induction "is" arbitrary: st s)
  case Nil
  then show ?case by (intro exI [of _ st] exI [of _ s]) (simp add: fun_upd_idem)
next
  case (Cons i "is")
  note inv = Cons.prems(1) and p = Cons.prems(2) and f = Cons.prems(3)
  have i: "i < MAX_FDS_PER_PROCESS" "set is \<subseteq> {..<MAX_FDS_PER_PROCESS}" "i \<notin> set is" "distinct is" using Cons.prems(4,5) by simp_all
  have len: "length (fd_table s) = MAX_FDS_PER_PROCESS" by (rule table_len [OF inv f])
  have sl: "slot_at f i st = Done (fd_table s ! i)" using f len i by (simp add: slot_at_def)
  show ?case
  proof (cases "cloexec (fd_table s ! i)")
    case False
    then have run: "close_cloexec_slots slot legacy p f (i # is) st = close_cloexec_slots slot legacy p f is st"
      using sl by (auto simp: cloexec_def)
    obtain st' s' where r: "close_cloexec_slots slot legacy p f is st = Done st'" "fd_inv base pins st'" "proc_files st' = proc_files st" "fstore st' = (fstore st)(f \<mapsto> s')"
        and z: "\<And>j. if j \<in> set is \<and> cloexec (fd_table s ! j) then \<not> in_use (fd_table s' ! j) else fd_table s' ! j = fd_table s ! j"
      using Cons.IH [OF inv p f i(2,4)] by blast
    have "if j \<in> set (i # is) \<and> cloexec (fd_table s ! j) then \<not> in_use (fd_table s' ! j) else fd_table s' ! j = fd_table s ! j" for j
      using z [of j] False by (cases "j = i") (auto split: if_splits)
    then show ?thesis unfolding run using r by blast
  next
    case True
    then have u: "in_use (fd_table s ! i)" by (simp add: cloexec_def)
    obtain st1 e' where c: "sys_close slot legacy (Some p) (int i) st = Done (Inr 0, st1)" "fd_inv base pins st1" "proc_files st1 = proc_files st"
        "fstore st1 = (fstore st)(f \<mapsto> s\<lparr>fd_table := (fd_table s)[i := e']\<rparr>)" "\<not> in_use e'"
      using sys_close_run [OF inv p f i(1) u, of slot legacy] by blast
    let ?s = "s\<lparr>fd_table := (fd_table s)[i := e']\<rparr>"
    have run: "close_cloexec_slots slot legacy p f (i # is) st = close_cloexec_slots slot legacy p f is st1"
      using sl True c(1) by (simp add: cloexec_def process_close_fd_def)
    have f1: "fstore st1 f = Some ?s" and p1: "proc_files st1 p = Some f" using c p by simp_all
    obtain st' s' where r: "close_cloexec_slots slot legacy p f is st1 = Done st'" "fd_inv base pins st'" "proc_files st' = proc_files st1" "fstore st' = (fstore st1)(f \<mapsto> s')"
        and z: "\<And>j. if j \<in> set is \<and> cloexec (fd_table ?s ! j) then \<not> in_use (fd_table s' ! j) else fd_table s' ! j = fd_table ?s ! j"
      using Cons.IH [OF c(2) p1 f1 i(2,4)] by blast
    have "if j \<in> set (i # is) \<and> cloexec (fd_table s ! j) then \<not> in_use (fd_table s' ! j) else fd_table s' ! j = fd_table s ! j" for j
      using z [of j] True i len c(5) by (cases "j = i") (auto split: if_splits)
    moreover have "fstore st' = (fstore st)(f \<mapsto> s')" "proc_files st' = proc_files st" using r c by simp_all
    ultimately show ?thesis unfolding run using r(1,2) by blast
  qed
qed

section \<open>The transition system\<close>

text \<open>
  \<open>slot\<close> and \<open>legacy\<close> are the parameters of the calls, \<open>nodes\<close> the registered device nodes with the references other
  parts of the kernel hold, \<open>g\<close> the address of the static table of epoll sets. \<open>open_new\<close> stands for the calls that
  create a counted object (files, sockets, eventfd, timerfd, memfd, binds of pseudo files): the object is fresh and the
  slot holds its only reference. Named pipes, whose object outlives its descriptors, and descriptors in flight over a
  local socket are left out.
\<close>

definition fd_boot :: "(nat \<rightharpoonup> nat) \<Rightarrow> nat \<Rightarrow> fdk" where
  "fd_boot nodes g = \<lparr>objs = Map.empty, dev_nodes = nodes, fstore = Map.empty, proc_files = Map.empty,
     epolls = map_of (map (\<lambda>i. (epoll_addr g i, False)) [0..<EPOLL_MAX_SLOTS])\<rparr>"

definition open_entry :: "nat \<Rightarrow> fobj \<Rightarrow> fd_entry \<Rightarrow> bool" where
  "open_entry a ob e \<longleftrightarrow> a \<noteq> 0 \<and> vfs_file e = a \<and> entry_wf e \<and> in_use e \<and> \<not> is_devfs e \<and> \<not> is_pipe e \<and> \<not> is_epoll e \<and> okind ob \<in> set (entry_kinds e) \<and> r0 ob = 1 \<and> r1 ob = 0"

inductive fd_reach :: "(nat \<Rightarrow> bool) \<Rightarrow> (int \<Rightarrow> int option) \<Rightarrow> (nat \<rightharpoonup> nat) \<Rightarrow> nat \<Rightarrow> fdk \<Rightarrow> bool" for slot legacy nodes g where
  boot: "0 < g \<Longrightarrow> fd_reach slot legacy nodes g (fd_boot nodes g)"
| create: "fd_reach slot legacy nodes g st \<Longrightarrow> proc_files st p = None \<Longrightarrow> fresh_table (\<lambda>_. 0) a st \<Longrightarrow>
    process_init_fd_table a (Some p) (st\<lparr>proc_files := (proc_files st)(p \<mapsto> 0)\<rparr>) = Done st' \<Longrightarrow> fd_reach slot legacy nodes g st'"
| fork: "fd_reach slot legacy nodes g st \<Longrightarrow> proc_files st p = Some f \<Longrightarrow> proc_files st c = None \<Longrightarrow> fresh_table (\<lambda>_. 0) a st \<Longrightarrow>
    process_duplicate_fd_table slot a (Some p) (Some c) (st\<lparr>proc_files := (proc_files st)(c \<mapsto> 0)\<rparr>) = Done (r, st') \<Longrightarrow> fd_reach slot legacy nodes g st'"
| clone: "fd_reach slot legacy nodes g st \<Longrightarrow> proc_files st p = Some f \<Longrightarrow> proc_files st c = None \<Longrightarrow>
    process_files_share (Some c) (Some p) (st\<lparr>proc_files := (proc_files st)(c \<mapsto> 0)\<rparr>) = Done (r2, st') \<Longrightarrow> fd_reach slot legacy nodes g st'"
| destroy: "fd_reach slot legacy nodes g st \<Longrightarrow> proc_files st p = Some f \<Longrightarrow> process_destroy_files slot p st = Done st' \<Longrightarrow> fd_reach slot legacy nodes g st'"
| exec: "fd_reach slot legacy nodes g st \<Longrightarrow> proc_files st p = Some f \<Longrightarrow> process_exec_close_cloexec slot legacy (Some p) st = Done st' \<Longrightarrow> fd_reach slot legacy nodes g st'"
| close: "fd_reach slot legacy nodes g st \<Longrightarrow> proc_files st p = Some f \<Longrightarrow> sys_close slot legacy (Some p) fd st = Done (r3, st') \<Longrightarrow> fd_reach slot legacy nodes g st'"
| dup2: "fd_reach slot legacy nodes g st \<Longrightarrow> proc_files st p = Some f \<Longrightarrow> sys_dup2 slot (Some p) fd fd2 st = Done (r3, st') \<Longrightarrow> fd_reach slot legacy nodes g st'"
| dup: "fd_reach slot legacy nodes g st \<Longrightarrow> proc_files st p = Some f \<Longrightarrow> sys_dup slot (Some p) fd st = Done (r3, st') \<Longrightarrow> fd_reach slot legacy nodes g st'"
| fcntl: "fd_reach slot legacy nodes g st \<Longrightarrow> proc_files st p = Some f \<Longrightarrow> sys_fcntl slot (Some p) fd cmd arg st = Done (r3, st') \<Longrightarrow> fd_reach slot legacy nodes g st'"
| pipe: "fd_reach slot legacy nodes g st \<Longrightarrow> proc_files st p = Some f \<Longrightarrow> objs st a = None \<Longrightarrow> epolls st a = None \<Longrightarrow>
    sys_pipe_install ok a copied (Some p) pipefd flags st = Done (r4, st') \<Longrightarrow> fd_reach slot legacy nodes g st'"
| open_new: "fd_reach slot legacy nodes g st \<Longrightarrow> fstore st f = Some s \<Longrightarrow> i < MAX_FDS_PER_PROCESS \<Longrightarrow> \<not> in_use (fd_table s ! i) \<Longrightarrow> objs st a = None \<Longrightarrow> epolls st a = None \<Longrightarrow> open_entry a ob e \<Longrightarrow>
    fd_reach slot legacy nodes g (st\<lparr>objs := (objs st)(a \<mapsto> ob), fstore := (fstore st)(f \<mapsto> s\<lparr>fd_table := (fd_table s)[i := e]\<rparr>)\<rparr>)"
| open_dev: "fd_reach slot legacy nodes g st \<Longrightarrow> proc_files st p = Some f \<Longrightarrow> objs st a = None \<Longrightarrow> epolls st a = None \<Longrightarrow>
    devfs_open_resolved_node opened a node (Some p) path flags st = Done (r3, st') \<Longrightarrow> fd_reach slot legacy nodes g st'"
| epoll_create: "fd_reach slot legacy nodes g st \<Longrightarrow> proc_files st p = Some f \<Longrightarrow> sys_epoll_create1 g (Some p) flags st = Done (r3, st') \<Longrightarrow> fd_reach slot legacy nodes g st'"
| lseek: "fd_reach slot legacy nodes g st \<Longrightarrow> proc_files st p = Some f \<Longrightarrow> sys_lseek fsize psize (Some p) fd off whence st = Done (r3, st') \<Longrightarrow> fd_reach slot legacy nodes g st'"

definition node_base :: "(nat \<rightharpoonup> nat) \<Rightarrow> nat \<Rightarrow> nat" where
  "node_base nodes i = (case nodes i of None \<Rightarrow> 0 | Some n \<Rightarrow> n)"

lemma boot_inv: "fd_inv (node_base nodes) (\<lambda>_. 0) (fd_boot nodes g)"
  by (simp add: fd_inv_def fd_boot_def obj_inv_def obj_at_def store_refs_def node_base_def)

lemma fd_reach_base: "fd_reach slot legacy nodes g st \<Longrightarrow> 0 < g"
  by (induction rule: fd_reach.induct) simp_all

lemma fd_reach_inv: "fd_reach slot legacy nodes g st \<Longrightarrow> fd_inv (node_base nodes) (\<lambda>_. 0) st"
proof (induction rule: fd_reach.induct)
  case boot
  show ?case by (rule boot_inv)
next
  case (create st p a st')
  then show ?case using process_init_fd_table_inv [OF create.IH create.hyps(2,3)] by auto
next
  case (fork st p f c a r st')
  let ?st = "st\<lparr>proc_files := (proc_files st)(c \<mapsto> 0)\<rparr>"
  have "proc_files ?st p = Some f" "proc_files ?st c = Some 0" "fresh_table (\<lambda>_. 0) a ?st" using fork.hyps by (auto simp: fresh_table_def)
  from process_files_clone_inv [OF new_process_inv [OF fork.IH fork.hyps(3)] this, of slot] show ?case
    using fork.hyps(5) by (auto simp: process_duplicate_fd_table_def)
next
  case (clone st p f c r2 st')
  let ?st = "st\<lparr>proc_files := (proc_files st)(c \<mapsto> 0)\<rparr>"
  have "proc_files ?st p = Some f" "proc_files ?st c = Some 0" using clone.hyps by auto
  from process_files_share_inv [OF new_process_inv [OF clone.IH clone.hyps(3)] this] show ?case using clone.hyps(4) by auto
next
  case (open_new st f s i a ob e)
  have "fd_inv (node_base nodes) (\<lambda>_. 0) (with_slot f s i e (st\<lparr>objs := (objs st)(a \<mapsto> ob)\<rparr>))"
    by (rule fd_inv_install [OF open_new.IH open_new.hyps(2-6)]) (use open_new.hyps(7) in \<open>simp_all add: open_entry_def ref_end_def\<close>)
  then show ?case by (simp add: with_slot_def)
next
  case (open_dev st p f a opened node path flags r3 st')
  then show ?case using devfs_open_inv [OF open_dev.IH open_dev.hyps(2-4), of opened node path flags] by simp
next
  case (epoll_create st p f flags r3 st')
  then show ?case using sys_epoll_create1_inv [OF epoll_create.IH epoll_create.hyps(2) fd_reach_base [OF epoll_create.hyps(1)], of flags] by simp
next
  case (lseek st p f fsize psize fd off whence r3 st')
  then show ?case using sys_lseek_inv [OF lseek.IH lseek.hyps(2,3)] by simp
next
  case (destroy st p f st')
  then show ?case using process_destroy_files_inv [OF destroy.IH destroy.hyps(2), of slot] by simp
next
  case (exec st p f st')
  then show ?case using process_exec_close_cloexec_inv [OF exec.IH exec.hyps(2), of slot legacy] by simp
next
  case (close st p f fd r3 st')
  then show ?case using sys_close_inv [OF close.IH close.hyps(2), of slot legacy fd] by simp
next
  case (dup2 st p f fd fd2 r3 st')
  then show ?case using sys_dup2_done [OF dup2.IH dup2.hyps(2,3)] by simp
next
  case (dup st p f fd r3 st')
  then show ?case using sys_dup_done [OF dup.IH dup.hyps(2,3)] by simp
next
  case (fcntl st p f fd cmd arg r3 st')
  then show ?case using sys_fcntl_done [OF fcntl.IH fcntl.hyps(2,3)] by simp
next
  case (pipe st p f a ok copied pipefd flags r4 st')
  then show ?case using sys_pipe_install_inv [OF pipe.IH pipe.hyps(2-4), of ok copied pipefd flags] by simp
qed

section \<open>Safety and exact counts\<close>

text \<open>How many slots of all tables point to an object.\<close>

definition holders :: "nat \<Rightarrow> fdk \<Rightarrow> nat" where
  "holders a st = (\<Sum>f\<in>dom (fstore st). length (filter (\<lambda>e. in_use e \<and> vfs_file e = a) (fd_table (the (fstore st f)))))"

lemma count_entry_refs:
  "entry_wf e \<Longrightarrow> kind_ok st e \<Longrightarrow> a \<noteq> 0 \<Longrightarrow> epolls st a = None \<Longrightarrow>
   count (entry_refs e) (RObj a 0) + count (entry_refs e) (RObj a 1) = (if in_use e \<and> vfs_file e = a then 1 else 0)"
  using ref_end_01 [of e] by (auto simp: entry_refs_def kind_ok_def)

lemma count_table_refs:
  "list_all entry_wf t \<Longrightarrow> list_all (kind_ok st) t \<Longrightarrow> a \<noteq> 0 \<Longrightarrow> epolls st a = None \<Longrightarrow>
   count (table_refs t) (RObj a 0) + count (table_refs t) (RObj a 1) = length (filter (\<lambda>e. in_use e \<and> vfs_file e = a) t)"
proof (induction t)
  case (Cons e t)
  have "count (table_refs (e # t)) x = count (entry_refs e) x + count (table_refs t) x" for x by (simp add: table_refs_def)
  then show ?case using Cons count_entry_refs [of e st a] by (simp split: if_splits)
qed (simp add: table_refs_def)

lemma count_store_refs:
  assumes inv: "fd_inv base pins st" and a: "a \<noteq> 0" "epolls st a = None"
  shows "count (store_refs (fstore st)) (RObj a 0) + count (store_refs (fstore st)) (RObj a 1) = holders a st"
proof -
  have "count (store_refs (fstore st)) x = (\<Sum>f\<in>dom (fstore st). count (table_refs (fd_table (the (fstore st f)))) x)" for x
    by (simp add: store_refs_def count_sum)
  moreover have "list_all entry_wf (fd_table (the (fstore st f)))" "list_all (kind_ok st) (fd_table (the (fstore st f)))" if "f \<in> dom (fstore st)" for f
    using that fd_invD(2,4) [OF inv] by (auto simp: files_ok_def)
  ultimately show ?thesis by (simp add: holders_def sum.distrib [symmetric] count_table_refs [OF _ _ a])
qed

text \<open>
  C8: Reference counts are exact in every reachable state. Take any address that is not one of the static epoll sets,
  which have no counts: an object exists there if and only if some slot of some table points to it, and then the sum of
  its two counters is the number of those slots. So nothing counted is freed while a descriptor still refers to it, and
  nothing is kept once the last one is gone. The states are those that the calls of \<open>fd_reach\<close> lead to, epoll
  descriptors, devices with text snapshots and seeks included; named pipes and descriptors in flight are left out.
\<close>

theorem object_counts_exact:
  assumes reach: "fd_reach slot legacy nodes g st" and a: "a \<noteq> 0" "epolls st a = None"
  shows "case objs st a of None \<Rightarrow> holders a st = 0 | Some ob \<Rightarrow> r0 ob + r1 ob = holders a st \<and> 0 < holders a st"
proof -
  note inv = fd_reach_inv [OF reach]
  then have "obj_inv (node_base nodes) (store_refs (fstore st)) st" by (simp add: fd_inv_def)
  from obj_inv_at [OF this, of a] count_store_refs [OF inv a] show ?thesis by (auto simp: obj_at_def split: option.splits)
qed

text \<open>
  C9: Which descriptor calls are safe in every reachable state, that is, return without reaching a freed table, a freed
  object or an object of another kind than the call takes it for, and without a count that underflows. \<^verbatim>\<open>close\<close>, the
  closing at exec, the end of a process, \<^verbatim>\<open>fork\<close>, \<^verbatim>\<open>clone\<close> with a shared table, \<^verbatim>\<open>pipe2\<close>, \<^verbatim>\<open>epoll_create1\<close> and
  opening a device always are; \<^verbatim>\<open>dup2\<close>, \<^verbatim>\<open>dup\<close> and \<^verbatim>\<open>fcntl\<close> are when no epoll descriptor is duplicated or overwritten;
  \<^verbatim>\<open>lseek\<close> is on a standard stream, a pseudo file, a slot without an object and a file. \<open>a\<close> and \<open>b\<close> are where the
  allocator puts a new object and a new table.
\<close>

theorem descriptor_calls_safe:
  assumes reach: "fd_reach slot legacy nodes g st" and p: "proc_files st p = Some f" and c: "proc_files st c = None"
    and a: "objs st a = None" "epolls st a = None" and b: "fresh_table (\<lambda>_. 0) b st"
  shows "(\<exists>r st'. sys_close slot legacy (Some p) fd st = Done (r, st')) \<and>
    (\<exists>st'. process_exec_close_cloexec slot legacy (Some p) st = Done st') \<and> (\<exists>st'. process_destroy_files slot p st = Done st') \<and>
    (\<exists>r st'. process_duplicate_fd_table slot b (Some p) (Some c) (st\<lparr>proc_files := (proc_files st)(c \<mapsto> 0)\<rparr>) = Done (r, st')) \<and>
    (\<exists>r st'. process_files_share (Some c) (Some p) (st\<lparr>proc_files := (proc_files st)(c \<mapsto> 0)\<rparr>) = Done (r, st')) \<and>
    (\<exists>r st'. sys_pipe_install ok a copied (Some p) pipefd flags st = Done (r, st')) \<and>
    (\<exists>r st'. sys_epoll_create1 g (Some p) flags st = Done (r, st')) \<and>
    (\<exists>r st'. devfs_open_resolved_node opened a node (Some p) path flags st = Done (r, st')) \<and>
    (\<not> epoll_at f fd st \<and> \<not> epoll_at f fd2 st \<longrightarrow> (\<exists>r st'. sys_dup2 slot (Some p) fd fd2 st = Done (r, st'))) \<and>
    (\<not> epoll_at f fd st \<longrightarrow> (\<exists>r st'. sys_dup slot (Some p) fd st = Done (r, st'))) \<and>
    (\<not> epoll_at f fd st \<or> cmd \<noteq> F_DUPFD \<longrightarrow> (\<exists>r st'. sys_fcntl slot (Some p) fd cmd arg st = Done (r, st'))) \<and>
    (seekable f fd st \<longrightarrow> (\<exists>r st'. sys_lseek fsize psize (Some p) fd off whence st = Done (r, st')))"
proof -
  note inv = fd_reach_inv [OF reach]
  let ?st = "st\<lparr>proc_files := (proc_files st)(c \<mapsto> 0)\<rparr>"
  note inv1 = new_process_inv [OF inv c]
  have h: "proc_files ?st p = Some f" "proc_files ?st c = Some 0" "fresh_table (\<lambda>_. 0) b ?st" using p c b by (auto simp: fresh_table_def)
  have 1: "\<exists>r st'. sys_close slot legacy (Some p) fd st = Done (r, st')" using sys_close_inv [OF inv p, of slot legacy fd] by blast
  have 2: "\<exists>st'. process_exec_close_cloexec slot legacy (Some p) st = Done st'" using process_exec_close_cloexec_inv [OF inv p, of slot legacy] by blast
  have 3: "\<exists>st'. process_destroy_files slot p st = Done st'" using process_destroy_files_inv [OF inv p, of slot] by blast
  have 4: "\<exists>r st'. process_duplicate_fd_table slot b (Some p) (Some c) ?st = Done (r, st')"
    using process_files_clone_inv [OF inv1 h, of slot] unfolding process_duplicate_fd_table_def by blast
  have 5: "\<exists>r st'. process_files_share (Some c) (Some p) ?st = Done (r, st')" using process_files_share_inv [OF inv1 h(1,2)] by blast
  have 6: "\<exists>r st'. sys_pipe_install ok a copied (Some p) pipefd flags st = Done (r, st')" using sys_pipe_install_inv [OF inv p a, of ok copied pipefd flags] by blast
  have 7: "\<exists>r st'. sys_epoll_create1 g (Some p) flags st = Done (r, st')" using sys_epoll_create1_inv [OF inv p fd_reach_base [OF reach], of flags] by blast
  have 8: "\<exists>r st'. devfs_open_resolved_node opened a node (Some p) path flags st = Done (r, st')" using devfs_open_inv [OF inv p a, of opened node path flags] by blast
  have 9: "\<not> epoll_at f fd st \<and> \<not> epoll_at f fd2 st \<longrightarrow> (\<exists>r st'. sys_dup2 slot (Some p) fd fd2 st = Done (r, st'))" using sys_dup2_inv [OF inv p, of fd fd2 slot] by blast
  have 10: "\<not> epoll_at f fd st \<longrightarrow> (\<exists>r st'. sys_dup slot (Some p) fd st = Done (r, st'))" using sys_dup_inv [OF inv p, of fd slot] by blast
  have 11: "\<not> epoll_at f fd st \<or> cmd \<noteq> F_DUPFD \<longrightarrow> (\<exists>r st'. sys_fcntl slot (Some p) fd cmd arg st = Done (r, st'))" using sys_fcntl_inv [OF inv p, of cmd fd slot arg] by blast
  have 12: "seekable f fd st \<longrightarrow> (\<exists>r st'. sys_lseek fsize psize (Some p) fd off whence st = Done (r, st'))" using sys_lseek_returns [OF inv p] by blast
  show ?thesis by (intro conjI 1 2 3 4 5 6 7 8 9 10 11 12)
qed

text \<open>
  Nothing leaks: when no process has a table any more, there is no table and no object left, and every device
  node has the count it had at the start.
\<close>

theorem descriptors_all_released:
  assumes reach: "fd_reach slot legacy nodes g st" and none: "\<And>p f. proc_files st p = Some f \<Longrightarrow> f = 0"
  shows "fstore st = Map.empty \<and> objs st = Map.empty \<and> (\<forall>i n. dev_nodes st i = Some n \<longrightarrow> n = node_base nodes i)"
proof -
  note inv = fd_reach_inv [OF reach]
  have "fstore st f = None" for f
  proof (rule ccontr)
    assume "fstore st f \<noteq> None"
    then obtain s where f: "fstore st f = Some s" by blast
    note d = fd_invD [OF inv f]
    have "{p. proc_files st p = Some f} = {}" using none heap_place_nz [OF d(1)] by blast
    then show False using d(2,3) by (simp add: users_def files_ok_def)
  qed
  then have m: "fstore st = Map.empty" by blast
  then have "obj_inv (node_base nodes) {#} st" using inv by (simp add: fd_inv_def store_refs_def)
  then show ?thesis using m by (auto simp: obj_inv_def obj_at_def fun_eq_iff split: option.splits)
qed

text \<open>
  C33: In every reachable state the pointer of a slot in use is what the flags of the slot say: for an epoll descriptor
  one of the sets of the static table (which may have been wiped by another holder), and for any other descriptor a live
  object of a kind that the flags allow.
\<close>

theorem slot_objects_typed:
  assumes reach: "fd_reach slot legacy nodes g st" and f: "fstore st f = Some s" and i: "i < MAX_FDS_PER_PROCESS"
    and u: "in_use (fd_table s ! i)" "vfs_file (fd_table s ! i) \<noteq> 0"
  shows "if is_epoll (fd_table s ! i) then epolls st (vfs_file (fd_table s ! i)) \<noteq> None
    else \<exists>ob. objs st (vfs_file (fd_table s ! i)) = Some ob \<and> okind ob \<in> set (entry_kinds (fd_table s ! i))"
  using slot_typed [OF fd_reach_inv [OF reach] f i u(1)] u(2) by (simp add: typed_def)

section \<open>What the calls do\<close>

text \<open>
  \<^verbatim>\<open>dup2\<close> between descriptors that are no epoll sets makes the new number refer to the same object, with the same flags
  and position and with close-on-exec cleared; it changes no other slot and no other table.
\<close>

theorem dup2_correct:
  assumes reach: "fd_reach slot legacy nodes g st" and p: "proc_files st p = Some f" and f: "fstore st f = Some s"
    and ij: "i < MAX_FDS_PER_PROCESS" "j < MAX_FDS_PER_PROCESS" "i \<noteq> j" and u: "in_use (fd_table s ! i)"
    and ne: "\<not> is_epoll (fd_table s ! i)" "\<not> is_epoll (fd_table s ! j)"
  shows "\<exists>st' e'. sys_dup2 slot (Some p) (int i) (int j) st = Done (Inr (int j), st') \<and>
    fstore st' = (fstore st)(f \<mapsto> s\<lparr>fd_table := (fd_table s)[j := e']\<rparr>) \<and> proc_files st' = proc_files st \<and>
    in_use e' \<and> fd_flags e' = 0 \<and> vfs_file e' = vfs_file (fd_table s ! i) \<and> fflags e' = fflags (fd_table s ! i) \<and>
    offset e' = offset (fd_table s ! i) \<and> pipe_end e' = pipe_end (fd_table s ! i) \<and> entry_kinds e' = entry_kinds (fd_table s ! i)"
proof -
  note inv = fd_reach_inv [OF reach]
  let ?e = "fd_table s ! i"
  let ?e' = "dup2_copy ?e (dup2_target (fd_table s ! j))"
  have w: "entry_wf ?e" by (rule slot_wf [OF inv f ij(1)])
  have "fstore (dup2_result f s i j st) = (fstore st)(f \<mapsto> s\<lparr>fd_table := (fd_table s)[j := ?e']\<rparr>)" by (simp add: dup2_result_def Let_def)
  moreover have "fd_flags ?e' = 0" "fflags ?e' = fflags ?e" "offset ?e' = offset ?e" by (simp_all add: dup2_copy_def)
  ultimately show ?thesis
    using dup2_run(1) [OF inv p f ij u ne] dup2_copy_vfs [OF w] dup2_copy_flags dup2_copy_kinds [of "dup2_target (fd_table s ! j)" ?e] dup2_target_ok(2) [OF ne(2)] ne(1)
    by (intro exI [of _ "dup2_result f s i j st"] exI [of _ ?e']) simp
qed

text \<open>
  \<^verbatim>\<open>exec\<close> closes exactly the descriptors from 3 on that have the close-on-exec flag; the others, and the standard
  streams, stay as they are.
\<close>

theorem exec_closes_cloexec:
  assumes reach: "fd_reach slot legacy nodes g st" and p: "proc_files st p = Some f" and f: "fstore st f = Some s"
  shows "\<exists>st' s'. process_exec_close_cloexec slot legacy (Some p) st = Done st' \<and> fstore st' f = Some s' \<and>
    (\<forall>j<MAX_FDS_PER_PROCESS. if 3 \<le> j \<and> in_use (fd_table s ! j) \<and> fd_flags (fd_table s ! j) AND 1 \<noteq> 0
       then \<not> in_use (fd_table s' ! j) else fd_table s' ! j = fd_table s ! j)"
proof -
  note inv = fd_reach_inv [OF reach]
  have sub: "set [3..<MAX_FDS_PER_PROCESS] \<subseteq> {..<MAX_FDS_PER_PROCESS}" by auto
  obtain st' s' where r: "close_cloexec_slots slot legacy p f [3..<MAX_FDS_PER_PROCESS] st = Done st'" "fstore st' = (fstore st)(f \<mapsto> s')"
      and z: "\<And>j. if j \<in> set [3..<MAX_FDS_PER_PROCESS] \<and> cloexec (fd_table s ! j) then \<not> in_use (fd_table s' ! j) else fd_table s' ! j = fd_table s ! j"
    using close_cloexec_slots_run [OF inv p f sub distinct_upt, of slot legacy] by blast
  have run: "process_exec_close_cloexec slot legacy (Some p) st = Done st'"
    using r(1) p files_live [OF inv f] by (simp add: process_exec_close_cloexec_def)
  have "if 3 \<le> j \<and> in_use (fd_table s ! j) \<and> fd_flags (fd_table s ! j) AND 1 \<noteq> 0 then \<not> in_use (fd_table s' ! j) else fd_table s' ! j = fd_table s ! j"
    if "j < MAX_FDS_PER_PROCESS" for j
    using z [of j] that by (simp add: cloexec_def)
  then show ?thesis using run r(2) by (intro exI [of _ st'] exI [of _ s']) simp
qed

text \<open>
  A fork gives the child a table of its own with the same slots and leaves the parent's as it is. After it the
  two share every object, and each has its own references (epoll sets apart, which are shared without any).
\<close>

theorem fork_copies_descriptors:
  assumes reach: "fd_reach slot legacy nodes g st" and p: "proc_files st p = Some f" and f: "fstore st f = Some s" and c: "proc_files st c = None"
    and a: "a \<noteq> 0" "fresh_table (\<lambda>_. 0) a st"
  shows "\<exists>st' s'. process_duplicate_fd_table slot a (Some p) (Some c) (st\<lparr>proc_files := (proc_files st)(c \<mapsto> 0)\<rparr>) = Done (Inr (), st') \<and>
    proc_files st' = (proc_files st)(c \<mapsto> a) \<and> fstore st' = (fstore st)(a \<mapsto> s') \<and> fd_table s' = fd_table s \<and> refcount s' = 1 \<and>
    (\<forall>b. holders b st' = holders b st + length (filter (\<lambda>e. in_use e \<and> vfs_file e = b) (fd_table s)))"
proof -
  let ?st = "st\<lparr>proc_files := (proc_files st)(c \<mapsto> 0)\<rparr>"
  note inv = new_process_inv [OF fd_reach_inv [OF reach] c]
  have h: "proc_files ?st p = Some f" "fstore ?st f = Some s" "proc_files ?st c = Some 0" "fresh_table (\<lambda>_. 0) a ?st"
    using p f c a by (auto simp: fresh_table_def)
  obtain st' where st': "process_files_clone slot a (Some c) (Some p) ?st = Done (Inr (), st')" "proc_files st' = (proc_files ?st)(c \<mapsto> a)"
      "fstore st' = (fstore ?st)(a \<mapsto> \<lparr>magic = IR0_FILES_MAGIC, refcount = 1, fd_table = fd_table s\<rparr>)"
    using process_files_clone_run [OF inv h(1,2,3) a(1) h(4), of slot] by blast
  have fin: "finite (dom (fstore st))" and na: "fstore st a = None" using fd_reach_inv [OF reach] a by (simp_all add: fd_inv_def fresh_table_def)
  have "holders b st' = holders b st + length (filter (\<lambda>e. in_use e \<and> vfs_file e = b) (fd_table s))" for b
  proof -
    have "(\<Sum>g\<in>dom (fstore st). length (filter (\<lambda>e. in_use e \<and> vfs_file e = b) (fd_table (the (fstore st' g))))) = holders b st"
      unfolding holders_def by (rule sum.cong) (use st'(3) na in auto)
    then show ?thesis using fin na st'(3) by (simp add: holders_def domIff)
  qed
  then show ?thesis using st' by (auto simp: process_duplicate_fd_table_def)
qed

section \<open>A running example\<close>

text \<open>Process 1 with its standard streams, then with a close-on-exec pipe on 3 and 4.\<close>

definition demo_table :: "fd_entry list" where
  "demo_table = map (\<lambda>i. init_entry i entry_blank) [0..<MAX_FDS_PER_PROCESS]"

definition demo_files :: files_struct where
  "demo_files = \<lparr>magic = IR0_FILES_MAGIC, refcount = 1, fd_table = demo_table\<rparr>"

definition demo_one :: fdk where
  "demo_one = (fd_boot Map.empty 0x300000)\<lparr>fstore := [0x800000 \<mapsto> demo_files], proc_files := [1 \<mapsto> 0x800000]\<rparr>"

definition demo_pipe :: "int \<Rightarrow> fd_entry" where
  "demo_pipe end = pipe_slot end end 1 0x900000 (init_entry 3 entry_blank)"

definition demo_two :: fdk where
  "demo_two = pipe_state 0x800000 demo_files 3 4 (demo_pipe 0) (demo_pipe 1)
     (demo_one\<lparr>objs := [0x900000 \<mapsto> \<lparr>okind = OPipe, r0 = 1, r1 = 1, opos = 0\<rparr>]\<rparr>)"

lemma demo_nth: "i < MAX_FDS_PER_PROCESS \<Longrightarrow> demo_table ! i = init_entry i entry_blank"
  by (simp add: demo_table_def)

lemma demo_in_use: "i < MAX_FDS_PER_PROCESS \<Longrightarrow> in_use (demo_table ! i) \<longleftrightarrow> i < 3"
  by (auto simp: demo_nth init_entry_def entry_blank_def Let_def)

lemma demo_fresh: "heap_place 0x800000" "heap_place 0x880000"
  by (simp_all add: heap_place_def mm_kernel_heap_start_def mm_kernel_heap_size_def files_size_def)

lemma demo_table_init: "map (\<lambda>i. init_entry i (replicate MAX_FDS_PER_PROCESS entry_blank ! i)) [0..<MAX_FDS_PER_PROCESS] = demo_table"
  by (simp add: demo_table_def)

lemma demo_one_reach: "fd_reach (\<lambda>_. False) (\<lambda>_. None) Map.empty 0x300000 demo_one"
proof (rule fd_reach.create [OF fd_reach.boot [of "0x300000"], where p = 1 and a = "0x800000"])
  show "fresh_table (\<lambda>_. 0) 0x800000 (fd_boot Map.empty 0x300000)" using demo_fresh by (simp add: fresh_table_def fd_boot_def)
  show "process_init_fd_table 0x800000 (Some 1) (fd_boot Map.empty 0x300000\<lparr>proc_files := (proc_files (fd_boot Map.empty 0x300000))(1 \<mapsto> 0)\<rparr>) = Done demo_one"
    by (simp add: process_init_fd_table_def files_create_def process_files_bind_def fd_boot_def demo_one_def demo_files_def demo_table_init)
qed (simp_all add: fd_boot_def)

lemma demo_epolls [simp]: "epolls (fd_boot nodes g) = map_of (map (\<lambda>i. (epoll_addr g i, False)) [0..<EPOLL_MAX_SLOTS])"
  by (simp add: fd_boot_def)

lemma demo_sets:
  "map_of (map (\<lambda>i. (epoll_addr 0x300000 i, False)) [0..<EPOLL_MAX_SLOTS]) 0x900000 = None"
  "map_of (map (\<lambda>i. (epoll_addr 0x300000 i, False)) [0..<EPOLL_MAX_SLOTS]) 0x300000 = Some False"
  "map_of (map (\<lambda>i. (epoll_addr 0x300000 i, False)) [0..<EPOLL_MAX_SLOTS]) 0xA00000 = None"
  by (simp_all add: EPOLL_MAX_SLOTS_def upt_rec epoll_addr_def)

lemma demo_find:
  "fd_alloc_lowest (Some demo_table) 3 = 3" "fd_alloc_lowest (Some (demo_table[3 := (demo_table ! 3)\<lparr>in_use := True\<rparr>])) 4 = 4"
  using demo_in_use [of 3] demo_in_use [of 4] by (simp_all add: fd_alloc_lowest_def MAX_FDS_PER_PROCESS_def upt_rec)

lemma demo_two_reach: "fd_reach (\<lambda>_. False) (\<lambda>_. None) Map.empty 0x300000 demo_two"
proof (rule fd_reach.pipe [OF demo_one_reach, where p = 1 and f = "0x800000" and a = "0x900000" and ok = True and copied = True and pipefd = 1 and flags = O_CLOEXEC])
  note inv = fd_reach_inv [OF demo_one_reach]
  have fl: "O_CLOEXEC AND NOT (O_NONBLOCK OR O_CLOEXEC) = 0" "O_CLOEXEC AND O_NONBLOCK = 0" "O_CLOEXEC AND O_CLOEXEC \<noteq> 0"
    by (simp_all add: O_CLOEXEC_def O_NONBLOCK_def)
  have tab: "fstore demo_one 0x800000 = Some demo_files" "proc_files demo_one 1 = Some 0x800000" "objs demo_one 0x900000 = None"
    by (simp_all add: demo_one_def fd_boot_def)
  have same: "demo_table ! 3 = init_entry 3 entry_blank" "demo_table ! 4 = init_entry 3 entry_blank" "\<not> in_use (demo_table ! 3)" "\<not> in_use (demo_table ! 4)"
    by (simp_all add: demo_nth MAX_FDS_PER_PROCESS_def init_entry_def entry_blank_def Let_def)
  have "sys_pipe_install True 0x900000 True (Some 1) 1 O_CLOEXEC demo_one =
      Done (Inr (int 3, int 4), pipe_state 0x800000 demo_files 3 4 (demo_pipe 0) (demo_pipe 1)
        (demo_one\<lparr>objs := (objs demo_one)(0x900000 \<mapsto> \<lparr>okind = OPipe, r0 = 1, r1 = 1, opos = 0\<rparr>)\<rparr>))"
    using sys_pipe_install_run [OF inv tab(2,1,3), of 3 4 1 O_CLOEXEC True] demo_find fl same
    by (simp add: demo_files_def MAX_FDS_PER_PROCESS_def demo_pipe_def O_RDONLY_def O_WRONLY_def FD_CLOEXEC_def)
  then show "sys_pipe_install True 0x900000 True (Some 1) 1 O_CLOEXEC demo_one = Done (Inr (int 3, int 4), demo_two)"
    by (simp add: demo_two_def demo_one_def fd_boot_def)
qed (simp_all add: demo_one_def demo_sets, simp add: fd_boot_def)

lemma demo_two_simps:
  "proc_files demo_two = [1 \<mapsto> 0x800000]" "objs demo_two = [0x900000 \<mapsto> \<lparr>okind = OPipe, r0 = 1, r1 = 1, opos = 0\<rparr>]"
  "fstore demo_two = [0x800000 \<mapsto> demo_files\<lparr>fd_table := demo_table[3 := demo_pipe 0, 4 := demo_pipe 1]\<rparr>]"
  "epolls demo_two = map_of (map (\<lambda>i. (epoll_addr 0x300000 i, False)) [0..<EPOLL_MAX_SLOTS])"
  by (simp_all add: demo_two_def pipe_state_def demo_one_def demo_files_def)

lemma demo_two_slots: "fd_table (demo_files\<lparr>fd_table := demo_table[3 := demo_pipe 0, 4 := demo_pipe 1]\<rparr>) ! 3 = demo_pipe 0"
  "fd_table (demo_files\<lparr>fd_table := demo_table[3 := demo_pipe 0, 4 := demo_pipe 1]\<rparr>) ! 4 = demo_pipe 1"
  by (simp_all add: demo_table_def MAX_FDS_PER_PROCESS_def)

text \<open>Witness of the exact counts: the pipe has two counters at one and two slots.\<close>

theorem object_counts_exact_witness: "holders 0x900000 demo_two = 2"
  using object_counts_exact [OF demo_two_reach, of "0x900000"] by (simp add: demo_two_simps demo_sets)

text \<open>Witness of safety: closing the read end, duplicating it, seeking on the standard input and leaving.\<close>

theorem descriptor_calls_safe_witness:
  "(\<exists>r st'. sys_close (\<lambda>_. False) (\<lambda>_. None) (Some 1) 3 demo_two = Done (r, st')) \<and> (\<exists>st'. process_destroy_files (\<lambda>_. False) 1 demo_two = Done st') \<and>
   (\<exists>r st'. sys_dup2 (\<lambda>_. False) (Some 1) 3 7 demo_two = Done (r, st')) \<and> (\<exists>r st'. sys_lseek (Inl ENOSYS) None (Some 1) 0 0 0 demo_two = Done (r, st'))"
proof -
  have p: "proc_files demo_two 1 = Some 0x800000" "proc_files demo_two 2 = None"
    by (simp_all add: demo_two_simps)
  have "objs demo_two 0xA00000 = None" "epolls demo_two 0xA00000 = None" "fresh_table (\<lambda>_. 0) 0x880000 demo_two"
    using demo_fresh demo_sets(3) by (simp_all add: demo_two_simps fresh_table_def)
  note safe = descriptor_calls_safe [OF demo_two_reach p this]
  have ne: "\<not> epoll_at 0x800000 3 demo_two" "\<not> epoll_at 0x800000 7 demo_two" "seekable 0x800000 0 demo_two"
    using demo_two_slots demo_nth [of 7]
    by (simp_all add: epoll_at_def seekable_def demo_two_simps demo_files_def demo_pipe_def pipe_slot_def init_entry_def entry_blank_def Let_def MAX_FDS_PER_PROCESS_def)
  show ?thesis
    using safe [of 3 True True 0 0 "Inr ()" None "[]" 7 0 0 "Inl ENOSYS" None 0 0] safe [of 0 True True 0 0 "Inr ()" None "[]" 7 0 0 "Inl ENOSYS" None 0 0] ne by blast
qed

text \<open>Witness of the release: when process 1 goes, so does the pipe.\<close>

theorem descriptors_all_released_witness:
  "\<exists>st'. process_destroy_files (\<lambda>_. False) 1 demo_two = Done st' \<and> fstore st' = Map.empty \<and> objs st' = Map.empty"
proof -
  have p: "proc_files demo_two 1 = Some 0x800000" by (simp add: demo_two_simps)
  obtain st' where st': "process_destroy_files (\<lambda>_. False) 1 demo_two = Done st'" "proc_files st' = (proc_files demo_two)(1 \<mapsto> 0)"
    using process_destroy_files_inv [OF fd_reach_inv [OF demo_two_reach] p] by blast
  have "fd_reach (\<lambda>_. False) (\<lambda>_. None) Map.empty 0x300000 st'" by (rule fd_reach.destroy [OF demo_two_reach p st'(1)])
  moreover have "f = 0" if "proc_files st' q = Some f" for q f using that st'(2) by (simp add: demo_two_simps split: if_splits)
  ultimately show ?thesis using descriptors_all_released [of "\<lambda>_. False" "\<lambda>_. None" Map.empty "0x300000" st'] st'(1) by blast
qed

text \<open>Witness of the typing: descriptor 3 points to the pipe.\<close>

theorem slot_objects_typed_witness: "\<exists>ob. objs demo_two 0x900000 = Some ob \<and> okind ob \<in> set (entry_kinds (demo_pipe 0))"
proof -
  have f: "fstore demo_two 0x800000 = Some (demo_files\<lparr>fd_table := demo_table[3 := demo_pipe 0, 4 := demo_pipe 1]\<rparr>)" by (simp add: demo_two_simps)
  have e: "in_use (demo_pipe 0)" "vfs_file (demo_pipe 0) = 0x900000" "\<not> is_epoll (demo_pipe 0)"
    by (simp_all add: demo_pipe_def init_entry_def entry_blank_def Let_def)
  show ?thesis using slot_objects_typed [OF demo_two_reach f, of 3] e
    by (simp only: demo_two_slots) (simp add: MAX_FDS_PER_PROCESS_def)
qed

text \<open>Witness of \<^verbatim>\<open>dup2\<close>: descriptor 7 becomes the write end of the pipe.\<close>

theorem dup2_correct_witness:
  "\<exists>st' e'. sys_dup2 (\<lambda>_. False) (Some 1) 4 7 demo_two = Done (Inr 7, st') \<and> vfs_file e' = 0x900000 \<and> fd_flags e' = 0 \<and>
    fstore st' 0x800000 = Some (demo_files\<lparr>fd_table := demo_table[3 := demo_pipe 0, 4 := demo_pipe 1, 7 := e']\<rparr>)"
proof -
  have f: "fstore demo_two 0x800000 = Some (demo_files\<lparr>fd_table := demo_table[3 := demo_pipe 0, 4 := demo_pipe 1]\<rparr>)"
    and p: "proc_files demo_two 1 = Some 0x800000" by (simp_all add: demo_two_simps)
  have u: "in_use (demo_pipe 1)" "vfs_file (demo_pipe 1) = 0x900000" "\<not> is_epoll (demo_pipe 1)"
    by (simp_all add: demo_pipe_def init_entry_def entry_blank_def Let_def)
  have n: "\<not> is_epoll (demo_table ! 7)" by (simp add: demo_nth MAX_FDS_PER_PROCESS_def init_entry_def Let_def)
  obtain st' e' where "sys_dup2 (\<lambda>_. False) (Some 1) (int 4) (int 7) demo_two = Done (Inr (int 7), st')" "vfs_file e' = vfs_file (demo_pipe 1)" "fd_flags e' = 0"
      "fstore st' = (fstore demo_two)(0x800000 \<mapsto> demo_files\<lparr>fd_table := demo_table[3 := demo_pipe 0, 4 := demo_pipe 1, 7 := e']\<rparr>)"
    using dup2_correct [OF demo_two_reach p f, of 4 7] demo_two_slots u n by (auto simp: MAX_FDS_PER_PROCESS_def)
  then show ?thesis using u by (intro exI [of _ st'] exI [of _ e']) simp
qed

text \<open>Witness of close-on-exec: both ends of the pipe are closed, the standard streams stay.\<close>

theorem exec_closes_cloexec_witness:
  "\<exists>st' s'. process_exec_close_cloexec (\<lambda>_. False) (\<lambda>_. None) (Some 1) demo_two = Done st' \<and> fstore st' 0x800000 = Some s' \<and>
     \<not> in_use (fd_table s' ! 3) \<and> in_use (fd_table s' ! 1)"
proof -
  define s where "s = demo_files\<lparr>fd_table := demo_table[3 := demo_pipe 0, 4 := demo_pipe 1]\<rparr>"
  have f: "fstore demo_two 0x800000 = Some s" and p: "proc_files demo_two 1 = Some 0x800000" by (simp_all add: demo_two_simps s_def)
  have u: "in_use (fd_table s ! 3)" "fd_flags (fd_table s ! 3) AND 1 \<noteq> 0" "in_use (fd_table s ! 1)"
    using demo_two_slots demo_in_use [of 1] by (simp_all add: s_def demo_pipe_def pipe_slot_def MAX_FDS_PER_PROCESS_def)
  obtain st' s' where r: "process_exec_close_cloexec (\<lambda>_. False) (\<lambda>_. None) (Some 1) demo_two = Done st'" "fstore st' 0x800000 = Some s'"
      "\<forall>j<MAX_FDS_PER_PROCESS. if 3 \<le> j \<and> in_use (fd_table s ! j) \<and> fd_flags (fd_table s ! j) AND 1 \<noteq> 0
         then \<not> in_use (fd_table s' ! j) else fd_table s' ! j = fd_table s ! j"
    using exec_closes_cloexec [OF demo_two_reach p f] by blast
  have "\<not> in_use (fd_table s' ! 3)" "in_use (fd_table s' ! 1)"
    using r(3) [rule_format, of 3] r(3) [rule_format, of 1] u by (simp_all add: MAX_FDS_PER_PROCESS_def)
  then show ?thesis using r(1,2) by blast
qed

text \<open>Witness of the copy: a child 2 with its table at another place.\<close>

theorem fork_copies_descriptors_witness:
  "\<exists>st'. process_duplicate_fd_table (\<lambda>_. False) 0x880000 (Some 1) (Some 2) (demo_two\<lparr>proc_files := (proc_files demo_two)(2 \<mapsto> 0)\<rparr>) = Done (Inr (), st') \<and>
     proc_files st' 2 = Some 0x880000"
proof -
  have f: "fstore demo_two 0x800000 = Some (demo_files\<lparr>fd_table := demo_table[3 := demo_pipe 0, 4 := demo_pipe 1]\<rparr>)"
    and p: "proc_files demo_two 1 = Some 0x800000" "proc_files demo_two 2 = None" by (simp_all add: demo_two_simps)
  have a: "fresh_table (\<lambda>_. 0) 0x880000 demo_two" using demo_fresh by (simp add: fresh_table_def demo_two_simps)
  show ?thesis using fork_copies_descriptors [OF demo_two_reach p(1) f p(2) _ a] by fastforce
qed

section \<open>Where the code goes wrong\<close>

text \<open>
  C34: \<^verbatim>\<open>lseek\<close> on a descriptor from 3 on hands whatever \<^verbatim>\<open>vfs_file\<close> points to to \<^verbatim>\<open>vfs_lseek\<close>, which takes it for a
  \<^verbatim>\<open>struct vfs_file\<close>. On a pipe, a socket, an eventfd, a timerfd, a memfd, an epoll set or a text snapshot the result
  is exactly this: with \<^verbatim>\<open>SEEK_CUR\<close>, \<^verbatim>\<open>SEEK_END\<close> or a \<^verbatim>\<open>SEEK_SET\<close> to an offset that is not negative it reads or writes a
  field of an object of another type; with any other argument it fails with \<^verbatim>\<open>EINVAL\<close> and changes nothing. (POSIX
  asks for \<^verbatim>\<open>ESPIPE\<close> on pipes and sockets.)
\<close>

theorem lseek_confuses_objects:
  assumes reach: "fd_reach slot legacy nodes g st" and p: "proc_files st p = Some f" and f: "fstore st f = Some s"
    and i: "2 < i" "i < MAX_FDS_PER_PROCESS" and u: "in_use (fd_table s ! i)" "vfs_file (fd_table s ! i) \<noteq> 0"
    and k: "OVfs \<notin> set (entry_kinds (fd_table s ! i))" "\<not> is_pseudo (fd_table s ! i)"
  shows "sys_lseek fsize psize (Some p) (int i) off whence st =
    (if whence = SEEK_CUR \<or> whence = SEEK_END \<or> whence = SEEK_SET \<and> 0 \<le> off then Stuck else Done (Inl EINVAL, st))"
proof -
  note inv = fd_reach_inv [OF reach]
  let ?e = "fd_table s ! i" and ?st = "set_refcount f (refcount s + 1) st"
  have at: "vfs_file_at (vfs_file ?e) ?st = Stuck"
  proof (cases "is_epoll ?e")
    case True
    then show ?thesis using epoll_slot_at(4) [OF inv f i(2)] by (simp add: vfs_file_at_def)
  next
    case False
    then obtain ob where "objs st (vfs_file ?e) = Some ob" "okind ob \<in> set (entry_kinds ?e)"
      using slot_typed [OF inv f i(2) u(1)] u(2) by (auto simp: typed_def)
    then show ?thesis using k by (auto simp: vfs_file_at_def)
  qed
  have nz: "f \<noteq> 0" by (rule heap_place_nz [OF fd_invD(1) [OF inv f]])
  have get: "ir0_fd_get (Some p) (int i) st = Done (Inr f, ?st)"
    using f u i table_len [OF inv f] p files_live [OF inv f] files_get_pin(1) [OF inv f] nz by (simp add: ir0_fd_get_def slot_at_def)
  have sl: "slot_at f (nat (int i)) ?st = Done ?e" using pinned_slot [OF inv f i(2)] by simp
  have eq: "sys_lseek fsize psize (Some p) (int i) off whence st =
      kbind (vfs_lseek fsize (vfs_file ?e) off whence ?st) (\<lambda>(r, st2). seek_slot f (nat (int i)) ?e r st2)"
    by (rule seek_vfs [OF get sl]) (use i k u in simp_all)
  have v: "vfs_lseek fsize (vfs_file ?e) off whence ?st =
      (if whence = SEEK_CUR \<or> whence = SEEK_END \<or> whence = SEEK_SET \<and> 0 \<le> off then Stuck else Done (Inl EINVAL, ?st))"
    using u(2) at by (auto simp: vfs_lseek_def SEEK_SET_def SEEK_CUR_def SEEK_END_def)
  show ?thesis unfolding eq v using pinned_put [OF inv p f] by (simp add: seek_slot_def)
qed

text \<open>Witness: a seek to the start, and one by an unknown mode, on the read end of the pipe.\<close>

theorem lseek_confuses_objects_witness:
  "sys_lseek (Inl ENOSYS) None (Some 1) 3 0 0 demo_two = Stuck \<and> sys_lseek (Inl ENOSYS) None (Some 1) 3 0 7 demo_two = Done (Inl EINVAL, demo_two)"
proof -
  have f: "fstore demo_two 0x800000 = Some (demo_files\<lparr>fd_table := demo_table[3 := demo_pipe 0, 4 := demo_pipe 1]\<rparr>)"
    and p: "proc_files demo_two 1 = Some 0x800000" by (simp_all add: demo_two_simps)
  have e: "\<not> is_pseudo (demo_pipe 0)" "entry_kinds (demo_pipe 0) = [OPipe]" "in_use (demo_pipe 0)" "vfs_file (demo_pipe 0) = 0x900000"
    by (simp_all add: demo_pipe_def pipe_slot_def init_entry_def entry_blank_def entry_kinds_def Let_def)
  then have "sys_lseek (Inl ENOSYS) None (Some 1) (int 3) 0 w demo_two = (if w = SEEK_CUR \<or> w = SEEK_END \<or> w = SEEK_SET \<and> 0 \<le> (0::int) then Stuck else Done (Inl EINVAL, demo_two))" for w
    by (intro lseek_confuses_objects [OF demo_two_reach p f]) (use demo_two_slots in \<open>simp_all add: MAX_FDS_PER_PROCESS_def\<close>)
  from this [of 0] this [of 7] show ?thesis by (simp add: SEEK_CUR_def SEEK_END_def SEEK_SET_def)
qed

text \<open>
  C35: Epoll sets are not counted. Whenever a process with an epoll descriptor forks, the child shares the set without
  any reference being taken; as soon as the child closes its copy the set is wiped and free for the next
  \<^verbatim>\<open>epoll_create1\<close>, while the descriptor of the parent is still in use and still points to it. And \<^verbatim>\<open>dup2\<close>, which does
  not know the kind at all, takes the set for a \<^verbatim>\<open>struct vfs_file\<close>, as the source and as the target.
\<close>

theorem epoll_sets_not_counted:
  assumes reach: "fd_reach slot legacy nodes g st" and p: "proc_files st p = Some f" and f: "fstore st f = Some s"
    and i: "i < MAX_FDS_PER_PROCESS" "is_epoll (fd_table s ! i)" and c: "proc_files st c = None" and a: "a \<noteq> 0" "fresh_table (\<lambda>_. 0) a st"
  shows "(\<exists>st1 st2. process_duplicate_fd_table slot a (Some p) (Some c) (st\<lparr>proc_files := (proc_files st)(c \<mapsto> 0)\<rparr>) = Done (Inr (), st1) \<and>
      epolls st1 = epolls st \<and> sys_close slot legacy (Some c) (int i) st1 = Done (Inr 0, st2) \<and>
      epolls st2 (vfs_file (fd_table s ! i)) = Some False \<and> proc_files st2 p = Some f \<and> fstore st2 f = Some s \<and> in_use (fd_table s ! i)) \<and>
    (\<forall>j<MAX_FDS_PER_PROCESS. j \<noteq> i \<longrightarrow> sys_dup2 slot (Some p) (int i) (int j) st = Stuck \<and>
      (in_use (fd_table s ! j) \<longrightarrow> sys_dup2 slot (Some p) (int j) (int i) st = Stuck))"
proof -
  let ?st = "st\<lparr>proc_files := (proc_files st)(c \<mapsto> 0)\<rparr>" and ?n = "\<lparr>magic = IR0_FILES_MAGIC, refcount = 1, fd_table = fd_table s\<rparr>"
  note inv0 = fd_reach_inv [OF reach]
  note inv = new_process_inv [OF inv0 c]
  note u = epoll_slot_at(1) [OF inv0 f i]
  have h: "proc_files ?st p = Some f" "fstore ?st f = Some s" "proc_files ?st c = Some 0" "fresh_table (\<lambda>_. 0) a ?st"
    using p f c a by (auto simp: fresh_table_def)
  obtain st1 where st1: "process_files_clone slot a (Some c) (Some p) ?st = Done (Inr (), st1)" "fd_inv (node_base nodes) (\<lambda>_. 0) st1"
      "proc_files st1 = (proc_files ?st)(c \<mapsto> a)" "fstore st1 = (fstore ?st)(a \<mapsto> ?n)" "epolls st1 = epolls ?st"
    using process_files_clone_run [OF inv h(1,2,3) a(1) h(4), of slot] by blast
  have c1: "proc_files st1 c = Some a" "fstore st1 a = Some ?n" using st1(3,4) by simp_all
  have u1: "in_use (fd_table ?n ! i)" using u by simp
  obtain st2 e' where st2: "sys_close slot legacy (Some c) (int i) st1 = Done (Inr 0, st2)" "proc_files st2 = proc_files st1"
      "fstore st2 = (fstore st1)(a \<mapsto> ?n\<lparr>fd_table := (fd_table ?n)[i := e']\<rparr>)"
      "epolls st2 = (if is_epoll (fd_table ?n ! i) then (epolls st1)(vfs_file (fd_table ?n ! i) \<mapsto> False) else epolls st1)"
    using sys_close_run [OF st1(2) c1 i(1) u1, of slot legacy] by blast
  have ne: "a \<noteq> f" "c \<noteq> p" using f a p c by (auto simp: fresh_table_def)
  have "epolls st2 (vfs_file (fd_table s ! i)) = Some False" using st2(4) i(2) by simp
  moreover have "proc_files st2 p = Some f" "fstore st2 f = Some s" using st2(2,3) st1(3,4) ne p f by simp_all
  ultimately have 1: "\<exists>st1 st2. process_duplicate_fd_table slot a (Some p) (Some c) ?st = Done (Inr (), st1) \<and>
      epolls st1 = epolls st \<and> sys_close slot legacy (Some c) (int i) st1 = Done (Inr 0, st2) \<and>
      epolls st2 (vfs_file (fd_table s ! i)) = Some False \<and> proc_files st2 p = Some f \<and> fstore st2 f = Some s \<and> in_use (fd_table s ! i)"
    using st1(1,5) st2(1) u by (intro exI [of _ st1] exI [of _ st2]) (simp add: process_duplicate_fd_table_def)
  have 2: "sys_dup2 slot (Some p) (int i) (int j) st = Stuck" if "j < MAX_FDS_PER_PROCESS" "j \<noteq> i" for j
    by (rule dup2_epoll_stuck [OF inv0 p f i(1)]) (use that u i in simp_all)
  have 3: "sys_dup2 slot (Some p) (int j) (int i) st = Stuck" if "j < MAX_FDS_PER_PROCESS" "j \<noteq> i" "in_use (fd_table s ! j)" for j
    by (rule dup2_epoll_stuck [OF inv0 p f _ i(1)]) (use that i in simp_all)
  show ?thesis using 1 2 3 by blast
qed

text \<open>Witness: process 1 calls \<^verbatim>\<open>epoll_create1\<close>, gets descriptor 3, forks a child 2 that closes it, and tries \<^verbatim>\<open>dup2(3, 5)\<close>.\<close>

definition demo_epoll :: fdk where
  "demo_epoll = with_slot 0x800000 demo_files 3 (epoll_slot 0x300000) (demo_one\<lparr>epolls := (epolls demo_one)(0x300000 \<mapsto> True)\<rparr>)"

lemma demo_epoll_reach: "fd_reach (\<lambda>_. False) (\<lambda>_. None) Map.empty 0x300000 demo_epoll"
proof (rule fd_reach.epoll_create [OF demo_one_reach, where p = 1 and f = "0x800000" and flags = 0])
  have h: "find (\<lambda>i. epolls demo_one (epoll_addr 0x300000 i) = Some False) [0..<EPOLL_MAX_SLOTS] = Some 0"
    using demo_sets(2) by (simp add: demo_one_def EPOLL_MAX_SLOTS_def upt_rec epoll_addr_def)
  have tab: "fstore demo_one 0x800000 = Some demo_files" "proc_files demo_one 1 = Some 0x800000" by (simp_all add: demo_one_def)
  have t: "table_of 0x800000 demo_one = Done (Some demo_table)" using tab by (simp add: table_of_def demo_files_def)
  have lt: "get_process_fd_table (Some 1) demo_one = Done 0x800000" by (rule live_table [OF fd_reach_inv [OF demo_one_reach] tab(2)])
  have l: "3 < length (fd_table demo_files)" by (simp add: demo_files_def demo_table_def MAX_FDS_PER_PROCESS_def)
  show "sys_epoll_create1 0x300000 (Some 1) 0 demo_one = Done (Inr 3, demo_epoll)"
    using h lt t demo_find(1) set_slot_ok [of "demo_one\<lparr>epolls := (epolls demo_one)(0x300000 \<mapsto> True)\<rparr>" "0x800000" demo_files 3] tab l
    by (simp add: sys_epoll_create1_def Let_def demo_epoll_def epoll_addr_def)
qed (simp add: demo_one_def)

theorem epoll_sets_not_counted_witness:
  "(\<exists>st1 st2. process_duplicate_fd_table (\<lambda>_. False) 0x880000 (Some 1) (Some 2) (demo_epoll\<lparr>proc_files := (proc_files demo_epoll)(2 \<mapsto> 0)\<rparr>) = Done (Inr (), st1) \<and>
      epolls st1 0x300000 = Some True \<and> sys_close (\<lambda>_. False) (\<lambda>_. None) (Some 2) 3 st1 = Done (Inr 0, st2) \<and> epolls st2 0x300000 = Some False) \<and>
   sys_dup2 (\<lambda>_. False) (Some 1) 3 5 demo_epoll = Stuck"
proof -
  define s where "s = demo_files\<lparr>fd_table := demo_table[3 := epoll_slot 0x300000]\<rparr>"
  have f: "fstore demo_epoll 0x800000 = Some s" and p: "proc_files demo_epoll 1 = Some 0x800000" "proc_files demo_epoll 2 = None"
    and e: "epolls demo_epoll 0x300000 = Some True"
    by (simp_all add: demo_epoll_def demo_one_def s_def demo_files_def)
  have sl: "fd_table s ! 3 = epoll_slot 0x300000" by (simp add: s_def demo_table_def MAX_FDS_PER_PROCESS_def)
  have ep: "is_epoll (epoll_slot 0x300000)" "vfs_file (epoll_slot 0x300000) = 0x300000" by (simp_all add: epoll_slot_def entry_blank_def)
  have a: "fresh_table (\<lambda>_. 0) 0x880000 demo_epoll" using demo_fresh by (simp add: fresh_table_def demo_epoll_def demo_one_def)
  have i: "3 < MAX_FDS_PER_PROCESS" "5 < MAX_FDS_PER_PROCESS" "(5::nat) \<noteq> 3" by (simp_all add: MAX_FDS_PER_PROCESS_def)
  have ie: "is_epoll (fd_table s ! 3)" using sl ep by simp
  have nz: "(0x880000::nat) \<noteq> 0" by simp
  note wiped = epoll_sets_not_counted [OF demo_epoll_reach p(1) f i(1) ie p(2) nz a]
  from conjunct1 [OF wiped] have "\<exists>st1 st2. process_duplicate_fd_table (\<lambda>_. False) 0x880000 (Some 1) (Some 2) (demo_epoll\<lparr>proc_files := (proc_files demo_epoll)(2 \<mapsto> 0)\<rparr>) = Done (Inr (), st1) \<and>
      epolls st1 0x300000 = Some True \<and> sys_close (\<lambda>_. False) (\<lambda>_. None) (Some 2) 3 st1 = Done (Inr 0, st2) \<and> epolls st2 0x300000 = Some False"
    using e by (elim exE conjE, intro exI conjI) (assumption | simp add: sl ep)+
  moreover have "sys_dup2 (\<lambda>_. False) (Some 1) 3 5 demo_epoll = Stuck"
    using conjunct2 [OF wiped, rule_format, OF i(2,3)] by simp
  ultimately show ?thesis by blast
qed

end
