(* ===== verification/Tmpfs.thy ===== *)
theory Tmpfs
  imports Path
begin

text \<open>
  The in-memory file system (\<^verbatim>\<open>fs/tmpfs.c\<close>). An instance has a fixed array of 128 inodes, here a function on the
  indices; a pointer to an inode is its index. An inode number 0 marks a free entry. The block behind \<^verbatim>\<open>data\<close> is the
  list of its bytes, so an access behind its end is \<^verbatim>\<open>Stuck\<close>; so is a walk along the siblings that does not end.
  Whether an allocation succeeds, the clock and the credentials of the caller are arguments.
\<close>

section \<open>State\<close>

record tmpfs_inode =
  ino :: u32
  imode :: u16
  iuid :: u32
  igid :: u32
  isize :: nat
  data_cap :: nat
  is_dir :: bool
  iname :: string
  idata :: "u8 list option"
  parent :: "nat option"
  children :: "nat option"
  sibling :: "nat option"
  mtime :: int

record tmpfs_data =
  root :: "nat option"
  inodes :: "nat \<Rightarrow> tmpfs_inode"
  next_ino :: u32
  total_size :: nat
  mount_point :: string

type_synonym tmpfs_instances = "tmpfs_data list"

type_synonym fs_cred = "(u32 \<times> u32 \<times> u32) option"

definition TMPFS_MAX_FILES :: nat where "TMPFS_MAX_FILES = 128"
definition TMPFS_MAX_FILE_SIZE :: nat where "TMPFS_MAX_FILE_SIZE = 65536"
definition TMPFS_MAX_NAME_LEN :: nat where "TMPFS_MAX_NAME_LEN = 255"
definition TMPFS_MAX_DIRS :: nat where "TMPFS_MAX_DIRS = 32"
definition S_IFREG :: u32 where "S_IFREG = 0x8000"
definition S_IFDIR :: u32 where "S_IFDIR = 0x4000"
definition DEFAULT_UMASK :: u32 where "DEFAULT_UMASK = 0x12"

definition inode_blank :: tmpfs_inode where
  "inode_blank = \<lparr>ino = 0, imode = 0, iuid = 0, igid = 0, isize = 0, data_cap = 0, is_dir = False, iname = '''', idata = None,
     parent = None, children = None, sibling = None, mtime = 0\<rparr>"

definition set_inode :: "nat \<Rightarrow> tmpfs_inode \<Rightarrow> tmpfs_data \<Rightarrow> tmpfs_data" where
  "set_inode i x t = t\<lparr>inodes := (inodes t)(i := x)\<rparr>"

section \<open>Instances and paths\<close>

definition tmpfs_get_instance :: "string \<Rightarrow> tmpfs_instances \<Rightarrow> nat option" where
  "tmpfs_get_instance mp fs = first_index (\<lambda>t. mount_point t = mp) fs"

text \<open>A path belongs to the first instance whose mount point it starts with, followed by the end or a slash.\<close>

definition under_mount :: "string \<Rightarrow> string \<Rightarrow> bool" where
  "under_mount mp path \<longleftrightarrow> take (length mp) path = mp \<and> (drop (length mp) path = [] \<or> hd (drop (length mp) path) = slash)"

definition tmpfs_get_instance_for_path :: "string option \<Rightarrow> tmpfs_instances \<Rightarrow> nat option" where
  "tmpfs_get_instance_for_path path fs = (case path of None \<Rightarrow> None | Some p \<Rightarrow> first_index (\<lambda>t. under_mount (mount_point t) p) fs)"

definition tmpfs_get_relative_path :: "string option \<Rightarrow> string option \<Rightarrow> string option" where
  "tmpfs_get_relative_path full mp =
     (case (full, mp) of
        (Some p, Some m) \<Rightarrow>
          if take (length m) p \<noteq> m then None
          else let rel = dropWhile (\<lambda>c. c = slash) (drop (length m) p) in Some (if rel = [] then ''/'' else rel)
      | _ \<Rightarrow> None)"

section \<open>Inodes\<close>

definition tmpfs_alloc_inode :: "int \<Rightarrow> tmpfs_data \<Rightarrow> nat option \<times> tmpfs_data" where
  "tmpfs_alloc_inode now t =
     (case find (\<lambda>i. ino (inodes t i) = 0) [0..<TMPFS_MAX_FILES] of
        None \<Rightarrow> (None, t)
      | Some i \<Rightarrow> (Some i, set_inode i (inode_blank\<lparr>ino := next_ino t + 1, mtime := now\<rparr>) (t\<lparr>next_ino := next_ino t + 1\<rparr>)))"

text \<open>The walks along the children of a directory: for a name, and for the predecessor of an inode.\<close>

partial_function (option) child_named :: "(nat \<Rightarrow> tmpfs_inode) \<Rightarrow> string \<Rightarrow> nat option \<Rightarrow> nat option option" where
  "child_named nd s c =
     (case c of None \<Rightarrow> Some None | Some i \<Rightarrow> if iname (nd i) = s then Some (Some i) else child_named nd s (sibling (nd i)))"

partial_function (option) sib_prev :: "(nat \<Rightarrow> tmpfs_inode) \<Rightarrow> nat option \<Rightarrow> nat option \<Rightarrow> nat \<Rightarrow> nat option option option" where
  "sib_prev nd prev c i =
     (case c of None \<Rightarrow> Some None | Some j \<Rightarrow> if j = i then Some (Some prev) else sib_prev nd (Some j) (sibling (nd j)) i)"

declare child_named.simps [code] sib_prev.simps [code]

definition unlink_child :: "nat \<Rightarrow> tmpfs_data \<Rightarrow> tmpfs_data kresult" where
  "unlink_child i t =
     (let nd = inodes t in
      case parent (nd i) of
        None \<Rightarrow> Done t
      | Some p \<Rightarrow>
          (case sib_prev nd None (children (nd p)) i of
             None \<Rightarrow> Stuck
           | Some None \<Rightarrow> Done t
           | Some (Some (Some q)) \<Rightarrow> Done (set_inode q ((nd q)\<lparr>sibling := sibling (nd i)\<rparr>) t)
           | Some (Some None) \<Rightarrow> Done (set_inode p ((nd p)\<lparr>children := sibling (nd i)\<rparr>) t)))"

text \<open>
  Releasing an inode, its place in the directory and what is below it. The first argument bounds the
  depth of the recursion; \<open>free_fuel\<close> is enough for the 128 inodes.
\<close>

fun free_inode :: "nat \<Rightarrow> nat \<Rightarrow> tmpfs_data \<Rightarrow> tmpfs_data kresult"
  and free_children :: "nat \<Rightarrow> nat option \<Rightarrow> tmpfs_data \<Rightarrow> tmpfs_data kresult" where
  "free_inode 0 i t = Stuck"
| "free_inode (Suc n) i t =
     (let x = inodes t i;
          t1 = (if idata x = None then t else t\<lparr>total_size := sub64 (total_size t) (isize x)\<rparr>) in
      kbind (unlink_child i t1) (\<lambda>t2.
        kbind (free_children n (children (inodes t2 i)) t2) (\<lambda>t3. Done (set_inode i inode_blank t3))))"
| "free_children 0 c t = Stuck"
| "free_children (Suc n) c t =
     (case c of
        None \<Rightarrow> Done t
      | Some j \<Rightarrow> let nxt = sibling (inodes t j) in kbind (free_inode n j t) (free_children n nxt))"

definition free_fuel :: nat where "free_fuel = 2 * TMPFS_MAX_FILES + 2"

definition tmpfs_free_inode :: "nat \<Rightarrow> tmpfs_data \<Rightarrow> tmpfs_data kresult" where
  "tmpfs_free_inode i t = free_inode free_fuel i t"

section \<open>Look-up\<close>

lemma next_token_shorter: "s \<noteq> [] \<Longrightarrow> length (dropWhile (\<lambda>c. c = slash) (dropWhile (\<lambda>c. c \<noteq> slash) s)) < length s"
proof (cases s)
  case (Cons a u)
  have "length (dropWhile (\<lambda>c. c = slash) (dropWhile (\<lambda>c. c \<noteq> slash) v)) \<le> length v" for v
    by (meson length_dropWhile_le le_trans)
  moreover have "length (dropWhile (\<lambda>c. c = slash) v) \<le> length v" for v by (rule length_dropWhile_le)
  ultimately show ?thesis using Cons by (cases "a = slash") (simp_all add: le_imp_less_Suc)
qed simp

function tmpfs_walk :: "(nat \<Rightarrow> tmpfs_inode) \<Rightarrow> nat \<Rightarrow> string \<Rightarrow> nat option kresult" where
  "tmpfs_walk nd cur s =
     (if s = [] then Done (Some cur)
      else if \<not> is_dir (nd cur) then Done None
      else case child_named nd (takeWhile (\<lambda>c. c \<noteq> slash) s) (children (nd cur)) of
             None \<Rightarrow> Stuck
           | Some None \<Rightarrow> Done None
           | Some (Some j) \<Rightarrow> tmpfs_walk nd j (dropWhile (\<lambda>c. c = slash) (dropWhile (\<lambda>c. c \<noteq> slash) s)))"
  by pat_completeness auto
termination
  by (relation "measure (\<lambda>(nd, cur, s). length s)") (simp_all add: next_token_shorter)

declare tmpfs_walk.simps [simp del]

definition tmpfs_lookup_inode :: "string option \<Rightarrow> tmpfs_data \<Rightarrow> nat option kresult" where
  "tmpfs_lookup_inode rel t =
     (case rel of
        None \<Rightarrow> Done None
      | Some r \<Rightarrow>
          if r = ''/'' \<or> r = [] then Done (root t)
          else let tok = dropWhile (\<lambda>c. c = slash) (take TMPFS_MAX_NAME_LEN r) in
            case root t of
              None \<Rightarrow> if tok = [] then Done None else Stuck
            | Some cur \<Rightarrow> tmpfs_walk (inodes t) cur tok)"

text \<open>An instance with an inode of it.\<close>

definition tmpfs_find_inode :: "string option \<Rightarrow> tmpfs_instances \<Rightarrow> (nat \<times> nat) option kresult" where
  "tmpfs_find_inode path fs =
     (case tmpfs_get_instance_for_path path fs of
        None \<Rightarrow> Done None
      | Some k \<Rightarrow>
          kbind (tmpfs_lookup_inode (tmpfs_get_relative_path path (Some (mount_point (fs ! k)))) (fs ! k)) (\<lambda>r.
            Done (map_option (Pair k) r)))"

section \<open>Mounting\<close>

definition tmpfs_mount :: "bool \<Rightarrow> int \<Rightarrow> string option \<Rightarrow> tmpfs_instances \<Rightarrow> (errno + unit) \<times> tmpfs_instances" where
  "tmpfs_mount mem now dir fs =
     (case dir of
        None \<Rightarrow> (Inl EINVAL, fs)
      | Some d \<Rightarrow>
          if tmpfs_get_instance d fs \<noteq> None then (Inr (), fs)
          else if length fs \<ge> TMPFS_MAX_DIRS then (Inl ENOSPC, fs)
          else if \<not> mem then (Inl ENOMEM, fs)
          else
            let t0 = \<lparr>root = None, inodes = (\<lambda>_. inode_blank), next_ino = 0, total_size = 0, mount_point = take 255 d\<rparr> in
            case tmpfs_alloc_inode now t0 of
              (None, t1) \<Rightarrow> (Inl ENOMEM, fs)
            | (Some i, t1) \<Rightarrow>
                (Inr (), fs @ [(set_inode i ((inodes t1 i)\<lparr>imode := ucast (S_IFDIR OR 0x1ED), iuid := 0, igid := 0, is_dir := True, iname := ''/'', parent := None\<rparr>) t1)
                   \<lparr>root := Some i, next_ino := 1\<rparr>]))"

definition tmpfs_umount :: "string option \<Rightarrow> tmpfs_instances \<Rightarrow> ((errno + unit) \<times> tmpfs_instances) kresult" where
  "tmpfs_umount dir fs =
     (case dir of
        None \<Rightarrow> Done (Inl EINVAL, fs)
      | Some d \<Rightarrow>
          (case first_index (\<lambda>t. mount_point t = d) fs of
             None \<Rightarrow> Done (Inl ENOENT, fs)
           | Some k \<Rightarrow>
               kbind (case root (fs ! k) of None \<Rightarrow> Done (fs ! k) | Some i \<Rightarrow> tmpfs_free_inode i (fs ! k)) (\<lambda>_.
                 Done (Inr (), take k fs @ drop (Suc k) fs))))"

section \<open>Creating entries\<close>

text \<open>The directory part and the last component of a copy of at most 255 characters.\<close>

definition split_parent :: "string \<Rightarrow> string \<times> string" where
  "split_parent rel =
     (let s = take 255 rel in
      case before_last_slash s of
        None \<Rightarrow> (''/'', s)
      | Some par \<Rightarrow> (if par = [] then ''/'' else par, rev (takeWhile (\<lambda>c. c \<noteq> slash) (rev s))))"

text \<open>The new inode becomes the first child.\<close>

definition add_child :: "nat \<Rightarrow> nat \<Rightarrow> tmpfs_inode \<Rightarrow> tmpfs_data \<Rightarrow> tmpfs_data" where
  "add_child p i x t =
     (let t1 = set_inode i (x\<lparr>parent := Some p, sibling := children (inodes t p)\<rparr>) t in
      set_inode p ((inodes t1 p)\<lparr>children := Some i\<rparr>) t1)"

definition new_mode :: "fs_cred \<Rightarrow> u32 \<Rightarrow> u32 \<Rightarrow> u16" where
  "new_mode cr kind mode =
     (let um = (case cr of None \<Rightarrow> DEFAULT_UMASK | Some (u, _, _) \<Rightarrow> u) in ucast (kind OR (mode AND NOT um AND 0x1FF)))"

definition new_uid :: "fs_cred \<Rightarrow> u32" where "new_uid cr = (case cr of None \<Rightarrow> 0 | Some (_, e, _) \<Rightarrow> e)"
definition new_gid :: "fs_cred \<Rightarrow> u32" where "new_gid cr = (case cr of None \<Rightarrow> 0 | Some (_, _, g) \<Rightarrow> g)"

text \<open>\<^verbatim>\<open>tmpfs_mkdir\<close> and \<^verbatim>\<open>tmpfs_create_file\<close> differ in the kind of the inode.\<close>

definition tmpfs_make :: "bool \<Rightarrow> fs_cred \<Rightarrow> int \<Rightarrow> string option \<Rightarrow> u32 \<Rightarrow> tmpfs_instances \<Rightarrow> ((errno + unit) \<times> tmpfs_instances) kresult" where
  "tmpfs_make dir cr now path mode fs =
     (if path = None then Done (Inl EINVAL, fs)
      else case tmpfs_get_instance_for_path path fs of
             None \<Rightarrow> Done (Inl ENODEV, fs)
           | Some k \<Rightarrow>
               let t = fs ! k in
               case tmpfs_get_relative_path path (Some (mount_point t)) of
                 None \<Rightarrow> Done (Inl EINVAL, fs)
               | Some rel \<Rightarrow>
                   kbind (tmpfs_lookup_inode (Some rel) t) (\<lambda>old.
                     if old \<noteq> None then Done (Inl EEXIST, fs)
                     else let (ppath, name) = split_parent rel in
                       if length name = 0 \<or> length name > TMPFS_MAX_NAME_LEN then Done (Inl EINVAL, fs)
                       else kbind (tmpfs_lookup_inode (Some ppath) t) (\<lambda>pi.
                         case pi of
                           None \<Rightarrow> Done (Inl ENOENT, fs)
                         | Some p \<Rightarrow>
                             if \<not> is_dir (inodes t p) then Done (Inl ENOENT, fs)
                             else (case tmpfs_alloc_inode now t of
                                     (None, t1) \<Rightarrow> Done (Inl ENOSPC, fs)
                                   | (Some i, t1) \<Rightarrow>
                                       Done (Inr (), fs[k := add_child p i
                                         ((inodes t1 i)\<lparr>imode := new_mode cr (if dir then S_IFDIR else S_IFREG) mode, iuid := new_uid cr, igid := new_gid cr,
                                            is_dir := dir, iname := take TMPFS_MAX_NAME_LEN name\<rparr>) t1])))))"

definition tmpfs_mkdir :: "fs_cred \<Rightarrow> int \<Rightarrow> string option \<Rightarrow> u32 \<Rightarrow> tmpfs_instances \<Rightarrow> ((errno + unit) \<times> tmpfs_instances) kresult" where
  "tmpfs_mkdir = tmpfs_make True"

definition tmpfs_create_file :: "fs_cred \<Rightarrow> int \<Rightarrow> string option \<Rightarrow> u32 \<Rightarrow> tmpfs_instances \<Rightarrow> ((errno + unit) \<times> tmpfs_instances) kresult" where
  "tmpfs_create_file = tmpfs_make False"


section \<open>Data\<close>

text \<open>\<open>buf\<close> is the buffer of the caller; \<open>Inr None\<close> is the end of the file, where the count is not written.\<close>

definition tmpfs_read_file :: "string option \<Rightarrow> u8 list option \<Rightarrow> nat \<Rightarrow> int \<Rightarrow> tmpfs_instances \<Rightarrow> (errno + u8 list option) kresult" where
  "tmpfs_read_file path buf count offset fs =
     (case (path, buf) of
        (Some p, Some b) \<Rightarrow>
          kbind (tmpfs_find_inode path fs) (\<lambda>r.
            case r of
              None \<Rightarrow> Done (Inl ENOENT)
            | Some (k, i) \<Rightarrow>
                let x = inodes (fs ! k) i in
                if is_dir x then Done (Inl EISDIR)
                else if offset < 0 \<or> nat offset \<ge> isize x then Done (Inr None)
                else let n = min count (isize x - nat offset) in
                  case idata x of
                    None \<Rightarrow> Done (Inr (Some (take n b)))
                  | Some d \<Rightarrow> if n > 0 \<and> nat offset + n > length d then Stuck else Done (Inr (Some (take n (drop (nat offset) d)))))
      | _ \<Rightarrow> Done (Inl EINVAL))"

text \<open>A block of \<open>n\<close> zeroed bytes with the first \<open>m\<close> of an older block.\<close>

definition grow_block :: "u8 list option \<Rightarrow> nat \<Rightarrow> nat \<Rightarrow> u8 list kresult" where
  "grow_block old m n =
     (case old of
        None \<Rightarrow> Done (replicate n 0)
      | Some d \<Rightarrow> if m > length d then Stuck else Done (take m d @ replicate (n - m) 0))"

definition tmpfs_write_file :: "bool \<Rightarrow> int \<Rightarrow> string option \<Rightarrow> u8 list option \<Rightarrow> int \<Rightarrow> tmpfs_instances \<Rightarrow> ((errno + nat) \<times> tmpfs_instances) kresult" where
  "tmpfs_write_file mem now path buf offset fs =
     (case (path, buf) of
        (Some p, Some b) \<Rightarrow>
          if offset < 0 then Done (Inl EINVAL, fs)
          else kbind (tmpfs_find_inode path fs) (\<lambda>r.
            case r of
              None \<Rightarrow> Done (Inl ENOENT, fs)
            | Some (k, i) \<Rightarrow>
                let x = inodes (fs ! k) i; off = nat offset; count = length b in
                if is_dir x then Done (Inl EISDIR, fs)
                else if off > TMPFS_MAX_FILE_SIZE \<or> count > TMPFS_MAX_FILE_SIZE - off then Done (Inl EFBIG, fs)
                else if off + count > isize x \<and> \<not> mem then Done (Inl ENOMEM, fs)
                else
                  kbind (if off + count > isize x
                         then kbind (grow_block (idata x) (isize x) (off + count)) (\<lambda>d. Done (x\<lparr>idata := Some d, isize := off + count, data_cap := off + count\<rparr>))
                         else Done x) (\<lambda>y.
                    if count = 0 then Done (Inr count, fs[k := set_inode i y (fs ! k)])
                    else case idata y of
                           None \<Rightarrow> Stuck
                         | Some d \<Rightarrow>
                             if off + count > length d then Stuck
                             else Done (Inr count, fs[k := set_inode i (y\<lparr>idata := Some (take off d @ b @ drop (off + count) d), mtime := now\<rparr>) (fs ! k)])))
      | _ \<Rightarrow> Done (Inl EINVAL, fs))"

definition tmpfs_truncate :: "bool \<Rightarrow> int \<Rightarrow> string option \<Rightarrow> nat \<Rightarrow> tmpfs_instances \<Rightarrow> ((errno + unit) \<times> tmpfs_instances) kresult" where
  "tmpfs_truncate mem now path len fs =
     (if path = None then Done (Inl EINVAL, fs)
      else kbind (tmpfs_find_inode path fs) (\<lambda>r.
        case r of
          None \<Rightarrow> Done (Inl ENOENT, fs)
        | Some (k, i) \<Rightarrow>
            let x = inodes (fs ! k) i; put = (\<lambda>y. Done (Inr (), fs[k := set_inode i y (fs ! k)])) in
            if is_dir x then Done (Inl EISDIR, fs)
            else if len > TMPFS_MAX_FILE_SIZE then Done (Inl EFBIG, fs)
            else if len < isize x then put (x\<lparr>isize := len, mtime := now\<rparr>)
            else if len > isize x then
              (case (idata x, len \<le> data_cap x) of
                 (Some d, True) \<Rightarrow>
                   if len > length d then Stuck
                   else put (x\<lparr>idata := Some (take (isize x) d @ replicate (len - isize x) 0 @ drop len d), isize := len, mtime := now\<rparr>)
               | _ \<Rightarrow>
                   if \<not> mem then Done (Inl ENOMEM, fs)
                   else kbind (grow_block (idata x) (isize x) len) (\<lambda>d. put (x\<lparr>idata := Some d, isize := len, data_cap := len, mtime := now\<rparr>)))
            else put (x\<lparr>mtime := now\<rparr>)))"

section \<open>Links, removal and attributes\<close>

text \<open>A second name is a copy of the file.\<close>

definition tmpfs_link :: "bool \<Rightarrow> int \<Rightarrow> string option \<Rightarrow> string option \<Rightarrow> tmpfs_instances \<Rightarrow> ((errno + unit) \<times> tmpfs_instances) kresult" where
  "tmpfs_link mem now oldpath newpath fs =
     (if oldpath = None \<or> newpath = None then Done (Inl EINVAL, fs)
      else case tmpfs_get_instance_for_path oldpath fs of
             None \<Rightarrow> Done (Inl EXDEV, fs)
           | Some k \<Rightarrow>
               if tmpfs_get_instance_for_path newpath fs \<noteq> Some k then Done (Inl EXDEV, fs)
               else let t = fs ! k in
                 case (tmpfs_get_relative_path oldpath (Some (mount_point t)), tmpfs_get_relative_path newpath (Some (mount_point t))) of
                   (Some orel, Some nrel) \<Rightarrow>
                     kbind (tmpfs_lookup_inode (Some orel) t) (\<lambda>src.
                       case src of
                         None \<Rightarrow> Done (Inl ENOENT, fs)
                       | Some s \<Rightarrow>
                           if is_dir (inodes t s) then Done (Inl EPERM, fs)
                           else kbind (tmpfs_lookup_inode (Some nrel) t) (\<lambda>old.
                             if old \<noteq> None then Done (Inl EEXIST, fs)
                             else let (ppath, name) = split_parent nrel in
                               if length name = 0 \<or> length name > TMPFS_MAX_NAME_LEN then Done (Inl EINVAL, fs)
                               else kbind (tmpfs_lookup_inode (Some ppath) t) (\<lambda>pi.
                                 case pi of
                                   None \<Rightarrow> Done (Inl ENOENT, fs)
                                 | Some p \<Rightarrow>
                                     if \<not> is_dir (inodes t p) then Done (Inl ENOENT, fs)
                                     else (case tmpfs_alloc_inode now t of
                                             (None, t1) \<Rightarrow> Done (Inl ENOSPC, fs)
                                           | (Some i, t1) \<Rightarrow>
                                               let x = inodes t1 s;
                                                   t2 = add_child p i ((inodes t1 i)\<lparr>imode := imode x, iuid := iuid x, igid := igid x, isize := isize x,
                                                     data_cap := data_cap x, is_dir := False, mtime := mtime x, iname := take TMPFS_MAX_NAME_LEN name\<rparr>) t1 in
                                               case idata x of
                                                 None \<Rightarrow> Done (Inr (), fs[k := t2])
                                               | Some d \<Rightarrow>
                                                   if isize x = 0 then Done (Inr (), fs[k := t2])
                                                   else if \<not> mem then
                                                     Done (Inl ENOMEM, fs[k := set_inode i inode_blank (set_inode p ((inodes t2 p)\<lparr>children := sibling (inodes t2 i)\<rparr>) t2)])
                                                   else if isize x > length d then Stuck
                                                   else Done (Inr (), fs[k := (set_inode i ((inodes t2 i)\<lparr>idata := Some (take (isize x) d)\<rparr>) t2)
                                                     \<lparr>total_size := add64 (total_size t2) (isize x)\<rparr>])))))
                 | _ \<Rightarrow> Done (Inl EINVAL, fs))"

text \<open>\<^verbatim>\<open>tmpfs_unlink\<close> and \<^verbatim>\<open>tmpfs_rmdir\<close>: the checks on the inode found differ.\<close>

definition tmpfs_remove :: "(tmpfs_data \<Rightarrow> nat \<Rightarrow> errno option) \<Rightarrow> string option \<Rightarrow> tmpfs_instances \<Rightarrow> ((errno + unit) \<times> tmpfs_instances) kresult" where
  "tmpfs_remove refuse path fs =
     (if path = None then Done (Inl EINVAL, fs)
      else case tmpfs_get_instance_for_path path fs of
             None \<Rightarrow> Done (Inl ENODEV, fs)
           | Some k \<Rightarrow>
               let t = fs ! k in
               case tmpfs_get_relative_path path (Some (mount_point t)) of
                 None \<Rightarrow> Done (Inl EINVAL, fs)
               | Some rel \<Rightarrow>
                   kbind (tmpfs_lookup_inode (Some rel) t) (\<lambda>r.
                     case r of
                       None \<Rightarrow> Done (Inl ENOENT, fs)
                     | Some i \<Rightarrow>
                         (case refuse t i of
                            Some er \<Rightarrow> Done (Inl er, fs)
                          | None \<Rightarrow> kbind (tmpfs_free_inode i t) (\<lambda>t1. Done (Inr (), fs[k := t1])))))"

definition unlink_refuses :: "tmpfs_data \<Rightarrow> nat \<Rightarrow> errno option" where
  "unlink_refuses t i = (if is_dir (inodes t i) then Some EISDIR else if root t = Some i then Some EINVAL else None)"

definition rmdir_refuses :: "tmpfs_data \<Rightarrow> nat \<Rightarrow> errno option" where
  "rmdir_refuses t i =
     (if \<not> is_dir (inodes t i) then Some ENOTDIR else if root t = Some i then Some EINVAL
      else if children (inodes t i) \<noteq> None then Some ENOTEMPTY else None)"

definition tmpfs_unlink :: "string option \<Rightarrow> tmpfs_instances \<Rightarrow> ((errno + unit) \<times> tmpfs_instances) kresult" where
  "tmpfs_unlink = tmpfs_remove unlink_refuses"

definition tmpfs_rmdir :: "string option \<Rightarrow> tmpfs_instances \<Rightarrow> ((errno + unit) \<times> tmpfs_instances) kresult" where
  "tmpfs_rmdir = tmpfs_remove rmdir_refuses"

definition tmpfs_attr :: "(tmpfs_inode \<Rightarrow> tmpfs_inode) \<Rightarrow> string option \<Rightarrow> tmpfs_instances \<Rightarrow> ((errno + unit) \<times> tmpfs_instances) kresult" where
  "tmpfs_attr f path fs =
     (if path = None then Done (Inl EINVAL, fs)
      else kbind (tmpfs_find_inode path fs) (\<lambda>r.
        case r of
          None \<Rightarrow> Done (Inl ENOENT, fs)
        | Some (k, i) \<Rightarrow> Done (Inr (), fs[k := set_inode i (f (inodes (fs ! k) i)) (fs ! k)])))"

definition tmpfs_chmod :: "string option \<Rightarrow> u32 \<Rightarrow> tmpfs_instances \<Rightarrow> ((errno + unit) \<times> tmpfs_instances) kresult" where
  "tmpfs_chmod path mode = tmpfs_attr (\<lambda>x. x\<lparr>imode := ucast ((ucast (imode x) AND NOT 0xFFF) OR (mode AND (0xFFF :: u32)))\<rparr>) path"

text \<open>An identifier of all ones keeps the old one.\<close>

definition tmpfs_chown :: "int \<Rightarrow> string option \<Rightarrow> u32 \<Rightarrow> u32 \<Rightarrow> tmpfs_instances \<Rightarrow> ((errno + unit) \<times> tmpfs_instances) kresult" where
  "tmpfs_chown now path owner grp =
     tmpfs_attr (\<lambda>x. x\<lparr>iuid := (if owner \<noteq> - 1 then owner else iuid x), igid := (if grp \<noteq> - 1 then grp else igid x), mtime := now\<rparr>) path"

definition tmpfs_stat :: "string option \<Rightarrow> tmpfs_instances \<Rightarrow> (errno + tmpfs_inode) kresult" where
  "tmpfs_stat path fs =
     (if path = None then Done (Inl EINVAL)
      else kbind (tmpfs_find_inode path fs) (\<lambda>r.
        case r of None \<Rightarrow> Done (Inl ENOENT) | Some (k, i) \<Rightarrow> Done (Inr (inodes (fs ! k) i))))"

fun list_children :: "(nat \<Rightarrow> tmpfs_inode) \<Rightarrow> nat \<Rightarrow> nat option \<Rightarrow> (string \<times> bool) list" where
  "list_children nd 0 c = []"
| "list_children nd (Suc n) c =
     (case c of None \<Rightarrow> [] | Some i \<Rightarrow> (iname (nd i), is_dir (nd i)) # list_children nd n (sibling (nd i)))"

text \<open>The entries with their kind (directory or not); the names fit the 256 characters of an entry.\<close>

definition tmpfs_readdir :: "string option \<Rightarrow> int \<Rightarrow> tmpfs_instances \<Rightarrow> (errno + (string \<times> bool) list) kresult" where
  "tmpfs_readdir path max_entries fs =
     (if path = None \<or> max_entries \<le> 0 then Done (Inl EINVAL)
      else kbind (tmpfs_find_inode path fs) (\<lambda>r.
        case r of
          None \<Rightarrow> Done (Inl ENOENT)
        | Some (k, i) \<Rightarrow>
            let nd = inodes (fs ! k) in
            if \<not> is_dir (nd i) then Done (Inl ENOTDIR)
            else let dots = take (nat max_entries) [(''.'', True), (''..'', True)] in
              Done (Inr (dots @ list_children nd (nat max_entries - length dots) (children (nd i))))))"
end
