(* ===== verification/Tmpfs_Tree.thy ===== *)
theory Tmpfs_Tree
  imports Tmpfs
begin

text \<open>
  The inodes of an instance form a tree. \<open>tree_inv K t\<close> says that \<open>K i\<close> lists the children of the inode \<open>i\<close>: the chain of
  siblings ends, names are unique in a directory, every inode in use but the root hangs in exactly one
  directory, and the block of a file is as large as the inode says. Under it a look-up follows the
  components of the path, and adding a child, removing a leaf or changing contents keeps the tree.
\<close>

section \<open>Chains of siblings\<close>

fun sibs :: "(nat \<Rightarrow> tmpfs_inode) \<Rightarrow> nat option \<Rightarrow> nat list \<Rightarrow> bool" where
  "sibs nd c [] \<longleftrightarrow> c = None"
| "sibs nd c (i # is) \<longleftrightarrow> c = Some i \<and> sibs nd (sibling (nd i)) is"

fun sib_list :: "(nat \<Rightarrow> tmpfs_inode) \<Rightarrow> nat \<Rightarrow> nat option \<Rightarrow> nat list" where
  "sib_list nd 0 c = []"
| "sib_list nd (Suc n) c = (case c of None \<Rightarrow> [] | Some i \<Rightarrow> i # sib_list nd n (sibling (nd i)))"

definition kids :: "(nat \<Rightarrow> tmpfs_inode) \<Rightarrow> nat \<Rightarrow> nat list" where
  "kids nd i = sib_list nd TMPFS_MAX_FILES (children (nd i))"

lemma sib_list_sibs: "sibs nd c l \<Longrightarrow> length l \<le> n \<Longrightarrow> sib_list nd n c = l"
proof (induction l arbitrary: c n)
  case (Nil c n)
  then show ?case by (cases n) simp_all
next
  case (Cons i l c n)
  then show ?case by (cases n) simp_all
qed

lemma sibs_cong: "(\<And>i. i \<in> set l \<Longrightarrow> sibling (nd' i) = sibling (nd i)) \<Longrightarrow> sibs nd' c l = sibs nd c l"
  by (induction l arbitrary: c) auto

lemma child_named_sibs: "sibs nd c l \<Longrightarrow> child_named nd s c = Some (find (\<lambda>j. iname (nd j) = s) l)"
proof (induction l arbitrary: c)
  case Nil
  then show ?case by (subst child_named.simps) simp
next
  case (Cons i l)
  then show ?case by (subst child_named.simps) simp
qed

definition last_or :: "nat option \<Rightarrow> nat list \<Rightarrow> nat option" where
  "last_or prev xs = (if xs = [] then prev else Some (last xs))"

lemma sib_prev_sibs: "sibs nd c (xs @ i # ys) \<Longrightarrow> i \<notin> set xs \<Longrightarrow> sib_prev nd prev c i = Some (Some (last_or prev xs))"
proof (induction xs arbitrary: c prev)
  case Nil
  then show ?case by (subst sib_prev.simps) (simp add: last_or_def)
next
  case (Cons j xs)
  then show ?case by (subst sib_prev.simps) (simp add: last_or_def)
qed

lemma sibs_drop:
  assumes "sibs nd c (xs @ i # ys)" "distinct (xs @ i # ys)" "xs \<noteq> []"
    and "sibling (nd' (last xs)) = sibling (nd i)" "\<And>j. j \<in> set (xs @ ys) \<Longrightarrow> j \<noteq> last xs \<Longrightarrow> sibling (nd' j) = sibling (nd j)"
  shows "sibs nd' c (xs @ ys)"
  using assms
proof (induction xs arbitrary: c)
  case (Cons j xs)
  show ?case
  proof (cases "xs = []")
    case True
    have "sibs nd' (sibling (nd i)) ys = sibs nd (sibling (nd i)) ys"
      by (rule sibs_cong) (use Cons.prems True in auto)
    then show ?thesis using Cons.prems True by simp
  next
    case False
    then have "last xs \<in> set xs" by simp
    then have "last xs \<noteq> j" using Cons.prems(2) by auto
    then have "sibling (nd' j) = sibling (nd j)" using Cons.prems(5) [of j] False by simp
    moreover have "sibs nd' (sibling (nd j)) (xs @ ys)"
      by (rule Cons.IH) (use Cons.prems False in auto)
    ultimately show ?thesis using Cons.prems(1) by simp
  qed
qed simp

section \<open>The invariant\<close>

definition live :: "(nat \<Rightarrow> tmpfs_inode) \<Rightarrow> nat \<Rightarrow> bool" where
  "live nd i \<longleftrightarrow> i < TMPFS_MAX_FILES \<and> ino (nd i) \<noteq> 0"

definition data_ok :: "tmpfs_inode \<Rightarrow> bool" where
  "data_ok x \<longleftrightarrow> (case idata x of None \<Rightarrow> isize x = 0 | Some d \<Rightarrow> \<not> is_dir x \<and> isize x \<le> length d \<and> data_cap x = length d)"

definition name_ok :: "string \<Rightarrow> bool" where
  "name_ok s \<longleftrightarrow> s \<noteq> [] \<and> slash \<notin> set s \<and> length s \<le> TMPFS_MAX_NAME_LEN"

definition dir_ok :: "(nat \<Rightarrow> nat list) \<Rightarrow> (nat \<Rightarrow> tmpfs_inode) \<Rightarrow> nat \<Rightarrow> bool" where
  "dir_ok K nd i \<longleftrightarrow>
     sibs nd (children (nd i)) (K i) \<and> distinct (K i) \<and> distinct (map (\<lambda>j. iname (nd j)) (K i)) \<and>
     (K i \<noteq> [] \<longrightarrow> is_dir (nd i)) \<and> (\<forall>c\<in>set (K i). live nd c \<and> parent (nd c) = Some i)"

definition hangs :: "(nat \<Rightarrow> nat list) \<Rightarrow> (nat \<Rightarrow> tmpfs_inode) \<Rightarrow> nat \<Rightarrow> bool" where
  "hangs K nd c \<longleftrightarrow> name_ok (iname (nd c)) \<and> (\<exists>p. parent (nd c) = Some p \<and> live nd p \<and> c \<in> set (K p))"

definition ranked :: "(nat \<Rightarrow> tmpfs_inode) \<Rightarrow> bool" where
  "ranked nd \<longleftrightarrow> (\<exists>d :: nat \<Rightarrow> nat. \<forall>c p. live nd c \<longrightarrow> parent (nd c) = Some p \<longrightarrow> d p < d c)"

definition tree_inv :: "(nat \<Rightarrow> nat list) \<Rightarrow> nat \<Rightarrow> tmpfs_data \<Rightarrow> bool" where
  "tree_inv K r t \<longleftrightarrow>
     root t = Some r \<and> live (inodes t) r \<and> is_dir (inodes t r) \<and> parent (inodes t r) = None \<and> ranked (inodes t) \<and>
     (\<forall>i. live (inodes t) i \<longrightarrow> dir_ok K (inodes t) i \<and> data_ok (inodes t i)) \<and>
     (\<forall>c. live (inodes t) c \<longrightarrow> c \<noteq> r \<longrightarrow> hangs K (inodes t) c)"

lemma tree_invD:
  assumes "tree_inv K r t"
  shows "root t = Some r" "live (inodes t) r" "is_dir (inodes t r)" "parent (inodes t r) = None" "ranked (inodes t)"
    "live (inodes t) i \<Longrightarrow> dir_ok K (inodes t) i" "live (inodes t) i \<Longrightarrow> data_ok (inodes t i)"
    "live (inodes t) c \<Longrightarrow> c \<noteq> r \<Longrightarrow> hangs K (inodes t) c"
  using assms unfolding tree_inv_def by blast+

lemma dir_okD:
  assumes "dir_ok K nd i"
  shows "sibs nd (children (nd i)) (K i)" "distinct (K i)" "distinct (map (\<lambda>j. iname (nd j)) (K i))" "K i \<noteq> [] \<Longrightarrow> is_dir (nd i)"
    "c \<in> set (K i) \<Longrightarrow> live nd c" "c \<in> set (K i) \<Longrightarrow> parent (nd c) = Some i"
  using assms unfolding dir_ok_def by blast+

lemma kids_eq:
  assumes inv: "tree_inv K r t" and i: "live (inodes t) i"
  shows "kids (inodes t) i = K i"
proof -
  note d = dir_okD [OF tree_invD(6) [OF inv i]]
  have "set (K i) \<subseteq> {..<TMPFS_MAX_FILES}" using d(5) by (auto simp: live_def)
  then have "card (set (K i)) \<le> TMPFS_MAX_FILES" using card_mono [of "{..<TMPFS_MAX_FILES}"] by fastforce
  then show ?thesis unfolding kids_def using d(1,2) by (intro sib_list_sibs) (simp_all add: distinct_card)
qed

section \<open>Look-up along the components\<close>

fun look :: "(nat \<Rightarrow> tmpfs_inode) \<Rightarrow> (nat \<Rightarrow> nat list) \<Rightarrow> nat \<Rightarrow> string list \<Rightarrow> nat option" where
  "look nd K i [] = Some i"
| "look nd K i (s # ss) = (case find (\<lambda>j. iname (nd j) = s) (K i) of None \<Rightarrow> None | Some j \<Rightarrow> look nd K j ss)"

lemma find_child:
  assumes "dir_ok K nd i"
  shows "find (\<lambda>j. iname (nd j) = s) (K i) = Some j \<longleftrightarrow> j \<in> set (K i) \<and> iname (nd j) = s"
proof
  assume "find (\<lambda>j. iname (nd j) = s) (K i) = Some j"
  then show "j \<in> set (K i) \<and> iname (nd j) = s" by (auto simp: find_Some_iff)
next
  assume j: "j \<in> set (K i) \<and> iname (nd j) = s"
  show "find (\<lambda>j. iname (nd j) = s) (K i) = Some j"
  proof (cases "find (\<lambda>j. iname (nd j) = s) (K i)")
    case None
    then show ?thesis using j by (auto simp: find_None_iff)
  next
    case (Some k)
    then have "k \<in> set (K i)" "iname (nd k) = iname (nd j)" using j by (auto simp: find_Some_iff)
    moreover have "inj_on (\<lambda>j. iname (nd j)) (set (K i))" using dir_okD(3) [OF assms] by (simp add: distinct_map)
    ultimately show ?thesis using Some j by (auto dest: inj_onD)
  qed
qed

lemma look_live:
  assumes inv: "tree_inv K r t"
  shows "live (inodes t) i \<Longrightarrow> look (inodes t) K i p = Some j \<Longrightarrow> live (inodes t) j"
proof (induction p arbitrary: i)
  case (Cons s p)
  obtain k where k: "find (\<lambda>j. iname (inodes t j) = s) (K i) = Some k" "look (inodes t) K k p = Some j"
    using Cons.prems(2) by (auto split: option.splits)
  have d: "dir_ok K (inodes t) i" by (rule tree_invD(6) [OF inv Cons.prems(1)])
  then have "k \<in> set (K i)" using find_child [OF d] k(1) by blast
  then show ?case using Cons.IH [OF _ k(2)] dir_okD(5) [OF d] by blast
qed simp

lemma look_snoc: "look nd K i (p @ [s]) = (case look nd K i p of None \<Rightarrow> None | Some j \<Rightarrow> find (\<lambda>k. iname (nd k) = s) (K j))"
  by (induction p arbitrary: i) (auto split: option.splits)

lemma look_snocD:
  assumes inv: "tree_inv K r t" and l: "look (inodes t) K r (p @ [s]) = Some k"
  shows "\<exists>j. look (inodes t) K r p = Some j \<and> live (inodes t) j \<and> k \<in> set (K j) \<and> iname (inodes t k) = s \<and> parent (inodes t k) = Some j"
proof -
  obtain j where j: "look (inodes t) K r p = Some j" "find (\<lambda>k. iname (inodes t k) = s) (K j) = Some k"
    using l by (auto simp: look_snoc split: option.splits)
  have lj: "live (inodes t) j" by (rule look_live [OF inv tree_invD(2) [OF inv] j(1)])
  note d = tree_invD(6) [OF inv lj]
  show ?thesis using j lj find_child [OF d, of s k] dir_okD(6) [OF d, of k] by blast
qed

lemma look_inj:
  assumes inv: "tree_inv K r t"
  shows "look (inodes t) K r p = Some k \<Longrightarrow> look (inodes t) K r q = Some k \<Longrightarrow> p = q"
proof (induction p arbitrary: q k rule: rev_induct)
  case Nil
  then have k: "k = r" by simp
  show ?case
  proof (cases q rule: rev_cases)
    case (snoc q' s)
    then show ?thesis using look_snocD [OF inv] Nil.prems(2) tree_invD(4) [OF inv] k by fastforce
  qed simp
next
  case (snoc s p)
  obtain j where j: "look (inodes t) K r p = Some j" "iname (inodes t k) = s" "parent (inodes t k) = Some j"
    using look_snocD [OF inv snoc.prems(1)] by blast
  show ?case
  proof (cases q rule: rev_cases)
    case Nil
    then show ?thesis using snoc.prems(2) j tree_invD(4) [OF inv] by simp
  next
    case (snoc q' s')
    then obtain j' where "look (inodes t) K r q' = Some j'" "iname (inodes t k) = s'" "parent (inodes t k) = Some j'"
      using look_snocD [OF inv, of q' s' k] \<open>look (inodes t) K r q = Some k\<close> by blast
    then show ?thesis using j snoc.IH [OF j(1), of q'] snoc by simp
  qed
qed


text \<open>The loop of \<^verbatim>\<open>tmpfs_lookup_inode\<close>.\<close>

lemma comps_token:
  assumes "s \<noteq> []" "hd s \<noteq> slash"
  shows "comps s = takeWhile (\<lambda>c. c \<noteq> slash) s # comps (dropWhile (\<lambda>c. c = slash) (dropWhile (\<lambda>c. c \<noteq> slash) s))"
proof -
  let ?w = "takeWhile (\<lambda>c. c \<noteq> slash) s" and ?u = "dropWhile (\<lambda>c. c \<noteq> slash) s"
  have w: "slash \<notin> set ?w" "?w \<noteq> []" using assms by (cases s; auto dest: set_takeWhileD)+
  have su: "s = ?w @ ?u" by simp
  show ?thesis
  proof (cases ?u)
    case Nil
    then have "comps s = comps ?w" using su by (metis append_Nil2)
    then show ?thesis unfolding Nil using comps_plain [OF w] by simp
  next
    case (Cons a u)
    then have a: "a = slash" using hd_dropWhile [of "\<lambda>c. c \<noteq> slash" s] by simp
    have "s = ?w @ slash # u" using su Cons a by simp
    then have "comps s = comps (?w @ slash # u)" by simp
    also have "\<dots> = ?w # comps u" using comps_append_slash [of ?w u] comps_plain [OF w] by simp
    finally show ?thesis using Cons a comps_dropWhile [of ?u] by simp
  qed
qed

lemma tmpfs_walk_look:
  assumes inv: "tree_inv K r t"
  shows "live (inodes t) i \<Longrightarrow> s = [] \<or> hd s \<noteq> slash \<Longrightarrow> tmpfs_walk (inodes t) i s = Done (look (inodes t) K i (comps s))"
proof (induction s arbitrary: i rule: length_induct)
  case (1 s)
  show ?case
  proof (cases "s = []")
    case True
    then show ?thesis by (subst tmpfs_walk.simps) simp
  next
    case False
    let ?w = "takeWhile (\<lambda>c. c \<noteq> slash) s" and ?rest = "dropWhile (\<lambda>c. c = slash) (dropWhile (\<lambda>c. c \<noteq> slash) s)"
    have c: "comps s = ?w # comps ?rest" using comps_token False "1.prems"(2) by blast
    have rest: "?rest = [] \<or> hd ?rest \<noteq> slash" using hd_dropWhile [of "\<lambda>c. c = slash"] by blast
    note d = tree_invD(6) [OF inv "1.prems"(1)]
    note ch = child_named_sibs [OF dir_okD(1) [OF d], of ?w]
    show ?thesis
    proof (cases "find (\<lambda>j. iname (inodes t j) = ?w) (K i)")
      case None
      then show ?thesis using False ch c by (subst tmpfs_walk.simps) simp
    next
      case (Some j)
      then have j: "j \<in> set (K i)" using find_child [OF d] by blast
      then have dir: "is_dir (inodes t i)" "live (inodes t) j" using dir_okD(4) [OF d] dir_okD(5) [OF d] by fastforce+
      have "tmpfs_walk (inodes t) j ?rest = Done (look (inodes t) K j (comps ?rest))"
        using "1.IH" next_token_shorter [OF False] dir(2) rest by blast
      then show ?thesis using False ch c Some dir(1) by (subst tmpfs_walk.simps) simp
    qed
  qed
qed

lemma lookup_look:
  assumes inv: "tree_inv K r t"
  shows "tmpfs_lookup_inode (Some rel) t = Done (look (inodes t) K r (comps (take 255 rel)))"
proof (cases "rel = ''/'' \<or> rel = []")
  case True
  then show ?thesis using tree_invD(1) [OF inv] by (auto simp: tmpfs_lookup_inode_def comps_def)
next
  case False
  let ?tok = "dropWhile (\<lambda>c. c = slash) (take 255 rel)"
  have "?tok = [] \<or> hd ?tok \<noteq> slash" using hd_dropWhile [of "\<lambda>c. c = slash"] by blast
  from tmpfs_walk_look [OF inv tree_invD(2) [OF inv] this] show ?thesis
    using False tree_invD(1) [OF inv] comps_dropWhile [of "take 255 rel"] by (simp add: tmpfs_lookup_inode_def TMPFS_MAX_NAME_LEN_def)
qed

section \<open>Changing the contents of an inode\<close>

definition same_place :: "tmpfs_inode \<Rightarrow> tmpfs_inode \<Rightarrow> bool" where
  "same_place x y \<longleftrightarrow> ino y = ino x \<and> is_dir y = is_dir x \<and> iname y = iname x \<and> parent y = parent x \<and> children y = children x \<and> sibling y = sibling x"

lemma set_inode_simps [simp]: "inodes (set_inode i x t) = (inodes t)(i := x)" "root (set_inode i x t) = root t" "next_ino (set_inode i x t) = next_ino t"
  "mount_point (set_inode i x t) = mount_point t" "total_size (set_inode i x t) = total_size t"
  by (simp_all add: set_inode_def)

lemma look_cong:
  assumes "\<And>j. iname (nd' j) = iname (nd j)"
  shows "look nd' K i p = look nd K i p"
proof (induction p arbitrary: i)
  case (Cons s p)
  have "find (\<lambda>j. iname (nd' j) = s) (K i) = find (\<lambda>j. iname (nd j) = s) (K i)" using assms by simp
  then show ?case using Cons by (simp split: option.split)
qed simp

lemma tree_contents:
  assumes inv: "tree_inv K r t" and y: "same_place (inodes t i) y" "live (inodes t) i \<Longrightarrow> data_ok y"
  shows "tree_inv K r (set_inode i y t)" "look ((inodes t)(i := y)) K r p = look (inodes t) K r p"
proof -
  let ?nd = "(inodes t)(i := y)"
  have f: "ino (?nd j) = ino (inodes t j)" "is_dir (?nd j) = is_dir (inodes t j)" "iname (?nd j) = iname (inodes t j)"
    "parent (?nd j) = parent (inodes t j)" "children (?nd j) = children (inodes t j)" "sibling (?nd j) = sibling (inodes t j)" for j
    using y(1) by (simp_all add: same_place_def)
  have l: "live ?nd j = live (inodes t) j" for j by (simp only: live_def f)
  have s: "sibs ?nd c l = sibs (inodes t) c l" for c l by (rule sibs_cong) (rule f(6))
  have d: "dir_ok K ?nd j = dir_ok K (inodes t) j" for j by (simp only: dir_ok_def f l s)
  have h: "hangs K ?nd c = hangs K (inodes t) c" for c by (simp only: hangs_def f l)
  have rk: "ranked ?nd = ranked (inodes t)" by (simp only: ranked_def f l)
  have "data_ok (?nd j)" if "live (inodes t) j" for j using that y(2) tree_invD(7) [OF inv that] by (cases "j = i") simp_all
  then show "tree_inv K r (set_inode i y t)"
    using inv unfolding tree_inv_def set_inode_simps f l d h rk by blast
  show "look ?nd K r p = look (inodes t) K r p" by (rule look_cong) (rule f(3))
qed

section \<open>Adding an entry\<close>

definition grown :: "nat \<Rightarrow> nat \<Rightarrow> tmpfs_inode \<Rightarrow> (nat \<Rightarrow> tmpfs_inode) \<Rightarrow> nat \<Rightarrow> tmpfs_inode" where
  "grown p i x nd = nd(i := x\<lparr>parent := Some p, sibling := children (nd p)\<rparr>, p := (nd p)\<lparr>children := Some i\<rparr>)"

lemma data_ok_links [simp]: "data_ok (x\<lparr>parent := a\<rparr>) = data_ok x" "data_ok (x\<lparr>children := c\<rparr>) = data_ok x" "data_ok (x\<lparr>sibling := b\<rparr>) = data_ok x"
  by (simp_all add: data_ok_def cong: option.case_cong)

lemma find_cong: "(\<And>x. x \<in> set l \<Longrightarrow> P x = Q x) \<Longrightarrow> find P l = find Q l"
  by (induction l) auto

lemma not_live_kid: "tree_inv K r t \<Longrightarrow> live (inodes t) j \<Longrightarrow> \<not> live (inodes t) i \<Longrightarrow> i \<notin> set (K j)"
  using tree_invD(6) dir_okD(5) by blast

lemma look_grown:
  assumes inv: "tree_inv K r t" and p: "live (inodes t) p" and i: "\<not> live (inodes t) i" "i \<noteq> p"
    and new: "find (\<lambda>j. iname (inodes t j) = iname x) (K p) = None"
  shows "live (inodes t) j \<Longrightarrow> look (grown p i x (inodes t)) (K(p := i # K p, i := [])) j q =
    (case look (inodes t) K j q of Some k \<Rightarrow> Some k
     | None \<Rightarrow> if \<exists>q'. q = q' @ [iname x] \<and> look (inodes t) K j q' = Some p then Some i else None)"
proof (induction q arbitrary: j)
  case Nil
  then show ?case by simp
next
  case (Cons s q)
  let ?nd = "grown p i x (inodes t)" and ?K = "K(p := i # K p, i := [])"
  have ji: "j \<noteq> i" using Cons.prems i(1) by auto
  have nm: "iname (?nd k) = iname (inodes t k)" if "k \<in> set (K j)" for k
    using that not_live_kid [OF inv Cons.prems i(1)] by (auto simp: grown_def)
  have f: "find (\<lambda>k. iname (?nd k) = s) (K j) = find (\<lambda>k. iname (inodes t k) = s) (K j)" by (rule find_cong) (simp add: nm)
  have li: "look ?nd ?K i q' = (if q' = [] then Some i else None)" for q' by (cases q') simp_all
  have ni: "iname (?nd i) = iname x" using i(2) by (simp add: grown_def)
  show ?case
  proof (cases "j = p \<and> s = iname x")
    case True
    then have "find (\<lambda>k. iname (?nd k) = s) (?K j) = Some i" using ji ni by simp
    then have l: "look ?nd ?K j (s # q) = (if q = [] then Some i else None)" using li by simp
    have n: "look (inodes t) K j (s # u) = None" for u using new True by simp
    have "(\<exists>q'. s # q = q' @ [iname x] \<and> look (inodes t) K j q' = Some p) \<longleftrightarrow> q = []"
    proof
      assume "\<exists>q'. s # q = q' @ [iname x] \<and> look (inodes t) K j q' = Some p"
      then obtain q' where "s # q = q' @ [iname x]" "look (inodes t) K j q' = Some p" by blast
      then show "q = []" using n by (cases q') auto
    next
      assume "q = []"
      then show "\<exists>q'. s # q = q' @ [iname x] \<and> look (inodes t) K j q' = Some p" using True by (intro exI [of _ "[]"]) simp
    qed
    then show ?thesis unfolding l n by simp
  next
    case False
    have fj: "find (\<lambda>k. iname (?nd k) = s) (?K j) = find (\<lambda>k. iname (inodes t k) = s) (K j)"
      using False ji ni f by auto
    show ?thesis
    proof (cases "find (\<lambda>k. iname (inodes t k) = s) (K j)")
      case None
      then have "look (inodes t) K j (s # u) = None" for u by simp
      then show ?thesis using None fj False by (auto simp: Cons_eq_append_conv)
    next
      case (Some k)
      then have k: "live (inodes t) k" using find_child [OF tree_invD(6) [OF inv Cons.prems]] dir_okD(5) [OF tree_invD(6) [OF inv Cons.prems]] by blast
      have lk: "look (inodes t) K j (s # u) = look (inodes t) K k u" for u using Some by simp
      have ex: "(\<exists>q'. s # q = q' @ [iname x] \<and> look (inodes t) K j q' = Some p) \<longleftrightarrow> (\<exists>q'. q = q' @ [iname x] \<and> look (inodes t) K k q' = Some p)"
        using False lk by (auto simp: Cons_eq_append_conv)
      have e1: "look ?nd ?K j (s # q) = look ?nd ?K k q" using fj Some by simp
      show ?thesis unfolding e1 ex lk by (rule Cons.IH [OF k])
    qed
  qed
qed

lemma tree_add:
  assumes inv: "tree_inv K r t" and p: "live (inodes t) p" "is_dir (inodes t p)" and i: "i < TMPFS_MAX_FILES" "\<not> live (inodes t) i"
    and x: "ino x \<noteq> 0" "name_ok (iname x)" "data_ok x" "children x = None"
    and new: "find (\<lambda>j. iname (inodes t j) = iname x) (K p) = None"
    and t': "inodes t' = grown p i x (inodes t)" "root t' = root t"
  shows "tree_inv (K(p := i # K p, i := [])) r t'"
proof -
  let ?nd = "inodes t" and ?nd' = "inodes t'" and ?K = "K(p := i # K p, i := [])"
  have ip: "i \<noteq> p" using i p by auto
  have old: "ino (?nd' j) = ino (?nd j)" "is_dir (?nd' j) = is_dir (?nd j)" "iname (?nd' j) = iname (?nd j)" "parent (?nd' j) = parent (?nd j)"
    "sibling (?nd' j) = sibling (?nd j)" "data_ok (?nd' j) = data_ok (?nd j)" if "j \<noteq> i" for j
    using that unfolding t' by (simp_all add: grown_def)
  have ch: "children (?nd' j) = children (?nd j)" if "j \<noteq> i" "j \<noteq> p" for j using that unfolding t' by (simp add: grown_def)
  have nw: "ino (?nd' i) = ino x" "is_dir (?nd' i) = is_dir x" "iname (?nd' i) = iname x" "parent (?nd' i) = Some p" "sibling (?nd' i) = children (?nd p)"
    "children (?nd' i) = None" "data_ok (?nd' i) = data_ok x" "children (?nd' p) = Some i"
    using ip x(4) unfolding t' by (simp_all add: grown_def)
  have lv: "live ?nd' j \<longleftrightarrow> live ?nd j \<or> j = i" for j using i x(1) nw(1) old(1) [of j] by (cases "j = i") (auto simp: live_def)
  have nk: "i \<notin> set (K j)" if "live ?nd j" for j by (rule not_live_kid [OF inv that i(2)])
  have sb: "sibs ?nd' c (K j) = sibs ?nd c (K j)" if "live ?nd j" for c j by (rule sibs_cong, rule old(5)) (use nk [OF that] in auto)
  have mp: "map (\<lambda>k. iname (?nd' k)) (K j) = map (\<lambda>k. iname (?nd k)) (K j)" if "live ?nd j" for j
    by (rule map_cong [OF refl], rule old(3)) (use nk [OF that] in auto)
  have kd: "live ?nd' c \<and> parent (?nd' c) = Some j" if "live ?nd j" "c \<in> set (K j)" for c j
  proof -
    have "c \<noteq> i" using nk [OF that(1)] that(2) by auto
    then show ?thesis using dir_okD(5,6) [OF tree_invD(6) [OF inv that(1)] that(2)] old(4) lv by simp
  qed
  have dir: "dir_ok ?K ?nd' j" if lj: "live ?nd' j" for j
  proof -
    consider "j = i" | "j = p" | "live ?nd j" "j \<noteq> p" "j \<noteq> i" using lj lv by auto
    then show ?thesis
    proof cases
      case 1
      then show ?thesis using nw by (simp add: dir_ok_def)
    next
      case 2
      note d = dir_okD [OF tree_invD(6) [OF inv p(1)]]
      have "iname x \<notin> iname ` ?nd ` set (K p)" using new by (auto simp: find_None_iff)
      moreover have "map (\<lambda>k. iname (?nd' k)) (i # K p) = iname x # map (\<lambda>k. iname (?nd k)) (K p)" by (simp only: list.map mp [OF p(1)] nw(3))
      ultimately have "distinct (map (\<lambda>k. iname (?nd' k)) (i # K p))" using d(3) by (simp only: distinct.simps set_map image_image) simp
      then show ?thesis
        using 2 ip d(1,2) sb [OF p(1)] nk [OF p(1)] kd [OF p(1)] nw lv p old(2) by (auto simp: dir_ok_def)
    next
      case 3
      note d = tree_invD(6) [OF inv 3(1)]
      have "distinct (map (\<lambda>k. iname (?nd' k)) (K j))" unfolding mp [OF 3(1)] by (rule dir_okD(3) [OF d])
      then show ?thesis
        using 3 d sb [OF 3(1)] kd [OF 3(1)] old(2) ch by (simp add: dir_ok_def)
    qed
  qed
  have dat: "data_ok (?nd' j)" if "live ?nd' j" for j
    using that lv tree_invD(7) [OF inv, of j] old(6) [of j] nw(7) x(3) by (cases "j = i") auto
  have hang: "hangs ?K ?nd' c" if lc: "live ?nd' c" "c \<noteq> r" for c
  proof (cases "c = i")
    case True
    then show ?thesis using nw x(2) lv p ip by (simp add: hangs_def)
  next
    case False
    then have "live ?nd c" using lc lv by blast
    then obtain q where q: "name_ok (iname (?nd c))" "parent (?nd c) = Some q" "live ?nd q" "c \<in> set (K q)"
      using tree_invD(8) [OF inv _ lc(2)] unfolding hangs_def by blast
    have "q \<noteq> i" using q(3) i(2) by auto
    then show ?thesis using q False lv old by (auto simp: hangs_def)
  qed
  obtain d where d: "\<And>c q. live ?nd c \<Longrightarrow> parent (?nd c) = Some q \<Longrightarrow> (d q :: nat) < d c"
    using tree_invD(5) [OF inv] unfolding ranked_def by blast
  have "(d(i := Suc (d p))) q < (d(i := Suc (d p))) c" if c: "live ?nd' c" "parent (?nd' c) = Some q" for c q
  proof (cases "c = i")
    case True
    then show ?thesis using c nw ip by auto
  next
    case False
    then have lc: "live ?nd c" "parent (?nd c) = Some q" using c lv old by auto
    then have "live ?nd q" using tree_invD(8) [OF inv lc(1)] tree_invD(4) [OF inv] unfolding hangs_def by (cases "c = r") auto
    then have "q \<noteq> i" using i(2) by auto
    then show ?thesis using d [OF lc] False by simp
  qed
  then have rk: "ranked ?nd'" unfolding ranked_def by blast
  have ri: "r \<noteq> i" using tree_invD(2) [OF inv] i(2) by auto
  show ?thesis
    unfolding tree_inv_def using tree_invD(1-4) [OF inv] t'(2) lv old ri rk dir dat hang by auto
qed

section \<open>Removing a leaf\<close>

text \<open>What a look-up finds of an inode, apart from its place among the siblings.\<close>

definition strip :: "tmpfs_inode \<Rightarrow> tmpfs_inode" where
  "strip x = x\<lparr>children := None, sibling := None\<rparr>"

lemma strip_fields:
  assumes "strip x = strip y"
  shows "ino x = ino y" "is_dir x = is_dir y" "iname x = iname y" "parent x = parent y" "data_ok x = data_ok y"
    "imode x = imode y" "iuid x = iuid y" "igid x = igid y" "isize x = isize y" "idata x = idata y" "data_cap x = data_cap y"
proof -
  have "ino (strip x) = ino (strip y)" "is_dir (strip x) = is_dir (strip y)" "iname (strip x) = iname (strip y)" "parent (strip x) = parent (strip y)"
    "imode (strip x) = imode (strip y)" "iuid (strip x) = iuid (strip y)" "igid (strip x) = igid (strip y)" "isize (strip x) = isize (strip y)"
    "idata (strip x) = idata (strip y)" "data_cap (strip x) = data_cap (strip y)" using assms by simp_all
  then show "ino x = ino y" "is_dir x = is_dir y" "iname x = iname y" "parent x = parent y"
    "imode x = imode y" "iuid x = iuid y" "igid x = igid y" "isize x = isize y" "idata x = idata y" "data_cap x = data_cap y"
    by (simp_all add: strip_def)
  then show "data_ok x = data_ok y" by (simp add: data_ok_def cong: option.case_cong)
qed

lemma strip_links [simp]: "strip (x\<lparr>children := a\<rparr>) = strip x" "strip (x\<lparr>sibling := a\<rparr>) = strip x"
  by (simp_all add: strip_def)

text \<open>The chain of the directory after the removal, whether the entry was the first or not.\<close>

definition pruned :: "nat \<Rightarrow> nat list \<Rightarrow> nat \<Rightarrow> (nat \<Rightarrow> tmpfs_inode) \<Rightarrow> nat \<Rightarrow> tmpfs_inode" where
  "pruned p xs i nd =
     (if xs = [] then nd(p := (nd p)\<lparr>children := sibling (nd i)\<rparr>) else nd(last xs := (nd (last xs))\<lparr>sibling := sibling (nd i)\<rparr>))(i := inode_blank)"

lemma tree_remove:
  assumes inv: "tree_inv K r t" and i: "live (inodes t) i" "K i = []" "parent (inodes t i) = Some p" and p: "live (inodes t) p" "K p = xs @ i # ys"
    and t': "inodes t' = pruned p xs i (inodes t)" "root t' = root t"
  shows "tree_inv (K(p := xs @ ys)) r t'" "j \<noteq> i \<Longrightarrow> strip (inodes t' j) = strip (inodes t j)"
proof -
  let ?nd = "inodes t" and ?nd' = "inodes t'" and ?K = "K(p := xs @ ys)"
  note dp = dir_okD [OF tree_invD(6) [OF inv p(1)]]
  have ip: "i \<noteq> p" using i(2) p(2) by auto
  have dx: "i \<notin> set xs" "i \<notin> set ys" "distinct (xs @ i # ys)" using dp(2) p(2) by auto
  have nl: "xs \<noteq> [] \<Longrightarrow> last xs \<noteq> i" using dx(1) by (metis last_in_set)
  have st: "strip (?nd' j) = strip (?nd j)" if "j \<noteq> i" for j using that unfolding t' by (simp add: pruned_def)
  show "j \<noteq> i \<Longrightarrow> strip (?nd' j) = strip (?nd j)" by (rule st)
  note old = strip_fields [OF st]
  have bl: "?nd' i = inode_blank" unfolding t' by (simp add: pruned_def)
  have lv: "live ?nd' j \<longleftrightarrow> live ?nd j \<and> j \<noteq> i" for j
    using bl old(1) [of j] by (cases "j = i") (auto simp: live_def inode_blank_def)
  have ch: "children (?nd' j) = children (?nd j)" if "j \<noteq> i" "j \<noteq> p" for j using that unfolding t' by (simp add: pruned_def)
  have only: "j = p" if "live ?nd j" "i \<in> set (K j)" for j using dir_okD(6) [OF tree_invD(6) [OF inv that(1)] that(2)] i(3) by simp
  have sb: "sibling (?nd' j) = sibling (?nd j)" if "j \<noteq> i" "xs \<noteq> [] \<Longrightarrow> j \<noteq> last xs" for j using that unfolding t' by (simp add: pruned_def)
  have chain: "sibs ?nd' (children (?nd' p)) (xs @ ys)"
  proof (cases "xs = []")
    case True
    have "children (?nd' p) = sibling (?nd i)" using True ip unfolding t' by (simp add: pruned_def)
    moreover have "sibs ?nd (sibling (?nd i)) ys" using dp(1) p(2) True by simp
    moreover have "sibs ?nd' c ys = sibs ?nd c ys" for c by (rule sibs_cong, rule sb) (use dx True in auto)
    ultimately show ?thesis using True by simp
  next
    case False
    have cp: "children (?nd' p) = children (?nd p)" using False ip nl unfolding t' by (simp add: pruned_def)
    show ?thesis unfolding cp
    proof (rule sibs_drop)
      show "sibs ?nd (children (?nd p)) (xs @ i # ys)" using dp(1) p(2) by simp
      show "sibling (?nd' (last xs)) = sibling (?nd i)" using False nl unfolding t' by (simp add: pruned_def)
      show "sibling (?nd' j) = sibling (?nd j)" if "j \<in> set (xs @ ys)" "j \<noteq> last xs" for j
        by (rule sb) (use that dx in auto)
    qed (use dx False in auto)
  qed
  have kd: "live ?nd' c \<and> parent (?nd' c) = Some j" if "live ?nd j" "c \<in> set (K j)" "c \<noteq> i" for c j
    using dir_okD(5,6) [OF tree_invD(6) [OF inv that(1)] that(2)] old(4) [OF that(3)] lv that(3) by simp
  have lastp: "xs \<noteq> [] \<Longrightarrow> last xs \<in> set (K p)" using p(2) by simp
  have dir: "dir_ok ?K ?nd' j" if lj: "live ?nd' j" for j
  proof (cases "j = p")
    case True
    have "map (\<lambda>k. iname (?nd' k)) (xs @ ys) = map (\<lambda>k. iname (?nd k)) (xs @ ys)" by (rule map_cong [OF refl], rule old(3)) (use dx in auto)
    moreover have "distinct (map (\<lambda>k. iname (?nd k)) (xs @ ys))" using dp(3) p(2) by auto
    ultimately have dm: "distinct (map (\<lambda>k. iname (?nd' k)) (xs @ ys))" by (simp only:)
    have "live ?nd' c \<and> parent (?nd' c) = Some p" if "c \<in> set (xs @ ys)" for c by (rule kd [OF p(1)]) (use that p(2) dx in auto)
    moreover have "is_dir (?nd' p)" using dp(4) p(2) old(2) [of p] ip by simp
    ultimately show ?thesis using True chain dx(3) dm by (simp add: dir_ok_def)
  next
    case False
    have l: "live ?nd j" "j \<noteq> i" using lj lv by auto
    note d = tree_invD(6) [OF inv l(1)]
    have ni: "i \<notin> set (K j)" using only [OF l(1)] False by blast
    have nl2: "last xs \<notin> set (K j)" if "xs \<noteq> []"
      using dir_okD(6) [OF d, of "last xs"] dp(6) [OF lastp [OF that]] False by auto
    have s: "sibs ?nd' c (K j) = sibs ?nd c (K j)" for c by (rule sibs_cong, rule sb) (use ni nl2 in auto)
    have "map (\<lambda>k. iname (?nd' k)) (K j) = map (\<lambda>k. iname (?nd k)) (K j)" by (rule map_cong [OF refl], rule old(3)) (use ni in auto)
    then have dm: "distinct (map (\<lambda>k. iname (?nd' k)) (K j))" using dir_okD(3) [OF d] by (simp only:)
    have "live ?nd' c \<and> parent (?nd' c) = Some j" if "c \<in> set (K j)" for c by (rule kd [OF l(1)]) (use that ni in auto)
    then show ?thesis using False dm d s ch [OF l(2) False] old(2) [OF l(2)] by (simp add: dir_ok_def)
  qed
  have hang: "hangs ?K ?nd' c" if lc: "live ?nd' c" "c \<noteq> r" for c
  proof -
    have c: "live ?nd c" "c \<noteq> i" using lc lv by auto
    obtain q where q: "name_ok (iname (?nd c))" "parent (?nd c) = Some q" "live ?nd q" "c \<in> set (K q)"
      using tree_invD(8) [OF inv c(1) lc(2)] unfolding hangs_def by blast
    have "q \<noteq> i" using q(4) i(2) by auto
    then have lq: "live ?nd' q" using q(3) lv by blast
    have "c \<in> set (?K q)" using q(4) c(2) p(2) by (cases "q = p") auto
    then show ?thesis using q(1,2) lq unfolding hangs_def old(3,4) [OF c(2)] by blast
  qed
  have rk: "ranked ?nd'"
  proof -
    obtain d :: "nat \<Rightarrow> nat" where d: "\<And>c q. live ?nd c \<Longrightarrow> parent (?nd c) = Some q \<Longrightarrow> d q < d c"
      using tree_invD(5) [OF inv] unfolding ranked_def by blast
    have "d q < d c" if "live ?nd' c" "parent (?nd' c) = Some q" for c q using that lv old(4) d by auto
    then show ?thesis unfolding ranked_def by blast
  qed
  have ri: "r \<noteq> i" using tree_invD(4) [OF inv] i(3) by auto
  have dat: "data_ok (?nd' j)" if "live ?nd' j" for j using that lv tree_invD(7) [OF inv] old(5) by blast
  show "tree_inv ?K r t'"
    unfolding tree_inv_def using tree_invD(1-4) [OF inv] t'(2) lv old(2,4) [OF ri] ri rk dir dat hang by auto
qed

lemma look_pruned:
  fixes t' :: tmpfs_data
  assumes inv: "tree_inv K r t" and i: "live (inodes t) i" "K i = []" "parent (inodes t i) = Some p" and p: "live (inodes t) p" "K p = xs @ i # ys"
    and t': "inodes t' = pruned p xs i (inodes t)" "root t' = root t"
  shows "live (inodes t) j \<Longrightarrow> j \<noteq> i \<Longrightarrow> look (inodes t') (K(p := xs @ ys)) j q = (case look (inodes t) K j q of None \<Rightarrow> None | Some k \<Rightarrow> if k = i then None else Some k)"
proof (induction q arbitrary: j)
  case (Cons s q)
  let ?nd = "inodes t" and ?nd' = "inodes t'" and ?K = "K(p := xs @ ys)"
  note inv' = tree_remove(1) [of K r t i p xs ys t', OF inv i p t'] and st = tree_remove(2) [of K r t i p xs ys t', OF inv i p t']
  have ip: "i \<noteq> p" using i(2) p(2) by auto
  have bl: "?nd' i = inode_blank" unfolding t' by (simp add: pruned_def)
  have lj: "live ?nd' j" using Cons.prems strip_fields(1) [OF st [OF Cons.prems(2)]] by (simp add: live_def)
  note d = tree_invD(6) [OF inv Cons.prems(1)] and d' = tree_invD(6) [OF inv' lj]
  have dist: "i \<notin> set xs \<union> set ys" using dir_okD(2) [OF tree_invD(6) [OF inv p(1)]] p(2) by auto
  have only: "i \<in> set (K j) \<Longrightarrow> j = p" using dir_okD(6) [OF d, of i] i(3) by simp
  have mem: "k \<in> set (?K j) \<longleftrightarrow> k \<in> set (K j) \<and> k \<noteq> i" for k using dist only p(2) by (cases "j = p") auto
  have f: "find (\<lambda>k. iname (?nd' k) = s) (?K j) = Some k \<longleftrightarrow> find (\<lambda>k. iname (?nd k) = s) (K j) = Some k \<and> k \<noteq> i" for k
    unfolding find_child [OF d] find_child [OF d'] mem using strip_fields(3) [OF st, of k] by (cases "k = i") simp_all
  have li: "look ?nd K i u = (if u = [] then Some i else None)" for u using i(2) by (cases u) simp_all
  show ?case
  proof (cases "find (\<lambda>k. iname (?nd k) = s) (K j)")
    case None
    then have "find (\<lambda>k. iname (?nd' k) = s) (?K j) = None" using f by (cases "find (\<lambda>k. iname (?nd' k) = s) (?K j)") auto
    then show ?thesis using None by (simp del: fun_upd_apply)
  next
    case (Some k)
    show ?thesis
    proof (cases "k = i")
      case True
      then have "find (\<lambda>k. iname (?nd' k) = s) (?K j) = None" using f Some by (cases "find (\<lambda>k. iname (?nd' k) = s) (?K j)") auto
      then show ?thesis using Some True li by (simp del: fun_upd_apply)
    next
      case False
      then have "find (\<lambda>k. iname (?nd' k) = s) (?K j) = Some k" using f Some by blast
      moreover have "live ?nd k" using find_child [OF d] Some dir_okD(5) [OF d] by blast
      ultimately show ?thesis using Some Cons.IH [OF _ False] by (simp del: fun_upd_apply)
    qed
  qed
qed simp
end
