(* ===== verification/Tmpfs_Ops.thy ===== *)
theory Tmpfs_Ops
  imports Tmpfs_Tree
begin

text \<open>
  The operations of the in-memory file system against a view that maps the components of a path to what a
  user sees: kind, mode, owner, group and contents. Creating adds one entry to the view, removing
  takes one away, writing and truncating change the contents of one file as \<^verbatim>\<open>POSIX\<close> says, and nothing else changes.
\<close>

section \<open>The view\<close>

definition node_bytes :: "tmpfs_inode \<Rightarrow> u8 list" where
  "node_bytes x = (case idata x of None \<Rightarrow> [] | Some d \<Rightarrow> take (isize x) d)"

definition node_view :: "tmpfs_inode \<Rightarrow> bool \<times> u16 \<times> u32 \<times> u32 \<times> u8 list" where
  "node_view x = (is_dir x, imode x, iuid x, igid x, node_bytes x)"

definition fview :: "tmpfs_data \<Rightarrow> string list \<Rightarrow> (bool \<times> u16 \<times> u32 \<times> u32 \<times> u8 list) option" where
  "fview t p = (case root t of None \<Rightarrow> None | Some r \<Rightarrow> map_option (\<lambda>i. node_view (inodes t i)) (look (inodes t) (kids (inodes t)) r p))"

definition tree_ok :: "tmpfs_data \<Rightarrow> bool" where
  "tree_ok t \<longleftrightarrow> (\<exists>K r. tree_inv K r t)"

definition fs_ok :: "tmpfs_instances \<Rightarrow> bool" where
  "fs_ok fs \<longleftrightarrow> list_all tree_ok fs"

definition rel_path :: "string \<Rightarrow> tmpfs_data \<Rightarrow> string" where
  "rel_path path t =
     (let rel = dropWhile (\<lambda>c. c = slash) (drop (length (mount_point t)) path) in if rel = [] then ''/'' else rel)"

text \<open>The instance a path belongs to and the components below its mount point; the code cuts the relative path at 255 characters.\<close>

definition path_place :: "string \<Rightarrow> tmpfs_instances \<Rightarrow> (nat \<times> string list) option" where
  "path_place path fs =
     (case tmpfs_get_instance_for_path (Some path) fs of
        None \<Rightarrow> None
      | Some k \<Rightarrow> Some (k, comps (take 255 (rel_path path (fs ! k)))))"

lemma look_kids:
  assumes inv: "tree_inv K r t"
  shows "live (inodes t) i \<Longrightarrow> look (inodes t) (kids (inodes t)) i p = look (inodes t) K i p"
proof (induction p arbitrary: i)
  case (Cons s p)
  note d = tree_invD(6) [OF inv Cons.prems]
  have k: "kids (inodes t) i = K i" by (rule kids_eq [OF inv Cons.prems])
  have "live (inodes t) j" if "find (\<lambda>j. iname (inodes t j) = s) (K i) = Some j" for j
    using that find_child [OF d] dir_okD(5) [OF d] by blast
  then show ?case using Cons.IH k by (simp split: option.split)
qed simp

lemma fview_look: "tree_inv K r t \<Longrightarrow> fview t p = map_option (\<lambda>i. node_view (inodes t i)) (look (inodes t) K r p)"
  using look_kids [of K r t r p] tree_invD(1,2) [of K r t] by (simp add: fview_def)

lemma node_view_strip: "strip x = strip y \<Longrightarrow> node_view x = node_view y"
  using strip_fields [of x y] by (simp add: node_view_def node_bytes_def cong: option.case_cong)

section \<open>Paths\<close>

lemma fs_ok_nth: "fs_ok fs \<Longrightarrow> k < length fs \<Longrightarrow> \<exists>K r. tree_inv K r (fs ! k)"
  by (simp add: fs_ok_def list_all_length tree_ok_def)

lemma fs_ok_update: "fs_ok fs \<Longrightarrow> tree_inv K r t \<Longrightarrow> fs_ok (fs[k := t])"
  by (auto simp: fs_ok_def tree_ok_def list_all_iff dest: set_update_subset_insert [THEN subsetD])

lemma place_index: "path_place path fs = Some (k, cs) \<Longrightarrow> k < length fs \<and> tmpfs_get_instance_for_path (Some path) fs = Some k"
  by (auto simp: path_place_def tmpfs_get_instance_for_path_def split: option.splits dest: first_index_SomeD)

lemma relative_path:
  assumes "tmpfs_get_instance_for_path (Some path) fs = Some k"
  shows "tmpfs_get_relative_path (Some path) (Some (mount_point (fs ! k))) = Some (rel_path path (fs ! k))"
proof -
  have "under_mount (mount_point (fs ! k)) path" using assms by (auto simp: tmpfs_get_instance_for_path_def dest: first_index_SomeD)
  then show ?thesis by (simp add: tmpfs_get_relative_path_def under_mount_def rel_path_def Let_def)
qed


lemma find_inode_place:
  assumes ok: "fs_ok fs" and pl: "path_place path fs = Some (k, cs)" and inv: "tree_inv K r (fs ! k)"
  shows "tmpfs_find_inode (Some path) fs = Done (map_option (Pair k) (look (inodes (fs ! k)) K r cs))"
proof -
  have k: "tmpfs_get_instance_for_path (Some path) fs = Some k" and cs: "cs = comps (take 255 (rel_path path (fs ! k)))"
    using place_index [OF pl] pl by (simp_all add: path_place_def)
  show ?thesis by (simp add: tmpfs_find_inode_def k relative_path [OF k] lookup_look [OF inv] cs)
qed

lemma find_inode_nowhere: "path_place path fs = None \<Longrightarrow> tmpfs_find_inode (Some path) fs = Done None"
  by (auto simp: path_place_def tmpfs_find_inode_def split: option.splits)

lemma split_parent_comps:
  assumes sp: "split_parent rel = (pp, name)" and ne: "name \<noteq> []"
  shows "comps (take 255 rel) = comps (take 255 pp) @ [name]" "slash \<notin> set name" "length name \<le> 255"
proof -
  let ?s = "take 255 rel"
  have "comps ?s = comps (take 255 pp) @ [name] \<and> slash \<notin> set name \<and> length name \<le> 255"
  proof (cases "slash \<in> set ?s")
    case False
    then have "pp = ''/''" "name = ?s" using sp by (simp_all add: split_parent_def before_last_slash_def)
    then show ?thesis using False ne comps_plain [OF False] by (simp add: comps_def)
  next
    case True
    let ?w = "takeWhile (\<lambda>c. c \<noteq> slash) (rev ?s)" and ?u = "dropWhile (\<lambda>c. c \<noteq> slash) (rev ?s)"
    have u: "?u \<noteq> []" using True by (simp add: dropWhile_eq_Nil_conv)
    then obtain v where v: "?u = slash # v" using hd_dropWhile [of "\<lambda>c. c \<noteq> slash" "rev ?s"] by (cases ?u) auto
    have "rev ?s = ?w @ slash # v" using takeWhile_dropWhile_id [of "\<lambda>c. c \<noteq> slash" "rev ?s"] v by simp
    then have "rev (rev ?s) = rev (?w @ slash # v)" by (simp only:)
    then have s: "?s = rev v @ slash # rev ?w" by simp
    have par: "before_last_slash ?s = Some (rev v)" using True v by (simp add: before_last_slash_def)
    have n: "name = rev ?w" "pp = (if rev v = [] then ''/'' else rev v)" using sp par by (auto simp: split_parent_def Let_def)
    have nw: "slash \<notin> set name" using n by (auto dest: set_takeWhileD)
    have "length (rev v @ slash # rev ?w) \<le> 255" unfolding s [symmetric] by simp
    then have len: "length v < 255" "length name \<le> 255" using n by simp_all
    have "comps ?s = comps (rev v @ slash # rev ?w)" using s by (simp only:)
    also have "\<dots> = comps (rev v) @ [name]" using comps_append_slash comps_plain [OF nw ne] n by simp
    finally have "comps ?s = comps (take 255 pp) @ [name]" using len n by (simp add: comps_def)
    then show ?thesis using nw len by simp
  qed
  then show "comps (take 255 rel) = comps (take 255 pp) @ [name]" "slash \<notin> set name" "length name \<le> 255" by simp_all
qed

lemma split_parent_empty:
  assumes "split_parent rel = (pp, name)" "rel \<noteq> []" "length name = 0 \<or> length name > TMPFS_MAX_NAME_LEN"
  shows "last (take 255 rel) = slash"
proof -
  let ?s = "take 255 rel"
  have s: "?s \<noteq> []" using assms(2) by simp
  have "length name \<le> 255"
    using assms(1) length_takeWhile_le [of _ "rev ?s"] by (auto simp: split_parent_def Let_def split: option.splits intro: le_trans)
  then have n: "name = []" using assms(3) by (simp add: TMPFS_MAX_NAME_LEN_def)
  then have "takeWhile (\<lambda>c. c \<noteq> slash) (rev ?s) = []" using assms(1) s by (auto simp: split_parent_def Let_def split: option.splits)
  then have "hd (rev ?s) = slash" using s by (cases "rev ?s") (auto split: if_splits)
  then show ?thesis by (simp add: hd_rev)
qed

lemma rel_path_nonempty: "rel_path path t \<noteq> []"
  by (simp add: rel_path_def Let_def)

section \<open>Creating\<close>

lemma alloc_inode_cases:
  obtains (full) "tmpfs_alloc_inode now t = (None, t)" "\<forall>i<TMPFS_MAX_FILES. ino (inodes t i) \<noteq> 0"
  | (got) i t1 where "tmpfs_alloc_inode now t = (Some i, t1)" "i < TMPFS_MAX_FILES" "ino (inodes t i) = 0" "root t1 = root t" "mount_point t1 = mount_point t"
      "inodes t1 = (inodes t)(i := inode_blank\<lparr>ino := next_ino t + 1, mtime := now\<rparr>)" "next_ino t1 = next_ino t + 1"
proof (cases "find (\<lambda>i. ino (inodes t i) = 0) [0..<TMPFS_MAX_FILES]")
  case None
  then have "tmpfs_alloc_inode now t = (None, t)" by (simp add: tmpfs_alloc_inode_def)
  moreover have "\<forall>i<TMPFS_MAX_FILES. ino (inodes t i) \<noteq> 0" using None by (simp add: find_None_iff)
  ultimately show ?thesis by (rule full)
next
  case (Some i)
  then have "i < TMPFS_MAX_FILES" "ino (inodes t i) = 0" by (auto simp: find_Some_iff)
  then show ?thesis using Some got by (simp add: tmpfs_alloc_inode_def)
qed

text \<open>A new leaf in the view.\<close>

lemma fview_added:
  assumes inv: "tree_inv K r t" and p: "look (inodes t) K r path = Some p" "is_dir (inodes t p)"
    and i: "i < TMPFS_MAX_FILES" "ino (inodes t i) = 0"
    and x: "ino x \<noteq> 0" "name_ok (iname x)" "data_ok x" "children x = None"
    and new: "look (inodes t) K r (path @ [iname x]) = None"
    and t': "inodes t' = grown p i x (inodes t)" "root t' = root t"
  shows "tree_inv (K(p := i # K p, i := [])) r t'" "fview t' = (fview t)(path @ [iname x] \<mapsto> node_view x)"
proof -
  have lp: "live (inodes t) p" by (rule look_live [OF inv tree_invD(2) [OF inv] p(1)])
  have li: "\<not> live (inodes t) i" using i(2) by (simp add: live_def)
  have ip: "i \<noteq> p" using lp li by auto
  have fr: "find (\<lambda>j. iname (inodes t j) = iname x) (K p) = None" using new p(1) by (simp add: look_snoc)
  show inv': "tree_inv (K(p := i # K p, i := [])) r t'" by (rule tree_add [OF inv lp p(2) i(1) li x fr t'])
  have nv: "node_view (inodes t' j) = node_view (inodes t j)" if "live (inodes t) j" for j
    using that li unfolding t' by (intro node_view_strip) (auto simp: grown_def)
  have ni: "node_view (inodes t' i) = node_view x" using ip unfolding t' by (simp add: grown_def node_view_def node_bytes_def cong: option.case_cong)
  show "fview t' = (fview t)(path @ [iname x] \<mapsto> node_view x)"
  proof
    fix q
    have l: "look (inodes t') (K(p := i # K p, i := [])) r q = (case look (inodes t) K r q of Some k \<Rightarrow> Some k
        | None \<Rightarrow> if \<exists>q'. q = q' @ [iname x] \<and> look (inodes t) K r q' = Some p then Some i else None)"
      unfolding t' by (rule look_grown [OF inv lp li ip fr tree_invD(2) [OF inv]])
    have u: "(\<exists>q'. q = q' @ [iname x] \<and> look (inodes t) K r q' = Some p) \<longleftrightarrow> q = path @ [iname x]"
      using p(1) look_inj [OF inv _ p(1)] by blast
    show "fview t' q = ((fview t)(path @ [iname x] \<mapsto> node_view x)) q"
    proof (cases "look (inodes t) K r q")
      case None
      then show ?thesis using l u ni by (simp add: fview_look [OF inv'] fview_look [OF inv])
    next
      case (Some k)
      then have "q \<noteq> path @ [iname x]" using new by auto
      then show ?thesis using l Some nv look_live [OF inv tree_invD(2) [OF inv] Some] by (simp add: fview_look [OF inv'] fview_look [OF inv])
    qed
  qed
qed

lemma add_child_grown: "p \<noteq> i \<Longrightarrow> inodes (add_child p i x t) = grown p i x (inodes t)" "root (add_child p i x t) = root t"
  "mount_point (add_child p i x t) = mount_point t" "next_ino (add_child p i x t) = next_ino t" "total_size (add_child p i x t) = total_size t"
  by (simp_all add: add_child_def grown_def Let_def)

lemma grown_same: "p \<noteq> i \<Longrightarrow> grown p i x (nd(i := y)) = grown p i x nd"
  by (simp add: grown_def fun_upd_twist)

text \<open>The common part of creating a name: the checks, then a free inode below the parent.\<close>

definition made :: "bool \<Rightarrow> fs_cred \<Rightarrow> u32 \<Rightarrow> bool \<times> u16 \<times> u32 \<times> u32 \<times> u8 list" where
  "made dir cr mode = (dir, new_mode cr (if dir then S_IFDIR else S_IFREG) mode, new_uid cr, new_gid cr, [])"

lemma tmpfs_make_run:
  assumes ok: "fs_ok fs" and pl: "path_place path fs = Some (k, cs)" and wrap: "next_ino (fs ! k) \<noteq> - 1"
  shows "\<exists>r fs'. tmpfs_make dir cr now (Some path) mode fs = Done (r, fs') \<and> fs_ok fs' \<and>
    (case r of
       Inl er \<Rightarrow> fs' = fs \<and>
         (if fview (fs ! k) cs \<noteq> None then er = EEXIST
          else er = EINVAL \<and> last (take 255 (rel_path path (fs ! k))) = slash \<or>
               er = ENOENT \<and> (\<forall>v. fview (fs ! k) (butlast cs) = Some v \<longrightarrow> \<not> fst v) \<or>
               er = ENOSPC \<and> (\<forall>i<TMPFS_MAX_FILES. ino (inodes (fs ! k) i) \<noteq> 0))
     | Inr _ \<Rightarrow> cs \<noteq> [] \<and> fview (fs ! k) cs = None \<and> (\<exists>v. fview (fs ! k) (butlast cs) = Some v \<and> fst v) \<and>
         (\<exists>t'. fs' = fs[k := t'] \<and> mount_point t' = mount_point (fs ! k) \<and> next_ino t' = next_ino (fs ! k) + 1 \<and> fview t' = (fview (fs ! k))(cs \<mapsto> made dir cr mode)))"
    (is "\<exists>r fs'. _ = _ \<and> _ \<and> ?post r fs'")
proof -
  let ?t = "fs ! k"
  have kf: "k < length fs" "tmpfs_get_instance_for_path (Some path) fs = Some k" using place_index [OF pl] by simp_all
  obtain K r0 where inv: "tree_inv K r0 ?t" using fs_ok_nth [OF ok kf(1)] by blast
  define rel where "rel = rel_path path ?t"
  have cs: "cs = comps (take 255 rel)" using pl kf by (simp add: path_place_def rel_def)
  obtain pp name where sp: "split_parent rel = (pp, name)" by (cases "split_parent rel")
  have run: "tmpfs_make dir cr now (Some path) mode fs =
      (if look (inodes ?t) K r0 cs \<noteq> None then Done (Inl EEXIST, fs)
       else if length name = 0 \<or> length name > TMPFS_MAX_NAME_LEN then Done (Inl EINVAL, fs)
       else case look (inodes ?t) K r0 (comps (take 255 pp)) of
              None \<Rightarrow> Done (Inl ENOENT, fs)
            | Some p \<Rightarrow>
                if \<not> is_dir (inodes ?t p) then Done (Inl ENOENT, fs)
                else (case tmpfs_alloc_inode now ?t of
                        (None, t1) \<Rightarrow> Done (Inl ENOSPC, fs)
                      | (Some i, t1) \<Rightarrow>
                          Done (Inr (), fs[k := add_child p i
                            ((inodes t1 i)\<lparr>imode := new_mode cr (if dir then S_IFDIR else S_IFREG) mode, iuid := new_uid cr, igid := new_gid cr,
                               is_dir := dir, iname := take TMPFS_MAX_NAME_LEN name\<rparr>) t1])))"
    by (simp add: tmpfs_make_def Let_def kf(2) relative_path [OF kf(2)] rel_def [symmetric] lookup_look [OF inv] cs sp cong: option.case_cong if_cong)
  note fv = fview_look [OF inv]
  show ?thesis
  proof (cases "look (inodes ?t) K r0 cs \<noteq> None \<or> length name = 0 \<or> length name > TMPFS_MAX_NAME_LEN")
    case True
    have "last (take 255 rel) = slash" if "length name = 0 \<or> length name > TMPFS_MAX_NAME_LEN"
      using split_parent_empty [OF sp _ that] rel_path_nonempty by (simp add: rel_def)
    then show ?thesis using ok True unfolding run rel_def [symmetric] by (auto simp: fv)
  next
    case False
    then have nm: "name \<noteq> []" "look (inodes ?t) K r0 cs = None" "length name \<le> TMPFS_MAX_NAME_LEN" by auto
    note s = split_parent_comps [OF sp nm(1)]
    have cs2: "cs = comps (take 255 pp) @ [name]" using s(1) cs by simp
    have bl: "butlast cs = comps (take 255 pp)" "cs \<noteq> []" using cs2 by simp_all
    show ?thesis
    proof (cases "\<exists>p. look (inodes ?t) K r0 (butlast cs) = Some p \<and> is_dir (inodes ?t p)")
      case nop: False
      then have "tmpfs_make dir cr now (Some path) mode fs = Done (Inl ENOENT, fs)" using False bl unfolding run by (auto split: option.split)
      moreover have "\<not> fst v" if "fview ?t (butlast cs) = Some v" for v using that nop by (auto simp: fv node_view_def)
      ultimately show ?thesis using ok nm(2) by (auto simp: fv)
    next
      case True
      then obtain p where p: "look (inodes ?t) K r0 (butlast cs) = Some p" "is_dir (inodes ?t p)" by blast
      show ?thesis
      proof (cases rule: alloc_inode_cases [of now ?t])
        case full
        then have "tmpfs_make dir cr now (Some path) mode fs = Done (Inl ENOSPC, fs)" using False bl p unfolding run by simp
        then show ?thesis using ok nm(2) full(2) by (auto simp: fv)
      next
        case (got i t1)
        define x where "x = (inodes t1 i)\<lparr>imode := new_mode cr (if dir then S_IFDIR else S_IFREG) mode, iuid := new_uid cr, igid := new_gid cr,
             is_dir := dir, iname := take TMPFS_MAX_NAME_LEN name\<rparr>"
        have lp: "live (inodes ?t) p" by (rule look_live [OF inv tree_invD(2) [OF inv] p(1)])
        have pi: "p \<noteq> i" using lp got(3) by (auto simp: live_def)
        have xn: "iname x = name" using nm(3) by (simp add: x_def)
        have i0: "next_ino ?t + 1 \<noteq> 0" using wrap by (simp add: eq_neg_iff_add_eq_0)
        have x: "ino x \<noteq> 0" "name_ok (iname x)" "data_ok x" "children x = None"
          using got(6) i0 nm s(2) xn by (simp_all add: x_def name_ok_def data_ok_def inode_blank_def)
        have g: "inodes (add_child p i x t1) = grown p i x (inodes ?t)" using add_child_grown(1) [OF pi] grown_same [OF pi] got(6) by simp
        have rt: "root (add_child p i x t1) = root ?t" using add_child_grown(2) got(4) by simp
        have nw: "look (inodes ?t) K r0 (butlast cs @ [iname x]) = None" using nm(2) bl cs2 xn by simp
        note fa = fview_added [OF inv p got(2,3) x nw g rt]
        have v: "node_view x = made dir cr mode" using got(6) by (simp add: x_def node_view_def node_bytes_def made_def inode_blank_def)
        have "butlast cs @ [iname x] = cs" using bl cs2 xn by simp
        then have f: "fview (add_child p i x t1) = (fview ?t)(cs \<mapsto> made dir cr mode)" using fa(2) v by simp
        have "tmpfs_make dir cr now (Some path) mode fs = Done (Inr (), fs[k := add_child p i x t1])"
          using False bl p got(1) unfolding run x_def by simp
        moreover have "fs_ok (fs[k := add_child p i x t1])" by (rule fs_ok_update [OF ok fa(1)])
        moreover have "\<exists>v. fview ?t (butlast cs) = Some v \<and> fst v" using p by (simp add: fv node_view_def)
        ultimately show ?thesis using f bl nm(2) add_child_grown(3,4) got(5,7) by (auto simp: fv)
      qed
    qed
  qed
qed

section \<open>Removing\<close>

lemma free_fuel_Suc: "free_fuel = Suc (Suc 256)"
  by (simp add: free_fuel_def TMPFS_MAX_FILES_def)

lemma free_leaf:
  assumes inv: "tree_inv K r t" and i: "live (inodes t) i" "i \<noteq> r" "K i = []"
  shows "\<exists>t' p xs ys. tmpfs_free_inode i t = Done t' \<and> parent (inodes t i) = Some p \<and> live (inodes t) p \<and> K p = xs @ i # ys \<and>
    inodes t' = pruned p xs i (inodes t) \<and> root t' = root t \<and> mount_point t' = mount_point t \<and> next_ino t' = next_ino t"
proof -
  obtain p where p: "parent (inodes t i) = Some p" "live (inodes t) p" "i \<in> set (K p)"
    using tree_invD(8) [OF inv i(1,2)] unfolding hangs_def by blast
  then obtain xs ys where xs: "K p = xs @ i # ys" "i \<notin> set xs" by (meson split_list_first)
  note d = dir_okD [OF tree_invD(6) [OF inv p(2)]]
  have ip: "i \<noteq> p" using i(3) xs by auto
  have sp: "sib_prev (inodes t) None (children (inodes t p)) i = Some (Some (last_or None xs))"
    using sib_prev_sibs [of "inodes t" "children (inodes t p)" xs i ys] d(1) xs by simp
  have ch: "children (inodes t i) = None" using dir_okD(1) [OF tree_invD(6) [OF inv i(1)]] i(3) by simp
  have nl: "last xs \<noteq> i" if "xs \<noteq> []" using xs(2) that by (metis last_in_set)
  define t1 where "t1 = (if idata (inodes t i) = None then t else t\<lparr>total_size := sub64 (total_size t) (isize (inodes t i))\<rparr>)"
  have t1: "inodes t1 = inodes t" "root t1 = root t" "mount_point t1 = mount_point t" "next_ino t1 = next_ino t" by (simp_all add: t1_def)
  define t2 where "t2 = (if xs = [] then set_inode p ((inodes t p)\<lparr>children := sibling (inodes t i)\<rparr>) t1
      else set_inode (last xs) ((inodes t (last xs))\<lparr>sibling := sibling (inodes t i)\<rparr>) t1)"
  have un: "unlink_child i t1 = Done t2" using p(1) sp by (simp add: unlink_child_def t1 t2_def last_or_def Let_def)
  have c2: "children (inodes t2 i) = None" using ch ip nl by (cases "xs = []") (auto simp: t2_def t1)
  have "tmpfs_free_inode i t = kbind (unlink_child i t1) (\<lambda>t2.
      kbind (free_children (Suc 256) (children (inodes t2 i)) t2) (\<lambda>t3. Done (set_inode i inode_blank t3)))"
    unfolding tmpfs_free_inode_def free_fuel_Suc free_inode.simps t1_def Let_def by (rule refl)
  then have "tmpfs_free_inode i t = Done (set_inode i inode_blank t2)" unfolding un by (simp only: kbind.simps c2 free_children.simps option.case)
  moreover have "inodes (set_inode i inode_blank t2) = pruned p xs i (inodes t)" by (simp add: t2_def t1 pruned_def)
  moreover have "root t2 = root t" "mount_point t2 = mount_point t" "next_ino t2 = next_ino t" by (simp_all add: t2_def t1)
  ultimately show ?thesis using p xs by auto
qed

lemma fview_removed:
  fixes t' :: tmpfs_data
  assumes inv: "tree_inv K r t" and l: "look (inodes t) K r cs = Some i" and i: "i \<noteq> r" "K i = []" "parent (inodes t i) = Some p"
    and p: "live (inodes t) p" "K p = xs @ i # ys" and t': "inodes t' = pruned p xs i (inodes t)" "root t' = root t"
  shows "tree_inv (K(p := xs @ ys)) r t'" "fview t' = (fview t)(cs := None)"
proof -
  have li: "live (inodes t) i" by (rule look_live [OF inv tree_invD(2) [OF inv] l])
  note rm = tree_remove [of K r t i p xs ys t', OF inv li i(2,3) p t']
  show inv': "tree_inv (K(p := xs @ ys)) r t'" by (rule rm(1))
  show "fview t' = (fview t)(cs := None)"
  proof
    fix q
    have lq: "look (inodes t') (K(p := xs @ ys)) r q = (case look (inodes t) K r q of None \<Rightarrow> None | Some k \<Rightarrow> if k = i then None else Some k)"
      by (rule look_pruned [of K r t i p xs ys t', OF inv li i(2,3) p t' tree_invD(2) [OF inv]]) (use i in auto)
    show "fview t' q = ((fview t)(cs := None)) q"
    proof (cases "look (inodes t) K r q")
      case None
      then show ?thesis using lq by (simp add: fview_look [OF inv'] fview_look [OF inv])
    next
      case (Some k)
      have "k = i \<longleftrightarrow> q = cs" using Some l look_inj [OF inv, of q k cs] by auto
      then show ?thesis using lq Some node_view_strip [OF rm(2), of k] by (simp add: fview_look [OF inv'] fview_look [OF inv])
    qed
  qed
qed

lemma tmpfs_remove_run:
  assumes ok: "fs_ok fs" and pl: "path_place path fs = Some (k, cs)" and inv: "tree_inv K r0 (fs ! k)"
    and leaf: "\<And>i. look (inodes (fs ! k)) K r0 cs = Some i \<Longrightarrow> refuse (fs ! k) i = None \<Longrightarrow> i \<noteq> r0 \<and> K i = []"
  shows "\<exists>r fs'. tmpfs_remove refuse (Some path) fs = Done (r, fs') \<and> fs_ok fs' \<and>
    (case r of
       Inl er \<Rightarrow> fs' = fs \<and> (case look (inodes (fs ! k)) K r0 cs of None \<Rightarrow> er = ENOENT | Some i \<Rightarrow> refuse (fs ! k) i = Some er)
     | Inr _ \<Rightarrow> (\<exists>i. look (inodes (fs ! k)) K r0 cs = Some i \<and> refuse (fs ! k) i = None) \<and>
         (\<exists>t'. fs' = fs[k := t'] \<and> mount_point t' = mount_point (fs ! k) \<and> next_ino t' = next_ino (fs ! k) \<and> fview t' = (fview (fs ! k))(cs := None)))"
proof -
  let ?t = "fs ! k"
  have kf: "k < length fs" "tmpfs_get_instance_for_path (Some path) fs = Some k" using place_index [OF pl] by simp_all
  have cs: "cs = comps (take 255 (rel_path path ?t))" using pl kf by (simp add: path_place_def)
  have run: "tmpfs_remove refuse (Some path) fs = (case look (inodes ?t) K r0 cs of
       None \<Rightarrow> Done (Inl ENOENT, fs)
     | Some i \<Rightarrow> (case refuse ?t i of Some er \<Rightarrow> Done (Inl er, fs) | None \<Rightarrow> kbind (tmpfs_free_inode i ?t) (\<lambda>t1. Done (Inr (), fs[k := t1]))))"
    by (simp add: tmpfs_remove_def Let_def kf(2) relative_path [OF kf(2)] lookup_look [OF inv] cs cong: option.case_cong)
  show ?thesis
  proof (cases "look (inodes ?t) K r0 cs")
    case None
    then show ?thesis using run ok by simp
  next
    case (Some i)
    show ?thesis
    proof (cases "refuse ?t i")
      case er: (Some er)
      then show ?thesis using Some run ok by simp
    next
      case None
      note i = leaf [OF Some None]
      have li: "live (inodes ?t) i" by (rule look_live [OF inv tree_invD(2) [OF inv] Some])
      obtain t' p xs ys where f: "tmpfs_free_inode i ?t = Done t'" "parent (inodes ?t i) = Some p" "live (inodes ?t) p" "K p = xs @ i # ys"
          "inodes t' = pruned p xs i (inodes ?t)" "root t' = root ?t" "mount_point t' = mount_point ?t" "next_ino t' = next_ino ?t"
        using free_leaf [OF inv li] i by blast
      note fr = fview_removed [of K r0 ?t cs i p xs ys t', OF inv Some conjunct1 [OF i] conjunct2 [OF i] f(2-6)]
      have "tmpfs_remove refuse (Some path) fs = Done (Inr (), fs[k := t'])" using run Some None f(1) by simp
      then show ?thesis using fs_ok_update [OF ok fr(1)] fr(2) f(7,8) Some None by auto
    qed
  qed
qed

text \<open>What an operation below the mount point of one instance does: its result and the view of that instance afterwards.\<close>

definition leads :: "tmpfs_instances \<Rightarrow> nat \<Rightarrow> 'a \<Rightarrow> (string list \<Rightarrow> (bool \<times> u16 \<times> u32 \<times> u32 \<times> u8 list) option) \<Rightarrow> ('a \<times> tmpfs_instances) kresult \<Rightarrow> bool" where
  "leads fs k r v res \<longleftrightarrow>
     (\<exists>t'. res = Done (r, fs[k := t']) \<and> fs_ok (fs[k := t']) \<and> mount_point t' = mount_point (fs ! k) \<and> next_ino t' = next_ino (fs ! k) \<and> fview t' = v)"

lemma leads_same: "fs_ok fs \<Longrightarrow> leads fs k r (fview (fs ! k)) (Done (r, fs))"
  unfolding leads_def by (rule exI [of _ "fs ! k"]) simp

lemma leads_contents:
  assumes ok: "fs_ok fs" and inv: "tree_inv K r0 (fs ! k)" and l: "look (inodes (fs ! k)) K r0 cs = Some i"
    and y: "same_place (inodes (fs ! k) i) y" "data_ok y"
  shows "leads fs k r ((fview (fs ! k))(cs \<mapsto> node_view y)) (Done (r, fs[k := set_inode i y (fs ! k)]))"
proof -
  let ?t = "fs ! k" and ?t' = "set_inode i y (fs ! k)"
  note tc = tree_contents [OF inv y(1) y(2)]
  have "fview ?t' q = ((fview ?t)(cs \<mapsto> node_view y)) q" for q
  proof (cases "look (inodes ?t) K r0 q")
    case None
    then show ?thesis using l by (auto simp: fview_look [OF tc(1)] fview_look [OF inv] tc(2))
  next
    case (Some j)
    have "j = i \<longleftrightarrow> q = cs" using Some l look_inj [OF inv, of q j cs] by auto
    then show ?thesis using Some l by (auto simp: fview_look [OF tc(1)] fview_look [OF inv] tc(2))
  qed
  then have "fview ?t' = (fview ?t)(cs \<mapsto> node_view y)" by blast
  then show ?thesis unfolding leads_def using fs_ok_update [OF ok tc(1), of k] by (intro exI [of _ ?t']) simp
qed

section \<open>Contents and attributes\<close>

text \<open>A file system as its user sees it: a map from the components of a path. The operations on it, with the errors of the code.\<close>

definition splice :: "u8 list \<Rightarrow> nat \<Rightarrow> u8 list \<Rightarrow> u8 list" where
  "splice c off b = take off (c @ replicate (off - length c) 0) @ b @ drop (off + length b) c"

definition spec_write where
  "spec_write mem off b cs v =
     (if off < 0 then (Inl EINVAL, v)
      else case v cs of
             None \<Rightarrow> (Inl ENOENT, v)
           | Some (dir, m, u, g, c) \<Rightarrow>
               if dir then (Inl EISDIR, v)
               else if nat off + length b > TMPFS_MAX_FILE_SIZE then (Inl EFBIG, v)
               else if nat off + length b > length c \<and> \<not> mem then (Inl ENOMEM, v)
               else (Inr (length b), v(cs \<mapsto> (False, m, u, g, splice c (nat off) b))))"

definition spec_truncate where
  "spec_truncate ok len cs v =
     (case v cs of
        None \<Rightarrow> (Inl ENOENT, v)
      | Some (dir, m, u, g, c) \<Rightarrow>
          if dir then (Inl EISDIR, v)
          else if len > TMPFS_MAX_FILE_SIZE then (Inl EFBIG, v)
          else if \<not> ok then (Inl ENOMEM, v)
          else (Inr (), v(cs \<mapsto> (False, m, u, g, take len c @ replicate (len - length c) 0))))"

definition spec_attr where
  "spec_attr f cs v =
     (case v cs of
        None \<Rightarrow> (Inl ENOENT, v)
      | Some (dir, m, u, g, c) \<Rightarrow> (case f (m, u, g) of (m', u', g') \<Rightarrow> (Inr (), v(cs \<mapsto> (dir, m', u', g', c)))))"

lemma bytes_length: "data_ok x \<Longrightarrow> length (node_bytes x) = isize x"
  by (auto simp: node_bytes_def data_ok_def split: option.splits)

lemma splice_within: "off + length b \<le> length c \<Longrightarrow> splice c off b = take off c @ b @ drop (off + length b) c"
  by (simp add: splice_def)

lemma splice_beyond: "length c \<le> off + length b \<Longrightarrow> splice c off b = take off (c @ replicate (off - length c) 0) @ b"
  by (simp add: splice_def)

lemma splice_length: "length (splice c off b) = max (length c) (off + length b)"
  by (simp add: splice_def)

lemma splice_read: "take (length b) (drop off (splice c off b)) = b"
proof -
  have "length (take off (c @ replicate (off - length c) 0)) = off" by simp
  then show ?thesis unfolding splice_def by (simp add: drop_append)
qed

lemma grow_block_ok: "data_ok x \<Longrightarrow> isize x \<le> n \<Longrightarrow> grow_block (idata x) (isize x) n = Done (node_bytes x @ replicate (n - isize x) 0)"
  by (auto simp: grow_block_def data_ok_def node_bytes_def split: option.splits)

lemma tmpfs_write_run:
  assumes ok: "fs_ok fs" and pl: "path_place path fs = Some (k, cs)"
  shows "leads fs k (fst (spec_write mem off b cs (fview (fs ! k)))) (snd (spec_write mem off b cs (fview (fs ! k))))
    (tmpfs_write_file mem now (Some path) (Some b) off fs)"
proof -
  let ?t = "fs ! k"
  obtain K r0 where inv: "tree_inv K r0 ?t" using fs_ok_nth [OF ok] place_index [OF pl] by blast
  note fi = find_inode_place [OF ok pl inv] and fv = fview_look [OF inv]
  note same = leads_same [OF ok, of k]
  show ?thesis
  proof (cases "off < 0 \<or> look (inodes ?t) K r0 cs = None")
    case True
    then show ?thesis using same by (auto simp: tmpfs_write_file_def spec_write_def fi fv)
  next
    case False
    then obtain i where l: "look (inodes ?t) K r0 cs = Some i" and o0: "\<not> off < 0" by auto
    let ?x = "inodes ?t i" and ?n = "nat off + length b"
    have dk: "data_ok ?x" using tree_invD(7) [OF inv] look_live [OF inv tree_invD(2) [OF inv] l] by blast
    note bl = bytes_length [OF dk]
    have nl: "(nat off > TMPFS_MAX_FILE_SIZE \<or> length b > TMPFS_MAX_FILE_SIZE - nat off) \<longleftrightarrow> ?n > TMPFS_MAX_FILE_SIZE" by linarith
    show ?thesis
    proof (cases "is_dir ?x \<or> ?n > TMPFS_MAX_FILE_SIZE \<or> ?n > isize ?x \<and> \<not> mem")
      case True
      have w: "tmpfs_write_file mem now (Some path) (Some b) off fs = Done (fst (spec_write mem off b cs (fview ?t)), fs)"
        "snd (spec_write mem off b cs (fview ?t)) = fview ?t"
        using True o0 bl by (elim disjE; simp add: tmpfs_write_file_def spec_write_def fi fv l node_view_def Let_def nl)+
      show ?thesis unfolding w by (rule same)
    next
      case False
      then have nd: "\<not> is_dir ?x" and sz: "?n \<le> TMPFS_MAX_FILE_SIZE" and mm: "?n > isize ?x \<Longrightarrow> mem" by auto
      obtain y where y: "same_place ?x y" "data_ok y" "node_view y = (False, imode ?x, iuid ?x, igid ?x, splice (node_bytes ?x) (nat off) b)"
        and w: "tmpfs_write_file mem now (Some path) (Some b) off fs = Done (Inr (length b), fs[k := set_inode i y ?t])"
      proof (cases "?n > isize ?x")
        case True
        let ?s = "splice (node_bytes ?x) (nat off) b"
        have bk: "take (nat off) (node_bytes ?x @ replicate (?n - isize ?x) 0) @ b = ?s"
          using True bl by (subst splice_beyond) (simp_all add: min_def)
        have ls: "length ?s = ?n" using True bl by (simp add: splice_length)
        show thesis
        proof (cases "b = []")
          case True
          have w: "tmpfs_write_file mem now (Some path) (Some b) off fs =
              Done (Inr (length b), fs[k := set_inode i (?x\<lparr>idata := Some ?s, isize := ?n, data_cap := ?n\<rparr>) ?t])"
            using True \<open>?n > isize ?x\<close> nd sz mm o0 bl bk nl by (simp add: tmpfs_write_file_def fi l Let_def grow_block_ok [OF dk])
          show thesis by (rule that [OF _ _ _ w]) (use nd ls in \<open>simp_all add: same_place_def data_ok_def node_view_def node_bytes_def\<close>)
        next
          case False
          have w: "tmpfs_write_file mem now (Some path) (Some b) off fs =
              Done (Inr (length b), fs[k := set_inode i (?x\<lparr>isize := ?n, data_cap := ?n, idata := Some ?s, mtime := now\<rparr>) ?t])"
            using False \<open>?n > isize ?x\<close> nd sz mm o0 bl bk nl by (simp add: tmpfs_write_file_def fi l Let_def grow_block_ok [OF dk])
          show thesis by (rule that [OF _ _ _ w]) (use nd ls in \<open>simp_all add: same_place_def data_ok_def node_view_def node_bytes_def\<close>)
        qed
      next
        case False
        show thesis
        proof (cases "b = []")
          case True
          have w: "tmpfs_write_file mem now (Some path) (Some b) off fs = Done (Inr (length b), fs[k := set_inode i ?x ?t])"
            using True False nd sz o0 nl by (simp add: tmpfs_write_file_def fi l Let_def)
          show thesis by (rule that [OF _ _ _ w]) (use True False nd bl dk in \<open>simp_all add: same_place_def node_view_def splice_within\<close>)
        next
          case b: False
          then have "isize ?x > 0" using False by (cases b) auto
          then obtain d where d: "idata ?x = Some d" "isize ?x \<le> length d" "data_cap ?x = length d" using dk by (auto simp: data_ok_def split: option.splits)
          let ?d = "take (nat off) d @ b @ drop ?n d"
          have w: "tmpfs_write_file mem now (Some path) (Some b) off fs = Done (Inr (length b), fs[k := set_inode i (?x\<lparr>idata := Some ?d, mtime := now\<rparr>) ?t])"
            using b False nd sz o0 d nl by (simp add: tmpfs_write_file_def fi l Let_def)
          have "nat off < isize ?x" "length b \<le> isize ?x - nat off" using b False by (cases b; auto)+
          then have "take (isize ?x) ?d = splice (take (isize ?x) d) (nat off) b"
            using False d by (subst splice_within) (simp_all add: min_def take_drop)
          then show thesis by (intro that [OF _ _ _ w]) (use False nd d in \<open>simp_all add: same_place_def data_ok_def node_view_def node_bytes_def\<close>)
        qed
      qed
      have "spec_write mem off b cs (fview ?t) = (Inr (length b), (fview ?t)(cs \<mapsto> node_view y))"
        using o0 nd sz mm bl by (simp add: spec_write_def fv l node_view_def y(3) [unfolded node_view_def])
      then show ?thesis using leads_contents [OF ok inv l y(1,2)] w by simp
    qed
  qed
qed

definition spec_read where
  "spec_read count off cs v =
     (case v cs of
        None \<Rightarrow> Inl ENOENT
      | Some (dir, m, u, g, c) \<Rightarrow>
          if dir then Inl EISDIR
          else if off < 0 \<or> nat off \<ge> length c then Inr None
          else Inr (Some (take count (drop (nat off) c))))"

lemma tmpfs_read_run:
  assumes ok: "fs_ok fs" and pl: "path_place path fs = Some (k, cs)"
  shows "tmpfs_read_file (Some path) (Some buf) count off fs = Done (spec_read count off cs (fview (fs ! k)))"
proof -
  let ?t = "fs ! k"
  obtain K r0 where inv: "tree_inv K r0 ?t" using fs_ok_nth [OF ok] place_index [OF pl] by blast
  note fi = find_inode_place [OF ok pl inv] and fv = fview_look [OF inv]
  show ?thesis
  proof (cases "look (inodes ?t) K r0 cs")
    case None
    then show ?thesis by (simp add: tmpfs_read_file_def spec_read_def fi fv)
  next
    case (Some i)
    let ?x = "inodes ?t i"
    have dk: "data_ok ?x" using tree_invD(7) [OF inv] look_live [OF inv tree_invD(2) [OF inv] Some] by blast
    note bl = bytes_length [OF dk]
    show ?thesis
    proof (cases "is_dir ?x \<or> off < 0 \<or> nat off \<ge> isize ?x")
      case True
      then show ?thesis using bl by (elim disjE; simp add: tmpfs_read_file_def spec_read_def fi fv Some node_view_def Let_def)
    next
      case False
      then obtain d where d: "idata ?x = Some d" "isize ?x \<le> length d" using dk by (auto simp: data_ok_def split: option.splits)
      have n: "node_bytes ?x = take (isize ?x) d" using d by (simp add: node_bytes_def)
      have e: "take count (drop (nat off) (node_bytes ?x)) = take (min count (isize ?x - nat off)) (drop (nat off) d)"
        using False d unfolding n by (simp add: drop_take)
      have "\<not> nat off + min count (isize ?x - nat off) > length d" using d False by linarith
      then show ?thesis using False bl d e by (simp add: tmpfs_read_file_def spec_read_def fi fv Some node_view_def Let_def)
    qed
  qed
qed

lemma tmpfs_truncate_run:
  assumes ok: "fs_ok fs" and pl: "path_place path fs = Some (k, cs)"
  shows "\<exists>room. (mem \<longrightarrow> room) \<and> (\<forall>dir m u g c. fview (fs ! k) cs = Some (dir, m, u, g, c) \<longrightarrow> len \<le> length c \<longrightarrow> room) \<and>
    leads fs k (fst (spec_truncate room len cs (fview (fs ! k)))) (snd (spec_truncate room len cs (fview (fs ! k))))
      (tmpfs_truncate mem now (Some path) len fs)"
proof -
  let ?t = "fs ! k"
  obtain K r0 where inv: "tree_inv K r0 ?t" using fs_ok_nth [OF ok] place_index [OF pl] by blast
  note fi = find_inode_place [OF ok pl inv] and fv = fview_look [OF inv]
  note same = leads_same [OF ok, of k]
  show ?thesis
  proof (cases "look (inodes ?t) K r0 cs")
    case None
    then show ?thesis using same by (intro exI [of _ True]) (simp add: tmpfs_truncate_def spec_truncate_def fi fv)
  next
    case (Some i)
    let ?x = "inodes ?t i"
    have dk: "data_ok ?x" using tree_invD(7) [OF inv] look_live [OF inv tree_invD(2) [OF inv] Some] by blast
    note bl = bytes_length [OF dk]
    define room where "room \<longleftrightarrow> mem \<or> len \<le> isize ?x \<or> idata ?x \<noteq> None \<and> len \<le> data_cap ?x"
    have "leads fs k (fst (spec_truncate room len cs (fview ?t))) (snd (spec_truncate room len cs (fview ?t))) (tmpfs_truncate mem now (Some path) len fs)"
    proof (cases "is_dir ?x \<or> len > TMPFS_MAX_FILE_SIZE \<or> \<not> room")
      case True
      consider (dir) "is_dir ?x" | (big) "\<not> is_dir ?x" "len > TMPFS_MAX_FILE_SIZE" | (full) "\<not> is_dir ?x" "\<not> len > TMPFS_MAX_FILE_SIZE" "\<not> room" using True by blast
      then have "tmpfs_truncate mem now (Some path) len fs = Done (fst (spec_truncate room len cs (fview ?t)), fs) \<and>
        snd (spec_truncate room len cs (fview ?t)) = fview ?t"
      proof cases
        case full
        then have "\<not> mem" "\<not> len < isize ?x" "len > isize ?x" "idata ?x = None \<or> \<not> len \<le> data_cap ?x" by (auto simp: room_def)
        then show ?thesis using full by (cases "idata ?x") (simp_all add: tmpfs_truncate_def spec_truncate_def fi fv Some node_view_def Let_def)
      qed (simp_all add: tmpfs_truncate_def spec_truncate_def fi fv Some node_view_def Let_def)
      then show ?thesis using same by simp
    next
      case False
      then have nd: "\<not> is_dir ?x" and sz: "\<not> len > TMPFS_MAX_FILE_SIZE" and rm: room by auto
      let ?c = "take len (node_bytes ?x) @ replicate (len - isize ?x) 0"
      obtain y where y: "same_place ?x y" "data_ok y" "node_view y = (False, imode ?x, iuid ?x, igid ?x, ?c)"
        and w: "tmpfs_truncate mem now (Some path) len fs = Done (Inr (), fs[k := set_inode i y ?t])"
      proof (cases "len \<le> isize ?x")
        case True
        show thesis
        proof (rule that [of "if len < isize ?x then ?x\<lparr>isize := len, mtime := now\<rparr> else ?x\<lparr>mtime := now\<rparr>"])
          show "tmpfs_truncate mem now (Some path) len fs =
              Done (Inr (), fs[k := set_inode i (if len < isize ?x then ?x\<lparr>isize := len, mtime := now\<rparr> else ?x\<lparr>mtime := now\<rparr>) ?t])"
            using True nd sz by (simp add: tmpfs_truncate_def fi Some Let_def)
        qed (use True nd dk bl in \<open>auto simp: same_place_def data_ok_def node_view_def node_bytes_def min_def split: option.splits\<close>)
      next
        case False
        show thesis
        proof (cases "idata ?x \<noteq> None \<and> len \<le> data_cap ?x")
          case True
          then obtain d where d: "idata ?x = Some d" "len \<le> length d" "isize ?x \<le> length d" "data_cap ?x = length d" using dk by (auto simp: data_ok_def)
          let ?d = "take (isize ?x) d @ replicate (len - isize ?x) 0 @ drop len d"
          have w: "tmpfs_truncate mem now (Some path) len fs = Done (Inr (), fs[k := set_inode i (?x\<lparr>idata := Some ?d, isize := len, mtime := now\<rparr>) ?t])"
            using False nd sz d by (simp add: tmpfs_truncate_def fi Some Let_def)
          show thesis by (rule that [OF _ _ _ w]) (use False nd d in \<open>simp_all add: same_place_def data_ok_def node_view_def node_bytes_def\<close>)
        next
          case nofit: False
          then have mem using rm False unfolding room_def by blast
          have w: "tmpfs_truncate mem now (Some path) len fs = Done (Inr (), fs[k := set_inode i
              (?x\<lparr>idata := Some (node_bytes ?x @ replicate (len - isize ?x) 0), isize := len, data_cap := len, mtime := now\<rparr>) ?t])"
            using False nofit nd sz \<open>mem\<close> grow_block_ok [OF dk, of len] by (cases "idata ?x") (simp_all add: tmpfs_truncate_def fi Some Let_def)
          show thesis by (rule that [OF _ _ _ w]) (use False nd bl in \<open>simp_all add: same_place_def data_ok_def node_view_def node_bytes_def\<close>)
        qed
      qed
      have "spec_truncate room len cs (fview ?t) = (Inr (), (fview ?t)(cs \<mapsto> node_view y))"
        using nd sz rm bl by (simp add: spec_truncate_def fv Some node_view_def y(3) [unfolded node_view_def])
      then show ?thesis using leads_contents [OF ok inv Some y(1,2)] w by simp
    qed
    moreover have "room" if "fview ?t cs = Some (dir, m, u, g, c)" "len \<le> length c" for dir m u g c
      using that bl by (simp add: room_def fv Some node_view_def)
    moreover have "mem \<longrightarrow> room" by (simp add: room_def)
    ultimately show ?thesis by (intro exI [of _ room] conjI) simp_all
  qed
qed

lemma tmpfs_attr_run:
  assumes ok: "fs_ok fs" and pl: "path_place path fs = Some (k, cs)"
    and h: "\<And>x. same_place x (h x) \<and> idata (h x) = idata x \<and> isize (h x) = isize x \<and> data_cap (h x) = data_cap x"
    and f: "\<And>x. (imode (h x), iuid (h x), igid (h x)) = f (imode x, iuid x, igid x)"
  shows "leads fs k (fst (spec_attr f cs (fview (fs ! k)))) (snd (spec_attr f cs (fview (fs ! k)))) (tmpfs_attr h (Some path) fs)"
proof -
  let ?t = "fs ! k"
  obtain K r0 where inv: "tree_inv K r0 ?t" using fs_ok_nth [OF ok] place_index [OF pl] by blast
  note fi = find_inode_place [OF ok pl inv] and fv = fview_look [OF inv]
  show ?thesis
  proof (cases "look (inodes ?t) K r0 cs")
    case None
    then show ?thesis using leads_same [OF ok, of k] by (simp add: tmpfs_attr_def spec_attr_def fi fv)
  next
    case (Some i)
    let ?x = "inodes ?t i"
    have dk: "data_ok ?x" using tree_invD(7) [OF inv] look_live [OF inv tree_invD(2) [OF inv] Some] by blast
    have dy: "data_ok (h ?x)" using dk h [of ?x] by (simp add: data_ok_def same_place_def cong: option.case_cong)
    have nb: "node_bytes (h ?x) = node_bytes ?x" using h [of ?x] by (simp add: node_bytes_def cong: option.case_cong)
    have "spec_attr f cs (fview ?t) = (Inr (), (fview ?t)(cs \<mapsto> node_view (h ?x)))"
      using f [of ?x] h [of ?x] nb by (auto simp: spec_attr_def fv Some node_view_def same_place_def split: prod.split)
    moreover have "tmpfs_attr h (Some path) fs = Done (Inr (), fs[k := set_inode i (h ?x) ?t])" by (simp add: tmpfs_attr_def fi Some)
    ultimately show ?thesis using leads_contents [OF ok inv Some _ dy] h [of ?x] by simp
  qed
qed
end
