(* ===== verification/Tmpfs_Calls.thy ===== *)
theory Tmpfs_Calls
  imports Tmpfs_Ops
begin

text \<open>
  What the calls of the in-memory file system promise, with sequences of them from the empty table of instances.
\<close>

section \<open>Unlinking and removing directories\<close>

lemma no_children: "tree_inv K r t \<Longrightarrow> live (inodes t) i \<Longrightarrow> children (inodes t i) = None \<Longrightarrow> K i = []"
  using dir_okD(1) [OF tree_invD(6), of K r t i] by (cases "K i") auto

lemma no_kids: "tree_inv K r t \<Longrightarrow> live (inodes t) i \<Longrightarrow> \<not> is_dir (inodes t i) \<Longrightarrow> K i = []"
  using dir_okD(4) [OF tree_invD(6), of K r t i] by blast

lemma childless:
  assumes inv: "tree_inv K r t" and l: "look (inodes t) K r cs = Some i"
  shows "children (inodes t i) \<noteq> None \<longleftrightarrow> (\<exists>s. fview t (cs @ [s]) \<noteq> None)"
proof -
  have li: "live (inodes t) i" by (rule look_live [OF inv tree_invD(2) [OF inv] l])
  note d = tree_invD(6) [OF inv li]
  have "(\<exists>s. fview t (cs @ [s]) \<noteq> None) \<longleftrightarrow> (\<exists>s. find (\<lambda>k. iname (inodes t k) = s) (K i) \<noteq> None)"
    by (simp add: fview_look [OF inv] look_snoc l)
  also have "\<dots> \<longleftrightarrow> K i \<noteq> []" by (cases "K i") auto
  also have "\<dots> \<longleftrightarrow> children (inodes t i) \<noteq> None" using dir_okD(1) [OF d] by (cases "K i") auto
  finally show ?thesis by simp
qed

text \<open>What the removals refuse, on the view.\<close>

definition spec_refuses where
  "spec_refuses dir cs v =
     (case v cs of
        None \<Rightarrow> Some ENOENT
      | Some (d, _) \<Rightarrow>
          if d \<noteq> dir then Some (if dir then ENOTDIR else EISDIR)
          else if cs = [] then Some EINVAL
          else if dir \<and> (\<exists>s. v (cs @ [s]) \<noteq> None) then Some ENOTEMPTY
          else None)"

lemma removal_refuses:
  assumes inv: "tree_inv K r t" and l: "look (inodes t) K r cs = Some i"
  shows "unlink_refuses t i = spec_refuses False cs (fview t)" "rmdir_refuses t i = spec_refuses True cs (fview t)"
proof -
  have rt: "i = r \<longleftrightarrow> cs = []" using l look_inj [OF inv l, of "[]"] by auto
  have nd: "is_dir (inodes t i)" if "cs = []" using that l tree_invD(3) [OF inv] by simp
  have v: "fview t cs = Some (node_view (inodes t i))" using l by (simp add: fview_look [OF inv])
  show "unlink_refuses t i = spec_refuses False cs (fview t)"
    using rt nd v tree_invD(1) [OF inv] by (auto simp: unlink_refuses_def spec_refuses_def node_view_def)
  show "rmdir_refuses t i = spec_refuses True cs (fview t)"
    using rt v tree_invD(1) [OF inv] childless [OF inv l] by (auto simp: rmdir_refuses_def spec_refuses_def node_view_def)
qed

lemma removal_leaf:
  assumes inv: "tree_inv K r t" and l: "look (inodes t) K r cs = Some i"
  shows "unlink_refuses t i = None \<Longrightarrow> i \<noteq> r \<and> K i = []" "rmdir_refuses t i = None \<Longrightarrow> i \<noteq> r \<and> K i = []"
proof -
  have li: "live (inodes t) i" by (rule look_live [OF inv tree_invD(2) [OF inv] l])
  show "unlink_refuses t i = None \<Longrightarrow> i \<noteq> r \<and> K i = []"
    using no_kids [OF inv li] tree_invD(3) [OF inv] by (auto simp: unlink_refuses_def split: if_splits)
  show "rmdir_refuses t i = None \<Longrightarrow> i \<noteq> r \<and> K i = []"
    using no_children [OF inv li] tree_invD(1) [OF inv] by (auto simp: rmdir_refuses_def split: if_splits)
qed

definition spec_remove where
  "spec_remove dir cs v = (case spec_refuses dir cs v of Some er \<Rightarrow> (Inl er, v) | None \<Rightarrow> (Inr (), v(cs := None)))"

lemma remove_leads:
  assumes ok: "fs_ok fs" and pl: "path_place path fs = Some (k, cs)"
    and rf: "refuse = unlink_refuses \<and> \<not> dir \<or> refuse = rmdir_refuses \<and> dir"
  shows "leads fs k (fst (spec_remove dir cs (fview (fs ! k)))) (snd (spec_remove dir cs (fview (fs ! k)))) (tmpfs_remove refuse (Some path) fs)"
proof -
  let ?t = "fs ! k"
  obtain K r0 where inv: "tree_inv K r0 ?t" using fs_ok_nth [OF ok] place_index [OF pl] by blast
  have leaf: "i \<noteq> r0 \<and> K i = []" if "look (inodes ?t) K r0 cs = Some i" "refuse ?t i = None" for i
    using that removal_leaf [OF inv that(1)] rf by auto
  have sp: "refuse ?t i = spec_refuses dir cs (fview ?t)" if "look (inodes ?t) K r0 cs = Some i" for i
    using removal_refuses [OF inv that] rf by auto
  have none: "spec_refuses dir cs (fview ?t) = Some ENOENT" if "look (inodes ?t) K r0 cs = None"
    using that by (simp add: spec_refuses_def fview_look [OF inv])
  obtain r fs' where run: "tmpfs_remove refuse (Some path) fs = Done (r, fs')" "fs_ok fs'"
    "(case r of
       Inl er \<Rightarrow> fs' = fs \<and> (case look (inodes ?t) K r0 cs of None \<Rightarrow> er = ENOENT | Some i \<Rightarrow> refuse ?t i = Some er)
     | Inr _ \<Rightarrow> (\<exists>i. look (inodes ?t) K r0 cs = Some i \<and> refuse ?t i = None) \<and>
         (\<exists>t'. fs' = fs[k := t'] \<and> mount_point t' = mount_point ?t \<and> next_ino t' = next_ino ?t \<and> fview t' = (fview ?t)(cs := None)))"
    using tmpfs_remove_run [OF ok pl inv leaf] by blast
  show ?thesis
  proof (cases r)
    case (Inl er)
    then have "spec_refuses dir cs (fview ?t) = Some er" "fs' = fs"
      using run(3) sp none by (cases "look (inodes ?t) K r0 cs"; simp)+
    then show ?thesis using run(1) Inl leads_same [OF ok, of k] by (simp add: spec_remove_def)
  next
    case (Inr u)
    then obtain i t' where i: "look (inodes ?t) K r0 cs = Some i" "refuse ?t i = None"
      and t': "fs' = fs[k := t']" "mount_point t' = mount_point ?t" "next_ino t' = next_ino ?t" "fview t' = (fview ?t)(cs := None)"
      using run(3) by auto
    have s: "spec_remove dir cs (fview ?t) = (Inr (), (fview ?t)(cs := None))" using i sp by (simp add: spec_remove_def)
    show ?thesis unfolding leads_def s using run(1,2) Inr t' by (intro exI [of _ t']) simp
  qed
qed

section \<open>Mounting and listing\<close>

lemma alloc_blank: "inodes t = (\<lambda>_. inode_blank) \<Longrightarrow>
  tmpfs_alloc_inode now t = (Some 0, set_inode 0 (inode_blank\<lparr>ino := next_ino t + 1, mtime := now\<rparr>) (t\<lparr>next_ino := next_ino t + 1\<rparr>))"
  by (simp add: tmpfs_alloc_inode_def TMPFS_MAX_FILES_def inode_blank_def upt_conv_Cons)

definition fresh_root :: "int \<Rightarrow> string \<Rightarrow> tmpfs_data" where
  "fresh_root now mp = \<lparr>root = Some 0, inodes = (\<lambda>_. inode_blank)(0 := inode_blank\<lparr>ino := 1, imode := ucast (S_IFDIR OR 0x1ED), is_dir := True,
     iname := ''/'', mtime := now\<rparr>), next_ino = 1, total_size = 0, mount_point = mp\<rparr>"

lemma tmpfs_mount_eq:
  "tmpfs_mount mem now (Some d) fs =
    (if tmpfs_get_instance d fs \<noteq> None then (Inr (), fs)
     else if length fs \<ge> TMPFS_MAX_DIRS then (Inl ENOSPC, fs)
     else if \<not> mem then (Inl ENOMEM, fs)
     else (Inr (), fs @ [fresh_root now (take 255 d)]))"
  by (simp add: tmpfs_mount_def alloc_blank Let_def fresh_root_def set_inode_def inode_blank_def)

lemma fresh_root_tree: "tree_inv (\<lambda>_. []) 0 (fresh_root now mp)"
proof -
  let ?nd = "inodes (fresh_root now mp)"
  have lv: "live ?nd i \<longleftrightarrow> i = 0" for i by (simp add: live_def fresh_root_def inode_blank_def TMPFS_MAX_FILES_def)
  have "ranked ?nd" unfolding ranked_def by (rule exI [of _ "\<lambda>_. 0"]) (simp add: lv, simp add: fresh_root_def inode_blank_def)
  moreover have "dir_ok (\<lambda>_. []) ?nd 0" "data_ok (?nd 0)" "is_dir (?nd 0)" "parent (?nd 0) = None" "root (fresh_root now mp) = Some 0"
    by (simp_all add: dir_ok_def data_ok_def fresh_root_def inode_blank_def)
  ultimately show ?thesis by (simp add: tree_inv_def lv)
qed

lemma fresh_root_view: "fview (fresh_root now mp) = (\<lambda>_. None)([] \<mapsto> (True, ucast (S_IFDIR OR 0x1ED), 0, 0, []))"
proof
  fix p
  show "fview (fresh_root now mp) p = ((\<lambda>_. None)([] \<mapsto> (True, ucast (S_IFDIR OR 0x1ED), 0, 0, []))) p"
    unfolding fview_look [OF fresh_root_tree] by (cases p) (simp_all add: node_view_def node_bytes_def fresh_root_def inode_blank_def)
qed

lemma list_children_sibs: "sibs nd c l \<Longrightarrow> list_children nd n c = map (\<lambda>i. (iname (nd i), is_dir (nd i))) (take n l)"
proof (induction l arbitrary: c n)
  case (Nil c n)
  then show ?case by (cases n) simp_all
next
  case (Cons i l c n)
  then show ?case by (cases n) simp_all
qed

lemma tmpfs_readdir_run:
  assumes ok: "fs_ok fs" and pl: "path_place path fs = Some (k, cs)" and mx: "max_entries > int TMPFS_MAX_FILES + 1"
  shows "case fview (fs ! k) cs of
      None \<Rightarrow> tmpfs_readdir (Some path) max_entries fs = Done (Inl ENOENT)
    | Some (dir, _) \<Rightarrow>
        if \<not> dir then tmpfs_readdir (Some path) max_entries fs = Done (Inl ENOTDIR)
        else \<exists>es. tmpfs_readdir (Some path) max_entries fs = Done (Inr ([(''.'', True), (''..'', True)] @ es)) \<and> distinct (map fst es) \<and>
          set es = {(s, d). \<exists>v. fview (fs ! k) (cs @ [s]) = Some (d, v)}"
proof -
  let ?t = "fs ! k"
  obtain K r0 where inv: "tree_inv K r0 ?t" using fs_ok_nth [OF ok] place_index [OF pl] by blast
  note fi = find_inode_place [OF ok pl inv] and fv = fview_look [OF inv]
  have m: "\<not> max_entries \<le> 0" "nat max_entries = Suc (Suc (nat max_entries - 2))" "TMPFS_MAX_FILES \<le> nat max_entries - 2" using mx by linarith+
  show ?thesis
  proof (cases "look (inodes ?t) K r0 cs")
    case None
    then show ?thesis using m by (simp add: tmpfs_readdir_def fi fv)
  next
    case (Some i)
    have li: "live (inodes ?t) i" by (rule look_live [OF inv tree_invD(2) [OF inv] Some])
    note d = tree_invD(6) [OF inv li]
    show ?thesis
    proof (cases "is_dir (inodes ?t i)")
      case False
      then show ?thesis using m Some by (simp add: tmpfs_readdir_def fi fv node_view_def Let_def)
    next
      case True
      let ?es = "map (\<lambda>i. (iname (inodes ?t i), is_dir (inodes ?t i))) (K i)"
      have "length (K i) \<le> TMPFS_MAX_FILES"
        using card_mono [of "{..<TMPFS_MAX_FILES}" "set (K i)"] dir_okD(2,5) [OF d] by (auto simp: distinct_card live_def)
      then have tk: "take (nat max_entries - 2) (K i) = K i" using m(3) by simp
      have dots: "take (nat max_entries) [(''.'', True), (''..'', True)] = [(''.'', True), (''..'', True)]" by (subst m(2)) simp
      have "tmpfs_readdir (Some path) max_entries fs = Done (Inr ([(''.'', True), (''..'', True)] @ ?es))"
        using True Some m(1) dots tk by (simp add: tmpfs_readdir_def fi Let_def list_children_sibs [OF dir_okD(1) [OF d]])
      moreover have "distinct (map fst ?es)" using dir_okD(3) [OF d] by (simp add: o_def)
      moreover have "set ?es = {(s, dd). \<exists>v. fview ?t (cs @ [s]) = Some (dd, v)}"
        using find_child [OF d] by (auto simp: fv look_snoc Some node_view_def)
      ultimately show ?thesis using True by (auto simp: fv Some node_view_def)
    qed
  qed
qed

section \<open>Unmounting\<close>

text \<open>
  Releasing the root releases everything below it. While the recursion is under way the inodes on the path
  to the current one, \<open>D\<close>, are in use and in no directory; the depth is at most twice the number of the others.
\<close>

definition forest :: "(nat \<Rightarrow> nat list) \<Rightarrow> (nat \<Rightarrow> tmpfs_inode) \<Rightarrow> nat set \<Rightarrow> bool" where
  "forest K nd D \<longleftrightarrow> (\<forall>i. live nd i \<longrightarrow> dir_ok K nd i) \<and> (\<forall>d\<in>D. live nd d \<and> (\<forall>p. live nd p \<longrightarrow> d \<notin> set (K p)))"

definition others :: "(nat \<Rightarrow> tmpfs_inode) \<Rightarrow> nat set \<Rightarrow> nat" where
  "others nd D = card ({i. live nd i} - D)"

lemma finite_live [simp]: "finite {i. live nd i}"
  by (rule finite_subset [of _ "{..<TMPFS_MAX_FILES}"]) (auto simp: live_def)

lemma others_insert:
  assumes "live nd i" "i \<notin> D"
  shows "others nd D = Suc (others nd (insert i D))"
proof -
  have "{i. live nd i} - insert i D = ({i. live nd i} - D) - {i}" by blast
  moreover have "Suc (card (({i. live nd i} - D) - {i})) = card ({i. live nd i} - D)" by (rule card_Suc_Diff1) (use assms in simp_all)
  ultimately show ?thesis by (simp only: others_def)
qed

lemma sibs_head: "sibs nd c l \<Longrightarrow> c = (case l of [] \<Rightarrow> None | j # _ \<Rightarrow> Some j)"
  by (cases l) simp_all

lemma forestD: "forest K nd D \<Longrightarrow> live nd i \<Longrightarrow> dir_ok K nd i" "forest K nd D \<Longrightarrow> d \<in> D \<Longrightarrow> live nd d"
  "forest K nd D \<Longrightarrow> d \<in> D \<Longrightarrow> live nd p \<Longrightarrow> d \<notin> set (K p)"
  by (simp_all add: forest_def)

text \<open>Taking the first child out of a directory of \<open>D\<close>, and a directory of \<open>D\<close> that has become empty.\<close>

lemma forest_detach:
  assumes f: "forest K nd D" and p: "p \<in> D" "K p = i # ys" and nd': "nd' = nd(p := (nd p)\<lparr>children := sibling (nd i)\<rparr>)"
  shows "forest (K(p := ys)) nd' (insert i D)" "live nd' = live nd"
proof -
  have lp: "live nd p" by (rule forestD(2) [OF f p(1)])
  note dp = dir_okD [OF forestD(1) [OF f lp]]
  have e: "ino (nd' j) = ino (nd j)" "is_dir (nd' j) = is_dir (nd j)" "iname (nd' j) = iname (nd j)"
    "parent (nd' j) = parent (nd j)" "sibling (nd' j) = sibling (nd j)" for j
    by (simp_all add: nd')
  show lv: "live nd' = live nd" by (simp add: fun_eq_iff live_def e)
  have s: "sibs nd' c l = sibs nd c l" for c l by (rule sibs_cong) (rule e(5))
  have "dir_ok (K(p := ys)) nd' j" if "live nd j" for j
  proof (cases "j = p")
    case True
    have "sibs nd (sibling (nd i)) ys" "distinct ys" "distinct (map (\<lambda>j. iname (nd j)) ys)" "is_dir (nd p)" "\<forall>c\<in>set ys. live nd c \<and> parent (nd c) = Some p"
      using dp p(2) by auto
    moreover have "children (nd' p) = sibling (nd i)" by (simp add: nd')
    ultimately show ?thesis unfolding True dir_ok_def lv s e by simp
  next
    case False
    then have "children (nd' j) = children (nd j)" by (simp add: nd')
    then show ?thesis using forestD(1) [OF f that] False unfolding dir_ok_def lv s e by simp
  qed
  moreover have "i \<notin> set ((K(p := ys)) q)" if "live nd q" for q
  proof (cases "q = p")
    case False
    have "parent (nd i) = Some p" using dp(6) p(2) by simp
    then show ?thesis using dir_okD(6) [OF forestD(1) [OF f that], of i] False by auto
  qed (use dp(2) p(2) in auto)
  moreover have "live nd i" using dp(5) p(2) by simp
  moreover have "d \<notin> set ((K(p := ys)) q)" if "d \<in> D" "live nd q" for d q
    using forestD(3) [OF f that] p(2) by (cases "q = p") auto
  ultimately show "forest (K(p := ys)) nd' (insert i D)" using forestD(2) [OF f] unfolding forest_def lv by blast
qed

lemma forest_release:
  assumes f: "forest K nd (insert i D)" and i: "i \<notin> D" and nd': "nd' = nd(i := inode_blank)"
  shows "forest K nd' D" "others nd' D = others nd (insert i D)"
proof -
  have li: "live nd i" using forestD(2) [OF f] by blast
  have lv: "live nd' j \<longleftrightarrow> live nd j \<and> j \<noteq> i" for j by (simp add: nd' live_def inode_blank_def)
  have "dir_ok K nd' j" if "live nd j" "j \<noteq> i" for j
  proof -
    have out: "i \<notin> set (K j)" using forestD(3) [OF f _ that(1)] by blast
    then have s: "sibs nd' c (K j) = sibs nd c (K j)" for c by (intro sibs_cong) (auto simp: nd')
    have n: "map (\<lambda>j. iname (nd' j)) (K j) = map (\<lambda>j. iname (nd j)) (K j)" using out by (auto simp: nd')
    have "nd' j = nd j" using that by (simp add: nd')
    moreover have "nd' c = nd c \<and> c \<noteq> i" if "c \<in> set (K j)" for c using that out by (auto simp: nd')
    ultimately show ?thesis using forestD(1) [OF f that(1)] unfolding dir_ok_def s n lv by auto
  qed
  then show "forest K nd' D" using forestD(2,3) [OF f] i unfolding forest_def lv by blast
  have "{j. live nd' j} - D = {j. live nd j} - insert i D" using lv by auto
  then show "others nd' D = others nd (insert i D)" by (simp add: others_def)
qed

definition detachable :: "(nat \<Rightarrow> nat list) \<Rightarrow> (nat \<Rightarrow> tmpfs_inode) \<Rightarrow> nat set \<Rightarrow> nat \<Rightarrow> bool" where
  "detachable K nd D i \<longleftrightarrow> (case parent (nd i) of None \<Rightarrow> \<forall>p. live nd p \<longrightarrow> i \<notin> set (K p) | Some p \<Rightarrow> p \<in> D \<and> (\<exists>ys. K p = i # ys))"

lemma unlink_first:
  assumes f: "forest K (inodes t) D" and i: "live (inodes t) i" "detachable K (inodes t) D i"
  shows "\<exists>t' K'. unlink_child i t = Done t' \<and> forest K' (inodes t') (insert i D) \<and> live (inodes t') = live (inodes t) \<and>
    (\<forall>d\<in>D. K' d = (if parent (inodes t i) = Some d then tl (K d) else K d))"
proof (cases "parent (inodes t i)")
  case None
  then have "forest K (inodes t) (insert i D)" using f i by (simp add: forest_def detachable_def)
  then show ?thesis using None by (intro exI [of _ t] exI [of _ K]) (simp add: unlink_child_def Let_def)
next
  case (Some p)
  then obtain ys where p: "p \<in> D" "K p = i # ys" using i(2) by (auto simp: detachable_def)
  have "children (inodes t p) = Some i" using dir_okD(1) [OF forestD(1) [OF f forestD(2) [OF f p(1)]]] p(2) by simp
  then have "sib_prev (inodes t) None (children (inodes t p)) i = Some (Some None)" by (subst sib_prev.simps) simp
  then have u: "unlink_child i t = Done (set_inode p ((inodes t p)\<lparr>children := sibling (inodes t i)\<rparr>) t)"
    using Some by (simp add: unlink_child_def Let_def)
  note fd = forest_detach [OF f p refl]
  show ?thesis using u fd p Some
    by (intro exI [of _ "set_inode p ((inodes t p)\<lparr>children := sibling (inodes t i)\<rparr>) t"] exI [of _ "K(p := ys)"]) simp
qed

lemma free_below:
  "\<forall>K D. forest K (inodes t) D \<longrightarrow> live (inodes t) i \<longrightarrow> i \<notin> D \<longrightarrow> detachable K (inodes t) D i \<longrightarrow> 2 * others (inodes t) D \<le> n \<longrightarrow>
     (\<exists>t' K'. free_inode n i t = Done t' \<and> forest K' (inodes t') D \<and> others (inodes t') D < others (inodes t) D \<and>
       (\<forall>d\<in>D. K' d = (if parent (inodes t i) = Some d then tl (K d) else K d)))"
  "\<forall>K D p. forest K (inodes s) D \<longrightarrow> p \<in> D \<longrightarrow> sibs (inodes s) c (K p) \<longrightarrow> Suc (2 * others (inodes s) D) \<le> m \<longrightarrow>
     (\<exists>t' K'. free_children m c s = Done t' \<and> forest K' (inodes t') D \<and> others (inodes t') D \<le> others (inodes s) D \<and>
       K' p = [] \<and> (\<forall>d\<in>D. d \<noteq> p \<longrightarrow> K' d = K d))"
proof (induction n i t and m c s rule: free_inode_free_children.induct)
  case (1 i t)
  have "\<not> 2 * others (inodes t) D \<le> 0" if "live (inodes t) i" "i \<notin> D" for D using others_insert [OF that] by simp
  then show ?case by blast
next
  case (2 n i t)
  show ?case
  proof (intro allI impI)
    fix K D
    assume f: "forest K (inodes t) D" and i: "live (inodes t) i" "i \<notin> D" "detachable K (inodes t) D i" and n: "2 * others (inodes t) D \<le> Suc n"
    define t1 where "t1 = (if idata (inodes t i) = None then t else t\<lparr>total_size := sub64 (total_size t) (isize (inodes t i))\<rparr>)"
    have t1: "inodes t1 = inodes t" by (simp add: t1_def)
    obtain t2 K2 where u: "unlink_child i t1 = Done t2" "forest K2 (inodes t2) (insert i D)" "live (inodes t2) = live (inodes t)"
        "\<forall>d\<in>D. K2 d = (if parent (inodes t i) = Some d then tl (K d) else K d)"
      using unlink_first [of K t1 D i, unfolded t1, OF f i(1,3)] by blast
    have o2: "others (inodes t) D = Suc (others (inodes t2) (insert i D))"
      using others_insert [OF i(1,2)] u(3) by (simp add: others_def)
    have li: "live (inodes t2) i" using u(3) i(1) by simp
    have sb: "sibs (inodes t2) (children (inodes t2 i)) (K2 i)" by (rule dir_okD(1) [OF forestD(1) [OF u(2) li]])
    have m: "Suc (2 * others (inodes t2) (insert i D)) \<le> n" using n o2 by simp
    obtain t3 K3 where c: "free_children n (children (inodes t2 i)) t2 = Done t3" "forest K3 (inodes t3) (insert i D)"
        "others (inodes t3) (insert i D) \<le> others (inodes t2) (insert i D)" "\<forall>d\<in>insert i D. d \<noteq> i \<longrightarrow> K3 d = K2 d"
      using "2.IH" [OF refl t1_def, of t2] u(2) sb m by blast
    note r = forest_release [OF c(2) i(2) refl]
    have run: "free_inode (Suc n) i t = Done (set_inode i inode_blank t3)" using u(1) c(1) by (simp add: t1_def [symmetric] Let_def)
    show "\<exists>t' K'. free_inode (Suc n) i t = Done t' \<and> forest K' (inodes t') D \<and> others (inodes t') D < others (inodes t) D \<and>
       (\<forall>d\<in>D. K' d = (if parent (inodes t i) = Some d then tl (K d) else K d))"
      by (intro exI [of _ "set_inode i inode_blank t3"] exI [of _ K3]) (use run r c(3,4) o2 u(4) i(2) in auto)
  qed
next
  case (3 c t)
  then show ?case by simp
next
  case (4 n c t)
  show ?case
  proof (intro allI impI)
    fix K D p
    assume f: "forest K (inodes t) D" and p: "p \<in> D" and sb: "sibs (inodes t) c (K p)" and n: "Suc (2 * others (inodes t) D) \<le> Suc n"
    show "\<exists>t' K'. free_children (Suc n) c t = Done t' \<and> forest K' (inodes t') D \<and> others (inodes t') D \<le> others (inodes t) D \<and>
       K' p = [] \<and> (\<forall>d\<in>D. d \<noteq> p \<longrightarrow> K' d = K d)"
    proof (cases "K p")
      case Nil
      then show ?thesis using sb f by (intro exI [of _ t] exI [of _ K]) simp
    next
      case (Cons j js)
      then have c: "c = Some j" and sj: "sibs (inodes t) (sibling (inodes t j)) js" using sb by simp_all
      have lp: "live (inodes t) p" by (rule forestD(2) [OF f p])
      note d = dir_okD [OF forestD(1) [OF f lp]]
      have j: "live (inodes t) j" "parent (inodes t j) = Some p" using d(5,6) Cons by simp_all
      have jD: "j \<notin> D" using forestD(3) [OF f _ lp] Cons by auto
      have det: "detachable K (inodes t) D j" using j p Cons by (simp add: detachable_def)
      obtain t1 K1 where a: "free_inode n j t = Done t1" "forest K1 (inodes t1) D" "others (inodes t1) D < others (inodes t) D"
          "\<forall>d\<in>D. K1 d = (if parent (inodes t j) = Some d then tl (K d) else K d)"
        using "4.IH"(1) [OF c refl] f j(1) jD det n [unfolded Suc_le_mono] by blast
      have kp: "K1 p = js" using a(4) p j(2) Cons by simp
      have "children (inodes t1 p) = sibling (inodes t j)"
        using sibs_head [OF sj] sibs_head [OF dir_okD(1) [OF forestD(1) [OF a(2) forestD(2) [OF a(2) p]]]] kp by simp
      then have sb1: "sibs (inodes t1) (sibling (inodes t j)) (K1 p)" using dir_okD(1) [OF forestD(1) [OF a(2) forestD(2) [OF a(2) p]]] by simp
      have "Suc (2 * others (inodes t1) D) \<le> n" using n a(3) by simp
      then obtain t2 K2 where b: "free_children n (sibling (inodes t j)) t1 = Done t2" "forest K2 (inodes t2) D"
          "others (inodes t2) D \<le> others (inodes t1) D" "K2 p = []" "\<forall>d\<in>D. d \<noteq> p \<longrightarrow> K2 d = K1 d"
        using "4.IH"(2) [OF c refl, of t1] a(2) p sb1 by blast
      have "free_children (Suc n) c t = Done t2" using c a(1) b(1) by (simp add: Let_def)
      then show ?thesis using b a(3,4) j(2) by (intro exI [of _ t2] exI [of _ K2]) auto
    qed
  qed
qed

lemma umount_done:
  assumes inv: "tree_inv K r t"
  shows "\<exists>t'. tmpfs_free_inode r t = Done t'"
proof -
  note t = tree_invD [OF inv]
  have f: "forest K (inodes t) {}" using t(6) by (simp add: forest_def)
  have "r \<notin> set (K p)" if "live (inodes t) p" for p using dir_okD(6) [OF t(6) [OF that], of r] t(4) by auto
  then have d: "detachable K (inodes t) {} r" using t(4) by (simp add: detachable_def)
  have "{i. live (inodes t) i} \<subseteq> {..<TMPFS_MAX_FILES}" by (auto simp: live_def)
  then have "others (inodes t) {} \<le> TMPFS_MAX_FILES" unfolding others_def using card_mono [of "{..<TMPFS_MAX_FILES}"] by fastforce
  then have "2 * others (inodes t) {} \<le> free_fuel" by (simp add: free_fuel_def)
  then show ?thesis unfolding tmpfs_free_inode_def using free_below(1) [of t r free_fuel] f d t(2) by blast
qed

section \<open>Second names\<close>

lemma tree_dead:
  assumes inv: "tree_inv K r t" and i: "\<not> live (inodes t) i" and x: "ino x = 0" and t': "inodes t' = (inodes t)(i := x)" "root t' = root t"
  shows "tree_inv K r t'" "fview t' = fview t"
proof -
  have lv: "live (inodes t') j \<longleftrightarrow> live (inodes t) j" for j using i x by (auto simp: t' live_def)
  have nd: "inodes t' j = inodes t j" if "live (inodes t) j" for j using that i by (auto simp: t')
  have out: "i \<notin> set (K j)" if "live (inodes t) j" for j using not_live_kid [OF inv that i] .
  have "dir_ok K (inodes t') j" if j: "live (inodes t) j" for j
  proof -
    note d = tree_invD(6) [OF inv j]
    have e: "inodes t' c = inodes t c" if "c \<in> set (K j)" for c using nd dir_okD(5) [OF d that] by blast
    have "sibs (inodes t') c (K j) = sibs (inodes t) c (K j)" for c by (rule sibs_cong) (simp add: e)
    moreover have m: "map (\<lambda>j. iname (inodes t' j)) (K j) = map (\<lambda>j. iname (inodes t j)) (K j)" using e by simp
    moreover have "distinct (map (\<lambda>j. iname (inodes t' j)) (K j))" unfolding m by (rule dir_okD(3) [OF d])
    ultimately show ?thesis using d e nd [OF j] unfolding dir_ok_def lv by auto
  qed
  moreover have "hangs K (inodes t') c = hangs K (inodes t) c" if "live (inodes t) c" for c using nd [OF that] by (simp add: hangs_def lv)
  moreover have "ranked (inodes t')" using tree_invD(5) [OF inv] nd unfolding ranked_def lv by metis
  ultimately show inv': "tree_inv K r t'" using inv nd unfolding tree_inv_def lv t'(2) by metis
  have "look (inodes t') K j p = look (inodes t) K j p" if "live (inodes t) j" for j p
    using that
  proof (induction p arbitrary: j)
    case (Cons s p)
    note d = tree_invD(6) [OF inv Cons.prems]
    have f: "find (\<lambda>j. iname (inodes t' j) = s) (K j) = find (\<lambda>j. iname (inodes t j) = s) (K j)"
      by (rule find_cong) (use nd dir_okD(5) [OF d] in auto)
    have "live (inodes t) c" if "find (\<lambda>j. iname (inodes t j) = s) (K j) = Some c" for c using that find_child [OF d] dir_okD(5) [OF d] by blast
    then show ?case using f Cons.IH by (simp split: option.split)
  qed simp
  then have l: "look (inodes t') K r p = look (inodes t) K r p" for p using tree_invD(2) [OF inv] by blast
  have "fview t' p = fview t p" for p
    using nd look_live [OF inv tree_invD(2) [OF inv], of p] by (cases "look (inodes t) K r p") (simp_all add: fview_look [OF inv'] fview_look [OF inv] l)
  then show "fview t' = fview t" by blast
qed

text \<open>The entry made by \<^verbatim>\<open>tmpfs_link\<close>, when the block of the source is as large as its contents.\<close>

lemma link_entry:
  assumes dk: "data_ok x" and x: "\<not> is_dir x" "isize x = 0 \<or> data_cap x = isize x" and nm: "name_ok s" and n: "n \<noteq> 0"
  defines "y \<equiv> inode_blank\<lparr>ino := n, mtime := mtime x, imode := imode x, iuid := iuid x, igid := igid x, isize := isize x,
     data_cap := data_cap x, is_dir := False, iname := s\<rparr>"
  shows "idata x = None \<or> isize x = 0 \<Longrightarrow> data_ok y \<and> node_view y = node_view x"
    "idata x = Some d \<Longrightarrow> data_ok (y\<lparr>idata := Some (take (isize x) d)\<rparr>) \<or> isize x = 0"
    "idata x = Some d \<Longrightarrow> node_view (y\<lparr>idata := Some (take (isize x) d)\<rparr>) = node_view x"
    "idata x = Some d \<Longrightarrow> \<not> isize x > length d"
  using assms by (auto simp: data_ok_def node_view_def node_bytes_def inode_blank_def split: option.splits)

lemma links_last: "(y :: tmpfs_inode)\<lparr>parent := a, sibling := b, idata := c\<rparr> = y\<lparr>idata := c, parent := a, sibling := b\<rparr>"
  by (cases y) simp

lemma tmpfs_link_run:
  assumes ok: "fs_ok fs" and po: "path_place old fs = Some (k, os)" and pn: "path_place new fs = Some (k, cs)" and wrap: "next_ino (fs ! k) \<noteq> - 1"
    and tight: "\<And>i. tmpfs_find_inode (Some old) fs = Done (Some (k, i)) \<Longrightarrow> isize (inodes (fs ! k) i) = 0 \<or> data_cap (inodes (fs ! k) i) = isize (inodes (fs ! k) i)"
  shows "\<exists>r t'. tmpfs_link mem now (Some old) (Some new) fs = Done (r, fs[k := t']) \<and> fs_ok (fs[k := t']) \<and>
    (case r of
       Inl er \<Rightarrow> fview t' = fview (fs ! k)
     | Inr _ \<Rightarrow> \<exists>v. fview (fs ! k) os = Some v \<and> \<not> fst v \<and> fview (fs ! k) cs = None \<and> fview t' = (fview (fs ! k))(cs \<mapsto> v))"
    (is "\<exists>r t'. _ \<and> _ \<and> ?post r t'")
proof -
  let ?t = "fs ! k"
  have kf: "tmpfs_get_instance_for_path (Some old) fs = Some k" "tmpfs_get_instance_for_path (Some new) fs = Some k"
    using place_index [OF po] place_index [OF pn] by simp_all
  obtain K r0 where inv: "tree_inv K r0 ?t" using fs_ok_nth [OF ok] place_index [OF po] by blast
  have os: "os = comps (take 255 (rel_path old ?t))" and cs: "cs = comps (take 255 (rel_path new ?t))" using po pn kf by (simp_all add: path_place_def)
  obtain pp name where sp: "split_parent (rel_path new ?t) = (pp, name)" by (cases "split_parent (rel_path new ?t)")
  note fv = fview_look [OF inv]
  note unf = tmpfs_link_def Let_def kf relative_path [OF kf(1)] relative_path [OF kf(2)] lookup_look [OF inv] os [symmetric] cs [symmetric] sp
  have err: ?thesis if "tmpfs_link mem now (Some old) (Some new) fs = Done (Inl er, fs)" for er
    using that ok by (intro exI [of _ "Inl er"] exI [of _ ?t]) simp
  show ?thesis
  proof (cases "\<exists>s p. look (inodes ?t) K r0 os = Some s \<and> \<not> is_dir (inodes ?t s) \<and> look (inodes ?t) K r0 cs = None \<and> name \<noteq> [] \<and>
      length name \<le> TMPFS_MAX_NAME_LEN \<and> look (inodes ?t) K r0 (comps (take 255 pp)) = Some p \<and> is_dir (inodes ?t p)")
    case False
    then have "\<exists>er. tmpfs_link mem now (Some old) (Some new) fs = Done (Inl er, fs)"
      by (auto simp: unf split: option.splits)
    then show ?thesis using err by blast
  next
    case True
    then obtain s p where s: "look (inodes ?t) K r0 os = Some s" "\<not> is_dir (inodes ?t s)" and nw: "look (inodes ?t) K r0 cs = None"
      and nm: "name \<noteq> []" "length name \<le> TMPFS_MAX_NAME_LEN" and p: "look (inodes ?t) K r0 (comps (take 255 pp)) = Some p" "is_dir (inodes ?t p)" by blast
    note sc = split_parent_comps [OF sp nm(1)]
    have cs2: "cs = comps (take 255 pp) @ [name]" using sc(1) cs by simp
    let ?x = "inodes ?t s"
    have ls: "live (inodes ?t) s" and lp: "live (inodes ?t) p" using look_live [OF inv tree_invD(2) [OF inv]] s(1) p(1) by blast+
    have dk: "data_ok ?x" by (rule tree_invD(7) [OF inv ls])
    have ti: "isize ?x = 0 \<or> data_cap ?x = isize ?x" using tight find_inode_place [OF ok po inv] s(1) by simp
    show ?thesis
    proof (cases rule: alloc_inode_cases [of now ?t])
      case full
      then have "tmpfs_link mem now (Some old) (Some new) fs = Done (Inl ENOSPC, fs)" using s nw nm p by (simp add: unf)
      then show ?thesis by (rule err)
    next
      case (got i t1)
      have ip: "p \<noteq> i" "s \<noteq> i" "\<not> live (inodes ?t) i" using lp ls got(3) by (auto simp: live_def)
      define y where "y = inode_blank\<lparr>ino := next_ino ?t + 1, mtime := mtime ?x, imode := imode ?x, iuid := iuid ?x, igid := igid ?x, isize := isize ?x,
        data_cap := data_cap ?x, is_dir := False, iname := name\<rparr>"
      define t2 where "t2 = add_child p i y t1"
      have i0: "next_ino ?t + 1 \<noteq> 0" using wrap by (simp add: eq_neg_iff_add_eq_0)
      have nk: "name_ok name" using nm sc(2) by (simp add: name_ok_def)
      note le = link_entry [OF dk s(2) ti nk i0, folded y_def]
      have ye: "(inodes t1 i)\<lparr>imode := imode ?x, iuid := iuid ?x, igid := igid ?x, isize := isize ?x,
          data_cap := data_cap ?x, is_dir := False, mtime := mtime ?x, iname := name\<rparr> = y"
        using got(6) by (simp add: y_def inode_blank_def)
      have xs: "inodes t1 s = ?x" using got(6) ip(2) by simp
      have run: "tmpfs_link mem now (Some old) (Some new) fs =
          (case idata ?x of
             None \<Rightarrow> Done (Inr (), fs[k := t2])
           | Some d \<Rightarrow>
               if isize ?x = 0 then Done (Inr (), fs[k := t2])
               else if \<not> mem then Done (Inl ENOMEM, fs[k := set_inode i inode_blank (set_inode p ((inodes t2 p)\<lparr>children := sibling (inodes t2 i)\<rparr>) t2)])
               else if isize ?x > length d then Stuck
               else Done (Inr (), fs[k := (set_inode i ((inodes t2 i)\<lparr>idata := Some (take (isize ?x) d)\<rparr>) t2)\<lparr>total_size := add64 (total_size t2) (isize ?x)\<rparr>]))"
        using s nw nm p got(1) ye by (cases "idata ?x"; cases "isize ?x = 0") (simp_all add: unf xs t2_def)
      have g: "inodes t2 = grown p i y (inodes ?t)" "root t2 = root ?t"
        using add_child_grown(1) [OF ip(1)] grown_same [OF ip(1)] got(4,6) add_child_grown(2) by (simp_all add: t2_def)
      have made: ?thesis if "tmpfs_link mem now (Some old) (Some new) fs = Done (Inr (), fs[k := t'])" "inodes t' = grown p i z (inodes ?t)" "root t' = root ?t"
        "data_ok z" "node_view z = node_view ?x" "ino z \<noteq> 0" "iname z = name" "children z = None" for t' z
      proof -
        have nz: "name_ok (iname z)" "look (inodes ?t) K r0 (comps (take 255 pp) @ [iname z]) = None" using nk that(7) nw cs2 by simp_all
        note fa = fview_added [OF inv p got(2,3) that(6) nz(1) that(4,8) nz(2) that(2,3)]
        have "fview t' = (fview ?t)(cs \<mapsto> node_view ?x)" using fa(2) that(5,7) cs2 by simp
        then have "?post (Inr ()) t'" using s nw by (simp add: fv node_view_def)
        then show ?thesis using that(1) fs_ok_update [OF ok fa(1), of k] by blast
      qed
      have yf: "ino y \<noteq> 0" "iname y = name" "children y = None" using i0 by (simp_all add: y_def inode_blank_def)
      show ?thesis
      proof (cases "idata ?x = None \<or> isize ?x = 0")
        case True
        then have "tmpfs_link mem now (Some old) (Some new) fs = Done (Inr (), fs[k := t2])" unfolding run by (auto split: option.split)
        then show ?thesis using le(1) [OF True] made [OF _ g] yf by blast
      next
        case False
        then obtain d where d: "idata ?x = Some d" "isize ?x \<noteq> 0" by auto
        show ?thesis
        proof (cases mem)
          case True
          let ?t' = "(set_inode i ((inodes t2 i)\<lparr>idata := Some (take (isize ?x) d)\<rparr>) t2)\<lparr>total_size := add64 (total_size t2) (isize ?x)\<rparr>"
          have "tmpfs_link mem now (Some old) (Some new) fs = Done (Inr (), fs[k := ?t'])" using d True le(4) [OF d(1)] unfolding run by simp
          moreover have "inodes ?t' = grown p i (y\<lparr>idata := Some (take (isize ?x) d)\<rparr>) (inodes ?t)" "root ?t' = root ?t"
            using g ip(1) by (simp_all add: grown_def fun_upd_twist links_last)
          ultimately show ?thesis by (rule made) (use le(2,3) [OF d(1)] d(2) yf in auto)
        next
          case False
          let ?t' = "set_inode i inode_blank (set_inode p ((inodes t2 p)\<lparr>children := sibling (inodes t2 i)\<rparr>) t2)"
          have r: "tmpfs_link mem now (Some old) (Some new) fs = Done (Inl ENOMEM, fs[k := ?t'])" using d False unfolding run by simp
          have "inodes ?t' = (inodes ?t)(i := inode_blank)" "root ?t' = root ?t"
            using g ip(1) by (simp_all add: grown_def fun_eq_iff)
          note td = tree_dead [OF inv ip(3) _ this]
          show ?thesis
            by (intro exI [of _ "Inl ENOMEM"] exI [of _ ?t']) (use r td fs_ok_update [OF ok td(1), of k] in \<open>simp add: inode_blank_def\<close>)
        qed
      qed
    qed
  qed
qed
end
