(* ===== verification/Tmpfs_Runs.thy ===== *)
theory Tmpfs_Runs
  imports Tmpfs_Calls
begin

text \<open>
  Sequences of calls on the in-memory file system, and the properties of the component: it refines the map
  from paths to contents, what was written is read back, no sequence without a second name leaves its
  blocks or its trees, and a second name of a file that was cut short breaks that.
\<close>

section \<open>Sequences of calls\<close>

datatype tmpfs_op =
    OMount bool int string
  | OUmount string
  | OMake bool fs_cred int string u32
  | OWrite bool int string "u8 list" int
  | OTruncate bool int string nat
  | OUnlink string
  | ORmdir string
  | OChmod string u32
  | OChown int string u32 u32

fun kmap :: "('a \<Rightarrow> 'b) \<Rightarrow> 'a kresult \<Rightarrow> 'b kresult" where
  "kmap f r = kbind r (\<lambda>x. Done (f x))"

fun tmpfs_do :: "tmpfs_op \<Rightarrow> tmpfs_instances \<Rightarrow> tmpfs_instances kresult" where
  "tmpfs_do (OMount mem now d) fs = Done (snd (tmpfs_mount mem now (Some d) fs))"
| "tmpfs_do (OUmount d) fs = kmap snd (tmpfs_umount (Some d) fs)"
| "tmpfs_do (OMake dir cr now p mode) fs = kmap snd ((if dir then tmpfs_mkdir else tmpfs_create_file) cr now (Some p) mode fs)"
| "tmpfs_do (OWrite mem now p b off) fs = kmap snd (tmpfs_write_file mem now (Some p) (Some b) off fs)"
| "tmpfs_do (OTruncate mem now p len) fs = kmap snd (tmpfs_truncate mem now (Some p) len fs)"
| "tmpfs_do (OUnlink p) fs = kmap snd (tmpfs_unlink (Some p) fs)"
| "tmpfs_do (ORmdir p) fs = kmap snd (tmpfs_rmdir (Some p) fs)"
| "tmpfs_do (OChmod p m) fs = kmap snd (tmpfs_chmod (Some p) m fs)"
| "tmpfs_do (OChown now p u g) fs = kmap snd (tmpfs_chown now (Some p) u g fs)"

fun tmpfs_run :: "tmpfs_op list \<Rightarrow> tmpfs_instances \<Rightarrow> tmpfs_instances kresult" where
  "tmpfs_run [] fs = Done fs"
| "tmpfs_run (a # as) fs = kbind (tmpfs_do a fs) (tmpfs_run as)"

text \<open>Trees everywhere, at most the 32 instances of the table, and at most \<open>n\<close> inode numbers handed out in each.\<close>

definition fs_inv :: "nat \<Rightarrow> tmpfs_instances \<Rightarrow> bool" where
  "fs_inv n fs \<longleftrightarrow> fs_ok fs \<and> length fs \<le> TMPFS_MAX_DIRS \<and> (\<forall>t\<in>set fs. unat (next_ino t) \<le> n)"

lemma fs_inv_update:
  assumes "fs_inv n fs" "fs_ok (fs[k := t])" "n \<le> m" "unat (next_ino t) \<le> m"
  shows "fs_inv m (fs[k := t])"
  using assms set_update_subset_insert [of fs k t] by (fastforce simp: fs_inv_def)

lemma leads_inv:
  assumes "fs_inv n fs" "leads fs k r v res" "k < length fs"
  shows "\<exists>fs'. kmap snd res = Done fs' \<and> fs_inv (Suc n) fs'"
proof -
  obtain t' where t': "res = Done (r, fs[k := t'])" "fs_ok (fs[k := t'])" "next_ino t' = next_ino (fs ! k)" using assms(2) by (auto simp: leads_def)
  have "unat (next_ino t') \<le> Suc n" using assms(1,3) t'(3) by (simp add: fs_inv_def le_SucI)
  then show ?thesis using fs_inv_update [OF assms(1) t'(2)] t'(1) by simp
qed

lemma same_inv: "fs_inv n fs \<Longrightarrow> res = Done (r, fs) \<Longrightarrow> \<exists>fs'. kmap snd res = Done fs' \<and> fs_inv (Suc n) fs'"
  by (auto simp: fs_inv_def le_SucI)

lemma fs_invD: "fs_inv n fs \<Longrightarrow> fs_ok fs"
  by (simp add: fs_inv_def)

lemma nowhere_instance: "path_place p fs = None \<Longrightarrow> tmpfs_get_instance_for_path (Some p) fs = None"
  by (simp add: path_place_def split: option.splits)

lemma make_inv:
  assumes inv: "fs_inv n fs" and n: "n < 2 ^ 32 - 1"
  shows "\<exists>fs'. kmap snd (tmpfs_make dir cr now (Some p) mode fs) = Done fs' \<and> fs_inv (Suc n) fs'"
proof (cases "path_place p fs")
  case None
  then show ?thesis by (intro same_inv [OF inv, where r = "Inl ENODEV"]) (simp add: tmpfs_make_def nowhere_instance)
next
  case (Some kc)
  obtain k cs where kc: "kc = (k, cs)" by (cases kc)
  have k: "k < length fs" using place_index Some kc by blast
  have nx: "unat (next_ino (fs ! k)) \<le> n" using inv k by (simp add: fs_inv_def)
  have w: "next_ino (fs ! k) \<noteq> - 1"
  proof
    assume "next_ino (fs ! k) = - 1"
    then have "unat (next_ino (fs ! k)) = 2 ^ 32 - 1" by (simp add: unsigned_minus_1_eq_mask mask_eq_exp_minus_1)
    then show False using nx n by simp
  qed
  obtain r fs' where run: "tmpfs_make dir cr now (Some p) mode fs = Done (r, fs')" "fs_ok fs'"
      "(\<exists>er. r = Inl er \<and> fs' = fs) \<or> (\<exists>t'. fs' = fs[k := t'] \<and> next_ino t' = next_ino (fs ! k) + 1)"
    using tmpfs_make_run [OF fs_invD [OF inv] Some [unfolded kc] w, of dir cr now mode] by (fastforce split: sum.splits)
  from run(3) show ?thesis
  proof (elim disjE exE conjE)
    fix er
    assume "fs' = fs"
    then show ?thesis using same_inv [OF inv run(1) [unfolded \<open>fs' = fs\<close>]] by blast
  next
    fix t'
    assume t': "fs' = fs[k := t']" "next_ino t' = next_ino (fs ! k) + 1"
    have "unat (next_ino t') \<le> Suc n" using nx w t'(2) by (simp add: unat_word_ariths(1) le_trans [OF mod_less_eq_dividend])
    then show ?thesis using fs_inv_update [OF inv run(2) [unfolded t'(1)], of "Suc n"] run(1) t'(1) by simp
  qed
qed

lemma chmod_run:
  assumes "fs_ok fs" "path_place p fs = Some (k, cs)"
  shows "leads fs k (fst (spec_attr (\<lambda>(m', u, g). (ucast ((ucast m' AND NOT 0xFFF) OR (m AND (0xFFF :: u32))), u, g)) cs (fview (fs ! k))))
      (snd (spec_attr (\<lambda>(m', u, g). (ucast ((ucast m' AND NOT 0xFFF) OR (m AND (0xFFF :: u32))), u, g)) cs (fview (fs ! k)))) (tmpfs_chmod (Some p) m fs)"
  unfolding tmpfs_chmod_def by (rule tmpfs_attr_run [OF assms]) (simp_all add: same_place_def)

lemma chown_run:
  assumes "fs_ok fs" "path_place p fs = Some (k, cs)"
  shows "leads fs k (fst (spec_attr (\<lambda>(m, u', g'). (m, if u \<noteq> - 1 then u else u', if g \<noteq> - 1 then g else g')) cs (fview (fs ! k))))
      (snd (spec_attr (\<lambda>(m, u', g'). (m, if u \<noteq> - 1 then u else u', if g \<noteq> - 1 then g else g')) cs (fview (fs ! k)))) (tmpfs_chown now (Some p) u g fs)"
  unfolding tmpfs_chown_def by (rule tmpfs_attr_run [OF assms]) (simp_all add: same_place_def)

lemma mount_inv:
  assumes inv: "fs_inv n fs"
  shows "fs_inv (Suc n) (snd (tmpfs_mount mem now (Some d) fs))"
proof -
  have "tree_ok (fresh_root now (take 255 d))" using fresh_root_tree by (auto simp: tree_ok_def)
  moreover have "next_ino (fresh_root now (take 255 d)) = 1" by (simp add: fresh_root_def)
  ultimately show ?thesis using inv by (auto simp: tmpfs_mount_eq fs_inv_def fs_ok_def le_SucI)
qed

lemma umount_inv:
  assumes inv: "fs_inv n fs"
  shows "\<exists>fs'. kmap snd (tmpfs_umount (Some d) fs) = Done fs' \<and> fs_inv (Suc n) fs'"
proof (cases "first_index (\<lambda>t. mount_point t = d) fs")
  case None
  then show ?thesis by (intro same_inv [OF inv, where r = "Inl ENOENT"]) (simp add: tmpfs_umount_def)
next
  case (Some k)
  then have k: "k < length fs" by (auto dest: first_index_SomeD)
  obtain K r where t: "tree_inv K r (fs ! k)" using fs_ok_nth [OF fs_invD [OF inv] k] by blast
  obtain t' where "tmpfs_free_inode r (fs ! k) = Done t'" using umount_done [OF t] by blast
  then have run: "tmpfs_umount (Some d) fs = Done (Inr (), take k fs @ drop (Suc k) fs)"
    using Some tree_invD(1) [OF t] by (simp add: tmpfs_umount_def)
  have "set (take k fs @ drop (Suc k) fs) \<subseteq> set fs" using set_take_subset set_drop_subset by fastforce
  then have "fs_inv (Suc n) (take k fs @ drop (Suc k) fs)" using inv k by (auto simp: fs_inv_def fs_ok_def list_all_iff le_SucI)
  then show ?thesis using run by simp
qed

lemma placed_inv:
  assumes inv: "fs_inv n fs" and run: "\<And>k cs. path_place p fs = Some (k, cs) \<Longrightarrow> \<exists>r v. leads fs k r v res"
    and none: "path_place p fs = None \<Longrightarrow> \<exists>r. res = Done (r, fs)"
  shows "\<exists>fs'. kmap snd res = Done fs' \<and> fs_inv (Suc n) fs'"
proof (cases "path_place p fs")
  case None
  then obtain r where "res = Done (r, fs)" using none by blast
  then show ?thesis by (rule same_inv [OF inv])
next
  case (Some kc)
  then obtain k cs where kc: "path_place p fs = Some (k, cs)" by (cases kc) auto
  then obtain r v where "leads fs k r v res" using run by blast
  then show ?thesis by (rule leads_inv [OF inv]) (use place_index [OF kc] in blast)
qed

lemma tmpfs_do_inv:
  assumes inv: "fs_inv n fs" and n: "n < 2 ^ 32 - 1"
  shows "\<exists>fs'. tmpfs_do a fs = Done fs' \<and> fs_inv (Suc n) fs'"
proof -
  note ok = fs_invD [OF inv]
  show ?thesis
  proof (cases a)
    case (OMount mem now d)
    then show ?thesis using mount_inv [OF inv] by simp
  next
    case (OUmount d)
    then show ?thesis using umount_inv [OF inv] by simp
  next
    case (OMake dir cr now p mode)
    then show ?thesis using make_inv [OF inv n, of dir cr now p mode] by (cases dir) (simp_all add: tmpfs_mkdir_def tmpfs_create_file_def)
  next
    case (OWrite mem now p b off)
    have "\<exists>fs'. kmap snd (tmpfs_write_file mem now (Some p) (Some b) off fs) = Done fs' \<and> fs_inv (Suc n) fs'"
      by (rule placed_inv [OF inv]) (use tmpfs_write_run [OF ok] in blast, simp add: tmpfs_write_file_def find_inode_nowhere)
    then show ?thesis using OWrite by simp
  next
    case (OTruncate mem now p len)
    have "\<exists>fs'. kmap snd (tmpfs_truncate mem now (Some p) len fs) = Done fs' \<and> fs_inv (Suc n) fs'"
      by (rule placed_inv [OF inv]) (use tmpfs_truncate_run [OF ok] in blast, simp add: tmpfs_truncate_def find_inode_nowhere)
    then show ?thesis using OTruncate by simp
  next
    case (OUnlink p)
    have "\<exists>fs'. kmap snd (tmpfs_unlink (Some p) fs) = Done fs' \<and> fs_inv (Suc n) fs'" unfolding tmpfs_unlink_def
      by (rule placed_inv [OF inv]) (use remove_leads [OF ok] in blast, simp add: tmpfs_remove_def nowhere_instance)
    then show ?thesis using OUnlink by simp
  next
    case (ORmdir p)
    have "\<exists>fs'. kmap snd (tmpfs_rmdir (Some p) fs) = Done fs' \<and> fs_inv (Suc n) fs'" unfolding tmpfs_rmdir_def
      by (rule placed_inv [OF inv]) (use remove_leads [OF ok] in blast, simp add: tmpfs_remove_def nowhere_instance)
    then show ?thesis using ORmdir by simp
  next
    case (OChmod p m)
    have "\<exists>fs'. kmap snd (tmpfs_chmod (Some p) m fs) = Done fs' \<and> fs_inv (Suc n) fs'"
      by (rule placed_inv [OF inv]) (use chmod_run [OF ok] in blast, simp add: tmpfs_chmod_def tmpfs_attr_def find_inode_nowhere)
    then show ?thesis using OChmod by simp
  next
    case (OChown now p u g)
    have "\<exists>fs'. kmap snd (tmpfs_chown now (Some p) u g fs) = Done fs' \<and> fs_inv (Suc n) fs'"
      by (rule placed_inv [OF inv]) (use chown_run [OF ok] in blast, simp add: tmpfs_chown_def tmpfs_attr_def find_inode_nowhere)
    then show ?thesis using OChown by simp
  qed
qed

lemma tmpfs_run_inv: "fs_inv n fs \<Longrightarrow> n + length ops < 2 ^ 32 \<Longrightarrow> \<exists>fs'. tmpfs_run ops fs = Done fs' \<and> fs_inv (n + length ops) fs'"
proof (induction ops arbitrary: n fs)
  case Nil
  then show ?case by simp
next
  case (Cons a ops)
  obtain fs1 where f: "tmpfs_do a fs = Done fs1" "fs_inv (Suc n) fs1" using tmpfs_do_inv [OF Cons.prems(1), of a] Cons.prems(2) by auto
  show ?case using Cons.IH [OF f(2)] Cons.prems(2) f(1) by simp
qed

section \<open>Properties\<close>

lemma place_update:
  assumes "mount_point t = mount_point (fs ! k)"
  shows "path_place p (fs[k := t]) = path_place p fs"
proof -
  have m: "map mount_point (fs[k := t]) = map mount_point fs" using assms by (simp add: map_update) (metis list_update_id map_update)
  have fi: "first_index (\<lambda>t. under_mount (mount_point t) p) xs = first_index (\<lambda>m. under_mount m p) (map mount_point xs)" for xs
    by (induction xs) auto
  have g: "tmpfs_get_instance_for_path (Some p) (fs[k := t]) = tmpfs_get_instance_for_path (Some p) fs"
    by (simp add: tmpfs_get_instance_for_path_def fi m del: map_update)
  have "mount_point (fs[k := t] ! j) = mount_point (fs ! j)" for j
    using assms by (cases "j = k"; cases "k < length fs") (simp_all add: list_update_beyond)
  then show ?thesis unfolding path_place_def g rel_path_def by (simp split: option.split)
qed

lemma fs_inv_empty: "fs_inv 0 []"
  by (simp add: fs_inv_def fs_ok_def)

text \<open>A concrete file system for the instances below: \<^verbatim>\<open>/tmp\<close> with a file \<open>f\<close> of two bytes.\<close>

definition demo_root :: tmpfs_inode where
  "demo_root = inode_blank\<lparr>ino := 1, imode := 0x41ED, is_dir := True, iname := ''/'', children := Some 1\<rparr>"

definition demo_file :: tmpfs_inode where
  "demo_file = inode_blank\<lparr>ino := 2, imode := 0x81A4, isize := 2, data_cap := 2, iname := ''f'', idata := Some [7, 8], parent := Some 0\<rparr>"

definition demo :: tmpfs_data where
  "demo = \<lparr>root = Some 0, inodes = (\<lambda>_. inode_blank)(0 := demo_root, 1 := demo_file), next_ino = 2, total_size = 0, mount_point = ''/tmp''\<rparr>"

lemma demo_tree: "tree_inv ((\<lambda>_. [])(0 := [1])) 0 demo"
proof -
  let ?nd = "inodes demo" and ?K = "(\<lambda>_. [])(0 := [1 :: nat])"
  have lv: "live ?nd i \<longleftrightarrow> i = 0 \<or> i = 1" for i
    by (auto simp: live_def demo_def demo_root_def demo_file_def inode_blank_def TMPFS_MAX_FILES_def)
  have n: "?nd 0 = demo_root" "?nd 1 = demo_file" by (simp_all add: demo_def)
  note f = demo_root_def demo_file_def inode_blank_def
  have "ranked ?nd" unfolding ranked_def by (rule exI [of _ id]) (use n in \<open>auto simp: lv f\<close>)
  moreover have "dir_ok ?K ?nd 0" "dir_ok ?K ?nd 1" "data_ok (?nd 0)" "data_ok (?nd 1)"
    using lv n by (auto simp: dir_ok_def data_ok_def f)
  moreover have "hangs ?K ?nd 1" using lv n by (auto simp: hangs_def name_ok_def f TMPFS_MAX_NAME_LEN_def)
  ultimately show ?thesis using n by (auto simp: tree_inv_def lv demo_root_def inode_blank_def) (simp add: demo_def)+
qed

lemma demo_ok: "fs_ok [demo]"
  using demo_tree by (auto simp: fs_ok_def tree_ok_def)

lemma demo_place: "path_place ''/tmp/f'' [demo] = Some (0, [''f''])"
  by code_simp

lemma demo_file_view: "fview demo [''f''] = Some (False, 0x81A4, 0, 0, [7, 8])"
  unfolding fview_look [OF demo_tree] by (simp add: demo_def demo_file_def node_view_def node_bytes_def inode_blank_def)

lemma demo_write: "\<exists>fs. tmpfs_write_file True 2 (Some ''/tmp/f'') (Some [9]) 4 [demo] = Done (Inr 1, fs)"
  using tmpfs_write_run [OF demo_ok demo_place, of True 4 "[9]" 2]
  by (auto simp: leads_def spec_write_def demo_file_view TMPFS_MAX_FILE_SIZE_def)

text \<open>
  C13: Every sequence of calls (mount, unmount, create, make a directory, write, truncate, unlink, remove a directory,
  change mode, change owner; any arguments, any outcome of the allocations) on the empty table of instances
  runs to its end: no call follows a broken chain of siblings, exceeds a block or recurses without end.
  Afterwards every instance is a tree of inodes and there are at most 32 instances. The bound on the length
  keeps the 32-bit inode counter from wrapping to 0, the mark of a free inode.
\<close>

theorem tmpfs_sequences_safe:
  assumes "length ops < 2 ^ 32"
  shows "\<exists>fs. tmpfs_run ops [] = Done fs \<and> fs_ok fs \<and> length fs \<le> TMPFS_MAX_DIRS"
  using tmpfs_run_inv [OF fs_inv_empty, of ops] assms by (auto simp: fs_inv_def)

theorem tmpfs_sequences_safe_witness:
  "\<exists>fs. tmpfs_run [OMount True 0 ''/tmp'', OMake False None 1 ''/tmp/f'' 0x1A4, OWrite True 2 ''/tmp/f'' [7, 8] 4, OUmount ''/tmp''] [] = Done fs \<and>
     fs_ok fs \<and> length fs \<le> TMPFS_MAX_DIRS"
  by (rule tmpfs_sequences_safe) simp

text \<open>
  C12: On a well-formed file system each call on a path acts on the map from path components to (directory?, mode,
  owner, group, contents) of its instance as the map operation says, with the same result or error number, and
  keeps the file system well-formed: writing splices the bytes in (filling a gap with zeros), truncating cuts or pads with
  zeros, unlink and rmdir delete the entry or refuse (a missing entry, the wrong kind, the root, a directory with
  entries), reading returns the bytes from the offset on. Only a truncation that grows a file can run out of memory.
\<close>

theorem tmpfs_refines_map:
  assumes ok: "fs_ok fs" and pl: "path_place path fs = Some (k, cs)"
  shows
    "leads fs k (fst (spec_write mem off b cs (fview (fs ! k)))) (snd (spec_write mem off b cs (fview (fs ! k)))) (tmpfs_write_file mem now (Some path) (Some b) off fs) \<and>
     leads fs k (fst (spec_remove False cs (fview (fs ! k)))) (snd (spec_remove False cs (fview (fs ! k)))) (tmpfs_unlink (Some path) fs) \<and>
     leads fs k (fst (spec_remove True cs (fview (fs ! k)))) (snd (spec_remove True cs (fview (fs ! k)))) (tmpfs_rmdir (Some path) fs) \<and>
     (\<exists>room. (mem \<longrightarrow> room) \<and> (\<forall>dir m u g c. fview (fs ! k) cs = Some (dir, m, u, g, c) \<longrightarrow> len \<le> length c \<longrightarrow> room) \<and>
       leads fs k (fst (spec_truncate room len cs (fview (fs ! k)))) (snd (spec_truncate room len cs (fview (fs ! k)))) (tmpfs_truncate mem now (Some path) len fs)) \<and>
     tmpfs_read_file (Some path) (Some buf) count off fs = Done (spec_read count off cs (fview (fs ! k)))"
  unfolding tmpfs_unlink_def tmpfs_rmdir_def
  by (intro conjI tmpfs_write_run [OF ok pl] remove_leads [OF ok pl] tmpfs_truncate_run [OF ok pl] tmpfs_read_run [OF ok pl]) simp_all

theorem tmpfs_refines_map_witness:
  "tmpfs_read_file (Some ''/tmp/f'') (Some [0]) 1 1 [demo] = Done (Inr (Some [8]))"
  using tmpfs_refines_map [OF demo_ok demo_place, of True 1 "[]" 0 0 "[0]" 1] by (simp add: spec_read_def demo_file_view)

text \<open>
  Creating a file or a directory adds exactly the new entry, empty, with the mode cut by the umask of the caller and its
  effective owner, and changes nothing else; it fails, changing nothing, when the entry exists, the path ends with a slash,
  its parent is not a directory, or all 128 inodes are in use.
\<close>

theorem tmpfs_create_correct:
  assumes "fs_ok fs" "path_place path fs = Some (k, cs)" "next_ino (fs ! k) \<noteq> - 1"
  shows "\<exists>r fs'. (if dir then tmpfs_mkdir else tmpfs_create_file) cr now (Some path) mode fs = Done (r, fs') \<and> fs_ok fs' \<and>
    (case r of
       Inl er \<Rightarrow> fs' = fs \<and>
         (if fview (fs ! k) cs \<noteq> None then er = EEXIST
          else er = EINVAL \<and> last (take 255 (rel_path path (fs ! k))) = slash \<or>
               er = ENOENT \<and> (\<forall>v. fview (fs ! k) (butlast cs) = Some v \<longrightarrow> \<not> fst v) \<or>
               er = ENOSPC \<and> (\<forall>i<TMPFS_MAX_FILES. ino (inodes (fs ! k) i) \<noteq> 0))
     | Inr _ \<Rightarrow> cs \<noteq> [] \<and> fview (fs ! k) cs = None \<and> (\<exists>v. fview (fs ! k) (butlast cs) = Some v \<and> fst v) \<and>
         (\<exists>t'. fs' = fs[k := t'] \<and> mount_point t' = mount_point (fs ! k) \<and> next_ino t' = next_ino (fs ! k) + 1 \<and>
            fview t' = (fview (fs ! k))(cs \<mapsto> made dir cr mode)))"
  using tmpfs_make_run [OF assms, of dir cr now mode] by (cases dir) (simp_all add: tmpfs_mkdir_def tmpfs_create_file_def)

theorem tmpfs_create_correct_witness:
  "\<exists>fs'. tmpfs_create_file None 0 (Some ''/tmp/g'') 0x1A4 [demo] = Done (Inr (), fs') \<and> fview (fs' ! 0) [''g''] = Some (made False None 0x1A4)"
proof -
  have w: "next_ino ([demo] ! 0) \<noteq> - 1" by (simp add: demo_def)
  have pl: "path_place ''/tmp/g'' [demo] = Some (0, [''g''])" by code_simp
  have l: "last (take 255 (rel_path ''/tmp/g'' demo)) \<noteq> slash" by code_simp
  have v: "fview demo [''g''] = None" "fst (the (fview demo []))" "fview demo [] \<noteq> None" unfolding fview_look [OF demo_tree]
    by (simp_all add: demo_def demo_file_def demo_root_def node_view_def inode_blank_def)
  have free: "ino (inodes demo 2) = 0" "2 < TMPFS_MAX_FILES" by (simp_all add: demo_def inode_blank_def TMPFS_MAX_FILES_def)
  obtain r fs' where r: "tmpfs_create_file None 0 (Some ''/tmp/g'') 0x1A4 [demo] = Done (r, fs')"
      "case r of Inl er \<Rightarrow> er = EINVAL \<and> last (take 255 (rel_path ''/tmp/g'' demo)) = slash \<or> er = ENOENT \<and> (\<forall>v. fview demo [] = Some v \<longrightarrow> \<not> fst v) \<or>
           er = ENOSPC \<and> (\<forall>i<TMPFS_MAX_FILES. ino (inodes demo i) \<noteq> 0)
        | Inr _ \<Rightarrow> \<exists>t'. fs' = [demo][0 := t'] \<and> fview t' = (fview demo)([''g''] \<mapsto> made False None 0x1A4)"
    using tmpfs_create_correct [OF demo_ok pl w, of False None 0 "0x1A4"] v(1) by (fastforce split: sum.splits)
  show ?thesis
  proof (cases r)
    case (Inl er)
    then show ?thesis using r(2) l v(2,3) free by auto
  next
    case (Inr u)
    then show ?thesis using r by auto
  qed
qed

text \<open>
  After a successful write of some bytes a read at the same offset returns them, and what other paths read is unchanged.
\<close>

theorem tmpfs_write_then_read:
  assumes ok: "fs_ok fs" and pl: "path_place path fs = Some (k, cs)" and b: "b \<noteq> []"
    and w: "tmpfs_write_file mem now (Some path) (Some b) off fs = Done (Inr n, fs')"
  shows "n = length b \<and> tmpfs_read_file (Some path) (Some buf) n off fs' = Done (Inr (Some b)) \<and>
    (\<forall>other k' cs'. path_place other fs = Some (k', cs') \<longrightarrow> (k', cs') \<noteq> (k, cs) \<longrightarrow>
       tmpfs_read_file (Some other) (Some buf) count off' fs' = tmpfs_read_file (Some other) (Some buf) count off' fs)"
proof -
  let ?v = "fview (fs ! k)"
  obtain t' where t': "Inr n = fst (spec_write mem off b cs ?v)" "fs' = fs[k := t']" "fs_ok fs'" "mount_point t' = mount_point (fs ! k)"
      "fview t' = snd (spec_write mem off b cs ?v)"
    using tmpfs_write_run [OF ok pl, of mem off b now] w by (auto simp: leads_def)
  have kl: "k < length fs" using place_index [OF pl] by blast
  obtain m u g c where c: "0 \<le> off" "n = length b" "fview t' = ?v(cs \<mapsto> (False, m, u, g, splice c (nat off) b))"
    using t'(1,5) by (auto simp: spec_write_def split: if_splits option.splits prod.splits)
  have pl': "path_place p fs' = path_place p fs" for p unfolding t'(2) by (rule place_update [OF t'(4)])
  have len: "nat off < length (splice c (nat off) b)" using b by (simp add: splice_length less_max_iff_disj)
  have "tmpfs_read_file (Some path) (Some buf) n off fs' = Done (spec_read n off cs (fview (fs' ! k)))"
    by (rule tmpfs_read_run [OF t'(3)]) (simp add: pl' pl)
  moreover have "spec_read n off cs (fview (fs' ! k)) = Inr (Some b)"
    using c len kl splice_read [of b "nat off" c] by (simp add: spec_read_def t'(2))
  moreover have "tmpfs_read_file (Some other) (Some buf) count off' fs' = tmpfs_read_file (Some other) (Some buf) count off' fs"
    if "path_place other fs = Some (k', cs')" "(k', cs') \<noteq> (k, cs)" for other k' cs'
  proof -
    have "fview (fs' ! k') cs' = fview (fs ! k') cs'" using that(2) c(3) kl by (cases "k' = k") (auto simp: t'(2))
    then have "spec_read count off' cs' (fview (fs' ! k')) = spec_read count off' cs' (fview (fs ! k'))" by (simp add: spec_read_def)
    then show ?thesis using tmpfs_read_run [OF t'(3), of other] tmpfs_read_run [OF ok that(1)] pl' [of other] that(1) by simp
  qed
  ultimately show ?thesis using c(2) by simp
qed

theorem tmpfs_write_then_read_witness:
  "\<exists>fs'. tmpfs_write_file True 2 (Some ''/tmp/f'') (Some [9]) 4 [demo] = Done (Inr 1, fs') \<and>
     tmpfs_read_file (Some ''/tmp/f'') (Some [0]) 1 4 fs' = Done (Inr (Some [9]))"
proof -
  obtain fs' where w: "tmpfs_write_file True 2 (Some ''/tmp/f'') (Some [9]) 4 [demo] = Done (Inr 1, fs')" using demo_write by blast
  show ?thesis using tmpfs_write_then_read [OF demo_ok demo_place _ w, of "[0]"] w by auto
qed

text \<open>
  C36: Unmounting ends: the recursion that releases an inode and everything below it, in the code without a bound, stays within the
  depth of the model on every well-formed file system, whatever its shape, and the instance leaves the table.
\<close>

theorem tmpfs_umount_terminates:
  assumes "fs_ok fs"
  shows "tmpfs_umount (Some d) fs =
    Done (case first_index (\<lambda>t. mount_point t = d) fs of None \<Rightarrow> (Inl ENOENT, fs) | Some k \<Rightarrow> (Inr (), take k fs @ drop (Suc k) fs))"
proof (cases "first_index (\<lambda>t. mount_point t = d) fs")
  case None
  then show ?thesis by (simp add: tmpfs_umount_def)
next
  case (Some k)
  obtain K r where t: "tree_inv K r (fs ! k)" using fs_ok_nth [OF assms] first_index_bound [OF Some] by blast
  show ?thesis using umount_done [OF t] Some tree_invD(1) [OF t] by (auto simp: tmpfs_umount_def)
qed

theorem tmpfs_umount_terminates_witness: "tmpfs_umount (Some ''/tmp'') [demo] = Done (Inr (), [])"
  using tmpfs_umount_terminates [OF demo_ok, of "''/tmp''"] by (simp add: demo_def)

text \<open>The file system after the file was cut to one byte, and after it got a second name.\<close>

definition demo_cut :: tmpfs_data where
  "demo_cut = set_inode 1 (demo_file\<lparr>isize := 1, mtime := 3\<rparr>) demo"

definition demo_copy :: tmpfs_inode where
  "demo_copy = inode_blank\<lparr>ino := 3, imode := 0x81A4, isize := 1, data_cap := 2, iname := ''g'', idata := Some [7], parent := Some 0, sibling := Some 1, mtime := 3\<rparr>"

definition demo_linked :: tmpfs_data where
  "demo_linked = \<lparr>root = Some 0, inodes = (\<lambda>_. inode_blank)(0 := demo_root\<lparr>children := Some 2\<rparr>, 1 := demo_file\<lparr>isize := 1, mtime := 3\<rparr>, 2 := demo_copy),
     next_ino = 3, total_size = 1, mount_point = ''/tmp''\<rparr>"

lemma demo_cut_ok: "fs_ok [demo_cut]"
proof -
  let ?nd = "inodes demo_cut" and ?K = "(\<lambda>_. [])(0 := [1 :: nat])"
  have lv: "live ?nd i \<longleftrightarrow> i = 0 \<or> i = 1" for i
    by (auto simp: live_def demo_cut_def demo_def demo_root_def demo_file_def inode_blank_def TMPFS_MAX_FILES_def)
  have n: "?nd 0 = demo_root" "?nd 1 = demo_file\<lparr>isize := 1, mtime := 3\<rparr>" by (simp_all add: demo_cut_def demo_def)
  note f = demo_root_def demo_file_def inode_blank_def
  have "ranked ?nd" unfolding ranked_def by (rule exI [of _ id]) (use n in \<open>auto simp: lv f\<close>)
  moreover have "dir_ok ?K ?nd 0" "dir_ok ?K ?nd 1" "data_ok (?nd 0)" "data_ok (?nd 1)"
    using lv n by (auto simp: dir_ok_def data_ok_def f)
  moreover have "hangs ?K ?nd 1" using lv n by (auto simp: hangs_def name_ok_def f TMPFS_MAX_NAME_LEN_def)
  moreover have "root demo_cut = Some 0" by (simp add: demo_cut_def demo_def set_inode_def)
  ultimately have "tree_inv ?K 0 demo_cut" using n by (auto simp: tree_inv_def lv demo_root_def inode_blank_def)
  then show ?thesis by (auto simp: fs_ok_def tree_ok_def)
qed

lemma demo_link: "tmpfs_link True 4 (Some ''/tmp/f'') (Some ''/tmp/g'') [demo_cut] = Done (Inr (), [demo_linked])"
proof -
  have g: "tmpfs_get_instance_for_path (Some ''/tmp/f'') [demo_cut] = Some 0" "tmpfs_get_instance_for_path (Some ''/tmp/g'') [demo_cut] = Some 0" by code_simp+
  have r: "tmpfs_get_relative_path (Some ''/tmp/f'') (Some (mount_point demo_cut)) = Some ''f''" "tmpfs_get_relative_path (Some ''/tmp/g'') (Some (mount_point demo_cut)) = Some ''g''" by code_simp+
  have l: "tmpfs_lookup_inode (Some ''f'') demo_cut = Done (Some 1)" "tmpfs_lookup_inode (Some ''g'') demo_cut = Done None" "tmpfs_lookup_inode (Some ''/'') demo_cut = Done (Some 0)"
    "split_parent ''g'' = (''/'', ''g'')" by code_simp+
  have n: "inodes demo_cut 0 = demo_root" "inodes demo_cut 1 = demo_file\<lparr>isize := 1, mtime := 3\<rparr>" "inodes demo_cut 2 = inode_blank" "next_ino demo_cut = 2"
    by (simp_all add: demo_cut_def demo_def)
  define t1 where "t1 = set_inode 2 (inode_blank\<lparr>ino := 3, mtime := 4\<rparr>) (demo_cut\<lparr>next_ino := 3\<rparr>)"
  have a: "tmpfs_alloc_inode 4 demo_cut = (Some 2, t1)"
  proof -
    have "[0..<TMPFS_MAX_FILES] = 0 # 1 # 2 # [3..<TMPFS_MAX_FILES]" by code_simp
    then show ?thesis using n by (simp add: tmpfs_alloc_inode_def t1_def demo_root_def demo_file_def inode_blank_def)
  qed
  have x: "inodes t1 (Suc 0) = demo_file\<lparr>isize := 1, mtime := 3\<rparr>" "idata (inodes t1 (Suc 0)) = Some [7, 8]" "isize (inodes t1 (Suc 0)) = 1"
    "\<not> is_dir (inodes demo_cut (Suc 0))" "is_dir (inodes demo_cut 0)"
    using n by (simp_all add: t1_def demo_file_def demo_root_def inode_blank_def)
  define t2 where "t2 = add_child 0 2 ((inodes t1 2)\<lparr>imode := 0x81A4, iuid := 0, igid := 0, isize := 1, data_cap := 2, is_dir := False, mtime := 3, iname := ''g''\<rparr>) t1"
  have t2: "inodes t2 = (\<lambda>_. inode_blank)(0 := demo_root\<lparr>children := Some 2\<rparr>, 1 := demo_file\<lparr>isize := 1, mtime := 3\<rparr>, 2 := demo_copy\<lparr>idata := None\<rparr>)"
    by (rule ext) (simp add: t2_def add_child_def t1_def demo_cut_def demo_def demo_root_def demo_file_def demo_copy_def inode_blank_def Let_def)
  have "tmpfs_link True 4 (Some ''/tmp/f'') (Some ''/tmp/g'') [demo_cut] =
      Done (Inr (), [(set_inode 2 ((inodes t2 2)\<lparr>idata := Some [7]\<rparr>) t2)\<lparr>total_size := add64 (total_size t2) 1\<rparr>])"
    by (simp add: tmpfs_link_def g r l a Let_def TMPFS_MAX_NAME_LEN_def x t2_def demo_file_def inode_blank_def)
  moreover have "(set_inode 2 ((inodes t2 2)\<lparr>idata := Some [7]\<rparr>) t2)\<lparr>total_size := add64 (total_size t2) 1\<rparr> = demo_linked"
    by (simp add: t2 set_inode_def demo_linked_def demo_copy_def inode_blank_def)
      (simp add: t2_def add_child_def t1_def demo_cut_def demo_def set_inode_def add64_def Let_def)
  ultimately show ?thesis by simp
qed

text \<open>A look-up depends on names, kinds and links alone.\<close>

definition same_shape :: "(nat \<Rightarrow> tmpfs_inode) \<Rightarrow> (nat \<Rightarrow> tmpfs_inode) \<Rightarrow> bool" where
  "same_shape nd nd' \<longleftrightarrow>
     (\<forall>i. iname (nd' i) = iname (nd i) \<and> sibling (nd' i) = sibling (nd i) \<and> children (nd' i) = children (nd i) \<and> is_dir (nd' i) = is_dir (nd i))"

lemma child_named_shape_Some:
  assumes "child_named nd s c = Some r"
  shows "same_shape nd nd' \<longrightarrow> child_named nd' s c = Some r"
proof (rule child_named.raw_induct [where P = "\<lambda>nd s c r. same_shape nd nd' \<longrightarrow> child_named nd' s c = Some r", OF _ assms])
  fix f nd s c r
  assume ih: "\<And>nd s c r. f nd s c = Some r \<Longrightarrow> same_shape nd nd' \<longrightarrow> child_named nd' s c = Some r"
    and f: "(case c of None \<Rightarrow> Some None | Some i \<Rightarrow> if iname (nd i) = s then Some (Some i) else f nd s (sibling (nd i))) = Some r"
  show "same_shape nd nd' \<longrightarrow> child_named nd' s c = Some r"
  proof
    assume sh: "same_shape nd nd'"
    show "child_named nd' s c = Some r"
    proof (cases c)
      case None
      then show ?thesis using f by (simp add: child_named.simps)
    next
      case (Some i)
      have i: "iname (nd' i) = iname (nd i)" "sibling (nd' i) = sibling (nd i)" using sh by (simp_all add: same_shape_def)
      show ?thesis
      proof (cases "iname (nd i) = s")
        case True
        then show ?thesis using f Some i by (subst child_named.simps) auto
      next
        case False
        then have "child_named nd' s (sibling (nd i)) = Some r" using f ih Some sh by simp
        then show ?thesis using Some False i by (subst child_named.simps) simp
      qed
    qed
  qed
qed

lemma child_named_shape: "same_shape nd nd' \<Longrightarrow> child_named nd' s c = child_named nd s c"
proof -
  assume sh: "same_shape nd nd'"
  then have sh': "same_shape nd' nd" by (simp add: same_shape_def)
  show ?thesis using child_named_shape_Some [of nd s c _ nd'] child_named_shape_Some [of nd' s c _ nd] sh sh'
    by (cases "child_named nd s c"; cases "child_named nd' s c") auto
qed

lemma walk_shape: "same_shape nd nd' \<Longrightarrow> tmpfs_walk nd' cur s = tmpfs_walk nd cur s"
proof (induction nd cur s rule: tmpfs_walk.induct)
  case (1 nd cur s)
  have i: "children (nd' cur) = children (nd cur)" "is_dir (nd' cur) = is_dir (nd cur)" using 1(2) by (simp_all add: same_shape_def)
  show ?case
  proof (cases "s = [] \<or> \<not> is_dir (nd cur)")
    case True
    then show ?thesis using i by (subst (1 2) tmpfs_walk.simps) auto
  next
    case False
    then show ?thesis using i child_named_shape [OF 1(2)] 1(1) [OF _ _ _ _ 1(2)]
      by (subst (1 2) tmpfs_walk.simps) (auto split: option.split)
  qed
qed

lemma lookup_shape: "same_shape (inodes t) (inodes t') \<Longrightarrow> root t' = root t \<Longrightarrow> tmpfs_lookup_inode rel t' = tmpfs_lookup_inode rel t"
  by (simp add: tmpfs_lookup_inode_def walk_shape Let_def split: option.split)

text \<open>What a second name leaves when it succeeds on a file with contents: a new inode with the capacity of the first and a block of its size.\<close>

lemma tmpfs_link_made:
  assumes ok: "fs_ok fs" and po: "path_place old fs = Some (k, os)" and pn: "path_place new fs = Some (k, cs)" and inv: "tree_inv K r0 (fs ! k)"
    and so: "look (inodes (fs ! k)) K r0 os = Some s" and d: "idata (inodes (fs ! k) s) = Some d" "isize (inodes (fs ! k) s) \<noteq> 0"
    and l: "tmpfs_link mem now (Some old) (Some new) fs = Done (Inr (), fs')"
  shows "\<exists>p i name q y t'. fs' = fs[k := t'] \<and> inodes t' = grown p i y (inodes (fs ! k)) \<and> root t' = root (fs ! k) \<and> mount_point t' = mount_point (fs ! k) \<and>
    look (inodes (fs ! k)) K r0 q = Some p \<and> is_dir (inodes (fs ! k) p) \<and> i < TMPFS_MAX_FILES \<and> ino (inodes (fs ! k) i) = 0 \<and> name_ok name \<and>
    cs = q @ [name] \<and> look (inodes (fs ! k)) K r0 cs = None \<and> iname y = name \<and> ino y = next_ino (fs ! k) + 1 \<and> children y = None \<and> \<not> is_dir y \<and>
    isize y = isize (inodes (fs ! k) s) \<and> data_cap y = data_cap (inodes (fs ! k) s) \<and> idata y = Some (take (isize (inodes (fs ! k) s)) d)"
proof -
  let ?t = "fs ! k" and ?x = "inodes (fs ! k) s"
  have kf: "tmpfs_get_instance_for_path (Some old) fs = Some k" "tmpfs_get_instance_for_path (Some new) fs = Some k"
    using place_index [OF po] place_index [OF pn] by simp_all
  have os: "os = comps (take 255 (rel_path old ?t))" and cs: "cs = comps (take 255 (rel_path new ?t))" using po pn kf by (simp_all add: path_place_def)
  obtain pp name where sp: "split_parent (rel_path new ?t) = (pp, name)" by (cases "split_parent (rel_path new ?t)")
  note unf = tmpfs_link_def Let_def kf relative_path [OF kf(1)] relative_path [OF kf(2)] lookup_look [OF inv] os [symmetric] cs [symmetric] sp so
  have c: "\<not> is_dir ?x" "look (inodes ?t) K r0 cs = None" "name \<noteq> []" "length name \<le> TMPFS_MAX_NAME_LEN"
    using l by (auto simp: unf split: if_splits option.splits)
  obtain p where p: "look (inodes ?t) K r0 (comps (take 255 pp)) = Some p" "is_dir (inodes ?t p)"
    using l c by (auto simp: unf split: if_splits option.splits)
  note sc = split_parent_comps [OF sp c(3)]
  have cs2: "cs = comps (take 255 pp) @ [name]" using sc(1) cs by simp
  have nk: "name_ok name" using c(3,4) sc(2) by (simp add: name_ok_def)
  have ls: "live (inodes ?t) s" and lp: "live (inodes ?t) p" using look_live [OF inv tree_invD(2) [OF inv]] so p(1) by blast+
  obtain i t1 where g: "tmpfs_alloc_inode now ?t = (Some i, t1)" "i < TMPFS_MAX_FILES" "ino (inodes ?t i) = 0" "root t1 = root ?t" "mount_point t1 = mount_point ?t"
      "inodes t1 = (inodes ?t)(i := inode_blank\<lparr>ino := next_ino ?t + 1, mtime := now\<rparr>)"
  proof (cases rule: alloc_inode_cases [of now ?t])
    case full
    then have "tmpfs_link mem now (Some old) (Some new) fs = Done (Inl ENOSPC, fs)" using c p by (simp add: unf)
    then show thesis using l by simp
  next
    case (got i t1)
    then show thesis using that by blast
  qed
  have ip: "p \<noteq> i" "s \<noteq> i" using lp ls g(3) by (auto simp: live_def)
  define y where "y = inode_blank\<lparr>ino := next_ino ?t + 1, mtime := mtime ?x, imode := imode ?x, iuid := iuid ?x, igid := igid ?x, isize := isize ?x,
    data_cap := data_cap ?x, is_dir := False, iname := name\<rparr>"
  define t2 where "t2 = add_child p i y t1"
  let ?t' = "(set_inode i ((inodes t2 i)\<lparr>idata := Some (take (isize ?x) d)\<rparr>) t2)\<lparr>total_size := add64 (total_size t2) (isize ?x)\<rparr>"
  have ye: "(inodes t1 i)\<lparr>imode := imode ?x, iuid := iuid ?x, igid := igid ?x, isize := isize ?x,
      data_cap := data_cap ?x, is_dir := False, mtime := mtime ?x, iname := name\<rparr> = y"
    using g(6) by (simp add: y_def inode_blank_def)
  have xs: "inodes t1 s = ?x" using g(6) ip(2) by simp
  have f: "fs' = fs[k := ?t']" using l c p g(1) ye d by (simp add: unf xs t2_def split: if_splits)
  have g2: "inodes t2 = grown p i y (inodes ?t)" "root t2 = root ?t" "mount_point t2 = mount_point ?t"
    using add_child_grown(1) [OF ip(1)] grown_same [OF ip(1)] g(4-6) add_child_grown(2,3) by (simp_all add: t2_def)
  have "inodes ?t' = grown p i (y\<lparr>idata := Some (take (isize ?x) d)\<rparr>) (inodes ?t)" "root ?t' = root ?t" "mount_point ?t' = mount_point ?t"
    using g2 ip(1) by (simp_all add: grown_def fun_upd_twist links_last)
  then show ?thesis using f p g(2,3) nk cs2 c(2)
    by (intro exI [of _ p] exI [of _ i] exI [of _ name] exI [of _ "comps (take 255 pp)"] exI [of _ "y\<lparr>idata := Some (take (isize ?x) d)\<rparr>"] exI [of _ ?t'])
      (simp add: y_def inode_blank_def)
qed

text \<open>
  C37: A second name is a copy that inherits the capacity of the original but gets a block of only its current size. On every well-formed file
  system: once a file that is shorter than its block (as every file cut by \<^verbatim>\<open>truncate\<close> is) has got a second name, extending the second name to any
  size that fits the capacity clears bytes behind the end of its block.
\<close>

theorem tmpfs_link_overflow:
  assumes ok: "fs_ok fs" and po: "path_place old fs = Some (k, os)" and pn: "path_place new fs = Some (k, cs)" and wrap: "next_ino (fs ! k) \<noteq> - 1"
    and s: "tmpfs_find_inode (Some old) fs = Done (Some (k, s))"
    and n: "0 < isize (inodes (fs ! k) s)" "isize (inodes (fs ! k) s) < n" "n \<le> data_cap (inodes (fs ! k) s)" "n \<le> TMPFS_MAX_FILE_SIZE"
    and l: "tmpfs_link mem now (Some old) (Some new) fs = Done (Inr (), fs')"
  shows "tmpfs_truncate mem' now' (Some new) n fs' = Stuck"
proof -
  let ?t = "fs ! k" and ?x = "inodes (fs ! k) s"
  have kl: "k < length fs" using place_index [OF po] by simp
  obtain K r0 where inv: "tree_inv K r0 ?t" using fs_ok_nth [OF ok kl] by blast
  have so: "look (inodes ?t) K r0 os = Some s" using s find_inode_place [OF ok po inv] by (auto split: option.splits)
  have ls: "live (inodes ?t) s" by (rule look_live [OF inv tree_invD(2) [OF inv] so])
  have "data_ok ?x" by (rule tree_invD(7) [OF inv ls])
  then obtain d where d: "idata ?x = Some d" "isize ?x \<le> length d" using n(1) by (auto simp: data_ok_def split: option.splits)
  have nz: "isize ?x \<noteq> 0" using n(1) by simp
  obtain p i name q y t' where m: "fs' = fs[k := t']" "inodes t' = grown p i y (inodes ?t)" "root t' = root ?t" "mount_point t' = mount_point ?t"
    "look (inodes ?t) K r0 q = Some p" "is_dir (inodes ?t p)" "i < TMPFS_MAX_FILES" "ino (inodes ?t i) = 0" "name_ok name" "cs = q @ [name]"
    "look (inodes ?t) K r0 cs = None" "iname y = name" "ino y = next_ino ?t + 1" "children y = None" "\<not> is_dir y" "isize y = isize ?x"
    "data_cap y = data_cap ?x" "idata y = Some (take (isize ?x) d)"
    using tmpfs_link_made [OF ok po pn inv so d(1) nz l] by - (elim exE conjE, rule that, assumption+)
  let ?z = "y\<lparr>data_cap := isize ?x\<rparr>" and ?u = "t'\<lparr>inodes := grown p i (y\<lparr>data_cap := isize ?x\<rparr>) (inodes ?t)\<rparr>"
  have lp: "live (inodes ?t) p" by (rule look_live [OF inv tree_invD(2) [OF inv] m(5)])
  have li: "\<not> live (inodes ?t) i" using m(8) by (simp add: live_def)
  have ip: "i \<noteq> p" using lp li by auto
  have z: "ino ?z \<noteq> 0" "name_ok (iname ?z)" "data_ok ?z" "children ?z = None" "look (inodes ?t) K r0 (q @ [iname ?z]) = None"
    using m d wrap by (simp_all add: data_ok_def eq_neg_iff_add_eq_0)
  have inv': "tree_inv (K(p := i # K p, i := [])) r0 ?u" using fview_added(1) [OF inv m(5-8) z(1-5), of ?u] m(3) by simp
  have fr: "find (\<lambda>j. iname (inodes ?t j) = iname ?z) (K p) = None" using z(5) m(5) by (simp add: look_snoc)
  have "look (grown p i ?z (inodes ?t)) (K(p := i # K p, i := [])) r0 cs = (case look (inodes ?t) K r0 cs of Some k \<Rightarrow> Some k
      | None \<Rightarrow> if \<exists>q'. cs = q' @ [iname ?z] \<and> look (inodes ?t) K r0 q' = Some p then Some i else None)"
    by (rule look_grown [OF inv lp li ip fr tree_invD(2) [OF inv]])
  then have lk: "look (inodes ?u) (K(p := i # K p, i := [])) r0 cs = Some i" using m(5,10-12) by simp
  have okz: "fs_ok (fs[k := ?u])" by (rule fs_ok_update [OF ok inv'])
  have pl: "path_place new (fs[k := ?u]) = Some (k, cs)" "path_place new (fs[k := t']) = Some (k, cs)" using pn place_update m(4) by simp_all
  have fz: "tmpfs_find_inode (Some new) (fs[k := ?u]) = Done (Some (k, i))" using find_inode_place [OF okz pl(1)] inv' lk kl by simp
  have sh: "same_shape (inodes ?u) (inodes t')" by (simp add: same_shape_def m(2) grown_def)
  have ki: "tmpfs_get_instance_for_path (Some new) (fs[k := ?u]) = Some k" "tmpfs_get_instance_for_path (Some new) (fs[k := t']) = Some k"
    using place_index [OF pl(1)] place_index [OF pl(2)] by simp_all
  have "tmpfs_find_inode (Some new) fs' = Done (Some (k, i))"
    using fz lookup_shape [OF sh] kl by (simp add: tmpfs_find_inode_def m(1) ki)
  moreover have "inodes t' i = y\<lparr>parent := Some p, sibling := children (inodes ?t p)\<rparr>" using ip by (simp add: m(2) grown_def)
  ultimately show ?thesis using n m d kl by (simp add: tmpfs_truncate_def)
qed

theorem tmpfs_link_overflow_witness: "tmpfs_truncate True 5 (Some ''/tmp/g'') 2 [demo_linked] = Stuck"
proof -
  have ok: "fs_ok [demo_cut]" by (rule demo_cut_ok)
  have pl: "path_place ''/tmp/f'' [demo_cut] = Some (0, [''f''])" "path_place ''/tmp/g'' [demo_cut] = Some (0, [''g''])" by code_simp+
  have s: "tmpfs_find_inode (Some ''/tmp/f'') [demo_cut] = Done (Some (0, 1))" by code_simp
  have x: "next_ino ([demo_cut] ! 0) \<noteq> - 1" "0 < isize (inodes ([demo_cut] ! 0) 1)" "isize (inodes ([demo_cut] ! 0) 1) < 2" "2 \<le> data_cap (inodes ([demo_cut] ! 0) 1)"
    "2 \<le> TMPFS_MAX_FILE_SIZE" by (simp_all add: demo_cut_def demo_def demo_file_def inode_blank_def TMPFS_MAX_FILE_SIZE_def)
  show ?thesis by (rule tmpfs_link_overflow [OF ok pl x(1) s x(2-5) demo_link])
qed

text \<open>
  C0: Where the block of the source is as large as its contents, a second name adds exactly one entry with the mode, owner and
  contents of the first; every failure leaves the map as it was.
\<close>

theorem tmpfs_link_copies:
  assumes "fs_ok fs" "path_place old fs = Some (k, os)" "path_place new fs = Some (k, cs)" "next_ino (fs ! k) \<noteq> - 1"
    and "\<And>i. tmpfs_find_inode (Some old) fs = Done (Some (k, i)) \<Longrightarrow> isize (inodes (fs ! k) i) = 0 \<or> data_cap (inodes (fs ! k) i) = isize (inodes (fs ! k) i)"
  shows "\<exists>r t'. tmpfs_link mem now (Some old) (Some new) fs = Done (r, fs[k := t']) \<and> fs_ok (fs[k := t']) \<and>
    (case r of
       Inl er \<Rightarrow> fview t' = fview (fs ! k)
     | Inr _ \<Rightarrow> \<exists>v. fview (fs ! k) os = Some v \<and> \<not> fst v \<and> fview (fs ! k) cs = None \<and> fview t' = (fview (fs ! k))(cs \<mapsto> v))"
  by (rule tmpfs_link_run [OF assms])

theorem tmpfs_link_copies_witness:
  "\<exists>r t'. tmpfs_link True 4 (Some ''/tmp/f'') (Some ''/tmp/g'') [demo] = Done (r, [t']) \<and> fs_ok [t']"
proof -
  have pl: "path_place ''/tmp/g'' [demo] = Some (0, [''g''])" by code_simp
  have "tmpfs_find_inode (Some ''/tmp/f'') [demo] = Done (Some (0, 1))" by code_simp
  then have t: "isize (inodes ([demo] ! 0) i) = 0 \<or> data_cap (inodes ([demo] ! 0) i) = isize (inodes ([demo] ! 0) i)"
    if "tmpfs_find_inode (Some ''/tmp/f'') [demo] = Done (Some (0, i))" for i
    using that by (simp add: demo_def demo_file_def inode_blank_def)
  have w: "next_ino ([demo] ! 0) \<noteq> - 1" by (simp add: demo_def)
  show ?thesis using tmpfs_link_copies [OF demo_ok demo_place pl w t, of True 4] by fastforce
qed

text \<open>
  C0: Listing a directory into a buffer for all inodes returns the two dot entries and then every entry of the directory exactly once, with its kind.
\<close>

theorem tmpfs_readdir_lists:
  assumes "fs_ok fs" "path_place path fs = Some (k, cs)" "max_entries > int TMPFS_MAX_FILES + 1"
  shows "case fview (fs ! k) cs of
      None \<Rightarrow> tmpfs_readdir (Some path) max_entries fs = Done (Inl ENOENT)
    | Some (dir, _) \<Rightarrow>
        if \<not> dir then tmpfs_readdir (Some path) max_entries fs = Done (Inl ENOTDIR)
        else \<exists>es. tmpfs_readdir (Some path) max_entries fs = Done (Inr ([(''.'', True), (''..'', True)] @ es)) \<and> distinct (map fst es) \<and>
          set es = {(s, d). \<exists>v. fview (fs ! k) (cs @ [s]) = Some (d, v)}"
  by (rule tmpfs_readdir_run [OF assms])

theorem tmpfs_readdir_lists_witness: "tmpfs_readdir (Some ''/tmp/f'') 200 [demo] = Done (Inl ENOTDIR)"
  using tmpfs_readdir_lists [OF demo_ok demo_place, of 200] by (simp add: demo_file_view TMPFS_MAX_FILES_def)
end
