(* ===== verification/Signal.thy ===== *)
theory Signal
  imports Process_State User_Copy
begin

text \<open>
  Signals of one process (\<^verbatim>\<open>kernel/lib/signals.c\<close>, \<^verbatim>\<open>kernel/process/signals.c\<close>,
  \<^verbatim>\<open>kernel/process/saved_context.c\<close>, \<^verbatim>\<open>kernel/process/signal_enter.c\<close> and the signal calls of
  \<^verbatim>\<open>kernel/syscalls/process_syscalls.c\<close>): the pending, blocked and ignored sets, registered handlers, the choice of a
  stack for a handler, delivery before the return to user space, and the return from a handler, with all general registers and
  the flags (the segment registers, which the code always sets to the user segments, are left out). Which allocations and copies to the user stack
  succeed is an argument; the console resynchronisation and messages are left out.
\<close>

section \<open>State\<close>

text \<open>
  A system-call frame (\<^verbatim>\<open>arch_syscall_frame_t\<close>): instruction and stack pointer, flags, the argument registers \<^verbatim>\<open>rdi\<close>, \<^verbatim>\<open>rsi\<close>, \<^verbatim>\<open>rdx\<close>,
  \<^verbatim>\<open>r10\<close>, \<^verbatim>\<open>r8\<close>, \<^verbatim>\<open>r9\<close> and the registers a call preserves.
\<close>

record sframe =
  ip :: u64
  sp :: u64
  rflags :: u64
  arg0 :: u64
  arg1 :: u64
  arg2 :: u64
  gpr_r10 :: u64
  gpr_r8 :: u64
  gpr_r9 :: u64
  gpr_rbx :: u64
  gpr_rbp :: u64
  gpr_r12 :: u64
  gpr_r13 :: u64
  gpr_r14 :: u64
  gpr_r15 :: u64

text \<open>The registers of a task and of a \<^verbatim>\<open>struct sigcontext\<close> have three more.\<close>

record regs = sframe +
  gpr_rax :: u64
  gpr_rcx :: u64
  gpr_r11 :: u64

definition zero_frame :: sframe where
  "zero_frame = \<lparr>ip = 0, sp = 0, rflags = 0, arg0 = 0, arg1 = 0, arg2 = 0, gpr_r10 = 0, gpr_r8 = 0, gpr_r9 = 0, gpr_rbx = 0, gpr_rbp = 0,
     gpr_r12 = 0, gpr_r13 = 0, gpr_r14 = 0, gpr_r15 = 0\<rparr>"

definition zero_regs :: regs where
  "zero_regs = \<lparr>ip = 0, sp = 0, rflags = 0, arg0 = 0, arg1 = 0, arg2 = 0, gpr_r10 = 0, gpr_r8 = 0, gpr_r9 = 0, gpr_rbx = 0, gpr_rbp = 0,
     gpr_r12 = 0, gpr_r13 = 0, gpr_r14 = 0, gpr_r15 = 0, gpr_rax = 0, gpr_rcx = 0, gpr_r11 = 0\<rparr>"

record pinfo =
  sched :: proc
  pid :: int
  tgid :: int
  ppid :: int
  pgid :: int
  user_mode :: bool
  comm :: string
  signal_pending :: u32
  signal_mask :: u32
  signal_ignored :: u32
  signal_mask_saved :: u32
  signal_mask_saved_valid :: bool
  signal_frame_sp :: u64
  signal_handlers :: "nat \<Rightarrow> u64"
  signal_sa_flags :: "nat \<Rightarrow> u32"
  signal_sa_mask :: "nat \<Rightarrow> u32"
  signal_restorer :: "nat \<Rightarrow> u64"
  saved_context :: "regs option"
  signal_enter_pending :: bool
  signal_defer_catchable :: bool
  signal_last_delivered :: nat
  kernel_syscall_sleep :: bool
  kernel_sleep_interrupted :: bool
  coop_resched_resume :: bool
  syscall_frame_fresh :: bool
  syscall_block_nr :: u32
  syscall_entry_nr :: u32
  syscall_frame :: sframe
  kernel_sleep_syscall_frame :: sframe
  task_regs :: regs
  irq_frame_saved :: bool
  exit_signal :: nat
  exit_code :: int
  wait_blocked :: bool
  wait_target_pid :: int
  wait_options :: int
  wait_resume_child_pid :: int
  stack_start :: u64
  stack_size :: u64

definition NSIG :: nat where "NSIG = 32"
definition SIGHUP :: nat where "SIGHUP = 1"
definition SIGINT :: nat where "SIGINT = 2"
definition SIGQUIT :: nat where "SIGQUIT = 3"
definition SIGILL :: nat where "SIGILL = 4"
definition SIGABRT :: nat where "SIGABRT = 6"
definition SIGBUS :: nat where "SIGBUS = 7"
definition SIGFPE :: nat where "SIGFPE = 8"
definition SIGKILL :: nat where "SIGKILL = 9"
definition SIGUSR1 :: nat where "SIGUSR1 = 10"
definition SIGSEGV :: nat where "SIGSEGV = 11"
definition SIGUSR2 :: nat where "SIGUSR2 = 12"
definition SIGPIPE :: nat where "SIGPIPE = 13"
definition SIGALRM :: nat where "SIGALRM = 14"
definition SIGTERM :: nat where "SIGTERM = 15"
definition SIGCHLD :: nat where "SIGCHLD = 17"
definition SIGCONT :: nat where "SIGCONT = 18"
definition SIGSTOP :: nat where "SIGSTOP = 19"

lemmas signal_numbers = NSIG_def SIGHUP_def SIGINT_def SIGQUIT_def SIGILL_def SIGABRT_def SIGBUS_def SIGFPE_def SIGKILL_def
  SIGUSR1_def SIGSEGV_def SIGUSR2_def SIGPIPE_def SIGALRM_def SIGTERM_def SIGCHLD_def SIGCONT_def SIGSTOP_def

definition SIG_DFL :: u64 where "SIG_DFL = 0"
definition SIG_IGN :: u64 where "SIG_IGN = 1"
definition SA_SIGINFO :: u32 where "SA_SIGINFO = 4"
definition SA_RESTORER :: u32 where "SA_RESTORER = 0x04000000"
definition SA_RESTART :: u32 where "SA_RESTART = 0x10000000"
definition SA_NODEFER :: u32 where "SA_NODEFER = 0x40000000"
definition SA_RESETHAND :: u32 where "SA_RESETHAND = 0x80000000"

definition SIGNAL_MASK :: "nat \<Rightarrow> u32" where
  "SIGNAL_MASK sig = push_bit sig 1"

definition has_sig :: "u32 \<Rightarrow> nat \<Rightarrow> bool" where
  "has_sig w sig \<longleftrightarrow> w AND SIGNAL_MASK sig \<noteq> 0"

definition clear_pending :: "nat \<Rightarrow> pinfo \<Rightarrow> pinfo" where
  "clear_pending sig p = p\<lparr>signal_pending := signal_pending p AND NOT (SIGNAL_MASK sig)\<rparr>"

text \<open>\<^verbatim>\<open>is_user_address (addr, 8)\<close>, which walks no tables.\<close>

definition user_addr :: "u64 \<Rightarrow> bool" where
  "user_addr a \<longleftrightarrow> a \<noteq> 0 \<and> unat a \<le> add64 (unat a) 8 \<and> mm_user_va_ok (unat a) 8"

definition caught :: "u64 \<Rightarrow> bool" where
  "caught h \<longleftrightarrow> h \<noteq> SIG_DFL \<and> h \<noteq> SIG_IGN"

definition is_fault :: "nat \<Rightarrow> bool" where
  "is_fault sig \<longleftrightarrow> sig = SIGSEGV \<or> sig = SIGBUS \<or> sig = SIGILL \<or> sig = SIGFPE"

section \<open>Frames, contexts and tasks\<close>

text \<open>The flags of user code, outside of single stepping: the trap flag is cleared, interrupts are on.\<close>

definition RFLAGS_IF :: u64 where "RFLAGS_IF = 0x200"

definition ir0_rflags_sanitize_user :: "u64 \<Rightarrow> u64" where
  "ir0_rflags_sanitize_user w = (w OR 2 OR 0x200) AND NOT 0x100"

definition task_initial_user_status :: u64 where
  "task_initial_user_status = ir0_rflags_sanitize_user RFLAGS_IF"

definition signal_fill_sigcontext_from_syscall_frame :: "sframe \<Rightarrow> u64 \<Rightarrow> regs" where
  "signal_fill_sigcontext_from_syscall_frame f retval =
     \<lparr>ip = ip f, sp = sp f, rflags = (if rflags f \<noteq> 0 then rflags f else RFLAGS_IF), arg0 = arg0 f, arg1 = arg1 f, arg2 = arg2 f,
      gpr_r10 = gpr_r10 f, gpr_r8 = gpr_r8 f, gpr_r9 = gpr_r9 f, gpr_rbx = gpr_rbx f, gpr_rbp = gpr_rbp f, gpr_r12 = gpr_r12 f,
      gpr_r13 = gpr_r13 f, gpr_r14 = gpr_r14 f, gpr_r15 = gpr_r15 f, gpr_rax = retval, gpr_rcx = 0, gpr_r11 = 0\<rparr>"

definition signal_fill_syscall_frame_from_sigcontext :: "regs \<Rightarrow> sframe" where
  "signal_fill_syscall_frame_from_sigcontext c =
     \<lparr>ip = ip c, sp = sp c, rflags = (if rflags c \<noteq> 0 then rflags c else RFLAGS_IF), arg0 = arg0 c, arg1 = arg1 c, arg2 = arg2 c,
      gpr_r10 = gpr_r10 c, gpr_r8 = gpr_r8 c, gpr_r9 = gpr_r9 c, gpr_rbx = gpr_rbx c, gpr_rbp = gpr_rbp c, gpr_r12 = gpr_r12 c,
      gpr_r13 = gpr_r13 c, gpr_r14 = gpr_r14 c, gpr_r15 = gpr_r15 c\<rparr>"

definition task_apply_syscall_frame :: "sframe \<Rightarrow> u64 \<Rightarrow> regs" where
  "task_apply_syscall_frame f rax =
     (let w = ir0_rflags_sanitize_user (rflags f OR 2) in
      \<lparr>ip = ip f, sp = sp f, rflags = w, arg0 = arg0 f, arg1 = arg1 f, arg2 = arg2 f,
       gpr_r10 = gpr_r10 f, gpr_r8 = gpr_r8 f, gpr_r9 = gpr_r9 f, gpr_rbx = gpr_rbx f, gpr_rbp = gpr_rbp f, gpr_r12 = gpr_r12 f,
       gpr_r13 = gpr_r13 f, gpr_r14 = gpr_r14 f, gpr_r15 = gpr_r15 f, gpr_rax = rax, gpr_rcx = ip f, gpr_r11 = w\<rparr>)"

section \<open>Saved context and flags\<close>

definition process_saved_context_attach :: "regs \<Rightarrow> pinfo \<Rightarrow> bool \<times> pinfo" where
  "process_saved_context_attach ctx p = (if saved_context p \<noteq> None then (False, p) else (True, p\<lparr>saved_context := Some ctx\<rparr>))"

definition process_saved_context_clear :: "pinfo \<Rightarrow> pinfo" where
  "process_saved_context_clear p = p\<lparr>saved_context := None\<rparr>"

definition signal_delivery_blocked_nested :: "pinfo \<Rightarrow> bool" where
  "signal_delivery_blocked_nested p \<longleftrightarrow> saved_context p \<noteq> None \<or> signal_enter_pending p"

definition signal_rip_is_registered_handler :: "pinfo \<Rightarrow> u64 \<Rightarrow> bool" where
  "signal_rip_is_registered_handler p rip \<longleftrightarrow>
     \<not> rip < 0x1000 \<and> list_ex (\<lambda>i. caught (signal_handlers p i) \<and> signal_handlers p i = rip) [1..<NSIG]"

definition process_kernel_sleep_capture_syscall_frame :: "pinfo \<Rightarrow> pinfo" where
  "process_kernel_sleep_capture_syscall_frame p =
     (if \<not> syscall_frame_fresh p then p
      else let p1 = p\<lparr>kernel_sleep_syscall_frame := syscall_frame p, syscall_block_nr := syscall_entry_nr p\<rparr> in
        if syscall_block_nr p1 = 0 \<and> sint (arg0 (kernel_sleep_syscall_frame p1)) < 0
        then p1\<lparr>kernel_sleep_syscall_frame := (kernel_sleep_syscall_frame p1)\<lparr>arg0 := 0\<rparr>\<rparr> else p1)"

definition process_kernel_sleep_interrupted_backup_frame :: "pinfo \<Rightarrow> pinfo" where
  "process_kernel_sleep_interrupted_backup_frame p =
     (if coop_resched_resume p then p
      else if kernel_syscall_sleep p then p\<lparr>kernel_sleep_interrupted := True\<rparr>
      else if syscall_frame_fresh p then (process_kernel_sleep_capture_syscall_frame p)\<lparr>kernel_sleep_interrupted := True\<rparr>
      else p)"

section \<open>Masks\<close>

definition signals_apply_handler_mask :: "nat \<Rightarrow> u32 \<Rightarrow> pinfo \<Rightarrow> pinfo" where
  "signals_apply_handler_mask sig flags p =
     (if sig < 1 \<or> sig \<ge> NSIG then p
      else let p1 = (if signal_mask_saved_valid p then p else p\<lparr>signal_mask_saved := signal_mask p, signal_mask_saved_valid := True\<rparr>);
               p2 = p1\<lparr>signal_mask := signal_mask p1 OR signal_sa_mask p1 sig\<rparr> in
        if flags AND SA_NODEFER \<noteq> 0 then p2 else p2\<lparr>signal_mask := signal_mask p2 OR SIGNAL_MASK sig\<rparr>)"

definition signals_restore_handler_mask :: "pinfo \<Rightarrow> pinfo" where
  "signals_restore_handler_mask p =
     (if signal_mask_saved_valid p then p\<lparr>signal_mask := signal_mask_saved p, signal_mask_saved_valid := False\<rparr> else p)"

definition signals_on_sigreturn :: "pinfo \<Rightarrow> pinfo" where
  "signals_on_sigreturn p = (signals_restore_handler_mask p)\<lparr>signal_frame_sp := 0\<rparr>"

definition sizeof_sigframe :: u64 where "sizeof_sigframe = 192"

definition signals_try_abandon_sigframe :: "u64 \<Rightarrow> pinfo \<Rightarrow> pinfo" where
  "signals_try_abandon_sigframe usp p =
     (if signal_frame_sp p = 0 then p
      else if usp \<noteq> 0 \<and> usp \<le> signal_frame_sp p + sizeof_sigframe + 128 then p
      else signals_on_sigreturn ((process_saved_context_clear p)\<lparr>signal_enter_pending := False\<rparr>))"

section \<open>Predicates\<close>

definition signals_has_user_handler :: "nat \<Rightarrow> pinfo \<Rightarrow> bool" where
  "signals_has_user_handler sig p \<longleftrightarrow>
     \<not> (sig < 1 \<or> sig \<ge> NSIG) \<and> \<not> has_sig (signal_ignored p) sig \<and> \<not> has_sig (signal_mask p) sig \<and>
     caught (signal_handlers p sig) \<and> (user_mode p \<longrightarrow> user_addr (signal_handlers p sig))"

definition signals_pause_should_interrupt :: "pinfo \<Rightarrow> bool" where
  "signals_pause_should_interrupt p =
     (if signal_pending p = 0 then False
      else if has_sig (signal_pending p) SIGKILL then True
      else if has_sig (signal_pending p) SIGTERM \<and> \<not> has_sig (signal_ignored p) SIGTERM \<and> \<not> signals_has_user_handler SIGTERM p then True
      else if has_sig (signal_pending p) SIGHUP \<and> \<not> has_sig (signal_ignored p) SIGHUP \<and> \<not> signals_has_user_handler SIGHUP p then True
      else signal_pending p AND NOT (signal_mask p) \<noteq> 0)"

definition signals_should_handle_on_run :: "pinfo \<Rightarrow> bool" where
  "signals_should_handle_on_run p =
     (if signal_pending p = 0 then False
      else if signal_pending p AND NOT (signal_mask p) \<noteq> 0 then True
      else signals_pause_should_interrupt p)"

definition process_signal_is_default_fatal :: "pinfo \<Rightarrow> nat \<Rightarrow> bool" where
  "process_signal_is_default_fatal p sig =
     (if sig = SIGKILL then True
      else if sig \<notin> {SIGTERM, SIGHUP, SIGINT, SIGQUIT, SIGUSR1, SIGUSR2, SIGSEGV, SIGFPE, SIGILL, SIGBUS, SIGABRT, SIGALRM, SIGPIPE} then False
      else if has_sig (signal_ignored p) sig then False
      else \<not> caught (signal_handlers p sig))"

section \<open>Registering handlers and masks\<close>

definition register_signal_handler :: "nat \<Rightarrow> u64 \<Rightarrow> pinfo \<Rightarrow> bool \<times> pinfo" where
  "register_signal_handler sig h p =
     (if sig < 1 \<or> sig \<ge> NSIG then (False, p)
      else if sig = SIGKILL \<or> sig = SIGSTOP then (False, p)
      else if user_mode p \<and> caught h \<and> \<not> user_addr h then (False, p)
      else let p1 = p\<lparr>signal_handlers := (signal_handlers p)(sig := h)\<rparr> in
        if h = SIG_IGN then (True, clear_pending sig (p1\<lparr>signal_ignored := signal_ignored p1 OR SIGNAL_MASK sig\<rparr>))
        else (True, p1\<lparr>signal_ignored := signal_ignored p1 AND NOT (SIGNAL_MASK sig)\<rparr>))"

definition signal_ignore :: "nat \<Rightarrow> pinfo \<Rightarrow> bool \<times> pinfo" where
  "signal_ignore sig p =
     (if sig < 1 \<or> sig \<ge> NSIG then (False, p)
      else if sig = SIGKILL \<or> sig = SIGSTOP then (False, p)
      else register_signal_handler sig SIG_IGN p)"

definition signals_reset_on_exec :: "pinfo \<Rightarrow> pinfo" where
  "signals_reset_on_exec p =
     (process_saved_context_clear p)\<lparr>signal_pending := 0, signal_mask := 0, signal_ignored := 0, signal_mask_saved := 0,
        signal_mask_saved_valid := False, signal_frame_sp := 0, signal_handlers := (\<lambda>_. SIG_DFL), signal_sa_flags := (\<lambda>_. 0),
        signal_sa_mask := (\<lambda>_. 0), signal_restorer := (\<lambda>_. 0)\<rparr>"

text \<open>
  \<^verbatim>\<open>rt_sigaction\<close> with the action read from user memory (handler, flags, restorer and the first word of the set), or \<open>None\<close>
  for a null pointer; \<open>rd\<close> says whether copying it in succeeded, \<open>old\<close> whether the old action is asked for and copying it out
  succeeded. The same for \<^verbatim>\<open>rt_sigprocmask\<close>.
\<close>

definition sys_rt_sigaction :: "bool option \<Rightarrow> bool \<Rightarrow> int \<Rightarrow> (u64 \<times> u64 \<times> u64 \<times> u64) option \<Rightarrow> nat \<Rightarrow> pinfo \<Rightarrow> (errno + unit) \<times> pinfo" where
  "sys_rt_sigaction old rd signum act sigsetsize p =
     (if signum < 1 \<or> signum \<ge> int NSIG then (Inl EINVAL, p)
      else let sig = nat signum in
        if sig = SIGKILL \<or> sig = SIGSTOP then (Inl EINVAL, p)
        else if sigsetsize \<noteq> 128 \<and> sigsetsize \<noteq> 8 then (Inl EINVAL, p)
        else if old = Some False then (Inl EFAULT, p)
        else case act of
               None \<Rightarrow> (Inr (), p)
             | Some (h, flags, rest, set0) \<Rightarrow>
                 if \<not> rd then (Inl EFAULT, p)
                 else (case register_signal_handler sig h p of
                         (False, p1) \<Rightarrow> (Inl EFAULT, p1)
                       | (True, p1) \<Rightarrow>
                           (Inr (), p1\<lparr>signal_sa_mask := (signal_sa_mask p1)(sig := ucast set0),
                              signal_sa_flags := (signal_sa_flags p1)(sig := ucast flags),
                              signal_restorer := (signal_restorer p1)(sig := if ucast flags AND SA_RESTORER \<noteq> 0 then rest else 0)\<rparr>)))"

definition sys_rt_sigprocmask :: "bool option \<Rightarrow> bool \<Rightarrow> int \<Rightarrow> u64 option \<Rightarrow> nat \<Rightarrow> pinfo \<Rightarrow> (errno + unit) \<times> pinfo" where
  "sys_rt_sigprocmask old rd how set0 sigsetsize p =
     (if sigsetsize \<noteq> 128 \<and> sigsetsize \<noteq> 8 then (Inl EINVAL, p)
      else if old = Some False then (Inl EFAULT, p)
      else case set0 of
             None \<Rightarrow> (Inr (), p)
           | Some w \<Rightarrow>
               if \<not> rd then (Inl EFAULT, p)
               else let newmask = ucast w :: u32 in
                 if how = 0 then (Inr (), p\<lparr>signal_mask := signal_mask p OR newmask\<rparr>)
                 else if how = 1 then (Inr (), p\<lparr>signal_mask := signal_mask p AND NOT newmask\<rparr>)
                 else if how = 2 then (Inr (), p\<lparr>signal_mask := newmask\<rparr>)
                 else (Inl EINVAL, p))"

section \<open>A stack for the handler\<close>

definition USER_STACK_TOP :: u64 where "USER_STACK_TOP = 0x7FFFF000"
definition USER_STACK_BASE :: u64 where "USER_STACK_BASE = 0x7FFFF000 - 0x100000"
definition SIGNAL_HANDLER_TOP_MARGIN :: u64 where "SIGNAL_HANDLER_TOP_MARGIN = 0x4000"

definition stack_bounds :: "pinfo \<Rightarrow> u64 \<times> u64" where
  "stack_bounds p =
     (let lo = stack_start p; hi = lo + stack_size p in
      if lo = 0 \<or> hi \<le> lo then (USER_STACK_BASE, USER_STACK_TOP) else (lo, hi))"

definition signal_sp_in_stack :: "pinfo \<Rightarrow> u64 \<Rightarrow> bool" where
  "signal_sp_in_stack p s \<longleftrightarrow> s \<noteq> 0 \<and> (case stack_bounds p of (lo, hi) \<Rightarrow> s \<ge> lo + 16 \<and> s < hi)"

text \<open>The stack pointer of the handler and the address of the frame; \<open>None\<close> is the result 0.\<close>

definition signal_pick_handler_sp :: "pinfo \<Rightarrow> u64 \<Rightarrow> (u64 \<times> u64) option" where
  "signal_pick_handler_sp p saved_sp =
     (case stack_bounds p of (stack_lo, stack_hi) \<Rightarrow>
        let saved = saved_sp AND NOT 0xF;
            min_sp = stack_lo + 2048;
            u0 = (if signal_sp_in_stack p saved then saved else 0);
            u1 = (if u0 < sizeof_sigframe + 8 then 0 else u0);
            u2 = (if u1 \<noteq> 0 \<and> u1 > stack_hi - SIGNAL_HANDLER_TOP_MARGIN then 0 else u1);
            base = (if u2 = 0 \<or> u2 < min_sp then
                      let margin = (if SIGNAL_HANDLER_TOP_MARGIN + sizeof_sigframe + 8 + 2048 > stack_hi - stack_lo then (stack_hi - stack_lo) div 4
                                    else SIGNAL_HANDLER_TOP_MARGIN);
                          u3 = (stack_hi - margin) AND NOT 0xF in
                      if u3 < sizeof_sigframe + 8 + min_sp then None else Some u3
                    else if u2 < sizeof_sigframe + 8 then None else Some u2) in
        case base of
          None \<Rightarrow> None
        | Some u \<Rightarrow>
            let faddr = u - sizeof_sigframe; user_sp = faddr - 8 in
            if user_sp < min_sp \<or> faddr + sizeof_sigframe > stack_hi then None
            else if user_sp < 0x400000 \<or> user_sp > 0x7FFFFFFFFFFF then None
            else Some (user_sp, faddr))"

section \<open>Delivery\<close>

text \<open>
  Handling signals goes on to the next stage, returns to its caller, ends the process with an exit code (\<^verbatim>\<open>process_exit\<close>), or
  gives up the processor after \<^verbatim>\<open>SIGSTOP\<close>.
\<close>

datatype 'a sigres = Next 'a | Return 'a | Exit int 'a | Stop 'a

fun sig_bind :: "'a sigres \<Rightarrow> ('a \<Rightarrow> 'a sigres) \<Rightarrow> 'a sigres" where
  "sig_bind (Next p) f = f p"
| "sig_bind (Return p) f = Return p"
| "sig_bind (Exit c p) f = Exit c p"
| "sig_bind (Stop p) f = Stop p"

definition die :: "nat \<Rightarrow> pinfo \<Rightarrow> pinfo sigres" where
  "die sig p = Exit 0 ((clear_pending sig p)\<lparr>exit_signal := sig\<rparr>)"

definition signal_blocked_syscall_frame_sanitize :: "u32 \<Rightarrow> sframe \<Rightarrow> sframe" where
  "signal_blocked_syscall_frame_sanitize nr f = (if nr \<noteq> 0 then f else if sint (arg0 f) < 0 then f\<lparr>arg0 := 0\<rparr> else f)"

definition signal_repair_sigcontext_read_fd :: "u64 \<Rightarrow> u64 \<Rightarrow> u64 \<Rightarrow> u64" where
  "signal_repair_sigcontext_read_fd c s t = (if \<not> sint c < 0 then c else if \<not> sint s < 0 then s else if \<not> sint t < 0 then t else c)"

definition user_ptr_suspicious :: "u64 \<Rightarrow> bool" where
  "user_ptr_suspicious v \<longleftrightarrow> sint v < 0 \<or> v < 0x1000"

definition signal_repair_sigcontext_syscall_arg :: "u64 \<Rightarrow> u64 \<Rightarrow> u64 \<Rightarrow> u64" where
  "signal_repair_sigcontext_syscall_arg c s t =
     (if \<not> user_ptr_suspicious c then c else if \<not> user_ptr_suspicious s then s else if \<not> user_ptr_suspicious t then t else c)"

text \<open>\<^verbatim>\<open>-EINTR\<close> as the value of a register.\<close>

definition minus_EINTR :: u64 where "minus_EINTR = - 4"

text \<open>The context a handler interrupts.\<close>

definition interrupted :: "pinfo \<Rightarrow> regs" where
  "interrupted p =
     (let c = (if kernel_syscall_sleep p
               then signal_fill_sigcontext_from_syscall_frame
                      (signal_blocked_syscall_frame_sanitize (syscall_block_nr p) (kernel_sleep_syscall_frame p)) minus_EINTR
               else if syscall_frame_fresh p then signal_fill_sigcontext_from_syscall_frame (syscall_frame p) minus_EINTR
               else task_regs p);
          (s0, s1) = (if kernel_syscall_sleep p then (arg0 (kernel_sleep_syscall_frame p), arg1 (kernel_sleep_syscall_frame p))
                      else if syscall_frame_fresh p then (arg0 (syscall_frame p), arg1 (syscall_frame p)) else (0, 0));
          c1 = c\<lparr>arg0 := signal_repair_sigcontext_read_fd (arg0 c) s0 (arg0 (task_regs p))\<rparr> in
      if syscall_block_nr p = 0 \<or> syscall_entry_nr p = 0
      then c1\<lparr>arg1 := signal_repair_sigcontext_syscall_arg (arg1 c1) s1 (arg1 (task_regs p))\<rparr> else c1)"

definition nonuser :: "u64 \<Rightarrow> bool" where
  "nonuser a \<longleftrightarrow> a < 0x400000 \<or> a > 0x7FFFFFFFFFFF"

text \<open>Redirecting the process to its handler, once the frame is on the user stack.\<close>

definition enter_handler :: "nat \<Rightarrow> u64 \<Rightarrow> pinfo \<Rightarrow> pinfo" where
  "enter_handler sig user_sp p =
     (let h = signal_handlers p sig;
          p1 = process_kernel_sleep_interrupted_backup_frame (p\<lparr>signal_frame_sp := user_sp, task_regs := (task_regs p)\<lparr>sp := user_sp, ip := h, arg0 := of_nat sig\<rparr>\<rparr>);
          f = (syscall_frame p1)\<lparr>ip := h, sp := user_sp, arg0 := of_nat sig, arg1 := 0, arg2 := 0,
                rflags := (if rflags (syscall_frame p1) \<noteq> 0 then rflags (syscall_frame p1) else task_initial_user_status)\<rparr>;
          p2 = p1\<lparr>syscall_frame := f, task_regs := task_apply_syscall_frame f 0, syscall_frame_fresh := False\<rparr>;
          p3 = signals_apply_handler_mask sig (signal_sa_flags p2 sig) p2 in
      clear_pending sig (p3\<lparr>signal_enter_pending := True, signal_last_delivered := (if sig < 1 \<or> sig \<ge> NSIG then signal_last_delivered p3 else sig)\<rparr>))"

record sigenv =
  ctx_mem :: bool
  frame_copied :: bool

definition deliver_user :: "sigenv \<Rightarrow> nat \<Rightarrow> pinfo \<Rightarrow> pinfo sigres" where
  "deliver_user e sig p =
     (if signal_delivery_blocked_nested p then (if is_fault sig then die sig p else Next p)
      else if \<not> ctx_mem e then Next (clear_pending sig (p\<lparr>signal_handlers := (signal_handlers p)(sig := SIG_DFL)\<rparr>))
      else let ctx = interrupted p in
        if nonuser (ip ctx) then Next p
        else if nonuser (sp ctx) then Next p
        else if signal_rip_is_registered_handler p (ip ctx) then (if is_fault sig then die sig p else Next p)
        else case process_saved_context_attach ctx p of
               (False, p1) \<Rightarrow> (if is_fault sig then die sig p1 else Next p1)
             | (True, p1) \<Rightarrow>
                 (case signal_pick_handler_sp p1 (sp ctx) of
                    None \<Rightarrow> Next (clear_pending sig ((process_saved_context_clear p1)\<lparr>signal_handlers := (signal_handlers p1)(sig := SIG_DFL)\<rparr>))
                  | Some (user_sp, faddr) \<Rightarrow>
                      if \<not> user_addr (signal_restorer p1 sig) then Return (process_saved_context_clear p1)
                      else if \<not> frame_copied e then Return (process_saved_context_clear p1)
                      else Next (enter_handler sig user_sp p1)))"

text \<open>One round of the delivery loop. A handler of a kernel-mode process is called directly.\<close>

definition deliver :: "sigenv \<Rightarrow> nat \<Rightarrow> pinfo \<Rightarrow> pinfo sigres" where
  "deliver e sig p =
     (if \<not> has_sig (signal_pending p) sig then Next p
      else if has_sig (signal_ignored p) sig then Next (clear_pending sig p)
      else if has_sig (signal_mask p) sig then Next p
      else if sig = SIGCHLD \<and> wait_blocked p then Next p
      else if sig = SIGCHLD \<and> comm p = ''run'' then Next (clear_pending sig p)
      else if \<not> caught (signal_handlers p sig) then Next p
      else if signal_defer_catchable p then Next p
      else if \<not> user_addr (signal_handlers p sig) then Next (clear_pending sig (p\<lparr>signal_handlers := (signal_handlers p)(sig := SIG_DFL)\<rparr>))
      else if user_mode p then deliver_user e sig p
      else Next (clear_pending sig p))"

fun deliver_all :: "(nat \<Rightarrow> sigenv) \<Rightarrow> nat list \<Rightarrow> pinfo \<Rightarrow> pinfo sigres" where
  "deliver_all e [] p = Return p"
| "deliver_all e (sig # sigs) p = sig_bind (deliver (e sig) sig p) (deliver_all e sigs)"

definition kill_stage :: "pinfo \<Rightarrow> pinfo sigres" where
  "kill_stage p = (if has_sig (signal_pending p) SIGKILL then Exit (- 1) (clear_pending SIGKILL p) else Next p)"

definition stop_stage :: "pinfo \<Rightarrow> pinfo sigres" where
  "stop_stage p =
     (if has_sig (signal_pending p) SIGSTOP
      then let p1 = clear_pending SIGSTOP p in Stop (p1\<lparr>sched := set_state PROCESS_BLOCKED (sched p1)\<rparr>) else Next p)"

definition fault_stage :: "nat \<Rightarrow> pinfo \<Rightarrow> pinfo sigres" where
  "fault_stage sig p = (if has_sig (signal_pending p) sig \<and> \<not> signals_has_user_handler sig p then die sig p else Next p)"

definition term_stage :: "pinfo \<Rightarrow> pinfo sigres" where
  "term_stage p =
     (if \<not> has_sig (signal_pending p) SIGTERM then Next p
      else if has_sig (signal_ignored p) SIGTERM then Return (clear_pending SIGTERM p)
      else if \<not> signals_has_user_handler SIGTERM p then die SIGTERM p else Next p)"

definition soft_stage :: "nat \<Rightarrow> pinfo \<Rightarrow> pinfo sigres" where
  "soft_stage sig p =
     (if \<not> has_sig (signal_pending p) sig then Next p
      else if has_sig (signal_ignored p) sig then Next (clear_pending sig p)
      else if \<not> signals_has_user_handler sig p then die sig p else Next p)"

definition abort_stage :: "pinfo \<Rightarrow> pinfo sigres" where
  "abort_stage p = (if has_sig (signal_pending p) SIGABRT then die SIGABRT p else Next p)"

definition pipe_stage :: "pinfo \<Rightarrow> pinfo sigres" where
  "pipe_stage p =
     (if \<not> has_sig (signal_pending p) SIGPIPE then Next p
      else if has_sig (signal_ignored p) SIGPIPE then Next (clear_pending SIGPIPE p)
      else if has_sig (signal_mask p) SIGPIPE then Next p
      else if \<not> signals_has_user_handler SIGPIPE p then die SIGPIPE p else Next p)"

definition cont_stage :: "pinfo \<Rightarrow> pinfo sigres" where
  "cont_stage p =
     (if has_sig (signal_pending p) SIGCONT
      then let p1 = clear_pending SIGCONT p in
        Next (if state (sched p1) = PROCESS_BLOCKED then p1\<lparr>sched := set_state PROCESS_READY (sched p1)\<rparr> else p1)
      else Next p)"

definition default_stages :: "pinfo \<Rightarrow> pinfo sigres" where
  "default_stages p =
     sig_bind (sig_bind (sig_bind (sig_bind (sig_bind (sig_bind (sig_bind (sig_bind (sig_bind (sig_bind (sig_bind (sig_bind
       (kill_stage p) stop_stage) (fault_stage SIGSEGV)) (fault_stage SIGFPE)) (fault_stage SIGILL)) (fault_stage SIGBUS))
       term_stage) (soft_stage SIGINT)) (soft_stage SIGHUP)) (soft_stage SIGQUIT)) abort_stage) pipe_stage) cont_stage"

definition handle_signals :: "(nat \<Rightarrow> sigenv) \<Rightarrow> pinfo \<Rightarrow> pinfo sigres" where
  "handle_signals e p = (if signal_pending p = 0 then Return p else sig_bind (default_stages p) (deliver_all e [1..<NSIG]))"

text \<open>At the return to user space; the boolean says that a handler is armed.\<close>

definition signals_prepare_user_return :: "(nat \<Rightarrow> sigenv) \<Rightarrow> pinfo \<Rightarrow> (bool \<times> pinfo) sigres" where
  "signals_prepare_user_return e p =
     (if \<not> user_mode p then Return (False, p)
      else if \<not> signals_should_handle_on_run p then Return (False, p)
      else case handle_signals e p of
             Exit c q \<Rightarrow> Exit c (False, q)
           | Stop q \<Rightarrow> Stop (signal_enter_pending q \<and> saved_context q \<noteq> None, q)
           | Next q \<Rightarrow> Return (signal_enter_pending q \<and> saved_context q \<noteq> None, q)
           | Return q \<Rightarrow> Return (signal_enter_pending q \<and> saved_context q \<noteq> None, q))"

section \<open>Delivery of a fault\<close>

text \<open>
  \<open>f\<close> holds the registers of the interrupted user code; the result has those the interrupt returns to when a handler was entered.
\<close>

definition die_with :: "'a \<Rightarrow> nat \<Rightarrow> pinfo \<Rightarrow> ('a \<times> pinfo) sigres" where
  "die_with x sig p = Exit 0 (x, (clear_pending sig p)\<lparr>exit_signal := sig\<rparr>)"

definition signals_deliver_from_irq_frame :: "sigenv \<Rightarrow> nat \<Rightarrow> regs \<Rightarrow> pinfo \<Rightarrow> (regs option \<times> pinfo) sigres" where
  "signals_deliver_from_irq_frame e sig f p =
     (if \<not> signals_has_user_handler sig p then Return (None, p)
      else if \<not> user_mode p then Return (None, p)
      else if signal_delivery_blocked_nested p then (if is_fault sig then die_with None sig p else Return (None, p))
      else if \<not> ctx_mem e then Return (None, p)
      else if signal_rip_is_registered_handler p (ip f) then (if is_fault sig then die_with None sig p else Return (None, p))
      else case process_saved_context_attach f p of
             (False, p1) \<Rightarrow> (if is_fault sig then die_with None sig p1 else Return (None, p1))
           | (True, p1) \<Rightarrow>
               (case signal_pick_handler_sp p1 (sp f) of
                  None \<Rightarrow> Return (None, process_saved_context_clear p1)
                | Some (new_sp, _) \<Rightarrow>
                    let flags = signal_sa_flags p1 sig;
                        info = (new_sp - 128) AND NOT 0xF;
                        uctx = (new_sp - 128 - 128) AND NOT 0xF in
                    if flags AND SA_SIGINFO \<noteq> 0 \<and> (uctx < 0x400000 \<or> \<not> signal_sp_in_stack p1 uctx \<or> \<not> frame_copied e)
                    then Return (None, process_saved_context_clear p1)
                    else
                      let g = f\<lparr>ip := signal_handlers p1 sig, sp := new_sp, arg0 := of_nat sig,
                                arg1 := (if flags AND SA_SIGINFO \<noteq> 0 then info else 0),
                                arg2 := (if flags AND SA_SIGINFO \<noteq> 0 then uctx else 0)\<rparr>;
                          p2 = (if flags AND SA_RESETHAND \<noteq> 0 then p1\<lparr>signal_handlers := (signal_handlers p1)(sig := SIG_DFL)\<rparr> else p1) in
                      Return (Some g, clear_pending sig (signals_apply_handler_mask sig flags (p2\<lparr>signal_frame_sp := new_sp\<rparr>)))))"

section \<open>Return from a handler\<close>

text \<open>
  \<open>uframe\<close> is the frame read back from the user stack, if that worked: its context and the mask from before the delivery;
  \<open>ctx\<close> is the context the argument of the call points to. The result has the registers the user code goes on with.
\<close>

definition signal_sigcontext_valid :: "regs \<Rightarrow> bool" where
  "signal_sigcontext_valid c \<longleftrightarrow> \<not> nonuser (ip c) \<and> \<not> nonuser (sp c)"

definition signal_sigcontext_validate_and_sanitize :: "regs \<Rightarrow> regs option" where
  "signal_sigcontext_validate_and_sanitize c =
     (if signal_sigcontext_valid c then Some (c\<lparr>rflags := ir0_rflags_sanitize_user (rflags c OR 2 OR RFLAGS_IF)\<rparr>) else None)"

text \<open>The frame a blocked call goes on with, and the value of \<^verbatim>\<open>rax\<close>.\<close>

definition signal_resume_blocked_syscall_frame :: "bool \<Rightarrow> u32 \<Rightarrow> sframe \<Rightarrow> sframe \<times> u64" where
  "signal_resume_blocked_syscall_frame restart nr f =
     (let s = signal_blocked_syscall_frame_sanitize nr f in
      if restart then (if ip s \<ge> 2 then s\<lparr>ip := ip s - 2\<rparr> else s, ucast nr) else (s, minus_EINTR))"

definition sys_sigreturn :: "(nat \<Rightarrow> sigenv) \<Rightarrow> (regs \<times> u64) option \<Rightarrow> regs option \<Rightarrow> pinfo \<Rightarrow> (regs option \<times> pinfo) sigres" where
  "sys_sigreturn e uframe ctx p =
     (if \<not> user_mode p then Return (None, p)
      else
        let restore = (case uframe of Some (c, _) \<Rightarrow> Some c | None \<Rightarrow> (case saved_context p of Some c \<Rightarrow> Some c | None \<Rightarrow> ctx)) in
        case restore of
          None \<Rightarrow> Return (None, p)
        | Some c0 \<Rightarrow>
            (case signal_sigcontext_validate_and_sanitize c0 of
             None \<Rightarrow>
              (let q = process_saved_context_clear p in
               case handle_signals e (q\<lparr>signal_pending := signal_pending q OR SIGNAL_MASK SIGSEGV\<rparr>) of
                 Exit k r \<Rightarrow> Exit k (None, r) | Stop r \<Rightarrow> Stop (None, r) | Next r \<Rightarrow> Return (None, r) | Return r \<Rightarrow> Return (None, r))
           | Some c \<Rightarrow>
              let q = process_saved_context_clear p;
                  q1 = (case uframe of
                          Some (_, om) \<Rightarrow> q\<lparr>signal_mask := ucast om, signal_mask_saved_valid := False, signal_frame_sp := 0\<rparr>
                        | None \<Rightarrow> signals_on_sigreturn q) in
              if kernel_sleep_interrupted q1 then
                let d = signal_last_delivered q1;
                    restart = \<not> (d > 0 \<and> d < NSIG \<and> signal_sa_flags q1 d AND SA_RESTART = 0);
                    (f, rax) = (if restart then signal_resume_blocked_syscall_frame True (syscall_block_nr q1) (kernel_sleep_syscall_frame q1)
                         else signal_resume_blocked_syscall_frame False 0 (kernel_sleep_syscall_frame q1)) in
                let t = task_apply_syscall_frame f rax in
                Return (Some t, q1\<lparr>syscall_frame := f, task_regs := t, syscall_frame_fresh := True, irq_frame_saved := True, coop_resched_resume := False,
                   kernel_syscall_sleep := False, kernel_sleep_interrupted := False,
                   kernel_sleep_syscall_frame := zero_frame, signal_enter_pending := False, signal_last_delivered := 0\<rparr>)
              else
                let f = signal_fill_syscall_frame_from_sigcontext c; t = task_apply_syscall_frame f (gpr_rax c) in
                Return (Some t, q1\<lparr>syscall_frame := f, task_regs := t, irq_frame_saved := False, coop_resched_resume := False,
                   syscall_frame_fresh := False, signal_enter_pending := False, signal_last_delivered := 0\<rparr>)))"

text \<open>What a child inherits.\<close>

definition process_signals_clone :: "pinfo \<Rightarrow> pinfo \<Rightarrow> pinfo" where
  "process_signals_clone dst src =
     dst\<lparr>signal_pending := 0, signal_mask := signal_mask src, signal_ignored := signal_ignored src, signal_mask_saved := 0,
        signal_mask_saved_valid := False, signal_frame_sp := 0, signal_handlers := signal_handlers src, signal_sa_flags := signal_sa_flags src,
        signal_sa_mask := signal_sa_mask src, signal_restorer := signal_restorer src, saved_context := None, signal_enter_pending := False,
        signal_defer_catchable := False, signal_last_delivered := 0, kernel_sleep_interrupted := False,
        kernel_sleep_syscall_frame := zero_frame\<rparr>"
end
