(* ===== verification/Signal_Delivery.thy ===== *)
theory Signal_Delivery
  imports Signal
begin

text \<open>
  What signal handling does to a process. A state differs \<open>undisturbed\<close>ly from another when only pending signals and broken handlers
  were dropped; handling signals is undisturbed until at most one handler is entered. From this: which signal is
  delivered and how, the way back from the handler, the place of the handler on the stack, and where the code departs from
  blocked and caught signals.
\<close>

section \<open>Sets of signals as bits\<close>

lemma has_sig_bit: "has_sig w s \<longleftrightarrow> bit w s"
  by (simp add: has_sig_def SIGNAL_MASK_def bit_iff_and_push_bit_not_eq_0)

lemma has_sig_simps [simp]: "\<not> has_sig 0 s" "has_sig (v OR w) s \<longleftrightarrow> has_sig v s \<or> has_sig w s" "has_sig (v AND w) s \<longleftrightarrow> has_sig v s \<and> has_sig w s"
  "has_sig (NOT w) s \<longleftrightarrow> s < 32 \<and> \<not> has_sig w s"
  by (auto simp: has_sig_bit bit_simps dest: bit_imp_le_length)

lemma has_sig_SIGNAL_MASK [simp]: "has_sig (SIGNAL_MASK t) s \<longleftrightarrow> s = t \<and> s < 32"
  by (auto simp: has_sig_bit SIGNAL_MASK_def bit_simps)

lemma has_sig_less: "has_sig w s \<Longrightarrow> s < 32"
  using bit_imp_le_length [of w s] by (simp add: has_sig_bit)

lemma clear_pending_simps [simp]: "has_sig (signal_pending (clear_pending t p)) s \<longleftrightarrow> has_sig (signal_pending p) s \<and> s \<noteq> t"
  by (auto simp: clear_pending_def dest: has_sig_less)

section \<open>Quiet changes\<close>

definition undisturbed :: "pinfo \<Rightarrow> pinfo \<Rightarrow> bool" where
  "undisturbed p q \<longleftrightarrow>
     q = p\<lparr>sched := sched q, signal_pending := signal_pending q, signal_handlers := signal_handlers q\<rparr> \<and>
     (\<forall>s. has_sig (signal_pending q) s \<longrightarrow> has_sig (signal_pending p) s) \<and>
     (\<forall>s. signal_handlers q s = signal_handlers p s \<or> signal_handlers q s = SIG_DFL)"

lemma undisturbed_refl [simp]: "undisturbed p p"
  by (simp add: undisturbed_def)

lemma undisturbed_fields:
  assumes "undisturbed p q"
  shows "signal_mask q = signal_mask p" "signal_ignored q = signal_ignored p" "signal_sa_mask q = signal_sa_mask p" "signal_sa_flags q = signal_sa_flags p"
    "signal_restorer q = signal_restorer p" "saved_context q = saved_context p" "signal_enter_pending q = signal_enter_pending p"
    "signal_mask_saved q = signal_mask_saved p" "signal_mask_saved_valid q = signal_mask_saved_valid p" "signal_frame_sp q = signal_frame_sp p"
    "syscall_frame q = syscall_frame p" "task_regs q = task_regs p" "user_mode q = user_mode p" "interrupted q = interrupted p"
    "stack_bounds q = stack_bounds p" "kernel_sleep_interrupted q = kernel_sleep_interrupted p" "exit_signal q = exit_signal p"
    "signal_last_delivered q = signal_last_delivered p" "syscall_frame_fresh q = syscall_frame_fresh p"
    "kernel_syscall_sleep q = kernel_syscall_sleep p" "coop_resched_resume q = coop_resched_resume p" "syscall_block_nr q = syscall_block_nr p"
    "syscall_entry_nr q = syscall_entry_nr p" "kernel_sleep_syscall_frame q = kernel_sleep_syscall_frame p"
proof -
  obtain a b c where "q = p\<lparr>sched := a, signal_pending := b, signal_handlers := c\<rparr>" using assms unfolding undisturbed_def by blast
  note q = this
  show "signal_mask q = signal_mask p" "signal_ignored q = signal_ignored p" "signal_sa_mask q = signal_sa_mask p" "signal_sa_flags q = signal_sa_flags p"
    "signal_restorer q = signal_restorer p" "saved_context q = saved_context p" "signal_enter_pending q = signal_enter_pending p"
    "signal_mask_saved q = signal_mask_saved p" "signal_mask_saved_valid q = signal_mask_saved_valid p" "signal_frame_sp q = signal_frame_sp p"
    "syscall_frame q = syscall_frame p" "task_regs q = task_regs p" "user_mode q = user_mode p"
    "kernel_sleep_interrupted q = kernel_sleep_interrupted p" "exit_signal q = exit_signal p"
    "signal_last_delivered q = signal_last_delivered p" "syscall_frame_fresh q = syscall_frame_fresh p"
    "kernel_syscall_sleep q = kernel_syscall_sleep p" "coop_resched_resume q = coop_resched_resume p" "syscall_block_nr q = syscall_block_nr p"
    "syscall_entry_nr q = syscall_entry_nr p" "kernel_sleep_syscall_frame q = kernel_sleep_syscall_frame p"
    by (simp_all add: q)
  show "interrupted q = interrupted p" by (simp add: q interrupted_def cong: if_cong)
  show "stack_bounds q = stack_bounds p" by (simp add: q stack_bounds_def)
qed

lemma undisturbed_trans: "undisturbed p q \<Longrightarrow> undisturbed q r \<Longrightarrow> undisturbed p r"
proof -
  assume pq: "undisturbed p q" and qr: "undisturbed q r"
  obtain a b c where q: "q = p\<lparr>sched := a, signal_pending := b, signal_handlers := c\<rparr>" using pq unfolding undisturbed_def by blast
  obtain a' b' c' where r: "r = q\<lparr>sched := a', signal_pending := b', signal_handlers := c'\<rparr>" using qr unfolding undisturbed_def by blast
  have "r = p\<lparr>sched := sched r, signal_pending := signal_pending r, signal_handlers := signal_handlers r\<rparr>" by (simp add: q r)
  then show ?thesis using pq qr unfolding undisturbed_def by metis
qed

lemma undisturbed_clear: "undisturbed p (clear_pending t p)"
proof -
  have "clear_pending t p = p\<lparr>sched := sched p, signal_pending := signal_pending (clear_pending t p), signal_handlers := signal_handlers p\<rparr>"
    by (simp add: clear_pending_def)
  then show ?thesis by (auto simp: undisturbed_def clear_pending_def)
qed

lemma undisturbed_clear_handler: "undisturbed p (clear_pending t (p\<lparr>signal_handlers := (signal_handlers p)(t := SIG_DFL)\<rparr>))"
  by (simp add: undisturbed_def clear_pending_def)

text \<open>A signal that delivery may hand to a handler.\<close>

definition deliverable :: "nat \<Rightarrow> pinfo \<Rightarrow> bool" where
  "deliverable sig p \<longleftrightarrow>
     has_sig (signal_pending p) sig \<and> \<not> has_sig (signal_ignored p) sig \<and> \<not> has_sig (signal_mask p) sig \<and>
     caught (signal_handlers p sig) \<and> user_addr (signal_handlers p sig) \<and> user_addr (signal_restorer p sig) \<and> user_mode p \<and> \<not> signal_defer_catchable p \<and>
     signal_sigcontext_valid (interrupted p)"

definition armed :: "pinfo \<Rightarrow> nat \<Rightarrow> u64 \<Rightarrow> pinfo" where
  "armed p sig u = enter_handler sig u (p\<lparr>saved_context := Some (interrupted p)\<rparr>)"

lemma deliver_user_cases:
  assumes d: "deliver_user e sig p = r" and s: "saved_context p = None" "\<not> signal_enter_pending p"
  shows "(\<exists>q. r = Next q \<and> undisturbed p q) \<or> r = Return p \<or> r = die sig p \<or>
    (\<exists>u f. signal_pick_handler_sp (p\<lparr>saved_context := Some (interrupted p)\<rparr>) (sp (interrupted p)) = Some (u, f) \<and> r = Next (armed p sig u) \<and>
       user_addr (signal_restorer p sig) \<and> signal_sigcontext_valid (interrupted p))"
proof -
  have n: "\<not> signal_delivery_blocked_nested p" using s by (simp add: signal_delivery_blocked_nested_def)
  let ?c = "interrupted p" and ?p1 = "p\<lparr>saved_context := Some (interrupted p)\<rparr>"
  have at: "process_saved_context_attach ?c p = (True, ?p1)" using s by (simp add: process_saved_context_attach_def)
  have cl: "process_saved_context_clear ?p1 = p" using s by (simp add: process_saved_context_clear_def)
  show ?thesis
  proof (cases "\<not> ctx_mem e \<or> nonuser (ip ?c) \<or> nonuser (sp ?c) \<or> signal_rip_is_registered_handler p (ip ?c)")
    case True
    have "r = Next p \<or> r = die sig p \<or> r = Next (clear_pending sig (p\<lparr>signal_handlers := (signal_handlers p)(sig := SIG_DFL)\<rparr>))"
      using True d n by (simp add: deliver_user_def Let_def split: if_splits)
    then show ?thesis using undisturbed_clear_handler [of p sig] undisturbed_refl [of p] by metis
  next
    case False
    then have ok: "ctx_mem e" "\<not> nonuser (ip ?c)" "\<not> nonuser (sp ?c)" "\<not> signal_rip_is_registered_handler p (ip ?c)" by auto
    have run: "r = (case signal_pick_handler_sp ?p1 (sp ?c) of
        None \<Rightarrow> Next (clear_pending sig (p\<lparr>signal_handlers := (signal_handlers p)(sig := SIG_DFL)\<rparr>))
      | Some (u, f) \<Rightarrow> if \<not> user_addr (signal_restorer p sig) then Return p else if \<not> frame_copied e then Return p else Next (enter_handler sig u ?p1))"
      unfolding d [symmetric] deliver_user_def Let_def using n ok
      by (cases "signal_pick_handler_sp ?p1 (sp ?c)") (simp_all add: at cl split: prod.split)
    show ?thesis
    proof (cases "signal_pick_handler_sp ?p1 (sp ?c)")
      case None
      then show ?thesis using run undisturbed_clear_handler [of p sig] by simp
    next
      case (Some uf)
      obtain u f where uf: "uf = (u, f)" by (cases uf)
      show ?thesis using run Some uf ok by (auto simp: armed_def signal_sigcontext_valid_def split: if_splits)
    qed
  qed
qed

section \<open>The delivery loop\<close>

lemma deliver_nested:
  assumes "signal_delivery_blocked_nested p" "deliver e sig p = r"
  shows "(\<exists>q. r = Next q \<and> undisturbed p q) \<or> r = die sig p"
proof -
  have "deliver_user e sig p = die sig p \<or> deliver_user e sig p = Next p" using assms(1) by (simp add: deliver_user_def)
  then have "r = Next p \<or> r = die sig p \<or> r = Next (clear_pending sig p) \<or> r = Next (clear_pending sig (p\<lparr>signal_handlers := (signal_handlers p)(sig := SIG_DFL)\<rparr>))"
    using assms(2) by (auto simp: deliver_def split: if_splits)
  then show ?thesis using undisturbed_clear [of p sig] undisturbed_clear_handler [of p sig] undisturbed_refl [of p] by metis
qed

lemma deliver_cases:
  assumes d: "deliver e sig p = r" and n: "\<not> signal_delivery_blocked_nested p"
  shows "(\<exists>q. r = Next q \<and> undisturbed p q) \<or> r = Return p \<or> r = die sig p \<or>
    (\<exists>u f. signal_pick_handler_sp (p\<lparr>saved_context := Some (interrupted p)\<rparr>) (sp (interrupted p)) = Some (u, f) \<and> r = Next (armed p sig u) \<and> deliverable sig p)"
proof -
  have s: "saved_context p = None" "\<not> signal_enter_pending p" using n by (simp_all add: signal_delivery_blocked_nested_def)
  have "r = Next p \<or> r = Next (clear_pending sig p) \<or> r = Next (clear_pending sig (p\<lparr>signal_handlers := (signal_handlers p)(sig := SIG_DFL)\<rparr>)) \<or>
      (r = deliver_user e sig p \<and> has_sig (signal_pending p) sig \<and> \<not> has_sig (signal_ignored p) sig \<and> \<not> has_sig (signal_mask p) sig \<and>
       caught (signal_handlers p sig) \<and> user_addr (signal_handlers p sig) \<and> user_mode p \<and> \<not> signal_defer_catchable p)"
    using d by (auto simp: deliver_def split: if_splits)
  then show ?thesis
  proof (elim disjE conjE)
    assume "r = deliver_user e sig p" and c: "has_sig (signal_pending p) sig" "\<not> has_sig (signal_ignored p) sig" "\<not> has_sig (signal_mask p) sig"
       "caught (signal_handlers p sig)" "user_addr (signal_handlers p sig)" "user_mode p" "\<not> signal_defer_catchable p"
    then show ?thesis using deliver_user_cases [of e sig p r] s unfolding deliverable_def by metis
  qed (use undisturbed_clear [of p sig] undisturbed_clear_handler [of p sig] undisturbed_refl [of p] in metis)+
qed

lemma armed_nested: "signal_delivery_blocked_nested (armed p sig u)"
  by (simp add: armed_def enter_handler_def clear_pending_def signal_delivery_blocked_nested_def Let_def)

lemma undisturbed_nested: "undisturbed p q \<Longrightarrow> signal_delivery_blocked_nested q = signal_delivery_blocked_nested p"
  by (simp add: signal_delivery_blocked_nested_def undisturbed_fields)

lemma deliver_all_nested: "signal_delivery_blocked_nested p \<Longrightarrow> deliver_all e sigs p = Return q \<Longrightarrow> undisturbed p q"
proof (induction sigs arbitrary: p)
  case (Cons sig sigs)
  from deliver_nested [OF Cons.prems(1) refl, of "e sig" sig] show ?case
  proof (elim disjE exE conjE)
    fix p1
    assume p1: "deliver (e sig) sig p = Next p1" "undisturbed p p1"
    then have "undisturbed p1 q" using Cons.IH [of p1] Cons.prems undisturbed_nested [OF p1(2)] by simp
    then show ?thesis using undisturbed_trans [OF p1(2)] by blast
  qed (use Cons.prems in \<open>simp add: die_def\<close>)
qed simp

lemma deliver_all_cases:
  "\<not> signal_delivery_blocked_nested p \<Longrightarrow> deliver_all e sigs p = Return q \<Longrightarrow>
     undisturbed p q \<or>
     (\<exists>sig\<in>set sigs. \<exists>p1 u f. undisturbed p p1 \<and> deliverable sig p1 \<and>
        signal_pick_handler_sp (p1\<lparr>saved_context := Some (interrupted p1)\<rparr>) (sp (interrupted p1)) = Some (u, f) \<and> undisturbed (armed p1 sig u) q)"
proof (induction sigs arbitrary: p)
  case (Cons sig sigs)
  from deliver_cases [OF refl Cons.prems(1), of "e sig" sig] show ?case
  proof (elim disjE exE conjE)
    fix p1
    assume p1: "deliver (e sig) sig p = Next p1" "undisturbed p p1"
    then have "deliver_all e sigs p1 = Return q" "\<not> signal_delivery_blocked_nested p1" using Cons.prems undisturbed_nested [OF p1(2)] by simp_all
    then show ?thesis using Cons.IH [of p1] undisturbed_trans [OF p1(2)] by (meson list.set_intros(2))
  next
    fix u f
    assume a: "signal_pick_handler_sp (p\<lparr>saved_context := Some (interrupted p)\<rparr>) (sp (interrupted p)) = Some (u, f)"
      "deliver (e sig) sig p = Next (armed p sig u)" "deliverable sig p"
    then have "undisturbed (armed p sig u) q" using Cons.prems(2) deliver_all_nested [OF armed_nested] by simp
    then show ?thesis using a undisturbed_refl [of p] by (intro disjI2 bexI [of _ sig] exI [of _ p] exI [of _ u] exI [of _ f]) simp_all
  qed (use Cons.prems in \<open>auto simp: die_def\<close>)
qed simp

section \<open>The default actions\<close>

lemma stage_quiet:
  "kill_stage p = Next q \<Longrightarrow> undisturbed p q" "stop_stage p = Next q \<Longrightarrow> undisturbed p q" "fault_stage sig p = Next q \<Longrightarrow> undisturbed p q" "term_stage p = Next q \<Longrightarrow> undisturbed p q"
  "soft_stage sig p = Next q \<Longrightarrow> undisturbed p q" "abort_stage p = Next q \<Longrightarrow> undisturbed p q" "pipe_stage p = Next q \<Longrightarrow> undisturbed p q"
  using undisturbed_clear undisturbed_refl
  by (auto simp: kill_stage_def stop_stage_def fault_stage_def term_stage_def soft_stage_def abort_stage_def pipe_stage_def die_def Let_def split: if_splits)

lemma cont_quiet: "cont_stage p = Next q \<Longrightarrow> undisturbed p q"
proof -
  have "undisturbed p ((clear_pending SIGCONT p)\<lparr>sched := x\<rparr>)" for x
    by (auto simp: undisturbed_def clear_pending_def)
  then show "cont_stage p = Next q \<Longrightarrow> undisturbed p q" using undisturbed_clear [of p SIGCONT] by (auto simp: cont_stage_def Let_def split: if_splits)
qed

lemma stage_Return:
  "kill_stage p = Return q \<Longrightarrow> undisturbed p q" "stop_stage p = Return q \<Longrightarrow> undisturbed p q" "fault_stage sig p = Return q \<Longrightarrow> undisturbed p q" "term_stage p = Return q \<Longrightarrow> undisturbed p q"
  "soft_stage sig p = Return q \<Longrightarrow> undisturbed p q" "abort_stage p = Return q \<Longrightarrow> undisturbed p q" "pipe_stage p = Return q \<Longrightarrow> undisturbed p q" "cont_stage p = Return q \<Longrightarrow> undisturbed p q"
  using undisturbed_clear
  by (auto simp: kill_stage_def stop_stage_def fault_stage_def term_stage_def soft_stage_def abort_stage_def pipe_stage_def cont_stage_def die_def Let_def split: if_splits)

lemma undisturbed_bind:
  assumes "sig_bind r f = Next q" "\<And>x. r = Next x \<Longrightarrow> undisturbed p x" "\<And>x. f x = Next q \<Longrightarrow> undisturbed x q"
  shows "undisturbed p q"
  using assms undisturbed_trans by (cases r) auto

lemma undisturbed_bind_Return:
  assumes "sig_bind r f = Return q" "r = Return q \<Longrightarrow> undisturbed p q" "\<And>x. r = Next x \<Longrightarrow> undisturbed p x" "\<And>x. f x = Return q \<Longrightarrow> undisturbed x q"
  shows "undisturbed p q"
  using assms undisturbed_trans by (cases r) auto

lemma default_stages_quiet: "default_stages p = Next q \<Longrightarrow> undisturbed p q"
  unfolding default_stages_def by (erule undisturbed_bind | erule stage_quiet cont_quiet)+

lemma default_stages_Return: "default_stages p = Return q \<Longrightarrow> undisturbed p q"
  unfolding default_stages_def by (erule undisturbed_bind_Return | erule undisturbed_bind | erule stage_quiet cont_quiet stage_Return)+

lemma handle_signals_cases:
  assumes h: "handle_signals e p = Return q" and n: "\<not> signal_delivery_blocked_nested p"
  shows "undisturbed p q \<or> (\<exists>sig\<in>{1..<NSIG}. \<exists>p1 u f. undisturbed p p1 \<and> deliverable sig p1 \<and>
    signal_pick_handler_sp (p1\<lparr>saved_context := Some (interrupted p1)\<rparr>) (sp (interrupted p1)) = Some (u, f) \<and> undisturbed (armed p1 sig u) q)"
proof (cases "signal_pending p = 0")
  case True
  then show ?thesis using h by (simp add: handle_signals_def)
next
  case False
  consider (ret) "default_stages p = Return q" | (nxt) x where "default_stages p = Next x" "deliver_all e [1..<NSIG] x = Return q"
    using h False by (cases "default_stages p") (auto simp: handle_signals_def)
  then show ?thesis
  proof cases
    case ret
    then show ?thesis using default_stages_Return by blast
  next
    case (nxt x)
    have px: "undisturbed p x" by (rule default_stages_quiet [OF nxt(1)])
    have "\<not> signal_delivery_blocked_nested x" using n undisturbed_nested [OF px] by simp
    from deliver_all_cases [OF this nxt(2)] show ?thesis using undisturbed_trans [OF px] by (metis set_upt)
  qed
qed

lemma handle_signals_nested:
  assumes h: "handle_signals e p = Return q" and n: "signal_delivery_blocked_nested p"
  shows "undisturbed p q"
proof (cases "signal_pending p = 0")
  case True
  then show ?thesis using h by (simp add: handle_signals_def)
next
  case False
  consider (ret) "default_stages p = Return q" | (nxt) x where "default_stages p = Next x" "deliver_all e [1..<NSIG] x = Return q"
    using h False by (cases "default_stages p") (auto simp: handle_signals_def)
  then show ?thesis
  proof cases
    case ret
    then show ?thesis using default_stages_Return by blast
  next
    case (nxt x)
    have px: "undisturbed p x" by (rule default_stages_quiet [OF nxt(1)])
    then show ?thesis using deliver_all_nested [OF _ nxt(2)] n undisturbed_nested [OF px] undisturbed_trans [OF px] by blast
  qed
qed

section \<open>The place of the handler\<close>

lemma aligned_frame: "((x :: u64) AND NOT 0xF) - sizeof_sigframe - 8 AND 0xF = 8"
proof -
  let ?a = "(x :: u64) AND NOT 0xF"
  have m: "(0xF :: u64) = mask 4" by (simp add: mask_eq_exp_minus_1)
  have "take_bit 4 ?a = 0" unfolding m by (rule bit_eqI) (auto simp: bit_simps)
  then have "take_bit 4 (uint ?a) = 0" by (simp flip: unsigned_take_bit_eq)
  then have "uint ?a mod 16 = 0" by (simp add: take_bit_eq_mod)
  moreover have "uint (?a - 200) mod 16 = (uint ?a - 200) mod 16" by (simp add: uint_word_ariths(2) mod_mod_cancel)
  moreover have "(z - 200) mod 16 = 8" if "z mod 16 = 0" for z :: int using that by presburger
  ultimately have "uint (?a - 200) mod 16 = 8" by simp
  then have "take_bit 4 (uint (?a - 200)) = uint (8 :: u64)" by (simp add: take_bit_eq_mod)
  then have "uint (take_bit 4 (?a - 200)) = uint (8 :: u64)" by (simp only: unsigned_take_bit_eq)
  then have "take_bit 4 (?a - 200) = 8" by (rule word_uint_eqI)
  then have t: "take_bit 4 (?a - sizeof_sigframe - 8) = 8" by (simp add: sizeof_sigframe_def)
  have "y AND 0xF = take_bit 4 y" for y :: u64 by (simp add: m take_bit_eq_mask)
  then show ?thesis using t by (simp only:)
qed

lemma pick_handler_sp:
  assumes pick: "signal_pick_handler_sp p s = Some (u, f)" and b: "stack_bounds p = (lo, hi)" and hi: "hi \<le> 0x800000000000" and lo: "lo < hi"
  shows "f = u + 8" "u AND 0xF = 8" "unat lo + 2048 \<le> unat u" "unat u + 200 \<le> unat hi" "0x400000 \<le> u"
proof -
  obtain x where x: "u = (x AND NOT 0xF) - sizeof_sigframe - 8" "f = (x AND NOT 0xF) - sizeof_sigframe"
    and c: "\<not> u < lo + 2048" "\<not> f + sizeof_sigframe > hi" "\<not> u < 0x400000" "\<not> u > 0x7FFFFFFFFFFF"
    using pick unfolding signal_pick_handler_sp_def b by (auto simp: Let_def split: if_splits)
  show f: "f = u + 8" using x by simp
  show "u AND 0xF = 8" unfolding x by (rule aligned_frame)
  show "0x400000 \<le> u" using c(3) by simp
  have "unat lo < 0x800000000000" using lo hi by (simp add: word_less_nat_alt word_le_nat_alt)
  then have "unat (lo + 2048) = unat lo + 2048" by (subst unat_add_lem [THEN iffD1]) simp_all
  then show "unat lo + 2048 \<le> unat u" using c(1) by (simp add: word_less_nat_alt)
  have "unat u \<le> 0x7FFFFFFFFFFF" using c(4) by (simp add: word_less_nat_alt)
  then have "unat f = unat u + 8" "unat (f + sizeof_sigframe) = unat f + 192"
    unfolding f sizeof_sigframe_def by (subst unat_add_lem [THEN iffD1]; simp add: unat_word_ariths)+
  then show "unat u + 200 \<le> unat hi" using c(2) by (simp add: word_less_nat_alt)
qed

section \<open>A process in its handler\<close>

lemma backup_fields:
  fixes p :: pinfo
  defines "q \<equiv> process_kernel_sleep_interrupted_backup_frame p"
  shows "syscall_frame q = syscall_frame p" "signal_mask q = signal_mask p" "signal_sa_mask q = signal_sa_mask p" "signal_sa_flags q = signal_sa_flags p"
    "signal_mask_saved q = signal_mask_saved p" "signal_mask_saved_valid q = signal_mask_saved_valid p" "signal_pending q = signal_pending p"
    "saved_context q = saved_context p" "signal_ignored q = signal_ignored p" "signal_handlers q = signal_handlers p" "signal_frame_sp q = signal_frame_sp p"
    "user_mode q = user_mode p" "signal_last_delivered q = signal_last_delivered p" "exit_signal q = exit_signal p"
    "kernel_sleep_interrupted q = (kernel_sleep_interrupted p \<or> \<not> coop_resched_resume p \<and> (kernel_syscall_sleep p \<or> syscall_frame_fresh p))"
    "syscall_entry_nr q = syscall_entry_nr p"
  by (simp_all add: q_def process_kernel_sleep_interrupted_backup_frame_def process_kernel_sleep_capture_syscall_frame_def Let_def)

lemma armed_fields:
  assumes "1 \<le> sig" "sig < NSIG"
  shows "ip (task_regs (armed p sig u)) = signal_handlers p sig \<and> sp (task_regs (armed p sig u)) = u \<and> arg0 (task_regs (armed p sig u)) = of_nat sig"
    "saved_context (armed p sig u) = Some (interrupted p)" "signal_enter_pending (armed p sig u)" "signal_frame_sp (armed p sig u) = u"
    "signal_mask (armed p sig u) = (if signal_sa_flags p sig AND SA_NODEFER \<noteq> 0 then signal_mask p OR signal_sa_mask p sig
       else signal_mask p OR signal_sa_mask p sig OR SIGNAL_MASK sig)"
    "signal_mask_saved_valid (armed p sig u)" "signal_mask_saved (armed p sig u) = (if signal_mask_saved_valid p then signal_mask_saved p else signal_mask p)"
    "signal_pending (armed p sig u) = signal_pending p AND NOT (SIGNAL_MASK sig)" "user_mode (armed p sig u) = user_mode p"
    "signal_last_delivered (armed p sig u) = sig" "signal_ignored (armed p sig u) = signal_ignored p" "signal_handlers (armed p sig u) = signal_handlers p"
    "kernel_sleep_interrupted (armed p sig u) = (kernel_sleep_interrupted p \<or> \<not> coop_resched_resume p \<and> (kernel_syscall_sleep p \<or> syscall_frame_fresh p))"
  using assms
  by (simp_all add: armed_def enter_handler_def signals_apply_handler_mask_def clear_pending_def backup_fields task_apply_syscall_frame_def Let_def or.assoc)

lemma armed_flags: "1 \<le> sig \<Longrightarrow> sig < NSIG \<Longrightarrow> signal_sa_flags (armed p sig u) = signal_sa_flags p"
  by (simp add: armed_def enter_handler_def signals_apply_handler_mask_def clear_pending_def backup_fields Let_def)

section \<open>Properties\<close>

text \<open>
  C14: When handling signals arms a handler of a process that is in none, the signal was pending, neither ignored nor blocked, and has a
  handler in user space. The process goes on at that handler with the signal number as argument, on a stack pointer that is 8 modulo 16,
  at least 2048 bytes above the lower end of its stack and with the whole signal frame below the upper end; the registers it was interrupted with are
  saved; the signal is no longer pending; and exactly the signals of the action's mask and, unless \<^verbatim>\<open>SA_NODEFER\<close> is set, the signal itself
  are blocked in addition.
\<close>

theorem delivery_correct:
  assumes h: "handle_signals e p = Return q" and n: "saved_context p = None" "\<not> signal_enter_pending p" and a: "signal_enter_pending q"
    and b: "stack_bounds p = (lo, hi)" "lo < hi" "hi \<le> 0x800000000000"
  shows "\<exists>sig\<in>{1..<NSIG}.
    has_sig (signal_pending p) sig \<and> \<not> has_sig (signal_ignored p) sig \<and> \<not> has_sig (signal_mask p) sig \<and>
    caught (signal_handlers p sig) \<and> user_addr (signal_handlers p sig) \<and>
    ip (task_regs q) = signal_handlers p sig \<and> arg0 (task_regs q) = of_nat sig \<and> saved_context q = Some (interrupted p) \<and>
    sp (task_regs q) AND 0xF = 8 \<and> unat lo + 2048 \<le> unat (sp (task_regs q)) \<and> unat (sp (task_regs q)) + 200 \<le> unat hi \<and>
    \<not> has_sig (signal_pending q) sig \<and>
    (\<forall>s. has_sig (signal_mask q) s \<longleftrightarrow> has_sig (signal_mask p) s \<or> has_sig (signal_sa_mask p sig) s \<or> s = sig \<and> signal_sa_flags p sig AND SA_NODEFER = 0)"
proof -
  have nn: "\<not> signal_delivery_blocked_nested p" using n by (simp add: signal_delivery_blocked_nested_def)
  have "\<not> undisturbed p q" using undisturbed_fields(7) n(2) a by metis
  then obtain sig p1 u f where s: "1 \<le> sig" "sig < NSIG" and q1: "undisturbed p p1" and d: "deliverable sig p1"
    and pk: "signal_pick_handler_sp (p1\<lparr>saved_context := Some (interrupted p1)\<rparr>) (sp (interrupted p1)) = Some (u, f)" and q2: "undisturbed (armed p1 sig u) q"
    using handle_signals_cases [OF h nn] by auto
  have b1: "stack_bounds (p1\<lparr>saved_context := Some (interrupted p1)\<rparr>) = (lo, hi)"
    using undisturbed_fields(15) [OF q1] b(1) by (simp add: stack_bounds_def)
  note pc = pick_handler_sp [OF pk b1 b(3) b(2)]
  have hd: "signal_handlers p1 sig = signal_handlers p sig" using q1 d by (auto simp: undisturbed_def deliverable_def caught_def)
  note ar = armed_fields [OF s, of p1 u] and qf = undisturbed_fields [OF q1] and rf = undisturbed_fields [OF q2]
  have pend: "has_sig (signal_pending p) sig" using q1 d by (auto simp: undisturbed_def deliverable_def)
  have npend: "\<not> has_sig (signal_pending q) sig" using q2 ar(8) s(2) by (auto simp: undisturbed_def NSIG_def)
  have m: "has_sig (signal_mask q) t \<longleftrightarrow> has_sig (signal_mask p) t \<or> has_sig (signal_sa_mask p sig) t \<or> t = sig \<and> signal_sa_flags p sig AND SA_NODEFER = 0" for t
    using s(2) unfolding rf(1) ar(5) qf by (auto simp: NSIG_def)
  have rest: "\<not> has_sig (signal_ignored p) sig" "\<not> has_sig (signal_mask p) sig" "caught (signal_handlers p sig)" "user_addr (signal_handlers p sig)"
    using d qf(1,2) hd by (simp_all add: deliverable_def)
  have regs: "ip (task_regs q) = signal_handlers p sig" "arg0 (task_regs q) = of_nat sig" "sp (task_regs q) = u" "saved_context q = Some (interrupted p)"
    using rf(6,12) ar(1,2) hd qf(14) by simp_all
  show ?thesis by (rule bexI [of _ sig]) (use pend npend m rest regs pc s in simp_all)
qed

text \<open>A process for the instances below: a handler for \<^verbatim>\<open>SIGUSR1\<close>, which is pending.\<close>

definition demo_regs :: regs where
  "demo_regs = task_apply_syscall_frame (zero_frame\<lparr>ip := 0x600000, sp := 0x7FFF8000, arg0 := 3, arg1 := 0x601000, gpr_rbx := 7\<rparr>) 5"

definition demo_proc :: pinfo where
  "demo_proc = \<lparr>sched = \<lparr>state = PROCESS_RUNNING, task_state = TASK_SCHED_RUNNING, lifecycle = PROCESS_LIFECYCLE_ALIVE, sched_prio = 0\<rparr>,
     pid = 7, tgid = 7, ppid = 1, pgid = 7, user_mode = True, comm = ''ash'', signal_pending = 0x400, signal_mask = 0, signal_ignored = 0,
     signal_mask_saved = 0, signal_mask_saved_valid = False, signal_frame_sp = 0, signal_handlers = (\<lambda>_. 0)(10 := 0x500000),
     signal_sa_flags = (\<lambda>_. 0)(10 := 0x04000000), signal_sa_mask = (\<lambda>_. 0)(10 := 0x8000), signal_restorer = (\<lambda>_. 0)(10 := 0x500100),
     saved_context = None, signal_enter_pending = False, signal_defer_catchable = False, signal_last_delivered = 0, kernel_syscall_sleep = False,
     kernel_sleep_interrupted = False, coop_resched_resume = False, syscall_frame_fresh = False, syscall_block_nr = 0, syscall_entry_nr = 0,
     syscall_frame = zero_frame, kernel_sleep_syscall_frame = zero_frame, task_regs = demo_regs,
     irq_frame_saved = False, exit_signal = 0, exit_code = 0, wait_blocked = False, wait_target_pid = 0, wait_options = 0, wait_resume_child_pid = 0,
     stack_start = 0, stack_size = 0\<rparr>"

definition all_ok :: "nat \<Rightarrow> sigenv" where
  "all_ok = (\<lambda>_. \<lparr>ctx_mem = True, frame_copied = True\<rparr>)"

lemma deliver_all_skip: "\<forall>x\<in>set xs. \<not> has_sig (signal_pending p) x \<Longrightarrow> deliver_all e (xs @ ys) p = deliver_all e ys p"
  by (induction xs) (simp_all add: deliver_def)

lemma default_stages_single:
  assumes "\<And>x. x \<in> {SIGKILL, SIGSTOP, SIGSEGV, SIGFPE, SIGILL, SIGBUS, SIGTERM, SIGINT, SIGHUP, SIGQUIT, SIGABRT, SIGPIPE, SIGCONT} \<Longrightarrow> \<not> has_sig (signal_pending p) x"
  shows "default_stages p = Next p"
  by (simp add: default_stages_def kill_stage_def stop_stage_def fault_stage_def term_stage_def soft_stage_def abort_stage_def pipe_stage_def cont_stage_def assms)

lemma demo_pending: "has_sig (signal_pending demo_proc) x \<longleftrightarrow> x = 10" "signal_pending demo_proc \<noteq> 0"
proof -
  have "signal_pending demo_proc = SIGNAL_MASK 10" by code_simp
  then show "has_sig (signal_pending demo_proc) x \<longleftrightarrow> x = 10" by auto
  show "signal_pending demo_proc \<noteq> 0" by code_simp
qed

lemma demo_delivered: "deliver (all_ok 10) 10 demo_proc = Next (armed demo_proc 10 0x7FFF7F38)"
proof -
  have d: "\<not> has_sig (signal_ignored demo_proc) 10" "\<not> has_sig (signal_mask demo_proc) 10" "signal_handlers demo_proc 10 = 0x500000" "signal_restorer demo_proc 10 = 0x500100"
    "\<not> signal_defer_catchable demo_proc" "user_mode demo_proc" "saved_context demo_proc = None" "\<not> signal_enter_pending demo_proc"
    by (simp_all add: demo_proc_def)
  have c: "caught 0x500000" "user_addr 0x500000" "user_addr 0x500100" "(10 :: nat) \<noteq> SIGCHLD"
    by (simp_all add: caught_def SIG_DFL_def SIG_IGN_def SIGCHLD_def user_addr_def add64_def mm_user_va_ok_def user_lo_def user_hi_def Let_def)
  have i: "interrupted demo_proc = demo_regs" "ip demo_regs = 0x600000" "sp demo_regs = 0x7FFF8000" by code_simp+
  have r: "\<not> signal_rip_is_registered_handler demo_proc 0x600000" "\<not> nonuser 0x600000" "\<not> nonuser 0x7FFF8000" by code_simp+
  have k: "signal_pick_handler_sp (demo_proc\<lparr>saved_context := Some demo_regs\<rparr>) 0x7FFF8000 = Some (0x7FFF7F38, 0x7FFF7F40)"
    by code_simp
  show ?thesis
    by (simp add: deliver_def deliver_user_def demo_pending d c i r k all_ok_def process_saved_context_attach_def signal_delivery_blocked_nested_def armed_def Let_def)
qed

lemma demo_handled: "handle_signals all_ok demo_proc = Return (armed demo_proc 10 0x7FFF7F38)"
proof -
  have "[1..<NSIG] = [1..<10] @ 10 # [11..<NSIG]" by code_simp
  then have "deliver_all all_ok [1..<NSIG] demo_proc = deliver_all all_ok ([1..<10] @ 10 # [11..<NSIG]) demo_proc" by (simp only:)
  also have "\<dots> = deliver_all all_ok (10 # [11..<NSIG]) demo_proc" by (rule deliver_all_skip) (simp add: demo_pending)
  also have "\<dots> = deliver_all all_ok ([11..<NSIG] @ []) (armed demo_proc 10 0x7FFF7F38)" by (simp add: demo_delivered)
  also have "\<dots> = deliver_all all_ok [] (armed demo_proc 10 0x7FFF7F38)"
    by (rule deliver_all_skip) (auto simp: armed_fields(8) NSIG_def demo_pending)
  finally have l: "deliver_all all_ok [1..<NSIG] demo_proc = Return (armed demo_proc 10 0x7FFF7F38)" by simp
  have "default_stages demo_proc = Next demo_proc" by (rule default_stages_single) (auto simp: demo_pending signal_numbers)
  then show ?thesis using l demo_pending(2) by (simp add: handle_signals_def)
qed

theorem delivery_correct_witness:
  "\<exists>sig\<in>{1..<NSIG}. ip (task_regs (armed demo_proc 10 0x7FFF7F38)) = signal_handlers demo_proc sig \<and> arg0 (task_regs (armed demo_proc 10 0x7FFF7F38)) = of_nat sig"
proof -
  have e: "signal_enter_pending (armed demo_proc 10 0x7FFF7F38)" by (rule armed_fields(3)) (simp_all add: NSIG_def)
  have n: "saved_context demo_proc = None" "\<not> signal_enter_pending demo_proc" by (simp_all add: demo_proc_def)
  have b: "stack_bounds demo_proc = (USER_STACK_BASE, USER_STACK_TOP)" "USER_STACK_BASE < USER_STACK_TOP" "USER_STACK_TOP \<le> 0x800000000000" by code_simp+
  show ?thesis using delivery_correct [OF demo_handled n e b] by blast
qed

section \<open>The way back from a handler\<close>

lemma sanitize_again: "ir0_rflags_sanitize_user (ir0_rflags_sanitize_user (w OR 2 OR RFLAGS_IF) OR 2) = ir0_rflags_sanitize_user w"
  unfolding ir0_rflags_sanitize_user_def RFLAGS_IF_def by (rule bit_word_eqI) (simp only: bit_simps, blast)

lemma sanitize_or_2: "ir0_rflags_sanitize_user (w OR 2) = ir0_rflags_sanitize_user w"
  unfolding ir0_rflags_sanitize_user_def by (rule bit_word_eqI) (simp only: bit_simps, blast)

lemma sanitize_nonzero: "ir0_rflags_sanitize_user w \<noteq> 0"
proof -
  have "bit (ir0_rflags_sanitize_user w) 1" by (simp add: ir0_rflags_sanitize_user_def bit_simps)
  then show ?thesis by auto
qed

text \<open>The registers \<^verbatim>\<open>sys_sigreturn\<close> leaves when it restores the context \<open>c\<close>.\<close>

definition sigreturn_regs :: "regs \<Rightarrow> pinfo \<Rightarrow> regs" where
  "sigreturn_regs c q =
     (if kernel_sleep_interrupted q then
        case (if \<not> (0 < signal_last_delivered q \<and> signal_last_delivered q < NSIG \<and> signal_sa_flags q (signal_last_delivered q) AND SA_RESTART = 0)
              then signal_resume_blocked_syscall_frame True (syscall_block_nr q) (kernel_sleep_syscall_frame q)
              else signal_resume_blocked_syscall_frame False 0 (kernel_sleep_syscall_frame q)) of
          (f, rax) \<Rightarrow> task_apply_syscall_frame f rax
      else task_apply_syscall_frame (signal_fill_syscall_frame_from_sigcontext (c\<lparr>rflags := ir0_rflags_sanitize_user (rflags c OR 2 OR RFLAGS_IF)\<rparr>)) (gpr_rax c))"

lemma sigreturn_done:
  assumes m: "user_mode q" and v: "signal_sigcontext_valid c"
    and r: "uframe = None \<and> saved_context q = Some c \<and> signal_mask_saved_valid q \<and> signal_mask_saved q = w \<or> uframe = Some (c, ucast w)"
  shows "\<exists>q'. sys_sigreturn e uframe ctx q = Return (Some (sigreturn_regs c q), q') \<and> task_regs q' = sigreturn_regs c q \<and> signal_mask q' = w \<and>
    saved_context q' = None \<and> \<not> signal_enter_pending q' \<and> \<not> signal_mask_saved_valid q'"
proof -
  have u: "ucast (ucast w :: u64) = w" by (rule bit_word_eqI) (simp add: bit_simps)
  let ?c = "c\<lparr>rflags := ir0_rflags_sanitize_user (rflags c OR 2 OR RFLAGS_IF)\<rparr>"
  let ?q = "process_saved_context_clear q"
  obtain q1 where q1: "(case uframe of Some (_, om) \<Rightarrow> ?q\<lparr>signal_mask := ucast om, signal_mask_saved_valid := False, signal_frame_sp := 0\<rparr> | None \<Rightarrow> signals_on_sigreturn ?q) = q1"
    by blast
  have f: "signal_mask q1 = w" "saved_context q1 = None" "\<not> signal_mask_saved_valid q1" "kernel_sleep_interrupted q1 = kernel_sleep_interrupted q"
    "signal_last_delivered q1 = signal_last_delivered q" "signal_sa_flags q1 = signal_sa_flags q" "kernel_sleep_syscall_frame q1 = kernel_sleep_syscall_frame q"
    "syscall_block_nr q1 = syscall_block_nr q"
    using r unfolding q1 [symmetric]
    by (auto simp: u process_saved_context_clear_def signals_on_sigreturn_def signals_restore_handler_mask_def)
  have s: "(case uframe of Some (c, _) \<Rightarrow> Some c | None \<Rightarrow> (case saved_context q of Some c \<Rightarrow> Some c | None \<Rightarrow> ctx)) = Some c" using r by auto
  have c: "signal_sigcontext_validate_and_sanitize c = Some ?c" using v by (simp add: signal_sigcontext_validate_and_sanitize_def)
  obtain f rax where fr: "(if \<not> (0 < signal_last_delivered q \<and> signal_last_delivered q < NSIG \<and> signal_sa_flags q (signal_last_delivered q) AND SA_RESTART = 0)
      then signal_resume_blocked_syscall_frame True (syscall_block_nr q) (kernel_sleep_syscall_frame q)
      else signal_resume_blocked_syscall_frame False 0 (kernel_sleep_syscall_frame q)) = (f, rax)" by (meson surj_pair)
  have "sigreturn_regs c q = (if kernel_sleep_interrupted q then task_apply_syscall_frame f rax
      else task_apply_syscall_frame (signal_fill_syscall_frame_from_sigcontext ?c) (gpr_rax c))"
    by (simp only: sigreturn_regs_def fr prod.case)
  then show ?thesis using m f(1-3) unfolding sys_sigreturn_def Let_def s option.case c q1 f(4-8) fr prod.case
    by (cases "kernel_sleep_interrupted q") simp_all
qed

text \<open>The call a process is in, if its frame is the one of a system call, and that call's number.\<close>

definition call_frame :: "pinfo \<Rightarrow> sframe" where
  "call_frame p = (if kernel_syscall_sleep p then kernel_sleep_syscall_frame p else syscall_frame p)"

definition call_nr :: "pinfo \<Rightarrow> u32" where
  "call_nr p = (if kernel_syscall_sleep p then syscall_block_nr p else syscall_entry_nr p)"

definition in_call :: "pinfo \<Rightarrow> bool" where
  "in_call p \<longleftrightarrow> kernel_syscall_sleep p \<or> syscall_frame_fresh p"

lemma backup_sleep:
  assumes "in_call p" "\<not> coop_resched_resume p"
  shows "syscall_block_nr (process_kernel_sleep_interrupted_backup_frame p) = call_nr p"
    "kernel_sleep_syscall_frame (process_kernel_sleep_interrupted_backup_frame p) =
       (if \<not> kernel_syscall_sleep p \<and> call_nr p = 0 \<and> sint (arg0 (call_frame p)) < 0 then (call_frame p)\<lparr>arg0 := 0\<rparr> else call_frame p)"
  using assms unfolding process_kernel_sleep_interrupted_backup_frame_def process_kernel_sleep_capture_syscall_frame_def Let_def call_nr_def call_frame_def in_call_def
  by (cases "kernel_syscall_sleep p"; simp)+

lemma armed_sleep:
  assumes s: "1 \<le> sig" "sig < NSIG" and c: "in_call p" "\<not> coop_resched_resume p"
  shows "syscall_block_nr (armed p sig u) = call_nr p"
    "kernel_sleep_syscall_frame (armed p sig u) =
       (if \<not> kernel_syscall_sleep p \<and> call_nr p = 0 \<and> sint (arg0 (call_frame p)) < 0 then (call_frame p)\<lparr>arg0 := 0\<rparr> else call_frame p)"
proof -
  let ?p = "p\<lparr>saved_context := Some (interrupted p), signal_frame_sp := u, task_regs := (task_regs p)\<lparr>sp := u, ip := signal_handlers p sig, arg0 := of_nat sig\<rparr>\<rparr>"
  have m: "syscall_block_nr (signals_apply_handler_mask sig w r) = syscall_block_nr r" "kernel_sleep_syscall_frame (signals_apply_handler_mask sig w r) = kernel_sleep_syscall_frame r" for w r
    by (simp_all add: signals_apply_handler_mask_def Let_def)
  have a: "syscall_block_nr (armed p sig u) = syscall_block_nr (process_kernel_sleep_interrupted_backup_frame ?p)"
    "kernel_sleep_syscall_frame (armed p sig u) = kernel_sleep_syscall_frame (process_kernel_sleep_interrupted_backup_frame ?p)"
    by (simp_all add: armed_def enter_handler_def clear_pending_def m Let_def)
  have i: "in_call ?p" "\<not> coop_resched_resume ?p" "call_nr ?p = call_nr p" "call_frame ?p = call_frame p" "kernel_syscall_sleep ?p = kernel_syscall_sleep p"
    using c by (simp_all add: in_call_def call_nr_def call_frame_def)
  show "syscall_block_nr (armed p sig u) = call_nr p" using a(1) backup_sleep(1) [OF i(1,2)] i(3) by simp
  show "kernel_sleep_syscall_frame (armed p sig u) =
       (if \<not> kernel_syscall_sleep p \<and> call_nr p = 0 \<and> sint (arg0 (call_frame p)) < 0 then (call_frame p)\<lparr>arg0 := 0\<rparr> else call_frame p)"
    unfolding a(2) backup_sleep(2) [OF i(1,2)] i(3,4,5) ..
qed

lemma interrupted_outside:
  assumes "\<not> in_call p"
  shows "interrupted p = (task_regs p)\<lparr>arg0 := (if sint (arg0 (task_regs p)) < 0 then 0 else arg0 (task_regs p))\<rparr>"
  using assms
  by (simp add: interrupted_def in_call_def signal_repair_sigcontext_read_fd_def signal_repair_sigcontext_syscall_arg_def user_ptr_suspicious_def Let_def)

lemma interrupted_ip: "in_call p \<Longrightarrow> ip (interrupted p) = ip (call_frame p)"
  by (auto simp: interrupted_def in_call_def call_frame_def signal_fill_sigcontext_from_syscall_frame_def signal_blocked_syscall_frame_sanitize_def Let_def)

lemma apply_restored:
  "task_apply_syscall_frame (signal_fill_syscall_frame_from_sigcontext (c\<lparr>rflags := ir0_rflags_sanitize_user (rflags c OR 2 OR RFLAGS_IF)\<rparr>)) (gpr_rax c) =
     c\<lparr>rflags := ir0_rflags_sanitize_user (rflags c), gpr_rcx := ip c, gpr_r11 := ir0_rflags_sanitize_user (rflags c)\<rparr>"
  by (simp add: task_apply_syscall_frame_def signal_fill_syscall_frame_from_sigcontext_def sanitize_nonzero sanitize_again Let_def)

lemma truncate_apply: "sframe.truncate (task_apply_syscall_frame f rax) = f\<lparr>rflags := ir0_rflags_sanitize_user (rflags f)\<rparr>"
  "gpr_rax (task_apply_syscall_frame f rax) = rax"
  by (simp_all add: task_apply_syscall_frame_def sframe.truncate_def sanitize_or_2 Let_def)

text \<open>
  C15: Returning from a handler undoes the delivery, whether the frame is read back from the user stack or the kernel's copy is used, and whatever
  registers the handler leaves: the blocked signals are those from before the delivery and no handler is armed any more. A process that was not in a
  system call gets back all its registers, except that \<^verbatim>\<open>rcx\<close> and \<^verbatim>\<open>r11\<close> hold the instruction pointer and the flags, the flags are sanitised (no trap
  flag, interrupts on) and a negative \<^verbatim>\<open>rdi\<close> is 0. One that was in a system call (asleep in it or about to return from it, and not in a cooperative
  reschedule) gets back the registers it made the call with: it goes on after the call with \<^verbatim>\<open>-EINTR\<close>, or, when the action of the signal
  has \<^verbatim>\<open>SA_RESTART\<close>, makes the call again; a negative first argument is 0 when the call is a \<^verbatim>\<open>read\<close> or not restarted. The handler itself makes no call
  that sleeps.
\<close>

theorem handler_return_restores:
  assumes h: "handle_signals e p = Return q" and n: "saved_context p = None" "\<not> signal_enter_pending p" "\<not> signal_mask_saved_valid p" "\<not> kernel_sleep_interrupted p"
    and a: "signal_enter_pending q" and u: "uframe = None \<or> uframe = Some (interrupted p, ucast (signal_mask p))"
    and x: "x = q\<lparr>task_regs := hr, syscall_frame := hf, syscall_frame_fresh := True, syscall_entry_nr := hn\<rparr>"
  shows "\<exists>sig\<in>{1..<NSIG}. \<exists>r q'. arg0 (task_regs q) = of_nat sig \<and> has_sig (signal_pending p) sig \<and>
    sys_sigreturn e' uframe ctx x = Return (Some r, q') \<and> task_regs q' = r \<and>
    signal_mask q' = signal_mask p \<and> saved_context q' = None \<and> \<not> signal_enter_pending q' \<and> \<not> signal_mask_saved_valid q' \<and>
    (\<not> in_call p \<longrightarrow>
       r = (task_regs p)\<lparr>arg0 := (if sint (arg0 (task_regs p)) < 0 then 0 else arg0 (task_regs p)), rflags := ir0_rflags_sanitize_user (rflags (task_regs p)),
             gpr_rcx := ip (task_regs p), gpr_r11 := ir0_rflags_sanitize_user (rflags (task_regs p))\<rparr>) \<and>
    (in_call p \<and> \<not> coop_resched_resume p \<longrightarrow>
       (let f = call_frame p; restart = (signal_sa_flags p sig AND SA_RESTART \<noteq> 0) in
        sframe.truncate r = f\<lparr>ip := (if restart then ip f - 2 else ip f), rflags := ir0_rflags_sanitize_user (rflags f),
            arg0 := (if sint (arg0 f) < 0 \<and> (\<not> restart \<or> call_nr p = 0) then 0 else arg0 f)\<rparr> \<and>
        gpr_rax r = (if restart then ucast (call_nr p) else minus_EINTR)))"
proof -
  have nn: "\<not> signal_delivery_blocked_nested p" using n by (simp add: signal_delivery_blocked_nested_def)
  have "\<not> undisturbed p q" using undisturbed_fields(7) n(2) a by metis
  then obtain sig p1 w where s: "1 \<le> sig" "sig < NSIG" and q1: "undisturbed p p1" and d: "deliverable sig p1" and q2: "undisturbed (armed p1 sig w) q"
    using handle_signals_cases [OF h nn] by auto
  note ar = armed_fields [OF s, of p1 w] and qf = undisturbed_fields [OF q1] and rf = undisturbed_fields [OF q2]
  let ?c = "interrupted p"
  have sv: "saved_context x = Some ?c" "signal_mask_saved_valid x" "signal_mask_saved x = signal_mask p" "user_mode x"
    using rf(6,8,9,13) ar(2,6,7,9) qf(1,9,13,14) n(3) d by (simp_all add: deliverable_def x)
  have v: "signal_sigcontext_valid ?c" using d qf(14) by (simp add: deliverable_def)
  have pend: "has_sig (signal_pending p) sig" using q1 d by (auto simp: undisturbed_def deliverable_def)
  have arg: "arg0 (task_regs q) = of_nat sig" using rf(12) ar(1) by simp
  obtain q' where q': "sys_sigreturn e' uframe ctx x = Return (Some (sigreturn_regs ?c x), q')" "task_regs q' = sigreturn_regs ?c x" "signal_mask q' = signal_mask p"
      "saved_context q' = None" "\<not> signal_enter_pending q'" "\<not> signal_mask_saved_valid q'"
    using sigreturn_done [OF sv(4) v, of uframe "signal_mask p" e' ctx] u sv by blast
  have ic: "in_call p1 = in_call p" "call_frame p1 = call_frame p" "call_nr p1 = call_nr p" using qf by (simp_all add: in_call_def call_frame_def call_nr_def)
  have ks: "kernel_sleep_interrupted x = (\<not> coop_resched_resume p \<and> in_call p)" using rf(16) ar(13) qf n(4) by (auto simp: x in_call_def)
  have out: "sigreturn_regs ?c x = (task_regs p)\<lparr>arg0 := (if sint (arg0 (task_regs p)) < 0 then 0 else arg0 (task_regs p)),
      rflags := ir0_rflags_sanitize_user (rflags (task_regs p)), gpr_rcx := ip (task_regs p), gpr_r11 := ir0_rflags_sanitize_user (rflags (task_regs p))\<rparr>"
    if o: "\<not> in_call p"
    using ks o unfolding sigreturn_regs_def apply_restored by (simp add: interrupted_outside [OF o])
  have ins: "let f = call_frame p; restart = (signal_sa_flags p sig AND SA_RESTART \<noteq> 0); r = sigreturn_regs ?c x in
        sframe.truncate r = f\<lparr>ip := (if restart then ip f - 2 else ip f), rflags := ir0_rflags_sanitize_user (rflags f),
            arg0 := (if sint (arg0 f) < 0 \<and> (\<not> restart \<or> call_nr p = 0) then 0 else arg0 f)\<rparr> \<and>
        gpr_rax r = (if restart then ucast (call_nr p) else minus_EINTR)"
    if i: "in_call p" "\<not> coop_resched_resume p"
  proof -
    have "\<not> ip (call_frame p) < 0x400000" using v interrupted_ip [OF i(1)] by (simp add: signal_sigcontext_valid_def nonuser_def)
    then have ip2: "2 \<le> ip (call_frame p)" by (simp add: word_le_nat_alt word_less_nat_alt)
    have kx: "kernel_sleep_interrupted x" "signal_last_delivered x = sig" "signal_sa_flags x = signal_sa_flags p" "syscall_block_nr x = call_nr p"
      "kernel_sleep_syscall_frame x = kernel_sleep_syscall_frame (armed p1 sig w)"
      using ks i rf ar qf armed_sleep(1) [OF s, of p1 w] ic armed_flags [OF s, of p1 w] by (simp_all add: x)
    have fr: "kernel_sleep_syscall_frame x = (if \<not> kernel_syscall_sleep p \<and> call_nr p = 0 \<and> sint (arg0 (call_frame p)) < 0 then (call_frame p)\<lparr>arg0 := 0\<rparr> else call_frame p)"
      using kx(5) armed_sleep(2) [OF s, of p1 w] i ic qf by simp
    show ?thesis using s ip2
      by (simp add: sigreturn_regs_def kx(1-4) fr truncate_apply signal_resume_blocked_syscall_frame_def signal_blocked_syscall_frame_sanitize_def Let_def)
  qed
  show ?thesis
    by (rule bexI [of _ sig], rule exI [of _ "sigreturn_regs ?c x"], rule exI [of _ q']) (use pend arg q' out ins s in \<open>simp_all add: Let_def\<close>)
qed

theorem handler_return_restores_witness:
  "\<exists>r q'. sys_sigreturn all_ok None None ((armed demo_proc 10 0x7FFF7F38)\<lparr>task_regs := demo_regs, syscall_frame := zero_frame, syscall_frame_fresh := True, syscall_entry_nr := 15\<rparr>)
     = Return (Some r, q') \<and> signal_mask q' = signal_mask demo_proc \<and> gpr_rbx r = 7 \<and> gpr_rax r = 5"
proof -
  have e: "signal_enter_pending (armed demo_proc 10 0x7FFF7F38)" by (rule armed_fields(3)) (simp_all add: NSIG_def)
  have n: "saved_context demo_proc = None" "\<not> signal_enter_pending demo_proc" "\<not> signal_mask_saved_valid demo_proc" "\<not> kernel_sleep_interrupted demo_proc" by (simp_all add: demo_proc_def)
  have o: "\<not> in_call demo_proc" "gpr_rbx (task_regs demo_proc) = 7" "gpr_rax (task_regs demo_proc) = 5" by code_simp+
  from handler_return_restores [where hr = demo_regs and hf = zero_frame and hn = 15 and e' = all_ok and ctx = None, OF demo_handled n e disjI1 [OF refl] refl] o show ?thesis by fastforce
qed

text \<open>
  While a handler is armed or running no second one is entered: handling signals then changes neither registers, saved context nor mask, or
  ends or stops the process.
\<close>

theorem handlers_do_not_nest:
  assumes "saved_context p \<noteq> None \<or> signal_enter_pending p" "handle_signals e p = Return q"
  shows "task_regs q = task_regs p \<and> syscall_frame q = syscall_frame p \<and> saved_context q = saved_context p \<and> signal_mask q = signal_mask p \<and> signal_frame_sp q = signal_frame_sp p"
  using undisturbed_fields [OF handle_signals_nested [OF assms(2)]] assms(1) by (simp add: signal_delivery_blocked_nested_def)

theorem handlers_do_not_nest_witness:
  "\<exists>q. handle_signals all_ok (armed demo_proc 10 0x7FFF7F38) = Return q \<and> task_regs q = task_regs (armed demo_proc 10 0x7FFF7F38)"
proof -
  have e: "signal_enter_pending (armed demo_proc 10 0x7FFF7F38)" by (rule armed_fields(3)) (simp_all add: NSIG_def)
  have "signal_pending (armed demo_proc 10 0x7FFF7F38) = signal_pending demo_proc AND NOT (SIGNAL_MASK 10)" by (rule armed_fields(8)) (simp_all add: NSIG_def)
  also have "\<dots> = 0" by code_simp
  finally have h: "handle_signals all_ok (armed demo_proc 10 0x7FFF7F38) = Return (armed demo_proc 10 0x7FFF7F38)" by (simp add: handle_signals_def)
  show ?thesis using handlers_do_not_nest [OF disjI2 [OF e] h] h by blast
qed

text \<open>
  C39: Two departures from caught and blocked signals. A process that blocks \<^verbatim>\<open>SIGTERM\<close>, as every handler whose mask contains it does, is
  ended by it on its next return to user space, even where it has installed a handler: a blocked handler does not count as one. And
  \<^verbatim>\<open>SIGABRT\<close> ends a process that has a handler for it, or ignores it.
\<close>

theorem caught_signals_kill:
  assumes u: "user_mode p" and only: "\<And>x. has_sig (signal_pending p) x \<longleftrightarrow> x = sig"
    and sig: "sig = SIGTERM \<and> has_sig (signal_mask p) SIGTERM \<and> \<not> has_sig (signal_ignored p) SIGTERM \<or> sig = SIGABRT \<and> \<not> has_sig (signal_mask p) SIGABRT"
  shows "\<exists>q. signals_prepare_user_return e p = Exit 0 (False, q) \<and> exit_signal q = sig"
proof -
  have nz: "signal_pending p \<noteq> 0" using only [of sig] by auto
  have nh: "\<not> signals_has_user_handler SIGTERM p" if "sig = SIGTERM" using that sig by (auto simp: signals_has_user_handler_def signal_numbers)
  have on: "signals_should_handle_on_run p"
  proof (cases "sig = SIGTERM")
    case True
    then show ?thesis using nz nh sig only [of SIGTERM] only [of SIGKILL]
      by (auto simp: signals_should_handle_on_run_def signals_pause_should_interrupt_def signal_numbers)
  next
    case False
    then have "has_sig (signal_pending p AND NOT (signal_mask p)) SIGABRT" using sig only [of SIGABRT] by (auto simp: signal_numbers)
    then have "signal_pending p AND NOT (signal_mask p) \<noteq> 0" using has_sig_simps(1) by metis
    then show ?thesis using nz by (simp add: signals_should_handle_on_run_def)
  qed
  have no: "\<not> has_sig (signal_pending p) x" if "x \<noteq> sig" for x using that only by blast
  have "default_stages p = die sig p"
  proof (cases "sig = SIGTERM")
    case True
    then show ?thesis using nh sig only [of SIGTERM]
      by (simp add: default_stages_def kill_stage_def stop_stage_def fault_stage_def term_stage_def no signal_numbers die_def)
  next
    case False
    then have "sig = SIGABRT" using sig by blast
    then show ?thesis using only [of SIGABRT]
      by (simp add: default_stages_def kill_stage_def stop_stage_def fault_stage_def term_stage_def soft_stage_def abort_stage_def no signal_numbers die_def)
  qed
  then show ?thesis using u on nz by (simp add: signals_prepare_user_return_def handle_signals_def die_def)
qed

theorem caught_signals_kill_witness:
  "\<exists>q. signals_prepare_user_return all_ok (demo_proc\<lparr>signal_pending := SIGNAL_MASK SIGTERM, signal_mask := SIGNAL_MASK SIGTERM,
     signal_handlers := (\<lambda>_. 0x500000)\<rparr>) = Exit 0 (False, q) \<and> exit_signal q = SIGTERM"
  by (rule caught_signals_kill) (auto simp: demo_proc_def signal_numbers)

text \<open>
  \<^verbatim>\<open>SIGSTOP\<close> can be blocked: \<^verbatim>\<open>rt_sigprocmask\<close> accepts any mask, and a process that has blocked the signal returns to user space as if it were not pending.
\<close>

theorem stop_can_be_blocked:
  assumes "user_mode p"
  shows "\<exists>q. sys_rt_sigprocmask None True 2 (Some (- 1)) 8 p = (Inr (), q) \<and>
    (signal_pending q = SIGNAL_MASK SIGSTOP \<longrightarrow> signals_prepare_user_return e q = Return (False, q))"
proof -
  let ?q = "p\<lparr>signal_mask := ucast (- 1 :: u64)\<rparr>"
  have m: "(ucast (- 1 :: u64) :: u32) = - 1" by (rule bit_word_eqI) (simp add: bit_simps)
  have "\<not> signals_should_handle_on_run ?q" if "signal_pending p = SIGNAL_MASK SIGSTOP"
    using that by (simp add: signals_should_handle_on_run_def signals_pause_should_interrupt_def m signal_numbers)
  then have "signals_prepare_user_return e ?q = Return (False, ?q)" if "signal_pending p = SIGNAL_MASK SIGSTOP"
    using that by (simp add: signals_prepare_user_return_def)
  then show ?thesis by (intro exI [of _ ?q]) (simp add: sys_rt_sigprocmask_def)
qed

theorem stop_can_be_blocked_witness:
  "\<exists>q. sys_rt_sigprocmask None True 2 (Some (- 1)) 8 (demo_proc\<lparr>signal_pending := SIGNAL_MASK SIGSTOP\<rparr>) = (Inr (), q) \<and> signals_prepare_user_return all_ok q = Return (False, q)"
proof -
  have u: "user_mode (demo_proc\<lparr>signal_pending := SIGNAL_MASK SIGSTOP\<rparr>)" by (simp add: demo_proc_def)
  show ?thesis using stop_can_be_blocked [OF u, of all_ok] by (auto simp: sys_rt_sigprocmask_def)
qed

end
