(* ===== verification/Proc_Tree.thy ===== *)
theory Proc_Tree
  imports Signal_Delivery
begin

text \<open>
  The process tree (\<^verbatim>\<open>kernel/process/wait.c\<close>, \<^verbatim>\<open>kernel/process/exit.c\<close>, \<^verbatim>\<open>kernel/process/signals.c\<close>, \<^verbatim>\<open>kernel/process/wait_state.c\<close>,
  \<^verbatim>\<open>kernel/process/fork.c\<close> and the sending side of \<^verbatim>\<open>kernel/lib/signals.c\<close>): the list of all processes, finding by number, reparenting,
  exit, death by a signal, the notification of the parent, and waiting for children. A process is an address; \<open>plist\<close> is
  \<^verbatim>\<open>process_list\<close> in its order. Of the scheduler the set of queued processes is kept, of the descriptor table whether it was
  released, of memory which processes were freed.
\<close>

section \<open>State\<close>

record psys =
  infos :: "nat \<Rightarrow> pinfo"
  plist :: "nat list"
  cur :: nat
  queued :: "nat set"
  open_files :: "nat set"
  freed :: "nat set"
  next_pid :: int
  fork_pending :: "nat \<Rightarrow> nat option"

definition upd :: "nat \<Rightarrow> (pinfo \<Rightarrow> pinfo) \<Rightarrow> psys \<Rightarrow> psys" where
  "upd a f s = s\<lparr>infos := (infos s)(a := f (infos s a))\<rparr>"

abbreviation zombie :: "psys \<Rightarrow> nat \<Rightarrow> bool" where
  "zombie s a \<equiv> state (sched (infos s a)) = PROCESS_ZOMBIE"

definition put_state :: "process_state \<Rightarrow> pinfo \<Rightarrow> pinfo" where
  "put_state st p = (if st = PROCESS_ZOMBIE then p else p\<lparr>sched := set_state st (sched p)\<rparr>)"

definition mark_zombie :: "pinfo \<Rightarrow> pinfo" where
  "mark_zombie p = p\<lparr>sched := (sched p)\<lparr>lifecycle := PROCESS_LIFECYCLE_ZOMBIE, state := PROCESS_ZOMBIE, task_state := TASK_SCHED_TERMINATED\<rparr>\<rparr>"

section \<open>The list\<close>

definition process_find_by_pid :: "int \<Rightarrow> psys \<Rightarrow> nat option" where
  "process_find_by_pid n s = find (\<lambda>a. pid (infos s a) = n) (plist s)"

definition process_remove_from_list :: "nat \<Rightarrow> psys \<Rightarrow> bool \<times> psys" where
  "process_remove_from_list a s = (if a \<in> set (plist s) then (True, s\<lparr>plist := remove1 a (plist s)\<rparr>) else (False, s))"

definition process_reparent_children :: "nat \<Rightarrow> psys \<Rightarrow> psys" where
  "process_reparent_children d s =
     (let n = pid (infos s d) in
      if \<not> list_ex (\<lambda>c. ppid (infos s c) = n \<and> c \<noteq> d) (plist s) then s
      else case process_find_by_pid 1 s of
             None \<Rightarrow> s\<lparr>infos := (\<lambda>c. if c \<in> set (plist s) \<and> ppid (infos s c) = n \<and> c \<noteq> d then (infos s c)\<lparr>ppid := 0\<rparr> else infos s c)\<rparr>
           | Some i \<Rightarrow>
               if i = d then s\<lparr>infos := (\<lambda>c. if c \<in> set (plist s) \<and> ppid (infos s c) = n \<and> c \<noteq> d then (infos s c)\<lparr>ppid := 0\<rparr> else infos s c)\<rparr>
               else s\<lparr>infos := (\<lambda>c. if c \<in> set (plist s) \<and> ppid (infos s c) = n then (infos s c)\<lparr>ppid := 1\<rparr> else infos s c)\<rparr>)"

definition process_reap_zombie_child :: "nat \<Rightarrow> psys \<Rightarrow> psys" where
  "process_reap_zombie_child c s =
     (case process_remove_from_list c s of
        (False, s1) \<Rightarrow> s1
      | (True, s1) \<Rightarrow> s1\<lparr>open_files := open_files s1 - {c}, freed := insert c (freed s1)\<rparr>)"

definition process_reap_zombies :: "nat \<Rightarrow> psys \<Rightarrow> psys" where
  "process_reap_zombies parent s =
     fold (\<lambda>c t. if ppid (infos t c) = pid (infos t parent) \<and> zombie t c then process_reap_zombie_child c t else t) (plist s) s"

section \<open>Matching and status\<close>

definition process_wait_pid_matches_child :: "int \<Rightarrow> pinfo \<Rightarrow> pinfo \<Rightarrow> bool" where
  "process_wait_pid_matches_child w parent child =
     (if w = - 1 then True else if w > 0 then pid child = w else if w = 0 then pgid child = pgid parent else pgid child = - w)"

definition process_has_zombie_child :: "nat \<Rightarrow> psys \<Rightarrow> bool" where
  "process_has_zombie_child parent s \<longleftrightarrow> list_ex (\<lambda>c. ppid (infos s c) = pid (infos s parent) \<and> zombie s c) (plist s)"

definition process_wait_child_matches_blocked_target :: "nat \<Rightarrow> int \<Rightarrow> psys \<Rightarrow> bool" where
  "process_wait_child_matches_blocked_target parent child_pid s =
     (if child_pid \<le> 0 \<or> \<not> wait_blocked (infos s parent) then False
      else case process_find_by_pid child_pid s of
             None \<Rightarrow> False
           | Some c \<Rightarrow> ppid (infos s c) = pid (infos s parent) \<and>
               process_wait_pid_matches_child (wait_target_pid (infos s parent)) (infos s parent) (infos s c))"

definition process_child_wait_status_word :: "pinfo \<Rightarrow> int" where
  "process_child_wait_status_word c = (if exit_signal c > 0 then int (exit_signal c) AND 0x7F else (exit_code c AND 0xFF) * 256)"

definition wait_find_matching_zombie :: "nat \<Rightarrow> int \<Rightarrow> psys \<Rightarrow> nat option" where
  "wait_find_matching_zombie parent w s =
     find (\<lambda>c. ppid (infos s c) = pid (infos s parent) \<and> process_wait_pid_matches_child w (infos s parent) (infos s c) \<and> zombie s c) (plist s)"

section \<open>Waking the parent\<close>

text \<open>Where the parent sleeps on a saved user frame it resumes with the number of the child; the copy of the status to its memory is left out.\<close>

definition process_wait_wake_blocked_parent :: "nat \<Rightarrow> nat \<Rightarrow> psys \<Rightarrow> psys" where
  "process_wait_wake_blocked_parent parent child s =
     (if \<not> wait_blocked (infos s parent) then s
      else if \<not> process_wait_child_matches_blocked_target parent (pid (infos s child)) s then s
      else let s1 = (if \<not> irq_frame_saved (infos s parent) then s else upd parent (\<lambda>p. p\<lparr>wait_resume_child_pid := pid (infos s child)\<rparr>) s);
               s2 = upd parent (put_state PROCESS_READY) s1 in
        s2\<lparr>queued := insert parent (queued s2)\<rparr>)"

section \<open>Sending signals\<close>

text \<open>The part of \<^verbatim>\<open>send_signal\<close> after the test for a fatal default action.\<close>

definition post_signal :: "nat \<Rightarrow> nat \<Rightarrow> psys \<Rightarrow> psys" where
  "post_signal a sig s =
     (let s1 = upd a (\<lambda>p. p\<lparr>signal_pending := signal_pending p OR SIGNAL_MASK sig\<rparr>) s in
      if state (sched (infos s1 a)) = PROCESS_BLOCKED then upd a (put_state PROCESS_READY) s1 else s1)"

definition discards :: "nat \<Rightarrow> pinfo \<Rightarrow> bool" where
  "discards sig p \<longleftrightarrow> pid p = 1 \<and> \<not> caught (signal_handlers p sig)"

text \<open>\<^verbatim>\<open>send_signal (parent, SIGCHLD)\<close>: the default action of that signal is never fatal.\<close>

definition send_sigchld :: "int \<Rightarrow> psys \<Rightarrow> psys" where
  "send_sigchld n s =
     (case process_find_by_pid n s of
        None \<Rightarrow> s
      | Some a \<Rightarrow> if discards SIGCHLD (infos s a) then s else post_signal a SIGCHLD s)"

definition notify_parent :: "nat \<Rightarrow> nat \<Rightarrow> psys \<Rightarrow> psys" where
  "notify_parent parent child s =
     (let s1 = send_sigchld (pid (infos s parent)) s in
      if state (sched (infos s1 parent)) = PROCESS_BLOCKED \<or> wait_blocked (infos s1 parent)
      then process_wait_wake_blocked_parent parent child s1 else s1)"

definition process_exit :: "int \<Rightarrow> psys \<Rightarrow> psys" where
  "process_exit code s =
     (let d = cur s;
          s1 = upd d (\<lambda>p. p\<lparr>irq_frame_saved := False, signal_defer_catchable := False, signal_last_delivered := 0, kernel_sleep_interrupted := False,
                 kernel_sleep_syscall_frame := zero_frame\<rparr>) s;
          s2 = process_reparent_children d (process_reap_zombies d s1);
          s3 = s2\<lparr>open_files := open_files s2 - {d}\<rparr>;
          s4 = upd d (\<lambda>p. (mark_zombie p)\<lparr>exit_code := (if exit_signal p = 0 then code else 0)\<rparr>) s3;
          s5 = (if ppid (infos s4 d) > 0 then
                  case process_find_by_pid (ppid (infos s4 d)) s4 of
                    Some par \<Rightarrow>
                      if \<not> zombie s4 par then notify_parent par d s4
                      else (let t = upd d (\<lambda>p. p\<lparr>ppid := 1\<rparr>) s4 in
                            case process_find_by_pid 1 t of None \<Rightarrow> t
                            | Some i \<Rightarrow> (let t1 = send_sigchld (pid (infos t i)) t in
                                if state (sched (infos t1 i)) = PROCESS_BLOCKED then process_wait_wake_blocked_parent i d t1 else t1))
                  | None \<Rightarrow>
                      (let t = upd d (\<lambda>p. p\<lparr>ppid := 1\<rparr>) s4 in
                       case process_find_by_pid 1 t of None \<Rightarrow> t
                       | Some i \<Rightarrow> (let t1 = send_sigchld (pid (infos t i)) t in
                           if state (sched (infos t1 i)) = PROCESS_BLOCKED then process_wait_wake_blocked_parent i d t1 else t1))
                else s4);
          s6 = s5\<lparr>queued := queued s5 - {d}\<rparr> in
      case find (\<lambda>a. \<not> user_mode (infos s6 a) \<and> \<not> zombie s6 a \<and> comm (infos s6 a) = ''idle'') (plist s6) of
        None \<Rightarrow> s6
      | Some i \<Rightarrow> s6\<lparr>queued := insert i (queued s6)\<rparr>)"

text \<open>\<open>Inl\<close>: the current process has ended and does not go on.\<close>

definition process_signal_default_kill :: "nat \<Rightarrow> nat \<Rightarrow> psys \<Rightarrow> psys + (bool \<times> psys)" where
  "process_signal_default_kill d sig s =
     (if zombie s d then Inr (False, s)
      else if \<not> process_signal_is_default_fatal (infos s d) sig then Inr (False, s)
      else if d = cur s then Inl (process_exit 0 (upd d (\<lambda>p. (clear_pending sig p)\<lparr>exit_signal := sig\<rparr>) s))
      else
        let s1 = upd d (\<lambda>p. p\<lparr>irq_frame_saved := False\<rparr>) s;
            s2 = process_reparent_children d (process_reap_zombies d s1);
            s3 = s2\<lparr>open_files := open_files s2 - {d}\<rparr>;
            s4 = upd d (\<lambda>p. mark_zombie ((clear_pending sig p)\<lparr>exit_signal := sig, exit_code := 0\<rparr>)) s3;
            s5 = s4\<lparr>queued := queued s4 - {d}\<rparr> in
        Inr (True, (if ppid (infos s5 d) > 0 then
                      case process_find_by_pid (ppid (infos s5 d)) s5 of
                        None \<Rightarrow> s5
                      | Some par \<Rightarrow> if zombie s5 par then s5 else notify_parent par d s5
                    else s5)))"

definition send_signal :: "int \<Rightarrow> int \<Rightarrow> psys \<Rightarrow> psys + (bool \<times> psys)" where
  "send_signal n signal s =
     (if signal < 0 \<or> signal \<ge> int NSIG then Inr (False, s)
      else case process_find_by_pid n s of
             None \<Rightarrow> Inr (False, s)
           | Some a \<Rightarrow>
               let sig = nat signal in
               if sig = 0 then Inr (True, s)
               else if discards sig (infos s a) then Inr (True, s)
               else if process_signal_is_default_fatal (infos s a) sig then
                 (case process_signal_default_kill a sig s of
                    Inl t \<Rightarrow> Inl t
                  | Inr (True, t) \<Rightarrow> Inr (True, t)
                  | Inr (False, t) \<Rightarrow> Inr (True, post_signal a sig t))
               else Inr (True, post_signal a sig s))"

text \<open>
  A signal to a group: the loop follows the list as it is after each signal, so a process that was reaped on the way is not visited.
  The result counts the signals sent.
\<close>

fun send_signal_each :: "nat list \<Rightarrow> int \<Rightarrow> int \<Rightarrow> nat \<Rightarrow> psys \<Rightarrow> psys + (nat \<times> psys)" where
  "send_signal_each [] g signal n s = Inr (n, s)"
| "send_signal_each (a # as) g signal n s =
     (if a \<notin> set (plist s) \<or> pgid (infos s a) \<noteq> g then send_signal_each as g signal n s
      else case send_signal (pid (infos s a)) signal s of
             Inl t \<Rightarrow> Inl t
           | Inr (ok, t) \<Rightarrow> send_signal_each as g signal (if ok then Suc n else n) t)"

definition send_signal_pgrp :: "int \<Rightarrow> int \<Rightarrow> psys \<Rightarrow> psys + (nat \<times> psys)" where
  "send_signal_pgrp g signal s =
     (if g \<le> 0 \<or> signal < 0 \<or> signal \<ge> int NSIG then Inr (0, s) else send_signal_each (plist s) g signal 0 s)"

text \<open>The calls.\<close>

definition sent :: "psys + (bool \<times> psys) \<Rightarrow> psys + ((errno + unit) \<times> psys)" where
  "sent r = (case r of Inl t \<Rightarrow> Inl t | Inr (True, t) \<Rightarrow> Inr (Inr (), t) | Inr (False, t) \<Rightarrow> Inr (Inl ESRCH, t))"

definition sys_kill :: "int \<Rightarrow> int \<Rightarrow> psys \<Rightarrow> psys + ((errno + unit) \<times> psys)" where
  "sys_kill n signal s =
     (if signal < 0 \<or> signal \<ge> int NSIG then Inr (Inl EINVAL, s)
      else if n \<le> 0 then Inr (Inl EINVAL, s)
      else sent (send_signal n signal s))"

definition sys_tkill :: "int \<Rightarrow> int \<Rightarrow> psys \<Rightarrow> psys + ((errno + unit) \<times> psys)" where
  "sys_tkill n signal s =
     (if signal < 0 \<or> signal \<ge> int NSIG then Inr (Inl EINVAL, s)
      else if n \<le> 0 then Inr (Inl EINVAL, s)
      else if process_find_by_pid n s = None then Inr (Inl ESRCH, s)
      else if signal = 0 then Inr (Inr (), s)
      else sent (send_signal n signal s))"

definition sys_tgkill :: "int \<Rightarrow> int \<Rightarrow> int \<Rightarrow> psys \<Rightarrow> psys + ((errno + unit) \<times> psys)" where
  "sys_tgkill g n signal s =
     (if signal < 0 \<or> signal \<ge> int NSIG then Inr (Inl EINVAL, s)
      else case process_find_by_pid n s of
             None \<Rightarrow> Inr (Inl ESRCH, s)
           | Some a \<Rightarrow>
               if tgid (infos s a) \<noteq> g then Inr (Inl ESRCH, s)
               else if signal = 0 then Inr (Inr (), s)
               else sent (send_signal n signal s))"

section \<open>Waiting\<close>

definition process_wait_state_init :: "pinfo \<Rightarrow> pinfo" where
  "process_wait_state_init p = p\<lparr>wait_blocked := False, wait_target_pid := 0, wait_options := 0, wait_resume_child_pid := 0\<rparr>"

definition process_wait_state_clear :: "pinfo \<Rightarrow> pinfo" where
  "process_wait_state_clear p = process_wait_state_init (p\<lparr>signal_defer_catchable := False\<rparr>)"

definition process_wait_state_arm :: "int \<Rightarrow> int \<Rightarrow> pinfo \<Rightarrow> pinfo" where
  "process_wait_state_arm w options p =
     p\<lparr>wait_blocked := True, wait_target_pid := w, wait_options := options, wait_resume_child_pid := 0, signal_defer_catchable := True\<rparr>"

definition process_clear_in_thread_syscall_block :: "pinfo \<Rightarrow> pinfo" where
  "process_clear_in_thread_syscall_block p =
     p\<lparr>irq_frame_saved := False, coop_resched_resume := False, kernel_syscall_sleep := False, kernel_sleep_interrupted := False,
        kernel_sleep_syscall_frame := zero_frame, syscall_block_nr := 0\<rparr>"

definition process_reset_blocked_syscall_state :: "pinfo \<Rightarrow> pinfo" where
  "process_reset_blocked_syscall_state p =
     process_wait_state_init (p\<lparr>irq_frame_saved := False, coop_resched_resume := False, kernel_syscall_sleep := False, kernel_sleep_interrupted := False,
        kernel_sleep_syscall_frame := zero_frame, syscall_entry_nr := 0, syscall_block_nr := 0, syscall_frame_fresh := False\<rparr>)"

definition process_arm_kernel_syscall_sleep :: "pinfo \<Rightarrow> pinfo" where
  "process_arm_kernel_syscall_sleep p =
     (if \<not> user_mode p then p
      else let p1 = p\<lparr>kernel_syscall_sleep := True\<rparr> in
        if syscall_frame_fresh p1 then process_kernel_sleep_capture_syscall_frame p1
        else if syscall_block_nr p1 \<noteq> 0 \<and> syscall_block_nr p1 \<noteq> syscall_entry_nr p1 then p1\<lparr>kernel_sleep_syscall_frame := zero_frame, syscall_block_nr := 0\<rparr>
        else p1)"

text \<open>
  One pass of the loop of \<^verbatim>\<open>process_wait\<close>: it reaps a child, fails, reports that none has ended, or goes to sleep; woken, it makes another pass.
  \<open>st\<close> says whether a status is asked for, whether its buffer passes the check and whether the copy works.
\<close>

datatype wait_result = Reaped int int | WaitError errno | NoneYet | Asleep

definition WNOHANG :: int where "WNOHANG = 1"

definition process_wait_pass :: "(bool \<times> bool) option \<Rightarrow> int \<Rightarrow> int \<Rightarrow> psys \<Rightarrow> wait_result \<times> psys" where
  "process_wait_pass st w options s =
     (let a = cur s;
          opts = (if user_mode (infos s a) then wait_options (infos s a) else options);
          mine = filter (\<lambda>c. ppid (infos s c) = pid (infos s a) \<and> process_wait_pid_matches_child w (infos s a) (infos s c)) (plist s) in
      case find (zombie s) mine of
        Some z \<Rightarrow>
          if \<exists>c. st = Some (False, c) then (WaitError EFAULT, s)
          else
            let status = process_child_wait_status_word (infos s z);
                s1 = process_reap_zombie_child z s in
            if st = Some (True, False) \<and> user_mode (infos s a) then (WaitError EFAULT, s1)
            else
              let s2 = upd a (process_clear_in_thread_syscall_block \<circ> process_wait_state_clear) s1;
                  s3 = (if wait_find_matching_zombie a (- 1) s2 = None then upd a (clear_pending SIGCHLD) s2 else s2) in
              (Reaped (pid (infos s z)) status, s3)
      | None \<Rightarrow>
          if mine = [] then (WaitError ECHILD, upd a process_reset_blocked_syscall_state s)
          else if opts AND WNOHANG \<noteq> 0 then (NoneYet, upd a process_reset_blocked_syscall_state s)
          else
            let s1 = upd a (process_wait_state_arm w opts) s;
                s2 = (if user_mode (infos s1 a) then upd a (\<lambda>p. process_arm_kernel_syscall_sleep (p\<lparr>coop_resched_resume := False, irq_frame_saved := False\<rparr>)) s1 else s1) in
            (Asleep, upd a (put_state PROCESS_BLOCKED) s2))"

text \<open>
  The call around the loop: on entry the options are kept in the process and a stale sleep is dropped; on return, unless
  it still sleeps, what is left of the sleep is dropped.
\<close>

definition sys_wait4_enter :: "int \<Rightarrow> psys \<Rightarrow> psys" where
  "sys_wait4_enter options s =
     (if user_mode (infos s (cur s)) then upd (cur s) (\<lambda>p. (process_clear_in_thread_syscall_block p)\<lparr>wait_options := options\<rparr>) s else s)"

definition sys_wait4_leave :: "psys \<Rightarrow> psys" where
  "sys_wait4_leave s =
     (if state (sched (infos s (cur s))) \<noteq> PROCESS_BLOCKED then upd (cur s) process_reset_blocked_syscall_state s else s)"

text \<open>A pass with the return of the call where it is the last one; the first pass comes after the entry, the others after a wake-up.\<close>

definition wait4_pass :: "(bool \<times> bool) option \<Rightarrow> int \<Rightarrow> int \<Rightarrow> psys \<Rightarrow> wait_result \<times> psys" where
  "wait4_pass st w options s =
     (case process_wait_pass st w options s of (Asleep, t) \<Rightarrow> (Asleep, t) | (r, t) \<Rightarrow> (r, sys_wait4_leave t))"

definition sys_wait4 :: "(bool \<times> bool) option \<Rightarrow> int \<Rightarrow> int \<Rightarrow> psys \<Rightarrow> wait_result \<times> psys" where
  "sys_wait4 st w options s = wait4_pass st w options (sys_wait4_enter options s)"

section \<open>Fork\<close>

text \<open>The child of the current process at the new address \<open>c\<close>, before and after it is made visible and runnable.\<close>

definition process_rel_init_child :: "pinfo \<Rightarrow> int \<Rightarrow> pinfo \<Rightarrow> pinfo" where
  "process_rel_init_child parent n child =
     (put_state PROCESS_READY (child\<lparr>pid := n, tgid := n, ppid := pid parent, pgid := pgid parent, user_mode := user_mode parent\<rparr>))
       \<lparr>sched := (sched (put_state PROCESS_READY child))\<lparr>sched_prio := sched_prio (sched parent)\<rparr>\<rparr>"

definition blank_info :: pinfo where
  "blank_info = \<lparr>sched = \<lparr>state = PROCESS_READY, task_state = TASK_SCHED_RUNNABLE, lifecycle = PROCESS_LIFECYCLE_ALIVE, sched_prio = 0\<rparr>,
     pid = 0, tgid = 0, ppid = 0, pgid = 0, user_mode = False, comm = [], signal_pending = 0, signal_mask = 0, signal_ignored = 0,
     signal_mask_saved = 0, signal_mask_saved_valid = False, signal_frame_sp = 0, signal_handlers = (\<lambda>_. 0),
     signal_sa_flags = (\<lambda>_. 0), signal_sa_mask = (\<lambda>_. 0), signal_restorer = (\<lambda>_. 0),
     saved_context = None, signal_enter_pending = False, signal_defer_catchable = False, signal_last_delivered = 0, kernel_syscall_sleep = False,
     kernel_sleep_interrupted = False, coop_resched_resume = False, syscall_frame_fresh = False, syscall_block_nr = 0, syscall_entry_nr = 0,
     syscall_frame = zero_frame, kernel_sleep_syscall_frame = zero_frame, task_regs = zero_regs,
     irq_frame_saved = False, exit_signal = 0, exit_code = 0, wait_blocked = False, wait_target_pid = 0, wait_options = 0, wait_resume_child_pid = 0,
     stack_start = 0, stack_size = 0\<rparr>"

text \<open>Numbers are of type \<^verbatim>\<open>int32_t\<close> and are handed out in sequence, wrapping around.\<close>

definition process_get_next_pid :: "psys \<Rightarrow> int \<times> psys" where
  "process_get_next_pid s = (next_pid s, s\<lparr>next_pid := (next_pid s + 1 + 2147483648) mod 4294967296 - 2147483648\<rparr>)"

definition fork_process_create :: "nat \<Rightarrow> psys \<Rightarrow> psys" where
  "fork_process_create c s =
     (case process_get_next_pid s of
        (n, s1) \<Rightarrow>
          let par = infos s1 (cur s1);
              child = process_signals_clone ((process_rel_init_child par n blank_info)\<lparr>comm := comm par, task_regs := task_regs par,
                stack_start := stack_start par, stack_size := stack_size par\<rparr>) par in
          s1\<lparr>infos := (infos s1)(c := child), open_files := insert c (open_files s1), freed := freed s1 - {c}\<rparr>)"

definition fork_attach_pending_child :: "nat \<Rightarrow> psys \<Rightarrow> psys" where
  "fork_attach_pending_child c s =
     (let s1 = upd c (put_state PROCESS_BLOCKED) (s\<lparr>plist := c # plist s\<rparr>) in s1\<lparr>fork_pending := (fork_pending s1)(cur s := Some c)\<rparr>)"

definition process_fork_wake_pending :: "nat \<Rightarrow> psys \<Rightarrow> psys" where
  "process_fork_wake_pending par s =
     (case fork_pending s par of
        None \<Rightarrow> s
      | Some c \<Rightarrow>
          let s1 = upd c (put_state PROCESS_READY) (s\<lparr>fork_pending := (fork_pending s)(par := None)\<rparr>) in
          s1\<lparr>queued := insert c (queued s1)\<rparr>)"

text \<open>The registers parent and child return with.\<close>

definition fork_prepare_child_return :: "pinfo \<Rightarrow> pinfo \<Rightarrow> pinfo" where
  "fork_prepare_child_return parent child =
     (if user_mode parent then child\<lparr>task_regs := task_apply_syscall_frame (syscall_frame parent) 0\<rparr>
      else child\<lparr>task_regs := (task_regs child)\<lparr>gpr_rax := 0\<rparr>\<rparr>)"

definition fork_prepare_parent_return :: "int \<Rightarrow> pinfo \<Rightarrow> pinfo" where
  "fork_prepare_parent_return n parent =
     (let r = ucast (word_of_int n :: u32) in
      if user_mode parent then parent\<lparr>task_regs := task_apply_syscall_frame (syscall_frame parent) r\<rparr>
      else parent\<lparr>task_regs := (task_regs parent)\<lparr>gpr_rax := r\<rparr>\<rparr>)"

text \<open>
  The call itself, where nothing fails: afterwards the child is on the list, blocked. A call that fails has used up a number and leaves
  nothing else.
\<close>

definition fork :: "nat \<Rightarrow> psys \<Rightarrow> psys" where
  "fork c s =
     (let par = infos s (cur s);
          s1 = fork_process_create c s;
          s2 = (if user_mode par then upd c (fork_prepare_child_return par) s1 else s1);
          s3 = fork_attach_pending_child c s2 in
      if user_mode par then upd (cur s) (fork_prepare_parent_return (pid (infos s3 c))) s3 else s3)"

definition fork_failed :: "psys \<Rightarrow> psys" where
  "fork_failed s = snd (process_get_next_pid s)"

section \<open>The way out of a system call\<close>

text \<open>
  First the signals of the current process are handled: \<open>Inl\<close> when it has ended or stopped there and does not go on, \<open>Inr\<close> otherwise. Only then is the
  child of a \<^verbatim>\<open>fork\<close> woken.
\<close>

definition syscall_signals :: "(nat \<Rightarrow> sigenv) \<Rightarrow> psys \<Rightarrow> psys + psys" where
  "syscall_signals e s =
     (if \<not> user_mode (infos s (cur s)) then Inr s
      else case signals_prepare_user_return e (infos s (cur s)) of
             Exit code (_, q) \<Rightarrow> Inl (process_exit code (upd (cur s) (\<lambda>_. q) s))
           | Stop (_, q) \<Rightarrow> Inl (upd (cur s) (\<lambda>_. q) s)
           | Next (_, q) \<Rightarrow> Inr (upd (cur s) (\<lambda>_. q) s)
           | Return (_, q) \<Rightarrow> Inr (upd (cur s) (\<lambda>_. q) s))"

definition fork_exit :: "psys \<Rightarrow> psys" where
  "fork_exit s =
     process_fork_wake_pending (cur s) (if user_mode (infos s (cur s)) then upd (cur s) process_arm_kernel_syscall_sleep s else s)"

definition fork_return :: "(nat \<Rightarrow> sigenv) \<Rightarrow> psys \<Rightarrow> psys" where
  "fork_return e s = (case syscall_signals e s of Inl t \<Rightarrow> t | Inr t \<Rightarrow> fork_exit t)"

definition fork_call :: "(nat \<Rightarrow> sigenv) \<Rightarrow> nat \<Rightarrow> psys \<Rightarrow> psys" where
  "fork_call e c s = fork_return e (fork c s)"
end
