(* ===== verification/Proc_Run.thy ===== *)
theory Proc_Run
  imports Proc_Tree
begin

text \<open>
  Runs of the process tree: a step is one system call of the current process up to its return or its sleep, a signal sent from
  anywhere, or a switch by the scheduler. \<open>ptree\<close> is the invariant of these runs: the numbers are unique, no freed
  process is on the list, only live processes are queued, zombies hold no files, orphans belong to process 1 or to nobody, and no
  process sleeps in \<^verbatim>\<open>wait4\<close> while a child it waits for has ended.
\<close>

section \<open>Fields after an operation\<close>

lemma upd_simps [simp]:
  "infos (upd a f s) b = (if b = a then f (infos s a) else infos s b)"
  "plist (upd a f s) = plist s" "cur (upd a f s) = cur s" "queued (upd a f s) = queued s" "open_files (upd a f s) = open_files s"
  "freed (upd a f s) = freed s" "next_pid (upd a f s) = next_pid s" "fork_pending (upd a f s) = fork_pending s"
  by (simp_all add: upd_def)

lemma put_state_simps [simp]:
  "pid (put_state st p) = pid p" "ppid (put_state st p) = ppid p" "pgid (put_state st p) = pgid p"
  "wait_blocked (put_state st p) = wait_blocked p" "wait_target_pid (put_state st p) = wait_target_pid p"
  "exit_signal (put_state st p) = exit_signal p" "exit_code (put_state st p) = exit_code p"
  "state (sched (put_state st p)) = (if st = PROCESS_ZOMBIE then state (sched p) else st)"
  by (simp_all add: put_state_def)

lemma mark_zombie_simps [simp]:
  "pid (mark_zombie p) = pid p" "ppid (mark_zombie p) = ppid p" "pgid (mark_zombie p) = pgid p"
  "exit_signal (mark_zombie p) = exit_signal p" "exit_code (mark_zombie p) = exit_code p"
  "state (sched (mark_zombie p)) = PROCESS_ZOMBIE"
  by (simp_all add: mark_zombie_def)

lemma clear_pending_kin [simp]:
  "pid (clear_pending sig p) = pid p" "ppid (clear_pending sig p) = ppid p" "pgid (clear_pending sig p) = pgid p"
  "wait_blocked (clear_pending sig p) = wait_blocked p" "wait_target_pid (clear_pending sig p) = wait_target_pid p"
  "exit_signal (clear_pending sig p) = exit_signal p" "exit_code (clear_pending sig p) = exit_code p"
  "sched (clear_pending sig p) = sched p"
  by (simp_all add: clear_pending_def)

text \<open>
  What a signal or a wake-up leaves alone: everything but the pending set, the number to resume with, the queue, and the state of
  live processes, which may become ready.
\<close>

definition kin :: "pinfo \<Rightarrow> int \<times> int \<times> int \<times> bool \<times> int \<times> nat \<times> int" where
  "kin p = (pid p, ppid p, pgid p, wait_blocked p, wait_target_pid p, exit_signal p, exit_code p)"

lemma kin_fields:
  assumes "kin p = kin q"
  shows "pid p = pid q" "ppid p = ppid q" "pgid p = pgid q" "wait_blocked p = wait_blocked q" "wait_target_pid p = wait_target_pid q"
    "exit_signal p = exit_signal q" "exit_code p = exit_code q"
  using assms by (auto simp: kin_def)

definition roused :: "psys \<Rightarrow> psys \<Rightarrow> bool" where
  "roused s t \<longleftrightarrow> plist t = plist s \<and> cur t = cur s \<and> open_files t = open_files s \<and> freed t = freed s \<and> next_pid t = next_pid s \<and>
     (\<forall>a. kin (infos t a) = kin (infos s a)) \<and>
     (\<forall>a. state (sched (infos t a)) = state (sched (infos s a)) \<or> \<not> zombie s a \<and> state (sched (infos t a)) = PROCESS_READY)"

lemma roused_refl [simp]: "roused s s"
  by (simp add: roused_def)

lemma roused_trans: "roused s t \<Longrightarrow> roused t u \<Longrightarrow> roused s u"
  unfolding roused_def by (metis process_state.distinct)

lemma roused_zombie: "roused s t \<Longrightarrow> zombie t a \<longleftrightarrow> zombie s a"
  unfolding roused_def by (metis process_state.distinct)

lemma post_signal_simps [simp]: "queued (post_signal a sig s) = queued s" "cur (post_signal a sig s) = cur s" "plist (post_signal a sig s) = plist s"
  by (simp_all add: post_signal_def Let_def)

lemma post_signal_roused: "roused s (post_signal a sig s)"
  by (simp add: roused_def post_signal_def kin_def Let_def)

lemma post_signal_ready: "state (sched (infos (post_signal a sig s) a)) \<noteq> PROCESS_BLOCKED"
  by (simp add: post_signal_def Let_def)

lemma send_sigchld_roused: "roused s (send_sigchld n s)"
  by (simp add: send_sigchld_def post_signal_roused split: option.split)

lemma send_sigchld_simps [simp]: "queued (send_sigchld n s) = queued s" "plist (send_sigchld n s) = plist s"
  by (simp_all add: send_sigchld_def split: option.split)

text \<open>\<open>send_sigchld\<close> is \<^verbatim>\<open>send_signal\<close> at \<^verbatim>\<open>SIGCHLD\<close>.\<close>

lemma send_signal_sigchld: "send_signal n (int SIGCHLD) s = Inr (process_find_by_pid n s \<noteq> None, send_sigchld n s)"
  by (simp add: send_signal_def send_sigchld_def process_signal_is_default_fatal_def signal_numbers Let_def split: option.split)

lemma wake_roused:
  "\<not> zombie s a \<Longrightarrow> roused s (process_wait_wake_blocked_parent a c s)"
  by (auto simp: roused_def process_wait_wake_blocked_parent_def kin_def Let_def)

lemma wake_queued: "queued (process_wait_wake_blocked_parent a c s) \<subseteq> insert a (queued s)"
  by (auto simp: process_wait_wake_blocked_parent_def Let_def)

lemma wake_ready:
  "wait_blocked (infos s a) \<Longrightarrow> process_wait_child_matches_blocked_target a (pid (infos s c)) s \<Longrightarrow>
   state (sched (infos (process_wait_wake_blocked_parent a c s) a)) = PROCESS_READY \<and> a \<in> queued (process_wait_wake_blocked_parent a c s)"
  by (simp add: process_wait_wake_blocked_parent_def Let_def)

section \<open>Finding, reaping and reparenting\<close>

definition unique_pids :: "psys \<Rightarrow> bool" where
  "unique_pids s \<longleftrightarrow> distinct (plist s) \<and> inj_on (\<lambda>a. pid (infos s a)) (set (plist s)) \<and> (\<forall>a\<in>set (plist s). 0 < pid (infos s a) \<and> pid (infos s a) < next_pid s)"

lemma find_pid_Some: "process_find_by_pid n s = Some a \<Longrightarrow> a \<in> set (plist s) \<and> pid (infos s a) = n"
  by (auto simp: process_find_by_pid_def find_Some_iff)

lemma find_pid_None: "process_find_by_pid n s = None \<longleftrightarrow> (\<forall>a\<in>set (plist s). pid (infos s a) \<noteq> n)"
  by (auto simp: process_find_by_pid_def find_None_iff)

lemma find_pid:
  assumes "unique_pids s" "a \<in> set (plist s)"
  shows "process_find_by_pid (pid (infos s a)) s = Some a"
proof (cases "process_find_by_pid (pid (infos s a)) s")
  case None
  then show ?thesis using assms(2) by (auto simp: find_pid_None)
next
  case (Some b)
  then show ?thesis using find_pid_Some [OF Some] assms by (auto simp: unique_pids_def inj_on_def)
qed

lemma find_pid_eq:
  "unique_pids s \<Longrightarrow> a \<in> set (plist s) \<Longrightarrow> pid (infos s a) = n \<Longrightarrow> process_find_by_pid n s = Some a"
  using find_pid by blast

text \<open>Reaping all zombies of a process takes exactly them off the list, closes their files and frees them.\<close>

lemma reap_child:
  "c \<in> set (plist s) \<Longrightarrow> process_reap_zombie_child c s = s\<lparr>plist := remove1 c (plist s), open_files := open_files s - {c}, freed := insert c (freed s)\<rparr>"
  by (simp add: process_reap_zombie_child_def process_remove_from_list_def)

abbreviation dead_child :: "psys \<Rightarrow> nat \<Rightarrow> nat \<Rightarrow> bool" where
  "dead_child s a c \<equiv> ppid (infos s c) = pid (infos s a) \<and> zombie s c"

lemma reap_fold:
  assumes "distinct (plist s)" "set xs \<subseteq> set (plist s)" "distinct xs"
  shows "fold (\<lambda>c t. if dead_child t a c then process_reap_zombie_child c t else t) xs s =
           s\<lparr>plist := filter (\<lambda>c. \<not> (c \<in> set xs \<and> dead_child s a c)) (plist s), open_files := open_files s - {c \<in> set xs. dead_child s a c},
              freed := freed s \<union> {c \<in> set xs. dead_child s a c}\<rparr>"
  using assms
proof (induction xs arbitrary: s)
  case Nil
  then show ?case by simp
next
  case (Cons x xs)
  show ?case
  proof (cases "dead_child s a x")
    case False
    have "{c \<in> set xs. dead_child s a c} = {c \<in> set (x # xs). dead_child s a c}" using False by auto
    moreover have "filter (\<lambda>c. \<not> (c \<in> set (x # xs) \<and> dead_child s a c)) (plist s) = filter (\<lambda>c. \<not> (c \<in> set xs \<and> dead_child s a c)) (plist s)"
      using False by (intro filter_cong) auto
    moreover have "fold (\<lambda>c t. if dead_child t a c then process_reap_zombie_child c t else t) xs s =
        s\<lparr>plist := filter (\<lambda>c. \<not> (c \<in> set xs \<and> dead_child s a c)) (plist s), open_files := open_files s - {c \<in> set xs. dead_child s a c},
          freed := freed s \<union> {c \<in> set xs. dead_child s a c}\<rparr>"
      using Cons.prems by (intro Cons.IH) auto
    ultimately show ?thesis using False by (simp only: fold.simps comp_def if_False)
  next
    case True
    let ?t = "s\<lparr>plist := remove1 x (plist s), open_files := open_files s - {x}, freed := insert x (freed s)\<rparr>"
    have t: "process_reap_zombie_child x s = ?t" using Cons.prems by (intro reap_child) simp
    have "set xs \<subseteq> set (remove1 x (plist s))" using Cons.prems by (auto simp: set_remove1_eq)
    then have f: "fold (\<lambda>c t. if dead_child t a c then process_reap_zombie_child c t else t) xs ?t =
        ?t\<lparr>plist := filter (\<lambda>c. \<not> (c \<in> set xs \<and> dead_child ?t a c)) (plist ?t), open_files := open_files ?t - {c \<in> set xs. dead_child ?t a c},
          freed := freed ?t \<union> {c \<in> set xs. dead_child ?t a c}\<rparr>"
      using Cons.prems by (intro Cons.IH) (simp_all add: distinct_remove1)
    have l: "filter (\<lambda>c. \<not> (c \<in> set xs \<and> dead_child s a c)) (remove1 x (plist s)) = filter (\<lambda>c. \<not> (c \<in> set (x # xs) \<and> dead_child s a c)) (plist s)"
      using Cons.prems True by (auto simp: distinct_remove1_removeAll removeAll_filter_not_eq intro!: filter_cong)
    have o: "open_files s - {x} - {c \<in> set xs. dead_child s a c} = open_files s - {c \<in> set (x # xs). dead_child s a c}" using True by auto
    have g: "insert x (freed s) \<union> {c \<in> set xs. dead_child s a c} = freed s \<union> {c \<in> set (x # xs). dead_child s a c}" using True by auto
    show ?thesis using True f l o g by (simp add: t)
  qed
qed

lemma reap_zombies_eq:
  "distinct (plist s) \<Longrightarrow>
   process_reap_zombies a s = s\<lparr>plist := filter (\<lambda>c. \<not> dead_child s a c) (plist s), open_files := open_files s - {c \<in> set (plist s). dead_child s a c},
     freed := freed s \<union> {c \<in> set (plist s). dead_child s a c}\<rparr>"
  unfolding process_reap_zombies_def by (subst reap_fold) (simp_all cong: filter_cong)

text \<open>Reparenting changes only the parents of the children on the list, to process 1 or to nobody.\<close>

lemma reparent_simps [simp]:
  "plist (process_reparent_children d s) = plist s" "cur (process_reparent_children d s) = cur s" "queued (process_reparent_children d s) = queued s"
  "open_files (process_reparent_children d s) = open_files s" "freed (process_reparent_children d s) = freed s"
  "next_pid (process_reparent_children d s) = next_pid s"
  by (simp_all add: process_reparent_children_def Let_def split: option.split)

lemma reparent_info:
  "\<exists>n. infos (process_reparent_children d s) c = (infos s c)\<lparr>ppid := n\<rparr> \<and>
     (n = ppid (infos s c) \<or> c \<in> set (plist s) \<and> ppid (infos s c) = pid (infos s d) \<and> (n = 0 \<or> n = 1))"
  by (auto simp: process_reparent_children_def Let_def split: option.split intro: exI [of _ "ppid (infos s c)"])

lemma reparent_child:
  assumes "c \<in> set (plist s)" "c \<noteq> d" "ppid (infos s c) = pid (infos s d)"
  shows "ppid (infos (process_reparent_children d s) c) = 0 \<or> ppid (infos (process_reparent_children d s) c) = 1"
  using assms by (auto simp: process_reparent_children_def Let_def list_ex_iff split: option.split)

lemma reparent_leaves:
  assumes "unique_pids s" "d \<in> set (plist s)" "c \<in> set (plist s)" "c \<noteq> d"
  shows "ppid (infos (process_reparent_children d s) c) \<noteq> pid (infos s d)"
proof (cases "ppid (infos s c) = pid (infos s d)")
  case False
  then have "infos (process_reparent_children d s) c = infos s c" using reparent_info [of d s c] by auto
  then show ?thesis using False by simp
next
  case True
  have pos: "0 < pid (infos s d)" using assms by (auto simp: unique_pids_def)
  have kids: "list_ex (\<lambda>c. ppid (infos s c) = pid (infos s d) \<and> c \<noteq> d) (plist s)" using True assms by (auto simp: list_ex_iff)
  show ?thesis
  proof (cases "pid (infos s d) = 1")
    case True
    then have "process_find_by_pid 1 s = Some d" using find_pid_eq assms by blast
    then show ?thesis using True kids assms \<open>ppid (infos s c) = _\<close> by (simp add: process_reparent_children_def Let_def)
  next
    case False
    then show ?thesis using reparent_child [of c s d] pos True assms by auto
  qed
qed

section \<open>The invariant\<close>

definition owned :: "psys \<Rightarrow> nat \<Rightarrow> bool" where
  "owned s a \<longleftrightarrow> ppid (infos s a) = 0 \<or> ppid (infos s a) = 1 \<or>
     (\<exists>b\<in>set (plist s). b \<noteq> a \<and> pid (infos s b) = ppid (infos s a) \<and> \<not> zombie s b)"

text \<open>Process \<open>a\<close> sleeps in \<^verbatim>\<open>wait4\<close> for a child \<open>c\<close> that has ended.\<close>

definition misses :: "psys \<Rightarrow> nat \<Rightarrow> nat \<Rightarrow> bool" where
  "misses s a c \<longleftrightarrow> state (sched (infos s a)) = PROCESS_BLOCKED \<and> wait_blocked (infos s a) \<and> dead_child s a c \<and>
     process_wait_pid_matches_child (wait_target_pid (infos s a)) (infos s a) (infos s c)"

text \<open>The invariant while the processes of \<open>X\<close> are being buried: they may still be queued and may not have been announced to their parents.\<close>

definition tree :: "nat set \<Rightarrow> psys \<Rightarrow> bool" where
  "tree X s \<longleftrightarrow> unique_pids s \<and> cur s \<in> set (plist s) \<and> set (plist s) \<inter> freed s = {} \<and>
     (\<forall>a\<in>queued s. a \<in> X \<or> a \<in> set (plist s) \<and> \<not> zombie s a) \<and>
     (\<forall>a\<in>set (plist s). zombie s a \<longrightarrow> a \<notin> open_files s) \<and>
     (\<forall>a\<in>set (plist s). owned s a) \<and>
     (\<forall>a\<in>set (plist s). \<forall>c\<in>set (plist s). c \<notin> X \<longrightarrow> \<not> misses s a c)"

definition ptree :: "psys \<Rightarrow> bool" where
  "ptree s \<longleftrightarrow> tree {} s"

lemma matches_kin:
  "kin p' = kin p \<Longrightarrow> kin c' = kin c \<Longrightarrow> process_wait_pid_matches_child w p' c' = process_wait_pid_matches_child w p c"
  by (auto simp: process_wait_pid_matches_child_def kin_def)

lemma matches_ppid [simp]:
  "process_wait_pid_matches_child w (p\<lparr>ppid := n\<rparr>) (c\<lparr>ppid := k\<rparr>) = process_wait_pid_matches_child w p c"
  by (simp add: process_wait_pid_matches_child_def)

lemma roused_misses: "roused s t \<Longrightarrow> misses t a c \<Longrightarrow> misses s a c"
proof -
  assume r: "roused s t" and m: "misses t a c"
  have k: "kin (infos t a) = kin (infos s a)" "kin (infos t c) = kin (infos s c)" using r by (auto simp: roused_def)
  have "state (sched (infos s a)) = PROCESS_BLOCKED" using r m unfolding roused_def misses_def by (metis process_state.distinct(3))
  then show ?thesis
    using m k kin_fields [OF k(1)] kin_fields [OF k(2)] roused_zombie [OF r] matches_kin [OF k] by (simp add: misses_def)
qed

lemma roused_owned: "roused s t \<Longrightarrow> owned t a = owned s a"
proof -
  assume r: "roused s t"
  then have "\<And>b. pid (infos t b) = pid (infos s b) \<and> ppid (infos t b) = ppid (infos s b)" by (auto simp: roused_def kin_def)
  then show ?thesis using r roused_zombie [OF r] by (simp add: owned_def roused_def)
qed

lemma unique_pids_cong:
  "plist t = plist s \<Longrightarrow> next_pid t = next_pid s \<Longrightarrow> (\<And>a. pid (infos t a) = pid (infos s a)) \<Longrightarrow> unique_pids t = unique_pids s"
  by (simp add: unique_pids_def)

lemma roused_unique: "roused s t \<Longrightarrow> unique_pids t = unique_pids s"
  by (auto simp: roused_def unique_pids_def kin_def inj_on_def)

lemma tree_roused:
  assumes "tree X s" "roused s t" "\<And>a. a \<in> queued t \<Longrightarrow> a \<in> queued s \<or> a \<in> set (plist s) \<and> \<not> zombie s a"
  shows "tree X t"
proof -
  have same: "plist t = plist s" "cur t = cur s" "open_files t = open_files s" "freed t = freed s" using assms(2) by (auto simp: roused_def)
  show ?thesis unfolding tree_def same roused_unique [OF assms(2)] roused_owned [OF assms(2)] roused_zombie [OF assms(2)]
    using assms(1,3) roused_misses [OF assms(2)] unfolding tree_def by meson
qed

lemma queue_frame [simp]:
  "misses (s\<lparr>queued := q\<rparr>) a c = misses s a c" "owned (s\<lparr>queued := q\<rparr>) a = owned s a" "unique_pids (s\<lparr>queued := q\<rparr>) = unique_pids s"
  by (simp_all add: misses_def owned_def unique_pids_def)

lemma cur_frame [simp]:
  "misses (s\<lparr>cur := n\<rparr>) a c = misses s a c" "owned (s\<lparr>cur := n\<rparr>) a = owned s a" "unique_pids (s\<lparr>cur := n\<rparr>) = unique_pids s"
  by (simp_all add: misses_def owned_def unique_pids_def)

lemma tree_cur: "tree X s \<Longrightarrow> n \<in> set (plist s) \<Longrightarrow> tree X (s\<lparr>cur := n\<rparr>)"
  by (simp add: tree_def)

text \<open>Once nobody misses the buried process, it is off the queue and the invariant is whole again.\<close>

lemma tree_settle:
  assumes "tree {d} s" "\<And>a. a \<in> set (plist s) \<Longrightarrow> \<not> misses s a d"
  shows "tree {} (s\<lparr>queued := queued s - {d}\<rparr>)"
proof -
  have "\<not> misses s a c" if "a \<in> set (plist s)" "c \<in> set (plist s)" for a c
    using assms that by (cases "c = d") (simp_all add: tree_def)
  then show ?thesis using assms(1) by (auto simp: tree_def)
qed

lemma tree_enqueue:
  "tree X s \<Longrightarrow> a \<in> set (plist s) \<Longrightarrow> \<not> zombie s a \<Longrightarrow> tree X (s\<lparr>queued := insert a (queued s)\<rparr>)"
  by (auto simp: tree_def)

section \<open>Burying\<close>

text \<open>What exit and a fatal signal have in common: reaping, reparenting, closing, and becoming a zombie.\<close>

definition bury :: "nat \<Rightarrow> (pinfo \<Rightarrow> pinfo) \<Rightarrow> psys \<Rightarrow> psys" where
  "bury d g s =
     (let s2 = process_reparent_children d (process_reap_zombies d s) in upd d g (s2\<lparr>open_files := open_files s2 - {d}\<rparr>))"

definition burial :: "(pinfo \<Rightarrow> pinfo) \<Rightarrow> bool" where
  "burial g \<longleftrightarrow> (\<forall>p. pid (g p) = pid p \<and> ppid (g p) = ppid p \<and> pgid (g p) = pgid p \<and> state (sched (g p)) = PROCESS_ZOMBIE)"

lemma bury_facts:
  assumes "tree {} s" "d \<in> set (plist s)" "\<not> zombie s d" "burial g"
  shows "plist (bury d g s) = filter (\<lambda>c. \<not> dead_child s d c) (plist s)" "cur (bury d g s) = cur s" "queued (bury d g s) = queued s"
    "open_files (bury d g s) = open_files s - {c \<in> set (plist s). dead_child s d c} - {d}"
    "freed (bury d g s) = freed s \<union> {c \<in> set (plist s). dead_child s d c}" "next_pid (bury d g s) = next_pid s"
    "pid (infos (bury d g s) a) = pid (infos s a)" "pgid (infos (bury d g s) a) = pgid (infos s a)"
    "zombie (bury d g s) a \<longleftrightarrow> a = d \<or> zombie s a"
    "a \<noteq> d \<Longrightarrow> \<exists>n. infos (bury d g s) a = (infos s a)\<lparr>ppid := n\<rparr>"
proof -
  have dist: "distinct (plist s)" using assms(1) by (auto simp: tree_def unique_pids_def)
  note [simp] = bury_def Let_def reap_zombies_eq [OF dist]
  show "plist (bury d g s) = filter (\<lambda>c. \<not> dead_child s d c) (plist s)" "cur (bury d g s) = cur s" "queued (bury d g s) = queued s"
    "open_files (bury d g s) = open_files s - {c \<in> set (plist s). dead_child s d c} - {d}"
    "freed (bury d g s) = freed s \<union> {c \<in> set (plist s). dead_child s d c}" "next_pid (bury d g s) = next_pid s"
    by simp_all
  let ?r = "process_reap_zombies d s"
  obtain n where n: "infos (process_reparent_children d ?r) a = (infos ?r a)\<lparr>ppid := n\<rparr>" using reparent_info by blast
  have i: "infos ?r = infos s" by simp
  note b = n [unfolded i]
  have u: "infos (bury d g s) a = (if a = d then g (infos (process_reparent_children d ?r) d) else infos (process_reparent_children d ?r) a)"
    by (simp add: bury_def del: reap_zombies_eq [OF dist])
  show "pid (infos (bury d g s) a) = pid (infos s a)" "pgid (infos (bury d g s) a) = pgid (infos s a)"
    "zombie (bury d g s) a \<longleftrightarrow> a = d \<or> zombie s a" "a \<noteq> d \<Longrightarrow> \<exists>n. infos (bury d g s) a = (infos s a)\<lparr>ppid := n\<rparr>"
    using assms(4) b unfolding u burial_def by (auto split: if_splits)
qed

lemma bury_ppid:
  assumes "tree {} s" "d \<in> set (plist s)" "\<not> zombie s d" "burial g"
  shows "ppid (infos (bury d g s) c) = ppid (infos s c) \<or>
           ppid (infos s c) = pid (infos s d) \<and> (ppid (infos (bury d g s) c) = 0 \<or> ppid (infos (bury d g s) c) = 1)"
    "c \<in> set (plist (bury d g s)) \<Longrightarrow> c \<noteq> d \<Longrightarrow> ppid (infos (bury d g s) c) \<noteq> pid (infos s d)"
proof -
  let ?r = "process_reap_zombies d s"
  have u: "unique_pids s" using assms(1) by (auto simp: tree_def)
  then have r: "infos ?r = infos s" "plist ?r = filter (\<lambda>c. \<not> dead_child s d c) (plist s)" "next_pid ?r = next_pid s"
    by (simp_all add: reap_zombies_eq unique_pids_def)
  have ur: "unique_pids ?r" using u unfolding unique_pids_def r by (auto simp: inj_on_def)
  have d: "d \<in> set (plist ?r)" using assms by (simp add: r)
  have p: "ppid (infos (bury d g s) c) = ppid (infos (process_reparent_children d ?r) c)"
    using assms(4) by (simp add: bury_def Let_def burial_def)
  show "ppid (infos (bury d g s) c) = ppid (infos s c) \<or>
          ppid (infos s c) = pid (infos s d) \<and> (ppid (infos (bury d g s) c) = 0 \<or> ppid (infos (bury d g s) c) = 1)"
    using reparent_info [of d ?r c] unfolding p r by auto
  show "c \<in> set (plist (bury d g s)) \<Longrightarrow> c \<noteq> d \<Longrightarrow> ppid (infos (bury d g s) c) \<noteq> pid (infos s d)"
    using reparent_leaves [OF ur d] unfolding p bury_facts(1) [OF assms] r by blast
qed

lemma bury_owned:
  assumes "tree {} s" "d \<in> set (plist s)" "\<not> zombie s d" "burial g" "c \<in> set (plist (bury d g s))"
  shows "owned (bury d g s) c"
proof -
  note f = bury_facts [OF assms(1-4)]
  have c: "owned s c" using assms(1,5) by (simp add: f(1) tree_def)
  have pc: "ppid (infos (bury d g s) c) = ppid (infos s c) \<or> ppid (infos (bury d g s) c) = 0 \<or> ppid (infos (bury d g s) c) = 1"
    using bury_ppid(1) [OF assms(1-4)] by blast
  show ?thesis
  proof (cases "ppid (infos (bury d g s) c) = 0 \<or> ppid (infos (bury d g s) c) = 1")
    case True
    then show ?thesis by (auto simp: owned_def)
  next
    case False
    then obtain b where b: "b \<in> set (plist s)" "b \<noteq> c" "pid (infos s b) = ppid (infos s c)" "\<not> zombie s b"
      using c pc by (auto simp: owned_def)
    have "b \<noteq> d" using b bury_ppid(2) [OF assms] False pc by auto
    moreover have "b \<in> set (plist (bury d g s))" using b by (simp add: f(1))
    ultimately show ?thesis using b False pc f(7,9) unfolding owned_def by metis
  qed
qed

lemma bury_misses:
  assumes "tree {} s" "d \<in> set (plist s)" "\<not> zombie s d" "burial g" "a \<in> set (plist (bury d g s))" "c \<in> set (plist (bury d g s))" "c \<noteq> d"
  shows "\<not> misses (bury d g s) a c"
proof
  note f = bury_facts [OF assms(1-4)]
  assume m: "misses (bury d g s) a c"
  then have "a \<noteq> d" using f(9) [of a] by (auto simp: misses_def)
  obtain n k where i: "infos (bury d g s) a = (infos s a)\<lparr>ppid := n\<rparr>" "infos (bury d g s) c = (infos s c)\<lparr>ppid := k\<rparr>"
    using f(10) \<open>a \<noteq> d\<close> assms(7) by meson
  have "zombie s c" "k = pid (infos s a)" using m by (auto simp: misses_def i)
  moreover have "k = ppid (infos s c)"
    using bury_ppid(1) [OF assms(1-4), of c] assms(6) \<open>zombie s c\<close> by (auto simp: i f(1))
  ultimately have "misses s a c" using m by (simp add: misses_def i)
  then show False using assms(1,5,6) by (auto simp: tree_def f(1))
qed

lemma bury_tree:
  assumes "tree {} s" "d \<in> set (plist s)" "\<not> zombie s d" "burial g" "\<not> zombie s (cur s)"
  shows "tree {d} (bury d g s)"
proof -
  note f = bury_facts [OF assms(1-4)]
  have s: "unique_pids s" "set (plist s) \<inter> freed s = {}" "cur s \<in> set (plist s)" "\<forall>a\<in>queued s. a \<in> set (plist s) \<and> \<not> zombie s a"
    "\<forall>a\<in>set (plist s). zombie s a \<longrightarrow> a \<notin> open_files s" using assms(1) by (auto simp: tree_def)
  have "unique_pids (bury d g s)" using s(1) unfolding unique_pids_def f by (auto simp: inj_on_def)
  moreover have "set (plist (bury d g s)) \<inter> freed (bury d g s) = {}" using s(2) unfolding f by auto
  moreover have "cur (bury d g s) \<in> set (plist (bury d g s))" using s(3) assms(5) unfolding f by auto
  moreover have "\<forall>a\<in>queued (bury d g s). a \<in> {d} \<or> a \<in> set (plist (bury d g s)) \<and> \<not> zombie (bury d g s) a" using s(4) unfolding f by auto
  moreover have "\<forall>a\<in>set (plist (bury d g s)). zombie (bury d g s) a \<longrightarrow> a \<notin> open_files (bury d g s)" using s(5) unfolding f by auto
  ultimately show ?thesis
    using bury_owned [OF assms(1-4)] bury_misses [OF assms(1-4)] unfolding tree_def by simp
qed

section \<open>Announcing\<close>

lemma wake_misses:
  assumes "unique_pids s" "c \<in> set (plist s)" "\<not> zombie s a"
  shows "\<not> misses (process_wait_wake_blocked_parent a c s) a c"
proof
  assume m: "misses (process_wait_wake_blocked_parent a c s) a c"
  then have "misses s a c" using roused_misses wake_roused assms(3) by blast
  then have "process_wait_child_matches_blocked_target a (pid (infos s c)) s" "wait_blocked (infos s a)"
    using assms(1,2) find_pid [OF assms(1,2)]
    by (auto simp: misses_def process_wait_child_matches_blocked_target_def unique_pids_def not_le)
  then show False using wake_ready m by (simp add: misses_def)
qed

lemma notify_roused: "\<not> zombie s a \<Longrightarrow> roused s (notify_parent a c s)"
  unfolding notify_parent_def Let_def
  using send_sigchld_roused roused_trans wake_roused roused_zombie by (simp, metis)

lemma notify_queued: "queued (notify_parent a c s) \<subseteq> insert a (queued s)"
  using wake_queued [of a c "send_sigchld (pid (infos s a)) s"] by (auto simp: notify_parent_def Let_def)

lemma notify_misses:
  assumes "unique_pids s" "c \<in> set (plist s)" "\<not> zombie s a"
  shows "\<not> misses (notify_parent a c s) a c"
proof -
  let ?t = "send_sigchld (pid (infos s a)) s"
  have "unique_pids ?t" "c \<in> set (plist ?t)" "\<not> zombie ?t a"
    using assms roused_unique [OF send_sigchld_roused] roused_zombie [OF send_sigchld_roused] by simp_all
  then show ?thesis using wake_misses by (auto simp: notify_parent_def Let_def misses_def)
qed

lemma misses_parent: "unique_pids s \<Longrightarrow> misses s a c \<Longrightarrow> a \<in> set (plist s) \<Longrightarrow> b \<in> set (plist s) \<Longrightarrow> pid (infos s b) = ppid (infos s c) \<Longrightarrow> a = b"
  by (auto simp: misses_def unique_pids_def inj_on_def)

text \<open>A step \<open>u\<close> that wakes the parent \<open>b\<close> completes the burial.\<close>

lemma announced:
  assumes "tree {d} t" "b \<in> set (plist t)" "ppid (infos t d) = pid (infos t b)" "roused t u" "\<not> misses u b d"
    "queued u \<subseteq> insert b (queued t)" "\<not> zombie t b \<or> queued u \<subseteq> queued t"
  shows "tree {} (u\<lparr>queued := queued u - {d}\<rparr>)"
proof (rule tree_settle)
  show u: "tree {d} u" using assms by (intro tree_roused [OF assms(1,4)]) auto
  fix a assume a: "a \<in> set (plist u)"
  have "pid (infos u b) = ppid (infos u d)" "b \<in> set (plist u)" using assms(2,3,4) by (auto simp: roused_def kin_def)
  then show "\<not> misses u a d" using misses_parent [of u a d b] u a assms(5) by (auto simp: tree_def)
qed

lemma notify_tree:
  assumes "tree {d} t" "d \<in> set (plist t)" "b \<in> set (plist t)" "ppid (infos t d) = pid (infos t b)" "\<not> zombie t b"
  shows "tree {} ((notify_parent b d t)\<lparr>queued := queued (notify_parent b d t) - {d}\<rparr>)"
  using assms notify_roused notify_queued notify_misses by (intro announced [OF assms(1,3,4)]) (auto simp: tree_def)

text \<open>Nobody is told when there is no parent.\<close>

lemma unannounced:
  assumes "tree {d} t" "\<And>a. a \<in> set (plist t) \<Longrightarrow> pid (infos t a) = ppid (infos t d) \<Longrightarrow> state (sched (infos t a)) \<noteq> PROCESS_BLOCKED"
  shows "tree {} (t\<lparr>queued := queued t - {d}\<rparr>)"
  using assms by (intro tree_settle) (auto simp: misses_def)

section \<open>Exit and fatal signals\<close>

definition exit_mark :: "int \<Rightarrow> pinfo \<Rightarrow> pinfo" where
  "exit_mark code p = (mark_zombie p)\<lparr>exit_code := (if exit_signal p = 0 then code else 0)\<rparr>"

definition exit_flags :: "pinfo \<Rightarrow> pinfo" where
  "exit_flags p = p\<lparr>irq_frame_saved := False, signal_defer_catchable := False, signal_last_delivered := 0, kernel_sleep_interrupted := False,
     kernel_sleep_syscall_frame := zero_frame\<rparr>"

text \<open>Telling process 1 of an orphan.\<close>

definition tell_init :: "nat \<Rightarrow> psys \<Rightarrow> psys" where
  "tell_init d s =
     (let t = upd d (\<lambda>p. p\<lparr>ppid := 1\<rparr>) s in
      case process_find_by_pid 1 t of None \<Rightarrow> t
      | Some i \<Rightarrow> (let t1 = send_sigchld (pid (infos t i)) t in
          if state (sched (infos t1 i)) = PROCESS_BLOCKED then process_wait_wake_blocked_parent i d t1 else t1))"

definition exit_notify :: "nat \<Rightarrow> psys \<Rightarrow> psys" where
  "exit_notify d s =
     (if ppid (infos s d) > 0 then
        case process_find_by_pid (ppid (infos s d)) s of
          Some par \<Rightarrow> if \<not> zombie s par then notify_parent par d s else tell_init d s
        | None \<Rightarrow> tell_init d s
      else s)"

lemma process_exit_eq:
  "process_exit code s =
     (let s5 = exit_notify (cur s) (bury (cur s) (exit_mark code) (upd (cur s) exit_flags s)); s6 = s5\<lparr>queued := queued s5 - {cur s}\<rparr> in
      case find (\<lambda>a. \<not> user_mode (infos s6 a) \<and> \<not> zombie s6 a \<and> comm (infos s6 a) = ''idle'') (plist s6) of
        None \<Rightarrow> s6
      | Some i \<Rightarrow> s6\<lparr>queued := insert i (queued s6)\<rparr>)"
  by (simp only: process_exit_def exit_notify_def bury_def exit_mark_def [abs_def] exit_flags_def [abs_def] tell_init_def Let_def)

lemma tree_to_init:
  assumes "tree {d} t" "zombie t d"
  shows "tree {d} (upd d (\<lambda>p. p\<lparr>ppid := 1\<rparr>) t)"
proof -
  let ?u = "upd d (\<lambda>p. p\<lparr>ppid := 1\<rparr>) t"
  have "unique_pids ?u" using assms(1) by (subst unique_pids_cong [of _ t]) (simp_all add: tree_def)
  moreover have "owned ?u a" if "owned t a" for a using that by (auto simp: owned_def)
  moreover have "misses t a c" if "misses ?u a c" "c \<noteq> d" for a c using that assms(2) by (auto simp: misses_def split: if_splits)
  moreover have "zombie ?u a \<longleftrightarrow> zombie t a" for a by simp
  ultimately show ?thesis using assms(1) unfolding tree_def upd_simps(2-8) by (simp del: upd_simps(1)) blast
qed

lemma tell_init_settles:
  assumes "tree {d} s" "d \<in> set (plist s)" "zombie s d"
  shows "tree {} ((tell_init d s)\<lparr>queued := queued (tell_init d s) - {d}\<rparr>)"
proof -
  let ?t = "upd d (\<lambda>p. p\<lparr>ppid := 1\<rparr>) s"
  have t: "tree {d} ?t" "d \<in> set (plist ?t)" using assms tree_to_init by auto
  have u: "unique_pids ?t" using t(1) by (simp add: tree_def)
  show ?thesis
  proof (cases "process_find_by_pid 1 ?t")
    case None
    then have "tell_init d s = ?t" by (simp only: tell_init_def Let_def option.case)
    moreover have "tree {} (?t\<lparr>queued := queued ?t - {d}\<rparr>)" using None by (intro unannounced [OF t(1)]) (simp add: find_pid_None)
    ultimately show ?thesis by simp
  next
    case (Some i)
    let ?v = "send_sigchld (pid (infos ?t i)) ?t"
    let ?w = "if state (sched (infos ?v i)) = PROCESS_BLOCKED then process_wait_wake_blocked_parent i d ?v else ?v"
    have i: "i \<in> set (plist ?t)" "ppid (infos ?t d) = pid (infos ?t i)" using find_pid_Some [OF Some] by auto
    have v: "roused ?t ?v" by (rule send_sigchld_roused)
    have w: "roused ?t ?w" using roused_trans [OF v wake_roused] v by simp
    have m: "\<not> misses ?w i d"
    proof (cases "state (sched (infos ?v i)) = PROCESS_BLOCKED")
      case True
      then show ?thesis using wake_misses [of ?v d i] roused_unique [OF v] u assms(2) by simp
    qed (simp add: misses_def)
    have q: "queued ?w \<subseteq> insert i (queued ?t)" using wake_queued [of i d ?v] by auto
    have z: "\<not> zombie ?t i \<or> queued ?w \<subseteq> queued ?t" using roused_zombie [OF v, of i] by (cases "zombie ?t i") simp_all
    have "tell_init d s = ?w" using Some by (simp only: tell_init_def Let_def option.case)
    then show ?thesis using announced [OF t(1) i w m q z] by simp
  qed
qed

lemma exit_notify_settles:
  assumes "tree {d} s" "d \<in> set (plist s)" "zombie s d"
  shows "tree {} ((exit_notify d s)\<lparr>queued := queued (exit_notify d s) - {d}\<rparr>)"
proof (cases "ppid (infos s d) > 0")
  case False
  then have "tree {} (s\<lparr>queued := queued s - {d}\<rparr>)" using assms(1) by (intro unannounced) (auto simp: tree_def unique_pids_def)
  then show ?thesis using False by (simp add: exit_notify_def)
next
  case True
  then show ?thesis using tell_init_settles [OF assms] notify_tree [OF assms(1,2)] find_pid_Some
    by (cases "process_find_by_pid (ppid (infos s d)) s") (auto simp: exit_notify_def)
qed

lemma burial_exit: "burial (exit_mark code)"
  by (simp add: burial_def exit_mark_def)

lemma quiet_roused: "kin (f (infos s a)) = kin (infos s a) \<Longrightarrow> sched (f (infos s a)) = sched (infos s a) \<Longrightarrow> roused s (upd a f s)"
  by (simp add: roused_def)

lemma tree_quiet: "tree X s \<Longrightarrow> roused s t \<Longrightarrow> queued t = queued s \<Longrightarrow> tree X t"
  using tree_roused by metis

lemma idle_tree:
  assumes "tree {} s"
  shows "tree {} (case find (\<lambda>a. \<not> user_mode (infos s a) \<and> \<not> zombie s a \<and> comm (infos s a) = ''idle'') (plist s) of
            None \<Rightarrow> s | Some i \<Rightarrow> s\<lparr>queued := insert i (queued s)\<rparr>)"
  using assms by (auto simp: find_Some_iff intro!: tree_enqueue split: option.split)

lemma exit_tree:
  assumes "tree {} s" "\<not> zombie s (cur s)"
  shows "tree {} (process_exit code s)"
proof -
  let ?s1 = "upd (cur s) exit_flags s" and ?d = "cur s"
  have d: "?d \<in> set (plist ?s1)" "\<not> zombie ?s1 ?d" using assms by (auto simp: tree_def exit_flags_def)
  have t1: "tree {} ?s1" using assms(1) by (rule tree_quiet) (simp_all add: quiet_roused exit_flags_def kin_def)
  have t2: "tree {?d} (bury ?d (exit_mark code) ?s1)" using bury_tree [OF t1 d burial_exit] d(2) by (simp del: upd_simps(1))
  have "tree {} ((exit_notify ?d (bury ?d (exit_mark code) ?s1))\<lparr>queued := queued (exit_notify ?d (bury ?d (exit_mark code) ?s1)) - {?d}\<rparr>)"
    using bury_facts(1,9) [OF t1 d burial_exit] d by (intro exit_notify_settles [OF t2]) (simp_all del: upd_simps(1))
  then show ?thesis unfolding process_exit_eq Let_def by (rule idle_tree)
qed

text \<open>A process killed by another, in the same terms.\<close>

definition kill_mark :: "nat \<Rightarrow> pinfo \<Rightarrow> pinfo" where
  "kill_mark sig p = mark_zombie ((clear_pending sig p)\<lparr>exit_signal := sig, exit_code := 0\<rparr>)"

definition kill_notify :: "nat \<Rightarrow> psys \<Rightarrow> psys" where
  "kill_notify d s =
     (if ppid (infos s d) > 0 then
        case process_find_by_pid (ppid (infos s d)) s of None \<Rightarrow> s | Some par \<Rightarrow> if zombie s par then s else notify_parent par d s
      else s)"

definition buried :: "nat \<Rightarrow> nat \<Rightarrow> psys \<Rightarrow> psys" where
  "buried d sig s = (let t = bury d (kill_mark sig) (upd d (\<lambda>p. p\<lparr>irq_frame_saved := False\<rparr>) s) in t\<lparr>queued := queued t - {d}\<rparr>)"

lemma kill_other_eq:
  "\<not> zombie s d \<Longrightarrow> process_signal_is_default_fatal (infos s d) sig \<Longrightarrow> d \<noteq> cur s \<Longrightarrow>
   process_signal_default_kill d sig s = Inr (True, kill_notify d (buried d sig s))"
  by (simp only: process_signal_default_kill_def kill_notify_def buried_def bury_def kill_mark_def [abs_def] Let_def if_False if_True not_True_eq_False refl)

lemma burial_kill: "burial (kill_mark sig)"
  by (simp add: burial_def kill_mark_def)

lemma buried_tree:
  assumes "tree {} s" "\<not> zombie s (cur s)" "d \<in> set (plist s)" "\<not> zombie s d"
  shows "tree {d} (buried d sig s)" "d \<in> set (plist (buried d sig s))" "zombie (buried d sig s) d" "d \<notin> queued (buried d sig s)"
proof -
  let ?s1 = "upd d (\<lambda>p. p\<lparr>irq_frame_saved := False\<rparr>) s"
  have d: "d \<in> set (plist ?s1)" "\<not> zombie ?s1 d" "\<not> zombie ?s1 (cur ?s1)" using assms by auto
  have t1: "tree {} ?s1" using assms(1) by (rule tree_quiet) (simp_all add: quiet_roused kin_def)
  have "tree {d} (bury d (kill_mark sig) ?s1)" using bury_tree [OF t1 d(1,2) burial_kill d(3)] .
  then show "tree {d} (buried d sig s)" by (auto simp: buried_def tree_def Let_def)
  show "d \<in> set (plist (buried d sig s))" "zombie (buried d sig s) d" "d \<notin> queued (buried d sig s)"
    using bury_facts(1,9) [OF t1 d(1,2) burial_kill] d by (simp_all add: buried_def Let_def del: upd_simps(1))
qed

lemma kill_notify_roused: "roused s (kill_notify d s)"
  by (simp add: kill_notify_def notify_roused split: option.split)

lemma kill_notify_queued: "zombie s d \<Longrightarrow> d \<notin> queued s \<Longrightarrow> d \<notin> queued (kill_notify d s)"
  by (auto simp: kill_notify_def split: option.split dest!: subsetD [OF notify_queued])

lemma kill_notify_settles:
  assumes "tree {d} s" "d \<in> set (plist s)" "zombie s d" "d \<notin> queued s"
  shows "tree {} (kill_notify d s)"
proof -
  have "tree {} ((kill_notify d s)\<lparr>queued := queued (kill_notify d s) - {d}\<rparr>)"
  proof (cases "\<exists>b. process_find_by_pid (ppid (infos s d)) s = Some b \<and> 0 < ppid (infos s d) \<and> \<not> zombie s b")
    case True
    then show ?thesis using notify_tree [OF assms(1,2)] find_pid_Some by (fastforce simp: kill_notify_def)
  next
    case False
    have "tree {} (s\<lparr>queued := queued s - {d}\<rparr>)"
    proof (rule unannounced [OF assms(1)])
      fix a assume a: "a \<in> set (plist s)" "pid (infos s a) = ppid (infos s d)"
      then have "process_find_by_pid (ppid (infos s d)) s = Some a" "0 < ppid (infos s d)"
        using assms(1) find_pid_eq by (auto simp: tree_def unique_pids_def)
      then show "state (sched (infos s a)) \<noteq> PROCESS_BLOCKED" using False by auto
    qed
    moreover have "kill_notify d s = s" using False by (auto simp: kill_notify_def split: option.split)
    ultimately show ?thesis by simp
  qed
  then show ?thesis using kill_notify_queued [OF assms(3,4)] by simp
qed

text \<open>Updates of other fields of one process.\<close>

definition kin_state :: "pinfo \<Rightarrow> int \<times> int \<times> int \<times> bool \<times> int \<times> process_state" where
  "kin_state p = (pid p, ppid p, pgid p, wait_blocked p, wait_target_pid p, state (sched p))"

lemma tree_kin_state:
  assumes "tree X s" "kin_state (f (infos s a)) = kin_state (infos s a)"
  shows "tree X (upd a f s)"
proof -
  have e: "kin_state (infos (upd a f s) b) = kin_state (infos s b)" for b using assms(2) by simp
  have fs: "pid (infos (upd a f s) b) = pid (infos s b)" "ppid (infos (upd a f s) b) = ppid (infos s b)"
    "pgid (infos (upd a f s) b) = pgid (infos s b)" "wait_blocked (infos (upd a f s) b) = wait_blocked (infos s b)"
    "wait_target_pid (infos (upd a f s) b) = wait_target_pid (infos s b)" "state (sched (infos (upd a f s) b)) = state (sched (infos s b))" for b
    using e [of b] by (simp_all add: kin_state_def del: upd_simps(1))
  have m: "process_wait_pid_matches_child w (infos (upd a f s) b) (infos (upd a f s) c) = process_wait_pid_matches_child w (infos s b) (infos s c)" for w b c
    by (simp add: process_wait_pid_matches_child_def fs del: upd_simps(1))
  show ?thesis using assms(1) by (simp add: tree_def unique_pids_def owned_def misses_def m fs del: upd_simps(1))
qed

lemma send_signal_tree:
  assumes "tree {} s" "\<not> zombie s (cur s)"
  shows "case send_signal n sig s of Inl t \<Rightarrow> tree {} t | Inr (b, t) \<Rightarrow> tree {} t"
proof -
  have post: "tree {} (post_signal a k s)" for a k using assms(1) by (rule tree_quiet) (simp_all add: post_signal_roused)
  have kill: "case process_signal_default_kill a k s of Inl t \<Rightarrow> tree {} t | Inr (True, t) \<Rightarrow> tree {} t | Inr (False, t) \<Rightarrow> t = s"
    if "a \<in> set (plist s)" "process_signal_is_default_fatal (infos s a) k" for a k
  proof (cases "zombie s a")
    case True
    then show ?thesis by (simp add: process_signal_default_kill_def)
  next
    case False
    show ?thesis
    proof (cases "a = cur s")
      case True
      let ?u = "upd a (\<lambda>p. (clear_pending k p)\<lparr>exit_signal := k\<rparr>) s"
      have "tree {} ?u" using assms(1) by (rule tree_kin_state) (simp_all add: kin_state_def)
      then have "tree {} (process_exit 0 ?u)" using assms(2) by (intro exit_tree) (simp_all add: True)
      then show ?thesis using False that True by (simp add: process_signal_default_kill_def)
    next
      case False
      then show ?thesis using \<open>\<not> zombie s a\<close> that kill_other_eq kill_notify_settles buried_tree [OF assms that(1)] by simp
    qed
  qed
  show ?thesis
    using kill post assms(1) find_pid_Some [of n s] by (fastforce simp: send_signal_def Let_def split: option.split sum.split prod.split bool.split)
qed

section \<open>Waiting, forking and switching\<close>

lemma tree_upd:
  assumes "tree X s" "pid (f (infos s a)) = pid (infos s a)" "ppid (f (infos s a)) = ppid (infos s a)" "pgid (f (infos s a)) = pgid (infos s a)"
    "state (sched (f (infos s a))) = PROCESS_ZOMBIE \<longleftrightarrow> zombie s a" "\<And>c. c \<in> set (plist s) \<Longrightarrow> c \<notin> X \<Longrightarrow> \<not> misses (upd a f s) a c"
  shows "tree X (upd a f s)"
proof -
  let ?t = "upd a f s"
  have fs: "pid (infos ?t b) = pid (infos s b)" "ppid (infos ?t b) = ppid (infos s b)" "pgid (infos ?t b) = pgid (infos s b)" "zombie ?t b \<longleftrightarrow> zombie s b" for b
    using assms(2-5) by auto
  have m: "process_wait_pid_matches_child w (infos ?t b) (infos ?t c) = process_wait_pid_matches_child w (infos s b) (infos s c)" for w b c
    by (simp add: process_wait_pid_matches_child_def fs del: upd_simps(1))
  have other: "misses ?t b c = misses s b c" if "b \<noteq> a" for b c unfolding misses_def m fs using that by simp
  have "\<not> misses ?t b c" if "b \<in> set (plist s)" "c \<in> set (plist s)" "c \<notin> X" for b c
    using assms(1,6) other that by (cases "b = a") (auto simp: tree_def)
  then show ?thesis using assms(1) by (simp add: tree_def unique_pids_def owned_def fs del: upd_simps(1))
qed

lemma not_waiting: "\<not> wait_blocked (infos s a) \<Longrightarrow> \<not> misses s a c" "state (sched (infos s a)) \<noteq> PROCESS_BLOCKED \<Longrightarrow> \<not> misses s a c"
  by (auto simp: misses_def)

lemma reap_tree:
  assumes "tree {} s" "z \<in> set (plist s)" "zombie s z" "z \<noteq> cur s"
  shows "tree {} (process_reap_zombie_child z s)"
proof -
  let ?t = "s\<lparr>plist := remove1 z (plist s), open_files := open_files s - {z}, freed := insert z (freed s)\<rparr>"
  have d: "distinct (plist s)" using assms(1) by (auto simp: tree_def unique_pids_def)
  have u: "unique_pids ?t" using assms(1) d by (auto simp: tree_def unique_pids_def inj_on_def)
  have o: "owned ?t a" if "owned s a" for a using that assms(3) d by (auto simp: owned_def)
  have m: "misses ?t a c = misses s a c" for a c by (simp add: misses_def)
  show ?thesis unfolding reap_child [OF assms(2)] using assms d u o m by (auto simp: tree_def)
qed

lemmas wait_state_defs = process_wait_state_init_def process_wait_state_clear_def process_wait_state_arm_def
  process_clear_in_thread_syscall_block_def process_reset_blocked_syscall_state_def

lemma arm_sleep_simps [simp]:
  "pid (process_arm_kernel_syscall_sleep p) = pid p" "ppid (process_arm_kernel_syscall_sleep p) = ppid p" "pgid (process_arm_kernel_syscall_sleep p) = pgid p"
  "wait_blocked (process_arm_kernel_syscall_sleep p) = wait_blocked p" "wait_target_pid (process_arm_kernel_syscall_sleep p) = wait_target_pid p"
  "sched (process_arm_kernel_syscall_sleep p) = sched p"
  by (simp_all add: process_arm_kernel_syscall_sleep_def process_kernel_sleep_capture_syscall_frame_def Let_def)

abbreviation mine :: "psys \<Rightarrow> int \<Rightarrow> nat list" where
  "mine s w \<equiv> filter (\<lambda>c. ppid (infos s c) = pid (infos s (cur s)) \<and> process_wait_pid_matches_child w (infos s (cur s)) (infos s c)) (plist s)"

lemma wait_sleep_tree:
  assumes "tree {} s" "\<not> zombie s (cur s)" "find (zombie s) (mine s w) = None"
    "pid (f (infos s (cur s))) = pid (infos s (cur s))" "ppid (f (infos s (cur s))) = ppid (infos s (cur s))"
    "pgid (f (infos s (cur s))) = pgid (infos s (cur s))" "state (sched (f (infos s (cur s)))) \<noteq> PROCESS_ZOMBIE"
    "wait_target_pid (f (infos s (cur s))) = w"
  shows "tree {} (upd (cur s) f s)"
proof (rule tree_upd [where f = f, OF assms(1)])
  fix c assume c: "c \<in> set (plist s)"
  have nz: "\<forall>x. x \<in> set (mine s w) \<longrightarrow> \<not> zombie s x" using assms(3) by (auto simp: find_None_iff)
  show "\<not> misses (upd (cur s) f s) (cur s) c"
  proof
    assume m: "misses (upd (cur s) f s) (cur s) c"
    then have "c \<noteq> cur s" using assms(7) by (auto simp: misses_def)
    then have "zombie s c" "c \<in> set (mine s w)" using m c assms(4,6,8) by (auto simp: misses_def process_wait_pid_matches_child_def)
    then show False using nz by blast
  qed
qed (use assms in auto)

lemma wait_tree:
  assumes "tree {} s" "\<not> zombie s (cur s)"
  shows "tree {} (snd (process_wait_pass st w options s))"
proof (cases "find (zombie s) (mine s w)")
  case (Some z)
  then have z: "z \<in> set (plist s)" "zombie s z" "z \<noteq> cur s" using assms(2) by (auto simp: find_Some_iff nth_mem [of _ "mine s w"] dest: nth_mem)
  let ?t = "process_reap_zombie_child z s"
  let ?u = "upd (cur s) (process_clear_in_thread_syscall_block \<circ> process_wait_state_clear) ?t"
  have t: "tree {} ?t" using reap_tree [OF assms(1) z] .
  have i: "infos ?t = infos s" using z by (simp add: reap_child)
  have u: "tree {} ?u" by (rule tree_upd [OF t]) (auto simp: wait_state_defs i misses_def)
  have "tree {} (upd (cur s) (clear_pending SIGCHLD) ?u)" by (rule tree_kin_state [OF u]) (simp add: kin_state_def del: upd_simps(1))
  then show ?thesis using assms(1) t u by (simp add: process_wait_pass_def Some Let_def del: upd_simps(1))
next
  case None
  have r: "tree {} (upd (cur s) process_reset_blocked_syscall_state s)"
    by (rule tree_upd [OF assms(1)]) (auto simp: wait_state_defs misses_def)
  have e: "upd a g (upd a f x) = upd a (g \<circ> f) x" for a f g x by (simp add: upd_def)
  have s1: "tree {} (upd (cur s) (put_state PROCESS_BLOCKED \<circ> process_wait_state_arm w o1) s)" for o1
    by (rule wait_sleep_tree [OF assms None]) (simp_all add: wait_state_defs)
  have s2: "tree {} (upd (cur s) (put_state PROCESS_BLOCKED \<circ> (\<lambda>p. process_arm_kernel_syscall_sleep (p\<lparr>coop_resched_resume := False, irq_frame_saved := False\<rparr>)) \<circ>
      process_wait_state_arm w o1) s)" for o1
    by (rule wait_sleep_tree [OF assms None]) (simp_all add: wait_state_defs)
  show ?thesis using r s1 s2 by (simp add: process_wait_pass_def None Let_def e comp_assoc del: upd_simps(1))
qed

text \<open>The switch to \<open>n\<close>.\<close>

definition dispatch :: "nat \<Rightarrow> psys \<Rightarrow> psys" where
  "dispatch n s =
     (if n = cur s then s
      else let s1 = (if state (sched (infos s (cur s))) = PROCESS_RUNNING then upd (cur s) (put_state PROCESS_READY) s else s) in
      (upd n (put_state PROCESS_RUNNING) s1)\<lparr>cur := n\<rparr>)"

section \<open>Fork and the way out of a call\<close>

abbreviation MAX_PID :: int where
  "MAX_PID \<equiv> 2147483647"

lemma next_pid_step: "0 < next_pid s \<Longrightarrow> next_pid s < MAX_PID \<Longrightarrow> snd (process_get_next_pid s) = s\<lparr>next_pid := next_pid s + 1\<rparr>"
  by (simp add: process_get_next_pid_def)

definition only_regs :: "(pinfo \<Rightarrow> pinfo) \<Rightarrow> bool" where
  "only_regs f \<longleftrightarrow> (\<forall>p. \<exists>r. f p = p\<lparr>task_regs := r\<rparr>)"

lemma only_regs_id: "only_regs (\<lambda>p. p)"
proof -
  have "p = p\<lparr>task_regs := task_regs p\<rparr>" for p :: pinfo by simp
  then show ?thesis unfolding only_regs_def by blast
qed

text \<open>The state once the child is attached, with any registers.\<close>

lemma attached_fields:
  fixes f :: "pinfo \<Rightarrow> pinfo" and c :: nat and s :: psys
  assumes "c \<noteq> cur s"
  defines "t \<equiv> fork_attach_pending_child c (upd c f (fork_process_create c s))"
  assumes f: "only_regs f"
  shows "pid (infos t c) = next_pid s" "ppid (infos t c) = pid (infos s (cur s))" "\<not> wait_blocked (infos t c)"
    "state (sched (infos t c)) = PROCESS_BLOCKED" "b \<noteq> c \<Longrightarrow> infos t b = infos s b"
    "plist t = c # plist s" "cur t = cur s" "queued t = queued s"
    "open_files t = insert c (open_files s)" "freed t = freed s - {c}" "next_pid t = next_pid (snd (process_get_next_pid s))"
    "user_mode (infos t c) = user_mode (infos s (cur s))" "exit_signal (infos t c) = 0" "fork_pending t (cur s) = Some c"
proof -
  obtain r where r: "f (infos (fork_process_create c s) c) = (infos (fork_process_create c s) c)\<lparr>task_regs := r\<rparr>" using f unfolding only_regs_def by blast
  have i: "infos t c = put_state PROCESS_BLOCKED ((infos (fork_process_create c s) c)\<lparr>task_regs := r\<rparr>)"
    by (simp add: t_def r fork_attach_pending_child_def Let_def)
  have k: "pid (infos (fork_process_create c s) c) = next_pid s" "ppid (infos (fork_process_create c s) c) = pid (infos s (cur s))"
    "\<not> wait_blocked (infos (fork_process_create c s) c)" "user_mode (infos (fork_process_create c s) c) = user_mode (infos s (cur s))"
    "exit_signal (infos (fork_process_create c s) c) = 0"
    by (simp_all add: fork_process_create_def process_get_next_pid_def process_signals_clone_def process_rel_init_child_def blank_info_def put_state_def Let_def)
  have u: "user_mode (put_state PROCESS_BLOCKED p) = user_mode p" for p by (simp add: put_state_def)
  show "pid (infos t c) = next_pid s" "ppid (infos t c) = pid (infos s (cur s))" "\<not> wait_blocked (infos t c)"
    "state (sched (infos t c)) = PROCESS_BLOCKED" "user_mode (infos t c) = user_mode (infos s (cur s))" "exit_signal (infos t c) = 0"
    by (simp_all add: i k u)
  show "b \<noteq> c \<Longrightarrow> infos t b = infos s b"
    "plist t = c # plist s" "cur t = cur s" "queued t = queued s"
    "open_files t = insert c (open_files s)" "freed t = freed s - {c}" "next_pid t = next_pid (snd (process_get_next_pid s))" "fork_pending t (cur s) = Some c"
    by (simp_all add: t_def fork_attach_pending_child_def fork_process_create_def process_get_next_pid_def Let_def)
qed

lemma attached_tree:
  assumes "tree {} s" "c \<notin> set (plist s)" "\<not> zombie s (cur s)" "next_pid s < MAX_PID" "only_regs f"
  shows "tree {} (fork_attach_pending_child c (upd c f (fork_process_create c s)))"
proof -
  have cc: "c \<noteq> cur s" using assms by (auto simp: tree_def)
  note f = attached_fields [of c s f, OF cc assms(5)]
  let ?t = "fork_attach_pending_child c (upd c f (fork_process_create c s))"
  have s: "unique_pids s" "cur s \<in> set (plist s)" "set (plist s) \<inter> freed s = {}" "\<forall>a\<in>queued s. a \<in> set (plist s) \<and> \<not> zombie s a"
    "\<forall>a\<in>set (plist s). zombie s a \<longrightarrow> a \<notin> open_files s" "\<forall>a\<in>set (plist s). owned s a" "\<forall>a\<in>set (plist s). \<forall>b\<in>set (plist s). \<not> misses s a b"
    using assms(1) by (auto simp: tree_def)
  have same: "infos ?t a = infos s a" if "a \<in> set (plist s)" for a using that assms(2) by (auto intro: f(5))
  have pos: "0 < next_pid s" using s(1,2) by (auto simp: unique_pids_def)
  have nx: "next_pid ?t = next_pid s + 1" using f(11) next_pid_step [OF pos assms(4)] by simp
  have u: "unique_pids ?t"
  proof -
    have "inj_on (\<lambda>a. pid (infos ?t a)) (set (plist s)) = inj_on (\<lambda>a. pid (infos s a)) (set (plist s))" using same by (intro inj_on_cong) simp
    moreover have "pid (infos ?t c) \<notin> (\<lambda>a. pid (infos ?t a)) ` (set (plist s) - {c})" using s(1) same f(1) by (auto simp: unique_pids_def)
    moreover have "\<forall>a\<in>set (plist s). 0 < pid (infos ?t a) \<and> pid (infos ?t a) < next_pid s + 1" using s(1) same by (auto simp: unique_pids_def)
    ultimately show ?thesis using s(1) assms(2) pos f(1) unfolding unique_pids_def f(6) nx by simp
  qed
  have o: "owned ?t a" if "a \<in> set (plist s)" for a
    using that s(6) same unfolding owned_def f(6) by (metis list.set_intros(2))
  have oc: "owned ?t c" using s(2) assms(3) f(2) same cc unfolding owned_def f(6) by (metis list.set_intros(2))
  have m: "\<not> misses ?t a b" if "a \<in> set (c # plist s)" "b \<in> set (c # plist s)" for a b
  proof (cases "a = c \<or> b = c")
    case True
    then show ?thesis using f(3,4) by (auto simp: misses_def)
  next
    case False
    then show ?thesis using that s(7) same by (simp add: misses_def)
  qed
  have q: "a \<in> set (c # plist s) \<and> \<not> zombie ?t a" if "a \<in> queued s" for a using that s(4) f(4) same by (cases "a = c") auto
  have z: "a \<notin> insert c (open_files s)" if "zombie ?t a" "a \<in> set (c # plist s)" for a using that s(5) f(4) same by (cases "a = c") auto
  have zc: "\<not> zombie ?t c" using f(4) by simp
  show ?thesis using s(2,3) u o oc m q z zc assms(2) unfolding tree_def f(6-10) by auto
qed

lemma prepare_regs: "only_regs (fork_prepare_child_return q)" "only_regs (fork_prepare_parent_return n)"
  unfolding only_regs_def fork_prepare_child_return_def fork_prepare_parent_return_def Let_def by (intro allI, split if_split, blast)+

lemma fork_eq:
  "\<exists>f g. only_regs f \<and> only_regs g \<and> fork c s = upd (cur s) g (fork_attach_pending_child c (upd c f (fork_process_create c s)))"
proof (cases "user_mode (infos s (cur s))")
  case True
  then have "fork c s = upd (cur s) (fork_prepare_parent_return (pid (infos (fork_attach_pending_child c (upd c (fork_prepare_child_return (infos s (cur s)))
      (fork_process_create c s))) c))) (fork_attach_pending_child c (upd c (fork_prepare_child_return (infos s (cur s))) (fork_process_create c s)))"
    by (simp add: fork_def Let_def)
  then show ?thesis using prepare_regs by blast
next
  case False
  have "upd a (\<lambda>p. p) t = t" for a t by (simp add: upd_def)
  then have "fork c s = upd (cur s) (\<lambda>p. p) (fork_attach_pending_child c (upd c (\<lambda>p. p) (fork_process_create c s)))" using False by (simp add: fork_def Let_def)
  then show ?thesis using only_regs_id by blast
qed

lemma fork_fields:
  assumes "c \<noteq> cur s"
  shows "pid (infos (fork c s) c) = next_pid s" "ppid (infos (fork c s) c) = pid (infos s (cur s))" "\<not> wait_blocked (infos (fork c s) c)"
    "state (sched (infos (fork c s) c)) = PROCESS_BLOCKED" "b \<noteq> c \<Longrightarrow> \<exists>r. infos (fork c s) b = (infos s b)\<lparr>task_regs := r\<rparr>"
    "plist (fork c s) = c # plist s" "cur (fork c s) = cur s" "queued (fork c s) = queued s"
    "open_files (fork c s) = insert c (open_files s)" "freed (fork c s) = freed s - {c}" "next_pid (fork c s) = next_pid (snd (process_get_next_pid s))"
    "user_mode (infos (fork c s) c) = user_mode (infos s (cur s))" "exit_signal (infos (fork c s) c) = 0" "fork_pending (fork c s) (cur s) = Some c"
proof -
  obtain f g where fk: "fork c s = upd (cur s) g (fork_attach_pending_child c (upd c f (fork_process_create c s)))" "only_regs f" "only_regs g"
    using fork_eq [of c s] by blast
  note a = attached_fields [of c s f, OF assms fk(2)]
  show "pid (infos (fork c s) c) = next_pid s" "ppid (infos (fork c s) c) = pid (infos s (cur s))" "\<not> wait_blocked (infos (fork c s) c)"
    "state (sched (infos (fork c s) c)) = PROCESS_BLOCKED"
    "plist (fork c s) = c # plist s" "cur (fork c s) = cur s" "queued (fork c s) = queued s"
    "open_files (fork c s) = insert c (open_files s)" "freed (fork c s) = freed s - {c}" "next_pid (fork c s) = next_pid (snd (process_get_next_pid s))"
    "user_mode (infos (fork c s) c) = user_mode (infos s (cur s))" "exit_signal (infos (fork c s) c) = 0" "fork_pending (fork c s) (cur s) = Some c"
    unfolding fk(1) using assms a by simp_all
  assume "b \<noteq> c"
  then have "infos (fork c s) b = (if b = cur s then g (infos s b) else infos s b)" unfolding fk(1) using a(5) assms by simp
  moreover have "\<exists>r. (if b = cur s then g (infos s b) else infos s b) = (infos s b)\<lparr>task_regs := r\<rparr>"
    using fk(3) only_regs_id unfolding only_regs_def by metis
  ultimately show "\<exists>r. infos (fork c s) b = (infos s b)\<lparr>task_regs := r\<rparr>" by simp
qed

lemma fork_tree:
  assumes "tree {} s" "c \<notin> set (plist s)" "\<not> zombie s (cur s)" "next_pid s < MAX_PID"
  shows "tree {} (fork c s)"
proof -
  obtain f g where fk: "fork c s = upd (cur s) g (fork_attach_pending_child c (upd c f (fork_process_create c s)))" "only_regs f" "only_regs g"
    using fork_eq [of c s] by blast
  have k: "kin_state (g p) = kin_state p" for p
  proof -
    obtain r where "g p = p\<lparr>task_regs := r\<rparr>" using fk(3) unfolding only_regs_def by blast
    then show ?thesis by (simp add: kin_state_def)
  qed
  show ?thesis unfolding fk(1) by (rule tree_kin_state [OF attached_tree [OF assms fk(2)]]) (rule k)
qed

lemma dispatch_roused_fields:
  "plist (dispatch n s) = plist s" "queued (dispatch n s) = queued s" "cur (dispatch n s) = n" "kin (infos (dispatch n s) a) = kin (infos s a)"
  "\<not> zombie s n \<Longrightarrow> zombie (dispatch n s) a \<longleftrightarrow> zombie s a"
  by (auto simp: dispatch_def Let_def kin_def)

lemma dispatch_tree:
  assumes "tree {} s" "n \<in> queued s"
  shows "tree {} (dispatch n s)"
proof -
  have n: "n \<in> set (plist s)" "\<not> zombie s n" using assms by (auto simp: tree_def)
  let ?s1 = "if state (sched (infos s (cur s))) = PROCESS_RUNNING then upd (cur s) (put_state PROCESS_READY) s else s"
  have "tree {} (upd (cur s) (put_state PROCESS_READY) s)" if "state (sched (infos s (cur s))) = PROCESS_RUNNING"
    by (rule tree_upd [OF assms(1)]) (use that in \<open>auto simp: misses_def\<close>)
  then have t: "tree {} ?s1" using assms(1) by simp
  have "tree {} (upd n (put_state PROCESS_RUNNING) ?s1)" by (rule tree_upd [OF t]) (use n in \<open>auto simp: misses_def\<close>)
  then have "tree {} ((upd n (put_state PROCESS_RUNNING) ?s1)\<lparr>cur := n\<rparr>)" using n by (intro tree_cur) simp_all
  then show ?thesis using assms(1) by (simp add: dispatch_def Let_def)
qed

section \<open>Signals to groups, and the call around the wait\<close>

lemma send_signal_alive:
  assumes "tree {} s" "\<not> zombie s (cur s)" "send_signal n sig s = Inr (ok, t)"
  shows "cur t = cur s" "\<not> zombie t (cur t)"
proof -
  have post: "cur (post_signal a k s) = cur s \<and> \<not> zombie (post_signal a k s) (cur s)" for a k
    using assms(2) roused_zombie [OF post_signal_roused] by simp
  have kill: "cur (kill_notify a (buried a k s)) = cur s \<and> \<not> zombie (kill_notify a (buried a k s)) (cur s)"
    if "a \<in> set (plist s)" "\<not> zombie s a" "a \<noteq> cur s" for a k
  proof -
    let ?s1 = "upd a (\<lambda>p. p\<lparr>irq_frame_saved := False\<rparr>) s"
    have t1: "tree {} ?s1" using assms(1) by (rule tree_quiet) (simp_all add: quiet_roused kin_def)
    have "a \<in> set (plist ?s1)" "\<not> zombie ?s1 a" using that by simp_all
    note f = bury_facts [OF t1 this burial_kill [of k]]
    have "cur (buried a k s) = cur s" "\<not> zombie (buried a k s) (cur s)" using f(2) f(9) [of "cur s"] that(3) assms(2) by (simp_all add: buried_def Let_def)
    then show ?thesis using kill_notify_roused [of "buried a k s" a] roused_zombie [OF kill_notify_roused] by (simp add: roused_def)
  qed
  have dk: "(\<exists>t. process_signal_default_kill a k s = Inl t) \<or> process_signal_default_kill a k s = Inr (False, s) \<or>
      process_signal_default_kill a k s = Inr (True, kill_notify a (buried a k s)) \<and> \<not> zombie s a \<and> a \<noteq> cur s"
    if "process_signal_is_default_fatal (infos s a) k" for a k
  proof (cases "zombie s a \<or> a = cur s")
    case True
    then show ?thesis using that by (auto simp: process_signal_default_kill_def)
  next
    case False
    then show ?thesis using kill_other_eq [of s a k] that by auto
  qed
  consider "t = s" | a k where "t = post_signal a k s" | a k where "t = kill_notify a (buried a k s)" "a \<in> set (plist s)" "\<not> zombie s a" "a \<noteq> cur s"
  proof (cases "process_find_by_pid n s")
    case None
    then show ?thesis using assms(3) that(1) by (auto simp: send_signal_def split: if_splits)
  next
    case (Some a)
    then show ?thesis using assms(3) that dk [of a "nat sig"] find_pid_Some [OF Some]
      by (auto simp: send_signal_def Let_def split: if_splits sum.splits prod.splits bool.splits)
  qed
  then show "cur t = cur s" "\<not> zombie t (cur t)" using post kill assms(2) by (cases; simp)+
qed

lemma send_signal_each_tree:
  "tree {} s \<Longrightarrow> \<not> zombie s (cur s) \<Longrightarrow> case send_signal_each as g sig n s of Inl t \<Rightarrow> tree {} t | Inr (k, t) \<Rightarrow> tree {} t"
proof (induction as arbitrary: s n)
  case Nil
  then show ?case by simp
next
  case (Cons a as)
  show ?case
  proof (cases "send_signal (pid (infos s a)) sig s")
    case (Inl t)
    then show ?thesis using Cons send_signal_tree [of s "pid (infos s a)" sig] by simp
  next
    case (Inr r)
    obtain ok t where r: "r = (ok, t)" by (cases r)
    have "tree {} t" "\<not> zombie t (cur t)"
      using Cons.prems send_signal_tree [of s "pid (infos s a)" sig] send_signal_alive [of s "pid (infos s a)" sig ok t] by (simp_all add: Inr r)
    then show ?thesis using Cons by (simp add: Inr r)
  qed
qed

lemma send_signal_pgrp_tree:
  "tree {} s \<Longrightarrow> \<not> zombie s (cur s) \<Longrightarrow> case send_signal_pgrp g sig s of Inl t \<Rightarrow> tree {} t | Inr (k, t) \<Rightarrow> tree {} t"
  using send_signal_each_tree by (simp add: send_signal_pgrp_def)

lemma wait4_pass_tree:
  assumes "tree {} s" "\<not> zombie s (cur s)"
  shows "tree {} (snd (wait4_pass st w options s))"
proof -
  have "tree {} (sys_wait4_leave t)" if "tree {} t" for t
    using that by (auto simp: sys_wait4_leave_def misses_def wait_state_defs intro!: tree_upd)
  then show ?thesis using wait_tree [OF assms, of st w options]
    by (auto simp: wait4_pass_def split: prod.splits wait_result.splits)
qed

lemma wait4_tree:
  assumes "tree {} s" "\<not> zombie s (cur s)"
  shows "tree {} (snd (sys_wait4 st w options s))"
proof -
  have "tree {} (sys_wait4_enter options s)"
    using assms(1) by (auto simp: sys_wait4_enter_def kin_state_def wait_state_defs intro: tree_kin_state)
  moreover have "\<not> zombie (sys_wait4_enter options s) (cur (sys_wait4_enter options s))"
    using assms(2) by (simp add: sys_wait4_enter_def wait_state_defs)
  ultimately show ?thesis unfolding sys_wait4_def by (rule wait4_pass_tree)
qed
end
