(* ===== verification/Proc_Return.thy ===== *)
theory Proc_Return
  imports Proc_Run
begin

text \<open>
  The way out of a system call (\<^verbatim>\<open>kernel/syscalls/syscall_dispatch.c\<close>): handling the signals of the current process changes of what the process
  tree rests on at most its scheduling state, so the tree stays sound through it and through the whole of \<^verbatim>\<open>fork\<close>; and which operations
  hand out process numbers.
\<close>

section \<open>What handling signals changes\<close>

definition ids :: "pinfo \<Rightarrow> int \<times> int \<times> int \<times> bool \<times> int \<times> bool" where
  "ids p = (pid p, ppid p, pgid p, wait_blocked p, wait_target_pid p, user_mode p)"

fun payload :: "'a sigres \<Rightarrow> 'a" where
  "payload (Next p) = p"
| "payload (Return p) = p"
| "payload (Exit c p) = p"
| "payload (Stop p) = p"

fun stopped :: "'a sigres \<Rightarrow> bool" where
  "stopped (Stop p) = True"
| "stopped _ = False"

text \<open>The same process, not a zombie if it was none, and not blocked if it was not and has not been stopped.\<close>

definition same_process :: "pinfo \<Rightarrow> pinfo sigres \<Rightarrow> bool" where
  "same_process p r \<longleftrightarrow> ids (payload r) = ids p \<and>
     (state (sched (payload r)) = state (sched p) \<or> state (sched (payload r)) = PROCESS_READY \<or> stopped r \<and> state (sched (payload r)) = PROCESS_BLOCKED)"

lemma same_process_bind:
  assumes "same_process p r" "\<And>x. same_process x (f x)"
  shows "same_process p (sig_bind r f)"
proof (cases r)
  case (Next x)
  then show ?thesis using assms(1) assms(2) [of x] by (auto simp: same_process_def)
qed (use assms(1) in simp_all)

lemma same_process_same: "ids q = ids p \<Longrightarrow> sched q = sched p \<Longrightarrow> same_process p (Next q) \<and> same_process p (Return q) \<and> same_process p (Exit c q)"
  by (simp add: same_process_def)

lemma stages_same:
  "same_process p (kill_stage p)" "same_process p (stop_stage p)" "same_process p (fault_stage sig p)" "same_process p (term_stage p)" "same_process p (soft_stage sig p)"
  "same_process p (abort_stage p)" "same_process p (pipe_stage p)" "same_process p (cont_stage p)"
  by (simp_all add: kill_stage_def stop_stage_def fault_stage_def term_stage_def soft_stage_def abort_stage_def pipe_stage_def cont_stage_def die_def
      same_process_def ids_def clear_pending_def Let_def)

lemma backup_same:
  "ids (process_kernel_sleep_interrupted_backup_frame p) = ids p" "sched (process_kernel_sleep_interrupted_backup_frame p) = sched p"
  by (simp_all add: process_kernel_sleep_interrupted_backup_frame_def process_kernel_sleep_capture_syscall_frame_def ids_def Let_def)

lemma enter_same: "ids (enter_handler sig u p) = ids p" "sched (enter_handler sig u p) = sched p"
proof -
  have m: "ids (signals_apply_handler_mask sig w q) = ids q" "sched (signals_apply_handler_mask sig w q) = sched q" for w q
    by (simp_all add: signals_apply_handler_mask_def ids_def Let_def)
  have c: "ids (clear_pending sig q) = ids q" "sched (clear_pending sig q) = sched q" for q by (simp_all add: clear_pending_def ids_def)
  have f: "ids (q\<lparr>signal_enter_pending := a, signal_last_delivered := b\<rparr>) = ids q" "ids (q\<lparr>signal_frame_sp := d, task_regs := r\<rparr>) = ids q"
    "ids (q\<lparr>syscall_frame := g, task_regs := r, syscall_frame_fresh := h\<rparr>) = ids q" for q a b d r g h by (simp_all add: ids_def)
  show "ids (enter_handler sig u p) = ids p" "sched (enter_handler sig u p) = sched p" by (simp_all add: enter_handler_def Let_def m c f backup_same)
qed

lemma deliver_user_same: "same_process p (deliver_user e sig p)"
proof -
  have d: "same_process p (die sig q)" if "ids q = ids p" "sched q = sched p" for q
    using that by (simp add: die_def same_process_def ids_def clear_pending_def)
  let ?c = "interrupted p" and ?p1 = "p\<lparr>saved_context := Some (interrupted p)\<rparr>"
  have i: "ids (clear_pending sig (q\<lparr>signal_handlers := h\<rparr>)) = ids q" "sched (clear_pending sig (q\<lparr>signal_handlers := h\<rparr>)) = sched q"
    "ids (process_saved_context_clear q) = ids q" "sched (process_saved_context_clear q) = sched q" for q h
    by (simp_all add: clear_pending_def process_saved_context_clear_def ids_def)
  have s: "ids ?p1 = ids p" "sched ?p1 = sched p" by (simp_all add: ids_def)
  have n: "same_process p (Next q)" "same_process p (Return q)" if "ids q = ids p" "sched q = sched p" for q
    using same_process_same [OF that] by blast+
  show ?thesis
  proof (cases "saved_context p = None")
    case False
    then show ?thesis using d [of p] n [of p] by (simp add: deliver_user_def signal_delivery_blocked_nested_def)
  next
    case True
    have at: "process_saved_context_attach ?c p = (True, ?p1)" using True by (simp add: process_saved_context_attach_def)
    show ?thesis unfolding deliver_user_def Let_def at prod.case
      by (cases "signal_pick_handler_sp ?p1 (sp ?c)") (simp_all add: d n i s enter_same split: prod.split)
  qed
qed

lemma deliver_same: "same_process p (deliver e sig p)"
proof -
  have "same_process p (Next p)" "same_process p (Next (clear_pending k p))" "same_process p (Next (clear_pending sig (p\<lparr>signal_handlers := h\<rparr>)))" for h k
    by (simp_all add: same_process_def clear_pending_def ids_def)
  then show ?thesis using deliver_user_same by (simp add: deliver_def)
qed

lemma deliver_all_same: "same_process p (deliver_all e sigs p)"
proof (induction sigs arbitrary: p)
  case Nil
  then show ?case by (simp add: same_process_def)
next
  case (Cons sig sigs)
  show ?case unfolding deliver_all.simps by (rule same_process_bind [OF deliver_same Cons.IH])
qed

lemma default_stages_same: "same_process p (default_stages p)"
  unfolding default_stages_def by (intro same_process_bind stages_same)

lemma handle_signals_same: "same_process p (handle_signals e p)"
proof -
  have "same_process p (Return p)" by (simp add: same_process_def)
  moreover have "same_process p (sig_bind (default_stages p) (deliver_all e [1..<NSIG]))" by (rule same_process_bind [OF default_stages_same deliver_all_same])
  ultimately show ?thesis by (simp add: handle_signals_def)
qed

lemma prepare_return_same:
  assumes "signals_prepare_user_return e p = r" "payload r = (b, q)"
  shows "ids q = ids p \<and> (state (sched q) = state (sched p) \<or> state (sched q) = PROCESS_READY \<or> stopped r \<and> state (sched q) = PROCESS_BLOCKED)"
proof (cases "user_mode p \<and> signals_should_handle_on_run p")
  case False
  then have "r = Return (False, p)" using assms(1) by (auto simp: signals_prepare_user_return_def)
  then show ?thesis using assms(2) by simp
next
  case True
  show ?thesis using assms True handle_signals_same [of p e]
    by (cases "handle_signals e p") (auto simp: signals_prepare_user_return_def same_process_def)
qed

section \<open>The tree on the way out\<close>

lemma signalled_tree:
  assumes t: "tree {} s" "\<not> zombie s (cur s)" and r: "signals_prepare_user_return e (infos s (cur s)) = r" "payload r = (b, q)"
    and w: "stopped r \<longrightarrow> \<not> wait_blocked (infos s (cur s))"
  shows "tree {} (upd (cur s) (\<lambda>_. q) s)" "\<not> zombie (upd (cur s) (\<lambda>_. q) s) (cur s)"
proof -
  let ?t = "upd (cur s) (\<lambda>_. q) s"
  note k = prepare_return_same [OF r]
  have i: "pid q = pid (infos s (cur s))" "ppid q = ppid (infos s (cur s))" "pgid q = pgid (infos s (cur s))" "wait_blocked q = wait_blocked (infos s (cur s))"
    "wait_target_pid q = wait_target_pid (infos s (cur s))" using k by (simp_all add: ids_def)
  show z: "\<not> zombie ?t (cur s)" using k t(2) by auto
  have m: "\<not> misses ?t (cur s) c" if "c \<in> set (plist s)" for c
  proof
    assume x: "misses ?t (cur s) c"
    then have "c \<noteq> cur s" using z by (auto simp: misses_def)
    have "state (sched q) = PROCESS_BLOCKED" "wait_blocked (infos s (cur s))" using x i by (simp_all add: misses_def)
    then have "state (sched (infos s (cur s))) = PROCESS_BLOCKED" using k w by auto
    then have "misses s (cur s) c" using x i \<open>c \<noteq> cur s\<close> by (simp add: misses_def process_wait_pid_matches_child_def)
    then show False using t(1) that by (auto simp: tree_def)
  qed
  show "tree {} ?t" by (rule tree_upd [OF t(1)]) (use i z t(2) m in auto)
qed

lemma syscall_signals_tree:
  assumes t: "tree {} s" "\<not> zombie s (cur s)"
    and w: "(\<forall>x. signals_prepare_user_return e (infos s (cur s)) \<noteq> Stop x) \<or> \<not> wait_blocked (infos s (cur s))"
  shows "case syscall_signals e s of Inl u \<Rightarrow> tree {} u | Inr u \<Rightarrow> tree {} u \<and> \<not> zombie u (cur u) \<and> (\<exists>q. u = upd (cur s) (\<lambda>_. q) s)"
proof -
  obtain r where r: "signals_prepare_user_return e (infos s (cur s)) = r" by blast
  obtain b q where p: "payload r = (b, q)" by (cases "payload r")
  have "stopped r \<longrightarrow> \<not> wait_blocked (infos s (cur s))" using w r by (cases r) auto
  note k = signalled_tree [OF t r p this]
  have e: "tree {} (process_exit c (upd (cur s) (\<lambda>_. q) s))" for c using exit_tree [OF k(1)] k(2) by simp
  have id: "\<exists>q. s = upd (cur s) (\<lambda>_. q) s" by (intro exI [of _ "infos s (cur s)"]) (simp add: upd_def)
  show ?thesis
  proof (cases "user_mode (infos s (cur s))")
    case False
    then show ?thesis using t id by (simp add: syscall_signals_def)
  next
    case True
    show ?thesis using True r p k e by (cases r) (auto simp: syscall_signals_def)
  qed
qed

lemma wake_pending_tree:
  assumes t: "tree {} s" and c: "fork_pending s p = Some c" "c \<in> set (plist s)" "\<not> zombie s c"
  shows "tree {} (process_fork_wake_pending p s)"
proof -
  let ?u = "s\<lparr>fork_pending := (fork_pending s)(p := None)\<rparr>"
  have u: "tree {} ?u" using t by (simp add: tree_def unique_pids_def owned_def misses_def)
  have v: "tree {} (upd c (put_state PROCESS_READY) ?u)" by (rule tree_upd [OF u]) (use c(3) in \<open>auto simp: misses_def\<close>)
  then show ?thesis using tree_enqueue [OF v, of c] c by (simp add: process_fork_wake_pending_def Let_def)
qed

lemma fork_exit_tree:
  assumes t: "tree {} s" and c: "fork_pending s (cur s) = Some c" "c \<in> set (plist s)" "\<not> zombie s c"
  shows "tree {} (fork_exit s)"
proof -
  let ?u = "if user_mode (infos s (cur s)) then upd (cur s) process_arm_kernel_syscall_sleep s else s"
  have "tree {} ?u" using t tree_kin_state [OF t, of process_arm_kernel_syscall_sleep "cur s"] by (simp add: kin_state_def)
  then show ?thesis unfolding fork_exit_def using c by (intro wake_pending_tree [of ?u _ c]) auto
qed

lemma fork_call_tree:
  assumes t: "tree {} s" "\<not> zombie s (cur s)" and c: "c \<notin> set (plist s)" and n: "next_pid s < MAX_PID"
    and w: "\<forall>x. signals_prepare_user_return e (infos (fork c s) (cur s)) \<noteq> Stop x"
  shows "tree {} (fork_call e c s)"
proof -
  have cc: "c \<noteq> cur s" using t c by (auto simp: tree_def)
  note f = fork_fields [OF cc]
  have ft: "tree {} (fork c s)" using fork_tree [OF t(1) c t(2) n] .
  obtain r where "infos (fork c s) (cur s) = (infos s (cur s))\<lparr>task_regs := r\<rparr>" using f(5) [of "cur s"] cc by blast
  then have "\<not> zombie (fork c s) (cur (fork c s))" using t(2) f(7) by simp
  note k = syscall_signals_tree [OF ft this, of e]
  show ?thesis
  proof (cases "syscall_signals e (fork c s)")
    case (Inl u)
    then show ?thesis using k w f(7) by (simp add: fork_call_def fork_return_def)
  next
    case (Inr u)
    then obtain q where u: "tree {} u" "u = upd (cur s) (\<lambda>_. q) (fork c s)" using k w f(7) by auto
    have "tree {} (fork_exit u)" by (rule fork_exit_tree [OF u(1), of c]) (use u(2) f cc in simp_all)
    then show ?thesis using Inr by (simp add: fork_call_def fork_return_def)
  qed
qed

section \<open>Who hands out numbers\<close>

lemma notify_next_pid:
  "next_pid (send_sigchld n s) = next_pid s" "next_pid (process_wait_wake_blocked_parent a c s) = next_pid s" "next_pid (notify_parent a c s) = next_pid s"
proof -
  show w: "next_pid (process_wait_wake_blocked_parent a c s) = next_pid s" for s by (simp add: process_wait_wake_blocked_parent_def Let_def)
  show c: "next_pid (send_sigchld n s) = next_pid s" for n by (simp add: send_sigchld_def post_signal_def Let_def split: option.split)
  show "next_pid (notify_parent a c s) = next_pid s" by (simp add: notify_parent_def w c Let_def)
qed

lemma bury_next_pid: "next_pid (bury d g s) = next_pid s"
proof -
  have r: "next_pid (process_reap_zombie_child c t) = next_pid t" for c t by (simp add: process_reap_zombie_child_def process_remove_from_list_def)
  have "next_pid (fold (\<lambda>c t. if ppid (infos t c) = pid (infos t d) \<and> zombie t c then process_reap_zombie_child c t else t) xs t) = next_pid t" for xs t
    by (induction xs arbitrary: t) (simp_all add: r)
  then show ?thesis by (simp add: bury_def Let_def process_reap_zombies_def)
qed

lemma exit_next_pid: "next_pid (process_exit code s) = next_pid s"
proof -
  have i: "next_pid (tell_init d t) = next_pid t" for d t by (simp add: tell_init_def Let_def notify_next_pid split: option.split)
  have "next_pid (exit_notify d t) = next_pid t" for d t by (simp add: exit_notify_def i notify_next_pid split: option.split)
  then show ?thesis by (simp add: process_exit_eq Let_def bury_next_pid split: option.split)
qed

lemma send_signal_next_pid: "next_pid (case send_signal n sig s of Inl t \<Rightarrow> t | Inr (ok, t) \<Rightarrow> t) = next_pid s"
proof -
  have k: "next_pid (kill_notify a t) = next_pid t" for a t by (simp add: kill_notify_def notify_next_pid split: option.split)
  have b: "next_pid (buried a k s) = next_pid s" for a k by (simp add: buried_def bury_next_pid Let_def)
  have d: "next_pid (case process_signal_default_kill a k s of Inl t \<Rightarrow> t | Inr (ok, t) \<Rightarrow> t) = next_pid s" for a k
  proof (cases "zombie s a \<or> a = cur s \<or> \<not> process_signal_is_default_fatal (infos s a) k")
    case True
    then show ?thesis by (auto simp: process_signal_default_kill_def exit_next_pid)
  next
    case False
    then show ?thesis using kill_other_eq [of s a k] by (simp add: k b)
  qed
  have p: "next_pid (post_signal a k t) = next_pid t" for a k t by (simp add: post_signal_def Let_def)
  show ?thesis
  proof (cases "process_find_by_pid n s")
    case None
    then show ?thesis by (simp add: send_signal_def)
  next
    case (Some a)
    show ?thesis using d [of a "nat sig"] by (auto simp: send_signal_def Some p Let_def split: sum.splits prod.splits bool.splits)
  qed
qed

lemma send_signal_each_next_pid: "next_pid (case send_signal_each as g sig n s of Inl t \<Rightarrow> t | Inr (k, t) \<Rightarrow> t) = next_pid s"
proof (induction as arbitrary: s n)
  case Nil
  then show ?case by simp
next
  case (Cons a as)
  show ?case
  proof (cases "send_signal (pid (infos s a)) sig s")
    case (Inl t)
    then show ?thesis using Cons.IH send_signal_next_pid [of "pid (infos s a)" sig s] by simp
  next
    case (Inr r)
    obtain ok t where r: "r = (ok, t)" by (cases r)
    then show ?thesis using Inr Cons.IH send_signal_next_pid [of "pid (infos s a)" sig s] by simp
  qed
qed

lemma wait_next_pid:
  "next_pid (snd (process_wait_pass st w options s)) = next_pid s" "next_pid (snd (wait4_pass st w options s)) = next_pid s" "next_pid (snd (sys_wait4 st w options s)) = next_pid s"
proof -
  have r: "next_pid (process_reap_zombie_child c t) = next_pid t" for c t by (simp add: process_reap_zombie_child_def process_remove_from_list_def)
  show p: "next_pid (snd (process_wait_pass st w options s)) = next_pid s" for s
    by (simp add: process_wait_pass_def Let_def r split: option.split)
  have l: "next_pid (sys_wait4_leave t) = next_pid t" for t by (simp add: sys_wait4_leave_def)
  show q: "next_pid (snd (wait4_pass st w options s)) = next_pid s" for s
    using p [of s] by (auto simp: wait4_pass_def l split: prod.splits wait_result.splits)
  show "next_pid (snd (sys_wait4 st w options s)) = next_pid s" by (simp add: sys_wait4_def q) (simp add: sys_wait4_enter_def)
qed

lemma syscall_signals_next_pid: "next_pid (case syscall_signals e s of Inl t \<Rightarrow> t | Inr t \<Rightarrow> t) = next_pid s"
  by (auto simp: syscall_signals_def exit_next_pid split: sigres.splits)

lemma fork_call_next_pid: "c \<noteq> cur s \<Longrightarrow> next_pid (fork_call e c s) = next_pid (snd (process_get_next_pid s))"
proof -
  assume c: "c \<noteq> cur s"
  have w: "next_pid (fork_exit t) = next_pid t" for t by (simp add: fork_exit_def process_fork_wake_pending_def Let_def split: option.split)
  show ?thesis using syscall_signals_next_pid [of e "fork c s"] fork_fields(11) [OF c]
    by (auto simp: fork_call_def fork_return_def w split: sum.splits)
qed
end
