(* ===== verification/Proc_Props.thy ===== *)
theory Proc_Props
  imports Proc_Return
begin

text \<open>
  The properties of the process tree: the invariant in every run, that a parent asleep in \<^verbatim>\<open>wait4\<close> is woken by the end of its child and
  gets the status of exactly that child, and that \<^verbatim>\<open>SIGKILL\<close> ends a process whatever it has blocked or caught.
\<close>

section \<open>Runs\<close>

text \<open>
  A step of the current process or of the scheduler, with the count of process numbers it hands out. A \<^verbatim>\<open>fork\<close> on whose way out the process
  is stopped is left out.
\<close>

inductive pstep :: "nat \<Rightarrow> psys \<Rightarrow> psys \<Rightarrow> bool" where
  ps_fork: "c \<notin> set (plist s) \<Longrightarrow> \<not> zombie s (cur s) \<Longrightarrow> \<forall>x. signals_prepare_user_return e (infos (fork c s) (cur s)) \<noteq> Stop x \<Longrightarrow>
     pstep 1 s (fork_call e c s)"
| ps_fork_failed: "\<not> zombie s (cur s) \<Longrightarrow> pstep 1 s (fork_failed s)"
| ps_exit: "\<not> zombie s (cur s) \<Longrightarrow> pstep 0 s (process_exit code s)"
| ps_suicide: "\<not> zombie s (cur s) \<Longrightarrow> send_signal n sig s = Inl t \<Longrightarrow> pstep 0 s t"
| ps_signal: "\<not> zombie s (cur s) \<Longrightarrow> send_signal n sig s = Inr (ok, t) \<Longrightarrow> pstep 0 s t"
| ps_group_suicide: "\<not> zombie s (cur s) \<Longrightarrow> send_signal_pgrp g sig s = Inl t \<Longrightarrow> pstep 0 s t"
| ps_group_signal: "\<not> zombie s (cur s) \<Longrightarrow> send_signal_pgrp g sig s = Inr (k, t) \<Longrightarrow> pstep 0 s t"
| ps_wait: "\<not> zombie s (cur s) \<Longrightarrow> sys_wait4 st w options s = (r, t) \<Longrightarrow> pstep 0 s t"
| ps_wait_more: "\<not> zombie s (cur s) \<Longrightarrow> wait4_pass st w options s = (r, t) \<Longrightarrow> pstep 0 s t"
| ps_end_on_return: "\<not> zombie s (cur s) \<Longrightarrow> \<not> wait_blocked (infos s (cur s)) \<Longrightarrow> syscall_signals e s = Inl t \<Longrightarrow> pstep 0 s t"
| ps_return: "\<not> zombie s (cur s) \<Longrightarrow> \<not> wait_blocked (infos s (cur s)) \<Longrightarrow> syscall_signals e s = Inr t \<Longrightarrow> pstep 0 s t"
| ps_dispatch: "n \<in> queued s \<Longrightarrow> pstep 0 s (dispatch n s)"
| ps_sleep: "\<not> zombie s (cur s) \<Longrightarrow> \<not> wait_blocked (infos s (cur s)) \<Longrightarrow> pstep 0 s (upd (cur s) (put_state PROCESS_BLOCKED) s)"
| ps_rouse: "a \<in> set (plist s) \<Longrightarrow> state (sched (infos s a)) = PROCESS_BLOCKED \<Longrightarrow>
     pstep 0 s ((upd a (put_state PROCESS_READY) s)\<lparr>queued := insert a (queued s)\<rparr>)"

inductive pruns :: "nat \<Rightarrow> psys \<Rightarrow> psys \<Rightarrow> bool" where
  pr_refl: "pruns 0 s s"
| pr_step: "pruns n s t \<Longrightarrow> pstep k t u \<Longrightarrow> pruns (n + k) s u"

lemma failed_tree:
  assumes "tree {} s" "next_pid s < MAX_PID"
  shows "tree {} (fork_failed s)"
proof -
  have "cur s \<in> set (plist s)" "unique_pids s" using assms(1) by (simp_all add: tree_def)
  then have "0 < next_pid s" by (auto simp: unique_pids_def)
  then have "fork_failed s = s\<lparr>next_pid := next_pid s + 1\<rparr>" using next_pid_step assms(2) by (simp add: fork_failed_def)
  then show ?thesis using assms(1) by (auto simp: tree_def unique_pids_def owned_def misses_def)
qed

lemma pstep_tree: "pstep k s t \<Longrightarrow> next_pid s + int k \<le> MAX_PID \<Longrightarrow> tree {} s \<Longrightarrow> tree {} t"
proof (induction rule: pstep.induct)
  case (ps_fork c s e)
  then show ?case using fork_call_tree [of s c e] by simp
next
  case (ps_fork_failed s)
  then show ?case using failed_tree by simp
next
  case (ps_exit s code)
  then show ?case using exit_tree by blast
next
  case (ps_suicide s n sig t)
  then show ?case using send_signal_tree [of s n sig] by simp
next
  case (ps_signal s n sig ok t)
  then show ?case using send_signal_tree [of s n sig] by simp
next
  case (ps_group_suicide s g sig t)
  then show ?case using send_signal_pgrp_tree [of s g sig] by simp
next
  case (ps_group_signal s g sig k t)
  then show ?case using send_signal_pgrp_tree [of s g sig] by simp
next
  case (ps_wait s st w options r t)
  then show ?case using wait4_tree [of s st w options] by simp
next
  case (ps_wait_more s st w options r t)
  then show ?case using wait4_pass_tree [of s st w options] by simp
next
  case (ps_end_on_return s e t)
  then show ?case using syscall_signals_tree [of s e] by simp
next
  case (ps_return s e t)
  then show ?case using syscall_signals_tree [of s e] by simp
next
  case (ps_dispatch n s)
  then show ?case using dispatch_tree by blast
next
  case (ps_sleep s)
  then show ?case by (intro tree_upd) (auto simp: misses_def)
next
  case (ps_rouse a s)
  have "tree {} (upd a (put_state PROCESS_READY) s)" using ps_rouse by (intro tree_upd) (auto simp: misses_def)
  then have "tree {} ((upd a (put_state PROCESS_READY) s)\<lparr>queued := insert a (queued (upd a (put_state PROCESS_READY) s))\<rparr>)"
    using ps_rouse by (intro tree_enqueue) simp_all
  then show ?case by simp
qed

lemma group_next_pid: "next_pid (case send_signal_pgrp g sig s of Inl t \<Rightarrow> t | Inr (k, t) \<Rightarrow> t) = next_pid s"
  using send_signal_each_next_pid [of "plist s" g sig 0 s] by (simp add: send_signal_pgrp_def)

lemma pstep_next_pid: "pstep k s t \<Longrightarrow> next_pid s + int k \<le> MAX_PID \<Longrightarrow> tree {} s \<Longrightarrow> next_pid t = next_pid s + int k"
proof -
  assume st: "pstep k s t" and k: "next_pid s + int k \<le> MAX_PID" and t: "tree {} s"
  have m: "cur s \<in> set (plist s)" "unique_pids s" using t by (simp_all add: tree_def)
  then have pos: "0 < next_pid s" by (auto simp: unique_pids_def)
  from st show ?thesis
  proof cases
    case (ps_fork c e)
    then have "c \<noteq> cur s" using m(1) by auto
    then have "next_pid t = next_pid (snd (process_get_next_pid s))" using fork_call_next_pid [of c s e] ps_fork(2) by simp
    then show ?thesis using next_pid_step [OF pos] k ps_fork(1) by simp
  next
    case ps_fork_failed
    then show ?thesis using next_pid_step [OF pos] k by (simp add: fork_failed_def)
  next
    case (ps_suicide n sig)
    then show ?thesis using send_signal_next_pid [of n sig s] by simp
  next
    case (ps_signal n sig ok)
    then show ?thesis using send_signal_next_pid [of n sig s] by simp
  next
    case (ps_group_suicide g sig)
    then show ?thesis using group_next_pid [of g sig s] by simp
  next
    case (ps_group_signal g sig j)
    then show ?thesis using group_next_pid [of g sig s] by simp
  next
    case (ps_wait st w options r)
    then show ?thesis using wait_next_pid(3) [of st w options s] by simp
  next
    case (ps_wait_more st w options r)
    then show ?thesis using wait_next_pid(2) [of st w options s] by simp
  next
    case (ps_end_on_return e)
    then show ?thesis using syscall_signals_next_pid [of e s] by simp
  next
    case (ps_return e)
    then show ?thesis using syscall_signals_next_pid [of e s] by simp
  qed (simp_all add: exit_next_pid dispatch_def Let_def)
qed

lemma pruns_tree: "pruns n s t \<Longrightarrow> next_pid s + int n \<le> MAX_PID \<Longrightarrow> tree {} s \<Longrightarrow> tree {} t \<and> next_pid t = next_pid s + int n"
proof (induction rule: pruns.induct)
  case (pr_step n s t k u)
  then have t: "tree {} t" "next_pid t = next_pid s + int n" by simp_all
  then have b: "next_pid t + int k \<le> MAX_PID" using pr_step.prems(1) by simp
  show ?case using pstep_tree [OF pr_step.hyps(2) b t(1)] pstep_next_pid [OF pr_step.hyps(2) b t(1)] t(2) by simp
qed simp

text \<open>The first process alone, and with a child that runs while the parent waits for it.\<close>

definition init_proc :: pinfo where
  "init_proc = blank_info\<lparr>pid := 1, tgid := 1, pgid := 1, user_mode := True,
     sched := \<lparr>state = PROCESS_RUNNING, task_state = TASK_SCHED_RUNNING, lifecycle = PROCESS_LIFECYCLE_ALIVE, sched_prio = 0\<rparr>\<rparr>"

definition boot :: psys where
  "boot = \<lparr>infos = (\<lambda>_. init_proc), plist = [1], cur = 1, queued = {1}, open_files = {1}, freed = {}, next_pid = 2, fork_pending = (\<lambda>_. None)\<rparr>"

definition boot_forked :: psys where
  "boot_forked = fork_call all_ok 2 boot"

definition family :: psys where
  "family = dispatch 2 (snd (sys_wait4 None (- 1) 0 boot_forked))"

lemma boot_tree: "tree {} boot"
  by (simp add: tree_def boot_def unique_pids_def owned_def misses_def init_proc_def blank_info_def)

lemma boot_return: "cur (fork 2 boot) = 1" "signals_prepare_user_return all_ok (infos (fork 2 boot) (Suc 0)) = Return (False, infos (fork 2 boot) (Suc 0))"
  "user_mode (infos (fork 2 boot) (Suc 0))"
proof -
  have n: "(2::nat) \<noteq> cur boot" by (simp add: boot_def)
  obtain r where r: "infos (fork 2 boot) (Suc 0) = init_proc\<lparr>task_regs := r\<rparr>" using fork_fields(5) [OF n, of 1] by (auto simp: boot_def)
  show "cur (fork 2 boot) = 1" using fork_fields(7) [OF n] by (simp add: boot_def)
  show "signals_prepare_user_return all_ok (infos (fork 2 boot) (Suc 0)) = Return (False, infos (fork 2 boot) (Suc 0))" "user_mode (infos (fork 2 boot) (Suc 0))"
    by (simp_all add: r signals_prepare_user_return_def signals_should_handle_on_run_def init_proc_def blank_info_def)
qed

lemma boot_forked_eq: "boot_forked = process_fork_wake_pending 1 (upd 1 process_arm_kernel_syscall_sleep (fork 2 boot))"
proof -
  have "upd 1 (\<lambda>_. infos (fork 2 boot) (Suc 0)) (fork 2 boot) = fork 2 boot" by (simp add: upd_def)
  then show ?thesis using boot_return by (simp add: boot_forked_def fork_call_def fork_return_def syscall_signals_def fork_exit_def)
qed

lemma fork_boot:
  "\<exists>r. infos boot_forked (Suc 0) = process_arm_kernel_syscall_sleep (init_proc\<lparr>task_regs := r\<rparr>)" "plist boot_forked = [2, 1]" "cur boot_forked = 1"
  "pid (infos boot_forked 2) = 2" "ppid (infos boot_forked 2) = 1" "state (sched (infos boot_forked 2)) = PROCESS_READY" "queued boot_forked = {1, 2}"
  "exit_signal (infos boot_forked 2) = 0"
proof -
  have n: "(2::nat) \<noteq> cur boot" by (simp add: boot_def)
  note f = fork_fields [OF n]
  have p: "fork_pending (fork 2 boot) 1 = Some 2" using f(14) by (simp add: boot_def)
  show "\<exists>r. infos boot_forked (Suc 0) = process_arm_kernel_syscall_sleep (init_proc\<lparr>task_regs := r\<rparr>)"
    using f(5) [of 1] p by (auto simp: boot_forked_eq process_fork_wake_pending_def Let_def boot_def)
  show "plist boot_forked = [2, 1]" "cur boot_forked = 1" "pid (infos boot_forked 2) = 2" "ppid (infos boot_forked 2) = 1"
    "state (sched (infos boot_forked 2)) = PROCESS_READY" "queued boot_forked = {1, 2}" "exit_signal (infos boot_forked 2) = 0"
    using f p by (auto simp: boot_forked_eq process_fork_wake_pending_def Let_def boot_def init_proc_def)
qed

lemma fork_boot_parent:
  "pid (infos boot_forked (Suc 0)) = 1" "ppid (infos boot_forked (Suc 0)) = 0" "user_mode (infos boot_forked (Suc 0))" "state (sched (infos boot_forked (Suc 0))) = PROCESS_RUNNING"
proof -
  obtain r where r: "infos boot_forked (Suc 0) = process_arm_kernel_syscall_sleep (init_proc\<lparr>task_regs := r\<rparr>)" using fork_boot(1) by blast
  have u: "user_mode (process_arm_kernel_syscall_sleep p) = user_mode p" for p
    by (simp add: process_arm_kernel_syscall_sleep_def process_kernel_sleep_capture_syscall_frame_def Let_def)
  show "pid (infos boot_forked (Suc 0)) = 1" "ppid (infos boot_forked (Suc 0)) = 0" "user_mode (infos boot_forked (Suc 0))" "state (sched (infos boot_forked (Suc 0))) = PROCESS_RUNNING"
    by (simp_all add: r u init_proc_def blank_info_def)
qed

lemma fork_wait:
  "snd (sys_wait4 None (- 1) 0 boot_forked) =
     upd 1 (put_state PROCESS_BLOCKED) (upd 1 (\<lambda>p. process_arm_kernel_syscall_sleep (p\<lparr>coop_resched_resume := False, irq_frame_saved := False\<rparr>))
       (upd 1 (process_wait_state_arm (- 1) 0) (sys_wait4_enter 0 boot_forked)))"
proof -
  let ?e = "sys_wait4_enter 0 boot_forked"
  have e: "plist ?e = [2, 1]" "cur ?e = 1" "ppid (infos ?e 2) = 1" "\<not> zombie ?e 2" "pid (infos ?e (Suc 0)) = 1" "user_mode (infos ?e (Suc 0))"
    "wait_options (infos ?e (Suc 0)) = 0" "ppid (infos ?e (Suc 0)) = 0"
    using fork_boot(2-) fork_boot_parent by (simp_all add: sys_wait4_enter_def wait_state_defs)
  show ?thesis using e by (simp add: sys_wait4_def wait4_pass_def process_wait_pass_def process_wait_pid_matches_child_def
      process_wait_state_arm_def Let_def)
qed

lemma boot_fork_step: "pstep 1 boot boot_forked"
proof -
  have "2 \<notin> set (plist boot)" "\<not> zombie boot (cur boot)" "cur boot = 1" by (simp_all add: boot_def init_proc_def)
  then show ?thesis unfolding boot_forked_def using boot_return by (intro ps_fork) simp_all
qed

lemma boot_family: "pruns 1 boot family"
proof -
  let ?f = boot_forked
  have f: "\<not> zombie ?f (cur ?f)" "2 \<in> queued (snd (sys_wait4 None (- 1) 0 ?f))"
    unfolding fork_wait by (simp_all add: fork_boot(2-) fork_boot_parent sys_wait4_enter_def)
  have "pruns (0 + 1) boot ?f" by (rule pr_step [OF pr_refl boot_fork_step])
  then have "pruns (0 + 1 + 0) boot (snd (sys_wait4 None (- 1) 0 ?f))" by (rule pr_step) (rule ps_wait [OF f(1) surjective_pairing])
  then have "pruns (0 + 1 + 0 + 0) boot family" unfolding family_def by (rule pr_step [OF _ ps_dispatch [OF f(2)]])
  then show ?thesis by simp
qed

lemma family_facts:
  "cur family = 2" "plist family = [2, 1]" "state (sched (infos family 1)) = PROCESS_BLOCKED" "wait_blocked (infos family 1)"
  "wait_target_pid (infos family 1) = - 1" "\<not> zombie family 2" "pid (infos family 1) = 1" "pid (infos family 2) = 2" "ppid (infos family 2) = 1"
  "exit_signal (infos family 2) = 0"
  unfolding family_def fork_wait using fork_boot(2-) fork_boot_parent
  by (simp_all add: dispatch_def sys_wait4_enter_def wait_state_defs Let_def)

text \<open>
  C10: In every run of forks, exits, signals sent and handled, waits, sleeps and switches from a sound state, as long as no more numbers are handed out
  than fit in a 32-bit \<^verbatim>\<open>pid_t\<close>: the process numbers stay unique and positive, the current and all queued
  processes are on the list and no freed one is, queued processes are alive, zombies hold no open files, the parent number of every process
  is 0, 1 or the number of a live process, and no process sleeps in \<^verbatim>\<open>wait4\<close> while a child it waits for has already ended.
\<close>

theorem process_runs_safe:
  assumes "ptree s" "pruns n s t" "next_pid s + int n \<le> 2147483647"
  shows "unique_pids t \<and> cur t \<in> set (plist t) \<and> set (plist t) \<inter> freed t = {} \<and>
    (\<forall>a\<in>queued t. a \<in> set (plist t) \<and> \<not> zombie t a) \<and> (\<forall>a\<in>set (plist t). zombie t a \<longrightarrow> a \<notin> open_files t) \<and>
    (\<forall>a\<in>set (plist t). owned t a) \<and> (\<forall>a\<in>set (plist t). \<forall>c\<in>set (plist t). \<not> misses t a c)"
proof -
  have "tree {} t" using assms pruns_tree by (simp add: ptree_def)
  then show ?thesis by (simp add: tree_def)
qed

theorem process_runs_safe_witness:
  "unique_pids (process_exit 7 family) \<and> cur (process_exit 7 family) \<in> set (plist (process_exit 7 family)) \<and>
   set (plist (process_exit 7 family)) \<inter> freed (process_exit 7 family) = {}"
proof -
  have "pstep 0 family (process_exit 7 family)" using family_facts(1,6) by (intro ps_exit) simp
  then have "pruns (1 + 0) boot (process_exit 7 family)" using boot_family by (rule pr_step [rotated])
  moreover have "ptree boot" using boot_tree by (simp add: ptree_def)
  moreover have "next_pid boot + int (1 + 0) \<le> 2147483647" by (simp add: boot_def)
  ultimately show ?thesis using process_runs_safe [of boot "1 + 0" "process_exit 7 family"] by blast
qed

section \<open>The end of a child reaches its waiting parent\<close>

lemma find_only:
  assumes "d \<in> set xs" "\<And>c. c \<in> set xs \<Longrightarrow> P c \<longleftrightarrow> c = d"
  shows "find P xs = Some d"
proof (cases "find P xs")
  case None
  then show ?thesis using assms by (auto simp: find_None_iff)
next
  case (Some z)
  then have "z \<in> set xs \<and> P z" by (auto simp: find_Some_iff)
  then show ?thesis using Some assms(2) [of z] by simp
qed

lemma wait_pass_reaps:
  assumes "d \<in> set (plist v)" "distinct (plist v)" "d \<noteq> cur v"
    "\<And>c. c \<in> set (plist v) \<Longrightarrow> dead_child v (cur v) c \<and> process_wait_pid_matches_child w (infos v (cur v)) (infos v c) \<longleftrightarrow> c = d"
  shows "fst (process_wait_pass (Some (True, True)) w options v) = Reaped (pid (infos v d)) (process_child_wait_status_word (infos v d))"
    "d \<notin> set (plist (snd (process_wait_pass (Some (True, True)) w options v)))"
    "d \<in> freed (snd (process_wait_pass (Some (True, True)) w options v))"
proof -
  have z: "find (zombie v) (mine v w) = Some d" using assms(1,4) by (intro find_only) auto
  show "fst (process_wait_pass (Some (True, True)) w options v) = Reaped (pid (infos v d)) (process_child_wait_status_word (infos v d))"
    "d \<notin> set (plist (snd (process_wait_pass (Some (True, True)) w options v)))"
    "d \<in> freed (snd (process_wait_pass (Some (True, True)) w options v))"
    using assms(1,2) by (simp_all add: process_wait_pass_def z Let_def reap_child del: upd_simps(1))
qed

lemma wait4_pass_reaps:
  assumes "d \<in> set (plist v)" "distinct (plist v)" "d \<noteq> cur v"
    "\<And>c. c \<in> set (plist v) \<Longrightarrow> dead_child v (cur v) c \<and> process_wait_pid_matches_child w (infos v (cur v)) (infos v c) \<longleftrightarrow> c = d"
  shows "fst (wait4_pass (Some (True, True)) w options v) = Reaped (pid (infos v d)) (process_child_wait_status_word (infos v d))"
    "d \<notin> set (plist (snd (wait4_pass (Some (True, True)) w options v)))" "d \<in> freed (snd (wait4_pass (Some (True, True)) w options v))"
  using wait_pass_reaps [OF assms, of options] by (cases "process_wait_pass (Some (True, True)) w options v"; simp add: wait4_pass_def sys_wait4_leave_def)+

text \<open>After the announcement the parent is ready and queued.\<close>

lemma notify_wakes:
  assumes "unique_pids s" "c \<in> set (plist s)" "wait_blocked (infos s a)" "ppid (infos s c) = pid (infos s a)"
    "process_wait_pid_matches_child (wait_target_pid (infos s a)) (infos s a) (infos s c)"
  shows "state (sched (infos (notify_parent a c s) a)) = PROCESS_READY \<and> a \<in> queued (notify_parent a c s)"
proof -
  let ?t = "send_sigchld (pid (infos s a)) s"
  have r: "roused s ?t" by (rule send_sigchld_roused)
  have k: "kin (infos ?t a) = kin (infos s a)" "kin (infos ?t c) = kin (infos s c)" using r by (auto simp: roused_def)
  have u: "unique_pids ?t" using assms(1) roused_unique [OF r] by simp
  have b: "wait_blocked (infos ?t a)" using assms(3) k(1) by (simp add: kin_def)
  have "process_wait_child_matches_blocked_target a (pid (infos ?t c)) ?t"
    using find_pid [OF u, of c] u assms(2-5) kin_fields [OF k(1)] kin_fields [OF k(2)] matches_kin [OF k]
    by (auto simp: process_wait_child_matches_blocked_target_def unique_pids_def not_le)
  then show ?thesis using wake_ready [OF b] b by (simp add: notify_parent_def Let_def)
qed

lemma idle_frame:
  fixes s :: psys
  defines "t \<equiv> (case find (\<lambda>a. \<not> user_mode (infos s a) \<and> \<not> zombie s a \<and> comm (infos s a) = ''idle'') (plist s) of
            None \<Rightarrow> s | Some i \<Rightarrow> s\<lparr>queued := insert i (queued s)\<rparr>)"
  shows "infos t = infos s" "plist t = plist s" "queued s \<subseteq> queued t" "cur t = cur s"
  unfolding t_def by (auto split: option.split)

abbreviation buried_by_exit :: "int \<Rightarrow> psys \<Rightarrow> psys" where
  "buried_by_exit code s \<equiv> bury (cur s) (exit_mark code) (upd (cur s) exit_flags s)"

lemma exit_buried:
  assumes "tree {} s" "\<not> zombie s (cur s)"
  shows "tree {cur s} (buried_by_exit code s)" "cur s \<in> set (plist (buried_by_exit code s))" "zombie (buried_by_exit code s) a \<longleftrightarrow> a = cur s \<or> zombie s a"
    "p \<in> set (plist s) \<Longrightarrow> \<not> zombie s p \<Longrightarrow> p \<in> set (plist (buried_by_exit code s))" "cur (buried_by_exit code s) = cur s"
    "p \<noteq> cur s \<Longrightarrow> \<exists>n. infos (buried_by_exit code s) p = (infos s p)\<lparr>ppid := n\<rparr>"
    "\<exists>n. infos (buried_by_exit code s) (cur s) = (exit_mark code (exit_flags (infos s (cur s))))\<lparr>ppid := n\<rparr> \<and>
       (ppid (infos s (cur s)) \<noteq> pid (infos s (cur s)) \<longrightarrow> n = ppid (infos s (cur s)))"
proof -
  let ?d = "cur s" and ?b = "buried_by_exit code s"
  let ?s1 = "upd ?d exit_flags s"
  have d: "?d \<in> set (plist ?s1)" "\<not> zombie ?s1 ?d" using assms by (auto simp: tree_def exit_flags_def)
  have t1: "tree {} ?s1" using assms(1) by (rule tree_quiet) (simp_all add: quiet_roused exit_flags_def kin_def)
  note f = bury_facts [OF t1 d burial_exit [of code]]
  show "tree {?d} ?b" using bury_tree [OF t1 d burial_exit] d(2) by (simp del: upd_simps(1))
  show "?d \<in> set (plist ?b)" using d by (simp add: f(1) del: upd_simps(1))
  show "zombie ?b a \<longleftrightarrow> a = ?d \<or> zombie s a" by (auto simp: f(9) exit_flags_def split: if_splits)
  show "p \<in> set (plist s) \<Longrightarrow> \<not> zombie s p \<Longrightarrow> p \<in> set (plist ?b)" by (auto simp: f(1) exit_flags_def)
  show "cur ?b = cur s" by (simp add: f(2))
  show "p \<noteq> ?d \<Longrightarrow> \<exists>n. infos ?b p = (infos s p)\<lparr>ppid := n\<rparr>" using f(10) [of p] by simp
  let ?r = "process_reap_zombies ?d ?s1"
  have "unique_pids s" using assms(1) by (simp add: tree_def)
  then have "infos ?r = infos ?s1" by (simp add: reap_zombies_eq unique_pids_def)
  then obtain n where n: "infos (process_reparent_children ?d ?r) ?d = (exit_flags (infos s ?d))\<lparr>ppid := n\<rparr>"
    "n = ppid (infos s ?d) \<or> ppid (infos s ?d) = pid (infos s ?d)"
    using reparent_info [of ?d ?r ?d] by (auto simp: exit_flags_def)
  have "infos ?b ?d = (exit_mark code (exit_flags (infos s ?d)))\<lparr>ppid := n\<rparr>"
    by (simp add: bury_def Let_def n(1)) (simp add: exit_mark_def mark_zombie_def)
  then show "\<exists>n. infos ?b ?d = (exit_mark code (exit_flags (infos s ?d)))\<lparr>ppid := n\<rparr> \<and> (ppid (infos s ?d) \<noteq> pid (infos s ?d) \<longrightarrow> n = ppid (infos s ?d))"
    using n(2) by auto
qed

lemma exit_to_parent:
  fixes s :: psys and code :: int
  assumes s: "tree {} s" "\<not> zombie s (cur s)" and p: "p \<in> set (plist s)" "p \<noteq> cur s" "\<not> zombie s p" "ppid (infos s (cur s)) = pid (infos s p)"
    and w: "wait_blocked (infos s p)" "process_wait_pid_matches_child (wait_target_pid (infos s p)) (infos s p) (infos s (cur s))"
  defines "b \<equiv> buried_by_exit code s" and "u \<equiv> process_exit code s"
  shows "kin (infos u a) = kin (infos b a)" "zombie u a \<longleftrightarrow> zombie b a" "plist u = plist b"
    "state (sched (infos u p)) = PROCESS_READY" "p \<in> queued u" "ppid (infos b (cur s)) = pid (infos s p)"
proof -
  let ?d = "cur s"
  note f = exit_buried [where code = code, OF s, folded b_def]
  have ub: "unique_pids b" using f(1) by (simp add: tree_def)
  obtain n where n: "infos b p = (infos s p)\<lparr>ppid := n\<rparr>" using f(6) [OF p(2)] by blast
  have "ppid (infos s ?d) \<noteq> pid (infos s ?d)" using s p by (auto simp: tree_def unique_pids_def inj_on_def)
  then have d: "infos b ?d = (exit_mark code (exit_flags (infos s ?d)))\<lparr>ppid := pid (infos s p)\<rparr>" using f(7) p(4) by auto
  then show pd: "ppid (infos b ?d) = pid (infos s p)" by simp
  have zp: "\<not> zombie b p" "p \<in> set (plist b)" using f(3) [of p] f(4) p by auto
  have pos: "0 < pid (infos s p)" using s p by (auto simp: tree_def unique_pids_def)
  have "process_find_by_pid (ppid (infos b ?d)) b = Some p" using find_pid_eq [OF ub zp(2)] pd by (simp add: n)
  then have e: "exit_notify ?d b = notify_parent p ?d b" using zp pos pd by (simp add: exit_notify_def)
  have "process_wait_pid_matches_child (wait_target_pid (infos b p)) (infos b p) (infos b ?d)"
    using w(2) by (simp add: n d process_wait_pid_matches_child_def exit_mark_def exit_flags_def)
  then have k: "state (sched (infos (notify_parent p ?d b) p)) = PROCESS_READY \<and> p \<in> queued (notify_parent p ?d b)"
    using w(1) pd by (intro notify_wakes [OF ub f(2)]) (simp_all add: n)
  have r: "roused b (notify_parent p ?d b)" using notify_roused zp by blast
  let ?v = "(notify_parent p ?d b)\<lparr>queued := queued (notify_parent p ?d b) - {?d}\<rparr>"
  have ud: "u = (case find (\<lambda>a. \<not> user_mode (infos ?v a) \<and> \<not> zombie ?v a \<and> comm (infos ?v a) = ''idle'') (plist ?v) of
            None \<Rightarrow> ?v | Some i \<Rightarrow> ?v\<lparr>queued := insert i (queued ?v)\<rparr>)"
    unfolding u_def process_exit_eq Let_def using e by (simp only: b_def)
  note i = idle_frame [of ?v, folded ud]
  show "kin (infos u a) = kin (infos b a)" "zombie u a \<longleftrightarrow> zombie b a" "plist u = plist b"
    using r roused_zombie [OF r] by (simp_all add: i(1,2) roused_def)
  show "state (sched (infos u p)) = PROCESS_READY" "p \<in> queued u" using k i(3) p(2) by (auto simp: i(1))
qed

text \<open>The buried child is then the only one the parent can find.\<close>

lemma exit_only_child:
  assumes s: "tree {} s" "\<not> zombie s (cur s)" and p: "p \<in> set (plist s)" "p \<noteq> cur s" "ppid (infos s (cur s)) = pid (infos s p)"
    and w: "state (sched (infos s p)) = PROCESS_BLOCKED" "wait_blocked (infos s p)"
      "process_wait_pid_matches_child (wait_target_pid (infos s p)) (infos s p) (infos s (cur s))"
    and c: "c \<in> set (plist (buried_by_exit code s))"
  shows "dead_child (buried_by_exit code s) p c \<and>
      process_wait_pid_matches_child (wait_target_pid (infos s p)) (infos (buried_by_exit code s) p) (infos (buried_by_exit code s) c) \<longleftrightarrow> c = cur s"
proof -
  let ?b = "buried_by_exit code s"
  note f = exit_buried [where code = code, OF s]
  have zp: "\<not> zombie s p" using w(1) by simp
  obtain n where n: "infos ?b p = (infos s p)\<lparr>ppid := n\<rparr>" using f(6) [OF p(2)] by blast
  have pb: "p \<in> set (plist ?b)" using f(4) p(1) zp by blast
  have d: "ppid (infos ?b (cur s)) = pid (infos s p)" using exit_to_parent(6) [OF s p(1,2) zp p(3) w(2,3)] .
  obtain k where k: "infos ?b (cur s) = (exit_mark code (exit_flags (infos s (cur s))))\<lparr>ppid := k\<rparr>" using f(7) by blast
  show ?thesis
  proof (cases "c = cur s")
    case True
    then show ?thesis using d f(3) w(3) by (simp add: n) (simp add: k process_wait_pid_matches_child_def exit_mark_def exit_flags_def)
  next
    case False
    then have "\<not> misses ?b p c" using f(1) pb c by (simp add: tree_def)
    then show ?thesis using False w(1,2) by (auto simp: misses_def n)
  qed
qed

text \<open>
  C11: When a process exits while its parent sleeps in \<^verbatim>\<open>wait4\<close> for it, the parent becomes ready and queued, and once it runs the call
  returns the number of exactly this child with its status word (its exit code in the second byte, or the signal that
  ended it) and takes it off the list.
\<close>

theorem wait_gets_exit_status:
  assumes "ptree s" "\<not> zombie s (cur s)" "p \<in> set (plist s)" "p \<noteq> cur s" "ppid (infos s (cur s)) = pid (infos s p)"
    "state (sched (infos s p)) = PROCESS_BLOCKED" "wait_blocked (infos s p)"
    "process_wait_pid_matches_child (wait_target_pid (infos s p)) (infos s p) (infos s (cur s))"
  shows "state (sched (infos (process_exit code s) p)) = PROCESS_READY \<and> p \<in> queued (process_exit code s) \<and>
    (case wait4_pass (Some (True, True)) (wait_target_pid (infos s p)) options (dispatch p (process_exit code s)) of
       (r, t) \<Rightarrow> r = Reaped (pid (infos s (cur s)))
                   (if exit_signal (infos s (cur s)) = 0 then (code AND 0xFF) * 256 else int (exit_signal (infos s (cur s))) AND 0x7F) \<and>
                 cur s \<notin> set (plist t) \<and> cur s \<in> freed t)"
proof -
  let ?b = "buried_by_exit code s" and ?u = "process_exit code s" and ?v = "dispatch p (process_exit code s)" and ?w = "wait_target_pid (infos s p)"
  have s: "tree {} s" "\<not> zombie s p" using assms(1,6) by (simp_all add: ptree_def)
  note f = exit_buried [where code = code, OF s(1) assms(2)] and e = exit_to_parent [where code = code, OF s(1) assms(2,3,4) s(2) assms(5,7,8)]
  have zu: "\<not> zombie ?u p" using e(4) by simp
  have k: "kin (infos ?v a) = kin (infos ?b a)" for a using dispatch_roused_fields(4) e(1) by simp
  have z: "zombie ?v a \<longleftrightarrow> zombie ?b a" for a using dispatch_roused_fields(5) [OF zu] e(2) by simp
  have v: "plist ?v = plist ?b" "cur ?v = p" using dispatch_roused_fields e(3) by simp_all
  have only: "dead_child ?v (cur ?v) c \<and> process_wait_pid_matches_child ?w (infos ?v (cur ?v)) (infos ?v c) \<longleftrightarrow> c = cur s" if "c \<in> set (plist ?v)" for c
    using exit_only_child [where code = code, OF s(1) assms(2-8), of c] that kin_fields(1,2) [OF k] matches_kin [OF k k] z unfolding v by simp
  have d: "cur s \<in> set (plist ?v)" "distinct (plist ?v)" "cur s \<noteq> cur ?v" using f(1,2) assms(4) by (auto simp: v tree_def unique_pids_def)
  obtain n where n: "infos ?b (cur s) = (exit_mark code (exit_flags (infos s (cur s))))\<lparr>ppid := n\<rparr>" using f(7) by blast
  have "pid (infos ?v (cur s)) = pid (infos s (cur s))"
    "process_child_wait_status_word (infos ?v (cur s)) =
       (if exit_signal (infos s (cur s)) = 0 then (code AND 0xFF) * 256 else int (exit_signal (infos s (cur s))) AND 0x7F)"
    using kin_fields [OF k, of "cur s"] by (simp_all add: n process_child_wait_status_word_def exit_mark_def exit_flags_def)
  then show ?thesis using wait4_pass_reaps [OF d only, of options] e(4,5) by (auto simp: case_prod_beta)
qed

theorem wait_gets_exit_status_witness:
  "fst (wait4_pass (Some (True, True)) (- 1) 0 (dispatch 1 (process_exit 7 family))) = Reaped 2 (7 * 256)"
proof -
  have "ptree family" using pruns_tree [OF boot_family _ boot_tree] by (simp add: ptree_def boot_def)
  moreover have "(7::int) AND 0xFF = 7" by code_simp
  ultimately show ?thesis
    using wait_gets_exit_status [of family 1 7 0] family_facts by (simp add: case_prod_beta process_wait_pid_matches_child_def)
qed

section \<open>A signal that cannot be caught\<close>

text \<open>
  C17: \<^verbatim>\<open>SIGKILL\<close> sent with \<^verbatim>\<open>kill\<close> to a live process other than process 1 and the sender ends it at once whatever it blocks, ignores or
  catches: it is a zombie with the status of signal 9, off the queue, with no open files and no children; the tree stays sound.
\<close>

theorem sigkill_ends:
  assumes "ptree s" "\<not> zombie s (cur s)" "a \<in> set (plist s)" "a \<noteq> cur s" "\<not> zombie s a" "pid (infos s a) \<noteq> 1"
  shows "\<exists>t. sys_kill (pid (infos s a)) 9 s = Inr (Inr (), t) \<and> ptree t \<and> a \<in> set (plist t) \<and> zombie t a \<and>
    process_child_wait_status_word (infos t a) = 9 \<and> a \<notin> queued t \<and> a \<notin> open_files t \<and>
    (\<forall>c\<in>set (plist t). c \<noteq> a \<longrightarrow> ppid (infos t c) \<noteq> pid (infos t a))"
proof -
  have s: "tree {} s" "unique_pids s" using assms(1) by (simp_all add: ptree_def tree_def)
  let ?b = "buried a 9 s" and ?t = "kill_notify a (buried a 9 s)" and ?s1 = "upd a (\<lambda>p. p\<lparr>irq_frame_saved := False\<rparr>) s"
  have t1: "tree {} ?s1" using s(1) by (rule tree_quiet) (simp_all add: quiet_roused kin_def)
  have d: "a \<in> set (plist ?s1)" "\<not> zombie ?s1 a" using assms by simp_all
  note f = bury_facts [OF t1 d burial_kill [of 9]] and b = buried_tree [OF s(1) assms(2,3,5), of 9]
  have r: "roused ?b ?t" by (rule kill_notify_roused)
  have k: "kin (infos ?t c) = kin (infos ?b c)" "plist ?t = plist ?b" "open_files ?t = open_files ?b" for c using r by (auto simp: roused_def)
  have "0 < pid (infos s a)" using s(2) assms(3) by (simp add: unique_pids_def)
  then have "sys_kill (pid (infos s a)) 9 s = Inr (Inr (), ?t)"
    using find_pid [OF s(2) assms(3)] kill_other_eq [OF assms(5), of 9] assms(4,6)
    by (simp add: sys_kill_def sent_def send_signal_def discards_def process_signal_is_default_fatal_def signal_numbers Let_def)
  moreover have "ptree ?t" using kill_notify_settles [OF b] by (simp add: ptree_def)
  moreover have "zombie ?t a" "a \<in> set (plist ?t)" "a \<notin> queued ?t" "a \<notin> open_files ?t"
    using b roused_zombie [OF r, of a] kill_notify_queued k(2,3) f(4) by (simp_all add: buried_def Let_def)
  moreover have "process_child_wait_status_word (infos ?t a) = 9"
  proof -
    have "exit_signal (infos ?b a) = 9" by (simp add: buried_def bury_def kill_mark_def Let_def)
    moreover have "(9::int) AND 0x7F = 9" by code_simp
    ultimately show ?thesis using kin_fields(6) [OF k(1), of a] by (simp add: process_child_wait_status_word_def)
  qed
  moreover have "ppid (infos ?t c) \<noteq> pid (infos ?t a)" if "c \<in> set (plist ?t)" "c \<noteq> a" for c
    using bury_ppid(2) [OF t1 d burial_kill [of 9], of c] that f(7) [of a] kin_fields(1,2) [OF k(1)] k(2) by (simp add: buried_def Let_def)
  ultimately show ?thesis by blast
qed

theorem sigkill_ends_witness:
  "\<exists>t. sys_kill 2 9 (upd 2 (\<lambda>p. p\<lparr>signal_mask := - 1\<rparr>) boot_forked) = Inr (Inr (), t) \<and> zombie t 2"
proof -
  let ?f = boot_forked and ?s = "upd 2 (\<lambda>p. p\<lparr>signal_mask := - 1\<rparr>) boot_forked"
  have "pruns 1 boot ?f" using pr_step [OF pr_refl boot_fork_step] by simp
  then have "tree {} ?f" using pruns_tree boot_tree by (simp add: boot_def)
  then have "ptree ?s" unfolding ptree_def by (rule tree_kin_state) (simp add: kin_state_def)
  then show ?thesis using sigkill_ends [of ?s 2] fork_boot(2-) fork_boot_parent(4) by auto
qed

section \<open>A child that is never woken\<close>

lemma notify_leaves:
  assumes "pid (infos s c) \<noteq> pid (infos s a)"
  shows "infos (notify_parent a d s) c = infos s c" "c \<notin> queued s \<Longrightarrow> c \<notin> queued (notify_parent a d s)"
proof -
  have ca: "c \<noteq> a" using assms by auto
  have s: "infos (send_sigchld (pid (infos s a)) s) c = infos s c"
    using assms find_pid_Some [of "pid (infos s a)" s] by (auto simp: send_sigchld_def post_signal_def Let_def split: option.split)
  have w: "infos (process_wait_wake_blocked_parent a d t) c = infos t c" for t using ca by (simp add: process_wait_wake_blocked_parent_def Let_def)
  show "infos (notify_parent a d s) c = infos s c" by (simp add: notify_parent_def Let_def w s)
  show "c \<notin> queued s \<Longrightarrow> c \<notin> queued (notify_parent a d s)" using notify_queued [of a d s] ca by auto
qed

lemma tell_init_leaves:
  assumes "c \<noteq> d" "pid (infos s c) \<noteq> 1"
  shows "infos (tell_init d s) c = infos s c" "c \<notin> queued s \<Longrightarrow> c \<notin> queued (tell_init d s)"
proof -
  let ?t = "upd d (\<lambda>p. p\<lparr>ppid := 1\<rparr>) s"
  have c: "infos ?t c = infos s c" using assms(1) by simp
  have "infos (tell_init d s) c = infos s c \<and> (c \<notin> queued s \<longrightarrow> c \<notin> queued (tell_init d s))"
  proof (cases "process_find_by_pid 1 ?t")
    case None
    then have "tell_init d s = ?t" by (simp only: tell_init_def Let_def option.case)
    then show ?thesis using c by simp
  next
    case (Some i)
    have i: "pid (infos ?t i) = 1" using find_pid_Some [OF Some] by blast
    have ci: "c \<noteq> i" using assms(2) i c by auto
    let ?v = "send_sigchld (pid (infos ?t i)) ?t"
    have ps: "infos (post_signal i k u) c = infos u c" for k u using ci by (simp add: post_signal_def Let_def)
    have v: "infos ?v c = infos ?t c" using Some by (simp add: send_sigchld_def i ps del: upd_simps(1))
    have w: "infos (process_wait_wake_blocked_parent i d u) c = infos u c" for u using ci by (simp add: process_wait_wake_blocked_parent_def Let_def)
    have e: "tell_init d s = (if state (sched (infos ?v i)) = PROCESS_BLOCKED then process_wait_wake_blocked_parent i d ?v else ?v)"
      using Some by (simp only: tell_init_def Let_def option.case)
    have "infos (tell_init d s) c = infos s c" unfolding e using v w c by (simp del: upd_simps(1))
    moreover have "c \<notin> queued s \<Longrightarrow> c \<notin> queued (tell_init d s)" unfolding e using wake_queued [of i d ?v] ci by auto
    ultimately show ?thesis by blast
  qed
  then show "infos (tell_init d s) c = infos s c" "c \<notin> queued s \<Longrightarrow> c \<notin> queued (tell_init d s)" by blast+
qed

lemma tell_init_roused: "roused (upd d (\<lambda>p. p\<lparr>ppid := 1\<rparr>) s) (tell_init d s)"
proof -
  let ?t = "upd d (\<lambda>p. p\<lparr>ppid := 1\<rparr>) s"
  show ?thesis
  proof (cases "process_find_by_pid 1 ?t")
    case None
    then have "tell_init d s = ?t" by (simp only: tell_init_def Let_def option.case)
    then show ?thesis by simp
  next
    case (Some i)
    let ?v = "send_sigchld (pid (infos ?t i)) ?t"
    have "tell_init d s = (if state (sched (infos ?v i)) = PROCESS_BLOCKED then process_wait_wake_blocked_parent i d ?v else ?v)"
      using Some by (simp only: tell_init_def Let_def option.case)
    then show ?thesis using roused_trans [OF send_sigchld_roused wake_roused, of _ ?t] send_sigchld_roused [of ?t] by simp
  qed
qed

text \<open>An exit neither wakes nor queues a process that is not the parent, not process 1 and not idle.\<close>

lemma exit_leaves:
  assumes t: "tree {} s" "\<not> zombie s (cur s)" and c: "c \<in> set (plist s)" "c \<noteq> cur s" "\<not> zombie s c" "c \<notin> queued s"
    and p: "pid (infos s c) \<noteq> 1" "pid (infos s c) \<noteq> ppid (infos s (cur s))" "user_mode (infos s c)"
  shows "\<exists>n. infos (process_exit code s) c = (infos s c)\<lparr>ppid := n\<rparr>" "c \<notin> queued (process_exit code s)" "c \<in> set (plist (process_exit code s))"
    "zombie (process_exit code s) (cur s)"
proof -
  let ?b = "buried_by_exit code s" and ?d = "cur s"
  note f = exit_buried [where code = code, OF t]
  obtain n where n: "infos ?b c = (infos s c)\<lparr>ppid := n\<rparr>" using f(6) [OF c(2)] by blast
  have zd: "zombie ?b ?d" using f(3) by blast
  have d: "?d \<in> set (plist (upd ?d exit_flags s))" "\<not> zombie (upd ?d exit_flags s) ?d" using t by (auto simp: tree_def exit_flags_def)
  have t1: "tree {} (upd ?d exit_flags s)" using t(1) by (rule tree_quiet) (simp_all add: quiet_roused exit_flags_def kin_def)
  note g = bury_facts [OF t1 d burial_exit [of code]]
  have q: "c \<notin> queued ?b" using g(3) c(4) by simp
  have pp: "pid (infos s c) \<noteq> ppid (infos ?b ?d)"
  proof -
    have "0 < pid (infos s c)" using t(1) c(1) by (auto simp: tree_def unique_pids_def)
    then show ?thesis using bury_ppid(1) [OF t1 d burial_exit [of code], of ?d] p(1,2) by (auto simp: exit_flags_def)
  qed
  let ?e = "exit_notify ?d ?b"
  have e: "infos ?e c = infos ?b c \<and> c \<notin> queued ?e \<and> plist ?e = plist ?b \<and> zombie ?e ?d"
  proof (cases "0 < ppid (infos ?b ?d)")
    case False
    then show ?thesis using q zd by (simp add: exit_notify_def)
  next
    case True
    have ti: "infos (tell_init ?d ?b) c = infos ?b c \<and> c \<notin> queued (tell_init ?d ?b) \<and> plist (tell_init ?d ?b) = plist ?b \<and> zombie (tell_init ?d ?b) ?d"
      using tell_init_leaves [of c ?d ?b] c(2) p(1) n q tell_init_roused [of ?d ?b] roused_zombie [OF tell_init_roused [of ?d ?b]] zd by (simp add: roused_def)
    show ?thesis
    proof (cases "process_find_by_pid (ppid (infos ?b ?d)) ?b")
      case None
      then show ?thesis using True ti by (simp add: exit_notify_def)
    next
      case (Some a)
      show ?thesis
      proof (cases "zombie ?b a")
        case True
        then show ?thesis using Some ti \<open>0 < ppid (infos ?b ?d)\<close> by (simp add: exit_notify_def)
      next
        case False
        have pa: "pid (infos ?b a) = ppid (infos ?b ?d)" using find_pid_Some [OF Some] by blast
        have "pid (infos ?b c) \<noteq> pid (infos ?b a)" using pp pa by (simp add: n)
        note l = notify_leaves [OF this]
        have r: "roused ?b (notify_parent a ?d ?b)" using notify_roused False by blast
        have "?e = notify_parent a ?d ?b" using Some False \<open>0 < ppid (infos ?b ?d)\<close> by (simp add: exit_notify_def)
        then show ?thesis using l q r roused_zombie [OF r] zd by (simp add: roused_def)
      qed
    qed
  qed
  let ?v = "?e\<lparr>queued := queued ?e - {?d}\<rparr>"
  have u: "process_exit code s = (case find (\<lambda>a. \<not> user_mode (infos ?v a) \<and> \<not> zombie ?v a \<and> comm (infos ?v a) = ''idle'') (plist ?v) of
            None \<Rightarrow> ?v | Some i \<Rightarrow> ?v\<lparr>queued := insert i (queued ?v)\<rparr>)"
    unfolding process_exit_eq Let_def ..
  have uc: "user_mode (infos ?v c)" using e n p(3) by simp
  have i: "infos (process_exit code s) = infos ?e" "plist (process_exit code s) = plist ?e" unfolding u by (auto split: option.split)
  show "\<exists>n. infos (process_exit code s) c = (infos s c)\<lparr>ppid := n\<rparr>" using e n i by auto
  show "c \<in> set (plist (process_exit code s))" using f(4) c e i by simp
  show "zombie (process_exit code s) ?d" using e i by simp
  show "c \<notin> queued (process_exit code s)" unfolding u using e uc by (auto simp: find_Some_iff split: option.split)
qed

text \<open>
  C38: The child of a \<^verbatim>\<open>fork\<close> can be lost. The way out of the call handles the pending signals of the parent before it wakes the child, so when
  handling them ends the parent, the child stays on the list, blocked outside every call and in no queue, while only its parent, now a zombie,
  would have woken it.
\<close>

theorem fork_child_stranded:
  assumes "ptree s" "\<not> zombie s (cur s)" "c \<notin> set (plist s)" "next_pid s < 2147483647" "user_mode (infos s (cur s))"
    and x: "signals_prepare_user_return e (infos (fork c s) (cur s)) = Exit code x"
  shows "c \<in> set (plist (fork_call e c s)) \<and> state (sched (infos (fork_call e c s) c)) = PROCESS_BLOCKED \<and> \<not> wait_blocked (infos (fork_call e c s) c) \<and>
    c \<notin> queued (fork_call e c s) \<and> zombie (fork_call e c s) (cur s)"
proof -
  have t: "tree {} s" using assms(1) by (simp add: ptree_def)
  then have cc: "c \<noteq> cur s" "c \<notin> queued s" using assms(3) by (auto simp: tree_def)
  note f = fork_fields [OF cc(1)]
  obtain r where r: "infos (fork c s) (cur s) = (infos s (cur s))\<lparr>task_regs := r\<rparr>" using f(5) [of "cur s"] cc(1) by blast
  have ft: "tree {} (fork c s)" using fork_tree [OF t assms(3,2)] assms(4) by simp
  have z: "\<not> zombie (fork c s) (cur (fork c s))" using assms(2) r f(7) by simp
  obtain b q where xq: "x = (b, q)" by (cases x)
  have sx: "signals_prepare_user_return e (infos (fork c s) (cur (fork c s))) = Exit code (b, q)" using x xq f(7) by simp
  note k = signalled_tree [OF ft z sx, of b q]
  have i: "ids q = ids (infos s (cur s))" using prepare_return_same [OF sx, of b q] by (simp add: f(7) r ids_def)
  let ?u = "upd (cur s) (\<lambda>_. q) (fork c s)"
  have u: "tree {} ?u" "\<not> zombie ?u (cur ?u)" using k f(7) by simp_all
  have e: "fork_call e c s = process_exit code ?u" using sx assms(5) r f(7) by (simp add: fork_call_def fork_return_def syscall_signals_def)
  have m: "cur s \<in> set (plist s)" "unique_pids s" "owned s (cur s)" using t by (auto simp: tree_def)
  then have n: "1 < next_pid s" "ppid (infos s (cur s)) < next_pid s" by (auto simp: unique_pids_def owned_def)
  have p: "c \<in> set (plist ?u)" "c \<noteq> cur ?u" "\<not> zombie ?u c" "c \<notin> queued ?u" "pid (infos ?u c) \<noteq> 1" "pid (infos ?u c) \<noteq> ppid (infos ?u (cur ?u))" "user_mode (infos ?u c)"
    using f cc i n assms(5) by (simp_all add: ids_def)
  note l = exit_leaves [OF u p, of code]
  show ?thesis unfolding e using l f(3,4,7) cc(1) by auto
qed

theorem fork_child_stranded_witness:
  "2 \<notin> queued (fork_call all_ok 2 (upd 1 (\<lambda>p. p\<lparr>signal_pending := SIGNAL_MASK SIGTERM\<rparr>) boot)) \<and>
   state (sched (infos (fork_call all_ok 2 (upd 1 (\<lambda>p. p\<lparr>signal_pending := SIGNAL_MASK SIGTERM\<rparr>) boot)) 2)) = PROCESS_BLOCKED"
proof -
  let ?s = "upd 1 (\<lambda>p. p\<lparr>signal_pending := SIGNAL_MASK SIGTERM\<rparr>) boot"
  have s: "ptree ?s" unfolding ptree_def by (rule tree_kin_state [OF boot_tree]) (simp add: kin_state_def)
  have c: "cur ?s = 1" "2 \<notin> set (plist ?s)" "next_pid ?s < 2147483647" "\<not> zombie ?s (cur ?s)" "user_mode (infos ?s (cur ?s))"
    by (simp_all add: boot_def init_proc_def)
  then have n: "(2::nat) \<noteq> cur ?s" by simp
  obtain r where r: "infos (fork 2 ?s) 1 = init_proc\<lparr>signal_pending := SIGNAL_MASK SIGTERM, task_regs := r\<rparr>"
    using fork_fields(5) [OF n, of 1] by (auto simp: boot_def)
  let ?p = "init_proc\<lparr>signal_pending := SIGNAL_MASK SIGTERM, task_regs := r\<rparr>"
  have z: "SIGNAL_MASK 15 \<noteq> 0" by code_simp
  have h: "handle_signals all_ok ?p = die SIGTERM ?p"
    by (simp add: handle_signals_def z default_stages_def kill_stage_def stop_stage_def fault_stage_def term_stage_def signal_numbers die_def init_proc_def blank_info_def
        signals_has_user_handler_def caught_def SIG_DFL_def)
  have "signals_prepare_user_return all_ok ?p = Exit 0 (False, (clear_pending SIGTERM ?p)\<lparr>exit_signal := SIGTERM\<rparr>)"
    unfolding signals_prepare_user_return_def h by (simp add: die_def signals_should_handle_on_run_def z init_proc_def blank_info_def signal_numbers)
  then have x: "signals_prepare_user_return all_ok (infos (fork 2 ?s) (cur ?s)) = Exit 0 (False, (clear_pending SIGTERM ?p)\<lparr>exit_signal := SIGTERM\<rparr>)"
    unfolding c(1) r .
  show ?thesis using fork_child_stranded [OF s c(4,2,3,5) x] by blast
qed
end
