(* ===== verification/Dns.thy ===== *)
theory Dns
  imports Prelude
begin

text \<open>
  The resolver (\<^verbatim>\<open>net/dns.c\<close>): names in wire format, the query, the parser of responses, which works on whatever arrives from the
  network, and the wait for the answer. A packet is a list of bytes and a pointer into it an offset; reading behind its end and writing
  behind the end of a buffer are \<open>Stuck\<close>. Sending, the clock and the payloads that reach the handler while a caller waits are arguments.
\<close>

section \<open>Bytes\<close>

definition bytes_at :: "u8 list \<Rightarrow> nat \<Rightarrow> nat \<Rightarrow> u8 list kresult" where
  "bytes_at pk p n = (if p + n \<le> length pk then Done (take n (drop p pk)) else Stuck)"

definition byte_at :: "u8 list \<Rightarrow> nat \<Rightarrow> u8 kresult" where
  "byte_at pk p = (if p < length pk then Done (pk ! p) else Stuck)"

definition be16 :: "u8 \<Rightarrow> u8 \<Rightarrow> u16" where
  "be16 a b = push_bit 8 (ucast a) OR ucast b"

definition be16_at :: "u8 list \<Rightarrow> nat \<Rightarrow> u16 kresult" where
  "be16_at pk p = kbind (bytes_at pk p 2) (\<lambda>b. Done (be16 (b ! 0) (b ! 1)))"

definition put16 :: "u16 \<Rightarrow> u8 list" where
  "put16 v = [ucast (drop_bit 8 v), ucast v]"

text \<open>\<^verbatim>\<open>memcpy\<close> of an address in network order to a little-endian word.\<close>

definition le32 :: "u8 list \<Rightarrow> u32" where
  "le32 b = ucast (b ! 0) OR push_bit 8 (ucast (b ! 1)) OR push_bit 16 (ucast (b ! 2)) OR push_bit 24 (ucast (b ! 3))"

text \<open>Appending to the filled part of a buffer of \<open>m\<close> bytes.\<close>

definition put :: "nat \<Rightarrow> u8 list \<Rightarrow> u8 list \<Rightarrow> u8 list kresult" where
  "put m buf bs = (if length buf + length bs \<le> m then Done (buf @ bs) else Stuck)"

section \<open>Names\<close>

definition encode_last :: "nat \<Rightarrow> u8 list \<Rightarrow> u8 list \<Rightarrow> u8 list option kresult" where
  "encode_last m lab buf =
     (if length buf + length lab + 2 > m then Done None
      else kbind (put m buf (of_nat (length lab) # lab)) (\<lambda>b. kbind (put m b [0]) (\<lambda>b1. Done (Some b1))))"

text \<open>\<open>lab\<close> are the characters between \<^verbatim>\<open>start\<close> and \<^verbatim>\<open>domain\<close>.\<close>

fun encode_loop :: "nat \<Rightarrow> u8 list \<Rightarrow> u8 list \<Rightarrow> u8 list \<Rightarrow> u8 list option kresult" where
  "encode_loop m [] lab buf = encode_last m lab buf"
| "encode_loop m (c # cs) lab buf =
     (if \<not> length buf < sub64 m 1 then encode_last m lab buf
      else if c = 46 then
        (if length buf + length lab + 1 > m then Done None
         else kbind (put m buf (of_nat (length lab) # lab)) (\<lambda>b. encode_loop m cs [] b))
      else encode_loop m cs (lab @ [c]) buf)"

definition dns_encode_name :: "u8 list \<Rightarrow> nat \<Rightarrow> u8 list option kresult" where
  "dns_encode_name domain buf_len = encode_loop buf_len domain [] []"

lemma kbind_cong [fundef_cong]: "r = r' \<Longrightarrow> (\<And>x. r' = Done x \<Longrightarrow> f x = g x) \<Longrightarrow> kbind r f = kbind r' g"
  by (cases r') simp_all

text \<open>The offset behind the name and the name; \<open>None\<close> is the result NULL.\<close>

function decode_loop :: "u8 list \<Rightarrow> nat \<Rightarrow> nat \<Rightarrow> nat \<Rightarrow> nat option \<Rightarrow> u8 list \<Rightarrow> (nat \<times> u8 list) option kresult" where
  "decode_loop pk out_len jumps ptr consumed out =
     (if \<not> (ptr < length pk \<and> jumps < 32) then Done None
      else kbind (byte_at pk ptr) (\<lambda>c.
        if c = 0 then
          (if length out < out_len then Done (Some (case consumed of None \<Rightarrow> ptr + 1 | Some k \<Rightarrow> k, out)) else Stuck)
        else if c AND 0xC0 = 0xC0 then
          (if ptr + 1 \<ge> length pk then Done None
           else kbind (byte_at pk (ptr + 1)) (\<lambda>d.
             let off = unat (be16 (c AND 0x3F) d) in
             if off \<ge> length pk then Done None
             else decode_loop pk out_len (jumps + 1) off (case consumed of None \<Rightarrow> Some (ptr + 2) | Some k \<Rightarrow> Some k) out))
        else if c AND 0xC0 \<noteq> 0 then Done None
        else
          let n = unat c; p = ptr + 1 in
          if n > 63 \<or> p + n > length pk then Done None
          else if length out + (if out \<noteq> [] then 1 else 0) + n + 1 > out_len then Done None
          else kbind (put out_len out (if out \<noteq> [] then [46] else [])) (\<lambda>out1.
                 kbind (bytes_at pk p n) (\<lambda>lab.
                   kbind (put out_len out1 lab) (\<lambda>out2. decode_loop pk out_len jumps (p + n) consumed out2)))))"
  by pat_completeness auto
termination
  by (relation "measures [\<lambda>(pk, m, jumps, ptr, c, out). 32 - jumps, \<lambda>(pk, m, jumps, ptr, c, out). length pk - ptr]") auto

declare decode_loop.simps [simp del]

definition dns_decode_name :: "nat \<Rightarrow> u8 list \<Rightarrow> nat \<Rightarrow> (nat \<times> u8 list) option kresult" where
  "dns_decode_name data pk out_len =
     (if out_len = 0 \<or> data \<ge> length pk then Done None else decode_loop pk out_len 0 data None [])"

section \<open>Pending queries\<close>

record dns_query =
  qid :: u16
  result :: u32
  timestamp :: nat
  resolved :: bool

text \<open>The queries with their addresses, the latest first.\<close>

record dns =
  pending_queries :: "(nat \<times> dns_query) list"
  dns_query_id_counter :: u16
  dns_net_dev :: bool
  dns_handler_registered :: bool
  dns_default_server :: u32

definition dns_pending_find :: "u16 \<Rightarrow> dns \<Rightarrow> (nat \<times> dns_query) option" where
  "dns_pending_find i s = find (\<lambda>(a, q). qid q = i) (pending_queries s)"

definition dns_pending_add :: "nat \<Rightarrow> dns_query \<Rightarrow> dns \<Rightarrow> dns" where
  "dns_pending_add a q s = s\<lparr>pending_queries := (a, q) # pending_queries s\<rparr>"

fun remove_first :: "nat \<Rightarrow> (nat \<times> 'a) list \<Rightarrow> (nat \<times> 'a) list" where
  "remove_first a [] = []"
| "remove_first a ((b, q) # xs) = (if a = b then xs else (b, q) # remove_first a xs)"

definition dns_pending_remove :: "nat \<Rightarrow> dns \<Rightarrow> dns" where
  "dns_pending_remove a s = s\<lparr>pending_queries := remove_first a (pending_queries s)\<rparr>"

section \<open>Responses\<close>

definition DNS_TYPE_A :: u16 where "DNS_TYPE_A = 1"
definition DNS_CLASS_IN :: u16 where "DNS_CLASS_IN = 1"
definition DNS_RCODE_NOERROR :: u16 where "DNS_RCODE_NOERROR = 0"

text \<open>The loops over the question and the answer section.\<close>

fun skip_questions :: "nat \<Rightarrow> u8 list \<Rightarrow> nat \<Rightarrow> nat option kresult" where
  "skip_questions 0 pk ptr = Done (Some ptr)"
| "skip_questions (Suc n) pk ptr =
     kbind (dns_decode_name ptr pk 256) (\<lambda>r.
       case r of
         None \<Rightarrow> Done None
       | Some (e, _) \<Rightarrow> if e + 4 > length pk then Done None else skip_questions n pk (e + 4))"

fun find_answer :: "nat \<Rightarrow> u8 list \<Rightarrow> nat \<Rightarrow> u32 option kresult" where
  "find_answer 0 pk ptr = Done None"
| "find_answer (Suc n) pk ptr =
     (if ptr \<ge> length pk then Done None
      else kbind (dns_decode_name ptr pk 256) (\<lambda>r.
        case r of
          None \<Rightarrow> Done None
        | Some (e, _) \<Rightarrow>
            if e + 10 > length pk then Done None
            else kbind (be16_at pk e) (\<lambda>ty. kbind (be16_at pk (e + 2)) (\<lambda>cl. kbind (be16_at pk (e + 8)) (\<lambda>rdlength.
              let p = e + 10 in
              if ty = DNS_TYPE_A \<and> cl = DNS_CLASS_IN \<and> rdlength = 4 \<and> p + 4 \<le> length pk
              then kbind (bytes_at pk p 4) (\<lambda>b. Done (Some (le32 b)))
              else if p + unat rdlength > length pk then Done None
              else find_answer n pk (p + unat rdlength))))))"

definition answer_query :: "u16 \<Rightarrow> u32 \<Rightarrow> dns \<Rightarrow> dns" where
  "answer_query i addr s =
     (case dns_pending_find i s of
        None \<Rightarrow> s
      | Some (a, _) \<Rightarrow> s\<lparr>pending_queries := map (\<lambda>(b, q). if b = a then (b, q\<lparr>result := addr, resolved := True\<rparr>) else (b, q)) (pending_queries s)\<rparr>)"

definition dns_response_handler :: "u8 list \<Rightarrow> dns \<Rightarrow> dns kresult" where
  "dns_response_handler pk s =
     (if length pk < 12 then Done s
      else kbind (be16_at pk 0) (\<lambda>i. kbind (be16_at pk 2) (\<lambda>flags. kbind (be16_at pk 4) (\<lambda>qdcount. kbind (be16_at pk 6) (\<lambda>ancount.
        if flags AND 0x8000 = 0 then Done s
        else if flags AND 0xF \<noteq> DNS_RCODE_NOERROR then Done s
        else kbind (skip_questions (unat qdcount) pk 12) (\<lambda>r.
          case r of
            None \<Rightarrow> Done s
          | Some ptr \<Rightarrow> kbind (find_answer (unat ancount) pk ptr) (\<lambda>x.
              case x of None \<Rightarrow> Done s | Some addr \<Rightarrow> Done (answer_query i addr s))))))))"

section \<open>Queries\<close>

definition DNS_MAX_QUERY_LEN :: nat where "DNS_MAX_QUERY_LEN = 512"
definition DNS_DEFAULT_TIMEOUT_MS :: nat where "DNS_DEFAULT_TIMEOUT_MS = 5000"
definition max_stagnant_loops :: nat where "max_stagnant_loops = 50000000"

definition dns_header :: "u16 \<Rightarrow> u16 \<Rightarrow> u16 \<Rightarrow> u16 \<Rightarrow> u8 list" where
  "dns_header i flags qdcount ancount = put16 i @ put16 flags @ put16 qdcount @ put16 ancount @ put16 0 @ put16 0"

definition build_query :: "u16 \<Rightarrow> u8 list \<Rightarrow> u8 list option kresult" where
  "build_query i domain =
     kbind (dns_encode_name domain (DNS_MAX_QUERY_LEN - 12)) (\<lambda>r.
       case r of
         None \<Rightarrow> Done None
       | Some nm \<Rightarrow>
           if 12 + length nm + 4 > DNS_MAX_QUERY_LEN then Done None
           else Done (Some (dns_header i 0x100 1 0 @ nm @ put16 DNS_TYPE_A @ put16 DNS_CLASS_IN)))"

text \<open>
  The wait: one round per time sample, with the payloads that reach the handler in it. \<open>None\<close> where the samples end before the call returns.
\<close>

fun handle_all :: "u8 list list \<Rightarrow> dns \<Rightarrow> dns kresult" where
  "handle_all [] s = Done s"
| "handle_all (pk # pks) s = kbind (dns_response_handler pk s) (handle_all pks)"

fun dns_wait :: "nat \<Rightarrow> nat \<Rightarrow> nat \<Rightarrow> nat \<Rightarrow> (nat \<times> u8 list list) list \<Rightarrow> dns \<Rightarrow> (u32 \<times> dns) option kresult" where
  "dns_wait a start sample stagnant [] s = Done None"
| "dns_wait a start sample stagnant ((now, pks) # env) s =
     (let elapsed = (if now \<ge> start then now - start else DNS_DEFAULT_TIMEOUT_MS + 1) in
      if elapsed \<ge> DNS_DEFAULT_TIMEOUT_MS then Done (Some (0, dns_pending_remove a s))
      else
        let (stagnant1, sample1) = (if now = sample then (stagnant + 1, sample) else (0, now)) in
        if stagnant1 \<ge> max_stagnant_loops then Done (Some (0, dns_pending_remove a s))
        else kbind (handle_all pks s) (\<lambda>s1.
          case map_of (pending_queries s1) a of
            None \<Rightarrow> Stuck
          | Some q \<Rightarrow> if resolved q then Done (Some (result q, dns_pending_remove a s1)) else dns_wait a start sample1 stagnant1 env s1))"

text \<open>
  \<open>dev\<close>: whether there is a device; \<open>mem\<close>: the address of the new query, if there is memory; \<open>sent\<close>: whether sending works. The result also has
  what was sent, to which server.
\<close>

definition dns_resolve :: "bool \<Rightarrow> nat option \<Rightarrow> bool \<Rightarrow> nat \<Rightarrow> nat \<Rightarrow> (nat \<times> u8 list list) list \<Rightarrow> u8 list option \<Rightarrow> u32 \<Rightarrow> dns \<Rightarrow>
    ((u8 list \<times> u32) option \<times> (u32 \<times> dns) option) kresult" where
  "dns_resolve dev mem ok now start env domain_name server s =
     (case domain_name of
        None \<Rightarrow> Done (None, Some (0, s))
      | Some domain \<Rightarrow>
          if \<not> dns_net_dev s then Done (None, Some (0, s))
          else
            let srv = (if server = 0 then dns_default_server s else server) in
            if \<not> dev then Done (None, Some (0, s))
            else
              let i = dns_query_id_counter s; s1 = s\<lparr>dns_query_id_counter := i + 1\<rparr> in
              kbind (build_query i domain) (\<lambda>r.
                case r of
                  None \<Rightarrow> Done (None, Some (0, s1))
                | Some pk \<Rightarrow>
                    (case mem of
                       None \<Rightarrow> Done (None, Some (0, s1))
                     | Some a \<Rightarrow>
                         let s2 = (dns_pending_add a \<lparr>qid = i, result = 0, timestamp = now, resolved = False\<rparr> s1)\<lparr>dns_handler_registered := True\<rparr> in
                         if \<not> ok then Done (Some (pk, srv), Some (0, dns_pending_remove a s2))
                         else kbind (dns_wait a start start 0 env s2) (\<lambda>w. Done (Some (pk, srv), w)))))"

definition dns_set_default_server :: "u32 \<Rightarrow> dns \<Rightarrow> dns" where
  "dns_set_default_server srv s = s\<lparr>dns_default_server := srv\<rparr>"

definition dns_init :: "bool \<Rightarrow> dns \<Rightarrow> dns" where
  "dns_init dev s = dns_set_default_server 0x0302000A (if dev then s\<lparr>dns_net_dev := True\<rparr> else s)"
end
