(* ===== verification/Dns_Props.thy ===== *)
theory Dns_Props
  imports Dns
begin

text \<open>
  Properties of the resolver: every packet is parsed inside its bounds and to the end, a name survives encoding and decoding, the
  answer to a query reaches the caller, and no query is left behind.
\<close>

section \<open>Parsing ends inside the packet\<close>

lemma kbind_ok: "r = Done x \<Longrightarrow> kbind r f = f x"
  by simp

lemma put_ok [simp]: "length buf + length bs \<le> m \<Longrightarrow> put m buf bs = Done (buf @ bs)"
  by (simp add: put_def)

lemma byte_at_ok [simp]: "p < length pk \<Longrightarrow> byte_at pk p = Done (pk ! p)"
  by (simp add: byte_at_def)

lemma bytes_at_ok [simp]: "p + n \<le> length pk \<Longrightarrow> bytes_at pk p n = Done (take n (drop p pk))"
  by (simp add: bytes_at_def)

lemma be16_at_ok [simp]: "p + 2 \<le> length pk \<Longrightarrow> be16_at pk p = Done (be16 (pk ! p) (pk ! (p + 1)))"
  by (simp add: be16_at_def)

definition name_end :: "u8 list \<Rightarrow> nat \<Rightarrow> (nat \<times> u8 list) option \<Rightarrow> bool" where
  "name_end pk m r \<longleftrightarrow> (case r of None \<Rightarrow> True | Some (e, nm) \<Rightarrow> e \<le> length pk \<and> length nm < m)"

lemma decode_total:
  "length out < m \<Longrightarrow> (\<And>k. consumed = Some k \<Longrightarrow> k \<le> length pk) \<Longrightarrow>
   \<exists>r. decode_loop pk m jumps ptr consumed out = Done r \<and> name_end pk m r"
proof (induction pk m jumps ptr consumed out rule: decode_loop.induct)
  case (1 pk m jumps ptr consumed out)
  let ?c = "pk ! ptr"
  let ?off = "unat (be16 (?c AND 0x3F) (pk ! (ptr + 1)))"
  let ?dot = "if out \<noteq> [] then [46] else ([] :: u8 list)"
  let ?lab = "take (unat ?c) (drop (ptr + 1) pk)"
  consider "\<not> (ptr < length pk \<and> jumps < 32)" | "ptr < length pk" "jumps < 32" "?c = 0"
    | "ptr < length pk" "jumps < 32" "?c \<noteq> 0" "?c AND 0xC0 = 0xC0" "ptr + 1 \<ge> length pk \<or> ?off \<ge> length pk"
    | "ptr < length pk" "jumps < 32" "?c \<noteq> 0" "?c AND 0xC0 = 0xC0" "ptr + 1 < length pk" "?off < length pk"
    | "ptr < length pk" "jumps < 32" "?c \<noteq> 0" "?c AND 0xC0 \<noteq> 0xC0"
      "?c AND 0xC0 \<noteq> 0 \<or> unat ?c > 63 \<or> ptr + 1 + unat ?c > length pk \<or> length out + length ?dot + unat ?c + 1 > m"
    | "ptr < length pk" "jumps < 32" "?c \<noteq> 0" "?c AND 0xC0 \<noteq> 0xC0" "?c AND 0xC0 = 0" "\<not> unat ?c > 63" "ptr + 1 + unat ?c \<le> length pk"
      "length out + length ?dot + unat ?c + 1 \<le> m"
    by linarith
  then show ?case
  proof cases
    case 1
    then show ?thesis by (subst decode_loop.simps) (auto simp: name_end_def)
  next
    case 2
    then show ?thesis using "1.prems" by (subst decode_loop.simps) (auto simp: name_end_def Let_def split: option.split)
  next
    case 3
    then show ?thesis by (subst decode_loop.simps) (auto simp: name_end_def Let_def)
  next
    case 4
    let ?k = "case consumed of None \<Rightarrow> Some (ptr + 2) | Some k \<Rightarrow> Some k"
    have "\<exists>r. decode_loop pk m (jumps + 1) ?off ?k out = Done r \<and> name_end pk m r"
      by (rule "1.IH"(1)) (use 4 "1.prems" in \<open>auto split: option.splits\<close>)
    moreover have "decode_loop pk m jumps ptr consumed out = decode_loop pk m (jumps + 1) ?off ?k out"
      using 4 by (subst decode_loop.simps) (simp add: Let_def)
    ultimately show ?thesis by simp
  next
    case 5
    then show ?thesis by (subst decode_loop.simps) (auto simp: name_end_def Let_def split: if_splits)
  next
    case 6
    have "\<exists>r. decode_loop pk m jumps (ptr + 1 + unat ?c) consumed ((out @ ?dot) @ ?lab) = Done r \<and> name_end pk m r"
      by (rule "1.IH"(2)) (use 6 "1.prems" in \<open>auto split: if_splits\<close>)
    moreover have "decode_loop pk m jumps ptr consumed out = decode_loop pk m jumps (ptr + 1 + unat ?c) consumed ((out @ ?dot) @ ?lab)"
      using 6 by (cases "out = []"; subst decode_loop.simps; simp add: Let_def)
    ultimately show ?thesis by simp
  qed
qed

lemma dns_decode_name_total: "\<exists>r. dns_decode_name ptr pk m = Done r \<and> name_end pk m r"
proof (cases "m = 0 \<or> ptr \<ge> length pk")
  case True
  then show ?thesis by (simp add: dns_decode_name_def name_end_def)
next
  case False
  then show ?thesis using decode_total [of "[]" m None pk 0 ptr] by (simp add: dns_decode_name_def)
qed

lemma skip_questions_total: "\<exists>r. skip_questions n pk ptr = Done r"
proof (induction n arbitrary: ptr)
  case (Suc n)
  obtain r where "dns_decode_name ptr pk 256 = Done r" using dns_decode_name_total by blast
  then show ?case using Suc by (auto split: option.split)
qed simp

lemma find_answer_total: "\<exists>r. find_answer n pk ptr = Done r"
proof (induction n arbitrary: ptr)
  case (Suc n)
  obtain r where r: "dns_decode_name ptr pk 256 = Done r" "name_end pk 256 r" using dns_decode_name_total by blast
  then show ?case using Suc by (cases r) (auto simp: Let_def)
qed simp

lemma handler_total: "\<exists>s'. dns_response_handler pk s = Done s' \<and> (s' = s \<or> 12 \<le> length pk \<and> (\<exists>addr. s' = answer_query (be16 (pk ! 0) (pk ! 1)) addr s))"
proof (cases "length pk < 12")
  case True
  then show ?thesis by (simp add: dns_response_handler_def)
next
  case False
  let ?qd = "unat (be16 (pk ! 4) (pk ! 5))" and ?an = "unat (be16 (pk ! 6) (pk ! 7))"
  obtain q where q: "skip_questions ?qd pk 12 = Done q" using skip_questions_total by blast
  have b: "be16_at pk 0 = Done (be16 (pk ! 0) (pk ! 1))" "be16_at pk 2 = Done (be16 (pk ! 2) (pk ! 3))"
    "be16_at pk 4 = Done (be16 (pk ! 4) (pk ! 5))" "be16_at pk 6 = Done (be16 (pk ! 6) (pk ! 7))"
    using False by simp_all
  show ?thesis
  proof (cases q)
    case None
    then show ?thesis using False q by (auto simp: dns_response_handler_def b)
  next
    case (Some ptr)
    obtain x where "find_answer ?an pk ptr = Done x" using find_answer_total by blast
    then show ?thesis using False q Some by (auto simp: dns_response_handler_def b split: option.split)
  qed
qed

section \<open>Names survive the wire\<close>

fun join_labels :: "u8 list list \<Rightarrow> u8 list" where
  "join_labels [] = []"
| "join_labels [l] = l"
| "join_labels (l # ls) = l @ 46 # join_labels ls"

definition wire :: "u8 list list \<Rightarrow> u8 list" where
  "wire ls = concat (map (\<lambda>l. of_nat (length l) # l) ls) @ [0]"

definition good_label :: "u8 list \<Rightarrow> bool" where
  "good_label l \<longleftrightarrow> l \<noteq> [] \<and> length l \<le> 63 \<and> 46 \<notin> set l \<and> 0 \<notin> set l"

lemma wire_simps [simp]: "wire [] = [0]" "wire (l # ls) = of_nat (length l) # l @ wire ls"
  by (simp_all add: wire_def)

lemma wire_pos: "0 < length (wire ls)"
  by (simp add: wire_def)

lemma encode_label:
  "46 \<notin> set l \<Longrightarrow> length buf < sub64 m 1 \<Longrightarrow> encode_loop m (l @ cs) lab buf = encode_loop m cs (lab @ l) buf"
  by (induction l arbitrary: lab) simp_all

lemma encode_labels:
  "ls \<noteq> [] \<Longrightarrow> list_all good_label ls \<Longrightarrow> length buf + length (wire ls) \<le> m \<Longrightarrow> m < two64 \<Longrightarrow>
   encode_loop m (join_labels ls) [] buf = Done (Some (buf @ wire ls))"
proof (induction ls arbitrary: buf rule: join_labels.induct)
  case (2 l)
  then have "length buf < sub64 m 1" by simp
  then show ?case using 2 encode_label [of l buf m "[]" "[]"] by (simp add: good_label_def encode_last_def)
next
  case (3 l l' ls)
  then have m: "length buf < sub64 m 1" "46 \<notin> set l" by (simp_all add: good_label_def)
  have "encode_loop m (join_labels (l' # ls)) [] (buf @ of_nat (length l) # l) = Done (Some ((buf @ of_nat (length l) # l) @ wire (l' # ls)))"
    using 3 by (intro "3.IH") simp_all
  then show ?case using m 3 by (simp add: encode_label)
qed simp

lemma label_byte:
  assumes "n \<le> 63"
  shows "(of_nat n :: u8) AND 0xC0 = 0" "unat (of_nat n :: u8) = n"
proof -
  have "list_all (\<lambda>n. (of_nat n :: u8) AND 0xC0 = 0) [0..<64]" by code_simp
  then show "(of_nat n :: u8) AND 0xC0 = 0" using assms by (simp add: list_all_iff)
  show "unat (of_nat n :: u8) = n" using assms by (simp add: unat_of_nat)
qed

definition glue :: "u8 list \<Rightarrow> u8 list list \<Rightarrow> u8 list" where
  "glue out ls = (if ls = [] then out else if out = [] then join_labels ls else out @ 46 # join_labels ls)"

lemma glue_step: "l \<noteq> [] \<Longrightarrow> glue (out @ (if out \<noteq> [] then [46] else []) @ l) ls = glue out (l # ls)"
  by (cases ls) (simp_all add: glue_def)

lemma glue_length: "length out + (if out \<noteq> [] then 1 else 0) + length l \<le> length (glue out (l # ls))"
  by (cases ls) (simp_all add: glue_def)

lemma decode_wire:
  "list_all good_label ls \<Longrightarrow> jumps < 32 \<Longrightarrow> length (glue out ls) < m \<Longrightarrow>
   decode_loop (pre @ wire ls @ post) m jumps (length pre) consumed out =
     Done (Some (case consumed of None \<Rightarrow> length pre + length (wire ls) | Some k \<Rightarrow> k, glue out ls))"
proof (induction ls arbitrary: pre out)
  case Nil
  then show ?case by (subst decode_loop.simps) (simp add: nth_append glue_def split: option.split)
next
  case (Cons l ls)
  let ?pk = "pre @ wire (l # ls) @ post" and ?out = "out @ (if out \<noteq> [] then [46] else []) @ l"
  have l: "l \<noteq> []" "length l \<le> 63" using Cons.prems by (simp_all add: good_label_def)
  have c: "?pk ! length pre = of_nat (length l)" "length pre < length ?pk" by (simp_all add: nth_append)
  have b: "(of_nat (length l) :: u8) \<noteq> 0" "unat (of_nat (length l) :: u8) = length l" "(of_nat (length l) :: u8) AND 0xC0 = 0"
    using l label_byte [OF l(2)] by (auto simp flip: unat_eq_zero)
  have o: "length out + (if out \<noteq> [] then 1 else 0) + length l + 1 \<le> m"
    using Cons.prems(3) glue_length [of out l ls] by simp
  have "decode_loop ?pk m jumps (length pre) consumed out = decode_loop ?pk m jumps (length pre + 1 + length l) consumed ?out"
    using b l o c Cons.prems(2) by (cases "out = []"; subst decode_loop.simps; simp add: Let_def)
  also have "\<dots> = decode_loop ((pre @ of_nat (length l) # l) @ wire ls @ post) m jumps (length (pre @ of_nat (length l) # l)) consumed ?out" by simp
  also have "\<dots> = Done (Some (case consumed of None \<Rightarrow> length (pre @ of_nat (length l) # l) + length (wire ls) | Some k \<Rightarrow> k, glue ?out ls))"
    using Cons.prems glue_step [OF l(1), of out ls] by (intro Cons.IH) (simp_all only: list.pred_inject)
  finally show ?case using glue_step [OF l(1), of out ls] by (simp split: option.splits)
qed

section \<open>The answer reaches the caller\<close>

text \<open>The answer of a server: the question repeated, and one address record that refers to its name.\<close>

definition dns_reply :: "u16 \<Rightarrow> u8 list list \<Rightarrow> u8 list \<Rightarrow> u8 list \<Rightarrow> u8 list" where
  "dns_reply i ls ttl addr =
     (dns_header i 0x8180 1 1 @ wire ls @ put16 DNS_TYPE_A @ put16 DNS_CLASS_IN) @
     ([0xC0, 0x0C] @ put16 DNS_TYPE_A @ put16 DNS_CLASS_IN @ ttl @ put16 4 @ addr)"

lemma be16_put16: "be16 (ucast (drop_bit 8 v)) (ucast v) = v"
  by (rule bit_word_eqI) (auto simp: be16_def bit_simps)

lemma length_header [simp]: "length (dns_header i f q a) = 12"
  by (simp add: dns_header_def put16_def)

lemma header_fields:
  "be16 ((dns_header i f q a @ x) ! 0) ((dns_header i f q a @ x) ! 1) = i" "be16 ((dns_header i f q a @ x) ! 2) ((dns_header i f q a @ x) ! 3) = f"
  "be16 ((dns_header i f q a @ x) ! 4) ((dns_header i f q a @ x) ! 5) = q" "be16 ((dns_header i f q a @ x) ! 6) ((dns_header i f q a @ x) ! 7) = a"
  by (simp_all add: dns_header_def put16_def be16_put16)

lemma decode_at_12:
  assumes "list_all good_label ls" "length (join_labels ls) < 256" "jumps < 32"
  shows "decode_loop (dns_header i f q a @ wire ls @ x) 256 jumps 12 consumed [] =
           Done (Some (case consumed of None \<Rightarrow> 12 + length (wire ls) | Some k \<Rightarrow> k, join_labels ls))"
  using decode_wire [of ls jumps "[]" 256 "dns_header i f q a" x consumed] assms by (simp add: glue_def cong: option.case_cong)

lemma nth_after: "n = length xs + k \<Longrightarrow> (xs @ ys) ! n = ys ! k"
  by (simp add: nth_append)

lemma reply_question:
  assumes "list_all good_label ls" "length (join_labels ls) < 256"
  shows "skip_questions 1 (dns_reply i ls ttl addr) 12 = Done (Some (16 + length (wire ls)))"
proof -
  have "dns_decode_name 12 (dns_reply i ls ttl addr) 256 = Done (Some (12 + length (wire ls), join_labels ls))"
    using decode_at_12 [OF assms, of 0 i "0x8180" 1 1 _ None] wire_pos [of ls] by (simp add: dns_decode_name_def dns_reply_def)
  then show ?thesis by (simp add: dns_reply_def put16_def)
qed

lemma reply_answer:
  assumes "list_all good_label ls" "length (join_labels ls) < 256" "length ttl = 4" "length addr = 4"
  shows "find_answer 1 (dns_reply i ls ttl addr) (16 + length (wire ls)) = Done (Some (le32 addr))"
proof -
  let ?pk = "dns_reply i ls ttl addr" and ?p = "16 + length (wire ls)"
  let ?A = "dns_header i 0x8180 1 1 @ wire ls @ put16 DNS_TYPE_A @ put16 DNS_CLASS_IN"
  let ?T = "[0xC0, 0x0C] @ put16 DNS_TYPE_A @ put16 DNS_CLASS_IN @ ttl @ put16 4 @ addr"
  have A: "length ?A = ?p" by (simp add: put16_def)
  have len: "length ?pk = ?p + 16" using assms by (simp add: dns_reply_def put16_def)
  have n: "?pk ! (?p + k) = ?T ! k" for k unfolding dns_reply_def by (rule nth_after) (simp only: A)
  obtain t0 t1 t2 t3 where t: "ttl = [t0, t1, t2, t3]" using assms(3) by (auto simp: length_Suc_conv numeral_eq_Suc)
  have T: "?T ! 0 = 0xC0" "?T ! 1 = 0x0C" "?T ! 2 = 0" "?T ! 3 = 1" "?T ! 4 = 0" "?T ! 5 = 1" "?T ! 10 = 0" "?T ! 11 = 4"
    by (simp_all add: t put16_def DNS_TYPE_A_def DNS_CLASS_IN_def)
  have w: "(0xC0 :: u8) AND 0x3F = 0" "unat (be16 0 0x0C) = 12" "(0xC0 :: u8) AND 0xC0 = 0xC0" "(0xC0 :: u8) \<noteq> 0" by code_simp+
  have "decode_loop ?pk 256 0 ?p None [] = decode_loop ?pk 256 1 12 (Some (?p + 2)) []"
    using n [of 0] n [of 1] T w len by (subst decode_loop.simps) (simp add: Let_def)
  also have "\<dots> = Done (Some (?p + 2, join_labels ls))"
    using decode_at_12 [OF assms(1,2), of 1 i "0x8180" 1 1 _ "Some (?p + 2)"] by (simp add: dns_reply_def)
  finally have d: "dns_decode_name ?p ?pk 256 = Done (Some (?p + 2, join_labels ls))" using len by (simp add: dns_decode_name_def)
  have f: "be16_at ?pk (?p + 2) = Done 1" "be16_at ?pk (?p + 2 + 2) = Done 1" "be16_at ?pk (?p + 2 + 8) = Done 4"
    using n [of 2] n [of 3] n [of 4] n [of 5] n [of 10] n [of 11] T len by (simp_all add: be16_def)
  have a: "bytes_at ?pk (?p + 2 + 10) 4 = Done addr" using len assms(3,4) by (simp add: dns_reply_def put16_def)
  show ?thesis using d f a len by (simp add: DNS_TYPE_A_def DNS_CLASS_IN_def Let_def del: be16_at_ok bytes_at_ok)
qed

lemma reply_handled:
  assumes "list_all good_label ls" "length (join_labels ls) < 256" "length ttl = 4" "length addr = 4"
  shows "dns_response_handler (dns_reply i ls ttl addr) s = Done (answer_query i (le32 addr) s)"
proof -
  let ?pk = "dns_reply i ls ttl addr"
  have e: "?pk = dns_header i 0x8180 1 1 @ (wire ls @ put16 DNS_TYPE_A @ put16 DNS_CLASS_IN @ [0xC0, 0x0C] @ put16 DNS_TYPE_A @ put16 DNS_CLASS_IN @ ttl @ put16 4 @ addr)"
    by (simp add: dns_reply_def)
  have len: "12 \<le> length ?pk" by (simp add: e)
  have h: "be16_at ?pk 0 = Done i" "be16_at ?pk 2 = Done 0x8180" "be16_at ?pk 4 = Done 1" "be16_at ?pk 6 = Done 1"
    using len header_fields [of i "0x8180" 1 1] unfolding e by simp_all
  have w: "(0x8180 :: u16) AND 0x8000 \<noteq> 0" "(0x8180 :: u16) AND 0xF = 0" by code_simp+
  show ?thesis using len w reply_question [OF assms(1,2), of i ttl addr] reply_answer [OF assms, of i]
    by (simp add: dns_response_handler_def h DNS_RCODE_NOERROR_def)
qed

section \<open>Properties\<close>

text \<open>
  C18: Whatever arrives from the network, the response handler returns, having read only inside the packet and written only inside its
  name buffers, and at most gives an address to the first pending query whose number the packet carries.
\<close>

theorem dns_parser_safe:
  "\<exists>s'. dns_response_handler pk s = Done s' \<and> (s' = s \<or> 12 \<le> length pk \<and> (\<exists>addr. s' = answer_query (be16 (pk ! 0) (pk ! 1)) addr s))"
  by (rule handler_total)

text \<open>
  A name of non-empty labels of at most 63 characters that fits the buffer is encoded label by label, and decoding it anywhere in a packet gives it back
  together with the offset behind it.
\<close>

theorem dns_name_roundtrip:
  assumes "ls \<noteq> []" "list_all good_label ls" "length (wire ls) \<le> m" "m < two64" "length (join_labels ls) < out_len"
  shows "dns_encode_name (join_labels ls) m = Done (Some (wire ls)) \<and>
    dns_decode_name (length pre) (pre @ wire ls @ post) out_len = Done (Some (length pre + length (wire ls), join_labels ls))"
  using encode_labels [of ls "[]" m] decode_wire [of ls 0 "[]" out_len pre post None] assms wire_pos [of ls]
  by (simp add: dns_encode_name_def dns_decode_name_def glue_def)

theorem dns_name_roundtrip_witness:
  "dns_encode_name [97, 98, 46, 99] 500 = Done (Some [2, 97, 98, 1, 99, 0]) \<and> dns_decode_name 1 [7, 2, 97, 98, 1, 99, 0] 256 = Done (Some (7, [97, 98, 46, 99]))"
  using dns_name_roundtrip [of "[[97, 98], [99]]" 500 256 "[7]" "[]"] by (simp add: good_label_def)

lemma answer_newest:
  assumes "qid q = i" "\<And>b p. (b, p) \<in> set xs \<Longrightarrow> b \<noteq> a"
  shows "pending_queries (answer_query i addr (s\<lparr>pending_queries := (a, q) # xs\<rparr>)) = (a, q\<lparr>result := addr, resolved := True\<rparr>) # xs"
proof -
  have "map (\<lambda>(b, q). if b = a then (b, q\<lparr>result := addr, resolved := True\<rparr>) else (b, q)) xs = map (\<lambda>x. x) xs"
    using assms(2) by (intro map_cong) auto
  then show ?thesis using assms(1) by (simp add: answer_query_def dns_pending_find_def)
qed

text \<open>
  C19: The answer of a server to the query it was sent reaches the caller: resolving a well-formed name sends the query for it, with a fresh
  number, to the given server or the default one; when the reply with an address record arrives in time the call returns that
  address, and the list of pending queries is as before.
\<close>

theorem dns_resolve_gets_answer:
  assumes "dns_net_dev s" "ls \<noteq> []" "list_all good_label ls" "length (wire ls) \<le> 255" "length ttl = 4" "length addr = 4"
    "\<And>b p. (b, p) \<in> set (pending_queries s) \<Longrightarrow> b \<noteq> a" "start \<le> t" "t < start + 5000"
  shows "\<exists>s'. dns_resolve True (Some a) True now start ((t, [dns_reply (dns_query_id_counter s) ls ttl addr]) # env) (Some (join_labels ls)) server s =
      Done (Some (dns_header (dns_query_id_counter s) 0x100 1 0 @ wire ls @ [0, 1, 0, 1], if server = 0 then dns_default_server s else server),
        Some (le32 addr, s')) \<and>
    pending_queries s' = pending_queries s \<and> dns_query_id_counter s' = dns_query_id_counter s + 1"
proof -
  let ?i = "dns_query_id_counter s"
  have len: "length (join_labels ls) < length (wire ls)" using assms(2) by (induction ls rule: join_labels.induct) simp_all
  have "dns_encode_name (join_labels ls) 500 = Done (Some (wire ls))"
    using encode_labels [of ls "[]" 500] assms(2-4) by (simp add: dns_encode_name_def)
  moreover have "put16 DNS_TYPE_A @ put16 DNS_CLASS_IN = [0, 1, 0, 1]" by code_simp
  ultimately have q: "build_query ?i (join_labels ls) = Done (Some (dns_header ?i 0x100 1 0 @ wire ls @ [0, 1, 0, 1]))"
    using assms(4) by (simp add: build_query_def DNS_MAX_QUERY_LEN_def)
  define q0 where "q0 = \<lparr>qid = ?i, result = 0, timestamp = now, resolved = False\<rparr>"
  define s2 where "s2 = (dns_pending_add a q0 (s\<lparr>dns_query_id_counter := ?i + 1\<rparr>))\<lparr>dns_handler_registered := True\<rparr>"
  have s2: "s2 = (s2 \<lparr>pending_queries := (a, q0) # pending_queries s\<rparr>)" by (simp add: s2_def dns_pending_add_def)
  define s3 where "s3 = answer_query ?i (le32 addr) s2"
  have "pending_queries s3 = (a, q0\<lparr>result := le32 addr, resolved := True\<rparr>) # pending_queries s"
    unfolding s3_def by (subst s2) (rule answer_newest, simp_all add: q0_def assms(7))
  note s3 = this
  have c: "dns_query_id_counter s3 = ?i + 1" by (simp add: s3_def s2_def answer_query_def dns_pending_add_def split: option.split prod.split)
  have "t - start < 5000" using assms(8,9) by linarith
  then have "dns_wait a start start 0 ((t, [dns_reply ?i ls ttl addr]) # env) s2 = Done (Some (le32 addr, dns_pending_remove a s3))"
    using assms(8,9) reply_handled [OF assms(3) _ assms(5,6), of ?i s2] len assms(4)
    by (simp add: Let_def DNS_DEFAULT_TIMEOUT_MS_def max_stagnant_loops_def s3 flip: s3_def)
  then have "dns_resolve True (Some a) True now start ((t, [dns_reply ?i ls ttl addr]) # env) (Some (join_labels ls)) server s =
      Done (Some (dns_header ?i 0x100 1 0 @ wire ls @ [0, 1, 0, 1], if server = 0 then dns_default_server s else server),
        Some (le32 addr, dns_pending_remove a s3))"
    using assms(1) q by (simp add: dns_resolve_def Let_def del: dns_wait.simps flip: s2_def q0_def)
  then show ?thesis using s3 c by (simp add: dns_pending_remove_def)
qed

definition dns_start :: dns where
  "dns_start = dns_init True \<lparr>pending_queries = [], dns_query_id_counter = 1, dns_net_dev = False, dns_handler_registered = False, dns_default_server = 0\<rparr>"

theorem dns_resolve_gets_answer_witness:
  "\<exists>s'. dns_resolve True (Some 8) True 0 0 [(10, [dns_reply 1 [[97]] [0, 0, 0, 9] [1, 2, 3, 4]])] (Some [97]) 0 dns_start =
     Done (Some (dns_header 1 0x100 1 0 @ [1, 97, 0, 0, 1, 0, 1], 0x0302000A), Some (le32 [1, 2, 3, 4], s'))"
proof -
  have d: "dns_net_dev dns_start" "pending_queries dns_start = []" "dns_query_id_counter dns_start = 1" "dns_default_server dns_start = 0x0302000A"
    by (simp_all add: dns_start_def dns_init_def dns_set_default_server_def)
  show ?thesis using dns_resolve_gets_answer [OF d(1), of "[[97]]" "[0, 0, 0, 9]" "[1, 2, 3, 4]" 8 0 10 0 "[]" 0] d(2,3,4)
    by (auto simp: good_label_def)
qed

section \<open>No query is left behind\<close>

lemma answer_addresses: "map fst (pending_queries (answer_query i addr s)) = map fst (pending_queries s)"
  by (auto simp: answer_query_def split: option.split)

lemma handle_all_addresses: "\<exists>s'. handle_all pks s = Done s' \<and> map fst (pending_queries s') = map fst (pending_queries s)"
proof (induction pks arbitrary: s)
  case (Cons pk pks)
  obtain s1 where s1: "dns_response_handler pk s = Done s1" "s1 = s \<or> (\<exists>i addr. s1 = answer_query i addr s)" using handler_total [of pk s] by blast
  then have "map fst (pending_queries s1) = map fst (pending_queries s)" using answer_addresses by auto
  then show ?case using Cons [of s1] s1(1) by auto
qed simp

lemma encode_total: "length buf \<le> m \<Longrightarrow> \<exists>r. encode_loop m cs lab buf = Done r"
proof (induction m cs lab buf rule: encode_loop.induct)
  case (1 m lab buf)
  then show ?case by (simp add: encode_last_def put_def)
next
  case (2 m c cs lab buf)
  then show ?case by (auto simp: encode_last_def put_def)
qed

lemma build_query_total: "\<exists>r. build_query i d = Done r"
proof -
  obtain r where "dns_encode_name d (DNS_MAX_QUERY_LEN - 12) = Done r" using encode_total [of "[]" "DNS_MAX_QUERY_LEN - 12" d "[]"] by (auto simp: dns_encode_name_def)
  then show ?thesis by (auto simp: build_query_def split: option.split)
qed

lemma remove_first_fst: "map fst (remove_first a xs) = remove1 a (map fst xs)"
  by (induction a xs rule: remove_first.induct) simp_all

lemma wait_addresses:
  "map fst (pending_queries s) = a # as \<Longrightarrow>
   \<exists>r. dns_wait a start sample stagnant env s = Done r \<and> (\<forall>x s'. r = Some (x, s') \<longrightarrow> map fst (pending_queries s') = as)"
proof (induction env arbitrary: s sample stagnant)
  case (Cons e env)
  obtain now pks where e: "e = (now, pks)" by (cases e)
  obtain s1 where s1: "handle_all pks s = Done s1" "map fst (pending_queries s1) = a # as" using handle_all_addresses [of pks s] Cons.prems by auto
  obtain q where q: "map_of (pending_queries s1) a = Some q" using s1(2) by (cases "pending_queries s1") auto
  have rm: "map fst (pending_queries (dns_pending_remove a u)) = as" if "map fst (pending_queries u) = a # as" for u :: dns
    using that by (simp add: dns_pending_remove_def remove_first_fst)
  note ih = Cons.IH [OF s1(2)]
  show ?case unfolding e dns_wait.simps Let_def s1(1)
    using q rm [OF Cons.prems] rm [OF s1(2)] ih by (auto split: prod.split)
qed simp

lemma wait_returns:
  "list_ex (\<lambda>(t, _). start + 5000 \<le> t) env \<Longrightarrow> dns_wait a start sample stagnant env s \<noteq> Done None"
proof (induction env arbitrary: s sample stagnant)
  case (Cons e env)
  obtain now pks where e: "e = (now, pks)" by (cases e)
  obtain s1 where s1: "handle_all pks s = Done s1" using handle_all_addresses by blast
  show ?case
  proof (cases "start + 5000 \<le> now")
    case True
    then have "5000 \<le> now - start" "start \<le> now" by linarith+
    then show ?thesis by (simp add: e DNS_DEFAULT_TIMEOUT_MS_def Let_def)
  next
    case False
    then have "list_ex (\<lambda>(t, _). start + 5000 \<le> t) env" using Cons.prems by (simp add: e)
    then show ?thesis unfolding e dns_wait.simps Let_def s1 using Cons.IH by (auto split: prod.split option.split)
  qed
qed simp

text \<open>For every name, clock and network traffic resolving is memory safe; with a sample five seconds after the start it returns.\<close>

lemma resolve_safe:
  "\<exists>out r. dns_resolve dev mem ok now start env domain server s = Done (out, r) \<and> (list_ex (\<lambda>(t, _). start + 5000 \<le> t) env \<longrightarrow> r \<noteq> None) \<and>
     (case r of None \<Rightarrow> True | Some (x, s') \<Rightarrow> map fst (pending_queries s') = map fst (pending_queries s))"
proof (cases "\<exists>d. domain = Some d \<and> dns_net_dev s \<and> dev")
  case False
  then show ?thesis by (cases domain) (auto simp: dns_resolve_def)
next
  case True
  then obtain d where d: "domain = Some d" "dns_net_dev s" "dev" by blast
  define s1 where "s1 = s\<lparr>dns_query_id_counter := dns_query_id_counter s + 1\<rparr>"
  obtain r where r: "build_query (dns_query_id_counter s) d = Done r" using build_query_total by blast
  show ?thesis
  proof (cases "r = None \<or> mem = None")
    case True
    then show ?thesis using d r by (cases r) (auto simp: dns_resolve_def Let_def)
  next
    case False
    then obtain pk a where p: "r = Some pk" "mem = Some a" by auto
    define s2 where "s2 = (dns_pending_add a \<lparr>qid = dns_query_id_counter s, result = 0, timestamp = now, resolved = False\<rparr> s1)\<lparr>dns_handler_registered := True\<rparr>"
    have s2: "map fst (pending_queries s2) = a # map fst (pending_queries s)" by (simp add: s2_def s1_def dns_pending_add_def)
    then have rm: "map fst (pending_queries (dns_pending_remove a s2)) = map fst (pending_queries s)" by (simp add: dns_pending_remove_def remove_first_fst)
    obtain w where "dns_wait a start start 0 env s2 = Done w" "\<forall>x s'. w = Some (x, s') \<longrightarrow> map fst (pending_queries s') = map fst (pending_queries s)"
      using wait_addresses [OF s2] by blast
    then show ?thesis using d r p rm wait_returns [of start env a start 0 s2] by (auto simp: dns_resolve_def Let_def simp flip: s1_def s2_def split: option.split)
  qed
qed

text \<open>
  Resolving returns: for every name, device state, memory and network traffic, once the clock is seen five seconds after the start
  the call has returned; it then has stayed inside its buffers, and by an answer, a timeout or an error its query is no longer pending and all others still are.
\<close>

theorem dns_resolve_returns:
  assumes "list_ex (\<lambda>(t, _). start + 5000 \<le> t) env"
  shows "\<exists>out x s'. dns_resolve dev mem ok now start env domain server s = Done (out, Some (x, s')) \<and>
    map fst (pending_queries s') = map fst (pending_queries s)"
  using resolve_safe [of dev mem ok now start env domain server s] assms by (auto split: option.splits)

theorem dns_resolve_returns_witness:
  "\<exists>out x s'. dns_resolve True (Some 8) True 0 0 [(10, [[1, 2, 3]]), (5000, [])] (Some [97]) 0 dns_start = Done (out, Some (x, s')) \<and> pending_queries s' = []"
  using dns_resolve_returns [of 0 "[(10, [[1, 2, 3]]), (5000, [])]" True "Some 8" True 0 "Some [97]" 0 dns_start]
  by (simp add: dns_start_def dns_init_def dns_set_default_server_def)

text \<open>
  A name with a final dot, as fully qualified names are written, is sent with two terminating bytes: the fields that follow the decoded name
  are then shifted, the type asked for is 0 instead of 1.
\<close>

theorem dns_final_dot_malformed:
  "\<exists>pk. build_query 1 [97, 46] = Done (Some pk) \<and> dns_decode_name 12 pk 256 = Done (Some (15, [97])) \<and> be16_at pk 15 = Done 0"
proof -
  let ?pk = "dns_header 1 0x100 1 0 @ [1, 97, 0, 0, 0, 1, 0, 1]"
  have "put16 DNS_TYPE_A @ put16 DNS_CLASS_IN = [0, 1, 0, 1]" by code_simp
  then have "build_query 1 [97, 46] = Done (Some ?pk)"
    by (simp add: build_query_def dns_encode_name_def encode_last_def DNS_MAX_QUERY_LEN_def put_def)
  moreover have "dns_decode_name 12 ?pk 256 = Done (Some (15, [97]))" "be16_at ?pk 15 = Done 0" by code_simp+
  ultimately show ?thesis by blast
qed
end
