(* ===== verification/Elf_Image.thy ===== *)
theory Elf_Image
  imports User_Copy
begin

text \<open>
  Executable images (\<^verbatim>\<open>kernel/elf_loader.c\<close>): the checks of the ELF header, the scans of the program header table and the loading of
  the \<^verbatim>\<open>PT_LOAD\<close> segments into the address space of a process, over the page tables and the copies of \<^verbatim>\<open>mm/paging.c\<close>. The file is
  the buffer \<^verbatim>\<open>vfs_read_file\<close> returned, a list of bytes; a field is read where the C structure has it, and a read outside the buffer is
  \<open>Stuck\<close>. Addresses and sizes are naturals below \<open>2 ^ 64\<close> with the wrap-around written out.
\<close>

section \<open>Fields\<close>

fun le_nat :: "u8 list \<Rightarrow> nat" where
  "le_nat [] = 0"
| "le_nat (b # bs) = unat b + 256 * le_nat bs"

definition file_bytes :: "u8 list \<Rightarrow> nat \<Rightarrow> nat \<Rightarrow> u8 list kresult" where
  "file_bytes fd off n = (if off + n \<le> length fd then Done (take n (drop off fd)) else Stuck)"

definition field :: "u8 list \<Rightarrow> nat \<Rightarrow> nat \<Rightarrow> nat kresult" where
  "field fd off n = kbind (file_bytes fd off n) (\<lambda>bs. Done (le_nat bs))"

text \<open>The members of \<^verbatim>\<open>elf64_header_t\<close> and \<^verbatim>\<open>elf64_phdr_t\<close> that the loader reads; \<open>ph\<close> is the offset of the entry in the file.\<close>

definition e_ident :: "u8 list \<Rightarrow> nat \<Rightarrow> nat kresult" where "e_ident fd i = field fd i 1"
definition e_type :: "u8 list \<Rightarrow> nat kresult" where "e_type fd = field fd 16 2"
definition e_machine :: "u8 list \<Rightarrow> nat kresult" where "e_machine fd = field fd 18 2"
definition e_entry :: "u8 list \<Rightarrow> nat kresult" where "e_entry fd = field fd 24 8"
definition e_phoff :: "u8 list \<Rightarrow> nat kresult" where "e_phoff fd = field fd 32 8"
definition e_phentsize :: "u8 list \<Rightarrow> nat kresult" where "e_phentsize fd = field fd 54 2"
definition e_phnum :: "u8 list \<Rightarrow> nat kresult" where "e_phnum fd = field fd 56 2"

definition p_type :: "u8 list \<Rightarrow> nat \<Rightarrow> nat kresult" where "p_type fd ph = field fd ph 4"
definition p_flags :: "u8 list \<Rightarrow> nat \<Rightarrow> nat kresult" where "p_flags fd ph = field fd (ph + 4) 4"
definition p_offset :: "u8 list \<Rightarrow> nat \<Rightarrow> nat kresult" where "p_offset fd ph = field fd (ph + 8) 8"
definition p_vaddr :: "u8 list \<Rightarrow> nat \<Rightarrow> nat kresult" where "p_vaddr fd ph = field fd (ph + 16) 8"
definition p_filesz :: "u8 list \<Rightarrow> nat \<Rightarrow> nat kresult" where "p_filesz fd ph = field fd (ph + 32) 8"
definition p_memsz :: "u8 list \<Rightarrow> nat \<Rightarrow> nat kresult" where "p_memsz fd ph = field fd (ph + 40) 8"

definition elf_header_size :: nat where "elf_header_size = 64"
definition elf_phdr_size :: nat where "elf_phdr_size = 56"
definition ELFCLASS64 :: nat where "ELFCLASS64 = 2"
definition ET_EXEC :: nat where "ET_EXEC = 2"
definition ET_DYN :: nat where "ET_DYN = 3"
definition PT_LOAD :: nat where "PT_LOAD = 1"
definition PT_PHDR :: nat where "PT_PHDR = 6"
definition ELF_MAX_PHNUM :: nat where "ELF_MAX_PHNUM = 64"
definition ELF_EM_X86_64 :: nat where "ELF_EM_X86_64 = 62"

section \<open>The checks of the header\<close>

definition elf_machine_supported :: "nat \<Rightarrow> bool" where
  "elf_machine_supported machine \<longleftrightarrow> machine = ELF_EM_X86_64"

definition exec_buffer_is_elf :: "u8 list \<Rightarrow> bool" where
  "exec_buffer_is_elf fd \<longleftrightarrow> \<not> length fd < 4 \<and> fd ! 0 = 0x7f \<and> fd ! 1 = 69 \<and> fd ! 2 = 76 \<and> fd ! 3 = 70"

text \<open>\<^verbatim>\<open>if (header->field != v || ...) return 0;\<close>: a field that must have one of the given values before the next one is read.\<close>

definition require :: "nat kresult \<Rightarrow> (nat \<Rightarrow> bool) \<Rightarrow> bool kresult \<Rightarrow> bool kresult" where
  "require f ok rest = kbind f (\<lambda>v. if ok v then rest else Done False)"

definition validate_elf_header :: "u8 list \<Rightarrow> bool kresult" where
  "validate_elf_header fd =
     require (e_ident fd 0) (\<lambda>v. v = 0x7f)
      (require (e_ident fd 1) (\<lambda>v. v = 69)
      (require (e_ident fd 2) (\<lambda>v. v = 76)
      (require (e_ident fd 3) (\<lambda>v. v = 70)
      (require (e_ident fd 4) (\<lambda>v. v = ELFCLASS64)
      (require (e_machine fd) elf_machine_supported
      (require (e_type fd) (\<lambda>v. v = ET_EXEC \<or> v = ET_DYN) (Done True)))))))"

text \<open>\<open>True\<close> when the function returns NULL: nothing to complain about.\<close>

definition exec_audit_classify_elf :: "u8 list \<Rightarrow> bool kresult" where
  "exec_audit_classify_elf fd =
     (if length fd < elf_header_size then Done False
      else require (e_ident fd 0) (\<lambda>v. v = 0x7f)
        (require (e_ident fd 1) (\<lambda>v. v = 69)
        (require (e_ident fd 2) (\<lambda>v. v = 76)
        (require (e_ident fd 3) (\<lambda>v. v = 70) (Done True)))))"

section \<open>Scans of the program headers\<close>

text \<open>\<^verbatim>\<open>e_phnum\<close> with its cap, and the offset of entry \<open>i\<close> of the table.\<close>

definition elf_phnum :: "u8 list \<Rightarrow> nat kresult" where
  "elf_phnum fd = kbind (e_phnum fd) (\<lambda>n. Done (if ELF_MAX_PHNUM < n then ELF_MAX_PHNUM else n))"

definition phdr_at :: "nat \<Rightarrow> nat \<Rightarrow> nat" where
  "phdr_at phoff i = phoff + i * elf_phdr_size"

definition u64_max :: nat where "u64_max = two64 - 1"

fun load_base_loop :: "u8 list \<Rightarrow> nat \<Rightarrow> nat list \<Rightarrow> nat \<Rightarrow> nat kresult" where
  "load_base_loop fd phoff [] base = Done base"
| "load_base_loop fd phoff (i # is) base =
     kbind (p_type fd (phdr_at phoff i)) (\<lambda>t.
       if t \<noteq> PT_LOAD then load_base_loop fd phoff is base
       else kbind (p_vaddr fd (phdr_at phoff i)) (\<lambda>v. load_base_loop fd phoff is (if v < base then v else base)))"

definition elf_compute_load_base :: "u8 list \<Rightarrow> nat kresult" where
  "elf_compute_load_base fd =
     kbind (elf_phnum fd) (\<lambda>phnum. kbind (e_phoff fd) (\<lambda>phoff.
       if u64_max < phoff then Done 0
       else kbind (load_base_loop fd phoff [0..<phnum] u64_max) (\<lambda>base. Done (if base = u64_max then 0 else base))))"

text \<open>The end of a segment, rounded up to a page; both additions wrap.\<close>

definition page_up :: "nat \<Rightarrow> nat" where
  "page_up a = align_down 4096 (add64 a 0xFFF)"

fun initial_brk_loop :: "u8 list \<Rightarrow> nat \<Rightarrow> nat list \<Rightarrow> nat \<Rightarrow> nat kresult" where
  "initial_brk_loop fd phoff [] brk = Done brk"
| "initial_brk_loop fd phoff (i # is) brk =
     kbind (p_type fd (phdr_at phoff i)) (\<lambda>t.
       if t \<noteq> PT_LOAD then initial_brk_loop fd phoff is brk
       else kbind (p_vaddr fd (phdr_at phoff i)) (\<lambda>v. kbind (p_memsz fd (phdr_at phoff i)) (\<lambda>m.
         let fin = page_up (add64 v m) in initial_brk_loop fd phoff is (if brk < fin then fin else brk))))"

definition elf_compute_initial_brk :: "u8 list \<Rightarrow> nat kresult" where
  "elf_compute_initial_brk fd = kbind (elf_phnum fd) (\<lambda>phnum. kbind (e_phoff fd) (\<lambda>phoff. initial_brk_loop fd phoff [0..<phnum] 0))"

fun find_pt_phdr :: "u8 list \<Rightarrow> nat \<Rightarrow> nat list \<Rightarrow> nat option kresult" where
  "find_pt_phdr fd phoff [] = Done None"
| "find_pt_phdr fd phoff (i # is) =
     kbind (p_type fd (phdr_at phoff i)) (\<lambda>t.
       if t = PT_PHDR then kbind (p_vaddr fd (phdr_at phoff i)) (\<lambda>v. Done (Some v)) else find_pt_phdr fd phoff is)"

fun find_covering :: "u8 list \<Rightarrow> nat \<Rightarrow> nat list \<Rightarrow> nat kresult" where
  "find_covering fd phoff [] = Done 0"
| "find_covering fd phoff (i # is) =
     kbind (p_type fd (phdr_at phoff i)) (\<lambda>t.
       if t \<noteq> PT_LOAD then find_covering fd phoff is
       else kbind (p_offset fd (phdr_at phoff i)) (\<lambda>off.
         if \<not> off \<le> phoff then find_covering fd phoff is
         else kbind (p_filesz fd (phdr_at phoff i)) (\<lambda>fsz.
           if phoff < add64 off fsz then kbind (p_vaddr fd (phdr_at phoff i)) (\<lambda>v. Done (add64 v (phoff - off)))
           else find_covering fd phoff is)))"

definition elf_compute_at_phdr :: "u8 list \<Rightarrow> nat kresult" where
  "elf_compute_at_phdr fd =
     kbind (elf_phnum fd) (\<lambda>phnum. kbind (e_phoff fd) (\<lambda>phoff.
       if u64_max < phoff then Done 0
       else kbind (find_pt_phdr fd phoff [0..<phnum]) (\<lambda>r.
         case r of Some v \<Rightarrow> Done v | None \<Rightarrow> find_covering fd phoff [0..<phnum])))"

section \<open>Loading\<close>

definition seg_flags :: "nat \<Rightarrow> u64" where
  "seg_flags fl = PAGE_USER OR (if bit fl 1 then PAGE_RW else 0) OR (if bit fl 0 then PAGE_EXEC else 0)"

text \<open>One turn of each of the two loops; \<open>False\<close> is \<^verbatim>\<open>return -1\<close>.\<close>

definition map_segment :: "paging_env \<Rightarrow> u8 list \<Rightarrow> nat \<Rightarrow> nat \<Rightarrow> paging \<Rightarrow> (bool \<times> paging) kresult" where
  "map_segment env fd pml4 ph pg =
     kbind (p_type fd ph) (\<lambda>t.
       if t \<noteq> PT_LOAD then Done (True, pg)
       else kbind (p_memsz fd ph) (\<lambda>memsz. kbind (p_filesz fd ph) (\<lambda>filesz.
         if memsz < filesz then Done (False, pg)
         else kbind (p_offset fd ph) (\<lambda>off.
           if 0 < filesz \<and> (length fd < off \<or> length fd - off < filesz) then Done (False, pg)
           else kbind (p_vaddr fd ph) (\<lambda>vaddr. kbind (p_flags fd ph) (\<lambda>fl.
             let va = align_down 4096 vaddr; sz = sub64 (page_up (add64 vaddr memsz)) va in
             map_user_region_in_directory env pml4 va sz (seg_flags fl) pg))))))"

definition fill_segment :: "paging_env \<Rightarrow> u8 list \<Rightarrow> nat \<Rightarrow> nat \<Rightarrow> paging \<Rightarrow> (bool \<times> paging) kresult" where
  "fill_segment env fd pml4 ph pg =
     kbind (p_type fd ph) (\<lambda>t.
       if t \<noteq> PT_LOAD then Done (True, pg)
       else kbind (p_vaddr fd ph) (\<lambda>vaddr. kbind (p_filesz fd ph) (\<lambda>filesz. kbind (p_memsz fd ph) (\<lambda>memsz.
         kbind (if 0 < filesz then kbind (p_offset fd ph) (\<lambda>off. kbind (file_bytes fd off filesz) (\<lambda>bs.
                  copy_to_user_region_in_directory env pml4 vaddr (Some bs) pg))
                else Done (True, pg)) (\<lambda>(ok, pg1).
           if \<not> ok then Done (False, pg1)
           else if filesz < memsz then zero_user_region_in_directory env pml4 (add64 vaddr filesz) (memsz - filesz) pg1
           else Done (True, pg1))))))"

definition elf_load_segments :: "paging_env \<Rightarrow> u8 list \<Rightarrow> nat \<Rightarrow> paging \<Rightarrow> (bool \<times> paging) kresult" where
  "elf_load_segments env fd pml4 pg =
     kbind (elf_phnum fd) (\<lambda>phnum. kbind (e_phoff fd) (\<lambda>phoff.
       if length fd < phoff then Done (False, pg)
       else if length fd - phoff < phnum * elf_phdr_size then Done (False, pg)
       else if pml4 = 0 then Done (False, pg)
       else kbind (kfor [0..<phnum] (\<lambda>i. map_segment env fd pml4 (phdr_at phoff i)) pg) (\<lambda>(ok, pg1).
         if \<not> ok then Done (False, pg1)
         else kfor [0..<phnum] (\<lambda>i. fill_segment env fd pml4 (phdr_at phoff i)) pg1)))"

section \<open>The program headers as data\<close>

definition fieldv :: "u8 list \<Rightarrow> nat \<Rightarrow> nat \<Rightarrow> nat" where
  "fieldv fd off n = le_nat (take n (drop off fd))"

lemma field_Done: "off + n \<le> length fd \<Longrightarrow> field fd off n = Done (fieldv fd off n)"
  by (simp add: field_def file_bytes_def fieldv_def)

lemma field_Stuck: "length fd < off + n \<Longrightarrow> field fd off n = Stuck"
  by (simp add: field_def file_bytes_def)

lemma le_nat_bound: "le_nat bs < 256 ^ length bs"
proof (induction bs)
  case (Cons b bs)
  have "unat b < 2 ^ LENGTH(8)" by (rule unsigned_less)
  then have "unat b < 256" by simp
  then show ?case using Cons by simp
qed simp

lemma fieldv_bound: "fieldv fd off n < 256 ^ n"
proof -
  have "length (take n (drop off fd)) \<le> n" by simp
  then have "(256 :: nat) ^ length (take n (drop off fd)) \<le> 256 ^ n" by (rule power_increasing) simp
  then show ?thesis using le_nat_bound [of "take n (drop off fd)"] unfolding fieldv_def by linarith
qed

text \<open>\<^verbatim>\<open>elf64_phdr_t\<close>, without the two members that are never read.\<close>

record elf64_phdr =
  ph_type :: nat
  ph_flags :: nat
  ph_offset :: nat
  ph_vaddr :: nat
  ph_filesz :: nat
  ph_memsz :: nat

definition phdr_of :: "u8 list \<Rightarrow> nat \<Rightarrow> elf64_phdr" where
  "phdr_of fd ph = \<lparr>ph_type = fieldv fd ph 4, ph_flags = fieldv fd (ph + 4) 4, ph_offset = fieldv fd (ph + 8) 8,
     ph_vaddr = fieldv fd (ph + 16) 8, ph_filesz = fieldv fd (ph + 32) 8, ph_memsz = fieldv fd (ph + 40) 8\<rparr>"

lemma phdr_fields:
  assumes "ph + elf_phdr_size \<le> length fd"
  shows "p_type fd ph = Done (ph_type (phdr_of fd ph))" "p_flags fd ph = Done (ph_flags (phdr_of fd ph))" "p_offset fd ph = Done (ph_offset (phdr_of fd ph))"
    "p_vaddr fd ph = Done (ph_vaddr (phdr_of fd ph))" "p_filesz fd ph = Done (ph_filesz (phdr_of fd ph))" "p_memsz fd ph = Done (ph_memsz (phdr_of fd ph))"
  using assms by (simp_all add: p_type_def p_flags_def p_offset_def p_vaddr_def p_filesz_def p_memsz_def phdr_of_def field_Done elf_phdr_size_def)

text \<open>The number of entries the loader looks at, the place of the table, and its entries that are to be loaded.\<close>

definition phnum_of :: "u8 list \<Rightarrow> nat" where
  "phnum_of fd = min ELF_MAX_PHNUM (fieldv fd 56 2)"

definition phoff_of :: "u8 list \<Rightarrow> nat" where
  "phoff_of fd = fieldv fd 32 8"

definition phdr_index :: "u8 list \<Rightarrow> nat \<Rightarrow> elf64_phdr" where
  "phdr_index fd i = phdr_of fd (phdr_at (phoff_of fd) i)"

definition loads :: "u8 list \<Rightarrow> nat list \<Rightarrow> elf64_phdr list" where
  "loads fd is = filter (\<lambda>g. ph_type g = PT_LOAD) (map (phdr_index fd) is)"

definition table_fits :: "u8 list \<Rightarrow> bool" where
  "table_fits fd \<longleftrightarrow> elf_header_size \<le> length fd \<and> phoff_of fd + phnum_of fd * elf_phdr_size \<le> length fd"

lemma elf_header_fields:
  assumes "elf_header_size \<le> length fd"
  shows "elf_phnum fd = Done (phnum_of fd)" "e_phoff fd = Done (phoff_of fd)" "e_entry fd = Done (fieldv fd 24 8)" "e_phentsize fd = Done (fieldv fd 54 2)"
  using assms by (auto simp: elf_phnum_def e_phnum_def e_phoff_def e_entry_def e_phentsize_def field_Done phnum_of_def phoff_of_def elf_header_size_def min_def)

lemma phdr_bounds: "table_fits fd \<Longrightarrow> i < phnum_of fd \<Longrightarrow> phdr_at (phoff_of fd) i + elf_phdr_size \<le> length fd"
proof -
  assume a: "table_fits fd" "i < phnum_of fd"
  then have "(i + 1) * elf_phdr_size \<le> phnum_of fd * elf_phdr_size" by (intro mult_right_mono) auto
  then show ?thesis using a(1) by (simp add: table_fits_def phdr_at_def)
qed

lemmas entry_fields = phdr_fields [OF phdr_bounds, folded phdr_index_def]

lemma loads_Cons: "loads fd (i # is) = (if ph_type (phdr_index fd i) = PT_LOAD then phdr_index fd i # loads fd is else loads fd is)"
  by (simp add: loads_def)

section \<open>Regions\<close>

definition user_leaf :: "u64 \<Rightarrow> nat \<Rightarrow> u64" where
  "user_leaf flags f = mm_make_leaf_pte f ((flags OR PAGE_USER) AND 0xFFF) (flags AND PAGE_EXEC \<noteq> 0)"

text \<open>
  \<open>region_added R pg pg' r lo hi flags\<close>: \<open>pg'\<close> is \<open>pg\<close> with zeroed private pages from \<open>lo\<close> to \<open>hi\<close> in address space \<open>r\<close>, and
  everything else is as it was.
\<close>

definition region_added :: "nat set \<Rightarrow> paging \<Rightarrow> paging \<Rightarrow> nat \<Rightarrow> nat \<Rightarrow> nat \<Rightarrow> u64 \<Rightarrow> bool" where
  "region_added R pg pg' r lo hi flags \<longleftrightarrow> as_inv R pg' \<and> sole_writer (U R (tabs pg')) \<and>
     (\<forall>s. \<forall>va < 2 ^ 47. peek R pg' s va = (if s = r \<and> lo \<le> va \<and> va < hi then Some 0 else peek R pg s va)) \<and>
     (\<forall>va < 2 ^ 47. lo \<le> va \<longrightarrow> va < hi \<longrightarrow> (\<exists>f. frame_addr f \<and> sole_user (U R (tabs pg')) (r, va_path va) (user_leaf flags f))) \<and>
     (\<forall>x e. sole_user (U R (tabs pg)) x e \<longrightarrow> sole_user (U R (tabs pg')) x e) \<and>
     (\<forall>va < 2 ^ 47. \<not> (lo \<le> va \<and> va < hi) \<longrightarrow> translate pg r va = None \<longrightarrow> translate pg' r va = None)"

lemma region_addedD:
  assumes "region_added R pg pg' r lo hi flags"
  shows "as_inv R pg'" "sole_writer (U R (tabs pg'))" "va < 2 ^ 47 \<Longrightarrow> peek R pg' s va = (if s = r \<and> lo \<le> va \<and> va < hi then Some 0 else peek R pg s va)"
    "va < 2 ^ 47 \<Longrightarrow> lo \<le> va \<Longrightarrow> va < hi \<Longrightarrow> \<exists>f. frame_addr f \<and> sole_user (U R (tabs pg')) (r, va_path va) (user_leaf flags f)"
    "sole_user (U R (tabs pg)) x e \<Longrightarrow> sole_user (U R (tabs pg')) x e"
    "va < 2 ^ 47 \<Longrightarrow> \<not> (lo \<le> va \<and> va < hi) \<Longrightarrow> translate pg r va = None \<Longrightarrow> translate pg' r va = None"
  using assms unfolding region_added_def by blast+

lemma added_region:
  assumes a: "added R (user_leaf flags) pg pg' r M" and sw: "sole_writer (U R (tabs pg))" and r: "r \<in> R"
    and dom: "\<And>va. va < 2 ^ 47 \<Longrightarrow> va_path va \<in> dom M \<longleftrightarrow> lo \<le> va \<and> va < hi" and paths: "\<And>q. q \<in> dom M \<Longrightarrow> \<exists>va < 2 ^ 47. q = va_path va"
    and new: "\<And>va. va < 2 ^ 47 \<Longrightarrow> lo \<le> va \<Longrightarrow> va < hi \<Longrightarrow> translate pg r va = None"
  shows "region_added R pg pg' r lo hi flags"
proof -
  note A = addedD [OF a]
  have fresh: "U R (tabs pg) x = Some l \<Longrightarrow> M p = Some e \<Longrightarrow> mm_pte_phys l \<noteq> mm_pte_phys e" for x l p e
    using unused_frame [OF A(8), of "mm_pte_phys e" x l] A(4) [of p e] by simp
  have out: "U R (tabs pg') (s, q) = U R (tabs pg) (s, q)" if "\<not> (s = r \<and> q \<in> dom M)" for s q
    using A(2) [of "(s, q)"] that by (auto simp del: not_None_eq)
  have "peek R pg' s va = (if s = r \<and> lo \<le> va \<and> va < hi then Some 0 else peek R pg s va)" if v: "va < 2 ^ 47" for s va
  proof (cases "s = r \<and> lo \<le> va \<and> va < hi")
    case True
    then obtain e where e: "M (va_path va) = Some e" using dom [OF v] by blast
    then show ?thesis using True A(2) [of "(r, va_path va)"] A(4) [OF e] by (simp add: peek_def view_def)
  next
    case False
    then have "U R (tabs pg') (s, va_path va) = U R (tabs pg) (s, va_path va)" using out dom [OF v] by blast
    then have "peek R pg' s va = peek R pg s va"
      using A(6) [of "(s, va_path va)"] by (cases "U R (tabs pg) (s, va_path va)") (simp_all add: peek_def view_def)
    then show ?thesis using False by (simp only: if_False)
  qed
  moreover have "\<exists>f. frame_addr f \<and> sole_user (U R (tabs pg')) (r, va_path va) (user_leaf flags f)" if v: "va < 2 ^ 47" "lo \<le> va" "va < hi" for va
  proof -
    obtain e where e: "M (va_path va) = Some e" using dom [OF v(1)] v by blast
    then have u: "U R (tabs pg') (r, va_path va) = Some e" using A(2) [of "(r, va_path va)"] by simp
    have "mm_pte_phys l \<noteq> mm_pte_phys e" if "U R (tabs pg') y = Some l" "y \<noteq> (r, va_path va)" for y l
    proof (cases "fst y = r \<and> snd y \<in> dom M")
      case True
      then show ?thesis using A(2) [of y] that A(3) [OF _ e] by (cases y) auto
    next
      case False
      then show ?thesis using out [of "fst y" "snd y"] that(1) fresh [OF _ e, of y l] by simp
    qed
    then have "sole_user (U R (tabs pg')) (r, va_path va) e" using u by (simp add: sole_user_def)
    then show ?thesis using A(4) [OF e] frame_addr_phys [of e] by metis
  qed
  moreover have "sole_user (U R (tabs pg')) x e" if s: "sole_user (U R (tabs pg)) x e" for x e
  proof -
    have ux: "U R (tabs pg) x = Some e" using s by (simp add: sole_user_def)
    have unm: "U R (tabs pg) (r, q) = None" if "q \<in> dom M" for q
    proof -
      obtain va where "va < 2 ^ 47" "q = va_path va" using paths [OF \<open>q \<in> dom M\<close>] by blast
      then have "xl (tabs pg) r q = None" using dom [of va] new [of va] \<open>q \<in> dom M\<close> unfolding translate_def by simp
      then show ?thesis by (simp add: U_def)
    qed
    have nx: "\<not> (fst x = r \<and> snd x \<in> dom M)" using unm [of "snd x"] ux by (metis option.distinct(1) prod.collapse)
    have "mm_pte_phys l \<noteq> mm_pte_phys e" if "U R (tabs pg') y = Some l" "y \<noteq> x" for y l
    proof (cases "fst y = r \<and> snd y \<in> dom M")
      case True
      then have "M (snd y) = Some l" using A(2) [of y] that(1) by auto
      then show ?thesis using fresh [OF ux] by metis
    next
      case False
      then show ?thesis using out [of "fst y" "snd y"] that s unfolding sole_user_def by (metis prod.collapse)
    qed
    then show ?thesis using out [of "fst x" "snd x"] nx ux by (simp add: sole_user_def)
  qed
  moreover have "translate pg' r va = None" if "va < 2 ^ 47" "\<not> (lo \<le> va \<and> va < hi)" "translate pg r va = None" for va
    using A(7) [OF r full_va_path, of va] dom [OF that(1)] that(2,3) unfolding translate_def by blast
  ultimately show ?thesis unfolding region_added_def using A(1) added_sole_writer [OF a sw] by blast
qed

lemma map_region_private:
  assumes "env_ok env" "as_inv R pg" "sole_writer (U R (tabs pg))" "r \<in> R" "\<not> bit flags 7" "lo mod 4096 = 0" "hi = lo + n * 4096" "hi \<le> 2 ^ 47"
    and "\<And>va. lo \<le> va \<Longrightarrow> va < hi \<Longrightarrow> translate pg r va = None"
  shows "\<exists>ok pg'. map_user_region_in_directory env r lo (n * 4096) flags pg = Done (ok, pg') \<and> region_added R pg pg' r lo (if ok then hi else lo) flags"
proof -
  let ?vas = "map (\<lambda>k. lo + k * 4096) [0..<n]"
  have al: "lo = align_down 4096 lo" "4096 dvd lo" using assms(6) by (auto simp: align_down_def)
  have n: "n = (n * 4096 + 0xFFF) div 4096" "n * 4096 + 0xFFF < 2 ^ 64" "lo + n * 4096 \<le> 2 ^ 47" using assms(7,8) by simp_all
  have un: "\<forall>k < n. translate pg r (lo + k * 4096) = None" using assms(7,9) by auto
  obtain ok pg' M where m: "map_user_region_in_directory env r lo (n * 4096) flags pg = Done (ok, pg')" "added R (user_leaf flags) pg pg' r M"
    "dom M = (if ok then va_path ` set ?vas else {})"
    using map_region_added [OF assms(1,2,4,5) al(1) n un, of "user_leaf flags"] by (auto simp: user_leaf_def [abs_def])
  note P = region_paths(2) [OF al(2) n(3)]
  have "region_added R pg pg' r lo (if ok then hi else lo) flags"
  proof (rule added_region [OF m(2) assms(3,4)])
    show "va_path va \<in> dom M \<longleftrightarrow> lo \<le> va \<and> va < (if ok then hi else lo)" if "va < 2 ^ 47" for va
      using P [OF that] m(3) assms(7) by auto
    show "\<exists>va < 2 ^ 47. q = va_path va" if q: "q \<in> dom M" for q
    proof -
      obtain k where "k < n" "q = va_path (lo + k * 4096)" using q m(3) by (auto split: if_splits)
      moreover from this have "lo + k * 4096 < 2 ^ 47" using n(3) by linarith
      ultimately show ?thesis by blast
    qed
  qed (use assms(9) in \<open>auto split: if_splits\<close>)
  then show ?thesis using m(1) by blast
qed

section \<open>Segments\<close>

definition seg_lo :: "elf64_phdr \<Rightarrow> nat" where
  "seg_lo g = align_down 4096 (ph_vaddr g)"

definition seg_hi :: "elf64_phdr \<Rightarrow> nat" where
  "seg_hi g = align_down 4096 (ph_vaddr g + ph_memsz g + 0xFFF)"

definition seg_data :: "u8 list \<Rightarrow> elf64_phdr \<Rightarrow> u8 list" where
  "seg_data fd g = take (ph_filesz g) (drop (ph_offset g) fd) @ replicate (ph_memsz g - ph_filesz g) 0"

text \<open>The segment lies in the file, below the end of the user half, and its pages are apart from those of another segment.\<close>

definition seg_ok :: "u8 list \<Rightarrow> elf64_phdr \<Rightarrow> bool" where
  "seg_ok fd g \<longleftrightarrow> ph_filesz g \<le> ph_memsz g \<and> (0 < ph_filesz g \<longrightarrow> ph_offset g + ph_filesz g \<le> length fd) \<and> ph_vaddr g + ph_memsz g + 0xFFF < 2 ^ 47"

definition seg_apart :: "elf64_phdr \<Rightarrow> elf64_phdr \<Rightarrow> bool" where
  "seg_apart g h \<longleftrightarrow> seg_hi g \<le> seg_lo h \<or> seg_hi h \<le> seg_lo g"

definition in_seg :: "elf64_phdr \<Rightarrow> nat \<Rightarrow> bool" where
  "in_seg g va \<longleftrightarrow> seg_lo g \<le> va \<and> va < seg_hi g"

lemma align_up_ge: "a \<le> align_down 4096 (a + 0xFFF)" for a :: nat
  using mod_less_divisor [of 4096 "a + 0xFFF"] by (simp add: align_down_def del: mod_less_divisor)

lemma seg_bounds:
  assumes "seg_ok fd g"
  shows "seg_lo g \<le> ph_vaddr g" "ph_vaddr g + ph_memsz g \<le> seg_hi g" "seg_lo g \<le> seg_hi g" "seg_hi g < 2 ^ 47"
    "seg_lo g mod 4096 = 0" "seg_hi g mod 4096 = 0" "length (seg_data fd g) = ph_memsz g"
proof -
  show lo: "seg_lo g \<le> ph_vaddr g" by (simp add: seg_lo_def align_down_le)
  show hi: "ph_vaddr g + ph_memsz g \<le> seg_hi g" unfolding seg_hi_def by (rule align_up_ge)
  show "seg_lo g \<le> seg_hi g" using lo hi by linarith
  show "seg_hi g < 2 ^ 47" using assms align_down_le [of 4096 "ph_vaddr g + ph_memsz g + 0xFFF"] unfolding seg_hi_def seg_ok_def by linarith
  show "seg_lo g mod 4096 = 0" "seg_hi g mod 4096 = 0" unfolding seg_lo_def seg_hi_def by (simp_all add: dvd_imp_mod_0)
  show "length (seg_data fd g) = ph_memsz g" using assms by (auto simp: seg_data_def seg_ok_def min_def)
qed

lemma seg_flags_bits: "\<not> bit (seg_flags fl) 7" "\<not> bit (seg_flags fl) 9" "bit (seg_flags fl) 1 \<longleftrightarrow> bit fl 1" "seg_flags fl AND PAGE_EXEC \<noteq> 0 \<longleftrightarrow> bit fl 0"
  unfolding flag_tests(7) seg_flags_def bit_or_iff if_distrib [of "\<lambda>w. bit w _"] bit_flags by auto

lemma user_leaf_bits:
  assumes "frame_addr f"
  shows "bit (user_leaf (seg_flags fl) f) 1 \<longleftrightarrow> bit fl 1" "\<not> bit (user_leaf (seg_flags fl) f) 9" "bit (user_leaf (seg_flags fl) f) 63 \<longleftrightarrow> \<not> bit fl 0"
  using seg_flags_bits [of fl] bit_frame_addr_low [OF assms]
  by (simp_all add: user_leaf_def bit_leaf_pte [OF assms] bit_and_iff bit_or_iff bit_flags bit_low)

text \<open>Phase 1 for one entry.\<close>

lemma map_segment_step:
  assumes "env_ok env" "as_inv R pg" "sole_writer (U R (tabs pg))" "r \<in> R" "table_fits fd" "i < phnum_of fd" "g = phdr_index fd i" "ph_type g = PT_LOAD" "seg_ok fd g"
    and "\<And>va. in_seg g va \<Longrightarrow> translate pg r va = None"
  shows "\<exists>ok pg'. map_segment env fd r (phdr_at (phoff_of fd) i) pg = Done (ok, pg') \<and>
     region_added R pg pg' r (seg_lo g) (if ok then seg_hi g else seg_lo g) (seg_flags (ph_flags g))"
proof -
  note F = entry_fields [OF assms(5,6), folded assms(7)]
  note B = seg_bounds [OF assms(9)]
  define n where "n = (seg_hi g - seg_lo g) div 4096"
  have n: "seg_hi g = seg_lo g + n * 4096" using B(3,5,6) unfolding n_def by (metis add_diff_inverse_nat dvd_diff_nat dvd_div_mult_self le_add_diff_inverse mod_0_imp_dvd)
  have "ph_vaddr g + ph_memsz g + 0xFFF < two64" using assms(9) by (simp add: seg_ok_def)
  then have "page_up (add64 (ph_vaddr g) (ph_memsz g)) = seg_hi g" by (simp add: page_up_def seg_hi_def)
  moreover have "sub64 (seg_hi g) (seg_lo g) = n * 4096" using B(3,4) n by simp
  moreover have "\<not> (0 < ph_filesz g \<and> (length fd < ph_offset g \<or> length fd - ph_offset g < ph_filesz g))" "\<not> ph_memsz g < ph_filesz g"
    using assms(9) by (auto simp: seg_ok_def)
  ultimately have run: "map_segment env fd r (phdr_at (phoff_of fd) i) pg = map_user_region_in_directory env r (seg_lo g) (n * 4096) (seg_flags (ph_flags g)) pg"
    by (simp add: map_segment_def F assms(8) seg_lo_def [symmetric] Let_def del: de_Morgan_conj)
  show ?thesis unfolding run using assms(10) B(4)
    by (intro map_region_private [OF assms(1-4) seg_flags_bits(1) B(5) n]) (auto simp: in_seg_def)
qed

text \<open>Phase 2 for one entry, on private pages.\<close>

lemma copied_app: "copied R pg pg1 r dst xs \<Longrightarrow> copied R pg1 pg2 r dst' ys \<Longrightarrow> dst' = dst + length xs \<Longrightarrow> copied R pg pg2 r dst (xs @ ys)"
  using copied_trans by blast

lemma fill_segment_step:
  assumes "as_inv R pg" "r \<in> R" "table_fits fd" "i < phnum_of fd" "g = phdr_index fd i" "ph_type g = PT_LOAD" "seg_ok fd g"
    and own: "\<And>va. in_seg g va \<Longrightarrow> own_page R pg r (va_path va)"
  shows "\<exists>pg'. fill_segment env fd r (phdr_at (phoff_of fd) i) pg = Done (True, pg') \<and> as_inv R pg' \<and> tabs pg' = tabs pg \<and> copied R pg pg' r (ph_vaddr g) (seg_data fd g)"
proof -
  note F = entry_fields [OF assms(3,4), folded assms(5)]
  note B = seg_bounds [OF assms(7)]
  note K = assms(7) [unfolded seg_ok_def]
  let ?fs = "take (ph_filesz g) (drop (ph_offset g) fd)"
  have fs: "length ?fs = ph_filesz g" using K by (cases "ph_filesz g = 0") auto
  have r0: "r \<noteq> 0" by (rule root_nonzero [OF as_invD(2) [OF assms(1)] assms(2)])
  have ins: "in_seg g (ph_vaddr g + k)" if "k < ph_memsz g" for k using that B(1,2) by (auto simp: in_seg_def)
  have "ph_vaddr g + length ?fs \<le> 2 ^ 47" "\<forall>k < length ?fs. own_page R pg r (va_path (ph_vaddr g + k))" using fs K own [OF ins] by auto
  from copy_to_own [OF assms(2,1) this] obtain pg1 where 1: "copy_to_region env r (ph_vaddr g) ?fs pg = Done (True, pg1)" "as_inv R pg1" "tabs pg1 = tabs pg" "copied R pg pg1 r (ph_vaddr g) ?fs"
    by blast
  have c1: "(if 0 < ph_filesz g then kbind (p_offset fd (phdr_at (phoff_of fd) i)) (\<lambda>off. kbind (file_bytes fd off (ph_filesz g)) (\<lambda>bs.
       copy_to_user_region_in_directory env r (ph_vaddr g) (Some bs) pg)) else Done (True, pg)) = Done (True, pg1)"
    using 1(1) K r0 F by (cases "ph_filesz g = 0") (simp_all add: file_bytes_def copy_to_user_region_in_directory_def copy_to_region.simps [of env r _ "[]"])
  let ?z = "replicate (ph_memsz g - ph_filesz g) (0 :: u8)"
  have ad: "add64 (ph_vaddr g) (ph_filesz g) = ph_vaddr g + ph_filesz g" using K by (intro add64_small) simp
  have own1: "own_page R pg1 r (va_path (ph_vaddr g + ph_filesz g + k))" if "k < length ?z" for k
    using own [OF ins [of "ph_filesz g + k"]] that 1(3) by (simp add: own_page_def add.assoc)
  have "ph_vaddr g + ph_filesz g + length ?z \<le> 2 ^ 47" using K by auto
  from copy_to_own [OF assms(2) 1(2) this] own1 obtain pg2 where 2: "copy_to_region env r (ph_vaddr g + ph_filesz g) ?z pg1 = Done (True, pg2)" "as_inv R pg2" "tabs pg2 = tabs pg1"
    "copied R pg1 pg2 r (ph_vaddr g + ph_filesz g) ?z" by blast
  have c2: "(if ph_filesz g < ph_memsz g then zero_user_region_in_directory env r (ph_vaddr g + ph_filesz g) (ph_memsz g - ph_filesz g) pg1 else Done (True, pg1)) = Done (True, pg2)"
    using 2(1) r0 by (cases "ph_filesz g < ph_memsz g") (simp_all add: zero_user_region_in_directory_def copy_to_region.simps [of env r _ "[]"])
  have run: "fill_segment env fd r (phdr_at (phoff_of fd) i) pg = Done (True, pg2)"
    unfolding fill_segment_def F(1,4,5,6) kbind.simps assms(6) c1 ad using c2 by simp
  have "copied R pg pg2 r (ph_vaddr g) (?fs @ ?z)" by (rule copied_app [OF 1(4) 2(4)]) (simp only: fs)
  then show ?thesis using run 2(2,3) 1(3) by (auto simp: seg_data_def)
qed

section \<open>The two loops\<close>

definition image_mapped :: "nat set \<Rightarrow> paging \<Rightarrow> paging \<Rightarrow> nat \<Rightarrow> elf64_phdr list \<Rightarrow> bool" where
  "image_mapped R pg pg' r D \<longleftrightarrow> as_inv R pg' \<and> sole_writer (U R (tabs pg')) \<and>
     (\<forall>s. \<forall>va < 2 ^ 47. peek R pg' s va = (if s = r \<and> (\<exists>g \<in> set D. in_seg g va) then Some 0 else peek R pg s va)) \<and>
     (\<forall>g \<in> set D. \<forall>va < 2 ^ 47. in_seg g va \<longrightarrow> (\<exists>f. frame_addr f \<and> sole_user (U R (tabs pg')) (r, va_path va) (user_leaf (seg_flags (ph_flags g)) f))) \<and>
     (\<forall>x e. sole_user (U R (tabs pg)) x e \<longrightarrow> sole_user (U R (tabs pg')) x e)"

lemma image_mapped_Nil: "as_inv R pg \<Longrightarrow> sole_writer (U R (tabs pg)) \<Longrightarrow> image_mapped R pg pg r []"
  by (simp add: image_mapped_def)

lemma region_none: "region_added R pg pg' r lo lo fl \<Longrightarrow> image_mapped R pg pg' r []"
  by (auto simp: region_added_def image_mapped_def)

lemma image_mapped_Cons:
  assumes "region_added R pg pg1 r (seg_lo g) (seg_hi g) (seg_flags (ph_flags g))" "image_mapped R pg1 pg2 r D"
  shows "image_mapped R pg pg2 r (g # D)"
proof -
  note A = assms(1) [unfolded region_added_def] and M = assms(2) [unfolded image_mapped_def]
  have "peek R pg2 s va = (if s = r \<and> (\<exists>h \<in> set (g # D). in_seg h va) then Some 0 else peek R pg s va)" if "va < 2 ^ 47" for s va
    using A M that by (auto simp: in_seg_def)
  moreover have "\<exists>f. frame_addr f \<and> sole_user (U R (tabs pg2)) (r, va_path va) (user_leaf (seg_flags (ph_flags h)) f)"
    if h: "h \<in> set (g # D)" "va < 2 ^ 47" "in_seg h va" for h va
  proof (cases "h = g")
    case True
    then have "\<exists>f. frame_addr f \<and> sole_user (U R (tabs pg1)) (r, va_path va) (user_leaf (seg_flags (ph_flags h)) f)" using A h by (auto simp: in_seg_def)
    then show ?thesis using M by blast
  next
    case False
    then show ?thesis using M h by auto
  qed
  ultimately show ?thesis unfolding image_mapped_def using A M by blast
qed

lemma map_loop:
  assumes "env_ok env" "r \<in> R" "table_fits fd"
  shows "as_inv R pg \<Longrightarrow> sole_writer (U R (tabs pg)) \<Longrightarrow> \<forall>i \<in> set is. i < phnum_of fd \<Longrightarrow> \<forall>g \<in> set (loads fd is). seg_ok fd g \<Longrightarrow> sorted_wrt seg_apart (loads fd is) \<Longrightarrow>
     \<forall>g \<in> set (loads fd is). \<forall>va. in_seg g va \<longrightarrow> translate pg r va = None \<Longrightarrow>
     \<exists>ok pg' D. kfor is (\<lambda>i. map_segment env fd r (phdr_at (phoff_of fd) i)) pg = Done (ok, pg') \<and> set D \<subseteq> set (loads fd is) \<and> (ok \<longrightarrow> D = loads fd is) \<and> image_mapped R pg pg' r D"
proof (induction "is" arbitrary: pg)
  case Nil
  then show ?case using image_mapped_Nil by (auto simp: loads_def)
next
  case (Cons i "is")
  let ?g = "phdr_index fd i"
  have i: "i < phnum_of fd" "\<forall>i \<in> set is. i < phnum_of fd" using Cons.prems(3) by auto
  show ?case
  proof (cases "ph_type ?g = PT_LOAD")
    case False
    then have "map_segment env fd r (phdr_at (phoff_of fd) i) pg = Done (True, pg)" by (simp add: map_segment_def entry_fields [OF assms(3) i(1)])
    then show ?thesis using Cons.IH [OF Cons.prems(1,2) i(2)] Cons.prems(4-6) False by (simp add: loads_Cons)
  next
    case True
    have L: "loads fd (i # is) = ?g # loads fd is" using True by (simp add: loads_Cons)
    obtain ok pg1 where 1: "map_segment env fd r (phdr_at (phoff_of fd) i) pg = Done (ok, pg1)"
      "region_added R pg pg1 r (seg_lo ?g) (if ok then seg_hi ?g else seg_lo ?g) (seg_flags (ph_flags ?g))"
      using map_segment_step [OF assms(1) Cons.prems(1,2) assms(2,3) i(1) refl True] Cons.prems(4,6) L by auto
    show ?thesis
    proof (cases ok)
      case False
      then show ?thesis using 1 region_none [of R pg pg1] by (intro exI [of _ False] exI [of _ pg1] exI [of _ "[]"]) simp
    next
      case ok: True
      have A: "region_added R pg pg1 r (seg_lo ?g) (seg_hi ?g) (seg_flags (ph_flags ?g))" using 1(2) ok by simp
      have un: "\<forall>g \<in> set (loads fd is). \<forall>va. in_seg g va \<longrightarrow> translate pg1 r va = None"
      proof (intro ballI allI impI)
        fix g va assume g: "g \<in> set (loads fd is)" "in_seg g va"
        have "seg_apart ?g g" "seg_ok fd g" using Cons.prems(4,5) L g(1) by auto
        then have "\<not> (seg_lo ?g \<le> va \<and> va < seg_hi ?g)" "va < 2 ^ 47" using g(2) seg_bounds(4) [of fd g] by (auto simp: seg_apart_def in_seg_def)
        then show "translate pg1 r va = None" using A Cons.prems(6) L g unfolding region_added_def by auto
      qed
      have i1: "as_inv R pg1" "sole_writer (U R (tabs pg1))" using A by (auto simp: region_added_def)
      obtain b pg' D where D: "kfor is (\<lambda>i. map_segment env fd r (phdr_at (phoff_of fd) i)) pg1 = Done (b, pg')" "set D \<subseteq> set (loads fd is)" "b \<longrightarrow> D = loads fd is" "image_mapped R pg1 pg' r D"
        using Cons.IH [OF i1 i(2) _ _ un] Cons.prems(4,5) L by auto
      have "kfor (i # is) (\<lambda>i. map_segment env fd r (phdr_at (phoff_of fd) i)) pg = Done (b, pg')" using 1(1) ok D(1) by simp
      then show ?thesis using image_mapped_Cons [OF A D(4)] D(2,3) L by (intro exI [of _ b] exI [of _ pg'] exI [of _ "?g # D"]) auto
    qed
  qed
qed

lemma fill_loop:
  assumes "r \<in> R" "table_fits fd"
  shows "as_inv R pg \<Longrightarrow> \<forall>i \<in> set is. i < phnum_of fd \<Longrightarrow> \<forall>g \<in> set (loads fd is). seg_ok fd g \<and> (\<forall>va. in_seg g va \<longrightarrow> own_page R pg r (va_path va)) \<Longrightarrow> sorted_wrt seg_apart (loads fd is) \<Longrightarrow>
     \<exists>pg'. kfor is (\<lambda>i. fill_segment env fd r (phdr_at (phoff_of fd) i)) pg = Done (True, pg') \<and> as_inv R pg' \<and> tabs pg' = tabs pg \<and>
       (\<forall>s. \<forall>va < 2 ^ 47. s \<noteq> r \<or> \<not> (\<exists>g \<in> set (loads fd is). in_seg g va) \<longrightarrow> peek R pg' s va = peek R pg s va) \<and>
       (\<forall>g \<in> set (loads fd is). \<forall>va < 2 ^ 47. in_seg g va \<longrightarrow>
          peek R pg' r va = (if ph_vaddr g \<le> va \<and> va < ph_vaddr g + ph_memsz g then Some (seg_data fd g ! (va - ph_vaddr g)) else peek R pg r va))"
proof (induction "is" arbitrary: pg)
  case Nil
  then show ?case by (auto simp: loads_def)
next
  case (Cons i "is")
  let ?g = "phdr_index fd i"
  have i: "i < phnum_of fd" "\<forall>i \<in> set is. i < phnum_of fd" using Cons.prems(2) by auto
  show ?case
  proof (cases "ph_type ?g = PT_LOAD")
    case False
    then have "fill_segment env fd r (phdr_at (phoff_of fd) i) pg = Done (True, pg)" by (simp add: fill_segment_def entry_fields [OF assms(2) i(1)])
    then show ?thesis using Cons.IH [OF Cons.prems(1) i(2)] Cons.prems(3,4) False by (simp add: loads_Cons)
  next
    case True
    have L: "loads fd (i # is) = ?g # loads fd is" using True by (simp add: loads_Cons)
    have g: "seg_ok fd ?g" "\<And>va. in_seg ?g va \<Longrightarrow> own_page R pg r (va_path va)" using Cons.prems(3) L by auto
    note B = seg_bounds [OF g(1)]
    obtain pg1 where 1: "fill_segment env fd r (phdr_at (phoff_of fd) i) pg = Done (True, pg1)" "as_inv R pg1" "tabs pg1 = tabs pg" "copied R pg pg1 r (ph_vaddr ?g) (seg_data fd ?g)"
      using fill_segment_step [OF Cons.prems(1) assms(1,2) i(1) refl True g] by blast
    have P1: "peek R pg1 s va = (if s = r \<and> ph_vaddr ?g \<le> va \<and> va < ph_vaddr ?g + ph_memsz ?g then Some (seg_data fd ?g ! (va - ph_vaddr ?g)) else peek R pg s va)" if "va < 2 ^ 47" for s va
      using 1(4) that B(7) unfolding copied_def by simp
    have own1: "\<forall>g \<in> set (loads fd is). seg_ok fd g \<and> (\<forall>va. in_seg g va \<longrightarrow> own_page R pg1 r (va_path va))"
      using Cons.prems(3) L 1(3) by (auto simp: own_page_def)
    obtain pg' where 2: "kfor is (\<lambda>i. fill_segment env fd r (phdr_at (phoff_of fd) i)) pg1 = Done (True, pg')" "as_inv R pg'" "tabs pg' = tabs pg1"
      "\<And>s va. va < 2 ^ 47 \<Longrightarrow> s \<noteq> r \<or> \<not> (\<exists>g \<in> set (loads fd is). in_seg g va) \<Longrightarrow> peek R pg' s va = peek R pg1 s va"
      "\<And>g va. g \<in> set (loads fd is) \<Longrightarrow> va < 2 ^ 47 \<Longrightarrow> in_seg g va \<Longrightarrow>
          peek R pg' r va = (if ph_vaddr g \<le> va \<and> va < ph_vaddr g + ph_memsz g then Some (seg_data fd g ! (va - ph_vaddr g)) else peek R pg1 r va)"
      using Cons.IH [OF 1(2) i(2) own1] Cons.prems(4) L by auto
    have ap: "\<not> (in_seg ?g va \<and> in_seg g va)" if "g \<in> set (loads fd is)" for g va
      using Cons.prems(4) L that by (auto simp: seg_apart_def in_seg_def)
    have ins: "in_seg ?g va" if "ph_vaddr ?g \<le> va" "va < ph_vaddr ?g + ph_memsz ?g" for va using that B(1,2) by (simp add: in_seg_def)
    have "peek R pg' s va = peek R pg s va" if "va < 2 ^ 47" "s \<noteq> r \<or> \<not> (\<exists>g \<in> set (loads fd (i # is)). in_seg g va)" for s va
      using 2(4) [OF that(1), of s] P1 [OF that(1), of s] that(2) ins L by auto
    moreover have "peek R pg' r va = (if ph_vaddr g \<le> va \<and> va < ph_vaddr g + ph_memsz g then Some (seg_data fd g ! (va - ph_vaddr g)) else peek R pg r va)"
      if h: "g \<in> set (loads fd (i # is))" "va < 2 ^ 47" "in_seg g va" for g va
    proof (cases "g \<in> set (loads fd is)")
      case True
      then show ?thesis using 2(5) [OF True h(2,3)] P1 [OF h(2), of r] ap [OF True, of va] h(3) ins by auto
    next
      case False
      then have "g = ?g" using h(1) L by simp
      then show ?thesis using 2(4) [OF h(2), of r] P1 [OF h(2), of r] ap h(3) by auto
    qed
    ultimately show ?thesis using 1(1,3) 2(1-3) by (intro exI [of _ pg']) simp
  qed
qed

lemma load_run:
  assumes "r \<noteq> 0" "table_fits fd"
  shows "elf_load_segments env fd r pg =
     kbind (kfor [0..<phnum_of fd] (\<lambda>i. map_segment env fd r (phdr_at (phoff_of fd) i)) pg) (\<lambda>(ok, pg1).
       if \<not> ok then Done (False, pg1) else kfor [0..<phnum_of fd] (\<lambda>i. fill_segment env fd r (phdr_at (phoff_of fd) i)) pg1)"
  using assms by (auto simp: elf_load_segments_def table_fits_def elf_header_fields)

section \<open>The scans\<close>

lemma load_base_loop_spec:
  assumes "table_fits fd"
  shows "\<forall>i \<in> set is. i < phnum_of fd \<Longrightarrow> \<exists>b. load_base_loop fd (phoff_of fd) is base = Done b \<and> b \<le> base \<and> (\<forall>g \<in> set (loads fd is). b \<le> ph_vaddr g)"
proof (induction "is" arbitrary: base)
  case (Cons i "is")
  then have i: "i < phnum_of fd" "\<forall>i \<in> set is. i < phnum_of fd" by auto
  note F = entry_fields [OF assms i(1)]
  show ?case
  proof (cases "ph_type (phdr_index fd i) = PT_LOAD")
    case True
    obtain b where "load_base_loop fd (phoff_of fd) is (if ph_vaddr (phdr_index fd i) < base then ph_vaddr (phdr_index fd i) else base) = Done b"
      "b \<le> (if ph_vaddr (phdr_index fd i) < base then ph_vaddr (phdr_index fd i) else base)" "\<forall>g \<in> set (loads fd is). b \<le> ph_vaddr g"
      using Cons.IH [OF i(2)] by blast
    then show ?thesis using F True by (intro exI [of _ b]) (auto simp: loads_Cons split: if_splits)
  qed (use Cons.IH [OF i(2)] F in \<open>simp add: loads_Cons\<close>)
qed (simp add: loads_def)

lemma Max_insert_max: "finite S \<Longrightarrow> Max (insert (max a b) S) = Max (insert b (insert a S))" for a b :: nat
  by (cases "S = {}") (auto simp: max.commute max.left_commute max.assoc)

lemma initial_brk_loop_spec:
  assumes "table_fits fd"
  shows "\<forall>i \<in> set is. i < phnum_of fd \<Longrightarrow> \<forall>g \<in> set (loads fd is). seg_ok fd g \<Longrightarrow>
     initial_brk_loop fd (phoff_of fd) is brk = Done (Max (insert brk (seg_hi ` set (loads fd is))))"
proof (induction "is" arbitrary: brk)
  case (Cons i "is")
  let ?g = "phdr_index fd i"
  have i: "i < phnum_of fd" "\<forall>i \<in> set is. i < phnum_of fd" using Cons.prems(1) by auto
  note F = entry_fields [OF assms i(1)]
  show ?case
  proof (cases "ph_type ?g = PT_LOAD")
    case True
    have "seg_ok fd ?g" "\<forall>g \<in> set (loads fd is). seg_ok fd g" using Cons.prems(2) True by (auto simp: loads_Cons)
    then have "ph_vaddr ?g + ph_memsz ?g + 0xFFF < two64" by (simp add: seg_ok_def)
    then have e: "page_up (add64 (ph_vaddr ?g) (ph_memsz ?g)) = seg_hi ?g" by (simp add: page_up_def seg_hi_def)
    have "initial_brk_loop fd (phoff_of fd) (i # is) brk = initial_brk_loop fd (phoff_of fd) is (max (seg_hi ?g) brk)"
      using F True by (simp add: e Let_def max_def not_less)
    also have "\<dots> = Done (Max (insert (max (seg_hi ?g) brk) (seg_hi ` set (loads fd is))))" by (rule Cons.IH) (use i \<open>\<forall>g \<in> set (loads fd is). seg_ok fd g\<close> in blast)+
    also have "Max (insert (max (seg_hi ?g) brk) (seg_hi ` set (loads fd is))) = Max (insert brk (seg_hi ` set (loads fd (i # is))))"
      using True by (simp add: loads_Cons Max_insert_max)
    finally show ?thesis .
  qed (use Cons i F in \<open>simp add: loads_Cons\<close>)
qed (simp add: loads_def)

lemma find_pt_phdr_Done: "table_fits fd \<Longrightarrow> \<forall>i \<in> set is. i < phnum_of fd \<Longrightarrow> \<exists>v. find_pt_phdr fd (phoff_of fd) is = Done v"
  by (induction "is") (auto simp: entry_fields)

lemma find_covering_Done: "table_fits fd \<Longrightarrow> \<forall>i \<in> set is. i < phnum_of fd \<Longrightarrow> \<exists>v. find_covering fd (phoff_of fd) is = Done v"
  by (induction "is") (auto simp: entry_fields)

section \<open>Properties\<close>

text \<open>
  C6: Loading an image. For a file whose program header table and segments lie inside it and whose segments take up pages of their own that
  are not in use, the loader either fails, or every byte of every page of every segment is what the file says, the bytes behind
  \<^verbatim>\<open>p_filesz\<close> and the rest of the pages zero, with write and execute permission as in \<^verbatim>\<open>p_flags\<close>. In both cases every other
  byte of the process and of every other process is what it was, and the invariants of the address spaces hold.
\<close>

theorem elf_load_correct:
  assumes "env_ok env" "as_inv R pg" "sole_writer (U R (tabs pg))" "r \<in> R" "table_fits fd" "segs = loads fd [0..<phnum_of fd]"
    and "\<forall>g \<in> set segs. seg_ok fd g" "sorted_wrt seg_apart segs" "\<forall>g \<in> set segs. \<forall>va. in_seg g va \<longrightarrow> translate pg r va = None"
  shows "\<exists>ok pg'. elf_load_segments env fd r pg = Done (ok, pg') \<and> as_inv R pg' \<and> sole_writer (U R (tabs pg')) \<and>
     (\<forall>s. \<forall>va < 2 ^ 47. s \<noteq> r \<or> \<not> (\<exists>g \<in> set segs. in_seg g va) \<longrightarrow> peek R pg' s va = peek R pg s va) \<and>
     (ok \<longrightarrow> (\<forall>g \<in> set segs. \<forall>va < 2 ^ 47. in_seg g va \<longrightarrow>
        peek R pg' r va = Some (if ph_vaddr g \<le> va \<and> va < ph_vaddr g + ph_filesz g then fd ! (ph_offset g + (va - ph_vaddr g)) else 0) \<and>
        (\<exists>e. U R (tabs pg') (r, va_path va) = Some e \<and> (bit e 1 \<longleftrightarrow> bit (ph_flags g) 1) \<and> (bit e 63 \<longleftrightarrow> \<not> bit (ph_flags g) 0))))"
proof -
  have ix: "\<forall>i \<in> set [0..<phnum_of fd]. i < phnum_of fd" by simp
  have r0: "r \<noteq> 0" by (rule root_nonzero [OF as_invD(2) [OF assms(2)] assms(4)])
  obtain ok pg1 D where 1: "kfor [0..<phnum_of fd] (\<lambda>i. map_segment env fd r (phdr_at (phoff_of fd) i)) pg = Done (ok, pg1)"
    "set D \<subseteq> set segs" "ok \<longrightarrow> D = segs" "image_mapped R pg pg1 r D"
    using map_loop [OF assms(1,4,5,2,3) ix] assms(6-9) by blast
  note M = 1(4) [unfolded image_mapped_def]
  show ?thesis
  proof (cases ok)
    case False
    then show ?thesis using load_run [OF r0 assms(5)] 1(1,2) M by (intro exI [of _ False] exI [of _ pg1]) auto
  next
    case True
    then have D: "D = segs" using 1(3) by simp
    have own: "own_page R pg1 r (va_path va)" if "g \<in> set segs" "in_seg g va" for g va
    proof -
      have "va < 2 ^ 47" using seg_bounds(4) [of fd g] assms(7) that by (auto simp: in_seg_def)
      then show ?thesis using M that D user_leaf_bits(2) unfolding own_page_def by blast
    qed
    have ow: "\<forall>g \<in> set (loads fd [0..<phnum_of fd]). seg_ok fd g \<and> (\<forall>va. in_seg g va \<longrightarrow> own_page R pg1 r (va_path va))" using own assms(6,7) by blast
    have ap: "sorted_wrt seg_apart (loads fd [0..<phnum_of fd])" "as_inv R pg1" using assms(6,8) M by simp_all
    obtain pg' where 2: "kfor [0..<phnum_of fd] (\<lambda>i. fill_segment env fd r (phdr_at (phoff_of fd) i)) pg1 = Done (True, pg')" "as_inv R pg'" "tabs pg' = tabs pg1"
      "\<And>s va. va < 2 ^ 47 \<Longrightarrow> s \<noteq> r \<or> \<not> (\<exists>g \<in> set segs. in_seg g va) \<Longrightarrow> peek R pg' s va = peek R pg1 s va"
      "\<And>g va. g \<in> set segs \<Longrightarrow> va < 2 ^ 47 \<Longrightarrow> in_seg g va \<Longrightarrow>
          peek R pg' r va = (if ph_vaddr g \<le> va \<and> va < ph_vaddr g + ph_memsz g then Some (seg_data fd g ! (va - ph_vaddr g)) else peek R pg1 r va)"
      using fill_loop [OF assms(4,5) ap(2) ix ow ap(1), folded assms(6)] by blast
    have "peek R pg' r va = Some (if ph_vaddr g \<le> va \<and> va < ph_vaddr g + ph_filesz g then fd ! (ph_offset g + (va - ph_vaddr g)) else 0)"
      if g: "g \<in> set segs" "va < 2 ^ 47" "in_seg g va" for g va
    proof -
      have z: "peek R pg1 r va = Some 0" using M g D by auto
      have "seg_ok fd g" using assms(7) g(1) by blast
      then have "seg_data fd g ! (va - ph_vaddr g) = (if va < ph_vaddr g + ph_filesz g then fd ! (ph_offset g + (va - ph_vaddr g)) else 0)"
        if "ph_vaddr g \<le> va" "va < ph_vaddr g + ph_memsz g"
        using that by (auto simp: seg_data_def seg_ok_def nth_append min_def)
      then show ?thesis using 2(5) [OF g] z \<open>seg_ok fd g\<close> by (auto simp: seg_ok_def)
    qed
    moreover have "\<exists>e. U R (tabs pg') (r, va_path va) = Some e \<and> (bit e 1 \<longleftrightarrow> bit (ph_flags g) 1) \<and> (bit e 63 \<longleftrightarrow> \<not> bit (ph_flags g) 0)"
      if g: "g \<in> set segs" "va < 2 ^ 47" "in_seg g va" for g va
      using M g D 2(3) user_leaf_bits unfolding sole_user_def by metis
    moreover have "peek R pg' s va = peek R pg s va" if "va < 2 ^ 47" "s \<noteq> r \<or> \<not> (\<exists>g \<in> set segs. in_seg g va)" for s va
      using 2(4) [OF that] M that D by auto
    ultimately show ?thesis using load_run [OF r0 assms(5)] 1(1) True 2(1-3) M by (intro exI [of _ True] exI [of _ pg']) simp
  qed
qed

text \<open>
  C40: Nothing checks that \<^verbatim>\<open>p_vaddr\<close> is a user address, and the size of a segment is computed with wrap-around. With
  \<^verbatim>\<open>p_memsz = 2^64 - 0xFFF\<close> at a page boundary the size comes out as 0: no page is mapped, and the second phase writes the bytes of
  the file to whatever page is present at \<^verbatim>\<open>p_vaddr\<close>, a supervisor page of the kernel included, before the loader fails.
\<close>

theorem elf_load_overwrites:
  assumes "pt_inv R (tabs pg)" "r \<in> R" "table_fits fd" "phnum_of fd = 1" "g = phdr_index fd 0" "ph_type g = PT_LOAD" "va = ph_vaddr g" "va mod 4096 = 0" "va + 4096 < two64"
    and "ph_filesz g = 4096" "ph_offset g + 4096 \<le> length fd" "ph_memsz g = two64 - 0xFFF"
    and "leaf (tabs pg) r (va_path va) = e" "mm_pte_present e" "bit e 1 \<or> \<not> bit e 9" "tabs pg (mm_pte_phys e) = None" "\<not> mm_pte_present (leaf (tabs pg) r (va_path (va + 4096)))"
  shows "\<exists>pg'. elf_load_segments env fd r pg = Done (False, pg') \<and> (\<forall>k < 4096. ram pg' (mm_pte_phys e + k) = fd ! (ph_offset g + k))"
proof -
  note F = entry_fields [OF assms(3), of 0, folded assms(5), unfolded assms(4)]
  have r0: "r \<noteq> 0" by (rule root_nonzero [OF assms(1,2)])
  have "add64 (add64 va (ph_memsz g)) 0xFFF = va" using assms(9,12) by (simp add: add64_def mod_simps)
  then have pu: "page_up (add64 va (ph_memsz g)) = va" "align_down 4096 va = va" using assms(8) by (auto simp: page_up_def align_down_def)
  have "map_user_region_in_directory env r va 0 (seg_flags (ph_flags g)) pg = Done (True, pg)" using r0 by (simp add: map_user_region_in_directory_def align_down_def)
  then have 1: "map_segment env fd r (phdr_at (phoff_of fd) 0) pg = Done (True, pg)"
    using F assms(6,9-12) pu by (simp add: map_segment_def Let_def assms(7) [symmetric])
  let ?bs = "take 4096 (drop (ph_offset g) fd)"
  have l: "length ?bs = 4096" using assms(11) by simp
  then have ne: "?bs \<noteq> []" by auto
  define pg1 where "pg1 = pg\<lparr>ram := (\<lambda>x. if mm_pte_phys e + va mod 4096 \<le> x \<and> x < mm_pte_phys e + va mod 4096 + length ?bs then ?bs ! (x - (mm_pte_phys e + va mod 4096)) else ram pg x)\<rparr>"
  have cp: "copy_to_region env r va ?bs pg = Done (True, pg1)" unfolding pg1_def
    by (rule copy_unprotected [OF assms(1,2) _ ne assms(13-16)]) (use l assms(8) in simp)
  have nz: "replicate (ph_memsz g - 4096) (0 :: u8) \<noteq> []" using assms(12) by simp
  have "copy_to_region env r (va + 4096) (replicate (ph_memsz g - 4096) 0) pg1 = Done (False, pg1)"
    by (rule copy_unmapped [OF _ assms(2) nz]) (use assms(1,17) in \<open>simp_all add: pg1_def\<close>)
  then have z: "zero_user_region_in_directory env r (add64 va 4096) (ph_memsz g - 4096) pg1 = Done (False, pg1)"
    using r0 assms(9) by (simp add: zero_user_region_in_directory_def)
  have "4096 < ph_memsz g" using assms(12) by simp
  then have 2: "fill_segment env fd r (phdr_at (phoff_of fd) 0) pg = Done (False, pg1)"
    using F assms(6,10,11) cp z r0 by (simp add: fill_segment_def file_bytes_def copy_to_user_region_in_directory_def assms(7) [symmetric])
  have "elf_load_segments env fd r pg = Done (False, pg1)" using 1 2 by (simp add: load_run [OF r0 assms(3)] assms(4))
  moreover have "ram pg1 (mm_pte_phys e + k) = fd ! (ph_offset g + k)" if "k < 4096" for k using that l assms(8,11) by (simp add: pg1_def)
  ultimately show ?thesis by blast
qed

text \<open>
  The scans of the table. When the table lies in the file they all return; the base is the lowest and the break the highest end, on a page
  boundary, of the segments to be loaded, so that the heap starts above the whole image. But \<^verbatim>\<open>exec_replace_current\<close> runs the first two
  before any check of \<^verbatim>\<open>e_phoff\<close>: with a table behind the end of the file they read outside the buffer.
\<close>

theorem elf_scans:
  assumes "elf_header_size \<le> length fd" "segs = loads fd [0..<phnum_of fd]"
  shows "(table_fits fd \<longrightarrow> (\<exists>a b. elf_compute_at_phdr fd = Done a \<and> elf_compute_load_base fd = Done b \<and> (\<forall>g \<in> set segs. b \<le> ph_vaddr g)) \<and>
       ((\<forall>g \<in> set segs. seg_ok fd g) \<longrightarrow> elf_compute_initial_brk fd = Done (Max (insert 0 (seg_hi ` set segs))))) \<and>
     (0 < phnum_of fd \<and> length fd < phoff_of fd + 4 \<longrightarrow> elf_compute_at_phdr fd = Stuck \<and> elf_compute_load_base fd = Stuck)"
proof (intro conjI impI)
  have ix: "\<forall>i \<in> set [0..<phnum_of fd]. i < phnum_of fd" by simp
  have mx: "\<not> u64_max < phoff_of fd" using fieldv_bound [of fd 32 8] by (simp add: u64_max_def phoff_of_def)
  note H = elf_header_fields [OF assms(1)]
  {
    assume t: "table_fits fd"
    obtain b where b: "load_base_loop fd (phoff_of fd) [0..<phnum_of fd] u64_max = Done b" "\<forall>g \<in> set segs. b \<le> ph_vaddr g"
      using load_base_loop_spec [OF t ix, of u64_max] assms(2) by blast
    obtain v w where "find_pt_phdr fd (phoff_of fd) [0..<phnum_of fd] = Done v" "find_covering fd (phoff_of fd) [0..<phnum_of fd] = Done w"
      using find_pt_phdr_Done [OF t ix] find_covering_Done [OF t ix] by blast
    then have "\<exists>a. elf_compute_at_phdr fd = Done a" using mx H by (cases v) (auto simp: elf_compute_at_phdr_def)
    moreover have "elf_compute_load_base fd = Done (if b = u64_max then 0 else b)" using mx H b(1) by (simp add: elf_compute_load_base_def)
    ultimately show "\<exists>a b. elf_compute_at_phdr fd = Done a \<and> elf_compute_load_base fd = Done b \<and> (\<forall>g \<in> set segs. b \<le> ph_vaddr g)" using b(2) by auto
    assume "\<forall>g \<in> set segs. seg_ok fd g"
    then show "elf_compute_initial_brk fd = Done (Max (insert 0 (seg_hi ` set segs)))"
      using initial_brk_loop_spec [OF t ix, of 0] H by (simp add: elf_compute_initial_brk_def assms(2))
  }
  assume h: "0 < phnum_of fd \<and> length fd < phoff_of fd + 4"
  then have u: "[0..<phnum_of fd] = 0 # [1..<phnum_of fd]" by (simp add: upt_conv_Cons)
  have "p_type fd (phdr_at (phoff_of fd) 0) = Stuck" using h by (simp add: p_type_def phdr_at_def field_Stuck)
  then show "elf_compute_at_phdr fd = Stuck" "elf_compute_load_base fd = Stuck"
    using mx H by (simp_all add: elf_compute_at_phdr_def elf_compute_load_base_def u)
qed

section \<open>Witnesses\<close>

definition elf_demo_header :: "u8 list" where
  "elf_demo_header = [0x7F, 69, 76, 70, 2, 1, 1, 0, 0, 0, 0, 0, 0, 0, 0, 0, 2, 0, 62, 0, 1, 0, 0, 0, 0, 0, 0x40, 0, 0, 0, 0, 0,
     64, 0, 0, 0, 0, 0, 0, 0, 0, 0, 0, 0, 0, 0, 0, 0, 0, 0, 0, 0, 64, 0, 56, 0, 1, 0, 0, 0, 0, 0, 0, 0]"

text \<open>One segment, read and execute, at 0x400000: two bytes of the file in 16 bytes of memory.\<close>

definition elf_demo :: "u8 list" where
  "elf_demo = elf_demo_header @ [1, 0, 0, 0, 5, 0, 0, 0, 120, 0, 0, 0, 0, 0, 0, 0, 0, 0, 0x40, 0, 0, 0, 0, 0, 0, 0, 0, 0, 0, 0, 0, 0,
     2, 0, 0, 0, 0, 0, 0, 0, 16, 0, 0, 0, 0, 0, 0, 0, 0, 0x10, 0, 0, 0, 0, 0, 0, 0x90, 0xC3]"

text \<open>One segment whose size wraps around.\<close>

definition elf_wrap :: "u8 list" where
  "elf_wrap = elf_demo_header @ [1, 0, 0, 0, 6, 0, 0, 0, 120, 0, 0, 0, 0, 0, 0, 0, 0, 0, 0x40, 0, 0, 0, 0, 0, 0, 0, 0, 0, 0, 0, 0, 0,
     0, 0x10, 0, 0, 0, 0, 0, 0, 1, 0xF0, 0xFF, 0xFF, 0xFF, 0xFF, 0xFF, 0xFF, 0, 0x10, 0, 0, 0, 0, 0, 0] @ replicate 4096 0x41"

lemma elf_demo_table:
  "table_fits elf_demo" "phnum_of elf_demo = 1" "phdr_index elf_demo 0 = \<lparr>ph_type = 1, ph_flags = 5, ph_offset = 120, ph_vaddr = 0x400000, ph_filesz = 2, ph_memsz = 16\<rparr>"
  by (simp_all add: elf_demo_def elf_demo_header_def table_fits_def phnum_of_def phoff_of_def phdr_index_def phdr_of_def phdr_at_def fieldv_def
    elf_header_size_def elf_phdr_size_def ELF_MAX_PHNUM_def)

lemma elf_wrap_table:
  "table_fits elf_wrap" "phnum_of elf_wrap = 1"
  "phdr_index elf_wrap 0 = \<lparr>ph_type = 1, ph_flags = 6, ph_offset = 120, ph_vaddr = 0x400000, ph_filesz = 4096, ph_memsz = two64 - 0xFFF\<rparr>" "length elf_wrap = 4216"
  "k < 4096 \<Longrightarrow> elf_wrap ! (120 + k) = 0x41"
  by (simp_all add: elf_wrap_def elf_demo_header_def table_fits_def phnum_of_def phoff_of_def phdr_index_def phdr_of_def phdr_at_def fieldv_def
    elf_header_size_def elf_phdr_size_def ELF_MAX_PHNUM_def)

theorem elf_load_correct_witness:
  "\<exists>ok pg'. elf_load_segments env_demo elf_demo 0x100000 paging_demo = Done (ok, pg') \<and> as_inv {0x100000, 0x200000} pg' \<and>
     (\<not> ok \<or> peek {0x100000, 0x200000} pg' 0x100000 0x400001 = Some 0xC3 \<and> peek {0x100000, 0x200000} pg' 0x100000 0x400002 = Some 0)"
proof -
  let ?R = "{0x100000, 0x200000 :: nat}"
  let ?g = "\<lparr>ph_type = 1, ph_flags = 5, ph_offset = 120, ph_vaddr = 0x400000, ph_filesz = 2, ph_memsz = 16\<rparr>"
  have l: "loads elf_demo [0..<phnum_of elf_demo] = [?g]" using elf_demo_table by (simp add: loads_def PT_LOAD_def)
  have len: "length elf_demo = 122" "elf_demo ! 121 = 0xC3" by (simp_all add: elf_demo_def elf_demo_header_def)
  have h: "(0x100000 :: nat) \<in> ?R" "[?g] = loads elf_demo [0..<phnum_of elf_demo]" "\<forall>g \<in> set [?g]. seg_ok elf_demo g" "sorted_wrt seg_apart [?g]"
    "\<forall>g \<in> set [?g]. \<forall>va. in_seg g va \<longrightarrow> translate paging_demo 0x100000 va = None"
    using l len paging_demo_free by (simp_all add: seg_ok_def)
  obtain ok pg' where c: "elf_load_segments env_demo elf_demo 0x100000 paging_demo = Done (ok, pg')" "as_inv ?R pg'"
    "ok \<longrightarrow> (\<forall>g \<in> set [?g]. \<forall>va < 2 ^ 47. in_seg g va \<longrightarrow>
        peek ?R pg' 0x100000 va = Some (if ph_vaddr g \<le> va \<and> va < ph_vaddr g + ph_filesz g then elf_demo ! (ph_offset g + (va - ph_vaddr g)) else 0) \<and>
        (\<exists>e. U ?R (tabs pg') (0x100000, va_path va) = Some e \<and> (bit e 1 \<longleftrightarrow> bit (ph_flags g) 1) \<and> (bit e 63 \<longleftrightarrow> \<not> bit (ph_flags g) 0)))"
    using elf_load_correct [OF env_demo_ok demo_as_inv h(1) elf_demo_table(1) h(2-5)] by - (elim exE conjE, rule that, assumption+)
  have "in_seg ?g 0x400001" "in_seg ?g 0x400002" by (simp_all add: in_seg_def seg_lo_def seg_hi_def align_down_def)
  then show ?thesis using c len by simp
qed

theorem elf_scans_witness:
  "elf_compute_initial_brk elf_demo = Done 0x401000 \<and> (\<exists>a b. elf_compute_at_phdr elf_demo = Done a \<and> elf_compute_load_base elf_demo = Done b \<and> b \<le> 0x400000) \<and>
   elf_compute_at_phdr elf_demo_header = Stuck"
proof -
  let ?g = "\<lparr>ph_type = 1, ph_flags = 5, ph_offset = 120, ph_vaddr = 0x400000, ph_filesz = 2, ph_memsz = 16\<rparr>"
  have l: "[?g] = loads elf_demo [0..<phnum_of elf_demo]" using elf_demo_table by (simp add: loads_def PT_LOAD_def)
  have n: "elf_header_size \<le> length elf_demo" "seg_ok elf_demo ?g" "seg_hi ?g = 0x401000"
    by (simp_all add: elf_demo_def elf_demo_header_def elf_header_size_def seg_ok_def seg_hi_def align_down_def)
  have m: "elf_header_size \<le> length elf_demo_header" "0 < phnum_of elf_demo_header \<and> length elf_demo_header < phoff_of elf_demo_header + 4"
    by (simp_all add: elf_demo_header_def elf_header_size_def phnum_of_def phoff_of_def fieldv_def ELF_MAX_PHNUM_def)
  show ?thesis using elf_scans [OF n(1) l] elf_scans [OF m(1) refl] elf_demo_table(1) n(2,3) m(2) by auto
qed

theorem elf_load_overwrites_witness:
  "\<exists>pg e pg'. leaf (tabs pg) 0x100000 (va_path 0x400000) = e \<and> \<not> bit e 1 \<and> \<not> bit e 2 \<and>
     elf_load_segments env_demo elf_wrap 0x100000 pg = Done (False, pg') \<and> ram pg' (mm_pte_phys e) = 0x41"
proof -
  obtain pg where m: "map_page_in_directory env_demo 0x100000 0x400000 4096 0 paging_demo = Done (True, pg)"
    using demo_map_ok [of paging_demo 4096 0] by (auto simp: paging_demo_def)
  let ?e = "mm_make_leaf_pte 4096 (0 AND 0xFFF) ((0 :: u64) AND PAGE_EXEC \<noteq> 0)"
  have fa: "frame_addr 4096" by (simp add: frame_addr_def)
  have s: "pt_inv {0x100000, 0x200000} (tabs pg)" "map_effect {0x100000, 0x200000} (tabs paging_demo) (tabs pg) 0x100000 (va_path 0x400000) (4096, ?e)"
    "\<forall>u. tabs pg u \<noteq> None \<longrightarrow> tabs paging_demo u \<noteq> None \<or> \<not> in_pool (frames paging_demo) u"
    using map_page_spec [OF env_demo_ok paging_demo_inv _ fa, of "0x100000" "0x400000" 0] m by auto
  have x: "xl (tabs pg) 0x100000 (va_path 0x400000) = Some (4096, ?e)" using s(2) by (simp add: map_effect_def)
  have b: "\<not> bit ?e 1" "\<not> bit ?e 2" "\<not> bit ?e 9" using fa bit_frame_addr_low [OF fa] by (simp_all add: bit_leaf_pte)
  have pe: "mm_pte_phys ?e = 4096" using fa by simp
  have "\<not> mm_pte_large ?e" using leaf_pte_small [OF fa, of 0] by simp
  note L = xl_leaf [OF full_va_path x this]
  have tn: "tabs pg (mm_pte_phys ?e) = None" unfolding pe using s(3) by (auto simp: paging_demo_def demo_pool)
  have "va_path 0x401000 \<noteq> va_path 0x400000" using va_path_inj [of "0x401000" "0x400000"] by auto
  then have "xl (tabs pg) 0x100000 (va_path 0x401000) = None"
    using s(2) paging_demo_free [of "0x401000"] full_va_path [of "0x401000"] unfolding map_effect_def translate_def by auto
  then have nx: "\<not> mm_pte_present (leaf (tabs pg) 0x100000 (va_path (0x400000 + 4096)))" using leaf_xl [OF full_va_path] by force
  let ?g = "\<lparr>ph_type = 1, ph_flags = 6, ph_offset = 120, ph_vaddr = 0x400000, ph_filesz = 4096, ph_memsz = two64 - 0xFFF\<rparr>"
  have h: "(0x100000 :: nat) \<in> {0x100000, 0x200000}" "?g = phdr_index elf_wrap 0" "ph_type ?g = PT_LOAD" "0x400000 = ph_vaddr ?g" "0x400000 mod 4096 = (0 :: nat)" "0x400000 + 4096 < two64"
    "ph_filesz ?g = 4096" "ph_offset ?g + 4096 \<le> length elf_wrap" "ph_memsz ?g = two64 - 0xFFF" "leaf (tabs pg) 0x100000 (va_path 0x400000) = ?e" "bit ?e 1 \<or> \<not> bit ?e 9"
    using L(1) b(3) elf_wrap_table(3,4) by (simp_all add: PT_LOAD_def)
  obtain pg' where p: "elf_load_segments env_demo elf_wrap 0x100000 pg = Done (False, pg')" "\<forall>k < 4096. ram pg' (mm_pte_phys ?e + k) = elf_wrap ! (ph_offset ?g + k)"
    using elf_load_overwrites [OF s(1) h(1) elf_wrap_table(1,2) h(2-10) L(4) h(11) tn nx] by blast
  have "ram pg' (mm_pte_phys ?e) = 0x41" using p(2) [rule_format, of 0] elf_wrap_table(5) [of 0] by simp
  then show ?thesis using p(1) L(1) b by blast
qed

end
