(* ===== verification/Exec_Stack.thy ===== *)
theory Exec_Stack
  imports Elf_Image
begin

text \<open>
  The stack a new program starts on (\<^verbatim>\<open>elf_setup_stack\<close> of \<^verbatim>\<open>kernel/elf_loader.c\<close>): the vDSO image (\<^verbatim>\<open>kernel/vdso.c\<close>), argc,
  the vectors argv and envp, the auxiliary vector, the strings, the seed of \<^verbatim>\<open>AT_RANDOM\<close> and the canary (\<^verbatim>\<open>ktm/user_canary.c\<close>), the
  entry registers and the saved copy of the environment (\<^verbatim>\<open>kernel/process/saved_environ.c\<close>). A C string is the list of its bytes
  without the NUL, a vector the list of its strings, None for NULL. The blob of the vDSO, which the build makes, the clock and the
  results of the allocations are arguments; \<^verbatim>\<open>kmalloc\<close> panics where it cannot allocate.
\<close>

section \<open>The process\<close>

record exec_proc =
  xp_user :: bool
  xp_pgd :: nat
  xp_stack_start :: nat
  xp_stack_size :: nat
  xp_uid :: u32
  xp_euid :: u32
  xp_gid :: u32
  xp_egid :: u32
  xp_at_secure :: nat
  xp_ip :: nat
  xp_sp :: nat
  xp_fp :: nat
  xp_arg0 :: nat
  xp_arg1 :: nat
  xp_arg2 :: nat
  saved_environ :: "u8 list option"

record exec_world =
  vdso_blob :: "u8 list option"
  kmalloc_argv :: bool
  kmalloc_envp :: bool
  kmalloc_environ :: bool
  timer_read :: nat

section \<open>The vDSO\<close>

definition VDSO_USER_BASE :: nat where "VDSO_USER_BASE = 0x7FD00000"

definition elf64_image_valid :: "u8 list \<Rightarrow> bool kresult" where
  "elf64_image_valid blob =
     (if length blob < elf_header_size then Done False
      else require (e_ident blob 0) (\<lambda>v. v = 0x7f)
        (require (e_ident blob 1) (\<lambda>v. v = 69)
        (require (e_ident blob 2) (\<lambda>v. v = 76)
        (require (e_ident blob 3) (\<lambda>v. v = 70)
        (kbind (e_phoff blob) (\<lambda>phoff. kbind (e_phnum blob) (\<lambda>phnum. kbind (e_phentsize blob) (\<lambda>phent.
          if phoff = 0 \<or> phnum = 0 then Done False
          else if length blob < add64 phoff (phnum * phent) then Done False
          else Done True))))))))"

definition vdso_map :: "paging_env \<Rightarrow> exec_world \<Rightarrow> exec_proc \<Rightarrow> paging \<Rightarrow> ((errno + unit) \<times> paging) kresult" where
  "vdso_map env w p pg =
     (if \<not> xp_user p then Done (Inl EINVAL, pg)
      else if xp_pgd p = 0 then Done (Inl EINVAL, pg)
      else case vdso_blob w of
        None \<Rightarrow> Done (Inl ENOEXEC, pg)
      | Some blob \<Rightarrow>
          if blob = [] then Done (Inl ENOEXEC, pg)
          else kbind (elf64_image_valid blob) (\<lambda>valid.
            if \<not> valid then Done (Inl ENOEXEC, pg)
            else (let base = VDSO_USER_BASE; base_aligned = align_down 4096 base; map_size = sub64 (page_up (add64 base (length blob))) base_aligned in
              kbind (map_user_region_in_directory env (xp_pgd p) base_aligned map_size (PAGE_USER OR PAGE_EXEC) pg) (\<lambda>(ok, pg1).
                if \<not> ok then Done (Inl ENOMEM, pg1)
                else kbind (copy_to_user_region_in_directory env (xp_pgd p) base (Some blob) pg1) (\<lambda>(ok, pg2).
                  Done (if ok then Inr () else Inl EFAULT, pg2))))))"

section \<open>The contents of the stack\<close>

definition ELF_ARG_MAX :: nat where "ELF_ARG_MAX = 256"
definition ELF_AUXV_PAIRS :: nat where "ELF_AUXV_PAIRS = 16"
definition ELF_AT_RANDOM_BYTES :: nat where "ELF_AT_RANDOM_BYTES = 16"

text \<open>A \<^verbatim>\<open>uint64_t\<close> in memory.\<close>

definition word_bytes :: "nat \<Rightarrow> u8 list" where
  "word_bytes v = map (\<lambda>k. word_of_nat (v div 256 ^ k)) [0..<8]"

definition vector :: "u8 list list option \<Rightarrow> u8 list list" where
  "vector v = (case v of None \<Rightarrow> [] | Some ss \<Rightarrow> take ELF_ARG_MAX ss)"

definition strings_size :: "u8 list list \<Rightarrow> nat" where
  "strings_size ss = sum_list (map (\<lambda>s. length s + 1) ss)"

definition stack_need :: "u8 list list \<Rightarrow> u8 list list \<Rightarrow> nat" where
  "stack_need av ev = 8 + (length av + 1) * 8 + (length ev + 1) * 8 + ELF_AUXV_PAIRS * 2 * 8 + ELF_AT_RANDOM_BYTES + (strings_size av + strings_size ev) + 16"

fun string_writes :: "nat \<Rightarrow> u8 list list \<Rightarrow> (nat \<times> u8 list) list" where
  "string_writes p [] = []"
| "string_writes p (s # ss) = (p, s @ [0]) # string_writes (add64 p (length s + 1)) ss"

fun word_writes :: "nat \<Rightarrow> nat list \<Rightarrow> (nat \<times> u8 list) list" where
  "word_writes p [] = []"
| "word_writes p (v # vs) = (p, word_bytes v) # word_writes (add64 p 8) vs"

text \<open>A sequence of copies, with \<^verbatim>\<open>return -1\<close> at the first that fails.\<close>

fun copy_all :: "paging_env \<Rightarrow> nat \<Rightarrow> (nat \<times> u8 list) list \<Rightarrow> paging \<Rightarrow> (bool \<times> paging) kresult" where
  "copy_all env root [] pg = Done (True, pg)"
| "copy_all env root (w # ws) pg =
     kbind (copy_to_user_region_in_directory env root (fst w) (Some (snd w)) pg) (\<lambda>(ok, pg1). if ok then copy_all env root ws pg1 else Done (False, pg1))"

fun random_bytes :: "nat \<Rightarrow> nat \<Rightarrow> u8 list" where
  "random_bytes t 0 = []"
| "random_bytes t (Suc n) = (let t1 = (t * 6364136223846793005 + 1) mod two64 in word_of_nat (t1 div 2 ^ 33) # random_bytes t1 n)"

definition elf_fill_random_bytes :: "nat \<Rightarrow> nat \<Rightarrow> u8 list" where
  "elf_fill_random_bytes tsc n = random_bytes (if tsc = 0 then 0x5851f42d4c957f2d else tsc) n"

text \<open>The auxiliary vector, from \<^verbatim>\<open>AT_PHDR\<close> to \<^verbatim>\<open>AT_NULL\<close>.\<close>

definition elf_auxv :: "exec_proc \<Rightarrow> nat \<Rightarrow> nat \<Rightarrow> nat \<Rightarrow> nat \<Rightarrow> nat \<Rightarrow> nat \<Rightarrow> (nat \<times> nat) list" where
  "elf_auxv p phent phnum at_phdr at_base random_base at_vdso =
     [(3, at_phdr), (4, phent), (5, phnum), (11, unat (xp_uid p)), (12, unat (xp_euid p)), (13, unat (xp_gid p)), (14, unat (xp_egid p)), (17, 100),
      (23, xp_at_secure p), (24, 0), (25, random_base), (6, 4096), (7, at_base), (9, xp_ip p), (33, at_vdso), (0, 0)]"

definition pairs :: "(nat \<times> nat) list \<Rightarrow> nat list" where
  "pairs av = concat (map (\<lambda>(t, v). [t, v]) av)"

section \<open>The canary and the saved environment\<close>

definition KTM_CANARY_MAGIC :: nat where "KTM_CANARY_MAGIC = 0x4952304B414E3159"

definition ktm_user_canary_install :: "paging_env \<Rightarrow> nat \<Rightarrow> nat \<Rightarrow> paging \<Rightarrow> paging kresult" where
  "ktm_user_canary_install env pml4 stack_top pg =
     (if pml4 = 0 \<or> stack_top < 16 then Done pg
      else kbind (copy_to_user_region_in_directory env pml4 (stack_top - 16) (Some (word_bytes KTM_CANARY_MAGIC @ word_bytes (two64 - 1 - KTM_CANARY_MAGIC))) pg)
        (\<lambda>(ok, pg1). Done pg1))"

definition PROCESS_ENVIRON_MAX :: nat where "PROCESS_ENVIRON_MAX = 128 * 1024"
definition PROCESS_ENVIRON_VARS_MAX :: nat where "PROCESS_ENVIRON_VARS_MAX = 256"

text \<open>The counting loop: the total size, None for \<^verbatim>\<open>-E2BIG\<close>.\<close>

fun environ_total :: "nat \<Rightarrow> nat \<Rightarrow> u8 list list \<Rightarrow> nat option" where
  "environ_total envc tot [] = Some tot"
| "environ_total envc tot (s # ss) =
     (let len = length s + 1 in
      if PROCESS_ENVIRON_VARS_MAX \<le> envc \<or> PROCESS_ENVIRON_MAX < tot + len then None else environ_total (envc + 1) (tot + len) ss)"

definition process_saved_environ_set :: "exec_world \<Rightarrow> u8 list list option \<Rightarrow> exec_proc \<Rightarrow> (errno + unit) \<times> exec_proc" where
  "process_saved_environ_set w envp p =
     (let p1 = p\<lparr>saved_environ := None\<rparr> in
      case envp of
        None \<Rightarrow> (Inr (), p1)
      | Some ss \<Rightarrow>
          (case environ_total 0 0 ss of
             None \<Rightarrow> (Inl E2BIG, p1)
           | Some tot \<Rightarrow>
               if tot = 0 then (Inr (), p1)
               else if \<not> kmalloc_environ w then (Inl ENOMEM, p1)
               else (Inr (), p1\<lparr>saved_environ := Some (concat (map (\<lambda>s. s @ [0]) ss))\<rparr>)))"

section \<open>Building the stack\<close>

text \<open>The result -1 is \<^verbatim>\<open>-EPERM\<close>. \<open>phent\<close> and \<open>phnum\<close> are the fields of the header, the latter as it is in the file.\<close>

definition elf_setup_stack ::
  "paging_env \<Rightarrow> exec_world \<Rightarrow> u8 list list option \<Rightarrow> u8 list list option \<Rightarrow> nat \<Rightarrow> nat \<Rightarrow> nat \<Rightarrow> nat \<Rightarrow> exec_proc \<Rightarrow> paging \<Rightarrow>
   ((errno + unit) \<times> exec_proc \<times> paging) kresult" where
  "elf_setup_stack env w argv envp phent phnum at_phdr at_base p pg =
     (if \<not> xp_user p then Done (Inl EPERM, p, pg)
      else kbind (vdso_map env w p pg) (\<lambda>(vr, pg0).
        let vdso_ok = (vr = Inr ()); av = vector argv; ev = vector envp; argc = length av; envc = length ev; stack_size = stack_need av ev mod two64 in
        if sub64 (xp_stack_size p) 256 < stack_size then Done (Inl ENOMEM, p, pg0)
        else if \<not> (kmalloc_argv w \<and> kmalloc_envp w) then Panic ''kmalloc: out of memory''
        else
          let stack_top = add64 (xp_stack_start p) (xp_stack_size p); argc_slot = align_down 16 (sub64 stack_top stack_size);
            argv_array = add64 argc_slot 8; envp_array = add64 argv_array ((argc + 1) * 8); auxv_base = add64 envp_array ((envc + 1) * 8);
            random_base = add64 auxv_base (ELF_AUXV_PAIRS * 2 * 8); strings_base = add64 random_base ELF_AT_RANDOM_BYTES;
            argv_writes = string_writes strings_base av; envp_writes = string_writes (add64 strings_base (strings_size av)) ev;
            auxv = elf_auxv p phent phnum at_phdr at_base random_base (if vdso_ok then VDSO_USER_BASE else 0)
          in
          kbind (copy_all env (xp_pgd p) (argv_writes @ envp_writes) pg0) (\<lambda>(ok, pg1). if \<not> ok then Done (Inl EPERM, p, pg1) else
          kbind (copy_all env (xp_pgd p) ((argc_slot, word_bytes argc) # word_writes argv_array (map fst argv_writes @ [0])
              @ word_writes envp_array (map fst envp_writes @ [0])) pg1) (\<lambda>(ok, pg2). if \<not> ok then Done (Inl EPERM, p, pg2) else
          kbind (copy_all env (xp_pgd p) [(random_base, elf_fill_random_bytes (timer_read w) ELF_AT_RANDOM_BYTES)] pg2) (\<lambda>(ok, pg3). if \<not> ok then Done (Inl EPERM, p, pg3) else
          kbind (copy_all env (xp_pgd p) (word_writes auxv_base (pairs auxv)) pg3) (\<lambda>(ok, pg4). if \<not> ok then Done (Inl EPERM, p, pg4) else
          kbind (ktm_user_canary_install env (xp_pgd p) stack_top pg4) (\<lambda>pg5.
            let p1 = p\<lparr>xp_sp := argc_slot, xp_fp := argc_slot, xp_arg0 := argc, xp_arg1 := argv_array, xp_arg2 := envp_array\<rparr>;
              (rc, p2) = process_saved_environ_set w envp p1
            in Done (rc, p2, pg5))))))))"

section \<open>Sequences of copies\<close>

text \<open>Each copy starts where the one before it ended.\<close>

fun tiles :: "nat \<Rightarrow> (nat \<times> u8 list) list \<Rightarrow> bool" where
  "tiles a [] = True"
| "tiles a (w # ws) = (fst w = a \<and> tiles (a + length (snd w)) ws)"

lemma tiles_append: "tiles a (xs @ ys) \<longleftrightarrow> tiles a xs \<and> tiles (a + length (concat (map snd xs))) ys"
  by (induction xs arbitrary: a) (auto simp: add.assoc)

lemma length_word_bytes [simp]: "length (word_bytes v) = 8"
  by (simp add: word_bytes_def)

lemma string_writes_tile:
  "p + strings_size ss < two64 \<Longrightarrow> tiles p (string_writes p ss)"
  "map snd (string_writes p ss) = map (\<lambda>s. s @ [0]) ss"
  by (induction ss arbitrary: p) (auto simp: strings_size_def)

lemma word_writes_tile:
  "p + length vs * 8 < two64 \<Longrightarrow> tiles p (word_writes p vs)"
  "map snd (word_writes p vs) = map word_bytes vs"
  by (induction vs arbitrary: p) auto

lemma length_strings: "length (concat (map (\<lambda>s. s @ [0 :: u8]) ss)) = strings_size ss"
  by (induction ss) (auto simp: strings_size_def)

lemma length_words: "length (concat (map word_bytes vs)) = length vs * 8"
  by (induction vs) auto

lemma length_string_writes [simp]: "length (string_writes p ss) = length ss"
  by (induction ss arbitrary: p) auto

lemma string_ptr:
  "p + strings_size ss < two64 \<Longrightarrow> i < length ss \<Longrightarrow> map fst (string_writes p ss) ! i = p + strings_size (take i ss)"
proof (induction ss arbitrary: p i)
  case (Cons s ss)
  then show ?case by (cases i) (auto simp: strings_size_def)
qed simp

lemma concat_nth: "i < length xs \<Longrightarrow> k < length (xs ! i) \<Longrightarrow> concat xs ! (length (concat (take i xs)) + k) = xs ! i ! k"
proof (induction xs arbitrary: i)
  case (Cons x xs)
  then show ?case by (cases i) (auto simp: nth_append)
qed simp

lemma concat_bound: "i < length xs \<Longrightarrow> k < length (xs ! i) \<Longrightarrow> length (concat (take i xs)) + k < length (concat xs)"
proof (induction xs arbitrary: i)
  case (Cons x xs)
  then show ?case by (cases i) auto
qed simp

lemma copy_all_tiles:
  assumes "r \<in> R"
  shows "as_inv R pg \<Longrightarrow> tiles a ws \<Longrightarrow> a + length (concat (map snd ws)) \<le> 2 ^ 47 \<Longrightarrow> \<forall>va. a \<le> va \<and> va < a + length (concat (map snd ws)) \<longrightarrow> own_page R pg r (va_path va) \<Longrightarrow>
     \<exists>pg'. copy_all env r ws pg = Done (True, pg') \<and> as_inv R pg' \<and> tabs pg' = tabs pg \<and> copied R pg pg' r a (concat (map snd ws))"
proof (induction ws arbitrary: a pg)
  case Nil
  then show ?case using copied_refl by auto
next
  case (Cons w ws)
  have w: "fst w = a" "tiles (a + length (snd w)) ws" using Cons.prems(2) by auto
  have r0: "r \<noteq> 0" by (rule root_nonzero [OF as_invD(2) [OF Cons.prems(1)] assms])
  have "a + length (snd w) \<le> 2 ^ 47" "\<forall>k < length (snd w). own_page R pg r (va_path (a + k))" using Cons.prems(3,4) by auto
  from copy_to_own [OF assms Cons.prems(1) this] obtain pg1 where 1: "copy_to_region env r a (snd w) pg = Done (True, pg1)" "as_inv R pg1" "tabs pg1 = tabs pg" "copied R pg pg1 r a (snd w)"
    by blast
  have "\<forall>va. a + length (snd w) \<le> va \<and> va < a + length (snd w) + length (concat (map snd ws)) \<longrightarrow> own_page R pg1 r (va_path va)"
    using Cons.prems(4) 1(3) by (auto simp: own_page_def)
  with Cons.IH [OF 1(2) w(2)] Cons.prems(3) obtain pg2 where 2: "copy_all env r ws pg1 = Done (True, pg2)" "as_inv R pg2" "tabs pg2 = tabs pg1"
    "copied R pg1 pg2 r (a + length (snd w)) (concat (map snd ws))" by auto
  have "copy_all env r (w # ws) pg = Done (True, pg2)" using w(1) 1(1) 2(1) r0 by (simp add: copy_to_user_region_in_directory_def)
  then show ?case using 2(2,3) 1(3) copied_trans [OF 1(4) 2(4)] by auto
qed

section \<open>Reading the stack\<close>

definition word_at :: "(nat \<Rightarrow> u8 option) \<Rightarrow> nat \<Rightarrow> nat \<Rightarrow> bool" where
  "word_at m a v \<longleftrightarrow> (\<forall>k < 8. m (a + k) = Some (word_bytes v ! k))"

definition string_at :: "(nat \<Rightarrow> u8 option) \<Rightarrow> nat \<Rightarrow> u8 list \<Rightarrow> bool" where
  "string_at m a s \<longleftrightarrow> (\<forall>k < length s. m (a + k) = Some (s ! k)) \<and> m (a + length s) = Some 0"

definition bytes_of :: "(nat \<Rightarrow> u8 option) \<Rightarrow> nat \<Rightarrow> u8 list \<Rightarrow> bool" where
  "bytes_of m a bs \<longleftrightarrow> (\<forall>k < length bs. m (a + k) = Some (bs ! k))"

lemma bytes_words:
  assumes "bytes_of m a (concat (map word_bytes vs))" "i < length vs"
  shows "word_at m (a + 8 * i) (vs ! i)"
  unfolding word_at_def
proof (intro allI impI)
  fix k :: nat assume k: "k < 8"
  have l: "length (concat (take i (map word_bytes vs))) = 8 * i" using length_words [of "take i vs"] assms(2) by (simp add: take_map)
  have "concat (map word_bytes vs) ! (8 * i + k) = word_bytes (vs ! i) ! k" "8 * i + k < length (concat (map word_bytes vs))"
    using concat_nth [of i "map word_bytes vs" k] concat_bound [of i "map word_bytes vs" k] assms(2) k l by simp_all
  then show "m (a + 8 * i + k) = Some (word_bytes (vs ! i) ! k)" using assms(1) [unfolded bytes_of_def, rule_format, of "8 * i + k"] by (simp add: add.assoc)
qed

lemma bytes_strings:
  assumes "bytes_of m a (concat (map (\<lambda>s. s @ [0]) ss))" "i < length ss"
  shows "string_at m (a + strings_size (take i ss)) (ss ! i)"
proof -
  let ?f = "\<lambda>s. s @ [0 :: u8]"
  have l: "length (concat (take i (map ?f ss))) = strings_size (take i ss)" using length_strings [of "take i ss"] by (simp add: take_map)
  have *: "m (a + strings_size (take i ss) + k) = Some (?f (ss ! i) ! k)" if "k < length (ss ! i) + 1" for k
  proof -
    have "concat (map ?f ss) ! (strings_size (take i ss) + k) = ?f (ss ! i) ! k" "strings_size (take i ss) + k < length (concat (map ?f ss))"
      using concat_nth [of i "map ?f ss" k] concat_bound [of i "map ?f ss" k] assms(2) that l by simp_all
    then show ?thesis using assms(1) [unfolded bytes_of_def, rule_format, of "strings_size (take i ss) + k"] by (simp add: add.assoc)
  qed
  show ?thesis unfolding string_at_def using *[of "length (ss ! i)"] * by (auto simp: nth_append)
qed

lemma copied_bytes: "copied R pg pg' r a bs \<Longrightarrow> a + length bs \<le> 2 ^ 47 \<Longrightarrow> bytes_of (peek R pg' r) a bs"
  by (auto simp: copied_def bytes_of_def)

lemma bytes_kept:
  assumes "bytes_of (peek R pg r) b cs" "copied R pg pg' r a bs" "b + length cs \<le> 2 ^ 47" "b + length cs \<le> a \<or> a + length bs \<le> b"
  shows "bytes_of (peek R pg' r) b cs"
  using assms unfolding copied_def bytes_of_def by auto

section \<open>The copies of the stack\<close>

definition canary_bytes :: "u8 list" where
  "canary_bytes = word_bytes KTM_CANARY_MAGIC @ word_bytes (two64 - 1 - KTM_CANARY_MAGIC)"

lemma copied_out: "copied R pg pg' r a bs \<Longrightarrow> va < 2 ^ 47 \<Longrightarrow> s \<noteq> r \<or> va < lo \<or> hi \<le> va \<Longrightarrow> lo \<le> a \<Longrightarrow> a + length bs \<le> hi \<Longrightarrow> peek R pg' s va = peek R pg s va"
  by (auto simp: copied_def)

lemma own_tabs: "tabs pg' = tabs pg \<Longrightarrow> own_page R pg' r q = own_page R pg r q"
  by (simp add: own_page_def)

text \<open>Four sequences of copies to adjacent parts of the stack and the canary above them; \<open>b1\<close> to \<open>b4\<close> are the bytes they write.\<close>

lemma stack_copies:
  assumes r: "r \<in> R" and inv: "as_inv R pg" and own: "\<forall>va. sp \<le> va \<and> va < stop \<longrightarrow> own_page R pg r (va_path va)"
    and t: "tiles sb w1" "tiles sp w2" "tiles rb w3" "tiles xb w4"
    and b: "b1 = concat (map snd w1)" "b2 = concat (map snd w2)" "b3 = concat (map snd w3)" "b4 = concat (map snd w4)"
    and e: "xb = sp + length b2" "rb = xb + length b4" "sb = rb + length b3" "sb + length b1 + 16 \<le> stop" "stop \<le> 2 ^ 47"
  shows "\<exists>pg1 pg2 pg3 pg4 pg5. copy_all env r w1 pg = Done (True, pg1) \<and> copy_all env r w2 pg1 = Done (True, pg2) \<and> copy_all env r w3 pg2 = Done (True, pg3) \<and>
     copy_all env r w4 pg3 = Done (True, pg4) \<and> ktm_user_canary_install env r stop pg4 = Done pg5 \<and> as_inv R pg5 \<and> tabs pg5 = tabs pg \<and>
     bytes_of (peek R pg5 r) sb b1 \<and> bytes_of (peek R pg5 r) sp b2 \<and> bytes_of (peek R pg5 r) rb b3 \<and> bytes_of (peek R pg5 r) xb b4 \<and> bytes_of (peek R pg5 r) (stop - 16) canary_bytes \<and>
     (\<forall>s. \<forall>va < 2 ^ 47. s \<noteq> r \<or> \<not> (sp \<le> va \<and> va < stop) \<longrightarrow> peek R pg5 s va = peek R pg s va)"
proof -
  have step: "\<exists>pg'. copy_all env r ws q = Done (True, pg') \<and> as_inv R pg' \<and> tabs pg' = tabs q \<and> copied R q pg' r a (concat (map snd ws))"
    if "as_inv R q" "tabs q = tabs pg" "tiles a ws" "sp \<le> a" "a + length (concat (map snd ws)) \<le> stop" for q a ws
    by (rule copy_all_tiles [OF r that(1,3)]) (use that own e(5) own_tabs [OF that(2)] in auto)
  obtain pg1 where 1: "copy_all env r w1 pg = Done (True, pg1)" "as_inv R pg1" "tabs pg1 = tabs pg" "copied R pg pg1 r sb b1"
    using step [OF inv refl t(1)] e b(1) by auto
  obtain pg2 where 2: "copy_all env r w2 pg1 = Done (True, pg2)" "as_inv R pg2" "tabs pg2 = tabs pg" "copied R pg1 pg2 r sp b2"
    using step [OF 1(2,3) t(2)] e b(2) 1(3) by auto
  obtain pg3 where 3: "copy_all env r w3 pg2 = Done (True, pg3)" "as_inv R pg3" "tabs pg3 = tabs pg" "copied R pg2 pg3 r rb b3"
    using step [OF 2(2,3) t(3)] e b(3) 2(3) by auto
  obtain pg4 where 4: "copy_all env r w4 pg3 = Done (True, pg4)" "as_inv R pg4" "tabs pg4 = tabs pg" "copied R pg3 pg4 r xb b4"
    using step [OF 3(2,3) t(4)] e b(4) 3(3) by auto
  have c16: "length canary_bytes = 16" "sp \<le> stop - 16" using e by (simp_all add: canary_bytes_def)
  obtain pg5 where 5: "copy_all env r [(stop - 16, canary_bytes)] pg4 = Done (True, pg5)" "as_inv R pg5" "tabs pg5 = tabs pg" "copied R pg4 pg5 r (stop - 16) canary_bytes"
    using step [OF 4(2,3), of "stop - 16" "[(stop - 16, canary_bytes)]"] e c16 4(3) by (auto simp del: copy_all.simps)
  have r0: "r \<noteq> 0" by (rule root_nonzero [OF as_invD(2) [OF inv] r])
  have can: "ktm_user_canary_install env r stop pg4 = Done pg5"
    using 5(1) r0 e(4) by (auto simp: ktm_user_canary_install_def canary_bytes_def kbind_Done_iff split: if_splits)
  have B1: "bytes_of (peek R pg5 r) sb b1"
    by (intro bytes_kept [OF bytes_kept [OF bytes_kept [OF bytes_kept [OF copied_bytes [OF 1(4)] 2(4)] 3(4)] 4(4)] 5(4)]) (use e in auto)
  have B2: "bytes_of (peek R pg5 r) sp b2"
    by (intro bytes_kept [OF bytes_kept [OF bytes_kept [OF copied_bytes [OF 2(4)] 3(4)] 4(4)] 5(4)]) (use e in auto)
  have B3: "bytes_of (peek R pg5 r) rb b3" by (intro bytes_kept [OF bytes_kept [OF copied_bytes [OF 3(4)] 4(4)] 5(4)]) (use e in auto)
  have B4: "bytes_of (peek R pg5 r) xb b4" by (intro bytes_kept [OF copied_bytes [OF 4(4)] 5(4)]) (use e in auto)
  have B5: "bytes_of (peek R pg5 r) (stop - 16) canary_bytes" by (rule copied_bytes [OF 5(4)]) (use e c16 in auto)
  have "peek R pg5 s va = peek R pg s va" if "va < 2 ^ 47" "s \<noteq> r \<or> \<not> (sp \<le> va \<and> va < stop)" for s va
  proof -
    have o: "s \<noteq> r \<or> va < sp \<or> stop \<le> va" using that(2) by auto
    show ?thesis using copied_out [OF 1(4) that(1) o] copied_out [OF 2(4) that(1) o] copied_out [OF 3(4) that(1) o] copied_out [OF 4(4) that(1) o] copied_out [OF 5(4) that(1) o] e c16 by simp
  qed
  then show ?thesis using 1(1) 2(1) 3(1) 4(1) can 5(2,3) B1 B2 B3 B4 B5 by blast
qed

section \<open>Mapping the vDSO\<close>

definition vdso_end :: "exec_world \<Rightarrow> nat" where
  "vdso_end w = (case vdso_blob w of None \<Rightarrow> VDSO_USER_BASE | Some b \<Rightarrow> align_down 4096 (VDSO_USER_BASE + length b + 0xFFF))"

lemma image_valid_Done: "\<exists>b. elf64_image_valid blob = Done b"
proof (cases "length blob < elf_header_size")
  case False
  then have l: "64 \<le> length blob" by (simp add: elf_header_size_def)
  then show ?thesis by (auto simp: elf64_image_valid_def require_def e_ident_def e_phoff_def e_phnum_def e_phentsize_def field_Done)
qed (auto simp: elf64_image_valid_def)

lemma vdso_map_spec:
  assumes "env_ok env" "as_inv R pg" "sole_writer (U R (tabs pg))" "xp_pgd p \<in> R" "xp_user p" "vdso_end w < 2 ^ 47"
    and "\<And>va. VDSO_USER_BASE \<le> va \<Longrightarrow> va < vdso_end w \<Longrightarrow> translate pg (xp_pgd p) va = None"
  shows "\<exists>vr pg'. vdso_map env w p pg = Done (vr, pg') \<and> as_inv R pg' \<and> sole_writer (U R (tabs pg')) \<and> (\<forall>x e. sole_user (U R (tabs pg)) x e \<longrightarrow> sole_user (U R (tabs pg')) x e) \<and>
     (\<forall>s. \<forall>va < 2 ^ 47. s \<noteq> xp_pgd p \<or> \<not> (VDSO_USER_BASE \<le> va \<and> va < vdso_end w) \<longrightarrow> peek R pg' s va = peek R pg s va) \<and>
     (vr = Inr () \<longrightarrow> (\<exists>blob. vdso_blob w = Some blob \<and> bytes_of (peek R pg' (xp_pgd p)) VDSO_USER_BASE blob))"
proof -
  let ?r = "xp_pgd p" and ?B = VDSO_USER_BASE
  have r0: "?r \<noteq> 0" by (rule root_nonzero [OF as_invD(2) [OF assms(2)] assms(4)])
  show ?thesis
  proof (cases "\<exists>blob. vdso_blob w = Some blob \<and> blob \<noteq> [] \<and> elf64_image_valid blob = Done True")
    case False
    have "vdso_map env w p pg = Done (Inl ENOEXEC, pg)"
    proof (cases "vdso_blob w")
      case (Some blob)
      obtain b where "elf64_image_valid blob = Done b" using image_valid_Done by blast
      then show ?thesis using Some False assms(5) r0 by (cases b) (auto simp: vdso_map_def)
    qed (use assms(5) r0 in \<open>simp add: vdso_map_def\<close>)
    then show ?thesis using assms(2,3) by (intro exI [of _ "Inl ENOEXEC"] exI [of _ pg]) simp
  next
    case True
    then obtain blob where bl: "vdso_blob w = Some blob" "blob \<noteq> []" "elf64_image_valid blob = Done True" by blast
    define n where "n = (length blob + 0xFFF) div 4096"
    have B: "?B mod 4096 = 0" "align_down 4096 ?B = ?B" by (simp_all add: VDSO_USER_BASE_def align_down_def)
    have "(length blob + 0xFFF + 0x7FD00 * 4096) div 4096 = 0x7FD00 + n" unfolding n_def by (rule div_mult_self1) simp
    then have hi: "vdso_end w = ?B + n * 4096" using bl(1) by (simp add: vdso_end_def VDSO_USER_BASE_def align_down_def add.commute)
    have len: "length blob \<le> n * 4096"
      using mult_div_mod_eq [of 4096 "length blob + 0xFFF"] mod_less_divisor [of 4096 "length blob + 0xFFF"] unfolding n_def by linarith
    then have "page_up (add64 ?B (length blob)) = vdso_end w"
      using assms(6) hi bl(1) by (simp add: page_up_def vdso_end_def VDSO_USER_BASE_def)
    then have sz: "sub64 (page_up (add64 ?B (length blob))) ?B = n * 4096" using hi assms(6) by simp
    have fl: "\<not> bit (PAGE_USER OR PAGE_EXEC) 7" "\<not> bit ((PAGE_USER OR PAGE_EXEC) OR PAGE_USER) 9" by (simp_all add: bit_or_iff bit_flags)
    obtain ok pg1 where 1: "map_user_region_in_directory env ?r ?B (n * 4096) (PAGE_USER OR PAGE_EXEC) pg = Done (ok, pg1)"
      "region_added R pg pg1 ?r ?B (if ok then vdso_end w else ?B) (PAGE_USER OR PAGE_EXEC)"
      using map_region_private [OF assms(1-4) fl(1) B(1) hi] assms(6,7) by auto
    note A = region_addedD [OF 1(2)]
    have run: "vdso_map env w p pg = (if \<not> ok then Done (Inl ENOMEM, pg1) else kbind (copy_to_region env ?r ?B blob pg1) (\<lambda>(ok, pg2). Done (if ok then Inr () else Inl EFAULT, pg2)))"
      using bl assms(5) r0 B(2) sz 1(1) by (simp add: vdso_map_def Let_def copy_to_user_region_in_directory_def)
    show ?thesis
    proof (cases ok)
      case False
      then show ?thesis using run A(1,2,3,5) by (intro exI [of _ "Inl ENOMEM"] exI [of _ pg1]) auto
    next
      case ok: True
      have "own_page R pg1 ?r (va_path (?B + k))" if k: "k < length blob" for k
      proof -
        obtain f where f: "frame_addr f" "sole_user (U R (tabs pg1)) (?r, va_path (?B + k)) (user_leaf (PAGE_USER OR PAGE_EXEC) f)"
          using A(4) [of "?B + k"] ok hi len k assms(6) by auto
        have "\<not> bit (user_leaf (PAGE_USER OR PAGE_EXEC) f) 9" using fl(2) bit_frame_addr_low [OF f(1)] by (simp add: user_leaf_def bit_leaf_pte [OF f(1)] bit_and_iff)
        then show ?thesis using f(2) by (auto simp: own_page_def)
      qed
      moreover have "?B + length blob \<le> 2 ^ 47" "as_inv R pg1" using hi len assms(6) A(1) by auto
      ultimately obtain pg2 where 2: "copy_to_region env ?r ?B blob pg1 = Done (True, pg2)" "as_inv R pg2" "tabs pg2 = tabs pg1" "copied R pg1 pg2 ?r ?B blob"
        using copy_to_own [OF assms(4), of pg1 ?B blob env] by blast
      have "peek R pg2 s va = peek R pg s va" if "va < 2 ^ 47" "s \<noteq> ?r \<or> \<not> (?B \<le> va \<and> va < vdso_end w)" for s va
        using copied_out [OF 2(4) that(1), of s ?B "vdso_end w"] A(3) [OF that(1), of s] that ok hi len by auto
      then show ?thesis using run ok 2 A(2,5) bl(1) copied_bytes [OF 2(4)] \<open>?B + length blob \<le> 2 ^ 47\<close>
        by (intro exI [of _ "Inr ()"] exI [of _ pg2]) auto
    qed
  qed
qed

section \<open>The stack at entry\<close>

text \<open>The System V process stack: argc, the vectors with their final NULL and the auxiliary vector, upwards from \<open>sp\<close>.\<close>

definition vector_at :: "(nat \<Rightarrow> u8 option) \<Rightarrow> nat \<Rightarrow> u8 list list \<Rightarrow> bool" where
  "vector_at m a ss \<longleftrightarrow> (\<forall>i < length ss. \<exists>q. word_at m (a + 8 * i) q \<and> string_at m q (ss ! i)) \<and> word_at m (a + 8 * length ss) 0"

definition auxv_at :: "(nat \<Rightarrow> u8 option) \<Rightarrow> nat \<Rightarrow> (nat \<times> nat) list \<Rightarrow> bool" where
  "auxv_at m a aux \<longleftrightarrow> (\<forall>i < length aux. word_at m (a + 16 * i) (fst (aux ! i)) \<and> word_at m (a + 16 * i + 8) (snd (aux ! i)))"

definition entry_stack :: "(nat \<Rightarrow> u8 option) \<Rightarrow> nat \<Rightarrow> u8 list list \<Rightarrow> u8 list list \<Rightarrow> (nat \<times> nat) list \<Rightarrow> bool" where
  "entry_stack m sp av ev aux \<longleftrightarrow> word_at m sp (length av) \<and> vector_at m (sp + 8) av \<and> vector_at m (sp + 8 + 8 * (length av + 1)) ev \<and>
     auxv_at m (sp + 8 + 8 * (length av + 1) + 8 * (length ev + 1)) aux"

lemma pairs_nth: "length (pairs aux) = 2 * length aux" "i < length aux \<Longrightarrow> pairs aux ! (2 * i) = fst (aux ! i)" "i < length aux \<Longrightarrow> pairs aux ! (2 * i + 1) = snd (aux ! i)"
proof -
  show "length (pairs aux) = 2 * length aux" by (induction aux) (auto simp: pairs_def)
  show "i < length aux \<Longrightarrow> pairs aux ! (2 * i) = fst (aux ! i)" "i < length aux \<Longrightarrow> pairs aux ! (2 * i + 1) = snd (aux ! i)"
    by (induction aux arbitrary: i) (auto simp: pairs_def nth_Cons split: nat.splits)
qed

lemma auxv_bytes: "bytes_of m a (concat (map word_bytes (pairs aux))) \<Longrightarrow> auxv_at m a aux"
  unfolding auxv_at_def
proof (intro allI impI conjI)
  fix i assume b: "bytes_of m a (concat (map word_bytes (pairs aux)))" and i: "i < length aux"
  show "word_at m (a + 16 * i) (fst (aux ! i))" using bytes_words [OF b, of "2 * i"] i pairs_nth(1,2) by simp
  show "word_at m (a + 16 * i + 8) (snd (aux ! i))" using bytes_words [OF b, of "2 * i + 1"] i pairs_nth(1,3) by (simp add: algebra_simps)
qed

text \<open>The words from argc to the end of envp, with the pointers where the strings are.\<close>

definition entry_words :: "nat \<Rightarrow> u8 list list \<Rightarrow> u8 list list \<Rightarrow> nat list" where
  "entry_words sb av ev = length av # map fst (string_writes sb av) @ [0] @ map fst (string_writes (sb + strings_size av) ev) @ [0]"

lemma entry_words_nth:
  "length (entry_words sb av ev) = length av + length ev + 3"
  "i < length av \<Longrightarrow> entry_words sb av ev ! (1 + i) = map fst (string_writes sb av) ! i" "entry_words sb av ev ! (1 + length av) = 0"
  "i < length ev \<Longrightarrow> entry_words sb av ev ! (2 + length av + i) = map fst (string_writes (sb + strings_size av) ev) ! i" "entry_words sb av ev ! (2 + length av + length ev) = 0"
  by (auto simp: entry_words_def nth_append)

lemma strings_size_append: "strings_size (xs @ ys) = strings_size xs + strings_size ys"
  by (simp add: strings_size_def)

lemma strings_size_take: "strings_size (take i ss) \<le> strings_size ss"
  by (metis append_take_drop_id le_add1 strings_size_append)

lemma vectors_bytes:
  assumes "bytes_of m sp (concat (map word_bytes (entry_words sb av ev)))" "bytes_of m sb (concat (map (\<lambda>s. s @ [0]) (av @ ev)))" "sb + strings_size (av @ ev) < two64"
  shows "word_at m sp (length av)" "vector_at m (sp + 8) av" "vector_at m (sp + 8 + 8 * (length av + 1)) ev"
proof -
  note W = bytes_words [OF assms(1)] and S = bytes_strings [OF assms(2)] and N = entry_words_nth [where sb = sb and av = av and ev = ev]
  have sz: "sb + strings_size av < two64" "sb + strings_size av + strings_size ev < two64" using assms(3) by (simp_all add: strings_size_append)
  show "word_at m sp (length av)" using W [of 0] by (simp add: entry_words_def)
  show "vector_at m (sp + 8) av" unfolding vector_at_def
  proof (intro conjI allI impI)
    fix i assume i: "i < length av"
    have "word_at m (sp + 8 + 8 * i) (sb + strings_size (take i av))" using W [of "1 + i"] N(1,2) i string_ptr [OF sz(1) i] by (simp add: algebra_simps)
    moreover have "string_at m (sb + strings_size (take i av)) (av ! i)" using S [of i] i by (simp add: nth_append)
    ultimately show "\<exists>q. word_at m (sp + 8 + 8 * i) q \<and> string_at m q (av ! i)" by blast
  qed (use W [of "1 + length av"] N(1,3) in \<open>simp add: algebra_simps\<close>)
  show "vector_at m (sp + 8 + 8 * (length av + 1)) ev" unfolding vector_at_def
  proof (intro conjI allI impI)
    fix i assume i: "i < length ev"
    have "word_at m (sp + 8 + 8 * (length av + 1) + 8 * i) (sb + strings_size av + strings_size (take i ev))"
      using W [of "2 + length av + i"] N(1,4) i string_ptr [OF sz(2) i] by (simp add: algebra_simps)
    moreover have "string_at m (sb + strings_size av + strings_size (take i ev)) (ev ! i)" using S [of "length av + i"] i by (simp add: nth_append strings_size_append add.assoc)
    ultimately show "\<exists>q. word_at m (sp + 8 + 8 * (length av + 1) + 8 * i) q \<and> string_at m q (ev ! i)" by blast
  qed (use W [of "2 + length av + length ev"] N(1,5) in \<open>simp add: algebra_simps\<close>)
qed

lemma length_random: "length (random_bytes t n) = n"
  by (induction n arbitrary: t) (auto simp: Let_def)

section \<open>The layout\<close>

definition stack_sp :: "nat \<Rightarrow> u8 list list \<Rightarrow> u8 list list \<Rightarrow> nat" where
  "stack_sp hi av ev = align_down 16 (hi - stack_need av ev)"

definition aux_base :: "nat \<Rightarrow> u8 list list \<Rightarrow> u8 list list \<Rightarrow> nat" where
  "aux_base sp av ev = sp + 8 + 8 * (length av + 1) + 8 * (length ev + 1)"

lemma stack_sp_bounds:
  assumes "stack_need av ev + 256 \<le> sz" "hi = lo + sz"
  shows "lo \<le> stack_sp hi av ev" "aux_base (stack_sp hi av ev) av ev + 256 + 16 + strings_size (av @ ev) + 16 \<le> hi" "stack_sp hi av ev mod 16 = 0"
proof -
  let ?a = "hi - stack_need av ev"
  have a: "stack_sp hi av ev \<le> ?a" unfolding stack_sp_def by (rule align_down_le)
  have "?a < stack_sp hi av ev + 16" using mult_div_mod_eq [of 16 ?a] mod_less_divisor [of 16 ?a] unfolding stack_sp_def align_down_def by linarith
  then show "lo \<le> stack_sp hi av ev" using assms by linarith
  show "aux_base (stack_sp hi av ev) av ev + 256 + 16 + strings_size (av @ ev) + 16 \<le> hi"
    using a assms unfolding aux_base_def stack_need_def strings_size_append ELF_AUXV_PAIRS_def ELF_AT_RANDOM_BYTES_def by simp
  show "stack_sp hi av ev mod 16 = 0" by (simp add: stack_sp_def dvd_imp_mod_0)
qed

text \<open>The run of \<^verbatim>\<open>elf_setup_stack\<close> once the vDSO is dealt with, with the arithmetic done.\<close>

lemma setup_run:
  assumes "xp_user p" "hi = xp_stack_start p + xp_stack_size p" "hi \<le> 2 ^ 47" "kmalloc_argv w" "kmalloc_envp w" "length av \<le> ELF_ARG_MAX" "length ev \<le> ELF_ARG_MAX"
    and "stack_need av ev + 256 \<le> xp_stack_size p" "sp = stack_sp hi av ev" "xb = aux_base sp av ev" "sb = xb + 256 + 16"
    and "vdso_map env w p pg = Done (vr, pg0)" "aux = elf_auxv p phent phnum at_phdr at_base (xb + 256) (if vr = Inr () then VDSO_USER_BASE else 0)"
    and "copy_all env (xp_pgd p) (string_writes sb av @ string_writes (sb + strings_size av) ev) pg0 = Done (True, pg1)"
    and "copy_all env (xp_pgd p) ((sp, word_bytes (length av)) # word_writes (sp + 8) (map fst (string_writes sb av) @ [0]) @
           word_writes (sp + 8 + 8 * (length av + 1)) (map fst (string_writes (sb + strings_size av) ev) @ [0])) pg1 = Done (True, pg2)"
    and "copy_all env (xp_pgd p) [(xb + 256, elf_fill_random_bytes (timer_read w) 16)] pg2 = Done (True, pg3)"
    and "copy_all env (xp_pgd p) (word_writes xb (pairs aux)) pg3 = Done (True, pg4)" "ktm_user_canary_install env (xp_pgd p) hi pg4 = Done pg5"
  shows "\<exists>rc p'. elf_setup_stack env w (Some av) (Some ev) phent phnum at_phdr at_base p pg = Done (rc, p', pg5) \<and>
     xp_sp p' = sp \<and> xp_arg0 p' = length av \<and> xp_arg1 p' = sp + 8 \<and> xp_arg2 p' = sp + 8 + 8 * (length av + 1)"
proof -
  note B = stack_sp_bounds [OF assms(8,2), folded assms(9), folded assms(10)]
  have S: "stack_need av ev < two64" "stack_need av ev \<le> hi" "256 \<le> xp_stack_size p" "xp_stack_size p < two64" using assms(2,3,8) by auto
  have v: "vector (Some av) = av" "vector (Some ev) = ev" using assms(6,7) by (simp_all add: vector_def)
  have X: "xb = sp + 8 + 8 * (length av + 1) + 8 * (length ev + 1)" by (simp add: assms(10) aux_base_def)
  have lt: "xb + 256 + 16 + strings_size (av @ ev) < two64" using B(2) assms(3) by simp
  have sp: "align_down 16 (sub64 hi (stack_need av ev)) = sp"
    using S(2) assms(2,3) by (simp add: assms(9) stack_sp_def)
  have A: "add64 sp 8 = sp + 8" "add64 (sp + 8) ((length av + 1) * 8) = sp + 8 + 8 * (length av + 1)"
    "add64 (sp + 8 + 8 * (length av + 1)) ((length ev + 1) * 8) = xb" "add64 xb (ELF_AUXV_PAIRS * 2 * 8) = xb + 256" "add64 (xb + 256) ELF_AT_RANDOM_BYTES = sb"
    "add64 sb (strings_size av) = sb + strings_size av" "add64 (xp_stack_start p) (xp_stack_size p) = hi"
    using lt assms(2,3) unfolding X assms(11) ELF_AUXV_PAIRS_def ELF_AT_RANDOM_BYTES_def strings_size_append by (auto intro!: trans [OF add64_small])
  have nb: "\<not> sub64 (xp_stack_size p) 256 < stack_need av ev" using S assms(8) by simp
  obtain rc p2 where e: "process_saved_environ_set w (Some ev) (p\<lparr>xp_sp := sp, xp_fp := sp, xp_arg0 := length av, xp_arg1 := sp + 8, xp_arg2 := sp + 8 + 8 * (length av + 1)\<rparr>) = (rc, p2)"
    by fastforce
  have "xp_sp p2 = sp \<and> xp_arg0 p2 = length av \<and> xp_arg1 p2 = sp + 8 \<and> xp_arg2 p2 = sp + 8 + 8 * (length av + 1)"
    using e by (auto simp: process_saved_environ_set_def Let_def split: option.splits if_splits)
  moreover have "elf_setup_stack env w (Some av) (Some ev) phent phnum at_phdr at_base p pg = Done (rc, p2, pg5)"
    unfolding elf_setup_stack_def v Let_def mod_less [OF S(1)] A(7) sp A(1-6) assms(12) kbind.simps prod.case
    using assms(1,4,5,14-18) nb e by (simp add: ELF_AT_RANDOM_BYTES_def assms(13) [symmetric] del: copy_all.simps)
  ultimately show ?thesis by blast
qed

section \<open>Properties\<close>

text \<open>
  C7: What a program finds when it starts. When argv and envp fit the stack, and the stack pages are private to the process, the new stack
  pointer is a multiple of 16 inside the stack, the entry registers are argc, argv and envp, and reading upwards from it gives argc, a
  pointer to each argument and each environment string with exactly its bytes, the two NULLs and the auxiliary vector, whose
  \<^verbatim>\<open>AT_RANDOM\<close> points to the seed; the canary at the top of the stack overlaps nothing. Outside the stack and the vDSO no byte
  of any process changes.
\<close>

theorem exec_stack_correct:
  assumes "env_ok env" "as_inv R pg" "sole_writer (U R (tabs pg))" "xp_pgd p \<in> R" "xp_user p" "lo = xp_stack_start p" "hi = lo + xp_stack_size p" "hi \<le> 2 ^ 47"
    and "\<forall>va. lo \<le> va \<and> va < hi \<longrightarrow> own_page R pg (xp_pgd p) (va_path va)"
    and "vdso_end w < 2 ^ 47" "vdso_end w \<le> lo \<or> hi \<le> VDSO_USER_BASE" "\<forall>va. VDSO_USER_BASE \<le> va \<and> va < vdso_end w \<longrightarrow> translate pg (xp_pgd p) va = None"
    and "kmalloc_argv w" "kmalloc_envp w" "length av \<le> ELF_ARG_MAX" "length ev \<le> ELF_ARG_MAX" "stack_need av ev + 256 \<le> xp_stack_size p"
  shows "\<exists>rc p' pg' m sp xb vd. elf_setup_stack env w (Some av) (Some ev) phent phnum at_phdr at_base p pg = Done (rc, p', pg') \<and>
     as_inv R pg' \<and> sole_writer (U R (tabs pg')) \<and> m = peek R pg' (xp_pgd p) \<and> sp = xp_sp p' \<and> sp mod 16 = 0 \<and> lo \<le> sp \<and>
     xp_arg0 p' = length av \<and> xp_arg1 p' = sp + 8 \<and> xp_arg2 p' = sp + 8 + 8 * (length av + 1) \<and> xb = xp_arg2 p' + 8 * (length ev + 1) \<and>
     entry_stack m sp av ev (elf_auxv p phent phnum at_phdr at_base (xb + 256) vd) \<and> (vd = 0 \<or> vd = VDSO_USER_BASE \<and> (\<exists>blob. vdso_blob w = Some blob \<and> bytes_of m vd blob)) \<and>
     bytes_of m (xb + 256) (elf_fill_random_bytes (timer_read w) 16) \<and> bytes_of m (hi - 16) canary_bytes \<and>
     (\<forall>s. \<forall>va < 2 ^ 47. s \<noteq> xp_pgd p \<or> \<not> (lo \<le> va \<and> va < hi) \<and> \<not> (VDSO_USER_BASE \<le> va \<and> va < vdso_end w) \<longrightarrow> peek R pg' s va = peek R pg s va)"
proof -
  let ?r = "xp_pgd p"
  have hi: "hi = xp_stack_start p + xp_stack_size p" using assms(6,7) by simp
  define sp where "sp = stack_sp hi av ev"
  define xb where "xb = aux_base sp av ev"
  define sb where "sb = xb + 256 + 16"
  note B = stack_sp_bounds [OF assms(17,7), folded sp_def, folded xb_def]
  have X: "xb = sp + 8 + 8 * (length av + 1) + 8 * (length ev + 1)" by (simp add: xb_def aux_base_def)
  obtain vr pg0 where V: "vdso_map env w p pg = Done (vr, pg0)" "as_inv R pg0" "sole_writer (U R (tabs pg0))" "\<forall>x e. sole_user (U R (tabs pg)) x e \<longrightarrow> sole_user (U R (tabs pg0)) x e"
    "\<forall>s. \<forall>va < 2 ^ 47. s \<noteq> ?r \<or> \<not> (VDSO_USER_BASE \<le> va \<and> va < vdso_end w) \<longrightarrow> peek R pg0 s va = peek R pg s va"
    "vr = Inr () \<longrightarrow> (\<exists>blob. vdso_blob w = Some blob \<and> bytes_of (peek R pg0 ?r) VDSO_USER_BASE blob)"
    using vdso_map_spec [OF assms(1-5,10)] assms(12) by blast
  define aux where "aux = elf_auxv p phent phnum at_phdr at_base (xb + 256) (if vr = Inr () then VDSO_USER_BASE else 0)"
  have own: "\<forall>va. sp \<le> va \<and> va < hi \<longrightarrow> own_page R pg0 ?r (va_path va)" using assms(9) B(1) V(4) unfolding own_page_def by (meson le_trans)
  let ?w1 = "string_writes sb av @ string_writes (sb + strings_size av) ev"
  let ?w2 = "(sp, word_bytes (length av)) # word_writes (sp + 8) (map fst (string_writes sb av) @ [0]) @
           word_writes (sp + 8 + 8 * (length av + 1)) (map fst (string_writes (sb + strings_size av) ev) @ [0])"
  let ?w3 = "[(xb + 256, elf_fill_random_bytes (timer_read w) 16)]"
  let ?w4 = "word_writes xb (pairs aux)"
  have lt: "sb + strings_size av + strings_size ev + 16 \<le> hi" "hi < two64" using B(2) assms(8) by (simp_all add: sb_def strings_size_append)
  have C: "concat (map snd ?w1) = concat (map (\<lambda>s. s @ [0]) (av @ ev))" "concat (map snd ?w2) = concat (map word_bytes (entry_words sb av ev))"
    "concat (map snd ?w3) = elf_fill_random_bytes (timer_read w) 16" "concat (map snd ?w4) = concat (map word_bytes (pairs aux))"
    by (simp_all add: string_writes_tile(2) word_writes_tile(2) entry_words_def)
  have L: "length (concat (map (\<lambda>s. s @ [0 :: u8]) (av @ ev))) = strings_size av + strings_size ev" "length (concat (map word_bytes (entry_words sb av ev))) = (length av + length ev + 3) * 8"
    "length (elf_fill_random_bytes (timer_read w) 16) = 16" "length (concat (map word_bytes (pairs aux))) = 256"
    by (simp_all only: length_strings length_words strings_size_append entry_words_nth(1) pairs_nth(1))
      (simp_all add: elf_fill_random_bytes_def length_random aux_def elf_auxv_def)
  have T: "tiles sb ?w1" "tiles sp ?w2" "tiles (xb + 256) ?w3" "tiles xb ?w4"
  proof -
    show "tiles sb ?w1" using lt by (simp add: tiles_append string_writes_tile length_strings)
    have "sp + 8 + 8 * (length av + 1) + 8 * (length ev + 1) < two64" using lt by (simp add: X sb_def)
    moreover have "length (concat (map snd (word_writes (sp + 8) (map fst (string_writes sb av) @ [0])))) = 8 * (length av + 1)"
      by (simp only: word_writes_tile(2) length_words) simp
    ultimately show "tiles sp ?w2" by (simp only: tiles.simps tiles_append fst_conv snd_conv length_word_bytes) (intro conjI refl word_writes_tile(1); simp)
    show "tiles xb ?w4" by (rule word_writes_tile(1)) (use lt in \<open>simp add: pairs_nth(1) aux_def elf_auxv_def sb_def\<close>)
  qed simp
  have E: "xb = sp + length (concat (map word_bytes (entry_words sb av ev)))" "xb + 256 = xb + length (concat (map word_bytes (pairs aux)))"
    "sb = xb + 256 + length (elf_fill_random_bytes (timer_read w) 16)" "sb + length (concat (map (\<lambda>s. s @ [0 :: u8]) (av @ ev))) + 16 \<le> hi"
    unfolding L using lt by (simp_all add: X sb_def)
  obtain pg1 pg2 pg3 pg4 pg5 where P: "copy_all env ?r ?w1 pg0 = Done (True, pg1)" "copy_all env ?r ?w2 pg1 = Done (True, pg2)" "copy_all env ?r ?w3 pg2 = Done (True, pg3)"
    "copy_all env ?r ?w4 pg3 = Done (True, pg4)" "ktm_user_canary_install env ?r hi pg4 = Done pg5" "as_inv R pg5" "tabs pg5 = tabs pg0"
    "bytes_of (peek R pg5 ?r) sb (concat (map (\<lambda>s. s @ [0]) (av @ ev)))" "bytes_of (peek R pg5 ?r) sp (concat (map word_bytes (entry_words sb av ev)))"
    "bytes_of (peek R pg5 ?r) (xb + 256) (elf_fill_random_bytes (timer_read w) 16)" "bytes_of (peek R pg5 ?r) xb (concat (map word_bytes (pairs aux)))"
    "bytes_of (peek R pg5 ?r) (hi - 16) canary_bytes" "\<forall>s. \<forall>va < 2 ^ 47. s \<noteq> ?r \<or> \<not> (sp \<le> va \<and> va < hi) \<longrightarrow> peek R pg5 s va = peek R pg0 s va"
    using stack_copies [OF assms(4) V(2) own T C [symmetric] E assms(8), of env] by - (elim exE conjE, rule that, assumption+)
  obtain rc p' where R: "elf_setup_stack env w (Some av) (Some ev) phent phnum at_phdr at_base p pg = Done (rc, p', pg5)"
    "xp_sp p' = sp" "xp_arg0 p' = length av" "xp_arg1 p' = sp + 8" "xp_arg2 p' = sp + 8 + 8 * (length av + 1)"
    using setup_run [OF assms(5) hi assms(8,13-17) sp_def xb_def sb_def V(1) aux_def P(1-5)] by blast
  let ?m = "peek R pg5 ?r"
  have "sb + strings_size (av @ ev) < two64" using lt by (simp add: strings_size_append)
  note W = vectors_bytes [OF P(9,8) this]
  have st: "entry_stack ?m sp av ev aux" unfolding entry_stack_def using W auxv_bytes [OF P(11)] X by simp
  have out: "peek R pg5 s va = peek R pg s va" if "va < 2 ^ 47" "s \<noteq> ?r \<or> \<not> (lo \<le> va \<and> va < hi) \<and> \<not> (VDSO_USER_BASE \<le> va \<and> va < vdso_end w)" for s va
    using P(13) V(5) that B(1) by (metis le_trans)
  have vd: "bytes_of ?m VDSO_USER_BASE blob" if "bytes_of (peek R pg0 ?r) VDSO_USER_BASE blob" "vdso_blob w = Some blob" for blob
  proof -
    have le: "VDSO_USER_BASE + length blob \<le> vdso_end w" using that(2) align_up_ge by (simp add: vdso_end_def)
    have "peek R pg5 ?r (VDSO_USER_BASE + k) = peek R pg0 ?r (VDSO_USER_BASE + k)" if "k < length blob" for k
      using P(13) [rule_format, of "VDSO_USER_BASE + k" ?r] that le B(1) assms(10,11) by linarith
    then show ?thesis using that(1) by (simp add: bytes_of_def)
  qed
  have sw: "sole_writer (U R (tabs pg5))" using V(3) P(7) by simp
  let ?vd = "if vr = Inr () then VDSO_USER_BASE else 0"
  have "?vd = 0 \<or> ?vd = VDSO_USER_BASE \<and> (\<exists>blob. vdso_blob w = Some blob \<and> bytes_of ?m ?vd blob)" using V(6) vd by auto
  then show ?thesis using R(1,3-5) R(2) [symmetric] P(6,10,12) sw B(1,3) st [unfolded aux_def] out X
    by (intro exI [of _ rc] exI [of _ p'] exI [of _ pg5] exI [of _ ?m] exI [of _ sp] exI [of _ xb] exI [of _ ?vd]) simp
qed

section \<open>Witnesses\<close>

definition exec_proc_demo :: exec_proc where
  "exec_proc_demo = \<lparr>xp_user = True, xp_pgd = 0x100000, xp_stack_start = 0x400000, xp_stack_size = 4096, xp_uid = 0, xp_euid = 0, xp_gid = 0, xp_egid = 0,
     xp_at_secure = 0, xp_ip = 0x400000, xp_sp = 0, xp_fp = 0, xp_arg0 = 0, xp_arg1 = 0, xp_arg2 = 0, saved_environ = None\<rparr>"

definition exec_world_demo :: exec_world where
  "exec_world_demo = \<lparr>vdso_blob = None, kmalloc_argv = True, kmalloc_envp = True, kmalloc_environ = True, timer_read = 0\<rparr>"

theorem exec_stack_correct_witness:
  "\<exists>pg rc p' pg'. elf_setup_stack env_demo exec_world_demo (Some [[97, 98], [99]]) (Some []) 56 1 0x400040 0x400000 exec_proc_demo pg = Done (rc, p', pg') \<and>
     xp_arg0 p' = 2 \<and> xp_sp p' mod 16 = 0 \<and> vector_at (peek {0x100000, 0x200000} pg' 0x100000) (xp_arg1 p') [[97, 98], [99]]"
proof -
  let ?R = "{0x100000, 0x200000 :: nat}"
  obtain pg where d: "as_inv ?R pg" "sole_writer (U ?R (tabs pg))" "page_rw ?R pg 0x100000 (va_path 0x400010)" using demo_rw by blast
  have own: "own_page ?R pg 0x100000 (va_path va)" if "0x400000 \<le> va \<and> va < 0x400000 + 4096" for va
  proof -
    have "va div 4096 = 0x400010 div 4096" using that by (simp add: div_nat_eqI)
    then have "va_path va = va_path 0x400010" by (rule va_path_page)
    then show ?thesis using d(2,3) writable_sole unfolding page_rw_def own_page_def by metis
  qed
  have h: "xp_pgd exec_proc_demo \<in> ?R" "xp_user exec_proc_demo" "0x400000 = xp_stack_start exec_proc_demo" "0x401000 = 0x400000 + xp_stack_size exec_proc_demo" "0x401000 \<le> (2 :: nat) ^ 47"
    "\<forall>va. 0x400000 \<le> va \<and> va < 0x401000 \<longrightarrow> own_page ?R pg (xp_pgd exec_proc_demo) (va_path va)"
    "vdso_end exec_world_demo < 2 ^ 47" "vdso_end exec_world_demo \<le> 0x400000 \<or> 0x401000 \<le> VDSO_USER_BASE"
    "kmalloc_argv exec_world_demo" "kmalloc_envp exec_world_demo"
    "length [[97, 98], [99 :: u8]] \<le> ELF_ARG_MAX" "length ([] :: u8 list list) \<le> ELF_ARG_MAX" "stack_need [[97, 98], [99]] [] + 256 \<le> xp_stack_size exec_proc_demo"
    using own by (simp_all add: exec_proc_demo_def exec_world_demo_def vdso_end_def VDSO_USER_BASE_def ELF_ARG_MAX_def stack_need_def strings_size_def ELF_AUXV_PAIRS_def ELF_AT_RANDOM_BYTES_def)
  have n: "\<forall>va. VDSO_USER_BASE \<le> va \<and> va < vdso_end exec_world_demo \<longrightarrow> translate pg (xp_pgd exec_proc_demo) va = None"
    by (auto simp: exec_world_demo_def vdso_end_def)
  obtain rc p' pg' m sp xb vd where e: "elf_setup_stack env_demo exec_world_demo (Some [[97, 98], [99]]) (Some []) 56 1 0x400040 0x400000 exec_proc_demo pg = Done (rc, p', pg')"
    "m = peek ?R pg' (xp_pgd exec_proc_demo)" "sp = xp_sp p'" "sp mod 16 = 0" "xp_arg0 p' = length [[97, 98], [99 :: u8]]" "xp_arg1 p' = sp + 8"
    "entry_stack m sp [[97, 98], [99]] [] (elf_auxv exec_proc_demo 56 1 0x400040 0x400000 (xb + 256) vd)"
    using exec_stack_correct [OF env_demo_ok d(1,2) h(1-8) n h(9-13), of 56 1 "0x400040" "0x400000"] by - (elim exE conjE, rule that, assumption+)
  have "vector_at (peek ?R pg' 0x100000) (xp_arg1 p') [[97, 98], [99]]" using e(2,6,7) by (simp add: entry_stack_def exec_proc_demo_def)
  then show ?thesis using e(1,3-5) by (intro exI [of _ pg] exI [of _ rc] exI [of _ p'] exI [of _ pg']) simp
qed

end
