(* ===== verification/Exec_Script.thy ===== *)
theory Exec_Script
  imports Exec_Stack Access
begin

text \<open>
  Which image an exec runs (\<^verbatim>\<open>kernel/elf_loader.c\<close>): the permission check, the interpreter line of scripts, the argument vector a
  script's interpreter gets, the checks an image must pass in \<^verbatim>\<open>kexecve\<close> and \<^verbatim>\<open>exec_replace_current\<close> before anything is
  changed, and the credentials of the new image. The file system (\<^verbatim>\<open>vfs_stat\<close>, \<^verbatim>\<open>vfs_read_file\<close>,
  \<^verbatim>\<open>vfs_path_allows_setid\<close> and the routed stat of \<^verbatim>\<open>ir0_check_file_access\<close>) is an argument. \<^verbatim>\<open>kmalloc\<close> panics where
  it cannot allocate; the fault injection points of test builds are left out.
\<close>

section \<open>The interpreter line\<close>

definition blank :: "u8 \<Rightarrow> bool" where
  "blank c \<longleftrightarrow> c = 32 \<or> c = 9"

definition line_stop :: "u8 \<Rightarrow> bool" where
  "line_stop c \<longleftrightarrow> c = 10 \<or> c = 13 \<or> c = 0"

text \<open>\<^verbatim>\<open>memcpy\<close> to a buffer of \<open>n\<close> bytes and a NUL behind.\<close>

definition store_cstr :: "nat \<Rightarrow> u8 list \<Rightarrow> u8 list kresult" where
  "store_cstr n bs = (if length bs < n then Done bs else Stuck)"

text \<open>The results 0, 1 with the two strings, and \<^verbatim>\<open>-ENOEXEC\<close>; each scan is a \<^verbatim>\<open>while\<close> over the rest of the line.\<close>

definition exec_parse_shebang_line :: "u8 list \<Rightarrow> nat \<Rightarrow> nat \<Rightarrow> (errno + (u8 list \<times> u8 list) option) kresult" where
  "exec_parse_shebang_line fd interp_sz iarg_sz =
     (if length fd < 2 \<or> fd ! 0 \<noteq> 35 \<or> fd ! 1 \<noteq> 33 then Done (Inr None)
      else if interp_sz = 0 \<or> iarg_sz = 0 then Done (Inl ENOEXEC)
      else
        let p = dropWhile blank (drop 2 fd); line = takeWhile (\<lambda>c. \<not> line_stop c) p in
        if line = [] then Done (Inl ENOEXEC)
        else
          let line1 = rev (dropWhile blank (rev line)); path = takeWhile (\<lambda>c. \<not> blank c) line1; sp = drop (length path) line1 in
          if path = [] \<or> interp_sz \<le> length path then Done (Inl ENOEXEC)
          else kbind (store_cstr interp_sz path) (\<lambda>interp.
            if sp = [] then Done (Inr (Some (interp, [])))
            else
              let arg = dropWhile blank sp in
              if iarg_sz \<le> length arg then Done (Inl ENOEXEC)
              else kbind (store_cstr iarg_sz arg) (\<lambda>iarg. Done (Inr (Some (interp, iarg))))))"

definition exec_build_shebang_argv :: "bool \<Rightarrow> u8 list \<Rightarrow> u8 list \<Rightarrow> u8 list \<Rightarrow> u8 list list option \<Rightarrow> u8 list list kresult" where
  "exec_build_shebang_argv kmalloc_ok interp iarg script_path orig_argv =
     (if \<not> kmalloc_ok then Panic ''kmalloc: out of memory''
      else Done ([interp] @ (if iarg \<noteq> [] then [iarg] else []) @ [script_path] @ (case orig_argv of None \<Rightarrow> [] | Some v \<Rightarrow> drop 1 v)))"

section \<open>Finding the image\<close>

record exec_vfs =
  vfs_stat :: "u8 list \<Rightarrow> stat_t option"
  vfs_read_file :: "u8 list \<Rightarrow> errno + u8 list option"
  vfs_path_allows_setid :: "u8 list \<Rightarrow> bool"
  stat_routed :: "string \<Rightarrow> stat_t option"

definition cstr :: "u8 list \<Rightarrow> string" where
  "cstr bs = map (\<lambda>b. char_of (unat b)) bs"

definition exec_permission_denied :: "exec_vfs \<Rightarrow> cred_process option \<Rightarrow> u8 list \<Rightarrow> bool" where
  "exec_permission_denied v proc path =
     (case proc of
        None \<Rightarrow> False
      | Some p \<Rightarrow>
          if p_euid p = ROOT_UID then False
          else if vfs_stat v path = None then False
          else \<not> ir0_check_file_access (stat_routed v) proc (Some (cstr path)) ACCESS_EXEC)"

definition EXEC_SHEBANG_MAX_DEPTH :: nat where "EXEC_SHEBANG_MAX_DEPTH = 4"
definition interp_buf :: nat where "interp_buf = 256"
definition iarg_buf :: nat where "iarg_buf = 128"

text \<open>
  \<^verbatim>\<open>exec_replace_current_depth\<close> up to the point where the old image is given up: the path, the file and the arguments of the image to
  load. \<open>left\<close> is \<^verbatim>\<open>EXEC_SHEBANG_MAX_DEPTH - shebang_depth\<close>.
\<close>

fun exec_replace_front :: "exec_vfs \<Rightarrow> bool \<Rightarrow> cred_process option \<Rightarrow> nat \<Rightarrow> u8 list \<Rightarrow> u8 list list option \<Rightarrow> (errno + u8 list \<times> u8 list \<times> u8 list list option) kresult" where
  "exec_replace_front v km proc left path argv =
     (if exec_permission_denied v proc path then Done (Inl EACCES)
      else case vfs_read_file v path of
        Inl e \<Rightarrow> Done (Inl e)
      | Inr None \<Rightarrow> Done (Inl ENOENT)
      | Inr (Some fd) \<Rightarrow>
          if \<not> exec_buffer_is_elf fd then
            kbind (exec_parse_shebang_line fd interp_buf iarg_buf) (\<lambda>r. case r of
              Inr None \<Rightarrow> Done (Inl ENOEXEC)
            | Inl e \<Rightarrow> Done (Inl e)
            | Inr (Some (interp, iarg)) \<Rightarrow>
                (case left of
                   0 \<Rightarrow> Done (Inl ENOEXEC)
                 | Suc l \<Rightarrow>
                     if exec_permission_denied v proc interp then Done (Inl EACCES)
                     else kbind (exec_build_shebang_argv km interp iarg path argv) (\<lambda>nv. exec_replace_front v km proc l interp (Some nv))))
          else kbind (exec_audit_classify_elf fd) (\<lambda>cl.
            if \<not> cl then Done (Inl ENOEXEC)
            else kbind (validate_elf_header fd) (\<lambda>ok. if \<not> ok then Done (Inl ENOEXEC) else Done (Inr (path, fd, argv)))))"

text \<open>\<^verbatim>\<open>kexecve_depth\<close> up to the creation of the process. The result -1 is \<^verbatim>\<open>-EPERM\<close>.\<close>

fun kexecve_front :: "exec_vfs \<Rightarrow> bool \<Rightarrow> nat \<Rightarrow> u8 list \<Rightarrow> u8 list list option \<Rightarrow> (errno + u8 list \<times> u8 list \<times> u8 list list option) kresult" where
  "kexecve_front v km left path argv =
     (case vfs_read_file v path of
        Inl e \<Rightarrow> Done (Inl EPERM)
      | Inr None \<Rightarrow> Done (Inl EPERM)
      | Inr (Some fd) \<Rightarrow>
          if \<not> exec_buffer_is_elf fd then
            kbind (exec_parse_shebang_line fd interp_buf iarg_buf) (\<lambda>r. case r of
              Inr None \<Rightarrow> Done (Inl ENOEXEC)
            | Inl e \<Rightarrow> Done (Inl e)
            | Inr (Some (interp, iarg)) \<Rightarrow>
                (case left of
                   0 \<Rightarrow> Done (Inl ENOEXEC)
                 | Suc l \<Rightarrow> kbind (exec_build_shebang_argv km interp iarg path argv) (\<lambda>nv. kexecve_front v km l interp (Some nv))))
          else kbind (validate_elf_header fd) (\<lambda>ok. if \<not> ok then Done (Inl ENOEXEC) else Done (Inr (path, fd, argv))))"

declare exec_replace_front.simps [simp del] kexecve_front.simps [simp del]

section \<open>Set-user-ID and set-group-ID\<close>

record exec_cred =
  x_uid :: u32
  x_gid :: u32
  x_euid :: u32
  x_egid :: u32
  x_suid :: u32
  x_sgid :: u32
  x_at_secure :: bool
  no_new_privs :: bool

record exec_setid =
  raise_uid :: bool
  raise_gid :: bool
  new_euid :: u32
  new_egid :: u32

definition S_ISUID :: u32 where "S_ISUID = 0x800"
definition S_ISGID :: u32 where "S_ISGID = 0x400"

definition is_reg :: "u32 \<Rightarrow> bool" where
  "is_reg m \<longleftrightarrow> m AND 0xF000 = 0x8000"

definition exec_setid_collect :: "exec_vfs \<Rightarrow> exec_cred \<Rightarrow> u8 list \<Rightarrow> exec_setid" where
  "exec_setid_collect v proc path =
     (let none = \<lparr>raise_uid = False, raise_gid = False, new_euid = 0, new_egid = 0\<rparr> in
      case vfs_stat v path of
        None \<Rightarrow> none
      | Some st \<Rightarrow>
          if \<not> is_reg (st_mode st) then none
          else if st_mode st AND (S_ISUID OR S_ISGID) = 0 then none
          else if no_new_privs proc then none
          else if \<not> vfs_path_allows_setid v path then none
          else
            let o1 = (if st_mode st AND S_ISUID \<noteq> 0 then none\<lparr>raise_uid := True, new_euid := st_uid st\<rparr> else none) in
            if st_mode st AND S_ISGID \<noteq> 0 then o1\<lparr>raise_gid := True, new_egid := st_gid st\<rparr> else o1)"

definition exec_setid_commit :: "exec_setid \<Rightarrow> exec_cred \<Rightarrow> exec_cred" where
  "exec_setid_commit setid proc =
     (let p1 = (if raise_uid setid then proc\<lparr>x_euid := new_euid setid\<rparr> else proc);
        p2 = (if raise_gid setid then p1\<lparr>x_egid := new_egid setid\<rparr> else p1);
        p3 = p2\<lparr>x_suid := x_euid p2, x_sgid := x_egid p2\<rparr>
      in p3\<lparr>x_at_secure := (x_uid p3 \<noteq> x_euid p3 \<or> x_gid p3 \<noteq> x_egid p3)\<rparr>)"

section \<open>The format\<close>

text \<open>\<open>#!\<close>, the interpreter, and optionally an argument that may contain blanks inside; blanks around them do not count.\<close>

definition shebang_line :: "u8 list \<Rightarrow> u8 list \<Rightarrow> u8 list \<Rightarrow> bool" where
  "shebang_line i a fd \<longleftrightarrow> (\<exists>b1 b2 b3 rest. fd = [35, 33] @ b1 @ i @ b2 @ a @ b3 @ rest \<and> (\<forall>c \<in> set (b1 @ b2 @ b3). blank c) \<and>
     (rest = [] \<or> line_stop (hd rest)) \<and> i \<noteq> [] \<and> (\<forall>c \<in> set i. \<not> blank c \<and> \<not> line_stop c) \<and> (\<forall>c \<in> set a. \<not> line_stop c) \<and>
     (a = [] \<or> b2 \<noteq> [] \<and> \<not> blank (hd a) \<and> \<not> blank (last a)))"

lemma blank_not_stop: "blank c \<Longrightarrow> \<not> line_stop c"
  by (auto simp: blank_def line_stop_def)

lemma dropWhile_all: "\<forall>c \<in> set b. P c \<Longrightarrow> xs = [] \<or> \<not> P (hd xs) \<Longrightarrow> dropWhile P (b @ xs) = xs"
  by (induction b) (cases xs, auto)

lemma takeWhile_all: "\<forall>c \<in> set b. P c \<Longrightarrow> xs = [] \<or> \<not> P (hd xs) \<Longrightarrow> takeWhile P (b @ xs) = b"
  by (induction b) (cases xs, auto)

definition rtrim :: "u8 list \<Rightarrow> u8 list" where
  "rtrim line = rev (dropWhile blank (rev line))"

lemma rtrim_all: "\<forall>c \<in> set b. blank c \<Longrightarrow> xs = [] \<or> \<not> blank (last xs) \<Longrightarrow> rtrim (xs @ b) = xs"
  unfolding rtrim_def using dropWhile_all [of "rev b" blank "rev xs"] by (auto simp: hd_rev)

lemma rtrim_split: "\<exists>b. line = rtrim line @ b \<and> (\<forall>c \<in> set b. blank c)" "rtrim line \<noteq> [] \<Longrightarrow> \<not> blank (last (rtrim line))"
proof -
  have "rev line = takeWhile blank (rev line) @ dropWhile blank (rev line)" by simp
  then have "line = rtrim line @ rev (takeWhile blank (rev line))" unfolding rtrim_def by (metis rev_append rev_rev_ident)
  then show "\<exists>b. line = rtrim line @ b \<and> (\<forall>c \<in> set b. blank c)" by (metis set_rev set_takeWhileD)
  show "rtrim line \<noteq> [] \<Longrightarrow> \<not> blank (last (rtrim line))" unfolding rtrim_def by (simp add: last_rev hd_dropWhile)
qed

lemma shebang_parsed:
  assumes "shebang_line i a fd" "length i < isz" "length a < asz"
  shows "exec_parse_shebang_line fd isz asz = Done (Inr (Some (i, a)))"
proof -
  obtain b1 b2 b3 rest where s: "fd = [35, 33] @ b1 @ i @ b2 @ a @ b3 @ rest" "\<forall>c \<in> set (b1 @ b2 @ b3). blank c" "rest = [] \<or> line_stop (hd rest)" "i \<noteq> []"
    "\<forall>c \<in> set i. \<not> blank c \<and> \<not> line_stop c" "\<forall>c \<in> set a. \<not> line_stop c" "a = [] \<or> b2 \<noteq> [] \<and> \<not> blank (hd a) \<and> \<not> blank (last a)"
    using assms(1) unfolding shebang_line_def by blast
  have hi: "\<not> blank (hd i)" "\<not> blank (last i)" using s(4,5) by auto
  have p: "dropWhile blank (drop 2 fd) = (i @ b2 @ a @ b3) @ rest" using dropWhile_all [of b1 blank "(i @ b2 @ a @ b3) @ rest"] s(1,2,4) hi by simp
  have l: "takeWhile (\<lambda>c. \<not> line_stop c) ((i @ b2 @ a @ b3) @ rest) = i @ b2 @ a @ b3"
    by (rule takeWhile_all) (use s blank_not_stop in auto)
  have t: "rtrim (i @ b2 @ a @ b3) = (if a = [] then i else i @ b2 @ a)"
    using rtrim_all [of "b2 @ b3" i] rtrim_all [of b3 "i @ b2 @ a"] s(2,4,7) hi by auto
  have w: "takeWhile (\<lambda>c. \<not> blank c) (i @ xs) = i" if "xs = [] \<or> blank (hd xs)" for xs by (rule takeWhile_all) (use that s(5) in auto)
  have b2: "a \<noteq> [] \<Longrightarrow> blank (hd b2)" using s(2,7) by auto
  have d: "a \<noteq> [] \<Longrightarrow> dropWhile blank (b2 @ a) = a" by (rule dropWhile_all) (use s(2,7) in auto)
  have f: "\<not> (length fd < 2 \<or> fd ! 0 \<noteq> 35 \<or> fd ! 1 \<noteq> 33)" "\<not> (isz = 0 \<or> asz = 0)" "i @ b2 @ a @ b3 \<noteq> []" "\<not> (i = [] \<or> isz \<le> length i)" "\<not> asz \<le> length a"
    using s(1,4) assms(2,3) by simp_all
  show ?thesis
  proof (cases "a = []")
    case True
    have i: "takeWhile (\<lambda>c. \<not> blank c) i = i" using w [of "[]"] by simp
    show ?thesis unfolding exec_parse_shebang_line_def rtrim_def [symmetric] Let_def p l t if_not_P [OF f(1)] if_not_P [OF f(2)] if_not_P [OF f(3)]
        if_P [OF True] i if_not_P [OF f(4)] using True f(4) by (simp add: store_cstr_def)
  next
    case False
    have i: "takeWhile (\<lambda>c. \<not> blank c) (i @ b2 @ a) = i" using w [of "b2 @ a"] b2 [OF False] s(7) False by simp
    have x: "drop (length i) (i @ b2 @ a) = b2 @ a" "b2 @ a \<noteq> []" using False by simp_all
    show ?thesis unfolding exec_parse_shebang_line_def rtrim_def [symmetric] Let_def p l t if_not_P [OF f(1)] if_not_P [OF f(2)] if_not_P [OF f(3)]
        if_not_P [OF False] i if_not_P [OF f(4)] x(1) if_not_P [OF x(2)] d [OF False] if_not_P [OF f(5)] using f(4,5) by (simp add: store_cstr_def)
  qed
qed

lemma parsed_shebang:
  assumes "exec_parse_shebang_line fd isz asz = Done (Inr (Some (i, a)))"
  shows "shebang_line i a fd \<and> length i < isz \<and> length a < asz"
proof -
  define p where "p = dropWhile blank (drop 2 fd)"
  define line where "line = takeWhile (\<lambda>c. \<not> line_stop c) p"
  define path where "path = takeWhile (\<lambda>c. \<not> blank c) (rtrim line)"
  define sp where "sp = drop (length path) (rtrim line)"
  have c: "\<not> (length fd < 2 \<or> fd ! 0 \<noteq> 35 \<or> fd ! 1 \<noteq> 33)" "\<not> (isz = 0 \<or> asz = 0)" "path \<noteq> []" "length path < isz" "i = path" "a = dropWhile blank sp" "length a < asz"
    using assms unfolding exec_parse_shebang_line_def rtrim_def [symmetric] Let_def p_def [symmetric] line_def [symmetric] path_def [symmetric] sp_def [symmetric]
    by (auto simp: store_cstr_def split: if_splits)
  have fd: "fd = [35, 33] @ drop 2 fd" using c(1) by (intro nth_equalityI) (auto simp: nth_Cons less_Suc_eq_0_disj split: nat.splits)
  have p2: "drop 2 fd = takeWhile blank (drop 2 fd) @ p" by (simp add: p_def)
  have pl: "p = line @ dropWhile (\<lambda>c. \<not> line_stop c) p" by (simp add: line_def)
  obtain b3 where b3: "line = rtrim line @ b3" "\<forall>c \<in> set b3. blank c" using rtrim_split(1) by blast
  have ps: "rtrim line = path @ sp" unfolding path_def sp_def by (metis append_take_drop_id takeWhile_eq_take)
  have ss: "sp = takeWhile blank sp @ a" using c(6) by simp
  have st: "\<forall>c \<in> set line. \<not> line_stop c" unfolding line_def by (auto dest: set_takeWhileD)
  then have st2: "\<forall>c \<in> set path. \<not> line_stop c" "\<forall>c \<in> set a. \<not> line_stop c" using b3(1) ps ss by (metis Un_iff set_append)+
  have "sp = [] \<or> blank (hd sp)" unfolding sp_def path_def by (metis append_take_drop_id dropWhile_eq_drop hd_dropWhile)
  then have b2: "sp \<noteq> [] \<Longrightarrow> takeWhile blank sp \<noteq> []" by (cases sp) auto
  have ha: "a \<noteq> [] \<Longrightarrow> \<not> blank (hd a)" unfolding c(6) by (rule hd_dropWhile)
  have la: "a \<noteq> [] \<Longrightarrow> \<not> blank (last a)" using rtrim_split(2) [of line] ps ss by (metis append_is_Nil_conv last_append)
  let ?b1 = "takeWhile blank (drop 2 fd)" and ?rest = "dropWhile (\<lambda>c. \<not> line_stop c) p"
  have "fd = [35, 33] @ ?b1 @ i @ takeWhile blank sp @ a @ b3 @ ?rest" using fd p2 pl b3(1) ps ss c(5) by (metis append.assoc)
  moreover have "\<forall>c \<in> set (?b1 @ takeWhile blank sp @ b3). blank c" using b3(2) by (auto dest: set_takeWhileD)
  moreover have "?rest = [] \<or> line_stop (hd ?rest)" using hd_dropWhile [of "\<lambda>c. \<not> line_stop c" p] by blast
  moreover have "\<forall>c \<in> set i. \<not> blank c \<and> \<not> line_stop c" using st2(1) c(5) unfolding path_def by (auto dest: set_takeWhileD)
  moreover have "a = [] \<or> takeWhile blank sp \<noteq> [] \<and> \<not> blank (hd a) \<and> \<not> blank (last a)" using b2 ha la ss by auto
  ultimately have "shebang_line i a fd" unfolding shebang_line_def using c(3,5) st2(2) by blast
  then show ?thesis using c(4,5,7) by simp
qed

section \<open>Properties\<close>

lemma parse_Done: "\<exists>r. exec_parse_shebang_line fd isz asz = Done r"
  by (auto simp: exec_parse_shebang_line_def store_cstr_def Let_def)

text \<open>
  C25: The interpreter line. The parser always returns and never writes behind its buffers, and it accepts exactly the lines of the documented
  form whose parts fit, with the interpreter and the argument as they are in the file.
\<close>

theorem shebang_exact:
  "(\<exists>r. exec_parse_shebang_line fd isz asz = Done r) \<and>
   (exec_parse_shebang_line fd isz asz = Done (Inr (Some (i, a))) \<longleftrightarrow> shebang_line i a fd \<and> length i < isz \<and> length a < asz)"
  using parse_Done shebang_parsed parsed_shebang by blast

lemma validate_Done: "elf_header_size \<le> length fd \<Longrightarrow> \<exists>b. validate_elf_header fd = Done b"
  by (auto simp: validate_elf_header_def require_def e_ident_def e_machine_def e_type_def field_Done elf_header_size_def)

lemma classify_Done: "\<exists>b. exec_audit_classify_elf fd = Done b \<and> (b \<longrightarrow> elf_header_size \<le> length fd)"
  by (auto simp: exec_audit_classify_elf_def require_def e_ident_def field_Done elf_header_size_def)

text \<open>
  What an exec of \<open>path\<close> with \<open>argv\<close> runs, over the files alone: an executable file with a complete and valid header runs itself;
  a script runs what its interpreter runs with the path of the interpreter, the argument of the line if there is one, the path of the script
  and the arguments behind the first. \<open>n\<close> bounds the number of scripts.
\<close>

definition valid_image :: "u8 list \<Rightarrow> bool" where
  "valid_image fd \<longleftrightarrow> exec_buffer_is_elf fd \<and> elf_header_size \<le> length fd \<and> exec_audit_classify_elf fd = Done True \<and> validate_elf_header fd = Done True"

inductive runs_image :: "exec_vfs \<Rightarrow> cred_process option \<Rightarrow> nat \<Rightarrow> u8 list \<Rightarrow> u8 list list option \<Rightarrow> u8 list \<times> u8 list \<times> u8 list list option \<Rightarrow> bool" for v proc where
  image: "\<not> exec_permission_denied v proc path \<Longrightarrow> vfs_read_file v path = Inr (Some fd) \<Longrightarrow> valid_image fd \<Longrightarrow> runs_image v proc n path argv (path, fd, argv)"
| script: "\<not> exec_permission_denied v proc path \<Longrightarrow> vfs_read_file v path = Inr (Some fd) \<Longrightarrow> \<not> exec_buffer_is_elf fd \<Longrightarrow>
    shebang_line i a fd \<Longrightarrow> length i < interp_buf \<Longrightarrow> length a < iarg_buf \<Longrightarrow>
    runs_image v proc n i (Some ([i] @ (if a = [] then [] else [a]) @ [path] @ (case argv of None \<Rightarrow> [] | Some av \<Rightarrow> drop 1 av))) res \<Longrightarrow>
    runs_image v proc (Suc n) path argv res"

inductive_simps runs_image_simp: "runs_image v proc n path argv res"

lemma runs_not_denied: "runs_image v proc n path argv res \<Longrightarrow> \<not> exec_permission_denied v proc path"
  by (erule runs_image.cases) simp_all

definition front_ok :: "exec_vfs \<Rightarrow> cred_process option \<Rightarrow> nat \<Rightarrow> u8 list \<Rightarrow> u8 list list option \<Rightarrow> bool" where
  "front_ok v proc left path argv \<longleftrightarrow> (\<exists>r. exec_replace_front v True proc left path argv = Done r \<and> (\<forall>res. r = Inr res \<longleftrightarrow> runs_image v proc left path argv res))"

text \<open>An error is right where nothing can be run.\<close>

lemma front_error: "exec_replace_front v True proc left path argv = Done (Inl e) \<Longrightarrow> (\<And>res. \<not> runs_image v proc left path argv res) \<Longrightarrow> front_ok v proc left path argv"
  by (simp add: front_ok_def)

lemma front_elf:
  assumes "\<not> exec_permission_denied v proc path" "vfs_read_file v path = Inr (Some fd)" "exec_buffer_is_elf fd"
  shows "front_ok v proc left path argv"
proof -
  obtain b where b: "exec_audit_classify_elf fd = Done b" "b \<longrightarrow> elf_header_size \<le> length fd" using classify_Done by blast
  have s: "runs_image v proc left path argv res \<longleftrightarrow> valid_image fd \<and> res = (path, fd, argv)" for res
    using assms by (subst runs_image_simp) auto
  show ?thesis
  proof (cases b)
    case True
    obtain c where "validate_elf_header fd = Done c" using validate_Done b(2) True by blast
    then show ?thesis using assms b True s
      by (cases c) (auto simp: front_ok_def exec_replace_front.simps [of v True proc left path] valid_image_def)
  next
    case False
    then show ?thesis using assms b s by (intro front_error [of _ _ _ _ _ ENOEXEC]) (simp_all add: exec_replace_front.simps [of v True proc left path] valid_image_def)
  qed
qed

lemma front_script:
  assumes n: "\<not> exec_permission_denied v proc path" and fd: "vfs_read_file v path = Inr (Some fd)" "\<not> exec_buffer_is_elf fd"
    and IH: "\<And>l path argv. left = Suc l \<Longrightarrow> front_ok v proc l path argv"
  shows "front_ok v proc left path argv"
proof -
  note E = exec_replace_front.simps [of v True proc left path argv]
  obtain r where r: "exec_parse_shebang_line fd interp_buf iarg_buf = Done r" using parse_Done by blast
  let ?nv = "\<lambda>i a. Some ([i] @ (if a = [] then [] else [a]) @ [path] @ (case argv of None \<Rightarrow> [] | Some v \<Rightarrow> drop 1 v))"
  have s: "runs_image v proc left path argv res \<longleftrightarrow> (\<exists>i a l. r = Inr (Some (i, a)) \<and> left = Suc l \<and> runs_image v proc l i (?nv i a) res)" for res
  proof -
    have "runs_image v proc left path argv res \<longleftrightarrow> (\<exists>i a l. (shebang_line i a fd \<and> length i < interp_buf \<and> length a < iarg_buf) \<and> left = Suc l \<and> runs_image v proc l i (?nv i a) res)"
      using n fd by (subst runs_image_simp) (auto simp: valid_image_def)
    moreover have "(shebang_line i a fd \<and> length i < interp_buf \<and> length a < iarg_buf) \<longleftrightarrow> r = Inr (Some (i, a))" for i a
      using shebang_parsed [of i a fd interp_buf iarg_buf] parsed_shebang [of fd interp_buf iarg_buf i a] r by auto
    ultimately show ?thesis by simp
  qed
  consider e where "r = Inl e" | "r = Inr None" | i a where "r = Inr (Some (i, a))" by (metis option.exhaust old.sum.exhaust surj_pair)
  then show ?thesis
  proof cases
    case (3 i a)
    show ?thesis
    proof (cases left)
      case (Suc l)
      show ?thesis
      proof (cases "exec_permission_denied v proc i")
        case False
        have "exec_replace_front v True proc left path argv = exec_replace_front v True proc l i (?nv i a)"
          unfolding E using n fd r 3 Suc False by (simp add: exec_build_shebang_argv_def)
        then show ?thesis using IH [OF Suc, of i "?nv i a"] s 3 Suc unfolding front_ok_def by auto
      next
        case True
        then show ?thesis using s 3 runs_not_denied n fd r Suc E by (intro front_error [of _ _ _ _ _ EACCES]) auto
      qed
    qed (use s n fd r 3 E in \<open>auto intro: front_error\<close>)
  qed (use s n fd r E in \<open>auto intro: front_error\<close>)
qed

lemma exec_front_ok: "front_ok v proc left path argv"
proof (induction left arbitrary: path argv rule: less_induct)
  case (less left path argv)
  note E = exec_replace_front.simps [of v True proc left path argv]
  show ?case
  proof (cases "exec_permission_denied v proc path")
    case False
    show ?thesis
    proof (cases "\<exists>fd. vfs_read_file v path = Inr (Some fd)")
      case True
      then obtain fd where fd: "vfs_read_file v path = Inr (Some fd)" by blast
      show ?thesis by (cases "exec_buffer_is_elf fd") (rule front_elf [OF False fd] front_script [OF False fd]; use less.IH in simp)+
    next
      case none: False
      then have "\<not> runs_image v proc left path argv res" for res by (subst runs_image_simp) auto
      moreover have "\<exists>e. exec_replace_front v True proc left path argv = Done (Inl e)"
        using False none E by (cases "vfs_read_file v path") (auto split: option.splits)
      ultimately show ?thesis using front_error by blast
    qed
  qed (use E runs_not_denied in \<open>auto intro: front_error\<close>)
qed

text \<open>
  C16: Choosing the image. Whatever the files hold, the search for the image of an exec returns, and it ends in an image exactly when the
  files have one to run within four scripts: each script names by its own first line the interpreter that runs next, every file on the way and the image may
  be executed by the caller, the image has a complete and valid ELF header, and its arguments are those of the caller with, for every script, the
  interpreter's path, the argument of the line if it has one and the script's path in front. In all other cases the result is an error.
\<close>

theorem exec_image_found:
  assumes "km"
  shows "\<exists>r. exec_replace_front v km proc EXEC_SHEBANG_MAX_DEPTH path argv = Done r \<and> (\<forall>res. r = Inr res \<longleftrightarrow> runs_image v proc EXEC_SHEBANG_MAX_DEPTH path argv res)"
  using exec_front_ok [of v proc EXEC_SHEBANG_MAX_DEPTH path argv] assms by (simp add: front_ok_def)

text \<open>
  The check of the length of the file is in \<^verbatim>\<open>exec_replace_current\<close> only. \<^verbatim>\<open>kexecve\<close> reads the header of a file that
  consists of the four magic bytes and so looks behind the end of the buffer, where \<^verbatim>\<open>exec_replace_current\<close> refuses it.
\<close>

theorem kexecve_short_file:
  assumes "vfs_read_file v path = Inr (Some [0x7F, 69, 76, 70])" "\<not> exec_permission_denied v proc path"
  shows "kexecve_front v km left path argv = Stuck \<and> exec_replace_front v km proc left path argv = Done (Inl ENOEXEC)"
  using assms by (simp add: kexecve_front.simps [of v km left] exec_replace_front.simps [of v km proc left] exec_buffer_is_elf_def validate_elf_header_def require_def
    exec_audit_classify_elf_def e_ident_def field_def file_bytes_def elf_header_size_def)

text \<open>
  C24: The credentials of the new image. The real IDs never change, the saved IDs are the effective ones, \<^verbatim>\<open>AT_SECURE\<close> says whether real and
  effective IDs differ, and an effective ID changes exactly when the file is a regular file with the set-ID bit on a mount that allows it
  and the task has not set \<^verbatim>\<open>no_new_privs\<close>; it is then the owner of the file.
\<close>

theorem exec_setid_exact:
  "\<exists>c'. exec_setid_commit (exec_setid_collect v c path) c = c' \<and> x_uid c' = x_uid c \<and> x_gid c' = x_gid c \<and> x_suid c' = x_euid c' \<and> x_sgid c' = x_egid c' \<and>
     (x_at_secure c' \<longleftrightarrow> x_uid c' \<noteq> x_euid c' \<or> x_gid c' \<noteq> x_egid c') \<and>
     x_euid c' = (case vfs_stat v path of
        Some st \<Rightarrow> if is_reg (st_mode st) \<and> bit (st_mode st) 11 \<and> \<not> no_new_privs c \<and> vfs_path_allows_setid v path then st_uid st else x_euid c | None \<Rightarrow> x_euid c) \<and>
     x_egid c' = (case vfs_stat v path of
        Some st \<Rightarrow> if is_reg (st_mode st) \<and> bit (st_mode st) 10 \<and> \<not> no_new_privs c \<and> vfs_path_allows_setid v path then st_gid st else x_egid c | None \<Rightarrow> x_egid c)"
proof -
  have u: "S_ISUID = bit_mask 11" "S_ISGID = bit_mask 10" by (simp_all add: S_ISUID_def S_ISGID_def bit_mask_def)
  have b: "m AND S_ISUID \<noteq> 0 \<longleftrightarrow> bit m 11" "m AND S_ISGID \<noteq> 0 \<longleftrightarrow> bit m 10" for m :: u32
    unfolding u by (simp_all add: and_bit_mask_neq_0)
  have "m AND (S_ISUID OR S_ISGID) = (m AND S_ISUID) OR (m AND S_ISGID)" for m :: u32 by (rule bit.conj_disj_distrib)
  then have o: "m AND (S_ISUID OR S_ISGID) = 0 \<longleftrightarrow> \<not> bit m 11 \<and> \<not> bit m 10" for m :: u32 using b [of m] by (metis bit.disj_zero_right or_eq_0_iff)
  show ?thesis unfolding exec_setid_collect_def o by (auto simp: exec_setid_commit_def b Let_def split: option.splits)
qed

section \<open>Witnesses\<close>

definition script_demo :: "u8 list" where
  "script_demo = [35, 33, 47, 115, 32, 45, 101, 10]"

definition vfs_demo :: exec_vfs where
  "vfs_demo = \<lparr>vfs_stat = (\<lambda>_. None), vfs_read_file = (\<lambda>p. if p = [47, 97] then Inr (Some script_demo) else if p = [47, 115] then Inr (Some elf_demo) else if p = [47, 98] then Inr (Some [0x7F, 69, 76, 70]) else Inl ENOENT),
     vfs_path_allows_setid = (\<lambda>_. True), stat_routed = (\<lambda>_. None)\<rparr>"

definition setid_vfs_demo :: exec_vfs where
  "setid_vfs_demo = vfs_demo\<lparr>vfs_stat := (\<lambda>_. Some \<lparr>st_mode = 0x89ED, st_uid = 0, st_gid = 5\<rparr>)\<rparr>"

definition cred_demo :: exec_cred where
  "cred_demo = \<lparr>x_uid = 7, x_gid = 8, x_euid = 7, x_egid = 8, x_suid = 7, x_sgid = 8, x_at_secure = False, no_new_privs = False\<rparr>"

theorem exec_setid_exact_witness:
  "\<exists>c'. exec_setid_commit (exec_setid_collect setid_vfs_demo cred_demo [47, 97]) cred_demo = c' \<and>
     x_uid c' = 7 \<and> x_euid c' = 0 \<and> x_suid c' = 0 \<and> x_egid c' = 8 \<and> x_sgid c' = 8 \<and> x_at_secure c'"
proof -
  have m: "is_reg 0x89ED" "bit (0x89ED :: u32) 11" by (simp_all add: is_reg_def)
  have g: "\<not> bit (0x89ED :: u32) 10" by simp
  show ?thesis using exec_setid_exact [of setid_vfs_demo cred_demo "[47, 97]"] m g by (auto simp: setid_vfs_demo_def vfs_demo_def cred_demo_def)
qed

theorem kexecve_short_file_witness:
  "kexecve_front vfs_demo True 4 [47, 98] None = Stuck \<and> exec_replace_front vfs_demo True None 4 [47, 98] None = Done (Inl ENOEXEC)"
  by (rule kexecve_short_file) (simp_all add: vfs_demo_def exec_permission_denied_def)

lemma script_demo_parsed: "exec_parse_shebang_line script_demo interp_buf iarg_buf = Done (Inr (Some ([47, 115], [45, 101])))"
  by (simp add: exec_parse_shebang_line_def script_demo_def blank_def line_stop_def interp_buf_def iarg_buf_def store_cstr_def)

lemma elf_demo_valid: "exec_buffer_is_elf elf_demo" "exec_audit_classify_elf elf_demo = Done True" "validate_elf_header elf_demo = Done True"
  by (simp_all add: elf_demo_def elf_demo_header_def exec_buffer_is_elf_def exec_audit_classify_elf_def validate_elf_header_def require_def e_ident_def e_machine_def e_type_def
    field_def file_bytes_def elf_header_size_def ELFCLASS64_def elf_machine_supported_def ELF_EM_X86_64_def ET_EXEC_def)

theorem exec_image_found_witness:
  "exec_replace_front vfs_demo True None EXEC_SHEBANG_MAX_DEPTH [47, 97] (Some [[97], [120]]) =
     Done (Inr ([47, 115], elf_demo, Some [[47, 115], [45, 101], [47, 97], [120]]))"
proof -
  have d: "\<not> exec_permission_denied vfs_demo None p" for p by (simp add: exec_permission_denied_def)
  have f: "vfs_read_file vfs_demo [47, 97] = Inr (Some script_demo)" "vfs_read_file vfs_demo [47, 115] = Inr (Some elf_demo)" by (simp_all add: vfs_demo_def)
  have m: "EXEC_SHEBANG_MAX_DEPTH = Suc 3" by (simp add: EXEC_SHEBANG_MAX_DEPTH_def)
  have s: "\<not> exec_buffer_is_elf script_demo" by (simp add: script_demo_def exec_buffer_is_elf_def)
  have l: "elf_header_size \<le> length elf_demo" using classify_Done [of elf_demo] elf_demo_valid(2) by auto
  note p = parsed_shebang [OF script_demo_parsed]
  have i: "runs_image vfs_demo None 3 [47, 115] argv ([47, 115], elf_demo, argv)" for argv
    by (rule runs_image.image [OF d f(2)]) (use elf_demo_valid l in \<open>simp add: valid_image_def\<close>)
  have "runs_image vfs_demo None EXEC_SHEBANG_MAX_DEPTH [47, 97] (Some [[97], [120]]) ([47, 115], elf_demo, Some [[47, 115], [45, 101], [47, 97], [120]])"
    unfolding m by (rule runs_image.script [OF d f(1) s, where i = "[47, 115]" and a = "[45, 101]"]) (use p i in simp_all)
  then show ?thesis using exec_image_found [of True vfs_demo None "[47, 97]" "Some [[97], [120]]"] by auto
qed

end
