(* ===== verification/Spec2Isabelle.thy ===== *)
theory Spec2Isabelle
  imports Pmm Kmem Fork_Memory Pipe Sched Access Flock Futex Eventfd Timerfd Memfd Path Ipc Fd_Calls Tmpfs_Runs Proc_Props Dns_Props Exec_Script
begin

text \<open>
  \<^bold>\<open>A model of the IR0 kernel.\<close> IR0 is a monolithic x86-64 kernel in C. The development follows its
  sources component by component; a definition keeps the name of the C function it translates, and
  the lines are listed in the project manifest.

  \<^bold>\<open>Conventions.\<close> \<open>Prelude\<close> holds what all theories share. A function that may panic or follow a
  pointer returns \<open>kresult\<close>: \<open>Done\<close> with its result, \<open>Panic\<close> with the message of the source, or
  \<open>Stuck\<close> when it would dereference NULL or a dangling pointer or never end. So a theorem that a
  call returns \<open>Done\<close> says that it terminates and is memory safe. Linked structures live in explicit
  stores from addresses to nodes; \<^verbatim>\<open>size_t\<close> and \<^verbatim>\<open>uintptr_t\<close> are numbers with the
  wrap-around at \<open>2 ^ 64\<close> written out (\<open>add64\<close>, \<open>sub64\<close>), and bit-level code is on machine words.
  Interrupt locks bracket whole operations, so an operation is one step. What the sources take from
  elsewhere is an argument: which \<^verbatim>\<open>kmalloc\<close> succeeds and the address it returns, whether a copy
  from or to user memory faults, the clock, the result of a file look-up, and what other processes do
  while the caller sleeps.

  \<^bold>\<open>Memory.\<close>
  \<^item> \<open>Pmm\<close> (\<^verbatim>\<open>mm/pmm.c\<close>): the frame bitmap, search hint, reference counts and owner classes. Every
    reachable state is consistent; the manager implements the contract \<open>Frame_Pool\<close>, a partial map
    from frames to reference counts, on which the client loops of memfd and fork are proved.
  \<^item> \<open>Allocator\<close> (\<^verbatim>\<open>mm/allocator.c\<close>) over \<open>Heap_Blocks\<close>: boundary tags, the doubly linked free list,
    splitting, merging in both directions. It implements the contract \<open>Block_Heap\<close>, from which every
    program that keeps to its own blocks sees private memory.
  \<^item> \<open>Kmem\<close> (\<^verbatim>\<open>mm/kmem.c\<close>): the checked, trying and aligned interfaces on top of it.
  \<^item> \<open>Pte\<close> (\<^verbatim>\<open>arch/x86-64/sources/mm_ops.c\<close>): page-table descriptors bit by bit. \<open>Page_Walk\<close>: four-level
    tables as a store from addresses to 512 entries, the translation of an address, and the invariant
    \<open>pt_inv\<close> that the tables of all address spaces form a forest in the lower half.
  \<^item> \<open>Page_Table\<close> (\<^verbatim>\<open>mm/paging.c\<close>): look-up, mapping and unmapping. Each changes the translation of its own
    page only; what is relied on of the heap (a table page is new, aligned and outside the frame
    pool) is the hypothesis \<open>env_ok\<close>.
  \<^item> \<open>Address_Space\<close>, \<open>User_Region\<close>, \<open>User_Copy\<close> (\<^verbatim>\<open>mm/paging.c\<close>, \<^verbatim>\<open>kernel/lib/copy_user.c\<close>): user memory
    on top of the tables and the frames. The invariant \<open>as_inv\<close> says that user pages are pool frames with
    at least as many references as mappings, \<open>sole_writer\<close> that a frame writable through one mapping has
    no other. From them: regions are mapped whole or rolled back, copy-on-write is invisible, and a
    copy to one process changes no byte of another.
  \<^item> \<open>Fork_Memory\<close>: the two passes of \<^verbatim>\<open>copy_process_memory\<close>, and that parent and child are isolated
    afterwards.

  \<^bold>\<open>Scheduling.\<close>
  \<^item> \<open>Process_State\<close> (\<^verbatim>\<open>kernel/process.h\<close>, \<^verbatim>\<open>sched/sched_switch.c\<close>): the scheduling state of a process and the
    hand-over of the processor.
  \<^item> \<open>Linked_Queue\<close>: singly linked queues with head and tail in a store, shared by the next theories.
  \<^item> \<open>Rr_Sched\<close> (\<^verbatim>\<open>sched/rr_sched.c\<close>) and \<open>Priority_Sched\<close> (\<^verbatim>\<open>sched/priority_sched.c\<close>): both refine
    queues of processes; no ready process starves under round robin, and the priority scheduler runs
    a process of the highest non-empty band. The search for a runnable process gives up after 100 and
    64 attempts as in the sources; the theorems say when that is enough.
  \<^item> \<open>Sched_Ops\<close>, \<open>Sched\<close> (\<^verbatim>\<open>sched/sched.c\<close>, \<^verbatim>\<open>sched/sched_resched.c\<close>): the table of operations
    as an interface with both schedulers as instances, and preemption.

  \<^bold>\<open>Processes and signals.\<close>
  \<^item> \<open>Signal\<close> (\<^verbatim>\<open>kernel/lib/signals.c\<close>, the signal calls of \<^verbatim>\<open>kernel/syscalls/process_syscalls.c\<close>): the signal state of one process, its
    handlers and masks, the default actions in the order of the code, the choice of a stack, entering and leaving a handler. Of the
    registers the instruction and stack pointers and the first two arguments are kept. \<open>Signal_Delivery\<close>: which signal is delivered
    with which stack, registers and mask, that returning restores them, and two cases where caught or blocked signals misbehave.
  \<^item> \<open>Proc_Tree\<close> (\<^verbatim>\<open>kernel/process/wait.c\<close>, \<^verbatim>\<open>exit.c\<close>, \<^verbatim>\<open>signals.c\<close>, \<^verbatim>\<open>fork.c\<close>): the list of all processes, fork, exit, fatal signals, reparenting
    and \<^verbatim>\<open>wait4\<close>. A wait is a sequence of passes, each up to its return or its sleep. \<open>Proc_Run\<close>: the invariant \<open>tree\<close>, with a set of processes
    whose burial is under way, kept by every operation; exit and fatal signals share \<open>bury\<close>. \<open>Proc_Props\<close>: the step relation and the
    theorems: no wake-up is lost, a waiting parent gets the status of its child, \<^verbatim>\<open>SIGKILL\<close> always works. Changing the process group of
    a sleeping process and threads are not steps.

  \<^bold>\<open>Programs.\<close>
  \<^item> \<open>Elf_Image\<close> (\<^verbatim>\<open>kernel/elf_loader.c\<close>): fields are read from the bytes of the file, outside of which a read is \<open>Stuck\<close>; the header
    checks, the scans of the program headers and the two phases of \<^verbatim>\<open>elf_load_segments\<close> over the page tables. A well-formed image is
    loaded byte for byte with its permissions, on pages of its own (\<open>region_added\<close>, \<open>own_page\<close>); a malformed one can write kernel pages.
  \<^item> \<open>Exec_Stack\<close> (\<^verbatim>\<open>elf_setup_stack\<close>, \<^verbatim>\<open>kernel/vdso.c\<close>, \<^verbatim>\<open>ktm/user_canary.c\<close>, \<^verbatim>\<open>kernel/process/saved_environ.c\<close>): the initial stack. The copies tile
    its parts (\<open>tiles\<close>), so that a program reading upwards from the stack pointer finds the System V layout \<open>entry_stack\<close>.
  \<^item> \<open>Exec_Script\<close>: which file an exec runs. The parser of interpreter lines against the format \<open>shebang_line\<close>, the search through at most
    four interpreters by recursion on the levels left, and set-ID credentials.

  \<^bold>\<open>Communication and waiting.\<close>
  \<^item> \<open>Byte_Ring\<close>, \<open>Pipe\<close> (\<^verbatim>\<open>kernel/lib/pipe.c\<close>): a ring buffer refines a byte queue; pipes deliver a
    stream in order and free themselves with their last end.
  \<^item> \<open>Wait_Queue\<close>, \<open>Ipc\<close> (\<^verbatim>\<open>kernel/ipc.c\<close>): wait queues are fair; channel look-ups are exact, a
    sleeping reader is woken by the next write, the last reference frees the channel. The search for
    an unused identifier makes 65536 attempts as in the source.
  \<^item> \<open>Futex\<close> (\<^verbatim>\<open>kernel/futex.c\<close>), \<open>Flock\<close> (\<^verbatim>\<open>fs/flock.c\<close>), \<open>Fd_Objects\<close> with \<open>Eventfd\<close>, \<open>Timerfd\<close>,
    \<open>Memfd\<close> (\<^verbatim>\<open>kernel/eventfd.c\<close>, \<^verbatim>\<open>kernel/timerfd.c\<close>, \<^verbatim>\<open>kernel/memfd.c\<close>): fixed tables of 64, 32 or
    16 entries scanned for the first match.
  \<^item> \<open>Fd_Table\<close>, \<open>Fd_Refs\<close>, \<open>Fd_Calls\<close> (\<^verbatim>\<open>kernel/process/files_struct.c\<close>, \<^verbatim>\<open>kernel/process/fdtable.c\<close>, the descriptor
    calls of \<^verbatim>\<open>kernel/syscalls/io_syscalls.c\<close>): descriptor tables and the references of their slots to the objects
    above, of which only kind and counts are kept. The invariant \<open>fd_inv\<close> says that all counts are exact; it
    gives the safety of every call, that nothing leaks, and the effect of \<^verbatim>\<open>dup2\<close>, \<^verbatim>\<open>fork\<close> and \<^verbatim>\<open>exec\<close>. Epoll sets are not
    counted by the code and are excluded from it.

  \<^bold>\<open>Names and rights.\<close>
  \<^item> \<open>Path\<close> (\<^verbatim>\<open>fs/path.c\<close>): normalisation and joining of paths in bounded buffers, and the chroot jail.
  \<^item> \<open>Access\<close> (\<^verbatim>\<open>fs/permissions.c\<close>, \<^verbatim>\<open>fs/chmod.c\<close>, \<^verbatim>\<open>kernel/credentials.c\<close>): who may read, write and execute,
    and the parsing of modes.
  \<^item> \<open>Tmpfs\<close> (\<^verbatim>\<open>fs/tmpfs.c\<close>): the in-memory file system, inodes in a fixed array linked by parent, first child and sibling.
    \<open>Tmpfs_Tree\<close>: the invariant \<open>tree_inv\<close> that they form a tree with unique names, under which look-up follows the
    components of a path. \<open>Tmpfs_Ops\<close>, \<open>Tmpfs_Calls\<close>, \<open>Tmpfs_Runs\<close>: every operation against the map from path components to
    contents, and the safety of sequences of calls; \<^verbatim>\<open>tmpfs_link\<close> is left out of them because it breaks the invariant.

  \<^bold>\<open>Network.\<close>
  \<^item> \<open>Dns\<close>, \<open>Dns_Props\<close> (\<^verbatim>\<open>net/dns.c\<close>): the resolver over packets as byte lists. Any packet is parsed inside its bounds; compression pointers are
    followed at most 32 times as in the source, and the measure of that and the rest of the packet ends the loop. Names survive the wire, the
    answer to a query reaches its caller, and the wait ends with the timeout.

  \<^bold>\<open>Fuel and termination.\<close> Loops over tables are list functions. Walks along pointers are
  \<^theory_text>\<open>partial_function\<close>s in the option monad: not returning is \<open>None\<close>, and the representation invariants
  prove that they return. Bounded searches keep the bound of the source. Releasing a directory tree recurses with a
  depth of \<open>free_fuel\<close>, twice the number of inodes, which \<open>tmpfs_umount_terminates\<close> shows to be enough.

  \<^bold>\<open>Not modelled.\<close> Page faults, process creation, the part of \<^verbatim>\<open>exec\<close> that gives up the old image, the file-system switch, the disk file systems and the rest of the network
  stack mix their own logic with block and packet I/O and are left out; of the system-call layer the calls are modelled
  whose components are. Drivers,
  assembly, console output and the ARM64 port are left out: they act on hardware that the sources do
  not describe. Messages to the log are left out throughout.
\<close>

end
